(* ===== verification/Prelude.thy ===== *)
theory Prelude
  imports Main "HOL-Library.Word" "HOL-Library.Sublist" "HOL-Library.Char_ord"
    "HOL-Library.List_Lexorder"
begin

text \<open>
  The shared vocabulary of the development: Rust's fixed-width integers as words, byte
  strings, the crate's error type (\<open>src/src/error.rs\<close>), \<open>Result\<close> as a sum
  type with its bind, slices of byte strings, big- and little-endian integers, and the
  generic list facts the components use.
\<close>

unbundle bit_operations_syntax

named_theorems result_simps \<open>evaluation of the error monad\<close>
named_theorems wire_simps \<open>lengths and decompositions of encoded byte strings\<close>

section \<open>Integers and byte strings\<close>

type_synonym u8 = "8 word"
type_synonym u16 = "16 word"
type_synonym u32 = "32 word"
type_synonym u64 = "64 word"
type_synonym bytes = "u8 list"

section \<open>Errors\<close>

text \<open>
  The variants of the crate's \<open>Error\<close> that the modelled code raises. A message
  carries the fixed part of the text, not the values interpolated into it.
\<close>

datatype error =
    InvalidHash
  | ObjectNotFound string
  | LocalObjectMissing string
  | AmbiguousHash string
  | CasFailed
  | LockFailed string
  | Conflict
  | AuthTagMismatch
  | InvalidObject string
  | SymlinkEscape string
  | Io string
  | SourceChanged string
  | TooManyOpenFiles string
  | Json string
  | Other string

type_synonym 'a result = "error + 'a"

text \<open>The question-mark operator: stop at the first error.\<close>

definition rbind :: "'a result \<Rightarrow> ('a \<Rightarrow> 'b result) \<Rightarrow> 'b result" where
  "rbind m f = (case m of Inl e \<Rightarrow> Inl e | Inr x \<Rightarrow> f x)"

lemma rbind_simps [simp, result_simps]:
  "rbind (Inl e) f = Inl e"
  "rbind (Inr x) f = f x"
  by (simp_all add: rbind_def)

lemma rbind_Inr_iff [result_simps]:
  "rbind m f = Inr y \<longleftrightarrow> (\<exists>x. m = Inr x \<and> f x = Inr y)"
  by (cases m) simp_all

lemma rbind_Inl_iff:
  "rbind m f = Inl e \<longleftrightarrow> m = Inl e \<or> (\<exists>x. m = Inr x \<and> f x = Inl e)"
  by (cases m) simp_all

definition ok_or :: "'a option \<Rightarrow> error \<Rightarrow> 'a result" where
  "ok_or m e = (case m of None \<Rightarrow> Inl e | Some x \<Rightarrow> Inr x)"

lemma ok_or_simps [simp, result_simps]:
  "ok_or None e = Inl e"
  "ok_or (Some x) e = Inr x"
  by (simp_all add: ok_or_def)

definition ok :: "'a result \<Rightarrow> 'a option" where
  "ok r = (case r of Inl _ \<Rightarrow> None | Inr x \<Rightarrow> Some x)"

lemma ok_simps [simp, result_simps]:
  "ok (Inl e) = None"
  "ok (Inr x) = Some x"
  by (simp_all add: ok_def)

lemma option_eqI: "(\<And>x. m = Some x \<longleftrightarrow> m' = Some x) \<Longrightarrow> m = m'"
  by (cases m; cases m') auto

text \<open>Iterating a fallible step over a list, as a \<open>for\<close> loop with \<open>?\<close> does.\<close>

fun rfold :: "('a \<Rightarrow> 's \<Rightarrow> 's result) \<Rightarrow> 'a list \<Rightarrow> 's \<Rightarrow> 's result" where
  "rfold f [] s = Inr s"
| "rfold f (x # xs) s = rbind (f x s) (rfold f xs)"

lemma rfold_append: "rfold f (xs @ ys) s = rbind (rfold f xs s) (rfold f ys)"
  by (induction xs arbitrary: s) (auto simp: rbind_def split: sum.splits)

section \<open>Slices and prefixes\<close>

text \<open>The Rust slice \<open>data[i..j]\<close>, where the code has checked the bounds.\<close>

definition subslice :: "nat \<Rightarrow> nat \<Rightarrow> 'a list \<Rightarrow> 'a list" where
  "subslice i j xs = take (j - i) (drop i xs)"

lemma length_subslice [simp, wire_simps]:
  "j \<le> length xs \<Longrightarrow> length (subslice i j xs) = j - i"
  by (simp add: subslice_def)

lemma subslice_append_left: "j \<le> length xs \<Longrightarrow> subslice i j (xs @ ys) = subslice i j xs"
  by (simp add: subslice_def)

lemma subslice_append_right:
  "length xs \<le> i \<Longrightarrow> subslice i j (xs @ ys) = subslice (i - length xs) (j - length xs) ys"
  by (simp add: subslice_def)

lemma drop_subslice: "i \<le> j \<Longrightarrow> drop i xs = subslice i j xs @ drop j xs"
  by (metis append_take_drop_id drop_drop le_add_diff_inverse2 subslice_def)

lemma drop_nth: "i < length xs \<Longrightarrow> drop i xs = [xs ! i] @ drop (Suc i) xs"
  by (simp add: Cons_nth_drop_Suc)

definition strip_prefix :: "'a list \<Rightarrow> 'a list \<Rightarrow> 'a list option" where
  "strip_prefix p xs = (if prefix p xs then Some (drop (length p) xs) else None)"

lemma strip_prefix_Some_iff [simp]: "strip_prefix p xs = Some r \<longleftrightarrow> xs = p @ r"
  by (auto simp: strip_prefix_def prefix_def)

lemma strip_prefix_None_iff: "strip_prefix p xs = None \<longleftrightarrow> \<not> prefix p xs"
  by (simp add: strip_prefix_def)

lemma strip_prefix_append [simp]: "strip_prefix p (p @ xs) = Some xs"
  by simp

definition strip_suffix :: "'a list \<Rightarrow> 'a list \<Rightarrow> 'a list option" where
  "strip_suffix s xs = (if suffix s xs then Some (take (length xs - length s) xs) else None)"

lemma strip_suffix_Some_iff [simp]: "strip_suffix s xs = Some r \<longleftrightarrow> xs = r @ s"
  by (auto simp: strip_suffix_def suffix_def)

text \<open>Position of the first element that satisfies a predicate.\<close>

fun position :: "('a \<Rightarrow> bool) \<Rightarrow> 'a list \<Rightarrow> nat option" where
  "position P [] = None"
| "position P (x # xs) = (if P x then Some 0 else map_option Suc (position P xs))"

lemma find_by_key: "distinct (map f es) \<Longrightarrow> find (\<lambda>e. f e = g) es = Some e \<longleftrightarrow> e \<in> set es \<and> f e = g"
  by (induction es) (auto simp: image_iff)

lemma position_None_iff: "position P xs = None \<longleftrightarrow> (\<forall>x \<in> set xs. \<not> P x)"
  by (induction xs) auto

lemma position_SomeD:
  "position P xs = Some i \<Longrightarrow> i < length xs \<and> P (xs ! i) \<and> (\<forall>j < i. \<not> P (xs ! j))"
proof (induction xs arbitrary: i)
  case (Cons x xs)
  then show ?case
    by (auto split: if_splits simp: nth_Cons split: nat.splits)
qed simp

text \<open>The consecutive full blocks of \<open>chunks_exact\<close>.\<close>

function chunks_exact :: "nat \<Rightarrow> 'a list \<Rightarrow> 'a list list" where
  "chunks_exact n xs =
     (if n = 0 \<or> length xs < n then [] else take n xs # chunks_exact n (drop n xs))"
  by pat_completeness auto
termination
  by (relation "measure (\<lambda>(n, xs). length xs)") auto

declare chunks_exact.simps [simp del]

lemma chunks_exact_Nil [simp]: "chunks_exact n [] = []"
  by (subst chunks_exact.simps) auto

lemma chunks_exact_append [simp]:
  "length x = n \<Longrightarrow> 0 < n \<Longrightarrow> chunks_exact n (x @ xs) = x # chunks_exact n xs"
  by (subst chunks_exact.simps) auto

lemma chunks_exact_concat:
  "0 < n \<Longrightarrow> \<forall>x \<in> set xs. length x = n \<Longrightarrow> chunks_exact n (concat xs) = xs"
  by (induction xs) auto

lemma length_concat_const:
  "\<forall>x \<in> set xs. length x = n \<Longrightarrow> length (concat xs) = n * length xs"
  by (induction xs) auto

lemma concat_chunks_exact:
  "0 < n \<Longrightarrow> n dvd length xs \<Longrightarrow> concat (chunks_exact n xs) = xs"
proof (induction n xs rule: chunks_exact.induct)
  case (1 n xs)
  show ?case
  proof (cases "length xs < n")
    case True
    with "1.prems" have "xs = []"
      by (auto dest: dvd_imp_le)
    then show ?thesis by simp
  next
    case False
    with "1.prems" have "n dvd length (drop n xs)"
      by (simp add: dvd_minus_self)
    with "1.IH" "1.prems" False show ?thesis
      by (subst chunks_exact.simps) simp
  qed
qed

lemma chunks_exact_lengths: "\<forall>x \<in> set (chunks_exact n xs). length x = n"
proof (induction n xs rule: chunks_exact.induct)
  case (1 n xs)
  show ?case
  proof (cases "n = 0 \<or> length xs < n")
    case True
    then show ?thesis by (subst chunks_exact.simps) simp
  next
    case False
    with "1.IH" have "\<forall>x \<in> set (chunks_exact n (drop n xs)). length x = n" by blast
    with False show ?thesis by (subst chunks_exact.simps) auto
  qed
qed

section \<open>Fixed-width integers as bytes\<close>

lemma unat_bounds [simp]:
  "unat (a :: u8) < 256"
  "unat (b :: u16) < 65536"
  "unat (c :: u32) < 4294967296"
  "unat (d :: u64) < 18446744073709551616"
  using unsigned_less [of a] unsigned_less [of b] unsigned_less [of c] unsigned_less [of d]
  by simp_all

primrec be_bytes :: "nat \<Rightarrow> nat \<Rightarrow> bytes" where
  "be_bytes 0 x = []"
| "be_bytes (Suc n) x = be_bytes n (x div 256) @ [word_of_nat x]"

definition from_be :: "bytes \<Rightarrow> nat" where
  "from_be bs = foldl (\<lambda>a b. a * 256 + unat b) 0 bs"

definition from_le :: "bytes \<Rightarrow> nat" where
  "from_le bs = from_be (rev bs)"

lemma length_be_bytes [simp, wire_simps]: "length (be_bytes n x) = n"
  by (induction n arbitrary: x) auto

lemma from_be_snoc [simp]: "from_be (bs @ [b]) = from_be bs * 256 + unat b"
  by (simp add: from_be_def)

lemma from_be_Nil [simp]: "from_be [] = 0"
  by (simp add: from_be_def)

lemma from_be_be_bytes: "from_be (be_bytes n x) = x mod 256 ^ n"
proof (induction n arbitrary: x)
  case (Suc n)
  have "unat (word_of_nat x :: u8) = x mod 256"
    by (simp add: unat_of_nat)
  with Suc show ?case
    by (simp add: mod_mult2_eq mult.commute)
qed simp

lemma from_be_bound: "from_be bs < 256 ^ length bs"
proof (induction bs rule: rev_induct)
  case (snoc b bs)
  have "from_be bs * 256 + unat b < from_be bs * 256 + 256" by simp
  also have "\<dots> = Suc (from_be bs) * 256" by simp
  also from snoc have "\<dots> \<le> 256 ^ length bs * 256"
    by (intro mult_le_mono1) simp
  finally show ?case by simp
qed simp

definition u64_to_be :: "u64 \<Rightarrow> bytes" where
  "u64_to_be w = be_bytes 8 (unat w)"

definition u64_from_be :: "bytes \<Rightarrow> u64" where
  "u64_from_be bs = word_of_nat (from_be bs)"

definition u64_from_le :: "bytes \<Rightarrow> u64" where
  "u64_from_le bs = word_of_nat (from_le bs)"

definition u32_to_be :: "u32 \<Rightarrow> bytes" where
  "u32_to_be w = be_bytes 4 (unat w)"

definition u32_from_be :: "bytes \<Rightarrow> u32" where
  "u32_from_be bs = word_of_nat (from_be bs)"

definition u16_to_be :: "u16 \<Rightarrow> bytes" where
  "u16_to_be w = be_bytes 2 (unat w)"

definition u16_from_be :: "bytes \<Rightarrow> u16" where
  "u16_from_be bs = word_of_nat (from_be bs)"

lemma be_word_lengths [simp, wire_simps]:
  "length (u64_to_be a) = 8" "length (u32_to_be b) = 4" "length (u16_to_be c) = 2"
  by (simp_all add: u64_to_be_def u32_to_be_def u16_to_be_def)

lemma be_word_roundtrip [simp]:
  "u64_from_be (u64_to_be a) = a"
  "u32_from_be (u32_to_be b) = b"
  "u16_from_be (u16_to_be c) = c"
proof -
  have "unat a < 256 ^ 8" "unat b < 256 ^ 4" "unat c < 256 ^ 2"
    by simp_all
  then show "u64_from_be (u64_to_be a) = a" "u32_from_be (u32_to_be b) = b"
    "u16_from_be (u16_to_be c) = c"
    by (simp_all add: u64_from_be_def u64_to_be_def u32_from_be_def u32_to_be_def
        u16_from_be_def u16_to_be_def from_be_be_bytes)
qed

lemma be_bytes_from_be: "length bs = n \<Longrightarrow> be_bytes n (from_be bs) = bs"
proof (induction bs arbitrary: n rule: rev_induct)
  case (snoc b bs)
  have "word_of_nat (from_be bs * 256 + unat b) = (word_of_nat (from_be bs) * 256 + b :: u8)"
    by simp
  also have "(256 :: u8) = 0" by simp
  finally have "word_of_nat (from_be bs * 256 + unat b) = b" by simp
  with snoc show ?case by auto
qed simp

lemma be_word_inverse:
  "length bs = 8 \<Longrightarrow> u64_to_be (u64_from_be bs) = bs"
  "length bs = 4 \<Longrightarrow> u32_to_be (u32_from_be bs) = bs"
  "length bs = 2 \<Longrightarrow> u16_to_be (u16_from_be bs) = bs"
  using from_be_bound [of bs]
  by (simp_all add: u64_to_be_def u64_from_be_def u32_to_be_def u32_from_be_def
      u16_to_be_def u16_from_be_def unat_of_nat be_bytes_from_be)

section \<open>Lists sorted by a key\<close>

lemma sorted_wrt_nthI:
  "(\<And>i. Suc i < length xs \<Longrightarrow> xs ! i < xs ! Suc i) \<Longrightarrow> sorted_wrt (<) (xs :: 'a::linorder list)"
  by (simp add: sorted_wrt_iff_nth_Suc_transp)

end
