(* ===== verification/Interfaces.thy ===== *)
theory Interfaces
  imports Prelude
begin

text \<open>
  The interfaces the components share, as locales: a wire format with its well-formedness
  predicate, serialiser and parser; and a keyed collection with insertion and lookup.
  Each is interpreted on the model's own definitions in the theory that declares them.
\<close>

section \<open>Wire formats\<close>

text \<open>
  \<open>ser\<close> may refuse a value, \<open>des\<close> may refuse an input. The laws: a well-formed
  value is serialised, parsing gives it back, and whatever the parser accepts is
  well-formed, so that data read from an untrusted remote can be written again.
\<close>

locale wire_format =
  fixes wf :: "'a \<Rightarrow> bool"
    and ser :: "'a \<Rightarrow> 'e + 'b"
    and des :: "'b \<Rightarrow> 'f + 'a"
  assumes ser_total: "wf x \<Longrightarrow> \<exists>b. ser x = Inr b"
    and roundtrip: "wf x \<Longrightarrow> ser x = Inr b \<Longrightarrow> des b = Inr x"
    and des_wf: "des b = Inr x \<Longrightarrow> wf x"
begin

lemma ser_inject: "wf x \<Longrightarrow> wf y \<Longrightarrow> ser x = ser y \<Longrightarrow> x = y"
  using ser_total roundtrip by (metis sum.inject(2))

lemma stable: "des b = Inr x \<Longrightarrow> \<exists>b'. ser x = Inr b' \<and> des b' = Inr x"
  using des_wf ser_total roundtrip by blast

lemma des_ser_iff: "wf x \<Longrightarrow> (\<exists>b. ser x = Inr b \<and> des b = Inr y) \<longleftrightarrow> y = x"
  using ser_total roundtrip by (metis sum.inject(2))

end

section \<open>Keyed collections\<close>

text \<open>
  A collection with at most one entry per key: inserting an entry replaces the one with
  the same key. \<open>inv\<close> is the representation invariant.
\<close>

locale keyed_collection =
  fixes empty :: "'c"
    and put :: "'c \<Rightarrow> 'v \<Rightarrow> 'c"
    and get :: "'c \<Rightarrow> 'k \<Rightarrow> 'v option"
    and key :: "'v \<Rightarrow> 'k"
    and inv :: "'c \<Rightarrow> bool"
    and ok :: "'v \<Rightarrow> bool"
  assumes inv_empty: "inv empty"
    and get_empty: "get empty k = None"
    and inv_put: "inv c \<Longrightarrow> ok v \<Longrightarrow> inv (put c v)"
    and get_put: "inv c \<Longrightarrow> ok v \<Longrightarrow> ok w \<Longrightarrow>
      get (put c v) (key w) = (if key w = key v then Some v else get c (key w))"
begin

lemma inv_foldl: "inv c \<Longrightarrow> \<forall>v \<in> set vs. ok v \<Longrightarrow> inv (foldl put c vs)"
  by (induction vs arbitrary: c) (auto simp: inv_put)

text \<open>After a run of insertions a lookup returns the last entry with the key.\<close>

lemma get_foldl:
  assumes "inv c" "\<forall>v \<in> set vs. ok v" "ok w"
  shows "get (foldl put c vs) (key w) =
    (case find (\<lambda>v. key v = key w) (rev vs) of Some v \<Rightarrow> Some v | None \<Rightarrow> get c (key w))"
  using assms(2)
proof (induction vs rule: rev_induct)
  case (snoc v vs)
  then have "inv (foldl put c vs)" using inv_foldl [OF assms(1)] by simp
  with snoc assms(3) show ?case by (simp add: get_put)
qed simp

lemma get_foldl_mem:
  assumes "inv c" "\<forall>v \<in> set vs. ok v" "ok w" "w \<in> set vs"
  shows "\<exists>v \<in> set vs. key v = key w \<and> get (foldl put c vs) (key w) = Some v"
proof -
  from assms(4) have "find (\<lambda>v. key v = key w) (rev vs) \<noteq> None"
    by (auto simp: find_None_iff)
  then obtain v where v: "find (\<lambda>v. key v = key w) (rev vs) = Some v" by blast
  then have "v \<in> set (rev vs)" "key v = key w"
    by (auto simp: find_Some_iff simp del: set_rev intro: nth_mem)
  then have "v \<in> set vs" "key v = key w" by simp_all
  with v get_foldl [OF assms(1-3)] show ?thesis by auto
qed

end

end
