(* ===== verification/Base32.thy ===== *)
theory Base32
  imports Interfaces
begin

text \<open>
  The custom Base32 alphabet of connection strings (\<open>src/src/base32.rs\<close>). The
  encoder and the decoder are the two bit-buffer loops of the source over a 64-bit
  buffer, whose high bits fall off as in the code. The proofs read both loops as
  transformations of the bit stream of the data.
\<close>

section \<open>The code\<close>

definition ALPHABET :: string where
  "ALPHABET = ''23456789abcdefghijkmnpqrstuvwxyz''"

definition decode_table :: "u8 list" where
  "decode_table =
     foldl (\<lambda>table (i, c). table[of_char c := word_of_nat i]) (replicate 256 0xFF)
       (enumerate 0 ALPHABET)"

text \<open>The inner \<open>while bits >= 5\<close> loop of \<open>encode\<close>.\<close>

fun encode_drain :: "u64 \<Rightarrow> nat \<Rightarrow> string \<Rightarrow> nat \<times> string" where
  "encode_drain buf bits out =
     (if 5 \<le> bits
      then (let bits' = bits - 5; idx = unat (drop_bit bits' buf AND 0x1F)
            in encode_drain buf bits' (out @ [ALPHABET ! idx]))
      else (bits, out))"

declare encode_drain.simps [simp del]

fun encode_loop :: "bytes \<Rightarrow> u64 \<Rightarrow> nat \<Rightarrow> string \<Rightarrow> u64 \<times> nat \<times> string" where
  "encode_loop [] buf bits out = (buf, bits, out)"
| "encode_loop (byte # data) buf bits out =
     (let buf' = push_bit 8 buf OR ucast byte;
          (bits', out') = encode_drain buf' (bits + 8) out
      in encode_loop data buf' bits' out')"

definition encode :: "bytes \<Rightarrow> string" where
  "encode data =
     (let (buf, bits, out) = encode_loop data 0 0 []
      in if 0 < bits
         then out @ [ALPHABET ! unat (push_bit (5 - bits) buf AND 0x1F)]
         else out)"

text \<open>The inner \<open>while bits >= 8\<close> loop of \<open>decode\<close>.\<close>

fun decode_drain :: "u64 \<Rightarrow> nat \<Rightarrow> bytes \<Rightarrow> nat \<times> bytes" where
  "decode_drain buf bits out =
     (if 8 \<le> bits
      then (let bits' = bits - 8
            in decode_drain buf bits' (out @ [ucast (drop_bit bits' buf AND 0xFF)]))
      else (bits, out))"

declare decode_drain.simps [simp del]

fun decode_loop :: "string \<Rightarrow> u64 \<Rightarrow> nat \<Rightarrow> bytes \<Rightarrow> string + bytes" where
  "decode_loop [] buf bits out = Inr out"
| "decode_loop (c # s) buf bits out =
     (let val = decode_table ! of_char c
      in if val = 0xFF then Inl (''invalid character in connection string: '' @ [c])
         else let buf' = push_bit 5 buf OR ucast val;
                  (bits', out') = decode_drain buf' (bits + 5) out
              in decode_loop s buf' bits' out')"

definition decode :: "string \<Rightarrow> string + bytes" where
  "decode s = decode_loop s 0 0 []"

section \<open>Bit streams\<close>

text \<open>The low \<open>n\<close> bits of a word, most significant first.\<close>

definition lowbits :: "nat \<Rightarrow> 'a::len word \<Rightarrow> bool list" where
  "lowbits n w = map (bit w) (rev [0..<n])"

lemma length_lowbits [simp]: "length (lowbits n w) = n"
  by (simp add: lowbits_def)

lemma nth_lowbits: "i < n \<Longrightarrow> lowbits n w ! i = bit w (n - Suc i)"
  by (simp add: lowbits_def rev_nth)

lemma lowbits_split: "lowbits (m + n) w = lowbits m (drop_bit n w) @ lowbits n w"
  by (rule nth_equalityI) (auto simp: nth_lowbits nth_append bit_drop_bit_eq ac_simps)

lemma lowbits_mask: "m \<le> n \<Longrightarrow> lowbits m (w AND mask n) = lowbits m w"
  by (rule nth_equalityI) (auto simp: nth_lowbits bit_and_iff bit_mask_iff bit_imp_le_length)

lemma lowbits_ucast:
  "n \<le> LENGTH('b::len) \<Longrightarrow> lowbits n (ucast (w :: 'a::len word) :: 'b word) = lowbits n w"
  by (rule nth_equalityI) (auto simp: nth_lowbits bit_ucast_iff)

lemma lowbits_push:
  fixes v :: "'b::len word" and w :: "'a::len word"
  assumes "n + m \<le> LENGTH('a)" and "\<And>i. m \<le> i \<Longrightarrow> \<not> bit v i"
  shows "lowbits (n + m) (push_bit m w OR ucast v) = lowbits n w @ lowbits m v"
  using assms
  by (intro nth_equalityI)
    (auto simp: nth_lowbits nth_append bit_or_iff bit_push_bit_iff bit_ucast_iff ac_simps)

lemma lowbits_inject:
  "lowbits LENGTH('a) v = lowbits LENGTH('a) w \<Longrightarrow> v = (w :: 'a::len word)"
proof (rule bit_word_eqI)
  fix i
  assume eq: "lowbits LENGTH('a) v = lowbits LENGTH('a) w" and "i < LENGTH('a)"
  then have "lowbits LENGTH('a) u ! (LENGTH('a) - Suc i) = bit u i" for u :: "'a word"
    using nth_lowbits [of "LENGTH('a) - Suc i" "LENGTH('a)" u] by simp
  with eq show "bit v i = bit w i" by metis
qed

definition byte_bits :: "bytes \<Rightarrow> bool list" where
  "byte_bits bs = concat (map (lowbits 8) bs)"

lemma byte_bits_simps [simp]:
  "byte_bits [] = []"
  "byte_bits (b # bs) = lowbits 8 b @ byte_bits bs"
  "byte_bits (xs @ ys) = byte_bits xs @ byte_bits ys"
  by (simp_all add: byte_bits_def)

lemma length_byte_bits [simp]: "length (byte_bits bs) = 8 * length bs"
  by (induction bs) simp_all

lemma byte_bits_inject: "length xs = length ys \<Longrightarrow> byte_bits xs = byte_bits ys \<Longrightarrow> xs = ys"
proof (induction xs ys rule: list_induct2)
  case (Cons x xs y ys)
  then have "lowbits LENGTH(8) x = lowbits LENGTH(8) y" and "byte_bits xs = byte_bits ys"
    by simp_all
  with Cons.IH show ?case using lowbits_inject by blast
qed simp

text \<open>The five bits a symbol stands for.\<close>

definition symbol_bits :: "string \<Rightarrow> bool list" where
  "symbol_bits s = concat (map (\<lambda>c. lowbits 5 (decode_table ! of_char c)) s)"

lemma symbol_bits_simps [simp]:
  "symbol_bits [] = []"
  "symbol_bits (c # s) = lowbits 5 (decode_table ! of_char c) @ symbol_bits s"
  "symbol_bits (s @ t) = symbol_bits s @ symbol_bits t"
  by (simp_all add: symbol_bits_def)


section \<open>The decode table\<close>

lemma decode_table_alphabet:
  "i < 32 \<Longrightarrow> decode_table ! of_char (ALPHABET ! i) = word_of_nat i"
proof -
  have "list_all (\<lambda>i. decode_table ! of_char (ALPHABET ! i) = word_of_nat i) [0..<32]"
    by code_simp
  then show "i < 32 \<Longrightarrow> ?thesis" by (simp add: list_all_iff)
qed

lemma decode_table_values: "c < 256 \<Longrightarrow> decode_table ! c < 32 \<or> decode_table ! c = 0xFF"
proof -
  have "list_all (\<lambda>v. v < 32 \<or> v = 0xFF) decode_table"
    by code_simp
  moreover have "length decode_table = 256" by code_simp
  ultimately show "c < 256 \<Longrightarrow> ?thesis" by (auto simp: list_all_length)
qed

lemma of_char_less [simp]: "(of_char c :: nat) < 256"
  by simp

lemma unat_and_1F: "unat ((w :: u64) AND 0x1F) < 32"
proof -
  have "w AND 0x1F = take_bit 5 w"
    by (simp add: take_bit_eq_mask mask_eq_exp_minus_1)
  then show ?thesis
    using take_bit_nat_less_exp [of 5 "unat w"] by (simp add: unsigned_take_bit_eq)
qed

lemma alphabet_symbol_bits:
  "lowbits 5 (decode_table ! of_char (ALPHABET ! unat (w AND 0x1F))) = lowbits 5 (w :: u64)"
proof -
  have m: "(0x1F :: u64) = mask 5" by (simp add: mask_eq_exp_minus_1)
  have lt: "unat (w AND 0x1F) < 32" by (rule unat_and_1F)
  have "word_of_nat (unat (w AND 0x1F)) = (ucast (w AND 0x1F) :: u8)"
    by simp
  with lt have "lowbits 5 (decode_table ! of_char (ALPHABET ! unat (w AND 0x1F)))
      = lowbits 5 (ucast (w AND 0x1F) :: u8)"
    by (simp only: decode_table_alphabet)
  also have "\<dots> = lowbits 5 w"
    unfolding m by (simp add: lowbits_ucast lowbits_mask)
  finally show ?thesis .
qed

section \<open>The encoder as a transformation of the bit stream\<close>

lemma encode_drain_bits:
  assumes "encode_drain buf bits out = (bits', out')"
  shows "bits' < 5 \<and>
    symbol_bits out' @ lowbits bits' buf = symbol_bits out @ lowbits bits buf"
  using assms
proof (induction buf bits out rule: encode_drain.induct)
  case (1 buf bits out)
  show ?case
  proof (cases "5 \<le> bits")
    case True
    let ?o = "out @ [ALPHABET ! unat (drop_bit (bits - 5) buf AND 0x1F)]"
    from True "1.prems" have "encode_drain buf (bits - 5) ?o = (bits', out')"
      by (simp add: encode_drain.simps [of buf bits] Let_def)
    from "1.IH" [OF True refl refl this]
    have "bits' < 5 \<and>
      symbol_bits out' @ lowbits bits' buf = symbol_bits ?o @ lowbits (bits - 5) buf" .
    moreover from True have "lowbits bits buf
        = lowbits 5 (drop_bit (bits - 5) buf) @ lowbits (bits - 5) buf"
      using lowbits_split [of 5 "bits - 5" buf] by simp
    ultimately show ?thesis by (simp add: alphabet_symbol_bits)
  next
    case False
    with "1.prems" show ?thesis by (simp add: encode_drain.simps [of buf bits])
  qed
qed

lemma encode_loop_bits:
  assumes "encode_loop data buf bits out = (buf', bits', out')" and "bits < 5"
  shows "bits' < 5 \<and>
    symbol_bits out' @ lowbits bits' buf' =
      symbol_bits out @ lowbits bits buf @ byte_bits data"
  using assms
proof (induction data buf bits out rule: encode_loop.induct)
  case (2 byte data buf bits out)
  let ?b = "push_bit 8 buf OR ucast byte :: u64"
  obtain n o' where dr: "encode_drain ?b (bits + 8) out = (n, o')"
    by (cases "encode_drain ?b (bits + 8) out")
  from encode_drain_bits [OF dr] have n: "n < 5"
    and eq: "symbol_bits o' @ lowbits n ?b = symbol_bits out @ lowbits (bits + 8) ?b"
    by simp_all
  have "lowbits (bits + 8) ?b = lowbits bits buf @ lowbits 8 byte"
    using "2.prems" by (intro lowbits_push) (auto dest: bit_imp_le_length)
  with "2.IH" [OF refl dr [symmetric] refl _ n] "2.prems" dr eq show ?case
    by simp
qed simp

lemma encode_bits:
  obtains pad where "pad < 5"
    and "symbol_bits (encode data) = byte_bits data @ replicate pad False"
proof -
  obtain buf bits out where l: "encode_loop data 0 0 [] = (buf, bits, out)"
    by (cases "encode_loop data 0 0 []")
  from encode_loop_bits [OF l] have b: "bits < 5"
    and eq: "symbol_bits out @ lowbits bits buf = byte_bits data"
    by (simp_all add: lowbits_def)
  show ?thesis
  proof (cases "bits = 0")
    case True
    with l eq that [of 0] show ?thesis
      by (simp add: encode_def lowbits_def)
  next
    case False
    have "lowbits 5 (push_bit (5 - bits) buf) = lowbits bits buf @ replicate (5 - bits) False"
      using b by (intro nth_equalityI)
        (auto simp: nth_lowbits nth_append bit_push_bit_iff)
    with False l eq [symmetric] b that [of "5 - bits"] show ?thesis
      by (simp add: encode_def alphabet_symbol_bits)
  qed
qed

section \<open>The decoder as a transformation of the bit stream\<close>

lemma decode_drain_bits:
  assumes "decode_drain buf bits out = (bits', out')"
  shows "bits' < 8 \<and>
    byte_bits out' @ lowbits bits' buf = byte_bits out @ lowbits bits buf"
  using assms
proof (induction buf bits out rule: decode_drain.induct)
  case (1 buf bits out)
  show ?case
  proof (cases "8 \<le> bits")
    case True
    let ?o = "out @ [ucast (drop_bit (bits - 8) buf AND 0xFF)]"
    have m: "(0xFF :: u64) = mask 8" by (simp add: mask_eq_exp_minus_1)
    from True "1.prems" have "decode_drain buf (bits - 8) ?o = (bits', out')"
      by (simp add: decode_drain.simps [of buf bits] Let_def)
    from "1.IH" [OF True refl this]
    have "bits' < 8 \<and>
      byte_bits out' @ lowbits bits' buf = byte_bits ?o @ lowbits (bits - 8) buf" .
    moreover from True have "lowbits bits buf
        = lowbits 8 (drop_bit (bits - 8) buf) @ lowbits (bits - 8) buf"
      using lowbits_split [of 8 "bits - 8" buf] by simp
    ultimately show ?thesis unfolding m by (simp add: lowbits_ucast lowbits_mask)
  next
    case False
    with "1.prems" show ?thesis by (simp add: decode_drain.simps [of buf bits])
  qed
qed

lemma five_bit_value: "(v :: u8) < 32 \<Longrightarrow> 5 \<le> i \<Longrightarrow> \<not> bit v i"
proof
  assume v: "v < 32" and i: "5 \<le> i" and b: "bit v i"
  from v have "take_bit 5 (unat v) = unat v"
    by (simp add: take_bit_nat_eq_self_iff word_less_nat_alt)
  moreover from b have "bit (unat v) i" by (simp add: bit_unsigned_iff)
  moreover from i have "\<not> bit (take_bit 5 (unat v)) i" by (simp add: bit_take_bit_iff)
  ultimately show False by simp
qed

lemma decode_loop_bits:
  assumes "\<forall>c \<in> set s. decode_table ! of_char c \<noteq> 0xFF" and "bits < 8"
  shows "\<exists>res r. decode_loop s buf bits out = Inr res \<and> length r < 8 \<and>
    byte_bits res @ r = byte_bits out @ lowbits bits buf @ symbol_bits s"
  using assms
proof (induction s buf bits out rule: decode_loop.induct)
  case (1 buf bits out)
  then show ?case by (intro exI [of _ out] exI [of _ "lowbits bits buf"]) simp
next
  case (2 c s buf bits out)
  let ?v = "decode_table ! of_char c"
  let ?b = "push_bit 5 buf OR ucast ?v :: u64"
  from "2.prems" have v: "?v \<noteq> 0xFF" by simp
  with decode_table_values [of "of_char c"] have v32: "?v < 32" by simp
  obtain n o' where dr: "decode_drain ?b (bits + 5) out = (n, o')"
    by (cases "decode_drain ?b (bits + 5) out")
  from decode_drain_bits [OF dr] have n: "n < 8"
    and eq: "byte_bits o' @ lowbits n ?b = byte_bits out @ lowbits (bits + 5) ?b"
    by simp_all
  have "lowbits (bits + 5) ?b = lowbits bits buf @ lowbits 5 ?v"
    using "2.prems" five_bit_value [OF v32] by (intro lowbits_push) auto
  with eq have "(byte_bits o' @ lowbits n ?b) @ symbol_bits s =
      (byte_bits out @ lowbits bits buf @ lowbits 5 ?v) @ symbol_bits s"
    by (simp only:)
  then have "byte_bits o' @ lowbits n ?b @ symbol_bits s =
      byte_bits out @ lowbits bits buf @ symbol_bits (c # s)"
    by (simp only: append_assoc symbol_bits_simps)
  moreover have "decode_loop (c # s) buf bits out = decode_loop s ?b n o'"
    using v dr by (simp add: Let_def)
  moreover have "\<forall>c \<in> set s. decode_table ! of_char c \<noteq> 0xFF"
    using "2.prems" by simp
  ultimately show ?case
    using "2.IH" [OF refl v refl dr [symmetric] refl _ n] by (simp only:)
qed

section \<open>Properties\<close>

lemma alphabet_valid: "c \<in> set ALPHABET \<Longrightarrow> decode_table ! of_char c \<noteq> 0xFF"
proof -
  have "list_all (\<lambda>c. decode_table ! of_char c \<noteq> 0xFF) ALPHABET" by code_simp
  then show "c \<in> set ALPHABET \<Longrightarrow> ?thesis" by (simp add: list_all_iff)
qed

lemma alphabet_nth_mem: "ALPHABET ! unat (w AND 0x1F :: u64) \<in> set ALPHABET"
proof -
  have "unat (w AND 0x1F) < 32" by (rule unat_and_1F)
  moreover have "length ALPHABET = 32" by (simp add: ALPHABET_def)
  ultimately show ?thesis by simp
qed

lemma encode_drain_alphabet:
  "set out \<subseteq> set ALPHABET \<Longrightarrow> set (snd (encode_drain buf bits out)) \<subseteq> set ALPHABET"
proof (induction buf bits out rule: encode_drain.induct)
  case (1 buf bits out)
  then show ?case
    by (subst encode_drain.simps) (simp add: Let_def alphabet_nth_mem)
qed

lemma encode_loop_alphabet:
  "set out \<subseteq> set ALPHABET \<Longrightarrow>
    set (snd (snd (encode_loop data buf bits out))) \<subseteq> set ALPHABET"
proof (induction data buf bits out rule: encode_loop.induct)
  case (2 byte data buf bits out)
  let ?b = "push_bit 8 buf OR ucast byte :: u64"
  obtain n o' where dr: "encode_drain ?b (bits + 8) out = (n, o')"
    by (cases "encode_drain ?b (bits + 8) out")
  with encode_drain_alphabet [OF "2.prems", of ?b "bits + 8"]
  have "set o' \<subseteq> set ALPHABET" by simp
  from "2.IH" [OF refl dr [symmetric] refl this] dr show ?case by simp
qed simp

lemma encode_alphabet: "set (encode data) \<subseteq> set ALPHABET"
  using encode_loop_alphabet [of "[]" data 0 0]
  by (cases "encode_loop data 0 0 []") (auto simp: encode_def alphabet_nth_mem)

lemma decode_encode: "decode (encode data) = Inr data"
proof -
  obtain pad where pad: "pad < 5"
    and enc: "symbol_bits (encode data) = byte_bits data @ replicate pad False"
    by (rule encode_bits)
  have "\<forall>c \<in> set (encode data). decode_table ! of_char c \<noteq> 0xFF"
    using encode_alphabet alphabet_valid by blast
  from decode_loop_bits [OF this, of 0 0 "[]"] obtain res r
    where dec: "decode (encode data) = Inr res" and r: "length r < 8"
      and eq: "byte_bits res @ r = byte_bits data @ replicate pad False"
    by (auto simp: decode_def enc lowbits_def)
  from arg_cong [OF eq, of length] have "8 * length res + length r = 8 * length data + pad"
    by simp
  with pad r have len: "length res = length data" by linarith
  with eq have "byte_bits res = byte_bits data" by simp
  with len dec show ?thesis by (simp add: byte_bits_inject)
qed

section \<open>Properties\<close>

interpretation base32_text: wire_format "\<lambda>_ :: bytes. True"
  "\<lambda>data. Inr (encode data) :: unit + string" decode
  by unfold_locales (simp_all add: decode_encode)

text \<open>
  Base32 is a faithful text form of byte strings: decoding the encoder's text gives the
  bytes back, two byte strings never share a text, and the text uses only the 32 symbols
  of the alphabet, so a text with any other symbol is never produced.
\<close>

theorem base32_roundtrip:
  "decode (encode data) = Inr data \<and> (encode data = encode data' \<longleftrightarrow> data = data') \<and>
   set (encode data) \<subseteq> set ALPHABET"
  using base32_text.ser_inject [of data data'] encode_alphabet by (auto simp: decode_encode)

end
