(* ===== verification/Objects.thy ===== *)
theory Objects
  imports Interfaces
begin

text \<open>
  The object model of \<open>src/src/object.rs\<close>: SHA-256 object hashes with their two
  representations, tree entries and trees, the two-byte type tags of the serialise
  stage, the escape of blobs, chunk bodies and chunk manifests, and the validation of
  entry names read from a remote tree.

  SHA-256 is the \<open>sha2\<close> crate and the JSON codec is \<open>serde_json\<close>: both are
  parameters (\<open>sha\<close>, \<open>to_json\<close>, \<open>from_json\<close>) of the definitions that
  call them. A \<open>DateTime<Utc>\<close> of the \<open>chrono\<close> crate is only compared and copied
  by the modelled code, so it is an integer timestamp.
\<close>

section \<open>Hashes\<close>

record hash =
  hex :: string
  raw :: bytes

definition hex_nibble :: "u8 \<Rightarrow> u8 option" where
  "hex_nibble b =
     (if 48 \<le> b \<and> b \<le> 57 then Some (b - 48)
      else if 97 \<le> b \<and> b \<le> 102 then Some (b - 97 + 10)
      else if 65 \<le> b \<and> b \<le> 70 then Some (b - 65 + 10)
      else None)"

definition HEX :: string where
  "HEX = ''0123456789abcdef''"

definition hex_pair :: "u8 \<Rightarrow> string" where
  "hex_pair b = [HEX ! unat (drop_bit 4 b), HEX ! unat (b AND 0x0f)]"

definition encode_hex :: "bytes \<Rightarrow> string" where
  "encode_hex bs = concat (map hex_pair bs)"

definition to_ascii_lowercase :: "char \<Rightarrow> char" where
  "to_ascii_lowercase c =
     (if 65 \<le> (of_char c :: nat) \<and> (of_char c :: nat) \<le> 90
      then char_of ((of_char c :: nat) + 32) else c)"

text \<open>The loop of \<open>from_hex\<close> over \<open>chunks_exact(2)\<close>.\<close>

fun parse_pairs :: "bytes list \<Rightarrow> bytes result" where
  "parse_pairs [] = Inr []"
| "parse_pairs (chunk # cs) =
     rbind (ok_or (hex_nibble (chunk ! 0)) InvalidHash) (\<lambda>hi.
     rbind (ok_or (hex_nibble (chunk ! 1)) InvalidHash) (\<lambda>lo.
     rbind (parse_pairs cs) (\<lambda>bs. Inr ((push_bit 4 hi OR lo) # bs))))"

definition from_hex :: "string \<Rightarrow> hash result" where
  "from_hex s =
     (if length s \<noteq> 64 then Inl InvalidHash
      else rbind (parse_pairs (chunks_exact 2 (map of_char s)))
             (\<lambda>bs. Inr \<lparr>hex = map to_ascii_lowercase s, raw = bs\<rparr>))"

definition from_bytes :: "bytes \<Rightarrow> hash" where
  "from_bytes bs = \<lparr>hex = encode_hex bs, raw = bs\<rparr>"

definition compute :: "(bytes \<Rightarrow> bytes) \<Rightarrow> bytes \<Rightarrow> hash" where
  "compute sha data = from_bytes (sha data)"

text \<open>
  What every constructor establishes: 32 bytes, and the lower-case hexadecimal text of
  exactly those bytes. \<open>Sha256::digest\<close> returns a 32-byte array, which is all the
  development assumes of the digest in general.
\<close>

definition hash_ok :: "hash \<Rightarrow> bool" where
  "hash_ok h \<longleftrightarrow> length (raw h) = 32 \<and> hex h = encode_hex (raw h)"

definition digest32 :: "(bytes \<Rightarrow> bytes) \<Rightarrow> bool" where
  "digest32 sha \<longleftrightarrow> (\<forall>d. length (sha d) = 32)"

section \<open>Tree entries and trees\<close>

type_synonym datetime = int

datatype tree_entry =
    Blob (ename: string) (ehash: hash) (emtime: "datetime option") (esize: u64)
      (emode: "string option")
  | TreeE (ename: string) (ehash: hash) (emtime: "datetime option") (esize: u64)
      (ecount: u64)
  | Symlink (ename: string) (etarget: string) (emtime: "datetime option")

datatype tree = Normal (entries: "tree_entry list")

fun entry_hash :: "tree_entry \<Rightarrow> hash option" where
  "entry_hash (Blob n h m s md) = Some h"
| "entry_hash (TreeE n h m s c) = Some h"
| "entry_hash (Symlink n t m) = None"

fun entry_size :: "tree_entry \<Rightarrow> u64" where
  "entry_size (Blob n h m s md) = s"
| "entry_size (TreeE n h m s c) = s"
| "entry_size (Symlink n t m) = 0"

fun entry_blob_count :: "tree_entry \<Rightarrow> u64" where
  "entry_blob_count (Blob n h m s md) = 1"
| "entry_blob_count (TreeE n h m s c) = c"
| "entry_blob_count (Symlink n t m) = 1"

section \<open>Type tags, blobs, chunks and manifests\<close>

definition TYPE_TAG_BLOB :: bytes where "TYPE_TAG_BLOB = [0xED, 0xF0]"
definition TYPE_TAG_TREE :: bytes where "TYPE_TAG_TREE = [0xED, 0xF1]"
definition TYPE_TAG_MANIFEST :: bytes where "TYPE_TAG_MANIFEST = [0xED, 0xF2]"
definition TYPE_TAG_CHUNK :: bytes where "TYPE_TAG_CHUNK = [0xED, 0xF3]"

lemmas type_tags = TYPE_TAG_BLOB_def TYPE_TAG_TREE_def TYPE_TAG_MANIFEST_def TYPE_TAG_CHUNK_def

definition first_byte :: "bytes \<Rightarrow> u8 option" where
  "first_byte bs = (case bs of [] \<Rightarrow> None | b # _ \<Rightarrow> Some b)"

definition second_byte :: "bytes \<Rightarrow> u8 option" where
  "second_byte bs = (case bs of _ # b # _ \<Rightarrow> Some b | _ \<Rightarrow> None)"

definition blob_needs_escape :: "u8 option \<Rightarrow> u8 option \<Rightarrow> bool" where
  "blob_needs_escape fst_b snd_b \<longleftrightarrow>
     fst_b = Some 0xED \<and> (case snd_b of None \<Rightarrow> False | Some b \<Rightarrow> 0xF0 \<le> b)"

definition serialise_blob :: "bytes \<Rightarrow> bytes" where
  "serialise_blob content =
     (if blob_needs_escape (first_byte content) (second_byte content)
      then TYPE_TAG_BLOB @ content else content)"

definition deserialise_blob :: "bytes \<Rightarrow> bytes" where
  "deserialise_blob stored =
     (if prefix TYPE_TAG_BLOB stored then drop 2 stored else stored)"

definition serialise_chunk :: "bytes \<Rightarrow> bytes" where
  "serialise_chunk chunk_bytes = TYPE_TAG_CHUNK @ chunk_bytes"

definition deserialise_chunk :: "bytes \<Rightarrow> bytes option" where
  "deserialise_chunk stored =
     (if prefix TYPE_TAG_CHUNK stored then Some (drop 2 stored) else None)"

definition chunk_hash :: "(bytes \<Rightarrow> bytes) \<Rightarrow> bytes \<Rightarrow> hash" where
  "chunk_hash sha chunk_bytes = compute sha (TYPE_TAG_CHUNK @ chunk_bytes)"

definition serialise_manifest :: "hash list \<Rightarrow> bytes" where
  "serialise_manifest chunk_hashes = TYPE_TAG_MANIFEST @ concat (map raw chunk_hashes)"

definition deserialise_manifest :: "bytes \<Rightarrow> hash list option" where
  "deserialise_manifest stored =
     (if \<not> prefix TYPE_TAG_MANIFEST stored then None
      else let payload = drop 2 stored
           in if length payload mod 32 \<noteq> 0 then None
              else Some (map from_bytes (chunks_exact 32 payload)))"

definition blob_hash :: "(bytes \<Rightarrow> bytes) \<Rightarrow> bytes \<Rightarrow> hash" where
  "blob_hash sha content = compute sha (TYPE_TAG_BLOB @ content)"

section \<open>Reserved names\<close>

definition is_metadata_dir_name :: "string \<Rightarrow> bool" where
  "is_metadata_dir_name name \<longleftrightarrow> name = ''.omemfs''"

definition is_reserved_name :: "string \<Rightarrow> bool" where
  "is_reserved_name name \<longleftrightarrow> sublist ''.omemfs-'' name"

definition CONFLICT_SUFFIXES :: "string list" where
  "CONFLICT_SUFFIXES =
     [''.omemfs-conflict-base'', ''.omemfs-conflict-local'', ''.omemfs-conflict-remote'']"

definition CONFLICT_META_SUFFIX :: string where
  "CONFLICT_META_SUFFIX = ''.omemfs-conflict-meta''"

definition CONFLICT_ARTIFACT_SUFFIXES :: "string list" where
  "CONFLICT_ARTIFACT_SUFFIXES = CONFLICT_SUFFIXES @ [CONFLICT_META_SUFFIX]"

definition is_conflict_artifact :: "string \<Rightarrow> bool" where
  "is_conflict_artifact name \<longleftrightarrow> list_ex (\<lambda>s. suffix s name) CONFLICT_ARTIFACT_SUFFIXES"

definition WORKING_TREE_TMP_PREFIX :: string where
  "WORKING_TREE_TMP_PREFIX = ''.omemfs-tmp-''"

definition is_working_tree_tmp :: "string \<Rightarrow> bool" where
  "is_working_tree_tmp name \<longleftrightarrow> prefix WORKING_TREE_TMP_PREFIX name"

definition validate_entry_name :: "string \<Rightarrow> unit result" where
  "validate_entry_name name =
     (if name = [] then Inl (InvalidObject ''tree entry name must not be empty'')
      else if name = ''.'' \<or> name = ''..''
        then Inl (InvalidObject ''tree entry name must not be'')
      else if CHR ''/'' \<in> set name
        then Inl (InvalidObject ''tree entry name must not contain a path separator'')
      else if CHR 0x00 \<in> set name
        then Inl (InvalidObject ''tree entry name must not contain a NUL byte'')
      else if is_metadata_dir_name name
        then Inl (InvalidObject
               ''tree entry name must not be the reserved metadata directory name'')
      else if name \<noteq> ''.omemfs-filter'' \<and> is_reserved_name name
        then Inl (InvalidObject
               ''tree entry name must not be in the reserved .omemfs- namespace'')
      else Inr ())"

section \<open>Trees as bytes\<close>

definition tree_serialise :: "(tree \<Rightarrow> bytes) \<Rightarrow> tree \<Rightarrow> bytes" where
  "tree_serialise to_json t = TYPE_TAG_TREE @ to_json t"

definition empty_tree_hash :: "(bytes \<Rightarrow> bytes) \<Rightarrow> (tree \<Rightarrow> bytes) \<Rightarrow> hash" where
  "empty_tree_hash sha to_json = compute sha (tree_serialise to_json (Normal []))"

definition is_tree_bytes :: "bytes \<Rightarrow> bool" where
  "is_tree_bytes data \<longleftrightarrow> prefix TYPE_TAG_TREE data"

definition tree_deserialise :: "(bytes \<Rightarrow> tree option) \<Rightarrow> bytes \<Rightarrow> tree result" where
  "tree_deserialise from_json data =
     (let json = (if prefix TYPE_TAG_TREE data then drop 2 data else data)
      in rbind (ok_or (from_json json) (Json ''JSON error'')) (\<lambda>t.
         rbind (rfold (\<lambda>e _. validate_entry_name (ename e)) (entries t) ()) (\<lambda>_. Inr t)))"

definition sorted_entries :: "tree_entry list \<Rightarrow> tree_entry list" where
  "sorted_entries es = sort_key ename es"

definition aggregate_mtime :: "tree_entry list \<Rightarrow> datetime option" where
  "aggregate_mtime es =
     (case List.map_filter emtime es of [] \<Rightarrow> None | m # ms \<Rightarrow> Some (fold max ms m))"

definition aggregate_size :: "tree_entry list \<Rightarrow> u64" where
  "aggregate_size es = sum_list (map entry_size es)"

definition aggregate_blob_count :: "tree_entry list \<Rightarrow> u64" where
  "aggregate_blob_count es = sum_list (map entry_blob_count es)"


section \<open>Hexadecimal text\<close>

lemma HEX_nibble:
  "i < 16 \<Longrightarrow> hex_nibble (of_char (HEX ! i)) = Some (word_of_nat i) \<and>
     to_ascii_lowercase (HEX ! i) = HEX ! i"
proof -
  have "list_all (\<lambda>i. hex_nibble (of_char (HEX ! i)) = Some (word_of_nat i) \<and>
      to_ascii_lowercase (HEX ! i) = HEX ! i) [0..<16]"
    by code_simp
  then show "i < 16 \<Longrightarrow> ?thesis" by (simp add: list_all_iff)
qed

lemma nibble_bounds: "unat (drop_bit 4 (b :: u8)) < 16" "unat ((b :: u8) AND 0x0f) < 16"
proof -
  have "unat (drop_bit 4 b) = unat b div 16"
    by (simp add: drop_bit_eq_div unat_div)
  moreover have "unat b < 256" by simp
  ultimately show "unat (drop_bit 4 b) < 16" by linarith
  have "b AND 0x0f = take_bit 4 b"
    by (simp add: take_bit_eq_mask mask_eq_exp_minus_1)
  then show "unat (b AND 0x0f) < 16"
    using take_bit_nat_less_exp [of 4 "unat b"] by (simp add: unsigned_take_bit_eq)
qed

lemma nibbles_join: "push_bit 4 (drop_bit 4 b) OR (b AND 0x0f) = (b :: u8)"
proof -
  have m: "(0x0f :: u8) = mask 4" by (simp add: mask_eq_exp_minus_1)
  show ?thesis unfolding m
    by (intro bit_word_eqI)
      (auto simp: bit_or_iff bit_and_iff bit_push_bit_iff bit_drop_bit_eq bit_mask_iff)
qed

lemma hex_pair_nibbles:
  "hex_nibble (of_char (hex_pair b ! 0)) = Some (drop_bit 4 b)"
  "hex_nibble (of_char (hex_pair b ! Suc 0)) = Some (b AND 0x0f)"
  "map to_ascii_lowercase (hex_pair b) = hex_pair b"
  using HEX_nibble [OF nibble_bounds(1) [of b]] HEX_nibble [OF nibble_bounds(2) [of b]]
  by (simp_all add: hex_pair_def)

lemma length_hex_pair [simp]: "length (hex_pair b) = 2"
  by (simp add: hex_pair_def)

lemma hex_nibble_char:
  assumes "hex_nibble (of_char c) = Some v"
  shows "HEX ! unat v = to_ascii_lowercase c" and "v < 16"
proof -
  let ?n = "of_char c :: nat"
  let ?Q = "\<lambda>n. case hex_nibble (word_of_nat n) of None \<Rightarrow> False
     | Some v \<Rightarrow> HEX ! unat v = to_ascii_lowercase (char_of n) \<and> v < 16"
  have w: "of_char c = (word_of_nat ?n :: u8)" by (simp only: of_nat_of_char)
  have "unat (word_of_nat ?n :: u8) = ?n" by (simp add: unat_of_nat)
  with assms w have "?n \<in> {48..<58} \<union> ({97..<103} \<union> {65..<71})"
    by (auto simp: hex_nibble_def word_le_nat_alt split: if_splits)
  moreover have "list_all ?Q ([48..<58] @ [97..<103] @ [65..<71])" by code_simp
  then have "\<forall>n \<in> {48..<58} \<union> ({97..<103} \<union> {65..<71}). ?Q n"
    by (simp only: list_all_iff set_append set_upt)
  ultimately have "?Q ?n" by blast
  with assms w show "HEX ! unat v = to_ascii_lowercase c" "v < 16" by simp_all
qed

lemma nibbles_pair:
  assumes "hi < 16" and "lo < 16"
  shows "drop_bit 4 (push_bit 4 hi OR lo :: u8) = hi" and "(push_bit 4 hi OR lo) AND 0x0f = lo"
proof -
  have small: "bit v i \<Longrightarrow> i < 4" if "v < 16" for v :: u8 and i
  proof -
    assume b: "bit v i"
    from that have "take_bit 4 (unat v) = unat v"
      by (simp add: take_bit_nat_eq_self_iff word_less_nat_alt)
    moreover from b have "bit (unat v) i" by (simp add: bit_unsigned_iff)
    ultimately show "i < 4" by (metis bit_take_bit_iff)
  qed
  have m: "(0x0f :: u8) = mask 4" by (simp add: mask_eq_exp_minus_1)
  show "drop_bit 4 (push_bit 4 hi OR lo :: u8) = hi"
    by (rule bit_word_eqI)
      (auto simp: bit_drop_bit_eq bit_or_iff bit_push_bit_iff dest: small [OF assms(1)]
        small [OF assms(2)])
  show "(push_bit 4 hi OR lo) AND 0x0f = lo" unfolding m
    by (rule bit_word_eqI)
      (auto simp: bit_and_iff bit_mask_iff bit_or_iff bit_push_bit_iff
        dest: small [OF assms(2)])
qed

lemma encode_hex_simps [simp]:
  "encode_hex [] = []"
  "encode_hex (b # bs) = hex_pair b @ encode_hex bs"
  by (simp_all add: encode_hex_def)

lemma length_encode_hex [simp]: "length (encode_hex bs) = 2 * length bs"
  by (induction bs) simp_all

lemma lowercase_encode_hex [simp]: "map to_ascii_lowercase (encode_hex bs) = encode_hex bs"
  by (induction bs) (simp_all add: hex_pair_nibbles)

lemma parse_pairs_encode_hex:
  "parse_pairs (chunks_exact 2 (map of_char (encode_hex bs))) = Inr bs"
  by (induction bs) (simp_all add: hex_pair_nibbles nibbles_join)

lemma parse_pairs_sound:
  "parse_pairs (chunks_exact 2 (map of_char s)) = Inr bs \<Longrightarrow> even (length s) \<Longrightarrow>
     encode_hex bs = map to_ascii_lowercase s \<and> 2 * length bs = length s"
proof (induction s arbitrary: bs rule: induct_list012)
  case (3 c d s)
  have ch: "chunks_exact 2 (map of_char (c # d # s)) =
      [of_char c, of_char d] # chunks_exact 2 (map of_char s)"
    using chunks_exact_append [of "[of_char c, of_char d]" 2 "map of_char s"] by simp
  with "3.prems" obtain hi lo bs' where hi: "hex_nibble (of_char c) = Some hi"
    and lo: "hex_nibble (of_char d) = Some lo"
    and bs': "parse_pairs (chunks_exact 2 (map of_char s)) = Inr bs'"
    and bs: "bs = (push_bit 4 hi OR lo) # bs'"
    by (simp only: ch parse_pairs.simps)
      (auto simp: rbind_Inr_iff ok_or_def split: option.splits)
  from hex_nibble_char [OF hi] hex_nibble_char [OF lo]
  have n: "HEX ! unat hi = to_ascii_lowercase c" "hi < 16"
    "HEX ! unat lo = to_ascii_lowercase d" "lo < 16" by simp_all
  from "3.IH"(1) [OF bs'] "3.prems" have "encode_hex bs' = map to_ascii_lowercase s"
    "2 * length bs' = length s" by simp_all
  with bs n nibbles_pair [OF n(2,4)] show ?case by (simp add: hex_pair_def)
qed simp_all

lemma from_bytes_simps [simp]:
  "hex (from_bytes bs) = encode_hex bs" "raw (from_bytes bs) = bs"
  by (simp_all add: from_bytes_def)

lemma hash_ok_from_bytes [simp]: "hash_ok (from_bytes bs) \<longleftrightarrow> length bs = 32"
  by (simp add: hash_ok_def)

lemma hash_ok_compute [simp]: "digest32 sha \<Longrightarrow> hash_ok (compute sha d)"
  by (simp add: compute_def digest32_def)

lemma raw_compute [simp]: "raw (compute sha d) = sha d"
  by (simp add: compute_def)

lemma from_bytes_raw [simp]: "hash_ok h \<Longrightarrow> from_bytes (raw h) = h"
  by (simp add: hash_ok_def from_bytes_def)

lemma hash_ok_length [simp]: "hash_ok h \<Longrightarrow> length (raw h) = 32"
  by (simp add: hash_ok_def)

lemma hash_eq_raw: "hash_ok g \<Longrightarrow> hash_ok h \<Longrightarrow> g = h \<longleftrightarrow> raw g = raw h"
  by (metis from_bytes_raw)

lemma from_hex_hex: "hash_ok h \<Longrightarrow> from_hex (hex h) = Inr h"
  by (simp add: from_hex_def hash_ok_def parse_pairs_encode_hex)

lemma hex_inject: "hash_ok g \<Longrightarrow> hash_ok h \<Longrightarrow> hex g = hex h \<longleftrightarrow> g = h"
  by (metis from_hex_hex sum.inject(2))

lemma from_hex_ok: "from_hex s = Inr h \<Longrightarrow> hash_ok h \<and> hex h = map to_ascii_lowercase s"
  by (auto simp: from_hex_def rbind_Inr_iff hash_ok_def dest!: parse_pairs_sound
      split: if_splits)

interpretation hash_text: wire_format hash_ok "\<lambda>h. Inr (hex h) :: unit + string" from_hex
  by unfold_locales (auto simp: from_hex_hex dest: from_hex_ok)

section \<open>Tags, blobs, chunks and manifests\<close>

lemma first_bytes_simps [simp]:
  "first_byte [] = None" "first_byte (a # bs) = Some a"
  "second_byte [] = None" "second_byte [a] = None" "second_byte (a # b # bs) = Some b"
  by (simp_all add: first_byte_def second_byte_def)

lemma needs_escape_iff:
  "blob_needs_escape (first_byte c) (second_byte c) \<longleftrightarrow>
     (\<exists>b r. c = 0xED # b # r \<and> 0xF0 \<le> b)"
  by (cases c; cases "tl c") (auto simp: blob_needs_escape_def)

lemma deserialise_serialise_blob [simp]: "deserialise_blob (serialise_blob c) = c"
proof (cases "blob_needs_escape (first_byte c) (second_byte c)")
  case True
  then show ?thesis by (simp add: serialise_blob_def deserialise_blob_def type_tags)
next
  case False
  then have "\<not> prefix TYPE_TAG_BLOB c"
    by (auto simp: needs_escape_iff type_tags prefix_def)
  with False show ?thesis by (simp add: serialise_blob_def deserialise_blob_def)
qed

lemma serialise_blob_no_tag:
  assumes "t \<in> {TYPE_TAG_TREE, TYPE_TAG_MANIFEST, TYPE_TAG_CHUNK}"
  shows "\<not> prefix t (serialise_blob c)"
proof (cases "blob_needs_escape (first_byte c) (second_byte c)")
  case True
  with assms show ?thesis by (auto simp: serialise_blob_def type_tags)
next
  case False
  with assms show ?thesis
    by (auto simp: serialise_blob_def needs_escape_iff type_tags prefix_def)
qed

lemma deserialise_serialise_chunk [simp]: "deserialise_chunk (serialise_chunk c) = Some c"
  by (simp add: deserialise_chunk_def serialise_chunk_def type_tags)

lemma deserialise_serialise_manifest:
  assumes "\<forall>h \<in> set hs. hash_ok h"
  shows "deserialise_manifest (serialise_manifest hs) = Some hs"
proof -
  let ?p = "concat (map raw hs)"
  from assms have len: "\<forall>x \<in> set (map raw hs). length x = 32" by simp
  then have "length ?p = 32 * length (map raw hs)" by (rule length_concat_const)
  moreover from len have "chunks_exact 32 ?p = map raw hs" by (simp add: chunks_exact_concat)
  moreover from assms have "map (from_bytes \<circ> raw) hs = hs" by (simp add: map_idI)
  ultimately show ?thesis
    by (simp add: deserialise_manifest_def serialise_manifest_def type_tags Let_def)
qed

lemma deserialise_manifest_ok:
  "deserialise_manifest bs = Some hs \<Longrightarrow>
     (\<forall>h \<in> set hs. hash_ok h) \<and> bs = serialise_manifest hs"
proof -
  assume d: "deserialise_manifest bs = Some hs"
  then obtain p where bs: "bs = TYPE_TAG_MANIFEST @ p" and p: "length p mod 32 = 0"
    and hs: "hs = map from_bytes (chunks_exact 32 p)"
    by (auto simp: deserialise_manifest_def type_tags Let_def prefix_def split: if_splits)
  from chunks_exact_lengths [of 32 p] hs have "\<forall>h \<in> set hs. hash_ok h" by simp
  moreover have "concat (map raw hs) = p"
    using p hs concat_chunks_exact [of 32 p] by (simp add: comp_def dvd_eq_mod_eq_0)
  ultimately show ?thesis using bs by (simp add: serialise_manifest_def)
qed

interpretation manifest: wire_format "\<lambda>hs. \<forall>h \<in> set hs. hash_ok h"
  "\<lambda>hs. Inr (serialise_manifest hs) :: unit + bytes"
  "\<lambda>bs. ok_or (deserialise_manifest bs) (InvalidObject ''manifest'')"
  by unfold_locales
    (auto simp: deserialise_serialise_manifest ok_or_def dest: deserialise_manifest_ok
      split: option.splits)

section \<open>Trees\<close>

lemma validate_entry_name_iff:
  "validate_entry_name name = Inr () \<longleftrightarrow>
     name \<noteq> [] \<and> name \<noteq> ''.'' \<and> name \<noteq> ''..'' \<and> CHR ''/'' \<notin> set name \<and>
     CHR 0x00 \<notin> set name \<and> name \<noteq> ''.omemfs'' \<and>
     (is_reserved_name name \<longrightarrow> name = ''.omemfs-filter'')"
  by (simp add: validate_entry_name_def is_metadata_dir_name_def)

lemma validate_all_iff:
  "rfold (\<lambda>e _. validate_entry_name (ename e)) es () = Inr u \<longleftrightarrow>
     (\<forall>e \<in> set es. validate_entry_name (ename e) = Inr ())"
  by (induction es) (auto simp: rbind_Inr_iff)

definition tree_names_ok :: "tree \<Rightarrow> bool" where
  "tree_names_ok t \<longleftrightarrow> (\<forall>e \<in> set (entries t). validate_entry_name (ename e) = Inr ())"

lemma tree_deserialise_iff:
  "tree_deserialise from_json data = Inr t \<longleftrightarrow>
     from_json (if prefix TYPE_TAG_TREE data then drop 2 data else data) = Some t \<and>
     tree_names_ok t"
  by (auto simp: tree_deserialise_def rbind_Inr_iff ok_or_def validate_all_iff
      tree_names_ok_def Let_def split: option.splits)

lemma tree_deserialise_serialise:
  assumes "from_json (to_json t) = Some t" and "tree_names_ok t"
  shows "tree_deserialise from_json (tree_serialise to_json t) = Inr t"
  using assms by (simp add: tree_deserialise_iff tree_serialise_def type_tags)

lemma sorted_entries_props:
  "set (sorted_entries es) = set es" "length (sorted_entries es) = length es" "sorted (map ename (sorted_entries es))"
  by (simp_all add: sorted_entries_def)

lemma aggregate_mtime_bound:
  assumes "e \<in> set es" and "emtime e = Some m"
  shows "\<exists>x. aggregate_mtime es = Some x \<and> m \<le> x"
proof -
  have fold_ge: "\<forall>y \<in> set (z # ys). y \<le> fold max ys z" for z :: int and ys
    by (induction ys arbitrary: z) (auto simp: max_def, (metis linear order_trans)+)
  from assms have m: "m \<in> set (List.map_filter emtime es)"
    by (force simp: List.map_filter_def)
  then obtain z ys where "List.map_filter emtime es = z # ys"
    by (cases "List.map_filter emtime es") auto
  with m fold_ge [of z ys] show ?thesis by (auto simp: aggregate_mtime_def)
qed

section \<open>Properties\<close>

lemma lowercase_char: "(of_char (to_ascii_lowercase c) :: nat) =
    (if 65 \<le> (of_char c :: nat) \<and> (of_char c :: nat) \<le> 90 then of_char c + 32 else of_char c)"
  by (simp add: to_ascii_lowercase_def)

lemma hex_nibble_of_char:
  "hex_nibble (of_char c) =
    (let n = of_char c :: nat in
     if 48 \<le> n \<and> n \<le> 57 then Some (word_of_nat (n - 48))
     else if 97 \<le> n \<and> n \<le> 102 then Some (word_of_nat (n - 87))
     else if 65 \<le> n \<and> n \<le> 70 then Some (word_of_nat (n - 55)) else None)"
proof -
  let ?n = "of_char c :: nat"
  have w: "of_char c = (word_of_nat ?n :: u8)" by (simp only: of_nat_of_char)
  have "unat (word_of_nat ?n :: u8) = ?n" by (simp add: unat_of_nat)
  then show ?thesis unfolding w
    by (auto simp: hex_nibble_def word_le_nat_alt of_nat_diff Let_def simp del: of_nat_of_char)
qed

lemma hex_nibble_lowercase: "hex_nibble (of_char (to_ascii_lowercase c)) = hex_nibble (of_char c)"
  by (auto simp: hex_nibble_of_char lowercase_char Let_def simp del: of_nat_of_char)

lemma parse_pairs_lowercase:
  "parse_pairs (chunks_exact 2 (map of_char (map to_ascii_lowercase s))) =
     parse_pairs (chunks_exact 2 (map of_char s))"
proof (induction s rule: induct_list012)
  case (3 c d s)
  have ch: "chunks_exact 2 (x # y # zs) = [x, y] # chunks_exact 2 zs" for x y :: u8 and zs
    using chunks_exact_append [of "[x, y]" 2 zs] by simp
  with 3 show ?case by (simp add: hex_nibble_lowercase)
next
  case (2 c)
  have "chunks_exact 2 [x] = []" for x :: u8 by (subst chunks_exact.simps) simp
  then show ?case by simp
qed simp

text \<open>The parser accepts exactly the 64-digit texts of a 32-byte digest, in either case,
  and the hash it returns is the one whose canonical lower-case text that is; so the text
  form names an object uniquely.\<close>

theorem from_hex_iff:
  "from_hex s = Inr h \<longleftrightarrow> hash_ok h \<and> hex h = map to_ascii_lowercase s"
proof
  assume h: "hash_ok h \<and> hex h = map to_ascii_lowercase s"
  then have e: "from_hex (map to_ascii_lowercase s) = Inr h" using from_hex_hex by metis
  from h have "map to_ascii_lowercase (map to_ascii_lowercase s) = map to_ascii_lowercase s"
    by (metis hash_ok_def lowercase_encode_hex)
  then have "from_hex (map to_ascii_lowercase s) = from_hex s"
    unfolding from_hex_def parse_pairs_lowercase by (simp only: length_map)
  with e show "from_hex s = Inr h" by simp
qed (rule from_hex_ok)

text \<open>A stored blob gives its content back and is never read as a tree, a chunk or a
  manifest, whatever bytes the file holds.\<close>

theorem blob_never_confused:
  "deserialise_blob (serialise_blob c) = c \<and> \<not> is_tree_bytes (serialise_blob c) \<and>
   deserialise_chunk (serialise_blob c) = None \<and> deserialise_manifest (serialise_blob c) = None \<and>
   deserialise_chunk (serialise_chunk c) = Some c"
  using serialise_blob_no_tag [of _ c]
  by (simp add: is_tree_bytes_def deserialise_chunk_def deserialise_manifest_def
      serialise_chunk_def) (simp add: type_tags)

text \<open>The manifest parser is the exact inverse of the manifest serialiser: it accepts
  the serialisation of a list of digests and nothing else.\<close>

theorem manifest_parse_iff:
  "deserialise_manifest bs = Some hs \<longleftrightarrow> list_all hash_ok hs \<and> bs = serialise_manifest hs"
  by (auto simp: list_all_iff deserialise_serialise_manifest dest: deserialise_manifest_ok)

lemma conflict_suffix_reserved:
  "s \<in> set CONFLICT_ARTIFACT_SUFFIXES \<Longrightarrow>
     is_reserved_name s \<and> length ''.omemfs-filter'' < length s"
proof -
  have pre: "sublist ''.omemfs-'' (''.omemfs-'' @ x)" for x by (rule sublist_append_rightI)
  have "is_reserved_name (''.omemfs-'' @ ''conflict-base'')"
    "is_reserved_name (''.omemfs-'' @ ''conflict-local'')"
    "is_reserved_name (''.omemfs-'' @ ''conflict-remote'')"
    "is_reserved_name (''.omemfs-'' @ ''conflict-meta'')"
    unfolding is_reserved_name_def by (rule pre)+
  then show "s \<in> set CONFLICT_ARTIFACT_SUFFIXES \<Longrightarrow> ?thesis"
    by (auto simp: CONFLICT_ARTIFACT_SUFFIXES_def CONFLICT_SUFFIXES_def CONFLICT_META_SUFFIX_def)
qed

lemma artifact_reserved:
  assumes "is_conflict_artifact name \<or> is_working_tree_tmp name"
  shows "is_reserved_name name \<and> name \<noteq> ''.omemfs-filter''"
  using assms
proof
  assume "is_conflict_artifact name"
  then obtain s where s: "s \<in> set CONFLICT_ARTIFACT_SUFFIXES" "suffix s name"
    by (auto simp: is_conflict_artifact_def list_ex_iff)
  from conflict_suffix_reserved [OF s(1)] s(2) have "is_reserved_name name"
    unfolding is_reserved_name_def using sublist_order.order_trans suffix_imp_sublist by blast
  moreover from conflict_suffix_reserved [OF s(1)] suffix_length_le [OF s(2)]
  have "name \<noteq> ''.omemfs-filter''" by auto
  ultimately show ?thesis by blast
next
  assume "is_working_tree_tmp name"
  then obtain r where name: "name = ''.omemfs-'' @ ''tmp-'' @ r"
    by (auto simp: is_working_tree_tmp_def WORKING_TREE_TMP_PREFIX_def prefix_def)
  then have "is_reserved_name name"
    unfolding is_reserved_name_def by (metis sublist_append_rightI)
  with name show ?thesis by simp
qed

text \<open>C26: a tree accepted from a remote can only name direct, non-reserved children of its
  directory: no entry is empty, a dot directory, a path or the metadata directory, and none
  contains the reserved \<open>.omemfs-\<close>, the tracked file \<open>.omemfs-filter\<close> excepted. So none is a
  stub marker, a conflict artifact or a temporary file of the working tree.\<close>

theorem accepted_tree_safe:
  assumes "tree_deserialise from_json data = Inr t" and "e \<in> set (entries t)"
  shows "ename e \<notin> {[], ''.'', ''..'', ''.omemfs''} \<and> CHR ''/'' \<notin> set (ename e) \<and>
    CHR 0x00 \<notin> set (ename e) \<and> (ename e = ''.omemfs-filter'' \<or> \<not> sublist ''.omemfs-'' (ename e)) \<and>
    \<not> suffix ''.omemfs-stub'' (ename e) \<and> \<not> is_conflict_artifact (ename e) \<and>
    \<not> is_working_tree_tmp (ename e)"
proof -
  from assms have v: "validate_entry_name (ename e) = Inr ()" by (auto simp: tree_deserialise_iff tree_names_ok_def)
  have "sublist ''.omemfs-'' (ename e)" if "suffix ''.omemfs-stub'' (ename e)"
  proof -
    have "sublist ''.omemfs-'' ''.omemfs-stub''" by code_simp
    with that show ?thesis using sublist_order.order_trans suffix_imp_sublist by blast
  qed
  moreover have "\<not> suffix ''.omemfs-stub'' ''.omemfs-filter''" by code_simp
  ultimately have "\<not> suffix ''.omemfs-stub'' (ename e)" using v by (auto simp: validate_entry_name_iff is_reserved_name_def)
  with v artifact_reserved [of "ename e"] show ?thesis by (auto simp: validate_entry_name_iff is_reserved_name_def)
qed

theorem accepted_tree_safe_witness:
  "tree_deserialise (\<lambda>b. if b = [1] then Some (Normal [Symlink ''a'' ''../b'' None]) else None)
     (TYPE_TAG_TREE @ [1]) = Inr (Normal [Symlink ''a'' ''../b'' None]) \<and>
   \<not> sublist ''.omemfs-'' ''a''"
proof
  show d: "tree_deserialise (\<lambda>b. if b = [1] then Some (Normal [Symlink ''a'' ''../b'' None])
      else None) (TYPE_TAG_TREE @ [1]) = Inr (Normal [Symlink ''a'' ''../b'' None])"
    by code_simp
  show "\<not> sublist ''.omemfs-'' ''a''"
    using accepted_tree_safe [OF d, of "Symlink ''a'' ''../b'' None"] by simp
qed

end
