(* ===== verification/Codec.thy ===== *)
theory Codec
  imports Objects
begin

text \<open>
  Stages 2 and 3 of the storage pipeline: \<open>src/src/codec/compress.rs\<close> (smallest of
  dictionary zstd, plain zstd and escaped raw), \<open>src/src/codec/encrypt.rs\<close>
  (AES-256-GCM with a nonce taken from the object hash) and their composition in
  \<open>src/src/codec/mod.rs\<close>.

  The \<open>zstd\<close>, \<open>aes-gcm\<close> and \<open>sha2\<close> crates and the dictionary that
  \<open>build.rs\<close> trains are the fields of the record \<open>env\<close>, an argument of every
  definition that calls them. A zstd decoder is read as the bytes it yields together with
  a flag that says whether the stream ends without an error.
\<close>

record env =
  sha :: "bytes \<Rightarrow> bytes"
  zcomp :: "bytes option \<Rightarrow> bytes \<Rightarrow> bytes"
  zdecomp :: "bytes option \<Rightarrow> bytes \<Rightarrow> bytes \<times> bool"
  tree_dict :: bytes
  gcm_enc :: "bytes \<Rightarrow> bytes \<Rightarrow> bytes \<Rightarrow> bytes"
  gcm_dec :: "bytes \<Rightarrow> bytes \<Rightarrow> bytes \<Rightarrow> bytes option"

text \<open>What the pipeline relies on: zstd is lossless with the same dictionary, and GCM
  opens what it sealed under the same key and nonce, adding a 16-byte tag.\<close>

definition zstd_lossless :: "env \<Rightarrow> bool" where
  "zstd_lossless E \<longleftrightarrow> (\<forall>d x. zdecomp E d (zcomp E d x) = (x, True))"

definition gcm_opens :: "env \<Rightarrow> bool" where
  "gcm_opens E \<longleftrightarrow> (\<forall>k n x. gcm_dec E k n (gcm_enc E k n x) = Some x \<and>
     length (gcm_enc E k n x) = length x + 16)"

section \<open>Stage 2: compress\<close>

definition MAGIC_DICT_ZSTD :: bytes where "MAGIC_DICT_ZSTD = [0xED, 0xDE]"
definition MAGIC_PLAIN_ZSTD :: bytes where "MAGIC_PLAIN_ZSTD = [0xED, 0xDF]"
definition MAGIC_ESCAPED_RAW :: bytes where "MAGIC_ESCAPED_RAW = [0xED, 0xD0]"

lemmas magics = MAGIC_DICT_ZSTD_def MAGIC_PLAIN_ZSTD_def MAGIC_ESCAPED_RAW_def

definition DECOMPRESS_MAX :: nat where
  "DECOMPRESS_MAX = 64 * 1024 * 1024"

fun raw_needs_escape :: "bytes \<Rightarrow> bool" where
  "raw_needs_escape (a # b # r) \<longleftrightarrow> a = 0xED \<and> 0xD0 \<le> b \<and> b \<le> 0xDF"
| "raw_needs_escape _ \<longleftrightarrow> False"

definition raw_stored_len :: "bytes \<Rightarrow> nat" where
  "raw_stored_len data = (if raw_needs_escape data then 2 + length data else length data)"

definition escape_raw_owned :: "bytes \<Rightarrow> bytes" where
  "escape_raw_owned data =
     (if raw_needs_escape data then MAGIC_ESCAPED_RAW @ data else data)"

definition compress :: "env \<Rightarrow> bytes \<Rightarrow> bytes" where
  "compress E data =
     (let dict_payload = zcomp E (Some (tree_dict E)) data;
          dict_total = 2 + length dict_payload;
          plain_payload = zcomp E None data;
          plain_total = 2 + length plain_payload;
          raw_total = raw_stored_len data;
          best = min (min dict_total plain_total) raw_total
      in if best = dict_total then MAGIC_DICT_ZSTD @ dict_payload
         else if best = plain_total then MAGIC_PLAIN_ZSTD @ plain_payload
         else escape_raw_owned data)"

text \<open>
  Reading at most \<open>DECOMPRESS_MAX + 1\<close> bytes from the decoder: an error past that
  point is not seen, and one byte too many is refused.
\<close>

definition decompress_zstd_bytes :: "env \<Rightarrow> bytes \<Rightarrow> bytes option \<Rightarrow> bytes result" where
  "decompress_zstd_bytes E data dict =
     (case zdecomp E dict data of (out, clean) \<Rightarrow>
        if DECOMPRESS_MAX < length out
        then Inl (InvalidObject ''decompressed output exceeds the byte limit'')
        else if clean then Inr out
        else Inl (Io ''zstd''))"

fun decompress :: "env \<Rightarrow> bytes \<Rightarrow> bytes result" where
  "decompress E (a # b # r) =
     (if a = 0xED \<and> b = 0xDE then decompress_zstd_bytes E r (Some (tree_dict E))
      else if a = 0xED \<and> b = 0xDF then decompress_zstd_bytes E r None
      else if a = 0xED \<and> b = 0xD0 then Inr r
      else Inr (a # b # r))"
| "decompress E stored = Inr stored"

section \<open>Stage 3: encrypt\<close>

definition TAG_LEN :: nat where "TAG_LEN = 16"

type_synonym encrypt_key = bytes

definition encrypt :: "env \<Rightarrow> bytes \<Rightarrow> encrypt_key option \<Rightarrow> bytes \<Rightarrow> bytes" where
  "encrypt E data key object_hash =
     (case key of None \<Rightarrow> data
      | Some k \<Rightarrow> gcm_enc E k (take 12 object_hash) data)"

definition decrypt :: "env \<Rightarrow> bytes \<Rightarrow> encrypt_key option \<Rightarrow> bytes \<Rightarrow> bytes result" where
  "decrypt E data key object_hash =
     (case key of None \<Rightarrow> Inr data
      | Some k \<Rightarrow>
          if length data < TAG_LEN then Inl AuthTagMismatch
          else (case gcm_dec E k (take 12 object_hash) data of
                  None \<Rightarrow> Inl AuthTagMismatch
                | Some p \<Rightarrow> Inr p))"

section \<open>The pipeline\<close>

definition encode_obj :: "env \<Rightarrow> bytes \<Rightarrow> encrypt_key option \<Rightarrow> bytes \<Rightarrow> bytes" where
  "encode_obj E serialised key object_hash =
     encrypt E (compress E serialised) key object_hash"

definition decode_obj :: "env \<Rightarrow> bytes \<Rightarrow> encrypt_key option \<Rightarrow> bytes \<Rightarrow> bytes result" where
  "decode_obj E stored key object_hash =
     rbind (decrypt E stored key object_hash) (decompress E)"

section \<open>Lemmas\<close>

lemma decompress_escape_raw: "decompress E (escape_raw_owned data) = Inr data"
proof (cases "raw_needs_escape data")
  case True
  then show ?thesis by (simp add: escape_raw_owned_def magics)
next
  case False
  then show ?thesis
    by (cases "(E, data)" rule: decompress.cases) (auto simp: escape_raw_owned_def)
qed

lemma decompress_zstd_lossless:
  assumes "zstd_lossless E" and "length x \<le> DECOMPRESS_MAX"
  shows "decompress_zstd_bytes E (zcomp E d x) d = Inr x"
  using assms by (simp add: decompress_zstd_bytes_def zstd_lossless_def)

lemma decompress_compress:
  assumes "zstd_lossless E" and "length x \<le> DECOMPRESS_MAX"
  shows "decompress E (compress E x) = Inr x"
  using decompress_zstd_lossless [OF assms] decompress_escape_raw
  by (simp add: compress_def magics Let_def)

lemma length_escape_raw [simp]: "length (escape_raw_owned x) = raw_stored_len x"
  by (simp add: escape_raw_owned_def raw_stored_len_def magics)

lemma length_compress:
  "length (compress E x) =
     min (min (2 + length (zcomp E (Some (tree_dict E)) x)) (2 + length (zcomp E None x)))
       (raw_stored_len x)"
  by (simp add: compress_def Let_def magics)

lemma decrypt_encrypt: "gcm_opens E \<Longrightarrow> decrypt E (encrypt E x key h) key h = Inr x"
  by (auto simp: decrypt_def encrypt_def gcm_opens_def TAG_LEN_def split: option.splits)

lemma decompress_error: "decompress E s = Inl e \<Longrightarrow> e \<noteq> ObjectNotFound g"
  by (cases "(E, s)" rule: decompress.cases)
    (auto simp: decompress_zstd_bytes_def split: if_splits prod.splits)

lemma decode_encode_obj:
  assumes "zstd_lossless E" "gcm_opens E" "length x \<le> DECOMPRESS_MAX"
  shows "decode_obj E (encode_obj E x key h) key h = Inr x"
  using assms by (simp add: decode_obj_def encode_obj_def decrypt_encrypt decompress_compress)

section \<open>A concrete environment for evaluation\<close>

text \<open>
  Stand-ins that satisfy the hypotheses: an identity compressor that appends one byte
  without a dictionary, a cipher that appends a 16-byte tag made of the key's and the
  nonce's first bytes, and a digest that keeps the length, the first and the last bytes.
\<close>

definition toy_digest :: "bytes \<Rightarrow> bytes" where
  "toy_digest d = take 32 (word_of_nat (length d) # take 15 d @ rev (drop (length d - 15) d)
     @ replicate 32 0)"

definition toy_tag :: "bytes \<Rightarrow> bytes \<Rightarrow> bytes" where
  "toy_tag k n = take 16 (take 8 k @ n @ replicate 16 0)"

definition toy_env :: env where
  "toy_env = \<lparr>sha = toy_digest,
     zcomp = (\<lambda>d x. x @ (if d = None then [0] else [])),
     zdecomp = (\<lambda>d x. (if d = None then butlast x else x, True)),
     tree_dict = [],
     gcm_enc = (\<lambda>k n x. x @ toy_tag k n),
     gcm_dec = (\<lambda>k n y. if suffix (toy_tag k n) y then Some (take (length y - 16) y) else None)\<rparr>"

lemma length_toy_tag [simp]: "length (toy_tag k n) = 16"
  by (simp add: toy_tag_def)

lemma toy_env_ok: "zstd_lossless toy_env" "gcm_opens toy_env" "digest32 (sha toy_env)"
  by (simp_all add: zstd_lossless_def gcm_opens_def digest32_def toy_env_def toy_digest_def
      suffix_def)

section \<open>Properties\<close>

text \<open>C11: an object read back through decrypt and decompress is the object that was
  compressed and encrypted, with or without a key, for every object within the
  decompression limit; what is stored is the smallest of the three candidates.\<close>

theorem pipeline_roundtrip:
  assumes "zstd_lossless E" and "gcm_opens E" and "length x \<le> DECOMPRESS_MAX"
  shows "decode_obj E (encode_obj E x key h) key h = Inr x \<and>
    length (compress E x) \<le> raw_stored_len x \<and> raw_stored_len x \<le> length x + 2"
  using decode_encode_obj [OF assms] by (simp add: length_compress raw_stored_len_def)

theorem pipeline_roundtrip_witness:
  "decode_obj toy_env (encode_obj toy_env [0xED, 0xD3, 7] (Some [1, 2, 3]) [9]) (Some [1, 2, 3]) [9]
     = Inr [0xED, 0xD3, 7]"
  using pipeline_roundtrip [OF toy_env_ok(1,2), of "[0xED, 0xD3, 7]"]
  by (simp add: DECOMPRESS_MAX_def)

text \<open>No stored object expands without bound: whatever the decoder of a hostile
  payload would yield, an accepted result is no longer than the fixed limit or the stored
  bytes themselves.\<close>

theorem decompress_no_bomb:
  assumes "decompress E s = Inr x"
  shows "length x \<le> max DECOMPRESS_MAX (length s)"
  using assms
  by (cases "(E, s)" rule: decompress.cases)
    (auto simp: decompress_zstd_bytes_def split: if_splits prod.splits)

theorem decompress_no_bomb_witness:
  "decompress toy_env [0xED, 0xDF, 5, 6, 0] = Inr [5, 6] \<and>
     length [5, 6 :: u8] \<le> max DECOMPRESS_MAX 5"
proof
  show d: "decompress toy_env [0xED, 0xDF, 5, 6, 0] = Inr [5, 6]"
    by (simp add: decompress_zstd_bytes_def toy_env_def DECOMPRESS_MAX_def)
  show "length [5, 6 :: u8] \<le> max DECOMPRESS_MAX 5"
    using decompress_no_bomb [OF d] by simp
qed

end
