(* ===== verification/Stores.thy ===== *)
theory Stores
  imports Codec
begin

text \<open>
  The \<open>ObjectStore\<close> trait (\<open>src/src/store/mod.rs\<close>) as a record of operations over
  a store state, the contract its implementations promise as a locale, and the codec's
  store helpers of \<open>src/src/codec/mod.rs\<close> (\<open>store_write\<close>, \<open>store_read\<close>,
  \<open>ensure_local_then_read\<close>) as clients of that contract.
\<close>

section \<open>The trait and its clients\<close>

record 's object_store =
  os_exists :: "'s \<Rightarrow> hash \<Rightarrow> bool result"
  os_open_read :: "'s \<Rightarrow> hash \<Rightarrow> bytes result"
  os_write_from :: "'s \<Rightarrow> hash \<Rightarrow> bytes \<Rightarrow> 's result"

definition store_write ::
    "env \<Rightarrow> 's object_store \<Rightarrow> 's \<Rightarrow> hash \<Rightarrow> bytes \<Rightarrow> encrypt_key option \<Rightarrow> 's result" where
  "store_write E S s h data key =
     rbind (os_exists S s h) (\<lambda>ex.
       if ex then Inr s
       else os_write_from S s h (encode_obj E data key (raw h)))"

definition store_read ::
    "env \<Rightarrow> 's object_store \<Rightarrow> 's \<Rightarrow> hash \<Rightarrow> encrypt_key option \<Rightarrow> bytes result" where
  "store_read E S s h key =
     rbind (os_open_read S s h) (\<lambda>stored. decode_obj E stored key (raw h))"

definition ensure_local_then_read ::
    "env \<Rightarrow> 's object_store \<Rightarrow> 'l object_store \<Rightarrow> 's \<Rightarrow> 'l \<Rightarrow> hash \<Rightarrow> encrypt_key option \<Rightarrow>
       (bytes \<times> 'l) result" where
  "ensure_local_then_read E Src Loc src loc h key =
     rbind (os_exists Loc loc h) (\<lambda>ex.
       if \<not> ex
       then rbind (store_read E Src src h key) (\<lambda>data.
            rbind (store_write E Loc loc h data None) (\<lambda>loc'. Inr (data, loc')))
       else rbind (store_read E Loc loc h None) (\<lambda>data. Inr (data, loc)))"

section \<open>The contract\<close>

text \<open>
  \<open>view s h\<close> is the stored byte string of the object \<open>h\<close>. An implementation that
  does not fail at the I/O level answers existence and reads from its view; a write of an
  object that is absent, or present with the very bytes that are written, makes it present
  with these bytes, and no other object is affected.
\<close>

locale store_laws =
  fixes S :: "'s object_store"
    and inv :: "'s \<Rightarrow> bool"
    and view :: "'s \<Rightarrow> hash \<Rightarrow> bytes option"
  assumes exists_view: "inv s \<Longrightarrow> hash_ok h \<Longrightarrow> os_exists S s h = Inr (view s h \<noteq> None)"
    and read_view: "inv s \<Longrightarrow> hash_ok h \<Longrightarrow>
      os_open_read S s h = ok_or (view s h) (ObjectNotFound (hex h))"
    and write_view: "inv s \<Longrightarrow> hash_ok h \<Longrightarrow> view s h = None \<or> view s h = Some b \<Longrightarrow>
      \<exists>s'. os_write_from S s h b = Inr s' \<and> inv s' \<and>
        (\<forall>g. hash_ok g \<longrightarrow> view s' g = (if g = h then Some b else view s g))"
begin

text \<open>An object that decodes to \<open>x\<close> in state \<open>s\<close>.\<close>

definition holds :: "env \<Rightarrow> 's \<Rightarrow> encrypt_key option \<Rightarrow> hash \<Rightarrow> bytes \<Rightarrow> bool" where
  "holds E s key h x \<longleftrightarrow> (\<exists>b. view s h = Some b \<and> decode_obj E b key (raw h) = Inr x)"

lemma store_read_iff:
  "inv s \<Longrightarrow> hash_ok h \<Longrightarrow> store_read E S s h key = Inr x \<longleftrightarrow> holds E s key h x"
  by (auto simp: store_read_def read_view holds_def rbind_Inr_iff ok_or_def split: option.splits)

lemma store_read_holds:
  "inv s \<Longrightarrow> hash_ok h \<Longrightarrow> holds E s key h x \<Longrightarrow> store_read E S s h key = Inr x"
  by (simp add: store_read_iff)

lemma store_read_absent:
  "inv s \<Longrightarrow> hash_ok h \<Longrightarrow> view s h = None \<Longrightarrow>
     store_read E S s h key = Inl (ObjectNotFound (hex h))"
  by (simp add: store_read_def read_view)

text \<open>Writing adds an absent object, keeps a present one, and keeps every other object.\<close>

lemma store_write_ok:
  assumes "inv s" "hash_ok h"
  shows "\<exists>s'. store_write E S s h x key = Inr s' \<and> inv s' \<and>
    (\<forall>g. hash_ok g \<longrightarrow> view s' g =
       (if g = h \<and> view s h = None then Some (encode_obj E x key (raw h)) else view s g))"
proof (cases "view s h")
  case None
  with assms write_view [OF assms disjI1, of "encode_obj E x key (raw h)"] show ?thesis
    by (auto simp: store_write_def exists_view)
next
  case (Some b)
  with assms show ?thesis by (simp add: store_write_def exists_view)
qed

lemma store_write_holds:
  assumes "inv s" "hash_ok h" "zstd_lossless E" "gcm_opens E" "length x \<le> DECOMPRESS_MAX"
    and agree: "\<And>b. view s h = Some b \<Longrightarrow> decode_obj E b key (raw h) = Inr x"
  shows "\<exists>s'. store_write E S s h x key = Inr s' \<and> inv s' \<and> holds E s' key h x \<and>
    (\<forall>g k y. hash_ok g \<longrightarrow> holds E s k g y \<longrightarrow> holds E s' k g y) \<and>
    (\<forall>g. hash_ok g \<longrightarrow> g \<noteq> h \<longrightarrow> view s' g = view s g)"
proof -
  from store_write_ok [OF assms(1,2)] obtain s' where
    w: "store_write E S s h x key = Inr s'" "inv s'" and
    v: "\<And>g. hash_ok g \<Longrightarrow> view s' g =
       (if g = h \<and> view s h = None then Some (encode_obj E x key (raw h)) else view s g)"
    by metis
  have "holds E s' key h x"
    using v [OF assms(2)] agree decode_encode_obj [OF assms(3-5), of key "raw h"]
    by (cases "view s h") (auto simp: holds_def)
  moreover have "holds E s' k g y" if "hash_ok g" "holds E s k g y" for g k y
    using v [OF that(1)] that(2) by (auto simp: holds_def)
  ultimately show ?thesis using w v by auto
qed

end

text \<open>Two stores: a source read with a key, and a local cache that holds plaintext.\<close>

locale cache_over = src: store_laws Src src_inv src_view + loc: store_laws Loc loc_inv loc_view
  for Src :: "'s object_store" and src_inv src_view
    and Loc :: "'l object_store" and loc_inv loc_view
begin

lemma ensure_local_then_read_ok:
  assumes "src_inv src" "loc_inv loc" "hash_ok h" "zstd_lossless E" "gcm_opens E"
    "length x \<le> DECOMPRESS_MAX"
    and src: "src.holds E src key h x"
    and agree: "\<And>b. loc_view loc h = Some b \<Longrightarrow> decode_obj E b None (raw h) = Inr x"
  shows "\<exists>loc'. ensure_local_then_read E Src Loc src loc h key = Inr (x, loc') \<and>
    loc_inv loc' \<and> loc.holds E loc' None h x"
proof (cases "loc_view loc h")
  case None
  from src.store_read_holds [OF assms(1,3) src] have "store_read E Src src h key = Inr x" .
  with None loc.store_write_holds [OF assms(2-6) agree] assms(2,3) show ?thesis
    by (auto simp: ensure_local_then_read_def loc.exists_view)
next
  case (Some b)
  with agree have "loc.holds E loc None h x" by (simp add: loc.holds_def)
  with Some assms(2,3) show ?thesis
    by (auto simp: ensure_local_then_read_def loc.exists_view loc.store_read_holds)
qed

end

end
