(* ===== verification/ObjectsDir.thy ===== *)
theory ObjectsDir
  imports Stores "HOL-Library.AList"
begin

text \<open>
  The adaptive-depth object directory of \<open>src/src/store/objects_dir.rs\<close>: a directory
  that starts flat and is split into two-character subdirectories once it holds more than
  \<open>THRESHOLD\<close> objects, with a migration that is resumed after a crash.

  A directory is a \<open>Shard\<close>: the number in its \<open>.depth\<close> file (0 when absent), whether
  the \<open>.migrating\<close> marker is present, its other files and its subdirectories. A path
  is the list of its components below the root. The order of \<open>read_dir\<close> is the order of
  the association lists, which is arbitrary. Lookups and writes by one process are modelled
  with every intermediate state of a migration; file-system failures other than a name
  collision are not.
\<close>

section \<open>The code\<close>

datatype shard = Shard (depth: nat) (migrating: bool) (files: "(string \<times> bytes) list")
  (subs: "(string \<times> shard) list")

definition THRESHOLD :: nat where
  "THRESHOLD = 1000"

text \<open>A directory that does not exist reads as an empty one.\<close>

definition empty_dir :: shard where
  "empty_dir = Shard 0 False [] []"

definition subdir :: "shard \<Rightarrow> string \<Rightarrow> shard" where
  "subdir dir name = (case map_of (subs dir) name of None \<Rightarrow> empty_dir | Some s \<Rightarrow> s)"

definition has_path :: "shard \<Rightarrow> string \<Rightarrow> bool" where
  "has_path dir name \<longleftrightarrow> map_of (files dir) name \<noteq> None \<or> map_of (subs dir) name \<noteq> None"

definition is_dotfile :: "string \<Rightarrow> bool" where
  "is_dotfile name \<longleftrightarrow> prefix ''.'' name"

function find_in :: "shard \<Rightarrow> string \<Rightarrow> string list option" where
  "find_in dir hx =
     (if depth dir = 0
      then (if has_path dir hx then Some [hx]
            else if migrating dir \<and> 2 \<le> length hx \<and> has_path (subdir dir (take 2 hx)) (drop 2 hx)
              then Some [take 2 hx, drop 2 hx]
            else None)
      else (if length hx < 2 then None
            else map_option (\<lambda>p. take 2 hx # p) (find_in (subdir dir (take 2 hx)) (drop 2 hx))))"
  by pat_completeness auto
termination
  by (relation "measure (\<lambda>(dir, hx). length hx)") auto

declare find_in.simps [simp del]

fun read_path :: "shard \<Rightarrow> string list \<Rightarrow> bytes option" where
  "read_path dir [] = None"
| "read_path dir [n] = map_of (files dir) n"
| "read_path dir (d # n # ns) = read_path (subdir dir d) (n # ns)"

definition read_object :: "shard \<Rightarrow> string \<Rightarrow> bytes option" where
  "read_object dir hx = (case find_in dir hx of None \<Rightarrow> None | Some p \<Rightarrow> read_path dir p)"

definition count_objects :: "shard \<Rightarrow> nat" where
  "count_objects dir = length (filter (\<lambda>(n, b). \<not> is_dotfile n) (files dir))"

text \<open>One iteration of the loop of \<open>do_migration\<close>, for one entry of the snapshot.\<close>

definition migrate_one :: "string \<Rightarrow> shard \<Rightarrow> shard result" where
  "migrate_one name dir =
     (if is_dotfile name then Inr dir
      else if length name < 2 then Inr dir
      else let pre = take 2 name; rest = drop 2 name
           in if map_of (files dir) pre \<noteq> None then Inl (Io ''create_dir_all'')
              else let sub = subdir dir pre;
                       dir1 = Shard (depth dir) (migrating dir) (files dir)
                                (AList.update pre sub (subs dir))
                   in if \<not> has_path sub rest
                      then (case map_of (files dir) name of
                              None \<Rightarrow> Inr dir1
                            | Some b \<Rightarrow>
                                Inr (Shard (depth dir) (migrating dir)
                                  (AList.delete name (files dir))
                                  (AList.update pre
                                    (Shard (depth sub) (migrating sub)
                                       (AList.update rest b (files sub)) (subs sub))
                                    (subs dir))))
                      else Inr (Shard (depth dir) (migrating dir)
                                 (AList.delete name (files dir)) (subs dir1)))"

definition do_migration :: "shard \<Rightarrow> shard result" where
  "do_migration dir =
     rbind (rfold migrate_one (map fst (files dir)) dir) (\<lambda>dir'.
       Inr (Shard 1 False (files dir') (subs dir')))"

definition start_migration :: "shard \<Rightarrow> shard result" where
  "start_migration dir =
     do_migration (if migrating dir then dir
                   else Shard (depth dir) True (files dir) (subs dir))"

function write_stream_in :: "shard \<Rightarrow> string \<Rightarrow> bytes \<Rightarrow> shard result" where
  "write_stream_in dir0 hx data =
     rbind (if migrating dir0 then do_migration dir0 else Inr dir0) (\<lambda>dir.
       if depth dir = 0
       then (if has_path dir hx then Inr dir
             else let dir' = Shard (depth dir) (migrating dir)
                               (AList.update hx data (files dir)) (subs dir)
                  in if 2 \<le> length hx \<and> THRESHOLD < count_objects dir'
                     then start_migration dir' else Inr dir')
       else if length hx < 2 then Inl (Other ''hash too short for current shard depth'')
       else rbind (write_stream_in (subdir dir (take 2 hx)) (drop 2 hx) data) (\<lambda>s.
              Inr (Shard (depth dir) (migrating dir) (files dir)
                     (AList.update (take 2 hx) s (subs dir)))))"
  by pat_completeness auto
termination
  by (relation "measure (\<lambda>(dir, hx, data). length hx)") auto

declare write_stream_in.simps [simp del]

text \<open>
  \<open>collect_hashes\<close> visits files and subdirectories in the order of the listing; here the
  files of a directory come before its subdirectories.
\<close>

fun collect_hashes :: "shard \<Rightarrow> string \<Rightarrow> string list" where
  "collect_hashes (Shard d m fs ss) pre =
     map (\<lambda>(n, b). pre @ n) (filter (\<lambda>(n, b). \<not> is_dotfile n) fs) @
     (if d = 0 then []
      else concat (map (\<lambda>(n, s). if is_dotfile n then [] else collect_hashes s (pre @ n)) ss))"

declare collect_hashes.simps [simp del]

definition iter_hashes :: "shard \<Rightarrow> string list" where
  "iter_hashes dir = collect_hashes dir []"

section \<open>Well-formed directories\<close>

text \<open>Object names of \<open>L\<close> hexadecimal digits, and the three legal states of a
  directory: flat, in migration, and split.\<close>

definition hexname :: "nat \<Rightarrow> string \<Rightarrow> bool" where
  "hexname L n \<longleftrightarrow> length n = L \<and> set n \<subseteq> set HEX"

definition names_ok :: "nat \<Rightarrow> shard \<Rightarrow> bool" where
  "names_ok L dir \<longleftrightarrow> distinct (map fst (files dir)) \<and> distinct (map fst (subs dir)) \<and>
     (\<forall>n \<in> fst ` set (files dir). is_dotfile n \<or> hexname L n) \<and>
     (\<forall>n \<in> fst ` set (subs dir). hexname 2 n)"

definition no_objects :: "shard \<Rightarrow> bool" where
  "no_objects dir \<longleftrightarrow> (\<forall>n \<in> fst ` set (files dir). is_dotfile n)"

definition flat_ok :: "nat \<Rightarrow> shard \<Rightarrow> bool" where
  "flat_ok L dir \<longleftrightarrow> depth dir = 0 \<and> \<not> migrating dir \<and> subs dir = [] \<and> names_ok L dir"

definition mig_ok :: "nat \<Rightarrow> shard \<Rightarrow> bool" where
  "mig_ok L dir \<longleftrightarrow> migrating dir \<and> depth dir \<le> 1 \<and> 3 \<le> L \<and> names_ok L dir \<and>
     (\<forall>s \<in> snd ` set (subs dir). flat_ok (L - 2) s) \<and> (depth dir = 1 \<longrightarrow> no_objects dir) \<and>
     (\<forall>n \<in> fst ` set (files dir). \<not> is_dotfile n \<longrightarrow>
        map_of (files (subdir dir (take 2 n))) (drop 2 n) = None)"

function shard_ok :: "nat \<Rightarrow> shard \<Rightarrow> bool" where
  "shard_ok L dir \<longleftrightarrow> flat_ok L dir \<or> mig_ok L dir \<or>
     (if 3 \<le> L
      then depth dir = 1 \<and> \<not> migrating dir \<and> names_ok L dir \<and> no_objects dir \<and>
        (\<forall>s \<in> snd ` set (subs dir). shard_ok (L - 2) s)
      else False)"
  by pat_completeness auto
termination
  by (relation "measure fst") auto

declare shard_ok.simps [simp del]

lemma hexname_not_dot: "hexname L n \<Longrightarrow> \<not> is_dotfile n"
  by (auto simp: hexname_def is_dotfile_def HEX_def prefix_def)

lemma hexname_parts: "hexname L n \<Longrightarrow> 2 \<le> L \<Longrightarrow> hexname 2 (take 2 n) \<and> hexname (L - 2) (drop 2 n)"
  by (auto simp: hexname_def dest: in_set_takeD in_set_dropD)

lemma flat_ok_empty [simp]: "flat_ok L empty_dir"
  by (simp add: flat_ok_def empty_dir_def names_ok_def)

lemma subdir_cases: "subdir dir p = empty_dir \<or> subdir dir p \<in> snd ` set (subs dir)"
  by (auto simp: subdir_def split: option.splits dest: map_of_SomeD intro: rev_image_eqI)

lemma mig_ok_subs: "mig_ok L dir \<Longrightarrow> s \<in> snd ` set (subs dir) \<Longrightarrow> flat_ok (L - 2) s"
  unfolding mig_ok_def by (elim conjE) (rule bspec)

lemma mig_ok_disjoint:
  "mig_ok L dir \<Longrightarrow> n \<in> fst ` set (files dir) \<Longrightarrow> \<not> is_dotfile n \<Longrightarrow>
     map_of (files (subdir dir (take 2 n))) (drop 2 n) = None"
  unfolding mig_ok_def by (elim conjE) (drule (1) bspec, drule (1) mp, assumption)

lemma mig_ok_subdir: "mig_ok L dir \<Longrightarrow> flat_ok (L - 2) (subdir dir p)"
  using subdir_cases [of dir p] mig_ok_subs by fastforce

lemma subdir_update [simp]:
  "subdir (Shard d m fs (AList.update p s ss)) q = (if q = p then s else subdir (Shard d m fs ss) q)"
  by (simp add: subdir_def update_conv')

lemma subdir_state [simp]: "subdir (Shard d m fs (subs dir)) q = subdir dir q"
  by (simp add: subdir_def)

lemma has_path_flat: "flat_ok L dir \<Longrightarrow> has_path dir n \<longleftrightarrow> map_of (files dir) n \<noteq> None"
  by (simp add: flat_ok_def has_path_def)

lemma has_path_names:
  "names_ok L dir \<Longrightarrow> hexname L n \<Longrightarrow> L \<noteq> 2 \<Longrightarrow> has_path dir n \<longleftrightarrow> map_of (files dir) n \<noteq> None"
  by (auto simp: has_path_def names_ok_def hexname_def dest!: map_of_SomeD)

lemma find_in_nonempty: "find_in dir hx = Some p \<Longrightarrow> p \<noteq> []"
  by (subst (asm) find_in.simps) (auto split: if_splits)

section \<open>What a lookup reads\<close>

lemma read_flat:
  assumes "flat_ok L dir"
  shows "read_object dir hx = map_of (files dir) hx"
proof -
  from assms have "find_in dir hx = (if map_of (files dir) hx \<noteq> None then Some [hx] else None)"
    by (subst find_in.simps) (simp add: has_path_flat [OF assms] flat_ok_def)
  then show ?thesis by (simp add: read_object_def)
qed

lemma read_split:
  assumes "depth dir \<noteq> 0" "2 \<le> length hx"
  shows "read_object dir hx = read_object (subdir dir (take 2 hx)) (drop 2 hx)"
proof -
  have "read_path dir (d # p) = read_path (subdir dir d) p" if "p \<noteq> []" for d p
    using that by (cases p) simp_all
  moreover from assms have "find_in dir hx =
      map_option (\<lambda>p. take 2 hx # p) (find_in (subdir dir (take 2 hx)) (drop 2 hx))"
    by (subst find_in.simps) simp
  ultimately show ?thesis
    by (auto simp: read_object_def find_in_nonempty split: option.splits)
qed

lemma read_mig:
  assumes ok: "mig_ok L dir" and hx: "hexname L hx"
  shows "read_object dir hx = (case map_of (files dir) hx of Some b \<Rightarrow> Some b
     | None \<Rightarrow> map_of (files (subdir dir (take 2 hx))) (drop 2 hx))"
proof (cases "depth dir = 0")
  case True
  have nm: "has_path dir hx \<longleftrightarrow> map_of (files dir) hx \<noteq> None"
    using ok hx by (intro has_path_names [of L]) (auto simp: mig_ok_def)
  have sub: "has_path (subdir dir (take 2 hx)) (drop 2 hx) \<longleftrightarrow>
      map_of (files (subdir dir (take 2 hx))) (drop 2 hx) \<noteq> None"
    by (rule has_path_flat [OF mig_ok_subdir [OF ok]])
  have "find_in dir hx = (if map_of (files dir) hx \<noteq> None then Some [hx]
      else if map_of (files (subdir dir (take 2 hx))) (drop 2 hx) \<noteq> None
        then Some [take 2 hx, drop 2 hx] else None)"
    using True ok hx by (subst find_in.simps) (simp add: nm sub mig_ok_def hexname_def)
  then show ?thesis by (auto simp: read_object_def)
next
  case False
  then have "map_of (files dir) hx = None"
    using ok hexname_not_dot [OF hx] by (auto simp: mig_ok_def no_objects_def map_of_eq_None_iff)
  moreover have "2 \<le> length hx" using ok hx by (simp add: mig_ok_def hexname_def)
  ultimately show ?thesis
    using read_split [OF False] read_flat [OF mig_ok_subdir [OF ok]] by simp
qed
section \<open>Migration\<close>

text \<open>Same objects under every name of \<open>L\<close> digits.\<close>

definition same_reads :: "nat \<Rightarrow> shard \<Rightarrow> shard \<Rightarrow> bool" where
  "same_reads L dir dir' \<longleftrightarrow> (\<forall>hx. hexname L hx \<longrightarrow> read_object dir' hx = read_object dir hx)"

lemma same_reads_refl [simp]: "same_reads L dir dir"
  by (simp add: same_reads_def)

lemma same_reads_trans: "same_reads L a b \<Longrightarrow> same_reads L b c \<Longrightarrow> same_reads L a c"
  by (simp add: same_reads_def)

lemma set_delete: "fst ` set (AList.delete n al) = fst ` set al - {n}"
  by (auto simp: AList.delete_eq)

lemma ball_snd_update:
  "(\<And>s. s \<in> snd ` set al \<Longrightarrow> P s) \<Longrightarrow> P v \<Longrightarrow> \<forall>s \<in> snd ` set (AList.update k v al). P s"
  by (induction al) auto

lemma names_ok_move:
  assumes "names_ok L dir" "hexname 2 p"
  shows "names_ok L (Shard d m (AList.delete n (files dir)) (AList.update p s (subs dir)))"
    and "names_ok L (Shard d m (files dir) (AList.update p s (subs dir)))"
  using assms unfolding names_ok_def
  by (auto simp: distinct_delete distinct_update set_delete dom_update)

lemma flat_ok_add:
  assumes "flat_ok L s" "hexname L n"
  shows "flat_ok L (Shard (depth s) (migrating s) (AList.update n b (files s)) (subs s))"
  using assms by (simp add: flat_ok_def names_ok_def distinct_update dom_update)

text \<open>Creating the subdirectory, and the rename that follows, of one object.\<close>

lemma mkdir_ok:
  assumes ok: "mig_ok L dir" and p: "hexname 2 p"
  defines "dir' \<equiv> Shard (depth dir) (migrating dir) (files dir)
    (AList.update p (subdir dir p) (subs dir))"
  shows "mig_ok L dir'" and "same_reads L dir dir'"
proof -
  have sub: "subdir dir' q = subdir dir q" for q by (simp add: dir'_def)
  have "\<forall>s \<in> snd ` set (subs dir'). flat_ok (L - 2) s"
    unfolding dir'_def shard.sel
    by (rule ball_snd_update) (rule mig_ok_subs [OF ok] mig_ok_subdir [OF ok], assumption?)+
  with ok show ok': "mig_ok L dir'"
    unfolding mig_ok_def sub
    by (auto simp: dir'_def no_objects_def intro: names_ok_move(2) [OF _ p])
  show "same_reads L dir dir'"
    by (simp add: same_reads_def read_mig [OF ok] read_mig [OF ok'] sub split: option.splits)
      (simp add: dir'_def)
qed

lemma move_ok:
  assumes ok: "mig_ok L dir" and n: "hexname L n" and b: "map_of (files dir) n = Some b"
  defines "sub \<equiv> subdir dir (take 2 n)"
  defines "dir' \<equiv> Shard (depth dir) (migrating dir) (AList.delete n (files dir))
    (AList.update (take 2 n) (Shard (depth sub) (migrating sub)
       (AList.update (drop 2 n) b (files sub)) (subs sub)) (subs dir))"
  shows "mig_ok L dir'" and "same_reads L dir dir'"
proof -
  have L: "3 \<le> L" "2 \<le> L" using ok by (auto simp: mig_ok_def)
  note pq = hexname_parts [OF n L(2)]
  let ?sub' = "Shard (depth sub) (migrating sub) (AList.update (drop 2 n) b (files sub)) (subs sub)"
  have fl: "flat_ok (L - 2) ?sub'"
    using flat_ok_add [OF mig_ok_subdir [OF ok] conjunct2 [OF pq]] by (simp add: sub_def)
  have sub': "subdir dir' q = (if q = take 2 n then ?sub' else subdir dir q)" for q
    by (simp add: dir'_def)
  have subs: "\<forall>s \<in> snd ` set (subs dir'). flat_ok (L - 2) s"
    unfolding dir'_def shard.sel by (rule ball_snd_update) (rule fl mig_ok_subs [OF ok], assumption?)+
  have inj: "take 2 m = take 2 n \<Longrightarrow> drop 2 m = drop 2 n \<Longrightarrow> m = n" for m
    by (metis append_take_drop_id)
  have disj: "\<forall>m \<in> fst ` set (files dir'). \<not> is_dotfile m \<longrightarrow>
      map_of (files (subdir dir' (take 2 m))) (drop 2 m) = None"
  proof (intro ballI impI)
    fix m assume m: "m \<in> fst ` set (files dir')" "\<not> is_dotfile m"
    from m(1) have "m \<in> fst ` set (files dir) - {n}"
      by (simp only: dir'_def shard.sel set_delete)
    then have "m \<in> fst ` set (files dir)" "m \<noteq> n" by blast+
    with mig_ok_disjoint [OF ok _ m(2)] inj [of m] show "map_of (files (subdir dir' (take 2 m))) (drop 2 m) = None"
      by (auto simp: sub' sub_def update_conv')
  qed
  have st: "migrating dir'" "depth dir' \<le> 1" "depth dir' = 1 \<longrightarrow> no_objects dir'"
    using ok by (auto simp: dir'_def mig_ok_def no_objects_def set_delete)
  have "names_ok L dir'"
    using ok pq by (simp add: dir'_def mig_ok_def names_ok_move(1))
  with subs disj st L show ok': "mig_ok L dir'" unfolding mig_ok_def by blast
  show "same_reads L dir dir'"
    unfolding same_reads_def
  proof (intro allI impI)
    fix hx assume hx: "hexname L hx"
    have "n \<in> fst ` set (files dir)" using b by (metis domI dom_map_of_conv_image_fst)
    from mig_ok_disjoint [OF ok this hexname_not_dot [OF n]]
    have "map_of (files sub) (drop 2 n) = None" by (simp add: sub_def)
    moreover have "map_of (files dir') hx = (if hx = n then None else map_of (files dir) hx)"
      by (simp add: dir'_def delete_conv')
    ultimately show "read_object dir' hx = read_object dir hx"
      using b inj [of hx] unfolding read_mig [OF ok hx] read_mig [OF ok' hx] sub'
      by (auto simp: update_conv' sub_def split: option.splits)
  qed
qed
lemma hexname_file:
  "names_ok L dir \<Longrightarrow> n \<in> fst ` set (files dir) \<Longrightarrow> \<not> is_dotfile n \<Longrightarrow> hexname L n"
  unfolding names_ok_def by blast

lemma migrate_one_ok:
  assumes ok: "mig_ok L dir" and n: "n \<in> fst ` set (files dir)"
  shows "\<exists>dir'. migrate_one n dir = Inr dir' \<and> mig_ok L dir' \<and> same_reads L dir dir' \<and>
    fst ` set (files dir') = fst ` set (files dir) - (if is_dotfile n then {} else {n})"
proof (cases "is_dotfile n")
  case True
  with ok show ?thesis by (simp add: migrate_one_def)
next
  case False
  have nm: "names_ok L dir" "3 \<le> L" "2 \<le> L" using ok by (auto simp: mig_ok_def)
  note hn = hexname_file [OF nm(1) n False]
  then have len: "\<not> length n < 2" using nm by (simp add: hexname_def)
  have pre: "map_of (files dir) (take 2 n) = None"
  proof -
    have "hexname 2 (take 2 n)" using hexname_parts [OF hn nm(3)] by simp
    moreover have "hexname L (take 2 n)" if "take 2 n \<in> fst ` set (files dir)"
      using hexname_file [OF nm(1) that] hexname_not_dot calculation by blast
    ultimately have "take 2 n \<notin> fst ` set (files dir)" using nm(2) by (auto simp: hexname_def)
    then show ?thesis by (simp add: map_of_eq_None_iff)
  qed
  obtain b where b: "map_of (files dir) n = Some b"
    using n by (metis map_of_eq_None_iff not_None_eq)
  from mig_ok_disjoint [OF ok n False] have "\<not> has_path (subdir dir (take 2 n)) (drop 2 n)"
    using has_path_flat [OF mig_ok_subdir [OF ok]] by simp
  with move_ok [OF ok hn b] False len pre b show ?thesis
    by (simp add: migrate_one_def Let_def set_delete)
qed

lemma migrate_all_ok:
  "mig_ok L dir \<Longrightarrow> distinct ns \<Longrightarrow> set ns \<subseteq> fst ` set (files dir) \<Longrightarrow>
    \<exists>dir'. rfold migrate_one ns dir = Inr dir' \<and> mig_ok L dir' \<and> same_reads L dir dir' \<and>
      fst ` set (files dir') = fst ` set (files dir) - {n \<in> set ns. \<not> is_dotfile n}"
proof (induction ns arbitrary: dir)
  case (Cons n ns)
  from migrate_one_ok [OF Cons.prems(1), of n] Cons.prems(3) obtain d1 where
    d1: "migrate_one n dir = Inr d1" "mig_ok L d1" "same_reads L dir d1"
    "fst ` set (files d1) = fst ` set (files dir) - (if is_dotfile n then {} else {n})" by auto
  with Cons.prems have "set ns \<subseteq> fst ` set (files d1)" by auto
  from Cons.IH [OF d1(2) _ this] Cons.prems(2) obtain d2 where
    d2: "rfold migrate_one ns d1 = Inr d2" "mig_ok L d2" "same_reads L d1 d2"
    "fst ` set (files d2) = fst ` set (files d1) - {n \<in> set ns. \<not> is_dotfile n}" by auto
  have "rfold migrate_one (n # ns) dir = Inr d2" using d1(1) d2(1) by simp
  moreover have "fst ` set (files d2) = fst ` set (files dir) - {m \<in> set (n # ns). \<not> is_dotfile m}"
    using d1(4) d2(4) by auto
  ultimately show ?case using d2(2) same_reads_trans [OF d1(3) d2(3)] by blast
qed simp

definition split_ok :: "nat \<Rightarrow> shard \<Rightarrow> bool" where
  "split_ok L dir \<longleftrightarrow> 3 \<le> L \<and> depth dir = 1 \<and> \<not> migrating dir \<and> names_ok L dir \<and>
     no_objects dir \<and> (\<forall>s \<in> snd ` set (subs dir). shard_ok (L - 2) s)"

lemma shard_ok_cases: "shard_ok L dir \<longleftrightarrow> flat_ok L dir \<or> mig_ok L dir \<or> split_ok L dir"
  by (subst shard_ok.simps) (simp add: split_ok_def)

lemma migration_finish_ok:
  assumes ok: "mig_ok L dir" and no: "no_objects dir"
  shows "split_ok L (Shard 1 False (files dir) (subs dir))"
    and "same_reads L dir (Shard 1 False (files dir) (subs dir))"
    and "mig_ok L (Shard 1 True (files dir) (subs dir))"
    and "same_reads L dir (Shard 1 True (files dir) (subs dir))"
proof -
  have sd: "subdir (Shard d m (files dir) (subs dir)) q = subdir dir q" for d m q by simp
  have "\<forall>s \<in> snd ` set (subs dir). shard_ok (L - 2) s"
    using mig_ok_subs [OF ok] shard_ok_cases by blast
  with ok no show "split_ok L (Shard 1 False (files dir) (subs dir))"
    by (simp add: split_ok_def mig_ok_def names_ok_def no_objects_def)
  from ok no show m: "mig_ok L (Shard 1 True (files dir) (subs dir))"
    by (simp add: mig_ok_def names_ok_def no_objects_def)
  show "same_reads L dir (Shard 1 True (files dir) (subs dir))"
    by (simp add: same_reads_def read_mig [OF ok] read_mig [OF m, simplified]
        split: option.splits)
  show "same_reads L dir (Shard 1 False (files dir) (subs dir))"
    unfolding same_reads_def
  proof (intro allI impI)
    fix hx assume hx: "hexname L hx"
    with ok have "2 \<le> length hx" by (simp add: hexname_def mig_ok_def)
    moreover have "map_of (files dir) hx = None"
      using no hexname_not_dot [OF hx] by (auto simp: no_objects_def map_of_eq_None_iff)
    ultimately show "read_object (Shard 1 False (files dir) (subs dir)) hx = read_object dir hx"
      by (simp add: read_split read_flat [OF mig_ok_subdir [OF ok]] read_mig [OF ok hx])
  qed
qed

lemma do_migration_ok:
  assumes ok: "mig_ok L dir"
  shows "\<exists>dir'. do_migration dir = Inr dir' \<and> split_ok L dir' \<and> same_reads L dir dir'"
proof -
  have "distinct (map fst (files dir))" using ok by (simp add: mig_ok_def names_ok_def)
  from migrate_all_ok [OF ok this] obtain d where
    d: "rfold migrate_one (map fst (files dir)) dir = Inr d" "mig_ok L d" "same_reads L dir d"
    "fst ` set (files d) = fst ` set (files dir) - {n \<in> set (map fst (files dir)). \<not> is_dotfile n}"
    by auto
  from d(4) have "no_objects d" by (auto simp: no_objects_def)
  from migration_finish_ok(1,2) [OF d(2) this] d(1) same_reads_trans [OF d(3)] show ?thesis
    by (auto simp: do_migration_def)
qed

lemma mark_ok:
  assumes "flat_ok L dir" and "3 \<le> L"
  shows "mig_ok L (Shard (depth dir) True (files dir) (subs dir))"
    and "same_reads L dir (Shard (depth dir) True (files dir) (subs dir))"
proof -
  have e: "subdir dir q = empty_dir" for q
    using assms(1) by (simp add: subdir_def flat_ok_def)
  from assms show m: "mig_ok L (Shard (depth dir) True (files dir) (subs dir))"
    unfolding mig_ok_def subdir_state e
    by (simp add: flat_ok_def names_ok_def) (simp add: empty_dir_def)
  show "same_reads L dir (Shard (depth dir) True (files dir) (subs dir))"
    unfolding same_reads_def
    by (simp add: read_mig [OF m] read_flat [OF assms(1)] e split: option.splits)
      (simp add: empty_dir_def)
qed

lemma start_migration_ok:
  assumes "flat_ok L dir" and "3 \<le> L"
  shows "\<exists>dir'. start_migration dir = Inr dir' \<and> split_ok L dir' \<and> same_reads L dir dir'"
  using do_migration_ok [OF mark_ok(1) [OF assms]] mark_ok(2) [OF assms] assms(1)
  by (auto simp: start_migration_def flat_ok_def intro: same_reads_trans)
section \<open>Writing\<close>

text \<open>Two-digit names are never split: there are at most 256 of them.\<close>

lemma count_objects_two:
  assumes "names_ok 2 dir"
  shows "count_objects dir \<le> THRESHOLD"
proof -
  let ?ns = "map fst (filter (\<lambda>(n, b). \<not> is_dotfile n) (files dir))"
  have "distinct (map fst (files dir))" using assms by (simp add: names_ok_def)
  then have d: "distinct ?ns" by (rule distinct_map_filter)
  have "set ?ns \<subseteq> {n. set n \<subseteq> set HEX \<and> length n = 2}"
  proof
    fix n assume "n \<in> set ?ns"
    then have "n \<in> fst ` set (files dir)" "\<not> is_dotfile n" by force+
    from hexname_file [OF assms this] show "n \<in> {n. set n \<subseteq> set HEX \<and> length n = 2}"
      by (simp add: hexname_def)
  qed
  then have "card (set ?ns) \<le> card {n. set n \<subseteq> set HEX \<and> length n = 2}"
    by (intro card_mono finite_lists_length_eq) simp
  also have "\<dots> = card (set HEX) ^ 2" by (rule card_lists_length_eq) simp
  also have "card (set HEX) = 16" by code_simp
  finally have "card (set ?ns) \<le> 256" by simp
  then have "length ?ns \<le> 256" by (simp only: distinct_card [OF d])
  then show ?thesis by (simp add: count_objects_def THRESHOLD_def)
qed

lemma shard_ok_subdir: "split_ok L dir \<Longrightarrow> shard_ok (L - 2) (subdir dir p)"
  using subdir_cases [of dir p] shard_ok_cases [of "L - 2" empty_dir]
  by (auto simp: split_ok_def)

lemma put_subdir_ok:
  assumes ok: "split_ok L dir" and p: "hexname 2 p" and s: "shard_ok (L - 2) s"
  shows "split_ok L (Shard (depth dir) (migrating dir) (files dir) (AList.update p s (subs dir)))"
proof -
  have "\<forall>s \<in> snd ` set (AList.update p s (subs dir)). shard_ok (L - 2) s"
    using ok s by (intro ball_snd_update) (auto simp: split_ok_def)
  with ok p show ?thesis
    by (simp add: split_ok_def no_objects_def names_ok_move(2))
qed

text \<open>What a write must achieve: the object is there with its first content, and every
  other object is as before.\<close>

definition wrote :: "nat \<Rightarrow> string \<Rightarrow> bytes \<Rightarrow> shard \<Rightarrow> shard \<Rightarrow> bool" where
  "wrote L hx b dir dir' \<longleftrightarrow> (\<forall>g. hexname L g \<longrightarrow> read_object dir' g =
     (if g = hx \<and> read_object dir hx = None then Some b else read_object dir g))"

lemma wrote_same: "wrote L hx b d1 d2 \<Longrightarrow> same_reads L d d1 \<Longrightarrow> hexname L hx \<Longrightarrow> wrote L hx b d d2"
  and wrote_same': "wrote L hx b d d1 \<Longrightarrow> same_reads L d1 d2 \<Longrightarrow> wrote L hx b d d2"
  by (simp_all add: wrote_def same_reads_def)

lemma write_flat:
  assumes ok: "flat_ok L dir" and hx: "hexname L hx" and L: "2 \<le> L"
  shows "\<exists>dir'. write_stream_in dir hx b = Inr dir' \<and> shard_ok L dir' \<and> wrote L hx b dir dir'"
proof (cases "map_of (files dir) hx")
  case None
  let ?d = "Shard (depth dir) (migrating dir) (AList.update hx b (files dir)) (subs dir)"
  have fl: "flat_ok L ?d" using ok hx by (rule flat_ok_add)
  have w: "wrote L hx b dir ?d"
    using None by (simp add: wrote_def read_flat [OF ok] read_flat [OF fl] update_conv')
  have e: "write_stream_in dir hx b =
      (if 2 \<le> length hx \<and> THRESHOLD < count_objects ?d then start_migration ?d else Inr ?d)"
    using ok None by (subst write_stream_in.simps)
      (simp add: has_path_flat [OF ok] Let_def, simp add: flat_ok_def)
  show ?thesis
  proof (cases "THRESHOLD < count_objects ?d")
    case True
    moreover have "count_objects ?d \<le> THRESHOLD" if "L = 2"
      using fl unfolding that flat_ok_def by (intro count_objects_two) (elim conjE)
    ultimately have "3 \<le> L" using L by linarith
    from start_migration_ok [OF fl this] w True hx L show ?thesis
      by (auto simp: e hexname_def shard_ok_cases intro: wrote_same')
  next
    case False
    with fl w show ?thesis by (simp add: e shard_ok_cases)
  qed
next
  case (Some c)
  with ok have "write_stream_in dir hx b = Inr dir"
    by (subst write_stream_in.simps) (simp add: has_path_flat [OF ok], simp add: flat_ok_def)
  with Some ok show ?thesis by (simp add: shard_ok_cases wrote_def read_flat [OF ok])
qed

lemma write_step:
  assumes ok: "split_ok L dir" and hx: "hexname L hx"
    and IH: "\<exists>s'. write_stream_in (subdir dir (take 2 hx)) (drop 2 hx) b = Inr s' \<and>
      shard_ok (L - 2) s' \<and> wrote (L - 2) (drop 2 hx) b (subdir dir (take 2 hx)) s'"
  shows "\<exists>dir'. write_stream_in dir hx b = Inr dir' \<and> split_ok L dir' \<and> wrote L hx b dir dir'"
proof -
  have L: "2 \<le> L" and len: "2 \<le> length hx" using ok hx by (auto simp: split_ok_def hexname_def)
  note parts = hexname_parts [OF hx L]
  from IH obtain s' where s': "write_stream_in (subdir dir (take 2 hx)) (drop 2 hx) b = Inr s'"
    "shard_ok (L - 2) s'" "wrote (L - 2) (drop 2 hx) b (subdir dir (take 2 hx)) s'" by blast
  let ?d = "Shard (depth dir) (migrating dir) (files dir) (AList.update (take 2 hx) s' (subs dir))"
  have e: "write_stream_in dir hx b = Inr ?d"
    using ok len s'(1) by (subst write_stream_in.simps) (simp add: split_ok_def)
  have "wrote L hx b dir ?d"
    unfolding wrote_def
  proof (intro allI impI)
    fix g assume g: "hexname L g"
    have lg: "2 \<le> length g" and d: "depth dir \<noteq> 0" "depth ?d \<noteq> 0"
      using g L ok by (auto simp: hexname_def split_ok_def)
    have "g = hx \<longleftrightarrow> take 2 g = take 2 hx \<and> drop 2 g = drop 2 hx"
      by (metis append_take_drop_id)
    with s'(3) hexname_parts [OF g L] show "read_object ?d g =
        (if g = hx \<and> read_object dir hx = None then Some b else read_object dir g)"
      by (auto simp: wrote_def read_split [OF d(1) lg] read_split [OF d(2) lg]
          read_split [OF d(1) len])
  qed
  with e put_subdir_ok [OF ok conjunct1 [OF parts] s'(2)] show ?thesis by blast
qed

lemma write_stream_in_resume:
  assumes "migrating dir" "do_migration dir = Inr dir'" "\<not> migrating dir'"
  shows "write_stream_in dir hx b = write_stream_in dir' hx b"
  using assms by (subst (1 2) write_stream_in.simps) simp

lemma write_stream_in_ok:
  "shard_ok L dir \<Longrightarrow> hexname L hx \<Longrightarrow> 2 \<le> L \<Longrightarrow> even L \<Longrightarrow>
    \<exists>dir'. write_stream_in dir hx b = Inr dir' \<and> shard_ok L dir' \<and> wrote L hx b dir dir'"
proof (induction L arbitrary: dir hx rule: less_induct)
  case (less L)
  have split: "\<exists>dir'. write_stream_in d hx b = Inr dir' \<and> shard_ok L dir' \<and> wrote L hx b d dir'"
    if d: "split_ok L d" for d
  proof -
    have "3 \<le> L" using d by (simp add: split_ok_def)
    with less.prems(4) have "L - 2 < L" "2 \<le> L - 2" "even (L - 2)" by presburger+
    from less.IH [OF this(1) shard_ok_subdir [OF d] _ this(2,3)]
      hexname_parts [OF less.prems(2,3)] write_step [OF d less.prems(2)] show ?thesis
      using shard_ok_cases by metis
  qed
  from less.prems(1) consider "flat_ok L dir" | "mig_ok L dir" | "split_ok L dir"
    using shard_ok_cases by blast
  then show ?case
  proof cases
    case 1
    then show ?thesis using write_flat less.prems by blast
  next
    case 2
    from do_migration_ok [OF 2] obtain d where d: "do_migration dir = Inr d" "split_ok L d"
      "same_reads L dir d" by blast
    then have "write_stream_in dir hx b = write_stream_in d hx b"
      using 2 by (intro write_stream_in_resume) (auto simp: mig_ok_def split_ok_def)
    with split [OF d(2)] wrote_same [OF _ d(3) less.prems(2)] show ?thesis by metis
  next
    case 3
    then show ?thesis by (rule split)
  qed
qed
section \<open>Interrupted migrations\<close>

text \<open>
  The file-system operations of a migration, each atomic: writing the marker, creating a
  subdirectory, renaming one object, writing \<open>.depth\<close>, and removing the marker. A
  process can stop after any number of them.
\<close>

inductive mig_step :: "shard \<Rightarrow> shard \<Rightarrow> bool" where
  mark: "\<not> migrating dir \<Longrightarrow> depth dir = 0 \<Longrightarrow>
    mig_step dir (Shard (depth dir) True (files dir) (subs dir))"
| mkdir: "migrating dir \<Longrightarrow> n \<in> fst ` set (files dir) \<Longrightarrow> \<not> is_dotfile n \<Longrightarrow>
    mig_step dir (Shard (depth dir) (migrating dir) (files dir)
      (AList.update (take 2 n) (subdir dir (take 2 n)) (subs dir)))"
| move: "migrating dir \<Longrightarrow> n \<in> fst ` set (files dir) \<Longrightarrow> migrate_one n dir = Inr dir' \<Longrightarrow>
    mig_step dir dir'"
| deepen: "migrating dir \<Longrightarrow> no_objects dir \<Longrightarrow>
    mig_step dir (Shard 1 True (files dir) (subs dir))"
| unmark: "migrating dir \<Longrightarrow> depth dir = 1 \<Longrightarrow>
    mig_step dir (Shard 1 False (files dir) (subs dir))"

inductive_cases mig_stepE: "mig_step dir dir'"

lemma mig_step_ok:
  assumes "mig_step dir dir'" "shard_ok L dir" "3 \<le> L"
  shows "shard_ok L dir' \<and> same_reads L dir dir'"
proof -
  have mig: "mig_ok L dir" if "migrating dir"
    using assms(2) that unfolding shard_ok_cases
    by (elim disjE) (simp_all add: flat_ok_def split_ok_def)
  from assms(1) show ?thesis
  proof cases
    case mark
    with assms(2) have "flat_ok L dir"
      unfolding shard_ok_cases by (elim disjE) (simp_all add: mig_ok_def split_ok_def)
    with mark mark_ok [OF this assms(3)] show ?thesis by (simp add: shard_ok_cases)
  next
    case (mkdir n)
    then have "names_ok L dir" "2 \<le> L" using mig by (simp_all add: mig_ok_def)
    with mkdir have "hexname 2 (take 2 n)" using hexname_file hexname_parts by blast
    with mkdir mkdir_ok [OF mig] show ?thesis by (simp add: shard_ok_cases)
  next
    case (move n)
    from migrate_one_ok [OF mig [OF move(1)] move(2)] move(3) show ?thesis
      by (auto simp: shard_ok_cases)
  next
    case deepen
    with migration_finish_ok(3,4) [OF mig] show ?thesis by (simp add: shard_ok_cases)
  next
    case unmark
    with mig have "no_objects dir" by (simp add: mig_ok_def)
    with unmark migration_finish_ok(1,2) [OF mig] show ?thesis by (simp add: shard_ok_cases)
  qed
qed

lemma mig_steps_ok:
  assumes "mig_step\<^sup>*\<^sup>* dir dir'" "shard_ok L dir" "3 \<le> L"
  shows "shard_ok L dir' \<and> same_reads L dir dir'"
  using assms(1)
proof induction
  case (step b c)
  with mig_step_ok [OF step(2) _ assms(3)] same_reads_trans show ?case by blast
qed (simp add: assms(2))

section \<open>Listing\<close>

text \<open>A directory without an interrupted migration anywhere.\<close>

function settled :: "nat \<Rightarrow> shard \<Rightarrow> bool" where
  "settled L dir \<longleftrightarrow> \<not> migrating dir \<and>
     (if 3 \<le> L then \<forall>s \<in> snd ` set (subs dir). settled (L - 2) s else True)"
  by pat_completeness auto
termination
  by (relation "measure fst") auto

declare settled.simps [simp del]

lemma collect_hashes_dir:
  "collect_hashes dir pre =
     map (\<lambda>(n, b). pre @ n) (filter (\<lambda>(n, b). \<not> is_dotfile n) (files dir)) @
     (if depth dir = 0 then []
      else concat (map (\<lambda>(n, s). if is_dotfile n then [] else collect_hashes s (pre @ n)) (subs dir)))"
  by (cases dir) (simp add: collect_hashes.simps)

lemma visible_names:
  assumes "names_ok L dir"
  shows "fst ` {(n, b) \<in> set (files dir). \<not> is_dotfile n} =
    {n. hexname L n \<and> map_of (files dir) n \<noteq> None}"
    (is "?A = ?B")
proof -
  have "n \<in> ?A \<longleftrightarrow> n \<in> fst ` set (files dir) \<and> \<not> is_dotfile n" for n by force
  then show ?thesis using hexname_file [OF assms] hexname_not_dot
    by (auto simp: map_of_eq_None_iff)
qed

lemma collect_flat:
  assumes "flat_ok L dir"
  shows "set (collect_hashes dir pre) = (@) pre ` {hx. hexname L hx \<and> read_object dir hx \<noteq> None}"
proof -
  have "names_ok L dir" "depth dir = 0" using assms by (simp_all add: flat_ok_def)
  then have "set (collect_hashes dir pre) =
      (@) pre ` fst ` {(n, b) \<in> set (files dir). \<not> is_dotfile n}"
    by (subst collect_hashes_dir) (force simp: image_image)
  with visible_names [OF \<open>names_ok L dir\<close>] read_flat [OF assms] show ?thesis by simp
qed

lemma read_empty_dir [simp]: "read_object empty_dir hx = None"
  using read_flat [OF flat_ok_empty] by (simp add: empty_dir_def)

lemma split_objects:
  assumes "split_ok L dir"
  shows "{hx. hexname L hx \<and> read_object dir hx \<noteq> None} =
    (\<Union>(p, s) \<in> set (subs dir). (@) p ` {r. hexname (L - 2) r \<and> read_object s r \<noteq> None})"
    (is "?A = ?B")
proof -
  have ok: "depth dir \<noteq> 0" "2 \<le> L" and dist: "distinct (map fst (subs dir))"
    and two: "\<And>p. p \<in> fst ` set (subs dir) \<Longrightarrow> hexname 2 p"
    using assms unfolding split_ok_def names_ok_def by auto
  have "hx \<in> ?B" if hx: "hexname L hx" and r: "read_object dir hx \<noteq> None" for hx
  proof -
    have "2 \<le> length hx" using hx ok by (simp add: hexname_def)
    with r have sub: "read_object (subdir dir (take 2 hx)) (drop 2 hx) \<noteq> None"
      by (simp add: read_split [OF ok(1)])
    then have "subdir dir (take 2 hx) \<noteq> empty_dir" by auto
    then obtain s where s: "map_of (subs dir) (take 2 hx) = Some s" "subdir dir (take 2 hx) = s"
      by (auto simp: subdir_def split: option.splits)
    then have "(take 2 hx, s) \<in> set (subs dir)" by (simp add: map_of_SomeD)
    moreover have "hx = take 2 hx @ drop 2 hx" by simp
    ultimately show ?thesis using sub s(2) hexname_parts [OF hx ok(2)] by blast
  qed
  moreover have "p @ r \<in> ?A" if m: "(p, s) \<in> set (subs dir)" and r: "hexname (L - 2) r"
    "read_object s r \<noteq> None" for p s r
  proof -
    from m have p: "hexname 2 p" using two by (metis fst_conv image_eqI)
    from m dist have "subdir dir p = s" by (simp add: subdir_def)
    with p r ok show ?thesis by (auto simp: hexname_def read_split [OF ok(1)])
  qed
  ultimately show ?thesis by blast
qed

lemma collect_hashes_ok:
  "shard_ok L dir \<Longrightarrow> settled L dir \<Longrightarrow>
     set (collect_hashes dir pre) = (@) pre ` {hx. hexname L hx \<and> read_object dir hx \<noteq> None}"
proof (induction L arbitrary: dir pre rule: less_induct)
  case (less L)
  have nm: "\<not> migrating dir" using less.prems(2) by (subst (asm) settled.simps) simp
  with less.prems(1) consider "flat_ok L dir" | "split_ok L dir"
    unfolding shard_ok_cases by (auto simp: mig_ok_def)
  then show ?case
  proof cases
    case 1
    then show ?thesis by (rule collect_flat)
  next
    case 2
    then have L: "L - 2 < L" "3 \<le> L" "depth dir \<noteq> 0" by (auto simp: split_ok_def)
    have sub: "set (collect_hashes s q) = (@) q ` {r. hexname (L - 2) r \<and> read_object s r \<noteq> None}"
      if "(p, s) \<in> set (subs dir)" for p s q
    proof -
      from that 2 have "shard_ok (L - 2) s" unfolding split_ok_def by force
      moreover from that less.prems(2) L have "settled (L - 2) s"
        by (subst (asm) settled.simps) force
      ultimately show ?thesis by (rule less.IH [OF L(1)])
    qed
    have dot: "\<not> is_dotfile p" if "(p, s) \<in> set (subs dir)" for p s
      using that 2 hexname_not_dot unfolding split_ok_def names_ok_def by force
    have "filter (\<lambda>(n, b). \<not> is_dotfile n) (files dir) = []"
      using 2 by (auto simp: split_ok_def no_objects_def filter_empty_conv)
    moreover have "map (\<lambda>(n, s). if is_dotfile n then [] else collect_hashes s (pre @ n)) (subs dir) =
        map (\<lambda>(n, s). collect_hashes s (pre @ n)) (subs dir)"
      using dot by auto
    ultimately have "set (collect_hashes dir pre) =
        (\<Union>(p, s) \<in> set (subs dir). set (collect_hashes s (pre @ p)))"
      using L(3) by (subst collect_hashes_dir) (simp add: split_def)
    also have "\<dots> = (\<Union>(p, s) \<in> set (subs dir).
        (@) (pre @ p) ` {r. hexname (L - 2) r \<and> read_object s r \<noteq> None})"
      using sub by (intro SUP_cong) auto
    also have "\<dots> = (@) pre ` {hx. hexname L hx \<and> read_object dir hx \<noteq> None}"
      unfolding split_objects [OF 2] by (simp add: image_UN image_image split_def)
    finally show ?thesis .
  qed
qed
section \<open>Presence and reading agree\<close>

lemma find_in_flat: "flat_ok L dir \<Longrightarrow> find_in dir hx = None \<longleftrightarrow> read_object dir hx = None"
  by (subst find_in.simps) (simp add: read_flat has_path_flat, simp add: flat_ok_def)

lemma find_in_split:
  "depth dir \<noteq> 0 \<Longrightarrow> 2 \<le> length hx \<Longrightarrow>
     find_in dir hx = None \<longleftrightarrow> find_in (subdir dir (take 2 hx)) (drop 2 hx) = None"
  by (subst find_in.simps) simp

lemma find_in_mig:
  assumes ok: "mig_ok L dir" and hx: "hexname L hx"
  shows "find_in dir hx = None \<longleftrightarrow> read_object dir hx = None"
proof (cases "depth dir = 0")
  case True
  have "has_path dir hx \<longleftrightarrow> map_of (files dir) hx \<noteq> None"
    using ok hx by (intro has_path_names [of L]) (auto simp: mig_ok_def)
  with True ok hx has_path_flat [OF mig_ok_subdir [OF ok]] show ?thesis
    unfolding read_mig [OF ok hx]
    by (subst find_in.simps) (auto simp: mig_ok_def hexname_def split: option.splits)
next
  case False
  moreover have "2 \<le> length hx" using ok hx by (simp add: mig_ok_def hexname_def)
  ultimately show ?thesis
    by (simp add: find_in_split read_split find_in_flat [OF mig_ok_subdir [OF ok]])
qed

lemma find_in_read:
  "shard_ok L dir \<Longrightarrow> hexname L hx \<Longrightarrow> find_in dir hx = None \<longleftrightarrow> read_object dir hx = None"
proof (induction L arbitrary: dir hx rule: less_induct)
  case (less L)
  from less.prems(1) consider "flat_ok L dir" | "mig_ok L dir" | "split_ok L dir"
    using shard_ok_cases by blast
  then show ?case
  proof cases
    case 3
    then have d: "depth dir \<noteq> 0" "2 \<le> length hx" "2 \<le> L" "L - 2 < L"
      using less.prems(2) by (auto simp: split_ok_def hexname_def)
    from less.IH [OF d(4) shard_ok_subdir [OF 3]] hexname_parts [OF less.prems(2) d(3)] d(1,2)
    show ?thesis by (simp add: find_in_split read_split)
  qed (use less.prems find_in_flat find_in_mig in blast)+
qed

lemma hexname_hash: "hash_ok h \<Longrightarrow> hexname 64 (hex h)"
proof -
  have "HEX ! i \<in> set HEX" if "i < 16" for i
    using that by (intro nth_mem) (simp add: HEX_def)
  then have "set (hex_pair b) \<subseteq> set HEX" for b
    using nibble_bounds by (simp add: hex_pair_def)
  then have "set (encode_hex bs) \<subseteq> set HEX" for bs
    by (induction bs) simp_all
  then show "hash_ok h \<Longrightarrow> ?thesis" by (simp add: hash_ok_def hexname_def)
qed

section \<open>Properties\<close>

text \<open>C20: a write to the object directory always succeeds on a well-formed directory, even
  one whose migration was interrupted: the object is then present, with the content of the
  first write under its name, every other object is untouched, and the directory is
  well-formed again.\<close>

theorem objects_dir_write:
  assumes "shard_ok L dir" and "hexname L hx" and "2 \<le> L" and "even L"
  shows "\<exists>dir'. write_stream_in dir hx data = Inr dir' \<and> shard_ok L dir' \<and>
    find_in dir' hx \<noteq> None \<and>
    (\<forall>g. hexname L g \<longrightarrow> read_object dir' g =
       (if g = hx \<and> read_object dir hx = None then Some data else read_object dir g))"
proof -
  from write_stream_in_ok [OF assms] obtain d where
    d: "write_stream_in dir hx data = Inr d" "shard_ok L d" "wrote L hx data dir d" by blast
  from d(3) assms(2) have "read_object d hx \<noteq> None" by (auto simp: wrote_def)
  with find_in_read [OF d(2) assms(2)] d show ?thesis by (auto simp: wrote_def)
qed

theorem objects_dir_write_witness:
  "\<exists>dir'. write_stream_in (Shard 0 True [(''abcd'', [1])] [(''ef'', Shard 0 False [(''01'', [2])] [])])
     ''ef23'' [3] = Inr dir' \<and> shard_ok 4 dir' \<and> read_object dir' ''ef23'' = Some [3] \<and>
     read_object dir' ''abcd'' = Some [1] \<and> read_object dir' ''ef01'' = Some [2]"
proof -
  let ?d = "Shard 0 True [(''abcd'', [1])] [(''ef'', Shard 0 False [(''01'', [2])] [])]"
  have ok: "shard_ok 4 ?d" "hexname 4 ''ef23''" "hexname 4 ''abcd''" "hexname 4 ''ef01''"
    by code_simp+
  have r: "read_object ?d ''ef23'' = None" "read_object ?d ''abcd'' = Some [1]"
    "read_object ?d ''ef01'' = Some [2]" by code_simp+
  from objects_dir_write [OF ok(1,2), of "[3]"] obtain d' where
    d': "write_stream_in ?d ''ef23'' [3] = Inr d'" "shard_ok 4 d'"
    and rd: "\<And>g. hexname 4 g \<Longrightarrow> read_object d' g =
       (if g = ''ef23'' \<and> read_object ?d ''ef23'' = None then Some [3] else read_object ?d g)"
    by auto
  from rd [OF ok(2)] rd [OF ok(3)] rd [OF ok(4)] r d' show ?thesis by auto
qed

text \<open>C21: a crash at any point of a migration loses nothing: after any number of the file
  operations of a migration the directory is well-formed and every object reads as it did
  before.\<close>

theorem migration_crash_safe:
  assumes "mig_step\<^sup>*\<^sup>* dir dir'" and "shard_ok L dir" and "3 \<le> L" and "hexname L hx"
  shows "shard_ok L dir' \<and> read_object dir' hx = read_object dir hx \<and>
    (find_in dir' hx = None \<longleftrightarrow> find_in dir hx = None)"
  using mig_steps_ok [OF assms(1-3)] find_in_read [OF assms(2,4)] find_in_read [of L dir' hx] assms(4)
  by (simp add: same_reads_def)

theorem migration_crash_safe_witness:
  "read_object (Shard 0 True [(''abcd'', [1])] [(''ef'', Shard 0 False [(''01'', [2])] [])]) ''ef01''
     = Some [2]"
proof -
  let ?d0 = "Shard 0 False [(''ef01'', [2]), (''abcd'', [1])] []"
  let ?d1 = "Shard 0 True [(''ef01'', [2]), (''abcd'', [1])] []"
  let ?d2 = "Shard 0 True [(''abcd'', [1])] [(''ef'', Shard 0 False [(''01'', [2])] [])]"
  have "mig_step ?d0 ?d1" using mig_step.mark [of ?d0] by simp
  moreover have "migrate_one ''ef01'' ?d1 = Inr ?d2" by code_simp
  then have "mig_step ?d1 ?d2" by (intro mig_step.move) simp_all
  ultimately have steps: "mig_step\<^sup>*\<^sup>* ?d0 ?d2" by simp
  have ok: "shard_ok 4 ?d0" "hexname 4 ''ef01''" by code_simp+
  have "read_object ?d0 ''ef01'' = Some [2]" by code_simp
  with migration_crash_safe [OF steps ok(1) _ ok(2)] show ?thesis by simp
qed

text \<open>Outside an interrupted migration, listing the directory yields exactly the names
  that a lookup finds.\<close>

theorem iter_hashes_complete:
  assumes "shard_ok 64 dir" and "settled 64 dir"
  shows "hx \<in> set (iter_hashes dir) \<longleftrightarrow> hexname 64 hx \<and> find_in dir hx \<noteq> None"
  using collect_hashes_ok [OF assms, of "[]"] find_in_read [OF assms(1), of hx]
  by (auto simp: iter_hashes_def)

theorem iter_hashes_complete_witness:
  "hexname 64 (replicate 64 CHR ''a'') \<and>
   replicate 64 CHR ''a'' \<in> set (iter_hashes (Shard 0 False [(replicate 64 CHR ''a'', [7])] []))"
proof -
  let ?d = "Shard 0 False [(replicate 64 CHR ''a'', [7])] []"
  have ok: "shard_ok 64 ?d" "settled 64 ?d" by code_simp+
  have h: "hexname 64 (replicate 64 CHR ''a'')" "find_in ?d (replicate 64 CHR ''a'') \<noteq> None"
    by code_simp+
  with iter_hashes_complete [OF ok, of "replicate 64 CHR ''a''"] show ?thesis by simp
qed

text \<open>The listing does not look into subdirectories while the depth is still 0, so an
  object that an interrupted migration has already moved is found by name but missing from
  the listing.\<close>

theorem iter_hashes_misses_moved:
  "\<exists>dir hx. shard_ok 64 dir \<and> hexname 64 hx \<and> find_in dir hx \<noteq> None \<and> hx \<notin> set (iter_hashes dir)"
proof -
  let ?d = "Shard 0 True [] [(''aa'', Shard 0 False [(replicate 62 CHR ''a'', [7])] [])]"
  have "shard_ok 64 ?d" "hexname 64 (replicate 64 CHR ''a'')"
    "find_in ?d (replicate 64 CHR ''a'') \<noteq> None"
    "replicate 64 CHR ''a'' \<notin> set (iter_hashes ?d)" by code_simp+
  then show ?thesis by blast
qed

end
