(* ===== verification/LocalStore.thy ===== *)
theory LocalStore
  imports ObjectsDir
begin

text \<open>
  The fixed three-level layout of directory remotes
  (\<open>src/src/store/remote_objects_dir.rs\<close>) and \<open>LocalStore\<close>
  (\<open>src/src/store/local.rs\<close>), the \<open>ObjectStore\<close> over either layout, with the
  storage key that hides logical hashes on an encrypted remote. HMAC-SHA256 (the \<open>hmac\<close>
  crate) is a parameter. The cloud variant of the backend is not modelled.
\<close>

section \<open>Directory remotes\<close>

text \<open>The files below the root, by their path components.\<close>

type_synonym remote_dir = "(string list \<times> bytes) list"

definition expected_path :: "string \<Rightarrow> string list option" where
  "expected_path hx =
     (if length hx \<noteq> 64 then None
      else Some [subslice 0 2 hx, subslice 2 4 hx, subslice 4 6 hx, drop 6 hx])"

definition remote_find :: "remote_dir \<Rightarrow> string \<Rightarrow> string list option" where
  "remote_find dir hx =
     (case expected_path hx of None \<Rightarrow> None
      | Some path \<Rightarrow> if map_of dir path \<noteq> None then Some path else None)"

definition remote_write_stream :: "remote_dir \<Rightarrow> string \<Rightarrow> bytes \<Rightarrow> remote_dir result" where
  "remote_write_stream dir hx data =
     rbind (ok_or (expected_path hx) (Other ''invalid hash length'')) (\<lambda>path.
       if map_of dir path \<noteq> None then Inr dir
       else Inr (AList.update path data dir))"

definition remote_iter_hashes :: "remote_dir \<Rightarrow> string list" where
  "remote_iter_hashes dir =
     map (\<lambda>(p, b). concat p)
       (filter (\<lambda>(p, b). list_all (\<lambda>c. \<not> is_dotfile c) p \<and> length (concat p) = 64) dir)"

section \<open>The backend and the store\<close>

datatype objects_backend = LocalB shard | RemoteB remote_dir

fun backend_find :: "objects_backend \<Rightarrow> string \<Rightarrow> string list option" where
  "backend_find (LocalB d) hx = find_in d hx"
| "backend_find (RemoteB d) hx = remote_find d hx"

fun backend_file :: "objects_backend \<Rightarrow> string list \<Rightarrow> bytes option" where
  "backend_file (LocalB d) p = read_path d p"
| "backend_file (RemoteB d) p = map_of d p"

fun backend_write_stream :: "objects_backend \<Rightarrow> string \<Rightarrow> bytes \<Rightarrow> objects_backend result" where
  "backend_write_stream (LocalB d) hx data =
     rbind (write_stream_in d hx data) (\<lambda>d'. Inr (LocalB d'))"
| "backend_write_stream (RemoteB d) hx data =
     rbind (remote_write_stream d hx data) (\<lambda>d'. Inr (RemoteB d'))"

definition backend_exists :: "objects_backend \<Rightarrow> string \<Rightarrow> bool result" where
  "backend_exists b hx = Inr (backend_find b hx \<noteq> None)"

definition backend_open_read :: "objects_backend \<Rightarrow> string \<Rightarrow> bytes result" where
  "backend_open_read b hx =
     rbind (ok_or (backend_find b hx) (ObjectNotFound hx)) (\<lambda>path.
       ok_or (backend_file b path) (Io ''open''))"

definition backend_size :: "objects_backend \<Rightarrow> string \<Rightarrow> nat result" where
  "backend_size b hx =
     rbind (ok_or (backend_find b hx) (ObjectNotFound hx)) (\<lambda>path.
     rbind (ok_or (backend_file b path) (Io ''metadata'')) (\<lambda>content. Inr (length content)))"

fun backend_iter_hashes :: "objects_backend \<Rightarrow> string list" where
  "backend_iter_hashes (LocalB d) = iter_hashes d"
| "backend_iter_hashes (RemoteB d) = remote_iter_hashes d"

definition list_with_sizes :: "objects_backend \<Rightarrow> (string \<times> nat) list" where
  "list_with_sizes b =
     List.map_filter (\<lambda>hx.
       case backend_find b hx of None \<Rightarrow> None
       | Some p \<Rightarrow> map_option (\<lambda>content. (hx, length content)) (backend_file b p))
       (backend_iter_hashes b)"

definition hmac_sha256_msg :: "(bytes \<Rightarrow> bytes \<Rightarrow> bytes) \<Rightarrow> bytes \<Rightarrow> bytes \<Rightarrow> hash" where
  "hmac_sha256_msg hmac key message = from_bytes (hmac key message)"

definition storage_key :: "(bytes \<Rightarrow> bytes \<Rightarrow> bytes) \<Rightarrow> encrypt_key option \<Rightarrow> hash \<Rightarrow> hash" where
  "storage_key hmac key logical =
     (case key of None \<Rightarrow> logical | Some k \<Rightarrow> hmac_sha256_msg hmac k (raw logical))"

definition relabel_not_found :: "error \<Rightarrow> hash \<Rightarrow> error" where
  "relabel_not_found e h = (case e of ObjectNotFound _ \<Rightarrow> ObjectNotFound (hex h) | _ \<Rightarrow> e)"

definition local_size ::
    "(bytes \<Rightarrow> bytes \<Rightarrow> bytes) \<Rightarrow> encrypt_key option \<Rightarrow> objects_backend \<Rightarrow> hash \<Rightarrow> nat result" where
  "local_size hmac key b h =
     (case backend_size b (hex (storage_key hmac key h)) of
        Inl e \<Rightarrow> Inl (relabel_not_found e h) | Inr n \<Rightarrow> Inr n)"

text \<open>The \<open>ObjectStore\<close> of a \<open>LocalStore\<close> with storage keys \<open>skey\<close>.\<close>

definition store_with_keys :: "(hash \<Rightarrow> hash) \<Rightarrow> objects_backend object_store" where
  "store_with_keys skey =
     \<lparr>os_exists = (\<lambda>b h. backend_exists b (hex (skey h))),
      os_open_read = (\<lambda>b h. case backend_open_read b (hex (skey h)) of
         Inl e \<Rightarrow> Inl (relabel_not_found e h) | Inr d \<Rightarrow> Inr d),
      os_write_from = (\<lambda>b h data. backend_write_stream b (hex (skey h)) data)\<rparr>"

definition local_store ::
    "(bytes \<Rightarrow> bytes \<Rightarrow> bytes) \<Rightarrow> encrypt_key option \<Rightarrow> objects_backend object_store" where
  "local_store hmac key = store_with_keys (storage_key hmac key)"

section \<open>Lemmas\<close>

fun backend_ok :: "objects_backend \<Rightarrow> bool" where
  "backend_ok (LocalB d) \<longleftrightarrow> shard_ok 64 d"
| "backend_ok (RemoteB d) \<longleftrightarrow> True"

definition backend_view :: "objects_backend \<Rightarrow> string \<Rightarrow> bytes option" where
  "backend_view b hx =
     (case backend_find b hx of None \<Rightarrow> None | Some p \<Rightarrow> backend_file b p)"

lemma expected_path_inject:
  assumes "length g = 64" "length h = 64" "expected_path g = expected_path h"
  shows "g = h"
proof -
  have "x = subslice 0 2 x @ subslice 2 4 x @ subslice 4 6 x @ drop 6 x" if "length x = 64"
    for x :: string
  proof -
    have "drop 2 x = take 2 (drop 2 x) @ drop 4 x" "drop 4 x = take 2 (drop 4 x) @ drop 6 x"
      using append_take_drop_id [of 2 "drop 2 x"] append_take_drop_id [of 2 "drop 4 x"]
      by simp_all
    then show ?thesis using append_take_drop_id [of 2 x] by (simp add: subslice_def)
  qed
  from this [of g] this [of h] assms show ?thesis
    by (simp add: expected_path_def)
qed

lemma backend_view_local: "backend_view (LocalB d) hx = read_object d hx"
  by (simp add: backend_view_def read_object_def split: option.splits)

lemma backend_view_remote:
  "length hx = 64 \<Longrightarrow> backend_view (RemoteB d) hx = map_of d (the (expected_path hx))"
  by (simp add: backend_view_def remote_find_def expected_path_def)

lemma backend_find_view:
  "backend_ok b \<Longrightarrow> hexname 64 hx \<Longrightarrow> backend_find b hx = None \<longleftrightarrow> backend_view b hx = None"
proof (cases b)
  case (LocalB d)
  then show "backend_ok b \<Longrightarrow> hexname 64 hx \<Longrightarrow> ?thesis"
    by (simp add: backend_view_local find_in_read)
next
  case (RemoteB d)
  then show "backend_ok b \<Longrightarrow> hexname 64 hx \<Longrightarrow> ?thesis"
    by (auto simp: backend_view_def remote_find_def split: option.splits)
qed

lemma backend_view_cases:
  assumes "backend_ok b" "hexname 64 hx"
  obtains (absent) "backend_find b hx = None" "backend_view b hx = None"
  | (there) p c where "backend_find b hx = Some p" "backend_file b p = Some c"
      "backend_view b hx = Some c"
proof (cases "backend_find b hx")
  case None
  with absent show thesis by (simp add: backend_view_def)
next
  case (Some p)
  with backend_find_view [OF assms] obtain c where "backend_view b hx = Some c" by auto
  with Some there show thesis by (simp add: backend_view_def)
qed

lemma backend_open_read_view:
  "backend_ok b \<Longrightarrow> hexname 64 hx \<Longrightarrow>
     backend_open_read b hx = ok_or (backend_view b hx) (ObjectNotFound hx)"
  by (erule (1) backend_view_cases) (simp_all add: backend_open_read_def)

lemma backend_size_view:
  "backend_ok b \<Longrightarrow> hexname 64 hx \<Longrightarrow>
     backend_size b hx = (case backend_view b hx of None \<Rightarrow> Inl (ObjectNotFound hx)
       | Some content \<Rightarrow> Inr (length content))"
  by (erule (1) backend_view_cases) (simp_all add: backend_size_def)

lemma backend_write_view:
  assumes "backend_ok b" "hexname 64 hx"
  shows "\<exists>b'. backend_write_stream b hx data = Inr b' \<and> backend_ok b' \<and>
    (\<forall>g. hexname 64 g \<longrightarrow> backend_view b' g =
       (if g = hx \<and> backend_view b hx = None then Some data else backend_view b g))"
proof (cases b)
  case (LocalB d)
  with assms write_stream_in_ok [of 64 d hx data] show ?thesis
    by (auto simp: backend_view_local wrote_def)
next
  case (RemoteB d)
  have len: "length hx = 64" using assms(2) by (simp add: hexname_def)
  then obtain p where p: "expected_path hx = Some p" by (simp add: expected_path_def)
  have other: "expected_path g \<noteq> Some p" if "hexname 64 g" "g \<noteq> hx" for g
    using expected_path_inject [of g hx] that len p by (auto simp: hexname_def)
  show ?thesis
  proof (cases "map_of d p")
    case None
    have "backend_view (RemoteB (AList.update p data d)) g =
        (if g = hx then Some data else backend_view b g)" if g: "hexname 64 g" for g
      using g other [OF g] p RemoteB
      by (cases "expected_path g") (auto simp: backend_view_def remote_find_def update_conv')
    moreover have "backend_view b hx = None"
      using None p RemoteB by (simp add: backend_view_def remote_find_def)
    ultimately show ?thesis using RemoteB None p by (auto simp: remote_write_stream_def)
  next
    case (Some c)
    then have "backend_view b hx = Some c"
      using p RemoteB by (simp add: backend_view_def remote_find_def)
    with Some show ?thesis using RemoteB p by (auto simp: remote_write_stream_def)
  qed
qed

section \<open>The store contract\<close>

text \<open>What the store needs of its storage keys: digests that keep different objects apart.
  The logical hash itself is such a key.\<close>

locale storage_keys =
  fixes skey :: "hash \<Rightarrow> hash"
  assumes skey_ok: "hash_ok h \<Longrightarrow> hash_ok (skey h)"
    and skey_inject: "hash_ok g \<Longrightarrow> hash_ok h \<Longrightarrow> skey g = skey h \<Longrightarrow> g = h"
begin

lemma skey_hex: "hash_ok h \<Longrightarrow> hexname 64 (hex (skey h))"
  using skey_ok hexname_hash by blast

lemma skey_hex_inject:
  "hash_ok g \<Longrightarrow> hash_ok h \<Longrightarrow> hex (skey g) = hex (skey h) \<longleftrightarrow> g = h"
  using skey_ok skey_inject hex_inject by blast

end

sublocale storage_keys \<subseteq> keyed: store_laws "store_with_keys skey" backend_ok
  "\<lambda>b h. backend_view b (hex (skey h))"
proof unfold_locales
  fix b :: objects_backend and h :: hash and data :: bytes
  assume ok: "backend_ok b" "hash_ok h"
  note hx = skey_hex [OF ok(2)]
  show "os_exists (store_with_keys skey) b h = Inr (backend_view b (hex (skey h)) \<noteq> None)"
    using ok(1) hx by (rule backend_view_cases) (simp_all add: store_with_keys_def backend_exists_def)
  show "os_open_read (store_with_keys skey) b h =
      ok_or (backend_view b (hex (skey h))) (ObjectNotFound (hex h))"
    by (simp add: store_with_keys_def backend_open_read_view [OF ok(1) hx] relabel_not_found_def
        ok_or_def split: option.splits)
  assume "backend_view b (hex (skey h)) = None \<or> backend_view b (hex (skey h)) = Some data"
  with backend_write_view [OF ok(1) hx, of data] skey_hex skey_hex_inject [OF _ ok(2)]
  show "\<exists>s'. os_write_from (store_with_keys skey) b h data = Inr s' \<and> backend_ok s' \<and>
      (\<forall>g. hash_ok g \<longrightarrow> backend_view s' (hex (skey g)) = (if g = h then Some data else backend_view b (hex (skey g))))"
    by (auto simp: store_with_keys_def)
qed

context storage_keys
begin

lemma laws: "store_laws (store_with_keys skey) backend_ok (\<lambda>b h. backend_view b (hex (skey h)))"
  by unfold_locales

end

interpretation plain: storage_keys "storage_key hmac None" for hmac
  by unfold_locales (simp_all add: storage_key_def)

interpretation plain_cache: cache_over "store_with_keys (storage_key hmac None)" backend_ok
  "\<lambda>b h. backend_view b (hex (storage_key hmac None h))"
  "store_with_keys (storage_key hmac None)" backend_ok
  "\<lambda>b h. backend_view b (hex (storage_key hmac None h))" for hmac
  by unfold_locales

section \<open>Properties\<close>

text \<open>The storage keys of a store with encryption key \<open>key\<close> keep objects apart.\<close>

definition keys_apart :: "(bytes \<Rightarrow> bytes \<Rightarrow> bytes) \<Rightarrow> encrypt_key option \<Rightarrow> bool" where
  "keys_apart hmac key \<longleftrightarrow> (case key of None \<Rightarrow> True
     | Some k \<Rightarrow> (\<forall>m. length (hmac k m) = 32) \<and>
         (\<forall>m m'. length m = 32 \<longrightarrow> length m' = 32 \<longrightarrow> hmac k m = hmac k m' \<longrightarrow> m = m'))"

lemma keys_apart_storage_keys: "keys_apart hmac key \<Longrightarrow> storage_keys (storage_key hmac key)"
proof (cases key)
  case None
  then show ?thesis by unfold_locales (simp_all add: storage_key_def)
next
  case (Some k)
  assume "keys_apart hmac key"
  with Some have k: "\<And>m. length (hmac k m) = 32"
    "\<And>m m'. length m = 32 \<Longrightarrow> length m' = 32 \<Longrightarrow> hmac k m = hmac k m' \<Longrightarrow> m = m'"
    by (auto simp: keys_apart_def)
  show ?thesis
  proof unfold_locales
    fix g h assume ok: "hash_ok g" "hash_ok h"
    show "hash_ok (storage_key hmac key h)" by (simp add: Some storage_key_def hmac_sha256_msg_def k)
    assume "storage_key hmac key g = storage_key hmac key h"
    then have "hmac k (raw g) = hmac k (raw h)"
      by (metis Some storage_key_def hmac_sha256_msg_def option.simps(5) from_bytes_simps(2))
    with k(2) ok show "g = h" by (simp add: hash_eq_raw)
  qed
qed

lemma keys_apart_laws:
  "keys_apart hmac key \<Longrightarrow> store_laws (local_store hmac key) backend_ok
     (\<lambda>b h. backend_view b (hex (storage_key hmac key h)))"
  unfolding local_store_def by (rule storage_keys.laws [OF keys_apart_storage_keys])

text \<open>C22: what is stored in a local or a directory store, encrypted or not, is read back
  unchanged, and storing it changes no other object.\<close>

theorem local_store_write_read:
  assumes "backend_ok b" and "hash_ok h" and "keys_apart hmac key"
    and "zstd_lossless E" and "gcm_opens E" and "length x \<le> DECOMPRESS_MAX"
    and "os_exists (local_store hmac key) b h = Inr False"
  shows "\<exists>b'. store_write E (local_store hmac key) b h x key = Inr b' \<and> backend_ok b' \<and>
    store_read E (local_store hmac key) b' h key = Inr x \<and>
    (\<forall>g k. hash_ok g \<longrightarrow> g \<noteq> h \<longrightarrow>
       store_read E (local_store hmac key) b' g k = store_read E (local_store hmac key) b g k)"
proof -
  note L = keys_apart_laws [OF assms(3)]
  have none: "backend_view b (hex (storage_key hmac key h)) = None"
    using store_laws.exists_view [OF L assms(1,2)] assms(7) by simp
  from store_laws.store_write_holds [OF L assms(1,2,4-6), of key] none obtain b' where
    w: "store_write E (local_store hmac key) b h x key = Inr b'" "backend_ok b'"
    and r: "store_laws.holds (\<lambda>b h. backend_view b (hex (storage_key hmac key h))) E b' key h x"
    and o: "\<And>g. hash_ok g \<Longrightarrow> g \<noteq> h \<Longrightarrow> backend_view b' (hex (storage_key hmac key g)) =
      backend_view b (hex (storage_key hmac key g))"
    by auto
  have "store_read E (local_store hmac key) b' g k = store_read E (local_store hmac key) b g k"
    if "hash_ok g" "g \<noteq> h" for g k
    using o [OF that] store_laws.read_view [OF L assms(1) that(1)]
      store_laws.read_view [OF L w(2) that(1)] by (simp add: store_read_def)
  with w store_laws.store_read_holds [OF L w(2) assms(2) r] show ?thesis by blast
qed

definition toy_hash :: hash where
  "toy_hash = from_bytes (replicate 32 7)"

lemma toy_hash_ok [simp]: "hash_ok toy_hash"
  by (simp add: toy_hash_def)

definition toy_hmac :: "bytes \<Rightarrow> bytes \<Rightarrow> bytes" where
  "toy_hmac k m = take 32 (m @ replicate 32 0)"

lemma toy_keys_apart: "keys_apart toy_hmac key"
  by (auto simp: keys_apart_def toy_hmac_def split: option.splits)

theorem local_store_write_read_witness:
  "\<exists>b'. store_write toy_env (local_store toy_hmac (Some [1])) (RemoteB []) toy_hash [4, 5] (Some [1])
       = Inr b' \<and>
     store_read toy_env (local_store toy_hmac (Some [1])) b' toy_hash (Some [1]) = Inr [4, 5]"
proof -
  have "os_exists (local_store toy_hmac (Some [1])) (RemoteB []) toy_hash = Inr False"
    by (simp add: local_store_def store_with_keys_def backend_exists_def remote_find_def
        split: option.splits)
  from local_store_write_read [OF _ toy_hash_ok toy_keys_apart toy_env_ok(1,2) _ this, of "[4, 5]"]
  show ?thesis by (auto simp: DECOMPRESS_MAX_def)
qed

text \<open>After a cached read the object is served from the cache, with the same content,
  whatever has become of the source: a second read needs no source at all.\<close>

theorem cached_read_serves_again:
  assumes "backend_ok src" and "backend_ok loc" and "hash_ok h" and "keys_apart hmac key"
    and "zstd_lossless E" and "gcm_opens E" and "length x \<le> DECOMPRESS_MAX"
    and "store_read E (local_store hmac key) src h key = Inr x"
    and "os_exists (local_store hmac None) loc h = Inr False"
  shows "\<exists>loc'. ensure_local_then_read E (local_store hmac key) (local_store hmac None) src loc h key
      = Inr (x, loc') \<and> backend_ok loc' \<and>
    (\<forall>src'. ensure_local_then_read E (local_store hmac key) (local_store hmac None) src' loc' h key
      = Inr (x, loc'))"
proof -
  note L = keys_apart_laws [OF assms(4)]
  have none: "keys_apart hmac None" by (simp add: keys_apart_def)
  note P = keys_apart_laws [OF none]
  note cache = cache_over.intro [OF L P]
  have absent: "backend_view loc (hex (storage_key hmac None h)) = None"
    using store_laws.exists_view [OF P assms(2,3)] assms(9) by simp
  from assms(8) have src: "store_laws.holds (\<lambda>b h. backend_view b (hex (storage_key hmac key h)))
      E src key h x"
    by (simp add: store_laws.store_read_iff [OF L assms(1,3)])
  from cache_over.ensure_local_then_read_ok [OF cache assms(1-3,5-7) src] absent obtain loc' where
    l: "ensure_local_then_read E (local_store hmac key) (local_store hmac None) src loc h key
      = Inr (x, loc')" "backend_ok loc'"
    and r: "store_laws.holds (\<lambda>b h. backend_view b (hex (storage_key hmac None h))) E loc' None h x"
    by auto
  from r have "os_exists (local_store hmac None) loc' h = Inr True"
    using store_laws.exists_view [OF P l(2) assms(3)] store_laws.holds_def [OF P] by auto
  with store_laws.store_read_holds [OF P l(2) assms(3) r]
  have "ensure_local_then_read E (local_store hmac key) (local_store hmac None) src' loc' h key
      = Inr (x, loc')" for src'
    by (simp add: ensure_local_then_read_def)
  with l show ?thesis by blast
qed

theorem cached_read_serves_again_witness:
  "\<exists>loc'. ensure_local_then_read toy_env (local_store toy_hmac None) (local_store toy_hmac None)
       (RemoteB [(the (expected_path (hex toy_hash)), [4, 5])]) (LocalB empty_dir) toy_hash None
       = Inr ([4, 5], loc') \<and>
     ensure_local_then_read toy_env (local_store toy_hmac None) (local_store toy_hmac None)
       (RemoteB []) loc' toy_hash None = Inr ([4, 5], loc')"
proof -
  let ?src = "RemoteB [(the (expected_path (hex toy_hash)), [4, 5])]"
  have r: "store_read toy_env (local_store toy_hmac None) ?src toy_hash None = Inr [4, 5]"
    by code_simp
  have e: "os_exists (local_store toy_hmac None) (LocalB empty_dir) toy_hash = Inr False"
    by code_simp
  have ok: "backend_ok ?src" "backend_ok (LocalB empty_dir)"
    using shard_ok_cases [of 64 empty_dir] by simp_all
  from cached_read_serves_again [OF ok toy_hash_ok toy_keys_apart toy_env_ok(1,2) _ r e]
  show ?thesis by (auto simp: DECOMPRESS_MAX_def)
qed

end
