(* ===== verification/Chunking.thy ===== *)
theory Chunking
  imports LocalStore
begin

text \<open>
  Content-defined chunking, \<open>src/src/codec/chunk.rs\<close>: the in-memory and the one-pass
  streaming writers, the capture of a stable file, the readers that reassemble an object,
  and the test whether a cached blob is complete.

  The \<open>fastcdc\<close> crate is a parameter: \<open>cdc\<close> gives the chunks of \<open>FastCDC\<close> over a
  buffer and \<open>scdc\<close> those of \<open>StreamCDC\<close> over a stream. A capture attempt is described
  by what the operating system returns for it: the metadata before and after, the two bytes
  of the probe and the bytes of the read.
\<close>

section \<open>Writing\<close>

definition CDC_MIN :: nat where "CDC_MIN = 1024 * 1024"
definition CDC_MAX :: nat where "CDC_MAX = 16 * 1024 * 1024"
definition STREAMING_THRESHOLD :: nat where "STREAMING_THRESHOLD = 64 * 1024 * 1024"
definition SNAPSHOT_ATTEMPTS :: nat where "SNAPSHOT_ATTEMPTS = 2"

type_synonym cdc = "bytes \<Rightarrow> bytes list"

text \<open>The closure \<open>store_chunk\<close>, which is also the loop body of \<open>store_chunked\<close>.\<close>

definition store_chunk ::
    "env \<Rightarrow> 's object_store \<Rightarrow> encrypt_key option \<Rightarrow> bytes \<Rightarrow> 's \<Rightarrow> (hash \<times> 's) result" where
  "store_chunk E S key chunk_bytes s =
     (let h = chunk_hash (sha E) chunk_bytes
      in rbind (os_exists S s h) (\<lambda>ex.
           if \<not> ex
           then rbind (store_write E S s h (serialise_chunk chunk_bytes) key) (\<lambda>s'. Inr (h, s'))
           else Inr (h, s)))"

fun store_chunks ::
    "env \<Rightarrow> 's object_store \<Rightarrow> encrypt_key option \<Rightarrow> bytes list \<Rightarrow> 's \<Rightarrow> (hash list \<times> 's) result" where
  "store_chunks E S key [] s = Inr ([], s)"
| "store_chunks E S key (c # cs) s =
     rbind (store_chunk E S key c s) (\<lambda>(h, s1).
     rbind (store_chunks E S key cs s1) (\<lambda>(hs, s2). Inr (h # hs, s2)))"

definition store_chunked ::
    "env \<Rightarrow> cdc \<Rightarrow> 's object_store \<Rightarrow> 's \<Rightarrow> hash \<Rightarrow> bytes \<Rightarrow> encrypt_key option \<Rightarrow> 's result" where
  "store_chunked E cdc S s logical_hash serialised key =
     (let chunks = cdc serialised
      in if length chunks < 2 then store_write E S s logical_hash serialised key
         else rbind (store_chunks E S key chunks s) (\<lambda>(chunk_hashes, s').
                store_write E S s' logical_hash (serialise_manifest chunk_hashes) key))"

datatype pass2_result = Single bytes | Multi "hash list"

text \<open>
  The loop of \<open>stream_file_once\<close>. Its variables are the bytes hashed so far, the size
  counter, the chunk hashes, the held first chunk and whether the next chunk is the first.
\<close>

record stream_state =
  ss_hashed :: bytes
  ss_raw_size :: nat
  ss_chunk_hashes :: "hash list"
  ss_first_chunk :: "bytes option"
  ss_first :: bool

definition stream_step ::
    "env \<Rightarrow> 's object_store \<Rightarrow> encrypt_key option \<Rightarrow> bool \<Rightarrow> bytes \<Rightarrow> stream_state \<times> 's \<Rightarrow>
       (stream_state \<times> 's) result" where
  "stream_step E S key needs_escape chunk = (\<lambda>(st, s).
     rbind (if ss_first st \<and> needs_escape
            then (if 2 \<le> length chunk then Inr (drop 2 chunk)
                  else Inl (InvalidObject ''streamed blob escape prefix was truncated''))
            else Inr chunk) (\<lambda>raw.
     let st1 = st\<lparr>ss_first := False, ss_hashed := ss_hashed st @ raw,
                 ss_raw_size := ss_raw_size st + length raw\<rparr>
     in if ss_first_chunk st1 = None \<and> ss_chunk_hashes st1 = []
        then Inr (st1\<lparr>ss_first_chunk := Some chunk\<rparr>, s)
        else rbind (case ss_first_chunk st1 of
                      Some data \<Rightarrow> rbind (store_chunk E S key data s) (\<lambda>(h, s1).
                        Inr (ss_chunk_hashes st1 @ [h], s1))
                    | None \<Rightarrow> Inr (ss_chunk_hashes st1, s)) (\<lambda>(hs, s1).
             rbind (store_chunk E S key chunk s1) (\<lambda>(h, s2).
             Inr (st1\<lparr>ss_first_chunk := None, ss_chunk_hashes := hs @ [h]\<rparr>, s2)))))"

definition stream_file_once ::
    "env \<Rightarrow> cdc \<Rightarrow> 's object_store \<Rightarrow> 's \<Rightarrow> bytes \<Rightarrow> bytes \<Rightarrow> encrypt_key option \<Rightarrow>
       (hash \<times> pass2_result \<times> nat \<times> 's) result" where
  "stream_file_once E scdc S s probe content key =
     (let needs_escape = blob_needs_escape (first_byte probe) (second_byte probe);
          pre = (if needs_escape then TYPE_TAG_BLOB else []);
          init = \<lparr>ss_hashed = [], ss_raw_size = 0, ss_chunk_hashes = [], ss_first_chunk = None,
                  ss_first = True\<rparr>
      in rbind (rfold (stream_step E S key needs_escape) (scdc (pre @ content)) (init, s)) (\<lambda>(st, s').
         Inr (compute (sha E) (TYPE_TAG_BLOB @ ss_hashed st),
              (case ss_first_chunk st of Some data \<Rightarrow> Single data
               | None \<Rightarrow> Multi (ss_chunk_hashes st)),
              ss_raw_size st, s')))"

definition finish_streamed_file ::
    "env \<Rightarrow> 's object_store \<Rightarrow> 's \<Rightarrow> hash \<Rightarrow> pass2_result \<Rightarrow> encrypt_key option \<Rightarrow> 's result" where
  "finish_streamed_file E S s logical_hash chunks key =
     (case chunks of
        Single serialised \<Rightarrow> store_write E S s logical_hash serialised key
      | Multi chunk_hashes \<Rightarrow>
          store_write E S s logical_hash (serialise_manifest chunk_hashes) key)"

section \<open>Capturing a stable file\<close>

record file_stat =
  st_mtime :: "datetime option"
  st_size :: nat

definition stat_unchanged :: "file_stat \<Rightarrow> file_stat \<Rightarrow> bool" where
  "stat_unchanged before after \<longleftrightarrow> before = after"

record attempt =
  at_before :: file_stat
  at_mode :: "string option"
  at_probe :: bytes
  at_content :: bytes
  at_after :: file_stat

record stored_file =
  sf_hash :: hash
  sf_mtime :: "datetime option"
  sf_size :: nat
  sf_mode :: "string option"

text \<open>One iteration: \<open>None\<close> is the \<open>continue\<close> of a file that changed while it was read.\<close>

definition snapshot_attempt ::
    "env \<Rightarrow> cdc \<Rightarrow> cdc \<Rightarrow> 's object_store \<Rightarrow> 's \<Rightarrow> encrypt_key option \<Rightarrow> attempt \<Rightarrow>
       (hash option \<times> 's) result" where
  "snapshot_attempt E cdc scdc S s key a =
     (if st_size (at_before a) < STREAMING_THRESHOLD
      then (if \<not> stat_unchanged (at_before a) (at_after a) \<or>
               length (at_content a) \<noteq> st_size (at_after a)
            then Inr (None, s)
            else let h = blob_hash (sha E) (at_content a);
                     serialised = serialise_blob (at_content a)
                 in rbind (store_chunked E cdc S s h serialised key) (\<lambda>s'. Inr (Some h, s')))
      else rbind (stream_file_once E scdc S s (at_probe a) (at_content a) key)
             (\<lambda>(h, chunks, raw_size, s1).
               if \<not> stat_unchanged (at_before a) (at_after a) \<or> raw_size \<noteq> st_size (at_after a)
               then Inr (None, s1)
               else rbind (finish_streamed_file E S s1 h chunks key) (\<lambda>s'. Inr (Some h, s'))))"

fun snapshot_loop ::
    "env \<Rightarrow> cdc \<Rightarrow> cdc \<Rightarrow> 's object_store \<Rightarrow> encrypt_key option \<Rightarrow> string \<Rightarrow>
       attempt result list \<Rightarrow> 's \<Rightarrow> (stored_file \<times> 's) result" where
  "snapshot_loop E cdc scdc S key label [] s = Inl (SourceChanged label)"
| "snapshot_loop E cdc scdc S key label (open_i # opens) s =
     rbind open_i (\<lambda>a.
     rbind (snapshot_attempt E cdc scdc S s key a) (\<lambda>(r, s').
       case r of
         None \<Rightarrow> snapshot_loop E cdc scdc S key label opens s'
       | Some h \<Rightarrow> Inr (\<lparr>sf_hash = h, sf_mtime = st_mtime (at_before a),
                        sf_size = st_size (at_before a), sf_mode = at_mode a\<rparr>, s')))"

text \<open>\<open>opens i\<close> is what the \<open>i\<close>-th call of \<open>open\<close> gives.\<close>

definition store_snapshot_with ::
    "env \<Rightarrow> cdc \<Rightarrow> cdc \<Rightarrow> 's object_store \<Rightarrow> 's \<Rightarrow> encrypt_key option \<Rightarrow> string \<Rightarrow>
       (nat \<Rightarrow> attempt result) \<Rightarrow> (stored_file \<times> 's) result" where
  "store_snapshot_with E cdc scdc S s key label opens =
     snapshot_loop E cdc scdc S key label (map opens [0..<SNAPSHOT_ATTEMPTS]) s"

text \<open>
  The hash-only pass: \<open>bufs\<close> are the buffers that successive reads fill, none of them
  empty before the end of the file.
\<close>

fun pass1_loop :: "bytes list \<Rightarrow> bytes \<Rightarrow> u8 option \<Rightarrow> u8 option \<Rightarrow> bytes \<times> u8 option \<times> u8 option" where
  "pass1_loop [] hashed fst_b snd_b = (hashed, fst_b, snd_b)"
| "pass1_loop (buf # bufs) hashed fst_b snd_b =
     (if buf = [] then (hashed, fst_b, snd_b)
      else pass1_loop bufs (hashed @ buf)
             (if fst_b = None then Some (buf ! 0) else fst_b)
             (if fst_b = None then (if 2 \<le> length buf then Some (buf ! 1) else snd_b)
              else if snd_b = None then Some (buf ! 0) else snd_b))"

definition pass1_hash_and_prefix :: "env \<Rightarrow> bytes list \<Rightarrow> hash \<times> bool" where
  "pass1_hash_and_prefix E bufs =
     (case pass1_loop bufs TYPE_TAG_BLOB None None of (hashed, fst_b, snd_b) \<Rightarrow>
        (compute (sha E) hashed, blob_needs_escape fst_b snd_b))"

section \<open>Reading\<close>

fun walk_chunks ::
    "env \<Rightarrow> 's object_store \<Rightarrow> 's \<Rightarrow> encrypt_key option \<Rightarrow> (bytes \<Rightarrow> 'a \<Rightarrow> 'a result) \<Rightarrow>
       hash list \<Rightarrow> 'a \<Rightarrow> 'a result" where
  "walk_chunks E S s key sink [] acc = Inr acc"
| "walk_chunks E S s key sink (h # hs) acc =
     rbind (store_read E S s h key) (\<lambda>chunk_tagged.
     rbind (ok_or (deserialise_chunk chunk_tagged) (InvalidObject ''expected ED F3 chunk tag'')) (\<lambda>c.
     rbind (sink c acc) (walk_chunks E S s key sink hs)))"

definition for_each_serialised_chunk ::
    "env \<Rightarrow> 's object_store \<Rightarrow> 's \<Rightarrow> hash \<Rightarrow> encrypt_key option \<Rightarrow> (bytes \<Rightarrow> 'a \<Rightarrow> 'a result) \<Rightarrow>
       'a \<Rightarrow> 'a result" where
  "for_each_serialised_chunk E S s logical_hash key sink acc =
     rbind (store_read E S s logical_hash key) (\<lambda>raw_bytes.
       case deserialise_manifest raw_bytes of
         None \<Rightarrow> sink raw_bytes acc
       | Some chunk_hashes \<Rightarrow> walk_chunks E S s key sink chunk_hashes acc)"

definition load_assembled ::
    "env \<Rightarrow> 's object_store \<Rightarrow> 's \<Rightarrow> hash \<Rightarrow> encrypt_key option \<Rightarrow> bytes result" where
  "load_assembled E S s logical_hash key =
     for_each_serialised_chunk E S s logical_hash key (\<lambda>c assembled. Inr (assembled @ c)) []"

definition for_each_blob_chunk ::
    "env \<Rightarrow> 's object_store \<Rightarrow> 's \<Rightarrow> hash \<Rightarrow> encrypt_key option \<Rightarrow> (bytes \<Rightarrow> 'a \<Rightarrow> 'a result) \<Rightarrow>
       'a \<Rightarrow> 'a result" where
  "for_each_blob_chunk E S s logical_hash key sink acc =
     rbind (for_each_serialised_chunk E S s logical_hash key
       (\<lambda>chunk_bytes (is_first, a).
          rbind (sink (if is_first then deserialise_blob chunk_bytes else chunk_bytes) a)
            (\<lambda>a'. Inr (False, a')))
       (True, acc)) (\<lambda>(_, a). Inr a)"

definition is_chunked ::
    "env \<Rightarrow> 's object_store \<Rightarrow> 's \<Rightarrow> hash \<Rightarrow> encrypt_key option \<Rightarrow> bool" where
  "is_chunked E S s logical_hash key =
     (if os_exists S s logical_hash \<noteq> Inr True then False
      else case store_read E S s logical_hash key of
             Inr raw_bytes \<Rightarrow> deserialise_manifest raw_bytes \<noteq> None
           | Inl _ \<Rightarrow> False)"

definition peek_rules_out_manifest :: "'s object_store \<Rightarrow> 's \<Rightarrow> hash \<Rightarrow> bool result" where
  "peek_rules_out_manifest S s h =
     rbind (os_open_read S s h) (\<lambda>stored.
       let buf = take 2 stored
       in if length buf < 2 then Inr True
          else if buf = TYPE_TAG_MANIFEST then Inr False
          else Inr (\<not> (buf ! 0 = 0xED \<and> (buf ! 1 = 0xDE \<or> buf ! 1 = 0xDF))))"

fun all_exist :: "'s object_store \<Rightarrow> 's \<Rightarrow> hash list \<Rightarrow> bool result" where
  "all_exist S s [] = Inr True"
| "all_exist S s (h # hs) =
     rbind (os_exists S s h) (\<lambda>ex. if \<not> ex then Inr False else all_exist S s hs)"

definition blob_fully_cached :: "env \<Rightarrow> 's object_store \<Rightarrow> 's \<Rightarrow> hash \<Rightarrow> bool result" where
  "blob_fully_cached E S s h =
     rbind (os_exists S s h) (\<lambda>ex.
       if \<not> ex then Inr False
       else case peek_rules_out_manifest S s h of
              Inr True \<Rightarrow> Inr True
            | Inl _ \<Rightarrow> Inr False
            | Inr False \<Rightarrow>
                (case store_read E S s h None of
                   Inl _ \<Rightarrow> Inr False
                 | Inr raw_bytes \<Rightarrow>
                     (case deserialise_manifest raw_bytes of
                        None \<Rightarrow> Inr True
                      | Some chunk_hashes \<Rightarrow> all_exist S s chunk_hashes)))"

section \<open>What the chunker promises\<close>

text \<open>The documented behaviour of the FastCDC iterators: the chunks partition the input in
  order, none is empty, all but the last have at least the minimal size, and none exceeds
  the maximal size.\<close>

definition cdc_ok :: "cdc \<Rightarrow> bool" where
  "cdc_ok cdc \<longleftrightarrow> (\<forall>x. concat (cdc x) = x \<and> (\<forall>c \<in> set (cdc x). c \<noteq> [] \<and> length c \<le> CDC_MAX) \<and>
     (\<forall>c \<in> set (butlast (cdc x)). CDC_MIN \<le> length c))"

lemma cdc_okD:
  assumes "cdc_ok cdc"
  shows "concat (cdc x) = x" "c \<in> set (cdc x) \<Longrightarrow> length c \<le> CDC_MAX"
    "c \<in> set (cdc x) \<Longrightarrow> c \<noteq> []" "c \<in> set (butlast (cdc x)) \<Longrightarrow> CDC_MIN \<le> length c"
  using assms unfolding cdc_ok_def by blast+

lemma cdc_first:
  assumes "cdc_ok cdc" "2 \<le> length x" "cdc x = c # cs"
  shows "2 \<le> length c"
proof (cases cs)
  case Nil
  with assms cdc_okD(1) [OF assms(1), of x] show ?thesis by simp
next
  case (Cons d ds)
  with assms(3) have "c \<in> set (butlast (cdc x))" by simp
  from cdc_okD(4) [OF assms(1) this] show ?thesis by (simp add: CDC_MIN_def)
qed

section \<open>The streaming writer equals the in-memory writer\<close>

lemma rbind_assoc: "rbind (rbind m f) g = rbind m (\<lambda>x. rbind (f x) g)"
  by (cases m) simp_all

lemma stream_rest:
  "hs0 \<noteq> [] \<Longrightarrow> rfold (stream_step E S key esc) cs (\<lparr>ss_hashed = a, ss_raw_size = n,
      ss_chunk_hashes = hs0, ss_first_chunk = None, ss_first = False\<rparr>, s) =
    rbind (store_chunks E S key cs s) (\<lambda>(hs, s').
      Inr (\<lparr>ss_hashed = a @ concat cs, ss_raw_size = n + length (concat cs),
            ss_chunk_hashes = hs0 @ hs, ss_first_chunk = None, ss_first = False\<rparr>, s'))"
proof (induction cs arbitrary: a n hs0 s)
  case (Cons c cs)
  show ?case
  proof (cases "store_chunk E S key c s")
    case (Inl e)
    with Cons.prems show ?thesis by (simp add: stream_step_def Let_def)
  next
    case (Inr p)
    then obtain h s1 where p: "store_chunk E S key c s = Inr (h, s1)" by (cases p) simp
    have "stream_step E S key esc c (\<lparr>ss_hashed = a, ss_raw_size = n,
        ss_chunk_hashes = hs0, ss_first_chunk = None, ss_first = False\<rparr>, s) =
        Inr (\<lparr>ss_hashed = a @ c, ss_raw_size = n + length c,
          ss_chunk_hashes = hs0 @ [h], ss_first_chunk = None, ss_first = False\<rparr>, s1)"
      using Cons.prems p by (simp add: stream_step_def Let_def)
    with p Cons.IH [of "hs0 @ [h]" "a @ c" "n + length c" s1] show ?thesis
      by (simp add: rbind_assoc split_def add.assoc)
  qed
qed simp

lemma stream_many:
  assumes esc: "esc \<longrightarrow> 2 \<le> length c" and init: "init = \<lparr>ss_hashed = [], ss_raw_size = 0,
    ss_chunk_hashes = [], ss_first_chunk = None, ss_first = True\<rparr>"
  shows "rfold (stream_step E S key esc) (c # d # ds) (init, s) =
    rbind (store_chunks E S key (c # d # ds) s) (\<lambda>(hs, s').
      Inr (\<lparr>ss_hashed = (if esc then drop 2 c else c) @ d @ concat ds,
            ss_raw_size = length ((if esc then drop 2 c else c) @ d @ concat ds),
            ss_chunk_hashes = hs, ss_first_chunk = None, ss_first = False\<rparr>, s'))"
proof -
  let ?r = "if esc then drop 2 c else c"
  let ?st = "\<lparr>ss_hashed = ?r, ss_raw_size = length ?r, ss_chunk_hashes = [],
    ss_first_chunk = Some c, ss_first = False\<rparr>"
  have 1: "stream_step E S key esc c (init, s) = Inr (?st, s)"
    using esc by (auto simp: stream_step_def init Let_def)
  show ?thesis
  proof (cases "store_chunk E S key c s")
    case (Inl e)
    then show ?thesis by (simp add: 1) (simp add: stream_step_def Let_def)
  next
    case (Inr p)
    then obtain h s1 where p: "store_chunk E S key c s = Inr (h, s1)" by (cases p) simp
    show ?thesis
    proof (cases "store_chunk E S key d s1")
      case (Inl e)
      with p show ?thesis by (simp add: 1) (simp add: stream_step_def Let_def)
    next
      case (Inr q)
      then obtain g s2 where q: "store_chunk E S key d s1 = Inr (g, s2)" by (cases q) simp
      let ?st2 = "\<lparr>ss_hashed = ?r @ d, ss_raw_size = length (?r @ d), ss_chunk_hashes = [h, g],
        ss_first_chunk = None, ss_first = False\<rparr>"
      have "stream_step E S key esc d (?st, s) = Inr (?st2, s2)"
        using p q by (simp add: stream_step_def Let_def)
      with 1 p q stream_rest [of "[h, g]" E S key esc ds "?r @ d" "length (?r @ d)" s2]
      show ?thesis by (simp add: rbind_assoc split_def add.assoc)
    qed
  qed
qed

lemma first_second_take [simp]:
  "first_byte (take 2 x) = first_byte x" "second_byte (take 2 x) = second_byte x"
  by (cases x rule: remdups_adj.cases; simp add: first_byte_def second_byte_def take_Cons')+

lemma stream_file_once_eq:
  fixes content :: bytes
  assumes cdc: "cdc_ok scdc" and ne: "content \<noteq> []"
  defines "ser \<equiv> serialise_blob content"
  shows "stream_file_once E scdc S s (take 2 content) content key =
    (if length (scdc ser) < 2
     then Inr (blob_hash (sha E) content, Single ser, length content, s)
     else rbind (store_chunks E S key (scdc ser) s) (\<lambda>(hs, s').
            Inr (blob_hash (sha E) content, Multi hs, length content, s')))"
proof -
  let ?esc = "blob_needs_escape (first_byte content) (second_byte content)"
  have ser: "(if ?esc then TYPE_TAG_BLOB else []) @ content = ser"
    by (simp add: ser_def serialise_blob_def)
  have tag: "length TYPE_TAG_BLOB = 2" by (simp add: type_tags)
  have len: "2 \<le> length ser" if ?esc
    using that tag by (simp add: ser [symmetric])
  have "ser \<noteq> []" using ne by (simp add: ser [symmetric])
  with cdc_okD(1) [OF cdc, of ser] obtain c cs where cs: "scdc ser = c # cs"
    by (cases "scdc ser") auto
  have c2: "?esc \<longrightarrow> 2 \<le> length c" using cdc_first [OF cdc len cs] by blast
  have cat: "c @ concat cs = ser" using cdc_okD(1) [OF cdc, of ser] cs by simp
  have raw: "(if ?esc then drop 2 c else c) @ concat cs = content"
  proof (cases ?esc)
    case True
    with ser tag have "drop 2 ser = content" by auto
    with True c2 cat show ?thesis by auto
  qed (use cat ser in simp)
  show ?thesis
  proof (cases cs)
    case Nil
    with cat raw cs c2 tag show ?thesis
      unfolding stream_file_once_def Let_def first_second_take ser
      by (auto simp: stream_step_def blob_hash_def Let_def)
  next
    case (Cons d ds)
    with raw have r: "(if ?esc then drop 2 c else c) @ d @ concat ds = content" by simp
    show ?thesis
      unfolding stream_file_once_def Let_def first_second_take ser cs Cons
      by (subst stream_many [OF c2 refl], unfold r)
        (simp add: rbind_assoc split_def blob_hash_def)
  qed
qed

lemma stream_equals_store_chunked:
  assumes "cdc_ok scdc" and "content \<noteq> []"
  shows "rbind (stream_file_once E scdc S s (take 2 content) content key) (\<lambda>(h, chunks, raw_size, s1).
      rbind (finish_streamed_file E S s1 h chunks key) (\<lambda>s2. Inr (h, raw_size, s2))) =
    rbind (store_chunked E scdc S s (blob_hash (sha E) content) (serialise_blob content) key) (\<lambda>s2.
      Inr (blob_hash (sha E) content, length content, s2))"
  by (simp add: stream_file_once_eq [OF assms] store_chunked_def finish_streamed_file_def
      rbind_assoc split_def)

lemma cdc_nil: "cdc_ok cdc \<Longrightarrow> cdc [] = []"
  using cdc_okD(1) [of cdc "[]"] cdc_okD(3) [of cdc _ "[]"] by (cases "cdc []") auto

lemma stream_file_once_result:
  assumes cdc: "cdc_ok scdc"
    and r: "stream_file_once E scdc S s (take 2 content) content key = Inr (h, chunks, raw_size, s1)"
  shows "h = blob_hash (sha E) content \<and> raw_size = length content"
proof (cases "content = []")
  case True
  with r cdc_nil [OF cdc] show ?thesis
    by (auto simp: stream_file_once_def blob_needs_escape_def first_byte_def blob_hash_def Let_def)
next
  case False
  from r show ?thesis
    unfolding stream_file_once_eq [OF cdc False] by (auto simp: rbind_Inr_iff split: if_splits)
qed
section \<open>Writing and reading over a store\<close>

lemma chunk_hash_ok: "digest32 (sha E) \<Longrightarrow> hash_ok (chunk_hash (sha E) c)"
  by (simp add: chunk_hash_def)

lemma blob_hash_ok: "digest32 (sha E) \<Longrightarrow> hash_ok (blob_hash (sha E) c)"
  by (simp add: blob_hash_def)

lemma length_serialise_chunk [simp]: "length (serialise_chunk c) = length c + 2"
  by (simp add: serialise_chunk_def type_tags)

context store_laws
begin

lemma store_chunk_ok:
  assumes "inv s" "digest32 (sha E)" "zstd_lossless E" "gcm_opens E" "length c \<le> CDC_MAX"
    and agree: "view s (chunk_hash (sha E) c) \<noteq> None \<Longrightarrow>
      holds E s key (chunk_hash (sha E) c) (serialise_chunk c)"
  shows "\<exists>s'. store_chunk E S key c s = Inr (chunk_hash (sha E) c, s') \<and> inv s' \<and>
    holds E s' key (chunk_hash (sha E) c) (serialise_chunk c) \<and>
    (\<forall>g k y. hash_ok g \<longrightarrow> holds E s k g y \<longrightarrow> holds E s' k g y) \<and>
    (\<forall>g. hash_ok g \<longrightarrow> g \<noteq> chunk_hash (sha E) c \<longrightarrow> view s' g = view s g)"
proof (cases "view s (chunk_hash (sha E) c)")
  case None
  have "length (serialise_chunk c) \<le> DECOMPRESS_MAX"
    using assms(5) by (simp add: CDC_MAX_def DECOMPRESS_MAX_def)
  from store_write_holds [OF assms(1) chunk_hash_ok [OF assms(2)] assms(3,4) this, of c key] None
  obtain s' where "store_write E S s (chunk_hash (sha E) c) (serialise_chunk c) key = Inr s'"
    "inv s'" "holds E s' key (chunk_hash (sha E) c) (serialise_chunk c)"
    "\<forall>g k y. hash_ok g \<longrightarrow> holds E s k g y \<longrightarrow> holds E s' k g y"
    "\<forall>g. hash_ok g \<longrightarrow> g \<noteq> chunk_hash (sha E) c \<longrightarrow> view s' g = view s g" by auto
  with None show ?thesis
    by (simp add: store_chunk_def Let_def exists_view [OF assms(1) chunk_hash_ok [OF assms(2)]])
next
  case (Some b)
  with agree assms(1) show ?thesis
    by (simp add: store_chunk_def Let_def exists_view [OF assms(1) chunk_hash_ok [OF assms(2)]])
qed

lemma store_chunks_ok:
  assumes "digest32 (sha E)" "zstd_lossless E" "gcm_opens E"
  shows "inv s \<Longrightarrow> \<forall>c \<in> set cs. length c \<le> CDC_MAX \<Longrightarrow> inj_on (chunk_hash (sha E)) (set cs) \<Longrightarrow>
    \<forall>c \<in> set cs. view s (chunk_hash (sha E) c) \<noteq> None \<longrightarrow>
      holds E s key (chunk_hash (sha E) c) (serialise_chunk c) \<Longrightarrow>
    \<exists>s'. store_chunks E S key cs s = Inr (map (chunk_hash (sha E)) cs, s') \<and> inv s' \<and>
      (\<forall>c \<in> set cs. holds E s' key (chunk_hash (sha E) c) (serialise_chunk c)) \<and>
      (\<forall>g k y. hash_ok g \<longrightarrow> holds E s k g y \<longrightarrow> holds E s' k g y) \<and>
      (\<forall>g. hash_ok g \<longrightarrow> g \<notin> chunk_hash (sha E) ` set cs \<longrightarrow> view s' g = view s g)"
proof (induction cs arbitrary: s)
  case (Cons c cs)
  let ?H = "chunk_hash (sha E)"
  note ok = chunk_hash_ok [OF assms(1)]
  from store_chunk_ok [OF Cons.prems(1) assms, of c key] Cons.prems obtain s1 where
    s1: "store_chunk E S key c s = Inr (?H c, s1)" "inv s1"
    "holds E s1 key (?H c) (serialise_chunk c)"
    "\<forall>g k y. hash_ok g \<longrightarrow> holds E s k g y \<longrightarrow> holds E s1 k g y"
    "\<forall>g. hash_ok g \<longrightarrow> g \<noteq> ?H c \<longrightarrow> view s1 g = view s g" by auto
  have "\<forall>d \<in> set cs. view s1 (?H d) \<noteq> None \<longrightarrow> holds E s1 key (?H d) (serialise_chunk d)"
  proof (intro ballI impI)
    fix d assume d: "d \<in> set cs" "view s1 (?H d) \<noteq> None"
    show "holds E s1 key (?H d) (serialise_chunk d)"
    proof (cases "?H d = ?H c")
      case True
      from inj_onD [OF Cons.prems(3) this] d(1) have "d = c" by simp
      with s1(3) show ?thesis by simp
    next
      case False
      with d s1(4,5) Cons.prems(4) ok show ?thesis by auto
    qed
  qed
  with Cons.IH [OF s1(2)] Cons.prems obtain s2 where
    s2: "store_chunks E S key cs s1 = Inr (map ?H cs, s2)" "inv s2"
    "\<forall>d \<in> set cs. holds E s2 key (?H d) (serialise_chunk d)"
    "\<forall>g k y. hash_ok g \<longrightarrow> holds E s1 k g y \<longrightarrow> holds E s2 k g y"
    "\<forall>g. hash_ok g \<longrightarrow> g \<notin> ?H ` set cs \<longrightarrow> view s2 g = view s1 g" by auto
  have "store_chunks E S key (c # cs) s = Inr (map ?H (c # cs), s2)" using s1(1) s2(1) by simp
  moreover have "\<forall>d \<in> set (c # cs). holds E s2 key (?H d) (serialise_chunk d)"
    using s2(3,4) s1(3) ok by auto
  ultimately show ?case using s2(2,4,5) s1(4,5) by auto
qed simp

lemma walk_chunks_rfold:
  assumes "inv s" "digest32 (sha E)"
    "\<forall>c \<in> set cs. holds E s key (chunk_hash (sha E) c) (serialise_chunk c)"
  shows "walk_chunks E S s key sink (map (chunk_hash (sha E)) cs) acc = rfold sink cs acc"
  using assms(3)
proof (induction cs arbitrary: acc)
  case (Cons c cs)
  then have "store_read E S s (chunk_hash (sha E) c) key = Inr (serialise_chunk c)"
    using store_read_holds [OF assms(1) chunk_hash_ok [OF assms(2)]] by simp
  with Cons show ?case by (simp add: rbind_def split: sum.splits)
qed simp

lemma store_chunked_read:
  fixes ser :: bytes
  assumes inv: "inv s" and lh: "hash_ok lh" "view s lh = None"
    and env: "digest32 (sha E)" "zstd_lossless E" "gcm_opens E" and cdc: "cdc_ok cdc"
    and plain: "deserialise_manifest ser = None"
    and small: "length (serialise_manifest (map (chunk_hash (sha E)) (cdc ser))) \<le> DECOMPRESS_MAX"
    and apart: "inj_on (chunk_hash (sha E)) (set (cdc ser))" "lh \<notin> chunk_hash (sha E) ` set (cdc ser)"
      "\<forall>c \<in> set (cdc ser). view s (chunk_hash (sha E) c) \<noteq> None \<longrightarrow>
         holds E s key (chunk_hash (sha E) c) (serialise_chunk c)"
  shows "\<exists>s'. store_chunked E cdc S s lh ser key = Inr s' \<and> inv s' \<and>
    (\<forall>g k y. hash_ok g \<longrightarrow> holds E s k g y \<longrightarrow> holds E s' k g y) \<and>
    (\<forall>(sink :: bytes \<Rightarrow> 'a \<Rightarrow> 'a result) acc. for_each_serialised_chunk E S s' lh key sink acc =
       rfold sink (if length (cdc ser) < 2 then [ser] else cdc ser) acc)"
proof (cases "length (cdc ser) < 2")
  case True
  then have "length ser \<le> CDC_MAX"
    using cdc_okD(1) [OF cdc, of ser] cdc_okD(2) [OF cdc, of _ ser]
    by (cases "cdc ser") auto
  then have len: "length ser \<le> DECOMPRESS_MAX" by (simp add: CDC_MAX_def DECOMPRESS_MAX_def)
  from store_write_holds [OF inv lh(1) env(2,3) len, of key] lh(2) obtain s' where
    "store_write E S s lh ser key = Inr s'" "inv s'" "holds E s' key lh ser"
    "\<forall>g k y. hash_ok g \<longrightarrow> holds E s k g y \<longrightarrow> holds E s' k g y" by auto
  with True plain show ?thesis
    by (auto simp: store_chunked_def for_each_serialised_chunk_def store_read_holds [OF _ lh(1)]
        rbind_def split: sum.splits)
next
  case False
  let ?hs = "map (chunk_hash (sha E)) (cdc ser)"
  have "\<forall>c \<in> set (cdc ser). length c \<le> CDC_MAX" using cdc_okD(2) [OF cdc] by blast
  from store_chunks_ok [OF env inv this apart(1,3)] obtain s1 where
    s1: "store_chunks E S key (cdc ser) s = Inr (?hs, s1)" "inv s1"
    "\<forall>c \<in> set (cdc ser). holds E s1 key (chunk_hash (sha E) c) (serialise_chunk c)"
    "\<forall>g k y. hash_ok g \<longrightarrow> holds E s k g y \<longrightarrow> holds E s1 k g y"
    "\<forall>g. hash_ok g \<longrightarrow> g \<notin> chunk_hash (sha E) ` set (cdc ser) \<longrightarrow> view s1 g = view s g"
    by blast
  have "view s1 lh = None" using s1(5) lh apart(2) by simp
  with store_write_holds [OF s1(2) lh(1) env(2,3) small, of key] obtain s2 where
    s2: "store_write E S s1 lh (serialise_manifest ?hs) key = Inr s2" "inv s2"
    "holds E s2 key lh (serialise_manifest ?hs)"
    "\<forall>g k y. hash_ok g \<longrightarrow> holds E s1 k g y \<longrightarrow> holds E s2 k g y" by auto
  have "\<forall>h \<in> set ?hs. hash_ok h" using chunk_hash_ok [OF env(1)] by simp
  note man = deserialise_serialise_manifest [OF this]
  have hold: "\<forall>c \<in> set (cdc ser). holds E s2 key (chunk_hash (sha E) c) (serialise_chunk c)"
    using s1(3) s2(4) chunk_hash_ok [OF env(1)] by blast
  have "for_each_serialised_chunk E S s2 lh key sink acc = rfold sink (cdc ser) acc"
    for sink :: "bytes \<Rightarrow> 'a \<Rightarrow> 'a result" and acc
    using walk_chunks_rfold [OF s2(2) env(1) hold, of sink acc]
    by (simp add: for_each_serialised_chunk_def store_read_holds [OF s2(2) lh(1) s2(3)] man)
  with False s1(1,4) s2(1,2,4) show ?thesis by (auto simp: store_chunked_def)
qed

end
section \<open>Blobs\<close>

lemma rfold_append_sink: "rfold (\<lambda>c acc. Inr (acc @ c)) cs acc = Inr (acc @ concat cs)"
  by (induction cs arbitrary: acc) simp_all

lemma rfold_strip:
  assumes "cs \<noteq> []"
  shows "rbind (rfold (\<lambda>c (is_first, a).
       rbind (sink (if is_first then deserialise_blob c else c) a) (\<lambda>a'. Inr (False, a'))) cs (True, acc))
       (\<lambda>(_, a). Inr a) = rfold sink (deserialise_blob (hd cs) # tl cs) acc"
proof -
  let ?w = "\<lambda>c (is_first, a).
    rbind (sink (if is_first then deserialise_blob c else c) a) (\<lambda>a'. Inr (False, a'))"
  have rest: "rbind (rfold ?w ds (False, a)) (\<lambda>(_, a). Inr a) = rfold sink ds a" for ds a
    by (induction ds arbitrary: a) (simp_all add: rbind_assoc)
  from assms obtain c ds where "cs = c # ds" by (cases cs) auto
  then show ?thesis by (simp add: rbind_assoc rest)
qed

lemma strip_first_chunk:
  assumes cdc: "cdc_ok cdc" and ne: "cs \<noteq> []"
    and cs: "cs = cdc (serialise_blob content) \<or> cs = [serialise_blob content]"
  shows "concat (deserialise_blob (hd cs) # tl cs) = content"
proof -
  let ?ser = "serialise_blob content"
  from ne obtain c ds where c: "cs = c # ds" by (cases cs) auto
  have cat: "c @ concat ds = ?ser"
    using cs c cdc_okD(1) [OF cdc, of ?ser] by (metis concat.simps append_Nil2)
  have 2: "2 \<le> length c" if "2 \<le> length ?ser"
    using cs c cdc_first [OF cdc that, of c ds] that by (metis list.inject)
  show ?thesis
  proof (cases "blob_needs_escape (first_byte content) (second_byte content)")
    case True
    then have ser: "?ser = TYPE_TAG_BLOB @ content" by (simp add: serialise_blob_def)
    then have len: "2 \<le> length c" using 2 by (simp add: type_tags)
    from cat ser have "take 2 (c @ concat ds) = TYPE_TAG_BLOB" by (simp add: type_tags)
    with len have "c = TYPE_TAG_BLOB @ drop 2 c" by (metis append_take_drop_id take_append
          diff_is_0_eq take0 append_Nil2)
    then have "deserialise_blob c = drop 2 c" by (metis deserialise_blob_def prefixI)
    moreover have "drop 2 c @ concat ds = content"
      using arg_cong [OF cat, of "drop 2"] len ser by (simp add: type_tags)
    ultimately show ?thesis using c by simp
  next
    case False
    then have ser: "?ser = content" by (simp add: serialise_blob_def)
    have "\<not> prefix TYPE_TAG_BLOB c"
    proof
      assume "prefix TYPE_TAG_BLOB c"
      then have "prefix TYPE_TAG_BLOB content" using cat ser by (metis prefix_prefix)
      with False show False by (auto simp: needs_escape_iff type_tags prefix_def)
    qed
    with c cat ser show ?thesis by (simp add: deserialise_blob_def)
  qed
qed

lemma serialise_blob_not_manifest: "deserialise_manifest (serialise_blob c) = None"
  using serialise_blob_no_tag [of TYPE_TAG_MANIFEST c] by (simp add: deserialise_manifest_def)

text \<open>No two different objects that storing \<open>content\<close> touches share an address.\<close>

definition no_clash ::
    "env \<Rightarrow> cdc \<Rightarrow> 's object_store \<Rightarrow> 's \<Rightarrow> encrypt_key option \<Rightarrow> bytes \<Rightarrow> bool" where
  "no_clash E cdc S s key content \<longleftrightarrow>
     (let cs = cdc (serialise_blob content); lh = blob_hash (sha E) content; H = chunk_hash (sha E)
      in os_exists S s lh = Inr False \<and> inj_on H (set cs) \<and> lh \<notin> H ` set cs \<and>
         (\<forall>c \<in> set cs. os_exists S s (H c) = Inr True \<longrightarrow>
            store_read E S s (H c) key = Inr (serialise_chunk c)) \<and>
         length (serialise_manifest (map H cs)) \<le> DECOMPRESS_MAX)"

context store_laws
begin

lemma store_blob_read:
  assumes inv: "inv s" and env: "digest32 (sha E)" "zstd_lossless E" "gcm_opens E"
    and cdc: "cdc_ok cdc" and nc: "no_clash E cdc S s key content"
  shows "\<exists>s'. store_chunked E cdc S s (blob_hash (sha E) content) (serialise_blob content) key = Inr s' \<and>
    inv s' \<and> (\<forall>g k y. hash_ok g \<longrightarrow> store_read E S s g k = Inr y \<longrightarrow> store_read E S s' g k = Inr y) \<and>
    for_each_blob_chunk E S s' (blob_hash (sha E) content) key (\<lambda>c acc. Inr (acc @ c)) [] = Inr content"
proof -
  let ?ser = "serialise_blob content" and ?lh = "blob_hash (sha E) content"
  let ?cs = "if length (cdc ?ser) < 2 then [?ser] else cdc ?ser"
  note lh = blob_hash_ok [OF env(1), of content]
  note ch = chunk_hash_ok [OF env(1)]
  from nc have v: "view s ?lh = None" and inj: "inj_on (chunk_hash (sha E)) (set (cdc ?ser))"
    and ni: "?lh \<notin> chunk_hash (sha E) ` set (cdc ?ser)"
    and small: "length (serialise_manifest (map (chunk_hash (sha E)) (cdc ?ser))) \<le> DECOMPRESS_MAX"
    by (auto simp: no_clash_def Let_def exists_view [OF inv lh])
  have agree: "\<forall>c \<in> set (cdc ?ser). view s (chunk_hash (sha E) c) \<noteq> None \<longrightarrow>
      holds E s key (chunk_hash (sha E) c) (serialise_chunk c)"
    using nc by (auto simp: no_clash_def Let_def exists_view [OF inv ch] store_read_iff [OF inv ch])
  from store_chunked_read [OF inv lh v env cdc serialise_blob_not_manifest small inj ni agree]
  obtain s' where s': "store_chunked E cdc S s ?lh ?ser key = Inr s'" "inv s'"
    "\<forall>g k y. hash_ok g \<longrightarrow> holds E s k g y \<longrightarrow> holds E s' k g y"
    "\<And>(sink :: bytes \<Rightarrow> bool \<times> bytes \<Rightarrow> (bool \<times> bytes) result) acc.
       for_each_serialised_chunk E S s' ?lh key sink acc = rfold sink ?cs acc"
    by blast
  have ne: "?cs \<noteq> []" by auto
  have "concat (deserialise_blob (hd ?cs) # tl ?cs) = content"
    by (rule strip_first_chunk [OF cdc ne]) simp
  then have "for_each_blob_chunk E S s' ?lh key (\<lambda>c acc. Inr (acc @ c)) [] = Inr content"
    using rfold_strip [OF ne, of "\<lambda>c acc. Inr (acc @ c)" "[]"]
    unfolding for_each_blob_chunk_def s'(4) rfold_append_sink append_Nil by metis
  with s'(1-3) show ?thesis using store_read_iff inv by blast
qed

end
section \<open>Captured files\<close>

definition stable :: "attempt \<Rightarrow> bool" where
  "stable a \<longleftrightarrow> stat_unchanged (at_before a) (at_after a) \<and>
     length (at_content a) = st_size (at_after a)"

lemma snapshot_attempt_eq:
  assumes "cdc_ok scdc" "at_probe a = take 2 (at_content a)"
  shows "snapshot_attempt E cdc scdc S s key a =
    (if st_size (at_before a) < STREAMING_THRESHOLD
     then if stable a
          then rbind (store_chunked E cdc S s (blob_hash (sha E) (at_content a))
                 (serialise_blob (at_content a)) key) (\<lambda>s'. Inr (Some (blob_hash (sha E) (at_content a)), s'))
          else Inr (None, s)
     else rbind (stream_file_once E scdc S s (at_probe a) (at_content a) key) (\<lambda>(h, chunks, n, s1).
          if stable a
          then rbind (finish_streamed_file E S s1 h chunks key) (\<lambda>s'.
                 Inr (Some (blob_hash (sha E) (at_content a)), s'))
          else Inr (None, s1)))"
proof -
  have "(\<lambda>(h, chunks, raw_size, s1).
      if \<not> stat_unchanged (at_before a) (at_after a) \<or> raw_size \<noteq> st_size (at_after a)
      then Inr (None, s1)
      else rbind (finish_streamed_file E S s1 h chunks key) (\<lambda>s'. Inr (Some h, s'))) x =
    (\<lambda>(h, chunks, n, s1). if stable a
      then rbind (finish_streamed_file E S s1 h chunks key) (\<lambda>s'.
             Inr (Some (blob_hash (sha E) (at_content a)), s'))
      else Inr (None, s1)) x"
    if "stream_file_once E scdc S s (at_probe a) (at_content a) key = Inr x" for x
  proof -
    obtain h chunks n s1 where x: "x = (h, chunks, n, s1)" by (cases x)
    from stream_file_once_result [OF assms(1) that [unfolded x assms(2)]]
    show ?thesis by (simp add: x stable_def)
  qed
  then show ?thesis
    by (cases "stream_file_once E scdc S s (at_probe a) (at_content a) key")
      (auto simp: snapshot_attempt_def stable_def Let_def)
qed

lemma snapshot_attempt_Some:
  assumes "cdc_ok scdc" "at_probe a = take 2 (at_content a)"
    "snapshot_attempt E cdc scdc S s key a = Inr (Some h, s')"
  shows "stable a \<and> h = blob_hash (sha E) (at_content a)"
  using assms(3) unfolding snapshot_attempt_eq [OF assms(1,2)]
  by (auto simp: rbind_Inr_iff split: if_splits)

lemma snapshot_loop_stable:
  assumes "cdc_ok scdc" "\<forall>a. Inr a \<in> set opens \<longrightarrow> at_probe a = take 2 (at_content a)"
    "snapshot_loop E cdc scdc S key label opens s = Inr (sf, s')"
  shows "\<exists>a. Inr a \<in> set opens \<and> stable a \<and> sf_hash sf = blob_hash (sha E) (at_content a) \<and>
    sf_size sf = length (at_content a) \<and> sf_mtime sf = st_mtime (at_after a)"
  using assms(2,3)
proof (induction opens arbitrary: s)
  case (Cons open_i opens)
  from Cons.prems obtain a r s1 where a: "open_i = Inr a"
    "snapshot_attempt E cdc scdc S s key a = Inr (r, s1)"
    and rest: "(case r of None \<Rightarrow> snapshot_loop E cdc scdc S key label opens s1
       | Some h \<Rightarrow> Inr (\<lparr>sf_hash = h, sf_mtime = st_mtime (at_before a),
                        sf_size = st_size (at_before a), sf_mode = at_mode a\<rparr>, s1)) = Inr (sf, s')"
    by (auto simp: rbind_Inr_iff)
  show ?case
  proof (cases r)
    case None
    with rest have "snapshot_loop E cdc scdc S key label opens s1 = Inr (sf, s')" by simp
    moreover have "\<forall>a. Inr a \<in> set opens \<longrightarrow> at_probe a = take 2 (at_content a)"
      using Cons.prems(1) by (metis list.set_intros(2))
    ultimately obtain a' where "Inr a' \<in> set opens" "stable a'"
      "sf_hash sf = blob_hash (sha E) (at_content a')" "sf_size sf = length (at_content a')"
      "sf_mtime sf = st_mtime (at_after a')" using Cons.IH by blast
    then show ?thesis by (intro exI [of _ a']) simp
  next
    case (Some h)
    have "Inr a \<in> set (open_i # opens)" by (simp add: a(1))
    with Cons.prems(1) have "at_probe a = take 2 (at_content a)" by blast
    from snapshot_attempt_Some [OF assms(1) this a(2) [unfolded Some]]
    have "stable a" "h = blob_hash (sha E) (at_content a)" by auto
    then have "st_mtime (at_before a) = st_mtime (at_after a)" "st_size (at_before a) = length (at_content a)"
      by (simp_all add: stable_def stat_unchanged_def)
    with \<open>h = _\<close> Some rest have "sf = \<lparr>sf_hash = blob_hash (sha E) (at_content a),
        sf_mtime = st_mtime (at_after a), sf_size = length (at_content a), sf_mode = at_mode a\<rparr>"
      by simp
    with \<open>stable a\<close> a(1) show ?thesis by (intro exI [of _ a]) simp
  qed
qed simp

section \<open>The hash-only pass\<close>

lemma pass1_loop_eq:
  "\<forall>b \<in> set bufs. b \<noteq> [] \<Longrightarrow> fst_b = first_byte x \<Longrightarrow> snd_b = second_byte x \<Longrightarrow>
     pass1_loop bufs hashed fst_b snd_b =
       (hashed @ concat bufs, first_byte (x @ concat bufs), second_byte (x @ concat bufs))"
proof (induction bufs arbitrary: hashed fst_b snd_b x)
  case (Cons b bufs)
  have "first_byte (x @ b) = (if first_byte x = None then Some (b ! 0) else first_byte x)"
    "second_byte (x @ b) = (if first_byte x = None then (if 2 \<le> length b then Some (b ! 1) else second_byte x)
       else if second_byte x = None then Some (b ! 0) else second_byte x)"
    using Cons.prems(1)
    by (cases x; cases "tl x"; cases b; cases "tl b"; simp add: first_byte_def second_byte_def)+
  with Cons.IH [of _ "x @ b" _ "hashed @ b"] Cons.prems show ?case by simp
qed simp

section \<open>Completeness of the cache\<close>

text \<open>A cache whose objects all come from the compression stage, as the writers of the
  plaintext cache leave it.\<close>

definition canonical_cache :: "env \<Rightarrow> 's object_store \<Rightarrow> 's \<Rightarrow> bool" where
  "canonical_cache E S s \<longleftrightarrow> (\<forall>h b. hash_ok h \<longrightarrow> os_open_read S s h = Inr b \<longrightarrow>
     (\<exists>x. b = compress E x \<and> length x \<le> DECOMPRESS_MAX))"

lemma compress_cases:
  obtains (zstd) r b where "compress E x = 0xED # b # r" "b = 0xDE \<or> b = 0xDF"
  | (escaped) "compress E x = 0xED # 0xD0 # x" "\<not> prefix TYPE_TAG_MANIFEST x"
  | (verbatim) "compress E x = x"
proof -
  have esc: "\<not> prefix TYPE_TAG_MANIFEST x" if "raw_needs_escape x"
    using that by (cases x rule: raw_needs_escape.cases) (auto simp: type_tags)
  have three: "(if P then A else if Q then B else C) \<in> {A, B, C}" for P Q and A B C :: bytes by simp
  consider "compress E x = MAGIC_DICT_ZSTD @ zcomp E (Some (tree_dict E)) x"
    | "compress E x = MAGIC_PLAIN_ZSTD @ zcomp E None x" | "compress E x = escape_raw_owned x"
    using three [of "min (min (2 + length (zcomp E (Some (tree_dict E)) x)) (2 + length (zcomp E None x)))
        (raw_stored_len x) = 2 + length (zcomp E (Some (tree_dict E)) x)"]
    unfolding compress_def Let_def by blast
  then show thesis
  proof cases
    case 3
    with esc that(2,3) show thesis by (cases "raw_needs_escape x") (auto simp: escape_raw_owned_def magics)
  qed (use that(1) in \<open>auto simp: magics\<close>)
qed

lemma peek_sound:
  assumes "peek_rules_out_manifest S s h = Inr True" "os_open_read S s h = Inr (compress E x)"
  shows "deserialise_manifest x = None"
proof (rule ccontr)
  assume "deserialise_manifest x \<noteq> None"
  then obtain r where x: "x = TYPE_TAG_MANIFEST @ r"
    by (auto simp: deserialise_manifest_def prefix_def split: if_splits)
  from assms(1) show False
    by (cases rule: compress_cases [of E x])
      (auto simp: peek_rules_out_manifest_def assms(2) Let_def x type_tags split: if_splits)
qed

context store_laws
begin

lemma store_read_canonical:
  assumes "inv s" "hash_ok h" "canonical_cache E S s" "zstd_lossless E"
  shows "(view s h = None \<and> store_read E S s h None = Inl (ObjectNotFound (hex h))) \<or>
    (\<exists>x. view s h = Some (compress E x) \<and> store_read E S s h None = Inr x)"
proof (cases "view s h")
  case None
  with assms show ?thesis by (simp add: store_read_absent)
next
  case (Some b)
  then have r: "os_open_read S s h = Inr b" using assms by (simp add: read_view)
  with assms(2,3) obtain x where "b = compress E x" "length x \<le> DECOMPRESS_MAX"
    unfolding canonical_cache_def by blast
  with Some r decompress_compress [OF assms(4)] show ?thesis
    by (simp add: store_read_def decode_obj_def decrypt_def)
qed

lemma all_exist_iff:
  "inv s \<Longrightarrow> \<forall>h \<in> set hs. hash_ok h \<Longrightarrow>
     all_exist S s hs = Inr (\<forall>h \<in> set hs. view s h \<noteq> None)"
  by (induction hs) (auto simp: exists_view)

lemma blob_fully_cached_iff:
  assumes "inv s" "hash_ok h" "canonical_cache E S s" "zstd_lossless E"
  shows "blob_fully_cached E S s h = Inr (\<exists>x. view s h = Some (compress E x) \<and>
    store_read E S s h None = Inr x \<and>
    (\<forall>hs. deserialise_manifest x = Some hs \<longrightarrow> (\<forall>g \<in> set hs. view s g \<noteq> None)))"
  using store_read_canonical [OF assms]
proof (elim disjE exE conjE)
  assume "view s h = None"
  with assms(1,2) show ?thesis by (simp add: blob_fully_cached_def exists_view)
next
  fix x assume x: "view s h = Some (compress E x)" "store_read E S s h None = Inr x"
  then have r: "os_open_read S s h = Inr (compress E x)" using assms by (simp add: read_view)
  have "\<exists>p. peek_rules_out_manifest S s h = Inr p"
    by (auto simp: peek_rules_out_manifest_def r Let_def)
  then obtain p where p: "peek_rules_out_manifest S s h = Inr p" ..
  show ?thesis
  proof (cases "p \<or> deserialise_manifest x = None")
    case True
    with p peek_sound [OF _ r] have "deserialise_manifest x = None" by auto
    with x p assms(1,2) show ?thesis
      by (cases p) (simp_all add: blob_fully_cached_def exists_view)
  next
    case False
    then obtain hs where hs: "deserialise_manifest x = Some hs" "\<not> p" by auto
    with deserialise_manifest_ok have "\<forall>g \<in> set hs. hash_ok g" by blast
    with x p hs assms(1,2) show ?thesis
      by (simp add: blob_fully_cached_def exists_view all_exist_iff)
  qed
qed

lemma walk_no_missing:
  assumes "inv s" "canonical_cache E S s" "zstd_lossless E"
  shows "\<forall>g \<in> set hs. hash_ok g \<Longrightarrow> walk_chunks E S s None sink hs acc = Inl (ObjectNotFound m) \<Longrightarrow>
    (\<And>c a e. sink c a \<noteq> Inl (ObjectNotFound e)) \<Longrightarrow> \<exists>g \<in> set hs. view s g = None"
proof (induction hs arbitrary: acc)
  case (Cons h hs)
  have "hash_ok h" using Cons.prems(1) by simp
  from store_read_canonical [OF assms(1) this assms(2,3)] show ?case
  proof (elim disjE exE conjE)
    fix x assume x: "store_read E S s h None = Inr x"
    with Cons.prems(2) Cons.prems(3) obtain acc' where
      "walk_chunks E S s None sink hs acc' = Inl (ObjectNotFound m)"
      by (auto simp: rbind_Inl_iff ok_or_def split: option.splits)
    with Cons.IH Cons.prems show ?thesis by auto
  qed auto
qed simp

lemma walk_present:
  assumes "inv s"
  shows "\<forall>g \<in> set hs. hash_ok g \<Longrightarrow> walk_chunks E S s None sink hs acc = Inr y \<Longrightarrow>
    \<forall>g \<in> set hs. view s g \<noteq> None"
proof (induction hs arbitrary: acc)
  case (Cons h hs)
  then obtain x where "store_read E S s h None = Inr x" by (auto simp: rbind_Inr_iff)
  moreover have "hash_ok h" using Cons.prems(1) by simp
  ultimately have "view s h \<noteq> None" using store_read_absent [OF assms, of h E None] by auto
  with Cons show ?case by (auto simp: rbind_Inr_iff)
qed simp

lemma blob_fully_cached_load:
  assumes ok: "inv s" "hash_ok h" "canonical_cache E S s" "zstd_lossless E"
  shows "load_assembled E S s h None = Inr y \<Longrightarrow> blob_fully_cached E S s h = Inr True"
    and "blob_fully_cached E S s h = Inr True \<Longrightarrow> load_assembled E S s h None \<noteq> Inl (ObjectNotFound m)"
proof -
  let ?sink = "\<lambda>c assembled. Inr (assembled @ c) :: bytes result"
  assume "load_assembled E S s h None = Inr y"
  then obtain x where x: "store_read E S s h None = Inr x"
    and w: "\<And>hs. deserialise_manifest x = Some hs \<Longrightarrow> walk_chunks E S s None ?sink hs [] = Inr y"
    by (auto simp: load_assembled_def for_each_serialised_chunk_def rbind_Inr_iff split: option.splits)
  have "\<forall>g \<in> set hs. view s g \<noteq> None" if "deserialise_manifest x = Some hs" for hs
    using walk_present [OF ok(1) _ w [OF that]] deserialise_manifest_ok [OF that] by blast
  with x store_read_canonical [OF ok] show "blob_fully_cached E S s h = Inr True"
    unfolding blob_fully_cached_iff [OF ok] by auto
next
  let ?sink = "\<lambda>c assembled. Inr (assembled @ c) :: bytes result"
  assume "blob_fully_cached E S s h = Inr True"
  then obtain x where x: "store_read E S s h None = Inr x"
    and v: "\<And>hs. deserialise_manifest x = Some hs \<Longrightarrow> \<forall>g \<in> set hs. view s g \<noteq> None"
    unfolding blob_fully_cached_iff [OF ok] by auto
  show "load_assembled E S s h None \<noteq> Inl (ObjectNotFound m)"
  proof (cases "deserialise_manifest x")
    case None
    with x show ?thesis by (simp add: load_assembled_def for_each_serialised_chunk_def)
  next
    case (Some hs)
    from walk_no_missing [OF ok(1,3,4), of hs ?sink "[]" m] v [OF Some] deserialise_manifest_ok [OF Some]
    have "walk_chunks E S s None ?sink hs [] \<noteq> Inl (ObjectNotFound m)" by auto
    with x Some show ?thesis by (simp add: load_assembled_def for_each_serialised_chunk_def)
  qed
qed

end

section \<open>A concrete chunker for evaluation\<close>

text \<open>Fixed-size chunks meet the promise of the chunker.\<close>

function toy_cdc :: "bytes \<Rightarrow> bytes list" where
  "toy_cdc x = (if x = [] then [] else if length x \<le> CDC_MIN then [x]
     else take CDC_MIN x # toy_cdc (drop CDC_MIN x))"
  by pat_completeness auto
termination
  by (relation "measure length") (auto simp: CDC_MIN_def)

declare toy_cdc.simps [simp del]

lemma toy_cdc_small: "x \<noteq> [] \<Longrightarrow> length x \<le> CDC_MIN \<Longrightarrow> toy_cdc x = [x]"
  by (subst toy_cdc.simps) simp

lemma toy_cdc_props:
  "concat (toy_cdc x) = x \<and> (\<forall>c \<in> set (toy_cdc x). c \<noteq> [] \<and> length c \<le> CDC_MAX) \<and>
   (\<forall>c \<in> set (butlast (toy_cdc x)). CDC_MIN \<le> length c)"
proof (induction x rule: toy_cdc.induct)
  case (1 x)
  have le: "0 < CDC_MIN" "CDC_MIN \<le> CDC_MAX" by (simp_all add: CDC_MIN_def CDC_MAX_def)
  show ?case
  proof (cases "x = [] \<or> length x \<le> CDC_MIN")
    case True
    with le show ?thesis by (subst (1 2 3) toy_cdc.simps) auto
  next
    case False
    with "1.IH" le show ?thesis by (subst (1 2 3) toy_cdc.simps) auto
  qed
qed

lemma toy_cdc_ok: "cdc_ok toy_cdc"
  using toy_cdc_props unfolding cdc_ok_def by blast

section \<open>A captured file is read back\<close>

lemma snapshot_attempt_torn:
  "\<not> stable a \<Longrightarrow> st_size (at_before a) < STREAMING_THRESHOLD \<Longrightarrow>
     snapshot_attempt E cdc scdc S s key a = Inr (None, s)"
  by (auto simp: snapshot_attempt_def stable_def)

lemma snapshot_loop_torn:
  "\<forall>x \<in> set xs. \<exists>t. x = Inr t \<and> \<not> stable t \<and> st_size (at_before t) < STREAMING_THRESHOLD \<Longrightarrow>
     snapshot_loop E cdc scdc S key label (xs @ ys) s = snapshot_loop E cdc scdc S key label ys s"
  by (induction xs) (auto simp: snapshot_attempt_torn)

lemma captured_file_core:
  assumes "backend_ok b" and "keys_apart hmac key" and "digest32 (sha E)" and "zstd_lossless E"
    and "gcm_opens E" and "cdc_ok cdc" and "i < SNAPSHOT_ATTEMPTS" and "opens i = Inr a" and "stable a"
    and "at_probe a = take 2 (at_content a)"
    and "\<forall>j < i. \<exists>t. opens j = Inr t \<and> \<not> stable t \<and> st_size (at_before t) < STREAMING_THRESHOLD"
    and "no_clash E cdc (local_store hmac key) b key (at_content a)"
  shows "\<exists>sf b'. store_snapshot_with E cdc cdc (local_store hmac key) b key label opens = Inr (sf, b') \<and>
    backend_ok b' \<and> sf_hash sf = blob_hash (sha E) (at_content a) \<and>
    sf_size sf = length (at_content a) \<and>
    for_each_blob_chunk E (local_store hmac key) b' (sf_hash sf) key (\<lambda>c acc. Inr (acc @ c)) []
      = Inr (at_content a) \<and>
    (\<forall>g k y. hash_ok g \<longrightarrow> store_read E (local_store hmac key) b g k = Inr y \<longrightarrow>
       store_read E (local_store hmac key) b' g k = Inr y)"
proof -
  let ?S = "local_store hmac key" and ?c = "at_content a"
  from store_laws.store_blob_read [OF keys_apart_laws [OF assms(2)] assms(1,3-6,12)] obtain b' where
    b': "store_chunked E cdc ?S b (blob_hash (sha E) ?c) (serialise_blob ?c) key = Inr b'"
    "backend_ok b'"
    "\<forall>g k y. hash_ok g \<longrightarrow> store_read E ?S b g k = Inr y \<longrightarrow> store_read E ?S b' g k = Inr y"
    "for_each_blob_chunk E ?S b' (blob_hash (sha E) ?c) key (\<lambda>c acc. Inr (acc @ c)) [] = Inr ?c"
    by blast
  have size: "st_size (at_before a) = length ?c"
    using assms(9) by (simp add: stable_def stat_unchanged_def)
  have at: "snapshot_attempt E cdc cdc ?S b key a = Inr (Some (blob_hash (sha E) ?c), b')"
  proof (cases "st_size (at_before a) < STREAMING_THRESHOLD")
    case True
    with assms(9) b'(1) show ?thesis by (simp add: snapshot_attempt_eq [OF assms(6,10)])
  next
    case False
    with size have "?c \<noteq> []" by (auto simp: STREAMING_THRESHOLD_def)
    from stream_equals_store_chunked [OF assms(6) this, of E ?S b key] b'(1)
    obtain h chunks n s1 where "stream_file_once E cdc ?S b (take 2 ?c) ?c key = Inr (h, chunks, n, s1)"
      "finish_streamed_file E ?S s1 h chunks key = Inr b'" by (auto simp: rbind_Inr_iff)
    with False assms(9) show ?thesis by (simp add: snapshot_attempt_eq [OF assms(6,10)] assms(10))
  qed
  have "[0..<SNAPSHOT_ATTEMPTS] = [0..<i] @ i # [Suc i..<SNAPSHOT_ATTEMPTS]"
    using assms(7) upt_add_eq_append [of 0 i "SNAPSHOT_ATTEMPTS - i"] by (simp add: upt_rec)
  then have "map opens [0..<SNAPSHOT_ATTEMPTS] =
      map opens [0..<i] @ Inr a # map opens [Suc i..<SNAPSHOT_ATTEMPTS]" by (simp add: assms(8))
  moreover have "\<forall>x \<in> set (map opens [0..<i]). \<exists>t. x = Inr t \<and> \<not> stable t \<and>
      st_size (at_before t) < STREAMING_THRESHOLD" using assms(11) by auto
  ultimately show ?thesis using b' at size
    by (simp add: store_snapshot_with_def snapshot_loop_torn [where xs = "map opens [0..<i]"])
qed

section \<open>Properties\<close>



text \<open>C10: a file of any size, the empty file included, that one of the attempts captures
  while it does not change is read back byte for byte however it was chunked, under the hash
  of its content and with its size, and no object stored before is lost. An earlier attempt,
  if there was one, saw the file change while it was below the streaming threshold (a streamed
  attempt leaves chunks of the torn content behind). The content itself is new to the store,
  and its chunks do not collide.\<close>

theorem captured_file_roundtrip:
  assumes "backend_ok b" and "keys_apart hmac key" and "digest32 (sha E)" and "zstd_lossless E"
    and "gcm_opens E" and "cdc_ok cdc" and "i < SNAPSHOT_ATTEMPTS" and "opens i = Inr a" and "stable a"
    and "at_probe a = take 2 (at_content a)"
    and "\<forall>j < i. \<exists>t. opens j = Inr t \<and> \<not> stable t \<and> st_size (at_before t) < STREAMING_THRESHOLD"
    and "no_clash E cdc (local_store hmac key) b key (at_content a)"
  shows "\<exists>sf b'. store_snapshot_with E cdc cdc (local_store hmac key) b key label opens = Inr (sf, b') \<and>
    backend_ok b' \<and> sf_hash sf = blob_hash (sha E) (at_content a) \<and>
    sf_size sf = length (at_content a) \<and>
    for_each_blob_chunk E (local_store hmac key) b' (sf_hash sf) key (\<lambda>c acc. Inr (acc @ c)) []
      = Inr (at_content a) \<and>
    (\<forall>g k y. hash_ok g \<longrightarrow> store_read E (local_store hmac key) b g k = Inr y \<longrightarrow>
       store_read E (local_store hmac key) b' g k = Inr y)"
  by (rule captured_file_core [OF assms])

definition toy_attempt :: attempt where
  "toy_attempt = \<lparr>at_before = \<lparr>st_mtime = Some 5, st_size = 3\<rparr>, at_mode = None, at_probe = [0xED, 0xF2],
     at_content = [0xED, 0xF2, 9], at_after = \<lparr>st_mtime = Some 5, st_size = 3\<rparr>\<rparr>"

lemma toy_no_clash: "no_clash toy_env toy_cdc (local_store toy_hmac None) (RemoteB []) None [0xED, 0xF2, 9]"
proof -
  have ser: "serialise_blob [0xED, 0xF2, 9] = [0xED, 0xF0, 0xED, 0xF2, 9]" by code_simp
  have c: "toy_cdc [0xED, 0xF0, 0xED, 0xF2, 9] = [[0xED, 0xF0, 0xED, 0xF2, 9]]"
    by (rule toy_cdc_small) (simp_all add: CDC_MIN_def)
  have e: "os_exists (local_store toy_hmac None) (RemoteB []) h = Inr False" for h
    by (simp add: local_store_def store_with_keys_def backend_exists_def remote_find_def
        split: option.splits)
  have n: "blob_hash (sha toy_env) [0xED, 0xF2, 9] \<noteq> chunk_hash (sha toy_env) [0xED, 0xF0, 0xED, 0xF2, 9]"
    by code_simp
  have l: "length (serialise_manifest [chunk_hash (sha toy_env) [0xED, 0xF0, 0xED, 0xF2, 9]]) = 34"
    by code_simp
  show ?thesis
    unfolding no_clash_def ser c Let_def e using n l by (simp add: DECOMPRESS_MAX_def)
qed

definition toy_empty_attempt :: attempt where
  "toy_empty_attempt = toy_attempt\<lparr>at_before := \<lparr>st_mtime = Some 6, st_size = 0\<rparr>, at_probe := [],
     at_content := [], at_after := \<lparr>st_mtime = Some 6, st_size = 0\<rparr>\<rparr>"

definition toy_torn_attempt :: attempt where
  "toy_torn_attempt = toy_attempt\<lparr>at_after := \<lparr>st_mtime = Some 6, st_size = 0\<rparr>\<rparr>"

lemma toy_no_clash_empty: "no_clash toy_env toy_cdc (local_store toy_hmac None) (RemoteB []) None []"
proof -
  have ser: "serialise_blob [] = []" by code_simp
  have c: "toy_cdc [] = []" by (simp add: toy_cdc.simps)
  have e: "os_exists (local_store toy_hmac None) (RemoteB []) h = Inr False" for h
    by (simp add: local_store_def store_with_keys_def backend_exists_def remote_find_def
        split: option.splits)
  have "length (serialise_manifest []) = 2" by code_simp
  then show ?thesis unfolding no_clash_def ser c Let_def e by (simp add: DECOMPRESS_MAX_def)
qed

text \<open>The witness: the file is truncated to nothing during the first attempt, and the second
  one captures the empty file.\<close>

theorem captured_file_roundtrip_witness:
  "\<exists>sf b'. store_snapshot_with toy_env toy_cdc toy_cdc (local_store toy_hmac None) (RemoteB []) None ''f''
       (\<lambda>n. Inr (if n = 0 then toy_torn_attempt else toy_empty_attempt)) = Inr (sf, b') \<and>
     sf_size sf = 0 \<and>
     for_each_blob_chunk toy_env (local_store toy_hmac None) b' (sf_hash sf) None (\<lambda>c acc. Inr (acc @ c)) []
       = Inr []"
  using captured_file_roundtrip [OF _ toy_keys_apart toy_env_ok(3,1,2) toy_cdc_ok,
      of "RemoteB []" 1 "\<lambda>n. Inr (if n = 0 then toy_torn_attempt else toy_empty_attempt)"
        toy_empty_attempt None "''f''"] toy_no_clash_empty
  by (auto simp: toy_attempt_def toy_empty_attempt_def toy_torn_attempt_def stable_def stat_unchanged_def
      SNAPSHOT_ATTEMPTS_def STREAMING_THRESHOLD_def)

text \<open>C27: the snapshot writer never records a file that changed under it: a reported hash is
  the hash of the content of one attempt whose metadata was the same before and after and
  whose length is the recorded size.\<close>

theorem snapshot_never_torn:
  assumes "cdc_ok scdc" and "\<forall>i a. opens i = Inr a \<longrightarrow> at_probe a = take 2 (at_content a)"
    and "store_snapshot_with E cdc scdc S s key label opens = Inr (sf, s')"
  shows "\<exists>i < SNAPSHOT_ATTEMPTS. \<exists>a. opens i = Inr a \<and> at_before a = at_after a \<and>
    sf_hash sf = blob_hash (sha E) (at_content a) \<and> sf_size sf = length (at_content a) \<and>
    sf_size sf = st_size (at_after a)"
proof -
  have "\<forall>a. Inr a \<in> set (map opens [0..<SNAPSHOT_ATTEMPTS]) \<longrightarrow> at_probe a = take 2 (at_content a)"
    using assms(2) by (metis ex_map_conv)
  from snapshot_loop_stable [OF assms(1) this assms(3) [unfolded store_snapshot_with_def]] obtain a where
    a: "Inr a \<in> set (map opens [0..<SNAPSHOT_ATTEMPTS])" "stable a"
    "sf_hash sf = blob_hash (sha E) (at_content a)" "sf_size sf = length (at_content a)" by blast
  from a(1) obtain i where "i < SNAPSHOT_ATTEMPTS" "opens i = Inr a" by auto
  with a show ?thesis unfolding stable_def stat_unchanged_def by metis
qed

theorem snapshot_never_torn_witness:
  "\<exists>sf b'. store_snapshot_with toy_env toy_cdc toy_cdc (local_store toy_hmac None) (RemoteB []) None ''f''
       (\<lambda>_. Inr toy_attempt) = Inr (sf, b') \<and> sf_size sf = 3"
proof -
  have p: "\<forall>i a. (\<lambda>_. Inr toy_attempt) i = Inr a \<longrightarrow> at_probe a = take 2 (at_content a)"
    by (simp add: toy_attempt_def)
  from captured_file_core [OF _ toy_keys_apart toy_env_ok(3,1,2) toy_cdc_ok,
      of "RemoteB []" 0 "\<lambda>_. Inr toy_attempt" toy_attempt None "''f''"] toy_no_clash
  obtain sf b' where r: "store_snapshot_with toy_env toy_cdc toy_cdc (local_store toy_hmac None) (RemoteB [])
      None ''f'' (\<lambda>_. Inr toy_attempt) = Inr (sf, b')"
    by (auto simp: toy_attempt_def stable_def stat_unchanged_def SNAPSHOT_ATTEMPTS_def)
  from snapshot_never_torn [OF toy_cdc_ok p r] have "sf_size sf = 3" by (simp add: toy_attempt_def)
  with r show ?thesis by blast
qed

text \<open>The hash-only pass computes the same hash and the same escape decision as storing
  the file would, however the reads split the content.\<close>

theorem hash_only_pass:
  assumes "[] \<notin> set bufs"
  shows "pass1_hash_and_prefix E bufs = (blob_hash (sha E) (concat bufs),
    serialise_blob (concat bufs) \<noteq> concat bufs)"
proof -
  have "\<forall>b \<in> set bufs. b \<noteq> []" using assms by metis
  from pass1_loop_eq [OF this, of None "[]" None TYPE_TAG_BLOB] show ?thesis
    by (simp add: pass1_hash_and_prefix_def blob_hash_def serialise_blob_def) (simp add: type_tags)
qed

theorem hash_only_pass_witness:
  "pass1_hash_and_prefix toy_env [[0xED], [0xF1, 3], [4]] =
     (blob_hash (sha toy_env) [0xED, 0xF1, 3, 4], True)"
proof -
  have "serialise_blob [0xED, 0xF1, 3, 4] \<noteq> [0xED, 0xF1, 3, 4]" by code_simp
  with hash_only_pass [of "[[0xED], [0xF1, 3], [4]]" toy_env] show ?thesis by simp
qed

text \<open>C29: the completeness test of the plaintext cache is exact: a blob that can be assembled
  is reported complete, and assembling a blob that is reported complete never misses an
  object, although the test reads only two bytes of most objects.\<close>

theorem blob_fully_cached_exact:
  assumes "backend_ok b" and "hash_ok h" and "canonical_cache E (local_store hmac None) b"
    and "zstd_lossless E"
  shows "(load_assembled E (local_store hmac None) b h None = Inr x \<longrightarrow>
      blob_fully_cached E (local_store hmac None) b h = Inr True) \<and>
    (blob_fully_cached E (local_store hmac None) b h = Inr True \<longrightarrow>
      load_assembled E (local_store hmac None) b h None \<noteq> Inl (ObjectNotFound m)) \<and>
    (\<exists>r. blob_fully_cached E (local_store hmac None) b h = Inr r)"
proof -
  have "keys_apart hmac None" by (simp add: keys_apart_def)
  note L = keys_apart_laws [OF this]
  from store_laws.blob_fully_cached_load [OF L assms] store_laws.blob_fully_cached_iff [OF L assms]
  show ?thesis by blast
qed

theorem blob_fully_cached_exact_witness:
  "blob_fully_cached toy_env (local_store toy_hmac None)
     (RemoteB [(the (expected_path (hex toy_hash)), [4, 5])]) toy_hash = Inr True"
proof -
  let ?b = "RemoteB [(the (expected_path (hex toy_hash)), [4, 5])]"
  have "compress toy_env [4, 5] = [4, 5]" by code_simp
  then have "canonical_cache toy_env (local_store toy_hmac None) ?b"
    by (auto simp: canonical_cache_def local_store_def store_with_keys_def backend_open_read_def
        remote_find_def rbind_Inr_iff ok_or_def DECOMPRESS_MAX_def intro!: exI [of _ "[4, 5]"]
        split: sum.splits option.splits if_splits)
  moreover have "load_assembled toy_env (local_store toy_hmac None) ?b toy_hash None = Inr [4, 5]"
    by code_simp
  ultimately show ?thesis
    using blob_fully_cached_exact [OF _ toy_hash_ok _ toy_env_ok(1), of ?b] by auto
qed

end
