(* ===== verification/IndexFile.thy ===== *)
theory IndexFile
  imports Objects
begin

text \<open>
  Index files of the pack layer (\<open>src/src/codec/pack/index.rs\<close>): the sorted list of
  entries with binary search, and its wire format. The parser follows the code's cursor:
  it works on the bytes that remain after it. \<open>slice::partition_point\<close> is read as its
  documentation says for a partitioned slice: the length of the prefix that satisfies the
  predicate.
\<close>

section \<open>Entries and lookup\<close>

datatype index_entry =
    Inline (ihash: hash) (idata: bytes)
  | PackE (ihash: hash) (ipack_hash: hash) (ioffset: u32) (ilength: u32)
  | Standalone (ihash: hash)

type_synonym index_file = "index_entry list"

definition partition_point :: "('a \<Rightarrow> bool) \<Rightarrow> 'a list \<Rightarrow> nat" where
  "partition_point P xs = length (takeWhile P xs)"

definition index_push :: "index_file \<Rightarrow> index_entry \<Rightarrow> index_file" where
  "index_push es entry =
     (let pos = partition_point (\<lambda>e. hex (ihash e) < hex (ihash entry)) es
      in if pos < length es \<and> ihash (es ! pos) = ihash entry
         then es[pos := entry]
         else take pos es @ [entry] @ drop pos es)"

definition index_find :: "index_file \<Rightarrow> hash \<Rightarrow> index_entry option" where
  "index_find es h =
     (let pos = partition_point (\<lambda>e. hex (ihash e) < hex h) es
      in if pos < length es \<and> ihash (es ! pos) = h then Some (es ! pos) else None)"

section \<open>Wire format\<close>

definition INDEX_MAGIC :: bytes where "INDEX_MAGIC = [0xED, 0xE2]"
definition INDEX_VERSION :: u8 where "INDEX_VERSION = 1"
definition TAG_INLINE :: u8 where "TAG_INLINE = 1"
definition TAG_PACK :: u8 where "TAG_PACK = 2"
definition TAG_STANDALONE :: u8 where "TAG_STANDALONE = 3"
definition MIN_ENTRY_SIZE :: nat where "MIN_ENTRY_SIZE = 33"

lemmas index_tags = TAG_INLINE_def TAG_PACK_def TAG_STANDALONE_def

fun entry_bytes :: "index_entry \<Rightarrow> bytes" where
  "entry_bytes (Inline h d) = [TAG_INLINE] @ raw h @ [word_of_nat (length d)] @ d"
| "entry_bytes (PackE h p off len) =
     [TAG_PACK] @ raw h @ raw p @ u32_to_be off @ u32_to_be len"
| "entry_bytes (Standalone h) = [TAG_STANDALONE] @ raw h"

definition index_serialise :: "index_file \<Rightarrow> bytes result" where
  "index_serialise es =
     (if 2 ^ 32 - 1 < length es then Inl (Other ''index entry count exceeds u32::MAX'')
      else Inr (INDEX_MAGIC @ [INDEX_VERSION] @ [0] @ u32_to_be (word_of_nat (length es)) @
                concat (map entry_bytes es)))"

definition parse_entry :: "bytes \<Rightarrow> (index_entry \<times> bytes) result" where
  "parse_entry rest =
     (if rest = [] then Inl (InvalidObject ''index file truncated'')
      else let tag = hd rest; r1 = tl rest
           in if length r1 < 32 then Inl (InvalidObject ''index file truncated in hash'')
              else let h = from_bytes (take 32 r1); r2 = drop 32 r1
                   in if tag = TAG_INLINE
                      then (if r2 = [] then Inl (InvalidObject ''inline entry truncated'')
                            else let data_len = unat (hd r2); r3 = tl r2
                                 in if length r3 < data_len
                                    then Inl (InvalidObject ''inline entry data truncated'')
                                    else Inr (Inline h (take data_len r3), drop data_len r3))
                      else if tag = TAG_PACK
                      then (if length r2 < 32 + 4 + 4
                            then Inl (InvalidObject ''pack entry truncated'')
                            else Inr (PackE h (from_bytes (take 32 r2))
                                        (u32_from_be (subslice 32 36 r2))
                                        (u32_from_be (subslice 36 40 r2)), drop 40 r2))
                      else if tag = TAG_STANDALONE then Inr (Standalone h, r2)
                      else Inl (InvalidObject ''unknown index entry tag''))"

fun parse_entries :: "nat \<Rightarrow> bytes \<Rightarrow> index_entry list result" where
  "parse_entries 0 rest = Inr []"
| "parse_entries (Suc n) rest =
     rbind (parse_entry rest) (\<lambda>(e, rest').
     rbind (parse_entries n rest') (\<lambda>es. Inr (e # es)))"

text \<open>The final loop: every entry is above its predecessor.\<close>

fun entries_sorted :: "index_entry list \<Rightarrow> bool" where
  "entries_sorted (a # b # es) \<longleftrightarrow> \<not> hex (ihash b) \<le> hex (ihash a) \<and> entries_sorted (b # es)"
| "entries_sorted _ \<longleftrightarrow> True"

definition index_deserialise :: "bytes \<Rightarrow> index_file result" where
  "index_deserialise data =
     (if length data < 8 then Inl (InvalidObject ''index file too short'')
      else if subslice 0 2 data \<noteq> INDEX_MAGIC then Inl (InvalidObject ''index file bad magic'')
      else if data ! 2 \<noteq> INDEX_VERSION then Inl (InvalidObject ''index file unknown version'')
      else let entry_count = unat (u32_from_be (subslice 4 8 data));
               rest = drop 8 data
           in if length rest div MIN_ENTRY_SIZE < entry_count
              then Inl (InvalidObject ''index file entry_count exceeds what the bytes could hold'')
              else rbind (parse_entries entry_count rest) (\<lambda>es.
                     if entries_sorted es then Inr es
                     else Inl (InvalidObject ''index entries not sorted'')))"

section \<open>Sorted entry lists\<close>

definition entry_ok :: "index_entry \<Rightarrow> bool" where
  "entry_ok e \<longleftrightarrow> hash_ok (ihash e) \<and>
     (case e of Inline h d \<Rightarrow> length d < 256 | PackE h p off len \<Rightarrow> hash_ok p | Standalone h \<Rightarrow> True)"

definition index_sorted :: "index_file \<Rightarrow> bool" where
  "index_sorted es \<longleftrightarrow> (\<forall>e \<in> set es. hash_ok (ihash e)) \<and> sorted_wrt (<) (map (hex \<circ> ihash) es)"

definition index_ok :: "index_file \<Rightarrow> bool" where
  "index_ok es \<longleftrightarrow> (\<forall>e \<in> set es. entry_ok e) \<and> sorted_wrt (<) (map (hex \<circ> ihash) es) \<and>
     length es < 2 ^ 32"

lemma index_ok_sorted: "index_ok es \<Longrightarrow> index_sorted es"
  by (simp add: index_ok_def index_sorted_def entry_ok_def)

text \<open>A strictly sorted list falls apart at any key.\<close>

lemma index_split:
  assumes "index_sorted es" "hash_ok h"
  obtains (found) xs e ys where "es = xs @ e # ys" "ihash e = h" "\<forall>x \<in> set xs. hex (ihash x) < hex h"
      "\<forall>y \<in> set ys. hex h < hex (ihash y)"
  | (missing) xs ys where "es = xs @ ys" "\<forall>x \<in> set xs. hex (ihash x) < hex h"
      "\<forall>y \<in> set ys. hex h < hex (ihash y)"
proof -
  let ?P = "\<lambda>e. hex (ihash e) < hex h"
  let ?xs = "takeWhile ?P es" and ?ys = "dropWhile ?P es"
  have es: "es = ?xs @ ?ys" by simp
  have xs: "\<forall>x \<in> set ?xs. ?P x" by (blast dest: set_takeWhileD)
  have sorted: "sorted_wrt (<) (map (hex \<circ> ihash) ?ys)"
    using assms(1) es unfolding index_sorted_def by (metis map_append sorted_wrt_append)
  show thesis
  proof (cases ?ys)
    case Nil
    with es xs missing [of ?xs "[]"] show thesis by simp
  next
    case (Cons e ys)
    then have ge: "\<not> ?P e" by (metis hd_dropWhile list.sel(1) list.distinct(1))
    have up: "\<forall>y \<in> set ys. hex (ihash e) < hex (ihash y)" using sorted Cons by simp
    show thesis
    proof (cases "hex (ihash e) = hex h")
      case True
      have "hash_ok (ihash e)" using assms(1) es Cons unfolding index_sorted_def
        by (metis in_set_conv_decomp)
      with True assms(2) have "ihash e = h" by (simp add: hex_inject)
      with found [of ?xs e ys] es Cons xs up True show thesis by simp
    next
      case False
      with ge have "hex h < hex (ihash e)" by (simp add: not_less order_less_le)
      with up have "\<forall>y \<in> set ?ys. hex h < hex (ihash y)" unfolding Cons by auto
      with missing [OF es xs] show thesis by blast
    qed
  qed
qed

lemma partition_point_split:
  assumes "\<forall>x \<in> set xs. P x" "\<forall>y \<in> set ys. \<not> P y"
  shows "partition_point P (xs @ ys) = length xs"
  using assms by (induction xs) (cases ys; simp add: partition_point_def)+

lemma index_find_split:
  assumes "\<forall>x \<in> set xs. hex (ihash x) < hex h" "\<forall>y \<in> set ys. hex h < hex (ihash y)"
  shows "ihash e = h \<Longrightarrow> index_find (xs @ e # ys) h = Some e" "index_find (xs @ ys) h = None"
proof -
  assume e: "ihash e = h"
  have "partition_point (\<lambda>e. hex (ihash e) < hex h) (xs @ e # ys) = length xs"
    using assms e by (intro partition_point_split) auto
  with e show "index_find (xs @ e # ys) h = Some e" by (simp add: index_find_def Let_def)
next
  have "partition_point (\<lambda>e. hex (ihash e) < hex h) (xs @ ys) = length xs"
    using assms by (intro partition_point_split) auto
  with assms(2) show "index_find (xs @ ys) h = None"
    by (cases ys) (auto simp: index_find_def Let_def)
qed

lemma index_push_split:
  assumes "\<forall>x \<in> set xs. hex (ihash x) < hex (ihash v)" "\<forall>y \<in> set ys. hex (ihash v) < hex (ihash y)"
  shows "ihash e = ihash v \<Longrightarrow> index_push (xs @ e # ys) v = xs @ v # ys"
    "index_push (xs @ ys) v = xs @ v # ys"
proof -
  assume e: "ihash e = ihash v"
  have "partition_point (\<lambda>e. hex (ihash e) < hex (ihash v)) (xs @ e # ys) = length xs"
    using assms e by (intro partition_point_split) auto
  with e show "index_push (xs @ e # ys) v = xs @ v # ys" by (simp add: index_push_def Let_def)
next
  have "partition_point (\<lambda>e. hex (ihash e) < hex (ihash v)) (xs @ ys) = length xs"
    using assms by (intro partition_point_split) auto
  with assms(2) show "index_push (xs @ ys) v = xs @ v # ys"
    by (cases ys) (auto simp: index_push_def Let_def)
qed

text \<open>Insertion: the entry takes its sorted place, replacing one with the same hash.\<close>

lemma index_push_cases:
  assumes "index_sorted es" "hash_ok (ihash v)"
  obtains xs ys where "index_push es v = xs @ v # ys"
    "es = xs @ ys \<or> (\<exists>e. es = xs @ e # ys \<and> ihash e = ihash v)"
    "\<forall>x \<in> set xs. hex (ihash x) < hex (ihash v)" "\<forall>y \<in> set ys. hex (ihash v) < hex (ihash y)"
  using assms
proof (cases rule: index_split)
  case (found xs e ys)
  with index_push_split(1) [of xs v ys e] that [of xs ys] show thesis by auto
next
  case (missing xs ys)
  with index_push_split(2) [of xs v ys] that [of xs ys] show thesis by auto
qed

lemma index_push_sorted:
  assumes "index_sorted es" "hash_ok (ihash v)"
  shows "index_sorted (index_push es v)"
  using assms
proof (rule index_push_cases)
  fix xs ys
  assume p: "index_push es v = xs @ v # ys"
    and es: "es = xs @ ys \<or> (\<exists>e. es = xs @ e # ys \<and> ihash e = ihash v)"
    and lt: "\<forall>x \<in> set xs. hex (ihash x) < hex (ihash v)" "\<forall>y \<in> set ys. hex (ihash v) < hex (ihash y)"
  from es assms show ?thesis
    unfolding p index_sorted_def using lt by (auto simp: sorted_wrt_append)
qed

lemma index_push_set:
  assumes "index_sorted es" "hash_ok (ihash v)"
  shows "set (index_push es v) = insert v {e \<in> set es. ihash e \<noteq> ihash v}"
  using assms
proof (rule index_push_cases)
  fix xs ys
  assume p: "index_push es v = xs @ v # ys"
    and es: "es = xs @ ys \<or> (\<exists>e. es = xs @ e # ys \<and> ihash e = ihash v)"
    and lt: "\<forall>x \<in> set xs. hex (ihash x) < hex (ihash v)" "\<forall>y \<in> set ys. hex (ihash v) < hex (ihash y)"
  have "ihash x \<noteq> ihash v" if "x \<in> set xs \<union> set ys" for x using lt that by auto
  with es show ?thesis unfolding p by auto
qed

lemma index_find_iff:
  assumes "index_sorted es" "hash_ok h"
  shows "index_find es h = Some e \<longleftrightarrow> e \<in> set es \<and> ihash e = h"
  using assms
proof (cases rule: index_split)
  case (found xs e' ys)
  have "ihash x \<noteq> h" if "x \<in> set xs \<union> set ys" for x using found(3,4) that by auto
  with found index_find_split(1) [OF found(3,4,2)] show ?thesis by auto
next
  case (missing xs ys)
  have "ihash x \<noteq> h" if "x \<in> set xs \<union> set ys" for x using missing(2,3) that by auto
  with missing index_find_split(2) [OF missing(2,3)] show ?thesis by auto
qed

lemma index_find_push:
  assumes es: "index_sorted es" and v: "hash_ok (ihash v)" and h: "hash_ok h"
  shows "index_find (index_push es v) h = (if h = ihash v then Some v else index_find es h)"
proof (rule option_eqI)
  fix e
  have "index_find (index_push es v) h = Some e \<longleftrightarrow>
      (e = v \<or> e \<in> set es \<and> ihash e \<noteq> ihash v) \<and> ihash e = h"
    by (simp add: index_find_iff [OF index_push_sorted [OF es v] h] index_push_set [OF es v])
  also have "\<dots> \<longleftrightarrow> (if h = ihash v then Some v else index_find es h) = Some e"
  proof (cases "h = ihash v")
    case False
    then show ?thesis using index_find_iff [OF es h, of e] by auto
  qed auto
  finally show "index_find (index_push es v) h = Some e \<longleftrightarrow>
      (if h = ihash v then Some v else index_find es h) = Some e" .
qed

interpretation index: keyed_collection "[]" index_push index_find ihash index_sorted
  "\<lambda>e. hash_ok (ihash e)"
proof unfold_locales
  show "index_sorted []" by (simp add: index_sorted_def)
  show "index_find [] k = None" for k by (simp add: index_find_def Let_def)
qed (simp_all add: index_push_sorted index_find_push)

section \<open>Parsing\<close>

lemma parse_entry_bytes: "entry_ok e \<Longrightarrow> parse_entry (entry_bytes e @ r) = Inr (e, r)"
proof (cases e)
  case (Inline h d)
  assume ok: "entry_ok e"
  with Inline have h: "hash_ok h" "length (raw h) = 32" and d: "length d < 256"
    by (auto simp: entry_ok_def)
  then have "unat (word_of_nat (length d) :: u8) = length d" by (simp add: unat_of_nat)
  with h d show ?thesis by (simp add: Inline parse_entry_def Let_def index_tags)
next
  case (PackE h p off len)
  assume ok: "entry_ok e"
  with PackE have h: "hash_ok h" "length (raw h) = 32" "hash_ok p" "length (raw p) = 32"
    by (auto simp: entry_ok_def)
  then show ?thesis by (simp add: PackE parse_entry_def Let_def index_tags subslice_def)
next
  case (Standalone h)
  assume ok: "entry_ok e"
  with Standalone have "hash_ok h" "length (raw h) = 32" by (auto simp: entry_ok_def)
  then show ?thesis by (simp add: Standalone parse_entry_def Let_def index_tags)
qed

lemma parse_entries_bytes:
  "\<forall>e \<in> set es. entry_ok e \<Longrightarrow> parse_entries (length es) (concat (map entry_bytes es) @ r) = Inr es"
  by (induction es) (simp_all add: parse_entry_bytes)

lemma parse_entry_ok: "parse_entry r = Inr (e, r') \<Longrightarrow> entry_ok e"
  by (auto simp: parse_entry_def Let_def entry_ok_def min_def split: if_splits)

lemma parse_entries_ok: "parse_entries n r = Inr es \<Longrightarrow> length es = n \<and> (\<forall>e \<in> set es. entry_ok e)"
  by (induction n r arbitrary: es rule: parse_entries.induct)
    (auto simp: rbind_Inr_iff dest: parse_entry_ok)

lemma entries_sorted_iff: "entries_sorted es \<longleftrightarrow> sorted_wrt (<) (map (hex \<circ> ihash) es)"
proof (induction es rule: entries_sorted.induct)
  case (1 a b es)
  then show ?case by (auto simp: not_le intro: less_trans)
qed simp_all

lemma entry_bytes_min: "entry_ok e \<Longrightarrow> 33 \<le> length (entry_bytes e)"
  by (cases e) (simp_all add: entry_ok_def)

lemma entries_bytes_min:
  "\<forall>e \<in> set es. entry_ok e \<Longrightarrow> 33 * length es \<le> length (concat (map entry_bytes es))"
proof (induction es)
  case (Cons e es)
  with entry_bytes_min [of e] show ?case by simp
qed simp

lemma index_deserialise_serialise:
  assumes ok: "index_ok es"
  shows "\<exists>d. index_serialise es = Inr d \<and> index_deserialise d = Inr es"
proof -
  let ?b = "concat (map entry_bytes es)"
  let ?d = "INDEX_MAGIC @ [INDEX_VERSION] @ [0] @ u32_to_be (word_of_nat (length es)) @ ?b"
  have n: "unat (word_of_nat (length es) :: u32) = length es"
    using ok by (simp add: index_ok_def unat_of_nat)
  have hd: "length ?d = 8 + length ?b" "subslice 0 2 ?d = INDEX_MAGIC" "?d ! 2 = INDEX_VERSION"
    "subslice 4 8 ?d = u32_to_be (word_of_nat (length es))" "drop 8 ?d = ?b"
    by (simp_all add: INDEX_MAGIC_def subslice_def numeral_2_eq_2)
  have "length es \<le> length ?b div 33"
    using entries_bytes_min [of es] ok by (simp add: index_ok_def)
  moreover have "parse_entries (length es) ?b = Inr es"
    using parse_entries_bytes [of es "[]"] ok by (simp add: index_ok_def)
  ultimately have "index_deserialise ?d = Inr es"
    using ok unfolding index_deserialise_def hd
    by (simp add: n entries_sorted_iff index_ok_def MIN_ENTRY_SIZE_def not_less)
  with ok show ?thesis by (simp add: index_serialise_def index_ok_def)
qed

lemma index_deserialise_ok:
  assumes "index_deserialise d = Inr es"
  shows "index_ok es \<and> 8 + 33 * length es \<le> length d"
proof -
  from assms have p: "parse_entries (unat (u32_from_be (subslice 4 8 d))) (drop 8 d) = Inr es"
    and s: "entries_sorted es" and len: "8 \<le> length d"
    and b: "unat (u32_from_be (subslice 4 8 d)) \<le> (length d - 8) div 33"
    by (auto simp: index_deserialise_def Let_def rbind_Inr_iff MIN_ENTRY_SIZE_def split: if_splits)
  from parse_entries_ok [OF p] have l: "length es = unat (u32_from_be (subslice 4 8 d))"
    "\<forall>e \<in> set es. entry_ok e" by auto
  then have "length es < 2 ^ 32" by simp
  with l s have "index_ok es" by (simp add: index_ok_def entries_sorted_iff)
  moreover from b l(1) len have "8 + 33 * length es \<le> length d" by simp
  ultimately show ?thesis by blast
qed

interpretation index_wire: wire_format index_ok index_serialise index_deserialise
proof unfold_locales
  fix es b
  assume ok: "index_ok es"
  from index_deserialise_serialise [OF this] obtain d where
    d: "index_serialise es = Inr d" "index_deserialise d = Inr es" by blast
  then show "\<exists>b. index_serialise es = Inr b" by blast
  show "index_deserialise b = Inr es" if "index_serialise es = Inr b" using d that by simp
qed (simp add: index_deserialise_ok)

section \<open>Properties\<close>

text \<open>After any sequence of insertions into an index, a lookup returns exactly the last
  entry inserted for its hash, and the index stays strictly sorted with one entry per hash.\<close>

theorem index_lookup_last:
  assumes "\<forall>v \<in> set vs. hash_ok (ihash v)" and "hash_ok (ihash w)"
  shows "index_find (foldl index_push [] vs) (ihash w) = find (\<lambda>v. ihash v = ihash w) (rev vs) \<and>
    sorted_wrt (<) (map (hex \<circ> ihash) (foldl index_push [] vs))"
  using index.get_foldl [OF index.inv_empty assms] index.inv_foldl [OF index.inv_empty assms(1)]
    index.get_empty by (simp add: index_sorted_def split: option.splits)

theorem index_lookup_last_witness:
  "index_find (foldl index_push [] [Standalone (from_bytes (replicate 32 2)),
       Inline (from_bytes (replicate 32 1)) [7], Inline (from_bytes (replicate 32 2)) [8]])
     (from_bytes (replicate 32 2)) = Some (Inline (from_bytes (replicate 32 2)) [8])"
  using index_lookup_last [of "[Standalone (from_bytes (replicate 32 2)),
       Inline (from_bytes (replicate 32 1)) [7], Inline (from_bytes (replicate 32 2)) [8]]"
      "Standalone (from_bytes (replicate 32 2))"] by simp

text \<open>C33: an index file that a hostile remote supplies is either refused or yields a strictly
  sorted list, whose length is bounded by the bytes received and whose binary search finds
  exactly the entries it has; and it can be written and read again without loss.\<close>

theorem index_accepted_sound:
  assumes "index_deserialise d = Inr es"
  shows "33 * length es \<le> length d \<and>
    (\<forall>h e. hash_ok h \<longrightarrow> (index_find es h = Some e \<longleftrightarrow> e \<in> set es \<and> ihash e = h)) \<and>
    (\<exists>d'. index_serialise es = Inr d' \<and> index_deserialise d' = Inr es)"
proof -
  from index_deserialise_ok [OF assms] have ok: "index_ok es" "33 * length es \<le> length d" by auto
  with index_find_iff [OF index_ok_sorted [OF ok(1)]] index_wire.stable [OF assms] show ?thesis by blast
qed

theorem index_accepted_sound_witness:
  "\<exists>d. index_serialise [Inline (from_bytes (replicate 32 1)) [7]] = Inr d \<and>
     index_find [Inline (from_bytes (replicate 32 1)) [7]] (from_bytes (replicate 32 1)) =
       Some (Inline (from_bytes (replicate 32 1)) [7]) \<and> 33 \<le> length d"
proof -
  let ?es = "[Inline (from_bytes (replicate 32 1)) [7]]"
  have "index_ok ?es" by (simp add: index_ok_def entry_ok_def)
  from index_deserialise_serialise [OF this] obtain d where
    d: "index_serialise ?es = Inr d" "index_deserialise d = Inr ?es" by blast
  from index_accepted_sound [OF d(2)] d(1) show ?thesis by auto
qed

end
