(* ===== verification/IndexRoot.thy ===== *)
theory IndexRoot
  imports Chunking IndexFile
begin

text \<open>
  The index root (\<open>src/src/codec/pack/index_root.rs\<close>), its encryption with a stored nonce
  and the cached loading of index files (\<open>src/src/codec/pack/mod.rs\<close>), and the
  compare-and-swap root pointer of a directory remote
  (\<open>src/src/codec/pack/root_pointer.rs\<close>). The random nonce is an argument.
\<close>

section \<open>The index root\<close>

definition ROOT_MAGIC :: bytes where "ROOT_MAGIC = [0xED, 0xE3]"
definition ROOT_VERSION :: u8 where "ROOT_VERSION = 1"
definition FIXED_HEADER_LEN :: nat where "FIXED_HEADER_LEN = 108"
definition MAX_COLD_PREFIX_BITS :: u8 where "MAX_COLD_PREFIX_BITS = 32"

definition ZERO32 :: bytes where "ZERO32 = replicate 32 0"

record index_root =
  remote_root :: bytes
  hot_hash :: bytes
  bloom_hash :: bytes
  cold_prefix_bits :: u8
  delta_hashes :: "bytes list"
  cold_shards :: "bytes list"

definition new_empty :: index_root where
  "new_empty = \<lparr>remote_root = ZERO32, hot_hash = ZERO32, bloom_hash = ZERO32, cold_prefix_bits = 0,
     delta_hashes = [], cold_shards = [ZERO32]\<rparr>"

text \<open>A shift of a 64-bit \<open>usize\<close> takes its amount modulo 64.\<close>

definition cold_shard_count :: "index_root \<Rightarrow> nat" where
  "cold_shard_count r = 2 ^ (unat (cold_prefix_bits r) mod 64)"

definition root_serialise :: "index_root \<Rightarrow> bytes result" where
  "root_serialise r =
     (if length (cold_shards r) \<noteq> cold_shard_count r
      then Inl (Other ''cold_shards length does not match 2^cold_prefix_bits'')
      else if 65535 < length (delta_hashes r) then Inl (Other ''delta_count exceeds u16::MAX'')
      else Inr (ROOT_MAGIC @ [ROOT_VERSION] @ [0] @ remote_root r @ hot_hash r @ bloom_hash r @
                [cold_prefix_bits r] @ [0, 0, 0] @ u16_to_be (word_of_nat (length (delta_hashes r))) @
                [0, 0] @ concat (delta_hashes r) @ concat (cold_shards r)))"

definition root_deserialise :: "bytes \<Rightarrow> index_root result" where
  "root_deserialise data =
     (if length data < FIXED_HEADER_LEN then Inl (InvalidObject ''INDEX_ROOT too short'')
      else if subslice 0 2 data \<noteq> ROOT_MAGIC then Inl (InvalidObject ''INDEX_ROOT bad magic'')
      else if data ! 2 \<noteq> ROOT_VERSION then Inl (InvalidObject ''INDEX_ROOT unknown version'')
      else let rr = subslice 4 36 data; hh = subslice 36 68 data; bh = subslice 68 100 data;
               bits = data ! 100;
               delta_count = unat (u16_from_be (subslice 104 106 data));
               rest = drop 108 data
           in if MAX_COLD_PREFIX_BITS < bits
              then Inl (InvalidObject ''INDEX_ROOT cold_prefix_bits exceeds the maximum'')
              else let shard_count = 2 ^ unat bits;
                       needed = delta_count * 32 + shard_count * 32
                   in if length rest < needed then Inl (InvalidObject ''INDEX_ROOT truncated'')
                      else Inr \<lparr>remote_root = rr, hot_hash = hh, bloom_hash = bh,
                                cold_prefix_bits = bits,
                                delta_hashes = chunks_exact 32 (take (delta_count * 32) rest),
                                cold_shards = chunks_exact 32 (subslice (delta_count * 32) needed rest)\<rparr>)"

definition hash_opt :: "bytes \<Rightarrow> hash option" where
  "hash_opt b = (if b = ZERO32 then None else Some (from_bytes b))"

definition remote_root_hash :: "index_root \<Rightarrow> hash option" where
  "remote_root_hash r = hash_opt (remote_root r)"

definition hot_hash_opt :: "index_root \<Rightarrow> hash option" where
  "hot_hash_opt r = hash_opt (hot_hash r)"

definition bloom_hash_opt :: "index_root \<Rightarrow> hash option" where
  "bloom_hash_opt r = hash_opt (bloom_hash r)"

definition delta_hashes_as_hashes :: "index_root \<Rightarrow> hash list" where
  "delta_hashes_as_hashes r = map from_bytes (delta_hashes r)"

definition cold_shard_hash :: "index_root \<Rightarrow> nat \<Rightarrow> hash option" where
  "cold_shard_hash r slot =
     (if slot < length (cold_shards r) then hash_opt (cold_shards r ! slot) else None)"

section \<open>Encryption and cached loading\<close>

definition INDEX_ROOT_CONTEXT :: bytes where
  "INDEX_ROOT_CONTEXT = map of_char ''omemfs:index-root:v1''"

definition index_root_name :: "(bytes \<Rightarrow> bytes \<Rightarrow> bytes) \<Rightarrow> encrypt_key \<Rightarrow> hash" where
  "index_root_name hmac key = hmac_sha256_msg hmac key INDEX_ROOT_CONTEXT"

definition index_root_path :: "(bytes \<Rightarrow> bytes \<Rightarrow> bytes) \<Rightarrow> encrypt_key option \<Rightarrow> string list" where
  "index_root_path hmac key =
     (case key of None \<Rightarrow> [''INDEX_ROOT'']
      | Some k \<Rightarrow> let hx = hex (index_root_name hmac k)
                 in [''objects'', subslice 0 2 hx, subslice 2 4 hx, subslice 4 6 hx, drop 6 hx])"

definition pseudo_hash :: "bytes \<Rightarrow> bytes" where
  "pseudo_hash nonce = nonce @ replicate 20 0"

definition decrypt_index_root_bytes :: "env \<Rightarrow> bytes \<Rightarrow> encrypt_key option \<Rightarrow> bytes result" where
  "decrypt_index_root_bytes E raw_bytes key =
     (case key of None \<Rightarrow> Inr raw_bytes
      | Some k \<Rightarrow>
          if length raw_bytes < 12 then Inl (InvalidObject ''INDEX_ROOT too short to contain nonce'')
          else decrypt E (drop 12 raw_bytes) (Some k) (pseudo_hash (take 12 raw_bytes)))"

definition encrypt_index_root_bytes ::
    "env \<Rightarrow> index_root \<Rightarrow> encrypt_key option \<Rightarrow> bytes \<Rightarrow> bytes result" where
  "encrypt_index_root_bytes E r key nonce =
     rbind (root_serialise r) (\<lambda>plaintext.
       case key of None \<Rightarrow> Inr plaintext
       | Some k \<Rightarrow> Inr (nonce @ encrypt E plaintext (Some k) (pseudo_hash nonce)))"

definition load_cached_plaintext ::
    "env \<Rightarrow> 's object_store \<Rightarrow> 's \<Rightarrow> 'l object_store \<Rightarrow> 'l \<Rightarrow> encrypt_key option \<Rightarrow> hash \<Rightarrow>
       (bytes \<times> 'l) result" where
  "load_cached_plaintext E Rem s Cache c remote_key h =
     rbind (os_exists Cache c h) (\<lambda>hit.
       if hit then rbind (os_open_read Cache c h) (\<lambda>buf. Inr (buf, c))
       else rbind (os_open_read Rem s h) (\<lambda>stored.
            rbind (decrypt E stored remote_key (raw h)) (\<lambda>plaintext.
            rbind (os_write_from Cache c h plaintext) (\<lambda>c'. Inr (plaintext, c')))))"

definition load_index_file ::
    "env \<Rightarrow> 's object_store \<Rightarrow> 's \<Rightarrow> 'l object_store \<Rightarrow> 'l \<Rightarrow> encrypt_key option \<Rightarrow> hash \<Rightarrow>
       (index_file \<times> 'l) result" where
  "load_index_file E Rem s Cache c remote_key h =
     rbind (load_cached_plaintext E Rem s Cache c remote_key h) (\<lambda>(raw_bytes, c').
     rbind (index_deserialise raw_bytes) (\<lambda>idx. Inr (idx, c')))"

section \<open>The root pointer\<close>

datatype root_token = Absent | Present bytes

definition token_for :: "bytes option \<Rightarrow> root_token" where
  "token_for current = (case current of None \<Rightarrow> Absent | Some b \<Rightarrow> Present b)"

text \<open>The state is the content of the index-root file. The compare and the write of
  \<open>cas_write\<close> happen under an exclusive lock, so they are one step.\<close>

definition root_read :: "bytes option \<Rightarrow> bytes option \<times> root_token" where
  "root_read current = (current, token_for current)"

definition cas_write :: "bytes option \<Rightarrow> root_token \<Rightarrow> bytes \<Rightarrow> bytes option result" where
  "cas_write current expected new =
     (if token_for current \<noteq> expected then Inl CasFailed else Inr (Some new))"

text \<open>
  Several clients over one pointer. A client remembers the value and the token of its last
  read, computes a new value from it and tries to write; the log records, for every write
  that succeeded, the value it was computed from and the value written.
\<close>

record world =
  current :: "bytes option"
  seen :: "nat \<Rightarrow> (bytes option \<times> root_token) option"
  commits :: "(bytes option \<times> bytes) list"

inductive cas_step :: "world \<Rightarrow> world \<Rightarrow> bool" where
  read: "cas_step w (w\<lparr>seen := (seen w)(i \<mapsto> root_read (current w))\<rparr>)"
| commit: "seen w i = Some (v, t) \<Longrightarrow> cas_write (current w) t new = Inr cur' \<Longrightarrow>
    cas_step w (w\<lparr>current := cur', seen := (seen w)(i := None), commits := commits w @ [(v, new)]\<rparr>)"
| refused: "seen w i = Some (v, t) \<Longrightarrow> cas_write (current w) t new = Inl CasFailed \<Longrightarrow>
    cas_step w (w\<lparr>seen := (seen w)(i := None)\<rparr>)"

inductive_cases cas_stepE: "cas_step w w'"

text \<open>The log read as a history from \<open>v\<close>: every write replaces the value it was
  computed from.\<close>

fun history :: "bytes option \<Rightarrow> (bytes option \<times> bytes) list \<Rightarrow> bytes option \<Rightarrow> bool" where
  "history v [] w \<longleftrightarrow> v = w"
| "history v ((u, new) # cs) w \<longleftrightarrow> u = v \<and> history (Some new) cs w"

section \<open>Lemmas\<close>

definition root_ok :: "index_root \<Rightarrow> bool" where
  "root_ok r \<longleftrightarrow> length (remote_root r) = 32 \<and> length (hot_hash r) = 32 \<and> length (bloom_hash r) = 32 \<and>
     cold_prefix_bits r \<le> MAX_COLD_PREFIX_BITS \<and> length (cold_shards r) = 2 ^ unat (cold_prefix_bits r) \<and>
     length (delta_hashes r) \<le> 65535 \<and> (\<forall>x \<in> set (delta_hashes r). length x = 32) \<and>
     (\<forall>x \<in> set (cold_shards r). length x = 32)"

lemma new_empty_ok: "root_ok new_empty"
  by (simp add: root_ok_def new_empty_def ZERO32_def MAX_COLD_PREFIX_BITS_def)

lemma cold_shard_count_small:
  "cold_prefix_bits r \<le> MAX_COLD_PREFIX_BITS \<Longrightarrow> cold_shard_count r = 2 ^ unat (cold_prefix_bits r)"
proof -
  assume "cold_prefix_bits r \<le> MAX_COLD_PREFIX_BITS"
  then have "unat (cold_prefix_bits r) \<le> 32"
    by (simp add: MAX_COLD_PREFIX_BITS_def word_le_nat_alt)
  then show ?thesis by (simp add: cold_shard_count_def)
qed

lemma root_header:
  fixes rr hh bh ds cs :: bytes and k :: u8 and n :: u16
  assumes "length rr = 32" "length hh = 32" "length bh = 32"
  defines "d \<equiv> ROOT_MAGIC @ [ROOT_VERSION] @ [0] @ rr @ hh @ bh @ [k] @ [0, 0, 0] @ u16_to_be n @
    [0, 0] @ ds @ cs"
  shows "length d = 108 + length ds + length cs" "subslice 0 2 d = ROOT_MAGIC" "d ! 2 = ROOT_VERSION"
    "subslice 4 36 d = rr" "subslice 36 68 d = hh" "subslice 68 100 d = bh" "d ! 100 = k"
    "subslice 104 106 d = u16_to_be n" "drop 108 d = ds @ cs"
  using assms(1-3) by (simp_all add: d_def ROOT_MAGIC_def subslice_def numeral_2_eq_2 nth_append)

lemma root_deserialise_serialise:
  assumes ok: "root_ok r"
  shows "\<exists>d. root_serialise r = Inr d \<and> root_deserialise d = Inr r"
proof -
  let ?n = "word_of_nat (length (delta_hashes r)) :: u16"
  let ?d = "ROOT_MAGIC @ [ROOT_VERSION] @ [0] @ remote_root r @ hot_hash r @ bloom_hash r @
    [cold_prefix_bits r] @ [0, 0, 0] @ u16_to_be ?n @ [0, 0] @
    concat (delta_hashes r) @ concat (cold_shards r)"
  have len: "length (remote_root r) = 32" "length (hot_hash r) = 32" "length (bloom_hash r) = 32"
    and lens: "length (concat (delta_hashes r)) = length (delta_hashes r) * 32"
    "length (concat (cold_shards r)) = 2 ^ unat (cold_prefix_bits r) * 32"
    using ok by (simp_all add: root_ok_def length_concat_const [of _ 32])
  have chunks: "chunks_exact 32 (concat (delta_hashes r)) = delta_hashes r"
    "chunks_exact 32 (concat (cold_shards r)) = cold_shards r"
    using ok by (simp_all add: root_ok_def chunks_exact_concat)
  have n: "unat ?n = length (delta_hashes r)"
    using ok by (simp add: root_ok_def unat_of_nat)
  have "root_deserialise ?d = Inr r"
    using ok unfolding root_deserialise_def root_header [OF len] FIXED_HEADER_LEN_def
    by (simp add: n lens chunks subslice_def Let_def root_ok_def not_less)
  with ok show ?thesis
    by (simp add: root_serialise_def cold_shard_count_small root_ok_def)
qed

lemma chunks_exact_length: "length (chunks_exact 32 (xs :: bytes)) = length xs div 32"
proof (induction "32 :: nat" xs rule: chunks_exact.induct)
  case (1 xs)
  show ?case
  proof (cases "length xs < 32")
    case True
    then show ?thesis by (subst chunks_exact.simps) simp
  next
    case False
    with "1.hyps" have "length (chunks_exact 32 (drop 32 xs)) = length (drop 32 xs) div 32" by simp
    with False show ?thesis
      by (subst chunks_exact.simps) (simp add: le_div_geq)
  qed
qed

lemma root_deserialise_ok:
  assumes "root_deserialise d = Inr r"
  shows "root_ok r \<and> 32 * length (cold_shards r) \<le> length d"
proof -
  let ?n = "unat (u16_from_be (subslice 104 106 d))"
  from assms have len: "108 \<le> length d" and b: "d ! 100 \<le> MAX_COLD_PREFIX_BITS"
    and need: "?n * 32 + 2 ^ unat (d ! 100) * 32 \<le> length d - 108"
    and r: "r = \<lparr>remote_root = subslice 4 36 d, hot_hash = subslice 36 68 d,
      bloom_hash = subslice 68 100 d, cold_prefix_bits = d ! 100,
      delta_hashes = chunks_exact 32 (take (?n * 32) (drop 108 d)),
      cold_shards = chunks_exact 32 (subslice (?n * 32) (?n * 32 + 2 ^ unat (d ! 100) * 32) (drop 108 d))\<rparr>"
    by (auto simp: root_deserialise_def FIXED_HEADER_LEN_def Let_def not_less split: if_splits)
  have "length (take (?n * 32) (drop 108 d)) = ?n * 32"
    "length (subslice (?n * 32) (?n * 32 + 2 ^ unat (d ! 100) * 32) (drop 108 d)) = 2 ^ unat (d ! 100) * 32"
    using need by simp_all
  then have l: "length (delta_hashes r) = ?n" "length (cold_shards r) = 2 ^ unat (d ! 100)"
    by (simp_all add: r chunks_exact_length)
  have "?n < 65536" by simp
  then have "?n \<le> 65535" by linarith
  moreover have "32 * length (cold_shards r) \<le> length d" using need len unfolding l by linarith
  ultimately show ?thesis
    using l b len by (simp add: root_ok_def r chunks_exact_lengths [rule_format])
qed

interpretation root_wire: wire_format root_ok root_serialise root_deserialise
proof unfold_locales
  fix r b
  assume ok: "root_ok r"
  from root_deserialise_serialise [OF this] obtain d where
    d: "root_serialise r = Inr d" "root_deserialise d = Inr r" by blast
  then show "\<exists>b. root_serialise r = Inr b" by blast
  show "root_deserialise b = Inr r" if "root_serialise r = Inr b" using d that by simp
qed (simp add: root_deserialise_ok)

lemma decrypt_encrypt_root:
  assumes "gcm_opens E" "length nonce = 12" "root_ok r"
  shows "\<exists>b. encrypt_index_root_bytes E r key nonce = Inr b \<and>
    rbind (decrypt_index_root_bytes E b key) root_deserialise = Inr r"
proof -
  from root_deserialise_serialise [OF assms(3)] obtain d where
    d: "root_serialise r = Inr d" "root_deserialise d = Inr r" by blast
  show ?thesis
    using d assms(2) decrypt_encrypt [OF assms(1), of d key]
    by (cases key) (simp_all add: encrypt_index_root_bytes_def decrypt_index_root_bytes_def)
qed

section \<open>Cached index files\<close>

context cache_over
begin

lemma load_cached_plaintext_ok:
  assumes "src_inv s" "loc_inv c" "hash_ok h"
    and src: "src_view s h = Some stored" "decrypt E stored key (raw h) = Inr x"
    and agree: "\<And>b. loc_view c h = Some b \<Longrightarrow> b = x"
  shows "\<exists>c'. load_cached_plaintext E Src s Loc c key h = Inr (x, c') \<and> loc_inv c' \<and>
    loc_view c' h = Some x \<and> (\<forall>g. hash_ok g \<longrightarrow> g \<noteq> h \<longrightarrow> loc_view c' g = loc_view c g)"
proof (cases "loc_view c h")
  case None
  from loc.write_view [OF assms(2,3) disjI1 [OF None], of x] obtain c' where
    "os_write_from Loc c h x = Inr c'" "loc_inv c'" "loc_view c' h = Some x"
    "\<forall>g. hash_ok g \<longrightarrow> g \<noteq> h \<longrightarrow> loc_view c' g = loc_view c g" using assms(3) by auto
  with None src show ?thesis
    by (simp add: load_cached_plaintext_def loc.exists_view [OF assms(2,3)]
        src.read_view [OF assms(1,3)])
next
  case (Some b)
  with agree assms(2,3) show ?thesis
    by (simp add: load_cached_plaintext_def loc.exists_view loc.read_view)
qed

end

section \<open>Histories\<close>

lemma history_append: "history v (cs @ ds) w \<longleftrightarrow> (\<exists>u. history v cs u \<and> history u ds w)"
  by (induction v cs w rule: history.induct) auto

lemma token_for_inject: "token_for a = token_for b \<longleftrightarrow> a = b"
  by (auto simp: token_for_def split: option.splits)

definition world_ok :: "bytes option \<Rightarrow> world \<Rightarrow> bool" where
  "world_ok v w \<longleftrightarrow> history v (commits w) (current w) \<and>
     (\<forall>i u t. seen w i = Some (u, t) \<longrightarrow> t = token_for u)"

lemma cas_step_ok:
  assumes "cas_step w w'" "world_ok v w"
  shows "world_ok v w'"
  using assms(1)
proof cases
  case (read i)
  with assms(2) show ?thesis by (auto simp: world_ok_def root_read_def)
next
  case (commit i u t new cur')
  with assms(2) have "t = token_for u" by (auto simp: world_ok_def)
  with commit(3) have "u = current w" "cur' = Some new"
    by (auto simp: cas_write_def token_for_inject split: if_splits)
  with assms(2) commit(1) show ?thesis by (auto simp: world_ok_def history_append)
next
  case (refused i u t new)
  with assms(2) show ?thesis by (auto simp: world_ok_def)
qed

lemma cas_steps_ok: "cas_step\<^sup>*\<^sup>* w w' \<Longrightarrow> world_ok v w \<Longrightarrow> world_ok v w'"
  by (induction rule: rtranclp_induct) (simp_all add: cas_step_ok)

section \<open>Properties\<close>

text \<open>C12: no update of the root pointer is lost: in every interleaving of clients that read,
  compute and conditionally write, each write that succeeds replaces exactly the value it
  was computed from, so the committed writes form one history that ends in the current
  value; a client whose read is out of date is refused.\<close>

theorem cas_no_lost_update:
  assumes "cas_step\<^sup>*\<^sup>* \<lparr>current = v, seen = (\<lambda>_. None), commits = []\<rparr> w"
  shows "history v (commits w) (current w) \<and>
    (\<forall>i u t new. seen w i = Some (u, t) \<longrightarrow>
       cas_write (current w) t new = (if u = current w then Inr (Some new) else Inl CasFailed))"
proof -
  have "world_ok v \<lparr>current = v, seen = (\<lambda>_. None), commits = []\<rparr>" by (simp add: world_ok_def)
  from cas_steps_ok [OF assms this] have h: "history v (commits w) (current w)"
    and t: "\<And>i u t. seen w i = Some (u, t) \<Longrightarrow> t = token_for u" by (auto simp: world_ok_def)
  have "cas_write (current w) t new = (if u = current w then Inr (Some new) else Inl CasFailed)"
    if "seen w i = Some (u, t)" for i u t new
    using t [OF that] by (simp add: cas_write_def token_for_inject eq_commute)
  with h show ?thesis by blast
qed

theorem cas_no_lost_update_witness:
  "history None [(None, [1])] (Some [1])"
proof -
  let ?w0 = "\<lparr>current = None, seen = (\<lambda>_ :: nat. None), commits = []\<rparr>"
  let ?w1 = "?w0\<lparr>seen := (seen ?w0)(0 \<mapsto> root_read (current ?w0))\<rparr>"
  let ?w2 = "?w1\<lparr>current := Some [1], seen := (seen ?w1)(0 := None), commits := commits ?w1 @ [(None, [1])]\<rparr>"
  have "cas_step ?w0 ?w1" by (rule cas_step.read)
  moreover have "cas_step ?w1 ?w2"
    by (rule cas_step.commit [of _ _ _ Absent]) (simp_all add: root_read_def token_for_def cas_write_def)
  ultimately have "cas_step\<^sup>*\<^sup>* ?w0 ?w2" by (meson converse_rtranclp_into_rtranclp rtranclp.rtrancl_refl)
  from cas_no_lost_update [OF this] show ?thesis by simp
qed

text \<open>An index root survives its encrypted form: for every well-formed root and nonce the
  written bytes exist, and decrypting and parsing them gives the root back.\<close>

theorem index_root_roundtrip:
  assumes "gcm_opens E" and "length nonce = 12" and "root_ok r"
  shows "\<exists>b. encrypt_index_root_bytes E r key nonce = Inr b \<and>
    rbind (decrypt_index_root_bytes E b key) root_deserialise = Inr r"
  by (rule decrypt_encrypt_root [OF assms])

theorem index_root_roundtrip_witness:
  "\<exists>b. encrypt_index_root_bytes toy_env new_empty (Some [1]) (replicate 12 3) = Inr b \<and>
     rbind (decrypt_index_root_bytes toy_env b (Some [1])) root_deserialise = Inr new_empty"
  using index_root_roundtrip [OF toy_env_ok(2) _ new_empty_ok, of "replicate 12 3" "Some [1]"] by simp

text \<open>An index root that a hostile remote supplies is either refused or well-formed: its
  shard array has exactly the size its prefix width announces, which the bytes received
  bound, so that every slot index of that width is in range; and it can be written again.\<close>

theorem index_root_accepted_sound:
  assumes "root_deserialise d = Inr r"
  shows "length (cold_shards r) = 2 ^ unat (cold_prefix_bits r) \<and> unat (cold_prefix_bits r) \<le> 32 \<and>
    32 * length (cold_shards r) \<le> length d \<and>
    (\<exists>d'. root_serialise r = Inr d' \<and> root_deserialise d' = Inr r)"
  using root_deserialise_ok [OF assms] root_wire.stable [OF assms]
  by (auto simp: root_ok_def MAX_COLD_PREFIX_BITS_def word_le_nat_alt)

theorem index_root_accepted_sound_witness:
  "\<exists>d. root_serialise new_empty = Inr d \<and> 32 * length (cold_shards new_empty) \<le> length d"
proof -
  from root_deserialise_serialise [OF new_empty_ok] obtain d where
    d: "root_serialise new_empty = Inr d" "root_deserialise d = Inr new_empty" by blast
  from index_root_accepted_sound [OF d(2)] d(1) show ?thesis by blast
qed

text \<open>Loading an index file through the cache returns what the remote holds and leaves
  it in the cache, from which the next load is served whatever the remote then is.\<close>

theorem load_index_file_cached:
  assumes "backend_ok s" and "backend_ok c" and "hash_ok h" and "keys_apart hmac key" and "gcm_opens E"
    and "index_ok idx" and "index_serialise idx = Inr plain"
    and "os_open_read (local_store hmac key) s h = Inr (encrypt E plain key (raw h))"
    and "os_exists (local_store hmac None) c h = Inr False"
  shows "\<exists>c'. load_index_file E (local_store hmac key) s (local_store hmac None) c key h = Inr (idx, c') \<and>
    backend_ok c' \<and>
    (\<forall>s'. load_index_file E (local_store hmac key) s' (local_store hmac None) c' key h = Inr (idx, c'))"
proof -
  have none: "keys_apart hmac None" by (simp add: keys_apart_def)
  note L = keys_apart_laws [OF assms(4)] and P = keys_apart_laws [OF none]
  note cache = cache_over.intro [OF L P]
  have v: "backend_view s (hex (storage_key hmac key h)) = Some (encrypt E plain key (raw h))"
    using store_laws.read_view [OF L assms(1,3)] assms(8) by (simp add: ok_or_def split: option.splits)
  have n: "backend_view c (hex (storage_key hmac None h)) = None"
    using store_laws.exists_view [OF P assms(2,3)] assms(9) by simp
  from cache_over.load_cached_plaintext_ok [OF cache assms(1-3) v decrypt_encrypt [OF assms(5)]] n
  obtain c' where c': "load_cached_plaintext E (local_store hmac key) s (local_store hmac None) c key h
      = Inr (plain, c')" "backend_ok c'" "backend_view c' (hex (storage_key hmac None h)) = Some plain"
    by auto
  have i: "index_deserialise plain = Inr idx" using index_wire.roundtrip [OF assms(6,7)] .
  have "load_cached_plaintext E (local_store hmac key) s' (local_store hmac None) c' key h
      = Inr (plain, c')" for s'
    using store_laws.exists_view [OF P c'(2) assms(3)] store_laws.read_view [OF P c'(2) assms(3)] c'(3)
    by (simp add: load_cached_plaintext_def)
  with c' i show ?thesis by (auto simp: load_index_file_def)
qed

theorem load_index_file_cached_witness:
  "\<exists>plain c'. index_serialise [Standalone toy_hash] = Inr plain \<and>
     load_index_file toy_env (local_store toy_hmac None)
       (RemoteB [(the (expected_path (hex toy_hash)), plain)]) (local_store toy_hmac None) (LocalB empty_dir)
       None toy_hash = Inr ([Standalone toy_hash], c')"
proof -
  have ok: "index_ok [Standalone toy_hash]" by (simp add: index_ok_def entry_ok_def)
  from index_wire.ser_total [OF ok] obtain plain where p: "index_serialise [Standalone toy_hash] = Inr plain" ..
  let ?s = "RemoteB [(the (expected_path (hex toy_hash)), plain)]"
  have len: "length (hex toy_hash) = 64" using toy_hash_ok by (simp add: hash_ok_def)
  have r: "os_open_read (local_store toy_hmac None) ?s toy_hash = Inr (encrypt toy_env plain None (raw toy_hash))"
    using len by (simp add: local_store_def store_with_keys_def storage_key_def backend_open_read_def
        remote_find_def expected_path_def encrypt_def)
  have e: "os_exists (local_store toy_hmac None) (LocalB empty_dir) toy_hash = Inr False" by code_simp
  have b: "backend_ok ?s" "backend_ok (LocalB empty_dir)" using shard_ok_cases [of 64 empty_dir] by simp_all
  from load_index_file_cached [OF b toy_hash_ok toy_keys_apart toy_env_ok(2) ok p r e] p show ?thesis by blast
qed

end
