(* ===== verification/Bloom.thy ===== *)
theory Bloom
  imports Objects
begin

text \<open>
  The Bloom filter of the pack layer (\<open>src/src/codec/pack/bloom.rs\<close>): its sizing, its
  bit operations and its wire format. The formula \<open>optimal_num_bits\<close> is computed in
  \<open>f64\<close>; the number of bits it gives is the parameter \<open>opt_bits\<close>. The counter
  \<open>element_count\<close> wraps, as in a release build.
\<close>

section \<open>Sizing\<close>

definition MIN_CAPACITY :: nat where "MIN_CAPACITY = 100000"
definition MAX_CAPACITY :: nat where "MAX_CAPACITY = 100000000"
definition DEFAULT_NUM_HASH_FUNCTIONS :: u8 where "DEFAULT_NUM_HASH_FUNCTIONS = 7"

definition clamp :: "nat \<Rightarrow> nat \<Rightarrow> nat \<Rightarrow> nat" where
  "clamp lo hi x = (if x < lo then lo else if hi < x then hi else x)"

definition checked_mul :: "nat \<Rightarrow> nat \<Rightarrow> nat option" where
  "checked_mul a b = (if a * b < 2 ^ 64 then Some (a * b) else None)"

text \<open>The loop of \<open>ladder_ceil\<close>; its variable \<open>power\<close> is \<open>10 ^ k\<close>.\<close>

definition ladder_step :: "nat \<Rightarrow> nat \<Rightarrow> nat option" where
  "ladder_step pw v =
     find (\<lambda>candidate. v \<le> candidate) (List.map_filter (\<lambda>step. checked_mul step pw) [1, 2, 5])"

function ladder_loop :: "nat \<Rightarrow> nat \<Rightarrow> nat" where
  "ladder_loop k v =
     (case ladder_step (10 ^ k) v of
        Some candidate \<Rightarrow> candidate
      | None \<Rightarrow>
          (case checked_mul (10 ^ k) 10 of
             Some _ \<Rightarrow> ladder_loop (Suc k) v
           | None \<Rightarrow> (case checked_mul 5 (10 ^ k) of Some c \<Rightarrow> c | None \<Rightarrow> 2 ^ 64 - 1)))"
  by pat_completeness auto
termination
proof (relation "measure (\<lambda>(k, v). 20 - k)")
  fix k v x :: nat
  assume "checked_mul (10 ^ k) 10 = Some x"
  then have lt: "(10 :: nat) ^ Suc k < 2 ^ 64" by (simp add: checked_mul_def split: if_splits)
  have "k < 20"
  proof (rule ccontr)
    assume "\<not> k < 20"
    then have "(10 :: nat) ^ 20 \<le> 10 ^ Suc k" by (intro power_increasing) simp_all
    with lt show False by simp
  qed
  then show "((Suc k, v), k, v) \<in> measure (\<lambda>(k, v). 20 - k)" by simp
qed simp

declare ladder_loop.simps [simp del]

definition ladder_ceil :: "nat \<Rightarrow> nat" where
  "ladder_ceil v = (if v = 0 then 0 else ladder_loop 0 v)"

definition capacity_for :: "nat \<Rightarrow> nat" where
  "capacity_for element_count =
     (let n = clamp 1 MAX_CAPACITY element_count;
          margin = n * 3 div 2
      in clamp MIN_CAPACITY MAX_CAPACITY (ladder_ceil margin))"

section \<open>The filter\<close>

record bloom =
  num_hash_functions :: u8
  num_bits :: u64
  element_count :: u64
  bits :: bytes

definition bytes_for :: "u64 \<Rightarrow> nat" where
  "bytes_for m = (unat m + 7) div 8"

definition bloom_new :: "u64 \<Rightarrow> u8 \<Rightarrow> bloom" where
  "bloom_new m k = \<lparr>num_hash_functions = k, num_bits = m, element_count = 0,
     bits = replicate (bytes_for m) 0\<rparr>"

definition from_parts :: "u8 \<Rightarrow> u64 \<Rightarrow> u64 \<Rightarrow> bytes \<Rightarrow> bloom result" where
  "from_parts k m n bs =
     (if length bs \<noteq> bytes_for m then Inl (InvalidObject ''Bloom filter bits length'')
      else Inr \<lparr>num_hash_functions = k, num_bits = m, element_count = n, bits = bs\<rparr>)"

definition structural_defect :: "bloom \<Rightarrow> string option" where
  "structural_defect bf =
     (if num_bits bf = 0 then Some ''num_bits == 0''
      else if num_hash_functions bf = 0 then Some ''num_hash_functions == 0''
      else None)"

definition bf_set_bit :: "bytes \<Rightarrow> u64 \<Rightarrow> bytes" where
  "bf_set_bit bs index =
     (let byte = unat (index div 8); b = unat (index mod 8)
      in bs[byte := bs ! byte OR push_bit b 1])"

definition bf_get_bit :: "bytes \<Rightarrow> u64 \<Rightarrow> bool" where
  "bf_get_bit bs index =
     (let byte = unat (index div 8); b = unat (index mod 8)
      in drop_bit b (bs ! byte) AND 1 = 1)"

definition bit_index :: "bytes \<Rightarrow> u8 \<Rightarrow> u64 \<Rightarrow> u64" where
  "bit_index hash_bytes k m =
     (let h1 = u64_from_le (subslice 0 8 hash_bytes);
          h2 = u64_from_le (subslice 8 16 hash_bytes)
      in (h1 + ucast k * h2) mod m)"

text \<open>The rounds \<open>0..num_hash_functions\<close>.\<close>

definition rounds :: "bloom \<Rightarrow> u8 list" where
  "rounds bf = map word_of_nat [0..<unat (num_hash_functions bf)]"

definition bloom_insert :: "bloom \<Rightarrow> hash \<Rightarrow> bloom" where
  "bloom_insert bf h =
     (if num_bits bf = 0 then bf
      else bf\<lparr>bits := foldl bf_set_bit (bits bf)
                (map (\<lambda>i. bit_index (raw h) i (num_bits bf)) (rounds bf)),
              element_count := element_count bf + 1\<rparr>)"

definition may_contain :: "bloom \<Rightarrow> hash \<Rightarrow> bool" where
  "may_contain bf h =
     (if num_bits bf = 0 then True
      else list_all (\<lambda>i. bf_get_bit (bits bf) (bit_index (raw h) i (num_bits bf))) (rounds bf))"

definition sized_for :: "(nat \<Rightarrow> u64) \<Rightarrow> nat \<Rightarrow> bloom" where
  "sized_for opt_bits n =
     (let bf = bloom_new (opt_bits (capacity_for n)) DEFAULT_NUM_HASH_FUNCTIONS
      in if 1 \<le> num_bits bf then bf
         else \<lparr>num_hash_functions = DEFAULT_NUM_HASH_FUNCTIONS, num_bits = 1, element_count = 0,
               bits = [0]\<rparr>)"

section \<open>Wire format\<close>

definition BLOOM_MAGIC :: bytes where "BLOOM_MAGIC = [0xED, 0xE4]"
definition BLOOM_VERSION :: u8 where "BLOOM_VERSION = 1"
definition BLOOM_HEADER_LEN :: nat where "BLOOM_HEADER_LEN = 20"

definition bloom_serialise :: "bloom \<Rightarrow> bytes" where
  "bloom_serialise bf =
     BLOOM_MAGIC @ [BLOOM_VERSION] @ [num_hash_functions bf] @ u64_to_be (num_bits bf) @
     u64_to_be (element_count bf) @ bits bf"

definition bloom_deserialise :: "bytes \<Rightarrow> bloom result" where
  "bloom_deserialise data =
     (if length data < BLOOM_HEADER_LEN then Inl (InvalidObject ''Bloom filter too short'')
      else if subslice 0 2 data \<noteq> BLOOM_MAGIC then Inl (InvalidObject ''Bloom filter bad magic'')
      else if data ! 2 \<noteq> BLOOM_VERSION then Inl (InvalidObject ''Bloom filter unknown version'')
      else let k = data ! 3;
               m = u64_from_be (subslice 4 12 data);
               n = u64_from_be (subslice 12 20 data)
           in if length data \<noteq> BLOOM_HEADER_LEN + bytes_for m
              then Inl (InvalidObject ''Bloom filter bits size mismatch'')
              else from_parts k m n (drop BLOOM_HEADER_LEN data))"

section \<open>Lemmas on bits\<close>

definition bloom_ok :: "bloom \<Rightarrow> bool" where
  "bloom_ok bf \<longleftrightarrow> length (bits bf) = bytes_for (num_bits bf)"

lemma length_set_bit [simp]: "length (bf_set_bit bs i) = length bs"
  by (simp add: bf_set_bit_def Let_def)

lemma bf_get_bit_iff: "bf_get_bit bs i \<longleftrightarrow> bit (bs ! unat (i div 8)) (unat (i mod 8))"
  by (simp add: bf_get_bit_def Let_def bit_iff_odd_drop_bit and_one_eq odd_iff_mod_2_eq_one)

lemma bf_get_set:
  assumes "unat i < 8 * length bs"
  shows "bf_get_bit (bf_set_bit bs i) j \<longleftrightarrow> i = j \<or> bf_get_bit bs j"
proof -
  have b: "unat (i mod 8) < 8" for i :: u64 by (simp add: unat_mod)
  have byte: "unat (i div 8) < length bs" using assms by (simp add: unat_div)
  show ?thesis
  proof (cases "unat (i div 8) = unat (j div 8)")
    case True
    have "unat (i mod 8) = unat (j mod 8) \<longleftrightarrow> i = j"
      using True by (metis word_unat_eq_iff div_mult_mod_eq)
    with True byte b [of j] show ?thesis
      by (auto simp: bf_get_bit_iff bf_set_bit_def Let_def bit_or_iff bit_exp_iff)
  next
    case False
    then show ?thesis by (auto simp: bf_get_bit_iff bf_set_bit_def Let_def)
  qed
qed

lemma bit_index_bound: "m \<noteq> 0 \<Longrightarrow> unat (bit_index hb k m) < 8 * bytes_for m"
proof -
  assume "m \<noteq> 0"
  then have "bit_index hb k m < m" by (simp add: bit_index_def Let_def word_mod_less_divisor word_gt_0)
  then have "unat (bit_index hb k m) < unat m" by (simp add: word_less_nat_alt)
  also have "\<dots> \<le> 8 * bytes_for m" by (simp add: bytes_for_def)
  finally show ?thesis .
qed

lemma set_bits_bit:
  assumes "\<forall>i \<in> set is. unat i < 8 * length bs"
  shows "bf_get_bit (foldl bf_set_bit bs is) j \<longleftrightarrow> j \<in> set is \<or> bf_get_bit bs j"
  using assms
proof (induction "is" arbitrary: bs)
  case (Cons i "is")
  then have "bf_get_bit (foldl bf_set_bit (bf_set_bit bs i) is) j \<longleftrightarrow>
      j \<in> set is \<or> bf_get_bit (bf_set_bit bs i) j" by simp
  with Cons.prems show ?case by (auto simp: bf_get_set)
qed simp

lemma length_foldl_set_bit [simp]: "length (foldl bf_set_bit bs is) = length bs"
  by (induction "is" arbitrary: bs) simp_all

lemma bloom_insert_ok: "bloom_ok bf \<Longrightarrow> bloom_ok (bloom_insert bf h)"
  by (simp add: bloom_ok_def bloom_insert_def)

lemma bloom_insert_fields [simp]:
  "num_bits (bloom_insert bf h) = num_bits bf"
  "num_hash_functions (bloom_insert bf h) = num_hash_functions bf"
  "rounds (bloom_insert bf h) = rounds bf"
  by (simp_all add: bloom_insert_def rounds_def)

lemma bloom_insert_bit:
  assumes "bloom_ok bf" "num_bits bf \<noteq> 0"
  shows "bf_get_bit (bits (bloom_insert bf h)) j \<longleftrightarrow>
    j \<in> (\<lambda>i. bit_index (raw h) i (num_bits bf)) ` set (rounds bf) \<or> bf_get_bit (bits bf) j"
proof -
  have "\<forall>i \<in> set (map (\<lambda>i. bit_index (raw h) i (num_bits bf)) (rounds bf)).
      unat i < 8 * length (bits bf)"
    using assms bit_index_bound by (simp add: bloom_ok_def)
  from set_bits_bit [OF this, of j] assms(2) show ?thesis
    by (simp add: bloom_insert_def)
qed

lemma may_contain_insert: "bloom_ok bf \<Longrightarrow> may_contain (bloom_insert bf h) h"
  by (simp add: may_contain_def list_all_iff bloom_insert_bit)

lemma may_contain_insert_mono:
  "bloom_ok bf \<Longrightarrow> may_contain bf g \<Longrightarrow> may_contain (bloom_insert bf h) g"
  by (simp add: may_contain_def list_all_iff bloom_insert_bit split: if_splits)

lemma may_contain_foldl_mono:
  "bloom_ok bf \<Longrightarrow> may_contain bf g \<Longrightarrow>
     bloom_ok (foldl bloom_insert bf hs) \<and> may_contain (foldl bloom_insert bf hs) g"
  by (induction hs arbitrary: bf) (simp_all add: bloom_insert_ok may_contain_insert_mono)

lemma bloom_foldl_ok: "bloom_ok bf \<Longrightarrow> bloom_ok (foldl bloom_insert bf hs)"
  by (induction hs arbitrary: bf) (simp_all add: bloom_insert_ok)

lemma may_contain_foldl:
  "bloom_ok bf \<Longrightarrow> h \<in> set hs \<Longrightarrow> may_contain (foldl bloom_insert bf hs) h"
proof (induction hs arbitrary: bf)
  case (Cons g hs)
  then show ?case
    using may_contain_foldl_mono [OF bloom_insert_ok may_contain_insert, of bf g hs]
    by (auto simp: bloom_insert_ok)
qed simp

section \<open>Wire format lemmas\<close>

lemma bloom_header:
  fixes m n :: u64 and k :: u8 and bs :: bytes
  defines "d \<equiv> BLOOM_MAGIC @ [BLOOM_VERSION] @ [k] @ u64_to_be m @ u64_to_be n @ bs"
  shows "length d = 20 + length bs" "subslice 0 2 d = BLOOM_MAGIC" "d ! 2 = BLOOM_VERSION"
    "d ! 3 = k" "subslice 4 12 d = u64_to_be m" "subslice 12 20 d = u64_to_be n" "drop 20 d = bs"
  by (simp_all add: d_def BLOOM_MAGIC_def subslice_def numeral_2_eq_2 numeral_3_eq_3)

lemma bloom_deserialise_serialise:
  "bloom_ok bf \<Longrightarrow> bloom_deserialise (bloom_serialise bf) = Inr bf"
  unfolding bloom_serialise_def bloom_deserialise_def BLOOM_HEADER_LEN_def bloom_header
  by (simp add: bloom_ok_def from_parts_def)

lemma bloom_deserialise_ok:
  assumes "bloom_deserialise d = Inr bf"
  shows "bloom_ok bf"
  using assms by (auto simp: bloom_deserialise_def Let_def from_parts_def bloom_ok_def split: if_splits)

interpretation bloom: wire_format bloom_ok "\<lambda>bf. Inr (bloom_serialise bf) :: unit + bytes"
  bloom_deserialise
  by unfold_locales (auto simp: bloom_deserialise_serialise dest: bloom_deserialise_ok)

section \<open>Sizing lemmas\<close>

lemma ladder_step_SomeD:
  "ladder_step pw v = Some c \<Longrightarrow> v \<le> c \<and> pw \<le> c \<and> c \<le> 5 * pw \<and> c < 2 ^ 64"
  by (auto simp: ladder_step_def checked_mul_def List.map_filter_def split: if_splits)

lemma ladder_step_mono:
  "v \<le> w \<Longrightarrow> ladder_step pw w = Some d \<Longrightarrow> \<exists>c. ladder_step pw v = Some c \<and> c \<le> d"
  by (auto simp: ladder_step_def checked_mul_def List.map_filter_def split: if_splits)

lemma ladder_loop_low: "(10 :: nat) ^ k < 2 ^ 64 \<Longrightarrow> 10 ^ k \<le> ladder_loop k v"
proof (induction k v rule: ladder_loop.induct)
  case (1 k v)
  show ?case
    using "1.IH" "1.prems" ladder_step_SomeD [of "10 ^ k" v]
    by (subst ladder_loop.simps)
      (auto simp: checked_mul_def split: option.splits if_splits intro: order_trans)
qed

lemma ladder_loop_mono:
  "(10 :: nat) ^ k < 2 ^ 64 \<Longrightarrow> v \<le> w \<Longrightarrow> ladder_loop k v \<le> ladder_loop k w"
proof (induction k w arbitrary: v rule: ladder_loop.induct)
  case (1 k w)
  show ?case
  proof (cases "ladder_step (10 ^ k) w")
    case (Some d)
    with ladder_step_mono [OF "1.prems"(2) Some] show ?thesis
      by (subst (1 2) ladder_loop.simps) auto
  next
    case None
    have up: "c \<le> ladder_loop k w" if "ladder_step (10 ^ k) v = Some c" for c
    proof (cases "checked_mul (10 ^ k) 10")
      case (Some x)
      then have "(10 :: nat) ^ Suc k \<le> ladder_loop (Suc k) w"
        by (intro ladder_loop_low) (simp add: checked_mul_def split: if_splits)
      with ladder_step_SomeD [OF that] None Some show ?thesis
        by (subst ladder_loop.simps) simp
    next
      case none: None
      with ladder_step_SomeD [OF that] None show ?thesis
        by (subst ladder_loop.simps) (auto simp: checked_mul_def split: if_splits)
    qed
    show ?thesis
    proof (cases "ladder_step (10 ^ k) v")
      case (Some c)
      with up [OF Some] show ?thesis by (subst ladder_loop.simps) simp
    next
      case vnone: None
      show ?thesis
      proof (cases "checked_mul (10 ^ k) 10")
        case (Some x)
        then have "(10 :: nat) ^ Suc k < 2 ^ 64" by (simp add: checked_mul_def split: if_splits)
        with "1.IH" [OF None Some this "1.prems"(2)] None vnone Some show ?thesis
          by (subst (1 2) ladder_loop.simps) simp
      qed (use None vnone in \<open>subst (1 2) ladder_loop.simps, simp\<close>)
    qed
  qed
qed

lemma ladder_overflow:
  assumes "checked_mul (10 ^ k) 10 = None"
  shows "checked_mul 5 (10 ^ k) = None"
proof -
  from assms have big: "\<not> (10 :: nat) ^ Suc k < 2 ^ 64" by (simp add: checked_mul_def split: if_splits)
  have "19 \<le> k"
  proof (rule ccontr)
    assume "\<not> 19 \<le> k"
    then have "(10 :: nat) ^ Suc k \<le> 10 ^ 19" by (intro power_increasing) simp_all
    with big show False by simp
  qed
  then have "(10 :: nat) ^ 19 \<le> 10 ^ k" by (intro power_increasing) simp_all
  then show ?thesis by (simp add: checked_mul_def)
qed

lemma ladder_loop_ge: "v < 2 ^ 64 \<Longrightarrow> v \<le> ladder_loop k v"
proof (induction k v rule: ladder_loop.induct)
  case (1 k v)
  show ?case
  proof (cases "ladder_step (10 ^ k) v")
    case (Some c)
    with ladder_step_SomeD [OF Some] show ?thesis by (subst ladder_loop.simps) simp
  next
    case none: None
    show ?thesis
    proof (cases "checked_mul (10 ^ k) 10")
      case None
      with none "1.prems" show ?thesis
        by (subst ladder_loop.simps) (simp add: ladder_overflow)
    next
      case (Some x)
      with none "1.IH" [OF none Some "1.prems"] show ?thesis by (subst ladder_loop.simps) simp
    qed
  qed
qed

lemma clamp_mono: "x \<le> y \<Longrightarrow> lo \<le> hi \<Longrightarrow> clamp lo hi x \<le> clamp lo hi y"
  and clamp_bounds: "lo \<le> hi \<Longrightarrow> lo \<le> clamp lo hi x \<and> clamp lo hi x \<le> hi"
  by (simp_all add: clamp_def)

lemma ladder_ceil_mono: "v \<le> w \<Longrightarrow> ladder_ceil v \<le> ladder_ceil w"
  using ladder_loop_mono [of 0 v w] by (simp add: ladder_ceil_def)

section \<open>Properties\<close>

text \<open>The capacity of a filter is always within the fixed bounds, never decreases when the
  element count grows, and leaves room for half as many elements again up to the upper
  bound, for every count that a hostile filter could claim.\<close>

theorem capacity_for_bounds:
  "MIN_CAPACITY \<le> capacity_for n \<and> capacity_for n \<le> MAX_CAPACITY \<and>
   capacity_for n \<le> capacity_for (n + d) \<and> min (n * 3 div 2) MAX_CAPACITY \<le> capacity_for n"
proof -
  have mm: "(1 :: nat) \<le> MAX_CAPACITY" "MIN_CAPACITY \<le> MAX_CAPACITY"
    by (simp_all add: MAX_CAPACITY_def MIN_CAPACITY_def)
  let ?c = "clamp 1 MAX_CAPACITY"
  have "?c n * 3 div 2 \<le> ?c (n + d) * 3 div 2"
    by (intro div_le_mono mult_le_mono1 clamp_mono) (use mm in simp_all)
  then have mono: "capacity_for n \<le> capacity_for (n + d)"
    unfolding capacity_for_def Let_def by (intro clamp_mono ladder_ceil_mono mm(2))
  have n: "min n MAX_CAPACITY \<le> ?c n" "?c n \<le> MAX_CAPACITY" "1 \<le> ?c n"
    using mm by (auto simp: clamp_def)
  then have small: "?c n * 3 div 2 < 2 ^ 64" "?c n * 3 div 2 \<noteq> 0" by (auto simp: MAX_CAPACITY_def)
  with ladder_loop_ge [OF small(1), of 0] have "?c n * 3 div 2 \<le> ladder_ceil (?c n * 3 div 2)"
    by (simp add: ladder_ceil_def)
  moreover have "min (n * 3 div 2) MAX_CAPACITY \<le> ?c n * 3 div 2"
    using n(1) by (auto simp: min_def split: if_splits intro: div_le_mono)
  ultimately have "min (n * 3 div 2) MAX_CAPACITY \<le> capacity_for n"
    unfolding capacity_for_def Let_def clamp_def by auto
  with mono clamp_bounds [OF mm(2)] show ?thesis
    unfolding capacity_for_def Let_def by blast
qed

text \<open>C30: the filter has no false negatives: whatever is inserted, in whatever order and into
  whatever filter was loaded, is reported as possibly present, also after the filter has
  been written and read again.\<close>

theorem bloom_no_false_negatives:
  assumes "bloom_deserialise d = Inr bf" and "h \<in> set hs"
  shows "\<exists>bf'. bloom_deserialise (bloom_serialise (foldl bloom_insert bf hs)) = Inr bf' \<and>
    may_contain bf' h \<and> (\<forall>g. may_contain bf g \<longrightarrow> may_contain bf' g)"
proof -
  have ok: "bloom_ok bf" using assms(1) by (rule bloom.des_wf)
  have "bloom_deserialise (bloom_serialise (foldl bloom_insert bf hs)) = Inr (foldl bloom_insert bf hs)"
    by (rule bloom.roundtrip [OF bloom_foldl_ok [OF ok]]) simp
  with may_contain_foldl [OF ok assms(2)] may_contain_foldl_mono [OF ok] show ?thesis by blast
qed

theorem bloom_no_false_negatives_witness:
  "\<exists>bf. bloom_deserialise (bloom_serialise (bloom_new 64 7)) = Inr bf \<and>
     (\<exists>bf'. bloom_deserialise (bloom_serialise (bloom_insert bf (from_bytes (replicate 32 9)))) = Inr bf' \<and>
        may_contain bf' (from_bytes (replicate 32 9)))"
proof -
  have d: "bloom_deserialise (bloom_serialise (bloom_new 64 7)) = Inr (bloom_new 64 7)"
    by (rule bloom_deserialise_serialise) (simp add: bloom_ok_def bloom_new_def)
  from bloom_no_false_negatives [OF d, of "from_bytes (replicate 32 9)" "[from_bytes (replicate 32 9)]"] d
  show ?thesis by auto
qed

text \<open>A fresh filter is always structurally sound and empty, whatever number of bits the
  sizing formula gives, so its lookups never divide by zero.\<close>

theorem sized_for_sound:
  "structural_defect (sized_for opt_bits n) = None \<and> bloom_ok (sized_for opt_bits n) \<and>
   element_count (sized_for opt_bits n) = 0 \<and> set (bits (sized_for opt_bits n)) \<subseteq> {0}"
  by (auto simp: sized_for_def structural_defect_def bloom_ok_def bloom_new_def bytes_for_def Let_def
      DEFAULT_NUM_HASH_FUNCTIONS_def)

lemma bloom_serialise_deserialise:
  assumes "bloom_deserialise d = Inr bf"
  shows "bloom_serialise bf = d"
proof -
  from assms have len: "20 \<le> length d" and magic: "subslice 0 2 d = BLOOM_MAGIC"
    and ver: "d ! 2 = BLOOM_VERSION"
    and bf: "bf = \<lparr>num_hash_functions = d ! 3, num_bits = u64_from_be (subslice 4 12 d),
      element_count = u64_from_be (subslice 12 20 d), bits = drop 20 d\<rparr>"
    by (auto simp: bloom_deserialise_def BLOOM_HEADER_LEN_def Let_def from_parts_def split: if_splits)
  have "d = subslice 0 2 d @ drop 2 d" using drop_subslice [of 0 2 d] by simp
  also have "drop 2 d = [d ! 2] @ drop 3 d" using drop_nth [of 2 d] len by simp
  also have "drop 3 d = [d ! 3] @ drop 4 d" using drop_nth [of 3 d] len by simp
  also have "drop 4 d = subslice 4 12 d @ drop 12 d" by (rule drop_subslice) simp
  also have "drop 12 d = subslice 12 20 d @ drop 20 d" by (rule drop_subslice) simp
  finally show ?thesis
    using len by (simp add: bloom_serialise_def bf magic ver be_word_inverse)
qed

text \<open>The wire format is canonical: parsing inverts serialising for every filter whose bit
  array has the length its header announces, and an accepted byte string is the
  serialisation of the filter it yields and of no other.\<close>

theorem bloom_parse_iff:
  "bloom_deserialise d = Inr bf \<longleftrightarrow> bloom_serialise bf = d \<and> length (bits bf) = (unat (num_bits bf) + 7) div 8"
  using bloom_deserialise_serialise [of bf] bloom_serialise_deserialise [of d bf] bloom_deserialise_ok [of d bf]
  by (auto simp: bloom_ok_def bytes_for_def)

end
