(* ===== verification/PackIndex.thy ===== *)
theory PackIndex
  imports IndexRoot Bloom
begin

text \<open>
  What the pack writer and the pack reader share: the remote they work on, the resident and
  on-disk caches of index files (\<open>load_index_file\<close> of
  \<open>src/src/codec/pack/reader.rs\<close> and of \<open>writer.rs\<close>, which have the same body),
  the addressing of cold shards, and the search through index files in order.

  Concurrent first loads of one index file are serialised by a mutex in the code, so a load
  is one step here. An operation that fails returns its error alone.
\<close>

section \<open>The remote and the index caches\<close>

text \<open>The store operations of the remote, its key, the crates of the codec and the
  floating-point sizing formula of fresh Bloom filters.\<close>

record 's pack_ctx =
  cx_env :: env
  cx_ops :: "'s object_store"
  cx_key :: "encrypt_key option"
  cx_opt_bits :: "nat \<Rightarrow> u64"

text \<open>A cache directory of the repository: a \<open>LocalStore\<close> without a key.\<close>

definition cache_store :: "objects_backend object_store" where
  "cache_store = store_with_keys (\<lambda>h. h)"

definition cache_size :: "objects_backend \<Rightarrow> hash \<Rightarrow> nat result" where
  "cache_size b h =
     (case backend_size b (hex h) of Inl e \<Rightarrow> Inl (relabel_not_found e h) | Inr n \<Rightarrow> Inr n)"

record index_cache =
  ic_indexes :: "hash \<Rightarrow> index_file option"
  ic_objcache :: objects_backend

definition load_resident_index ::
    "'s pack_ctx \<Rightarrow> 's \<Rightarrow> hash \<Rightarrow> index_cache \<Rightarrow> (index_file \<times> index_cache) result" where
  "load_resident_index cx s h c =
     (case ic_indexes c h of
        Some idx \<Rightarrow> Inr (idx, c)
      | None \<Rightarrow>
          rbind (load_index_file (cx_env cx) (cx_ops cx) s cache_store (ic_objcache c) (cx_key cx) h)
            (\<lambda>(idx, oc). Inr (idx, \<lparr>ic_indexes = (ic_indexes c)(h \<mapsto> idx), ic_objcache = oc\<rparr>)))"

section \<open>Cold shard addressing\<close>

definition hash_prefix :: "hash \<Rightarrow> nat \<Rightarrow> nat" where
  "hash_prefix h nbits =
     (let bs = raw h; byte_idx = nbits div 8; bit_offset = nbits mod 8;
          v = foldl (\<lambda>v byte. push_bit 8 v OR ucast byte) (0 :: u64) (take (min byte_idx (length bs)) bs)
      in unat (if bit_offset = 0 then v
               else if byte_idx < length bs
               then push_bit bit_offset v OR ucast (drop_bit (8 - bit_offset) (bs ! byte_idx))
               else v))"

definition cold_shard_hash_for :: "hash \<Rightarrow> index_root \<Rightarrow> hash option" where
  "cold_shard_hash_for h ir =
     (let prefix_bits = unat (cold_prefix_bits ir)
      in if 0 < prefix_bits then cold_shard_hash ir (hash_prefix h prefix_bits)
         else if cold_shards ir \<noteq> [] then cold_shard_hash ir 0
         else None)"

section \<open>Searching index files in order\<close>

text \<open>The loops over the delta files and the tests of the hot index and the cold shard: the
  files are searched in order, and none is loaded after a hit.\<close>

fun search_indexes ::
    "'s pack_ctx \<Rightarrow> 's \<Rightarrow> hash \<Rightarrow> hash list \<Rightarrow> index_cache \<Rightarrow> (index_entry option \<times> index_cache) result" where
  "search_indexes cx s h [] c = Inr (None, c)"
| "search_indexes cx s h (n # ns) c =
     rbind (load_resident_index cx s n c) (\<lambda>(idx, c').
       case index_find idx h of
         Some e \<Rightarrow> Inr (Some e, c')
       | None \<Rightarrow> search_indexes cx s h ns c')"

text \<open>The delta files, newest first, then the hot index.\<close>

definition recent_indexes :: "index_root \<Rightarrow> hash list" where
  "recent_indexes ir =
     delta_hashes_as_hashes ir @ (case hot_hash_opt ir of None \<Rightarrow> [] | Some n \<Rightarrow> [n])"

definition indexes_for :: "hash \<Rightarrow> index_root \<Rightarrow> hash list" where
  "indexes_for h ir =
     recent_indexes ir @ (case cold_shard_hash_for h ir of None \<Rightarrow> [] | Some n \<Rightarrow> [n])"

section \<open>What an index lookup means\<close>

text \<open>The content of an index file and of a filter on the remote, and the first hit of a
  search, without any cache.\<close>

definition stored_plain :: "'s pack_ctx \<Rightarrow> 's \<Rightarrow> hash \<Rightarrow> bytes result" where
  "stored_plain cx s n =
     rbind (os_open_read (cx_ops cx) s n) (\<lambda>b. decrypt (cx_env cx) b (cx_key cx) (raw n))"

definition index_at :: "'s pack_ctx \<Rightarrow> 's \<Rightarrow> hash \<Rightarrow> index_file result" where
  "index_at cx s n = rbind (stored_plain cx s n) index_deserialise"

definition bloom_at :: "'s pack_ctx \<Rightarrow> 's \<Rightarrow> hash \<Rightarrow> bloom result" where
  "bloom_at cx s n = rbind (stored_plain cx s n) bloom_deserialise"

fun first_hit :: "'s pack_ctx \<Rightarrow> 's \<Rightarrow> hash \<Rightarrow> hash list \<Rightarrow> index_entry option" where
  "first_hit cx s h [] = None"
| "first_hit cx s h (n # ns) =
     (case index_at cx s n of
        Inl e \<Rightarrow> None
      | Inr idx \<Rightarrow> (case index_find idx h of Some e \<Rightarrow> Some e | None \<Rightarrow> first_hit cx s h ns))"

definition loadable :: "'s pack_ctx \<Rightarrow> 's \<Rightarrow> hash list \<Rightarrow> bool" where
  "loadable cx s ns \<longleftrightarrow> (\<forall>n \<in> set ns. hash_ok n \<and> (\<exists>idx. index_at cx s n = Inr idx))"

text \<open>The caches agree with the remote.\<close>

definition cache_ok :: "'s pack_ctx \<Rightarrow> 's \<Rightarrow> index_cache \<Rightarrow> bool" where
  "cache_ok cx s c \<longleftrightarrow> backend_ok (ic_objcache c) \<and>
     (\<forall>n x. hash_ok n \<longrightarrow> backend_view (ic_objcache c) (hex n) = Some x \<longrightarrow> stored_plain cx s n = Inr x) \<and>
     (\<forall>n idx. ic_indexes c n = Some idx \<longrightarrow> index_at cx s n = Inr idx)"

interpretation caches: storage_keys "\<lambda>h. h"
  by unfold_locales simp_all

lemma cache_store_laws: "store_laws cache_store backend_ok (\<lambda>b h. backend_view b (hex h))"
  unfolding cache_store_def by (rule caches.laws)

lemma first_hit_append:
  "loadable cx s ns \<Longrightarrow> first_hit cx s h (ns @ ms) =
     (case first_hit cx s h ns of Some e \<Rightarrow> Some e | None \<Rightarrow> first_hit cx s h ms)"
  by (induction ns) (auto simp: loadable_def split: option.splits)

lemma loadable_simps [simp]:
  "loadable cx s []"
  "loadable cx s (n # ns) \<longleftrightarrow> hash_ok n \<and> (\<exists>idx. index_at cx s n = Inr idx) \<and> loadable cx s ns"
  "loadable cx s (ns @ ms) \<longleftrightarrow> loadable cx s ns \<and> loadable cx s ms"
  by (auto simp: loadable_def)

lemma first_hit_hash:
  assumes "first_hit cx s h ns = Some e" "hash_ok h"
  shows "ihash e = h"
  using assms(1)
proof (induction ns)
  case (Cons n ns)
  then show ?case
  proof (cases "index_at cx s n")
    case (Inr idx)
    then obtain p where "index_deserialise p = Inr idx" by (auto simp: index_at_def rbind_Inr_iff)
    then have "index_sorted idx" using index_deserialise_ok index_ok_sorted by blast
    with Cons Inr assms(2) show ?thesis by (auto simp: index_find_iff split: option.splits)
  qed simp
qed simp

section \<open>The caches change no answer\<close>

context store_laws
begin

lemma stored_plain_view:
  assumes "inv s" "hash_ok n" "cx_ops cx = S"
  shows "stored_plain cx s n = Inr x \<longleftrightarrow>
    (\<exists>b. view s n = Some b \<and> decrypt (cx_env cx) b (cx_key cx) (raw n) = Inr x)"
  by (cases "view s n") (simp_all add: stored_plain_def assms(3) read_view [OF assms(1,2)])

text \<open>A load adds the object it loads to the cache and leaves the rest of the cache alone.\<close>

definition cache_frame :: "hash set \<Rightarrow> index_cache \<Rightarrow> index_cache \<Rightarrow> bool" where
  "cache_frame N c c' \<longleftrightarrow> (\<forall>g. hash_ok g \<longrightarrow> g \<notin> N \<longrightarrow>
     backend_view (ic_objcache c') (hex g) = backend_view (ic_objcache c) (hex g))"

lemma load_plain_frame:
  assumes "inv s" "cx_ops cx = S" "cache_ok cx s c" "hash_ok n" "stored_plain cx s n = Inr x"
  shows "\<exists>oc. load_cached_plaintext (cx_env cx) S s cache_store (ic_objcache c) (cx_key cx) n = Inr (x, oc) \<and>
    cache_ok cx s (c\<lparr>ic_objcache := oc\<rparr>) \<and> cache_frame {n} c (c\<lparr>ic_objcache := oc\<rparr>)"
proof -
  note cache = cache_over.intro [OF store_laws_axioms cache_store_laws]
  from assms(5) obtain b where b: "view s n = Some b" "decrypt (cx_env cx) b (cx_key cx) (raw n) = Inr x"
    by (auto simp: stored_plain_view [OF assms(1,4,2)])
  have ok: "backend_ok (ic_objcache c)"
    and agree: "\<And>g y. hash_ok g \<Longrightarrow> backend_view (ic_objcache c) (hex g) = Some y \<Longrightarrow> stored_plain cx s g = Inr y"
    and ix: "\<And>g idx. ic_indexes c g = Some idx \<Longrightarrow> index_at cx s g = Inr idx"
    using assms(3) by (auto simp: cache_ok_def)
  have "y = x" if "backend_view (ic_objcache c) (hex n) = Some y" for y
    using agree [OF assms(4) that] assms(5) by simp
  from cache_over.load_cached_plaintext_ok [OF cache assms(1) ok assms(4) b this] obtain oc where
    oc: "load_cached_plaintext (cx_env cx) S s cache_store (ic_objcache c) (cx_key cx) n = Inr (x, oc)"
    "backend_ok oc" "backend_view oc (hex n) = Some x"
    and same: "\<And>g. hash_ok g \<Longrightarrow> g \<noteq> n \<Longrightarrow> backend_view oc (hex g) = backend_view (ic_objcache c) (hex g)"
    by auto
  have "stored_plain cx s g = Inr y" if "hash_ok g" "backend_view oc (hex g) = Some y" for g y
    using that same [OF that(1)] oc(3) assms(5) agree [OF that(1)] by (cases "g = n") auto
  with oc(1,2) ix same show ?thesis by (auto simp: cache_ok_def cache_frame_def)
qed

lemma load_plain_ok:
  assumes "inv s" "cx_ops cx = S" "cache_ok cx s c" "hash_ok n" "stored_plain cx s n = Inr x"
  shows "\<exists>oc. load_cached_plaintext (cx_env cx) S s cache_store (ic_objcache c) (cx_key cx) n = Inr (x, oc) \<and>
    cache_ok cx s (c\<lparr>ic_objcache := oc\<rparr>)"
  using load_plain_frame [OF assms] by blast

lemma load_resident_frame:
  assumes "inv s" "cx_ops cx = S" "cache_ok cx s c" "hash_ok n" "index_at cx s n = Inr idx"
  shows "\<exists>c'. load_resident_index cx s n c = Inr (idx, c') \<and> cache_ok cx s c' \<and> cache_frame {n} c c'"
proof (cases "ic_indexes c n")
  case None
  from assms(5) obtain x where x: "stored_plain cx s n = Inr x" "index_deserialise x = Inr idx"
    by (auto simp: index_at_def rbind_Inr_iff)
  from load_plain_frame [OF assms(1-4) x(1)] obtain oc where
    oc: "load_cached_plaintext (cx_env cx) S s cache_store (ic_objcache c) (cx_key cx) n = Inr (x, oc)"
    "cache_ok cx s (c\<lparr>ic_objcache := oc\<rparr>)" "cache_frame {n} c (c\<lparr>ic_objcache := oc\<rparr>)" by blast
  from oc(2,3) assms(5) have "cache_ok cx s \<lparr>ic_indexes = (ic_indexes c)(n \<mapsto> idx), ic_objcache = oc\<rparr>"
    "cache_frame {n} c \<lparr>ic_indexes = (ic_indexes c)(n \<mapsto> idx), ic_objcache = oc\<rparr>"
    by (auto simp: cache_ok_def cache_frame_def)
  with None oc(1) x(2) show ?thesis
    by (simp add: load_resident_index_def load_index_file_def assms(2))
next
  case (Some i)
  with assms(3,5) have "i = idx" by (auto simp: cache_ok_def)
  with Some assms(3) show ?thesis by (simp add: load_resident_index_def cache_frame_def)
qed

lemma load_resident_ok:
  assumes "inv s" "cx_ops cx = S" "cache_ok cx s c" "hash_ok n" "index_at cx s n = Inr idx"
  shows "\<exists>c'. load_resident_index cx s n c = Inr (idx, c') \<and> cache_ok cx s c'"
  using load_resident_frame [OF assms] by blast

lemma search_frame:
  assumes "inv s" "cx_ops cx = S" "cache_ok cx s c" "loadable cx s ns"
  shows "\<exists>c'. search_indexes cx s h ns c = Inr (first_hit cx s h ns, c') \<and> cache_ok cx s c' \<and>
    cache_frame (set ns) c c'"
  using assms(3,4)
proof (induction ns arbitrary: c)
  case (Cons n ns)
  from Cons.prems(2) obtain idx where idx: "hash_ok n" "index_at cx s n = Inr idx" by auto
  from load_resident_frame [OF assms(1,2) Cons.prems(1) idx] obtain c1 where
    c1: "load_resident_index cx s n c = Inr (idx, c1)" "cache_ok cx s c1" "cache_frame {n} c c1" by blast
  from c1(3) have "cache_frame (set (n # ns)) c c1" by (simp add: cache_frame_def)
  moreover have "cache_frame (set (n # ns)) c c2" if "cache_frame (set ns) c1 c2" for c2
    using that c1(3) by (simp add: cache_frame_def)
  ultimately show ?case using Cons.IH [OF c1(2)] Cons.prems(2) c1(1,2) idx by (auto split: option.splits)
qed (simp add: cache_frame_def)

lemma search_ok:
  assumes "inv s" "cx_ops cx = S" "cache_ok cx s c" "loadable cx s ns"
  shows "\<exists>c'. search_indexes cx s h ns c = Inr (first_hit cx s h ns, c') \<and> cache_ok cx s c'"
  using search_frame [OF assms] by blast

end

section \<open>Prefixes\<close>

lemma push_or_nat: "b < 2 ^ k \<Longrightarrow> push_bit k n OR b = n * 2 ^ k + (b :: nat)"
proof -
  assume b: "b < 2 ^ k"
  have "push_bit k n AND b = 0"
  proof (rule bit_eqI)
    fix i
    have "\<not> bit b i" if "k \<le> i" 
      using b that by (metis bit_take_bit_iff not_less take_bit_nat_eq_self)
    then show "bit (push_bit k n AND b) i = bit 0 i"
      by (auto simp: bit_and_iff bit_push_bit_iff)
  qed
  then show ?thesis by (simp add: disjunctive_add_eq_or [symmetric] push_bit_eq_mult)
qed

lemma push_or_unat:
  fixes v :: u64
  assumes "unat v < 2 ^ j" "c < 2 ^ k" "j + k \<le> 64" "unat w = c"
  shows "unat (push_bit k v OR w) = unat v * 2 ^ k + c"
proof -
  have "unat v * 2 ^ k < 2 ^ j * 2 ^ k" using assms(1) by simp
  also have "\<dots> \<le> 2 ^ 64" using assms(3) by (metis power_add power_increasing_iff one_less_numeral_iff semiring_norm(76))
  finally have lt: "push_bit k (unat v) < 2 ^ 64" by (simp add: push_bit_eq_mult)
  have "unat (push_bit k v) = push_bit k (unat v)"
    using lt by (simp only: unsigned_push_bit_eq) (simp add: take_bit_nat_eq_self)
  with push_or_nat [OF assms(2), of "unat v"] show ?thesis
    by (simp only: unsigned_or_eq assms(4))
qed

lemma unat_ucast8: "unat (ucast (b :: u8) :: u64) = unat b"
  by (simp add: unsigned_ucast_eq take_bit_nat_eq_self unat_bounds(1) less_trans [OF unat_bounds(1)])

lemma unat_drop8: "unat (drop_bit n (b :: u8)) = unat b div 2 ^ n"
proof -
  have "unat (drop_bit n b) = drop_bit n (take_bit 8 (unat b))"
    by (simp only: unsigned_drop_bit_eq) simp
  also have "take_bit 8 (unat b) = unat b" by (simp add: take_bit_nat_eq_self)
  finally show ?thesis by (simp only: drop_bit_eq_div)
qed

lemma fold_bytes:
  "length bs \<le> 8 \<Longrightarrow> unat (foldl (\<lambda>v byte. push_bit 8 v OR ucast byte) (0 :: u64) bs) = from_be bs"
proof (induction bs rule: rev_induct)
  case (snoc b bs)
  let ?v = "foldl (\<lambda>v byte. push_bit 8 v OR ucast byte) (0 :: u64) bs"
  from snoc have v: "unat ?v = from_be bs" by simp
  have "from_be bs < 2 ^ (8 * length bs)"
    using from_be_bound [of bs] by (simp add: power_mult)
  with v snoc.prems have "unat (push_bit 8 ?v OR ucast b) = unat ?v * 2 ^ 8 + unat b"
    by (intro push_or_unat [of _ "8 * length bs"]) (simp_all add: unat_ucast8)
  with v show ?case by simp
qed simp

lemma from_be_append: "from_be (xs @ ys) = from_be xs * 256 ^ length ys + from_be ys"
proof (induction ys rule: rev_induct)
  case (snoc y ys)
  then show ?case using from_be_snoc [of "xs @ ys" y] by (simp add: algebra_simps)
qed simp

lemma from_be_take:
  "n \<le> length bs \<Longrightarrow> from_be (take n bs) = from_be bs div 256 ^ (length bs - n)"
  using from_be_append [of "take n bs" "drop n bs"] from_be_bound [of "drop n bs"] by simp

text \<open>The slot of a hash is the number formed by its leading bits.\<close>

lemma hash_prefix_eq:
  assumes "length (raw h) = 32" "nbits \<le> 64"
  shows "hash_prefix h nbits = from_be (raw h) div 2 ^ (256 - nbits)"
proof -
  let ?q = "nbits div 8" and ?r = "nbits mod 8" and ?bs = "raw h"
  let ?v = "foldl (\<lambda>v byte. push_bit 8 v OR ucast byte) (0 :: u64) (take ?q ?bs)"
  have q: "?q \<le> 8" "?q = 8 \<Longrightarrow> ?r = 0" "nbits = 8 * ?q + ?r" using assms(2) by presburger+
  have v: "unat ?v = from_be (take ?q ?bs)" using q(1) assms(1) by (intro fold_bytes) simp
  show ?thesis
  proof (cases "?r = 0")
    case True
    have "8 * (32 - ?q) = 256 - nbits" using q(3) True by simp
    then have "(256 :: nat) ^ (32 - ?q) = 2 ^ (256 - nbits)"
      using power_mult [of "2 :: nat" 8 "32 - ?q"] by simp
    then have "unat ?v = from_be ?bs div 2 ^ (256 - nbits)"
      using v from_be_take [of ?q ?bs] q(1) assms(1) by simp
    with True q assms(1) show ?thesis by (simp add: hash_prefix_def Let_def min_def)
  next
    case False
    let ?b = "?bs ! ?q" and ?A = "from_be (take ?q ?bs)"
    have q7: "?q < 8" using q False by fastforce
    have A: "?A < 2 ^ (8 * ?q)"
      using from_be_bound [of "take ?q ?bs"] q assms(1) by (simp add: power_mult)
    have r: "?r < 8" by simp
    have b: "unat (drop_bit (8 - ?r) ?b) = unat ?b div 2 ^ (8 - ?r)"
      by (rule unat_drop8)
    have p8: "(256 :: nat) = 2 ^ ?r * 2 ^ (8 - ?r)" using r by (simp flip: power_add)
    have "unat ?b < 2 ^ ?r * 2 ^ (8 - ?r)" using p8 unat_bounds(1) [of ?b] by simp
    then have b8: "unat ?b div 2 ^ (8 - ?r) < 2 ^ ?r" by (simp add: less_mult_imp_div_less)
    have "hash_prefix h nbits = ?A * 2 ^ ?r + unat ?b div 2 ^ (8 - ?r)"
      unfolding hash_prefix_def Let_def
      using False q7 assms(1) push_or_unat [of ?v "8 * ?q" "unat ?b div 2 ^ (8 - ?r)" ?r
        "ucast (drop_bit (8 - ?r) ?b)"] A b8 assms(2) v b
      by (simp add: min_def unat_ucast8)
    also have "\<dots> = (?A * 256 + unat ?b) div 2 ^ (8 - ?r)"
      by (subst p8) (simp add: mult.assoc [symmetric] div_mult_self3)
    also have "?A * 256 + unat ?b = from_be (take (Suc ?q) ?bs)"
      using q7 assms(1) by (simp add: take_Suc_conv_app_nth)
    also have "\<dots> = from_be ?bs div 256 ^ (32 - Suc ?q)"
      using from_be_take [of "Suc ?q" ?bs] q7 assms(1) by simp
    also have "(256 :: nat) ^ (32 - Suc ?q) = 2 ^ (8 * (32 - Suc ?q))" by (simp add: power_mult)
    also have "from_be ?bs div 2 ^ (8 * (32 - Suc ?q)) div 2 ^ (8 - ?r) =
        from_be ?bs div 2 ^ (8 * (32 - Suc ?q) + (8 - ?r))" by (simp only: div_mult2_eq power_add)
    also have "8 * (32 - Suc ?q) + (8 - ?r) = 256 - nbits" using q(3) q7 r by linarith
    finally show ?thesis .
  qed
qed

lemma hash_prefix_bound:
  assumes "length (raw h) = 32" "nbits \<le> 64"
  shows "hash_prefix h nbits < 2 ^ nbits"
proof -
  have "from_be (raw h) < 2 ^ 256" using from_be_bound [of "raw h"] assms(1) by (simp add: power_mult [of 2 8 32, simplified])
  also have "(2 :: nat) ^ 256 = 2 ^ nbits * 2 ^ (256 - nbits)"
    using assms(2) by (simp only: power_add [symmetric]) simp
  finally show ?thesis by (simp add: hash_prefix_eq [OF assms] less_mult_imp_div_less)
qed

end
