(* ===== verification/PackWriter.thy ===== *)
theory PackWriter
  imports PackIndex
begin

text \<open>
  The pack writer (\<open>src/src/codec/pack/writer.rs\<close>): the routing of encrypted objects to
  inline entries, pack files and standalone objects, the flush of a pack, the membership test
  against the push-start snapshot, and the publication of a new index root. The locks of the
  code make each operation atomic, so each is one function on the writer and the remote.
\<close>

section \<open>State\<close>

definition INLINE_THRESHOLD :: nat where "INLINE_THRESHOLD = 256"
definition PACK_THRESHOLD :: nat where "PACK_THRESHOLD = 1024 * 1024"
definition PACK_TARGET :: nat where "PACK_TARGET = 4 * 1024 * 1024"
definition PACK_MAX :: nat where "PACK_MAX = 16 * 1024 * 1024"
definition PACK_MAGIC :: bytes where "PACK_MAGIC = [0xED, 0xE1]"
definition STANDALONE_ESCAPE_MAGIC :: bytes where "STANDALONE_ESCAPE_MAGIC = [0xED, 0xE0]"

lemmas pack_sizes = INLINE_THRESHOLD_def PACK_THRESHOLD_def PACK_TARGET_def PACK_MAX_def

record pack_writer =
  w_cache :: index_cache
  w_delta :: index_file
  w_pack_buf :: bytes
  w_pending :: "(hash \<times> u32 \<times> u32) list"
  w_bloom :: bloom
  w_start_snapshot :: "bytes option"
  w_start_token :: root_token
  w_snapshot_root :: "index_root option"
  w_written_pack_sizes :: "nat list"

section \<open>Construction\<close>

definition decode_root :: "'s pack_ctx \<Rightarrow> bytes \<Rightarrow> index_root result" where
  "decode_root cx rawb =
     rbind (decrypt_index_root_bytes (cx_env cx) rawb (cx_key cx)) root_deserialise"

definition decode_snapshot :: "'s pack_ctx \<Rightarrow> bytes option \<Rightarrow> index_root option result" where
  "decode_snapshot cx snap =
     (case snap of None \<Rightarrow> Inr None
      | Some rawb \<Rightarrow> rbind (decode_root cx rawb) (\<lambda>ir. Inr (Some ir)))"

definition load_remote_bloom :: "'s pack_ctx \<Rightarrow> 's \<Rightarrow> index_root option \<Rightarrow> bloom result" where
  "load_remote_bloom cx s snapshot_root =
     (let fresh = sized_for (cx_opt_bits cx)
      in case snapshot_root of None \<Rightarrow> Inr (fresh 0)
         | Some ir \<Rightarrow>
             (case bloom_hash_opt ir of None \<Rightarrow> Inr (fresh 0)
              | Some bh \<Rightarrow>
                  (case os_open_read (cx_ops cx) s bh of
                     Inl (ObjectNotFound _) \<Rightarrow> Inr (fresh 0)
                   | Inl e \<Rightarrow> Inl e
                   | Inr stored \<Rightarrow>
                       rbind (decrypt (cx_env cx) stored (cx_key cx) (raw bh)) (\<lambda>plaintext.
                       rbind (bloom_deserialise plaintext) (\<lambda>loaded.
                         if structural_defect loaded \<noteq> None then Inr (fresh (unat (element_count loaded)))
                         else Inr loaded)))))"

definition pack_writer_new ::
    "'s pack_ctx \<Rightarrow> 's \<Rightarrow> bytes option \<Rightarrow> objects_backend \<Rightarrow> pack_writer result" where
  "pack_writer_new cx s pointer objcache =
     (let (start_snapshot, start_token) = root_read pointer
      in rbind (decode_snapshot cx start_snapshot) (\<lambda>snapshot_root.
         rbind (load_remote_bloom cx s snapshot_root) (\<lambda>bf.
           Inr \<lparr>w_cache = \<lparr>ic_indexes = (\<lambda>_. None), ic_objcache = objcache\<rparr>, w_delta = [],
                w_pack_buf = [], w_pending = [], w_bloom = bf, w_start_snapshot = start_snapshot,
                w_start_token = start_token, w_snapshot_root = snapshot_root,
                w_written_pack_sizes = []\<rparr>)))"

definition index_root_present :: "pack_writer \<Rightarrow> bool" where
  "index_root_present w \<longleftrightarrow> w_start_snapshot w \<noteq> None"

definition remote_root_snapshot :: "'s pack_ctx \<Rightarrow> pack_writer \<Rightarrow> hash option result" where
  "remote_root_snapshot cx w =
     (case w_start_snapshot w of None \<Rightarrow> Inr None
      | Some rawb \<Rightarrow> rbind (decode_root cx rawb) (\<lambda>ir. Inr (remote_root_hash ir)))"

section \<open>Routing and flushing\<close>

definition needs_standalone_escape :: "bytes \<Rightarrow> bool" where
  "needs_standalone_escape b \<longleftrightarrow> 2 \<le> length b \<and> b ! 0 = 0xED \<and> 0xE0 \<le> b ! 1 \<and> b ! 1 \<le> 0xEF"

definition escape_standalone :: "bytes \<Rightarrow> bytes" where
  "escape_standalone b = (if needs_standalone_escape b then STANDALONE_ESCAPE_MAGIC @ b else b)"

definition pack_file :: "bytes \<Rightarrow> bytes" where
  "pack_file buf = PACK_MAGIC @ buf"

definition pack_entries :: "hash \<Rightarrow> (hash \<times> u32 \<times> u32) list \<Rightarrow> index_entry list" where
  "pack_entries pack_hash pending = map (\<lambda>(h, off, len). PackE h pack_hash off len) pending"

definition flush_pack :: "'s pack_ctx \<Rightarrow> pack_writer \<Rightarrow> 's \<Rightarrow> (pack_writer \<times> 's) result" where
  "flush_pack cx w s =
     (if w_pending w = [] then Inr (w, s)
      else let pack_bytes = pack_file (w_pack_buf w);
               pack_hash = compute (sha (cx_env cx)) pack_bytes
           in rbind (os_write_from (cx_ops cx) s pack_hash pack_bytes) (\<lambda>s'.
                Inr (w\<lparr>w_written_pack_sizes := w_written_pack_sizes w @ [length pack_bytes],
                      w_delta := foldl index_push (w_delta w) (pack_entries pack_hash (w_pending w)),
                      w_pending := [], w_pack_buf := []\<rparr>, s')))"

definition append_pack :: "pack_writer \<Rightarrow> hash \<Rightarrow> bytes \<Rightarrow> pack_writer" where
  "append_pack w h b =
     w\<lparr>w_pack_buf := w_pack_buf w @ b,
       w_pending := w_pending w @ [(h, word_of_nat (length (w_pack_buf w)), word_of_nat (length b))],
       w_bloom := bloom_insert (w_bloom w) h\<rparr>"

definition route :: "'s pack_ctx \<Rightarrow> pack_writer \<Rightarrow> 's \<Rightarrow> hash \<Rightarrow> bytes \<Rightarrow> (pack_writer \<times> 's) result" where
  "route cx w s h b =
     (if length b < INLINE_THRESHOLD
      then Inr (w\<lparr>w_delta := index_push (w_delta w) (Inline h b), w_bloom := bloom_insert (w_bloom w) h\<rparr>, s)
      else if length b < PACK_THRESHOLD
      then let w' = append_pack w h b
           in if PACK_TARGET \<le> length (w_pack_buf w') \<or> PACK_MAX \<le> length (w_pack_buf w')
              then flush_pack cx w' s else Inr (w', s)
      else rbind (os_write_from (cx_ops cx) s h (escape_standalone b)) (\<lambda>s'.
             Inr (w\<lparr>w_delta := index_push (w_delta w) (Standalone h),
                    w_bloom := bloom_insert (w_bloom w) h\<rparr>, s')))"

section \<open>Publication\<close>

definition write_delta ::
    "'s pack_ctx \<Rightarrow> pack_writer \<Rightarrow> 's \<Rightarrow> index_root \<Rightarrow> (index_root \<times> 's) result" where
  "write_delta cx w s ir =
     (if w_delta w = [] then Inr (ir, s)
      else rbind (index_serialise (w_delta w)) (\<lambda>delta_bytes.
           let delta_hash = compute (sha (cx_env cx)) delta_bytes
           in rbind (os_write_from (cx_ops cx) s delta_hash
                      (encrypt (cx_env cx) delta_bytes (cx_key cx) (raw delta_hash))) (\<lambda>s'.
                Inr (ir\<lparr>delta_hashes := raw delta_hash # delta_hashes ir\<rparr>, s'))))"

definition write_bloom :: "'s pack_ctx \<Rightarrow> pack_writer \<Rightarrow> 's \<Rightarrow> (hash \<times> 's) result" where
  "write_bloom cx w s =
     (let bloom_bytes = bloom_serialise (w_bloom w);
          bh = compute (sha (cx_env cx)) bloom_bytes
      in rbind (os_write_from (cx_ops cx) s bh
                 (encrypt (cx_env cx) bloom_bytes (cx_key cx) (raw bh))) (\<lambda>s'. Inr (bh, s')))"

text \<open>The result is the number of delta files, the writer, the remote and the root
  pointer; \<open>nonce\<close> is the random nonce of the index root.\<close>

definition finish ::
    "'s pack_ctx \<Rightarrow> pack_writer \<Rightarrow> 's \<Rightarrow> bytes option \<Rightarrow> hash \<Rightarrow> bytes \<Rightarrow>
       (nat \<times> pack_writer \<times> 's \<times> bytes option) result" where
  "finish cx w s pointer new_remote_root nonce =
     rbind (flush_pack cx w s) (\<lambda>(w, s).
     rbind (case w_start_snapshot w of None \<Rightarrow> Inr new_empty | Some rawb \<Rightarrow> decode_root cx rawb) (\<lambda>ir.
     rbind (write_delta cx w s ir) (\<lambda>(ir, s).
     rbind (write_bloom cx w s) (\<lambda>(bh, s).
     let ir = ir\<lparr>remote_root := raw new_remote_root, bloom_hash := raw bh\<rparr>
     in rbind (encrypt_index_root_bytes (cx_env cx) ir (cx_key cx) nonce) (\<lambda>root_bytes.
        rbind (cas_write pointer (w_start_token w) root_bytes) (\<lambda>pointer'.
          Inr (length (delta_hashes ir), w, s, pointer')))))))"

definition io_pack_stats :: "pack_writer \<Rightarrow> nat \<times> nat list" where
  "io_pack_stats w = (length (w_written_pack_sizes w), w_written_pack_sizes w)"

section \<open>Membership and reads\<close>

definition index_contains ::
    "'s pack_ctx \<Rightarrow> pack_writer \<Rightarrow> 's \<Rightarrow> hash \<Rightarrow> (bool \<times> pack_writer) result" where
  "index_contains cx w s h =
     (case w_snapshot_root w of None \<Rightarrow> Inr (False, w)
      | Some ir \<Rightarrow>
          rbind (search_indexes cx s h (indexes_for h ir) (w_cache w)) (\<lambda>(hit, c).
            Inr (hit \<noteq> None, w\<lparr>w_cache := c\<rparr>)))"

definition writer_exists ::
    "'s pack_ctx \<Rightarrow> pack_writer \<Rightarrow> 's \<Rightarrow> hash \<Rightarrow> (bool \<times> pack_writer) result" where
  "writer_exists cx w s h =
     (if index_find (w_delta w) h \<noteq> None then Inr (True, w)
      else if list_ex (\<lambda>(g, _, _). g = h) (w_pending w) then Inr (True, w)
      else if \<not> may_contain (w_bloom w) h then Inr (False, w)
      else index_contains cx w s h)"

definition writer_open_read :: "'s pack_ctx \<Rightarrow> pack_writer \<Rightarrow> 's \<Rightarrow> hash \<Rightarrow> bytes result" where
  "writer_open_read cx w s h =
     (case index_find (w_delta w) h of
        Some (Inline _ d) \<Rightarrow> Inr d
      | _ \<Rightarrow> os_open_read (cx_ops cx) s h)"

section \<open>Runs of a push\<close>

text \<open>
  A push by several workers: the steps are the critical sections of the code, in any order.
  A worker that routes a packed object appends it to the buffer and flushes afterwards, so
  that other workers may append in between; every other call is one step. The run records
  the objects routed. No name is used twice for different content: a worker never routes two
  byte strings under one hash, and the remote does not already hold something else under
  the name of a pack file or of a standalone object.
\<close>

definition free_for :: "'s pack_ctx \<Rightarrow> 's \<Rightarrow> hash \<Rightarrow> bytes \<Rightarrow> bool" where
  "free_for cx s n c \<longleftrightarrow> hash_ok n \<and>
     (case os_open_read (cx_ops cx) s n of Inl _ \<Rightarrow> True | Inr b \<Rightarrow> b = c)"

definition same_content :: "(hash \<times> bytes) list \<Rightarrow> hash \<Rightarrow> bytes \<Rightarrow> bool" where
  "same_content objs h b \<longleftrightarrow> hash_ok h \<and> list_all (\<lambda>(g, c). g = h \<longrightarrow> c = b) objs"

inductive push_run ::
    "'s pack_ctx \<Rightarrow> pack_writer \<times> 's \<Rightarrow> (hash \<times> bytes) list \<Rightarrow> pack_writer \<times> 's \<Rightarrow> bool"
  for cx ws where
  start: "push_run cx ws [] ws"
| inline: "push_run cx ws objs (w, s) \<Longrightarrow> same_content objs h b \<Longrightarrow> length b < INLINE_THRESHOLD \<Longrightarrow>
    route cx w s h b = Inr (w', s') \<Longrightarrow> push_run cx ws ((h, b) # objs) (w', s')"
| append: "push_run cx ws objs (w, s) \<Longrightarrow> same_content objs h b \<Longrightarrow> INLINE_THRESHOLD \<le> length b \<Longrightarrow>
    length b < PACK_THRESHOLD \<Longrightarrow> length (w_pack_buf w) + length b < 2 ^ 32 \<Longrightarrow>
    push_run cx ws ((h, b) # objs) (append_pack w h b, s)"
| standalone: "push_run cx ws objs (w, s) \<Longrightarrow> same_content objs h b \<Longrightarrow> PACK_THRESHOLD \<le> length b \<Longrightarrow>
    free_for cx s h (escape_standalone b) \<Longrightarrow> route cx w s h b = Inr (w', s') \<Longrightarrow>
    push_run cx ws ((h, b) # objs) (w', s')"
| flush: "push_run cx ws objs (w, s) \<Longrightarrow>
    free_for cx s (compute (sha (cx_env cx)) (pack_file (w_pack_buf w))) (pack_file (w_pack_buf w)) \<Longrightarrow>
    flush_pack cx w s = Inr (w', s') \<Longrightarrow> push_run cx ws objs (w', s')"
| lookup: "push_run cx ws objs (w, s) \<Longrightarrow> writer_exists cx w s h = Inr (r, w') \<Longrightarrow>
    push_run cx ws objs (w', s)"

section \<open>What an entry stands for\<close>

fun entry_yields :: "'s pack_ctx \<Rightarrow> 's \<Rightarrow> index_entry \<Rightarrow> bytes \<Rightarrow> bool" where
  "entry_yields cx s (Inline h d) b \<longleftrightarrow> d = b"
| "entry_yields cx s (PackE h p off len) b \<longleftrightarrow> hash_ok p \<and>
     (\<exists>body. os_open_read (cx_ops cx) s p = Inr body \<and> 2 + unat off + unat len \<le> length body \<and>
        subslice (2 + unat off) (2 + unat off + unat len) body = b)"
| "entry_yields cx s (Standalone h) b \<longleftrightarrow>
     hash_ok h \<and> os_open_read (cx_ops cx) s h = Inr (escape_standalone b)"

definition grows :: "'s pack_ctx \<Rightarrow> 's \<Rightarrow> 's \<Rightarrow> bool" where
  "grows cx s s' \<longleftrightarrow> (\<forall>n b. hash_ok n \<longrightarrow> os_open_read (cx_ops cx) s n = Inr b \<longrightarrow>
     os_open_read (cx_ops cx) s' n = Inr b)"

lemma grows_refl [simp]: "grows cx s s"
  by (simp add: grows_def)

lemma grows_trans: "grows cx s s' \<Longrightarrow> grows cx s' s'' \<Longrightarrow> grows cx s s''"
  by (simp add: grows_def)

lemma entry_yields_grows: "entry_yields cx s e b \<Longrightarrow> grows cx s s' \<Longrightarrow> entry_yields cx s' e b"
  by (cases e) (auto simp: grows_def)

lemma stored_plain_grows:
  "grows cx s s' \<Longrightarrow> hash_ok n \<Longrightarrow> stored_plain cx s n = Inr x \<Longrightarrow> stored_plain cx s' n = Inr x"
  by (auto simp: stored_plain_def rbind_Inr_iff grows_def)

lemma index_at_grows:
  "grows cx s s' \<Longrightarrow> hash_ok n \<Longrightarrow> index_at cx s n = Inr idx \<Longrightarrow> index_at cx s' n = Inr idx"
  by (cases "stored_plain cx s n") (simp_all add: index_at_def stored_plain_grows)

definition entries_for :: "'s pack_ctx \<Rightarrow> 's \<Rightarrow> (hash \<times> bytes) list \<Rightarrow> index_file \<Rightarrow> bool" where
  "entries_for cx s objs es \<longleftrightarrow> index_sorted es \<and>
     (\<forall>e \<in> set es. entry_ok e \<and> (\<exists>b. (ihash e, b) \<in> set objs \<and> entry_yields cx s e b))"

definition pending_for :: "bytes \<Rightarrow> (hash \<times> bytes) list \<Rightarrow> (hash \<times> u32 \<times> u32) list \<Rightarrow> bool" where
  "pending_for buf objs ps \<longleftrightarrow> (\<forall>(h, off, len) \<in> set ps. hash_ok h \<and>
     unat off + unat len \<le> length buf \<and> (h, subslice (unat off) (unat off + unat len) buf) \<in> set objs)"

definition routed :: "pack_writer \<Rightarrow> (hash \<times> bytes) list \<Rightarrow> bool" where
  "routed w objs \<longleftrightarrow> (\<forall>(h, b) \<in> set objs. hash_ok h \<and> may_contain (w_bloom w) h \<and>
     (h \<in> ihash ` set (w_delta w) \<or> h \<in> fst ` set (w_pending w)))"

definition functional :: "(hash \<times> bytes) list \<Rightarrow> bool" where
  "functional objs \<longleftrightarrow> (\<forall>h b c. (h, b) \<in> set objs \<longrightarrow> (h, c) \<in> set objs \<longrightarrow> b = c)"

definition run_ok :: "'s pack_ctx \<Rightarrow> (hash \<times> bytes) list \<Rightarrow> pack_writer \<Rightarrow> 's \<Rightarrow> bool" where
  "run_ok cx objs w s \<longleftrightarrow> entries_for cx s objs (w_delta w) \<and>
     pending_for (w_pack_buf w) objs (w_pending w) \<and> routed w objs \<and> bloom_ok (w_bloom w) \<and> functional objs"

lemma entries_for_push:
  assumes "entries_for cx s objs es" "entry_ok e" "(ihash e, b) \<in> set objs" "entry_yields cx s e b"
  shows "entries_for cx s objs (index_push es e)"
proof -
  from assms(1) have so: "index_sorted es" by (simp add: entries_for_def)
  have h: "hash_ok (ihash e)" using assms(2) by (simp add: entry_ok_def)
  from index_push_sorted [OF so h] index_push_set [OF so h] assms show ?thesis
    by (auto simp: entries_for_def)
qed

lemma entries_for_mono:
  assumes "entries_for cx s objs es" "grows cx s s'" "set objs \<subseteq> set objs'"
  shows "entries_for cx s' objs' es"
  unfolding entries_for_def
proof (intro conjI ballI)
  fix e assume "e \<in> set es"
  with assms(1) obtain b where b: "entry_ok e" "(ihash e, b) \<in> set objs" "entry_yields cx s e b"
    by (auto simp: entries_for_def)
  then show "entry_ok e" by simp
  show "\<exists>b. (ihash e, b) \<in> set objs' \<and> entry_yields cx s' e b"
    using entry_yields_grows [OF b(3) assms(2)] b(2) assms(3) by auto
qed (use assms(1) in \<open>simp add: entries_for_def\<close>)

lemma ihash_push: "index_sorted es \<Longrightarrow> hash_ok (ihash e) \<Longrightarrow>
    ihash ` set (index_push es e) = insert (ihash e) (ihash ` set es)"
  by (auto simp: index_push_set)

lemma ihash_foldl_push:
  "index_sorted es \<Longrightarrow> \<forall>v \<in> set vs. hash_ok (ihash v) \<Longrightarrow>
     ihash ` set (foldl index_push es vs) = ihash ` set vs \<union> ihash ` set es"
  by (induction vs arbitrary: es) (auto simp: ihash_push index_push_sorted)

lemma entries_for_foldl:
  assumes "entries_for cx s objs es" "\<forall>v \<in> set vs. entry_ok v \<and> (\<exists>b. (ihash v, b) \<in> set objs \<and> entry_yields cx s v b)"
  shows "entries_for cx s objs (foldl index_push es vs)"
  using assms by (induction vs arbitrary: es) (auto intro: entries_for_push)

section \<open>Every step keeps the run\<close>

lemma pending_for_append:
  assumes "pending_for buf objs ps" "hash_ok h" "length buf + length b < 2 ^ 32"
  shows "pending_for (buf @ b) ((h, b) # objs)
    (ps @ [(h, word_of_nat (length buf), word_of_nat (length b))])"
proof -
  have n: "unat (word_of_nat (length buf) :: u32) = length buf" "unat (word_of_nat (length b) :: u32) = length b"
    using assms(3) by (simp_all add: unat_of_nat)
  have "hash_ok g \<and> unat off + unat len \<le> length (buf @ b) \<and>
      (g, subslice (unat off) (unat off + unat len) (buf @ b)) \<in> set ((h, b) # objs)"
    if "(g, off, len) \<in> set ps" for g off len
  proof -
    from assms(1) that have "hash_ok g" "unat off + unat len \<le> length buf"
      "(g, subslice (unat off) (unat off + unat len) buf) \<in> set objs"
      by (auto simp: pending_for_def)
    then show ?thesis by (simp add: subslice_append_left)
  qed
  moreover have "subslice (length buf) (length buf + length b) (buf @ b) = b"
    by (simp add: subslice_def)
  ultimately show ?thesis using assms(2) by (auto simp: pending_for_def n)
qed

lemma pending_for_mono:
  "pending_for buf objs ps \<Longrightarrow> set objs \<subseteq> set objs' \<Longrightarrow> pending_for buf objs' ps"
  by (fastforce simp: pending_for_def)

lemma functional_Cons: "functional objs \<Longrightarrow> same_content objs h b \<Longrightarrow> functional ((h, b) # objs)"
  by (auto simp: functional_def same_content_def list_all_iff)

lemma routed_insert:
  assumes "routed w objs" "bloom_ok (w_bloom w)" "hash_ok h"
    and "w_bloom w' = bloom_insert (w_bloom w) h"
    and "h \<in> ihash ` set (w_delta w') \<or> h \<in> fst ` set (w_pending w')"
    and "ihash ` set (w_delta w) \<subseteq> ihash ` set (w_delta w')" "fst ` set (w_pending w) \<subseteq> fst ` set (w_pending w')"
  shows "routed w' ((h, b) # objs)"
proof -
  have "hash_ok g \<and> may_contain (w_bloom w') g \<and> (g \<in> ihash ` set (w_delta w') \<or> g \<in> fst ` set (w_pending w'))"
    if "(g, c) \<in> set objs" for g c
  proof -
    from that assms(1) have "hash_ok g" "may_contain (w_bloom w) g"
      "g \<in> ihash ` set (w_delta w) \<or> g \<in> fst ` set (w_pending w)" by (auto simp: routed_def)
    with assms(6,7) may_contain_insert_mono [OF assms(2), of g h] show ?thesis unfolding assms(4) by blast
  qed
  moreover have "may_contain (w_bloom w') h" using may_contain_insert [OF assms(2)] by (simp add: assms(4))
  ultimately show ?thesis using assms(3,5) by (auto simp: routed_def)
qed

lemma run_okD:
  assumes "run_ok cx objs w s"
  shows "entries_for cx s objs (w_delta w)" "index_sorted (w_delta w)"
    "pending_for (w_pack_buf w) objs (w_pending w)" "routed w objs" "bloom_ok (w_bloom w)" "functional objs"
  using assms by (simp_all add: run_ok_def entries_for_def)

lemma delta_push_ok:
  assumes run: "run_ok cx objs w s" and c: "same_content objs h b" and g: "grows cx s s'"
    and e: "entry_ok e" "ihash e = h" "entry_yields cx s' e b"
  shows "run_ok cx ((h, b) # objs)
    (w\<lparr>w_delta := index_push (w_delta w) e, w_bloom := bloom_insert (w_bloom w) h\<rparr>) s'"
proof -
  note r = run_okD [OF run]
  have h: "hash_ok h" using c by (simp add: same_content_def)
  have "entries_for cx s' ((h, b) # objs) (index_push (w_delta w) e)"
    by (rule entries_for_push [OF entries_for_mono [OF r(1) g] e(1) _ e(3)]) (auto simp: e(2))
  moreover have "routed (w\<lparr>w_delta := index_push (w_delta w) e, w_bloom := bloom_insert (w_bloom w) h\<rparr>) ((h, b) # objs)"
    by (rule routed_insert [OF r(4,5) h]) (use ihash_push [OF r(2), of e] e(2) h in auto)
  moreover have "pending_for (w_pack_buf w) ((h, b) # objs) (w_pending w)"
    by (rule pending_for_mono [OF r(3)]) auto
  ultimately show ?thesis
    using bloom_insert_ok [OF r(5)] functional_Cons [OF r(6) c] by (simp add: run_ok_def)
qed

lemma append_ok:
  assumes run: "run_ok cx objs w s" and c: "same_content objs h b"
    and n: "length (w_pack_buf w) + length b < 2 ^ 32"
  shows "run_ok cx ((h, b) # objs) (append_pack w h b) s"
proof -
  note r = run_okD [OF run]
  have h: "hash_ok h" using c by (simp add: same_content_def)
  have "routed (append_pack w h b) ((h, b) # objs)"
    by (rule routed_insert [OF r(4,5) h]) (auto simp: append_pack_def)
  moreover have "entries_for cx s ((h, b) # objs) (w_delta w)"
    by (rule entries_for_mono [OF r(1)]) auto
  ultimately show ?thesis
    using pending_for_append [OF r(3) h n] bloom_insert_ok [OF r(5)] functional_Cons [OF r(6) c]
    by (simp add: run_ok_def append_pack_def)
qed

lemma pack_entries_yield:
  assumes p: "pending_for buf objs ps" and ph: "hash_ok ph" "os_open_read (cx_ops cx) s ph = Inr (pack_file buf)"
  shows "\<forall>e \<in> set (pack_entries ph ps). entry_ok e \<and> (\<exists>b. (ihash e, b) \<in> set objs \<and> entry_yields cx s e b)"
proof
  fix e assume "e \<in> set (pack_entries ph ps)"
  then obtain h off len where e: "e = PackE h ph off len" "(h, off, len) \<in> set ps"
    by (auto simp: pack_entries_def)
  with p have "hash_ok h" "unat off + unat len \<le> length buf"
    "(h, subslice (unat off) (unat off + unat len) buf) \<in> set objs" by (auto simp: pending_for_def)
  moreover have "subslice (2 + unat off) (2 + unat off + unat len) (pack_file buf) =
      subslice (unat off) (unat off + unat len) buf"
    by (simp add: pack_file_def PACK_MAGIC_def subslice_def)
  moreover have "length (pack_file buf) = 2 + length buf" by (simp add: pack_file_def PACK_MAGIC_def)
  ultimately show "entry_ok e \<and> (\<exists>b. (ihash e, b) \<in> set objs \<and> entry_yields cx s e b)"
    using ph e by (auto simp: entry_ok_def)
qed

lemma fst_pack_entries: "ihash ` set (pack_entries ph ps) = fst ` set ps"
  by (auto simp: pack_entries_def image_def split_beta) force

context store_laws
begin

lemma write_free:
  assumes "inv s" "cx_ops cx = S" "free_for cx s n c"
  shows "\<exists>s'. os_write_from S s n c = Inr s' \<and> inv s' \<and> os_open_read S s' n = Inr c \<and> grows cx s s'"
proof -
  have n: "hash_ok n" using assms(3) by (simp add: free_for_def)
  have fr: "view s n = None \<or> view s n = Some c"
    using assms(3) read_view [OF assms(1) n]
    by (cases "view s n") (auto simp: free_for_def assms(2) ok_or_def split: sum.splits)
  from write_view [OF assms(1) n fr] obtain s' where
    s': "os_write_from S s n c = Inr s'" "inv s'"
    and v: "\<And>g. hash_ok g \<Longrightarrow> view s' g = (if g = n then Some c else view s g)" by auto
  have "os_open_read S s' n = Inr c" using read_view [OF s'(2) n] v [OF n] by auto
  moreover have "os_open_read S s' g = Inr b" if "hash_ok g" "os_open_read S s g = Inr b" for g b
    using that v [OF that(1)] fr read_view [OF assms(1) that(1)] read_view [OF s'(2) that(1)]
    by (cases "view s g") (auto simp: ok_or_def split: if_splits)
  ultimately show ?thesis using s' by (auto simp: grows_def assms(2))
qed

lemma flush_ok:
  assumes i: "inv s" "cx_ops cx = S" and run: "run_ok cx objs w s"
    and f: "free_for cx s (compute (sha (cx_env cx)) (pack_file (w_pack_buf w))) (pack_file (w_pack_buf w))"
  shows "\<exists>w' s'. flush_pack cx w s = Inr (w', s') \<and> inv s' \<and> grows cx s s' \<and> run_ok cx objs w' s' \<and>
    w_pending w' = [] \<and> w_start_snapshot w' = w_start_snapshot w \<and> w_start_token w' = w_start_token w \<and>
    w_snapshot_root w' = w_snapshot_root w \<and> w_bloom w' = w_bloom w"
proof (cases "w_pending w = []")
  case True
  with i run show ?thesis by (simp add: flush_pack_def)
next
  case False
  let ?ph = "compute (sha (cx_env cx)) (pack_file (w_pack_buf w))"
  note r = run_okD [OF run]
  have ph: "hash_ok ?ph" using f by (simp add: free_for_def)
  from write_free [OF i f] obtain s' where
    s': "os_write_from S s ?ph (pack_file (w_pack_buf w)) = Inr s'" "inv s'" "grows cx s s'"
      "os_open_read (cx_ops cx) s' ?ph = Inr (pack_file (w_pack_buf w))" using i(2) by auto
  let ?d = "foldl index_push (w_delta w) (pack_entries ?ph (w_pending w))"
  note py = pack_entries_yield [OF r(3) ph s'(4)]
  have "entries_for cx s' objs ?d"
    by (rule entries_for_foldl [OF entries_for_mono [OF r(1) s'(3)] py]) simp
  moreover have "ihash ` set ?d = fst ` set (w_pending w) \<union> ihash ` set (w_delta w)"
    using ihash_foldl_push [OF r(2)] py by (simp add: fst_pack_entries entry_ok_def)
  then have "routed (w\<lparr>w_written_pack_sizes := w_written_pack_sizes w @ [length (pack_file (w_pack_buf w))],
      w_delta := ?d, w_pending := [], w_pack_buf := []\<rparr>) objs"
    using r(4) by (auto simp: routed_def)
  ultimately show ?thesis
    using False s' r i(2) by (simp add: flush_pack_def Let_def run_ok_def pending_for_def)
qed

end

section \<open>Whole runs\<close>

definition same_start :: "pack_writer \<Rightarrow> pack_writer \<Rightarrow> bool" where
  "same_start w w' \<longleftrightarrow> w_start_snapshot w' = w_start_snapshot w \<and> w_start_token w' = w_start_token w \<and>
     w_snapshot_root w' = w_snapshot_root w \<and>
     structural_defect (w_bloom w') = structural_defect (w_bloom w) \<and>
     (\<forall>g. may_contain (w_bloom w) g \<longrightarrow> may_contain (w_bloom w') g)"

lemma same_start_refl [simp]: "same_start w w"
  by (simp add: same_start_def)

lemma same_start_trans: "same_start w w' \<Longrightarrow> same_start w' w'' \<Longrightarrow> same_start w w''"
  by (simp add: same_start_def)

lemma structural_defect_insert [simp]:
  "structural_defect (bloom_insert bf h) = structural_defect bf"
  by (simp add: structural_defect_def)

lemma same_start_push:
  "bloom_ok (w_bloom w) \<Longrightarrow>
     same_start w (w\<lparr>w_delta := d, w_bloom := bloom_insert (w_bloom w) h\<rparr>)"
  "bloom_ok (w_bloom w) \<Longrightarrow> same_start w (append_pack w h b)"
  by (simp_all add: same_start_def append_pack_def may_contain_insert_mono)

lemma writer_exists_state:
  assumes "writer_exists cx w s h = Inr (r, w')"
  shows "\<exists>c. w' = w\<lparr>w_cache := c\<rparr>"
proof -
  have "\<exists>c. w = w\<lparr>w_cache := c\<rparr>" by (rule exI [of _ "w_cache w"]) simp
  with assms show ?thesis
    by (auto simp: writer_exists_def index_contains_def rbind_Inr_iff
        split: if_splits option.splits)
qed

lemma run_ok_cache [simp]: "run_ok cx objs (w\<lparr>w_cache := c\<rparr>) s = run_ok cx objs w s"
  by (simp add: run_ok_def routed_def)

lemma sized_for_ok [simp]:
  "bloom_ok (sized_for f n)" "structural_defect (sized_for f n) = None"
  by (auto simp: sized_for_def structural_defect_def bloom_ok_def bloom_new_def bytes_for_def Let_def
      DEFAULT_NUM_HASH_FUNCTIONS_def)

lemma load_remote_bloom_ok:
  assumes "load_remote_bloom cx s snap = Inr bf"
  shows "bloom_ok bf \<and> structural_defect bf = None"
  using assms
  by (auto simp: load_remote_bloom_def Let_def rbind_Inr_iff bloom_deserialise_ok simp del: sized_for_ok(2)
      split: option.splits sum.splits error.splits if_splits)
    (metis sized_for_ok(2))+

lemma pack_writer_new_ok:
  assumes "pack_writer_new cx s pointer oc = Inr w"
  shows "run_ok cx [] w s" "w_start_snapshot w = pointer" "w_start_token w = token_for pointer"
    "decode_snapshot cx pointer = Inr (w_snapshot_root w)" "structural_defect (w_bloom w) = None"
    "load_remote_bloom cx s (w_snapshot_root w) = Inr (w_bloom w)"
proof -
  from assms obtain snap bf where s: "decode_snapshot cx pointer = Inr snap" "load_remote_bloom cx s snap = Inr bf"
    and w: "w = \<lparr>w_cache = \<lparr>ic_indexes = (\<lambda>_. None), ic_objcache = oc\<rparr>, w_delta = [],
                w_pack_buf = [], w_pending = [], w_bloom = bf, w_start_snapshot = pointer,
                w_start_token = token_for pointer, w_snapshot_root = snap, w_written_pack_sizes = []\<rparr>"
    by (auto simp: pack_writer_new_def root_read_def rbind_Inr_iff)
  from s show "decode_snapshot cx pointer = Inr (w_snapshot_root w)"
    "load_remote_bloom cx s (w_snapshot_root w) = Inr (w_bloom w)" by (simp_all add: w)
  from load_remote_bloom_ok [OF s(2)] show "run_ok cx [] w s" "structural_defect (w_bloom w) = None"
    by (simp_all add: w run_ok_def entries_for_def index_sorted_def pending_for_def routed_def functional_def)
  show "w_start_snapshot w = pointer" "w_start_token w = token_for pointer" by (simp_all add: w)
qed

context store_laws
begin

lemma push_run_ok:
  assumes "push_run cx (w0, s0) objs ws" "inv s0" "cx_ops cx = S" "run_ok cx [] w0 s0"
  shows "inv (snd ws) \<and> grows cx s0 (snd ws) \<and> run_ok cx objs (fst ws) (snd ws) \<and> same_start w0 (fst ws)"
  using assms(1)
proof induction
  case start
  then show ?case using assms by simp
next
  case (inline objs w s h b w' s')
  then have IH: "inv s" "grows cx s0 s" "run_ok cx objs w s" "same_start w0 w" by simp_all
  from inline have h: "hash_ok h" by (simp add: same_content_def)
  have r: "w' = w\<lparr>w_delta := index_push (w_delta w) (Inline h b), w_bloom := bloom_insert (w_bloom w) h\<rparr>" "s' = s"
    using inline by (auto simp: route_def)
  from inline have "entry_ok (Inline h b)" by (simp add: entry_ok_def h INLINE_THRESHOLD_def)
  from delta_push_ok [OF IH(3) inline(2) grows_refl this] have "run_ok cx ((h, b) # objs) w' s'"
    by (simp add: r)
  with IH same_start_push(1) [OF run_okD(5) [OF IH(3)]] show ?case by (auto simp: r intro: same_start_trans)
next
  case (append objs w s h b)
  then have IH: "inv s" "grows cx s0 s" "run_ok cx objs w s" "same_start w0 w" by simp_all
  with append_ok [OF IH(3) append(2) append(5)] same_start_push(2) [OF run_okD(5) [OF IH(3)]]
  show ?case by (auto intro: same_start_trans)
next
  case (standalone objs w s h b w' s')
  then have IH: "inv s" "grows cx s0 s" "run_ok cx objs w s" "same_start w0 w" by simp_all
  from standalone have h: "hash_ok h" by (simp add: same_content_def)
  from write_free [OF IH(1) assms(3) standalone(4)] obtain s1 where
    s1: "os_write_from S s h (escape_standalone b) = Inr s1" "inv s1"
      "os_open_read S s1 h = Inr (escape_standalone b)" "grows cx s s1" by blast
  have r: "w' = w\<lparr>w_delta := index_push (w_delta w) (Standalone h), w_bloom := bloom_insert (w_bloom w) h\<rparr>" "s' = s1"
    using standalone s1(1) assms(3) by (auto simp: route_def pack_sizes)
  have "run_ok cx ((h, b) # objs) w' s'"
    unfolding r by (rule delta_push_ok [OF IH(3) standalone(2) s1(4)]) (simp_all add: entry_ok_def h s1 assms(3))
  with IH s1 same_start_push(1) [OF run_okD(5) [OF IH(3)]] show ?case
    by (auto simp: r intro: same_start_trans grows_trans)
next
  case (flush objs w s w' s')
  then have IH: "inv s" "grows cx s0 s" "run_ok cx objs w s" "same_start w0 w" by simp_all
  from flush_ok [OF IH(1) assms(3) IH(3) flush(2)] flush(3) have
    f: "inv s'" "grows cx s s'" "run_ok cx objs w' s'" "same_start w w'" by (auto simp: same_start_def)
  with IH show ?case by (auto intro: same_start_trans grows_trans)
next
  case (lookup objs w s h r w')
  then have IH: "inv s" "grows cx s0 s" "run_ok cx objs w s" "same_start w0 w" by simp_all
  from writer_exists_state [OF lookup(2)] obtain c where "w' = w\<lparr>w_cache := c\<rparr>" ..
  with IH show ?case by (simp add: same_start_def)
qed

end

section \<open>Publication\<close>

definition base_root :: "'s pack_ctx \<Rightarrow> pack_writer \<Rightarrow> index_root result" where
  "base_root cx w =
     (case w_start_snapshot w of None \<Rightarrow> Inr new_empty | Some rawb \<Rightarrow> decode_root cx rawb)"

text \<open>The names the publication writes are free: the last pack file, the delta file and
  the filter.\<close>

definition stored_free :: "'s pack_ctx \<Rightarrow> 's \<Rightarrow> bytes \<Rightarrow> bool" where
  "stored_free cx s plain =
     (let n = compute (sha (cx_env cx)) plain
      in free_for cx s n (encrypt (cx_env cx) plain (cx_key cx) (raw n)))"

definition finish_free :: "'s pack_ctx \<Rightarrow> pack_writer \<Rightarrow> 's \<Rightarrow> bool" where
  "finish_free cx w s \<longleftrightarrow>
     free_for cx s (compute (sha (cx_env cx)) (pack_file (w_pack_buf w))) (pack_file (w_pack_buf w)) \<and>
     (case flush_pack cx w s of Inl _ \<Rightarrow> True
      | Inr (w1, s1) \<Rightarrow>
          (case index_serialise (w_delta w1) of Inl _ \<Rightarrow> True | Inr d \<Rightarrow> stored_free cx s1 d) \<and>
          (case write_delta cx w1 s1 new_empty of Inl _ \<Rightarrow> True
           | Inr (_, s2) \<Rightarrow> stored_free cx s2 (bloom_serialise (w_bloom w1))))"

text \<open>The root a push publishes: the filter of the writer, and the delta file in front of
  the older ones, if the push added anything.\<close>

definition published ::
    "'s pack_ctx \<Rightarrow> 's \<Rightarrow> index_root \<Rightarrow> pack_writer \<Rightarrow> hash \<Rightarrow> index_root \<Rightarrow> bool" where
  "published cx s base w root ir \<longleftrightarrow> remote_root ir = raw root \<and>
     cold_prefix_bits ir = cold_prefix_bits base \<and> cold_shards ir = cold_shards base \<and>
     hot_hash ir = hot_hash base \<and>
     (\<exists>bh. bh = compute (sha (cx_env cx)) (bloom_serialise (w_bloom w)) \<and> hash_ok bh \<and>
        bloom_hash ir = raw bh \<and> bloom_at cx s bh = Inr (w_bloom w)) \<and>
     (if w_delta w = [] then delta_hashes ir = delta_hashes base
      else \<exists>dh. hash_ok dh \<and> delta_hashes ir = raw dh # delta_hashes base \<and>
             index_at cx s dh = Inr (w_delta w))"

lemma decode_root_ok: "decode_root cx rawb = Inr ir \<Longrightarrow> root_ok ir"
  by (auto simp: decode_root_def rbind_Inr_iff root_deserialise_ok)

lemma base_root_ok: "base_root cx w = Inr ir \<Longrightarrow> root_ok ir"
  by (auto simp: base_root_def new_empty_ok decode_root_ok split: option.splits)

lemma write_delta_root:
  "write_delta cx w s ir = rbind (write_delta cx w s new_empty) (\<lambda>(r, s'). Inr (ir\<lparr>delta_hashes :=
     delta_hashes r @ delta_hashes ir\<rparr>, s'))"
  by (cases "index_serialise (w_delta w)")
    (auto simp: write_delta_def new_empty_def Let_def rbind_def split: sum.splits)

lemma length_ihash_set: "index_sorted es \<Longrightarrow> card (ihash ` set es) = length es"
proof -
  assume "index_sorted es"
  then have "distinct (map (hex \<circ> ihash) es)"
    by (simp add: index_sorted_def strict_sorted_iff)
  then have "distinct (map ihash es)" by (simp add: distinct_map inj_on_def)
  then show ?thesis using distinct_card [of "map ihash es"] by simp
qed

lemma delta_length:
  assumes "run_ok cx objs w s"
  shows "length (w_delta w) \<le> length objs"
proof -
  have "ihash ` set (w_delta w) \<subseteq> fst ` set objs"
    using run_okD(1) [OF assms] by (force simp: entries_for_def)
  then have "card (ihash ` set (w_delta w)) \<le> card (fst ` set objs)" by (intro card_mono) simp_all
  also have "\<dots> \<le> length objs" using card_image_le [of "set objs" fst] card_length [of objs] by simp
  finally show ?thesis using length_ihash_set [OF run_okD(2) [OF assms]] by simp
qed

lemma delta_ok: "run_ok cx objs w s \<Longrightarrow> length objs < 2 ^ 32 \<Longrightarrow> index_ok (w_delta w)"
  using delta_length [of cx objs w s]
  by (auto simp: run_ok_def entries_for_def index_ok_def index_sorted_def)

context store_laws
begin

lemma store_plain:
  assumes "inv s" "cx_ops cx = S" "gcm_opens (cx_env cx)" "stored_free cx s plain"
  defines "n \<equiv> compute (sha (cx_env cx)) plain"
  shows "hash_ok n \<and> (\<exists>s'. os_write_from S s n (encrypt (cx_env cx) plain (cx_key cx) (raw n)) = Inr s' \<and> inv s' \<and>
    grows cx s s' \<and> stored_plain cx s' n = Inr plain)"
proof -
  have f: "free_for cx s n (encrypt (cx_env cx) plain (cx_key cx) (raw n))"
    using assms(4) by (simp add: stored_free_def n_def Let_def)
  then have "hash_ok n" by (simp add: free_for_def)
  moreover from write_free [OF assms(1,2) f] obtain s' where
    "os_write_from S s n (encrypt (cx_env cx) plain (cx_key cx) (raw n)) = Inr s'" "inv s'" "grows cx s s'"
    "os_open_read S s' n = Inr (encrypt (cx_env cx) plain (cx_key cx) (raw n))" by blast
  ultimately show ?thesis using decrypt_encrypt [OF assms(3)] by (auto simp: stored_plain_def assms(2))
qed

lemma write_delta_ok:
  assumes "inv s" "cx_ops cx = S" "gcm_opens (cx_env cx)" "index_ok (w_delta w)"
    and free: "\<And>d. index_serialise (w_delta w) = Inr d \<Longrightarrow> stored_free cx s d"
  shows "\<exists>ir s'. write_delta cx w s base = Inr (ir, s') \<and> inv s' \<and> grows cx s s' \<and>
    (if w_delta w = [] then ir = base
     else \<exists>dh. hash_ok dh \<and> ir = base\<lparr>delta_hashes := raw dh # delta_hashes base\<rparr> \<and> index_at cx s' dh = Inr (w_delta w))"
proof (cases "w_delta w = []")
  case True
  with assms(1) show ?thesis by (simp add: write_delta_def)
next
  case False
  from index_wire.ser_total [OF assms(4)] obtain d where d: "index_serialise (w_delta w) = Inr d" ..
  from index_wire.roundtrip [OF assms(4) d] have i: "index_deserialise d = Inr (w_delta w)" .
  from store_plain [OF assms(1-3) free [OF d]] False d i show ?thesis
    by (auto simp: write_delta_def Let_def assms(2) index_at_def
        intro!: exI [of _ "compute (sha (cx_env cx)) d"])
qed

lemma finish_ok:
  assumes i: "inv s" "cx_ops cx = S" "gcm_opens (cx_env cx)" and run: "run_ok cx objs w s"
    and sizes: "length objs < 2 ^ 32" "length (delta_hashes base) < 65535" "length nonce = 12" "hash_ok root"
    and base: "base_root cx w = Inr base" and free: "finish_free cx w s"
    and tok: "token_for pointer = w_start_token w"
  shows "\<exists>n w1 s1 rawb ir. finish cx w s pointer root nonce = Inr (n, w1, s1, Some rawb) \<and> inv s1 \<and> grows cx s s1 \<and>
    run_ok cx objs w1 s1 \<and> w_pending w1 = [] \<and> w_bloom w1 = w_bloom w \<and>
    decode_root cx rawb = Inr ir \<and> published cx s1 base w1 root ir"
proof -
  from free have f1: "free_for cx s (compute (sha (cx_env cx)) (pack_file (w_pack_buf w))) (pack_file (w_pack_buf w))"
    by (simp add: finish_free_def)
  from flush_ok [OF i(1,2) run f1] obtain w1 s1 where
    fl: "flush_pack cx w s = Inr (w1, s1)" "inv s1" "grows cx s s1" "run_ok cx objs w1 s1" "w_pending w1 = []"
      "w_start_snapshot w1 = w_start_snapshot w" "w_start_token w1 = w_start_token w" "w_bloom w1 = w_bloom w" by blast
  have b1: "(case w_start_snapshot w1 of None \<Rightarrow> Inr new_empty | Some rawb \<Rightarrow> decode_root cx rawb) = Inr base"
    using base by (simp add: base_root_def fl(6))
  have "\<And>d. index_serialise (w_delta w1) = Inr d \<Longrightarrow> stored_free cx s1 d"
    using free by (auto simp: finish_free_def fl(1))
  from write_delta_ok [OF fl(2) i(2,3) delta_ok [OF fl(4) sizes(1)] this, of base] obtain ir2 s2 where
    wd: "write_delta cx w1 s1 base = Inr (ir2, s2)" "inv s2" "grows cx s1 s2"
      "if w_delta w1 = [] then ir2 = base else \<exists>dh. hash_ok dh \<and> ir2 = base\<lparr>delta_hashes := raw dh # delta_hashes base\<rparr> \<and>
         index_at cx s2 dh = Inr (w_delta w1)" by blast
  have "\<exists>r. write_delta cx w1 s1 new_empty = Inr (r, s2)"
    using wd(1) by (subst (asm) write_delta_root) (auto simp: rbind_Inr_iff)
  then have "stored_free cx s2 (bloom_serialise (w_bloom w1))"
    using free by (auto simp: finish_free_def fl(1))
  from store_plain [OF wd(2) i(2,3) this] obtain s3 where
    wb: "write_bloom cx w1 s2 = Inr (compute (sha (cx_env cx)) (bloom_serialise (w_bloom w1)), s3)"
      "inv s3" "grows cx s2 s3" and
    bh: "hash_ok (compute (sha (cx_env cx)) (bloom_serialise (w_bloom w1)))"
      "stored_plain cx s3 (compute (sha (cx_env cx)) (bloom_serialise (w_bloom w1))) = Inr (bloom_serialise (w_bloom w1))"
    by (auto simp: write_bloom_def Let_def i(2))
  let ?bh = "compute (sha (cx_env cx)) (bloom_serialise (w_bloom w1))"
  let ?ir = "ir2\<lparr>remote_root := raw root, bloom_hash := raw ?bh\<rparr>"
  have "root_ok base" using base by (rule base_root_ok)
  moreover have "length (raw root) = 32" "length (raw ?bh) = 32" using sizes(4) bh(1) by (simp_all add: hash_ok_def)
  ultimately have "root_ok ?ir"
    using wd(4) sizes(2) by (auto simp: root_ok_def hash_ok_def split: if_splits)
  from decrypt_encrypt_root [OF i(3) sizes(3) this] obtain rawb where
    rb: "encrypt_index_root_bytes (cx_env cx) ?ir (cx_key cx) nonce = Inr rawb" "decode_root cx rawb = Inr ?ir"
    by (auto simp: decode_root_def)
  have "finish cx w s pointer root nonce = Inr (length (delta_hashes ?ir), w1, s3, Some rawb)"
    using fl(1) b1 wd(1) wb(1) rb(1) tok by (simp add: finish_def Let_def cas_write_def fl(7))
  moreover have "bloom_at cx s3 ?bh = Inr (w_bloom w1)"
    by (simp add: bloom_at_def bh(2) bloom_deserialise_serialise run_okD(5) [OF fl(4)])
  then have "published cx s3 base w1 root ?ir"
    using wd(4) bh(1) index_at_grows [OF wb(3)] by (auto simp: published_def split: if_splits)
  moreover have g: "grows cx s1 s3" using grows_trans [OF wd(3) wb(3)] .
  moreover have "run_ok cx objs w1 s3"
    using fl(4) entries_for_mono [OF _ g subset_refl] by (simp add: run_ok_def)
  ultimately show ?thesis
    using rb(2) fl wb(2) grows_trans [OF fl(3) g] by blast
qed

end

end
