(* ===== verification/PackReader.thy ===== *)
theory PackReader
  imports PackWriter
begin

text \<open>
  The pack reader (\<open>src/src/codec/pack/reader.rs\<close>): the retained index-root snapshot,
  the lookup through delta, hot and cold index files with its two shortcuts (a cold shard that
  is already cached is searched first, and the Bloom filter may rule the cold shard out), the
  reading of inline, packed and standalone objects, and the operations on top of them. The
  remote and the content of the root pointer are arguments, since the reader only reads them.
\<close>

section \<open>State\<close>

definition PACK_BODY_OFFSET :: nat where "PACK_BODY_OFFSET = 2"

text \<open>\<open>Loading\<close> is held only while another thread reads the root, so it is not a
  state between two operations.\<close>

datatype snapshot_state = Empty | Ready "index_root option"

record pack_reader =
  rd_local_cache :: objects_backend
  rd_packcache :: objects_backend
  rd_cache :: index_cache
  rd_index_root :: snapshot_state
  rd_bloom :: "hash \<Rightarrow> bloom option"

definition pack_reader_new :: "objects_backend \<Rightarrow> objects_backend \<Rightarrow> objects_backend \<Rightarrow> pack_reader" where
  "pack_reader_new local_cache packcache objcache =
     \<lparr>rd_local_cache = local_cache, rd_packcache = packcache,
      rd_cache = \<lparr>ic_indexes = (\<lambda>_. None), ic_objcache = objcache\<rparr>,
      rd_index_root = Empty, rd_bloom = (\<lambda>_. None)\<rparr>"

datatype located = Entry index_entry | NotFound | NoIndexRoot

section \<open>The index root and the filter\<close>

definition read_index_root ::
    "'s pack_ctx \<Rightarrow> bytes option \<Rightarrow> pack_reader \<Rightarrow> (index_root option \<times> pack_reader) result" where
  "read_index_root cx pointer rd =
     (case rd_index_root rd of
        Ready r \<Rightarrow> Inr (r, rd)
      | Empty \<Rightarrow> rbind (decode_snapshot cx (fst (root_read pointer))) (\<lambda>r.
                   Inr (r, rd\<lparr>rd_index_root := Ready r\<rparr>)))"

definition read_root ::
    "'s pack_ctx \<Rightarrow> bytes option \<Rightarrow> pack_reader \<Rightarrow> (hash option \<times> pack_reader) result" where
  "read_root cx pointer rd =
     rbind (read_index_root cx pointer rd) (\<lambda>(r, rd').
       Inr (case r of None \<Rightarrow> None | Some ir \<Rightarrow> remote_root_hash ir, rd'))"

definition load_bloom_filter ::
    "'s pack_ctx \<Rightarrow> 's \<Rightarrow> hash \<Rightarrow> pack_reader \<Rightarrow> (bloom \<times> pack_reader) result" where
  "load_bloom_filter cx s h rd =
     (case rd_bloom rd h of
        Some bf \<Rightarrow> Inr (bf, rd)
      | None \<Rightarrow>
          rbind (load_cached_plaintext (cx_env cx) (cx_ops cx) s cache_store (ic_objcache (rd_cache rd))
                   (cx_key cx) h) (\<lambda>(plaintext, oc).
          rbind (bloom_deserialise plaintext) (\<lambda>bf.
            Inr (bf, rd\<lparr>rd_cache := (rd_cache rd)\<lparr>ic_objcache := oc\<rparr>, rd_bloom := (rd_bloom rd)(h \<mapsto> bf)\<rparr>))))"

section \<open>Lookup\<close>

definition search ::
    "'s pack_ctx \<Rightarrow> 's \<Rightarrow> hash \<Rightarrow> hash list \<Rightarrow> pack_reader \<Rightarrow> (index_entry option \<times> pack_reader) result" where
  "search cx s h ns rd =
     rbind (search_indexes cx s h ns (rd_cache rd)) (\<lambda>(hit, c). Inr (hit, rd\<lparr>rd_cache := c\<rparr>))"

text \<open>Steps 4a and 6: the filter, then the cold shard that is not cached.\<close>

definition bloom_rules_out ::
    "'s pack_ctx \<Rightarrow> 's \<Rightarrow> index_root \<Rightarrow> hash \<Rightarrow> pack_reader \<Rightarrow> (bool \<times> pack_reader) result" where
  "bloom_rules_out cx s ir h rd =
     (case bloom_hash_opt ir of
        None \<Rightarrow> Inr (False, rd)
      | Some bh \<Rightarrow> rbind (load_bloom_filter cx s bh rd) (\<lambda>(bf, rd').
                     if structural_defect bf \<noteq> None then Inr (False, rd')
                     else Inr (\<not> may_contain bf h, rd')))"

definition locate_cold ::
    "'s pack_ctx \<Rightarrow> 's \<Rightarrow> index_root \<Rightarrow> hash \<Rightarrow> pack_reader \<Rightarrow> (located \<times> pack_reader) result" where
  "locate_cold cx s ir h rd =
     rbind (bloom_rules_out cx s ir h rd) (\<lambda>(out, rd).
       if out then Inr (NotFound, rd)
       else case cold_shard_hash_for h ir of
              None \<Rightarrow> Inr (NotFound, rd)
            | Some sh \<Rightarrow> rbind (search cx s h [sh] rd) (\<lambda>(hit, rd).
                           Inr (case hit of Some e \<Rightarrow> Entry e | None \<Rightarrow> NotFound, rd)))"

definition locate ::
    "'s pack_ctx \<Rightarrow> 's \<Rightarrow> bytes option \<Rightarrow> hash \<Rightarrow> pack_reader \<Rightarrow> (located \<times> pack_reader) result" where
  "locate cx s pointer h rd =
     rbind (read_index_root cx pointer rd) (\<lambda>(root, rd).
       case root of
         None \<Rightarrow> Inr (NoIndexRoot, rd)
       | Some ir \<Rightarrow>
           rbind (search cx s h (recent_indexes ir) rd) (\<lambda>(hit, rd).
             case hit of
               Some e \<Rightarrow> Inr (Entry e, rd)
             | None \<Rightarrow>
                 (case cold_shard_hash_for h ir of
                    None \<Rightarrow> locate_cold cx s ir h rd
                  | Some sh \<Rightarrow>
                      rbind (os_exists cache_store (ic_objcache (rd_cache rd)) sh) (\<lambda>warm.
                        if warm
                        then rbind (search cx s h [sh] rd) (\<lambda>(hit, rd).
                               Inr (case hit of Some e \<Rightarrow> Entry e | None \<Rightarrow> NotFound, rd))
                        else locate_cold cx s ir h rd))))"

section \<open>Reading bodies\<close>

definition unescape_standalone :: "bytes \<Rightarrow> bytes" where
  "unescape_standalone b = (if 2 \<le> length b \<and> b ! 0 = 0xED \<and> b ! 1 = 0xE0 then drop 2 b else b)"

definition cached_slice :: "objects_backend \<Rightarrow> hash \<Rightarrow> u32 \<Rightarrow> u32 \<Rightarrow> bytes result" where
  "cached_slice pc pack_hash off len =
     rbind (cache_size pc pack_hash) (\<lambda>pack_size.
       let skip = PACK_BODY_OFFSET + unat off; needed_end = skip + unat len
       in if 2 ^ 64 \<le> needed_end then Inl (InvalidObject ''pack slice offset overflows'')
          else if pack_size < needed_end
          then Inl (InvalidObject ''pack slice exceeds cached pack file size'')
          else rbind (os_open_read cache_store pc pack_hash) (\<lambda>body. Inr (subslice skip needed_end body)))"

definition fetch_pack_slice ::
    "'s pack_ctx \<Rightarrow> 's \<Rightarrow> hash \<Rightarrow> u32 \<Rightarrow> u32 \<Rightarrow> pack_reader \<Rightarrow> (bytes \<times> pack_reader) result" where
  "fetch_pack_slice cx s pack_hash off len rd =
     rbind (os_exists cache_store (rd_packcache rd) pack_hash) (\<lambda>cached.
     rbind (if cached then Inr (rd_packcache rd)
            else rbind (os_open_read (cx_ops cx) s pack_hash) (\<lambda>body.
                   os_write_from cache_store (rd_packcache rd) pack_hash body)) (\<lambda>pc.
     rbind (cached_slice pc pack_hash off len) (\<lambda>buf. Inr (buf, rd\<lparr>rd_packcache := pc\<rparr>))))"

definition fetch_from_remote_direct :: "'s pack_ctx \<Rightarrow> 's \<Rightarrow> hash \<Rightarrow> bytes result" where
  "fetch_from_remote_direct cx s h =
     rbind (os_open_read (cx_ops cx) s h) (\<lambda>b. Inr (unescape_standalone b))"

fun resolve_entry ::
    "'s pack_ctx \<Rightarrow> 's \<Rightarrow> index_entry \<Rightarrow> hash \<Rightarrow> pack_reader \<Rightarrow> (bytes \<times> pack_reader) result" where
  "resolve_entry cx s (Inline _ d) h rd = Inr (d, rd)"
| "resolve_entry cx s (PackE _ p off len) h rd = fetch_pack_slice cx s p off len rd"
| "resolve_entry cx s (Standalone _) h rd =
     rbind (os_open_read (cx_ops cx) s h) (\<lambda>b. Inr (unescape_standalone b, rd))"

definition resolve ::
    "'s pack_ctx \<Rightarrow> 's \<Rightarrow> bytes option \<Rightarrow> hash \<Rightarrow> pack_reader \<Rightarrow> (bytes \<times> pack_reader) result" where
  "resolve cx s pointer h rd =
     rbind (locate cx s pointer h rd) (\<lambda>(l, rd).
       case l of
         Entry e \<Rightarrow> resolve_entry cx s e h rd
       | NotFound \<Rightarrow> Inl (ObjectNotFound (hex h))
       | NoIndexRoot \<Rightarrow> rbind (fetch_from_remote_direct cx s h) (\<lambda>b. Inr (b, rd)))"

definition resolve_diagnostic ::
    "'s pack_ctx \<Rightarrow> 's \<Rightarrow> bytes option \<Rightarrow> hash \<Rightarrow> pack_reader \<Rightarrow> (bytes \<times> bool \<times> pack_reader) result" where
  "resolve_diagnostic cx s pointer h rd =
     rbind (locate cx s pointer h rd) (\<lambda>(l, rd).
       case l of
         Entry e \<Rightarrow> rbind (resolve_entry cx s e h rd) (\<lambda>(b, rd). Inr (b, False, rd))
       | NoIndexRoot \<Rightarrow> rbind (fetch_from_remote_direct cx s h) (\<lambda>b. Inr (b, False, rd))
       | NotFound \<Rightarrow>
           rbind (os_exists (cx_ops cx) s h) (\<lambda>ex.
             if ex then rbind (fetch_from_remote_direct cx s h) (\<lambda>b. Inr (b, True, rd))
             else Inl (ObjectNotFound (hex h))))"

section \<open>The \<open>ObjectStore\<close> operations\<close>

definition reader_exists ::
    "'s pack_ctx \<Rightarrow> 's \<Rightarrow> bytes option \<Rightarrow> hash \<Rightarrow> pack_reader \<Rightarrow> (bool \<times> pack_reader) result" where
  "reader_exists cx s pointer h rd =
     rbind (os_exists cache_store (rd_local_cache rd) h) (\<lambda>hit.
       if hit then Inr (True, rd)
       else rbind (locate cx s pointer h rd) (\<lambda>(l, rd).
              Inr (l \<noteq> NotFound \<and> l \<noteq> NoIndexRoot, rd)))"

definition reader_open_read ::
    "'s pack_ctx \<Rightarrow> 's \<Rightarrow> bytes option \<Rightarrow> hash \<Rightarrow> pack_reader \<Rightarrow> (bytes \<times> pack_reader) result" where
  "reader_open_read cx s pointer h rd =
     rbind (os_exists cache_store (rd_local_cache rd) h) (\<lambda>hit.
       if hit then rbind (os_open_read cache_store (rd_local_cache rd) h) (\<lambda>b. Inr (b, rd))
       else resolve cx s pointer h rd)"

definition reader_write_from :: "pack_reader \<Rightarrow> hash \<Rightarrow> bytes \<Rightarrow> pack_reader result" where
  "reader_write_from rd h b =
     rbind (os_write_from cache_store (rd_local_cache rd) h b) (\<lambda>lc. Inr (rd\<lparr>rd_local_cache := lc\<rparr>))"

section \<open>Prefix resolution\<close>

fun scan_indexes ::
    "'s pack_ctx \<Rightarrow> 's \<Rightarrow> string \<Rightarrow> hash list \<Rightarrow> index_cache \<Rightarrow> (string list \<times> index_cache) result" where
  "scan_indexes cx s p [] c = Inr ([], c)"
| "scan_indexes cx s p (n # ns) c =
     rbind (load_resident_index cx s n c) (\<lambda>(idx, c).
     rbind (scan_indexes cx s p ns c) (\<lambda>(ms, c).
       Inr (filter (prefix p) (map (hex \<circ> ihash) idx) @ ms, c)))"

definition all_indexes :: "index_root \<Rightarrow> hash list" where
  "all_indexes ir = recent_indexes ir @ List.map_filter (cold_shard_hash ir) [0..<cold_shard_count ir]"

definition resolve_prefix ::
    "'s pack_ctx \<Rightarrow> 's \<Rightarrow> bytes option \<Rightarrow> string \<Rightarrow> pack_reader \<Rightarrow> (hash list \<times> pack_reader) result" where
  "resolve_prefix cx s pointer p rd =
     rbind (read_index_root cx pointer rd) (\<lambda>(root, rd).
       case root of
         None \<Rightarrow> Inr ([], rd)
       | Some ir \<Rightarrow>
           rbind (scan_indexes cx s p (all_indexes ir) (rd_cache rd)) (\<lambda>(ms, c).
             Inr (List.map_filter (\<lambda>x. case from_hex x of Inl _ \<Rightarrow> None | Inr h \<Rightarrow> Some h)
                    (remdups_adj (sort ms)), rd\<lparr>rd_cache := c\<rparr>)))"

section \<open>Readers that agree with the remote\<close>

definition reader_ok :: "'s pack_ctx \<Rightarrow> 's \<Rightarrow> bytes option \<Rightarrow> pack_reader \<Rightarrow> bool" where
  "reader_ok cx s pointer rd \<longleftrightarrow> cache_ok cx s (rd_cache rd) \<and> backend_ok (rd_local_cache rd) \<and>
     backend_ok (rd_packcache rd) \<and>
     (\<forall>n b. hash_ok n \<longrightarrow> backend_view (rd_packcache rd) (hex n) = Some b \<longrightarrow> os_open_read (cx_ops cx) s n = Inr b) \<and>
     (\<forall>r. rd_index_root rd = Ready r \<longrightarrow> decode_snapshot cx pointer = Inr r) \<and>
     (\<forall>n bf. rd_bloom rd n = Some bf \<longrightarrow> bloom_at cx s n = Inr bf)"

lemma reader_okD:
  assumes "reader_ok cx s pointer rd"
  shows "cache_ok cx s (rd_cache rd)" "backend_ok (rd_local_cache rd)" "backend_ok (rd_packcache rd)"
    "\<And>n b. hash_ok n \<Longrightarrow> backend_view (rd_packcache rd) (hex n) = Some b \<Longrightarrow> os_open_read (cx_ops cx) s n = Inr b"
    "\<And>r. rd_index_root rd = Ready r \<Longrightarrow> decode_snapshot cx pointer = Inr r"
    "\<And>n bf. rd_bloom rd n = Some bf \<Longrightarrow> bloom_at cx s n = Inr bf"
  using assms by (simp_all add: reader_ok_def)

text \<open>A new reader over empty cache directories agrees with every remote.\<close>

lemma reader_new_ok:
  assumes "backend_ok lc" "backend_ok pc" "backend_ok oc"
    "\<And>n. hash_ok n \<Longrightarrow> backend_view pc (hex n) = None" "\<And>n. hash_ok n \<Longrightarrow> backend_view oc (hex n) = None"
  shows "reader_ok cx s pointer (pack_reader_new lc pc oc)"
  using assms by (simp add: reader_ok_def pack_reader_new_def cache_ok_def)

text \<open>The filter of the root does not rule out an object that the cold shard lists.\<close>

definition covers :: "'s pack_ctx \<Rightarrow> 's \<Rightarrow> index_root \<Rightarrow> hash \<Rightarrow> bool" where
  "covers cx s ir h \<longleftrightarrow>
     (case bloom_hash_opt ir of None \<Rightarrow> True
      | Some bh \<Rightarrow> hash_ok bh \<and>
          (case bloom_at cx s bh of Inl _ \<Rightarrow> False
           | Inr bf \<Rightarrow> structural_defect bf \<noteq> None \<or> may_contain bf h \<or>
               first_hit cx s h (case cold_shard_hash_for h ir of None \<Rightarrow> [] | Some n \<Rightarrow> [n]) = None))"

lemma read_index_root_ok:
  assumes "reader_ok cx s pointer rd" "decode_snapshot cx pointer = Inr r"
  shows "\<exists>rd'. read_index_root cx pointer rd = Inr (r, rd') \<and> reader_ok cx s pointer rd' \<and>
    rd_local_cache rd' = rd_local_cache rd"
proof (cases "rd_index_root rd")
  case Empty
  with assms show ?thesis by (auto simp: read_index_root_def root_read_def reader_ok_def)
next
  case (Ready r')
  with assms reader_okD(5) [OF assms(1) Ready] show ?thesis by (auto simp: read_index_root_def)
qed

lemma unescape_escape: "unescape_standalone (escape_standalone b) = b"
  by (auto simp: escape_standalone_def unescape_standalone_def needs_standalone_escape_def
      STANDALONE_ESCAPE_MAGIC_def)

lemma cache_exists: "backend_ok b \<Longrightarrow> hash_ok h \<Longrightarrow>
    os_exists cache_store b h = Inr (backend_view b (hex h) \<noteq> None)"
  by (rule store_laws.exists_view [OF cache_store_laws])

lemma cache_read: "backend_ok b \<Longrightarrow> hash_ok h \<Longrightarrow>
    os_open_read cache_store b h = ok_or (backend_view b (hex h)) (ObjectNotFound (hex h))"
  by (rule store_laws.read_view [OF cache_store_laws])

lemma cache_size_view:
  assumes "backend_ok b" "hash_ok h" "backend_view b (hex h) = Some x"
  shows "cache_size b h = Inr (length x)"
  using backend_size_view [OF assms(1) hexname_hash [OF assms(2)]] assms(3) by (simp add: cache_size_def)

lemma slice_of_cached:
  assumes "backend_ok pc" "hash_ok p" "backend_view pc (hex p) = Some body"
    "2 + unat off + unat len \<le> length body"
  shows "cached_slice pc p off len = Inr (subslice (2 + unat off) (2 + unat off + unat len) body)"
proof -
  have "2 + unat off + unat len < 18446744073709551616"
    using unat_bounds(3) [of off] unat_bounds(3) [of len] by linarith
  with assms show ?thesis
    by (simp add: cached_slice_def cache_size_view cache_read PACK_BODY_OFFSET_def Let_def not_le not_less)
qed

context store_laws
begin

lemma search_reader_ok:
  assumes "inv s" "cx_ops cx = S" "reader_ok cx s pointer rd" "loadable cx s ns"
  shows "\<exists>rd'. search cx s h ns rd = Inr (first_hit cx s h ns, rd') \<and> reader_ok cx s pointer rd' \<and>
    rd_local_cache rd' = rd_local_cache rd"
  using search_ok [OF assms(1,2) reader_okD(1) [OF assms(3)] assms(4), of h] assms(3)
  by (auto simp: search_def reader_ok_def)

lemma load_bloom_ok:
  assumes "inv s" "cx_ops cx = S" "reader_ok cx s pointer rd" "hash_ok n" "bloom_at cx s n = Inr bf"
  shows "\<exists>rd'. load_bloom_filter cx s n rd = Inr (bf, rd') \<and> reader_ok cx s pointer rd' \<and>
    rd_local_cache rd' = rd_local_cache rd"
proof (cases "rd_bloom rd n")
  case None
  from assms(5) obtain x where x: "stored_plain cx s n = Inr x" "bloom_deserialise x = Inr bf"
    by (auto simp: bloom_at_def rbind_Inr_iff)
  from load_plain_ok [OF assms(1,2) reader_okD(1) [OF assms(3)] assms(4) x(1)] obtain oc where
    oc: "load_cached_plaintext (cx_env cx) S s cache_store (ic_objcache (rd_cache rd)) (cx_key cx) n = Inr (x, oc)"
    "cache_ok cx s ((rd_cache rd)\<lparr>ic_objcache := oc\<rparr>)" by blast
  with None x(2) assms(2,3,5) show ?thesis by (auto simp: load_bloom_filter_def reader_ok_def)
next
  case (Some bf')
  with reader_okD(6) [OF assms(3) Some] assms(3,5) show ?thesis by (auto simp: load_bloom_filter_def)
qed

lemma locate_cold_ok:
  assumes "inv s" "cx_ops cx = S" "reader_ok cx s pointer rd" "covers cx s ir h"
    and ld: "loadable cx s (case cold_shard_hash_for h ir of None \<Rightarrow> [] | Some n \<Rightarrow> [n])"
  shows "\<exists>rd'. locate_cold cx s ir h rd =
      Inr (case first_hit cx s h (case cold_shard_hash_for h ir of None \<Rightarrow> [] | Some n \<Rightarrow> [n]) of
             Some e \<Rightarrow> Entry e | None \<Rightarrow> NotFound, rd') \<and> reader_ok cx s pointer rd' \<and>
    rd_local_cache rd' = rd_local_cache rd"
proof -
  let ?c = "case cold_shard_hash_for h ir of None \<Rightarrow> [] | Some n \<Rightarrow> [n]"
  have "\<exists>out rd1. bloom_rules_out cx s ir h rd = Inr (out, rd1) \<and> reader_ok cx s pointer rd1 \<and>
      rd_local_cache rd1 = rd_local_cache rd \<and> (out \<longrightarrow> first_hit cx s h ?c = None)"
  proof (cases "bloom_hash_opt ir")
    case None
    with assms(3) show ?thesis by (auto simp: bloom_rules_out_def)
  next
    case (Some bh)
    with assms(4) obtain bf where bf: "hash_ok bh" "bloom_at cx s bh = Inr bf"
      "structural_defect bf \<noteq> None \<or> may_contain bf h \<or> first_hit cx s h ?c = None"
      by (auto simp: covers_def split: sum.splits)
    from load_bloom_ok [OF assms(1-3) bf(1,2)] obtain rd1 where
      rd1: "load_bloom_filter cx s bh rd = Inr (bf, rd1)" "reader_ok cx s pointer rd1"
      "rd_local_cache rd1 = rd_local_cache rd" by blast
    show ?thesis
    proof (cases "structural_defect bf")
      case None
      with Some bf(3) rd1 show ?thesis by (auto simp: bloom_rules_out_def)
    next
      case (Some d)
      with \<open>bloom_hash_opt ir = Some bh\<close> rd1 show ?thesis by (auto simp: bloom_rules_out_def)
    qed
  qed
  then obtain out rd1 where o: "bloom_rules_out cx s ir h rd = Inr (out, rd1)" "reader_ok cx s pointer rd1"
    "rd_local_cache rd1 = rd_local_cache rd" "out \<longrightarrow> first_hit cx s h ?c = None" by blast
  show ?thesis
  proof (cases "cold_shard_hash_for h ir")
    case None
    with o show ?thesis by (simp add: locate_cold_def)
  next
    case (Some sh)
    with ld have "loadable cx s [sh]" by simp
    from search_reader_ok [OF assms(1,2) o(2) this, of h] o Some show ?thesis
      by (cases out) (auto simp: locate_cold_def)
  qed
qed

lemma locate_ok:
  assumes "inv s" "cx_ops cx = S" "reader_ok cx s pointer rd" "decode_snapshot cx pointer = Inr (Some ir)"
    and ld: "loadable cx s (indexes_for h ir)" and cov: "covers cx s ir h"
  shows "\<exists>rd'. locate cx s pointer h rd =
      Inr (case first_hit cx s h (indexes_for h ir) of Some e \<Rightarrow> Entry e | None \<Rightarrow> NotFound, rd') \<and>
    reader_ok cx s pointer rd' \<and> rd_local_cache rd' = rd_local_cache rd"
proof -
  let ?c = "case cold_shard_hash_for h ir of None \<Rightarrow> [] | Some n \<Rightarrow> [n]"
  have ld1: "loadable cx s (recent_indexes ir)" and ld2: "loadable cx s ?c"
    using ld by (auto simp: indexes_for_def)
  have fh: "first_hit cx s h (indexes_for h ir) =
      (case first_hit cx s h (recent_indexes ir) of Some e \<Rightarrow> Some e | None \<Rightarrow> first_hit cx s h ?c)"
    unfolding indexes_for_def by (rule first_hit_append [OF ld1])
  from read_index_root_ok [OF assms(3,4)] obtain rd1 where
    r1: "read_index_root cx pointer rd = Inr (Some ir, rd1)" "reader_ok cx s pointer rd1"
    "rd_local_cache rd1 = rd_local_cache rd" by blast
  from search_reader_ok [OF assms(1,2) r1(2) ld1, of h] obtain rd2 where
    r2: "search cx s h (recent_indexes ir) rd1 = Inr (first_hit cx s h (recent_indexes ir), rd2)"
    "reader_ok cx s pointer rd2" "rd_local_cache rd2 = rd_local_cache rd" using r1(3) by auto
  show ?thesis
  proof (cases "first_hit cx s h (recent_indexes ir)")
    case (Some e)
    with r1 r2 fh show ?thesis by (simp add: locate_def)
  next
    case None
    note miss = None
    from locate_cold_ok [OF assms(1,2) r2(2) cov ld2] obtain rd3 where
      r3: "locate_cold cx s ir h rd2 = Inr (case first_hit cx s h ?c of Some e \<Rightarrow> Entry e | None \<Rightarrow> NotFound, rd3)"
      "reader_ok cx s pointer rd3" "rd_local_cache rd3 = rd_local_cache rd" using r2(3) by auto
    show ?thesis
    proof (cases "cold_shard_hash_for h ir")
      case None
      with miss r1 r2 r3 fh show ?thesis by (simp add: locate_def)
    next
      case (Some sh)
      with ld2 have sh: "loadable cx s [sh]" "hash_ok sh" by auto
      from search_reader_ok [OF assms(1,2) r2(2) sh(1), of h] obtain rd4 where
        r4: "search cx s h [sh] rd2 = Inr (first_hit cx s h [sh], rd4)" "reader_ok cx s pointer rd4"
        "rd_local_cache rd4 = rd_local_cache rd" using r2(3) by auto
      have ex: "os_exists cache_store (ic_objcache (rd_cache rd2)) sh =
          Inr (backend_view (ic_objcache (rd_cache rd2)) (hex sh) \<noteq> None)"
        using reader_okD(1) [OF r2(2)] sh(2) by (intro cache_exists) (simp_all add: cache_ok_def)
      have fh2: "first_hit cx s h (indexes_for h ir) = first_hit cx s h [sh]" using fh miss Some by simp
      show ?thesis
        unfolding locate_def r1(1) fh2 using miss r2(1) r3 r4 ex Some by (simp del: first_hit.simps)
    qed
  qed
qed

lemma fetch_pack_slice_ok:
  assumes "inv s" "cx_ops cx = S" "reader_ok cx s pointer rd" "hash_ok p"
    "os_open_read S s p = Inr body" "2 + unat off + unat len \<le> length body"
  shows "\<exists>rd'. fetch_pack_slice cx s p off len rd =
      Inr (subslice (2 + unat off) (2 + unat off + unat len) body, rd') \<and> reader_ok cx s pointer rd'"
proof -
  note r = reader_okD [OF assms(3)]
  have ex: "os_exists cache_store (rd_packcache rd) p = Inr (backend_view (rd_packcache rd) (hex p) \<noteq> None)"
    using r(3) assms(4) by (rule cache_exists)
  show ?thesis
  proof (cases "backend_view (rd_packcache rd) (hex p)")
    case (Some b)
    with r(4) [OF assms(4) Some] assms(2,5) have v: "backend_view (rd_packcache rd) (hex p) = Some body" by simp
    with ex slice_of_cached [OF r(3) assms(4) v assms(6)] assms(3) show ?thesis
      by (simp add: fetch_pack_slice_def)
  next
    case None
    from store_laws.write_view [OF cache_store_laws r(3) assms(4) disjI1 [OF None], of body] obtain pc where
      pc: "os_write_from cache_store (rd_packcache rd) p body = Inr pc" "backend_ok pc"
      and v: "\<And>g. hash_ok g \<Longrightarrow> backend_view pc (hex g) =
        (if g = p then Some body else backend_view (rd_packcache rd) (hex g))"
      by auto
    have vp: "backend_view pc (hex p) = Some body" using v [OF assms(4)] None by simp
    have "os_open_read S s n = Inr b" if "hash_ok n" "backend_view pc (hex n) = Some b" for n b
      using that v [OF that(1)] r(4) [OF that(1)] assms(2,5) by (cases "n = p") (auto simp: vp)
    then have "reader_ok cx s pointer (rd\<lparr>rd_packcache := pc\<rparr>)"
      using assms(2,3) pc(2) by (simp add: reader_ok_def)
    with None ex pc(1) slice_of_cached [OF pc(2) assms(4) vp assms(6)] assms(2,5) show ?thesis
      by (simp add: fetch_pack_slice_def)
  qed
qed

lemma resolve_entry_ok:
  assumes "inv s" "cx_ops cx = S" "reader_ok cx s pointer rd" "entry_yields cx s e b" "ihash e = h"
  shows "\<exists>rd'. resolve_entry cx s e h rd = Inr (b, rd') \<and> reader_ok cx s pointer rd'"
proof (cases e)
  case (PackE g p off len)
  with assms(4) obtain body where
    "hash_ok p" "os_open_read S s p = Inr body" "2 + unat off + unat len \<le> length body"
    "subslice (2 + unat off) (2 + unat off + unat len) body = b" by (auto simp: assms(2))
  with fetch_pack_slice_ok [OF assms(1-3), of p body off len] PackE show ?thesis by auto
qed (use assms in \<open>simp_all add: unescape_escape\<close>)

end

end
