(* ===== verification/PackPublish.thy ===== *)
theory PackPublish
  imports PackReader
begin

text \<open>
  The pack layer as a whole, over a local or a directory remote: what a push publishes, what
  it keeps, and how the reader's shortcuts relate to a plain search of the index files.
\<close>

definition remote_ctx ::
    "env \<Rightarrow> (bytes \<Rightarrow> bytes \<Rightarrow> bytes) \<Rightarrow> encrypt_key option \<Rightarrow> (nat \<Rightarrow> u64) \<Rightarrow> objects_backend pack_ctx" where
  "remote_ctx E hmac key opt =
     \<lparr>cx_env = E, cx_ops = local_store hmac key, cx_key = key, cx_opt_bits = opt\<rparr>"

lemma remote_ctx_simps [simp]:
  "cx_env (remote_ctx E hmac key opt) = E" "cx_ops (remote_ctx E hmac key opt) = local_store hmac key"
  "cx_key (remote_ctx E hmac key opt) = key" "cx_opt_bits (remote_ctx E hmac key opt) = opt"
  by (simp_all add: remote_ctx_def)

section \<open>From the writer's run to the reader's lookup\<close>

definition start_root :: "pack_writer \<Rightarrow> index_root" where
  "start_root w = (case w_snapshot_root w of None \<Rightarrow> new_empty | Some ir \<Rightarrow> ir)"

lemma base_root_start:
  assumes "pack_writer_new cx s pointer oc = Inr w" "same_start w w'"
  shows "base_root cx w' = Inr (start_root w)"
  using pack_writer_new_ok [OF assms(1)] assms(2)
  by (cases pointer) (auto simp: base_root_def start_root_def same_start_def decode_snapshot_def rbind_Inr_iff
      split: option.splits)

lemma routed_entry:
  assumes "run_ok cx objs w s" "w_pending w = []" "(h, b) \<in> set objs"
  obtains e where "index_find (w_delta w) h = Some e" "ihash e = h" "entry_yields cx s e b" "w_delta w \<noteq> []"
    "hash_ok h"
proof -
  note r = run_okD [OF assms(1)]
  from r(4) assms(2,3) have h: "hash_ok h" and "h \<in> ihash ` set (w_delta w)" by (auto simp: routed_def)
  then obtain e where e: "e \<in> set (w_delta w)" "ihash e = h" by auto
  then obtain c where "(h, c) \<in> set objs" "entry_yields cx s e c"
    using r(1) by (auto simp: entries_for_def)
  moreover from this(1) assms(3) r(6) have "c = b" by (auto simp: functional_def)
  moreover have "w_delta w \<noteq> []" using e(1) by auto
  ultimately show thesis using that [of e] e h index_find_iff [OF r(2) h, of e] by simp
qed

context store_laws
begin

lemma locate_newest:
  assumes "inv s" "cx_ops cx = S" "reader_ok cx s pointer rd" "decode_snapshot cx pointer = Inr (Some ir)"
    and "delta_hashes ir = raw dh # ds" "hash_ok dh" "index_at cx s dh = Inr idx" "index_find idx h = Some e"
  shows "\<exists>rd'. locate cx s pointer h rd = Inr (Entry e, rd') \<and> reader_ok cx s pointer rd'"
proof -
  from read_index_root_ok [OF assms(3,4)] obtain rd1 where
    r1: "read_index_root cx pointer rd = Inr (Some ir, rd1)" "reader_ok cx s pointer rd1" by blast
  from load_resident_ok [OF assms(1,2) reader_okD(1) [OF r1(2)] assms(6,7)] obtain c where
    c: "load_resident_index cx s dh (rd_cache rd1) = Inr (idx, c)" "cache_ok cx s c" by blast
  have "recent_indexes ir = dh # (recent_indexes (ir\<lparr>delta_hashes := ds\<rparr>))"
    using assms(5,6) by (simp add: recent_indexes_def delta_hashes_as_hashes_def hot_hash_opt_def)
  with c(1) assms(8) have "search cx s h (recent_indexes ir) rd1 = Inr (Some e, rd1\<lparr>rd_cache := c\<rparr>)"
    by (simp add: search_def)
  moreover have "reader_ok cx s pointer (rd1\<lparr>rd_cache := c\<rparr>)" using r1(2) c(2) by (simp add: reader_ok_def)
  ultimately show ?thesis using r1(1) by (simp add: locate_def)
qed

lemma read_published:
  assumes "inv s" "cx_ops cx = S" "reader_ok cx s pointer rd" "decode_snapshot cx pointer = Inr (Some ir)"
    and pub: "published cx s base w root ir" and run: "run_ok cx objs w s" "w_pending w = []"
    and obj: "(h, b) \<in> set objs" and miss: "backend_view (rd_local_cache rd) (hex h) = None"
  shows "\<exists>rd'. reader_open_read cx s pointer h rd = Inr (b, rd') \<and> reader_ok cx s pointer rd'"
proof -
  from routed_entry [OF run obj] obtain e where
    e: "index_find (w_delta w) h = Some e" "ihash e = h" "entry_yields cx s e b" "w_delta w \<noteq> []" "hash_ok h" .
  from pub e(4) obtain dh where dh: "hash_ok dh" "delta_hashes ir = raw dh # delta_hashes base"
    "index_at cx s dh = Inr (w_delta w)" by (auto simp: published_def)
  from locate_newest [OF assms(1-4) dh(2,1,3) e(1)] obtain rd1 where
    r1: "locate cx s pointer h rd = Inr (Entry e, rd1)" "reader_ok cx s pointer rd1" by blast
  from resolve_entry_ok [OF assms(1,2) r1(2) e(3,2)] r1(1) miss cache_exists [OF reader_okD(2) [OF assms(3)] e(5)]
  show ?thesis by (simp add: reader_open_read_def resolve_def)
qed

end

section \<open>Properties\<close>

text \<open>C5: what a push writes can be read: after any interleaving of the workers of a push,
  the publication succeeds, the root it publishes names the new tree, and every object
  routed during the push, inline, packed or standalone, is read back byte for byte by every
  reader whose caches agree with the remote.\<close>

theorem push_publishes:
  assumes "keys_apart hmac key" and "gcm_opens E" and "backend_ok s0"
    and "cx = remote_ctx E hmac key opt"
    and "pack_writer_new cx s0 pointer oc = Inr w0" and "push_run cx (w0, s0) objs (w, s)"
    and "finish_free cx w s" and "length objs < 2 ^ 32"
    and "length (delta_hashes (start_root w0)) < 65535" and "length nonce = 12" and "hash_ok root"
  shows "\<exists>n w' s' pointer'. finish cx w s pointer root nonce = Inr (n, w', s', pointer') \<and> backend_ok s' \<and>
    (\<forall>rd. reader_ok cx s' pointer' rd \<longrightarrow>
       (\<exists>rd'. read_root cx pointer' rd = Inr (hash_opt (raw root), rd')) \<and>
       (\<forall>(h, b) \<in> set objs. os_exists cache_store (rd_local_cache rd) h = Inr False \<longrightarrow>
          (\<exists>rd'. reader_open_read cx s' pointer' h rd = Inr (b, rd') \<and> reader_ok cx s' pointer' rd')))"
proof -
  note L = keys_apart_laws [OF assms(1)]
  have ops: "cx_ops cx = local_store hmac key" and E: "gcm_opens (cx_env cx)" using assms(2,4) by simp_all
  note new = pack_writer_new_ok [OF assms(5)]
  from store_laws.push_run_ok [OF L assms(6,3) ops new(1)] have
    r: "backend_ok s" "run_ok cx objs w s" "same_start w0 w" by simp_all
  have tok: "token_for pointer = w_start_token w" using r(3) new(3) by (simp add: same_start_def)
  from store_laws.finish_ok [OF L r(1) ops E r(2) assms(8-11) base_root_start [OF assms(5) r(3)] assms(7) tok]
  obtain n w' s' rawb ir where f: "finish cx w s pointer root nonce = Inr (n, w', s', Some rawb)"
    "backend_ok s'" "run_ok cx objs w' s'" "w_pending w' = []" "decode_root cx rawb = Inr ir"
    "published cx s' (start_root w0) w' root ir" by blast
  have snap: "decode_snapshot cx (Some rawb) = Inr (Some ir)" using f(5) by (simp add: decode_snapshot_def)
  have root: "\<exists>rd'. read_root cx (Some rawb) rd = Inr (hash_opt (raw root), rd')"
    if "reader_ok cx s' (Some rawb) rd" for rd
    using read_index_root_ok [OF that snap] f(6) by (auto simp: read_root_def remote_root_hash_def published_def)
  have "\<exists>rd'. reader_open_read cx s' (Some rawb) h rd = Inr (b, rd') \<and> reader_ok cx s' (Some rawb) rd'"
    if rd: "reader_ok cx s' (Some rawb) rd" and o: "(h, b) \<in> set objs"
      and ex: "os_exists cache_store (rd_local_cache rd) h = Inr False" for rd h b
  proof -
    from f(3) o have h: "hash_ok h" by (auto simp: run_ok_def routed_def)
    have "backend_view (rd_local_cache rd) (hex h) = None"
      using ex cache_exists [OF reader_okD(2) [OF rd] h] by simp
    from store_laws.read_published [OF L f(2) ops rd snap f(6,3,4) o this] show ?thesis .
  qed
  with root f(1,2) show ?thesis by blast
qed

text \<open>A remote without a key, empty, and a push of one inline object.\<close>

definition toy_ctx :: "objects_backend pack_ctx" where
  "toy_ctx = remote_ctx toy_env toy_hmac None (\<lambda>_. 8)"

definition toy_writer :: pack_writer where
  "toy_writer = \<lparr>w_cache = \<lparr>ic_indexes = (\<lambda>_. None), ic_objcache = LocalB empty_dir\<rparr>, w_delta = [],
     w_pack_buf = [], w_pending = [], w_bloom = sized_for (\<lambda>_. 8) 0, w_start_snapshot = None,
     w_start_token = Absent, w_snapshot_root = None, w_written_pack_sizes = []\<rparr>"

lemma toy_writer_new:
  "pack_writer_new toy_ctx (RemoteB []) None (LocalB empty_dir) = Inr toy_writer"
  by (simp add: pack_writer_new_def root_read_def token_for_def decode_snapshot_def load_remote_bloom_def
      toy_writer_def toy_ctx_def)

definition toy_writer1 :: pack_writer where
  "toy_writer1 = toy_writer\<lparr>w_delta := [Inline toy_hash [1, 2]],
     w_bloom := bloom_insert (w_bloom toy_writer) toy_hash\<rparr>"

lemma toy_run: "push_run toy_ctx (toy_writer, RemoteB []) [(toy_hash, [1, 2])] (toy_writer1, RemoteB [])"
  by (rule push_run.inline [OF push_run.start])
    (simp_all add: same_content_def route_def pack_sizes toy_writer1_def toy_writer_def index_push_def
      partition_point_def)

context store_laws
begin

lemma write_other_free:
  assumes "inv s" "cx_ops cx = S" "free_for cx s n c" "os_write_from S s n c = Inr s'"
    and "g \<noteq> n" "free_for cx s g x"
  shows "free_for cx s' g x"
proof -
  have n: "hash_ok n" "hash_ok g" using assms(3,6) by (simp_all add: free_for_def)
  note g = n(2)
  have "view s n = None \<or> view s n = Some c"
    using assms(3) read_view [OF assms(1) n(1)]
    by (cases "view s n") (auto simp: free_for_def assms(2) ok_or_def split: sum.splits)
  from write_view [OF assms(1) n(1) this] assms(4,5) g have "inv s'" "view s' g = view s g" by auto
  with read_view [OF _ g] assms(1,2,6) show ?thesis by (simp add: free_for_def)
qed

end

lemma empty_remote_free: "hash_ok n \<Longrightarrow> free_for toy_ctx (RemoteB []) n c"
  by (auto simp: free_for_def toy_ctx_def local_store_def store_with_keys_def backend_open_read_def
      remote_find_def split: option.splits)

lemma toy_compute [simp]: "hash_ok (compute (sha toy_env) x)" "cx_env toy_ctx = toy_env"
  "cx_ops toy_ctx = local_store toy_hmac None" "cx_key toy_ctx = None"
  using toy_env_ok(3) by (simp_all add: compute_def digest32_def toy_ctx_def)

lemma toy_compute_neq:
  assumes "length x < 256" "length y < 256" "length x \<noteq> length y"
  shows "compute (sha toy_env) x \<noteq> compute (sha toy_env) y"
proof
  assume "compute (sha toy_env) x = compute (sha toy_env) y"
  then have "hd (raw (compute (sha toy_env) x)) = hd (raw (compute (sha toy_env) y))" by simp
  then have "word_of_nat (length x) = (word_of_nat (length y) :: u8)"
    by (simp add: compute_def toy_env_def toy_digest_def)
  then have "unat (word_of_nat (length x) :: u8) = unat (word_of_nat (length y) :: u8)" by simp
  with assms show False by (simp add: unat_of_nat)
qed

lemma toy_finish_free: "finish_free toy_ctx toy_writer1 (RemoteB [])"
proof -
  have fl: "flush_pack toy_ctx toy_writer1 (RemoteB []) = Inr (toy_writer1, RemoteB [])"
    by (simp add: flush_pack_def toy_writer1_def toy_writer_def)
  obtain d where d: "index_serialise (w_delta toy_writer1) = Inr d" "length d = 44"
    by (auto simp: index_serialise_def toy_writer1_def toy_hash_def INDEX_MAGIC_def)
  have b: "length (bloom_serialise (w_bloom toy_writer1)) = 21"
    by (simp add: toy_writer1_def toy_writer_def bloom_serialise_def BLOOM_MAGIC_def bloom_insert_def
        sized_for_def bloom_new_def bytes_for_def Let_def)
  have "stored_free toy_ctx s2 (bloom_serialise (w_bloom toy_writer1))"
    if w: "write_delta toy_ctx toy_writer1 (RemoteB []) new_empty = Inr (r, s2)" for r s2
  proof -
    from w d(1) have "os_write_from (local_store toy_hmac None) (RemoteB []) (compute (sha toy_env) d)
        (encrypt toy_env d None (raw (compute (sha toy_env) d))) = Inr s2"
      by (auto simp: write_delta_def Let_def rbind_Inr_iff toy_writer1_def)
    from store_laws.write_other_free [OF keys_apart_laws [OF toy_keys_apart] _ _ _ this] empty_remote_free
      toy_compute_neq [of "bloom_serialise (w_bloom toy_writer1)" d] b d(2)
    show ?thesis by (simp add: stored_free_def Let_def)
  qed
  with fl show ?thesis
    by (auto simp: finish_free_def stored_free_def Let_def empty_remote_free split: sum.splits)
qed

lemma toy_hash_absent: "os_exists cache_store (LocalB empty_dir) toy_hash = Inr False"
  by code_simp

lemma empty_dir_view: "hash_ok n \<Longrightarrow> backend_view (LocalB empty_dir) (hex n) = None"
  by (simp add: backend_view_local read_object_def find_in.simps empty_dir_def has_path_def)

theorem push_publishes_witness:
  "\<exists>n w' s' pointer'. finish toy_ctx toy_writer1 (RemoteB []) None toy_hash (replicate 12 5) =
       Inr (n, w', s', pointer') \<and>
     (\<exists>rd'. reader_open_read toy_ctx s' pointer' toy_hash
        (pack_reader_new (LocalB empty_dir) (LocalB empty_dir) (LocalB empty_dir)) = Inr ([1, 2], rd'))"
proof -
  let ?rd = "pack_reader_new (LocalB empty_dir) (LocalB empty_dir) (LocalB empty_dir)"
  have ok: "backend_ok (LocalB empty_dir)" using shard_ok_cases [of 64 empty_dir] by simp
  have "start_root toy_writer = new_empty" by (simp add: start_root_def toy_writer_def)
  then have "length (delta_hashes (start_root toy_writer)) < 65535" by (simp add: new_empty_def)
  from push_publishes [OF toy_keys_apart toy_env_ok(2) _ toy_ctx_def toy_writer_new toy_run
      toy_finish_free _ this, of "replicate 12 5" toy_hash]
  obtain n w' s' pointer' where f: "finish toy_ctx toy_writer1 (RemoteB []) None toy_hash (replicate 12 5) =
      Inr (n, w', s', pointer')"
    and r: "\<And>rd. reader_ok toy_ctx s' pointer' rd \<Longrightarrow> os_exists cache_store (rd_local_cache rd) toy_hash = Inr False \<Longrightarrow>
      \<exists>rd'. reader_open_read toy_ctx s' pointer' toy_hash rd = Inr ([1, 2], rd')"
    by (fastforce simp: Let_def)
  have "reader_ok toy_ctx s' pointer' ?rd"
    by (rule reader_new_ok [OF ok ok ok empty_dir_view empty_dir_view])
  with r [of ?rd] f toy_hash_absent show ?thesis by (simp add: pack_reader_new_def)
qed

section \<open>What a push keeps\<close>

text \<open>The filter of the root can be loaded, and if the cold tier lists the object, the
  filter is one that the writer keeps and that lists it too.\<close>

definition filter_lists :: "'s pack_ctx \<Rightarrow> 's \<Rightarrow> index_root \<Rightarrow> hash \<Rightarrow> bool" where
  "filter_lists cx s ir g \<longleftrightarrow>
     (let miss = first_hit cx s g (case cold_shard_hash_for g ir of None \<Rightarrow> [] | Some n \<Rightarrow> [n]) = None
      in case bloom_hash_opt ir of None \<Rightarrow> miss
         | Some bh \<Rightarrow> (case bloom_at cx s bh of Inl _ \<Rightarrow> False
                      | Inr bf \<Rightarrow> miss \<or> structural_defect bf = None \<and> may_contain bf g))"

lemma bloom_hash_ok: "root_ok ir \<Longrightarrow> bloom_hash_opt ir = Some bh \<Longrightarrow> hash_ok bh"
  by (auto simp: root_ok_def bloom_hash_opt_def hash_opt_def split: if_splits)

lemma load_remote_bloom_stored:
  assumes "bloom_hash_opt ir = Some bh" "bloom_at cx s bh = Inr bf" "structural_defect bf = None"
  shows "load_remote_bloom cx s (Some ir) = Inr bf"
  using assms by (auto simp: load_remote_bloom_def bloom_at_def stored_plain_def rbind_Inr_iff Let_def)

lemma filter_lists_covers:
  assumes "filter_lists cx s ir g" "root_ok ir"
  shows "covers cx s ir g"
    and "load_remote_bloom cx s (Some ir) = Inr bf \<Longrightarrow>
      first_hit cx s g (case cold_shard_hash_for g ir of None \<Rightarrow> [] | Some n \<Rightarrow> [n]) = None \<or> may_contain bf g"
proof -
  show "covers cx s ir g"
    using assms bloom_hash_ok [OF assms(2)]
    by (auto simp: filter_lists_def covers_def Let_def split: option.splits sum.splits)
  show "first_hit cx s g (case cold_shard_hash_for g ir of None \<Rightarrow> [] | Some n \<Rightarrow> [n]) = None \<or> may_contain bf g"
    if "load_remote_bloom cx s (Some ir) = Inr bf"
    using assms(1) that load_remote_bloom_stored [of ir _ cx s]
    by (auto simp: filter_lists_def Let_def split: option.splits sum.splits)
qed

lemma published_shards:
  assumes "published cx s base w root ir"
  shows "cold_shard_hash_for g ir = cold_shard_hash_for g base"
    and "recent_indexes ir = (if w_delta w = [] then [] else [hd (delta_hashes_as_hashes ir)]) @ recent_indexes base"
  using assms
  by (auto simp: published_def cold_shard_hash_for_def cold_shard_hash_def recent_indexes_def
      delta_hashes_as_hashes_def hot_hash_opt_def Let_def split: if_splits)

lemma first_hit_grows:
  assumes "grows cx s s'" "loadable cx s ns"
  shows "first_hit cx s' h ns = first_hit cx s h ns \<and> loadable cx s' ns"
  using assms(2)
proof (induction ns)
  case (Cons n ns)
  then obtain idx where "hash_ok n" "index_at cx s n = Inr idx" by auto
  moreover from index_at_grows [OF assms(1) this] have "index_at cx s' n = Inr idx" .
  ultimately show ?case using Cons by (simp split: option.splits)
qed simp

lemma published_first_hit:
  assumes pub: "published cx s base w root ir" and run: "run_ok cx objs w s" and ld: "loadable cx s (indexes_for g base)"
    and g: "hash_ok g" "g \<notin> fst ` set objs"
  shows "first_hit cx s g (indexes_for g ir) = first_hit cx s g (indexes_for g base) \<and> loadable cx s (indexes_for g ir)"
proof (cases "w_delta w = []")
  case True
  with ld published_shards [OF pub] show ?thesis by (simp add: indexes_for_def)
next
  case False
  with pub obtain dh where dh: "hash_ok dh" "delta_hashes ir = raw dh # delta_hashes base" "index_at cx s dh = Inr (w_delta w)"
    by (auto simp: published_def)
  have "index_find (w_delta w) g = None"
  proof (rule ccontr)
    assume "index_find (w_delta w) g \<noteq> None"
    then obtain e where "index_find (w_delta w) g = Some e" by blast
    then have "e \<in> set (w_delta w)" "ihash e = g" using index_find_iff [OF run_okD(2) [OF run] g(1)] by auto
    with run_okD(1) [OF run] g(2) show False by (force simp: entries_for_def)
  qed
  moreover have "indexes_for g ir = dh # indexes_for g base"
    using published_shards [OF pub] False dh by (simp add: indexes_for_def delta_hashes_as_hashes_def)
  ultimately show ?thesis using dh ld by simp
qed

lemma published_covers:
  assumes pub: "published cx s base w root ir"
    and m: "first_hit cx s g (case cold_shard_hash_for g base of None \<Rightarrow> [] | Some n \<Rightarrow> [n]) = None \<or> may_contain (w_bloom w) g"
  shows "covers cx s ir g"
proof -
  from pub obtain bh where bh: "hash_ok bh" "bloom_hash ir = raw bh" "bloom_at cx s bh = Inr (w_bloom w)"
    by (auto simp: published_def)
  then have "bloom_hash_opt ir = None \<or> bloom_hash_opt ir = Some bh" by (simp add: bloom_hash_opt_def hash_opt_def)
  with bh m published_shards(1) [OF pub] show ?thesis by (auto simp: covers_def)
qed

context store_laws
begin

lemma kept_located:
  assumes i: "inv s0" "inv s'" "cx_ops cx = S"
    and new: "pack_writer_new cx s0 pointer oc = Inr w0" "decode_snapshot cx pointer = Inr (Some ir)"
    and old: "loadable cx s0 (indexes_for g ir)" "filter_lists cx s0 ir g" "hash_ok g" "g \<notin> fst ` set objs"
    and run: "run_ok cx objs w' s'" "grows cx s0 s'" "may_contain (w_bloom w0) g \<Longrightarrow> may_contain (w_bloom w') g"
    and pub: "published cx s' ir w' root ir'" "decode_snapshot cx pointer' = Inr (Some ir')"
    and found: "found = (case first_hit cx s0 g (indexes_for g ir) of Some e \<Rightarrow> Entry e | None \<Rightarrow> NotFound)"
  shows "reader_ok cx s0 pointer rd \<Longrightarrow> \<exists>rd'. locate cx s0 pointer g rd = Inr (found, rd')"
    and "reader_ok cx s' pointer' rd \<Longrightarrow> \<exists>rd'. locate cx s' pointer' g rd = Inr (found, rd')"
proof -
  note n = pack_writer_new_ok [OF new(1)]
  have snap0: "w_snapshot_root w0 = Some ir" using n(4) new(2) by simp
  let ?c = "case cold_shard_hash_for g ir of None \<Rightarrow> [] | Some n \<Rightarrow> [n]"
  have ldc: "loadable cx s0 ?c" using old(1) by (simp add: indexes_for_def)
  have rok: "root_ok ir" using new(2) decode_root_ok
    by (auto simp: decode_snapshot_def rbind_Inr_iff split: option.splits)
  have cov0: "covers cx s0 ir g" and "first_hit cx s0 g ?c = None \<or> may_contain (w_bloom w0) g"
    using filter_lists_covers [OF old(2) rok] n(6) snap0 by auto
  then have m: "first_hit cx s' g ?c = None \<or> may_contain (w_bloom w') g"
    using first_hit_grows [OF run(2) ldc, of g] run(3) by auto
  note h1 = first_hit_grows [OF run(2) old(1), of g]
  note h2 = published_first_hit [OF pub(1) run(1) conjunct2 [OF h1] old(3,4)]
  show "reader_ok cx s0 pointer rd \<Longrightarrow> \<exists>rd'. locate cx s0 pointer g rd = Inr (found, rd')"
    using locate_ok [OF i(1,3) _ new(2) old(1) cov0] found by blast
  show "reader_ok cx s' pointer' rd \<Longrightarrow> \<exists>rd'. locate cx s' pointer' g rd = Inr (found, rd')"
    using locate_ok [OF i(2,3) _ pub(2) conjunct2 [OF h2] published_covers [OF pub(1) m], of rd] h1 h2 found by auto
qed

end

text \<open>C18: a push loses nothing: an object that the push did not write is located after the
  publication exactly where it was located before it, or as absent as before, whenever the
  index files of the old root can be loaded and the old filter was usable.\<close>

theorem push_keeps:
  assumes "keys_apart hmac key" and "gcm_opens E" and "backend_ok s0"
    and "cx = remote_ctx E hmac key opt"
    and "pack_writer_new cx s0 pointer oc = Inr w0" and "push_run cx (w0, s0) objs (w, s)"
    and "finish_free cx w s" and "length objs < 2 ^ 32"
    and "length (delta_hashes (start_root w0)) < 65535" and "length nonce = 12" and "hash_ok root"
    and "decode_snapshot cx pointer = Inr (Some ir)" and "loadable cx s0 (indexes_for g ir)"
    and "filter_lists cx s0 ir g" and "hash_ok g" and "g \<notin> fst ` set objs"
  shows "\<exists>n w' s' pointer' found. finish cx w s pointer root nonce = Inr (n, w', s', pointer') \<and>
    (\<forall>rd. reader_ok cx s0 pointer rd \<longrightarrow> (\<exists>rd'. locate cx s0 pointer g rd = Inr (found, rd'))) \<and>
    (\<forall>rd. reader_ok cx s' pointer' rd \<longrightarrow> (\<exists>rd'. locate cx s' pointer' g rd = Inr (found, rd')))"
proof -
  note L = keys_apart_laws [OF assms(1)]
  have ops: "cx_ops cx = local_store hmac key" and E: "gcm_opens (cx_env cx)" using assms(2,4) by simp_all
  note new = pack_writer_new_ok [OF assms(5)]
  have snap0: "w_snapshot_root w0 = Some ir" using new(4) assms(12) by simp
  then have start: "start_root w0 = ir" by (simp add: start_root_def)
  from store_laws.push_run_ok [OF L assms(6,3) ops new(1)] have
    r: "backend_ok s" "run_ok cx objs w s" "same_start w0 w" "grows cx s0 s" by simp_all
  have tok: "token_for pointer = w_start_token w" using r(3) new(3) by (simp add: same_start_def)
  from store_laws.finish_ok [OF L r(1) ops E r(2) assms(8-11) base_root_start [OF assms(5) r(3)] assms(7) tok]
  obtain n w' s' rawb ir' where f: "finish cx w s pointer root nonce = Inr (n, w', s', Some rawb)"
    "backend_ok s'" "run_ok cx objs w' s'" "decode_root cx rawb = Inr ir'" "w_bloom w' = w_bloom w"
    "published cx s' ir w' root ir'" "grows cx s s'" unfolding start by blast
  have snap: "decode_snapshot cx (Some rawb) = Inr (Some ir')" using f(4) by (simp add: decode_snapshot_def)
  have "may_contain (w_bloom w0) g \<Longrightarrow> may_contain (w_bloom w') g" using r(3) f(5) by (simp add: same_start_def)
  note k = store_laws.kept_located [OF L assms(3) f(2) ops assms(5,12-16) f(3) grows_trans [OF r(4) f(7)] this f(6) snap refl]
  from f(1) k show ?thesis by blast
qed

text \<open>A remote that already holds one delta file.\<close>

definition toy_delta :: bytes where
  "toy_delta = INDEX_MAGIC @ [INDEX_VERSION] @ [0] @ u32_to_be 1 @ entry_bytes (Inline toy_hash [7])"

definition toy_delta_hash :: hash where
  "toy_delta_hash = compute (sha toy_env) toy_delta"

definition toy_remote :: objects_backend where
  "toy_remote = RemoteB [(the (expected_path (hex toy_delta_hash)), toy_delta)]"

definition toy_root :: index_root where
  "toy_root = new_empty\<lparr>delta_hashes := [raw toy_delta_hash]\<rparr>"

lemma toy_delta_ok:
  "index_serialise [Inline toy_hash [7]] = Inr toy_delta" "index_deserialise toy_delta = Inr [Inline toy_hash [7]]"
proof -
  have ok: "index_ok [Inline toy_hash [7]]" by (simp add: index_ok_def entry_ok_def)
  show s: "index_serialise [Inline toy_hash [7]] = Inr toy_delta" by (simp add: index_serialise_def toy_delta_def)
  show "index_deserialise toy_delta = Inr [Inline toy_hash [7]]" by (rule index_wire.roundtrip [OF ok s])
qed

lemma toy_remote_write:
  "hash_ok toy_delta_hash" "os_write_from (local_store toy_hmac None) (RemoteB []) toy_delta_hash toy_delta = Inr toy_remote"
proof -
  show h: "hash_ok toy_delta_hash" by (simp add: toy_delta_hash_def)
  then show "os_write_from (local_store toy_hmac None) (RemoteB []) toy_delta_hash toy_delta = Inr toy_remote"
    by (auto simp: toy_remote_def local_store_def store_with_keys_def storage_key_def remote_write_stream_def
        expected_path_def hash_ok_def)
qed

lemma toy_remote_free:
  assumes "length c < 256" "length c \<noteq> length toy_delta"
  shows "free_for toy_ctx toy_remote (compute (sha toy_env) c) x"
  using store_laws.write_other_free [OF keys_apart_laws [OF toy_keys_apart] _ _ _ toy_remote_write(2)] assms toy_remote_write(1)
    toy_compute_neq [OF assms(1) _ assms(2)] empty_remote_free
  by (simp add: toy_delta_hash_def toy_delta_def INDEX_MAGIC_def toy_hash_def)

lemma toy_index_at: "index_at toy_ctx toy_remote toy_delta_hash = Inr [Inline toy_hash [7]]"
proof -
  have "os_open_read (local_store toy_hmac None) toy_remote toy_delta_hash = Inr toy_delta"
    using toy_remote_write(1)
    by (simp add: toy_remote_def local_store_def store_with_keys_def storage_key_def backend_open_read_def
        remote_find_def expected_path_def hash_ok_def)
  then show ?thesis by (simp add: index_at_def stored_plain_def decrypt_def toy_delta_ok(2))
qed

lemma toy_root_facts:
  "root_ok toy_root" "indexes_for toy_hash toy_root = [toy_delta_hash]" "bloom_hash_opt toy_root = None"
  "cold_shard_hash_for toy_hash toy_root = None"
proof -
  have "length (raw toy_delta_hash) = 32" using toy_remote_write(1) by (simp add: hash_ok_def)
  then show "root_ok toy_root" using new_empty_ok by (simp add: toy_root_def root_ok_def new_empty_def)
  show c: "cold_shard_hash_for toy_hash toy_root = None"
    by (simp add: cold_shard_hash_for_def cold_shard_hash_def toy_root_def new_empty_def hash_opt_def)
  show "bloom_hash_opt toy_root = None" by (simp add: bloom_hash_opt_def toy_root_def new_empty_def hash_opt_def)
  show "indexes_for toy_hash toy_root = [toy_delta_hash]"
    using c toy_remote_write(1)
    by (simp add: indexes_for_def recent_indexes_def delta_hashes_as_hashes_def hot_hash_opt_def hash_opt_def
        toy_root_def new_empty_def)
qed

lemma toy_snapshot:
  obtains d where "decode_snapshot toy_ctx (Some d) = Inr (Some toy_root)" "decode_root toy_ctx d = Inr toy_root"
proof -
  from root_deserialise_serialise [OF toy_root_facts(1)] obtain d where "root_deserialise d = Inr toy_root" by blast
  then show thesis
    by (intro that [of d]) (simp_all add: decode_snapshot_def decode_root_def decrypt_index_root_bytes_def)
qed

definition toy_writer2 :: "bytes \<Rightarrow> pack_writer" where
  "toy_writer2 d = toy_writer\<lparr>w_start_snapshot := Some d, w_start_token := Present d, w_snapshot_root := Some toy_root\<rparr>"

lemma toy_writer2_new:
  assumes "decode_snapshot toy_ctx (Some d) = Inr (Some toy_root)"
  shows "pack_writer_new toy_ctx toy_remote (Some d) (LocalB empty_dir) = Inr (toy_writer2 d)"
  using assms toy_root_facts(3)
  by (simp add: pack_writer_new_def root_read_def token_for_def load_remote_bloom_def toy_writer2_def
      toy_writer_def) (simp add: toy_ctx_def)

lemma toy_idle_free:
  assumes "\<And>c x. length c \<in> {2, 8, 21} \<Longrightarrow> free_for toy_ctx s (compute (sha toy_env) c) x"
    and w: "w_delta w = []" "w_pending w = []" "w_pack_buf w = []" "w_bloom w = sized_for (\<lambda>_. 8) 0"
  shows "finish_free toy_ctx w s"
proof -
  have "length (bloom_serialise (w_bloom w)) = 21"
    by (simp add: w(4) bloom_serialise_def BLOOM_MAGIC_def sized_for_def bloom_new_def bytes_for_def Let_def)
  moreover have "length (pack_file []) = 2" by (simp add: pack_file_def PACK_MAGIC_def)
  moreover have "\<exists>b. index_serialise [] = Inr b \<and> length b = 8" by (simp add: index_serialise_def INDEX_MAGIC_def)
  ultimately show ?thesis using w(1-3)
    by (auto simp: finish_free_def flush_pack_def stored_free_def Let_def write_delta_def intro!: assms(1))
qed

lemma length_toy_delta: "length toy_delta = 43"
  by (simp add: toy_delta_def INDEX_MAGIC_def toy_hash_def)

lemma toy_writer2_free: "finish_free toy_ctx (toy_writer2 d) toy_remote"
  by (rule toy_idle_free) (auto intro: toy_remote_free simp: length_toy_delta toy_writer2_def toy_writer_def)

theorem push_keeps_witness:
  "\<exists>d n w' s' pointer' rd'. decode_root toy_ctx d = Inr toy_root \<and>
     finish toy_ctx (toy_writer2 d) toy_remote (Some d) toy_hash (replicate 12 5) = Inr (n, w', s', pointer') \<and>
     locate toy_ctx s' pointer' toy_hash (pack_reader_new (LocalB empty_dir) (LocalB empty_dir) (LocalB empty_dir)) =
       Inr (Entry (Inline toy_hash [7]), rd')"
proof -
  let ?rd = "pack_reader_new (LocalB empty_dir) (LocalB empty_dir) (LocalB empty_dir)"
  obtain d where d: "decode_snapshot toy_ctx (Some d) = Inr (Some toy_root)" "decode_root toy_ctx d = Inr toy_root"
    by (rule toy_snapshot)
  have ok: "backend_ok (LocalB empty_dir)" using shard_ok_cases [of 64 empty_dir] by simp
  have rd: "reader_ok toy_ctx s p ?rd" for s p
    by (rule reader_new_ok [OF ok ok ok empty_dir_view empty_dir_view])
  have n: "length (delta_hashes (start_root (toy_writer2 d))) < 65535"
    by (simp add: start_root_def toy_writer2_def toy_root_def)
  have ld: "loadable toy_ctx toy_remote (indexes_for toy_hash toy_root)"
    by (simp add: toy_root_facts toy_remote_write(1) toy_index_at)
  have fl: "filter_lists toy_ctx toy_remote toy_root toy_hash" by (simp add: filter_lists_def toy_root_facts)
  have b: "backend_ok toy_remote" by (simp add: toy_remote_def)
  have l: "length ([] :: (hash \<times> bytes) list) < 2 ^ 32" "length (replicate 12 (5 :: u8)) = 12"
    "toy_hash \<notin> fst ` set ([] :: (hash \<times> bytes) list)" by simp_all
  from push_keeps [OF toy_keys_apart toy_env_ok(2) b toy_ctx_def toy_writer2_new [OF d(1)] push_run.start
        toy_writer2_free l(1) n l(2) toy_hash_ok d(1) ld fl toy_hash_ok l(3)] rd
  obtain n w' s' pointer' found where
    f: "finish toy_ctx (toy_writer2 d) toy_remote (Some d) toy_hash (replicate 12 5) = Inr (n, w', s', pointer')"
    and old: "\<exists>rd'. locate toy_ctx toy_remote (Some d) toy_hash ?rd = Inr (found, rd')"
    and new: "\<exists>rd'. locate toy_ctx s' pointer' toy_hash ?rd = Inr (found, rd')" by blast
  have cov: "covers toy_ctx toy_remote toy_root toy_hash" by (simp add: covers_def toy_root_facts)
  have "found = Entry (Inline toy_hash [7])"
    using old store_laws.locate_ok [OF keys_apart_laws [OF toy_keys_apart, of None] b _ rd d(1) ld cov]
    by (auto simp add: toy_root_facts toy_index_at index_find_def partition_point_def)
  with f new d(2) show ?thesis by blast
qed

section \<open>The reader's shortcuts and the writer's membership test\<close>

text \<open>C19: the shortcuts of the reader change no answer: with any caches that agree with the
  remote, and when the filter does not rule out an object that its cold shard lists, a lookup
  returns what a plain search of the delta files, the hot index and the cold shard finds.\<close>

theorem locate_exact:
  assumes "keys_apart hmac key" and "backend_ok s" and "cx = remote_ctx E hmac key opt"
    and "reader_ok cx s pointer rd" and "decode_snapshot cx pointer = Inr (Some ir)"
    and "loadable cx s (indexes_for h ir)" and "covers cx s ir h"
  shows "\<exists>rd'. locate cx s pointer h rd =
      Inr (case first_hit cx s h (indexes_for h ir) of Some e \<Rightarrow> Entry e | None \<Rightarrow> NotFound, rd') \<and>
    reader_ok cx s pointer rd'"
proof -
  have "cx_ops cx = local_store hmac key" using assms(3) by simp
  from store_laws.locate_ok [OF keys_apart_laws [OF assms(1)] assms(2) this assms(4-7)] show ?thesis by blast
qed

theorem locate_exact_witness:
  "\<exists>d rd'. decode_root toy_ctx d = Inr toy_root \<and>
     locate toy_ctx toy_remote (Some d) toy_hash (pack_reader_new (LocalB empty_dir) (LocalB empty_dir) (LocalB empty_dir)) =
       Inr (Entry (Inline toy_hash [7]), rd')"
proof -
  obtain d where d: "decode_snapshot toy_ctx (Some d) = Inr (Some toy_root)" "decode_root toy_ctx d = Inr toy_root"
    by (rule toy_snapshot)
  have ok: "backend_ok (LocalB empty_dir)" "backend_ok toy_remote"
    using shard_ok_cases [of 64 empty_dir] by (simp_all add: toy_remote_def)
  note rd = reader_new_ok [OF ok(1,1,1) empty_dir_view empty_dir_view]
  have "loadable toy_ctx toy_remote (indexes_for toy_hash toy_root)" "covers toy_ctx toy_remote toy_root toy_hash"
    by (simp_all add: toy_root_facts toy_remote_write(1) toy_index_at covers_def)
  from locate_exact [OF toy_keys_apart ok(2) toy_ctx_def rd d(1) this] d(2) show ?thesis
    by (auto simp: toy_root_facts toy_index_at index_find_def partition_point_def)
qed

text \<open>The membership test of a push is exact: during a run, an object is reported present
  exactly when the run has routed it or the snapshot's index lists it. So no unindexed object
  is skipped, and no indexed one is uploaded again.\<close>

theorem writer_exists_exact:
  assumes "keys_apart hmac key" and "backend_ok s0" and "cx = remote_ctx E hmac key opt"
    and "pack_writer_new cx s0 pointer oc = Inr w0" and "push_run cx (w0, s0) objs (w, s)"
    and "cache_ok cx s (w_cache w)" and "hash_ok h"
    and "\<forall>ir. w_snapshot_root w0 = Some ir \<longrightarrow> loadable cx s (indexes_for h ir) \<and>
          (first_hit cx s h (indexes_for h ir) \<noteq> None \<longrightarrow> may_contain (w_bloom w0) h)"
  shows "\<exists>w'. writer_exists cx w s h =
    Inr (h \<in> fst ` set objs \<or>
         (\<exists>ir. w_snapshot_root w0 = Some ir \<and> first_hit cx s h (indexes_for h ir) \<noteq> None), w') \<and> cache_ok cx s (w_cache w')"
proof -
  note L = keys_apart_laws [OF assms(1)]
  have ops: "cx_ops cx = local_store hmac key" using assms(3) by simp
  from store_laws.push_run_ok [OF L assms(5,2) ops pack_writer_new_ok(1) [OF assms(4)]] have
    r: "backend_ok s" "run_ok cx objs w s" "same_start w0 w" by simp_all
  note k = run_okD [OF r(2)]
  have snap: "w_snapshot_root w = w_snapshot_root w0"
    and mono: "may_contain (w_bloom w0) h \<Longrightarrow> may_contain (w_bloom w) h" using r(3) by (simp_all add: same_start_def)
  have delta: "index_find (w_delta w) h \<noteq> None \<longleftrightarrow> h \<in> ihash ` set (w_delta w)"
    using index_find_iff [OF k(2) assms(7)] by (auto simp: image_iff)
  have pend: "list_ex (\<lambda>(g, _, _). g = h) (w_pending w) \<longleftrightarrow> h \<in> fst ` set (w_pending w)"
    by (force simp: list_ex_iff)
  have sub: "ihash ` set (w_delta w) \<union> fst ` set (w_pending w) \<subseteq> fst ` set objs"
    using k(1,3) by (force simp: entries_for_def pending_for_def)
  show ?thesis
  proof (cases "h \<in> fst ` set objs")
    case True
    with k(4) have "h \<in> ihash ` set (w_delta w) \<or> h \<in> fst ` set (w_pending w)" by (auto simp: routed_def)
    with True delta pend assms(6) show ?thesis by (auto simp: writer_exists_def)
  next
    case False
    with sub delta pend have e: "writer_exists cx w s h =
        (if \<not> may_contain (w_bloom w) h then Inr (False, w) else index_contains cx w s h)"
      by (auto simp: writer_exists_def)
    show ?thesis
    proof (cases "w_snapshot_root w0")
      case None
      with False e snap assms(6) show ?thesis by (auto simp: index_contains_def)
    next
      case (Some ir)
      with assms(8) have ir: "loadable cx s (indexes_for h ir)"
        "first_hit cx s h (indexes_for h ir) \<noteq> None \<Longrightarrow> may_contain (w_bloom w0) h" by auto
      from store_laws.search_ok [OF L r(1) ops assms(6) ir(1)] obtain c where
        "search_indexes cx s h (indexes_for h ir) (w_cache w) = Inr (first_hit cx s h (indexes_for h ir), c)" "cache_ok cx s c" by blast
      with False Some e snap mono ir(2) assms(6) show ?thesis by (auto simp: index_contains_def)
    qed
  qed
qed

theorem writer_exists_exact_witness:
  "\<exists>w'. writer_exists toy_ctx toy_writer1 (RemoteB []) toy_hash = Inr (True, w')"
proof -
  have "cache_ok toy_ctx (RemoteB []) (w_cache toy_writer1)"
    using reader_okD(1) [OF reader_new_ok] empty_dir_view shard_ok_cases [of 64 empty_dir]
    by (auto simp: cache_ok_def toy_writer1_def toy_writer_def)
  from writer_exists_exact [OF toy_keys_apart _ toy_ctx_def toy_writer_new toy_run this toy_hash_ok] show ?thesis
    by (auto simp: toy_writer_def)
qed

lemma route_run:
  assumes "push_run cx ws objs (w, s)" and "same_content objs h b" and "length (w_pack_buf w) < PACK_TARGET"
    and "route cx w s h b = Inr (w', s')"
    and "if PACK_THRESHOLD \<le> length b then free_for cx s h (escape_standalone b)
         else free_for cx s (compute (sha (cx_env cx)) (pack_file (w_pack_buf w @ b))) (pack_file (w_pack_buf w @ b))"
  shows "push_run cx ws ((h, b) # objs) (w', s') \<and> length (w_pack_buf w') < PACK_TARGET"
proof -
  consider (inline) "length b < INLINE_THRESHOLD"
    | (pack) "INLINE_THRESHOLD \<le> length b" "length b < PACK_THRESHOLD"
    | (alone) "PACK_THRESHOLD \<le> length b" by linarith
  then show ?thesis
  proof cases
    case inline
    with push_run.inline [OF assms(1,2) inline assms(4)] assms(3,4) show ?thesis by (auto simp: route_def)
  next
    case pack
    let ?w = "append_pack w h b"
    have buf: "w_pack_buf ?w = w_pack_buf w @ b" by (simp add: append_pack_def)
    have "length (w_pack_buf w) + length b < 2 ^ 32" using assms(3) pack by (simp add: pack_sizes)
    note run = push_run.append [OF assms(1,2) pack this]
    from pack assms(5) have free: "free_for cx s (compute (sha (cx_env cx)) (pack_file (w_pack_buf ?w))) (pack_file (w_pack_buf ?w))"
      by (simp add: buf)
    from assms(4) pack have r: "(if PACK_TARGET \<le> length (w_pack_buf ?w) \<or> PACK_MAX \<le> length (w_pack_buf ?w)
        then flush_pack cx ?w s else Inr (?w, s)) = Inr (w', s')" by (simp add: route_def Let_def)
    show ?thesis
    proof (cases "PACK_TARGET \<le> length (w_pack_buf ?w) \<or> PACK_MAX \<le> length (w_pack_buf ?w)")
      case True
      with r have f: "flush_pack cx ?w s = Inr (w', s')" by simp
      then have "w_pack_buf w' = []" by (auto simp: flush_pack_def Let_def rbind_Inr_iff append_pack_def)
      with push_run.flush [OF run free f] show ?thesis by (simp add: pack_sizes)
    next
      case False
      with r run show ?thesis by auto
    qed
  next
    case alone
    then have "\<not> length b < INLINE_THRESHOLD" "\<not> length b < PACK_THRESHOLD" by (auto simp: pack_sizes)
    with assms(3,4) have "length (w_pack_buf w') < PACK_TARGET" by (auto simp: route_def rbind_Inr_iff)
    with push_run.standalone [OF assms(1,2) alone _ assms(4)] assms(5) alone show ?thesis by simp
  qed
qed

text \<open>C35: calls of \<open>route\<close> one after the other, on a buffer below the flush target, are
  a run of the push and leave the buffer below the target, so that the 32-bit offsets of pack
  entries never wrap.\<close>

theorem route_is_run:
  assumes "push_run cx ws objs (w, s)" and "same_content objs h b" and "length (w_pack_buf w) < PACK_TARGET"
    and "route cx w s h b = Inr (w', s')"
    and "if PACK_THRESHOLD \<le> length b then free_for cx s h (escape_standalone b)
         else free_for cx s (compute (sha (cx_env cx)) (pack_file (w_pack_buf w @ b))) (pack_file (w_pack_buf w @ b))"
  shows "push_run cx ws ((h, b) # objs) (w', s') \<and> length (w_pack_buf w') < PACK_TARGET"
  by (rule route_run [OF assms])

theorem route_is_run_witness:
  "push_run toy_ctx (toy_writer, RemoteB []) [(toy_hash, replicate 300 1)]
     (append_pack toy_writer toy_hash (replicate 300 1), RemoteB [])"
proof -
  have s: "same_content [] toy_hash (replicate 300 1)" by (simp add: same_content_def)
  have "route toy_ctx toy_writer (RemoteB []) toy_hash (replicate 300 1) =
      Inr (append_pack toy_writer toy_hash (replicate 300 1), RemoteB [])"
    by (simp add: route_def pack_sizes append_pack_def toy_writer_def Let_def)
  from route_is_run [OF push_run.start s _ this] empty_remote_free show ?thesis
    by (simp add: toy_writer_def pack_sizes)
qed

text \<open>C34: a slice of a pack file read on behalf of an index entry, however hostile, has exactly
  the length the entry announces and lies inside the cached pack file; an entry that points
  past the end is refused before any buffer is allocated.\<close>

theorem pack_slice_safe:
  assumes "backend_ok pc" and "hash_ok p" and "os_open_read cache_store pc p = Inr body"
  shows "cached_slice pc p off len =
    (if 2 + unat off + unat len \<le> length body
     then Inr (take (unat len) (drop (unat off) (drop 2 body)))
     else Inl (InvalidObject ''pack slice exceeds cached pack file size''))"
proof -
  have v: "backend_view pc (hex p) = Some body"
    using assms cache_read [OF assms(1,2)] by (simp add: ok_or_def split: option.splits)
  have small: "2 + unat off + unat len < 18446744073709551616"
    using unat_bounds(3) [of off] unat_bounds(3) [of len] by linarith
  show ?thesis
  proof (cases "2 + unat off + unat len \<le> length body")
    case True
    with slice_of_cached [OF assms(1,2) v True] show ?thesis by (simp add: subslice_def add.commute)
  next
    case False
    with small v assms show ?thesis
      by (simp add: cached_slice_def cache_size_view PACK_BODY_OFFSET_def Let_def not_le not_less)
  qed
qed

theorem pack_slice_safe_witness:
  "cached_slice toy_remote toy_delta_hash 0 4000000000 =
     Inl (InvalidObject ''pack slice exceeds cached pack file size'')"
proof -
  have "os_open_read cache_store toy_remote toy_delta_hash = Inr toy_delta"
    using toy_remote_write(1)
    by (simp add: toy_remote_def cache_store_def store_with_keys_def backend_open_read_def
        remote_find_def expected_path_def hash_ok_def)
  from pack_slice_safe [OF _ toy_remote_write(1) this, of 0 4000000000] show ?thesis
    by (simp add: toy_remote_def toy_delta_def INDEX_MAGIC_def toy_hash_def)
qed

text \<open>The cold slot of every object is in range: for every index root that the parser
  accepts, the slot is the number formed by the leading bits of the hash and indexes the
  shard array, so that a lookup never misses a shard for being out of range.\<close>

theorem cold_slot_in_range:
  assumes "root_deserialise d = Inr ir" and "hash_ok h"
  shows "hash_prefix h (unat (cold_prefix_bits ir)) = from_be (raw h) div 2 ^ (256 - unat (cold_prefix_bits ir)) \<and>
    hash_prefix h (unat (cold_prefix_bits ir)) < length (cold_shards ir) \<and>
    cold_shard_hash_for h ir = hash_opt (cold_shards ir ! hash_prefix h (unat (cold_prefix_bits ir)))"
proof -
  have ok: "root_ok ir" using root_deserialise_ok [OF assms(1)] by blast
  then have b: "unat (cold_prefix_bits ir) \<le> 64" and l: "length (cold_shards ir) = 2 ^ unat (cold_prefix_bits ir)"
    by (auto simp: root_ok_def MAX_COLD_PREFIX_BITS_def word_le_nat_alt)
  have r: "length (raw h) = 32" using assms(2) by (simp add: hash_ok_def)
  note p = hash_prefix_eq [OF r b] hash_prefix_bound [OF r b]
  show ?thesis
  proof (cases "unat (cold_prefix_bits ir) = 0")
    case True
    with p(2) have "hash_prefix h 0 = 0" by simp
    with p l True show ?thesis by (auto simp: cold_shard_hash_for_def cold_shard_hash_def)
  next
    case False
    with p l show ?thesis by (simp add: cold_shard_hash_for_def cold_shard_hash_def Let_def)
  qed
qed

theorem cold_slot_in_range_witness:
  "\<exists>d. root_deserialise d = Inr new_empty \<and> hash_prefix toy_hash 0 < length (cold_shards new_empty)"
proof -
  from root_deserialise_serialise [OF new_empty_ok] obtain d where d: "root_deserialise d = Inr new_empty" by blast
  with cold_slot_in_range [OF d toy_hash_ok] show ?thesis by (auto simp: new_empty_def)
qed

section \<open>A filter that is replaced at push\<close>

lemma fresh_filter_empty: "\<not> may_contain (sized_for f n) g"
proof -
  have nz: "\<not> bf_get_bit (replicate k 0) i" if "unat i < 8 * k" for i k
  proof -
    have "unat (i div 8) < k" using that by (simp add: unat_div less_mult_imp_div_less mult.commute)
    then show ?thesis by (simp add: bf_get_bit_iff)
  qed
  let ?bf = "sized_for f n"
  have b: "bits ?bf = replicate (bytes_for (num_bits ?bf)) 0" "num_bits ?bf \<noteq> 0" "num_hash_functions ?bf = 7"
    by (auto simp: sized_for_def bloom_new_def bytes_for_def Let_def DEFAULT_NUM_HASH_FUNCTIONS_def)
  have "0 \<in> set (rounds ?bf)" by (simp add: rounds_def b(3) image_iff) (rule bexI [of _ 0], simp_all)
  moreover have "\<not> bf_get_bit (bits ?bf) (bit_index (raw g) 0 (num_bits ?bf))"
    unfolding b(1) by (rule nz) (rule bit_index_bound [OF b(2)])
  ultimately show ?thesis using b(2) by (auto simp: may_contain_def list_all_iff)
qed

text \<open>The filter at the end of a run: the filter of the new writer with the hashes of the run.\<close>

definition with_pushed :: "bloom \<Rightarrow> (hash \<times> bytes) list \<Rightarrow> bloom" where
  "with_pushed bf objs = foldr (\<lambda>(h, b) bf. bloom_insert bf h) objs bf"

lemma route_bloom: "route cx w s h b = Inr (w', s') \<Longrightarrow> w_bloom w' = bloom_insert (w_bloom w) h"
  by (auto simp: route_def flush_pack_def append_pack_def Let_def rbind_Inr_iff split: if_splits)

lemma push_run_bloom:
  "push_run cx ws objs ws' \<Longrightarrow> w_bloom (fst ws') = with_pushed (w_bloom (fst ws)) objs"
proof (induction rule: push_run.induct)
  case (inline objs w s h b w' s')
  with route_bloom [OF inline(4)] show ?case by (simp add: with_pushed_def)
next
  case (standalone objs w s h b w' s')
  with route_bloom [OF standalone(5)] show ?case by (simp add: with_pushed_def)
next
  case (flush objs w s w' s')
  then show ?case by (auto simp: flush_pack_def Let_def rbind_Inr_iff split: if_splits)
next
  case (lookup objs w s h r w')
  with writer_exists_state [OF lookup(2)] show ?case by auto
qed (simp_all add: with_pushed_def append_pack_def)

lemma read_index_root_cache: "read_index_root cx pointer rd = Inr (r, rd') \<Longrightarrow> rd_cache rd' = rd_cache rd"
  by (auto simp: read_index_root_def rbind_Inr_iff split: snapshot_state.splits)

lemma first_hit_listed:
  "loadable cx s ns \<Longrightarrow> n \<in> set ns \<Longrightarrow> index_at cx s n = Inr idx \<Longrightarrow> index_find idx h \<noteq> None \<Longrightarrow>
     first_hit cx s h ns \<noteq> None"
  by (induction ns) (auto split: option.splits)

context store_laws
begin

lemma locate_ruled_out:
  assumes i: "inv s" "cx_ops cx = S" "decode_snapshot cx pointer = Inr (Some ir)" and rd: "reader_ok cx s pointer rd"
    and recent: "loadable cx s (recent_indexes ir)" "first_hit cx s h (recent_indexes ir) = None"
    and bf: "bloom_hash_opt ir = Some bh" "hash_ok bh" "bloom_at cx s bh = Inr bf" "structural_defect bf = None" "\<not> may_contain bf h"
    and sh: "cold_shard_hash_for h ir = Some sh" "hash_ok sh" "sh \<notin> set (recent_indexes ir)"
      "os_exists cache_store (ic_objcache (rd_cache rd)) sh = Inr False"
  shows "\<exists>rd'. locate cx s pointer h rd = Inr (NotFound, rd')"
proof -
  from read_index_root_ok [OF rd i(3)] obtain rd1 where
    r1: "read_index_root cx pointer rd = Inr (Some ir, rd1)" "reader_ok cx s pointer rd1" by blast
  note c1 = reader_okD(1) [OF r1(2)] read_index_root_cache [OF r1(1)]
  from search_frame [OF i(1,2) c1(1) recent(1), of h] obtain c where
    c: "search_indexes cx s h (recent_indexes ir) (rd_cache rd1) = Inr (None, c)" "cache_ok cx s c"
      "cache_frame (set (recent_indexes ir)) (rd_cache rd1) c" using recent(2) by auto
  have ok: "backend_ok (ic_objcache (rd_cache rd))" "backend_ok (ic_objcache c)"
    using c1 c(2) by (simp_all add: cache_ok_def)
  have "backend_view (ic_objcache c) (hex sh) = backend_view (ic_objcache (rd_cache rd)) (hex sh)"
    using c(3) sh(2,3) c1(2) by (simp add: cache_frame_def)
  then have cold: "os_exists cache_store (ic_objcache c) sh = Inr False"
    using sh(4) by (simp add: cache_exists [OF ok(1) sh(2)] cache_exists [OF ok(2) sh(2)])
  let ?rd = "rd1\<lparr>rd_cache := c\<rparr>"
  have s: "search cx s h (recent_indexes ir) rd1 = Inr (None, ?rd)" using c(1) by (simp add: search_def)
  have "reader_ok cx s pointer ?rd" using r1(2) c(2) by (simp add: reader_ok_def)
  from load_bloom_ok [OF i(1,2) this bf(2,3)] obtain rd3 where "load_bloom_filter cx s bh ?rd = Inr (bf, rd3)" by blast
  with bf(1,4,5) sh(1) have "locate_cold cx s ir h ?rd = Inr (NotFound, rd3)"
    by (simp add: locate_cold_def bloom_rules_out_def)
  then show ?thesis using r1(1) s sh(1) cold by (simp add: locate_def)
qed

end

text \<open>C39: a push can hide objects of the cold tier. When the filter of the current root is
  structurally defective (a damaged object, or one of a foreign writer), every reader ignores
  it and finds an object that only its cold shard lists. Any push over that root, whatever it
  writes and even one that writes nothing, publishes a fresh filter that holds the hashes of
  this push only, and every reader that does not happen to have the cold shard in its cache
  then reports the same object as absent, unless the fresh filter lists it by a false
  positive, which it never does when the push wrote nothing.\<close>

theorem fresh_filter_hides_cold:
  assumes "keys_apart hmac key" and "gcm_opens E" and "backend_ok s0"
    and "cx = remote_ctx E hmac key opt"
    and "pack_writer_new cx s0 pointer oc = Inr w0" and "push_run cx (w0, s0) objs (w, s)"
    and "finish_free cx w s" and "length objs < 2 ^ 32"
    and "length (delta_hashes (start_root w0)) < 65535" and "length nonce = 12" and "hash_ok root"
    and "decode_snapshot cx pointer = Inr (Some ir)" and "loadable cx s0 (indexes_for g ir)"
    and "hash_ok g" and "g \<notin> fst ` set objs" and "first_hit cx s0 g (recent_indexes ir) = None"
    and "cold_shard_hash_for g ir = Some sh" and "index_at cx s0 sh = Inr idx" and "index_find idx g = Some e"
    and "bloom_hash_opt ir = Some bh" and "bloom_at cx s0 bh = Inr bf" and "structural_defect bf \<noteq> None"
    and "objs = [] \<or> \<not> may_contain (with_pushed (sized_for opt (unat (element_count bf))) objs) g"
    and "sha E (bloom_serialise (w_bloom w)) \<noteq> ZERO32"
  shows "(\<forall>rd. reader_ok cx s0 pointer rd \<longrightarrow> (\<exists>rd'. locate cx s0 pointer g rd = Inr (Entry e, rd'))) \<and>
    (\<exists>n w' s' pointer'. finish cx w s pointer root nonce = Inr (n, w', s', pointer') \<and>
       (\<forall>rd. reader_ok cx s' pointer' rd \<longrightarrow> os_exists cache_store (ic_objcache (rd_cache rd)) sh = Inr False \<longrightarrow>
          (\<exists>rd'. locate cx s' pointer' g rd = Inr (NotFound, rd'))))"
proof -
  note L = keys_apart_laws [OF assms(1)]
  have ops: "cx_ops cx = local_store hmac key" and E: "gcm_opens (cx_env cx)" using assms(2,4) by simp_all
  note new = pack_writer_new_ok [OF assms(5)]
  have snap0: "w_snapshot_root w0 = Some ir" using new(4) assms(12) by simp
  then have start: "start_root w0 = ir" by (simp add: start_root_def)
  have rok: "root_ok ir" using assms(12) decode_root_ok
    by (auto simp: decode_snapshot_def rbind_Inr_iff split: option.splits)
  have bh: "hash_ok bh" using bloom_hash_ok [OF rok assms(20)] .
  have sh: "hash_ok sh" and ldr: "loadable cx s0 (recent_indexes ir)"
    using assms(13,17) by (simp_all add: indexes_for_def)
  have sh_new: "sh \<notin> set (recent_indexes ir)" using first_hit_listed [OF ldr _ assms(18), of g] assms(16,19) by auto
  have found: "first_hit cx s0 g (indexes_for g ir) = Some e"
    using first_hit_append [OF ldr, of g "[sh]"] assms(16-19) by (simp add: indexes_for_def)
  have "covers cx s0 ir g" using assms(20-22) bh by (simp add: covers_def)
  from store_laws.locate_ok [OF L assms(3) ops _ assms(12,13) this]
  have before: "\<exists>rd'. locate cx s0 pointer g rd = Inr (Entry e, rd')" if "reader_ok cx s0 pointer rd" for rd
    using that by (fastforce simp: found)
  from store_laws.push_run_ok [OF L assms(6,3) ops new(1)] have
    r: "backend_ok s" "run_ok cx objs w s" "same_start w0 w" "grows cx s0 s" by simp_all
  have tok: "token_for pointer = w_start_token w" using r(3) new(3) by (simp add: same_start_def)
  from store_laws.finish_ok [OF L r(1) ops E r(2) assms(8-11) base_root_start [OF assms(5) r(3)] assms(7) tok]
  obtain n w' s' rawb ir' where f: "finish cx w s pointer root nonce = Inr (n, w', s', Some rawb)"
    "backend_ok s'" "run_ok cx objs w' s'" "decode_root cx rawb = Inr ir'" "w_bloom w' = w_bloom w"
    "published cx s' ir w' root ir'" "grows cx s s'" unfolding start by blast
  have snap: "decode_snapshot cx (Some rawb) = Inr (Some ir')" using f(4) by (simp add: decode_snapshot_def)
  note gr = grows_trans [OF r(4) f(7)]
  have "w_bloom w0 = sized_for opt (unat (element_count bf))"
    using new(6) assms(4,20-22)
    by (auto simp: snap0 load_remote_bloom_def bloom_at_def stored_plain_def rbind_Inr_iff Let_def)
  with push_run_bloom [OF assms(6)] have fresh: "w_bloom w = with_pushed (sized_for opt (unat (element_count bf))) objs"
    by simp
  have miss: "\<not> may_contain (w_bloom w) g"
    using assms(23) fresh_filter_empty by (auto simp: fresh with_pushed_def)
  have "structural_defect (w_bloom w) = None" using new(5) r(3) by (simp add: same_start_def)
  moreover let ?bh = "compute (sha (cx_env cx)) (bloom_serialise (w_bloom w))"
  have b: "bloom_hash_opt ir' = Some ?bh" "hash_ok ?bh" "bloom_at cx s' ?bh = Inr (w_bloom w)"
    using f(5,6) assms(4,24) by (auto simp: published_def bloom_hash_opt_def hash_opt_def compute_def)
  note shards = published_shards [OF f(6)]
  note h1 = first_hit_grows [OF gr assms(13), of g]
  note h2 = published_first_hit [OF f(6,3) conjunct2 [OF h1] assms(14,15)]
  have ldr': "loadable cx s' (recent_indexes ir')" using h2 by (simp add: indexes_for_def)
  have new_delta: "first_hit cx s' g (recent_indexes ir') = None"
  proof -
    have "first_hit cx s' g (recent_indexes ir) = None"
      using first_hit_grows [OF gr ldr, of g] assms(16) by simp
    moreover have "index_find (w_delta w') g = None"
    proof (rule ccontr)
      assume "index_find (w_delta w') g \<noteq> None"
      then obtain e' where "e' \<in> set (w_delta w')" "ihash e' = g"
        using index_find_iff [OF run_okD(2) [OF f(3)] assms(14)] by blast
      with run_okD(1) [OF f(3)] assms(15) show False by (force simp: entries_for_def)
    qed
    moreover have "recent_indexes ir' = recent_indexes ir \<or>
        (\<exists>dh. index_at cx s' dh = Inr (w_delta w') \<and> recent_indexes ir' = dh # recent_indexes ir)"
      using shards(2) f(6) by (auto simp: published_def delta_hashes_as_hashes_def)
    ultimately show ?thesis by auto
  qed
  have "index_at cx s' sh = Inr idx" using index_at_grows [OF gr sh assms(18)] .
  with first_hit_listed [OF ldr' _ this, of g] new_delta assms(19) have "sh \<notin> set (recent_indexes ir')" by auto
  moreover have "cold_shard_hash_for g ir' = Some sh" using shards(1) assms(17) by simp
  ultimately have "\<exists>rd'. locate cx s' (Some rawb) g rd = Inr (NotFound, rd')"
    if "reader_ok cx s' (Some rawb) rd" "os_exists cache_store (ic_objcache (rd_cache rd)) sh = Inr False" for rd
    using store_laws.locate_ruled_out [OF L f(2) ops snap that(1) ldr' new_delta b] miss sh that(2) by blast
  with before f(1) show ?thesis by blast
qed

definition toy_bad_bloom :: bloom where
  "toy_bad_bloom = \<lparr>num_hash_functions = 7, num_bits = 0, element_count = 1, bits = []\<rparr>"

definition toy_bad_hash :: hash where
  "toy_bad_hash = compute (sha toy_env) (bloom_serialise toy_bad_bloom)"

text \<open>The hot index of the root lists another object.\<close>

definition toy_hot :: bytes where
  "toy_hot = INDEX_MAGIC @ [INDEX_VERSION] @ [0] @ u32_to_be 1 @ entry_bytes (Inline toy_delta_hash [7, 8])"

definition toy_hot_hash :: hash where
  "toy_hot_hash = compute (sha toy_env) toy_hot"

definition toy_cold_root :: index_root where
  "toy_cold_root = new_empty\<lparr>hot_hash := raw toy_hot_hash, cold_shards := [raw toy_delta_hash], bloom_hash := raw toy_bad_hash\<rparr>"

lemma toy_hot_ok:
  "index_deserialise toy_hot = Inr [Inline toy_delta_hash [7, 8]]" "length toy_hot = 44" "hash_ok toy_hot_hash"
proof -
  have ok: "index_ok [Inline toy_delta_hash [7, 8]]" using toy_remote_write(1) by (simp add: index_ok_def entry_ok_def)
  have "index_serialise [Inline toy_delta_hash [7, 8]] = Inr toy_hot" by (simp add: index_serialise_def toy_hot_def)
  from index_wire.roundtrip [OF ok this] show "index_deserialise toy_hot = Inr [Inline toy_delta_hash [7, 8]]" .
  show "length toy_hot = 44" using toy_remote_write(1) by (simp add: toy_hot_def INDEX_MAGIC_def hash_ok_def)
  show "hash_ok toy_hot_hash" by (simp add: toy_hot_hash_def)
qed

lemma toy_other_hash: "toy_delta_hash \<noteq> toy_hash"
proof
  assume "toy_delta_hash = toy_hash"
  then have "hd (raw toy_delta_hash) = hd (raw toy_hash)" by simp
  then show False
    by (simp add: toy_delta_hash_def compute_def toy_env_def toy_digest_def toy_hash_def length_toy_delta)
qed

lemma toy_digest_nonzero: "x \<noteq> [] \<Longrightarrow> length x < 256 \<Longrightarrow> sha toy_env x \<noteq> ZERO32"
proof
  assume x: "x \<noteq> []" "length x < 256" and "sha toy_env x = ZERO32"
  then have "hd (sha toy_env x) = hd ZERO32" by simp
  then have "(word_of_nat (length x) :: u8) = 0" by (simp add: toy_env_def toy_digest_def ZERO32_def)
  then have "unat (word_of_nat (length x) :: u8) = 0" by simp
  with x show False by (simp add: unat_of_nat)
qed

lemma toy_bad_length: "length (bloom_serialise toy_bad_bloom) = 20"
  by (simp add: toy_bad_bloom_def bloom_serialise_def BLOOM_MAGIC_def)

lemma toy_cold_root_facts:
  "root_ok toy_cold_root" "bloom_hash_opt toy_cold_root = Some toy_bad_hash"
  "cold_shard_hash_for toy_hash toy_cold_root = Some toy_delta_hash" "recent_indexes toy_cold_root = [toy_hot_hash]"
proof -
  have l: "length (raw toy_delta_hash) = 32" "hash_ok toy_bad_hash" "length (raw toy_bad_hash) = 32" "length (raw toy_hot_hash) = 32"
    using toy_remote_write(1) toy_hot_ok(3) toy_env_ok(3) by (simp_all add: hash_ok_def toy_bad_hash_def compute_def digest32_def)
  then show "root_ok toy_cold_root" using new_empty_ok by (simp add: toy_cold_root_def root_ok_def new_empty_def)
  have "raw toy_delta_hash \<noteq> ZERO32" "raw toy_bad_hash \<noteq> ZERO32" "raw toy_hot_hash \<noteq> ZERO32"
    using toy_digest_nonzero [of toy_delta] toy_digest_nonzero [of "bloom_serialise toy_bad_bloom"] toy_digest_nonzero [of toy_hot]
      length_toy_delta toy_bad_length toy_hot_ok(2) by (fastforce simp: toy_delta_hash_def toy_bad_hash_def toy_hot_hash_def compute_def)+
  then show "bloom_hash_opt toy_cold_root = Some toy_bad_hash"
    "cold_shard_hash_for toy_hash toy_cold_root = Some toy_delta_hash" "recent_indexes toy_cold_root = [toy_hot_hash]"
    using l toy_remote_write(1) toy_hot_ok(3)
    by (simp_all add: bloom_hash_opt_def hash_opt_def toy_cold_root_def cold_shard_hash_for_def cold_shard_hash_def
        recent_indexes_def delta_hashes_as_hashes_def hot_hash_opt_def new_empty_def)
qed

text \<open>Storing one more small object leaves the names of objects of other lengths free.\<close>

lemma toy_store:
  assumes "backend_ok s" "length d < 256" "free_for toy_ctx s (compute (sha toy_env) d) d"
  obtains s' where "backend_ok s'" "grows toy_ctx s s'" "os_open_read (local_store toy_hmac None) s' (compute (sha toy_env) d) = Inr d"
    "\<And>c x. length c < 256 \<Longrightarrow> length c \<noteq> length d \<Longrightarrow> free_for toy_ctx s (compute (sha toy_env) c) x \<Longrightarrow>
       free_for toy_ctx s' (compute (sha toy_env) c) x"
proof -
  note L = keys_apart_laws [OF toy_keys_apart, of None]
  from store_laws.write_free [OF L assms(1) _ assms(3)] obtain s' where
    s': "os_write_from (local_store toy_hmac None) s (compute (sha toy_env) d) d = Inr s'" "backend_ok s'"
      "os_open_read (local_store toy_hmac None) s' (compute (sha toy_env) d) = Inr d" "grows toy_ctx s s'" by auto
  have "free_for toy_ctx s' (compute (sha toy_env) c) x"
    if "length c < 256" "length c \<noteq> length d" "free_for toy_ctx s (compute (sha toy_env) c) x" for c x
    using store_laws.write_other_free [OF L assms(1) _ assms(3) s'(1) toy_compute_neq [OF that(1) assms(2) that(2)] that(3)]
    by simp
  with s' that show thesis by blast
qed

lemma toy_cold_remote:
  obtains s where "backend_ok s" "bloom_at toy_ctx s toy_bad_hash = Inr toy_bad_bloom"
    "index_at toy_ctx s toy_delta_hash = Inr [Inline toy_hash [7]]"
    "index_at toy_ctx s toy_hot_hash = Inr [Inline toy_delta_hash [7, 8]]"
    "\<And>c x. length c \<in> {2, 8, 21} \<Longrightarrow> free_for toy_ctx s (compute (sha toy_env) c) x"
proof -
  let ?b = "bloom_serialise toy_bad_bloom"
  have b: "backend_ok toy_remote" by (simp add: toy_remote_def)
  have f: "free_for toy_ctx toy_remote (compute (sha toy_env) ?b) ?b"
    by (rule toy_remote_free) (simp_all add: toy_bad_length length_toy_delta)
  have l: "length ?b < 256" by (simp add: toy_bad_length)
  obtain s where s: "backend_ok s" "grows toy_ctx toy_remote s"
    "os_open_read (local_store toy_hmac None) s (compute (sha toy_env) ?b) = Inr ?b"
    and free: "\<And>c x. length c < 256 \<Longrightarrow> length c \<noteq> length ?b \<Longrightarrow> free_for toy_ctx toy_remote (compute (sha toy_env) c) x \<Longrightarrow>
       free_for toy_ctx s (compute (sha toy_env) c) x" by (rule toy_store [OF b l f]) (rule that)
  have f2: "free_for toy_ctx s (compute (sha toy_env) toy_hot) toy_hot"
    by (rule free, simp_all add: toy_bad_length toy_hot_ok(2)) (rule toy_remote_free, simp_all add: length_toy_delta toy_hot_ok(2))
  have l2: "length toy_hot < 256" by (simp add: toy_hot_ok(2))
  obtain t where t: "backend_ok t" "grows toy_ctx s t"
    "os_open_read (local_store toy_hmac None) t (compute (sha toy_env) toy_hot) = Inr toy_hot"
    and free2: "\<And>c x. length c < 256 \<Longrightarrow> length c \<noteq> length toy_hot \<Longrightarrow> free_for toy_ctx s (compute (sha toy_env) c) x \<Longrightarrow>
       free_for toy_ctx t (compute (sha toy_env) c) x" by (rule toy_store [OF s(1) l2 f2]) (rule that)
  have ok: "bloom_ok toy_bad_bloom" by (simp add: toy_bad_bloom_def bloom_ok_def bytes_for_def)
  have "hash_ok toy_bad_hash" by (simp add: toy_bad_hash_def)
  moreover have "os_open_read (cx_ops toy_ctx) s toy_bad_hash = Inr ?b" using s(3) by (simp add: toy_bad_hash_def)
  ultimately have "os_open_read (local_store toy_hmac None) t toy_bad_hash = Inr ?b"
    using t(2) by (fastforce simp: grows_def)
  then have "bloom_at toy_ctx t toy_bad_hash = Inr toy_bad_bloom"
    by (simp add: bloom_at_def stored_plain_def decrypt_def bloom_deserialise_serialise [OF ok])
  moreover have "index_at toy_ctx t toy_hot_hash = Inr [Inline toy_delta_hash [7, 8]]"
    using t(3) by (simp add: index_at_def stored_plain_def decrypt_def toy_hot_ok(1) toy_hot_hash_def)
  moreover have "free_for toy_ctx t (compute (sha toy_env) c) x" if c: "length c \<in> {2, 8, 21}" for c x
  proof (rule free2)
    show "free_for toy_ctx s (compute (sha toy_env) c) x"
      by (rule free) (use c in \<open>auto simp: toy_bad_length length_toy_delta intro!: toy_remote_free\<close>)
  qed (use c in \<open>auto simp: toy_hot_ok(2)\<close>)
  ultimately show thesis
    using that t(1) index_at_grows [OF grows_trans [OF s(2) t(2)] toy_remote_write(1) toy_index_at] by blast
qed

theorem fresh_filter_hides_cold_witness:
  "\<exists>s pointer w rd1 n w' s' pointer' rd2.
     locate toy_ctx s pointer toy_hash (pack_reader_new (LocalB empty_dir) (LocalB empty_dir) (LocalB empty_dir)) =
       Inr (Entry (Inline toy_hash [7]), rd1) \<and>
     finish toy_ctx w s pointer toy_hash (replicate 12 5) = Inr (n, w', s', pointer') \<and>
     locate toy_ctx s' pointer' toy_hash (pack_reader_new (LocalB empty_dir) (LocalB empty_dir) (LocalB empty_dir)) =
       Inr (NotFound, rd2)"
proof -
  let ?rd = "pack_reader_new (LocalB empty_dir) (LocalB empty_dir) (LocalB empty_dir)"
  from root_deserialise_serialise [OF toy_cold_root_facts(1)] obtain d where "root_deserialise d = Inr toy_cold_root" by blast
  then have d: "decode_snapshot toy_ctx (Some d) = Inr (Some toy_cold_root)"
    by (simp add: decode_snapshot_def decode_root_def decrypt_index_root_bytes_def)
  obtain s where s: "backend_ok s" "bloom_at toy_ctx s toy_bad_hash = Inr toy_bad_bloom"
    "index_at toy_ctx s toy_delta_hash = Inr [Inline toy_hash [7]]"
    "index_at toy_ctx s toy_hot_hash = Inr [Inline toy_delta_hash [7, 8]]"
    and free: "\<And>c x. length c \<in> {2, 8, 21} \<Longrightarrow> free_for toy_ctx s (compute (sha toy_env) c) x"
    by (rule toy_cold_remote) (rule that)
  let ?w = "toy_writer\<lparr>w_start_snapshot := Some d, w_start_token := Present d, w_snapshot_root := Some toy_cold_root\<rparr>"
  have defect: "structural_defect toy_bad_bloom \<noteq> None" by (simp add: toy_bad_bloom_def structural_defect_def)
  have "sized_for (\<lambda>_. 8) n = sized_for (\<lambda>_. 8) 0" for n by (simp add: sized_for_def)
  then have "load_remote_bloom toy_ctx s (Some toy_cold_root) = Inr (w_bloom toy_writer)"
    using s(2) defect toy_cold_root_facts(2)
    by (auto simp: load_remote_bloom_def bloom_at_def stored_plain_def rbind_Inr_iff Let_def toy_writer_def)
      (simp_all add: toy_ctx_def)
  then have new: "pack_writer_new toy_ctx s (Some d) (LocalB empty_dir) = Inr ?w"
    using d by (simp add: pack_writer_new_def root_read_def token_for_def toy_writer_def)
  have fin: "finish_free toy_ctx ?w s" by (rule toy_idle_free [OF free]) (simp_all add: toy_writer_def)
  have ok: "backend_ok (LocalB empty_dir)" using shard_ok_cases [of 64 empty_dir] by simp
  have rd: "reader_ok toy_ctx t p ?rd" for t p
    by (rule reader_new_ok [OF ok ok ok empty_dir_view empty_dir_view])
  have cold: "os_exists cache_store (ic_objcache (rd_cache ?rd)) toy_delta_hash = Inr False"
    using empty_dir_view [OF toy_remote_write(1)] by (simp add: pack_reader_new_def cache_exists [OF ok toy_remote_write(1)])
  have n: "length (delta_hashes (start_root ?w)) < 65535"
    by (simp add: start_root_def toy_cold_root_def new_empty_def)
  have ld: "loadable toy_ctx s (indexes_for toy_hash toy_cold_root)"
    using s(3,4) toy_remote_write(1) toy_hot_ok(3) by (simp add: indexes_for_def toy_cold_root_facts)
  have no: "index_find [Inline toy_delta_hash [7, 8]] toy_hash = None"
  proof (rule ccontr)
    assume "index_find [Inline toy_delta_hash [7, 8]] toy_hash \<noteq> None"
    then obtain e where e: "index_find [Inline toy_delta_hash [7, 8]] toy_hash = Some e" by blast
    have "index_sorted [Inline toy_delta_hash [7, 8]]" using toy_remote_write(1) by (simp add: index_sorted_def)
    from iffD1 [OF index_find_iff [OF this toy_hash_ok] e] toy_other_hash show False by auto
  qed
  then have hot: "first_hit toy_ctx s toy_hash (recent_indexes toy_cold_root) = None"
    using s(4) toy_hot_ok(3) by (simp add: toy_cold_root_facts)
  have i: "index_find [Inline toy_hash [7]] toy_hash = Some (Inline toy_hash [7])"
    by (simp add: index_find_def partition_point_def)
  have z: "sha toy_env (bloom_serialise (w_bloom ?w)) \<noteq> ZERO32"
    by (rule toy_digest_nonzero)
      (simp_all add: toy_writer_def bloom_serialise_def BLOOM_MAGIC_def sized_for_def bloom_new_def bytes_for_def Let_def)
  have l: "length ([] :: (hash \<times> bytes) list) < 2 ^ 32" "length (replicate 12 (5 :: u8)) = 12"
    "toy_hash \<notin> fst ` set ([] :: (hash \<times> bytes) list)" by simp_all
  from fresh_filter_hides_cold [OF toy_keys_apart toy_env_ok(2) s(1) toy_ctx_def new push_run.start fin l(1) n l(2) toy_hash_ok d
      ld toy_hash_ok l(3) hot toy_cold_root_facts(3) s(3) i toy_cold_root_facts(2) s(2) defect disjI1 [OF refl] z] rd cold
  show ?thesis by blast
qed

end
