(* ===== verification/PackCompact.thy ===== *)
theory PackCompact
  imports PackPublish "HOL-Library.AList"
begin

text \<open>
  Compaction of the pack layer (\<open>src/src/commands/pack.rs\<close>): merging the delta indexes
  into the hot index, moving entries that are not hot to the cold shards, consolidating
  small pack files, splitting an oversized cold shard, regenerating the filter, and the
  conditional write of the new index root.

  A \<open>HashMap\<close> is an association list with distinct keys whose order stands for the
  unspecified order of iteration. The size of a remote object, the set of stubbed paths of
  the working tree, the two roots and the nonce are arguments. The statistics that the run
  records are left out.
\<close>

section \<open>Merging the delta indexes\<close>

definition insert_entry :: "(string \<times> index_entry) list \<Rightarrow> index_entry \<Rightarrow> (string \<times> index_entry) list" where
  "insert_entry m e = AList.update (hex (ihash e)) e m"

definition load_index ::
    "'s pack_ctx \<Rightarrow> 's \<Rightarrow> hash \<Rightarrow> objects_backend \<Rightarrow> (index_file \<times> objects_backend) result" where
  "load_index cx s n oc = load_index_file (cx_env cx) (cx_ops cx) s cache_store oc (cx_key cx) n"

definition merge_index ::
    "'s pack_ctx \<Rightarrow> 's \<Rightarrow> hash \<Rightarrow> (string \<times> index_entry) list \<times> objects_backend \<Rightarrow>
       ((string \<times> index_entry) list \<times> objects_backend) result" where
  "merge_index cx s n = (\<lambda>(m, oc). rbind (load_index cx s n oc) (\<lambda>(idx, oc'). Inr (foldl insert_entry m idx, oc')))"

definition merge_deltas_into_hot ::
    "'s pack_ctx \<Rightarrow> 's \<Rightarrow> index_root \<Rightarrow> objects_backend \<Rightarrow> (index_entry list \<times> objects_backend) result" where
  "merge_deltas_into_hot cx s ir oc =
     rbind (rfold (merge_index cx s)
              ((case hot_hash_opt ir of None \<Rightarrow> [] | Some n \<Rightarrow> [n]) @ rev (delta_hashes_as_hashes ir)) ([], oc))
       (\<lambda>(m, oc'). Inr (map snd m, oc'))"

section \<open>Hot and cold\<close>

fun collect_tree_hashes_inner ::
    "nat \<Rightarrow> env \<Rightarrow> (bytes \<Rightarrow> tree option) \<Rightarrow> 'l object_store \<Rightarrow> 'l \<Rightarrow> string list \<Rightarrow> hash \<Rightarrow> string \<Rightarrow> string list \<Rightarrow>
       string list result" where
  "collect_tree_hashes_inner 0 E from_json L l stubbed h pre out = Inl (Other ''nesting depth'')"
| "collect_tree_hashes_inner (Suc fuel) E from_json L l stubbed h pre out =
     (let out = hex h # out in
      case store_read E L l h None of
        Inl _ \<Rightarrow> Inr out
      | Inr data \<Rightarrow>
          (case tree_deserialise from_json data of
             Inl _ \<Rightarrow> Inr out
           | Inr (Normal es) \<Rightarrow>
               rfold (\<lambda>e out.
                 let rel_path = (if pre = [] then ename e else pre @ ''/'' @ ename e) in
                 case e of
                   Blob _ bh _ _ _ \<Rightarrow>
                     Inr ((case store_read E L l bh None of
                             Inl _ \<Rightarrow> []
                           | Inr r \<Rightarrow> (case deserialise_manifest r of None \<Rightarrow> [] | Some cs \<Rightarrow> map hex cs))
                          @ hex bh # out)
                 | TreeE _ child_hash _ _ _ \<Rightarrow>
                     if rel_path \<in> set stubbed then Inr (hex child_hash # out)
                     else collect_tree_hashes_inner fuel E from_json L l stubbed child_hash rel_path out
                 | Symlink _ _ _ \<Rightarrow> Inr out) es out))"

definition collect_tree_hashes ::
    "nat \<Rightarrow> env \<Rightarrow> (bytes \<Rightarrow> tree option) \<Rightarrow> 'l object_store \<Rightarrow> 'l \<Rightarrow> string list \<Rightarrow> hash \<Rightarrow> string list \<Rightarrow> string list result" where
  "collect_tree_hashes fuel E from_json L l stubbed root out =
     collect_tree_hashes_inner fuel E from_json L l stubbed root [] out"

text \<open>\<open>origin_root\<close> is \<open>None\<close> if the root cannot be read.\<close>

definition collect_hot_hashes ::
    "nat \<Rightarrow> env \<Rightarrow> (bytes \<Rightarrow> tree option) \<Rightarrow> 'l object_store \<Rightarrow> 'l \<Rightarrow> string list \<Rightarrow> hash option \<Rightarrow> hash option \<Rightarrow>
       string list result" where
  "collect_hot_hashes fuel E from_json L l stubbed clone_root origin_root =
     rbind (case clone_root of None \<Rightarrow> Inr [] | Some h \<Rightarrow> collect_tree_hashes fuel E from_json L l stubbed h []) (\<lambda>hot.
       case origin_root of None \<Rightarrow> Inr hot | Some h \<Rightarrow> collect_tree_hashes fuel E from_json L l stubbed h hot)"

fun stays_hot :: "string list \<Rightarrow> index_entry \<Rightarrow> bool" where
  "stays_hot hot_hashes (Standalone h) = True"
| "stays_hot hot_hashes (Inline h d) = (hex h \<in> set hot_hashes)"
| "stays_hot hot_hashes (PackE h p off len) = (hex h \<in> set hot_hashes)"

definition split_hot_cold :: "string list \<Rightarrow> index_entry list \<Rightarrow> index_entry list \<times> index_entry list" where
  "split_hot_cold hot_hashes es = (filter (stays_hot hot_hashes) es, filter (\<lambda>e. \<not> stays_hot hot_hashes e) es)"

section \<open>Consolidating small pack files\<close>

definition CONSOLIDATION_THRESHOLD :: nat where "CONSOLIDATION_THRESHOLD = 2 * 1024 * 1024"

definition size_step ::
    "('s \<Rightarrow> hash \<Rightarrow> nat result) \<Rightarrow> 's \<Rightarrow> index_entry \<Rightarrow> (string \<times> nat) list \<Rightarrow> (string \<times> nat) list result" where
  "size_step sizef s e sizes =
     (case e of
        PackE _ p _ _ \<Rightarrow>
          if map_of sizes (hex p) \<noteq> None then Inr sizes
          else rbind (sizef s p) (\<lambda>n. Inr (AList.update (hex p) n sizes))
      | _ \<Rightarrow> Inr sizes)"

definition candidate_packs :: "(string \<times> nat) list \<Rightarrow> string list" where
  "candidate_packs sizes = map fst (filter (\<lambda>(_, n). n < CONSOLIDATION_THRESHOLD) sizes)"

definition read_step ::
    "'s pack_ctx \<Rightarrow> 's \<Rightarrow> string \<Rightarrow> (string \<times> bytes) list \<Rightarrow> (string \<times> bytes) list result" where
  "read_step cx s p bufs =
     (case from_hex p of
        Inl _ \<Rightarrow> Inl (InvalidObject ''bad pack_hash hex'')
      | Inr n \<Rightarrow> rbind (os_open_read (cx_ops cx) s n) (\<lambda>buf. Inr (AList.update p buf bufs)))"

record repack =
  rp_buf :: bytes
  rp_entries :: "(hash \<times> u32 \<times> u32) list"
  rp_completed :: "(bytes \<times> (hash \<times> u32 \<times> u32) list) list"
  rp_updated :: "(string \<times> index_entry) list"

definition repack_append :: "hash \<Rightarrow> bytes \<Rightarrow> repack \<Rightarrow> repack" where
  "repack_append h encrypted r =
     (let buf = rp_buf r @ encrypted;
          es = rp_entries r @ [(h, word_of_nat (length (rp_buf r)), word_of_nat (length encrypted))]
      in if PACK_TARGET \<le> length buf \<or> PACK_MAX \<le> length buf
         then r\<lparr>rp_buf := [], rp_entries := [], rp_completed := rp_completed r @ [(buf, es)]\<rparr>
         else r\<lparr>rp_buf := buf, rp_entries := es\<rparr>)"

definition repack_step ::
    "string list \<Rightarrow> (string \<times> bytes) list \<Rightarrow> index_entry \<Rightarrow> repack \<Rightarrow> repack result" where
  "repack_step candidates bufs e r =
     (let keep = Inr (r\<lparr>rp_updated := insert_entry (rp_updated r) e\<rparr>) in
      case e of
        PackE h p off len \<Rightarrow>
          if hex p \<in> set candidates
          then rbind (ok_or (map_of bufs (hex p)) (ObjectNotFound (hex p))) (\<lambda>buf.
                 let start = PACK_BODY_OFFSET + unat off; stop = start + unat len
                 in if length buf < stop then Inl (InvalidObject ''pack entry out of range'')
                    else Inr (repack_append h (subslice start stop buf) r))
          else keep
      | _ \<Rightarrow> keep)"

definition completed_packs :: "repack \<Rightarrow> (bytes \<times> (hash \<times> u32 \<times> u32) list) list" where
  "completed_packs r = (if rp_entries r = [] then rp_completed r else rp_completed r @ [(rp_buf r, rp_entries r)])"

definition write_pack ::
    "'s pack_ctx \<Rightarrow> bytes \<times> (hash \<times> u32 \<times> u32) list \<Rightarrow> (string \<times> index_entry) list \<times> 's \<Rightarrow>
       ((string \<times> index_entry) list \<times> 's) result" where
  "write_pack cx = (\<lambda>(buf, ps) (updated, s).
     let ph = compute (sha (cx_env cx)) (pack_file buf)
     in rbind (os_write_from (cx_ops cx) s ph (pack_file buf)) (\<lambda>s'.
          Inr (foldl insert_entry updated (pack_entries ph ps), s')))"

definition consolidate_pack_files ::
    "'s pack_ctx \<Rightarrow> ('s \<Rightarrow> hash \<Rightarrow> nat result) \<Rightarrow> 's \<Rightarrow> index_entry list \<Rightarrow> (index_entry list \<times> 's) result" where
  "consolidate_pack_files cx sizef s es =
     rbind (rfold (size_step sizef s) es []) (\<lambda>sizes.
       let candidates = candidate_packs sizes in
       if candidates = [] then Inr (es, s)
       else rbind (rfold (read_step cx s) candidates []) (\<lambda>bufs.
            rbind (rfold (repack_step candidates bufs) es
                     \<lparr>rp_buf = [], rp_entries = [], rp_completed = [], rp_updated = []\<rparr>) (\<lambda>r.
            rbind (rfold (write_pack cx) (completed_packs r) (rp_updated r, s)) (\<lambda>(updated, s').
              Inr (map snd updated, s')))))"

section \<open>Writing index files\<close>

definition write_index_file :: "'s pack_ctx \<Rightarrow> 's \<Rightarrow> index_entry list \<Rightarrow> (hash \<times> 's) result" where
  "write_index_file cx s es =
     rbind (index_serialise (foldl index_push [] es)) (\<lambda>bytes.
       let h = compute (sha (cx_env cx)) bytes
       in rbind (os_write_from (cx_ops cx) s h (encrypt (cx_env cx) bytes (cx_key cx) (raw h))) (\<lambda>s'. Inr (h, s')))"

section \<open>Cold shards\<close>

definition apply_cold_entries ::
    "'s pack_ctx \<Rightarrow> index_entry list \<Rightarrow> index_root \<Rightarrow> 's \<times> objects_backend \<Rightarrow> (index_root \<times> 's \<times> objects_backend) result" where
  "apply_cold_entries cx cold ir = (\<lambda>(s, oc).
     if cold = [] then Inr (if cold_shards ir = [] then ir\<lparr>cold_shards := [ZERO32]\<rparr> else ir, s, oc)
     else let old_shared = (if cold_shards ir = [] then ZERO32 else cold_shards ir ! 0) in
          rbind (if old_shared = ZERO32 then Inr ([], oc) else load_index cx s (from_bytes old_shared) oc) (\<lambda>(shard, oc').
          rbind (write_index_file cx s (shard @ cold)) (\<lambda>(new, s').
            Inr (ir\<lparr>cold_shards := map (\<lambda>slot. if slot = old_shared then raw new else slot) (cold_shards ir)\<rparr>, s', oc'))))"

definition COLD_SHARD_SPLIT_THRESHOLD :: nat where "COLD_SHARD_SPLIT_THRESHOLD = 4 * 1024 * 1024"

text \<open>The first slot of the largest oversized shard; a shard whose size is unknown counts as
  empty.\<close>

fun largest_shard ::
    "(hash \<Rightarrow> nat result) \<Rightarrow> nat \<Rightarrow> bytes list \<Rightarrow> bytes list \<Rightarrow> (nat \<times> nat) option \<Rightarrow> (nat \<times> nat) option" where
  "largest_shard sizef i [] checked best = best"
| "largest_shard sizef i (b # bs) checked best =
     (if b = ZERO32 \<or> b \<in> set checked then largest_shard sizef (i + 1) bs checked best
      else let n = (case sizef (from_bytes b) of Inl _ \<Rightarrow> 0 | Inr n \<Rightarrow> n);
               largest = (case best of None \<Rightarrow> 0 | Some (_, m) \<Rightarrow> m)
           in largest_shard sizef (i + 1) bs (b # checked)
                (if COLD_SHARD_SPLIT_THRESHOLD < n \<and> largest < n then Some (i, n) else best))"

definition first_byte_of :: "index_entry \<Rightarrow> u8" where
  "first_byte_of e = raw (ihash e) ! 0"

definition prefix_counts :: "index_entry list \<Rightarrow> (u8 \<times> nat) list" where
  "prefix_counts es =
     foldl (\<lambda>m e. AList.update (first_byte_of e) (case map_of m (first_byte_of e) of None \<Rightarrow> 1 | Some n \<Rightarrow> n + 1) m) [] es"

fun max_by_count :: "(u8 \<times> nat) list \<Rightarrow> (u8 \<times> nat) option" where
  "max_by_count [] = None"
| "max_by_count (x # xs) =
     (case max_by_count xs of None \<Rightarrow> Some x | Some y \<Rightarrow> Some (if snd y < snd x then x else y))"

definition widen_slots :: "index_root \<Rightarrow> index_root" where
  "widen_slots ir =
     (if cold_prefix_bits ir < 8
      then let scale = 256 div cold_shard_count ir
           in ir\<lparr>cold_shards := concat (map (replicate scale) (cold_shards ir)), cold_prefix_bits := 8\<rparr>
      else ir)"

definition repoint :: "bytes \<Rightarrow> u8 \<Rightarrow> hash \<Rightarrow> hash \<Rightarrow> bytes list \<Rightarrow> bytes list" where
  "repoint old best dedicated shared slots =
     map (\<lambda>(slot, i). if slot = old then (if i = unat best then raw dedicated else raw shared) else slot)
       (zip slots [0..<length slots])"

definition split_cold_shards ::
    "'s pack_ctx \<Rightarrow> ('s \<Rightarrow> hash \<Rightarrow> nat result) \<Rightarrow> index_root \<Rightarrow> 's \<times> objects_backend \<Rightarrow>
       (bool \<times> index_root \<times> 's \<times> objects_backend) result" where
  "split_cold_shards cx sizef ir = (\<lambda>(s, oc).
     case largest_shard (sizef s) 0 (cold_shards ir) [] None of
       None \<Rightarrow> Inr (False, ir, s, oc)
     | Some (split_idx, _) \<Rightarrow>
         let old = cold_shards ir ! split_idx in
         rbind (load_index cx s (from_bytes old) oc) (\<lambda>(idx, oc').
           case max_by_count (prefix_counts idx) of
             None \<Rightarrow> Inr (False, ir, s, oc')
           | Some (best, _) \<Rightarrow>
               rbind (write_index_file cx s (filter (\<lambda>e. first_byte_of e = best) idx)) (\<lambda>(dedicated, s1).
               rbind (write_index_file cx s1 (filter (\<lambda>e. first_byte_of e \<noteq> best) idx)) (\<lambda>(shared, s2).
                 let ir1 = widen_slots ir
                 in Inr (True, ir1\<lparr>cold_shards := repoint old best dedicated shared (cold_shards ir1)\<rparr>, s2, oc')))))"

section \<open>The filter\<close>

definition cold_file_step ::
    "'s pack_ctx \<Rightarrow> 's \<Rightarrow> bytes \<Rightarrow> (bytes \<times> index_file) list \<times> objects_backend \<Rightarrow>
       ((bytes \<times> index_file) list \<times> objects_backend) result" where
  "cold_file_step cx s b = (\<lambda>(m, oc).
     if b = ZERO32 \<or> map_of m b \<noteq> None then Inr (m, oc)
     else rbind (load_index cx s (from_bytes b) oc) (\<lambda>(idx, oc'). Inr (AList.update b idx m, oc')))"

definition load_cold_shard_files ::
    "'s pack_ctx \<Rightarrow> 's \<Rightarrow> index_root \<Rightarrow> objects_backend \<Rightarrow> ((bytes \<times> index_file) list \<times> objects_backend) result" where
  "load_cold_shard_files cx s ir oc = rfold (cold_file_step cx s) (cold_shards ir) ([], oc)"

definition regenerate_bloom :: "'s pack_ctx \<Rightarrow> index_entry list \<Rightarrow> (bytes \<times> index_file) list \<Rightarrow> bloom" where
  "regenerate_bloom cx hot shards =
     foldl bloom_insert (sized_for (cx_opt_bits cx) (length hot + sum_list (map (length \<circ> snd) shards)))
       (map ihash (hot @ concat (map snd shards)))"

section \<open>The run\<close>

definition remap_cas_failure :: "error \<Rightarrow> error" where
  "remap_cas_failure e = (case e of CasFailed \<Rightarrow> Other ''remote has been updated since last sync'' | _ \<Rightarrow> e)"

definition map_err :: "(error \<Rightarrow> error) \<Rightarrow> 'a result \<Rightarrow> 'a result" where
  "map_err f r = (case r of Inl e \<Rightarrow> Inl (f e) | Inr x \<Rightarrow> Inr x)"

definition pack_compact ::
    "'s pack_ctx \<Rightarrow> ('s \<Rightarrow> hash \<Rightarrow> nat result) \<Rightarrow> string list \<Rightarrow> index_root \<Rightarrow> 's \<times> objects_backend \<Rightarrow>
       (index_root \<times> 's \<times> objects_backend) result" where
  "pack_compact cx sizef hot_hashes ir = (\<lambda>(s, oc).
     rbind (merge_deltas_into_hot cx s ir oc) (\<lambda>(entries, oc).
       let (hot, cold) = split_hot_cold hot_hashes entries in
     rbind (consolidate_pack_files cx sizef s hot) (\<lambda>(hot, s).
     rbind (write_index_file cx s hot) (\<lambda>(new_hot, s).
     rbind (apply_cold_entries cx cold (ir\<lparr>hot_hash := raw new_hot, delta_hashes := []\<rparr>) (s, oc)) (\<lambda>(ir, s, oc).
     rbind (split_cold_shards cx sizef ir (s, oc)) (\<lambda>(_, ir, s, oc).
     rbind (load_cold_shard_files cx s ir oc) (\<lambda>(shards, oc).
       let bytes = bloom_serialise (regenerate_bloom cx hot shards); h = compute (sha (cx_env cx)) bytes
       in rbind (os_write_from (cx_ops cx) s h (encrypt (cx_env cx) bytes (cx_key cx) (raw h))) (\<lambda>s.
            Inr (ir\<lparr>bloom_hash := raw h\<rparr>, s, oc)))))))))"

text \<open>\<open>pointer\<close> is the content of the root pointer at the start, \<open>now\<close> when the new root
  is written.\<close>

definition pack_run ::
    "'s pack_ctx \<Rightarrow> ('s \<Rightarrow> hash \<Rightarrow> nat result) \<Rightarrow> string list \<Rightarrow> bytes \<Rightarrow> bytes option \<Rightarrow> bytes option \<Rightarrow> 's \<times> objects_backend \<Rightarrow>
       (bytes option \<times> 's \<times> objects_backend) result" where
  "pack_run cx sizef hot_hashes nonce pointer now = (\<lambda>(s, oc).
     case root_read pointer of
       (None, _) \<Rightarrow> Inr (now, s, oc)
     | (Some rawb, token) \<Rightarrow>
         rbind (decode_root cx rawb) (\<lambda>ir.
         rbind (pack_compact cx sizef hot_hashes ir (s, oc)) (\<lambda>(ir, s, oc).
         rbind (encrypt_index_root_bytes (cx_env cx) ir (cx_key cx) nonce) (\<lambda>new.
         rbind (map_err remap_cas_failure (cas_write now token new)) (\<lambda>pointer'. Inr (pointer', s, oc))))))"

section \<open>Tables of entries\<close>

definition entries_ok :: "index_entry list \<Rightarrow> bool" where
  "entries_ok es \<longleftrightarrow> distinct (map ihash es) \<and> (\<forall>e \<in> set es. entry_ok e)"

definition table_ok :: "(string \<times> index_entry) list \<Rightarrow> bool" where
  "table_ok m \<longleftrightarrow> distinct (map fst m) \<and> (\<forall>(k, e) \<in> set m. k = hex (ihash e) \<and> entry_ok e)"

lemma entry_ok_hash: "entry_ok e \<Longrightarrow> hash_ok (ihash e)"
  by (simp add: entry_ok_def)

lemma update_subset: "x \<in> set (AList.update k v m) \<Longrightarrow> x = (k, v) \<or> x \<in> set m"
  by (induction m) (auto split: if_splits)

lemma insert_entry_ok: "table_ok m \<Longrightarrow> entry_ok e \<Longrightarrow> table_ok (insert_entry m e)"
  by (auto simp: table_ok_def insert_entry_def distinct_update dest!: update_subset)

lemma map_of_insert: "map_of (insert_entry m e) k = (if k = hex (ihash e) then Some e else map_of m k)"
  by (simp add: insert_entry_def update_conv')

lemma foldl_insert_ok: "table_ok m \<Longrightarrow> \<forall>e \<in> set es. entry_ok e \<Longrightarrow> table_ok (foldl insert_entry m es)"
  by (induction es arbitrary: m) (auto simp: insert_entry_ok)

lemma map_of_foldl_insert:
  "map_of (foldl insert_entry m es) k = (case find (\<lambda>e. hex (ihash e) = k) (rev es) of Some e \<Rightarrow> Some e | None \<Rightarrow> map_of m k)"
  by (induction es arbitrary: m rule: rev_induct) (auto simp: map_of_insert)

lemma table_entries:
  assumes "table_ok m"
  shows "entries_ok (map snd m)" "hash_ok h \<Longrightarrow> map_of m (hex h) = Some e \<longleftrightarrow> e \<in> set (map snd m) \<and> ihash e = h"
proof -
  have k: "\<And>k e. (k, e) \<in> set m \<Longrightarrow> k = hex (ihash e) \<and> entry_ok e" and d: "distinct (map fst m)"
    using assms by (auto simp: table_ok_def)
  have "map fst m = map (hex \<circ> ihash) (map snd m)" using k by (auto simp: comp_def)
  with d have "distinct (map ihash (map snd m))" by (metis distinct_map map_map)
  then show "entries_ok (map snd m)" using k by (auto simp: entries_ok_def)
  assume h: "hash_ok h"
  show "map_of m (hex h) = Some e \<longleftrightarrow> e \<in> set (map snd m) \<and> ihash e = h"
  proof
    assume "map_of m (hex h) = Some e"
    then have "(hex h, e) \<in> set m" by (rule map_of_SomeD)
    with k [OF this] h entry_ok_hash hex_inject show "e \<in> set (map snd m) \<and> ihash e = h" by (force simp: image_iff)
  next
    assume "e \<in> set (map snd m) \<and> ihash e = h"
    then obtain q where "(q, e) \<in> set m" "ihash e = h" by auto
    with k d show "map_of m (hex h) = Some e" by (metis map_of_eq_Some_iff)
  qed
qed

lemma find_index:
  assumes "index_sorted idx" "hash_ok h"
  shows "find (\<lambda>e. hex (ihash e) = hex h) (rev idx) = index_find idx h"
proof (rule option_eqI)
  fix e
  have inj: "hex (ihash x) = hex h \<longleftrightarrow> ihash x = h" if "x \<in> set idx" for x
    using that assms hex_inject by (auto simp: index_sorted_def)
  have uniq: "x = y" if "x \<in> set idx" "y \<in> set idx" "ihash x = h" "ihash y = h" for x y
    using that index_find_iff [OF assms, of x] index_find_iff [OF assms, of y] by simp
  have "find (\<lambda>e. hex (ihash e) = hex h) (rev idx) = Some e \<longleftrightarrow> e \<in> set idx \<and> ihash e = h"
  proof
    assume "find (\<lambda>e. hex (ihash e) = hex h) (rev idx) = Some e"
    then have "e \<in> set (rev idx)" "hex (ihash e) = hex h" by (auto simp: find_Some_iff simp del: set_rev intro: nth_mem)
    with inj show "e \<in> set idx \<and> ihash e = h" by auto
  next
    assume e: "e \<in> set idx \<and> ihash e = h"
    then have "find (\<lambda>e. hex (ihash e) = hex h) (rev idx) \<noteq> None" by (auto simp: find_None_iff)
    then obtain x where x: "find (\<lambda>e. hex (ihash e) = hex h) (rev idx) = Some x" by blast
    then have "x \<in> set (rev idx)" "hex (ihash x) = hex h" by (auto simp: find_Some_iff simp del: set_rev intro: nth_mem)
    with e inj uniq [of x e] x show "find (\<lambda>e. hex (ihash e) = hex h) (rev idx) = Some e" by auto
  qed
  then show "find (\<lambda>e. hex (ihash e) = hex h) (rev idx) = Some e \<longleftrightarrow> index_find idx h = Some e"
    using index_find_iff [OF assms] by simp
qed

lemma index_at_ok: "index_at cx s n = Inr idx \<Longrightarrow> index_ok idx"
  by (auto simp: index_at_def rbind_Inr_iff dest: index_deserialise_ok)

section \<open>Loading\<close>

definition objcache_ok :: "'s pack_ctx \<Rightarrow> 's \<Rightarrow> objects_backend \<Rightarrow> bool" where
  "objcache_ok cx s oc \<longleftrightarrow> backend_ok oc \<and>
     (\<forall>n x. hash_ok n \<longrightarrow> backend_view oc (hex n) = Some x \<longrightarrow> stored_plain cx s n = Inr x)"

lemma objcache_grows: "objcache_ok cx s oc \<Longrightarrow> grows cx s s' \<Longrightarrow> objcache_ok cx s' oc"
  using stored_plain_grows by (fastforce simp: objcache_ok_def)

context store_laws
begin

lemma load_index_ok:
  assumes "inv s" "cx_ops cx = S" "objcache_ok cx s oc" "hash_ok n" "index_at cx s n = Inr idx"
  shows "\<exists>oc'. load_index cx s n oc = Inr (idx, oc') \<and> objcache_ok cx s oc'"
proof -
  let ?c = "\<lparr>ic_indexes = (\<lambda>_. None), ic_objcache = oc\<rparr>"
  have "cache_ok cx s ?c" using assms(3) by (simp add: cache_ok_def objcache_ok_def)
  from load_resident_ok [OF assms(1,2) this assms(4,5)] show ?thesis
    by (auto simp: load_resident_index_def load_index_def rbind_Inr_iff cache_ok_def objcache_ok_def)
qed

lemma merge_indexes:
  assumes "inv s" "cx_ops cx = S" "loadable cx s ns" "objcache_ok cx s oc" "table_ok m"
  shows "\<exists>m' oc'. rfold (merge_index cx s) ns (m, oc) = Inr (m', oc') \<and> objcache_ok cx s oc' \<and> table_ok m' \<and>
    (\<forall>h. hash_ok h \<longrightarrow> map_of m' (hex h) = (case first_hit cx s h (rev ns) of Some e \<Rightarrow> Some e | None \<Rightarrow> map_of m (hex h)))"
  using assms(3-5)
proof (induction ns arbitrary: m oc)
  case (Cons n ns)
  then obtain idx where n: "hash_ok n" "index_at cx s n = Inr idx" and ld: "loadable cx s ns" by auto
  from load_index_ok [OF assms(1,2) Cons.prems(2) n] obtain oc1 where
    l: "load_index cx s n oc = Inr (idx, oc1)" "objcache_ok cx s oc1" by blast
  have ok: "index_ok idx" by (rule index_at_ok [OF n(2)])
  have "table_ok (foldl insert_entry m idx)" using foldl_insert_ok [OF Cons.prems(3)] ok by (simp add: index_ok_def)
  from Cons.IH [OF ld l(2) this] obtain m' oc' where
    m': "rfold (merge_index cx s) ns (foldl insert_entry m idx, oc1) = Inr (m', oc')" "objcache_ok cx s oc'" "table_ok m'"
    and f: "\<And>h. hash_ok h \<Longrightarrow> map_of m' (hex h) =
      (case first_hit cx s h (rev ns) of Some e \<Rightarrow> Some e | None \<Rightarrow> map_of (foldl insert_entry m idx) (hex h))" by blast
  have ldr: "loadable cx s (rev ns)" using ld by (simp add: loadable_def)
  have "map_of m' (hex h) = (case first_hit cx s h (rev (n # ns)) of Some e \<Rightarrow> Some e | None \<Rightarrow> map_of m (hex h))"
    if h: "hash_ok h" for h
    using f [OF h] first_hit_append [OF ldr, of h "[n]"] n(2) find_index [OF index_ok_sorted [OF ok] h]
    by (simp add: map_of_foldl_insert split: option.splits)
  moreover have "rfold (merge_index cx s) (n # ns) (m, oc) = Inr (m', oc')" using m'(1) l(1) by (simp add: merge_index_def)
  ultimately show ?case using m'(2,3) by blast
qed (auto split: option.splits)

text \<open>The merged entries are what a search of the delta indexes, newest first, and of the hot
  index finds.\<close>

lemma merge_ok:
  assumes "inv s" "cx_ops cx = S" "loadable cx s (recent_indexes ir)" "objcache_ok cx s oc"
  shows "\<exists>es oc'. merge_deltas_into_hot cx s ir oc = Inr (es, oc') \<and> objcache_ok cx s oc' \<and> entries_ok es \<and>
    (\<forall>h e. hash_ok h \<longrightarrow> (e \<in> set es \<and> ihash e = h \<longleftrightarrow> first_hit cx s h (recent_indexes ir) = Some e))"
proof -
  let ?ns = "(case hot_hash_opt ir of None \<Rightarrow> [] | Some n \<Rightarrow> [n]) @ rev (delta_hashes_as_hashes ir)"
  have r: "rev ?ns = recent_indexes ir" by (simp add: recent_indexes_def split: option.splits)
  have "loadable cx s ?ns" using assms(3) r by (metis loadable_def set_rev)
  from merge_indexes [OF assms(1,2) this assms(4), of "[]"] obtain m oc' where
    m: "rfold (merge_index cx s) ?ns ([], oc) = Inr (m, oc')" "objcache_ok cx s oc'" "table_ok m"
    and f: "\<And>h. hash_ok h \<Longrightarrow> map_of m (hex h) = (case first_hit cx s h (rev ?ns) of Some e \<Rightarrow> Some e | None \<Rightarrow> map_of [] (hex h))"
    unfolding table_ok_def by auto
  have "map_of m (hex h) = first_hit cx s h (recent_indexes ir)" if "hash_ok h" for h
    using f [OF that] unfolding r by (cases "first_hit cx s h (recent_indexes ir)") simp_all
  with m table_entries [OF m(3)] show ?thesis by (simp add: merge_deltas_into_hot_def)
qed

end

section \<open>Consolidation\<close>

definition size_law :: "'s pack_ctx \<Rightarrow> ('s \<Rightarrow> hash \<Rightarrow> nat result) \<Rightarrow> bool" where
  "size_law cx sizef \<longleftrightarrow> (\<forall>s n k b. sizef s n = Inr k \<longrightarrow> os_open_read (cx_ops cx) s n = Inr b \<longrightarrow> length b = k)"

lemma entry_yields_functional: "entry_yields cx s e b \<Longrightarrow> entry_yields cx s e c \<Longrightarrow> b = c"
proof (cases e)
  case (Standalone h)
  assume "entry_yields cx s e b" "entry_yields cx s e c"
  with Standalone have "escape_standalone b = escape_standalone c" by simp
  then show ?thesis by (metis unescape_escape)
qed auto

lemma table_hash: "table_ok m \<Longrightarrow> h \<in> ihash ` set (map snd m) \<longleftrightarrow> hash_ok h \<and> map_of m (hex h) \<noteq> None"
proof
  assume t: "table_ok m" and "h \<in> ihash ` set (map snd m)"
  then obtain e where e: "e \<in> set (map snd m)" "ihash e = h" by blast
  with t have "hash_ok h" using table_entries(1) [OF t] entry_ok_hash by (auto simp: entries_ok_def)
  with table_entries(2) [OF t this, of e] e show "hash_ok h \<and> map_of m (hex h) \<noteq> None" by auto
next
  assume t: "table_ok m" and "hash_ok h \<and> map_of m (hex h) \<noteq> None"
  then obtain e where "hash_ok h" "map_of m (hex h) = Some e" by blast
  with table_entries(2) [OF t, of h e] show "h \<in> ihash ` set (map snd m)" by blast
qed

lemma insert_entry_mem: "e \<in> set (map snd (insert_entry m v)) \<Longrightarrow> e = v \<or> e \<in> set (map snd m)"
  by (auto simp: insert_entry_def dest!: update_subset)

lemma insert_entry_hashes:
  assumes "table_ok m" "entry_ok e"
  shows "ihash ` set (map snd (insert_entry m e)) = insert (ihash e) (ihash ` set (map snd m))"
proof (rule set_eqI)
  fix h
  have "hash_ok h \<Longrightarrow> hex h = hex (ihash e) \<longleftrightarrow> h = ihash e" using entry_ok_hash [OF assms(2)] hex_inject by blast
  with table_hash [OF insert_entry_ok [OF assms], of h] table_hash [OF assms(1), of h] entry_ok_hash [OF assms(2)]
  show "h \<in> ihash ` set (map snd (insert_entry m e)) \<longleftrightarrow> h \<in> insert (ihash e) (ihash ` set (map snd m))"
    by (auto simp: map_of_insert simp del: set_map)
qed

lemma foldl_insert_hashes:
  "table_ok m \<Longrightarrow> \<forall>e \<in> set es. entry_ok e \<Longrightarrow>
     ihash ` set (map snd (foldl insert_entry m es)) = ihash ` set es \<union> ihash ` set (map snd m)"
proof (induction es arbitrary: m)
  case (Cons e es)
  then have "table_ok (insert_entry m e)" "entry_ok e" by (auto intro: insert_entry_ok)
  with Cons.IH [OF this(1)] Cons.prems insert_entry_hashes [OF Cons.prems(1)] show ?case by (simp del: set_map)
qed simp

lemma foldl_insert_mem: "e \<in> set (map snd (foldl insert_entry m es)) \<Longrightarrow> e \<in> set es \<or> e \<in> set (map snd m)"
proof (induction es arbitrary: m)
  case (Cons v es)
  from Cons.IH Cons.prems insert_entry_mem [of e m v] show ?case by (auto simp del: set_map)
qed simp

text \<open>Slices of a buffer, each with the bytes that \<open>Y\<close> gives for its hash.\<close>

definition slices :: "(hash \<Rightarrow> bytes \<Rightarrow> bool) \<Rightarrow> bytes \<Rightarrow> (hash \<times> u32 \<times> u32) list \<Rightarrow> bool" where
  "slices Y buf ps \<longleftrightarrow> (\<forall>(h, off, len) \<in> set ps. hash_ok h \<and> unat off + unat len \<le> length buf \<and>
     Y h (subslice (unat off) (unat off + unat len) buf))"

lemma slices_append:
  assumes "slices Y buf ps" "hash_ok h" "Y h d" "length buf + length d < 2 ^ 32"
  shows "slices Y (buf @ d) (ps @ [(h, word_of_nat (length buf), word_of_nat (length d))])"
proof -
  have "unat (word_of_nat (length buf) :: u32) = length buf" "unat (word_of_nat (length d) :: u32) = length d"
    using assms(4) by (simp_all add: unat_of_nat)
  moreover have "unat off + unat len \<le> length (buf @ d) \<and> subslice (unat off) (unat off + unat len) (buf @ d) =
      subslice (unat off) (unat off + unat len) buf" if "unat off + unat len \<le> length buf" for off len :: u32
    using that by (simp add: subslice_def)
  ultimately show ?thesis using assms(1-3) unfolding slices_def by (fastforce simp: subslice_def)
qed

lemma slices_entries:
  assumes "slices Y buf ps" "hash_ok ph" "os_open_read (cx_ops cx) s ph = Inr (pack_file buf)" "e \<in> set (pack_entries ph ps)"
  shows "entry_ok e \<and> (\<exists>b. Y (ihash e) b \<and> entry_yields cx s e b)"
proof -
  from assms(4) obtain h off len where e: "e = PackE h ph off len" "(h, off, len) \<in> set ps" by (auto simp: pack_entries_def)
  with assms(1) have "hash_ok h" "unat off + unat len \<le> length buf" "Y h (subslice (unat off) (unat off + unat len) buf)"
    by (auto simp: slices_def)
  moreover have "subslice (2 + unat off) (2 + unat off + unat len) (pack_file buf) = subslice (unat off) (unat off + unat len) buf"
    "length (pack_file buf) = 2 + length buf" by (simp_all add: pack_file_def PACK_MAGIC_def subslice_def)
  ultimately show ?thesis using assms(2,3) e(1) by (auto simp: entry_ok_def)
qed

text \<open>The loop over the entries. \<open>Y\<close> is what the entries yield.\<close>

definition yields :: "'s pack_ctx \<Rightarrow> 's \<Rightarrow> index_entry list \<Rightarrow> hash \<Rightarrow> bytes \<Rightarrow> bool" where
  "yields cx s es h b \<longleftrightarrow> (\<exists>e \<in> set es. ihash e = h \<and> entry_yields cx s e b)"

definition repack_ok :: "(hash \<Rightarrow> bytes \<Rightarrow> bool) \<Rightarrow> index_entry list \<Rightarrow> repack \<Rightarrow> bool" where
  "repack_ok Y es r \<longleftrightarrow> length (rp_buf r) < PACK_TARGET \<and> slices Y (rp_buf r) (rp_entries r) \<and>
     (\<forall>(buf, ps) \<in> set (rp_completed r). slices Y buf ps) \<and> table_ok (rp_updated r) \<and>
     set (map snd (rp_updated r)) \<subseteq> set es \<and>
     ihash ` set es = ihash ` set (map snd (rp_updated r)) \<union> fst ` set (rp_entries r) \<union>
       (\<Union>(buf, ps) \<in> set (rp_completed r). fst ` set ps)"

lemma repack_append_ok:
  assumes "repack_ok Y es r" "hash_ok (ihash e)" "Y (ihash e) d" "length d < CONSOLIDATION_THRESHOLD"
  shows "repack_ok Y (es @ [e]) (repack_append (ihash e) d r)"
proof -
  let ?buf = "rp_buf r @ d" let ?ps = "rp_entries r @ [(ihash e, word_of_nat (length (rp_buf r)), word_of_nat (length d))]"
  have s: "slices Y ?buf ?ps" using assms by (intro slices_append) (auto simp: repack_ok_def PACK_TARGET_def CONSOLIDATION_THRESHOLD_def)
  have sub: "set (map snd (rp_updated r)) \<subseteq> set (es @ [e])" using assms(1) by (auto simp: repack_ok_def)
  have hs: "ihash ` set (es @ [e]) = ihash ` set (map snd (rp_updated r)) \<union> fst ` set ?ps \<union> (\<Union>(buf, ps) \<in> set (rp_completed r). fst ` set ps)"
    using assms(1) by (auto simp: repack_ok_def)
  have nil: "slices Y [] []" "length ([] :: bytes) < PACK_TARGET" by (simp_all add: slices_def PACK_TARGET_def)
  show ?thesis
  proof (cases "PACK_TARGET \<le> length ?buf \<or> PACK_MAX \<le> length ?buf")
    case True
    then have r: "repack_append (ihash e) d r = r\<lparr>rp_buf := [], rp_entries := [], rp_completed := rp_completed r @ [(?buf, ?ps)]\<rparr>"
      unfolding repack_append_def Let_def by (rule if_P)
    show ?thesis unfolding r repack_ok_def using s sub hs nil assms(1) by (auto simp: repack_ok_def)
  next
    case False
    then have r: "repack_append (ihash e) d r = r\<lparr>rp_buf := ?buf, rp_entries := ?ps\<rparr>" "length ?buf < PACK_TARGET"
      unfolding repack_append_def Let_def by (simp_all only: if_False) simp
    show ?thesis unfolding r(1) repack_ok_def using r(2) s sub hs assms(1) by (auto simp: repack_ok_def)
  qed
qed

lemma repack_step_ok:
  assumes "repack_step candidates bufs e r = Inr r'" "repack_ok Y es r" "entry_ok e"
    and bufs: "\<And>p buf. hex p \<in> set candidates \<Longrightarrow> hash_ok p \<Longrightarrow> map_of bufs (hex p) = Some buf \<Longrightarrow>
      os_open_read (cx_ops cx) s p = Inr buf \<and> length buf < CONSOLIDATION_THRESHOLD"
    and Y: "\<And>b. entry_yields cx s e b \<Longrightarrow> Y (ihash e) b"
  shows "repack_ok Y (es @ [e]) r'"
proof -
  have keep: "repack_ok Y (es @ [e]) (r\<lparr>rp_updated := insert_entry (rp_updated r) e\<rparr>)"
  proof -
    have t: "table_ok (rp_updated r)" using assms(2) by (simp add: repack_ok_def)
    have "set (map snd (insert_entry (rp_updated r) e)) \<subseteq> set (es @ [e])"
      using insert_entry_mem [of _ "rp_updated r" e] assms(2) by (auto simp: repack_ok_def simp del: set_map)
    then show ?thesis using assms(2) insert_entry_ok [OF t assms(3)] insert_entry_hashes [OF t assms(3)]
      by (auto simp: repack_ok_def simp del: set_map)
  qed
  show ?thesis
  proof (cases "\<exists>h p off len. e = PackE h p off len \<and> hex p \<in> set candidates")
    case True
    then obtain h p off len where e: "e = PackE h p off len" "hex p \<in> set candidates" by blast
    let ?i = "PACK_BODY_OFFSET + unat off" let ?j = "?i + unat len"
    from assms(1) e obtain buf where b: "map_of bufs (hex p) = Some buf" "?j \<le> length buf"
      "r' = repack_append h (subslice ?i ?j buf) r"
      by (auto simp: repack_step_def Let_def rbind_Inr_iff ok_or_def split: option.splits if_splits)
    from assms(3) e have p: "hash_ok p" "hash_ok h" by (simp_all add: entry_ok_def)
    from bufs [OF e(2) p(1) b(1)] have o: "os_open_read (cx_ops cx) s p = Inr buf" "length buf < CONSOLIDATION_THRESHOLD" by simp_all
    have "entry_yields cx s e (subslice ?i ?j buf)" using o(1) p(1) b(2) e(1) by (simp add: PACK_BODY_OFFSET_def)
    from Y [OF this] e(1) have "Y (ihash e) (subslice ?i ?j buf)" by simp
    from repack_append_ok [OF assms(2) _ this] p(2) e(1) b o(2) show ?thesis by simp
  next
    case False
    with assms(1) have "r' = r\<lparr>rp_updated := insert_entry (rp_updated r) e\<rparr>"
      by (cases e) (auto simp: repack_step_def Let_def)
    with keep show ?thesis by simp
  qed
qed

lemma repack_all:
  assumes "rfold (repack_step candidates bufs) es r = Inr r'" "repack_ok (yields cx s all) pre r" "\<forall>e \<in> set es. entry_ok e"
    "set es \<subseteq> set all"
    and bufs: "\<And>p buf. hex p \<in> set candidates \<Longrightarrow> hash_ok p \<Longrightarrow> map_of bufs (hex p) = Some buf \<Longrightarrow>
      os_open_read (cx_ops cx) s p = Inr buf \<and> length buf < CONSOLIDATION_THRESHOLD"
  shows "repack_ok (yields cx s all) (pre @ es) r'"
  using assms(1-4)
proof (induction es arbitrary: r pre)
  case (Cons e es)
  from Cons.prems(1) obtain r1 where r1: "repack_step candidates bufs e r = Inr r1" "rfold (repack_step candidates bufs) es r1 = Inr r'"
    by (auto simp: rbind_Inr_iff)
  have "\<And>b. entry_yields cx s e b \<Longrightarrow> yields cx s all (ihash e) b" using Cons.prems(4) by (auto simp: yields_def)
  moreover have "entry_ok e" using Cons.prems(3) by simp
  ultimately have "repack_ok (yields cx s all) (pre @ [e]) r1"
    by (intro repack_step_ok [OF r1(1) Cons.prems(2)]) (use bufs in blast)+
  from Cons.IH [OF r1(2) this] Cons.prems(3,4) show ?case by simp
qed simp

lemma sizes_sound:
  "rfold (size_step sizef s) es sizes = Inr sizes' \<Longrightarrow> \<forall>e \<in> set es. entry_ok e \<Longrightarrow>
     (\<And>k n. (k, n) \<in> set sizes \<Longrightarrow> \<exists>p. hash_ok p \<and> hex p = k \<and> sizef s p = Inr n) \<Longrightarrow>
     (k, n) \<in> set sizes' \<Longrightarrow> \<exists>p. hash_ok p \<and> hex p = k \<and> sizef s p = Inr n"
proof (induction es arbitrary: sizes)
  case (Cons e es)
  from Cons.prems(1) obtain s1 where s1: "size_step sizef s e sizes = Inr s1" "rfold (size_step sizef s) es s1 = Inr sizes'"
    by (auto simp: rbind_Inr_iff)
  have "\<exists>p. hash_ok p \<and> hex p = k \<and> sizef s p = Inr n" if "(k, n) \<in> set s1" for k n
    using s1(1) that Cons.prems(2,3)
    by (cases e) (auto simp: size_step_def rbind_Inr_iff entry_ok_def split: if_splits dest!: update_subset)
  from Cons.IH [OF s1(2) _ this Cons.prems(4)] Cons.prems(2) show ?case by simp
qed simp

lemma reads_sound:
  "rfold (read_step cx s) ks bufs = Inr bufs' \<Longrightarrow>
     (\<And>k b. map_of bufs k = Some b \<Longrightarrow> \<exists>n. from_hex k = Inr n \<and> os_open_read (cx_ops cx) s n = Inr b) \<Longrightarrow>
     map_of bufs' k = Some b \<Longrightarrow> \<exists>n. from_hex k = Inr n \<and> os_open_read (cx_ops cx) s n = Inr b"
proof (induction ks arbitrary: bufs)
  case (Cons x ks)
  from Cons.prems(1) obtain b1 where b1: "read_step cx s x bufs = Inr b1" "rfold (read_step cx s) ks b1 = Inr bufs'"
    by (auto simp: rbind_Inr_iff)
  then obtain n c where n: "from_hex x = Inr n" "os_open_read (cx_ops cx) s n = Inr c" "b1 = AList.update x c bufs"
    by (auto simp: read_step_def rbind_Inr_iff split: sum.splits)
  have "\<exists>n. from_hex k = Inr n \<and> os_open_read (cx_ops cx) s n = Inr b" if "map_of b1 k = Some b" for k b
    using that n Cons.prems(2) [of k b] by (auto simp: update_conv' split: if_splits)
  from Cons.IH [OF b1(2) this Cons.prems(3)] show ?case .
qed simp

text \<open>The names of the new pack files are free.\<close>

fun packs_free ::
    "'s pack_ctx \<Rightarrow> (bytes \<times> (hash \<times> u32 \<times> u32) list) list \<Rightarrow> (string \<times> index_entry) list \<times> 's \<Rightarrow> bool" where
  "packs_free cx [] st \<longleftrightarrow> True"
| "packs_free cx (p # ps) st \<longleftrightarrow>
     free_for cx (snd st) (compute (sha (cx_env cx)) (pack_file (fst p))) (pack_file (fst p)) \<and>
     (case write_pack cx p st of Inl _ \<Rightarrow> True | Inr st' \<Rightarrow> packs_free cx ps st')"

definition consolidate_free :: "'s pack_ctx \<Rightarrow> ('s \<Rightarrow> hash \<Rightarrow> nat result) \<Rightarrow> 's \<Rightarrow> index_entry list \<Rightarrow> bool" where
  "consolidate_free cx sizef s es \<longleftrightarrow>
     (\<forall>sizes bufs r. rfold (size_step sizef s) es [] = Inr sizes \<longrightarrow>
        rfold (read_step cx s) (candidate_packs sizes) [] = Inr bufs \<longrightarrow>
        rfold (repack_step (candidate_packs sizes) bufs) es
          \<lparr>rp_buf = [], rp_entries = [], rp_completed = [], rp_updated = []\<rparr> = Inr r \<longrightarrow>
        packs_free cx (completed_packs r) (rp_updated r, s))"

text \<open>An entry that stands for \<open>Y\<close>: an old one, or one that yields the same bytes.\<close>

definition stands_for :: "'s pack_ctx \<Rightarrow> 's \<Rightarrow> (hash \<Rightarrow> bytes \<Rightarrow> bool) \<Rightarrow> index_entry list \<Rightarrow> index_entry \<Rightarrow> bool" where
  "stands_for cx s Y es e \<longleftrightarrow> e \<in> set es \<or> (\<exists>b. Y (ihash e) b \<and> entry_yields cx s e b)"

lemma stands_for_grows: "stands_for cx s Y es e \<Longrightarrow> grows cx s s' \<Longrightarrow> stands_for cx s' Y es e"
  using entry_yields_grows by (fastforce simp: stands_for_def)

context store_laws
begin

lemma write_packs_ok:
  assumes "inv s" "cx_ops cx = S" "rfold (write_pack cx) packs (m, s) = Inr (m', s')" "packs_free cx packs (m, s)"
    "\<forall>(buf, ps) \<in> set packs. slices Y buf ps" "table_ok m" "\<forall>e \<in> set (map snd m). stands_for cx s Y es e"
  shows "inv s' \<and> grows cx s s' \<and> table_ok m' \<and> (\<forall>e \<in> set (map snd m'). stands_for cx s' Y es e) \<and>
    ihash ` set (map snd m') = ihash ` set (map snd m) \<union> (\<Union>(buf, ps) \<in> set packs. fst ` set ps)"
  using assms(1,3-7)
proof (induction packs arbitrary: m s)
  case (Cons p packs)
  obtain buf ps where p: "p = (buf, ps)" by (cases p)
  let ?ph = "compute (sha (cx_env cx)) (pack_file buf)"
  from Cons.prems(3) p have f: "free_for cx s ?ph (pack_file buf)" by simp
  from write_free [OF Cons.prems(1) assms(2) f] obtain s1 where
    s1: "os_write_from S s ?ph (pack_file buf) = Inr s1" "inv s1" "os_open_read (cx_ops cx) s1 ?ph = Inr (pack_file buf)" "grows cx s s1"
    using assms(2) by auto
  let ?m = "foldl insert_entry m (pack_entries ?ph ps)"
  have w: "write_pack cx p (m, s) = Inr (?m, s1)" using p s1(1) assms(2) by (simp add: write_pack_def Let_def)
  have ph: "hash_ok ?ph" using f by (simp add: free_for_def)
  have sl: "slices Y buf ps" using Cons.prems(4) p by simp
  have eo: "entry_ok e \<and> (\<exists>b. Y (ihash e) b \<and> entry_yields cx s1 e b)" if "e \<in> set (pack_entries ?ph ps)" for e
    using slices_entries [OF sl ph s1(3) that] .
  then have t: "table_ok ?m" using foldl_insert_ok [OF Cons.prems(5)] by blast
  have st: "\<forall>e \<in> set (map snd ?m). stands_for cx s1 Y es e"
  proof
    fix e assume "e \<in> set (map snd ?m)"
    from foldl_insert_mem [OF this] show "stands_for cx s1 Y es e"
    proof
      assume "e \<in> set (pack_entries ?ph ps)"
      from eo [OF this] show ?thesis unfolding stands_for_def by blast
    next
      assume "e \<in> set (map snd m)"
      with Cons.prems(6) have "stands_for cx s Y es e" by blast
      from stands_for_grows [OF this s1(4)] show ?thesis .
    qed
  qed
  from Cons.prems(2,3) w have r: "rfold (write_pack cx) packs (?m, s1) = Inr (m', s')" "packs_free cx packs (?m, s1)" by simp_all
  have "\<forall>(buf, ps) \<in> set packs. slices Y buf ps" using Cons.prems(4) by simp
  from Cons.IH [OF s1(2) r this t st] have
    i: "inv s'" "grows cx s1 s'" "table_ok m'" "\<forall>e \<in> set (map snd m'). stands_for cx s' Y es e"
      "ihash ` set (map snd m') = ihash ` set (map snd ?m) \<union> (\<Union>(buf, ps) \<in> set packs. fst ` set ps)" by blast+
  have "\<forall>e \<in> set (pack_entries ?ph ps). entry_ok e" using eo by blast
  from foldl_insert_hashes [OF Cons.prems(5) this] have "ihash ` set (map snd ?m) = fst ` set ps \<union> ihash ` set (map snd m)"
    unfolding fst_pack_entries .
  with i(5) p have "ihash ` set (map snd m') = ihash ` set (map snd m) \<union> (\<Union>(buf, ps) \<in> set (p # packs). fst ` set ps)" by auto
  with i grows_trans [OF s1(4) i(2)] show ?case by blast
qed auto

lemma consolidate_ok:
  assumes i: "inv s" "cx_ops cx = S" and law: "size_law cx sizef" and es: "entries_ok es"
    and run: "consolidate_pack_files cx sizef s es = Inr (es', s')" and free: "consolidate_free cx sizef s es"
  shows "inv s' \<and> grows cx s s' \<and> entries_ok es' \<and> ihash ` set es' = ihash ` set es \<and>
    (\<forall>e \<in> set es'. stands_for cx s' (yields cx s es) es e)"
proof -
  from run obtain sizes where sz: "rfold (size_step sizef s) es [] = Inr sizes" by (auto simp: consolidate_pack_files_def rbind_Inr_iff)
  let ?c = "candidate_packs sizes" let ?r0 = "\<lparr>rp_buf = [], rp_entries = [], rp_completed = [], rp_updated = []\<rparr>"
  show ?thesis
  proof (cases "?c = []")
    case True
    with run sz i(1) es show ?thesis by (auto simp: consolidate_pack_files_def stands_for_def)
  next
    case False
    with run sz obtain bufs r m where
      b: "rfold (read_step cx s) ?c [] = Inr bufs" and r: "rfold (repack_step ?c bufs) es ?r0 = Inr r" and
      w: "rfold (write_pack cx) (completed_packs r) (rp_updated r, s) = Inr (m, s')" and m: "es' = map snd m"
      by (auto simp: consolidate_pack_files_def Let_def rbind_Inr_iff)
    have eo: "\<forall>e \<in> set es. entry_ok e" using es by (simp add: entries_ok_def)
    have bs: "os_open_read (cx_ops cx) s p = Inr buf \<and> length buf < CONSOLIDATION_THRESHOLD"
      if p: "hex p \<in> set ?c" "hash_ok p" "map_of bufs (hex p) = Some buf" for p buf
    proof -
      from reads_sound [OF b _ p(3)] from_hex_hex [OF p(2)] have o: "os_open_read (cx_ops cx) s p = Inr buf" by auto
      from p(1) obtain n where n: "(hex p, n) \<in> set sizes" "n < CONSOLIDATION_THRESHOLD" by (auto simp: candidate_packs_def)
      from sizes_sound [OF sz eo _ n(1)] obtain q where q: "hash_ok q" "hex q = hex p" "sizef s q = Inr n" by auto
      then have "q = p" using hex_inject p(2) by blast
      with law q(3) o n(2) show ?thesis by (auto simp: size_law_def)
    qed
    have "repack_ok (yields cx s es) [] ?r0" by (simp add: repack_ok_def slices_def table_ok_def PACK_TARGET_def)
    from repack_all [OF r this eo subset_refl bs] have R: "repack_ok (yields cx s es) es r" by (simp only: append_Nil)
    have pf: "packs_free cx (completed_packs r) (rp_updated r, s)" using free sz b r unfolding consolidate_free_def by blast
    have sl: "\<forall>(buf, ps) \<in> set (completed_packs r). slices (yields cx s es) buf ps"
      using R by (auto simp: completed_packs_def repack_ok_def)
    have "\<forall>e \<in> set (map snd (rp_updated r)). stands_for cx s (yields cx s es) es e" "table_ok (rp_updated r)"
      using R by (auto simp: repack_ok_def stands_for_def)
    from write_packs_ok [OF i w pf sl this(2,1)] have
      W: "inv s'" "grows cx s s'" "table_ok m" "\<forall>e \<in> set (map snd m). stands_for cx s' (yields cx s es) es e"
        "ihash ` set (map snd m) = ihash ` set (map snd (rp_updated r)) \<union> (\<Union>(buf, ps) \<in> set (completed_packs r). fst ` set ps)" by blast+
    have "(\<Union>(buf, ps) \<in> set (completed_packs r). fst ` set ps) = fst ` set (rp_entries r) \<union> (\<Union>(buf, ps) \<in> set (rp_completed r). fst ` set ps)"
      by (auto simp: completed_packs_def)
    with W(5) R have "ihash ` set (map snd m) = ihash ` set es" by (auto simp: repack_ok_def)
    with W m table_entries(1) [OF W(3)] show ?thesis by simp
  qed
qed

end

section \<open>Index files that a run writes\<close>

definition write_index_free :: "'s pack_ctx \<Rightarrow> 's \<Rightarrow> index_entry list \<Rightarrow> bool" where
  "write_index_free cx s es \<longleftrightarrow>
     (case index_serialise (foldl index_push [] es) of Inl _ \<Rightarrow> True
      | Inr d \<Rightarrow> stored_free cx s d \<and> raw (compute (sha (cx_env cx)) d) \<noteq> ZERO32)"

lemma pushed_sorted: "\<forall>e \<in> set es. entry_ok e \<Longrightarrow> index_sorted (foldl index_push [] es)"
  using index.inv_foldl [OF index.inv_empty] by (simp add: entry_ok_def)

lemma pushed_mem: "index_sorted c \<Longrightarrow> \<forall>e \<in> set es. entry_ok e \<Longrightarrow> e \<in> set (foldl index_push c es) \<Longrightarrow> e \<in> set es \<or> e \<in> set c"
proof (induction es arbitrary: c)
  case (Cons v es)
  have "hash_ok (ihash v)" using Cons.prems(2) by (simp add: entry_ok_def)
  with Cons index_push_sorted [OF Cons.prems(1)] index_push_set [OF Cons.prems(1)] show ?case by fastforce
qed simp

lemma pushed_find:
  assumes "\<forall>e \<in> set es. entry_ok e" "hash_ok g"
  shows "index_find (foldl index_push [] es) g = find (\<lambda>e. ihash e = g) (rev es)"
  using index.get_foldl [OF index.inv_empty, of es "Standalone g"] assms
  by (simp add: index.get_empty entry_ok_def split: option.splits)

lemma find_append: "find P (xs @ ys) = (case find P xs of Some x \<Rightarrow> Some x | None \<Rightarrow> find P ys)"
  by (induction xs) simp_all

lemma find_filter_eq: "(\<And>e. P e \<Longrightarrow> Q e) \<Longrightarrow> find P (filter Q es) = find P es"
  by (induction es) auto

context store_laws
begin

lemma write_index_ok:
  assumes "inv s" "cx_ops cx = S" "gcm_opens (cx_env cx)" "\<forall>e \<in> set es. entry_ok e"
    and w: "write_index_file cx s es = Inr (h, s')" and free: "write_index_free cx s es"
  shows "hash_ok h \<and> raw h \<noteq> ZERO32 \<and> inv s' \<and> grows cx s s' \<and> index_at cx s' h = Inr (foldl index_push [] es)"
proof -
  let ?idx = "foldl index_push [] es"
  from w obtain d where d: "index_serialise ?idx = Inr d" "h = compute (sha (cx_env cx)) d"
    "os_write_from S s h (encrypt (cx_env cx) d (cx_key cx) (raw h)) = Inr s'"
    by (auto simp: write_index_file_def rbind_Inr_iff Let_def assms(2))
  have f: "stored_free cx s d" "raw h \<noteq> ZERO32" using free d(1,2) by (simp_all add: write_index_free_def)
  have "index_sorted ?idx" by (rule pushed_sorted [OF assms(4)])
  moreover have "\<forall>e \<in> set ?idx. entry_ok e" using pushed_mem [OF index.inv_empty assms(4)] assms(4) by auto
  moreover have "length ?idx < 2 ^ 32" using d(1) by (simp add: index_serialise_def split: if_splits)
  ultimately have "index_ok ?idx" by (simp add: index_ok_def index_sorted_def)
  from index_wire.roundtrip [OF this d(1)] have i: "index_deserialise d = Inr ?idx" .
  from store_plain [OF assms(1-3) f(1)] d(2,3) i f(2) show ?thesis by (auto simp: index_at_def)
qed

end

section \<open>Cold lookups\<close>

definition slot_bytes :: "index_root \<Rightarrow> hash \<Rightarrow> bytes" where
  "slot_bytes ir g = cold_shards ir ! (if cold_prefix_bits ir = 0 then 0 else hash_prefix g (unat (cold_prefix_bits ir)))"

definition shard_find :: "'s pack_ctx \<Rightarrow> 's \<Rightarrow> bytes \<Rightarrow> hash \<Rightarrow> index_entry option" where
  "shard_find cx s b g =
     (if b = ZERO32 then None else case index_at cx s (from_bytes b) of Inl _ \<Rightarrow> None | Inr idx \<Rightarrow> index_find idx g)"

definition shards_ok :: "'s pack_ctx \<Rightarrow> 's \<Rightarrow> index_root \<Rightarrow> bool" where
  "shards_ok cx s ir \<longleftrightarrow> (\<forall>b \<in> set (cold_shards ir). b \<noteq> ZERO32 \<longrightarrow> (\<exists>idx. index_at cx s (from_bytes b) = Inr idx))"

lemma slot_index:
  assumes "root_ok ir" "hash_ok g"
  shows "(if cold_prefix_bits ir = 0 then 0 else hash_prefix g (unat (cold_prefix_bits ir))) < length (cold_shards ir)"
proof -
  have "unat (cold_prefix_bits ir) \<le> 32" using assms(1) by (simp add: root_ok_def MAX_COLD_PREFIX_BITS_def word_le_nat_alt)
  with hash_prefix_bound [of g "unat (cold_prefix_bits ir)"] assms show ?thesis by (auto simp: root_ok_def hash_ok_def)
qed

lemma cold_slot:
  assumes "root_ok ir" "hash_ok g"
  shows "slot_bytes ir g \<in> set (cold_shards ir)" "length (slot_bytes ir g) = 32"
    "cold_shard_hash_for g ir = hash_opt (slot_bytes ir g)"
proof -
  note i = slot_index [OF assms]
  show m: "slot_bytes ir g \<in> set (cold_shards ir)" unfolding slot_bytes_def using i by (rule nth_mem)
  then show "length (slot_bytes ir g) = 32" using assms(1) by (simp add: root_ok_def)
  show "cold_shard_hash_for g ir = hash_opt (slot_bytes ir g)"
    using i by (cases "cold_prefix_bits ir = 0")
      (auto simp: cold_shard_hash_for_def slot_bytes_def cold_shard_hash_def Let_def unat_eq_zero word_less_nat_alt)
qed

definition cold_hit :: "'s pack_ctx \<Rightarrow> 's \<Rightarrow> index_root \<Rightarrow> hash \<Rightarrow> index_entry option" where
  "cold_hit cx s ir g = first_hit cx s g (case cold_shard_hash_for g ir of None \<Rightarrow> [] | Some n \<Rightarrow> [n])"

lemma cold_hit_eq: "root_ok ir \<Longrightarrow> hash_ok g \<Longrightarrow> cold_hit cx s ir g = shard_find cx s (slot_bytes ir g) g"
  by (simp add: cold_hit_def cold_slot shard_find_def hash_opt_def split: sum.splits option.splits)

lemma cold_loadable:
  assumes "root_ok ir" "hash_ok g" "shards_ok cx s ir"
  shows "loadable cx s (case cold_shard_hash_for g ir of None \<Rightarrow> [] | Some n \<Rightarrow> [n])"
  using cold_slot [OF assms(1,2)] assms(3) by (auto simp: hash_opt_def shards_ok_def)

lemma shard_find_grows:
  assumes "grows cx s s'" "length b = 32" "b \<noteq> ZERO32 \<longrightarrow> (\<exists>idx. index_at cx s (from_bytes b) = Inr idx)"
  shows "shard_find cx s' b g = shard_find cx s b g"
  using assms index_at_grows [OF assms(1)] by (auto simp: shard_find_def)

lemma shards_grow: "grows cx s s' \<Longrightarrow> root_ok ir \<Longrightarrow> shards_ok cx s ir \<Longrightarrow> shards_ok cx s' ir"
  using index_at_grows by (fastforce simp: shards_ok_def root_ok_def)

lemma slot_bytes_map:
  "root_ok ir \<Longrightarrow> hash_ok g \<Longrightarrow> slot_bytes (ir\<lparr>cold_shards := map f (cold_shards ir)\<rparr>) g = f (slot_bytes ir g)"
  using slot_index [of ir g] by (simp add: slot_bytes_def split: if_splits)

lemma slot_bytes_upd [simp]:
  "slot_bytes (ir\<lparr>bloom_hash := b\<rparr>) g = slot_bytes ir g" "slot_bytes (ir\<lparr>hot_hash := h, delta_hashes := ds\<rparr>) g = slot_bytes ir g"
  by (simp_all add: slot_bytes_def)

lemma cold_shard_hash_upd [simp]:
  "cold_shard_hash (ir\<lparr>bloom_hash := b\<rparr>) = cold_shard_hash ir"
  "cold_shard_hash (ir\<lparr>hot_hash := h, delta_hashes := ds\<rparr>) = cold_shard_hash ir"
  by (simp_all add: cold_shard_hash_def fun_eq_iff)

lemma cold_hit_upd [simp]:
  "cold_hit cx s (ir\<lparr>bloom_hash := b\<rparr>) g = cold_hit cx s ir g"
  "cold_hit cx s (ir\<lparr>hot_hash := h, delta_hashes := ds\<rparr>) g = cold_hit cx s ir g"
  by (simp_all add: cold_hit_def cold_shard_hash_for_def Let_def)

lemma cold_hit_grows:
  assumes "root_ok ir" "hash_ok g" "shards_ok cx s ir" "grows cx s s'"
  shows "cold_hit cx s' ir g = cold_hit cx s ir g"
  unfolding cold_hit_eq [OF assms(1,2)]
  by (rule shard_find_grows [OF assms(4)]) (use cold_slot [OF assms(1,2)] assms(3) in \<open>auto simp: shards_ok_def\<close>)

section \<open>Appending to the shared shard\<close>

definition apply_free :: "'s pack_ctx \<Rightarrow> index_entry list \<Rightarrow> index_root \<Rightarrow> 's \<times> objects_backend \<Rightarrow> bool" where
  "apply_free cx cold ir st \<longleftrightarrow>
     (\<forall>shard oc. (if cold_shards ir ! 0 = ZERO32 then Inr ([], snd st) else load_index cx (fst st) (from_bytes (cold_shards ir ! 0)) (snd st))
        = Inr (shard, oc) \<longrightarrow> write_index_free cx (fst st) (shard @ cold))"

text \<open>What a root still says after a step: everything but the cold shards.\<close>

definition same_recent :: "index_root \<Rightarrow> index_root \<Rightarrow> bool" where
  "same_recent ir ir' \<longleftrightarrow> remote_root ir' = remote_root ir \<and> hot_hash ir' = hot_hash ir \<and> delta_hashes ir' = delta_hashes ir"

context store_laws
begin

lemma apply_cold_ok:
  assumes i: "inv s" "cx_ops cx = S" "gcm_opens (cx_env cx)" "objcache_ok cx s oc"
    and ir: "root_ok ir" "shards_ok cx s ir" and cold: "entries_ok cold"
    and run: "apply_cold_entries cx cold ir (s, oc) = Inr (ir', s', oc')" and free: "apply_free cx cold ir (s, oc)"
  shows "root_ok ir' \<and> inv s' \<and> grows cx s s' \<and> objcache_ok cx s' oc' \<and> shards_ok cx s' ir' \<and> same_recent ir ir' \<and>
    cold_prefix_bits ir' = cold_prefix_bits ir \<and>
    (\<forall>g. hash_ok g \<longrightarrow> cold_hit cx s' ir' g =
       (if slot_bytes ir g = cold_shards ir ! 0
        then (case find (\<lambda>e. ihash e = g) cold of Some e \<Rightarrow> Some e | None \<Rightarrow> cold_hit cx s ir g) else cold_hit cx s ir g))"
proof (cases "cold = []")
  case True
  have "cold_shards ir \<noteq> []" using ir(1) by (auto simp: root_ok_def)
  with True run i(1,4) ir show ?thesis by (auto simp: apply_cold_entries_def same_recent_def)
next
  case False
  let ?old = "cold_shards ir ! 0"
  have ne: "cold_shards ir \<noteq> []" "length ?old = 32" "?old \<in> set (cold_shards ir)" using ir(1) by (auto simp: root_ok_def)
  from run False ne(1) obtain shard new where
    ld: "(if ?old = ZERO32 then Inr ([], oc) else load_index cx s (from_bytes ?old) oc) = Inr (shard, oc')"
    and w: "write_index_file cx s (shard @ cold) = Inr (new, s')"
    and ir': "ir' = ir\<lparr>cold_shards := map (\<lambda>slot. if slot = ?old then raw new else slot) (cold_shards ir)\<rparr>"
    by (auto simp: apply_cold_entries_def Let_def rbind_Inr_iff)
  have sh: "index_ok shard \<and> objcache_ok cx s oc' \<and> (\<forall>g. hash_ok g \<longrightarrow> shard_find cx s ?old g = index_find shard g)"
  proof (cases "?old = ZERO32")
    case True
    with ld i(4) show ?thesis by (simp add: shard_find_def index.get_empty) (auto simp: index_ok_def)
  next
    case False
    with ir(2) ne(3) obtain idx where idx: "index_at cx s (from_bytes ?old) = Inr idx" by (auto simp: shards_ok_def)
    with load_index_ok [OF i(1,2,4) _ idx] ne(2) ld False have "shard = idx" "objcache_ok cx s oc'" by auto
    with idx index_at_ok [OF idx] False show ?thesis by (simp add: shard_find_def)
  qed
  have eo: "\<forall>e \<in> set (shard @ cold). entry_ok e" using sh cold by (auto simp: index_ok_def entries_ok_def)
  have "write_index_free cx s (shard @ cold)" using free ld unfolding apply_free_def fst_conv snd_conv by blast
  from write_index_ok [OF i(1-3) eo w this] have
    W: "hash_ok new" "raw new \<noteq> ZERO32" "inv s'" "grows cx s s'" "index_at cx s' new = Inr (foldl index_push [] (shard @ cold))" by blast+
  have rok: "root_ok ir'" using ir(1) W(1) by (auto simp: root_ok_def ir')
  have look: "shard_find cx s' (raw new) g = (case find (\<lambda>e. ihash e = g) cold of Some e \<Rightarrow> Some e | None \<Rightarrow> index_find shard g)"
    if g: "hash_ok g" for g
  proof -
    have "find (\<lambda>e. ihash e = g) (rev cold) = find (\<lambda>e. ihash e = g) cold"
      using find_by_key [of ihash cold g] find_by_key [of ihash "rev cold" g] cold
      by (intro option_eqI) (simp add: entries_ok_def rev_map [symmetric])
    moreover have "find (\<lambda>e. ihash e = g) (rev shard) = index_find shard g"
      using find_by_key [of ihash "rev shard" g] index_find_iff [OF index_ok_sorted g, of shard] sh length_ihash_set [of shard]
      by (intro option_eqI) (simp add: rev_map [symmetric] index_ok_sorted card_distinct)
    ultimately show ?thesis using W(1,2,5) pushed_find [OF eo g]
      by (simp add: shard_find_def find_append split: option.splits)
  qed
  have keep: "shard_find cx s' b g = shard_find cx s b g" if "b \<in> set (cold_shards ir)" for b g
    using shard_find_grows [OF W(4)] ir that by (simp add: root_ok_def shards_ok_def)
  have "cold_hit cx s' ir' g = (if slot_bytes ir g = ?old
        then (case find (\<lambda>e. ihash e = g) cold of Some e \<Rightarrow> Some e | None \<Rightarrow> cold_hit cx s ir g) else cold_hit cx s ir g)"
    if g: "hash_ok g" for g
    using cold_hit_eq [OF rok g, of cx s'] cold_hit_eq [OF ir(1) g, of cx s] slot_bytes_map [OF ir(1) g]
      look [OF g] keep [OF cold_slot(1) [OF ir(1) g]] sh g by (simp add: ir' split: option.splits)
  moreover have "shards_ok cx s' ir'" using shards_grow [OF W(4) ir] W(1,5) by (auto simp: shards_ok_def ir')
  ultimately show ?thesis using rok W(3,4) sh objcache_grows [OF _ W(4)] by (simp add: ir' same_recent_def)
qed

end

section \<open>Splitting a shard\<close>

lemma largest_shard_inv:
  assumes "largest_shard sizef i bs checked best = Some (k, m)" "\<And>k m. best = Some (k, m) \<Longrightarrow> k < i + length bs \<and> P k"
    "\<And>j. j < length bs \<Longrightarrow> bs ! j \<noteq> ZERO32 \<Longrightarrow> P (i + j)"
  shows "k < i + length bs \<and> P k"
  using assms
proof (induction sizef i bs checked best rule: largest_shard.induct)
  case (2 sizef i b bs checked best)
  have later: "P (i + 1 + j)" if "j < length bs" "bs ! j \<noteq> ZERO32" for j using "2.prems"(3) [of "Suc j"] that by simp
  show ?case
  proof (cases "b = ZERO32 \<or> b \<in> set checked")
    case True
    with "2.IH"(1) [OF True _ _ later] "2.prems"(1,2) show ?thesis by auto
  next
    case False
    have here: "P i" using "2.prems"(3) [of 0] False by simp
    let ?n = "case sizef (from_bytes b) of Inl _ \<Rightarrow> 0 | Inr n \<Rightarrow> n" and ?l = "case best of None \<Rightarrow> 0 | Some (_, m) \<Rightarrow> m"
    have "k < i + 1 + length bs \<and> P k"
      by (rule "2.IH"(2) [OF False refl refl _ _ later])
        (use "2.prems"(1,2) False here in \<open>auto simp: Let_def split: if_splits\<close>)
    then show ?thesis by simp
  qed
qed auto

lemma largest_shard_slot:
  assumes "largest_shard sizef 0 bs [] None = Some (k, m)"
  shows "k < length bs" "bs ! k \<noteq> ZERO32"
  using largest_shard_inv [OF assms, of "\<lambda>k. bs ! k \<noteq> ZERO32"] by simp_all

lemma hash_prefix_byte: "hash_ok g \<Longrightarrow> hash_prefix g 8 = unat (raw g ! 0)"
proof -
  assume "hash_ok g"
  then obtain b bs where "raw g = b # bs" by (cases "raw g") (auto simp: hash_ok_def)
  then show ?thesis by (simp add: hash_prefix_def Let_def unat_ucast8)
qed

lemma hash_prefix_narrow:
  assumes "hash_ok g" "k \<le> 8"
  shows "hash_prefix g 8 div 2 ^ (8 - k) = hash_prefix g k"
proof -
  have "length (raw g) = 32" using assms(1) by (simp add: hash_ok_def)
  then have "hash_prefix g 8 div 2 ^ (8 - k) = from_be (raw g) div 2 ^ 248 div 2 ^ (8 - k)" by (simp add: hash_prefix_eq)
  also have "\<dots> = from_be (raw g) div 2 ^ (248 + (8 - k))" by (simp only: div_mult2_eq power_add)
  also have "248 + (8 - k) = 256 - k" using assms(2) by simp
  finally show ?thesis using \<open>length (raw g) = 32\<close> assms(2) by (simp add: hash_prefix_eq)
qed

lemma nth_concat_replicate:
  "j < n * length xs \<Longrightarrow> concat (map (replicate n) xs) ! j = xs ! (j div n)"
proof (induction xs arbitrary: j)
  case (Cons x xs)
  show ?case
  proof (cases "j < n")
    case False
    with Cons.prems have "0 < n" "j - n < n * length xs" by (cases n, auto simp: algebra_simps)
    moreover have "j div n = Suc ((j - n) div n)" using False \<open>0 < n\<close> by (simp add: div_if not_less)
    ultimately show ?thesis using Cons.IH [of "j - n"] False by (simp add: nth_append)
  qed (simp add: nth_append)
qed simp

lemma length_concat_replicate: "length (concat (map (replicate n) xs)) = n * length xs"
  by (induction xs) simp_all

lemma widen_ok:
  assumes "root_ok ir" "cold_prefix_bits ir \<le> 8"
  shows "root_ok (widen_slots ir)" "cold_prefix_bits (widen_slots ir) = 8" "set (cold_shards (widen_slots ir)) = set (cold_shards ir)"
    "same_recent ir (widen_slots ir)" "hash_ok g \<Longrightarrow> slot_bytes (widen_slots ir) g = slot_bytes ir g" "length (cold_shards (widen_slots ir)) = 256"
proof -
  let ?k = "unat (cold_prefix_bits ir)"
  have k: "?k \<le> 8" using assms(2) by (simp add: word_le_nat_alt)
  have len: "length (cold_shards ir) = 2 ^ ?k" using assms(1) by (simp add: root_ok_def)
  have "root_ok (widen_slots ir) \<and> cold_prefix_bits (widen_slots ir) = 8 \<and> set (cold_shards (widen_slots ir)) = set (cold_shards ir) \<and>
    same_recent ir (widen_slots ir) \<and> (hash_ok g \<longrightarrow> slot_bytes (widen_slots ir) g = slot_bytes ir g) \<and> length (cold_shards (widen_slots ir)) = 256"
  proof (cases "cold_prefix_bits ir < 8")
    case True
    have p: "(256 :: nat) = 2 ^ (8 - ?k) * 2 ^ ?k" using k by (simp flip: power_add)
    then have q: "256 div 2 ^ ?k = (2 :: nat) ^ (8 - ?k)" by (metis nonzero_mult_div_cancel_right power_not_zero zero_neq_numeral)
    have "cold_shard_count ir = 2 ^ ?k" using k by (simp add: cold_shard_count_def)
    then have sc: "256 div cold_shard_count ir = 2 ^ (8 - ?k)" "2 ^ (8 - ?k) * length (cold_shards ir) = 256"
      by (simp_all only: q len p [symmetric])
    have w: "widen_slots ir = ir\<lparr>cold_shards := concat (map (replicate (2 ^ (8 - ?k))) (cold_shards ir)), cold_prefix_bits := 8\<rparr>"
      using True sc(1) by (simp add: widen_slots_def Let_def)
    have l: "length (concat (map (replicate (2 ^ (8 - ?k))) (cold_shards ir))) = 256"
      by (simp only: length_concat_replicate sc(2))
    have st: "set (concat (map (replicate (2 ^ (8 - ?k))) (cold_shards ir))) = set (cold_shards ir)" by auto
    have "slot_bytes (widen_slots ir) g = slot_bytes ir g" if g: "hash_ok g"
    proof -
      have b: "hash_prefix g 8 < 256" using hash_prefix_byte [OF g] by simp
      have "slot_bytes (widen_slots ir) g = cold_shards ir ! (hash_prefix g 8 div 2 ^ (8 - ?k))"
        using nth_concat_replicate [of "hash_prefix g 8" "2 ^ (8 - ?k)" "cold_shards ir"] b sc(2) by (simp add: slot_bytes_def w)
      also have "\<dots> = cold_shards ir ! hash_prefix g ?k" by (simp only: hash_prefix_narrow [OF g k])
      also have "\<dots> = slot_bytes ir g"
        using hash_prefix_bound [of g ?k] g by (cases "cold_prefix_bits ir = 0") (auto simp: slot_bytes_def hash_ok_def)
      finally show ?thesis .
    qed
    with assms(1) l st show ?thesis by (auto simp: w root_ok_def same_recent_def MAX_COLD_PREFIX_BITS_def simp del: set_concat length_concat)
  next
    case False
    then have "cold_prefix_bits ir = 8" using assms(2) by simp
    with assms(1) len False show ?thesis by (simp add: widen_slots_def same_recent_def)
  qed
  then show "root_ok (widen_slots ir)" "cold_prefix_bits (widen_slots ir) = 8" "set (cold_shards (widen_slots ir)) = set (cold_shards ir)"
    "same_recent ir (widen_slots ir)" "hash_ok g \<Longrightarrow> slot_bytes (widen_slots ir) g = slot_bytes ir g" "length (cold_shards (widen_slots ir)) = 256"
    by blast+
qed

definition split_free ::
    "'s pack_ctx \<Rightarrow> ('s \<Rightarrow> hash \<Rightarrow> nat result) \<Rightarrow> index_root \<Rightarrow> 's \<times> objects_backend \<Rightarrow> bool" where
  "split_free cx sizef ir st \<longleftrightarrow>
     (\<forall>i n idx oc best c. largest_shard (sizef (fst st)) 0 (cold_shards ir) [] None = Some (i, n) \<longrightarrow>
        load_index cx (fst st) (from_bytes (cold_shards ir ! i)) (snd st) = Inr (idx, oc) \<longrightarrow>
        max_by_count (prefix_counts idx) = Some (best, c) \<longrightarrow>
        write_index_free cx (fst st) (filter (\<lambda>e. first_byte_of e = best) idx) \<and>
        (\<forall>d s1. write_index_file cx (fst st) (filter (\<lambda>e. first_byte_of e = best) idx) = Inr (d, s1) \<longrightarrow>
           write_index_free cx s1 (filter (\<lambda>e. first_byte_of e \<noteq> best) idx)))"

lemma repoint_slot:
  assumes "root_ok ir" "cold_prefix_bits ir = 8" "hash_ok g"
  shows "slot_bytes (ir\<lparr>cold_shards := repoint old best d sh (cold_shards ir)\<rparr>) g =
    (if slot_bytes ir g = old then (if raw g ! 0 = best then raw d else raw sh) else slot_bytes ir g)"
proof -
  let ?i = "hash_prefix g 8"
  have i: "?i < length (cold_shards ir)" using slot_index [OF assms(1,3)] assms(2) by simp
  have "?i = unat best \<longleftrightarrow> raw g ! 0 = best" using hash_prefix_byte [OF assms(3)] by (simp add: word_unat_eq_iff)
  with i assms(2) show ?thesis by (simp add: slot_bytes_def repoint_def)
qed

lemma repoint_set: "b \<in> set (repoint old best d sh slots) \<Longrightarrow> b = raw d \<or> b = raw sh \<or> b \<in> set slots"
  by (auto simp: repoint_def split: if_splits dest: set_zip_leftD)

lemma filter_find:
  assumes "index_ok idx" "hash_ok g" "\<And>e. e \<in> set idx \<Longrightarrow> ihash e = g \<Longrightarrow> Q e"
  shows "index_find (foldl index_push [] (filter Q idx)) g = index_find idx g"
proof -
  have eo: "\<forall>e \<in> set (filter Q idx). entry_ok e" using assms(1) by (auto simp: index_ok_def)
  have d: "distinct (map ihash (rev (filter Q idx)))"
    using assms(1) length_ihash_set [of idx] by (simp add: rev_map [symmetric] index_ok_sorted card_distinct distinct_map_filter)
  show ?thesis unfolding pushed_find [OF eo assms(2)]
    using find_by_key [OF d] index_find_iff [OF index_ok_sorted [OF assms(1)] assms(2)] assms(3)
    by (intro option_eqI) auto
qed

context store_laws
begin

lemma split_ok:
  assumes i: "inv s" "cx_ops cx = S" "gcm_opens (cx_env cx)" "objcache_ok cx s oc"
    and ir: "root_ok ir" "shards_ok cx s ir" "cold_prefix_bits ir \<le> 8"
    and run: "split_cold_shards cx sizef ir (s, oc) = Inr (did, ir', s', oc')" and free: "split_free cx sizef ir (s, oc)"
  shows "root_ok ir' \<and> inv s' \<and> grows cx s s' \<and> objcache_ok cx s' oc' \<and> shards_ok cx s' ir' \<and> same_recent ir ir' \<and>
    (\<forall>g. hash_ok g \<longrightarrow> cold_hit cx s' ir' g = cold_hit cx s ir g)"
proof (cases "largest_shard (sizef s) 0 (cold_shards ir) [] None")
  case None
  with run i(1,4) ir show ?thesis by (auto simp: split_cold_shards_def same_recent_def)
next
  case (Some km)
  then obtain k m where km: "largest_shard (sizef s) 0 (cold_shards ir) [] None = Some (k, m)" by (cases km) auto
  let ?old = "cold_shards ir ! k"
  have k: "?old \<in> set (cold_shards ir)" "?old \<noteq> ZERO32" "length ?old = 32"
    using largest_shard_slot [OF km] ir(1) by (auto simp: root_ok_def)
  with ir(2) obtain idx where idx: "index_at cx s (from_bytes ?old) = Inr idx" by (auto simp: shards_ok_def)
  from load_index_ok [OF i(1,2,4) _ idx] k(3) obtain oc1 where
    ld: "load_index cx s (from_bytes ?old) oc = Inr (idx, oc1)" "objcache_ok cx s oc1" by auto
  show ?thesis
  proof (cases "max_by_count (prefix_counts idx)")
    case None
    with run km ld i(1) ir show ?thesis by (auto simp: split_cold_shards_def Let_def same_recent_def)
  next
    case (Some bc)
    then obtain best c where bc: "max_by_count (prefix_counts idx) = Some (best, c)" by (cases bc) auto
    let ?D = "filter (\<lambda>e. first_byte_of e = best) idx" and ?Sh = "filter (\<lambda>e. first_byte_of e \<noteq> best) idx"
    let ?ir1 = "widen_slots ir"
    from run km ld(1) bc obtain d s1 sh where
      w1: "write_index_file cx s ?D = Inr (d, s1)" and w2: "write_index_file cx s1 ?Sh = Inr (sh, s')" and
      ir': "ir' = ?ir1\<lparr>cold_shards := repoint ?old best d sh (cold_shards ?ir1)\<rparr>" and oc': "oc' = oc1"
      by (auto simp: split_cold_shards_def Let_def rbind_Inr_iff)
    have iok: "index_ok idx" by (rule index_at_ok [OF idx])
    then have eo: "\<forall>e \<in> set ?D. entry_ok e" "\<forall>e \<in> set ?Sh. entry_ok e" by (auto simp: index_ok_def)
    from free km ld(1) bc w1 have fr: "write_index_free cx s ?D" "write_index_free cx s1 ?Sh"
      unfolding split_free_def fst_conv snd_conv by blast+
    from write_index_ok [OF i(1-3) eo(1) w1 fr(1)] have
      W1: "hash_ok d" "raw d \<noteq> ZERO32" "inv s1" "grows cx s s1" "index_at cx s1 d = Inr (foldl index_push [] ?D)" by blast+
    from write_index_ok [OF W1(3) i(2,3) eo(2) w2 fr(2)] have
      W2: "hash_ok sh" "raw sh \<noteq> ZERO32" "inv s'" "grows cx s1 s'" "index_at cx s' sh = Inr (foldl index_push [] ?Sh)" by blast+
    have D: "index_at cx s' d = Inr (foldl index_push [] ?D)" using index_at_grows [OF W2(4) W1(1,5)] .
    have gr: "grows cx s s'" by (rule grows_trans [OF W1(4) W2(4)])
    note wd = widen_ok [OF ir(1,3)]
    have st: "set (cold_shards ir') \<subseteq> {raw d, raw sh} \<union> set (cold_shards ir)"
      using repoint_set [of _ ?old best d sh "cold_shards ?ir1"] wd(3) by (auto simp: ir')
    have "length (cold_shards ir') = 256" by (simp add: ir' repoint_def wd(6))
    moreover have "length b = 32" if "b \<in> set (cold_shards ir')" for b
      using st that ir(1) W1(1) W2(1) by (auto simp: root_ok_def)
    ultimately have rok: "root_ok ir'" using wd(1,2) by (simp add: root_ok_def ir')
    have shok: "shards_ok cx s' ir'" unfolding shards_ok_def
    proof (intro ballI impI)
      fix b assume b: "b \<in> set (cold_shards ir')" "b \<noteq> ZERO32"
      then consider "b = raw d" | "b = raw sh" | "b \<in> set (cold_shards ir)" using st by blast
      then show "\<exists>idx. index_at cx s' (from_bytes b) = Inr idx"
      proof cases
        case 3
        with shards_grow [OF gr ir(1,2)] b(2) show ?thesis by (simp add: shards_ok_def)
      qed (use W1(1) W2(1,5) D in simp_all)
    qed
    have "cold_hit cx s' ir' g = cold_hit cx s ir g" if g: "hash_ok g" for g
    proof -
      have slot: "slot_bytes ir' g = (if slot_bytes ir g = ?old then (if raw g ! 0 = best then raw d else raw sh) else slot_bytes ir g)"
        using repoint_slot [OF wd(1,2) g, of ?old best d sh] wd(5) [OF g] by (simp add: ir')
      have keep: "shard_find cx s' (slot_bytes ir g) g = shard_find cx s (slot_bytes ir g) g"
        using cold_slot [OF ir(1) g] ir(2) by (intro shard_find_grows [OF gr]) (auto simp: shards_ok_def)
      have old: "shard_find cx s ?old g = index_find idx g" using idx k(2) by (simp add: shard_find_def)
      have hit: "shard_find cx s' (raw d) g = index_find idx g" if "raw g ! 0 = best"
        using D W1(1,2) filter_find [OF iok g, of "\<lambda>e. first_byte_of e = best"] that by (auto simp: shard_find_def first_byte_of_def)
      have miss: "shard_find cx s' (raw sh) g = index_find idx g" if "raw g ! 0 \<noteq> best"
        using W2(1,2,5) filter_find [OF iok g, of "\<lambda>e. first_byte_of e \<noteq> best"] that by (auto simp: shard_find_def first_byte_of_def)
      show ?thesis unfolding cold_hit_eq [OF rok g] cold_hit_eq [OF ir(1) g] slot using keep old hit miss by auto
    qed
    moreover have "same_recent ir ir'" using wd(4) by (simp add: same_recent_def ir')
    ultimately show ?thesis using rok W2(3) gr shok objcache_grows [OF ld(2) gr] oc' by blast
  qed
qed

end

section \<open>The filter\<close>

lemma regenerate_ok: "bloom_ok (regenerate_bloom cx hot shards)"
  unfolding regenerate_bloom_def by (rule bloom_foldl_ok) simp

lemma regenerate_contains:
  assumes "(b, idx) \<in> set shards" "e \<in> set idx"
  shows "may_contain (regenerate_bloom cx hot shards) (ihash e)"
  unfolding regenerate_bloom_def by (rule may_contain_foldl) (use assms in force)+

context store_laws
begin

lemma load_cold_ok:
  assumes "inv s" "cx_ops cx = S" "objcache_ok cx s oc"
    "\<forall>b \<in> set bs. length b = 32 \<and> (b \<noteq> ZERO32 \<longrightarrow> (\<exists>idx. index_at cx s (from_bytes b) = Inr idx))"
    "\<forall>(b, idx) \<in> set m. index_at cx s (from_bytes b) = Inr idx"
  shows "\<exists>m' oc'. rfold (cold_file_step cx s) bs (m, oc) = Inr (m', oc') \<and> objcache_ok cx s oc' \<and>
    fst ` set m \<union> (set bs - {ZERO32}) \<subseteq> fst ` set m' \<and> (\<forall>(b, idx) \<in> set m'. index_at cx s (from_bytes b) = Inr idx)"
  using assms(3-5)
proof (induction bs arbitrary: m oc)
  case (Cons b bs)
  show ?case
  proof (cases "b = ZERO32 \<or> map_of m b \<noteq> None")
    case True
    then have "cold_file_step cx s b (m, oc) = Inr (m, oc)" by (auto simp: cold_file_step_def)
    moreover from True have "b = ZERO32 \<or> b \<in> fst ` set m" by (auto simp: map_of_eq_None_iff)
    moreover from Cons.IH [OF Cons.prems(1) _ Cons.prems(3)] Cons.prems(2) obtain m' oc' where
      "rfold (cold_file_step cx s) bs (m, oc) = Inr (m', oc')" "objcache_ok cx s oc'"
      "fst ` set m \<union> (set bs - {ZERO32}) \<subseteq> fst ` set m'" "\<forall>(b, idx) \<in> set m'. index_at cx s (from_bytes b) = Inr idx" by auto
    ultimately show ?thesis by (intro exI [of _ m'] exI [of _ oc']) auto
  next
    case False
    with Cons.prems(2) obtain idx where idx: "length b = 32" "index_at cx s (from_bytes b) = Inr idx" by auto
    from load_index_ok [OF assms(1,2) Cons.prems(1) _ idx(2)] idx(1) obtain oc1 where
      l: "load_index cx s (from_bytes b) oc = Inr (idx, oc1)" "objcache_ok cx s oc1" by auto
    have "cold_file_step cx s b (m, oc) = Inr (AList.update b idx m, oc1)" using False l(1) by (simp add: cold_file_step_def)
    moreover have m: "\<forall>(b, idx) \<in> set (AList.update b idx m). index_at cx s (from_bytes b) = Inr idx"
      using Cons.prems(3) idx(2) by (auto dest!: update_subset)
    moreover have "fst ` set (AList.update b idx m) = insert b (fst ` set m)" by (simp add: dom_update [unfolded dom_map_of_conv_image_fst])
    moreover from Cons.IH [OF l(2) _ m] Cons.prems(2) obtain m' oc' where
      "rfold (cold_file_step cx s) bs (AList.update b idx m, oc1) = Inr (m', oc')" "objcache_ok cx s oc'"
      "fst ` set (AList.update b idx m) \<union> (set bs - {ZERO32}) \<subseteq> fst ` set m'"
      "\<forall>(b, idx) \<in> set m'. index_at cx s (from_bytes b) = Inr idx" by auto
    ultimately show ?thesis by (intro exI [of _ m'] exI [of _ oc']) auto
  qed
qed auto

end

section \<open>A whole run\<close>

definition pack_free ::
    "'s pack_ctx \<Rightarrow> ('s \<Rightarrow> hash \<Rightarrow> nat result) \<Rightarrow> string list \<Rightarrow> index_root \<Rightarrow> 's \<times> objects_backend \<Rightarrow> bool" where
  "pack_free cx sizef hh ir st \<longleftrightarrow>
     (\<forall>es oc1. merge_deltas_into_hot cx (fst st) ir (snd st) = Inr (es, oc1) \<longrightarrow>
        (let hot = filter (stays_hot hh) es; cold = filter (\<lambda>e. \<not> stays_hot hh e) es in
         consolidate_free cx sizef (fst st) hot \<and>
         (\<forall>hot' s1. consolidate_pack_files cx sizef (fst st) hot = Inr (hot', s1) \<longrightarrow>
            write_index_free cx s1 hot' \<and>
            (\<forall>n s2. write_index_file cx s1 hot' = Inr (n, s2) \<longrightarrow>
               (let ir2 = ir\<lparr>hot_hash := raw n, delta_hashes := []\<rparr> in
                apply_free cx cold ir2 (s2, oc1) \<and>
                (\<forall>ir3 s3 oc3. apply_cold_entries cx cold ir2 (s2, oc1) = Inr (ir3, s3, oc3) \<longrightarrow>
                   split_free cx sizef ir3 (s3, oc3) \<and>
                   (\<forall>did ir4 s4 oc4 shards oc5. split_cold_shards cx sizef ir3 (s3, oc3) = Inr (did, ir4, s4, oc4) \<longrightarrow>
                      load_cold_shard_files cx s4 ir4 oc4 = Inr (shards, oc5) \<longrightarrow>
                      stored_free cx s4 (bloom_serialise (regenerate_bloom cx hot' shards)))))))))"

lemma split_parts:
  assumes "entries_ok es"
  shows "entries_ok (filter P es)"
  using assms by (auto simp: entries_ok_def distinct_map_filter)

lemma entries_unique: "entries_ok es \<Longrightarrow> e \<in> set es \<Longrightarrow> e' \<in> set es \<Longrightarrow> ihash e = ihash e' \<Longrightarrow> e = e'"
  by (auto simp: entries_ok_def distinct_map inj_on_def)

text \<open>What an entry of the consolidated hot index stands for.\<close>

lemma stands_for_yields:
  assumes "entries_ok es" "e \<in> set es" "stands_for cx s' (yields cx s es) es e'" "ihash e' = ihash e" "grows cx s s'"
    "entry_yields cx s e b"
  shows "entry_yields cx s' e' b"
proof -
  from assms(3) consider "e' \<in> set es" | c where "yields cx s es (ihash e') c" "entry_yields cx s' e' c"
    unfolding stands_for_def by blast
  then show ?thesis
  proof cases
    case 1
    with entries_unique [OF assms(1) 1 assms(2,4)] entry_yields_grows [OF assms(6,5)] show ?thesis by simp
  next
    case 2
    from 2(1) obtain x where x: "x \<in> set es" "ihash x = ihash e'" "entry_yields cx s x c" unfolding yields_def by blast
    with entries_unique [OF assms(1) x(1) assms(2)] assms(4) have "x = e" by simp
    with entry_yields_functional [OF x(3)] assms(6) have "c = b" by simp
    with 2(2) show ?thesis by simp
  qed
qed

text \<open>What a lookup finds after compaction: an entry that stays hot is found with its content;
  an entry that becomes cold is found if the slot of its hash holds the shard of slot 0,
  and otherwise only what the slot held before; everything else is found as before.\<close>

definition compacted_hit ::
    "'s pack_ctx \<Rightarrow> 's \<Rightarrow> string list \<Rightarrow> index_root \<Rightarrow> hash \<Rightarrow> 's \<Rightarrow> index_entry option \<Rightarrow> bool" where
  "compacted_hit cx s hh ir g s' found \<longleftrightarrow>
     (case first_hit cx s g (recent_indexes ir) of
        None \<Rightarrow> found = cold_hit cx s ir g
      | Some e \<Rightarrow>
          if stays_hot hh e
          then \<exists>e'. found = Some e' \<and> ihash e' = g \<and> (\<forall>b. entry_yields cx s e b \<longrightarrow> entry_yields cx s' e' b)
          else found = (if slot_bytes ir g = cold_shards ir ! 0 then Some e else cold_hit cx s ir g))"

lemma compacted_hitI:
  assumes es: "entries_ok es" "hash_ok g"
    and find: "\<And>e. e \<in> set es \<and> ihash e = g \<longleftrightarrow> first_hit cx s g (recent_indexes ir) = Some e"
    and hot: "entries_ok hot" "ihash ` set hot = ihash ` set (filter (stays_hot hh) es)"
      "\<And>e. e \<in> set hot \<Longrightarrow> stands_for cx s1 (yields cx s (filter (stays_hot hh) es)) (filter (stays_hot hh) es) e"
    and gr: "grows cx s s1" "grows cx s1 s'"
    and found: "found = (case index_find (foldl index_push [] hot) g of Some e \<Rightarrow> Some e | None \<Rightarrow>
        if slot_bytes ir g = cold_shards ir ! 0
        then (case List.find (\<lambda>e. ihash e = g) (filter (\<lambda>e. \<not> stays_hot hh e) es) of Some e \<Rightarrow> Some e | None \<Rightarrow> cold_hit cx s ir g)
        else cold_hit cx s ir g)"
  shows "compacted_hit cx s hh ir g s' found"
proof -
  let ?hot = "filter (stays_hot hh) es" and ?cold = "filter (\<lambda>e. \<not> stays_hot hh e) es"
  have eo: "\<forall>e \<in> set hot. entry_ok e" using hot(1) by (simp add: entries_ok_def)
  have hot_find: "index_find (foldl index_push [] hot) g = Some e \<longleftrightarrow> e \<in> set hot \<and> ihash e = g" for e
    using pushed_find [OF eo es(2)] find_by_key [of ihash "rev hot" g e] hot(1) by (simp add: entries_ok_def rev_map [symmetric])
  have hot_none: "index_find (foldl index_push [] hot) g = None" if "g \<notin> ihash ` set ?hot"
    using that hot(2) hot_find by (metis image_eqI not_None_eq)
  have cold_find: "List.find (\<lambda>e. ihash e = g) ?cold = Some e \<longleftrightarrow> e \<in> set ?cold \<and> ihash e = g" for e
    using find_by_key [of ihash ?cold g e] split_parts [OF es(1)] by (simp add: entries_ok_def)
  show ?thesis
  proof (cases "first_hit cx s g (recent_indexes ir)")
    case None
    then have none: "\<And>e. \<not> (e \<in> set es \<and> ihash e = g)" using find by simp
    then have "g \<notin> ihash ` set ?hot" by auto
    moreover have "List.find (\<lambda>e. ihash e = g) ?cold = None" using cold_find none by (metis filter_is_subset in_mono not_None_eq)
    ultimately show ?thesis using None found hot_none by (simp add: compacted_hit_def)
  next
    case (Some e)
    with find have e: "e \<in> set es" "ihash e = g" by blast+
    show ?thesis
    proof (cases "stays_hot hh e")
      case True
      with e have eh: "e \<in> set ?hot" by simp
      then have "g \<in> ihash ` set hot" using hot(2) e(2) by blast
      then obtain e' where e': "e' \<in> set hot" "ihash e' = g" by blast
      have "entry_yields cx s' e' b" if "entry_yields cx s e b" for b
        using stands_for_yields [OF split_parts [OF es(1)] eh hot(3) [OF e'(1)] _ gr(1) that] e(2) e'(2)
          entry_yields_grows [OF _ gr(2)] by simp
      with Some True e' hot_find [of e'] found show ?thesis by (simp add: compacted_hit_def)
    next
      case False
      have "g \<notin> ihash ` set ?hot" using entries_unique [OF es(1) e(1)] e(2) False by auto
      moreover have "List.find (\<lambda>e. ihash e = g) ?cold = Some e" using cold_find e False by simp
      ultimately show ?thesis using Some False found hot_none by (simp add: compacted_hit_def)
    qed
  qed
qed

lemma find_cold_hit:
  assumes "loadable cx s (recent_indexes ir)"
  shows "first_hit cx s g (indexes_for g ir) =
    (case first_hit cx s g (recent_indexes ir) of Some e \<Rightarrow> Some e | None \<Rightarrow> cold_hit cx s ir g)"
  unfolding indexes_for_def first_hit_append [OF assms] cold_hit_def ..

context store_laws
begin

lemma regenerated_covers:
  assumes i: "inv s4" "cx_ops cx = S" "objcache_ok cx s4 oc4" and P: "root_ok ir4" "shards_ok cx s4 ir4" and g: "hash_ok g"
    and lc: "load_cold_shard_files cx s4 ir4 oc4 = Inr (shards, oc')"
    and bf: "bf = regenerate_bloom cx hot shards" "bh = compute (sha (cx_env cx)) (bloom_serialise bf)"
    and B: "hash_ok bh" "grows cx s4 s'" "stored_plain cx s' bh = Inr (bloom_serialise bf)"
  shows "covers cx s' (ir4\<lparr>bloom_hash := raw bh\<rparr>) g"
proof -
  let ?ir = "ir4\<lparr>bloom_hash := raw bh\<rparr>"
  have bat: "bloom_at cx s' bh = Inr bf" using B(3) by (simp add: bloom_at_def bloom_deserialise_serialise regenerate_ok bf(1))
  have L: "fst ` set ([] :: (bytes \<times> index_file) list) \<union> (set (cold_shards ir4) - {ZERO32}) \<subseteq> fst ` set shards"
    "\<forall>(b, idx) \<in> set shards. index_at cx s4 (from_bytes b) = Inr idx"
    using load_cold_ok [OF i, of "cold_shards ir4" "[]"] lc P by (auto simp: load_cold_shard_files_def root_ok_def shards_ok_def)
  have "may_contain bf g" if "cold_hit cx s' ?ir g = Some e" for e
  proof -
    from that have sf: "shard_find cx s' (slot_bytes ir4 g) g = Some e"
      using cold_hit_eq [OF P(1) g, of cx s'] by simp
    then have nz: "slot_bytes ir4 g \<noteq> ZERO32" by (auto simp: shard_find_def split: if_splits)
    with L(1) cold_slot(1) [OF P(1) g] obtain idx where idx: "(slot_bytes ir4 g, idx) \<in> set shards" by fastforce
    with L(2) have "index_at cx s4 (from_bytes (slot_bytes ir4 g)) = Inr idx" by auto
    from index_at_grows [OF B(2) _ this] index_at_ok [OF this] sf nz cold_slot(2) [OF P(1) g] index_find_iff [OF index_ok_sorted g, of idx e]
    have "e \<in> set idx" "ihash e = g" by (simp_all add: shard_find_def)
    with regenerate_contains [OF idx, of e cx hot] show ?thesis by (simp add: bf(1))
  qed
  then have "may_contain bf g \<or> cold_hit cx s' ?ir g = None" by (cases "cold_hit cx s' ?ir g") auto
  moreover have "bloom_hash_opt ?ir = hash_opt (raw bh)" by (simp add: bloom_hash_opt_def)
  moreover have "hash_opt (raw bh) = None \<or> hash_opt (raw bh) = Some bh" unfolding hash_opt_def from_bytes_raw [OF B(1)] by auto
  ultimately show ?thesis unfolding covers_def cold_hit_def using bat B(1) by (auto split: option.split)
qed

lemma pack_compact_ok:
  assumes i: "inv s" "cx_ops cx = S" "gcm_opens (cx_env cx)" "objcache_ok cx s oc" and law: "size_law cx sizef"
    and ir: "root_ok ir" "shards_ok cx s ir" "cold_prefix_bits ir \<le> 8" "loadable cx s (recent_indexes ir)"
    and run: "pack_compact cx sizef hh ir (s, oc) = Inr (ir', s', oc')" and free: "pack_free cx sizef hh ir (s, oc)"
    and g: "hash_ok g"
  shows "root_ok ir' \<and> inv s' \<and> grows cx s s' \<and> remote_root ir' = remote_root ir \<and> loadable cx s' (indexes_for g ir') \<and>
    covers cx s' ir' g \<and> compacted_hit cx s hh ir g s' (first_hit cx s' g (indexes_for g ir'))"
proof -
  from merge_ok [OF i(1,2) ir(4) i(4)] obtain es oc1 where
    mg: "merge_deltas_into_hot cx s ir oc = Inr (es, oc1)" "objcache_ok cx s oc1" "entries_ok es"
    and find: "\<And>e. e \<in> set es \<and> ihash e = g \<longleftrightarrow> first_hit cx s g (recent_indexes ir) = Some e" using g by blast
  let ?hot = "filter (stays_hot hh) es" and ?cold = "filter (\<lambda>e. \<not> stays_hot hh e) es"
  from run mg obtain hot s1 n s2 ir3 s3 oc3 did ir4 s4 oc4 shards where
    c: "consolidate_pack_files cx sizef s ?hot = Inr (hot, s1)" and w: "write_index_file cx s1 hot = Inr (n, s2)" and
    a: "apply_cold_entries cx ?cold (ir\<lparr>hot_hash := raw n, delta_hashes := []\<rparr>) (s2, oc1) = Inr (ir3, s3, oc3)" and
    sp: "split_cold_shards cx sizef ir3 (s3, oc3) = Inr (did, ir4, s4, oc4)" and
    lc: "load_cold_shard_files cx s4 ir4 oc4 = Inr (shards, oc')" and
    wb: "os_write_from S s4 (compute (sha (cx_env cx)) (bloom_serialise (regenerate_bloom cx hot shards)))
      (encrypt (cx_env cx) (bloom_serialise (regenerate_bloom cx hot shards)) (cx_key cx)
        (raw (compute (sha (cx_env cx)) (bloom_serialise (regenerate_bloom cx hot shards))))) = Inr s'" and
    ir': "ir' = ir4\<lparr>bloom_hash := raw (compute (sha (cx_env cx)) (bloom_serialise (regenerate_bloom cx hot shards)))\<rparr>"
    by (auto simp: pack_compact_def split_hot_cold_def rbind_Inr_iff Let_def i(2))
  let ?ir2 = "ir\<lparr>hot_hash := raw n, delta_hashes := []\<rparr>" and ?bf = "regenerate_bloom cx hot shards"
  let ?bh = "compute (sha (cx_env cx)) (bloom_serialise ?bf)"
  from free mg have f1: "consolidate_free cx sizef s ?hot" unfolding pack_free_def fst_conv snd_conv Let_def by blast
  from free mg c have f2: "write_index_free cx s1 hot" unfolding pack_free_def fst_conv snd_conv Let_def by blast
  from free mg c w have f3: "apply_free cx ?cold ?ir2 (s2, oc1)" unfolding pack_free_def fst_conv snd_conv Let_def by blast
  from free mg c w a have f4: "split_free cx sizef ir3 (s3, oc3)" unfolding pack_free_def fst_conv snd_conv Let_def by blast
  from free mg c w a sp lc have f5: "stored_free cx s4 (bloom_serialise ?bf)" unfolding pack_free_def fst_conv snd_conv Let_def by blast
  from consolidate_ok [OF i(1,2) law split_parts [OF mg(3)] c f1] have
    C: "inv s1" "grows cx s s1" "entries_ok hot" "ihash ` set hot = ihash ` set ?hot"
      "\<And>e. e \<in> set hot \<Longrightarrow> stands_for cx s1 (yields cx s ?hot) ?hot e" by blast+
  have eo: "\<forall>e \<in> set hot. entry_ok e" using C(3) by (simp add: entries_ok_def)
  from write_index_ok [OF C(1) i(2,3) eo w f2] have
    W: "hash_ok n" "raw n \<noteq> ZERO32" "inv s2" "grows cx s1 s2" "index_at cx s2 n = Inr (foldl index_push [] hot)" by blast+
  have g2: "grows cx s s2" by (rule grows_trans [OF C(2) W(4)])
  have r2: "root_ok ?ir2" using ir(1) W(1) by (simp add: root_ok_def)
  have sh2: "shards_ok cx s2 ?ir2" using shards_grow [OF g2 ir(1,2)] by (simp add: shards_ok_def)
  from apply_cold_ok [OF W(3) i(2,3) objcache_grows [OF mg(2) g2] r2 sh2 split_parts [OF mg(3)] a f3] have
    A: "root_ok ir3" "inv s3" "grows cx s2 s3" "objcache_ok cx s3 oc3" "shards_ok cx s3 ir3" "same_recent ?ir2 ir3"
      "cold_prefix_bits ir3 = cold_prefix_bits ?ir2"
    and ahit: "cold_hit cx s3 ir3 g = (if slot_bytes ?ir2 g = cold_shards ?ir2 ! 0
        then (case List.find (\<lambda>e. ihash e = g) ?cold of Some e \<Rightarrow> Some e | None \<Rightarrow> cold_hit cx s2 ?ir2 g) else cold_hit cx s2 ?ir2 g)"
    using g by blast+
  have b3: "cold_prefix_bits ir3 \<le> 8" using A(7) ir(3) by simp
  from split_ok [OF A(2) i(2,3) A(4,1,5) b3 sp f4] have
    P: "root_ok ir4" "inv s4" "grows cx s3 s4" "objcache_ok cx s4 oc4" "shards_ok cx s4 ir4" "same_recent ir3 ir4"
    and phit: "cold_hit cx s4 ir4 g = cold_hit cx s3 ir3 g" using g by blast+
  from store_plain [OF P(2) i(2,3) f5] wb have
    B: "hash_ok ?bh" "inv s'" "grows cx s4 s'" "stored_plain cx s' ?bh = Inr (bloom_serialise ?bf)" by auto
  have gs: "grows cx s s'" "grows cx s1 s'" "grows cx s2 s'"
  proof -
    show 2: "grows cx s2 s'" using grows_trans [OF A(3) grows_trans [OF P(3) B(3)]] .
    show "grows cx s s'" by (rule grows_trans [OF g2 2])
    show "grows cx s1 s'" by (rule grows_trans [OF W(4) 2])
  qed
  have "length (raw ?bh) = 32" using B(1) by (rule hash_ok_length)
  with P(1) have rok: "root_ok ir'" unfolding root_ok_def ir' by simp
  have "cold_hit cx s' ir' g = cold_hit cx s4 ir4 g" using cold_hit_grows [OF P(1) g P(5) B(3)] unfolding ir' by simp
  moreover have "cold_hit cx s2 ?ir2 g = cold_hit cx s ir g" using cold_hit_grows [OF ir(1) g ir(2) g2] by simp
  ultimately have chit: "cold_hit cx s' ir' g = (if slot_bytes ir g = cold_shards ir ! 0
      then (case List.find (\<lambda>e. ihash e = g) ?cold of Some e \<Rightarrow> Some e | None \<Rightarrow> cold_hit cx s ir g) else cold_hit cx s ir g)"
    using phit ahit by (simp split: option.split)
  have shok: "shards_ok cx s' ir'" using shards_grow [OF B(3) P(1,5)] by (simp add: shards_ok_def ir')
  have n': "index_at cx s' n = Inr (foldl index_push [] hot)" using index_at_grows [OF gs(3) W(1,5)] .
  have rec: "recent_indexes ir' = [n]"
    using A(6) P(6) W(1,2) by (simp add: recent_indexes_def same_recent_def ir' hot_hash_opt_def hash_opt_def delta_hashes_as_hashes_def)
  have ld: "loadable cx s' (recent_indexes ir')" using W(1) n' by (simp add: rec)
  note cl = cold_loadable [OF rok g shok]
  have new: "first_hit cx s' g (indexes_for g ir') =
      (case index_find (foldl index_push [] hot) g of Some e \<Rightarrow> Some e | None \<Rightarrow> cold_hit cx s' ir' g)"
  proof -
    have "first_hit cx s' g (recent_indexes ir') = index_find (foldl index_push [] hot) g"
      unfolding rec using n' by (simp split: option.split)
    then show ?thesis unfolding find_cold_hit [OF ld] by simp
  qed
  have cov: "covers cx s' ir' g"
    unfolding ir' by (rule regenerated_covers [OF P(2) i(2) P(4,1,5) g lc refl refl B(1,3,4)])
  have "compacted_hit cx s hh ir g s' (first_hit cx s' g (indexes_for g ir'))"
    using compacted_hitI [OF mg(3) g find C(3-5,2) gs(2) new [unfolded chit]] .
  moreover have "loadable cx s' (indexes_for g ir')" using ld cl by (simp add: indexes_for_def)
  moreover have "remote_root ir' = remote_root ir" using A(6) P(6) by (simp add: same_recent_def ir')
  ultimately show ?thesis using rok B(2) cov gs(1) by blast
qed

end

context store_laws
begin

lemma pack_run_ok:
  assumes i: "inv s" "cx_ops cx = S" "gcm_opens (cx_env cx)" "objcache_ok cx s oc" and law: "size_law cx sizef"
    and ir: "decode_snapshot cx pointer = Inr (Some ir)" "shards_ok cx s ir" "cold_prefix_bits ir \<le> 8" "loadable cx s (recent_indexes ir)"
    and run: "pack_run cx sizef hh nonce pointer now (s, oc) = Inr (pointer', s', oc')" and free: "pack_free cx sizef hh ir (s, oc)"
    and n: "length nonce = 12" and g: "hash_ok g"
  shows "\<exists>ir'. decode_snapshot cx pointer' = Inr (Some ir') \<and> inv s' \<and> grows cx s s' \<and> remote_root ir' = remote_root ir \<and>
    loadable cx s' (indexes_for g ir') \<and> covers cx s' ir' g \<and> compacted_hit cx s hh ir g s' (first_hit cx s' g (indexes_for g ir'))"
proof -
  from ir(1) obtain rawb where p: "pointer = Some rawb" "decode_root cx rawb = Inr ir"
    by (auto simp: decode_snapshot_def rbind_Inr_iff split: option.splits)
  with run obtain ir' new where
    c: "pack_compact cx sizef hh ir (s, oc) = Inr (ir', s', oc')" and
    w: "encrypt_index_root_bytes (cx_env cx) ir' (cx_key cx) nonce = Inr new" "pointer' = Some new"
    by (auto simp: pack_run_def root_read_def rbind_Inr_iff map_err_def cas_write_def split: sum.splits if_splits)
  note ok = pack_compact_ok [OF i law decode_root_ok [OF p(2)] ir(2-4) c free g]
  with decrypt_encrypt_root [OF i(3) n, of ir' "cx_key cx"] w have "decode_snapshot cx pointer' = Inr (Some ir')"
    by (auto simp: decode_snapshot_def decode_root_def)
  with ok show ?thesis by blast
qed

lemma open_located:
  assumes "inv s" "cx_ops cx = S" "decode_snapshot cx pointer = Inr (Some ir)" "reader_ok cx s pointer rd"
    and "loadable cx s (indexes_for g ir)" "covers cx s ir g" "first_hit cx s g (indexes_for g ir) = Some e" "ihash e = g"
    and "entry_yields cx s e b" "os_exists cache_store (rd_local_cache rd) g = Inr False"
  shows "\<exists>rd'. reader_open_read cx s pointer g rd = Inr (b, rd')"
proof -
  from locate_ok [OF assms(1,2,4,3,5,6)] assms(7) obtain rd' where
    l: "locate cx s pointer g rd = Inr (Entry e, rd')" "reader_ok cx s pointer rd'" by auto
  from resolve_entry_ok [OF assms(1,2) l(2) assms(9,8)] l(1) assms(10) show ?thesis
    by (auto simp: reader_open_read_def resolve_def)
qed

end

text \<open>The object does not become cold, or the slot of its hash holds the shard of slot 0.\<close>

definition slot_shared :: "'s pack_ctx \<Rightarrow> 's \<Rightarrow> string list \<Rightarrow> index_root \<Rightarrow> hash \<Rightarrow> bool" where
  "slot_shared cx s hh ir g \<longleftrightarrow> slot_bytes ir g = cold_shards ir ! 0 \<or>
     (case first_hit cx s g (recent_indexes ir) of None \<Rightarrow> True | Some e \<Rightarrow> stays_hot hh e)"

lemma compacted_hit_shared:
  assumes "compacted_hit cx s hh ir g s' found" "slot_shared cx s hh ir g" "loadable cx s (recent_indexes ir)" "grows cx s s'"
    "hash_ok g"
  shows "case first_hit cx s g (indexes_for g ir) of None \<Rightarrow> found = None
    | Some e \<Rightarrow> \<exists>e'. found = Some e' \<and> ihash e' = g \<and> (\<forall>b. entry_yields cx s e b \<longrightarrow> entry_yields cx s' e' b)"
proof (cases "first_hit cx s g (recent_indexes ir)")
  case None
  have "ihash e = g" if "cold_hit cx s ir g = Some e" for e using first_hit_hash [OF that [unfolded cold_hit_def] assms(5)] .
  with None assms(1) entry_yields_grows [OF _ assms(4)] find_cold_hit [OF assms(3), of g] show ?thesis
    by (auto simp: compacted_hit_def split: option.split)
next
  case (Some e)
  have "ihash e = g" using first_hit_hash [OF Some assms(5)] .
  with Some assms(1,2) entry_yields_grows [OF _ assms(4)] find_cold_hit [OF assms(3), of g] show ?thesis
    by (auto simp: compacted_hit_def slot_shared_def split: if_splits)
qed

text \<open>C8: a completed compaction keeps every object: the new root names the same snapshot, every
  object whose slot holds the shared cold shard, or that does not become cold, is read back
  by every reader with the bytes it had before (merged, moved to the cold tier, repacked
  into another pack file or moved by the split of a shard), and an object that was not
  listed is still not found.\<close>

theorem pack_keeps_objects:
  assumes "keys_apart hmac key" and "gcm_opens E" and "backend_ok s" and "cx = remote_ctx E hmac key opt"
    and "size_law cx sizef" and "objcache_ok cx s oc" and "decode_snapshot cx pointer = Inr (Some ir)"
    and "shards_ok cx s ir" and "cold_prefix_bits ir \<le> 8" and "loadable cx s (recent_indexes ir)"
    and "pack_run cx sizef hot_hashes nonce pointer now (s, oc) = Inr (pointer', s', oc')"
    and "pack_free cx sizef hot_hashes ir (s, oc)" and "length nonce = 12"
    and "hash_ok g" and "slot_shared cx s hot_hashes ir g"
    and "reader_ok cx s' pointer' rd" and "os_exists cache_store (rd_local_cache rd) g = Inr False"
  shows "(\<exists>rd'. read_root cx pointer' rd = Inr (remote_root_hash ir, rd')) \<and>
    (case first_hit cx s g (indexes_for g ir) of
       None \<Rightarrow> \<exists>rd'. locate cx s' pointer' g rd = Inr (NotFound, rd')
     | Some e \<Rightarrow> \<forall>b. entry_yields cx s e b \<longrightarrow> (\<exists>rd'. reader_open_read cx s' pointer' g rd = Inr (b, rd')))"
proof -
  note L = keys_apart_laws [OF assms(1)]
  have ops: "cx_ops cx = local_store hmac key" and E: "gcm_opens (cx_env cx)" using assms(2,4) by simp_all
  from store_laws.pack_run_ok [OF L assms(3) ops E assms(6,5,7-14)] obtain ir' where
    r: "decode_snapshot cx pointer' = Inr (Some ir')" "backend_ok s'" "grows cx s s'" "remote_root ir' = remote_root ir"
      "loadable cx s' (indexes_for g ir')" "covers cx s' ir' g"
      "compacted_hit cx s hot_hashes ir g s' (first_hit cx s' g (indexes_for g ir'))" by auto
  have "\<exists>rd'. read_root cx pointer' rd = Inr (remote_root_hash ir, rd')"
    using read_index_root_ok [OF assms(16) r(1)] r(4) by (auto simp: read_root_def remote_root_hash_def)
  moreover note compacted_hit_shared [OF r(7) assms(15,10) r(3) assms(14)]
    store_laws.open_located [OF L r(2) ops r(1) assms(16) r(5,6) _ _ _ assms(17)]
    store_laws.locate_ok [OF L r(2) ops assms(16) r(1,5,6)]
  ultimately show ?thesis by (auto split: option.splits)
qed

text \<open>C38: a compaction can lose an object: an object that becomes cold, and whose slot does not
  hold the shard of slot 0 nor a shard that lists it, is appended to the shard of slot 0 only, and
  every reader then reports it as absent.\<close>

theorem pack_loses_dedicated:
  assumes "keys_apart hmac key" and "gcm_opens E" and "backend_ok s" and "cx = remote_ctx E hmac key opt"
    and "size_law cx sizef" and "objcache_ok cx s oc" and "decode_snapshot cx pointer = Inr (Some ir)"
    and "shards_ok cx s ir" and "cold_prefix_bits ir \<le> 8" and "loadable cx s (recent_indexes ir)"
    and "pack_run cx sizef hot_hashes nonce pointer now (s, oc) = Inr (pointer', s', oc')"
    and "pack_free cx sizef hot_hashes ir (s, oc)" and "length nonce = 12"
    and "hash_ok g" and "first_hit cx s g (recent_indexes ir) = Some e" and "\<not> stays_hot hot_hashes e"
    and "slot_bytes ir g \<noteq> cold_shards ir ! 0" and "cold_hit cx s ir g = None"
    and "reader_ok cx s' pointer' rd"
  shows "\<exists>rd'. locate cx s' pointer' g rd = Inr (NotFound, rd')"
proof -
  note L = keys_apart_laws [OF assms(1)]
  have ops: "cx_ops cx = local_store hmac key" and E: "gcm_opens (cx_env cx)" using assms(2,4) by simp_all
  from store_laws.pack_run_ok [OF L assms(3) ops E assms(6,5,7-14)] obtain ir' where
    r: "decode_snapshot cx pointer' = Inr (Some ir')" "backend_ok s'"
      "loadable cx s' (indexes_for g ir')" "covers cx s' ir' g"
      "compacted_hit cx s hot_hashes ir g s' (first_hit cx s' g (indexes_for g ir'))" by auto
  from r(5) assms(15-18) have "first_hit cx s' g (indexes_for g ir') = None" by (simp add: compacted_hit_def)
  with store_laws.locate_ok [OF L r(2) ops assms(19) r(1,3,4)] show ?thesis by auto
qed

section \<open>A compaction of the small remote\<close>

definition store_size :: "'s pack_ctx \<Rightarrow> 's \<Rightarrow> hash \<Rightarrow> nat result" where
  "store_size cx s n = rbind (os_open_read (cx_ops cx) s n) (\<lambda>b. Inr (length b))"

lemma store_size_law: "size_law cx (store_size cx)"
  by (auto simp: size_law_def store_size_def rbind_Inr_iff)

lemma largest_shard_none:
  assumes "\<forall>b \<in> set bs. b = ZERO32 \<or> (\<exists>n. f (from_bytes b) = Inr n \<and> n \<le> COLD_SHARD_SPLIT_THRESHOLD)"
  shows "largest_shard f i bs checked None = None"
  using assms by (induction bs arbitrary: i checked) (auto simp: Let_def)

lemma toy_bloom_length:
  "length (bloom_serialise (foldl bloom_insert (sized_for (\<lambda>_. 8) n) hs)) = 21"
proof -
  have "length (bits (foldl bloom_insert bf hs)) = length (bits bf)" for bf
    by (induction hs arbitrary: bf) (simp_all add: bloom_insert_def)
  then show ?thesis
    by (simp add: bloom_serialise_def BLOOM_MAGIC_def sized_for_def bloom_new_def bytes_for_def Let_def)
qed

text \<open>Roots over the small remote: its one delta index, and slots that are empty or hold the
  same index.\<close>

definition toy_shaped :: "index_root \<Rightarrow> bool" where
  "toy_shaped ir \<longleftrightarrow> root_ok ir \<and> hot_hash_opt ir = None \<and> delta_hashes ir = [raw toy_delta_hash] \<and>
     set (cold_shards ir) \<subseteq> {ZERO32, raw toy_delta_hash} \<and> cold_prefix_bits ir \<le> 8"

lemma toy_hash_nonzero: "raw toy_delta_hash \<noteq> ZERO32"
  using toy_digest_nonzero [of toy_delta] length_toy_delta by (fastforce simp: toy_delta_hash_def compute_def)

lemma toy_load:
  assumes "backend_ok s" "objcache_ok toy_ctx s oc" "grows toy_ctx toy_remote s"
  obtains oc' where "load_index toy_ctx s toy_delta_hash oc = Inr ([Inline toy_hash [7]], oc')" "objcache_ok toy_ctx s oc'"
  using store_laws.load_index_ok [OF keys_apart_laws [OF toy_keys_apart, of None] assms(1) _ assms(2) toy_remote_write(1)
      index_at_grows [OF assms(3) toy_remote_write(1) toy_index_at]] by auto

lemma toy_shards: "grows toy_ctx toy_remote s \<Longrightarrow> set (cold_shards r) \<subseteq> {ZERO32, raw toy_delta_hash} \<Longrightarrow> shards_ok toy_ctx s r"
  using index_at_grows [OF _ toy_remote_write(1) toy_index_at] toy_remote_write(1) by (auto simp: shards_ok_def)

lemma toy_recent: "toy_shaped ir \<Longrightarrow> recent_indexes ir = [toy_delta_hash]"
  using toy_remote_write(1) by (simp add: toy_shaped_def recent_indexes_def delta_hashes_as_hashes_def)

lemma toy_objcache: "objcache_ok toy_ctx s (LocalB empty_dir)"
  using shard_ok_cases [of 64 empty_dir] empty_dir_view by (simp add: objcache_ok_def)

lemma toy_merge:
  assumes "toy_shaped ir"
  obtains oc where "merge_deltas_into_hot toy_ctx toy_remote ir (LocalB empty_dir) = Inr ([Inline toy_hash [7]], oc)"
    "objcache_ok toy_ctx toy_remote oc"
proof -
  have "backend_ok toy_remote" by (simp add: toy_remote_def)
  from toy_load [OF this toy_objcache grows_refl] obtain oc where
    oc: "load_index toy_ctx toy_remote toy_delta_hash (LocalB empty_dir) = Inr ([Inline toy_hash [7]], oc)"
      "objcache_ok toy_ctx toy_remote oc" .
  moreover have "merge_deltas_into_hot toy_ctx toy_remote ir (LocalB empty_dir) = Inr ([Inline toy_hash [7]], oc)"
    using assms oc(1) toy_remote_write(1)
    by (simp add: merge_deltas_into_hot_def toy_shaped_def delta_hashes_as_hashes_def merge_index_def insert_entry_def)
  ultimately show thesis using that by blast
qed

lemma toy_write_index:
  assumes s: "backend_ok s" and d: "index_serialise (foldl index_push [] es) = Inr d" "d \<noteq> []" "length d < 256"
    and f: "free_for toy_ctx s (compute (sha toy_env) d) d"
  obtains s' where "write_index_file toy_ctx s es = Inr (compute (sha toy_env) d, s')" "backend_ok s'" "grows toy_ctx s s'"
    "write_index_free toy_ctx s es"
    "\<And>c x. length c < 256 \<Longrightarrow> length c \<noteq> length d \<Longrightarrow> free_for toy_ctx s (compute (sha toy_env) c) x \<Longrightarrow>
       free_for toy_ctx s' (compute (sha toy_env) c) x"
proof -
  note L = keys_apart_laws [OF toy_keys_apart, of None]
  from store_laws.write_free [OF L s _ f] obtain s' where
    w: "os_write_from (local_store toy_hmac None) s (compute (sha toy_env) d) d = Inr s'" "backend_ok s'" "grows toy_ctx s s'" by auto
  have "free_for toy_ctx s' (compute (sha toy_env) c) x"
    if "length c < 256" "length c \<noteq> length d" "free_for toy_ctx s (compute (sha toy_env) c) x" for c x
    by (rule store_laws.write_other_free [OF L s _ f w(1) toy_compute_neq [OF that(1) d(3) that(2)] that(3)]) simp_all
  moreover have "write_index_free toy_ctx s es"
    using d f toy_digest_nonzero [OF d(2,3)] by (simp add: write_index_free_def stored_free_def encrypt_def Let_def)
  moreover have "write_index_file toy_ctx s es = Inr (compute (sha toy_env) d, s')"
    using d(1) w(1) by (simp add: write_index_file_def encrypt_def Let_def)
  ultimately show thesis using that w(2,3) by blast
qed

lemma toy_delta_read: "grows toy_ctx toy_remote s \<Longrightarrow> os_open_read (local_store toy_hmac None) s toy_delta_hash = Inr toy_delta"
proof -
  have "os_open_read (local_store toy_hmac None) toy_remote toy_delta_hash = Inr toy_delta"
    using toy_remote_write(1)
    by (simp add: toy_remote_def local_store_def store_with_keys_def storage_key_def backend_open_read_def
        remote_find_def expected_path_def hash_ok_def)
  then show "grows toy_ctx toy_remote s \<Longrightarrow> ?thesis" using toy_remote_write(1) by (simp add: grows_def)
qed

lemma toy_push_again: "foldl index_push [] (shard @ [Inline toy_hash [7]]) = [Inline toy_hash [7]]" if "shard \<in> {[], [Inline toy_hash [7]]}"
  using that by (auto simp: index_push_def partition_point_def)

lemma toy_cold:
  assumes s: "backend_ok s" "objcache_ok toy_ctx s oc" "grows toy_ctx toy_remote s"
    and ir: "set (cold_shards ir) \<subseteq> {ZERO32, raw toy_delta_hash}" "cold_shards ir \<noteq> []"
    and f: "\<And>c x. length c = 21 \<Longrightarrow> free_for toy_ctx s (compute (sha toy_env) c) x"
  obtains ir' s' oc' where "apply_cold_entries toy_ctx [Inline toy_hash [7]] ir (s, oc) = Inr (ir', s', oc')"
    "apply_free toy_ctx [Inline toy_hash [7]] ir (s, oc)" "backend_ok s'" "grows toy_ctx s s'" "objcache_ok toy_ctx s' oc'"
    "set (cold_shards ir') \<subseteq> {ZERO32, raw toy_delta_hash}" "\<And>c x. length c = 21 \<Longrightarrow> free_for toy_ctx s' (compute (sha toy_env) c) x"
proof -
  let ?e = "Inline toy_hash [7]" and ?b = "cold_shards ir ! 0"
  have b: "?b \<in> {ZERO32, raw toy_delta_hash}" using ir by (simp add: subset_iff)
  obtain oc1 where oc1: "load_index toy_ctx s toy_delta_hash oc = Inr ([?e], oc1)" "objcache_ok toy_ctx s oc1"
    by (rule toy_load [OF s])
  from b oc1 s(2) toy_remote_write(1) obtain shard oc' where
    l: "(if ?b = ZERO32 then Inr ([], oc) else load_index toy_ctx s (from_bytes ?b) oc) = Inr (shard, oc')"
      "shard \<in> {[], [?e]}" "objcache_ok toy_ctx s oc'"
    by (cases "?b = ZERO32") auto
  have ser: "index_serialise (foldl index_push [] (shard @ [?e])) = Inr toy_delta" "toy_delta \<noteq> []" "length toy_delta < 256"
    using toy_push_again [OF l(2)] toy_delta_ok(1) length_toy_delta by (simp_all, fastforce)
  have fr: "free_for toy_ctx s (compute (sha toy_env) toy_delta) toy_delta"
    using toy_delta_read [OF s(3)] toy_remote_write(1) by (simp add: free_for_def toy_delta_hash_def)
  from toy_write_index [OF s(1) ser fr] obtain s' where
    w: "write_index_file toy_ctx s (shard @ [?e]) = Inr (toy_delta_hash, s')" "backend_ok s'" "grows toy_ctx s s'"
      "write_index_free toy_ctx s (shard @ [?e])"
    and fr': "\<And>c x. length c < 256 \<Longrightarrow> length c \<noteq> 43 \<Longrightarrow> free_for toy_ctx s (compute (sha toy_env) c) x \<Longrightarrow>
       free_for toy_ctx s' (compute (sha toy_env) c) x" by (auto simp: toy_delta_hash_def length_toy_delta)
  let ?ir = "ir\<lparr>cold_shards := map (\<lambda>slot. if slot = ?b then raw toy_delta_hash else slot) (cold_shards ir)\<rparr>"
  have "apply_cold_entries toy_ctx [?e] ir (s, oc) = Inr (?ir, s', oc')"
    using l(1) w(1) ir(2) by (simp add: apply_cold_entries_def)
  moreover have "apply_free toy_ctx [?e] ir (s, oc)" using l(1) w(4) by (auto simp: apply_free_def)
  moreover have "set (cold_shards ?ir) \<subseteq> {ZERO32, raw toy_delta_hash}" using ir(1) by auto
  moreover have "free_for toy_ctx s' (compute (sha toy_env) c) x" if "length c = 21" for c x using fr' [of c x] f [OF that] that by simp
  ultimately show thesis using that [of ?ir s' oc'] w(2,3) objcache_grows [OF l(3) w(3)] by blast
qed

lemma toy_pack:
  assumes ir: "toy_shaped ir" "decode_root toy_ctx d = Inr ir"
  shows "pack_free toy_ctx (store_size toy_ctx) [] ir (toy_remote, LocalB empty_dir)"
    and "\<exists>p s oc. pack_run toy_ctx (store_size toy_ctx) [] (replicate 12 5) (Some d) (Some d) (toy_remote, LocalB empty_dir) = Inr (p, s, oc)"
proof -
  note L = keys_apart_laws [OF toy_keys_apart, of None]
  let ?sz = "store_size toy_ctx" and ?e = "Inline toy_hash [7]"
  have r0: "backend_ok toy_remote" by (simp add: toy_remote_def)
  obtain oc1 where m: "merge_deltas_into_hot toy_ctx toy_remote ir (LocalB empty_dir) = Inr ([?e], oc1)" "objcache_ok toy_ctx toy_remote oc1"
    by (rule toy_merge [OF ir(1)])
  have c: "consolidate_pack_files toy_ctx ?sz toy_remote [] = Inr ([], toy_remote)" "consolidate_free toy_ctx ?sz toy_remote []"
    by (simp_all add: consolidate_pack_files_def candidate_packs_def consolidate_free_def completed_packs_def packs_free.simps)
  obtain e0 where e0: "index_serialise (foldl index_push [] []) = Inr e0" "e0 \<noteq> []" "length e0 < 21"
    by (auto simp: index_serialise_def INDEX_MAGIC_def)
  then have f0: "free_for toy_ctx toy_remote (compute (sha toy_env) e0) e0" "length e0 < 256"
    by (auto intro: toy_remote_free simp: length_toy_delta)
  obtain s2 where w: "write_index_file toy_ctx toy_remote [] = Inr (compute (sha toy_env) e0, s2)" "backend_ok s2"
      "grows toy_ctx toy_remote s2" "write_index_free toy_ctx toy_remote []"
    and fr: "\<And>c x. length c < 256 \<Longrightarrow> length c \<noteq> length e0 \<Longrightarrow> free_for toy_ctx toy_remote (compute (sha toy_env) c) x \<Longrightarrow>
       free_for toy_ctx s2 (compute (sha toy_env) c) x"
    by (rule toy_write_index [OF r0 e0(1,2) f0(2,1)]) (rule that)
  let ?ir2 = "ir\<lparr>hot_hash := raw (compute (sha toy_env) e0), delta_hashes := []\<rparr>"
  have f21: "free_for toy_ctx s2 (compute (sha toy_env) c) x" if "length c = 21" for c x
    using that e0(3) by (intro fr toy_remote_free) (auto simp: length_toy_delta)
  have sh2: "set (cold_shards ?ir2) \<subseteq> {ZERO32, raw toy_delta_hash}" "cold_shards ?ir2 \<noteq> []"
    using ir(1) by (auto simp: toy_shaped_def root_ok_def)
  obtain ir3 s3 oc3 where a: "apply_cold_entries toy_ctx [?e] ?ir2 (s2, oc1) = Inr (ir3, s3, oc3)"
      "apply_free toy_ctx [?e] ?ir2 (s2, oc1)" "backend_ok s3" "grows toy_ctx s2 s3" "objcache_ok toy_ctx s3 oc3"
      "set (cold_shards ir3) \<subseteq> {ZERO32, raw toy_delta_hash}"
    and f3: "\<And>c x. length c = 21 \<Longrightarrow> free_for toy_ctx s3 (compute (sha toy_env) c) x"
    by (rule toy_cold [OF w(2) objcache_grows [OF m(2) w(3)] w(3) sh2 f21]) (assumption | rule that)+
  have g3: "grows toy_ctx toy_remote s3" by (rule grows_trans [OF w(3) a(4)])
  have len: "length (raw toy_delta_hash) = 32" by (rule hash_ok_length [OF toy_remote_write(1)])
  have "store_size toy_ctx s3 toy_delta_hash = Inr 43" using toy_delta_read [OF g3] by (simp add: store_size_def length_toy_delta)
  then have "\<forall>b \<in> set (cold_shards ir3). b = ZERO32 \<or> (\<exists>n. ?sz s3 (from_bytes b) = Inr n \<and> n \<le> COLD_SHARD_SPLIT_THRESHOLD)"
    using a(6) toy_remote_write(1) by (auto simp: COLD_SHARD_SPLIT_THRESHOLD_def)
  from largest_shard_none [OF this] have
    sp: "split_cold_shards toy_ctx ?sz ir3 (s3, oc3) = Inr (False, ir3, s3, oc3)" "split_free toy_ctx ?sz ir3 (s3, oc3)"
    by (simp_all add: split_cold_shards_def split_free_def)
  have "\<forall>b \<in> set (cold_shards ir3). length b = 32 \<and> (b \<noteq> ZERO32 \<longrightarrow> (\<exists>idx. index_at toy_ctx s3 (from_bytes b) = Inr idx))"
    using a(6) len index_at_grows [OF g3 toy_remote_write(1) toy_index_at] toy_remote_write(1) by (auto simp: ZERO32_def)
  from store_laws.load_cold_ok [OF L a(3) _ a(5) this, of "[]"] obtain shards oc5 where
    lc: "load_cold_shard_files toy_ctx s3 ir3 oc3 = Inr (shards, oc5)" by (auto simp: load_cold_shard_files_def)
  let ?bf = "bloom_serialise (regenerate_bloom toy_ctx [] shards)"
  have "length ?bf = 21" using toy_bloom_length by (simp add: regenerate_bloom_def toy_ctx_def)
  then have fb: "free_for toy_ctx s3 (compute (sha toy_env) ?bf) ?bf" by (rule f3)
  show "pack_free toy_ctx ?sz [] ir (toy_remote, LocalB empty_dir)"
    unfolding pack_free_def using m(1) c w(1,4) a(1,2) sp lc fb by (simp add: Let_def stored_free_def encrypt_def)
  from store_laws.write_free [OF L a(3) _ fb] obtain s5 where
    w5: "os_write_from (local_store toy_hmac None) s3 (compute (sha toy_env) ?bf) ?bf = Inr s5" by auto
  let ?ir5 = "ir3\<lparr>bloom_hash := raw (compute (sha toy_env) ?bf)\<rparr>"
  have run: "pack_compact toy_ctx ?sz [] ir (toy_remote, LocalB empty_dir) = Inr (?ir5, s5, oc5)"
    using m(1) c(1) w(1) a(1) sp(1) lc w5 by (simp add: pack_compact_def split_hot_cold_def Let_def encrypt_def)
  have "root_ok ?ir2" using ir(1) hash_ok_length [of "compute (sha toy_env) e0"] by (simp add: toy_shaped_def root_ok_def)
  moreover have "shards_ok toy_ctx s2 ?ir2" by (rule toy_shards [OF w(3) sh2(1)])
  moreover have "entries_ok [?e]" by (simp add: entries_ok_def entry_ok_def)
  ultimately have "root_ok ir3"
    using store_laws.apply_cold_ok [OF L w(2) _ _ objcache_grows [OF m(2) w(3)] _ _ _ a(1,2)] toy_env_ok(2) by simp
  moreover have "length (raw (compute (sha toy_env) ?bf)) = 32" by (rule hash_ok_length) (rule toy_compute)
  ultimately have "root_ok ?ir5" unfolding root_ok_def by simp
  from decrypt_encrypt_root [OF toy_env_ok(2) _ this, of "replicate 12 5" None] obtain new where
    "encrypt_index_root_bytes toy_env ?ir5 None (replicate 12 5) = Inr new" by auto
  with run ir(2) show "\<exists>p s oc. pack_run toy_ctx ?sz [] (replicate 12 5) (Some d) (Some d) (toy_remote, LocalB empty_dir) = Inr (p, s, oc)"
    by (simp add: pack_run_def root_read_def cas_write_def map_err_def)
qed

lemma toy_snapshot_of:
  assumes "root_ok ir"
  obtains d where "decode_snapshot toy_ctx (Some d) = Inr (Some ir)" "decode_root toy_ctx d = Inr ir"
proof -
  from root_deserialise_serialise [OF assms] obtain d where "root_deserialise d = Inr ir" by blast
  then show thesis
    by (intro that [of d]) (simp_all add: decode_snapshot_def decode_root_def decrypt_index_root_bytes_def)
qed

lemma toy_reader: "reader_ok toy_ctx s p (pack_reader_new (LocalB empty_dir) (LocalB empty_dir) (LocalB empty_dir))"
proof -
  have ok: "backend_ok (LocalB empty_dir)" using shard_ok_cases [of 64 empty_dir] by simp
  show ?thesis by (rule reader_new_ok [OF ok ok ok empty_dir_view empty_dir_view])
qed

lemma toy_first_hit: "first_hit toy_ctx toy_remote toy_hash [toy_delta_hash] = Some (Inline toy_hash [7])"
  by (simp add: toy_index_at index_find_def partition_point_def)

theorem pack_keeps_objects_witness:
  "\<exists>d p s oc rd. decode_root toy_ctx d = Inr toy_root \<and>
     pack_run toy_ctx (store_size toy_ctx) [] (replicate 12 5) (Some d) (Some d) (toy_remote, LocalB empty_dir) = Inr (p, s, oc) \<and>
     reader_open_read toy_ctx s p toy_hash (pack_reader_new (LocalB empty_dir) (LocalB empty_dir) (LocalB empty_dir)) = Inr ([7], rd)"
proof -
  obtain d where d: "decode_snapshot toy_ctx (Some d) = Inr (Some toy_root)" "decode_root toy_ctx d = Inr toy_root"
    by (rule toy_snapshot)
  have sh: "toy_shaped toy_root"
    using toy_root_facts(1) by (simp add: toy_shaped_def toy_root_def new_empty_def hot_hash_opt_def hash_opt_def)
  from toy_pack(2) [OF sh d(2)] obtain p s oc where
    run: "pack_run toy_ctx (store_size toy_ctx) [] (replicate 12 5) (Some d) (Some d) (toy_remote, LocalB empty_dir) = Inr (p, s, oc)" by blast
  let ?rd = "pack_reader_new (LocalB empty_dir) (LocalB empty_dir) (LocalB empty_dir)"
  have 1: "backend_ok toy_remote" "shards_ok toy_ctx toy_remote toy_root" "cold_prefix_bits toy_root \<le> 8"
    "loadable toy_ctx toy_remote (recent_indexes toy_root)" "length (replicate 12 (5 :: u8)) = 12"
    using toy_shards [OF grows_refl] sh toy_recent [OF sh] toy_remote_write(1) toy_index_at by (auto simp: toy_shaped_def toy_remote_def)
  have 2: "slot_shared toy_ctx toy_remote [] toy_root toy_hash"
    by (simp add: slot_shared_def slot_bytes_def toy_root_def new_empty_def)
  have 3: "os_exists cache_store (rd_local_cache ?rd) toy_hash = Inr False" using toy_hash_absent by (simp add: pack_reader_new_def)
  have "entry_yields toy_ctx toy_remote (Inline toy_hash [7]) [7]" by simp
  with pack_keeps_objects [OF toy_keys_apart toy_env_ok(2) 1(1) toy_ctx_def store_size_law toy_objcache d(1) 1(2-4) run
      toy_pack(1) [OF sh d(2)] 1(5) toy_hash_ok 2 toy_reader 3] toy_first_hit toy_root_facts(2)
  obtain rd where "reader_open_read toy_ctx s p toy_hash ?rd = Inr ([7], rd)" by auto
  with d(2) run show ?thesis by blast
qed

definition toy_wide_root :: index_root where
  "toy_wide_root = toy_root\<lparr>cold_prefix_bits := 8, cold_shards := raw toy_delta_hash # replicate 255 ZERO32\<rparr>"

lemma toy_wide_facts: "toy_shaped toy_wide_root" "slot_bytes toy_wide_root toy_hash = ZERO32"
proof -
  have "length (raw toy_delta_hash) = 32" by (rule hash_ok_length [OF toy_remote_write(1)])
  then show "toy_shaped toy_wide_root"
    using toy_root_facts(1) by (auto simp: toy_shaped_def toy_wide_root_def toy_root_def root_ok_def new_empty_def hot_hash_opt_def
        hash_opt_def MAX_COLD_PREFIX_BITS_def ZERO32_def)
  have "hash_prefix toy_hash 8 = 7" using hash_prefix_byte [OF toy_hash_ok] by (simp add: toy_hash_def)
  then show "slot_bytes toy_wide_root toy_hash = ZERO32" by (simp add: slot_bytes_def toy_wide_root_def)
qed

theorem pack_loses_dedicated_witness:
  "\<exists>d p s oc rd. decode_root toy_ctx d = Inr toy_wide_root \<and>
     pack_run toy_ctx (store_size toy_ctx) [] (replicate 12 5) (Some d) (Some d) (toy_remote, LocalB empty_dir) = Inr (p, s, oc) \<and>
     locate toy_ctx s p toy_hash (pack_reader_new (LocalB empty_dir) (LocalB empty_dir) (LocalB empty_dir)) = Inr (NotFound, rd)"
proof -
  note sh = toy_wide_facts(1)
  then have ok: "root_ok toy_wide_root" by (simp add: toy_shaped_def)
  obtain d where d: "decode_snapshot toy_ctx (Some d) = Inr (Some toy_wide_root)" "decode_root toy_ctx d = Inr toy_wide_root"
    by (rule toy_snapshot_of [OF ok])
  from toy_pack(2) [OF sh d(2)] obtain p s oc where
    run: "pack_run toy_ctx (store_size toy_ctx) [] (replicate 12 5) (Some d) (Some d) (toy_remote, LocalB empty_dir) = Inr (p, s, oc)" by blast
  have 1: "backend_ok toy_remote" "shards_ok toy_ctx toy_remote toy_wide_root" "cold_prefix_bits toy_wide_root \<le> 8"
    "loadable toy_ctx toy_remote (recent_indexes toy_wide_root)" "length (replicate 12 (5 :: u8)) = 12"
    using toy_shards [OF grows_refl] sh toy_recent [OF sh] toy_remote_write(1) toy_index_at by (auto simp: toy_shaped_def toy_remote_def)
  have 2: "first_hit toy_ctx toy_remote toy_hash (recent_indexes toy_wide_root) = Some (Inline toy_hash [7])"
    "\<not> stays_hot [] (Inline toy_hash [7])" "slot_bytes toy_wide_root toy_hash \<noteq> cold_shards toy_wide_root ! 0"
    using toy_first_hit toy_recent [OF sh] toy_wide_facts(2) toy_hash_nonzero by (simp_all add: toy_wide_root_def)
  have 3: "cold_hit toy_ctx toy_remote toy_wide_root toy_hash = None"
    unfolding cold_hit_eq [OF ok toy_hash_ok] by (simp add: toy_wide_facts(2) shard_find_def)
  from pack_loses_dedicated [OF toy_keys_apart toy_env_ok(2) 1(1) toy_ctx_def store_size_law toy_objcache d(1) 1(2-4) run
      toy_pack(1) [OF sh d(2)] 1(5) toy_hash_ok 2 3 toy_reader] d(2) run
  show ?thesis by blast
qed

end
