(* ===== verification/TreeOps.thy ===== *)
theory TreeOps
  imports LocalStore
begin

text \<open>
  Tree navigation and splicing (\<open>src/src/tree_ops.rs\<close>): the in-process tree cache, the
  verified reading of a tree object, navigation by path, the replacement and removal of an
  entry with the rebuilding of every intermediate tree, the flattening of a tree into a map
  from paths to entries.

  A tree object names its children by hash, so the recursion of the flattening functions
  follows hashes; it is bounded by a nesting depth \<open>fuel\<close>, which a theorem shows to be
  enough whenever it is at least the nesting depth of the stored tree. The map that a
  flattening fills is a list of insertions, the last one for a path winning.
\<close>

section \<open>State and cache\<close>

record 's tree_ctx =
  tc_env :: env
  tc_ops :: "'s object_store"
  tc_to_json :: "tree \<Rightarrow> bytes"
  tc_from_json :: "bytes \<Rightarrow> tree option"

text \<open>\<open>ts_cache\<close> is \<open>None\<close> while the cache is disabled.\<close>

record 's tree_state =
  ts_store :: 's
  ts_cache :: "(hash \<Rightarrow> tree_entry list option) option"

definition tree_cache_get :: "'s tree_state \<Rightarrow> hash \<Rightarrow> tree_entry list option" where
  "tree_cache_get st h = (case ts_cache st of None \<Rightarrow> None | Some m \<Rightarrow> m h)"

definition tree_cache_put :: "'s tree_state \<Rightarrow> hash \<Rightarrow> tree_entry list \<Rightarrow> 's tree_state" where
  "tree_cache_put st h es =
     (case ts_cache st of None \<Rightarrow> st
      | Some m \<Rightarrow> st\<lparr>ts_cache := Some (if m h = None then m(h \<mapsto> es) else m)\<rparr>)"

section \<open>Reading and building tree objects\<close>

definition read_tree :: "'s tree_ctx \<Rightarrow> 's \<Rightarrow> hash \<Rightarrow> tree result" where
  "read_tree cx s h =
     rbind (store_read (tc_env cx) (tc_ops cx) s h None) (\<lambda>data.
       if compute (sha (tc_env cx)) data \<noteq> h then Inl (InvalidObject ''tree object hash mismatch'')
       else tree_deserialise (tc_from_json cx) data)"

definition find_entry_in_tree :: "'s tree_ctx \<Rightarrow> 's \<Rightarrow> hash \<Rightarrow> string \<Rightarrow> tree_entry option result" where
  "find_entry_in_tree cx s h name =
     rbind (read_tree cx s h) (\<lambda>t. Inr (find (\<lambda>e. ename e = name) (entries t)))"

definition load_all_entries ::
    "'s tree_ctx \<Rightarrow> 's tree_state \<Rightarrow> hash \<Rightarrow> (tree_entry list \<times> 's tree_state) result" where
  "load_all_entries cx st h =
     (case tree_cache_get st h of
        Some es \<Rightarrow> Inr (es, st)
      | None \<Rightarrow> rbind (read_tree cx (ts_store st) h) (\<lambda>t.
                  Inr (entries t, tree_cache_put st h (entries t))))"

definition build_and_store ::
    "'s tree_ctx \<Rightarrow> 's tree_state \<Rightarrow> tree_entry list \<Rightarrow> (hash \<times> 's tree_state) result" where
  "build_and_store cx st es =
     (let es = sorted_entries es;
          bytes = tree_serialise (tc_to_json cx) (Normal es);
          h = compute (sha (tc_env cx)) bytes
      in rbind (os_exists (tc_ops cx) (ts_store st) h) (\<lambda>ex.
         rbind (if ex then Inr (ts_store st)
                else store_write (tc_env cx) (tc_ops cx) (ts_store st) h bytes None) (\<lambda>s'.
           Inr (h, tree_cache_put (st\<lparr>ts_store := s'\<rparr>) h es))))"

definition tree_meta ::
    "'s tree_ctx \<Rightarrow> 's tree_state \<Rightarrow> hash \<Rightarrow> ((datetime option \<times> u64 \<times> u64) \<times> 's tree_state) result" where
  "tree_meta cx st h =
     rbind (load_all_entries cx st h) (\<lambda>(es, st').
       Inr ((aggregate_mtime es, aggregate_size es, aggregate_blob_count es), st'))"

section \<open>Navigation\<close>

fun navigate :: "'s tree_ctx \<Rightarrow> 's \<Rightarrow> hash \<Rightarrow> string list \<Rightarrow> hash option result" where
  "navigate cx s root [] = Inr (Some root)"
| "navigate cx s root (name # path) =
     rbind (find_entry_in_tree cx s root name) (\<lambda>r.
       case r of None \<Rightarrow> Inr None
       | Some e \<Rightarrow>
           (case entry_hash e of None \<Rightarrow> Inr None
            | Some child \<Rightarrow> if path = [] then Inr (Some child) else navigate cx s child path))"

fun navigate_entry :: "'s tree_ctx \<Rightarrow> 's \<Rightarrow> hash \<Rightarrow> string list \<Rightarrow> tree_entry option result" where
  "navigate_entry cx s root [] = Inr None"
| "navigate_entry cx s root (name # path) =
     rbind (find_entry_in_tree cx s root name) (\<lambda>r.
       case r of None \<Rightarrow> Inr None
       | Some e \<Rightarrow>
           if path = [] then Inr (Some e)
           else (case entry_hash e of None \<Rightarrow> Inr None
                 | Some child \<Rightarrow> navigate_entry cx s child path))"

section \<open>Splicing and removal\<close>

text \<open>\<open>entries[pos] = new\<close> at the first entry of that name, or a push at the end.\<close>

definition replace_entry :: "tree_entry list \<Rightarrow> string \<Rightarrow> tree_entry \<Rightarrow> tree_entry list" where
  "replace_entry es name new =
     (case position (\<lambda>e. ename e = name) es of Some pos \<Rightarrow> es[pos := new] | None \<Rightarrow> es @ [new])"

definition child_hash_of :: "tree_entry list \<Rightarrow> string \<Rightarrow> hash option" where
  "child_hash_of es name = Option.bind (find (\<lambda>e. ename e = name) es) entry_hash"

definition rebuilt_entry :: "string \<Rightarrow> hash \<Rightarrow> datetime option \<times> u64 \<times> u64 \<Rightarrow> tree_entry" where
  "rebuilt_entry name h m = (case m of (mtime, sz, blob_count) \<Rightarrow> TreeE name h mtime sz blob_count)"

text \<open>The code asserts that the path is not empty; an empty path is the error branch.\<close>

fun splice_entry ::
    "'s tree_ctx \<Rightarrow> 's tree_state \<Rightarrow> hash option \<Rightarrow> string list \<Rightarrow> tree_entry \<Rightarrow> (hash \<times> 's tree_state) result" where
  "splice_entry cx st base [] new = Inl (Other ''path_components must be non-empty'')"
| "splice_entry cx st base (name # path) new =
     rbind (case base of Some h \<Rightarrow> load_all_entries cx st h | None \<Rightarrow> Inr ([], st)) (\<lambda>(es, st).
       if path = [] then build_and_store cx st (replace_entry es name new)
       else rbind (splice_entry cx st (child_hash_of es name) path new) (\<lambda>(h', st).
            rbind (tree_meta cx st h') (\<lambda>(m, st).
              build_and_store cx st (replace_entry es name (rebuilt_entry name h' m)))))"

fun remove_entry ::
    "'s tree_ctx \<Rightarrow> 's tree_state \<Rightarrow> hash \<Rightarrow> string list \<Rightarrow> (hash option \<times> 's tree_state) result" where
  "remove_entry cx st base [] = Inl (Other ''path_components must be non-empty'')"
| "remove_entry cx st base (name # path) =
     rbind (load_all_entries cx st base) (\<lambda>(es, st).
       if path = []
       then (let es' = filter (\<lambda>e. ename e \<noteq> name) es
             in if length es' = length es then Inr (None, st)
                else rbind (build_and_store cx st es') (\<lambda>(h, st). Inr (Some h, st)))
       else (case child_hash_of es name of None \<Rightarrow> Inr (None, st)
             | Some child \<Rightarrow>
                 rbind (remove_entry cx st child path) (\<lambda>(r, st).
                   case r of None \<Rightarrow> Inr (None, st)
                   | Some h' \<Rightarrow>
                       rbind (tree_meta cx st h') (\<lambda>(m, st).
                       rbind (build_and_store cx st
                                (case position (\<lambda>e. ename e = name) es of
                                   Some pos \<Rightarrow> es[pos := rebuilt_entry name h' m] | None \<Rightarrow> es)) (\<lambda>(h, st).
                         Inr (Some h, st))))))"

section \<open>Copying a path between stores\<close>

fun ensure_path_in_store ::
    "'s tree_ctx \<Rightarrow> 'r object_store \<Rightarrow> 'r \<Rightarrow> 's \<Rightarrow> hash \<Rightarrow> string list \<Rightarrow> 's result" where
  "ensure_path_in_store cx Src src dst root path =
     rbind (os_exists (tc_ops cx) dst root) (\<lambda>ex.
     rbind (if ex then Inr dst
            else rbind (os_open_read Src src root) (\<lambda>b. os_write_from (tc_ops cx) dst root b)) (\<lambda>dst.
       case path of [] \<Rightarrow> Inr dst
       | name # rest \<Rightarrow>
           if rest = [] then Inr dst
           else rbind (find_entry_in_tree cx dst root name) (\<lambda>r.
                  case Option.bind r entry_hash of None \<Rightarrow> Inr dst
                  | Some child \<Rightarrow> ensure_path_in_store cx Src src dst child rest)))"

section \<open>Flattening\<close>

definition rel_path :: "string \<Rightarrow> string \<Rightarrow> string" where
  "rel_path pre name = (if pre = [] then name else pre @ ''/'' @ name)"

type_synonym flat_map = "(string \<times> tree_entry) list"

text \<open>The loop body as a function of the recursive call.\<close>

fun flatten_into ::
    "nat \<Rightarrow> 's tree_ctx \<Rightarrow> hash \<Rightarrow> string \<Rightarrow> flat_map \<times> 's tree_state \<Rightarrow> (flat_map \<times> 's tree_state) result" where
  "flatten_into 0 cx h pre os = Inl (Other ''nesting depth'')"
| "flatten_into (Suc fuel) cx h pre (out, st) =
     rbind (load_all_entries cx st h) (\<lambda>(es, st).
       rfold (\<lambda>e (out, st).
         case e of
           TreeE n child _ _ _ \<Rightarrow> flatten_into fuel cx child (rel_path pre n) (out, st)
         | _ \<Rightarrow> Inr (out @ [(rel_path pre (ename e), e)], st)) es (out, st))"

fun flatten_into_for_push ::
    "nat \<Rightarrow> 's tree_ctx \<Rightarrow> hash \<Rightarrow> string \<Rightarrow> flat_map \<times> 's tree_state \<Rightarrow> (flat_map \<times> 's tree_state) result" where
  "flatten_into_for_push 0 cx h pre os = Inl (Other ''nesting depth'')"
| "flatten_into_for_push (Suc fuel) cx h pre (out, st) =
     rbind (load_all_entries cx st h) (\<lambda>(es, st).
       rfold (\<lambda>e (out, st).
         let out = out @ [(rel_path pre (ename e), e)]
         in case e of
              TreeE n child _ _ _ \<Rightarrow>
                rbind (os_exists (tc_ops cx) (ts_store st) child) (\<lambda>ex.
                  if ex then flatten_into_for_push fuel cx child (rel_path pre n) (out, st)
                  else Inr (out, st))
            | _ \<Rightarrow> Inr (out, st)) es (out, st))"

fun flatten_local_into ::
    "nat \<Rightarrow> 's tree_ctx \<Rightarrow> hash \<Rightarrow> string \<Rightarrow> flat_map \<times> 's tree_state \<Rightarrow> (flat_map \<times> 's tree_state) result" where
  "flatten_local_into 0 cx h pre os = Inl (Other ''nesting depth'')"
| "flatten_local_into (Suc fuel) cx h pre (out, st) =
     rbind (load_all_entries cx st h) (\<lambda>(es, st).
       rfold (\<lambda>e (out, st).
         case e of
           TreeE n child _ _ _ \<Rightarrow>
             rbind (os_exists (tc_ops cx) (ts_store st) child) (\<lambda>ex.
               if ex then flatten_local_into fuel cx child (rel_path pre n) (out, st) else Inr (out, st))
         | _ \<Rightarrow> Inr (out @ [(rel_path pre (ename e), e)], st)) es (out, st))"

definition flatten_tree_entries ::
    "nat \<Rightarrow> 's tree_ctx \<Rightarrow> 's tree_state \<Rightarrow> hash \<Rightarrow> (flat_map \<times> 's tree_state) result" where
  "flatten_tree_entries fuel cx st root = flatten_into fuel cx root [] ([], st)"

definition flatten_tree_entries_for_push ::
    "nat \<Rightarrow> 's tree_ctx \<Rightarrow> 's tree_state \<Rightarrow> hash \<Rightarrow> (flat_map \<times> 's tree_state) result" where
  "flatten_tree_entries_for_push fuel cx st root = flatten_into_for_push fuel cx root [] ([], st)"

definition flatten_tree_entries_local ::
    "nat \<Rightarrow> 's tree_ctx \<Rightarrow> 's tree_state \<Rightarrow> hash \<Rightarrow> (flat_map \<times> 's tree_state) result" where
  "flatten_tree_entries_local fuel cx st root = flatten_local_into fuel cx root [] ([], st)"

text \<open>\<open>rel.split('/')\<close>: the pieces between the slashes, at least one.\<close>

fun split_slash :: "string \<Rightarrow> string list" where
  "split_slash [] = [[]]"
| "split_slash (c # cs) =
     (if c = CHR ''/'' then [] # split_slash cs
      else case split_slash cs of p # ps \<Rightarrow> (c # p) # ps | [] \<Rightarrow> [[c]])"

definition flatten_tree_entries_scoped ::
    "nat \<Rightarrow> 's tree_ctx \<Rightarrow> 's tree_state \<Rightarrow> hash \<Rightarrow> string \<Rightarrow> (flat_map \<times> 's tree_state) result" where
  "flatten_tree_entries_scoped fuel cx st root rel =
     rbind (navigate_entry cx (ts_store st) root (split_slash rel)) (\<lambda>r.
       case r of
         None \<Rightarrow> Inr ([], st)
       | Some (TreeE _ child _ _ _) \<Rightarrow> flatten_into fuel cx child rel ([], st)
       | Some e \<Rightarrow> Inr ([(rel, e)], st))"

definition flatten_tree_entries_scoped_for_push ::
    "nat \<Rightarrow> 's tree_ctx \<Rightarrow> 's tree_state \<Rightarrow> hash \<Rightarrow> string \<Rightarrow> (flat_map \<times> 's tree_state) result" where
  "flatten_tree_entries_scoped_for_push fuel cx st root rel =
     rbind (navigate_entry cx (ts_store st) root (split_slash rel)) (\<lambda>r.
       case r of
         None \<Rightarrow> Inr ([], st)
       | Some (TreeE n child m sz c) \<Rightarrow>
           rbind (os_exists (tc_ops cx) (ts_store st) child) (\<lambda>ex.
             if ex then flatten_into_for_push fuel cx child rel ([(rel, TreeE n child m sz c)], st)
             else Inr ([(rel, TreeE n child m sz c)], st))
       | Some e \<Rightarrow> Inr ([(rel, e)], st))"

section \<open>Trees that can be read\<close>

definition names_valid :: "tree_entry list \<Rightarrow> bool" where
  "names_valid es \<longleftrightarrow> (\<forall>e \<in> set es. validate_entry_name (ename e) = Inr ())"

definition tstate_ok :: "'s tree_ctx \<Rightarrow> 's tree_state \<Rightarrow> bool" where
  "tstate_ok cx st \<longleftrightarrow> (\<forall>m h es. ts_cache st = Some m \<longrightarrow> m h = Some es \<longrightarrow>
     read_tree cx (ts_store st) h = Inr (Normal es))"

definition keeps :: "'s tree_ctx \<Rightarrow> 's \<Rightarrow> 's \<Rightarrow> bool" where
  "keeps cx s s' \<longleftrightarrow> (\<forall>h t. read_tree cx s h = Inr t \<longrightarrow> read_tree cx s' h = Inr t)"

definition apart :: "'a list \<Rightarrow> 'a list \<Rightarrow> bool" where
  "apart q p \<longleftrightarrow> \<not> prefix q p \<and> \<not> prefix p q"

lemma apart_simps [simp]:
  "\<not> apart [] p" "\<not> apart q []" "apart (n # q) (m # p) \<longleftrightarrow> n \<noteq> m \<or> apart q p"
  by (auto simp: apart_def)

lemma keeps_refl [simp]: "keeps cx s s"
  by (simp add: keeps_def)

lemma keeps_trans: "keeps cx s s' \<Longrightarrow> keeps cx s' s'' \<Longrightarrow> keeps cx s s''"
  by (simp add: keeps_def)

lemma read_tree_names: "read_tree cx s h = Inr (Normal es) \<Longrightarrow> names_valid es"
  by (auto simp: read_tree_def rbind_Inr_iff tree_deserialise_iff tree_names_ok_def names_valid_def split: if_splits)

lemma tree_parse_built:
  assumes "tc_from_json cx (tc_to_json cx (Normal es)) = Some (Normal es)" "names_valid es"
  shows "tree_deserialise (tc_from_json cx) (tree_serialise (tc_to_json cx) (Normal es)) = Inr (Normal es)"
  using assms by (simp add: tree_deserialise_serialise tree_names_ok_def names_valid_def)

lemma tstate_ok_put:
  assumes "tstate_ok cx st" "read_tree cx (ts_store st) h = Inr (Normal es)"
  shows "tstate_ok cx (tree_cache_put st h es) \<and> ts_store (tree_cache_put st h es) = ts_store st"
  using assms by (auto simp: tstate_ok_def tree_cache_put_def split: option.splits if_splits)

lemma load_entries_ok:
  assumes "tstate_ok cx st" "read_tree cx (ts_store st) h = Inr (Normal es)"
  shows "\<exists>st'. load_all_entries cx st h = Inr (es, st') \<and> ts_store st' = ts_store st \<and> tstate_ok cx st'"
proof (cases "tree_cache_get st h")
  case None
  with assms tstate_ok_put [OF assms] show ?thesis by (simp add: load_all_entries_def)
next
  case (Some es')
  with assms have "es' = es" by (auto simp: tree_cache_get_def tstate_ok_def split: option.splits)
  with Some assms(1) show ?thesis by (simp add: load_all_entries_def)
qed

lemma load_entriesD:
  assumes "load_all_entries cx st h = Inr (es, st')" "tstate_ok cx st"
  shows "read_tree cx (ts_store st) h = Inr (Normal es)" "ts_store st' = ts_store st" "tstate_ok cx st'"
proof -
  show r: "read_tree cx (ts_store st) h = Inr (Normal es)"
  proof (cases "tree_cache_get st h")
    case None
    with assms(1) obtain t where "read_tree cx (ts_store st) h = Inr t" "es = entries t"
      by (auto simp: load_all_entries_def rbind_Inr_iff)
    then show ?thesis by (cases t) simp
  next
    case (Some es')
    with assms show ?thesis by (auto simp: load_all_entries_def tree_cache_get_def tstate_ok_def split: option.splits)
  qed
  from load_entries_ok [OF assms(2) r] assms(1) show "ts_store st' = ts_store st" "tstate_ok cx st'" by auto
qed

section \<open>Entries by name\<close>

lemma find_filter: "find P xs = (case filter P xs of [] \<Rightarrow> None | x # _ \<Rightarrow> Some x)"
  by (induction xs) auto

lemma find_sorted_entries [simp]: "find (\<lambda>e. ename e = n) (sorted_entries es) = find (\<lambda>e. ename e = n) es"
  by (simp add: find_filter sorted_entries_def sort_key_stable)

lemma find_replace_entry:
  assumes "ename new = name"
  shows "find (\<lambda>e. ename e = n) (replace_entry es name new) =
    (if n = name then Some new else find (\<lambda>e. ename e = n) es)"
proof -
  have "find (\<lambda>e. ename e = n) (es @ [new]) = (if n = name then Some new else find (\<lambda>e. ename e = n) es)"
    if "\<forall>e \<in> set es. ename e \<noteq> name"
    using that assms by (induction es) auto
  moreover have "find (\<lambda>e. ename e = n) (es[i := new]) = (if n = name then Some new else find (\<lambda>e. ename e = n) es)"
    if "position (\<lambda>e. ename e = name) es = Some i" for i
    using that assms
  proof (induction es arbitrary: i)
    case (Cons e es)
    then show ?case by (cases i) (auto split: if_splits)
  qed simp
  ultimately show ?thesis
    by (auto simp: replace_entry_def position_None_iff split: option.splits)
qed

lemma set_replace_entry: "set (replace_entry es name new) \<subseteq> insert new (set es)"
  using set_update_subset_insert [of es _ new] by (auto simp: replace_entry_def split: option.splits)

lemma names_valid_sorted [simp]: "names_valid (sorted_entries es) = names_valid es"
  by (simp add: names_valid_def sorted_entries_def)

lemma names_valid_replace:
  "names_valid es \<Longrightarrow> validate_entry_name (ename new) = Inr () \<Longrightarrow> names_valid (replace_entry es name new)"
  using set_replace_entry [of es name new] by (auto simp: names_valid_def)

lemma rebuilt_entry_simps [simp]: "ename (rebuilt_entry n h m) = n" "entry_hash (rebuilt_entry n h m) = Some h"
  by (cases m, simp add: rebuilt_entry_def)+

lemma navigate_entry_Cons:
  assumes "read_tree cx s h = Inr (Normal es)"
  shows "navigate_entry cx s h (n # p) =
    (case find (\<lambda>e. ename e = n) es of None \<Rightarrow> Inr None
     | Some e \<Rightarrow> if p = [] then Inr (Some e)
                 else case entry_hash e of None \<Rightarrow> Inr None | Some c \<Rightarrow> navigate_entry cx s c p)"
  using assms by (simp add: find_entry_in_tree_def)

lemma navigate_entry_keeps:
  "keeps cx s s' \<Longrightarrow> navigate_entry cx s h p = Inr r \<Longrightarrow> navigate_entry cx s' h p = Inr r"
proof (induction cx s h p rule: navigate_entry.induct)
  case (2 cx s h n p)
  from "2.prems"(2) obtain t where "read_tree cx s h = Inr t"
    by (auto simp: find_entry_in_tree_def rbind_Inr_iff)
  then obtain es where r: "read_tree cx s h = Inr (Normal es)" by (cases t) simp
  with "2.prems"(1) have r': "read_tree cx s' h = Inr (Normal es)" by (simp add: keeps_def)
  show ?case
  proof (cases "find (\<lambda>e. ename e = n) es")
    case None
    with "2.prems"(2) show ?thesis by (simp add: navigate_entry_Cons [OF r] navigate_entry_Cons [OF r'] del: navigate_entry.simps)
  next
    case (Some e)
    have f: "find_entry_in_tree cx s h n = Inr (Some e)" using r Some by (simp add: find_entry_in_tree_def)
    show ?thesis
      using "2.prems" Some "2.IH" [of e] f
      by (auto simp: navigate_entry_Cons [OF r] navigate_entry_Cons [OF r'] simp del: navigate_entry.simps
          split: option.splits if_splits)
  qed
qed simp

section \<open>Splices that meet no other content\<close>

text \<open>The name of the tree that is built is free or already holds that very tree, the tree is
  within the size limit of the codec, and the JSON codec gives it back.\<close>

definition tree_free :: "'s tree_ctx \<Rightarrow> 's \<Rightarrow> tree_entry list \<Rightarrow> bool" where
  "tree_free cx s es =
     (let t = Normal (sorted_entries es); bytes = tree_serialise (tc_to_json cx) t
      in tc_from_json cx (tc_to_json cx t) = Some t \<and> length bytes \<le> DECOMPRESS_MAX \<and>
         (case store_read (tc_env cx) (tc_ops cx) s (compute (sha (tc_env cx)) bytes) None of
            Inl (ObjectNotFound _) \<Rightarrow> True | Inl _ \<Rightarrow> False | Inr x \<Rightarrow> x = bytes))"

text \<open>Along the path of a splice: the trees on the path can be read, and the names of the
  trees that are built are free.\<close>

fun splice_free :: "'s tree_ctx \<Rightarrow> 's tree_state \<Rightarrow> hash option \<Rightarrow> string list \<Rightarrow> tree_entry \<Rightarrow> bool" where
  "splice_free cx st base [] new \<longleftrightarrow> False"
| "splice_free cx st base (name # path) new \<longleftrightarrow>
     (case (case base of Some h \<Rightarrow> load_all_entries cx st h | None \<Rightarrow> Inr ([], st)) of
        Inl _ \<Rightarrow> False
      | Inr (es, st) \<Rightarrow>
          if path = [] then tree_free cx (ts_store st) (replace_entry es name new)
          else splice_free cx st (child_hash_of es name) path new \<and>
            (case splice_entry cx st (child_hash_of es name) path new of Inl _ \<Rightarrow> True
             | Inr (h', st) \<Rightarrow>
                 (case tree_meta cx st h' of Inl _ \<Rightarrow> True
                  | Inr (m, st) \<Rightarrow> tree_free cx (ts_store st) (replace_entry es name (rebuilt_entry name h' m)))))"

fun remove_free :: "'s tree_ctx \<Rightarrow> 's tree_state \<Rightarrow> hash \<Rightarrow> string list \<Rightarrow> bool" where
  "remove_free cx st base [] \<longleftrightarrow> False"
| "remove_free cx st base (name # path) \<longleftrightarrow>
     (case load_all_entries cx st base of
        Inl _ \<Rightarrow> False
      | Inr (es, st) \<Rightarrow>
          if path = [] then tree_free cx (ts_store st) (filter (\<lambda>e. ename e \<noteq> name) es)
          else case child_hash_of es name of None \<Rightarrow> True
               | Some child \<Rightarrow> remove_free cx st child path \<and>
                   (case remove_entry cx st child path of
                      Inr (Some h', st) \<Rightarrow>
                        (case tree_meta cx st h' of Inl _ \<Rightarrow> True
                         | Inr (m, st) \<Rightarrow> tree_free cx (ts_store st) (replace_entry es name (rebuilt_entry name h' m)))
                    | _ \<Rightarrow> True))"

definition tree_world :: "'s tree_ctx \<Rightarrow> bool" where
  "tree_world cx \<longleftrightarrow> zstd_lossless (tc_env cx) \<and> gcm_opens (tc_env cx) \<and> digest32 (sha (tc_env cx))"

context store_laws
begin

lemma keeps_write:
  assumes "inv s" "tc_ops cx = S" "inv s'"
    and "\<And>g k y. hash_ok g \<Longrightarrow> holds (tc_env cx) s k g y \<Longrightarrow> holds (tc_env cx) s' k g y" and "digest32 (sha (tc_env cx))"
  shows "keeps cx s s'"
  unfolding keeps_def
proof (intro allI impI)
  fix h t assume r: "read_tree cx s h = Inr t"
  then obtain d where d: "store_read (tc_env cx) S s h None = Inr d" "compute (sha (tc_env cx)) d = h"
    "tree_deserialise (tc_from_json cx) d = Inr t"
    by (auto simp: read_tree_def rbind_Inr_iff assms(2) split: if_splits)
  have h: "hash_ok h" using d(2) assms(5) by (auto simp: compute_def digest32_def)
  from d(1) have "holds (tc_env cx) s None h d" using store_read_iff [OF assms(1) h] by blast
  from assms(4) [OF h this] have "store_read (tc_env cx) S s' h None = Inr d" using store_read_iff [OF assms(3) h] by blast
  with d show "read_tree cx s' h = Inr t" by (simp add: read_tree_def assms(2))
qed

lemma build_ok:
  assumes i: "inv (ts_store st)" "tc_ops cx = S" "tree_world cx" "tstate_ok cx st"
    and f: "tree_free cx (ts_store st) es" "names_valid es"
  shows "\<exists>h st'. build_and_store cx st es = Inr (h, st') \<and> inv (ts_store st') \<and> tstate_ok cx st' \<and>
    keeps cx (ts_store st) (ts_store st') \<and> read_tree cx (ts_store st') h = Inr (Normal (sorted_entries es))"
proof -
  let ?E = "tc_env cx" and ?s = "ts_store st"
  let ?b = "tree_serialise (tc_to_json cx) (Normal (sorted_entries es))"
  let ?h = "compute (sha ?E) ?b"
  have w: "tc_from_json cx (tc_to_json cx (Normal (sorted_entries es))) = Some (Normal (sorted_entries es))"
      "zstd_lossless ?E" "gcm_opens ?E" "digest32 (sha ?E)" using i(3) f(1) by (auto simp: tree_world_def tree_free_def Let_def)
  have h: "hash_ok ?h" using w(4) by (simp add: compute_def digest32_def)
  have len: "length ?b \<le> DECOMPRESS_MAX"
    and fr: "case store_read ?E S ?s ?h None of Inl (ObjectNotFound _) \<Rightarrow> True | Inl _ \<Rightarrow> False | Inr x \<Rightarrow> x = ?b"
    using f(1) by (simp_all add: tree_free_def Let_def i(2))
  have agree: "decode_obj ?E b None (raw ?h) = Inr ?b" if "view ?s ?h = Some b" for b
  proof (cases "decode_obj ?E b None (raw ?h)")
    case (Inl e)
    then have "store_read ?E S ?s ?h None = Inl e" using that read_view [OF i(1) h] by (simp add: store_read_def)
    moreover have "e \<noteq> ObjectNotFound g" for g
      using Inl by (auto simp: decode_obj_def decrypt_def dest: decompress_error)
    ultimately show ?thesis using fr by (auto split: error.splits)
  next
    case (Inr x)
    then have "store_read ?E S ?s ?h None = Inr x" using that read_view [OF i(1) h] by (simp add: store_read_def)
    with fr Inr show ?thesis by simp
  qed
  from store_write_holds [OF i(1) h w(2,3) len agree] obtain s' where
    s': "store_write ?E S ?s ?h ?b None = Inr s'" "inv s'" "holds ?E s' None ?h ?b"
      "\<forall>g k y. hash_ok g \<longrightarrow> holds ?E ?s k g y \<longrightarrow> holds ?E s' k g y" by blast
  have k: "keeps cx ?s s'" by (rule keeps_write [OF i(1,2) s'(2) _ w(4)]) (use s'(4) in blast)
  have "store_read ?E S s' ?h None = Inr ?b" by (rule store_read_holds [OF s'(2) h s'(3)])
  then have r: "read_tree cx s' ?h = Inr (Normal (sorted_entries es))"
    using tree_parse_built [OF w(1)] f(2) by (simp add: read_tree_def i(2))
  have "tstate_ok cx (st\<lparr>ts_store := s'\<rparr>)" using i(4) k by (auto simp: tstate_ok_def keeps_def)
  note put = tstate_ok_put [OF this, of ?h "sorted_entries es"]
  have "rbind (os_exists S ?s ?h) (\<lambda>ex. rbind (if ex then Inr ?s else store_write ?E S ?s ?h ?b None)
      (\<lambda>s'. Inr (?h, tree_cache_put (st\<lparr>ts_store := s'\<rparr>) ?h (sorted_entries es)))) =
      Inr (?h, tree_cache_put (st\<lparr>ts_store := s'\<rparr>) ?h (sorted_entries es))"
    using s'(1) by (auto simp: store_write_def exists_view [OF i(1) h])
  then have "build_and_store cx st es = Inr (?h, tree_cache_put (st\<lparr>ts_store := s'\<rparr>) ?h (sorted_entries es))"
    unfolding build_and_store_def Let_def i(2) .
  with put r k s'(2) show ?thesis by simp
qed

end

section \<open>Splice and remove\<close>

text \<open>What a navigation from a base that may be absent finds.\<close>

definition navigate_from :: "'s tree_ctx \<Rightarrow> 's \<Rightarrow> hash option \<Rightarrow> string list \<Rightarrow> tree_entry option result" where
  "navigate_from cx s base q = (case base of None \<Rightarrow> Inr None | Some h \<Rightarrow> navigate_entry cx s h q)"

lemma navigate_from_keeps:
  "keeps cx s s' \<Longrightarrow> navigate_from cx s base q = Inr r \<Longrightarrow> navigate_from cx s' base q = Inr r"
  by (cases base) (simp_all add: navigate_from_def navigate_entry_keeps)

text \<open>The navigation from a tree with the entries \<open>es\<close>, one step at a time.\<close>

lemma navigate_from_Cons:
  assumes "case base of Some h \<Rightarrow> read_tree cx s h = Inr (Normal es) | None \<Rightarrow> es = []"
  shows "navigate_from cx s base (n # p) =
    (if p = [] then Inr (find (\<lambda>e. ename e = n) es) else navigate_from cx s (child_hash_of es n) p)"
  using assms
  by (cases base; cases "find (\<lambda>e. ename e = n) es")
    (auto simp: navigate_from_def navigate_entry_Cons child_hash_of_def simp del: navigate_entry.simps split: option.splits)

lemma child_hash_of_sorted [simp]: "child_hash_of (sorted_entries es) n = child_hash_of es n"
  by (simp add: child_hash_of_def)

lemma child_hash_of_replace:
  "ename new = name \<Longrightarrow> child_hash_of (replace_entry es name new) n = (if n = name then entry_hash new else child_hash_of es n)"
  by (simp add: child_hash_of_def find_replace_entry)

text \<open>A tree in which one entry was replaced: paths that are apart from the replaced one
  lead where they led before, if that holds below the replaced entry.\<close>

lemma navigate_replaced:
  assumes base: "case base of Some h \<Rightarrow> read_tree cx s h = Inr (Normal es) | None \<Rightarrow> es = []"
    and read: "read_tree cx s' h = Inr (Normal (sorted_entries (replace_entry es name new)))"
    and new: "ename new = name" and k: "keeps cx s s'"
    and sub: "\<And>p r. apart p path \<Longrightarrow> navigate_from cx s (child_hash_of es name) p = Inr r \<Longrightarrow>
      navigate_from cx s' (entry_hash new) p = Inr r"
    and q: "apart q (name # path)" "navigate_from cx s base q = Inr r"
  shows "navigate_from cx s' (Some h) q = Inr r"
proof (cases q)
  case (Cons n p)
  let ?es = "replace_entry es name new"
  have nav: "navigate_from cx s' (Some h) (n # p) =
      (if p = [] then Inr (find (\<lambda>e. ename e = n) ?es) else navigate_from cx s' (child_hash_of ?es n) p)"
    using navigate_from_Cons [where base = "Some h" and s = s' and es = "sorted_entries ?es"] read by simp
  note nav0 = navigate_from_Cons [OF base]
  show ?thesis
  proof (cases "n = name")
    case True
    with q(1) Cons have "apart p path" "p \<noteq> []" by (cases p; auto)+
    with q(2) sub [of p r] True show ?thesis unfolding Cons nav nav0 by (simp add: child_hash_of_replace [OF new])
  next
    case False
    with q(2) navigate_from_keeps [OF k] show ?thesis unfolding Cons nav nav0
      by (auto simp: find_replace_entry [OF new] child_hash_of_replace [OF new] split: if_splits)
  qed
qed (use q(1) in simp)

lemma navigate_to_replaced:
  assumes "read_tree cx s' h = Inr (Normal (sorted_entries (replace_entry es name new)))" "ename new = name"
  shows "navigate_from cx s' (Some h) (name # p) =
    (if p = [] then Inr (Some new) else navigate_from cx s' (entry_hash new) p)"
  using navigate_from_Cons [where base = "Some h" and s = s' and es = "sorted_entries (replace_entry es name new)"] assms
  by (simp add: find_replace_entry child_hash_of_replace)

context store_laws
begin

definition tree_step :: "'s tree_ctx \<Rightarrow> 's tree_state \<Rightarrow> 's tree_state \<Rightarrow> bool" where
  "tree_step cx st st' \<longleftrightarrow> inv (ts_store st') \<and> tstate_ok cx st' \<and> keeps cx (ts_store st) (ts_store st')"

lemma tree_step_trans: "tree_step cx st st' \<Longrightarrow> tree_step cx st' st'' \<Longrightarrow> tree_step cx st st''"
  using keeps_trans by (auto simp: tree_step_def)

lemma tree_meta_ok:
  assumes "tstate_ok cx st" "inv (ts_store st)" "read_tree cx (ts_store st) h = Inr (Normal es)"
  shows "\<exists>m st'. tree_meta cx st h = Inr (m, st') \<and> tree_step cx st st' \<and> ts_store st' = ts_store st"
  using load_entries_ok [OF assms(1,3)] assms(2) by (auto simp: tree_meta_def tree_step_def)

lemma load_base_ok:
  assumes "tstate_ok cx st" "inv (ts_store st)"
    and "(case base of Some h \<Rightarrow> load_all_entries cx st h | None \<Rightarrow> Inr ([], st)) = Inr (es, st1)"
  shows "(case base of Some h \<Rightarrow> read_tree cx (ts_store st) h = Inr (Normal es) | None \<Rightarrow> es = [])"
    "tree_step cx st st1" "ts_store st1 = ts_store st" "names_valid es"
proof -
  show b: "(case base of Some h \<Rightarrow> read_tree cx (ts_store st) h = Inr (Normal es) | None \<Rightarrow> es = [])"
    using assms(3) load_entriesD(1) [OF _ assms(1)] by (auto split: option.splits)
  show s: "ts_store st1 = ts_store st" using assms(3) load_entriesD(2) [OF _ assms(1)] by (auto split: option.splits)
  show "tree_step cx st st1" using assms load_entriesD(2,3) [OF _ assms(1)]
    by (auto simp: tree_step_def split: option.splits)
  show "names_valid es" using b read_tree_names [of cx "ts_store st" _ es]
    by (cases base) (auto simp: names_valid_def)
qed

lemma build_step:
  assumes "tree_free cx (ts_store st) es" "names_valid es" "inv (ts_store st)" "tc_ops cx = S" "tree_world cx" "tstate_ok cx st"
  obtains h st' where "build_and_store cx st es = Inr (h, st')" "tree_step cx st st'"
    "read_tree cx (ts_store st') h = Inr (Normal (sorted_entries es))"
  using build_ok [OF assms(3-6,1,2)] by (auto simp: tree_step_def)

lemma splice_ok:
  assumes "inv (ts_store st)" "tc_ops cx = S" "tree_world cx" "tstate_ok cx st"
    and "splice_free cx st base path new" "ename new = last path" "\<forall>n \<in> set path. validate_entry_name n = Inr ()"
  shows "\<exists>h st' es'. splice_entry cx st base path new = Inr (h, st') \<and> tree_step cx st st' \<and>
    read_tree cx (ts_store st') h = Inr (Normal es') \<and> navigate_from cx (ts_store st') (Some h) path = Inr (Some new) \<and>
    (\<forall>q r. apart q path \<longrightarrow> navigate_from cx (ts_store st) base q = Inr r \<longrightarrow> navigate_from cx (ts_store st') (Some h) q = Inr r)"
  using assms(1,4-7)
proof (induction path arbitrary: st base)
  case (Cons name path)
  from Cons.prems(3) obtain es st1 where
    ld: "(case base of Some h \<Rightarrow> load_all_entries cx st h | None \<Rightarrow> Inr ([], st)) = Inr (es, st1)"
    by (auto split: sum.splits)
  note b = load_base_ok [OF Cons.prems(2,1) ld]
  have ok1: "inv (ts_store st1)" "tstate_ok cx st1" using b(2) by (simp_all add: tree_step_def)
  show ?case
  proof (cases "path = []")
    case True
    let ?es = "replace_entry es name new"
    have new: "ename new = name" using Cons.prems(4) True by simp
    have "tree_free cx (ts_store st1) ?es" using Cons.prems(3) ld True by (simp add: b)
    moreover have "names_valid ?es" using Cons.prems(5) b(4) new by (simp add: names_valid_replace)
    ultimately obtain h st2 where s2: "build_and_store cx st1 ?es = Inr (h, st2)" "tree_step cx st1 st2"
      "read_tree cx (ts_store st2) h = Inr (Normal (sorted_entries ?es))"
      using build_step [OF _ _ ok1(1) assms(2,3) ok1(2)] by blast
    have k: "keeps cx (ts_store st) (ts_store st2)" using s2(2) b(3) by (simp add: tree_step_def)
    have "navigate_from cx (ts_store st2) (Some h) q = Inr r"
      if "apart q [name]" "navigate_from cx (ts_store st) base q = Inr r" for q r
      by (rule navigate_replaced [OF b(1) s2(3) new k _ that]) simp
    moreover have "navigate_from cx (ts_store st2) (Some h) [name] = Inr (Some new)"
      by (simp add: navigate_to_replaced [OF s2(3) new])
    ultimately show ?thesis using ld s2 True tree_step_trans [OF b(2) s2(2)] by simp
  next
    case False
    let ?c = "child_hash_of es name"
    have "splice_free cx st1 ?c path new" using Cons.prems(3) ld False by (simp add: b)
    from Cons.IH [OF ok1 this] Cons.prems(4,5) False obtain h' st2 es2 where
      s2: "splice_entry cx st1 ?c path new = Inr (h', st2)" "tree_step cx st1 st2"
        "read_tree cx (ts_store st2) h' = Inr (Normal es2)" "navigate_from cx (ts_store st2) (Some h') path = Inr (Some new)"
      and frame: "\<And>q r. apart q path \<Longrightarrow> navigate_from cx (ts_store st1) ?c q = Inr r \<Longrightarrow>
        navigate_from cx (ts_store st2) (Some h') q = Inr r" by auto
    have ok2: "tstate_ok cx st2" "inv (ts_store st2)" using s2(2) by (simp_all add: tree_step_def)
    from tree_meta_ok [OF ok2 s2(3)] obtain m st3 where
      s3: "tree_meta cx st2 h' = Inr (m, st3)" "tree_step cx st2 st3" "ts_store st3 = ts_store st2" by blast
    let ?es = "replace_entry es name (rebuilt_entry name h' m)"
    have "tree_free cx (ts_store st3) ?es" using Cons.prems(3) ld False s2(1) s3(1) by (simp add: b)
    moreover have "names_valid ?es" using Cons.prems(5) b(4) by (simp add: names_valid_replace)
    moreover have ok3: "tstate_ok cx st3" "inv (ts_store st3)" using s3(2) by (simp_all add: tree_step_def)
    ultimately obtain h st4 where s4: "build_and_store cx st3 ?es = Inr (h, st4)" "tree_step cx st3 st4"
      "read_tree cx (ts_store st4) h = Inr (Normal (sorted_entries ?es))"
      using build_step [OF _ _ ok3(2) assms(2,3) ok3(1)] by blast
    have step: "tree_step cx st st4"
      using tree_step_trans [OF b(2) tree_step_trans [OF s2(2) tree_step_trans [OF s3(2) s4(2)]]] .
    have k: "keeps cx (ts_store st) (ts_store st4)" and k2: "keeps cx (ts_store st2) (ts_store st4)"
      using step tree_step_trans [OF s3(2) s4(2)] by (simp_all add: tree_step_def)
    have "navigate_from cx (ts_store st4) (Some h) q = Inr r"
      if "apart q (name # path)" "navigate_from cx (ts_store st) base q = Inr r" for q r
      by (rule navigate_replaced [OF b(1) s4(3) _ k _ that])
        (use frame navigate_from_keeps [OF k2] in \<open>auto simp: b(3)\<close>)
    moreover have "navigate_from cx (ts_store st4) (Some h) (name # path) = Inr (Some new)"
      using navigate_from_keeps [OF k2 s2(4)] False by (simp add: navigate_to_replaced [OF s4(3)])
    ultimately show ?thesis using ld s2(1) s3(1) s4 False step by (auto simp: b)
  qed
qed simp

end

section \<open>Removal\<close>

lemma find_filter_name:
  "find (\<lambda>e. ename e = n) (filter (\<lambda>e. ename e \<noteq> name) es) = (if n = name then None else find (\<lambda>e. ename e = n) es)"
  by (induction es) auto

lemma child_hash_of_filter:
  "child_hash_of (filter (\<lambda>e. ename e \<noteq> name) es) n = (if n = name then None else child_hash_of es n)"
  by (simp add: child_hash_of_def find_filter_name)

lemma filter_same_length: "length (filter P xs) = length xs \<longleftrightarrow> (\<forall>x \<in> set xs. P x)"
proof
  assume "length (filter P xs) = length xs"
  then have "filter P xs = xs" using filter_id_conv by (metis length_filter_less less_irrefl)
  then show "\<forall>x \<in> set xs. P x" by (simp add: filter_id_conv)
qed simp

lemma navigate_filtered:
  assumes base: "read_tree cx s h0 = Inr (Normal es)"
    and read: "read_tree cx s' h = Inr (Normal (sorted_entries (filter (\<lambda>e. ename e \<noteq> name) es)))"
    and k: "keeps cx s s'"
  shows "navigate_from cx s' (Some h) [name] = Inr None"
    and "apart q [name] \<Longrightarrow> navigate_from cx s (Some h0) q = Inr r \<Longrightarrow> navigate_from cx s' (Some h) q = Inr r"
proof -
  let ?es = "filter (\<lambda>e. ename e \<noteq> name) es"
  have nav: "navigate_from cx s' (Some h) (n # p) =
      (if p = [] then Inr (find (\<lambda>e. ename e = n) ?es) else navigate_from cx s' (child_hash_of ?es n) p)" for n p
    using navigate_from_Cons [where base = "Some h" and s = s' and es = "sorted_entries ?es"] read by simp
  have nav0: "navigate_from cx s (Some h0) (n # p) =
      (if p = [] then Inr (find (\<lambda>e. ename e = n) es) else navigate_from cx s (child_hash_of es n) p)" for n p
    using navigate_from_Cons [where base = "Some h0" and s = s and es = es] base by simp
  show "navigate_from cx s' (Some h) [name] = Inr None" by (simp add: nav find_filter_name)
  show "navigate_from cx s' (Some h) q = Inr r" if q: "apart q [name]" "navigate_from cx s (Some h0) q = Inr r"
  proof (cases q)
    case (Cons n p)
    with q(1) have "n \<noteq> name" by simp
    with q(2) navigate_from_keeps [OF k] show ?thesis unfolding Cons nav nav0
      by (auto simp: find_filter_name child_hash_of_filter split: if_splits)
  qed (use q(1) in simp)
qed

lemma child_replace: "child_hash_of es name = Some c \<Longrightarrow>
    (case position (\<lambda>e. ename e = name) es of Some pos \<Rightarrow> es[pos := new] | None \<Rightarrow> es) = replace_entry es name new"
proof -
  assume "child_hash_of es name = Some c"
  then obtain e where "find (\<lambda>e. ename e = name) es = Some e" by (auto simp: child_hash_of_def bind_eq_Some_conv)
  then have "\<exists>x \<in> set es. ename x = name" by (auto simp: find_Some_iff)
  then have "position (\<lambda>e. ename e = name) es \<noteq> None" by (auto simp: position_None_iff)
  then show ?thesis by (auto simp: replace_entry_def)
qed

context store_laws
begin

text \<open>The outcome of a removal: nothing was there and nothing changed, or the new root leads
  nowhere at the path and everywhere else as before.\<close>

definition removed ::
    "'s tree_ctx \<Rightarrow> 's tree_state \<Rightarrow> 's tree_state \<Rightarrow> hash \<Rightarrow> string list \<Rightarrow> hash option \<Rightarrow> bool" where
  "removed cx st st' base path r \<longleftrightarrow>
     (case r of None \<Rightarrow> navigate_from cx (ts_store st) (Some base) path = Inr None
      | Some h \<Rightarrow> (\<exists>es. read_tree cx (ts_store st') h = Inr (Normal es)) \<and>
          navigate_from cx (ts_store st) (Some base) path \<noteq> Inr None \<and>
          navigate_from cx (ts_store st') (Some h) path = Inr None \<and>
          (\<forall>q x. apart q path \<longrightarrow> navigate_from cx (ts_store st) (Some base) q = Inr x \<longrightarrow>
             navigate_from cx (ts_store st') (Some h) q = Inr x))"

lemma remove_leaf_ok:
  assumes "inv (ts_store st)" "tc_ops cx = S" "tree_world cx" "tstate_ok cx st" "remove_free cx st base [name]"
  shows "\<exists>r st'. remove_entry cx st base [name] = Inr (r, st') \<and> tree_step cx st st' \<and> removed cx st st' base [name] r"
proof -
  from assms(5) obtain es st1 where ld: "load_all_entries cx st base = Inr (es, st1)" by (auto split: sum.splits)
  note d = load_entriesD [OF ld assms(4)]
  let ?es = "filter (\<lambda>e. ename e \<noteq> name) es"
  have step1: "tree_step cx st st1" using d assms(1) by (simp add: tree_step_def)
  have nav0: "navigate_from cx (ts_store st) (Some base) [name] = Inr (find (\<lambda>e. ename e = name) es)"
    using navigate_from_Cons [where base = "Some base" and s = "ts_store st" and es = es] d(1) by simp
  show ?thesis
  proof (cases "length ?es = length es")
    case True
    then have "\<forall>e \<in> set es. ename e \<noteq> name" by (simp add: filter_same_length)
    then have "find (\<lambda>e. ename e = name) es = None" by (auto simp: find_None_iff)
    with True ld step1 nav0 show ?thesis by (auto simp: removed_def)
  next
    case False
    then have "find (\<lambda>e. ename e = name) es \<noteq> None" by (auto simp: find_None_iff filter_same_length)
    moreover from assms(5) ld have "tree_free cx (ts_store st1) ?es" by simp
    moreover have "names_valid ?es" using read_tree_names [OF d(1)] by (auto simp: names_valid_def)
    ultimately obtain h st2 where s2: "build_and_store cx st1 ?es = Inr (h, st2)" "tree_step cx st1 st2"
      "read_tree cx (ts_store st2) h = Inr (Normal (sorted_entries ?es))"
      using build_step [OF _ _ _ assms(2,3) d(3)] d(2) assms(1) by (metis (no_types, lifting))
    have "keeps cx (ts_store st) (ts_store st2)" using s2(2) d(2) by (simp add: tree_step_def)
    note f = navigate_filtered [OF d(1) s2(3) this]
    from False ld s2 nav0 f tree_step_trans [OF step1 s2(2)] \<open>find (\<lambda>e. ename e = name) es \<noteq> None\<close> show ?thesis
      by (auto simp: removed_def Let_def)
  qed
qed

lemma remove_ok:
  assumes "inv (ts_store st)" "tc_ops cx = S" "tree_world cx" "tstate_ok cx st"
    and "remove_free cx st base path" "\<forall>n \<in> set path. validate_entry_name n = Inr ()"
  shows "\<exists>r st'. remove_entry cx st base path = Inr (r, st') \<and> tree_step cx st st' \<and> removed cx st st' base path r"
  using assms(1,4-6)
proof (induction path arbitrary: st base)
  case (Cons name path)
  show ?case
  proof (cases "path = []")
    case True
    with remove_leaf_ok [OF Cons.prems(1) assms(2,3) Cons.prems(2)] Cons.prems(3) show ?thesis by simp
  next
    case False
    from Cons.prems(3) obtain es st1 where ld: "load_all_entries cx st base = Inr (es, st1)" by (auto split: sum.splits)
    note d = load_entriesD [OF ld Cons.prems(2)]
    have step1: "tree_step cx st st1" using d Cons.prems(1) by (simp add: tree_step_def)
    have base: "case Some base of Some h \<Rightarrow> read_tree cx (ts_store st) h = Inr (Normal es) | None \<Rightarrow> es = []" using d(1) by simp
    have nav0: "navigate_from cx (ts_store st) (Some base) (name # path) = navigate_from cx (ts_store st) (child_hash_of es name) path"
      using navigate_from_Cons [OF base] False by simp
    show ?thesis
    proof (cases "child_hash_of es name")
      case None
      with ld step1 nav0 False show ?thesis by (auto simp: removed_def navigate_from_def)
    next
      case (Some c)
      have ok1: "inv (ts_store st1)" using d(2) Cons.prems(1) by simp
      have "remove_free cx st1 c path" using Cons.prems(3) ld False Some by simp
      from Cons.IH [OF ok1 d(3) this] Cons.prems(4) obtain r st2 where
        s2: "remove_entry cx st1 c path = Inr (r, st2)" "tree_step cx st1 st2" "removed cx st1 st2 c path r" by auto
      show ?thesis
      proof (cases r)
        case None
        with s2 ld Some False nav0 d(2) tree_step_trans [OF step1 s2(2)] show ?thesis by (auto simp: removed_def)
      next
        case (Some h')
        with s2(3) obtain es2 where r2: "read_tree cx (ts_store st2) h' = Inr (Normal es2)"
          "navigate_from cx (ts_store st) (Some c) path \<noteq> Inr None" "navigate_from cx (ts_store st2) (Some h') path = Inr None"
          and frame: "\<And>q x. apart q path \<Longrightarrow> navigate_from cx (ts_store st) (Some c) q = Inr x \<Longrightarrow>
            navigate_from cx (ts_store st2) (Some h') q = Inr x" by (auto simp: removed_def d(2))
        have ok2: "tstate_ok cx st2" "inv (ts_store st2)" using s2(2) by (simp_all add: tree_step_def)
        from tree_meta_ok [OF ok2 r2(1)] obtain m st3 where
          s3: "tree_meta cx st2 h' = Inr (m, st3)" "tree_step cx st2 st3" "ts_store st3 = ts_store st2" by blast
        let ?es = "replace_entry es name (rebuilt_entry name h' m)"
        have "tree_free cx (ts_store st3) ?es"
          using Cons.prems(3) ld False s2(1) s3(1) Some \<open>child_hash_of es name = Some c\<close> by simp
        moreover have "names_valid ?es" using Cons.prems(4) read_tree_names [OF d(1)] by (simp add: names_valid_replace)
        moreover have ok3: "tstate_ok cx st3" "inv (ts_store st3)" using s3(2) by (simp_all add: tree_step_def)
        ultimately obtain h st4 where s4: "build_and_store cx st3 ?es = Inr (h, st4)" "tree_step cx st3 st4"
          "read_tree cx (ts_store st4) h = Inr (Normal (sorted_entries ?es))"
          using build_step [OF _ _ ok3(2) assms(2,3) ok3(1)] by blast
        have step: "tree_step cx st st4"
          using tree_step_trans [OF step1 tree_step_trans [OF s2(2) tree_step_trans [OF s3(2) s4(2)]]] .
        have k: "keeps cx (ts_store st) (ts_store st4)" and k2: "keeps cx (ts_store st2) (ts_store st4)"
          using step tree_step_trans [OF s3(2) s4(2)] by (simp_all add: tree_step_def)
        have "navigate_from cx (ts_store st4) (Some h) q = Inr x"
          if "apart q (name # path)" "navigate_from cx (ts_store st) (Some base) q = Inr x" for q x
          by (rule navigate_replaced [OF base s4(3) _ k _ that])
            (use frame navigate_from_keeps [OF k2] \<open>child_hash_of es name = Some c\<close> in auto)
        moreover have "navigate_from cx (ts_store st4) (Some h) (name # path) = Inr None"
          using navigate_from_keeps [OF k2 r2(3)] False by (simp add: navigate_to_replaced [OF s4(3)])
        moreover have "remove_entry cx st base (name # path) = Inr (Some h, st4)"
          using ld False s2(1) s3(1) s4(1) Some child_replace [OF \<open>child_hash_of es name = Some c\<close>]
            \<open>child_hash_of es name = Some c\<close> by simp
        ultimately show ?thesis using step s4(3) nav0 r2(2) \<open>child_hash_of es name = Some c\<close> by (auto simp: removed_def)
      qed
    qed
  qed
qed simp

end

section \<open>Properties\<close>

text \<open>Trees of the unencrypted local store.\<close>

definition local_trees ::
    "env \<Rightarrow> (bytes \<Rightarrow> bytes \<Rightarrow> bytes) \<Rightarrow> (tree \<Rightarrow> bytes) \<Rightarrow> (bytes \<Rightarrow> tree option) \<Rightarrow> objects_backend tree_ctx" where
  "local_trees E hmac to_json from_json =
     \<lparr>tc_env = E, tc_ops = local_store hmac None, tc_to_json = to_json, tc_from_json = from_json\<rparr>"

lemma local_trees_laws:
  "store_laws (local_store hmac None) backend_ok (\<lambda>b h. backend_view b (hex (storage_key hmac None h)))"
  by (rule keys_apart_laws) (simp add: keys_apart_def)

text \<open>C23: splicing an entry at a path, into an existing tree or from nothing, returns a new
  root from which the path leads to exactly that entry, while every path apart from it
  leads where it led from the old root; and no tree that could be read is lost, so that
  the old root stays valid.\<close>

theorem splice_navigate:
  assumes "cx = local_trees E hmac to_json from_json" and "tree_world cx" and "backend_ok (ts_store st)"
    and "tstate_ok cx st" and "splice_free cx st base path new" and "ename new = last path"
    and "\<forall>n \<in> set path. validate_entry_name n = Inr ()"
  shows "\<exists>h st'. splice_entry cx st base path new = Inr (h, st') \<and> backend_ok (ts_store st') \<and> tstate_ok cx st' \<and>
    navigate_entry cx (ts_store st') h path = Inr (Some new) \<and>
    (\<forall>q r. apart q path \<longrightarrow> navigate_from cx (ts_store st) base q = Inr r \<longrightarrow> navigate_entry cx (ts_store st') h q = Inr r) \<and>
    (\<forall>h0 q r. navigate_entry cx (ts_store st) h0 q = Inr r \<longrightarrow> navigate_entry cx (ts_store st') h0 q = Inr r)"
proof -
  have ops: "tc_ops cx = local_store hmac None" using assms(1) by (simp add: local_trees_def)
  from store_laws.splice_ok [OF local_trees_laws assms(3) ops assms(2,4-7)] obtain h st' where
    s: "splice_entry cx st base path new = Inr (h, st')"
      "store_laws.tree_step backend_ok cx st st'"
      "navigate_from cx (ts_store st') (Some h) path = Inr (Some new)"
      "\<forall>q r. apart q path \<longrightarrow> navigate_from cx (ts_store st) base q = Inr r \<longrightarrow> navigate_from cx (ts_store st') (Some h) q = Inr r"
    by blast
  then have "backend_ok (ts_store st')" "tstate_ok cx st'" "keeps cx (ts_store st) (ts_store st')"
    by (simp_all add: store_laws.tree_step_def [OF local_trees_laws])
  with s navigate_entry_keeps show ?thesis by (auto simp: navigate_from_def)
qed

definition toy_blob :: tree_entry where
  "toy_blob = Blob ''b'' toy_hash None 3 None"

definition toy_json :: "tree \<Rightarrow> bytes" where
  "toy_json t = map (\<lambda>e. word_of_nat (length (ename e))) (entries t)"

definition toy_trees :: "objects_backend tree_ctx" where
  "toy_trees = local_trees toy_env toy_hmac toy_json
     (\<lambda>b. Some (if b = [] then Normal [] else Normal [toy_blob]))"

definition toy_tree_state :: "objects_backend tree_state" where
  "toy_tree_state = \<lparr>ts_store = RemoteB [], ts_cache = Some (\<lambda>_. None)\<rparr>"

lemma toy_tree_world: "tree_world toy_trees"
  using toy_env_ok by (simp add: tree_world_def toy_trees_def local_trees_def)

lemma toy_tree_free: "es \<in> {[], [toy_blob]} \<Longrightarrow> tree_free toy_trees (RemoteB []) es"
proof -
  have nf: "store_read toy_env (local_store toy_hmac None) (RemoteB []) n None = Inl (ObjectNotFound (hex n))" for n
    by (simp add: store_read_def local_store_def store_with_keys_def backend_open_read_def remote_find_def
        relabel_not_found_def split: option.splits)
  assume "es \<in> {[], [toy_blob]}"
  then show ?thesis
    by (auto simp: tree_free_def toy_trees_def local_trees_def toy_json_def sorted_entries_def Let_def
        tree_serialise_def type_tags DECOMPRESS_MAX_def nf)
qed

lemma toy_blob_valid: "\<forall>n \<in> set [''b'']. validate_entry_name n = Inr ()"
  by (simp add: validate_entry_name_def is_metadata_dir_name_def is_reserved_name_def sublist_code)

theorem splice_navigate_witness:
  "\<exists>h st'. splice_entry toy_trees toy_tree_state None [''b''] toy_blob = Inr (h, st') \<and>
     navigate_entry toy_trees (ts_store st') h [''b''] = Inr (Some toy_blob)"
proof -
  have f: "splice_free toy_trees toy_tree_state None [''b''] toy_blob"
    using toy_tree_free [of "[toy_blob]"] by (simp add: toy_tree_state_def replace_entry_def)
  have n: "ename toy_blob = last [''b'']" by (simp add: toy_blob_def)
  have st: "backend_ok (ts_store toy_tree_state)" "tstate_ok toy_trees toy_tree_state"
    by (simp_all add: toy_tree_state_def tstate_ok_def)
  from splice_navigate [OF toy_trees_def toy_tree_world st f n toy_blob_valid] show ?thesis by blast
qed

text \<open>Removing the entry at a path reports that nothing was there exactly when the path
  leads nowhere; otherwise the new root leads nowhere at the path and, at every path apart
  from it, where the old root led. The old root stays valid.\<close>

theorem remove_navigate:
  assumes "cx = local_trees E hmac to_json from_json" and "tree_world cx" and "backend_ok (ts_store st)"
    and "tstate_ok cx st" and "remove_free cx st base path" and "\<forall>n \<in> set path. validate_entry_name n = Inr ()"
  shows "\<exists>r st'. remove_entry cx st base path = Inr (r, st') \<and> backend_ok (ts_store st') \<and>
    (r = None \<longleftrightarrow> navigate_entry cx (ts_store st) base path = Inr None) \<and>
    (\<forall>h. r = Some h \<longrightarrow> navigate_entry cx (ts_store st') h path = Inr None \<and>
       (\<forall>q x. apart q path \<longrightarrow> navigate_entry cx (ts_store st) base q = Inr x \<longrightarrow>
          navigate_entry cx (ts_store st') h q = Inr x)) \<and>
    (\<forall>h0 q x. navigate_entry cx (ts_store st) h0 q = Inr x \<longrightarrow> navigate_entry cx (ts_store st') h0 q = Inr x)"
proof -
  note L = local_trees_laws [of hmac]
  have ops: "tc_ops cx = local_store hmac None" using assms(1) by (simp add: local_trees_def)
  from store_laws.remove_ok [OF L assms(3) ops assms(2,4-6)] obtain r st' where
    s: "remove_entry cx st base path = Inr (r, st')" "store_laws.tree_step backend_ok cx st st'"
      "store_laws.removed cx st st' base path r" by blast
  from s(2) have "backend_ok (ts_store st')" "keeps cx (ts_store st) (ts_store st')"
    by (simp_all add: store_laws.tree_step_def [OF L])
  then have k: "\<forall>h0 q x. navigate_entry cx (ts_store st) h0 q = Inr x \<longrightarrow> navigate_entry cx (ts_store st') h0 q = Inr x"
    by (auto intro: navigate_entry_keeps)
  have n: "r = None \<longleftrightarrow> navigate_entry cx (ts_store st) base path = Inr None"
    using s(3) by (auto simp: store_laws.removed_def [OF L] navigate_from_def split: option.splits)
  have "\<forall>h. r = Some h \<longrightarrow> navigate_entry cx (ts_store st') h path = Inr None \<and>
       (\<forall>q x. apart q path \<longrightarrow> navigate_entry cx (ts_store st) base q = Inr x \<longrightarrow>
          navigate_entry cx (ts_store st') h q = Inr x)"
    using s(3) by (auto simp: store_laws.removed_def [OF L] navigate_from_def)
  with s(1) \<open>backend_ok (ts_store st')\<close> n k show ?thesis by (intro exI conjI)
qed

definition toy_tree_bytes :: bytes where
  "toy_tree_bytes = TYPE_TAG_TREE @ [1]"

definition toy_tree_hash :: hash where
  "toy_tree_hash = compute (sha toy_env) toy_tree_bytes"

definition toy_tree_state1 :: "objects_backend tree_state" where
  "toy_tree_state1 = \<lparr>ts_store = RemoteB [(the (expected_path (hex toy_tree_hash)), toy_tree_bytes)], ts_cache = None\<rparr>"

lemma toy_hash64: "length (hex (compute (sha toy_env) x)) = 64" "hash_ok (compute (sha toy_env) x)"
  using toy_env_ok(3) by (simp_all add: compute_def digest32_def)

lemma toy_tree_open:
  "os_open_read (local_store toy_hmac None) (ts_store toy_tree_state1) toy_tree_hash = Inr toy_tree_bytes"
  using toy_hash64 [of toy_tree_bytes]
  by (simp add: toy_tree_state1_def local_store_def store_with_keys_def storage_key_def backend_open_read_def
      remote_find_def expected_path_def toy_tree_hash_def)

lemma toy_tree_read: "read_tree toy_trees (ts_store toy_tree_state1) toy_tree_hash = Inr (Normal [toy_blob])"
proof -
  have "decode_obj toy_env toy_tree_bytes None h = Inr toy_tree_bytes" for h
    by (simp add: decode_obj_def decrypt_def toy_tree_bytes_def type_tags)
  then have "store_read toy_env (local_store toy_hmac None) (ts_store toy_tree_state1) toy_tree_hash None = Inr toy_tree_bytes"
    using toy_tree_open by (simp add: store_read_def)
  moreover have "tree_names_ok (Normal [toy_blob])"
    using toy_blob_valid by (simp add: tree_names_ok_def toy_blob_def)
  ultimately show ?thesis
    by (simp add: read_tree_def toy_trees_def local_trees_def toy_tree_hash_def tree_deserialise_iff
        toy_tree_bytes_def type_tags)
qed

lemma toy_tree_absent:
  assumes "hash_ok g" "raw g \<noteq> raw toy_tree_hash"
  shows "store_read toy_env (local_store toy_hmac None) (ts_store toy_tree_state1) g None = Inl (ObjectNotFound (hex g))"
proof -
  have "hash_ok toy_tree_hash" by (simp add: toy_tree_hash_def toy_hash64(2))
  with assms have "hex g \<noteq> hex toy_tree_hash" by (auto simp: hex_inject)
  moreover have "length (hex g) = 64" using assms(1) by (simp add: hash_ok_def)
  ultimately show ?thesis
    using toy_hash64(1) [of toy_tree_bytes] expected_path_inject [of "hex g" "hex toy_tree_hash"]
    by (auto simp: store_read_def local_store_def store_with_keys_def backend_open_read_def remote_find_def
        relabel_not_found_def storage_key_def toy_tree_state1_def toy_tree_hash_def expected_path_def)
qed

lemma toy_tree_free1: "tree_free toy_trees (ts_store toy_tree_state1) []"
proof -
  let ?g = "compute (sha toy_env) TYPE_TAG_TREE"
  have "sha toy_env TYPE_TAG_TREE \<noteq> sha toy_env toy_tree_bytes" by code_simp
  then have "store_read toy_env (local_store toy_hmac None) (ts_store toy_tree_state1) ?g None = Inl (ObjectNotFound (hex ?g))"
    by (intro toy_tree_absent toy_hash64(2)) (simp add: toy_tree_hash_def compute_def)
  then show ?thesis
    by (simp add: tree_free_def toy_trees_def local_trees_def toy_json_def sorted_entries_def Let_def
        tree_serialise_def DECOMPRESS_MAX_def) (simp add: type_tags)
qed

theorem remove_navigate_witness:
  "\<exists>h st'. remove_entry toy_trees toy_tree_state1 toy_tree_hash [''b''] = Inr (Some h, st') \<and>
     navigate_entry toy_trees (ts_store st') h [''b''] = Inr None"
proof -
  have st: "backend_ok (ts_store toy_tree_state1)" "tstate_ok toy_trees toy_tree_state1"
    by (simp_all add: toy_tree_state1_def tstate_ok_def)
  have ld: "load_all_entries toy_trees toy_tree_state1 toy_tree_hash = Inr ([toy_blob], toy_tree_state1)"
    using toy_tree_read
    by (simp add: load_all_entries_def tree_cache_get_def tree_cache_put_def) (simp add: toy_tree_state1_def tree_cache_put_def)
  have f: "remove_free toy_trees toy_tree_state1 toy_tree_hash [''b'']"
    using ld toy_tree_free1 by (simp add: toy_blob_def)
  have "navigate_entry toy_trees (ts_store toy_tree_state1) toy_tree_hash [''b''] = Inr (Some toy_blob)"
    using toy_tree_read by (simp add: find_entry_in_tree_def toy_blob_def)
  with remove_navigate [OF toy_trees_def toy_tree_world st f toy_blob_valid] show ?thesis by auto
qed

end
