(* ===== verification/Flatten.thy ===== *)
theory Flatten
  imports TreeOps
begin

text \<open>
  The flattening functions of \<open>src/src/tree_ops.rs\<close> against navigation: the map a
  flattening returns holds exactly the entries that navigation by the same path finds.
\<close>

section \<open>Paths and their text\<close>

fun join_path :: "string list \<Rightarrow> string" where
  "join_path [] = []"
| "join_path [n] = n"
| "join_path (n # m # p) = n @ ''/'' @ join_path (m # p)"

lemma join_path_Cons: "p \<noteq> [] \<Longrightarrow> join_path (n # p) = n @ ''/'' @ join_path p"
  by (cases p) simp_all

lemma split_slash_nonempty [simp]: "split_slash q \<noteq> []"
  by (cases q) (auto split: list.splits)

lemma split_slash_name: "CHR ''/'' \<notin> set n \<Longrightarrow> split_slash n = [n]"
  by (induction n) auto

lemma split_slash_append: "CHR ''/'' \<notin> set n \<Longrightarrow> split_slash (n @ CHR ''/'' # q) = n # split_slash q"
  by (induction n) auto

lemma split_join: "p \<noteq> [] \<Longrightarrow> \<forall>n \<in> set p. CHR ''/'' \<notin> set n \<Longrightarrow> split_slash (join_path p) = p"
  by (induction p rule: join_path.induct) (auto simp: split_slash_name split_slash_append)

lemma join_split: "join_path (split_slash q) = q"
proof (induction q)
  case (Cons c q)
  then show ?case by (cases "split_slash q"; cases "tl (split_slash q)") (auto simp: join_path_Cons split: list.splits)
qed simp

lemma rel_path_join: "pre \<noteq> [] \<Longrightarrow> n \<noteq> [] \<Longrightarrow> p \<noteq> [] \<Longrightarrow> rel_path pre (join_path (n # p)) = rel_path (rel_path pre n) (join_path p)"
  by (simp add: rel_path_def join_path_Cons)

section \<open>The reference\<close>

text \<open>All blob and symlink entries below a tree with their paths, not crossing into children
  that the store does not hold.\<close>

fun leaves_of :: "(hash \<Rightarrow> (string list \<times> tree_entry) list) \<Rightarrow> tree_entry \<Rightarrow> (string list \<times> tree_entry) list" where
  "leaves_of f (TreeE nm c mt sz k) = map (\<lambda>(p, x). (nm # p, x)) (f c)"
| "leaves_of f e = [([ename e], e)]"

fun leaf_paths :: "nat \<Rightarrow> 's tree_ctx \<Rightarrow> 's \<Rightarrow> hash \<Rightarrow> (string list \<times> tree_entry) list" where
  "leaf_paths 0 cx s h = []"
| "leaf_paths (Suc n) cx s h =
     (case read_tree cx s h of Inl _ \<Rightarrow> []
      | Inr t \<Rightarrow> concat (map (leaves_of (\<lambda>c. if os_exists (tc_ops cx) s c = Inr True then leaf_paths n cx s c else []))
                  (entries t)))"

text \<open>A tree of nesting depth at most \<open>n\<close>: every tree object can be read and has distinct
  names, and no blob entry names a tree object; \<open>loc\<close> allows children that the store
  does not hold.\<close>

fun nested :: "bool \<Rightarrow> nat \<Rightarrow> 's tree_ctx \<Rightarrow> 's \<Rightarrow> hash \<Rightarrow> bool" where
  "nested loc 0 cx s h \<longleftrightarrow> False"
| "nested loc (Suc n) cx s h \<longleftrightarrow>
     (case read_tree cx s h of Inl _ \<Rightarrow> False
      | Inr t \<Rightarrow> distinct (map ename (entries t)) \<and>
          list_all (\<lambda>e. case e of
              TreeE _ c _ _ _ \<Rightarrow>
                (loc \<and> os_exists (tc_ops cx) s c = Inr False) \<or>
                os_exists (tc_ops cx) s c = Inr True \<and> nested loc n cx s c
            | Blob _ b _ _ _ \<Rightarrow> (case read_tree cx s b of Inl _ \<Rightarrow> True | Inr _ \<Rightarrow> False)
            | _ \<Rightarrow> True) (entries t))"

definition is_tree_entry :: "tree_entry \<Rightarrow> bool" where
  "is_tree_entry e = (case e of TreeE _ _ _ _ _ \<Rightarrow> True | _ \<Rightarrow> False)"

lemma nestedE:
  assumes "nested loc n cx s h"
  obtains m es where "n = Suc m" "read_tree cx s h = Inr (Normal es)" "distinct (map ename es)" "names_valid es"
    "\<And>nm c mt sz k. TreeE nm c mt sz k \<in> set es \<Longrightarrow>
       loc \<and> os_exists (tc_ops cx) s c = Inr False \<or> os_exists (tc_ops cx) s c = Inr True \<and> nested loc m cx s c"
    "\<And>nm b mt sz md t. Blob nm b mt sz md \<in> set es \<Longrightarrow> read_tree cx s b \<noteq> Inr t"
proof -
  from assms obtain m t where m: "n = Suc m" "read_tree cx s h = Inr t"
    by (cases n) (auto split: sum.splits)
  obtain es where t: "t = Normal es" by (cases t)
  note n = assms [unfolded m(1)]
  have "TreeE nm c mt sz k \<in> set es \<Longrightarrow>
      loc \<and> os_exists (tc_ops cx) s c = Inr False \<or> os_exists (tc_ops cx) s c = Inr True \<and> nested loc m cx s c"
    and "Blob nm b mt sz md \<in> set es \<Longrightarrow> read_tree cx s b \<noteq> Inr t'" for nm c mt sz k b md t'
    using n m(2) by (auto simp: t list_all_iff split: sum.splits)
  moreover have "distinct (map ename es)" using n m(2) t by simp
  ultimately show thesis using m t read_tree_names [of cx s h es] by (intro that [of m es]) simp_all
qed

lemma leaves_of_iff:
  "(p, x) \<in> set (leaves_of f e) \<longleftrightarrow> \<not> is_tree_entry e \<and> p = [ename e] \<and> x = e \<or>
     (\<exists>nm c mt sz k p'. e = TreeE nm c mt sz k \<and> p = nm # p' \<and> (p', x) \<in> set (f c))"
  by (cases e) (auto simp: is_tree_entry_def)

lemma leaf_paths_Suc:
  assumes "read_tree cx s h = Inr (Normal es)"
  shows "(p, x) \<in> set (leaf_paths (Suc n) cx s h) \<longleftrightarrow>
    (\<exists>e \<in> set es. \<not> is_tree_entry e \<and> p = [ename e] \<and> x = e) \<or>
    (\<exists>nm c mt sz k p'. TreeE nm c mt sz k \<in> set es \<and> p = nm # p' \<and> os_exists (tc_ops cx) s c = Inr True \<and>
       (p', x) \<in> set (leaf_paths n cx s c))"
  using assms by (auto simp: leaves_of_iff split: if_splits) blast+

lemma leaf_paths_nonempty: "(p, e) \<in> set (leaf_paths n cx s h) \<Longrightarrow> p \<noteq> []"
  by (cases n) (auto simp: leaves_of_iff split: sum.splits)

lemma navigate_entry_Some:
  assumes "read_tree cx s h = Inr (Normal es)" "distinct (map ename es)"
  shows "navigate_entry cx s h (n # q) = Inr (Some x) \<longleftrightarrow>
    (\<exists>e \<in> set es. ename e = n \<and> (if q = [] then x = e else \<exists>c. entry_hash e = Some c \<and> navigate_entry cx s c q = Inr (Some x)))"
proof (cases "find (\<lambda>e. ename e = n) es")
  case None
  then have "\<forall>e \<in> set es. ename e \<noteq> n" by (simp add: find_None_iff)
  with None show ?thesis by (simp add: navigate_entry_Cons [OF assms(1)] del: navigate_entry.simps(2))
next
  case (Some e)
  then have e: "e \<in> set es" "ename e = n" by (simp_all add: find_by_key [OF assms(2)])
  have "e' = e" if "e' \<in> set es" "ename e' = n" for e'
    using that e assms(2) by (auto simp: distinct_map inj_on_def)
  then have "(\<exists>e' \<in> set es. ename e' = n \<and> P e') \<longleftrightarrow> P e" for P using e by blast
  with Some show ?thesis
    by (auto simp add: navigate_entry_Cons [OF assms(1)] simp del: navigate_entry.simps(2) split: option.splits)
qed

context store_laws
begin

lemma read_tree_hash: "read_tree cx s h = Inr t \<Longrightarrow> digest32 (sha (tc_env cx)) \<Longrightarrow> hash_ok h"
  by (auto simp: read_tree_def rbind_Inr_iff compute_def digest32_def split: if_splits)

lemma read_missing:
  assumes "inv s" "tc_ops cx = S" "os_exists S s h = Inr False" "digest32 (sha (tc_env cx))"
  shows "read_tree cx s h \<noteq> Inr t"
proof
  assume r: "read_tree cx s h = Inr t"
  from read_tree_hash [OF this assms(4)] have h: "hash_ok h" .
  with assms exists_view [OF assms(1) h] have "store_read (tc_env cx) S s h None = Inl (ObjectNotFound (hex h))"
    by (simp add: store_read_absent)
  with r show False by (simp add: read_tree_def assms(2))
qed

lemma navigate_missing:
  assumes "inv s" "tc_ops cx = S" "os_exists S s h = Inr False" "digest32 (sha (tc_env cx))"
  shows "navigate_entry cx s h p \<noteq> Inr (Some x)"
  using read_missing [OF assms] by (cases p) (auto simp: find_entry_in_tree_def rbind_Inr_iff)

lemma navigate_leaf:
  assumes "\<And>nm b mt sz md t. e = Blob nm b mt sz md \<Longrightarrow> read_tree cx s b \<noteq> Inr t" "\<not> is_tree_entry e" "entry_hash e = Some c"
  shows "navigate_entry cx s c q \<noteq> Inr (Some x)"
proof -
  from assms have "read_tree cx s c \<noteq> Inr t" for t by (cases e) (auto simp: is_tree_entry_def)
  then show ?thesis by (cases q) (auto simp: find_entry_in_tree_def rbind_Inr_iff)
qed

text \<open>The reference lists exactly what navigation finds.\<close>

lemma leaf_paths_iff:
  assumes i: "inv s" "tc_ops cx = S" "digest32 (sha (tc_env cx))" and n: "nested loc n cx s h"
  shows "(p, x) \<in> set (leaf_paths n cx s h) \<longleftrightarrow> navigate_entry cx s h p = Inr (Some x) \<and> \<not> is_tree_entry x"
  using n
proof (induction n arbitrary: h p)
  case (Suc n)
  from Suc.prems obtain es where es: "read_tree cx s h = Inr (Normal es)" "distinct (map ename es)"
    and tr: "\<And>nm c mt sz k. TreeE nm c mt sz k \<in> set es \<Longrightarrow>
       loc \<and> os_exists (tc_ops cx) s c = Inr False \<or> os_exists (tc_ops cx) s c = Inr True \<and> nested loc n cx s c"
    and bl: "\<And>nm b mt sz md t. Blob nm b mt sz md \<in> set es \<Longrightarrow> read_tree cx s b \<noteq> Inr t"
    by (rule nestedE) simp
  show ?case
  proof (cases p)
    case Nil
    then show ?thesis using leaf_paths_nonempty [of p x "Suc n" cx s h] by auto
  next
    case (Cons m q)
    have sub: "navigate_entry cx s c q = Inr (Some x) \<and> \<not> is_tree_entry x \<longleftrightarrow>
        os_exists (tc_ops cx) s c = Inr True \<and> (q, x) \<in> set (leaf_paths n cx s c)"
      if "TreeE nm c mt sz k \<in> set es" for nm c mt sz k
      using tr [OF that] Suc.IH [of c q] navigate_missing [OF i(1,2) _ i(3), of c q x] i(2) by auto
    have leaf: "\<not> (entry_hash e = Some c \<and> navigate_entry cx s c q = Inr (Some x))"
      if "e \<in> set es" "\<not> is_tree_entry e" for e c
      using navigate_leaf [of e cx s c q x] that bl by blast
    have "(p, x) \<in> set (leaf_paths (Suc n) cx s h) \<longleftrightarrow>
      (\<exists>e \<in> set es. ename e = m \<and> (if q = [] then x = e else \<exists>c. entry_hash e = Some c \<and> navigate_entry cx s c q = Inr (Some x))) \<and>
        \<not> is_tree_entry x" (is "?l \<longleftrightarrow> ?r")
    proof
      assume ?l
      then consider (leaf) e where "e \<in> set es" "\<not> is_tree_entry e" "p = [ename e]" "x = e"
        | (tree) nm c mt sz k p' where "TreeE nm c mt sz k \<in> set es" "p = nm # p'"
            "os_exists (tc_ops cx) s c = Inr True" "(p', x) \<in> set (leaf_paths n cx s c)"
        unfolding leaf_paths_Suc [OF es(1)] by blast
      then show ?r
      proof cases
        case leaf
        then show ?thesis using Cons by auto
      next
        case tree
        then have q: "p' = q" "nm = m" using Cons by simp_all
        with tree sub [OF tree(1)] have "navigate_entry cx s c q = Inr (Some x)" "\<not> is_tree_entry x" by simp_all
        moreover have "q \<noteq> []" using leaf_paths_nonempty [OF tree(4)] q by simp
        ultimately show ?thesis using tree(1) q by (intro conjI bexI [of _ "TreeE nm c mt sz k"]) simp_all
      qed
    next
      assume r: ?r
      then obtain e where e: "e \<in> set es" "ename e = m" and
        nav: "if q = [] then x = e else \<exists>c. entry_hash e = Some c \<and> navigate_entry cx s c q = Inr (Some x)" by blast
      show ?l
      proof (cases e)
        case (TreeE nm c mt sz k)
        with e nav r sub [of nm c mt sz k] show ?thesis unfolding leaf_paths_Suc [OF es(1)] Cons
          by (auto simp: is_tree_entry_def split: if_splits)
      qed (use e nav r leaf [of e] in \<open>auto simp: leaf_paths_Suc [OF es(1)] Cons is_tree_entry_def simp del: leaf_paths.simps split: if_splits\<close>)
    qed
    then show ?thesis unfolding Cons navigate_entry_Some [OF es] .
  qed
qed simp


end

section \<open>The flattening functions list the reference\<close>

lemma rfold_collect:
  assumes "\<And>e out st. e \<in> set es \<Longrightarrow> I st \<Longrightarrow> \<exists>st'. F e (out, st) = Inr (out @ g e, st') \<and> I st'" "I st"
  shows "\<exists>st'. rfold F es (out, st) = Inr (out @ concat (map g es), st') \<and> I st'"
  using assms
proof (induction es arbitrary: out st)
  case (Cons e es)
  from Cons.prems(1) [of e st out] Cons.prems(2) obtain st1 where st1: "F e (out, st) = Inr (out @ g e, st1)" "I st1" by auto
  from Cons.IH [of st1 "out @ g e"] Cons.prems(1) st1(2) show ?case by (simp add: st1(1))
qed simp

definition under :: "string \<Rightarrow> (string list \<times> tree_entry) list \<Rightarrow> flat_map" where
  "under pre ps = map (\<lambda>(p, x). (rel_path pre (join_path p), x)) ps"

lemma under_child:
  assumes "nm \<noteq> []"
  shows "under pre (map (\<lambda>(p, x). (nm # p, x)) (leaf_paths n cx s c)) = under (rel_path pre nm) (leaf_paths n cx s c)"
  using assms leaf_paths_nonempty [of _ _ n cx s c] by (auto simp: under_def rel_path_def join_path_Cons)

lemma leaf_paths_under:
  assumes "read_tree cx s h = Inr (Normal es)"
  shows "under pre (leaf_paths (Suc n) cx s h) =
    concat (map (\<lambda>e. under pre (leaves_of (\<lambda>c. if os_exists (tc_ops cx) s c = Inr True then leaf_paths n cx s c else []) e)) es)"
  using assms by (simp add: under_def map_concat o_def)

lemma flatten_local_ok:
  assumes "nested loc n cx (ts_store st) h" "tstate_ok cx st"
  shows "\<exists>st'. flatten_local_into n cx h pre (out, st) = Inr (out @ under pre (leaf_paths n cx (ts_store st) h), st') \<and>
    ts_store st' = ts_store st \<and> tstate_ok cx st'"
  using assms
proof (induction n arbitrary: h pre out st)
  case (Suc n)
  let ?s = "ts_store st"
  from Suc.prems(1) obtain es where es: "read_tree cx ?s h = Inr (Normal es)" "names_valid es"
    and tr: "\<And>nm c mt sz k. TreeE nm c mt sz k \<in> set es \<Longrightarrow>
       loc \<and> os_exists (tc_ops cx) ?s c = Inr False \<or> os_exists (tc_ops cx) ?s c = Inr True \<and> nested loc n cx ?s c"
    by (rule nestedE) simp
  from load_entries_ok [OF Suc.prems(2) es(1)] obtain st1 where
    ld: "load_all_entries cx st h = Inr (es, st1)" "ts_store st1 = ?s" "tstate_ok cx st1" by blast
  let ?I = "\<lambda>st'. ts_store st' = ?s \<and> tstate_ok cx st'"
  let ?g = "\<lambda>c. if os_exists (tc_ops cx) ?s c = Inr True then leaf_paths n cx ?s c else []"
  let ?F = "\<lambda>e (out, st). case e of TreeE nm child _ _ _ \<Rightarrow>
      rbind (os_exists (tc_ops cx) (ts_store st) child) (\<lambda>ex.
        if ex then flatten_local_into n cx child (rel_path pre nm) (out, st) else Inr (out, st))
      | _ \<Rightarrow> Inr (out @ [(rel_path pre (ename e), e)], st)"
  have "\<exists>st'. ?F e (out', st2) = Inr (out' @ under pre (leaves_of ?g e), st') \<and> ?I st'"
    if e: "e \<in> set es" and i: "?I st2" for e out' st2
  proof (cases e)
    case (TreeE nm c mt sz k)
    from e TreeE es(2) have nm: "nm \<noteq> []" by (auto simp: names_valid_def validate_entry_name_iff)
    from tr [of nm c mt sz k] e TreeE consider "os_exists (tc_ops cx) ?s c = Inr False"
      | "os_exists (tc_ops cx) ?s c = Inr True" "nested loc n cx ?s c" by auto
    then show ?thesis
    proof cases
      case 1
      with i TreeE show ?thesis by (simp add: under_def)
    next
      case 2
      with i Suc.IH [of st2 c "rel_path pre nm" out'] TreeE show ?thesis by (simp add: under_child [OF nm])
    qed
  qed (use i in \<open>auto simp: under_def\<close>)
  from rfold_collect [where I = ?I and F = ?F and g = "\<lambda>e. under pre (leaves_of ?g e)", OF this] ld(2,3)
  show ?case by (simp add: ld(1) leaf_paths_under [OF es(1)] del: leaf_paths.simps)
qed simp

text \<open>With every child present the two loops do the same.\<close>

lemma flatten_ok:
  assumes "nested False n cx (ts_store st) h" "tstate_ok cx st"
  shows "\<exists>st'. flatten_into n cx h pre (out, st) = Inr (out @ under pre (leaf_paths n cx (ts_store st) h), st') \<and>
    ts_store st' = ts_store st \<and> tstate_ok cx st'"
  using assms
proof (induction n arbitrary: h pre out st)
  case (Suc n)
  let ?s = "ts_store st"
  from Suc.prems(1) obtain es where es: "read_tree cx ?s h = Inr (Normal es)" "names_valid es"
    and tr: "\<And>nm c mt sz k. TreeE nm c mt sz k \<in> set es \<Longrightarrow> os_exists (tc_ops cx) ?s c = Inr True \<and> nested False n cx ?s c"
    by (rule nestedE) simp
  from load_entries_ok [OF Suc.prems(2) es(1)] obtain st1 where
    ld: "load_all_entries cx st h = Inr (es, st1)" "ts_store st1 = ?s" "tstate_ok cx st1" by blast
  let ?I = "\<lambda>st'. ts_store st' = ?s \<and> tstate_ok cx st'"
  let ?g = "\<lambda>c. if os_exists (tc_ops cx) ?s c = Inr True then leaf_paths n cx ?s c else []"
  let ?F = "\<lambda>e (out, st). case e of TreeE nm child _ _ _ \<Rightarrow> flatten_into n cx child (rel_path pre nm) (out, st)
      | _ \<Rightarrow> Inr (out @ [(rel_path pre (ename e), e)], st)"
  have "\<exists>st'. ?F e (out', st2) = Inr (out' @ under pre (leaves_of ?g e), st') \<and> ?I st'"
    if e: "e \<in> set es" and i: "?I st2" for e out' st2
  proof (cases e)
    case (TreeE nm c mt sz k)
    from e TreeE es(2) have nm: "nm \<noteq> []" by (auto simp: names_valid_def validate_entry_name_iff)
    from tr [of nm c mt sz k] e TreeE have "os_exists (tc_ops cx) ?s c = Inr True" "nested False n cx ?s c" by auto
    with i Suc.IH [of st2 c "rel_path pre nm" out'] TreeE show ?thesis by (simp add: under_child [OF nm])
  qed (use i in \<open>auto simp: under_def\<close>)
  from rfold_collect [where I = ?I and F = ?F and g = "\<lambda>e. under pre (leaves_of ?g e)", OF this] ld(2,3)
  show ?case by (simp add: ld(1) leaf_paths_under [OF es(1)] del: leaf_paths.simps)
qed simp

lemma leaf_paths_names:
  assumes "nested loc n cx s h" "(p, x) \<in> set (leaf_paths n cx s h)" "m \<in> set p"
  shows "CHR ''/'' \<notin> set m"
  using assms
proof (induction n arbitrary: h p)
  case (Suc n)
  from Suc.prems(1) obtain es where es: "read_tree cx s h = Inr (Normal es)" "names_valid es"
    and tr: "\<And>nm c mt sz k. TreeE nm c mt sz k \<in> set es \<Longrightarrow>
       loc \<and> os_exists (tc_ops cx) s c = Inr False \<or> os_exists (tc_ops cx) s c = Inr True \<and> nested loc n cx s c"
    by (rule nestedE) simp
  have ok: "CHR ''/'' \<notin> set (ename e)" if "e \<in> set es" for e
    using that es(2) by (auto simp: names_valid_def validate_entry_name_iff)
  from Suc.prems(2) consider (leaf) e where "e \<in> set es" "p = [ename e]"
    | (tree) nm c mt sz k p' where "TreeE nm c mt sz k \<in> set es" "p = nm # p'"
        "os_exists (tc_ops cx) s c = Inr True" "(p', x) \<in> set (leaf_paths n cx s c)"
    unfolding leaf_paths_Suc [OF es(1)] by blast
  then show ?case
  proof cases
    case leaf
    with ok Suc.prems(3) show ?thesis by simp
  next
    case tree
    with tr [OF tree(1)] Suc.IH [of c p'] ok [OF tree(1)] Suc.prems(3) show ?thesis by auto
  qed
qed simp

lemma leaf_paths_text:
  assumes "nested loc n cx s h"
  shows "(q, x) \<in> set (under [] (leaf_paths n cx s h)) \<longleftrightarrow> (split_slash q, x) \<in> set (leaf_paths n cx s h)"
proof
  assume "(q, x) \<in> set (under [] (leaf_paths n cx s h))"
  then obtain p where p: "q = join_path p" "(p, x) \<in> set (leaf_paths n cx s h)" by (auto simp: under_def rel_path_def)
  with split_join [of p] leaf_paths_names [OF assms p(2)] leaf_paths_nonempty [OF p(2)] show
    "(split_slash q, x) \<in> set (leaf_paths n cx s h)" by auto
next
  assume "(split_slash q, x) \<in> set (leaf_paths n cx s h)"
  then show "(q, x) \<in> set (under [] (leaf_paths n cx s h))"
    by (force simp: under_def rel_path_def join_split)
qed

text \<open>C24: flattening a snapshot with fuel for its nesting depth succeeds, leaves the store as
  it is, and returns exactly the blob and symlink entries that navigation by the parts of
  the path finds: nothing is invented, lost or given under another path. The local
  flattening does the same on a snapshot of which only a part was fetched, and both agree
  where everything is present.\<close>

theorem flatten_exact:
  assumes "cx = local_trees E hmac to_json from_json" and "tree_world cx" and "backend_ok (ts_store st)"
    and "tstate_ok cx st" and "nested partial fuel cx (ts_store st) root"
  shows "\<exists>out st'. flatten_tree_entries_local fuel cx st root = Inr (out, st') \<and> ts_store st' = ts_store st \<and> tstate_ok cx st' \<and>
    (\<forall>p e. (p, e) \<in> set out \<longleftrightarrow>
       navigate_entry cx (ts_store st) root (split_slash p) = Inr (Some e) \<and> \<not> is_tree_entry e) \<and>
    (\<not> partial \<longrightarrow> (\<exists>st2. flatten_tree_entries fuel cx st root = Inr (out, st2) \<and> ts_store st2 = ts_store st))"
proof -
  have ops: "tc_ops cx = local_store hmac None" using assms(1) by (simp add: local_trees_def)
  have d: "digest32 (sha (tc_env cx))" using assms(2) by (simp add: tree_world_def)
  let ?out = "under [] (leaf_paths fuel cx (ts_store st) root)"
  have iff: "(p, e) \<in> set ?out \<longleftrightarrow> navigate_entry cx (ts_store st) root (split_slash p) = Inr (Some e) \<and> \<not> is_tree_entry e" for p e
    using leaf_paths_text [OF assms(5)] store_laws.leaf_paths_iff [OF local_trees_laws assms(3) ops d assms(5)] by simp
  from flatten_local_ok [OF assms(5,4), of "[]" "[]"] obtain st' where
    l: "flatten_tree_entries_local fuel cx st root = Inr (?out, st')" "ts_store st' = ts_store st" "tstate_ok cx st'"
    by (auto simp: flatten_tree_entries_local_def)
  have "\<exists>st2. flatten_tree_entries fuel cx st root = Inr (?out, st2) \<and> ts_store st2 = ts_store st" if "\<not> partial"
    using flatten_ok [of fuel cx st root "[]" "[]"] assms(4,5) that by (auto simp: flatten_tree_entries_def)
  with l iff show ?thesis by blast
qed

lemma toy_state1_ok: "backend_ok (ts_store toy_tree_state1)" "tstate_ok toy_trees toy_tree_state1"
  by (simp_all add: toy_tree_state1_def tstate_ok_def)

lemma toy_nested: "nested loc 1 toy_trees (ts_store toy_tree_state1) toy_tree_hash"
proof -
  have "read_tree toy_trees (ts_store toy_tree_state1) toy_hash \<noteq> Inr t" for t
    using toy_tree_absent [OF toy_hash_ok] by (simp add: read_tree_def toy_trees_def local_trees_def) code_simp
  then show ?thesis using toy_tree_read by (simp add: toy_blob_def split: sum.splits)
qed

lemma toy_navigate: "navigate_entry toy_trees (ts_store toy_tree_state1) toy_tree_hash [''b''] = Inr (Some toy_blob)"
  using toy_tree_read by (simp add: find_entry_in_tree_def toy_blob_def)

theorem flatten_exact_witness:
  "\<exists>out st'. flatten_tree_entries_local 1 toy_trees toy_tree_state1 toy_tree_hash = Inr (out, st') \<and> (''b'', toy_blob) \<in> set out"
proof -
  have "\<not> is_tree_entry toy_blob" "split_slash ''b'' = [''b'']" by (simp_all add: toy_blob_def is_tree_entry_def)
  with flatten_exact [OF toy_trees_def toy_tree_world toy_state1_ok toy_nested] toy_navigate show ?thesis by metis
qed

end
