(* ===== verification/LineMerge.thy ===== *)
theory LineMerge
  imports Prelude "HOL-Library.Multiset"
begin

text \<open>
  The three-way line merge of \<open>src/src/line_merge.rs\<close>: splitting into logical
  records, the aggregation of a diff into kept and changed segments, the conflict test, the
  survivors of the base, the timestamps and the ordering. The diff (the \<open>similar\<close>
  crate) is a parameter: \<open>script\<close> says that its operations cover both sides in
  order. Indexing and slicing out of range panic in the code and are \<open>None\<close> here.
\<close>

section \<open>Lines\<close>

type_synonym line = bytes
type_synonym range = "nat \<times> nat"

text \<open>The first loop: \<open>start\<close> is where the current physical line began, \<open>i\<close> the position.\<close>

fun phys_loop :: "nat \<Rightarrow> nat \<Rightarrow> bytes \<Rightarrow> range list" where
  "phys_loop start i [] = (if start < i then [(start, i)] else [])"
| "phys_loop start i (b # bs) =
     (if b = 10 then (start, i) # phys_loop (i + 1) (i + 1) bs else phys_loop start (i + 1) bs)"

definition at_range :: "bytes \<Rightarrow> range \<Rightarrow> line" where
  "at_range content r = subslice (fst r) (snd r) content"

definition ends_backslash :: "line \<Rightarrow> bool" where
  "ends_backslash l \<longleftrightarrow> l \<noteq> [] \<and> last l = 92"

text \<open>The inner loop: the end of the run that starts at a physical line, and what follows it.\<close>

fun run_end :: "bytes \<Rightarrow> range \<Rightarrow> range list \<Rightarrow> nat \<times> range list" where
  "run_end content r [] = (snd r, [])"
| "run_end content r (q # qs) =
     (if ends_backslash (at_range content r) then run_end content q qs else (snd r, q # qs))"

lemma run_end_shorter: "run_end content r qs = (e, rest) \<Longrightarrow> length rest \<le> length qs"
  by (induction qs arbitrary: r) (auto split: if_splits intro: le_SucI)

function logical_loop :: "bytes \<Rightarrow> range list \<Rightarrow> range list" where
  "logical_loop content [] = []"
| "logical_loop content (r # qs) =
     (case run_end content r qs of (e, rest) \<Rightarrow> (fst r, e) # logical_loop content rest)"
  by pat_completeness auto
termination
  by (relation "measure (\<lambda>(_, rs). length rs)") (auto dest: run_end_shorter [OF sym])

definition split_lines :: "bytes \<Rightarrow> line list" where
  "split_lines content =
     (if content = [] then [] else map (at_range content) (logical_loop content (phys_loop 0 0 content)))"

fun join_with :: "line list \<Rightarrow> bytes" where
  "join_with [] = []"
| "join_with [l] = l"
| "join_with (l # m # ls) = l @ [10] @ join_with (m # ls)"

definition join_lines :: "line list \<Rightarrow> bytes" where
  "join_lines ls = join_with ls @ (if ls = [] then [] else [10])"

section \<open>Segments\<close>

text \<open>The operations of \<open>similar::DiffOp\<close>.\<close>

datatype diff_op =
    Equal (old_index: nat) (new_index: nat) (len: nat)
  | Delete (old_index: nat) (old_len: nat) (new_index: nat)
  | Insert (old_index: nat) (new_index: nat) (new_len: nat)
  | Replace (old_index: nat) (old_len: nat) (new_index: nat) (new_len: nat)

record change_segment =
  base_start :: nat
  base_end :: nat
  other_lines :: "line list"

datatype segment = Keep nat nat | Change change_segment

definition slice_opt :: "'a list \<Rightarrow> nat \<Rightarrow> nat \<Rightarrow> 'a list option" where
  "slice_opt xs i j = (if i \<le> j \<and> j \<le> length xs then Some (subslice i j xs) else None)"

definition flush :: "change_segment option \<Rightarrow> segment list \<Rightarrow> segment list" where
  "flush pending segs = (case pending of None \<Rightarrow> segs | Some c \<Rightarrow> segs @ [Change c])"

definition extend_range :: "change_segment option \<Rightarrow> nat \<Rightarrow> nat \<Rightarrow> change_segment" where
  "extend_range pending s e =
     (case pending of
        Some c \<Rightarrow> c\<lparr>base_start := min (base_start c) s, base_end := max (base_end c) e\<rparr>
      | None \<Rightarrow> \<lparr>base_start = s, base_end = e, other_lines = []\<rparr>)"

definition add_lines :: "change_segment \<Rightarrow> line list \<Rightarrow> change_segment" where
  "add_lines c ls = c\<lparr>other_lines := other_lines c @ ls\<rparr>"

fun aggregate_loop ::
    "line list \<Rightarrow> diff_op list \<Rightarrow> change_segment option \<Rightarrow> segment list \<Rightarrow> segment list option" where
  "aggregate_loop other [] pending segs = Some (flush pending segs)"
| "aggregate_loop other (Equal oi ni n # ops) pending segs =
     aggregate_loop other ops None (flush pending segs @ [Keep oi (oi + n)])"
| "aggregate_loop other (Delete oi ol ni # ops) pending segs =
     aggregate_loop other ops (Some (extend_range pending oi (oi + ol))) segs"
| "aggregate_loop other (Insert oi ni nl # ops) pending segs =
     (case slice_opt other ni (ni + nl) of None \<Rightarrow> None
      | Some ls \<Rightarrow> aggregate_loop other ops (Some (add_lines (extend_range pending oi oi) ls)) segs)"
| "aggregate_loop other (Replace oi ol ni nl # ops) pending segs =
     (case slice_opt other ni (ni + nl) of None \<Rightarrow> None
      | Some ls \<Rightarrow> aggregate_loop other ops (Some (add_lines (extend_range pending oi (oi + ol)) ls)) segs)"

definition aggregate_segments :: "diff_op list \<Rightarrow> line list \<Rightarrow> segment list option" where
  "aggregate_segments ops other = aggregate_loop other ops None []"

definition ranges_overlap :: "change_segment \<Rightarrow> change_segment \<Rightarrow> bool" where
  "ranges_overlap a b \<longleftrightarrow> max (base_start a) (base_start b) < min (base_end a) (base_end b)"

fun as_change :: "segment \<Rightarrow> change_segment option" where
  "as_change (Change c) = Some c"
| "as_change (Keep _ _) = None"

definition replacing :: "segment list \<Rightarrow> change_segment list" where
  "replacing segs = filter (\<lambda>c. other_lines c \<noteq> []) (List.map_filter as_change segs)"

definition has_conflict :: "segment list \<Rightarrow> segment list \<Rightarrow> bool" where
  "has_conflict ls rs \<longleftrightarrow> (\<exists>l \<in> set (replacing ls). \<exists>r \<in> set (replacing rs). ranges_overlap l r)"

fun mark_range :: "nat \<Rightarrow> nat \<Rightarrow> bool list \<Rightarrow> bool list option" where
  "mark_range i 0 kept = Some kept"
| "mark_range i (Suc n) kept = (if i < length kept then mark_range (i + 1) n (kept[i := True]) else None)"

fun mark_kept :: "segment list \<Rightarrow> bool list \<Rightarrow> bool list option" where
  "mark_kept [] kept = Some kept"
| "mark_kept (Keep i j # segs) kept =
     (case mark_range i (j - i) kept of None \<Rightarrow> None | Some kept \<Rightarrow> mark_kept segs kept)"
| "mark_kept (Change _ # segs) kept = mark_kept segs kept"

definition policy_a_survivors :: "line list \<Rightarrow> segment list \<Rightarrow> segment list \<Rightarrow> line list option" where
  "policy_a_survivors base ls rs =
     Option.bind (mark_kept ls (replicate (length base) False)) (\<lambda>kept.
     Option.bind (mark_kept rs kept) (\<lambda>kept.
       Some (map snd (filter (\<lambda>(i, _). kept ! i) (enumerate 0 base)))))"

definition changed_other_lines :: "segment list \<Rightarrow> line list" where
  "changed_other_lines segs = concat (map other_lines (List.map_filter as_change segs))"

section \<open>Timestamps\<close>

definition is_ascii_digit :: "u8 \<Rightarrow> bool" where
  "is_ascii_digit b \<longleftrightarrow> 48 \<le> b \<and> b \<le> 57"

definition decimal :: "bytes \<Rightarrow> nat" where
  "decimal ds = foldl (\<lambda>n d. 10 * n + unat (d - 48)) 0 ds"

text \<open>\<open>parse::<i64>\<close> of decimal digits fails on overflow.\<close>

definition parse_i64 :: "bytes \<Rightarrow> int option" where
  "parse_i64 ds = (if decimal ds < 2 ^ 63 then Some (int (decimal ds)) else None)"

definition parse_extended_history_timestamp :: "line \<Rightarrow> int option" where
  "parse_extended_history_timestamp line =
     Option.bind (strip_prefix [58, 32] line) (\<lambda>rest.
     Option.bind (position (\<lambda>b. b = 58) rest) (\<lambda>colon.
       let epoch_bytes = take colon rest
       in if epoch_bytes = [] \<or> \<not> list_all is_ascii_digit epoch_bytes then None
          else let after_colon = drop (colon + 1) rest
               in Option.bind (position (\<lambda>b. b = 59) after_colon) (\<lambda>semicolon.
                    let duration_bytes = take semicolon after_colon
                    in if duration_bytes = [] \<or> \<not> list_all is_ascii_digit duration_bytes then None
                       else parse_i64 epoch_bytes)))"

definition sort_stamp :: "line \<Rightarrow> int" where
  "sort_stamp line = (case parse_extended_history_timestamp line of Some t \<Rightarrow> t | None \<Rightarrow> - (2 ^ 63))"

section \<open>The merge\<close>

datatype merge_outcome = Clean bytes | Conflicted

definition merge_order :: "line list \<Rightarrow> line list \<Rightarrow> line list" where
  "merge_order seen merged =
     (if list_ex (\<lambda>l. parse_extended_history_timestamp l \<noteq> None) seen then sort_key sort_stamp merged else merged)"

definition line_merge ::
    "(line list \<Rightarrow> line list \<Rightarrow> diff_op list) \<Rightarrow> bytes \<Rightarrow> bytes \<Rightarrow> bytes \<Rightarrow> merge_outcome option" where
  "line_merge diff base local remote =
     (let base_lines = split_lines base; local_lines = split_lines local; remote_lines = split_lines remote
      in Option.bind (aggregate_segments (diff base_lines local_lines) local_lines) (\<lambda>ls.
         Option.bind (aggregate_segments (diff base_lines remote_lines) remote_lines) (\<lambda>rs.
           if has_conflict ls rs then Some Conflicted
           else Option.bind (policy_a_survivors base_lines ls rs) (\<lambda>kept.
             Some (Clean (join_lines (merge_order (base_lines @ local_lines @ remote_lines)
               (kept @ changed_other_lines ls @ changed_other_lines rs))))))))"

section \<open>Splitting and joining\<close>

text \<open>Ranges that cut the rest of the content from position \<open>a\<close> at newlines.\<close>

fun chain :: "bytes \<Rightarrow> nat \<Rightarrow> range list \<Rightarrow> bool" where
  "chain c a [] \<longleftrightarrow> a = length c"
| "chain c a ((s, e) # rs) \<longleftrightarrow> s = a \<and> s \<le> e \<and>
     (e < length c \<and> c ! e = 10 \<and> chain c (e + 1) rs \<or> e = length c \<and> rs = [] \<and> s < e \<and> last c \<noteq> 10)"

lemma phys_loop_chain:
  assumes "start \<le> i" "i + length bs = length c" "drop i c = bs" "\<forall>k. start \<le> k \<longrightarrow> k < i \<longrightarrow> c ! k \<noteq> 10"
  shows "chain c start (phys_loop start i bs)"
  using assms
proof (induction bs arbitrary: start i)
  case Nil
  then have "i = length c" by simp
  moreover have "last c \<noteq> 10" if "start < length c"
    using Nil.prems(4) that \<open>i = length c\<close> last_conv_nth [of c] by (cases "c = []") auto
  ultimately show ?case using Nil.prems(1) by auto
next
  case (Cons b bs)
  then have "c ! i = b" "drop (Suc i) c = bs" by (metis nth_via_drop, metis drop_Suc_Cons drop_drop plus_1_eq_Suc drop_0)
  with Cons.IH [of "Suc i" "Suc i"] Cons.IH [of start "Suc i"] Cons.prems show ?case by (auto simp: less_Suc_eq)
qed

lemma chain_bound: "chain c a rs \<Longrightarrow> a \<le> length c"
  by (cases rs) auto

lemma run_end_chain:
  assumes "chain c a ((s, e) # qs)" "run_end c (s, e) qs = (e', rest)"
  shows "chain c a ((s, e') # rest)"
  using assms
proof (induction qs arbitrary: a s e)
  case (Cons q qs)
  obtain s2 e2 where q: "q = (s2, e2)" by (cases q)
  show ?case
  proof (cases "ends_backslash (at_range c (s, e))")
    case True
    with Cons.prems q have "run_end c (s2, e2) qs = (e', rest)" "chain c (e + 1) ((s2, e2) # qs)" "s = a" "s \<le> e"
      by auto
    with Cons.IH [of "e + 1" s2 e2] show ?thesis by auto
  next
    case False
    with Cons.prems q have "e' = e" "rest = (s2, e2) # qs" by auto
    with Cons.prems(1) q show ?thesis by auto
  qed
qed simp

lemma logical_loop_chain: "chain c a rs \<Longrightarrow> chain c a (logical_loop c rs)"
proof (induction c rs arbitrary: a rule: logical_loop.induct)
  case (2 content r qs)
  obtain s e e' rest where r: "r = (s, e)" "run_end content r qs = (e', rest)" by (cases r; cases "run_end content r qs") auto
  from run_end_chain [of content a s e qs e' rest] "2.prems" [unfolded r(1)] r(2) [unfolded r(1)] have "chain content a ((s, e') # rest)" by blast
  with "2.IH" [OF r(2) [symmetric]] r show ?case by (auto simp del: run_end.simps)
qed simp

lemma join_with_Cons: "ls \<noteq> [] \<Longrightarrow> join_with (l # ls) = l @ [10] @ join_with ls"
  by (cases ls) simp_all

definition terminated :: "bytes \<Rightarrow> bytes" where
  "terminated c = (if c = [] \<or> last c = 10 then c else c @ [10])"

lemma at_range_pair: "at_range c (s, e) = subslice s e c"
  by (simp add: at_range_def)

lemma chain_join: "chain c a rs \<Longrightarrow> a < length c \<Longrightarrow> join_lines (map (at_range c) rs) = terminated (drop a c)"
proof (induction rs arbitrary: a)
  case (Cons r rs)
  obtain s e where r: "r = (s, e)" by (cases r)
  with Cons.prems have s: "s = a" "a \<le> e" by auto
  show ?case
  proof (cases "e = length c \<and> rs = []")
    case True
    with Cons.prems(1) r have "last c \<noteq> 10" by auto
    moreover have "drop a c = subslice a e c" using True drop_subslice [OF s(2), of c] by simp
    moreover have "drop a c \<noteq> []" "last (drop a c) = last c" using Cons.prems(2) by simp_all
    ultimately show ?thesis using True r s by (simp add: join_lines_def terminated_def at_range_def)
  next
    case False
    with Cons.prems r have e: "e < length c" "c ! e = 10" "chain c (e + 1) rs" by auto
    have d: "drop a c = subslice a e c @ 10 # drop (e + 1) c"
      using drop_subslice [OF s(2), of c] e(1,2) by (simp add: Cons_nth_drop_Suc [symmetric])
    show ?thesis
    proof (cases rs)
      case Nil
      then show ?thesis using e d r s by (simp add: join_lines_def terminated_def at_range_def)
    next
      case (Cons q qs)
      then have "e + 1 < length c" using e(3) by (cases q) auto
      with Cons.IH [OF e(3)] have "join_lines (map (at_range c) rs) = terminated (drop (e + 1) c)" by simp
      with Cons d r s \<open>e + 1 < length c\<close> show ?thesis
        by (auto simp: join_lines_def terminated_def at_range_pair join_with_Cons)
    qed
  qed
qed simp

lemma ends_backslash_range:
  "e \<le> length c \<Longrightarrow> ends_backslash (at_range c (s, e)) \<longleftrightarrow> s < e \<and> c ! (e - 1) = 92"
  by (auto simp: ends_backslash_def at_range_def subslice_def last_conv_nth)

definition unbroken :: "bytes \<Rightarrow> range \<Rightarrow> bool" where
  "unbroken c r \<longleftrightarrow> (\<forall>k. fst r \<le> k \<longrightarrow> k < snd r \<longrightarrow> c ! k = 10 \<longrightarrow> fst r < k \<and> c ! (k - 1) = 92)"

definition plain_range :: "bytes \<Rightarrow> range \<Rightarrow> bool" where
  "plain_range c r \<longleftrightarrow> (\<forall>k. fst r \<le> k \<longrightarrow> k < snd r \<longrightarrow> c ! k \<noteq> 10)"

lemma phys_loop_plain:
  assumes "i + length bs = length c" "drop i c = bs" "\<forall>k. start \<le> k \<longrightarrow> k < i \<longrightarrow> c ! k \<noteq> 10"
  shows "list_all (plain_range c) (phys_loop start i bs)"
  using assms
proof (induction bs arbitrary: start i)
  case (Cons b bs)
  then have "c ! i = b" "drop (Suc i) c = bs" by (metis nth_via_drop, metis drop_Suc_Cons drop_drop plus_1_eq_Suc drop_0)
  with Cons.IH [of "Suc i" "Suc i"] Cons.IH [of "Suc i" start] Cons.prems show ?case
    by (auto simp: less_Suc_eq plain_range_def)
qed (auto simp: plain_range_def)

lemma run_end_record:
  assumes "chain c a ((s, e) # qs)" "run_end c (s, e) qs = (e', rest)" "list_all (plain_range c) ((s, e) # qs)"
  shows "unbroken c (s, e') \<and> (rest \<noteq> [] \<longrightarrow> \<not> ends_backslash (at_range c (s, e'))) \<and> list_all (plain_range c) rest \<and> s \<le> e' \<and> e' \<le> length c"
  using assms
proof (induction qs arbitrary: a s e)
  case Nil
  then show ?case by (auto simp: unbroken_def plain_range_def)
next
  case (Cons q qs)
  obtain s2 e2 where q: "q = (s2, e2)" by (cases q)
  show ?case
  proof (cases "ends_backslash (at_range c (s, e))")
    case True
    with Cons.prems q have r: "run_end c (s2, e2) qs = (e', rest)" "chain c (e + 1) ((s2, e2) # qs)" "s \<le> e" "e < length c"
        "c ! e = 10" "s2 = e + 1"
      by auto
    with Cons.IH [OF r(2,1)] Cons.prems(3) q have ih: "unbroken c (s2, e')" "rest \<noteq> [] \<longrightarrow> \<not> ends_backslash (at_range c (s2, e'))"
      "list_all (plain_range c) rest" "s2 \<le> e'" "e' \<le> length c" by auto
    have bs: "s < e" "c ! (e - 1) = 92" using True r(4) by (simp_all add: ends_backslash_range)
    have "unbroken c (s, e')" unfolding unbroken_def
    proof (intro allI impI)
      fix k assume k: "fst (s, e') \<le> k" "k < snd (s, e')" "c ! k = 10"
      consider "k < e" | "k = e" | "s2 \<le> k" using r(6) by linarith
      then show "fst (s, e') < k \<and> c ! (k - 1) = 92"
      proof cases
        case 1
        with k Cons.prems(3) show ?thesis by (auto simp: plain_range_def)
      next
        case 3
        with k ih(1) r(6) r(3) show ?thesis by (auto simp: unbroken_def)
      qed (use bs in auto)
    qed
    moreover have "\<not> ends_backslash (at_range c (s, e'))" if "rest \<noteq> []"
    proof (cases "s2 = e'")
      case True
      with r(5,6) ih(5) show ?thesis by (simp add: ends_backslash_range)
    next
      case False
      with ih that r(6) show ?thesis by (simp add: ends_backslash_range)
    qed
    ultimately show ?thesis using ih r(3,6) by auto
  next
    case False
    with Cons.prems q have "e' = e" "rest = (s2, e2) # qs" by auto
    with Cons.prems False q show ?thesis by (auto simp: unbroken_def plain_range_def)
  qed
qed

lemma logical_loop_records:
  assumes "chain c a rs" "list_all (plain_range c) rs"
  shows "list_all (unbroken c) (logical_loop c rs) \<and>
    list_all (\<lambda>r. \<not> ends_backslash (at_range c r)) (butlast (logical_loop c rs))"
  using assms
proof (induction c rs arbitrary: a rule: logical_loop.induct)
  case (2 content r qs)
  obtain s e e' rest where r: "r = (s, e)" "run_end content r qs = (e', rest)" by (cases r; cases "run_end content r qs") auto
  note ch = "2.prems" [unfolded r(1)] and re = r(2) [unfolded r(1)]
  from run_end_chain [OF ch(1) re] have c: "chain content (e' + 1) rest \<or> rest = []" by auto
  from run_end_record [OF ch(1) re ch(2)] have rec: "unbroken content (s, e')" "list_all (plain_range content) rest"
    "rest \<noteq> [] \<longrightarrow> \<not> ends_backslash (at_range content (s, e'))" by blast+
  show ?case
  proof (cases "rest = []")
    case True
    with rec r show ?thesis by (simp del: run_end.simps)
  next
    case False
    then have ne: "logical_loop content rest \<noteq> []" by (cases rest) (auto split: prod.splits)
    from False c "2.IH" [OF r(2) [symmetric], of "e' + 1"] rec r ne show ?thesis by (simp del: run_end.simps)
  qed
qed simp

lemma split_lines_chain:
  assumes "c \<noteq> []"
  obtains rs where "split_lines c = map (at_range c) rs" "chain c 0 rs" "list_all (unbroken c) rs"
    "list_all (\<lambda>r. \<not> ends_backslash (at_range c r)) (butlast rs)"
proof -
  have "chain c 0 (phys_loop 0 0 c)" "list_all (plain_range c) (phys_loop 0 0 c)"
    by (rule phys_loop_chain phys_loop_plain; simp)+
  with logical_loop_chain [of c 0] logical_loop_records [of c 0] assms that show thesis
    by (simp add: split_lines_def)
qed

section \<open>What a diff promises\<close>

text \<open>The operations cover both sides in order, and an equal run is equal.\<close>

fun script :: "line list \<Rightarrow> line list \<Rightarrow> nat \<Rightarrow> nat \<Rightarrow> diff_op list \<Rightarrow> bool" where
  "script b t i j [] \<longleftrightarrow> i = length b \<and> j = length t"
| "script b t i j (Equal oi ni n # ops) \<longleftrightarrow>
     oi = i \<and> ni = j \<and> i + n \<le> length b \<and> j + n \<le> length t \<and>
     subslice i (i + n) b = subslice j (j + n) t \<and> script b t (i + n) (j + n) ops"
| "script b t i j (Delete oi ol ni # ops) \<longleftrightarrow> oi = i \<and> i + ol \<le> length b \<and> script b t (i + ol) j ops"
| "script b t i j (Insert oi ni nl # ops) \<longleftrightarrow> oi = i \<and> ni = j \<and> j + nl \<le> length t \<and> script b t i (j + nl) ops"
| "script b t i j (Replace oi ol ni nl # ops) \<longleftrightarrow>
     oi = i \<and> ni = j \<and> i + ol \<le> length b \<and> j + nl \<le> length t \<and> script b t (i + ol) (j + nl) ops"

definition diff_ok :: "(line list \<Rightarrow> line list \<Rightarrow> diff_op list) \<Rightarrow> bool" where
  "diff_ok diff \<longleftrightarrow> (\<forall>b t. script b t 0 0 (diff b t))"

text \<open>The base indices that a diff keeps.\<close>

fun kept_by :: "diff_op list \<Rightarrow> nat list" where
  "kept_by [] = []"
| "kept_by (Equal oi ni n # ops) = [oi..<oi + n] @ kept_by ops"
| "kept_by (_ # ops) = kept_by ops"

fun new_by :: "line list \<Rightarrow> diff_op list \<Rightarrow> line list" where
  "new_by t [] = []"
| "new_by t (Insert oi ni nl # ops) = subslice ni (ni + nl) t @ new_by t ops"
| "new_by t (Replace oi ol ni nl # ops) = subslice ni (ni + nl) t @ new_by t ops"
| "new_by t (_ # ops) = new_by t ops"

lemma kept_by_range: "script b t i j ops \<Longrightarrow> set (kept_by ops) \<subseteq> {i..<length b} \<and> distinct (kept_by ops)"
proof (induction b t i j ops rule: script.induct)
  case (2 b t i j oi ni n ops)
  then have "script b t (i + n) (j + n) ops" "oi = i" "i + n \<le> length b" by simp_all
  with "2.IH" show ?case by fastforce
qed force+

lemma subslice_nths: "j \<le> length xs \<Longrightarrow> map ((!) xs) [i..<j] = subslice i j xs"
  by (auto simp: subslice_def intro: nth_equalityI)

lemma drop_split_at: "j + n \<le> length t \<Longrightarrow> drop j t = subslice j (j + n) t @ drop (j + n) t"
  by (rule drop_subslice) simp

text \<open>A side is made of the base lines it keeps and its new lines.\<close>

lemma script_lines:
  "script b t i j ops \<Longrightarrow> mset (drop j t) = mset (map ((!) b) (kept_by ops)) + mset (new_by t ops)"
proof (induction b t i j ops rule: script.induct)
  case (2 b t i j oi ni n ops)
  then have s: "script b t (i + n) (j + n) ops" "oi = i" "i + n \<le> length b" "j + n \<le> length t"
    "subslice i (i + n) b = subslice j (j + n) t" by simp_all
  have "mset (drop j t) = mset (subslice j (j + n) t) + mset (drop (j + n) t)" using drop_split_at [OF s(4)] by simp
  with "2.IH" [OF s(1)] s show ?case by (simp add: subslice_nths del: mset_map)
next
  case (4 b t i j oi ni nl ops)
  then have "mset (drop j t) = mset (subslice j (j + nl) t) + mset (drop (j + nl) t)" using drop_split_at [of j nl t] by simp
  with 4 show ?case by simp
next
  case (5 b t i j oi ol ni nl ops)
  then have "mset (drop j t) = mset (subslice j (j + nl) t) + mset (drop (j + nl) t)" using drop_split_at [of j nl t] by simp
  with 5 show ?case by simp
qed simp_all

section \<open>Segments and the diff\<close>

fun keep_ranges :: "segment list \<Rightarrow> range list" where
  "keep_ranges [] = []"
| "keep_ranges (Keep i j # segs) = (i, j) # keep_ranges segs"
| "keep_ranges (Change _ # segs) = keep_ranges segs"

definition keep_indices :: "segment list \<Rightarrow> nat list" where
  "keep_indices segs = concat (map (\<lambda>(i, j). [i..<j]) (keep_ranges segs))"

definition pending_lines :: "change_segment option \<Rightarrow> line list" where
  "pending_lines p = (case p of None \<Rightarrow> [] | Some c \<Rightarrow> other_lines c)"

lemma changed_simps [simp]:
  "changed_other_lines [] = []"
  "changed_other_lines (Keep i j # segs) = changed_other_lines segs"
  "changed_other_lines (Change c # segs) = other_lines c @ changed_other_lines segs"
  "changed_other_lines (segs @ segs') = changed_other_lines segs @ changed_other_lines segs'"
  by (simp_all add: changed_other_lines_def List.map_filter_def)

lemma keep_ranges_append: "keep_ranges (segs @ segs') = keep_ranges segs @ keep_ranges segs'"
  by (induction segs rule: keep_ranges.induct) simp_all

lemma keep_simps [simp]:
  "keep_indices [] = []"
  "keep_indices (Keep i j # segs) = [i..<j] @ keep_indices segs"
  "keep_indices (Change c # segs) = keep_indices segs"
  "keep_indices (segs @ segs') = keep_indices segs @ keep_indices segs'"
  by (simp_all add: keep_indices_def keep_ranges_append)

lemma flush_simps [simp]:
  "changed_other_lines (flush p segs) = changed_other_lines segs @ pending_lines p"
  "keep_indices (flush p segs) = keep_indices segs"
  by (simp_all add: flush_def pending_lines_def split: option.splits)

lemma pending_simps [simp]:
  "pending_lines None = []"
  "pending_lines (Some (extend_range p s e)) = pending_lines p"
  "pending_lines (Some (add_lines c ls)) = other_lines c @ ls"
  "other_lines (extend_range p s e) = pending_lines p"
  by (simp_all add: pending_lines_def extend_range_def add_lines_def split: option.splits)

lemma aggregate_loop_ok:
  assumes "script b t i j ops"
  shows "\<exists>out. aggregate_loop t ops p segs = Some out \<and>
    changed_other_lines out = changed_other_lines segs @ pending_lines p @ new_by t ops \<and>
    keep_indices out = keep_indices segs @ kept_by ops"
  using assms
proof (induction t ops p segs arbitrary: i j rule: aggregate_loop.induct)
  case (2 other oi ni n ops p segs)
  from "2.prems" "2.IH" show ?case by auto
next
  case (3 other oi ol ni ops p segs)
  from "3.prems" "3.IH" show ?case by auto
next
  case (4 other oi ni nl ops p segs)
  then have "slice_opt other ni (ni + nl) = Some (subslice ni (ni + nl) other)" "script b other i (j + nl) ops"
    by (auto simp: slice_opt_def)
  with "4.IH" show ?case by auto
next
  case (5 other oi ol ni nl ops p segs)
  then have "slice_opt other ni (ni + nl) = Some (subslice ni (ni + nl) other)" "script b other (i + ol) (j + nl) ops"
    by (auto simp: slice_opt_def)
  with "5.IH" show ?case by auto
qed auto

text \<open>A change spans no base line that the same side keeps.\<close>

definition pending_at :: "change_segment option \<Rightarrow> nat \<Rightarrow> bool" where
  "pending_at p i \<longleftrightarrow> (case p of None \<Rightarrow> True | Some c \<Rightarrow> base_start c \<le> i \<and> base_end c = i)"

definition pending_start :: "change_segment option \<Rightarrow> nat \<Rightarrow> nat" where
  "pending_start p i = (case p of None \<Rightarrow> i | Some c \<Rightarrow> base_start c)"

definition clear_of :: "nat \<Rightarrow> nat list \<Rightarrow> nat \<Rightarrow> segment \<Rightarrow> bool" where
  "clear_of n ks i seg \<longleftrightarrow> (case seg of Keep _ _ \<Rightarrow> True
     | Change c \<Rightarrow> base_end c \<le> n \<and> i \<le> base_start c \<and> (\<forall>k. base_start c \<le> k \<longrightarrow> k < base_end c \<longrightarrow> k \<notin> set ks))"

lemma clear_of_Keep [simp]: "clear_of n ks i (Keep a b)"
  by (simp add: clear_of_def)

lemma pending_extend:
  assumes "pending_at p i"
  shows "pending_at (Some (extend_range p i (i + n))) (i + n)" "pending_start (Some (extend_range p i (i + n))) k = pending_start p i"
  using assms by (auto simp: pending_at_def pending_start_def extend_range_def split: option.splits)

lemma pending_add [simp]:
  "pending_at (Some (add_lines c ls)) i = pending_at (Some c) i"
  "pending_start (Some (add_lines c ls)) i = pending_start (Some c) i"
  by (simp_all add: pending_at_def pending_start_def add_lines_def)

lemma script_bound: "script b t i j ops \<Longrightarrow> i \<le> length b"
  by (induction b t i j ops rule: script.induct) simp_all

lemma aggregate_clear:
  assumes "script b t i j ops" "pending_at p i" "aggregate_loop t ops p segs = Some out"
  shows "\<exists>new. out = segs @ new \<and> list_all (clear_of (length b) (kept_by ops) (pending_start p i)) new"
  using assms
proof (induction t ops p segs arbitrary: i j rule: aggregate_loop.induct)
  case (1 other p segs)
  then show ?case by (auto simp: flush_def clear_of_def pending_start_def pending_at_def split: option.splits)
next
  case (2 other oi ni n ops p segs)
  then have s: "script b other (i + n) (j + n) ops" "oi = i" by simp_all
  from "2.IH" [OF s(1)] "2.prems"(3) obtain new where new: "out = (flush p segs @ [Keep oi (oi + n)]) @ new"
    "list_all (clear_of (length b) (kept_by ops) (i + n)) new" by (auto simp: pending_at_def pending_start_def)
  have "list_all (clear_of (length b) ([i..<i + n] @ kept_by ops) (pending_start p i)) new"
    using new(2) "2.prems"(2)
    by (fastforce simp: list_all_iff clear_of_def pending_at_def pending_start_def split: segment.splits option.splits)
  moreover have "list_all (clear_of (length b) ([i..<i + n] @ kept_by ops) (pending_start p i)) (case p of None \<Rightarrow> [] | Some c \<Rightarrow> [Change c])"
    using kept_by_range [OF s(1)] script_bound [OF "2.prems"(1)] "2.prems"(2)
    by (fastforce simp: clear_of_def pending_at_def pending_start_def split: option.splits)
  ultimately show ?case using new(1) s(2)
    by (intro exI [of _ "(case p of None \<Rightarrow> [] | Some c \<Rightarrow> [Change c]) @ [Keep oi (oi + n)] @ new"])
       (auto simp: flush_def split: option.splits)
next
  case (3 other oi ol ni ops p segs)
  then show ?case using pending_extend [of p i ol] by auto
next
  case (4 other oi ni nl ops p segs)
  then show ?case using pending_extend [of p i 0] by (auto split: option.splits)
next
  case (5 other oi ol ni nl ops p segs)
  then show ?case using pending_extend [of p i ol] by (auto split: option.splits)
qed

lemma aggregate_segments_ok:
  assumes "script b t 0 0 ops"
  obtains segs where "aggregate_segments ops t = Some segs" "changed_other_lines segs = new_by t ops"
    "keep_indices segs = kept_by ops" "list_all (clear_of (length b) (kept_by ops) 0) segs"
proof -
  from aggregate_loop_ok [OF assms, of None "[]"] obtain segs where s: "aggregate_segments ops t = Some segs"
    "changed_other_lines segs = new_by t ops" "keep_indices segs = kept_by ops"
    by (auto simp: aggregate_segments_def)
  from aggregate_clear [OF assms, of None "[]" segs] s(1) have "list_all (clear_of (length b) (kept_by ops) 0) segs"
    by (simp add: aggregate_segments_def pending_at_def pending_start_def)
  with s that show thesis by blast
qed

section \<open>The survivors of the base\<close>

lemma mark_range_ok:
  assumes "i + n \<le> length kept"
  shows "\<exists>kept'. mark_range i n kept = Some kept' \<and> length kept' = length kept \<and>
    (\<forall>k < length kept. kept' ! k \<longleftrightarrow> kept ! k \<or> i \<le> k \<and> k < i + n)"
  using assms
proof (induction i n kept rule: mark_range.induct)
  case (2 i n kept)
  then obtain kept' where "mark_range (i + 1) n (kept[i := True]) = Some kept'" "length kept' = length kept"
    "\<forall>k < length kept. kept' ! k \<longleftrightarrow> kept[i := True] ! k \<or> i + 1 \<le> k \<and> k < i + 1 + n" by auto
  with "2.prems" show ?case by (auto simp: nth_list_update)
qed auto

lemma mark_kept_ok:
  assumes "\<forall>k \<in> set (keep_indices segs). k < length kept"
  shows "\<exists>kept'. mark_kept segs kept = Some kept' \<and> length kept' = length kept \<and>
    (\<forall>k < length kept. kept' ! k \<longleftrightarrow> kept ! k \<or> k \<in> set (keep_indices segs))"
  using assms
proof (induction segs kept rule: mark_kept.induct)
  case (2 i j segs kept)
  have "\<exists>k1. mark_range i (j - i) kept = Some k1 \<and> length k1 = length kept \<and>
      (\<forall>k < length kept. k1 ! k \<longleftrightarrow> kept ! k \<or> k \<in> set [i..<j])"
  proof (cases "i < j")
    case True
    then have "j - 1 \<in> {i..<j}" by auto
    with "2.prems" have "j - 1 < length kept" by auto
    with True mark_range_ok [of i "j - i" kept] show ?thesis by auto
  qed simp
  then obtain k1 where k1: "mark_range i (j - i) kept = Some k1" "length k1 = length kept"
    "\<forall>k < length kept. k1 ! k \<longleftrightarrow> kept ! k \<or> k \<in> set [i..<j]" by blast
  with "2.IH" [OF k1(1)] "2.prems" show ?case by auto
qed simp_all

lemma survivors_ok:
  assumes "set (keep_indices ls) \<subseteq> {0..<length base}" "set (keep_indices rs) \<subseteq> {0..<length base}"
  shows "policy_a_survivors base ls rs =
    Some (map ((!) base) (filter (\<lambda>k. k \<in> set (keep_indices ls) \<union> set (keep_indices rs)) [0..<length base]))"
proof -
  have "\<forall>k \<in> set (keep_indices ls). k < length base" using assms(1) by auto
  with mark_kept_ok [of ls "replicate (length base) False"] obtain k1 where
    k1: "mark_kept ls (replicate (length base) False) = Some k1" "length k1 = length base"
    "\<forall>k < length base. k1 ! k \<longleftrightarrow> k \<in> set (keep_indices ls)" by auto
  have "\<forall>k \<in> set (keep_indices rs). k < length k1" using assms(2) k1(2) by auto
  with mark_kept_ok [of rs k1] k1 obtain k2 where
    k2: "mark_kept rs k1 = Some k2" "\<forall>k < length base. k2 ! k \<longleftrightarrow> k \<in> set (keep_indices ls) \<union> set (keep_indices rs)" by auto
  have "enumerate 0 base = map (\<lambda>i. (i, base ! i)) [0..<length base]"
    by (rule nth_equalityI) (simp_all add: nth_enumerate_eq)
  then have "map snd (filter (\<lambda>(i, _). k2 ! i) (enumerate 0 base)) = map ((!) base) (filter (\<lambda>i. k2 ! i) [0..<length base])"
    by (simp add: filter_map o_def)
  moreover have "filter (\<lambda>i. k2 ! i) [0..<length base] =
      filter (\<lambda>k. k \<in> set (keep_indices ls) \<union> set (keep_indices rs)) [0..<length base]"
    by (rule filter_cong) (use k2(2) in auto)
  ultimately show ?thesis using k1(1) k2(1) by (simp add: policy_a_survivors_def)
qed

lemma mset_filter_upt: "mset (filter (\<lambda>k. k \<in> A) [0..<n]) = mset_set (A \<inter> {0..<n})"
proof -
  have "set (filter (\<lambda>k. k \<in> A) [0..<n]) = A \<inter> {0..<n}" by auto
  then show ?thesis using mset_set_set [of "filter (\<lambda>k. k \<in> A) [0..<n]"] by simp
qed

lemma mset_set_union_le: "finite A \<Longrightarrow> finite B \<Longrightarrow> mset_set (A \<union> B) \<subseteq># mset_set A + mset_set B"
  by (auto simp: subseteq_mset_def count_mset_set')

text \<open>The merged lines hold each side and nothing beyond both.\<close>

lemma merged_lines:
  fixes base :: "line list"
  assumes "script base l 0 0 lops" "script base r 0 0 rops"
  defines "kept \<equiv> map ((!) base) (filter (\<lambda>k. k \<in> set (kept_by lops) \<union> set (kept_by rops)) [0..<length base])"
  shows "mset l \<subseteq># mset (kept @ new_by l lops @ new_by r rops)"
    and "mset r \<subseteq># mset (kept @ new_by l lops @ new_by r rops)"
    and "mset (kept @ new_by l lops @ new_by r rops) \<subseteq># mset l + mset r"
proof -
  let ?L = "set (kept_by lops)" and ?R = "set (kept_by rops)"
  note L = kept_by_range [OF assms(1)] and R = kept_by_range [OF assms(2)]
  have k: "mset kept = image_mset ((!) base) (mset_set (?L \<union> ?R))"
  proof -
    have "(?L \<union> ?R) \<inter> {0..<length base} = ?L \<union> ?R" using L R by auto
    then show ?thesis unfolding kept_def mset_map mset_filter_upt by simp
  qed
  have l: "mset l = image_mset ((!) base) (mset_set ?L) + mset (new_by l lops)"
    using script_lines [OF assms(1)] mset_set_set [of "kept_by lops"] L by simp
  have r: "mset r = image_mset ((!) base) (mset_set ?R) + mset (new_by r rops)"
    using script_lines [OF assms(2)] mset_set_set [of "kept_by rops"] R by simp
  have sub: "image_mset ((!) base) (mset_set ?L) \<subseteq># mset kept" "image_mset ((!) base) (mset_set ?R) \<subseteq># mset kept"
    unfolding k by (intro image_mset_subseteq_mono subset_imp_msubset_mset_set; simp)+
  show "mset l \<subseteq># mset (kept @ new_by l lops @ new_by r rops)"
    unfolding l mset_append using sub(1) by (intro subset_mset.add_mono) simp_all
  show "mset r \<subseteq># mset (kept @ new_by l lops @ new_by r rops)"
    unfolding r mset_append using sub(2) by (intro subset_mset.add_mono) simp_all
  have "mset kept \<subseteq># image_mset ((!) base) (mset_set ?L) + image_mset ((!) base) (mset_set ?R)"
    unfolding k image_mset_union [symmetric] by (intro image_mset_subseteq_mono mset_set_union_le) simp_all
  then have "mset kept + (mset (new_by l lops) + mset (new_by r rops)) \<subseteq>#
      (image_mset ((!) base) (mset_set ?L) + image_mset ((!) base) (mset_set ?R)) + (mset (new_by l lops) + mset (new_by r rops))"
    by (rule subset_mset.add_right_mono)
  then show "mset (kept @ new_by l lops @ new_by r rops) \<subseteq># mset l + mset r"
    unfolding l r by (simp add: ac_simps)
qed

lemma replacing_change: "c \<in> set (replacing segs) \<longleftrightarrow> Change c \<in> set segs \<and> other_lines c \<noteq> []"
proof (induction segs)
  case (Cons s segs)
  then show ?case by (cases s) (auto simp: replacing_def List.map_filter_def)
qed (simp add: replacing_def List.map_filter_def)

lemma conflict_common:
  assumes "has_conflict ls rs" "list_all (clear_of n lk 0) ls" "list_all (clear_of n rk 0) rs"
  shows "\<exists>k < n. k \<notin> set lk \<and> k \<notin> set rk"
proof -
  from assms(1) obtain l r where lr: "Change l \<in> set ls" "Change r \<in> set rs" "ranges_overlap l r"
    by (auto simp: has_conflict_def replacing_change)
  with assms(2,3) have "clear_of n lk 0 (Change l)" "clear_of n rk 0 (Change r)" by (auto simp: list_all_iff)
  with lr(3) show ?thesis
    by (intro exI [of _ "max (base_start l) (base_start r)"]) (auto simp: clear_of_def ranges_overlap_def)
qed

lemma mset_merge_order [simp]: "mset (merge_order seen ls) = mset ls"
  by (simp add: merge_order_def)

lemma line_merge_core:
  assumes "diff_ok diff"
  shows "\<exists>r. line_merge diff base local remote = Some r \<and>
    (\<forall>out. r = Clean out \<longrightarrow> (\<exists>ls. out = join_lines ls \<and>
       mset (split_lines local) \<subseteq># mset ls \<and> mset (split_lines remote) \<subseteq># mset ls \<and>
       mset ls \<subseteq># mset (split_lines local) + mset (split_lines remote) \<and>
       ((\<exists>l \<in> set (split_lines base @ split_lines local @ split_lines remote).
           parse_extended_history_timestamp l \<noteq> None) \<longrightarrow> sorted (map sort_stamp ls)))) \<and>
    (r = Conflicted \<longrightarrow> (\<exists>k < length (split_lines base).
       k \<notin> set (kept_by (diff (split_lines base) (split_lines local))) \<and>
       k \<notin> set (kept_by (diff (split_lines base) (split_lines remote)))))"
proof -
  let ?b = "split_lines base" and ?l = "split_lines local" and ?r = "split_lines remote"
  have sl: "script ?b ?l 0 0 (diff ?b ?l)" and sr: "script ?b ?r 0 0 (diff ?b ?r)" using assms by (simp_all add: diff_ok_def)
  obtain ls where ls: "aggregate_segments (diff ?b ?l) ?l = Some ls" "changed_other_lines ls = new_by ?l (diff ?b ?l)"
    "keep_indices ls = kept_by (diff ?b ?l)" "list_all (clear_of (length ?b) (kept_by (diff ?b ?l)) 0) ls"
    by (rule aggregate_segments_ok [OF sl])
  obtain rs where rs: "aggregate_segments (diff ?b ?r) ?r = Some rs" "changed_other_lines rs = new_by ?r (diff ?b ?r)"
    "keep_indices rs = kept_by (diff ?b ?r)" "list_all (clear_of (length ?b) (kept_by (diff ?b ?r)) 0) rs"
    by (rule aggregate_segments_ok [OF sr])
  show ?thesis
  proof (cases "has_conflict ls rs")
    case True
    from conflict_common [OF this ls(4) rs(4)] show ?thesis using ls(1) rs(1) True by (simp add: line_merge_def Let_def)
  next
    case False
    let ?kept = "map ((!) ?b) (filter (\<lambda>k. k \<in> set (kept_by (diff ?b ?l)) \<union> set (kept_by (diff ?b ?r))) [0..<length ?b])"
    let ?m = "merge_order (?b @ ?l @ ?r) (?kept @ new_by ?l (diff ?b ?l) @ new_by ?r (diff ?b ?r))"
    have "policy_a_survivors ?b ls rs = Some ?kept"
      using survivors_ok [of ls ?b rs] kept_by_range [OF sl] kept_by_range [OF sr] by (simp add: ls(3) rs(3))
    then have m: "line_merge diff base local remote = Some (Clean (join_lines ?m))"
      using ls(1,2) rs(1,2) False by (simp add: line_merge_def Let_def)
    have "sorted (map sort_stamp ?m)"
      if "\<exists>l \<in> set (?b @ ?l @ ?r). parse_extended_history_timestamp l \<noteq> None"
      using that by (simp add: merge_order_def list_ex_iff)
    with m merged_lines [OF sl sr] show ?thesis unfolding m
      by (intro exI [of _ "Clean (join_lines ?m)"] conjI allI impI exI [of _ ?m]) (simp_all only: mset_merge_order merge_outcome.simps)
  qed
qed

text \<open>C15: for every diff that describes its two sides, the merge returns without running into
  an index out of range. A clean result holds every record of the local and of the remote
  file as often as that file has it, holds nothing that is in neither, and is sorted by
  timestamp as soon as one of the three files has one. A conflict is reported only when
  some base record is given up by both sides, so never when one side only adds records.\<close>

theorem line_merge_no_loss:
  assumes "diff_ok diff"
  shows "\<exists>r. line_merge diff base local remote = Some r \<and>
    (\<forall>out. r = Clean out \<longrightarrow> (\<exists>ls. out = join_lines ls \<and>
       mset (split_lines local) \<subseteq># mset ls \<and> mset (split_lines remote) \<subseteq># mset ls \<and>
       mset ls \<subseteq># mset (split_lines local) + mset (split_lines remote) \<and>
       ((\<exists>l \<in> set (split_lines base @ split_lines local @ split_lines remote).
           parse_extended_history_timestamp l \<noteq> None) \<longrightarrow> sorted (map sort_stamp ls)))) \<and>
    (r = Conflicted \<longrightarrow> (\<exists>k < length (split_lines base).
       k \<notin> set (kept_by (diff (split_lines base) (split_lines local))) \<and>
       k \<notin> set (kept_by (diff (split_lines base) (split_lines remote)))))"
  using assms by (rule line_merge_core)

text \<open>A diff that keeps the common prefix.\<close>

definition prefix_diff :: "line list \<Rightarrow> line list \<Rightarrow> diff_op list" where
  "prefix_diff b t =
     (let n = length (longest_common_prefix b t)
      in [Equal 0 0 n, Delete n (length b - n) n, Insert (length b) n (length t - n)])"

lemma prefix_diff_ok: "diff_ok prefix_diff"
proof -
  have "script b t 0 0 (prefix_diff b t)" for b t
  proof -
    let ?p = "longest_common_prefix b t"
    have take: "length q \<le> length x \<and> take (length q) x = q" if "prefix q x" for q x :: "line list"
      using that by (auto simp: prefix_def)
    have "length ?p \<le> length b" "length ?p \<le> length t" "take (length ?p) b = ?p" "take (length ?p) t = ?p"
      using take [OF longest_common_prefix_prefix1] take [OF longest_common_prefix_prefix2] by blast+
    then show ?thesis by (simp add: prefix_diff_def Let_def subslice_def)
  qed
  then show ?thesis by (simp add: diff_ok_def)
qed

theorem line_merge_no_loss_witness:
  "diff_ok prefix_diff \<and>
   line_merge prefix_diff [97, 10] [97, 10, 98, 10] [97, 10, 99, 10] = Some (Clean [97, 10, 98, 10, 99, 10]) \<and>
   (\<exists>ls. [97, 10, 98, 10, 99, 10] = join_lines ls \<and> mset (split_lines [97, 10, 99, 10]) \<subseteq># mset ls)"
proof -
  have e: "line_merge prefix_diff [97, 10] [97, 10, 98, 10] [97, 10, 99, 10] = Some (Clean [97, 10, 98, 10, 99, 10])"
    by code_simp
  from line_merge_no_loss [OF prefix_diff_ok, of "[97, 10]" "[97, 10, 98, 10]" "[97, 10, 99, 10]"] e
  have "\<exists>ls. [97, 10, 98, 10, 99, 10] = join_lines ls \<and> mset (split_lines [97, 10, 99, 10]) \<subseteq># mset ls"
    by (metis option.inject)
  with e prefix_diff_ok show ?thesis by blast
qed

text \<open>The records of a file joined again are the file, with a final newline added where it
  was missing; only the last record can end in a backslash, and a newline inside a record
  always follows a backslash. So a continued command is never cut and two commands are
  never run together.\<close>

theorem split_lines_records:
  "join_lines (split_lines c) = terminated c \<and>
   (\<forall>r \<in> set (butlast (split_lines c)). \<not> ends_backslash r) \<and>
   (\<forall>r \<in> set (split_lines c). \<forall>k < length r. r ! k = 10 \<longrightarrow> 0 < k \<and> r ! (k - 1) = 92)"
proof (cases "c = []")
  case False
  then obtain rs where rs: "split_lines c = map (at_range c) rs" "chain c 0 rs" "list_all (unbroken c) rs"
    "list_all (\<lambda>r. \<not> ends_backslash (at_range c r)) (butlast rs)" by (rule split_lines_chain)
  have "0 < k \<and> r ! (k - 1) = 92" if r: "r \<in> set (split_lines c)" and k: "k < length r" "r ! k = 10" for r k
  proof -
    from r rs(1) obtain s e where se: "(s, e) \<in> set rs" "r = at_range c (s, e)" by auto
    with rs(3) have "unbroken c (s, e)" by (auto simp: list_all_iff)
    then have "c ! (s + k) = 10 \<Longrightarrow> s + k < e \<Longrightarrow> s < s + k \<and> c ! (s + k - 1) = 92"
      unfolding unbroken_def fst_conv snd_conv using le_add1 by blast
    moreover have "c ! (s + k) = r ! k" "s + k < e" "0 < k \<Longrightarrow> c ! (s + k - 1) = r ! (k - 1)"
      using k se(2) by (auto simp: at_range_pair subslice_def)
    ultimately show ?thesis using k(2) by simp
  qed
  moreover have "join_lines (split_lines c) = terminated c" using chain_join [OF rs(2)] False rs(1) by simp
  moreover have "\<forall>r \<in> set (butlast (split_lines c)). \<not> ends_backslash r"
    using rs(1,4) by (auto simp: map_butlast [symmetric] list_all_iff)
  ultimately show ?thesis by blast
qed (simp add: split_lines_def join_lines_def terminated_def)

theorem split_lines_records_witness:
  "split_lines [97, 92, 10, 98, 10, 99] = [[97, 92, 10, 98], [99]] \<and>
   join_lines (split_lines [97, 92, 10, 98, 10, 99]) = [97, 92, 10, 98, 10, 99, 10] \<and>
   \<not> ends_backslash (hd (split_lines [97, 92, 10, 98, 10, 99]))"
proof -
  have "split_lines [97, 92, 10, 98, 10, 99] = [[97, 92, 10, 98], [99]]" by code_simp
  with split_lines_records [of "[97, 92, 10, 98, 10, 99]"] show ?thesis by (simp add: terminated_def)
qed

text \<open>A local file that ends in a backslash and gets a remote record behind it: the two are one
  record of the merged file.\<close>

lemma dangling_backslash_glues:
  "line_merge prefix_diff [] [97, 92] [98, 10] = Some (Clean [97, 92, 10, 98, 10])"
  "split_lines [98, 10] = [[98]]" "split_lines [97, 92, 10, 98, 10] = [[97, 92, 10, 98]]"
  by code_simp+

end
