(* ===== verification/PullDiff.thy ===== *)
theory PullDiff
  imports Flatten Chunking LineMerge "HOL-Library.AList"
begin

text \<open>
  The comparison of snapshots in \<open>src/src/commands/pull.rs\<close>: the tree diff with its
  whole-directory additions, the partition of a remote diff into clean changes and
  conflicts, the automatic line merge of conflicting logs, and the flattening of the clone
  root that is bounded by the directories on disk.

  A \<open>HashMap\<close> is an association list with distinct keys, so that its length is the
  number of keys; where the code iterates over one, the order of the list stands for the
  unspecified order. The walk over trees takes fuel for the nesting depth. What is on disk
  is an argument: which paths are real directories, and the content of regular files.
\<close>

section \<open>Diff entries\<close>

datatype diff_entry =
    Added (de_hash: hash) (de_size: u64) (de_mtime: "datetime option") (de_mode: "string option")
  | Modified (de_hash: hash) (de_size: u64) (de_mtime: "datetime option") (de_mode: "string option")
  | Deleted
  | AddedEmptyDir
  | AddedTree (de_hash: hash) (de_size: u64) (de_mtime: "datetime option") (de_count: u64)
  | SymlinkD (de_target: string) (de_mtime: "datetime option") (was_present: bool)

type_synonym diff_map = "(string \<times> diff_entry) list"

definition label :: "diff_entry \<Rightarrow> string" where
  "label d = (case d of Added _ _ _ _ \<Rightarrow> ''added'' | Modified _ _ _ _ \<Rightarrow> ''modified'' | Deleted \<Rightarrow> ''deleted''
     | AddedEmptyDir \<Rightarrow> ''added'' | AddedTree _ _ _ _ \<Rightarrow> ''added''
     | SymlinkD _ _ present \<Rightarrow> if present then ''modified'' else ''added'')"

section \<open>The tree diff\<close>

definition tree_contains_git_dir :: "'s tree_ctx \<Rightarrow> 's \<Rightarrow> hash \<Rightarrow> bool" where
  "tree_contains_git_dir cx s h =
     (case store_read (tc_env cx) (tc_ops cx) s h None of Inl _ \<Rightarrow> False
      | Inr data \<Rightarrow>
          if \<not> is_tree_bytes data then False
          else (case tree_deserialise (tc_from_json cx) data of Inl _ \<Rightarrow> False
                | Inr t \<Rightarrow> list_ex (\<lambda>e. case e of TreeE n _ _ _ _ \<Rightarrow> n = ''.git'' | _ \<Rightarrow> False) (entries t)))"

fun mark_deleted_tree ::
    "nat \<Rightarrow> 's tree_ctx \<Rightarrow> hash \<Rightarrow> string \<Rightarrow> diff_map \<times> 's tree_state \<Rightarrow> (diff_map \<times> 's tree_state) result" where
  "mark_deleted_tree 0 cx h pre rs = Inl (Other ''nesting depth'')"
| "mark_deleted_tree (Suc fuel) cx h pre (res, st) =
     rbind (load_all_entries cx st h) (\<lambda>(es, st).
       rfold (\<lambda>e (res, st).
         case e of
           TreeE n child _ _ _ \<Rightarrow> mark_deleted_tree fuel cx child (rel_path pre n) (res, st)
         | _ \<Rightarrow> Inr (AList.update (rel_path pre (ename e)) Deleted res, st)) es (res, st))"

text \<open>Collecting entries into a map by name: a later entry of the same name wins.\<close>

definition entries_by_name :: "tree_entry list \<Rightarrow> (string \<times> tree_entry) list" where
  "entries_by_name es = foldl (\<lambda>m e. AList.update (ename e) e m) [] es"

definition diff_blob ::
    "(hash \<Rightarrow> string \<Rightarrow> diff_map \<times> 'r \<Rightarrow> (diff_map \<times> 'r) result) \<Rightarrow> tree_entry option \<Rightarrow> string \<Rightarrow>
       hash \<Rightarrow> u64 \<Rightarrow> datetime option \<Rightarrow> string option \<Rightarrow> diff_map \<times> 'r \<Rightarrow> (diff_map \<times> 'r) result" where
  "diff_blob mark old path h sz mtime mode rs =
     (case old of
        Some (Blob _ bh _ _ bmode) \<Rightarrow>
          Inr (if bh \<noteq> h \<or> bmode \<noteq> mode then (AList.update path (Modified h sz mtime mode) (fst rs), snd rs) else rs)
      | Some (TreeE _ old_hash _ _ _) \<Rightarrow>
          rbind (mark old_hash path rs) (\<lambda>(res, st). Inr (AList.update path (Added h sz mtime mode) res, st))
      | _ \<Rightarrow> Inr (AList.update path (Added h sz mtime mode) (fst rs), snd rs))"

definition diff_symlink ::
    "(hash \<Rightarrow> string \<Rightarrow> diff_map \<times> 'r \<Rightarrow> (diff_map \<times> 'r) result) \<Rightarrow> tree_entry option \<Rightarrow> string \<Rightarrow>
       string \<Rightarrow> datetime option \<Rightarrow> diff_map \<times> 'r \<Rightarrow> (diff_map \<times> 'r) result" where
  "diff_symlink mark old path target mtime rs =
     (case old of
        Some (Symlink _ base_target _) \<Rightarrow>
          Inr (if base_target \<noteq> target then (AList.update path (SymlinkD target mtime True) (fst rs), snd rs) else rs)
      | Some (TreeE _ old_hash _ _ _) \<Rightarrow>
          rbind (mark old_hash path rs) (\<lambda>(res, st). Inr (AList.update path (SymlinkD target mtime True) res, st))
      | Some (Blob _ _ _ _ _) \<Rightarrow> Inr (AList.update path (SymlinkD target mtime True) (fst rs), snd rs)
      | None \<Rightarrow> Inr (AList.update path (SymlinkD target mtime False) (fst rs), snd rs))"

text \<open>The base tree to compare a tree entry with; a file or symlink in its place is reported
  as deleted and the new tree is compared with nothing.\<close>

definition base_tree_of :: "tree_entry option \<Rightarrow> string \<Rightarrow> diff_map \<Rightarrow> hash option \<times> diff_map" where
  "base_tree_of old path res =
     (case old of Some (TreeE _ h _ _ _) \<Rightarrow> (Some h, res)
      | Some _ \<Rightarrow> (None, AList.update path Deleted res)
      | None \<Rightarrow> (None, res))"

definition diff_tree ::
    "(hash option \<Rightarrow> hash \<Rightarrow> string \<Rightarrow> bool \<Rightarrow> diff_map \<times> 'r \<Rightarrow> (diff_map \<times> 'r) result) \<Rightarrow> u64 \<Rightarrow> bool \<Rightarrow> bool \<Rightarrow>
       tree_entry option \<Rightarrow> string \<Rightarrow> hash \<Rightarrow> datetime option \<Rightarrow> u64 \<Rightarrow> u64 \<Rightarrow> diff_map \<times> 'r \<Rightarrow> (diff_map \<times> 'r) result" where
  "diff_tree recur thr git child_git old path h mtime sz cnt rs =
     (case base_tree_of old path (fst rs) of (bt, res) \<Rightarrow>
        if bt = None \<and> 0 < thr \<and> thr \<le> sz \<and> \<not> git
        then Inr (AList.update path (AddedTree h sz mtime cnt) res, snd rs)
        else rbind (recur bt h path child_git (res, snd rs)) (\<lambda>(res', st').
               Inr (if bt = None \<and> length res' = length res then AList.update path AddedEmptyDir res' else res', st')))"

fun diff_recursive ::
    "nat \<Rightarrow> 's tree_ctx \<Rightarrow> u64 \<Rightarrow> hash option \<Rightarrow> hash \<Rightarrow> string \<Rightarrow> bool \<Rightarrow>
       diff_map \<times> 's tree_state \<Rightarrow> (diff_map \<times> 's tree_state) result" where
  "diff_recursive 0 cx thr base target pre git rs = Inl (Other ''nesting depth'')"
| "diff_recursive (Suc fuel) cx thr base target pre git (res, st) =
     (if base = Some target then Inr (res, st)
      else rbind (load_all_entries cx st target) (\<lambda>(tes, st).
           rbind (case base of Some b \<Rightarrow> load_all_entries cx st b | None \<Rightarrow> Inr ([], st)) (\<lambda>(bes, st).
             let bm = entries_by_name bes;
                 mark = mark_deleted_tree fuel cx
             in rbind (rfold (\<lambda>e (res, st).
                  let path = rel_path pre (ename e); old = map_of bm (ename e)
                  in case e of
                       Blob _ h mtime sz mode \<Rightarrow> diff_blob mark old path h sz mtime mode (res, st)
                     | Symlink _ target mtime \<Rightarrow> diff_symlink mark old path target mtime (res, st)
                     | TreeE n h mtime sz cnt \<Rightarrow>
                         diff_tree (diff_recursive fuel cx thr) thr git
                           (git \<or> n = ''.git'' \<or> tree_contains_git_dir cx (ts_store st) h) old path h mtime sz cnt (res, st)) tes (res, st)) (\<lambda>rs.
                rfold (\<lambda>(n, be) (res, st).
                  let path = rel_path pre n
                  in case be of
                       TreeE _ h _ _ _ \<Rightarrow> mark_deleted_tree fuel cx h path (res, st)
                     | _ \<Rightarrow> Inr (AList.update path Deleted res, st))
                  (filter (\<lambda>(n, _). n \<notin> ename ` set tes) bm) rs))))"

definition diff_trees ::
    "nat \<Rightarrow> 's tree_ctx \<Rightarrow> u64 \<Rightarrow> hash option \<Rightarrow> hash option \<Rightarrow> 's tree_state \<Rightarrow> (diff_map \<times> 's tree_state) result" where
  "diff_trees fuel cx thr base target st =
     (case target of
        Some t \<Rightarrow> diff_recursive fuel cx thr base t [] False ([], st)
      | None \<Rightarrow> (case base of Some b \<Rightarrow> mark_deleted_tree fuel cx b [] ([], st) | None \<Rightarrow> Inr ([], st)))"

section \<open>Conflicts\<close>

fun same_content :: "diff_entry \<Rightarrow> diff_entry \<Rightarrow> bool" where
  "same_content (Added a _ _ _) (Added b _ _ _) = (a = b)"
| "same_content (Added a _ _ _) (Modified b _ _ _) = (a = b)"
| "same_content (Modified a _ _ _) (Added b _ _ _) = (a = b)"
| "same_content (Modified a _ _ _) (Modified b _ _ _) = (a = b)"
| "same_content Deleted Deleted = True"
| "same_content AddedEmptyDir AddedEmptyDir = True"
| "same_content (SymlinkD a _ _) (SymlinkD b _ _) = (a = b)"
| "same_content _ _ = False"

definition is_added_tree :: "diff_entry \<Rightarrow> bool" where
  "is_added_tree d = (case d of AddedTree _ _ _ _ \<Rightarrow> True | _ \<Rightarrow> False)"

definition is_local_change_under_added_tree :: "string \<Rightarrow> string \<Rightarrow> bool" where
  "is_local_change_under_added_tree tree_path local_path =
     (case Option.bind (strip_prefix tree_path local_path) (strip_prefix ''/'') of
        None \<Rightarrow> False
      | Some rest \<Rightarrow> hd (split_slash rest) \<noteq> ''.git'')"

definition classify_step :: "diff_map \<Rightarrow> diff_map \<times> string list \<Rightarrow> string \<times> diff_entry \<Rightarrow> diff_map \<times> string list" where
  "classify_step local_diff acc pr =
     (case acc of (clean, conflicts) \<Rightarrow> case pr of (path, remote_entry) \<Rightarrow>
        (case map_of local_diff path of
           Some local_entry \<Rightarrow>
             if same_content remote_entry local_entry then (AList.update path remote_entry clean, conflicts)
             else (clean, conflicts @ [path])
         | None \<Rightarrow>
             if is_added_tree remote_entry \<and> list_ex (\<lambda>(lp, _). is_local_change_under_added_tree path lp) local_diff
             then (clean, conflicts @ [path])
             else (AList.update path remote_entry clean, conflicts)))"

definition classify_conflicts :: "diff_map \<Rightarrow> diff_map \<Rightarrow> diff_map \<times> string list" where
  "classify_conflicts remote_diff local_diff =
     (case foldl (classify_step local_diff) ([], []) remote_diff of (clean, conflicts) \<Rightarrow> (clean, sort conflicts))"

section \<open>The automatic line merge\<close>

definition is_blob_change :: "diff_entry \<Rightarrow> bool" where
  "is_blob_change d = (case d of Added _ _ _ _ \<Rightarrow> True | Modified _ _ _ _ \<Rightarrow> True | _ \<Rightarrow> False)"

definition read_blob_bytes :: "'s tree_ctx \<Rightarrow> 's \<Rightarrow> hash \<Rightarrow> bytes result" where
  "read_blob_bytes cx s h =
     for_each_blob_chunk (tc_env cx) (tc_ops cx) s h None (\<lambda>chunk buf. Inr (buf @ chunk)) []"

text \<open>\<open>working\<close> is the content of the regular file at the path, if there is one.\<close>

definition try_line_merge_one ::
    "(line list \<Rightarrow> line list \<Rightarrow> diff_op list) \<Rightarrow> 's tree_ctx \<Rightarrow> 's \<Rightarrow> string \<Rightarrow> diff_entry \<Rightarrow> bytes option \<Rightarrow>
       hash option \<Rightarrow> bytes option" where
  "try_line_merge_one diff cx s path remote_entry working base_root =
     Option.bind working (\<lambda>local_bytes.
     Option.bind (case remote_entry of Added h _ _ _ \<Rightarrow> Some h | Modified h _ _ _ \<Rightarrow> Some h | _ \<Rightarrow> None) (\<lambda>remote_hash.
     Option.bind (ok (read_blob_bytes cx s remote_hash)) (\<lambda>remote_bytes.
     Option.bind (case base_root of None \<Rightarrow> Some []
        | Some root \<Rightarrow>
            (case navigate cx s root (filter (\<lambda>c. c \<noteq> []) (split_slash path)) of
               Inr (Some base_hash) \<Rightarrow> ok (read_blob_bytes cx s base_hash)
             | Inr None \<Rightarrow> Some []
             | Inl _ \<Rightarrow> None)) (\<lambda>base_bytes.
       case line_merge diff base_bytes local_bytes remote_bytes of
         Some (Clean bytes) \<Rightarrow> Some bytes
       | _ \<Rightarrow> None))))"

record resolved_line_merge =
  rlm_key :: string
  rlm_repo_rel :: string
  rlm_bytes :: bytes

definition resolve_step ::
    "(string \<Rightarrow> bool) \<Rightarrow> (string \<Rightarrow> diff_entry \<Rightarrow> bytes option) \<Rightarrow> diff_map \<Rightarrow> diff_map \<Rightarrow> (string \<Rightarrow> string) \<Rightarrow>
       resolved_line_merge list \<times> string list \<Rightarrow> string \<Rightarrow> resolved_line_merge list \<times> string list" where
  "resolve_step is_line_merge try_merge remote_diff local_diff to_repo_rel acc path =
     (case acc of (resolved, remaining) \<Rightarrow>
        case (map_of remote_diff path, map_of local_diff path) of
          (Some r, Some l) \<Rightarrow>
            if \<not> (is_blob_change r \<and> is_blob_change l) then (resolved, remaining @ [path])
            else if \<not> is_line_merge (to_repo_rel path) then (resolved, remaining @ [path])
            else (case try_merge path r of
                    Some bytes \<Rightarrow>
                      (resolved @ [\<lparr>rlm_key = path, rlm_repo_rel = to_repo_rel path, rlm_bytes = bytes\<rparr>], remaining)
                  | None \<Rightarrow> (resolved, remaining @ [path]))
        | _ \<Rightarrow> (resolved, remaining @ [path]))"

definition resolve_line_merges ::
    "(line list \<Rightarrow> line list \<Rightarrow> diff_op list) \<Rightarrow> 's tree_ctx \<Rightarrow> 's \<Rightarrow> (string \<Rightarrow> bool) \<Rightarrow> (string \<Rightarrow> bytes option) \<Rightarrow>
       hash option \<Rightarrow> (string \<Rightarrow> string) \<Rightarrow> diff_map \<Rightarrow> diff_map \<Rightarrow> string list \<Rightarrow>
       resolved_line_merge list \<times> string list" where
  "resolve_line_merges diff cx s is_line_merge working base_root to_repo_rel remote_diff local_diff conflicts =
     foldl (resolve_step is_line_merge (\<lambda>path r. try_line_merge_one diff cx s path r (working path) base_root)
       remote_diff local_diff to_repo_rel) ([], []) conflicts"

section \<open>The clone root where it is on disk\<close>

fun flatten_present_into ::
    "nat \<Rightarrow> 's tree_ctx \<Rightarrow> (string \<Rightarrow> bool) \<Rightarrow> hash \<Rightarrow> string \<Rightarrow> flat_map \<times> 's tree_state \<Rightarrow> (flat_map \<times> 's tree_state) result" where
  "flatten_present_into 0 cx real_dir h pre os = Inl (Other ''nesting depth'')"
| "flatten_present_into (Suc fuel) cx real_dir h pre (out, st) =
     rbind (load_all_entries cx st h) (\<lambda>(es, st).
       rfold (\<lambda>e (out, st).
         case e of
           TreeE n child _ _ _ \<Rightarrow>
             if real_dir (rel_path pre n) then flatten_present_into fuel cx real_dir child (rel_path pre n) (out, st)
             else Inr (out, st)
         | _ \<Rightarrow> Inr (out @ [(rel_path pre (ename e), e)], st)) es (out, st))"

definition flatten_clone_root_present ::
    "nat \<Rightarrow> 's tree_ctx \<Rightarrow> (string \<Rightarrow> bool) \<Rightarrow> 's tree_state \<Rightarrow> hash \<Rightarrow> (flat_map \<times> 's tree_state) result" where
  "flatten_clone_root_present fuel cx real_dir st root = flatten_present_into fuel cx real_dir root [] ([], st)"

definition flatten_clone_root_present_scoped ::
    "nat \<Rightarrow> 's tree_ctx \<Rightarrow> (string \<Rightarrow> bool) \<Rightarrow> string list \<Rightarrow> 's tree_state \<Rightarrow> hash \<Rightarrow> (flat_map \<times> 's tree_state) result" where
  "flatten_clone_root_present_scoped fuel cx real_dir rels st root =
     rfold (\<lambda>rel (out, st).
       rbind (navigate_entry cx (ts_store st) root (filter (\<lambda>c. c \<noteq> []) (split_slash rel))) (\<lambda>r.
         case r of
           None \<Rightarrow> Inr (out, st)
         | Some (TreeE _ h _ _ _) \<Rightarrow>
             if real_dir rel then flatten_present_into fuel cx real_dir h rel (out, st) else Inr (out, st)
         | Some e \<Rightarrow> Inr (out @ [(rel, e)], st))) rels ([], st)"

section \<open>Maps by path\<close>

definition okname :: "string \<Rightarrow> bool" where
  "okname n \<longleftrightarrow> n \<noteq> [] \<and> CHR ''/'' \<notin> set n"

abbreviation okpath :: "string list \<Rightarrow> bool" where
  "okpath \<equiv> list_all okname"

definition at_path :: "diff_map \<Rightarrow> string list \<Rightarrow> diff_entry option" where
  "at_path res p = map_of res (join_path p)"

lemma join_inj:
  assumes "okpath p" "okpath q" "p \<noteq> []" "q \<noteq> []"
  shows "join_path p = join_path q \<longleftrightarrow> p = q"
proof -
  have "split_slash (join_path p) = p" "split_slash (join_path q) = q"
    using assms by (auto intro!: split_join simp: list_all_iff okname_def)
  then show ?thesis by metis
qed

lemma join_empty: "okpath p \<Longrightarrow> join_path p = [] \<longleftrightarrow> p = []"
  by (induction p rule: join_path.induct) (auto simp: okname_def)

lemma join_snoc: "okpath pre \<Longrightarrow> rel_path (join_path pre) n = join_path (pre @ [n])"
proof -
  have "pre \<noteq> [] \<Longrightarrow> join_path (pre @ [n]) = join_path pre @ ''/'' @ n"
    by (induction pre rule: join_path.induct) auto
  then show "okpath pre \<Longrightarrow> ?thesis" by (cases "pre = []") (auto simp: rel_path_def join_empty)
qed

lemma at_update:
  assumes "okpath p" "okpath q" "p \<noteq> []" "q \<noteq> []"
  shows "at_path (AList.update (join_path q) d res) p = (if p = q then Some d else at_path res p)"
  using join_inj [OF assms] by (simp add: at_path_def update_conv')

definition same_off :: "string list set \<Rightarrow> diff_map \<Rightarrow> diff_map \<Rightarrow> bool" where
  "same_off A res res' \<longleftrightarrow> (\<forall>p. okpath p \<longrightarrow> p \<noteq> [] \<longrightarrow> p \<notin> A \<longrightarrow> at_path res' p = at_path res p)"

definition within :: "string list \<Rightarrow> string list set" where
  "within pre = {p. prefix pre p}"

definition below :: "string list \<Rightarrow> string list set" where
  "below pre = {p. strict_prefix pre p}"

definition fresh :: "string list set \<Rightarrow> diff_map \<Rightarrow> bool" where
  "fresh A res \<longleftrightarrow> (\<forall>p \<in> A. okpath p \<longrightarrow> at_path res p = None)"

lemma same_off_refl [simp]: "same_off A res res"
  by (simp add: same_off_def)

lemma same_off_trans: "same_off A r1 r2 \<Longrightarrow> same_off B r2 r3 \<Longrightarrow> same_off (A \<union> B) r1 r3"
  by (simp add: same_off_def)

lemma same_off_mono: "same_off A r1 r2 \<Longrightarrow> A \<subseteq> B \<Longrightarrow> same_off B r1 r2"
  by (auto simp: same_off_def)

lemma same_off_update:
  assumes "okpath q" "q \<noteq> []" "q \<in> A"
  shows "same_off A res (AList.update (join_path q) d res)"
  using assms at_update by (auto simp: same_off_def)

lemma below_within: "below pre \<subseteq> within pre"
  by (auto simp: below_def within_def strict_prefix_def)

lemma within_disjoint: "n \<noteq> m \<Longrightarrow> p \<in> within (pre @ [n]) \<Longrightarrow> p \<notin> within (pre @ [m])"
  by (auto simp: within_def prefix_def)

lemma within_below: "within (pre @ [n]) \<subseteq> below pre"
  by (auto simp: within_def below_def prefix_def strict_prefix_def)

lemma fresh_same: "fresh B res \<Longrightarrow> same_off A res res' \<Longrightarrow> A \<inter> B = {} \<Longrightarrow> [] \<notin> B \<Longrightarrow> fresh B res'"
  by (fastforce simp: fresh_def same_off_def)

lemma within_nonempty [simp]: "[] \<notin> within (pre @ [n])"
  by (simp add: within_def)

text \<open>A loop over entries with different names, each of which fills only its own part.\<close>

lemma rfold_named:
  assumes step: "\<And>x res st. x \<in> set xs \<Longrightarrow> I st \<Longrightarrow> fresh (within (pre @ [nm x])) res \<Longrightarrow>
      \<exists>res' st'. F x (res, st) = Inr (res', st') \<and> I st' \<and> same_off (within (pre @ [nm x])) res res' \<and>
        (\<forall>q. okpath q \<longrightarrow> E (\<lambda>r. at_path res' (pre @ r)) (nm x # q))"
    and cong: "\<And>S S' q. q \<noteq> [] \<Longrightarrow> (\<And>r. r \<noteq> [] \<Longrightarrow> prefix r q \<Longrightarrow> S r = S' r) \<Longrightarrow> E S q \<Longrightarrow> E S' q"
    and "distinct (map nm xs)" "okpath (map nm xs)" "okpath pre" "I st" "\<forall>x \<in> set xs. fresh (within (pre @ [nm x])) res"
  shows "\<exists>res' st'. rfold F xs (res, st) = Inr (res', st') \<and> I st' \<and>
    same_off (\<Union>x \<in> set xs. within (pre @ [nm x])) res res' \<and>
    (\<forall>x \<in> set xs. \<forall>q. okpath q \<longrightarrow> E (\<lambda>r. at_path res' (pre @ r)) (nm x # q))"
  using assms(1,3-)
proof (induction xs arbitrary: res st)
  case (Cons x xs)
  have "fresh (within (pre @ [nm x])) res" using Cons.prems(6) by simp
  from Cons.prems(1) [OF list.set_intros(1) Cons.prems(5) this] obtain r1 st1 where
    1: "F x (res, st) = Inr (r1, st1)" "I st1" "same_off (within (pre @ [nm x])) res r1"
      "\<forall>q. okpath q \<longrightarrow> E (\<lambda>r. at_path r1 (pre @ r)) (nm x # q)" by blast
  have ne: "nm y \<noteq> nm x" if "y \<in> set xs" for y
  proof -
    have "nm y \<in> nm ` set xs" using that by (rule imageI)
    moreover have "nm x \<notin> nm ` set xs" using Cons.prems(2) by simp
    ultimately show ?thesis by metis
  qed
  have "fresh (within (pre @ [nm y])) r1" if "y \<in> set xs" for y
  proof (rule fresh_same [OF _ 1(3)])
    show "within (pre @ [nm x]) \<inter> within (pre @ [nm y]) = {}" using within_disjoint [OF ne [OF that]] by blast
  qed (use that Cons.prems(6) in simp_all)
  with Cons.IH [where res = r1 and st = st1] Cons.prems 1(2) obtain r2 st2 where
    2: "rfold F xs (r1, st1) = Inr (r2, st2)" "I st2" "same_off (\<Union>x \<in> set xs. within (pre @ [nm x])) r1 r2"
      "\<forall>y \<in> set xs. \<forall>q. okpath q \<longrightarrow> E (\<lambda>r. at_path r2 (pre @ r)) (nm y # q)" by auto
  have "E (\<lambda>r. at_path r2 (pre @ r)) (nm x # q)" if q: "okpath q" for q
  proof (rule cong [OF list.distinct(2)])
    show "E (\<lambda>r. at_path r1 (pre @ r)) (nm x # q)" using 1(4) q by blast
    fix r assume r: "r \<noteq> []" "prefix r (nm x # q)"
    then obtain r' where r': "r = nm x # r'" "prefix r' q" by (cases r) auto
    then have "okpath (pre @ r)" using q Cons.prems(3,4) by (auto simp: list_all_iff dest: set_mono_prefix)
    moreover have "pre @ r \<in> within (pre @ [nm x])" using r' by (simp add: within_def)
    then have "pre @ r \<notin> (\<Union>y \<in> set xs. within (pre @ [nm y]))" using within_disjoint ne by blast
    ultimately show "at_path r1 (pre @ r) = at_path r2 (pre @ r)" using 2(3) r(1) by (simp add: same_off_def)
  qed
  moreover have "same_off (\<Union>y \<in> set (x # xs). within (pre @ [nm y])) res r2"
    using same_off_trans [OF 1(3) 2(3)] by simp
  ultimately show ?case using 1(1) 2 by auto
qed simp

text \<open>Two loops over different names, one after the other.\<close>

lemma two_loops:
  assumes 1: "\<And>x res st. x \<in> set xs \<Longrightarrow> I st \<Longrightarrow> fresh (within (pre @ [nm x])) res \<Longrightarrow>
      \<exists>res' st'. F x (res, st) = Inr (res', st') \<and> I st' \<and> same_off (within (pre @ [nm x])) res res' \<and>
        (\<forall>q. okpath q \<longrightarrow> E (\<lambda>r. at_path res' (pre @ r)) (nm x # q))"
    and 2: "\<And>y res st. y \<in> set ys \<Longrightarrow> I st \<Longrightarrow> fresh (within (pre @ [nm' y])) res \<Longrightarrow>
      \<exists>res' st'. G y (res, st) = Inr (res', st') \<and> I st' \<and> same_off (within (pre @ [nm' y])) res res' \<and>
        (\<forall>q. okpath q \<longrightarrow> E (\<lambda>r. at_path res' (pre @ r)) (nm' y # q))"
    and cong: "\<And>S S' q. q \<noteq> [] \<Longrightarrow> (\<And>r. r \<noteq> [] \<Longrightarrow> prefix r q \<Longrightarrow> S r = S' r) \<Longrightarrow> E S q \<Longrightarrow> E S' q"
    and d: "distinct (map nm xs)" "okpath (map nm xs)" "distinct (map nm' ys)" "okpath (map nm' ys)" "nm ` set xs \<inter> nm' ` set ys = {}"
    and ok: "okpath pre" and I: "I st" and f: "fresh (below pre) res"
  obtains res' st' where "rbind (rfold F xs (res, st)) (rfold G ys) = Inr (res', st')" "I st'" "same_off (below pre) res res'"
    "\<And>m q. okpath (m # q) \<Longrightarrow> m \<in> nm ` set xs \<union> nm' ` set ys \<Longrightarrow> E (\<lambda>r. at_path res' (pre @ r)) (m # q)"
    "\<And>m q. okpath (m # q) \<Longrightarrow> m \<notin> nm ` set xs \<union> nm' ` set ys \<Longrightarrow> at_path res' (pre @ m # q) = None"
proof -
  let ?X = "\<Union>x \<in> set xs. within (pre @ [nm x])" and ?Y = "\<Union>y \<in> set ys. within (pre @ [nm' y])"
  have fw: "fresh (within (pre @ [n])) res" for n using f within_below by (fastforce simp: fresh_def)
  have "\<exists>r1 s1. rfold F xs (res, st) = Inr (r1, s1) \<and> I s1 \<and> same_off ?X res r1 \<and>
      (\<forall>x \<in> set xs. \<forall>q. okpath q \<longrightarrow> E (\<lambda>r. at_path r1 (pre @ r)) (nm x # q))"
    by (rule rfold_named [where E = E and I = I]) (fact 1 | fact cong | fact d | fact ok | fact I | simp add: fw)+
  then obtain r1 s1 where
    r1: "rfold F xs (res, st) = Inr (r1, s1)" "I s1" "same_off ?X res r1"
      "\<forall>x \<in> set xs. \<forall>q. okpath q \<longrightarrow> E (\<lambda>r. at_path r1 (pre @ r)) (nm x # q)" by blast
  have "fresh (within (pre @ [nm' y])) r1" if "y \<in> set ys" for y
  proof (rule fresh_same [OF fw r1(3)])
    have "nm x \<noteq> nm' y" if "x \<in> set xs" for x using d(5) that \<open>y \<in> set ys\<close> by fastforce
    then show "?X \<inter> within (pre @ [nm' y]) = {}" using within_disjoint by blast
  qed simp
  then have f1: "\<forall>y \<in> set ys. fresh (within (pre @ [nm' y])) r1" by blast
  have "\<exists>r2 s2. rfold G ys (r1, s1) = Inr (r2, s2) \<and> I s2 \<and> same_off ?Y r1 r2 \<and>
      (\<forall>y \<in> set ys. \<forall>q. okpath q \<longrightarrow> E (\<lambda>r. at_path r2 (pre @ r)) (nm' y # q))"
    by (rule rfold_named [where E = E and I = I]) (fact 2 | fact cong | fact d | fact ok | fact r1(2) | fact f1)+
  then obtain r2 s2 where
    r2: "rfold G ys (r1, s1) = Inr (r2, s2)" "I s2" "same_off ?Y r1 r2"
      "\<forall>y \<in> set ys. \<forall>q. okpath q \<longrightarrow> E (\<lambda>r. at_path r2 (pre @ r)) (nm' y # q)" by blast
  have off: "at_path r2 (pre @ m # r) = at_path r1 (pre @ m # r)" if "okpath (m # r)" "m \<notin> nm' ` set ys" for m r
  proof -
    have "pre @ m # r \<notin> ?Y" using that(2) by (auto simp: within_def)
    then show ?thesis using r2(3) that(1) ok by (simp add: same_off_def)
  qed
  show thesis
  proof (rule that [of r2 s2])
    show "rbind (rfold F xs (res, st)) (rfold G ys) = Inr (r2, s2)" using r1(1) r2(1) by simp
    show "I s2" by fact
    show "same_off (below pre) res r2"
      by (rule same_off_mono [OF same_off_trans [OF r1(3) r2(3)]]) (use within_below in blast)
    fix m q assume mq: "okpath (m # q)"
    { assume "m \<notin> nm ` set xs \<union> nm' ` set ys"
      then have "pre @ m # q \<notin> ?X" "m \<notin> nm' ` set ys" by (auto simp: within_def)
      moreover have "pre @ m # q \<in> below pre" by (simp add: below_def strict_prefix_def)
      ultimately show "at_path r2 (pre @ m # q) = None"
        using off [OF mq] mq ok f r1(3) by (simp add: same_off_def fresh_def) }
    assume m: "m \<in> nm ` set xs \<union> nm' ` set ys"
    show "E (\<lambda>r. at_path r2 (pre @ r)) (m # q)"
    proof (cases "m \<in> nm' ` set ys")
      case True
      with r2(4) mq show ?thesis by auto
    next
      case False
      with m obtain x where x: "x \<in> set xs" "m = nm x" by blast
      show ?thesis
      proof (rule cong [OF list.distinct(2)])
        show "E (\<lambda>r. at_path r1 (pre @ r)) (m # q)" using r1(4) x mq by simp
        fix r assume r: "r \<noteq> []" "prefix r (m # q)"
        then obtain r' where r': "r = m # r'" "prefix r' q" by (cases r) auto
        then have "okpath (m # r')" using mq by (auto simp: prefix_def)
        with off [OF this False] r' show "at_path r1 (pre @ r) = at_path r2 (pre @ r)" by simp
      qed
    qed
  qed
qed

section \<open>What a diff has to say about a path\<close>

datatype leaf = File hash "string option" | Link string

fun leaf_content :: "tree_entry option \<Rightarrow> leaf option" where
  "leaf_content (Some (Blob _ h _ _ mode)) = Some (File h mode)"
| "leaf_content (Some (Symlink _ target _)) = Some (Link target)"
| "leaf_content _ = None"

definition is_tree_at :: "tree_entry option \<Rightarrow> bool" where
  "is_tree_at e = (case e of Some (TreeE _ _ _ _ _) \<Rightarrow> True | _ \<Rightarrow> False)"

definition is_blob_at :: "tree_entry option \<Rightarrow> bool" where
  "is_blob_at e = (case e of Some (Blob _ _ _ _ _) \<Rightarrow> True | _ \<Rightarrow> False)"

text \<open>The change from \<open>b\<close> to \<open>t\<close> at one path. A directory that the base does not have is taken as a
  whole from the threshold on, outside the part of a git repository. Otherwise it is reported
  itself only when it is empty, and as the deletion of the file or link that was in its place.
  Directories that are gone are not reported, only the files and links below them.\<close>

definition taken_whole :: "u64 \<Rightarrow> bool \<Rightarrow> tree_entry option \<Rightarrow> tree_entry option \<Rightarrow> bool" where
  "taken_whole thr git b t \<longleftrightarrow>
     (case t of Some (TreeE _ _ _ sz _) \<Rightarrow> \<not> is_tree_at b \<and> 0 < thr \<and> thr \<le> sz \<and> \<not> git | _ \<Rightarrow> False)"

definition change_here :: "u64 \<Rightarrow> bool \<Rightarrow> tree_entry option \<Rightarrow> tree_entry option \<Rightarrow> bool \<Rightarrow> diff_entry option" where
  "change_here thr git b t childless =
     (case t of
        Some (Blob _ h mtime sz mode) \<Rightarrow>
          (if leaf_content b = leaf_content t then None
           else Some (if is_blob_at b then Modified h sz mtime mode else Added h sz mtime mode))
      | Some (Symlink _ target mtime) \<Rightarrow>
          (if leaf_content b = leaf_content t then None else Some (SymlinkD target mtime (b \<noteq> None)))
      | Some (TreeE _ h mtime sz cnt) \<Rightarrow>
          (if is_tree_at b then None
           else if taken_whole thr git b t then Some (AddedTree h sz mtime cnt)
           else if childless then Some AddedEmptyDir
           else if b \<noteq> None then Some Deleted else None)
      | None \<Rightarrow> if leaf_content b \<noteq> None then Some Deleted else None)"

text \<open>The change at a path, from what base and target have at every path: nothing is reported
  below a directory that is taken as a whole, and the part of a git repository is everything
  below a directory named \<open>.git\<close> and below a directory of which \<open>G\<close> says that it has one.\<close>

fun change ::
    "u64 \<Rightarrow> (hash \<Rightarrow> bool) \<Rightarrow> bool \<Rightarrow> (string list \<Rightarrow> tree_entry option) \<Rightarrow> (string list \<Rightarrow> tree_entry option) \<Rightarrow>
       string list \<Rightarrow> diff_entry option" where
  "change thr G git b t [] = None"
| "change thr G git b t [n] = change_here thr git (b [n]) (t [n]) (\<forall>m. t [n, m] = None)"
| "change thr G git b t (n # m # q) =
     (if taken_whole thr git (b [n]) (t [n]) then None
      else change thr G (git \<or> n = ''.git'' \<or> (case t [n] of Some (TreeE _ h _ _ _) \<Rightarrow> G h | _ \<Rightarrow> False))
             (\<lambda>r. b (n # r)) (\<lambda>r. t (n # r)) (m # q))"

lemma change_cong:
  assumes "\<And>r. r \<noteq> [] \<Longrightarrow> b r = b' r" "\<And>r. r \<noteq> [] \<Longrightarrow> t r = t' r"
  shows "change thr G git b t q = change thr G git b' t' q"
  using assms by (cases "(thr, G, git, b, t, q)" rule: change.cases) simp_all

lemma taken_whole_None [simp]: "\<not> taken_whole thr git b None" "\<not> taken_whole thr git b b" "\<not> taken_whole 0 git b t"
  by (auto simp: taken_whole_def is_tree_at_def split: option.splits tree_entry.splits)

lemma change_gone:
  "(\<And>r. r \<noteq> [] \<Longrightarrow> t r = None) \<Longrightarrow>
     change thr G git b t q = (if q \<noteq> [] \<and> leaf_content (b q) \<noteq> None then Some Deleted else None)"
  by (induction thr G git b t q rule: change.induct) (simp_all add: change_here_def)

lemma change_same: "change thr G git b b q = None"
proof -
  have "b = t \<Longrightarrow> change thr G git b t q = None" for t
    by (induction thr G git b t q rule: change.induct)
      (auto simp: change_here_def is_tree_at_def split: option.splits tree_entry.splits)
  then show ?thesis by simp
qed

text \<open>What an entry says of the two sides, for a reader who has only the entry.\<close>

fun explains :: "u64 \<Rightarrow> tree_entry option \<Rightarrow> tree_entry option \<Rightarrow> diff_entry option \<Rightarrow> bool" where
  "explains thr b t None \<longleftrightarrow> leaf_content b = leaf_content t"
| "explains thr b t (Some (Added h sz mtime mode)) \<longleftrightarrow> (\<exists>n. t = Some (Blob n h mtime sz mode)) \<and> \<not> is_blob_at b"
| "explains thr b t (Some (Modified h sz mtime mode)) \<longleftrightarrow>
     (\<exists>n. t = Some (Blob n h mtime sz mode)) \<and> is_blob_at b \<and> leaf_content b \<noteq> leaf_content t"
| "explains thr b t (Some Deleted) \<longleftrightarrow> leaf_content b \<noteq> None \<and> leaf_content t = None"
| "explains thr b t (Some AddedEmptyDir) \<longleftrightarrow> is_tree_at t \<and> \<not> is_tree_at b"
| "explains thr b t (Some (AddedTree h sz mtime c)) \<longleftrightarrow> (\<exists>n. t = Some (TreeE n h mtime sz c)) \<and> \<not> is_tree_at b \<and> 0 < thr \<and> thr \<le> sz"
| "explains thr b t (Some (SymlinkD target mtime present)) \<longleftrightarrow>
     (\<exists>n. t = Some (Symlink n target mtime)) \<and> (present \<longleftrightarrow> b \<noteq> None) \<and> leaf_content b \<noteq> leaf_content t"

lemma change_here_explains: "explains thr b t (change_here thr git b t childless)"
  by (cases t rule: leaf_content.cases; cases b rule: leaf_content.cases)
    (auto simp: change_here_def taken_whole_def is_tree_at_def is_blob_at_def)

text \<open>A path below a directory that is added as a whole has no entry of its own, and there was
  nothing at it before.\<close>

definition covered :: "(string list \<Rightarrow> diff_entry option) \<Rightarrow> string list \<Rightarrow> bool" where
  "covered S q \<longleftrightarrow> (\<exists>r d. r \<noteq> [] \<and> strict_prefix r q \<and> S r = Some d \<and> is_added_tree d)"

definition explained ::
    "u64 \<Rightarrow> (string list \<Rightarrow> tree_entry option) \<Rightarrow> (string list \<Rightarrow> tree_entry option) \<Rightarrow>
       (string list \<Rightarrow> diff_entry option) \<Rightarrow> string list \<Rightarrow> bool" where
  "explained thr b t S q \<longleftrightarrow> explains thr (b q) (t q) (S q) \<or> S q = None \<and> b q = None \<and> covered S q"

lemma covered_lift: "covered (\<lambda>r. S (n # r)) q \<Longrightarrow> covered S (n # q)"
  by (force simp: covered_def)

lemma change_explained:
  "(\<And>p m r. p \<noteq> [] \<Longrightarrow> \<not> is_tree_at (b p) \<Longrightarrow> b (p @ m # r) = None) \<Longrightarrow>
     (\<And>r. r \<noteq> [] \<Longrightarrow> prefix r q \<Longrightarrow> S r = change thr G git b t r) \<Longrightarrow> q \<noteq> [] \<Longrightarrow> explained thr b t S q"
proof (induction thr G git b t q arbitrary: S rule: change.induct)
  case (2 thr G git b t n)
  then have "S [n] = change thr G git b t [n]" by simp
  then show ?case using change_here_explains [of thr "b [n]" "t [n]"] by (simp add: explained_def)
next
  case (3 thr G git b t n m q)
  note ih = "3.IH" and below = "3.prems"(1) and eq = "3.prems"(2)
  show ?case
  proof (cases "taken_whole thr git (b [n]) (t [n])")
    case True
    then obtain nm h mt sz c where t: "t [n] = Some (TreeE nm h mt sz c)" and nb: "\<not> is_tree_at (b [n])"
      by (auto simp: taken_whole_def split: option.splits tree_entry.splits)
    have "S [n] = Some (AddedTree h sz mt c)" using eq [of "[n]"] True t nb by (simp add: change_here_def)
    then have "covered S (n # m # q)" unfolding covered_def
      by (intro exI [of _ "[n]"] exI [of _ "AddedTree h sz mt c"]) (simp add: is_added_tree_def strict_prefix_def)
    moreover have "S (n # m # q) = None" using eq [of "n # m # q"] True by simp
    moreover have "b (n # m # q) = None" using below [of "[n]" m q] nb by simp
    ultimately show ?thesis by (simp add: explained_def)
  next
    case False
    let ?g = "git \<or> n = ''.git'' \<or> (case t [n] of Some (TreeE _ h _ _ _) \<Rightarrow> G h | _ \<Rightarrow> False)"
    have "S (n # r) = change thr G ?g (\<lambda>r. b (n # r)) (\<lambda>r. t (n # r)) r" if r: "r \<noteq> []" "prefix r (m # q)" for r
    proof -
      obtain x y where "r = x # y" using r(1) by (cases r) auto
      then show ?thesis using eq [of "n # r"] r(2) False by simp
    qed
    moreover have "b (n # p @ x # r) = None" if "p \<noteq> []" "\<not> is_tree_at (b (n # p))" for p x r
      using below [of "n # p" x r] that by simp
    ultimately have "explained thr (\<lambda>r. b (n # r)) (\<lambda>r. t (n # r)) (\<lambda>r. S (n # r)) (m # q)"
      using ih [OF False, of "\<lambda>r. S (n # r)"] by blast
    then show ?thesis using covered_lift [of S n "m # q"] by (auto simp: explained_def)
  qed
qed simp

text \<open>What is at a path of a snapshot.\<close>

definition entry_at :: "'s tree_ctx \<Rightarrow> 's \<Rightarrow> hash \<Rightarrow> string list \<Rightarrow> tree_entry option" where
  "entry_at cx s h p = (case navigate_entry cx s h p of Inr (Some e) \<Rightarrow> Some e | _ \<Rightarrow> None)"

definition base_at :: "'s tree_ctx \<Rightarrow> 's \<Rightarrow> hash option \<Rightarrow> string list \<Rightarrow> tree_entry option" where
  "base_at cx s base p = (case base of None \<Rightarrow> None | Some h \<Rightarrow> entry_at cx s h p)"

lemma entry_at_empty [simp]: "entry_at cx s h [] = None"
  by (simp add: entry_at_def)

lemma read_fails_nowhere: "(\<And>t. read_tree cx s h \<noteq> Inr t) \<Longrightarrow> entry_at cx s h p = None"
  by (cases p; cases "read_tree cx s h") (auto simp: entry_at_def find_entry_in_tree_def)

lemma entry_at_Cons:
  assumes "read_tree cx s h = Inr (Normal es)" "\<And>nm b mt sz md t. Blob nm b mt sz md \<in> set es \<Longrightarrow> read_tree cx s b \<noteq> Inr t"
  shows "entry_at cx s h (n # p) =
    (case find (\<lambda>e. ename e = n) es of None \<Rightarrow> None
     | Some e \<Rightarrow> if p = [] then Some e else (case e of TreeE _ c _ _ _ \<Rightarrow> entry_at cx s c p | _ \<Rightarrow> None))"
proof (cases "find (\<lambda>e. ename e = n) es")
  case (Some e)
  then have "e \<in> set es" by (auto simp: find_Some_iff)
  show ?thesis
  proof (cases e)
    case (Blob nm b mt sz md)
    with assms(2) \<open>e \<in> set es\<close> have "entry_at cx s b p = None" by (blast intro: read_fails_nowhere)
    with Blob Some show ?thesis
      by (auto simp: entry_at_def navigate_entry_Cons [OF assms(1)] simp del: navigate_entry.simps)
  qed (use Some in \<open>auto simp: entry_at_def navigate_entry_Cons [OF assms(1)] simp del: navigate_entry.simps\<close>)
qed (simp add: entry_at_def navigate_entry_Cons [OF assms(1)] del: navigate_entry.simps)

text \<open>The facts about one level of a snapshot.\<close>

definition level :: "nat \<Rightarrow> 's tree_ctx \<Rightarrow> 's \<Rightarrow> (string list \<Rightarrow> tree_entry option) \<Rightarrow> tree_entry list \<Rightarrow> bool" where
  "level n cx s at es \<longleftrightarrow> distinct (map ename es) \<and> okpath (map ename es) \<and>
     (\<forall>nm c mt sz k. TreeE nm c mt sz k \<in> set es \<longrightarrow> nested False n cx s c) \<and>
     (\<forall>m p. at (m # p) = (case find (\<lambda>e. ename e = m) es of None \<Rightarrow> None
        | Some e \<Rightarrow> if p = [] then Some e else (case e of TreeE _ c _ _ _ \<Rightarrow> entry_at cx s c p | _ \<Rightarrow> None)))"

lemma nested_level:
  assumes "nested False k cx (ts_store st) h" "tstate_ok cx st"
  obtains n es st' where "k = Suc n" "load_all_entries cx st h = Inr (es, st')" "ts_store st' = ts_store st" "tstate_ok cx st'"
    "level n cx (ts_store st) (entry_at cx (ts_store st) h) es"
proof -
  from assms(1) obtain n es where n: "k = Suc n" "read_tree cx (ts_store st) h = Inr (Normal es)" "distinct (map ename es)"
      "names_valid es"
    and tr: "\<And>nm c mt sz k. TreeE nm c mt sz k \<in> set es \<Longrightarrow> nested False n cx (ts_store st) c"
    and bl: "\<And>nm b mt sz md t. Blob nm b mt sz md \<in> set es \<Longrightarrow> read_tree cx (ts_store st) b \<noteq> Inr t"
    by (rule nestedE) blast
  from load_entries_ok [OF assms(2) n(2)] obtain st' where "load_all_entries cx st h = Inr (es, st')"
    "ts_store st' = ts_store st" "tstate_ok cx st'" by blast
  moreover have "level n cx (ts_store st) (entry_at cx (ts_store st) h) es" unfolding level_def
    using n(3,4) tr entry_at_Cons [OF n(2) bl]
    by (auto simp: names_valid_def list_all_iff okname_def validate_entry_name_iff)
  ultimately show thesis using n(1) that by blast
qed

lemma level_nested: "level n cx s at es \<Longrightarrow> TreeE nm c mt sz k \<in> set es \<Longrightarrow> nested False n cx s c"
  unfolding level_def by blast

lemma level_absent:
  assumes "level n cx s at es" "m \<notin> ename ` set es"
  shows "at (m # p) = None"
proof -
  have "find (\<lambda>e. ename e = m) es = None" using assms(2) by (auto simp: find_None_iff)
  with assms(1) show ?thesis by (simp add: level_def)
qed

lemma level_entry:
  assumes "level n cx s at es" "e \<in> set es"
  shows "at (ename e # p) = (if p = [] then Some e else (case e of TreeE _ c _ _ _ \<Rightarrow> entry_at cx s c p | _ \<Rightarrow> None))"
    and "okname (ename e)"
proof -
  have "find (\<lambda>x. ename x = ename e) es = Some e"
    using assms find_by_key [of ename es "ename e" e] by (simp add: level_def)
  with assms(1) show "at (ename e # p) = (if p = [] then Some e else (case e of TreeE _ c _ _ _ \<Rightarrow> entry_at cx s c p | _ \<Rightarrow> None))"
    by (simp add: level_def)
  show "okname (ename e)" using assms by (auto simp: level_def list_all_iff)
qed

section \<open>Deleting a whole tree\<close>

lemma mark_deleted_ok:
  assumes "nested False k cx (ts_store st) h" "tstate_ok cx st" "okpath pre"
    "fresh (below pre) res"
  shows "\<exists>res' st'. mark_deleted_tree k cx h (join_path pre) (res, st) = Inr (res', st') \<and>
    (ts_store st' = ts_store st \<and> tstate_ok cx st') \<and> same_off (below pre) res res' \<and>
    (\<forall>q. okpath q \<longrightarrow> q \<noteq> [] \<longrightarrow> at_path res' (pre @ q) =
       (if leaf_content (entry_at cx (ts_store st) h q) \<noteq> None then Some Deleted else None))"
  using assms
proof (induction k arbitrary: h pre res st)
  case (Suc k)
  let ?s = "ts_store st" and ?at = "entry_at cx (ts_store st) h"
  obtain n es st1 where n: "Suc k = Suc n" and ld: "load_all_entries cx st h = Inr (es, st1)" "ts_store st1 = ?s" "tstate_ok cx st1"
    and lv: "level n cx ?s ?at es" by (rule nested_level [OF Suc.prems(1,2)])
  let ?I = "\<lambda>st'. ts_store st' = ?s \<and> tstate_ok cx st'"
  let ?F = "\<lambda>e (res, st). case e of TreeE n child _ _ _ \<Rightarrow> mark_deleted_tree k cx child (rel_path (join_path pre) n) (res, st)
    | _ \<Rightarrow> Inr (AList.update (rel_path (join_path pre) (ename e)) Deleted res, st)"
  let ?E = "\<lambda>S q. q \<noteq> [] \<longrightarrow> S q = (if leaf_content (?at q) \<noteq> None then Some Deleted else None)"
  have step: "\<exists>res' st'. ?F e (r0, st0) = Inr (res', st') \<and> ?I st' \<and> same_off (within (pre @ [ename e])) r0 res' \<and>
      (\<forall>q. okpath q \<longrightarrow> ?E (\<lambda>r. at_path res' (pre @ r)) (ename e # q))"
    if e: "e \<in> set es" and i: "?I st0" and f: "fresh (within (pre @ [ename e])) r0" for e r0 st0
  proof -
    note le = level_entry [OF lv e]
    have ok: "okpath (pre @ [ename e])" using le(2) Suc.prems(3) by simp
    have rp: "rel_path (join_path pre) (ename e) = join_path (pre @ [ename e])" by (rule join_snoc [OF Suc.prems(3)])
    have leafcase: ?thesis if l: "leaf_content (Some e) \<noteq> None"
    proof -
      let ?r = "AList.update (join_path (pre @ [ename e])) Deleted r0"
      have nt: "(case e of TreeE _ c _ _ _ \<Rightarrow> entry_at cx ?s c p | _ \<Rightarrow> None) = None" for p using l by (cases e) auto
      have "at_path ?r (pre @ ename e # q) = (if q = [] then Some Deleted else None)" if "okpath q" for q
        using at_update [of "pre @ ename e # q" "pre @ [ename e]" Deleted r0] ok that f
        by (auto simp: fresh_def within_def)
      then have "\<forall>q. okpath q \<longrightarrow> ?E (\<lambda>r. at_path ?r (pre @ r)) (ename e # q)" using l nt by (simp add: le(1))
      moreover have "same_off (within (pre @ [ename e])) r0 ?r"
        by (rule same_off_update [OF ok]) (simp_all add: within_def)
      moreover have "?F e (r0, st0) = Inr (?r, st0)" using l rp by (cases e) auto
      ultimately show ?thesis using i by blast
    qed
    show ?thesis
    proof (cases e)
      case (TreeE nm c mt sz j)
      have c: "nested False k cx ?s c" using level_nested [OF lv, of nm c mt sz j] e TreeE n by simp
      have fb: "fresh (below (pre @ [nm])) r0" using f below_within [of "pre @ [nm]"] TreeE by (auto simp: fresh_def)
      from Suc.IH [of st0 c "pre @ [nm]" r0] i c ok fb TreeE obtain r1 st1 where
        1: "mark_deleted_tree k cx c (join_path (pre @ [nm])) (r0, st0) = Inr (r1, st1)" "?I st1"
          "same_off (below (pre @ [nm])) r0 r1"
          "\<forall>q. okpath q \<longrightarrow> q \<noteq> [] \<longrightarrow> at_path r1 ((pre @ [nm]) @ q) =
             (if leaf_content (entry_at cx ?s c q) \<noteq> None then Some Deleted else None)" by auto
      have "at_path r1 (pre @ [nm]) = None"
        using 1(3) f ok TreeE by (simp add: same_off_def below_def fresh_def within_def)
      then have "?E (\<lambda>r. at_path r1 (pre @ r)) (ename e # q)" if "okpath q" for q
        using 1(4) that le(1) [of q] TreeE by (cases "q = []") simp_all
      with 1 TreeE rp same_off_mono [OF 1(3) below_within] show ?thesis by auto
    qed (rule leafcase, simp)+
  qed
  have fr: "\<forall>e \<in> set es. fresh (within (pre @ [ename e])) res"
    using Suc.prems(4) within_below by (fastforce simp: fresh_def)
  have "distinct (map ename es)" "okpath (map ename es)" using lv by (simp_all add: level_def)
  from rfold_named [where nm = ename and E = ?E and I = ?I and F = ?F, OF step _ this Suc.prems(3) _ fr] ld(2,3)
  obtain r2 st2 where 2: "rfold ?F es (res, st1) = Inr (r2, st2)" "?I st2"
      "same_off (\<Union>e \<in> set es. within (pre @ [ename e])) res r2"
      "\<forall>e \<in> set es. \<forall>q. okpath q \<longrightarrow> ?E (\<lambda>r. at_path r2 (pre @ r)) (ename e # q)" by fastforce
  have "at_path r2 (pre @ q) = (if leaf_content (?at q) \<noteq> None then Some Deleted else None)" if q: "okpath q" "q \<noteq> []" for q
  proof -
    obtain m p where mp: "q = m # p" using q(2) by (cases q) auto
    show ?thesis
    proof (cases "m \<in> ename ` set es")
      case True
      with 2(4) q mp show ?thesis by auto
    next
      case False
      then have "pre @ q \<notin> (\<Union>e \<in> set es. within (pre @ [ename e]))" using mp by (auto simp: within_def)
      moreover have "pre @ q \<in> below pre" using q(2) by (simp add: below_def strict_prefix_def)
      ultimately have "at_path r2 (pre @ q) = None" using 2(3) q Suc.prems(3,4) by (simp add: same_off_def fresh_def)
      with level_absent [OF lv False] mp show ?thesis by simp
    qed
  qed
  moreover have "same_off (below pre) res r2"
    by (rule same_off_mono [OF 2(3)]) (use within_below in blast)
  moreover have "mark_deleted_tree (Suc k) cx h (join_path pre) (res, st) = Inr (r2, st2)" using ld(1) 2(1) by simp
  ultimately show ?case using 2(2) by blast
qed simp

section \<open>The steps of the walk\<close>

definition drop_step :: "nat \<Rightarrow> 's tree_ctx \<Rightarrow> string \<Rightarrow> string \<times> tree_entry \<Rightarrow> diff_map \<times> 's tree_state \<Rightarrow> (diff_map \<times> 's tree_state) result" where
  "drop_step k cx pre = (\<lambda>(n, be) (res, st).
     let path = rel_path pre n
     in case be of TreeE _ h _ _ _ \<Rightarrow> mark_deleted_tree k cx h path (res, st)
        | _ \<Rightarrow> Inr (AList.update path Deleted res, st))"

definition diff_step ::
    "nat \<Rightarrow> 's tree_ctx \<Rightarrow> u64 \<Rightarrow> string \<Rightarrow> bool \<Rightarrow> (string \<times> tree_entry) list \<Rightarrow> tree_entry \<Rightarrow>
       diff_map \<times> 's tree_state \<Rightarrow> (diff_map \<times> 's tree_state) result" where
  "diff_step k cx thr pre git bm = (\<lambda>e (res, st).
     let path = rel_path pre (ename e); old = map_of bm (ename e)
     in case e of
          Blob _ h mtime sz mode \<Rightarrow> diff_blob (mark_deleted_tree k cx) old path h sz mtime mode (res, st)
        | Symlink _ target mtime \<Rightarrow> diff_symlink (mark_deleted_tree k cx) old path target mtime (res, st)
        | TreeE n h mtime sz cnt \<Rightarrow>
            diff_tree (diff_recursive k cx thr) thr git
              (git \<or> n = ''.git'' \<or> tree_contains_git_dir cx (ts_store st) h) old path h mtime sz cnt (res, st))"

lemma diff_recursive_step:
  "diff_recursive (Suc k) cx thr base target pre git (res, st) =
     (if base = Some target then Inr (res, st)
      else rbind (load_all_entries cx st target) (\<lambda>(tes, st).
           rbind (case base of Some b \<Rightarrow> load_all_entries cx st b | None \<Rightarrow> Inr ([], st)) (\<lambda>(bes, st).
             rbind (rfold (diff_step k cx thr pre git (entries_by_name bes)) tes (res, st))
               (rfold (drop_step k cx pre) (filter (\<lambda>(n, _). n \<notin> ename ` set tes) (entries_by_name bes))))))"
  by (simp add: diff_step_def drop_step_def Let_def)

section \<open>The keys of a diff\<close>

text \<open>A diff only appends keys that it does not have, so that they stay distinct and that a
  diff grows exactly when its length does.\<close>

lemma rfold_keeps:
  assumes "\<And>x s s'. F x s = Inr s' \<Longrightarrow> P s \<Longrightarrow> P s'" "rfold F xs s = Inr s'" "P s"
  shows "P s'"
  using assms(2,3) by (induction xs arbitrary: s) (auto simp: rbind_Inr_iff dest: assms(1))

definition append_closed :: "(string list \<Rightarrow> bool) \<Rightarrow> bool" where
  "append_closed P \<longleftrightarrow> (\<forall>ks k. P ks \<longrightarrow> k \<notin> set ks \<longrightarrow> P (ks @ [k]))"

abbreviation keyed :: "(string list \<Rightarrow> bool) \<Rightarrow> diff_map \<times> 'r \<Rightarrow> bool" where
  "keyed P rs \<equiv> P (map fst (fst rs))"

lemma keys_update: "append_closed P \<Longrightarrow> P (map fst res) \<Longrightarrow> P (map fst (AList.update k v res))"
  by (simp add: append_closed_def update_keys)

lemma append_closed_instances: "append_closed distinct" "append_closed (prefix ks)"
  by (auto simp: append_closed_def prefix_def)

lemma mark_deleted_keyed:
  assumes P: "append_closed P"
  shows "mark_deleted_tree k cx h pre rs = Inr rs' \<Longrightarrow> keyed P rs \<Longrightarrow> keyed P rs'"
proof (induction k arbitrary: h pre rs rs')
  case (Suc k)
  obtain res st where rs: "rs = (res, st)" by (cases rs)
  from Suc.prems(1) rs obtain es st1 where l: "load_all_entries cx st h = Inr (es, st1)"
    and f: "rfold (\<lambda>e (res, st). case e of TreeE n child _ _ _ \<Rightarrow> mark_deleted_tree k cx child (rel_path pre n) (res, st)
         | _ \<Rightarrow> Inr (AList.update (rel_path pre (ename e)) Deleted res, st)) es (res, st1) = Inr rs'"
    by (auto simp: rbind_Inr_iff)
  show ?case
  proof (rule rfold_keeps [where P = "keyed P", OF _ f])
    fix e s s' assume "(case s of (res, st) \<Rightarrow> case e of TreeE n child _ _ _ \<Rightarrow> mark_deleted_tree k cx child (rel_path pre n) (res, st)
         | _ \<Rightarrow> Inr (AList.update (rel_path pre (ename e)) Deleted res, st)) = Inr s'" "keyed P s"
    then show "keyed P s'" using Suc.IH by (cases s; cases e) (auto simp: keys_update [OF P])
  qed (use Suc.prems(2) rs in simp)
qed simp

lemma leaf_step_keyed:
  assumes P: "append_closed P"
  shows "diff_blob (mark_deleted_tree k cx) old path h sz mt md rs = Inr rs' \<Longrightarrow> keyed P rs \<Longrightarrow> keyed P rs'"
    and "diff_symlink (mark_deleted_tree k cx) old path tgt mt rs = Inr rs' \<Longrightarrow> keyed P rs \<Longrightarrow> keyed P rs'"
  by (auto simp: diff_blob_def diff_symlink_def rbind_Inr_iff keys_update [OF P] dest: mark_deleted_keyed [OF P]
      split: option.splits tree_entry.splits if_splits)

lemma diff_tree_keyed:
  assumes P: "append_closed P" and "\<And>b t pre g rs rs'. recur b t pre g rs = Inr rs' \<Longrightarrow> keyed P rs \<Longrightarrow> keyed P rs'"
    "diff_tree recur thr git cg old path h mt sz c rs = Inr rs'" "keyed P rs"
  shows "keyed P rs'"
proof -
  obtain bt res where b: "base_tree_of old path (fst rs) = (bt, res)" by (cases "base_tree_of old path (fst rs)")
  then have "P (map fst res)" using assms(4)
    by (auto simp: base_tree_of_def keys_update [OF P] split: option.splits tree_entry.splits)
  then show ?thesis using assms(2) [of bt h path cg "(res, snd rs)"] assms(3) b
    by (auto simp: diff_tree_def rbind_Inr_iff keys_update [OF P] split: if_splits)
qed

lemma diff_recursive_keyed:
  assumes P: "append_closed P"
  shows "diff_recursive k cx thr base target pre git rs = Inr rs' \<Longrightarrow> keyed P rs \<Longrightarrow> keyed P rs'"
proof (induction k arbitrary: base target pre git rs rs')
  case (Suc k)
  obtain res st where rs: "rs = (res, st)" by (cases rs)
  show ?case
  proof (cases "base = Some target")
    case False
    with Suc.prems(1) rs obtain tes bes st2 r1 where
      1: "rfold (diff_step k cx thr pre git (entries_by_name bes)) tes (res, st2) = Inr r1" and
      2: "rfold (drop_step k cx pre) (filter (\<lambda>(n, _). n \<notin> ename ` set tes) (entries_by_name bes)) r1 = Inr rs'"
      by (auto simp: diff_recursive_step rbind_Inr_iff simp del: diff_recursive.simps)
    have "keyed P r1"
    proof (rule rfold_keeps [where P = "keyed P", OF _ 1])
      fix e s s' assume d: "diff_step k cx thr pre git (entries_by_name bes) e s = Inr s'" "keyed P s"
      show "keyed P s'"
      proof (cases e)
        case (Blob n h mt sz md)
        with d(1) have "diff_blob (mark_deleted_tree k cx) (map_of (entries_by_name bes) n) (rel_path pre n) h sz mt md s = Inr s'"
          by (cases s) (simp add: diff_step_def Let_def)
        then show ?thesis using d(2) by (rule leaf_step_keyed [OF P])
      next
        case (Symlink n tgt mt)
        with d(1) have "diff_symlink (mark_deleted_tree k cx) (map_of (entries_by_name bes) n) (rel_path pre n) tgt mt s = Inr s'"
          by (cases s) (simp add: diff_step_def Let_def)
        then show ?thesis using d(2) by (rule leaf_step_keyed [OF P])
      next
        case (TreeE n h mt sz c)
        with d(1) have "diff_tree (diff_recursive k cx thr) thr git
            (git \<or> n = ''.git'' \<or> tree_contains_git_dir cx (ts_store (snd s)) h) (map_of (entries_by_name bes) n)
            (rel_path pre n) h mt sz c s = Inr s'"
          by (cases s) (simp add: diff_step_def Let_def)
        then show ?thesis using d(2) by (rule diff_tree_keyed [OF P, rotated]) (rule Suc.IH)
      qed
    qed (use Suc.prems(2) rs in simp)
    with 2 show ?thesis
    proof (rule rfold_keeps [where P = "keyed P", rotated])
      fix x s s' assume "drop_step k cx pre x s = Inr s'" "keyed P s"
      then show "keyed P s'" by (cases s; cases x; cases "snd x")
        (auto simp: drop_step_def Let_def keys_update [OF P] dest: mark_deleted_keyed [OF P])
    qed
  qed (use Suc.prems rs in simp)
qed simp

lemma diff_trees_keyed: "diff_trees fuel cx thr base target st = Inr (D, st') \<Longrightarrow> distinct (map fst D)"
  using diff_recursive_keyed [OF append_closed_instances(1)] mark_deleted_keyed [OF append_closed_instances(1)]
  by (fastforce simp: diff_trees_def split: option.splits)

lemma diff_recursive_grows:
  assumes "diff_recursive k cx thr base target pre git (res, st) = Inr (res', st')"
  shows "prefix (map fst res) (map fst res')"
  using diff_recursive_keyed [OF append_closed_instances(2) assms] by simp

lemma longer_if_new_key:
  assumes "prefix (map fst res) (map fst res')" "map_of res k = None" "map_of res' k \<noteq> None"
  shows "length res' \<noteq> length res"
proof
  assume "length res' = length res"
  moreover obtain zs where zs: "map fst res' = map fst res @ zs" using assms(1) by (auto simp: prefix_def)
  moreover have "length res' = length res + length zs" using arg_cong [OF zs, of length] by simp
  ultimately have "zs = []" by simp
  with zs have "map fst res' = map fst res" by simp
  then have "fst ` set res' = fst ` set res" by (metis set_map)
  with assms(2,3) show False by (simp add: map_of_eq_None_iff)
qed

text \<open>What the test for a git repository says of a tree object.\<close>

lemma contains_git_iff:
  assumes "nested False k cx s h" "store_read (tc_env cx) (tc_ops cx) s h None = Inr data" "is_tree_bytes data"
  shows "tree_contains_git_dir cx s h \<longleftrightarrow> is_tree_at (entry_at cx s h [''.git''])"
proof -
  obtain es where es: "read_tree cx s h = Inr (Normal es)" "distinct (map ename es)"
    and bl: "\<And>nm b mt sz md t. Blob nm b mt sz md \<in> set es \<Longrightarrow> read_tree cx s b \<noteq> Inr t"
    by (rule nestedE [OF assms(1)]) blast
  have "tree_deserialise (tc_from_json cx) data = Inr (Normal es)"
    using es(1) assms(2) by (simp add: read_tree_def split: if_splits)
  then have "tree_contains_git_dir cx s h \<longleftrightarrow> (\<exists>e \<in> set es. ename e = ''.git'' \<and> is_tree_at (Some e))"
    using assms(2,3) by (auto simp: tree_contains_git_dir_def list_ex_iff is_tree_at_def split: tree_entry.splits)
  also have "\<dots> \<longleftrightarrow> is_tree_at (find (\<lambda>e. ename e = ''.git'') es)"
  proof (cases "find (\<lambda>e. ename e = ''.git'') es")
    case None
    then have "is_tree_at (find (\<lambda>e. ename e = ''.git'') es) = False" by (simp only:) (simp add: is_tree_at_def)
    moreover have "\<forall>e \<in> set es. ename e \<noteq> ''.git''" using None by (simp add: find_None_iff)
    ultimately show ?thesis by blast
  next
    case (Some e)
    then have e: "e \<in> set es" "ename e = ''.git''" using iffD1 [OF find_by_key [OF es(2)] Some] by blast+
    have "x = e" if "x \<in> set es" "ename x = ''.git''" for x
      using find_by_key [OF es(2), of "''.git''" x] that Some by simp
    with e Some show ?thesis by (metis (no_types, lifting))
  qed
  also have "find (\<lambda>e. ename e = ''.git'') es = entry_at cx s h [''.git'']"
    using entry_at_Cons [where n = "''.git''" and p = "[]", OF es(1) bl] by (cases "find (\<lambda>e. ename e = ''.git'') es") simp_all
  finally show ?thesis .
qed

section \<open>The diff of one level\<close>

definition sub_at :: "'s tree_ctx \<Rightarrow> 's \<Rightarrow> tree_entry option \<Rightarrow> string list \<Rightarrow> tree_entry option" where
  "sub_at cx s old q = (case old of None \<Rightarrow> None
     | Some e \<Rightarrow> if q = [] then Some e else (case e of TreeE _ c _ _ _ \<Rightarrow> entry_at cx s c q | _ \<Rightarrow> None))"

lemma level_sub: "level n cx s at es \<Longrightarrow> at (m # q) = sub_at cx s (find (\<lambda>e. ename e = m) es) q"
  by (simp add: level_def sub_at_def)

text \<open>The part of one name is filled with \<open>d\<close> at the top and deletions of old leaves below.\<close>

definition filled ::
    "string list \<Rightarrow> string \<Rightarrow> (string list \<Rightarrow> tree_entry option) \<Rightarrow> diff_entry option \<Rightarrow> diff_map \<Rightarrow> diff_map \<Rightarrow> bool" where
  "filled pre n old d res res' \<longleftrightarrow> same_off (within (pre @ [n])) res res' \<and>
     (\<forall>q. okpath q \<longrightarrow> at_path res' (pre @ n # q) =
        (if q = [] then d else if leaf_content (old q) \<noteq> None then Some Deleted else None))"

lemma filled_change:
  assumes "filled pre n old d res res'" "\<And>q. b (n # q) = old q" "\<not> is_tree_at (t [n])" "\<And>q. q \<noteq> [] \<Longrightarrow> t (n # q) = None"
    "d = change_here thr git (old []) (t [n]) childless"
  shows "same_off (within (pre @ [n])) res res' \<and> (\<forall>q. okpath q \<longrightarrow> at_path res' (pre @ n # q) = change thr G git b t (n # q))"
proof -
  have nw: "\<not> taken_whole thr git x (t [n])" for x
    using assms(3) by (auto simp: taken_whole_def is_tree_at_def split: option.splits tree_entry.splits)
  have one: "change thr G git b t [n] = d"
    using assms(2) [of "[]"] assms(3,5) by (auto simp: change_here_def is_tree_at_def split: option.splits tree_entry.splits)
  have "at_path res' (pre @ n # q) = change thr G git b t (n # q)" if q: "okpath q" for q
  proof (cases q)
    case Nil
    with assms(1) one q show ?thesis by (simp add: filled_def)
  next
    case (Cons m q')
    have "change thr G git b t (n # q) = (if leaf_content (b (n # q)) \<noteq> None then Some Deleted else None)"
      using nw Cons by (simp add: change_gone [of "\<lambda>r. t (n # r)"] assms(4))
    with assms(1) q Cons show ?thesis by (simp add: filled_def assms(2))
  qed
  with assms(1) show ?thesis by (simp add: filled_def)
qed

lemma filled_same:
  assumes "fresh (within (pre @ [n])) res" "okpath pre" "okname n" "\<And>q. q \<noteq> [] \<Longrightarrow> leaf_content (old q) = None"
  shows "filled pre n old None res res"
  using assms by (auto simp: filled_def fresh_def within_def)

lemma filled_update:
  assumes "filled pre n old d0 res res1" "okpath pre" "okname n"
  shows "filled pre n old (Some d) res (AList.update (join_path (pre @ [n])) d res1)"
proof -
  have ok: "okpath (pre @ [n])" using assms(2,3) by simp
  have "same_off (within (pre @ [n])) res1 (AList.update (join_path (pre @ [n])) d res1)"
    by (rule same_off_update [OF ok]) (simp_all add: within_def)
  from same_off_trans [of "within (pre @ [n])", OF _ this] assms(1)
  have "same_off (within (pre @ [n])) res (AList.update (join_path (pre @ [n])) d res1)" by (simp add: filled_def)
  moreover have "at_path (AList.update (join_path (pre @ [n])) d res1) (pre @ n # q) =
      (if q = [] then Some d else at_path res1 (pre @ n # q))" if "okpath q" for q
    using at_update [of "pre @ n # q" "pre @ [n]" d res1] ok that by auto
  ultimately show ?thesis using assms(1) by (simp add: filled_def)
qed

lemma filled_deleted:
  assumes "nested False k cx (ts_store st) c" "tstate_ok cx st" "okpath pre" "okname n" "fresh (within (pre @ [n])) res"
    "\<And>q. q \<noteq> [] \<Longrightarrow> old q = entry_at cx (ts_store st) c q"
  shows "\<exists>res' st'. mark_deleted_tree k cx c (join_path (pre @ [n])) (res, st) = Inr (res', st') \<and>
    (ts_store st' = ts_store st \<and> tstate_ok cx st') \<and> filled pre n old None res res'"
proof -
  have ok: "okpath (pre @ [n])" using assms(3,4) by simp
  have "fresh (below (pre @ [n])) res" using assms(5) below_within by (fastforce simp: fresh_def)
  from mark_deleted_ok [OF assms(1,2) ok this] obtain r1 st1 where
    1: "mark_deleted_tree k cx c (join_path (pre @ [n])) (res, st) = Inr (r1, st1)"
      "ts_store st1 = ts_store st" "tstate_ok cx st1" "same_off (below (pre @ [n])) res r1"
      "\<forall>q. okpath q \<longrightarrow> q \<noteq> [] \<longrightarrow> at_path r1 ((pre @ [n]) @ q) =
         (if leaf_content (entry_at cx (ts_store st) c q) \<noteq> None then Some Deleted else None)" by blast
  have "at_path r1 (pre @ [n]) = None"
    using 1(4) assms(5) ok by (simp add: same_off_def below_def fresh_def within_def)
  then have "filled pre n old None res r1"
    using 1(5) same_off_mono [OF 1(4) below_within] assms(6) by (auto simp: filled_def)
  with 1 show ?thesis by blast
qed

text \<open>A leaf replaces whatever was there: the unwinding of an old tree, then the entry.\<close>

definition replace_with ::
    "(hash \<Rightarrow> string \<Rightarrow> diff_map \<times> 'r \<Rightarrow> (diff_map \<times> 'r) result) \<Rightarrow> tree_entry option \<Rightarrow> string \<Rightarrow>
       diff_entry \<Rightarrow> diff_map \<times> 'r \<Rightarrow> (diff_map \<times> 'r) result" where
  "replace_with mark old path d rs =
     (case old of Some (TreeE _ c _ _ _) \<Rightarrow> rbind (mark c path rs) (\<lambda>(res, st). Inr (AList.update path d res, st))
      | _ \<Rightarrow> Inr (AList.update path d (fst rs), snd rs))"

lemma replace_ok:
  assumes "tstate_ok cx st" "okpath pre" "okname n" "fresh (within (pre @ [n])) res"
    "\<And>nm c mt sz j. old = Some (TreeE nm c mt sz j) \<Longrightarrow> nested False k cx (ts_store st) c"
  obtains res' st' where "replace_with (mark_deleted_tree k cx) old (join_path (pre @ [n])) d (res, st) = Inr (res', st')"
    "ts_store st' = ts_store st" "tstate_ok cx st'" "filled pre n (sub_at cx (ts_store st) old) (Some d) res res'"
proof (cases "is_tree_at old")
  case True
  then obtain nm c mt sz j where o: "old = Some (TreeE nm c mt sz j)" by (auto simp: is_tree_at_def split: option.splits tree_entry.splits)
  from filled_deleted [OF assms(5) [OF o] assms(1-4), of "sub_at cx (ts_store st) old"] o obtain r1 st1 where
    "mark_deleted_tree k cx c (join_path (pre @ [n])) (res, st) = Inr (r1, st1)"
    "ts_store st1 = ts_store st" "tstate_ok cx st1" "filled pre n (sub_at cx (ts_store st) old) None res r1"
    by (auto simp: sub_at_def)
  with o filled_update [OF this(4) assms(2,3)] show ?thesis by (intro that) (simp_all add: replace_with_def)
next
  case False
  then have "leaf_content (sub_at cx (ts_store st) old q) = None" if "q \<noteq> []" for q
    using that by (auto simp: sub_at_def is_tree_at_def split: option.splits tree_entry.splits)
  from filled_update [OF filled_same [OF assms(4,2,3) this] assms(2,3)] False assms(1) show ?thesis
    by (intro that) (auto simp: replace_with_def is_tree_at_def split: option.splits tree_entry.splits)
qed

lemma diff_blob_ok:
  assumes "tstate_ok cx st" "okpath pre" "okname n" "fresh (within (pre @ [n])) res"
    "\<And>nm c mt sz j. old = Some (TreeE nm c mt sz j) \<Longrightarrow> nested False k cx (ts_store st) c"
  shows "\<exists>res' st'. diff_blob (mark_deleted_tree k cx) old (join_path (pre @ [n])) h sz mtime mode (res, st) = Inr (res', st') \<and>
    (ts_store st' = ts_store st \<and> tstate_ok cx st') \<and> 
    filled pre n (sub_at cx (ts_store st) old) (change_here thr git old (Some (Blob n h mtime sz mode)) childless) res res'"
proof (cases "is_blob_at old")
  case True
  then obtain nm bh mt bsz bm where o: "old = Some (Blob nm bh mt bsz bm)"
    by (auto simp: is_blob_at_def split: option.splits tree_entry.splits)
  then have same: "filled pre n (sub_at cx (ts_store st) old) None res res"
    using filled_same [OF assms(4,2,3)] by (simp add: sub_at_def)
  show ?thesis
  proof (cases "bh \<noteq> h \<or> bm \<noteq> mode")
    case True
    then have "diff_blob (mark_deleted_tree k cx) old (join_path (pre @ [n])) h sz mtime mode (res, st) =
        Inr (AList.update (join_path (pre @ [n])) (Modified h sz mtime mode) res, st)"
      and "change_here thr git old (Some (Blob n h mtime sz mode)) childless = Some (Modified h sz mtime mode)"
      by (auto simp: o diff_blob_def is_blob_at_def change_here_def)
    with filled_update [OF same assms(2,3)] assms(1) show ?thesis by simp
  next
    case False
    then have "diff_blob (mark_deleted_tree k cx) old (join_path (pre @ [n])) h sz mtime mode (res, st) = Inr (res, st)"
      and "change_here thr git old (Some (Blob n h mtime sz mode)) childless = None"
      by (auto simp: o diff_blob_def change_here_def)
    with same assms(1) show ?thesis by simp
  qed
next
  case False
  have "diff_blob (mark_deleted_tree k cx) old (join_path (pre @ [n])) h sz mtime mode (res, st) =
      replace_with (mark_deleted_tree k cx) old (join_path (pre @ [n])) (Added h sz mtime mode) (res, st)"
    using False by (auto simp: diff_blob_def replace_with_def is_blob_at_def split: option.splits tree_entry.splits)
  note eq = this
  have x: "change_here thr git old (Some (Blob n h mtime sz mode)) childless = Some (Added h sz mtime mode)"
    using False by (cases old rule: leaf_content.cases) (auto simp: change_here_def is_blob_at_def)
  obtain r1 st1 where
    r: "replace_with (mark_deleted_tree k cx) old (join_path (pre @ [n])) (Added h sz mtime mode) (res, st) = Inr (r1, st1)"
    "ts_store st1 = ts_store st" "tstate_ok cx st1"
    "filled pre n (sub_at cx (ts_store st) old) (Some (Added h sz mtime mode)) res r1"
    by (rule replace_ok [OF assms(1-4), of old k]) (rule assms(5))
  show ?thesis unfolding eq x by (intro exI conjI) (rule r)+
qed

lemma diff_symlink_ok:
  assumes "tstate_ok cx st" "okpath pre" "okname n" "fresh (within (pre @ [n])) res"
    "\<And>nm c mt sz j. old = Some (TreeE nm c mt sz j) \<Longrightarrow> nested False k cx (ts_store st) c"
  shows "\<exists>res' st'. diff_symlink (mark_deleted_tree k cx) old (join_path (pre @ [n])) target mtime (res, st) = Inr (res', st') \<and>
    (ts_store st' = ts_store st \<and> tstate_ok cx st') \<and> 
    filled pre n (sub_at cx (ts_store st) old) (change_here thr git old (Some (Symlink n target mtime)) childless) res res'"
proof (cases "\<exists>nm bt mt. old = Some (Symlink nm bt mt)")
  case True
  then obtain nm bt mt where o: "old = Some (Symlink nm bt mt)" by blast
  then have same: "filled pre n (sub_at cx (ts_store st) old) None res res"
    using filled_same [OF assms(4,2,3)] by (simp add: sub_at_def)
  show ?thesis
  proof (cases "bt = target")
    case True
    then have "diff_symlink (mark_deleted_tree k cx) old (join_path (pre @ [n])) target mtime (res, st) = Inr (res, st)"
      and "change_here thr git old (Some (Symlink n target mtime)) childless = None"
      by (auto simp: o diff_symlink_def change_here_def)
    with same assms(1) show ?thesis by simp
  next
    case False
    then have "diff_symlink (mark_deleted_tree k cx) old (join_path (pre @ [n])) target mtime (res, st) =
        Inr (AList.update (join_path (pre @ [n])) (SymlinkD target mtime True) res, st)"
      and "change_here thr git old (Some (Symlink n target mtime)) childless = Some (SymlinkD target mtime True)"
      by (auto simp: o diff_symlink_def change_here_def)
    with filled_update [OF same assms(2,3)] assms(1) show ?thesis by simp
  qed
next
  case False
  let ?d = "SymlinkD target mtime (old \<noteq> None)"
  have "diff_symlink (mark_deleted_tree k cx) old (join_path (pre @ [n])) target mtime (res, st) =
      replace_with (mark_deleted_tree k cx) old (join_path (pre @ [n])) ?d (res, st)"
    using False by (auto simp: diff_symlink_def replace_with_def split: option.splits tree_entry.splits)
  note eq = this
  have x: "change_here thr git old (Some (Symlink n target mtime)) childless = Some ?d"
    using False by (cases old rule: leaf_content.cases) (auto simp: change_here_def)
  obtain r1 st1 where
    r: "replace_with (mark_deleted_tree k cx) old (join_path (pre @ [n])) ?d (res, st) = Inr (r1, st1)"
    "ts_store st1 = ts_store st" "tstate_ok cx st1" "filled pre n (sub_at cx (ts_store st) old) (Some ?d) res r1"
    by (rule replace_ok [OF assms(1-4), of old k]) (rule assms(5))
  show ?thesis unfolding eq x by (intro exI conjI) (rule r)+
qed

lemma entries_by_name_distinct:
  assumes "distinct (map ename es)"
  shows "entries_by_name es = map (\<lambda>e. (ename e, e)) es"
proof -
  have up: "k \<notin> fst ` set m \<Longrightarrow> AList.update k v m = m @ [(k, v)]" for k m and v :: tree_entry
    by (induction m) auto
  show ?thesis using assms
  proof (induction es rule: rev_induct)
    case (snoc e es)
    then have "entries_by_name es = map (\<lambda>e. (ename e, e)) es" "ename e \<notin> ename ` set es" by simp_all
    then show ?case using up [of "ename e" "map (\<lambda>e. (ename e, e)) es" e] by (simp add: entries_by_name_def image_image)
  qed (simp add: entries_by_name_def)
qed

lemma map_of_by_name: "map_of (map (\<lambda>e. (ename e, e)) es) n = find (\<lambda>e. ename e = n) es"
  by (induction es) auto

definition walk_ok :: "nat \<Rightarrow> 's tree_ctx \<Rightarrow> u64 \<Rightarrow> bool" where
  "walk_ok k cx thr \<longleftrightarrow> (\<forall>base target pre git res st.
     (\<forall>b. base = Some b \<longrightarrow> nested False k cx (ts_store st) b) \<longrightarrow> nested False k cx (ts_store st) target \<longrightarrow>
     tstate_ok cx st \<longrightarrow> okpath pre \<longrightarrow> fresh (below pre) res \<longrightarrow>
     (\<exists>res' st'. diff_recursive k cx thr base target (join_path pre) git (res, st) = Inr (res', st') \<and>
        (ts_store st' = ts_store st \<and> tstate_ok cx st') \<and> same_off (below pre) res res' \<and>
        (\<forall>q. okpath q \<longrightarrow> q \<noteq> [] \<longrightarrow> at_path res' (pre @ q) =
           change thr (tree_contains_git_dir cx (ts_store st)) git
             (base_at cx (ts_store st) base) (entry_at cx (ts_store st) target) q)))"

lemma okpath_prefix: "prefix r q \<Longrightarrow> okpath q \<Longrightarrow> okpath r"
  by (auto simp: prefix_def)

text \<open>A new directory adds an entry to the diff exactly if it has a child.\<close>

lemma diff_childless:
  assumes "nested False k cx (ts_store st) h" "tstate_ok cx st" "\<forall>m. entry_at cx (ts_store st) h [m] = None"
  shows "\<exists>st'. diff_recursive k cx thr None h pre git (res, st) = Inr (res, st')"
proof -
  obtain n es st1 where n: "k = Suc n" "load_all_entries cx st h = Inr (es, st1)" "level n cx (ts_store st) (entry_at cx (ts_store st) h) es"
    by (rule nested_level [OF assms(1,2)])
  have "es = []"
  proof (rule ccontr)
    assume "es \<noteq> []"
    then have "hd es \<in> set es" by simp
    from level_entry(1) [OF n(3) this, of "[]"] assms(3) show False by simp
  qed
  with n(1,2) show ?thesis by (simp add: diff_recursive_step entries_by_name_def del: diff_recursive.simps)
qed

lemma child_changes:
  assumes "nested False k cx (ts_store st) h" "tstate_ok cx st" "entry_at cx (ts_store st) h [m] \<noteq> None"
  shows "\<exists>q. okpath q \<and> q \<noteq> [] \<and> change thr G git (\<lambda>_. None) (entry_at cx (ts_store st) h) q \<noteq> None"
  using assms
proof (induction k arbitrary: h m git)
  case 0
  then show ?case by simp
next
  case (Suc k)
  let ?at = "entry_at cx (ts_store st) h"
  obtain n es st1 where n: "Suc k = Suc n" "level n cx (ts_store st) ?at es" by (rule nested_level [OF Suc.prems(1,2)])
  have "m \<in> ename ` set es" using Suc.prems(3) level_absent [OF n(2), of m "[]"] by metis
  then obtain e where e: "e \<in> set es" "m = ename e" by blast
  note le = level_entry [OF n(2) e(1)]
  have ok: "okpath [m]" using le(2) e(2) by simp
  have at: "?at [m] = Some e" using le(1) [of "[]"] e(2) by simp
  show ?case
  proof (cases "change thr G git (\<lambda>_. None) ?at [m] = None")
    case False
    with ok show ?thesis by blast
  next
    case True
    then obtain nm c mt sz j x where c: "e = TreeE nm c mt sz j" "?at [m, x] \<noteq> None" "\<not> taken_whole thr git None (Some e)"
      using at by (auto simp: change_here_def is_tree_at_def split: tree_entry.splits if_splits)
    have sub: "?at (m # r) = entry_at cx (ts_store st) c r" if "r \<noteq> []" for r using le(1) [of r] e(2) c(1) that by simp
    have "nested False k cx (ts_store st) c" using level_nested [OF n(2), of nm c mt sz j] e(1) c(1) n(1) by simp
    moreover have "entry_at cx (ts_store st) c [x] \<noteq> None" using sub [of "[x]"] c(2) by simp
    ultimately obtain q where q: "okpath q" "q \<noteq> []"
      "change thr G (git \<or> m = ''.git'' \<or> G c) (\<lambda>_. None) (entry_at cx (ts_store st) c) q \<noteq> None"
      using Suc.IH [OF _ Suc.prems(2)] by blast
    obtain a q' where qa: "q = a # q'" using q(2) by (cases q) auto
    have "change thr G (git \<or> m = ''.git'' \<or> G c) (\<lambda>_. None) (\<lambda>r. ?at (m # r)) q =
        change thr G (git \<or> m = ''.git'' \<or> G c) (\<lambda>_. None) (entry_at cx (ts_store st) c) q"
      by (rule change_cong) (simp_all add: sub)
    then have "change thr G git (\<lambda>_. None) ?at (m # q) \<noteq> None" using q(3) c(1,3) at by (simp add: qa)
    with q(1) ok show ?thesis by (intro exI [of _ "m # q"]) simp
  qed
qed

lemma base_tree_of_ok:
  assumes "okpath pre" "okname n" "fresh (within (pre @ [n])) res"
  obtains bt res0 where "base_tree_of old (join_path (pre @ [n])) res = (bt, res0)"
    "same_off (within (pre @ [n])) res res0" "fresh (below (pre @ [n])) res0"
    "\<And>q. q \<noteq> [] \<Longrightarrow> sub_at cx s old q = base_at cx s bt q" "bt = None \<longleftrightarrow> \<not> is_tree_at old"
    "at_path res0 (pre @ [n]) = (if leaf_content old \<noteq> None then Some Deleted else None)"
    "\<And>b. bt = Some b \<Longrightarrow> \<exists>nm mt sz j. old = Some (TreeE nm b mt sz j)"
proof -
  have ok: "okpath (pre @ [n])" using assms(1,2) by simp
  have f: "fresh (below (pre @ [n])) res" "at_path res (pre @ [n]) = None"
    using assms(3) ok below_within by (fastforce simp: fresh_def, simp add: fresh_def within_def)
  let ?r = "AList.update (join_path (pre @ [n])) Deleted res"
  have u: "same_off (within (pre @ [n])) res ?r" "at_path ?r (pre @ [n]) = Some Deleted"
    using same_off_update [OF ok, of "within (pre @ [n])" res Deleted] at_update [OF ok ok, of Deleted res]
    by (simp_all add: within_def)
  have "at_path ?r p = None" if "strict_prefix (pre @ [n]) p" "okpath p" for p
  proof -
    from that(1) have "p \<noteq> []" "p \<noteq> pre @ [n]" by (auto simp: strict_prefix_def)
    with f(1) that at_update [OF that(2) ok, of Deleted res] show ?thesis by (simp add: fresh_def below_def)
  qed
  then have "fresh (below (pre @ [n])) ?r" by (simp add: fresh_def below_def)
  with f u that show thesis
    by (cases old rule: leaf_content.cases) (auto simp: base_tree_of_def sub_at_def base_at_def is_tree_at_def)
qed

lemma diff_tree_ok:
  assumes w: "walk_ok k cx thr" and st: "tstate_ok cx st" and ok: "okpath pre" "okname n" and f: "fresh (within (pre @ [n])) res"
    and old: "\<And>nm c mt sz j. old = Some (TreeE nm c mt sz j) \<Longrightarrow> nested False k cx (ts_store st) c"
    and new: "nested False k cx (ts_store st) h"
    and b: "\<And>q. b (n # q) = sub_at cx (ts_store st) old q"
    and t: "\<And>q. t (n # q) = sub_at cx (ts_store st) (Some (TreeE n h mtime sz cnt)) q"
    and G: "G = tree_contains_git_dir cx (ts_store st)" and cg: "child_git \<longleftrightarrow> git \<or> n = ''.git'' \<or> G h"
  shows "\<exists>res' st'. diff_tree (diff_recursive k cx thr) thr git child_git old (join_path (pre @ [n])) h mtime sz cnt (res, st) = Inr (res', st') \<and>
    (ts_store st' = ts_store st \<and> tstate_ok cx st') \<and> same_off (within (pre @ [n])) res res' \<and>
    (\<forall>q. okpath q \<longrightarrow> at_path res' (pre @ n # q) = change thr G git b t (n # q))"
proof -
  let ?p = "join_path (pre @ [n])" and ?s = "ts_store st"
  have okn: "okpath (pre @ [n])" using ok by simp
  obtain bt res0 where bt: "base_tree_of old ?p res = (bt, res0)"
    "same_off (within (pre @ [n])) res res0" "fresh (below (pre @ [n])) res0"
    "\<And>q. q \<noteq> [] \<Longrightarrow> sub_at cx ?s old q = base_at cx ?s bt q" "bt = None \<longleftrightarrow> \<not> is_tree_at old"
    "at_path res0 (pre @ [n]) = (if leaf_content old \<noteq> None then Some Deleted else None)"
    "\<And>b. bt = Some b \<Longrightarrow> \<exists>nm mt sz j. old = Some (TreeE nm b mt sz j)"
    by (rule base_tree_of_ok [OF ok f]) blast
  have bn: "b [n] = old" and tn: "t [n] = Some (TreeE n h mtime sz cnt)" using b [of "[]"] t [of "[]"] by (auto simp: sub_at_def split: option.splits)
  have whole: "taken_whole thr git (b [n]) (t [n]) \<longleftrightarrow> bt = None \<and> 0 < thr \<and> thr \<le> sz \<and> \<not> git"
    using bt(5) by (simp add: taken_whole_def bn tn)
  have up: "same_off (within (pre @ [n])) res (AList.update ?p d r)" "at_path (AList.update ?p d r) (pre @ [n]) = Some d"
    "\<And>q. okpath q \<Longrightarrow> q \<noteq> [] \<Longrightarrow> at_path (AList.update ?p d r) (pre @ n # q) = at_path r (pre @ n # q)"
    if "same_off (within (pre @ [n])) res r" for d r
    using that same_off_update [OF okn, of "within (pre @ [n])" r d] at_update [OF okn okn, of d r]
      at_update [OF _ okn, of "pre @ n # _" d r] okn same_off_trans [OF that, of "within (pre @ [n])"]
    by (auto simp: within_def)
  have empty0: "at_path res0 (pre @ n # q) = None" if "okpath q" "q \<noteq> []" for q
    using bt(3) that okn by (simp add: fresh_def below_def strict_prefix_def)
  show ?thesis
  proof (cases "taken_whole thr git (b [n]) (t [n])")
    case True
    let ?r = "AList.update ?p (AddedTree h sz mtime cnt) res0"
    have e: "diff_tree (diff_recursive k cx thr) thr git child_git old ?p h mtime sz cnt (res, st) = Inr (?r, st)"
      using True bt(1) by (simp add: whole diff_tree_def)
    have "at_path ?r (pre @ n # q) = change thr G git b t (n # q)" if q: "okpath q" for q
    proof (cases q)
      case Nil
      have "change thr G git b t [n] = Some (AddedTree h sz mtime cnt)"
        using True bt(5) whole by (simp add: change_here_def tn bn)
      with Nil up(2) [OF bt(2)] show ?thesis by simp
    next
      case (Cons m q')
      with up(3) [OF bt(2) q] empty0 [OF q] True show ?thesis by simp
    qed
    with e up(1) [OF bt(2)] st show ?thesis by blast
  next
    case False
    have "\<forall>b. bt = Some b \<longrightarrow> nested False k cx ?s b" using bt(7) old by blast
    with w new st okn bt(3) obtain r1 st1 where
      1: "diff_recursive k cx thr bt h ?p child_git (res0, st) = Inr (r1, st1)" "ts_store st1 = ?s" "tstate_ok cx st1"
        "same_off (below (pre @ [n])) res0 r1"
        "\<forall>q. okpath q \<longrightarrow> q \<noteq> [] \<longrightarrow> at_path r1 ((pre @ [n]) @ q) =
           change thr (tree_contains_git_dir cx ?s) child_git (base_at cx ?s bt) (entry_at cx ?s h) q"
      unfolding walk_ok_def by blast
    let ?r = "if bt = None \<and> length r1 = length res0 then AList.update ?p AddedEmptyDir r1 else r1"
    have so: "same_off (within (pre @ [n])) res r1"
      using same_off_trans [OF bt(2) same_off_mono [OF 1(4) below_within]] by simp
    have at1: "at_path r1 (pre @ [n]) = (if leaf_content old \<noteq> None then Some Deleted else None)"
      using 1(4) bt(6) okn by (simp add: same_off_def below_def)
    have child: "t [n, m] = entry_at cx ?s h [m]" for m using t [of "[m]"] by (simp add: sub_at_def)
    have childless: "length r1 = length res0 \<longleftrightarrow> (\<forall>m. t [n, m] = None)" if "bt = None"
    proof
      assume none: "\<forall>m. t [n, m] = None"
      with diff_childless [OF new st] obtain st' where
        "diff_recursive k cx thr None h ?p child_git (res0, st) = Inr (res0, st')" by (fastforce simp: child)
      with 1(1) that show "length r1 = length res0" by simp
    next
      assume len: "length r1 = length res0"
      show "\<forall>m. t [n, m] = None"
      proof (rule ccontr)
        assume "\<not> (\<forall>m. t [n, m] = None)"
        then obtain m where "entry_at cx ?s h [m] \<noteq> None" by (auto simp: child)
        from child_changes [OF new st this, of thr "tree_contains_git_dir cx ?s" child_git] obtain q where
          q: "okpath q" "q \<noteq> []"
          "change thr (tree_contains_git_dir cx ?s) child_git (\<lambda>_. None) (entry_at cx ?s h) q \<noteq> None" by blast
        have "base_at cx ?s None = (\<lambda>_. None)" by (simp add: fun_eq_iff base_at_def)
        then have "at_path r1 (pre @ n # q) \<noteq> None" using 1(5) q that by simp
        with longer_if_new_key [OF diff_recursive_grows [OF 1(1)], of "join_path (pre @ n # q)"] empty0 [OF q(1,2)] len
        show False by (simp add: at_path_def)
      qed
    qed
    have e: "diff_tree (diff_recursive k cx thr) thr git child_git old ?p h mtime sz cnt (res, st) = Inr (?r, st1)"
      using False bt(1) 1(1) unfolding whole by (auto simp: diff_tree_def)
    have "at_path ?r (pre @ n # q) = change thr G git b t (n # q)" if q: "okpath q" for q
    proof (cases q)
      case Nil
      have leaf: "leaf_content old \<noteq> None \<longleftrightarrow> old \<noteq> None \<and> \<not> is_tree_at old"
        by (cases old rule: leaf_content.cases) (simp_all add: is_tree_at_def)
      have "change thr G git b t [n] = (if bt \<noteq> None then None else if \<forall>m. t [n, m] = None then Some AddedEmptyDir
          else if old \<noteq> None then Some Deleted else None)"
        using False bt(5) by (simp add: change_here_def tn bn)
      moreover have "at_path ?r (pre @ [n]) = (if bt = None \<and> length r1 = length res0 then Some AddedEmptyDir
          else if leaf_content old \<noteq> None then Some Deleted else None)"
        using at1 up(2) [OF so] by simp
      ultimately show ?thesis using childless bt(5) leaf Nil by auto
    next
      case (Cons m q')
      then have ne: "q \<noteq> []" by simp
      have "at_path ?r (pre @ n # q) = at_path r1 (pre @ n # q)" using up(3) [OF so q ne] by simp
      also have "\<dots> = change thr G child_git (base_at cx ?s bt) (entry_at cx ?s h) q" using 1(5) q ne G by simp
      also have "\<dots> = change thr G child_git (\<lambda>r. b (n # r)) (\<lambda>r. t (n # r)) q"
      proof (rule change_cong)
        show "base_at cx ?s bt r = b (n # r)" if "r \<noteq> []" for r using bt(4) [OF that] by (simp add: b)
        show "entry_at cx ?s h r = t (n # r)" if "r \<noteq> []" for r using that by (simp add: t sub_at_def)
      qed
      also have "\<dots> = change thr G git b t (n # q)" using False Cons cg by (simp add: tn)
      finally show ?thesis .
    qed
    then have x: "\<forall>q. okpath q \<longrightarrow> at_path ?r (pre @ n # q) = change thr G git b t (n # q)" by blast
    have y: "same_off (within (pre @ [n])) res ?r" using so up(1) [OF so] by simp
    show ?thesis by (intro exI conjI) (rule e 1(2) 1(3) y x)+
  qed
qed

section \<open>The diff of two snapshots\<close>

lemma drop_step_ok:
  assumes st: "tstate_ok cx st" and ok: "okpath pre" "okname n" and f: "fresh (within (pre @ [n])) res"
    and c: "\<And>nm c mt sz j. be = TreeE nm c mt sz j \<Longrightarrow> nested False k cx (ts_store st) c"
    and b: "\<And>q. b (n # q) = sub_at cx (ts_store st) (Some be) q" and t: "\<And>q. t (n # q) = None"
  shows "\<exists>res' st'. drop_step k cx (join_path pre) (n, be) (res, st) = Inr (res', st') \<and>
    (ts_store st' = ts_store st \<and> tstate_ok cx st') \<and> same_off (within (pre @ [n])) res res' \<and>
    (\<forall>q. okpath q \<longrightarrow> at_path res' (pre @ n # q) = change thr G git b t (n # q))"
proof (cases "leaf_content (Some be)")
  case None
  then obtain nm h mt sz j where be: "be = TreeE nm h mt sz j" by (cases be) auto
  from filled_deleted [OF c [OF be] st ok f, of "sub_at cx (ts_store st) (Some be)"] be obtain r1 st1 where
    1: "mark_deleted_tree k cx h (join_path (pre @ [n])) (res, st) = Inr (r1, st1)"
      "ts_store st1 = ts_store st" "tstate_ok cx st1" "filled pre n (sub_at cx (ts_store st) (Some be)) None res r1"
    by (auto simp: sub_at_def)
  have e: "drop_step k cx (join_path pre) (n, be) (res, st) = Inr (r1, st1)"
    using be 1(1) by (simp add: drop_step_def join_snoc [OF ok(1)])
  from filled_change [OF 1(4) b, where t = t and thr = thr and git = git and G = G] be t have
    x: "same_off (within (pre @ [n])) res r1" "\<forall>q. okpath q \<longrightarrow> at_path r1 (pre @ n # q) = change thr G git b t (n # q)"
    by (auto simp: sub_at_def change_here_def is_tree_at_def)
  show ?thesis by (intro exI conjI) (rule e 1(2) 1(3) x)+
next
  case (Some l)
  let ?r = "AList.update (join_path (pre @ [n])) Deleted res"
  have "leaf_content (sub_at cx (ts_store st) (Some be) q) = None" if "q \<noteq> []" for q
    using that Some by (cases be) (auto simp: sub_at_def)
  from filled_update [OF filled_same [OF f ok this] ok] have
    fl: "filled pre n (sub_at cx (ts_store st) (Some be)) (Some Deleted) res ?r" .
  have e: "drop_step k cx (join_path pre) (n, be) (res, st) = Inr (?r, st)"
    using Some by (cases be) (auto simp: drop_step_def join_snoc [OF ok(1)])
  from filled_change [OF fl b, where t = t and thr = thr and git = git and G = G] Some t have
    x: "same_off (within (pre @ [n])) res ?r" "\<forall>q. okpath q \<longrightarrow> at_path ?r (pre @ n # q) = change thr G git b t (n # q)"
    by (auto simp: sub_at_def change_here_def is_tree_at_def)
  show ?thesis by (intro exI conjI) (rule e refl st x)+
qed

lemma diff_step_ok:
  assumes w: "walk_ok k cx thr" and st: "tstate_ok cx st" and ok: "okpath pre" and f: "fresh (within (pre @ [ename e])) res"
    and lb: "level k cx (ts_store st) b bes" and lt: "level k cx (ts_store st) t tes" and e: "e \<in> set tes"
    and G: "G = tree_contains_git_dir cx (ts_store st)"
  shows "\<exists>res' st'. diff_step k cx thr (join_path pre) git (map (\<lambda>e. (ename e, e)) bes) e (res, st) = Inr (res', st') \<and>
    (ts_store st' = ts_store st \<and> tstate_ok cx st') \<and> same_off (within (pre @ [ename e])) res res' \<and>
    (\<forall>q. okpath q \<longrightarrow> at_path res' (pre @ ename e # q) = change thr G git b t (ename e # q))"
proof -
  let ?old = "find (\<lambda>x. ename x = ename e) bes"
  have okn: "okname (ename e)" by (rule level_entry(2) [OF lt e])
  have b: "b (ename e # q) = sub_at cx (ts_store st) ?old q" for q by (rule level_sub [OF lb])
  have t: "t (ename e # q) = sub_at cx (ts_store st) (Some e) q" for q
    using level_entry(1) [OF lt e] by (simp add: sub_at_def)
  have old: "nested False k cx (ts_store st) c" if "?old = Some (TreeE nm c mt sz j)" for nm c mt sz j
    using level_nested [OF lb] that by (metis find_Some_iff nth_mem)
  have on: "sub_at cx (ts_store st) ?old [] = ?old" by (simp add: sub_at_def split: option.splits)
  have tn: "t [ename e] = Some e" using t [of "[]"] by (simp add: sub_at_def)
  have go: ?thesis if r: "diff_step k cx thr (join_path pre) git (map (\<lambda>e. (ename e, e)) bes) e (res, st) = Inr (res', st')"
      "ts_store st' = ts_store st" "tstate_ok cx st'"
      "filled pre (ename e) (sub_at cx (ts_store st) ?old) (change_here thr git ?old (Some e) True) res res'"
      "\<not> is_tree_at (Some e)" for res' st'
  proof -
    have tl: "t (ename e # q) = None" if "q \<noteq> []" for q
      using that r(5) t [of q] by (cases e) (auto simp: sub_at_def is_tree_at_def)
    from filled_change [where b = b and t = t and G = G, OF r(4) b _ tl, of thr git True] r(5) on tn
    have x: "same_off (within (pre @ [ename e])) res res'"
      "\<forall>q. okpath q \<longrightarrow> at_path res' (pre @ ename e # q) = change thr G git b t (ename e # q)" by auto
    show ?thesis by (intro exI conjI) (rule r x)+
  qed
  note rp = join_snoc [OF ok, of "ename e"] and mo = map_of_by_name [of bes "ename e"]
  show ?thesis
  proof (cases e)
    case (Blob n h mt sz md)
    obtain r1 st1 where 1: "diff_blob (mark_deleted_tree k cx) ?old (join_path (pre @ [ename e])) h sz mt md (res, st) = Inr (r1, st1)"
      "ts_store st1 = ts_store st" "tstate_ok cx st1" 
      "filled pre (ename e) (sub_at cx (ts_store st) ?old) (change_here thr git ?old (Some (Blob (ename e) h mt sz md)) True) res r1"
      using diff_blob_ok [OF st ok okn f, of ?old k h sz mt md] old by blast
    show ?thesis by (rule go [OF _ 1(2,3)]) (use 1 Blob rp mo in \<open>simp_all add: diff_step_def is_tree_at_def\<close>)
  next
    case (Symlink n tgt mt)
    obtain r1 st1 where 1: "diff_symlink (mark_deleted_tree k cx) ?old (join_path (pre @ [ename e])) tgt mt (res, st) = Inr (r1, st1)"
      "ts_store st1 = ts_store st" "tstate_ok cx st1" 
      "filled pre (ename e) (sub_at cx (ts_store st) ?old) (change_here thr git ?old (Some (Symlink (ename e) tgt mt)) True) res r1"
      using diff_symlink_ok [OF st ok okn f, of ?old k tgt mt] old by blast
    show ?thesis by (rule go [OF _ 1(2,3)]) (use 1 Symlink rp mo in \<open>simp_all add: diff_step_def is_tree_at_def\<close>)
  next
    case (TreeE n h mt sz cnt)
    have h: "nested False k cx (ts_store st) h" using level_nested [OF lt] e TreeE by blast
    let ?cg = "git \<or> n = ''.git'' \<or> tree_contains_git_dir cx (ts_store st) h"
    have "diff_step k cx thr (join_path pre) git (map (\<lambda>e. (ename e, e)) bes) e (res, st) =
        diff_tree (diff_recursive k cx thr) thr git ?cg ?old (join_path (pre @ [ename e])) h mt sz cnt (res, st)"
      using TreeE rp mo by (simp add: diff_step_def)
    moreover have "t (ename e # q) = sub_at cx (ts_store st) (Some (TreeE (ename e) h mt sz cnt)) q" for q using t TreeE by simp
    ultimately show ?thesis 
      using diff_tree_ok [OF w st ok okn f old h b _ G, where git = git and child_git = ?cg] TreeE G by simp
  qed
qed

lemma base_level:
  assumes "\<forall>b. base = Some b \<longrightarrow> nested False (Suc k) cx (ts_store st) b" "tstate_ok cx st"
  obtains bes st' where "(case base of Some b \<Rightarrow> load_all_entries cx st b | None \<Rightarrow> Inr ([], st)) = Inr (bes, st')"
    "ts_store st' = ts_store st" "tstate_ok cx st'" "level k cx (ts_store st) (base_at cx (ts_store st) base) bes"
proof (cases base)
  case None
  with assms(2) that show thesis by (simp add: level_def base_at_def)
next
  case (Some b)
  have "base_at cx (ts_store st) base = entry_at cx (ts_store st) b" using Some by (auto simp: base_at_def)
  moreover obtain n bes st' where "Suc k = Suc n" "load_all_entries cx st b = Inr (bes, st')" "ts_store st' = ts_store st"
    "tstate_ok cx st'" "level n cx (ts_store st) (entry_at cx (ts_store st) b) bes"
    by (rule nested_level [of "Suc k" cx st b]) (use assms Some in auto)
  ultimately show thesis using Some by (intro that [of bes st']) simp_all
qed


lemma walk_ok_step:
  assumes w: "walk_ok k cx thr" and b: "\<forall>b. base = Some b \<longrightarrow> nested False (Suc k) cx (ts_store st) b"
    and t: "nested False (Suc k) cx (ts_store st) target" and st: "tstate_ok cx st" and ok: "okpath pre"
    and f: "fresh (below pre) res" and ne: "base \<noteq> Some target"
  shows "\<exists>res' st'. diff_recursive (Suc k) cx thr base target (join_path pre) git (res, st) = Inr (res', st') \<and>
    (ts_store st' = ts_store st \<and> tstate_ok cx st') \<and> same_off (below pre) res res' \<and>
    (\<forall>q. okpath q \<longrightarrow> q \<noteq> [] \<longrightarrow>
       at_path res' (pre @ q) = change thr (tree_contains_git_dir cx (ts_store st)) git
         (base_at cx (ts_store st) base) (entry_at cx (ts_store st) target) q)"
proof -
  let ?H = "tree_contains_git_dir cx (ts_store st)"
  let ?s = "ts_store st" and ?b = "base_at cx (ts_store st) base" and ?t = "entry_at cx (ts_store st) target"
  obtain n tes st1 where n: "Suc k = Suc n" "load_all_entries cx st target = Inr (tes, st1)" "ts_store st1 = ?s" "tstate_ok cx st1"
    "level n cx ?s ?t tes" by (rule nested_level [OF t st])
  then have lt: "level k cx ?s ?t tes" by simp
  obtain bes st2 where bes: "(case base of Some b \<Rightarrow> load_all_entries cx st1 b | None \<Rightarrow> Inr ([], st1)) = Inr (bes, st2)"
    "ts_store st2 = ?s" "tstate_ok cx st2" and lb: "level k cx ?s ?b bes"
    by (rule base_level [of base k cx st1]) (use b n in auto)
  let ?bm = "map (\<lambda>e. (ename e, e)) bes"
  have bm: "entries_by_name bes = ?bm" by (rule entries_by_name_distinct) (use lb in \<open>simp add: level_def\<close>)
  let ?I = "\<lambda>st'. ts_store st' = ?s \<and> tstate_ok cx st'"
  let ?F = "diff_step k cx thr (join_path pre) git ?bm" and ?G = "drop_step k cx (join_path pre)"
  let ?ds = "filter (\<lambda>(n, _). n \<notin> ename ` set tes) ?bm"
  have step1: "\<exists>res' st'. ?F e (r0, st0) = Inr (res', st') \<and> ?I st' \<and> same_off (within (pre @ [ename e])) r0 res' \<and>
      (\<forall>q. okpath q \<longrightarrow> at_path res' (pre @ ename e # q) = change thr ?H git ?b ?t (ename e # q))"
    if "e \<in> set tes" "?I st0" "fresh (within (pre @ [ename e])) r0" for e r0 st0
    using diff_step_ok [OF w _ ok that(3), of st0 ?b bes ?t tes ?H git] that lb lt by auto
  have step2: "\<exists>res' st'. ?G x (r0, st0) = Inr (res', st') \<and> ?I st' \<and> same_off (within (pre @ [fst x])) r0 res' \<and>
      (\<forall>q. okpath q \<longrightarrow> at_path res' (pre @ fst x # q) = change thr ?H git ?b ?t (fst x # q))"
    if x: "x \<in> set ?ds" "?I st0" "fresh (within (pre @ [fst x])) r0" for x r0 st0
  proof -
    from x(1) obtain be where be: "x = (ename be, be)" "be \<in> set bes" "ename be \<notin> ename ` set tes" by auto
    have b: "?b (ename be # q) = sub_at cx (ts_store st0) (Some be) q" for q
      using level_entry(1) [OF lb be(2), of q] x(2) by (simp add: sub_at_def)
    have c: "nested False k cx (ts_store st0) c" if "be = TreeE nm c mt sz j" for nm c mt sz j
      using level_nested [OF lb] be(2) that x(2) by auto
    show ?thesis
      using drop_step_ok [where b = ?b and t = ?t and G = ?H and git = git and thr = thr, OF _ ok level_entry(2) [OF lb be(2)] x(3) [unfolded be(1) fst_conv] c b level_absent [OF lt be(3)]]
        x(2) be(1) by auto
  qed
  have fst_ds: "map fst ?ds = filter (\<lambda>n. n \<notin> ename ` set tes) (map ename bes)" by (simp add: filter_map o_def)
  have "fst ` set ?ds = set (map fst ?ds)" by simp
  then have "ename ` set tes \<inter> fst ` set ?ds = {}" unfolding fst_ds by auto
  moreover have "distinct (map ename tes)" "okpath (map ename tes)" "distinct (map fst ?ds)" "okpath (map fst ?ds)"
    using lb lt unfolding fst_ds by (auto simp: level_def list_all_iff)
  ultimately have d: "distinct (map ename tes)" "okpath (map ename tes)" "distinct (map fst ?ds)" "okpath (map fst ?ds)"
      "ename ` set tes \<inter> fst ` set ?ds = {}" by blast+
  obtain r2 s2 where r: "rbind (rfold ?F tes (res, st2)) (rfold ?G ?ds) = Inr (r2, s2)" "?I s2" "same_off (below pre) res r2"
    "\<And>m q. okpath (m # q) \<Longrightarrow> m \<in> ename ` set tes \<union> fst ` set ?ds \<Longrightarrow> at_path r2 (pre @ m # q) = change thr ?H git ?b ?t (m # q)"
    "\<And>m q. okpath (m # q) \<Longrightarrow> m \<notin> ename ` set tes \<union> fst ` set ?ds \<Longrightarrow> at_path r2 (pre @ m # q) = None"
    by (rule two_loops [where E = "\<lambda>S q. S q = change thr ?H git ?b ?t q" and I = ?I and F = ?F and G = ?G and nm = ename and nm' = fst, OF step1 step2 _ d ok _ f])
       (use bes(2,3) in \<open>auto simp: prefix_order.refl\<close>)
  have "at_path r2 (pre @ m # p) = change thr ?H git ?b ?t (m # p)" if q: "okpath (m # p)" for m p
  proof (cases "m \<in> ename ` set tes \<union> fst ` set ?ds")
    case False
    then have "m \<notin> ename ` set tes" "m \<notin> ename ` set bes" by force+
    with level_absent [OF lt] level_absent [OF lb, of m p] r(5) [OF q False] level_absent [OF lb, of m "[]"] show ?thesis
      by (cases p) (simp_all add: change_here_def change_gone)
  qed (rule r(4) [OF q])
  then have x: "\<forall>q. okpath q \<longrightarrow> q \<noteq> [] \<longrightarrow> at_path r2 (pre @ q) = change thr ?H git ?b ?t q" by (metis neq_Nil_conv)
  have e: "diff_recursive (Suc k) cx thr base target (join_path pre) git (res, st) = Inr (r2, s2)"
    using ne n(2) bes(1) r(1) by (simp add: diff_recursive_step bm del: diff_recursive.simps)
  show ?thesis by (intro exI conjI) (rule e r(2) [THEN conjunct1] r(2) [THEN conjunct2] r(3) x)+
qed

lemma walk_all: "walk_ok k cx thr"
proof (induction k)
  case (Suc k)
  show ?case unfolding walk_ok_def
  proof (intro allI impI)
    fix base target pre git res st
    assume a: "\<forall>b. base = Some b \<longrightarrow> nested False (Suc k) cx (ts_store st) b" "nested False (Suc k) cx (ts_store st) target"
      "tstate_ok cx st" "okpath pre" "fresh (below pre) res"
    show "\<exists>res' st'. diff_recursive (Suc k) cx thr base target (join_path pre) git (res, st) = Inr (res', st') \<and>
        (ts_store st' = ts_store st \<and> tstate_ok cx st') \<and> same_off (below pre) res res' \<and>
        (\<forall>q. okpath q \<longrightarrow> q \<noteq> [] \<longrightarrow>
           at_path res' (pre @ q) = change thr (tree_contains_git_dir cx (ts_store st)) git
             (base_at cx (ts_store st) base) (entry_at cx (ts_store st) target) q)"
    proof (cases "base = Some target")
      case True
      have "at_path res (pre @ q) = None" if "okpath q" "q \<noteq> []" for q
        using a(4,5) that by (simp add: fresh_def below_def strict_prefix_def)
      moreover have "base_at cx (ts_store st) base = entry_at cx (ts_store st) target"
        using True by (simp add: fun_eq_iff base_at_def)
      ultimately show ?thesis using True a(3) by (simp add: change_same)
    qed (rule walk_ok_step [OF Suc a])
  qed
qed (simp add: walk_ok_def)

lemma diff_trees_change:
  assumes "\<forall>b. base = Some b \<longrightarrow> nested False fuel cx (ts_store st) b"
    and "\<forall>t. target = Some t \<longrightarrow> nested False fuel cx (ts_store st) t" and "tstate_ok cx st"
  shows "\<exists>D st'. diff_trees fuel cx thr base target st = Inr (D, st') \<and> ts_store st' = ts_store st \<and> tstate_ok cx st' \<and>
    (\<forall>p. okpath p \<longrightarrow> p \<noteq> [] \<longrightarrow> map_of D (join_path p) =
       change thr (tree_contains_git_dir cx (ts_store st)) False
         (base_at cx (ts_store st) base) (base_at cx (ts_store st) target) p)"
proof (cases target)
  case None
  then have gone: "base_at cx (ts_store st) target = (\<lambda>_. None)" by (simp add: fun_eq_iff base_at_def)
  show ?thesis
  proof (cases base)
    case None
    then have "base_at cx (ts_store st) base = (\<lambda>_. None)" by (simp add: fun_eq_iff base_at_def)
    with None \<open>target = None\<close> gone assms(3) show ?thesis by (simp add: diff_trees_def change_gone)
  next
    case (Some b)
    from mark_deleted_ok [of fuel cx st b "[]" "[]"] assms Some obtain D st' where
      "mark_deleted_tree fuel cx b [] ([], st) = Inr (D, st')" "ts_store st' = ts_store st" "tstate_ok cx st'"
      "\<forall>q. okpath q \<longrightarrow> q \<noteq> [] \<longrightarrow> at_path D q =
         (if leaf_content (entry_at cx (ts_store st) b q) \<noteq> None then Some Deleted else None)"
      by (auto simp: fresh_def at_path_def)
    with None Some gone show ?thesis by (auto simp: diff_trees_def change_gone base_at_def at_path_def)
  qed
next
  case (Some t)
  have "fresh (below []) []" by (simp add: fresh_def at_path_def)
  moreover have "nested False fuel cx (ts_store st) t" "okpath []" using assms(2) Some by simp_all
  ultimately obtain D st' where
    "diff_recursive fuel cx thr base t (join_path []) False ([], st) = Inr (D, st')" "ts_store st' = ts_store st" "tstate_ok cx st'"
    "\<forall>q. okpath q \<longrightarrow> q \<noteq> [] \<longrightarrow> at_path D ([] @ q) = change thr (tree_contains_git_dir cx (ts_store st)) False
      (base_at cx (ts_store st) base) (entry_at cx (ts_store st) t) q"
    using walk_all [of fuel cx thr] assms(1,3) unfolding walk_ok_def by blast
  moreover have "base_at cx (ts_store st) target = entry_at cx (ts_store st) t" using Some by (auto simp: base_at_def)
  ultimately show ?thesis using Some by (auto simp: diff_trees_def at_path_def)
qed

lemma no_tree_nothing_below:
  assumes "\<forall>b. base = Some b \<longrightarrow> nested False fuel cx s b" "p \<noteq> []" "\<not> is_tree_at (base_at cx s base p)"
  shows "base_at cx s base (p @ m # q) = None"
proof (cases base)
  case (Some b)
  have "entry_at cx s h (p @ m # q) = None" if "nested False k cx s h" "\<not> is_tree_at (entry_at cx s h p)" for h k
    using that assms(2)
  proof (induction p arbitrary: h k)
    case (Cons n p)
    obtain j es where es: "read_tree cx s h = Inr (Normal es)"
      and tr: "\<And>nm c mt sz k. TreeE nm c mt sz k \<in> set es \<Longrightarrow> nested False j cx s c"
      and bl: "\<And>nm b mt sz md t. Blob nm b mt sz md \<in> set es \<Longrightarrow> read_tree cx s b \<noteq> Inr t"
      using nestedE [OF Cons.prems(1)] by metis
    note at = entry_at_Cons [OF es bl]
    show ?case
    proof (cases "find (\<lambda>e. ename e = n) es")
      case (Some e)
      then have e: "e \<in> set es" by (auto simp: find_Some_iff)
      show ?thesis
      proof (cases e)
        case (TreeE nm c mt sz k)
        show ?thesis
        proof (cases "p = []")
          case True
          with Cons.prems(2) at Some TreeE show ?thesis by (simp add: is_tree_at_def)
        next
          case False
          with Cons.IH [of j c] Cons.prems(2) tr e at Some TreeE show ?thesis by auto
        qed
      qed (use at Some in auto)
    qed (use at in simp)
  qed simp
  with Some assms(1,3) show ?thesis by (auto simp: base_at_def)
qed (simp add: base_at_def)

text \<open>The entries of a diff explain both sides.\<close>

lemma diff_trees_exact_core:
  assumes "\<forall>b. base = Some b \<longrightarrow> nested False fuel cx (ts_store st) b"
    and "\<forall>t. target = Some t \<longrightarrow> nested False fuel cx (ts_store st) t" and "tstate_ok cx st"
  shows "\<exists>D st'. diff_trees fuel cx thr base target st = Inr (D, st') \<and> ts_store st' = ts_store st \<and> tstate_ok cx st' \<and>
    (\<forall>p. okpath p \<longrightarrow> p \<noteq> [] \<longrightarrow>
       explained thr (base_at cx (ts_store st) base) (base_at cx (ts_store st) target) (\<lambda>q. map_of D (join_path q)) p)"
proof -
  from diff_trees_change [OF assms, of thr] obtain D st' where
    D: "diff_trees fuel cx thr base target st = Inr (D, st')" "ts_store st' = ts_store st" "tstate_ok cx st'"
    "\<And>p. okpath p \<Longrightarrow> p \<noteq> [] \<Longrightarrow> map_of D (join_path p) = change thr (tree_contains_git_dir cx (ts_store st)) False
       (base_at cx (ts_store st) base) (base_at cx (ts_store st) target) p" by blast
  have "explained thr (base_at cx (ts_store st) base) (base_at cx (ts_store st) target) (\<lambda>q. map_of D (join_path q)) p"
    if "okpath p" "p \<noteq> []" for p
    by (rule change_explained [OF no_tree_nothing_below [OF assms(1)] D(4)]) (use that okpath_prefix in auto)
  with D(1-3) show ?thesis by blast
qed

text \<open>C13: comparing two snapshots terminates with fuel for their nesting depth, and the diff is
  exact: at every path it has the entry \<open>change\<close> computes from what base and target have at
  the paths alone, and no other. A file or link is reported when it is new or differs
  in content, target or mode, with the data of the target; a file or link that is gone is
  reported as deleted; a directory that the base does not have is reported as a whole when its
  size reaches the threshold and it is not part of a git repository, with nothing below it, and
  otherwise as an empty directory when it has no children. A directory that is gone is
  reported only through the files and links that were below it.\<close>

theorem diff_trees_exact:
  assumes "\<forall>b. base = Some b \<longrightarrow> nested False fuel cx (ts_store st) b"
    and "\<forall>t. target = Some t \<longrightarrow> nested False fuel cx (ts_store st) t" and "tstate_ok cx st"
  shows "\<exists>D st'. diff_trees fuel cx thr base target st = Inr (D, st') \<and> ts_store st' = ts_store st \<and> tstate_ok cx st' \<and>
    (\<forall>p. okpath p \<longrightarrow> p \<noteq> [] \<longrightarrow> map_of D (join_path p) =
       change thr (tree_contains_git_dir cx (ts_store st)) False
         (base_at cx (ts_store st) base) (base_at cx (ts_store st) target) p)"
  using assms by (rule diff_trees_change)

theorem diff_trees_exact_witness:
  "\<exists>D st'. diff_trees 1 toy_trees 0 None (Some toy_tree_hash) toy_tree_state1 = Inr (D, st') \<and>
     map_of D ''b'' = Some (Added toy_hash 3 None None)"
proof -
  have "\<forall>t. Some toy_tree_hash = Some t \<longrightarrow> nested False 1 toy_trees (ts_store toy_tree_state1) t" using toy_nested by simp
  with diff_trees_exact [OF _ _ toy_state1_ok(2), of None 1 "Some toy_tree_hash" 0] obtain D st' where
    D: "diff_trees 1 toy_trees 0 None (Some toy_tree_hash) toy_tree_state1 = Inr (D, st')"
      "\<forall>p. okpath p \<longrightarrow> p \<noteq> [] \<longrightarrow> map_of D (join_path p) =
        change 0 (tree_contains_git_dir toy_trees (ts_store toy_tree_state1)) False (base_at toy_trees (ts_store toy_tree_state1) None)
          (base_at toy_trees (ts_store toy_tree_state1) (Some toy_tree_hash)) p" by blast
  have "base_at toy_trees (ts_store toy_tree_state1) (Some toy_tree_hash) [''b''] = Some toy_blob"
    using toy_navigate by (simp add: base_at_def entry_at_def)
  with D(2) [rule_format, of "[''b'']"] have "map_of D ''b'' = Some (Added toy_hash 3 None None)"
    by (simp add: change_here_def okname_def base_at_def toy_blob_def is_blob_at_def)
  with D(1) show ?thesis by blast
qed

section \<open>Conflicts between two diffs\<close>

definition conflicting :: "diff_map \<Rightarrow> string \<Rightarrow> diff_entry \<Rightarrow> bool" where
  "conflicting local_diff path d \<longleftrightarrow>
     (case map_of local_diff path of Some l \<Rightarrow> \<not> same_content d l
      | None \<Rightarrow> is_added_tree d \<and> list_ex (\<lambda>(lp, _). is_local_change_under_added_tree path lp) local_diff)"

lemma classify_step_cases:
  "classify_step L (clean, cs) (path, d) =
     (if conflicting L path d then (clean, cs @ [path]) else (AList.update path d clean, cs))"
  by (simp add: classify_step_def conflicting_def split: option.splits)

lemma classify_fold:
  assumes "distinct (map fst R)"
  shows "foldl (classify_step L) (clean0, cs0) R = (clean, cs) \<Longrightarrow>
    set cs = set cs0 \<union> {p. \<exists>d. map_of R p = Some d \<and> conflicting L p d} \<and>
    map_of clean = (\<lambda>p. case map_of R p of None \<Rightarrow> map_of clean0 p
       | Some d \<Rightarrow> if conflicting L p d then map_of clean0 p else Some d)"
  using assms
proof (induction R arbitrary: clean0 cs0)
  case (Cons x R)
  obtain path d where x: "x = (path, d)" by (cases x)
  have no: "map_of R path = None" using Cons.prems(2) x by (auto simp: map_of_eq_None_iff)
  show ?case
  proof (cases "conflicting L path d")
    case True
    with Cons.IH [of clean0 "cs0 @ [path]"] Cons.prems x no show ?thesis
      by (auto simp: classify_step_cases fun_eq_iff split: option.splits)
  next
    case False
    with Cons.IH [of "AList.update path d clean0" cs0] Cons.prems x no show ?thesis
      by (auto simp: classify_step_cases fun_eq_iff update_conv' split: option.splits if_splits)
  qed
qed auto

lemma classify_ok:
  assumes "classify_conflicts R L = (clean, cs)" "distinct (map fst R)"
  shows "set cs = {p. \<exists>d. map_of R p = Some d \<and> conflicting L p d}"
    and "map_of clean p = Some d \<longleftrightarrow> map_of R p = Some d \<and> \<not> conflicting L p d"
    and "sorted cs"
proof -
  obtain clean' cs' where f: "foldl (classify_step L) ([], []) R = (clean', cs')" by fastforce
  with assms(1) have c: "clean = clean'" "cs = sort cs'" by (auto simp: classify_conflicts_def)
  note cf = classify_fold [OF assms(2) f]
  show "set cs = {p. \<exists>d. map_of R p = Some d \<and> conflicting L p d}" "sorted cs" using cf c by auto
  show "map_of clean p = Some d \<longleftrightarrow> map_of R p = Some d \<and> \<not> conflicting L p d"
    using cf c by (auto split: option.splits if_splits)
qed

text \<open>Two sides agree when both have nothing, the same file content or the same link.\<close>

fun agree :: "leaf option \<Rightarrow> leaf option \<Rightarrow> bool" where
  "agree None None = True"
| "agree (Some (File h _)) (Some (File h' _)) = (h = h')"
| "agree (Some (Link a)) (Some (Link b)) = (a = b)"
| "agree _ _ = False"

lemma same_content_agree:
  assumes "same_content d d'" "explains thr b r (Some d)" "explains thr' b' l (Some d')"
  shows "agree (leaf_content l) (leaf_content r)"
  using assms
  by (cases d; cases d') (auto simp: is_tree_at_def split: option.splits tree_entry.splits)

lemma under_added_tree:
  assumes "okpath (q @ m # p)" "q \<noteq> []" "m \<noteq> ''.git''"
  shows "is_local_change_under_added_tree (join_path q) (join_path (q @ m # p))"
proof -
  have "join_path (q @ m # p) = join_path q @ ''/'' @ join_path (m # p)"
    using assms(2) by (induction q rule: join_path.induct) (auto simp: join_path_Cons)
  moreover have "split_slash (join_path (m # p)) = m # p"
    using assms(1) by (intro split_join) (auto simp: list_all_iff okname_def)
  moreover have sp: "strip_prefix ''/'' (CHR ''/'' # join_path (m # p)) = Some (join_path (m # p))"
    by (simp add: strip_prefix_Some_iff)
  ultimately show ?thesis using assms(3)
    by (simp add: is_local_change_under_added_tree_def strip_prefix_append sp)
qed

lemma explained_zero:
  assumes "\<And>p. okpath p \<Longrightarrow> p \<noteq> [] \<Longrightarrow> explained 0 b t S p" "okpath p" "p \<noteq> []"
  shows "explains 0 (b p) (t p) (S p)"
proof -
  have "\<not> covered S p"
  proof
    assume "covered S p"
    then obtain r d where r: "r \<noteq> []" "strict_prefix r p" "S r = Some d" "is_added_tree d" by (auto simp: covered_def)
    then have "okpath r" using assms(2) okpath_prefix by (auto simp: strict_prefix_def)
    with assms(1) [of r] r have "explains 0 (b r) (t r) (Some d)" by (simp add: explained_def)
    with r(4) show False by (cases d) (auto simp: is_added_tree_def)
  qed
  with assms(1) [OF assms(2,3)] show ?thesis by (simp add: explained_def)
qed

lemma clean_agrees:
  assumes R: "explained thr b r S p" and L: "explains 0 (b p) (l p) (map_of L k)"
    and c: "S p = Some d" "\<not> conflicting L k d"
  shows "leaf_content (l p) = leaf_content (b p) \<or> agree (leaf_content (l p)) (leaf_content (r p))"
proof (cases "map_of L k")
  case None
  with L show ?thesis by simp
next
  case (Some d')
  with c(2) have "same_content d d'" by (simp add: conflicting_def)
  moreover have "explains thr (b p) (r p) (Some d)" using R c(1) by (simp add: explained_def)
  moreover have "explains 0 (b p) (l p) (Some d')" using L Some by simp
  ultimately show ?thesis using same_content_agree by blast
qed

lemma clean_tree_untouched:
  assumes L: "explains 0 (b (p @ m # q)) (l (p @ m # q)) (map_of L (join_path (p @ m # q)))" and b: "b (p @ m # q) = None"
    and d: "is_added_tree d" "\<not> conflicting L (join_path p) d"
    and ok: "okpath (p @ m # q)" "p \<noteq> []" "m \<noteq> ''.git''"
  shows "leaf_content (l (p @ m # q)) = None"
proof (rule ccontr)
  assume "leaf_content (l (p @ m # q)) \<noteq> None"
  with L b have "map_of L (join_path (p @ m # q)) \<noteq> None" by (cases "map_of L (join_path (p @ m # q))") auto
  then obtain d' where "map_of L (join_path (p @ m # q)) = Some d'" by blast
  then have "list_ex (\<lambda>(lp, _). is_local_change_under_added_tree (join_path p) lp) L"
    using under_added_tree [OF ok] by (auto simp: list_ex_iff dest: map_of_SomeD)
  moreover have "\<not> same_content d x" for x using d(1) by (cases d; cases x) (auto simp: is_added_tree_def)
  ultimately show False using d by (auto simp: conflicting_def split: option.splits)
qed

text \<open>C4: what a pull takes over without asking. Every change of the remote is either taken over
  as it is or reported as a conflict, never both. Where a change is taken over, the local
  file or link at the same path is the one of the base, mode included, or has the content of
  the remote one, whose mode and time stamp are then taken. Where a whole directory is taken
  over, there is no local file or link below it, except below a \<open>.git\<close> directly in it. So,
  without a conflict, at every path that holds a file or link of the base, and at every other
  path without a component \<open>.git\<close>, the local side is unchanged, or the remote side is
  unchanged, or both have the same content. This is a statement about one path at a time: a
  remote file at the path of a directory that was added locally, or a remote directory at the
  path of a file that was added locally, is not reported (\<open>file_over_directory_is_clean\<close>).\<close>

theorem pull_classifies_changes:
  assumes "\<forall>b. base = Some b \<longrightarrow> nested False fuel cx (ts_store st) b"
    and "nested False fuel cx (ts_store st) remote" and "nested False fuel cx (ts_store st) local" and "tstate_ok cx st"
    and "diff_trees fuel cx thr base (Some remote) st = Inr (R, st1)"
    and "diff_trees fuel cx 0 base (Some local) st1 = Inr (L, st2)"
    and "classify_conflicts R L = (clean, conflicts)"
    and "okpath p" and "p \<noteq> []"
  shows "(\<forall>d. map_of R (join_path p) = Some d \<longrightarrow>
      (map_of clean (join_path p) = Some d \<longleftrightarrow> join_path p \<notin> set conflicts)) \<and>
    (map_of clean (join_path p) \<noteq> None \<longrightarrow>
       leaf_content (entry_at cx (ts_store st) local p) = leaf_content (base_at cx (ts_store st) base p) \<or>
       agree (leaf_content (entry_at cx (ts_store st) local p)) (leaf_content (entry_at cx (ts_store st) remote p))) \<and>
    (\<forall>d m q. map_of clean (join_path p) = Some d \<longrightarrow> is_added_tree d \<longrightarrow> okpath (m # q) \<longrightarrow> m \<noteq> ''.git'' \<longrightarrow>
       leaf_content (entry_at cx (ts_store st) local (p @ m # q)) = None) \<and>
    (conflicts = [] \<longrightarrow> leaf_content (base_at cx (ts_store st) base p) \<noteq> None \<or> ''.git'' \<notin> set p \<longrightarrow>
       leaf_content (entry_at cx (ts_store st) local p) = leaf_content (base_at cx (ts_store st) base p) \<or>
       leaf_content (entry_at cx (ts_store st) remote p) = leaf_content (base_at cx (ts_store st) base p) \<or>
       agree (leaf_content (entry_at cx (ts_store st) local p)) (leaf_content (entry_at cx (ts_store st) remote p)))"
proof -
  let ?s = "ts_store st" let ?b = "base_at cx ?s base" and ?r = "entry_at cx ?s remote" and ?l = "entry_at cx ?s local"
  let ?R = "\<lambda>p. map_of R (join_path p)" and ?L = "\<lambda>p. map_of L (join_path p)"
  have some: "base_at cx ?s (Some h) = entry_at cx ?s h" for h by (auto simp: base_at_def)
  from diff_trees_exact_core [OF assms(1) _ assms(4), of "Some remote" thr] assms(2,5) some
  have R: "\<And>p. okpath p \<Longrightarrow> p \<noteq> [] \<Longrightarrow> explained thr ?b ?r ?R p" and s1: "ts_store st1 = ?s" "tstate_ok cx st1" by auto
  from diff_trees_exact_core [of base fuel cx st1 "Some local" 0] assms(1,3,6) s1 some
  have L: "explains 0 (?b p) (?l p) (?L p)" if "okpath p" "p \<noteq> []" for p
    using explained_zero [of ?b ?l ?L] that by auto
  note cl = classify_ok [OF assms(7) diff_trees_keyed [OF assms(5)]]
  have same: "leaf_content (?l p) = leaf_content (?b p) \<or> agree (leaf_content (?l p)) (leaf_content (?r p))"
    if "map_of clean (join_path p) \<noteq> None"
  proof -
    from that obtain d where "?R p = Some d" "\<not> conflicting L (join_path p) d" using cl(2) by blast
    from clean_agrees [where S = ?R and b = ?b and l = ?l and r = ?r and p = p, OF R [OF assms(8,9)] L [OF assms(8,9)] this]
    show ?thesis .
  qed
  have untouched: "leaf_content (?l (r @ m # q)) = None"
    if "map_of clean (join_path r) = Some d" "is_added_tree d" "okpath (r @ m # q)" "r \<noteq> []" "m \<noteq> ''.git''" for r d m q
  proof -
    have ok: "okpath r" "r @ m # q \<noteq> []" using that(3) by simp_all
    have d: "?R r = Some d" "\<not> conflicting L (join_path r) d" using cl(2) that(1) by blast+
    have "explains thr (?b r) (?r r) (Some d)" using R [OF ok(1) that(4)] d(1) by (simp add: explained_def)
    then have "\<not> is_tree_at (?b r)" using that(2) by (cases d) (auto simp: is_added_tree_def)
    then have "?b (r @ m # q) = None" using no_tree_nothing_below [OF assms(1) that(4)] by blast
    from clean_tree_untouched [where l = ?l and b = ?b and p = r and m = m and q = q, OF L [OF that(3) ok(2)] this that(2) d(2) that(3-5)]
    show ?thesis .
  qed
  have taken: "map_of clean (join_path r) = Some d" if "conflicts = []" "?R r = Some d" for r d
    using cl(1) cl(2) [of "join_path r"] that by auto
  have quiet: "leaf_content (?l p) = leaf_content (?b p) \<or> leaf_content (?r p) = leaf_content (?b p)"
    if "conflicts = []" "?R p = None" "leaf_content (?b p) \<noteq> None \<or> ''.git'' \<notin> set p"
  proof (cases "leaf_content (?r p) = leaf_content (?b p)")
    case False
    with R [OF assms(8,9)] that(2) have c: "?b p = None" "covered ?R p" by (auto simp: explained_def)
    then obtain r d where r: "r \<noteq> []" "strict_prefix r p" "?R r = Some d" "is_added_tree d" by (auto simp: covered_def)
    then obtain m q where p: "p = r @ m # q" by (auto simp: strict_prefix_def prefix_def) (metis neq_Nil_conv append_Nil2)
    have "m \<noteq> ''.git''" using that(3) c(1) p by auto
    then have "leaf_content (?l (r @ m # q)) = None"
      using untouched [OF taken [OF that(1) r(3)] r(4) _ r(1), of m q] assms(8) unfolding p by simp
    then have "leaf_content (?l p) = None" unfolding p .
    with c(1) show ?thesis by simp
  qed simp
  show ?thesis
  proof (intro conjI allI impI)
    fix d assume "?R p = Some d"
    then show "map_of clean (join_path p) = Some d \<longleftrightarrow> join_path p \<notin> set conflicts"
      using cl(1) cl(2) [of "join_path p"] by auto
  next
    fix d m q assume "map_of clean (join_path p) = Some d" "is_added_tree d" "okpath (m # q)" "m \<noteq> ''.git''"
    then show "leaf_content (?l (p @ m # q)) = None" using untouched assms(8,9) by simp
  next
    assume c: "conflicts = []" "leaf_content (?b p) \<noteq> None \<or> ''.git'' \<notin> set p"
    show "leaf_content (?l p) = leaf_content (?b p) \<or> leaf_content (?r p) = leaf_content (?b p) \<or>
        agree (leaf_content (?l p)) (leaf_content (?r p))"
    proof (cases "?R p")
      case None
      with quiet [OF c(1) _ c(2)] show ?thesis by blast
    next
      case (Some d)
      with same taken [OF c(1)] show ?thesis by blast
    qed
  qed (rule same)
qed

lemma toy_diff_added:
  assumes "tstate_ok toy_trees st" "ts_store st = ts_store toy_tree_state1"
  obtains D st' where "diff_trees 1 toy_trees 0 None (Some toy_tree_hash) st = Inr (D, st')" "ts_store st' = ts_store toy_tree_state1"
    "tstate_ok toy_trees st'" "\<exists>d. map_of D ''b'' = Some d"
proof -
  from diff_trees_exact_core [OF _ _ assms(1), of None 1 "Some toy_tree_hash" 0] assms(2) toy_nested obtain D st' where
    D: "diff_trees 1 toy_trees 0 None (Some toy_tree_hash) st = Inr (D, st')" "ts_store st' = ts_store toy_tree_state1" "tstate_ok toy_trees st'"
      "\<And>p. okpath p \<Longrightarrow> p \<noteq> [] \<Longrightarrow> explained 0 (base_at toy_trees (ts_store toy_tree_state1) None)
          (base_at toy_trees (ts_store toy_tree_state1) (Some toy_tree_hash)) (\<lambda>q. map_of D (join_path q)) p" by auto
  from explained_zero [OF D(4), of "[''b'']"] toy_navigate have "explains 0 None (Some toy_blob) (map_of D ''b'')"
    by (simp add: base_at_def entry_at_def okname_def)
  then have "\<exists>d. map_of D ''b'' = Some d" by (cases "map_of D ''b''") (auto simp: toy_blob_def)
  with D(1-3) that show thesis by blast
qed

theorem pull_classifies_changes_witness:
  "\<exists>R st1 L st2 clean conflicts d. diff_trees 1 toy_trees 0 None (Some toy_tree_hash) toy_tree_state1 = Inr (R, st1) \<and>
     diff_trees 1 toy_trees 0 None (Some toy_tree_hash) st1 = Inr (L, st2) \<and> classify_conflicts R L = (clean, conflicts) \<and>
     map_of R ''b'' = Some d \<and> (map_of clean ''b'' = Some d \<longleftrightarrow> ''b'' \<notin> set conflicts)"
proof -
  obtain R st1 where R: "diff_trees 1 toy_trees 0 None (Some toy_tree_hash) toy_tree_state1 = Inr (R, st1)"
    "ts_store st1 = ts_store toy_tree_state1" "tstate_ok toy_trees st1" "\<exists>d. map_of R ''b'' = Some d"
    by (rule toy_diff_added [OF toy_state1_ok(2) refl])
  obtain L st2 where L: "diff_trees 1 toy_trees 0 None (Some toy_tree_hash) st1 = Inr (L, st2)"
    by (rule toy_diff_added [OF R(3,2)])
  obtain clean conflicts where c: "classify_conflicts R L = (clean, conflicts)" by fastforce
  from R(4) obtain d where d: "map_of R ''b'' = Some d" by blast
  have "\<forall>b. None = Some b \<longrightarrow> nested False 1 toy_trees (ts_store toy_tree_state1) b" by simp
  from pull_classifies_changes [OF this toy_nested toy_nested toy_state1_ok(2) R(1) L c, of "[''b'']"] d R(1) L c
  show ?thesis by (auto simp: okname_def)
qed

section \<open>Line merges of conflicts\<close>

lemma try_line_merge_sound:
  assumes "diff_ok diff" "try_line_merge_one diff cx s path d working base_root = Some bytes"
  shows "\<exists>l r h ls. working = Some l \<and> d \<in> {x. is_blob_change x} \<and> de_hash d = h \<and> read_blob_bytes cx s h = Inr r \<and>
    bytes = join_lines ls \<and> mset (split_lines l) \<subseteq># mset ls \<and> mset (split_lines r) \<subseteq># mset ls \<and>
    mset ls \<subseteq># mset (split_lines l) + mset (split_lines r)"
proof -
  from assms(2) obtain l h r b where 0: "working = Some l"
    "(case d of Added h _ _ _ \<Rightarrow> Some h | Modified h _ _ _ \<Rightarrow> Some h | _ \<Rightarrow> None) = Some h"
    "ok (read_blob_bytes cx s h) = Some r"
    "(case line_merge diff b l r of Some (Clean bytes) \<Rightarrow> Some bytes | _ \<Rightarrow> None) = Some bytes"
    unfolding try_line_merge_one_def bind_eq_Some_conv by blast
  then have 1: "working = Some l"
    "(case d of Added h _ _ _ \<Rightarrow> Some h | Modified h _ _ _ \<Rightarrow> Some h | _ \<Rightarrow> None) = Some h"
    "read_blob_bytes cx s h = Inr r" "line_merge diff b l r = Some (Clean bytes)"
    by (auto simp: ok_def split: sum.splits option.splits merge_outcome.splits)
  from line_merge_core [OF assms(1), of b l r] 1(4) obtain ls where "bytes = join_lines ls"
    "mset (split_lines l) \<subseteq># mset ls" "mset (split_lines r) \<subseteq># mset ls" "mset ls \<subseteq># mset (split_lines l) + mset (split_lines r)"
    by auto
  moreover have "is_blob_change d" "de_hash d = h" using 1(2) by (auto simp: is_blob_change_def split: diff_entry.splits)
  ultimately show ?thesis using 1 by auto
qed

lemma resolve_fold:
  assumes "foldl (resolve_step filt try R L rel) (rs0, ps0) cs = (rs, ps)"
  shows "\<exists>rs1 ps1. rs = rs0 @ rs1 \<and> ps = ps0 @ ps1 \<and> mset cs = mset (map rlm_key rs1) + mset ps1 \<and>
    (\<forall>m \<in> set rs1. \<exists>r l. map_of R (rlm_key m) = Some r \<and> map_of L (rlm_key m) = Some l \<and> is_blob_change r \<and>
       is_blob_change l \<and> filt (rel (rlm_key m)) \<and> rlm_repo_rel m = rel (rlm_key m) \<and> try (rlm_key m) r = Some (rlm_bytes m))"
  using assms
proof (induction cs arbitrary: rs0 ps0)
  case (Cons c cs)
  show ?case
  proof (cases "resolve_step filt try R L rel (rs0, ps0) c = (rs0, ps0 @ [c])")
    case True
    with Cons.IH [of rs0 "ps0 @ [c]"] Cons.prems show ?thesis by auto
  next
    case False
    then obtain r l b where r: "map_of R c = Some r" "map_of L c = Some l" "is_blob_change r" "is_blob_change l" "filt (rel c)"
        "try c r = Some b"
      and e: "resolve_step filt try R L rel (rs0, ps0) c = (rs0 @ [\<lparr>rlm_key = c, rlm_repo_rel = rel c, rlm_bytes = b\<rparr>], ps0)"
      by (auto simp: resolve_step_def split: option.splits if_splits)
    from Cons.IH [of "rs0 @ [\<lparr>rlm_key = c, rlm_repo_rel = rel c, rlm_bytes = b\<rparr>]" ps0] Cons.prems e obtain rs1 ps1 where
      "rs = (rs0 @ [\<lparr>rlm_key = c, rlm_repo_rel = rel c, rlm_bytes = b\<rparr>]) @ rs1" "ps = ps0 @ ps1"
      "mset cs = mset (map rlm_key rs1) + mset ps1"
      "\<forall>m \<in> set rs1. \<exists>r l. map_of R (rlm_key m) = Some r \<and> map_of L (rlm_key m) = Some l \<and> is_blob_change r \<and>
         is_blob_change l \<and> filt (rel (rlm_key m)) \<and> rlm_repo_rel m = rel (rlm_key m) \<and> try (rlm_key m) r = Some (rlm_bytes m)"
      by auto
    with r show ?thesis
      by (intro exI [of _ "\<lparr>rlm_key = c, rlm_repo_rel = rel c, rlm_bytes = b\<rparr> # rs1"] exI [of _ ps1]) auto
  qed
qed simp

text \<open>C14: every conflict is either resolved by a line merge or stays a conflict. A resolved path
  is a file changed on both sides and selected by the filter; the bytes to be written hold
  every record of the file in the working tree and of the remote blob, and no other.\<close>

theorem resolved_merges_keep_records:
  assumes "diff_ok diff"
    and "resolve_line_merges diff cx s is_line_merge working base_root rel R L conflicts = (resolved, remaining)"
  shows "mset conflicts = mset (map rlm_key resolved) + mset remaining \<and>
    (\<forall>m \<in> set resolved. is_line_merge (rel (rlm_key m)) \<and>
       (\<exists>l r d ls. working (rlm_key m) = Some l \<and> map_of R (rlm_key m) = Some d \<and> is_blob_change d \<and>
          read_blob_bytes cx s (de_hash d) = Inr r \<and> rlm_bytes m = join_lines ls \<and>
          mset (split_lines l) \<subseteq># mset ls \<and> mset (split_lines r) \<subseteq># mset ls \<and>
          mset ls \<subseteq># mset (split_lines l) + mset (split_lines r)))"
proof -
  from resolve_fold [OF assms(2) [unfolded resolve_line_merges_def]]
  have f: "mset conflicts = mset (map rlm_key resolved) + mset remaining"
    "\<forall>m \<in> set resolved. \<exists>r l. map_of R (rlm_key m) = Some r \<and> map_of L (rlm_key m) = Some l \<and> is_blob_change r \<and>
       is_blob_change l \<and> is_line_merge (rel (rlm_key m)) \<and> rlm_repo_rel m = rel (rlm_key m) \<and>
       try_line_merge_one diff cx s (rlm_key m) r (working (rlm_key m)) base_root = Some (rlm_bytes m)" by auto
  have "is_line_merge (rel (rlm_key m)) \<and>
       (\<exists>l r d ls. working (rlm_key m) = Some l \<and> map_of R (rlm_key m) = Some d \<and> is_blob_change d \<and>
          read_blob_bytes cx s (de_hash d) = Inr r \<and> rlm_bytes m = join_lines ls \<and>
          mset (split_lines l) \<subseteq># mset ls \<and> mset (split_lines r) \<subseteq># mset ls \<and>
          mset ls \<subseteq># mset (split_lines l) + mset (split_lines r))" if "m \<in> set resolved" for m
  proof -
    from f(2) that obtain d where d: "map_of R (rlm_key m) = Some d" "is_line_merge (rel (rlm_key m))"
      "try_line_merge_one diff cx s (rlm_key m) d (working (rlm_key m)) base_root = Some (rlm_bytes m)" by blast
    from try_line_merge_sound [OF assms(1) d(3)] d(1,2) show ?thesis by auto
  qed
  with f(1) show ?thesis by blast
qed

lemma toy_blob_read: "read_blob_bytes toy_trees (ts_store toy_tree_state1) toy_tree_hash = Inr toy_tree_bytes"
proof -
  have "os_open_read (local_store toy_hmac None) (ts_store toy_tree_state1) toy_tree_hash = Inr toy_tree_bytes" by (rule toy_tree_open)
  moreover have "decode_obj toy_env toy_tree_bytes None h = Inr toy_tree_bytes" for h
    by (simp add: decode_obj_def decrypt_def toy_tree_bytes_def type_tags)
  moreover have "deserialise_manifest toy_tree_bytes = None" by code_simp
  moreover have "deserialise_blob toy_tree_bytes = toy_tree_bytes" by code_simp
  ultimately show ?thesis
    by (simp add: read_blob_bytes_def for_each_blob_chunk_def for_each_serialised_chunk_def toy_trees_def local_trees_def
        store_read_def toy_tree_hash_def)
qed

theorem resolved_merges_keep_records_witness:
  "\<exists>m. resolve_line_merges prefix_diff toy_trees (ts_store toy_tree_state1) (\<lambda>_. True) (\<lambda>_. Some [97, 10]) None id
      [(''b'', Added toy_tree_hash 3 None None)] [(''b'', Added toy_hash 2 None None)] [''b''] = ([m], []) \<and>
    (\<exists>ls. rlm_bytes m = join_lines ls \<and> mset (split_lines [97, 10]) \<subseteq># mset ls)"
proof -
  obtain out where "line_merge prefix_diff [] [97, 10] toy_tree_bytes = Some (Clean out)"
  proof -
    have "line_merge prefix_diff [] [97, 10] toy_tree_bytes = Some (Clean ([97, 10] @ toy_tree_bytes @ [10]))" by code_simp
    then show ?thesis by (rule that)
  qed
  then obtain m where r: "resolve_line_merges prefix_diff toy_trees (ts_store toy_tree_state1) (\<lambda>_. True) (\<lambda>_. Some [97, 10]) None id
      [(''b'', Added toy_tree_hash 3 None None)] [(''b'', Added toy_hash 2 None None)] [''b''] = ([m], [])"
    using toy_blob_read
    by (auto simp: resolve_line_merges_def resolve_step_def is_blob_change_def try_line_merge_one_def ok_def)
  from resolved_merges_keep_records [OF prefix_diff_ok r] r show ?thesis by auto
qed

section \<open>Overlaps of files and directories\<close>

text \<open>A file replaced by an empty directory: the deletion of the file is overwritten by the
  entry for the directory, which has the same path.\<close>

lemma empty_dir_hides_deletion:
  "diff_tree (\<lambda>_ _ _ _ rs. Inr rs) 0 git child_git (Some (Blob n bh bmt bsz bmode)) path h mt sz c ([], st) =
     Inr ([(path, AddedEmptyDir)], st)"
  by (simp add: diff_tree_def base_tree_of_def)

text \<open>A file added remotely where a directory with a file was added locally is no conflict for
  the classification.\<close>

lemma file_over_directory_is_clean:
  "classify_conflicts [(''d'', Added h sz mt md)] [(''d/x'', Added h' sz' mt' md')] = ([(''d'', Added h sz mt md)], [])"
  by (simp add: classify_conflicts_def classify_step_def is_added_tree_def)

end
