(* ===== verification/LazyTrees.thy ===== *)
theory LazyTrees
  imports TreeOps PackPublish
begin

text \<open>
  The read-through store of \<open>src/src/tree_ops.rs\<close> (\<open>LazyTreeStore\<close>): a local cache of
  plaintext in front of a remote that is read through the pack reader. It satisfies the
  contract of an object store, so that navigation, splicing and removal work over it as they
  do over a local store.

  A read of the trait does not return a state, so the copy that a miss leaves in the cache is
  a separate operation (\<open>lazy_ensure_local\<close>); it changes nothing that a later read sees.
\<close>

section \<open>The store\<close>

text \<open>The pack reader as a store, in a fixed state of the remote.\<close>

definition reader_store :: "'s pack_ctx \<Rightarrow> 's \<Rightarrow> bytes option \<Rightarrow> pack_reader object_store" where
  "reader_store cx s pointer =
     \<lparr>os_exists = (\<lambda>rd h. rbind (reader_exists cx s pointer h rd) (\<lambda>(ex, _). Inr ex)),
      os_open_read = (\<lambda>rd h. rbind (reader_open_read cx s pointer h rd) (\<lambda>(b, _). Inr b)),
      os_write_from = (\<lambda>rd h b. reader_write_from rd h b)\<rparr>"

text \<open>\<open>R\<close> and \<open>r\<close> are the reader and its state, \<open>key\<close> the key of the remote.\<close>

definition lazy_ensure_local ::
    "env \<Rightarrow> 's object_store \<Rightarrow> 'r object_store \<Rightarrow> 'r \<Rightarrow> encrypt_key option \<Rightarrow> 's \<Rightarrow> hash \<Rightarrow> 's result" where
  "lazy_ensure_local E L R r key s h =
     rbind (os_exists L s h) (\<lambda>ex.
       if ex then Inr s
       else rbind (store_read E R r h key) (\<lambda>plaintext. store_write E L s h plaintext None))"

definition lazy_exists :: "'s object_store \<Rightarrow> 'r object_store \<Rightarrow> 'r \<Rightarrow> 's \<Rightarrow> hash \<Rightarrow> bool result" where
  "lazy_exists L R r s h = rbind (os_exists L s h) (\<lambda>ex. if ex then Inr True else os_exists R r h)"

definition lazy_open_read ::
    "env \<Rightarrow> 's object_store \<Rightarrow> 'r object_store \<Rightarrow> 'r \<Rightarrow> encrypt_key option \<Rightarrow> 's \<Rightarrow> hash \<Rightarrow> bytes result" where
  "lazy_open_read E L R r key s h = rbind (lazy_ensure_local E L R r key s h) (\<lambda>s'. os_open_read L s' h)"

definition lazy_store ::
    "env \<Rightarrow> 's object_store \<Rightarrow> 'r object_store \<Rightarrow> 'r \<Rightarrow> encrypt_key option \<Rightarrow> 's object_store" where
  "lazy_store E L R r key =
     \<lparr>os_exists = lazy_exists L R r, os_open_read = lazy_open_read E L R r key, os_write_from = os_write_from L\<rparr>"

section \<open>Its contract\<close>

text \<open>The remote answers: an object is there and decodes, or it is nowhere.\<close>

definition serves :: "env \<Rightarrow> 'r object_store \<Rightarrow> 'r \<Rightarrow> encrypt_key option \<Rightarrow> bool" where
  "serves E R r key \<longleftrightarrow> zstd_lossless E \<and> gcm_opens E \<and>
     (\<forall>h. hash_ok h \<longrightarrow>
       (case store_read E R r h key of
          Inr x \<Rightarrow> os_exists R r h = Inr True \<and> length x \<le> DECOMPRESS_MAX
        | Inl e \<Rightarrow> os_exists R r h = Inr False \<and> e = ObjectNotFound (hex h)))"

definition fetched :: "env \<Rightarrow> 'r object_store \<Rightarrow> 'r \<Rightarrow> encrypt_key option \<Rightarrow> hash \<Rightarrow> bytes option" where
  "fetched E R r key h =
     (case store_read E R r h key of Inr x \<Rightarrow> Some (encode_obj E x None (raw h)) | Inl _ \<Rightarrow> None)"

lemma servesD:
  assumes "serves E R r key" "hash_ok h"
  shows "os_exists R r h = Inr (fetched E R r key h \<noteq> None)"
    "fetched E R r key h = None \<Longrightarrow> store_read E R r h key = Inl (ObjectNotFound (hex h))"
    "fetched E R r key h = Some b \<Longrightarrow> \<exists>x. store_read E R r h key = Inr x \<and> b = encode_obj E x None (raw h) \<and> length x \<le> DECOMPRESS_MAX"
  using assms by (auto simp: serves_def fetched_def split: sum.splits)

text \<open>Of any local store that keeps the contract, the lazy store over it does.\<close>

lemma lazy_laws:
  assumes "store_laws L linv lview"
  shows "store_laws (lazy_store E L R r key) (\<lambda>s. linv s \<and> serves E R r key)
    (\<lambda>s h. case lview s h of Some b \<Rightarrow> Some b | None \<Rightarrow> fetched E R r key h)"
    (is "store_laws ?S ?inv ?view")
proof
  fix s h assume i: "?inv s" and h: "hash_ok h"
  note ex = store_laws.exists_view [OF assms conjunct1 [OF i] h] and sv = servesD [OF conjunct2 [OF i] h]
  note rd = store_laws.read_view [OF assms conjunct1 [OF i] h]
  show "os_exists ?S s h = Inr (?view s h \<noteq> None)"
    using ex sv(1) by (simp add: lazy_store_def lazy_exists_def split: option.splits)
  show "os_open_read ?S s h = ok_or (?view s h) (ObjectNotFound (hex h))"
  proof (cases "lview s h")
    case (Some b)
    with ex rd show ?thesis by (simp add: lazy_store_def lazy_open_read_def lazy_ensure_local_def)
  next
    case None
    show ?thesis
    proof (cases "fetched E R r key h")
      case None': None
      with None ex sv(2) show ?thesis by (simp add: lazy_store_def lazy_open_read_def lazy_ensure_local_def ok_or_def)
    next
      case (Some b)
      with sv(3) obtain x where x: "store_read E R r h key = Inr x" "b = encode_obj E x None (raw h)" by blast
      from store_laws.store_write_ok [OF assms conjunct1 [OF i] h, of E x None] obtain s' where
        s': "store_write E L s h x None = Inr s'" "linv s'" "lview s' h = Some b" using None h x(2) by auto
      with None Some ex x(1) store_laws.read_view [OF assms s'(2) h] show ?thesis
        by (simp add: lazy_store_def lazy_open_read_def lazy_ensure_local_def)
    qed
  qed
next
  fix s h b assume i: "?inv s" and h: "hash_ok h" and v: "?view s h = None \<or> ?view s h = Some b"
  then have "lview s h = None \<or> lview s h = Some b" by (auto split: option.splits)
  from store_laws.write_view [OF assms conjunct1 [OF i] h this] i
  show "\<exists>s'. os_write_from ?S s h b = Inr s' \<and> ?inv s' \<and> (\<forall>g. hash_ok g \<longrightarrow> ?view s' g = (if g = h then Some b else ?view s g))"
    by (auto simp: lazy_store_def)
qed

text \<open>The copy into the cache is invisible.\<close>

lemma ensure_local_same_view:
  assumes L: "store_laws L linv lview" and i: "linv s" "serves E R r key" and h: "hash_ok h"
    and e: "lazy_ensure_local E L R r key s h = Inr s'"
  shows "linv s' \<and> (\<forall>g. hash_ok g \<longrightarrow> os_open_read (lazy_store E L R r key) s' g = os_open_read (lazy_store E L R r key) s g)"
proof -
  note ex = store_laws.exists_view [OF L i(1) h]
  let ?view = "\<lambda>s h. case lview s h of Some b \<Rightarrow> Some b | None \<Rightarrow> fetched E R r key h"
  have "linv s' \<and> (\<forall>g. hash_ok g \<longrightarrow> ?view s' g = ?view s g)"
  proof (cases "lview s h")
    case (Some b)
    with e ex i show ?thesis by (simp add: lazy_ensure_local_def)
  next
    case None
    with e ex obtain x where x: "store_read E R r h key = Inr x" "store_write E L s h x None = Inr s'"
      by (auto simp: lazy_ensure_local_def rbind_Inr_iff)
    then have "fetched E R r key h = Some (encode_obj E x None (raw h))" by (simp add: fetched_def)
    moreover from store_laws.store_write_ok [OF L i(1) h, of E x None] x(2) have "linv s'" and
      "\<And>g. hash_ok g \<Longrightarrow> lview s' g = (if g = h \<and> lview s h = None then Some (encode_obj E x None (raw h)) else lview s g)" by auto
    ultimately show ?thesis using None by simp
  qed
  note v = this and laws = lazy_laws [OF L, of E R r key]
  have "os_open_read (lazy_store E L R r key) s' g = os_open_read (lazy_store E L R r key) s g" if "hash_ok g" for g
    using store_laws.read_view [OF laws, of s g] store_laws.read_view [OF laws, of s' g] v i that by simp
  with v show ?thesis by blast
qed

text \<open>The lazy store over the unencrypted local cache.\<close>

interpretation lazy_cache: store_laws "lazy_store E (local_store hmac None) R r key"
  "\<lambda>s. backend_ok s \<and> serves E R r key"
  "\<lambda>s h. case backend_view s (hex (storage_key hmac None h)) of Some b \<Rightarrow> Some b | None \<Rightarrow> fetched E R r key h"
  for E hmac R r key
  by (rule lazy_laws [OF local_trees_laws])

end
