(* ===== verification/Filters.thy ===== *)
theory Filters
  imports Flatten
begin

text \<open>
  Filter files (\<open>src/src/filter.rs\<close>): patterns and their matching, the three sections of a
  \<open>.omemfs-filter\<close> file, and the set of filter files of a working tree, loaded in full or
  only for one subtree.

  Text is a list of characters; white space is that of ASCII. A working tree is a finite tree
  of files, directories and links; a link stands for what it resolves to.
\<close>

section \<open>Patterns\<close>

definition is_whitespace :: "char \<Rightarrow> bool" where
  "is_whitespace c \<longleftrightarrow> c = CHR '' '' \<or> (9 \<le> (of_char c :: nat) \<and> (of_char c :: nat) \<le> 13)"

definition trim_end :: "string \<Rightarrow> string" where
  "trim_end s = rev (dropWhile is_whitespace (rev s))"

definition trim :: "string \<Rightarrow> string" where
  "trim s = trim_end (dropWhile is_whitespace s)"

definition trim_end_matches :: "char \<Rightarrow> string \<Rightarrow> string" where
  "trim_end_matches c s = rev (dropWhile (\<lambda>d. d = c) (rev s))"

definition trim_matches :: "char \<Rightarrow> string \<Rightarrow> string" where
  "trim_matches c s = trim_end_matches c (dropWhile (\<lambda>d. d = c) s)"

record pattern =
  p_text :: string
  p_anchored :: bool
  p_negated :: bool

definition pattern_parse :: "string \<Rightarrow> pattern option" where
  "pattern_parse line =
     (let line = trim_end line in
      if line = [] \<or> hd line = CHR ''#'' then None
      else
        let (negated, rest) =
              (if prefix [CHR 0x5C, CHR ''#''] line \<or> prefix [CHR 0x5C, CHR ''!''] line then (False, tl line)
               else case strip_prefix ''!'' line of Some rest \<Rightarrow> (True, rest) | None \<Rightarrow> (False, line));
            rest = trim_end_matches CHR ''/'' rest
        in if rest = [] then None
           else if CHR ''?'' \<in> set rest \<or> CHR ''['' \<in> set rest then None
           else let anchored = (hd rest = CHR ''/'')
                in Some \<lparr>p_text = (if anchored then tl rest else rest), p_anchored = anchored, p_negated = negated\<rparr>)"

fun split_star :: "string \<Rightarrow> string list" where
  "split_star [] = [[]]"
| "split_star (c # cs) =
     (if c = CHR ''*'' then [] # split_star cs
      else case split_star cs of [] \<Rightarrow> [[c]] | p # ps \<Rightarrow> (c # p) # ps)"

fun find_str :: "string \<Rightarrow> string \<Rightarrow> nat option" where
  "find_str p [] = (if p = [] then Some 0 else None)"
| "find_str p (c # cs) = (if prefix p (c # cs) then Some 0 else map_option Suc (find_str p cs))"

text \<open>The loop over the segments between the stars, from the second one on.\<close>

fun glob_segments :: "string list \<Rightarrow> string \<Rightarrow> bool" where
  "glob_segments [] remaining = True"
| "glob_segments [part] remaining =
     (case strip_suffix part remaining of None \<Rightarrow> False | Some matched \<Rightarrow> CHR ''/'' \<notin> set matched)"
| "glob_segments (part # next # parts) remaining =
     (case find_str part remaining of
        None \<Rightarrow> False
      | Some pos \<Rightarrow>
          if CHR ''/'' \<in> set (take pos remaining) then False
          else glob_segments (next # parts) (drop (pos + length part) remaining))"

definition glob_match :: "string \<Rightarrow> string \<Rightarrow> bool" where
  "glob_match pat name =
     (if CHR ''*'' \<notin> set pat then pat = name
      else let parts = split_star pat
           in case strip_prefix (hd parts) name of
                None \<Rightarrow> False
              | Some remaining \<Rightarrow> glob_segments (tl parts) remaining)"

text \<open>The loop over the rests of a path after each separator.\<close>

fun any_below :: "(string \<Rightarrow> bool) \<Rightarrow> string \<Rightarrow> bool" where
  "any_below f [] = False"
| "any_below f (c # cs) = (if c = CHR ''/'' then f cs \<or> any_below f cs else any_below f cs)"

definition pattern_matches :: "pattern \<Rightarrow> string \<Rightarrow> bool" where
  "pattern_matches p path =
     (if p_anchored p then glob_match (p_text p) path
      else case strip_prefix ''**/'' (p_text p) of
             Some pat \<Rightarrow> glob_match pat path \<or> any_below (glob_match pat) path
           | None \<Rightarrow> glob_match (p_text p) path \<or> any_below (glob_match (p_text p)) path)"

section \<open>Sections and files\<close>

definition section_matches :: "pattern list \<Rightarrow> string \<Rightarrow> bool" where
  "section_matches ps path =
     foldl (\<lambda>matched p. if pattern_matches p path then \<not> p_negated p else matched) False ps"

record filter_file =
  ff_ignore :: "pattern list"
  ff_aggregate :: "pattern list"
  ff_line_merge :: "pattern list"

datatype current_section = Ignore | Aggregate | LineMerge

definition strip_cr :: "string \<Rightarrow> string" where
  "strip_cr s = (case strip_suffix [CHR 0x0D] s of Some r \<Rightarrow> r | None \<Rightarrow> s)"

fun lines_loop :: "string \<Rightarrow> string \<Rightarrow> string list" where
  "lines_loop line [] = (if line = [] then [] else [line])"
| "lines_loop line (c # cs) = (if c = CHR 0x0A then strip_cr line # lines_loop [] cs else lines_loop (line @ [c]) cs)"

definition parse_line :: "filter_file \<times> current_section \<Rightarrow> string \<Rightarrow> filter_file \<times> current_section" where
  "parse_line st line =
     (case st of (f, current) \<Rightarrow>
        let trimmed = trim line in
        if trimmed = ''[ignore]'' then (f, Ignore)
        else if trimmed = ''[aggregate]'' then (f, Aggregate)
        else if trimmed = ''[line_merge]'' then (f, LineMerge)
        else case pattern_parse line of
               None \<Rightarrow> (f, current)
             | Some pat \<Rightarrow>
                 (case current of
                    Ignore \<Rightarrow> (f\<lparr>ff_ignore := ff_ignore f @ [pat]\<rparr>, current)
                  | Aggregate \<Rightarrow> (f\<lparr>ff_aggregate := ff_aggregate f @ [pat]\<rparr>, current)
                  | LineMerge \<Rightarrow> (f\<lparr>ff_line_merge := ff_line_merge f @ [pat]\<rparr>, current)))"

definition filter_parse :: "string \<Rightarrow> filter_file" where
  "filter_parse content =
     fst (foldl parse_line (\<lparr>ff_ignore = [], ff_aggregate = [], ff_line_merge = []\<rparr>, Ignore) (lines_loop [] content))"

section \<open>The filter files of a working tree\<close>

type_synonym filter_set = "(string \<times> filter_file) list"

definition path_in_scope :: "string \<Rightarrow> string \<Rightarrow> string option" where
  "path_in_scope dir_prefix path = (if dir_prefix = [] then Some path else strip_prefix (dir_prefix @ ''/'') path)"

definition filter_test :: "filter_set \<Rightarrow> string \<Rightarrow> (filter_file \<Rightarrow> string \<Rightarrow> bool) \<Rightarrow> bool" where
  "filter_test fs path check =
     list_ex (\<lambda>(dir_prefix, ff). case path_in_scope dir_prefix path of None \<Rightarrow> False | Some p \<Rightarrow> check ff p) fs"

definition is_ignored :: "filter_set \<Rightarrow> string \<Rightarrow> bool" where
  "is_ignored fs path = filter_test fs path (\<lambda>ff. section_matches (ff_ignore ff))"

definition is_aggregated :: "filter_set \<Rightarrow> string \<Rightarrow> bool" where
  "is_aggregated fs path = filter_test fs path (\<lambda>ff. section_matches (ff_aggregate ff))"

definition is_line_merge :: "filter_set \<Rightarrow> string \<Rightarrow> bool" where
  "is_line_merge fs path = filter_test fs path (\<lambda>ff. section_matches (ff_line_merge ff))"

definition is_ignored_by_loaded :: "filter_set \<Rightarrow> string \<Rightarrow> bool" where
  "is_ignored_by_loaded fs path =
     list_ex (\<lambda>(dir_prefix, ff). case path_in_scope dir_prefix path of None \<Rightarrow> False
                                | Some p \<Rightarrow> section_matches (ff_ignore ff) p) fs"

text \<open>The content of a file is \<open>None\<close> if it cannot be read as text; a link that resolves to
  nothing is \<open>FsLink None\<close>.\<close>

datatype fsnode =
    FsFile "string option"
  | FsDir "(string \<times> fsnode) list"
  | FsLink "fsnode option"
  | FsOther

text \<open>What a path that goes through the node sees: links are followed.\<close>

fun follow :: "fsnode \<Rightarrow> fsnode option" where
  "follow (FsLink (Some t)) = follow t"
| "follow (FsLink None) = None"
| "follow n = Some n"

definition fs_child :: "fsnode option \<Rightarrow> string \<Rightarrow> fsnode option" where
  "fs_child d name =
     (case d of
        None \<Rightarrow> None
      | Some n \<Rightarrow> (case follow n of Some (FsDir es) \<Rightarrow> map_of es name | _ \<Rightarrow> None))"

definition FILTER_FILE :: string where "FILTER_FILE = ''.omemfs-filter''"

definition load_filter_file :: "fsnode option \<Rightarrow> string \<Rightarrow> filter_set \<Rightarrow> filter_set" where
  "load_filter_file d rel_prefix out =
     (case fs_child d FILTER_FILE of
        None \<Rightarrow> out
      | Some n \<Rightarrow> (case follow n of Some (FsFile (Some content)) \<Rightarrow> out @ [(rel_prefix, filter_parse content)] | _ \<Rightarrow> out))"

definition child_prefix :: "string \<Rightarrow> string \<Rightarrow> string" where
  "child_prefix rel_prefix name = (if rel_prefix = [] then name else rel_prefix @ ''/'' @ name)"

definition skipped_name :: "string \<Rightarrow> bool" where
  "skipped_name name \<longleftrightarrow> name = ''.omemfs'' \<or> name = FILTER_FILE"

fun collect_filter_files :: "fsnode \<Rightarrow> string \<Rightarrow> filter_set \<Rightarrow> filter_set"
and collect_entries :: "(string \<times> fsnode) list \<Rightarrow> string \<Rightarrow> filter_set \<Rightarrow> filter_set" where
  "collect_filter_files (FsDir es) rel_prefix out =
     collect_entries es rel_prefix (load_filter_file (Some (FsDir es)) rel_prefix out)"
| "collect_filter_files (FsLink (Some n)) rel_prefix out = collect_filter_files n rel_prefix out"
| "collect_filter_files n rel_prefix out = load_filter_file (Some n) rel_prefix out"
| "collect_entries [] rel_prefix out = out"
| "collect_entries ((name, n) # es) rel_prefix out =
     collect_entries es rel_prefix
       (case n of
          FsDir _ \<Rightarrow>
            if skipped_name name then out
            else if is_ignored_by_loaded out (child_prefix rel_prefix name) then out
            else collect_filter_files n (child_prefix rel_prefix name) out
        | _ \<Rightarrow> out)"

definition filter_load :: "fsnode \<Rightarrow> filter_set" where
  "filter_load work_dir = collect_filter_files work_dir [] []"

text \<open>The loop over the components of the scope: the loaded files, and the scope directory with
  its path unless an ancestor is ignored.\<close>

fun load_ancestors ::
    "fsnode option \<Rightarrow> string \<Rightarrow> string list \<Rightarrow> filter_set \<Rightarrow> filter_set \<times> (fsnode option \<times> string) option" where
  "load_ancestors cur_dir cur_prefix [] fs = (fs, Some (cur_dir, cur_prefix))"
| "load_ancestors cur_dir cur_prefix (c # cs) fs =
     (let cur_dir = fs_child cur_dir c; cur_prefix = child_prefix cur_prefix c in
      if is_ignored_by_loaded fs cur_prefix then (fs, None)
      else load_ancestors cur_dir cur_prefix cs (load_filter_file cur_dir cur_prefix fs))"

definition scope_components :: "string \<Rightarrow> string list" where
  "scope_components scope = filter (\<lambda>s. s \<noteq> []) (split_slash (trim_matches CHR ''/'' scope))"

definition filter_load_scoped :: "fsnode \<Rightarrow> string \<Rightarrow> filter_set" where
  "filter_load_scoped work_dir scope =
     (let scope_prefix = trim_matches CHR ''/'' scope in
      if scope_prefix = [] then filter_load work_dir
      else case load_ancestors (Some work_dir) [] (scope_components scope) (load_filter_file (Some work_dir) [] []) of
             (fs, None) \<Rightarrow> fs
           | (fs, Some (cur_dir, cur_prefix)) \<Rightarrow>
               (case cur_dir of
                  None \<Rightarrow> fs
                | Some n \<Rightarrow> (case follow n of Some (FsDir es) \<Rightarrow> collect_entries es cur_prefix fs | _ \<Rightarrow> fs)))"

section \<open>Matching\<close>

text \<open>The meaning of a pattern, character by character: a star matches any text without a
  separator.\<close>

function globs :: "string \<Rightarrow> string \<Rightarrow> bool" where
  "globs [] s \<longleftrightarrow> s = []"
| "c \<noteq> CHR ''*'' \<Longrightarrow> globs (c # p) s \<longleftrightarrow> (case s of [] \<Rightarrow> False | d # t \<Rightarrow> d = c \<and> globs p t)"
| "globs (CHR ''*'' # p) s \<longleftrightarrow> globs p s \<or> (case s of [] \<Rightarrow> False | d # t \<Rightarrow> d \<noteq> CHR ''/'' \<and> globs (CHR ''*'' # p) t)"
  by (auto, metis list.exhaust)
termination by (relation "measure (\<lambda>(p, s). length p + length s)") auto

declare globs.simps(3) [simp del]

lemma globs_star: "globs (CHR ''*'' # p) s \<longleftrightarrow> (\<exists>u t. s = u @ t \<and> CHR ''/'' \<notin> set u \<and> globs p t)"
proof (induction s)
  case Nil
  show ?case by (auto simp: globs.simps(3))
next
  case (Cons d s)
  have "globs (CHR ''*'' # p) (d # s) \<longleftrightarrow> globs p (d # s) \<or> d \<noteq> CHR ''/'' \<and> globs (CHR ''*'' # p) s"
    by (simp add: globs.simps(3))
  also have "\<dots> \<longleftrightarrow> (\<exists>u t. d # s = u @ t \<and> CHR ''/'' \<notin> set u \<and> globs p t)" (is "_ \<longleftrightarrow> ?R")
  proof
    assume "globs p (d # s) \<or> d \<noteq> CHR ''/'' \<and> globs (CHR ''*'' # p) s"
    then show ?R
    proof
      assume "globs p (d # s)"
      then have "d # s = [] @ d # s \<and> CHR ''/'' \<notin> set [] \<and> globs p (d # s)" by simp
      then show ?R by blast
    next
      assume a: "d \<noteq> CHR ''/'' \<and> globs (CHR ''*'' # p) s"
      with Cons.IH obtain u t where "s = u @ t" "CHR ''/'' \<notin> set u" "globs p t" by blast
      with a have "d # s = (d # u) @ t \<and> CHR ''/'' \<notin> set (d # u) \<and> globs p t" by auto
      then show ?R by blast
    qed
  next
    assume ?R
    then obtain u t where u: "d # s = u @ t" "CHR ''/'' \<notin> set u" "globs p t" by blast
    then show "globs p (d # s) \<or> d \<noteq> CHR ''/'' \<and> globs (CHR ''*'' # p) s"
      using Cons.IH by (cases u) auto
  qed
  finally show ?case .
qed

text \<open>What the segments after the first star demand of the rest of the name.\<close>

fun star_segments :: "string list \<Rightarrow> string \<Rightarrow> bool" where
  "star_segments [] r \<longleftrightarrow> r = []"
| "star_segments [p] r \<longleftrightarrow> (\<exists>m. r = m @ p \<and> CHR ''/'' \<notin> set m)"
| "star_segments (p # q # ps) r \<longleftrightarrow> (\<exists>m t. r = m @ p @ t \<and> CHR ''/'' \<notin> set m \<and> star_segments (q # ps) t)"

lemma star_segments_Cons:
  "star_segments (p # ps) r \<longleftrightarrow> (\<exists>m t. r = m @ p @ t \<and> CHR ''/'' \<notin> set m \<and> (if ps = [] then t = [] else star_segments ps t))"
  by (cases ps) simp_all

lemma split_star_nonempty [simp]: "split_star s \<noteq> []"
  by (induction s) (auto split: list.split)

lemma globs_segments:
  "globs p s \<longleftrightarrow> (\<exists>t. s = hd (split_star p) @ t \<and> (if tl (split_star p) = [] then t = [] else star_segments (tl (split_star p)) t))"
proof (induction p arbitrary: s)
  case (Cons c p)
  obtain q qs where q: "split_star p = q # qs" by (cases "split_star p") simp_all
  show ?case
  proof (cases "c = CHR ''*''")
    case True
    have "globs (c # p) s \<longleftrightarrow> (\<exists>m t. s = m @ q @ t \<and> CHR ''/'' \<notin> set m \<and> (if qs = [] then t = [] else star_segments qs t))"
      unfolding True globs_star Cons.IH q by auto
    then show ?thesis by (simp add: True q star_segments_Cons)
  next
    case False
    then show ?thesis using Cons.IH q by (cases s) auto
  qed
qed simp

lemma star_free_split: "CHR ''*'' \<notin> set p \<Longrightarrow> split_star p = [p]"
  by (induction p) auto

lemma star_split: "CHR ''*'' \<in> set p \<Longrightarrow> tl (split_star p) \<noteq> []"
  by (induction p) (auto split: list.split simp: neq_Nil_conv)

lemma find_str_Some:
  assumes "find_str p r = Some k"
  shows "\<exists>t. r = take k r @ p @ t" "k \<le> length r"
  using assms by (induction r arbitrary: k) (auto split: if_splits simp: prefix_def)

lemma find_str_least:
  assumes "r = m @ p @ t"
  shows "\<exists>k \<le> length m. find_str p r = Some k"
  using assms
proof (induction m arbitrary: r)
  case Nil
  have "find_str p (p @ t) = Some 0" by (cases "p @ t") (auto simp: prefix_def, metis)
  with Nil show ?case by simp
next
  case (Cons c m)
  then obtain k where "k \<le> length m" "find_str p (m @ p @ t) = Some k" by blast
  with Cons.prems show ?case by (auto simp: prefix_def)
qed

lemma star_segments_more:
  assumes "star_segments ps t" "CHR ''/'' \<notin> set u" "ps \<noteq> []"
  shows "star_segments ps (u @ t)"
proof -
  obtain p qs where ps: "ps = p # qs" using assms(3) by (cases ps) auto
  with assms(1) obtain m w where "t = m @ p @ w" "CHR ''/'' \<notin> set m" "if qs = [] then w = [] else star_segments qs w"
    by (auto simp: star_segments_Cons)
  with assms(2) show ?thesis unfolding ps star_segments_Cons by (intro exI [of _ "u @ m"] exI [of _ w]) simp
qed

text \<open>If a segment with a separator occurs after a text without one, it does not occur
  earlier.\<close>

lemma slash_occurrence:
  assumes r: "r = m @ p @ t" "r = take k r @ p @ t'" "k \<le> length m" "k \<le> length r" "CHR ''/'' \<notin> set m" "CHR ''/'' \<in> set p"
  shows "k = length m"
proof (rule ccontr)
  assume "k \<noteq> length m"
  with r(3) have k: "k < length m" by simp
  obtain p1 p2 where p: "p = p1 @ CHR ''/'' # p2" "CHR ''/'' \<notin> set p1" using split_list_first [OF r(6)] by blast
  have at: "r ! (k + length p1) = CHR ''/''"
    using arg_cong [OF r(2), of "\<lambda>x. x ! (k + length p1)"] r(4) p(1) by (simp add: nth_append)
  show False
  proof (cases "k + length p1 < length m")
    case True
    then have "r ! (k + length p1) \<in> set m" by (subst r(1)) (simp add: nth_append)
    with at r(5) show False by simp
  next
    case False
    let ?j = "k + length p1 - length m"
    have "?j < length p1" using False k by simp
    then have "r ! (k + length p1) \<in> set p1" using False by (subst r(1)) (simp add: nth_append p(1))
    with at p(2) show False by simp
  qed
qed

text \<open>Taking the first occurrence of a segment loses no match.\<close>

lemma glob_segments_iff: "ps \<noteq> [] \<Longrightarrow> glob_segments ps r \<longleftrightarrow> star_segments ps r"
proof (induction ps r rule: glob_segments.induct)
  case (2 part r)
  then show ?case by (auto simp: strip_suffix_def suffix_def)
next
  case (3 part q ps r)
  show ?case
  proof
    assume "glob_segments (part # q # ps) r"
    then obtain k where k: "find_str part r = Some k" "CHR ''/'' \<notin> set (take k r)" "glob_segments (q # ps) (drop (k + length part) r)"
      by (auto split: option.splits if_splits)
    from find_str_Some [OF k(1)] obtain t where t: "r = take k r @ part @ t" "k \<le> length r" by blast
    have "drop (k + length part) r = t" by (subst t(1)) (simp add: t(2))
    with k 3 t(1) show "star_segments (part # q # ps) r" by auto
  next
    assume "star_segments (part # q # ps) r"
    then obtain m t where m: "r = m @ part @ t" "CHR ''/'' \<notin> set m" "star_segments (q # ps) t" by auto
    from find_str_least [OF m(1)] obtain k where k: "k \<le> length m" "find_str part r = Some k" by blast
    from find_str_Some [OF k(2)] obtain t' where t': "r = take k r @ part @ t'" "k \<le> length r" by blast
    have tk: "CHR ''/'' \<notin> set (take k r)" using k(1) m(1,2) by (auto dest: in_set_takeD)
    define u where "u = drop (k + length part) (m @ part)"
    have d: "drop (k + length part) r = u @ t" using k(1) by (simp add: m(1) u_def)
    have "CHR ''/'' \<notin> set u"
    proof (cases "CHR ''/'' \<in> set part")
      case True
      with slash_occurrence [OF m(1) t'(1) k(1) t'(2) m(2)] show ?thesis by (simp add: u_def)
    next
      case False
      with m(2) show ?thesis by (auto simp: u_def dest: in_set_dropD)
    qed
    with 3 k(2) tk d m(3) star_segments_more show "glob_segments (part # q # ps) r" by simp
  qed
qed simp

lemma glob_match_globs: "glob_match p s \<longleftrightarrow> globs p s"
proof (cases "CHR ''*'' \<in> set p")
  case True
  then show ?thesis
    using star_split [OF True] glob_segments_iff by (auto simp: glob_match_def globs_segments Let_def strip_prefix_None_iff prefix_def split: option.split)
next
  case False
  then show ?thesis by (auto simp: glob_match_def globs_segments star_free_split)
qed

lemma any_below_iff:
  "any_below f path \<longleftrightarrow> (\<exists>i. 0 < i \<and> i < length (split_slash path) \<and> f (join_path (drop i (split_slash path))))"
proof (induction path)
  case (Cons c cs)
  obtain q qs where q: "split_slash cs = q # qs" by (cases "split_slash cs") simp_all
  show ?case
  proof (cases "c = CHR ''/''")
    case True
    have "(\<exists>i. 0 < i \<and> i < Suc (length (split_slash cs)) \<and> f (join_path (drop i ([] # split_slash cs)))) \<longleftrightarrow>
        (\<exists>j < length (split_slash cs). f (join_path (drop j (split_slash cs))))"
      by (auto simp: gr0_conv_Suc)
    also have "\<dots> \<longleftrightarrow> f cs \<or> any_below f cs"
      unfolding Cons.IH by (metis drop0 join_split gr0I length_greater_0_conv split_slash_nonempty)
    finally show ?thesis using True by simp
  next
    case False
    have "drop i ((c # q) # qs) = drop i (q # qs)" if "0 < i" for i using that by (cases i) simp_all
    then show ?thesis using Cons.IH False q by auto
  qed
qed simp

text \<open>Where a pattern applies: an anchored one to the whole path, any other one to the rest of
  the path from some component on.\<close>

definition applies :: "pattern \<Rightarrow> string \<Rightarrow> bool" where
  "applies p path \<longleftrightarrow>
     (if p_anchored p then globs (p_text p) path
      else let text = (case strip_prefix ''**/'' (p_text p) of Some t \<Rightarrow> t | None \<Rightarrow> p_text p)
           in \<exists>i < length (split_slash path). globs text (join_path (drop i (split_slash path))))"

lemma pattern_matches_applies: "pattern_matches p path \<longleftrightarrow> applies p path"
proof -
  have "f path \<or> any_below f path \<longleftrightarrow> (\<exists>i < length (split_slash path). f (join_path (drop i (split_slash path))))" for f
    unfolding any_below_iff by (metis drop0 join_split gr0I length_greater_0_conv split_slash_nonempty)
  then show ?thesis
    by (simp add: pattern_matches_def applies_def glob_match_globs [abs_def] del: strip_prefix_Some_iff split: option.split)
qed

text \<open>The matching of filter patterns: the last pattern of a section that applies to a path
  decides, and it excludes the path unless it is negated; a pattern applies as its
  characters say, a star standing for any text without a separator, although the code
  only ever takes the first occurrence of each piece between two stars.\<close>

theorem section_matches_exact:
  "section_matches ps path \<longleftrightarrow>
     (case find (\<lambda>p. applies p path) (rev ps) of None \<Rightarrow> False | Some p \<Rightarrow> \<not> p_negated p)"
proof (induction ps rule: rev_induct)
  case (snoc p ps)
  then show ?case by (simp add: section_matches_def pattern_matches_applies)
qed (simp add: section_matches_def)

section \<open>Which filter files a path sees\<close>

definition ok_names :: "string list \<Rightarrow> bool" where
  "ok_names ps \<longleftrightarrow> (\<forall>n \<in> set ps. n \<noteq> [] \<and> CHR ''/'' \<notin> set n)"

lemma ok_names_simps [simp]:
  "ok_names []" "ok_names (n # ps) \<longleftrightarrow> n \<noteq> [] \<and> CHR ''/'' \<notin> set n \<and> ok_names ps"
  "ok_names (ps @ qs) \<longleftrightarrow> ok_names ps \<and> ok_names qs"
  by (auto simp: ok_names_def)

fun names_ok :: "fsnode \<Rightarrow> bool" where
  "names_ok (FsDir es) \<longleftrightarrow> distinct (map fst es) \<and> (\<forall>(n, c) \<in> set es. n \<noteq> [] \<and> CHR ''/'' \<notin> set n \<and> names_ok c)"
| "names_ok (FsLink (Some n)) \<longleftrightarrow> names_ok n"
| "names_ok _ \<longleftrightarrow> True"

lemma join_path_nil: "ok_names ps \<Longrightarrow> join_path ps = [] \<longleftrightarrow> ps = []"
  by (cases ps rule: join_path.cases) auto

lemma join_path_append: "ps \<noteq> [] \<Longrightarrow> qs \<noteq> [] \<Longrightarrow> join_path (ps @ qs) = join_path ps @ ''/'' @ join_path qs"
proof (induction ps)
  case (Cons n ps)
  then show ?case by (cases "ps = []") (simp_all add: join_path_Cons)
qed simp

lemma child_prefix_join: "ok_names ps \<Longrightarrow> child_prefix (join_path ps) n = join_path (ps @ [n])"
  by (cases "ps = []") (simp_all add: child_prefix_def join_path_nil join_path_append)

lemma split_slash_joined: "ps \<noteq> [] \<Longrightarrow> ok_names ps \<Longrightarrow> split_slash (join_path ps @ CHR ''/'' # r) = ps @ split_slash r"
proof (induction ps)
  case (Cons n ps)
  then show ?case by (cases "ps = []") (simp_all add: join_path_Cons split_slash_append)
qed simp

lemma path_in_scope_iff:
  assumes "ok_names ps" "ok_names qs" "qs \<noteq> []"
  shows "path_in_scope (join_path ps) (join_path qs) \<noteq> None \<longleftrightarrow> strict_prefix ps qs"
proof (cases "ps = []")
  case True
  with assms(3) show ?thesis by (simp add: path_in_scope_def strict_prefix_def)
next
  case False
  have "(\<exists>r. join_path qs = join_path ps @ ''/'' @ r) \<longleftrightarrow> strict_prefix ps qs"
  proof
    assume "\<exists>r. join_path qs = join_path ps @ ''/'' @ r"
    then obtain r where "join_path qs = join_path ps @ CHR ''/'' # r" by auto
    then have "split_slash (join_path qs) = ps @ split_slash r" using split_slash_joined [OF False assms(1)] by simp
    then have "qs = ps @ split_slash r" using split_join [OF assms(3)] assms(2) by (simp add: ok_names_def)
    then show "strict_prefix ps qs" by (simp add: strict_prefix_def)
  next
    assume "strict_prefix ps qs"
    then obtain rs where "qs = ps @ rs" "rs \<noteq> []" by (auto elim: strict_prefixE')
    with join_path_append [OF False] show "\<exists>r. join_path qs = join_path ps @ ''/'' @ r" by auto
  qed
  then show ?thesis using False assms(1) by (auto simp: path_in_scope_def join_path_nil strip_prefix_None_iff prefix_def)
qed

lemma path_in_scope_more: "path_in_scope d q \<noteq> None \<Longrightarrow> path_in_scope d (q @ r) \<noteq> None"
  by (auto simp: path_in_scope_def strip_prefix_None_iff split: if_splits)

definition seen_by :: "string \<Rightarrow> filter_set \<Rightarrow> filter_set" where
  "seen_by path fs = filter (\<lambda>(d, ff). path_in_scope d path \<noteq> None) fs"

definition same_seen :: "string \<Rightarrow> filter_set \<Rightarrow> filter_set \<Rightarrow> bool" where
  "same_seen path fs gs \<longleftrightarrow> set (seen_by path fs) = set (seen_by path gs)"

lemma same_seen_refl [simp]: "same_seen p fs fs"
  and same_seen_sym: "same_seen p fs gs \<Longrightarrow> same_seen p gs fs"
  and same_seen_trans: "same_seen p fs gs \<Longrightarrow> same_seen p gs hs \<Longrightarrow> same_seen p fs hs"
  and same_seen_append: "same_seen p fs gs \<Longrightarrow> same_seen p (fs @ xs) (gs @ xs)"
  by (auto simp: same_seen_def seen_by_def)

lemma filter_test_seen: "filter_test fs p check \<longleftrightarrow> filter_test (seen_by p fs) p check"
  by (induction fs) (auto simp: filter_test_def seen_by_def split: option.splits)

lemma same_seen_test:
  assumes "same_seen p fs gs"
  shows "filter_test fs p check \<longleftrightarrow> filter_test gs p check"
  using assms unfolding filter_test_seen [of fs] filter_test_seen [of gs] same_seen_def
  by (simp add: filter_test_def list_ex_iff)

lemma same_seen_shorter:
  assumes "same_seen (q @ r) fs gs"
  shows "same_seen q fs gs"
proof -
  have "set (seen_by q xs) = {(d, ff) \<in> set (seen_by (q @ r) xs). path_in_scope d q \<noteq> None}" for xs
    using path_in_scope_more by (fastforce simp: seen_by_def)
  with assms show ?thesis by (simp add: same_seen_def)
qed

lemma ignored_test: "is_ignored_by_loaded fs p \<longleftrightarrow> filter_test fs p (\<lambda>ff. section_matches (ff_ignore ff))"
  by (simp add: is_ignored_by_loaded_def filter_test_def)

lemma same_seen_ignored: "same_seen (q @ r) fs gs \<Longrightarrow> is_ignored_by_loaded fs q \<longleftrightarrow> is_ignored_by_loaded gs q"
  unfolding ignored_test by (rule same_seen_test) (rule same_seen_shorter)

lemma load_filter_file_append: "\<exists>xs. \<forall>out. load_filter_file d pre out = out @ xs \<and> (\<forall>x \<in> set xs. fst x = pre)"
proof (cases "\<exists>content n. fs_child d FILTER_FILE = Some n \<and> follow n = Some (FsFile (Some content))")
  case True
  then show ?thesis by (auto simp: load_filter_file_def)
next
  case False
  then show ?thesis by (auto simp: load_filter_file_def split: option.splits fsnode.splits)
qed

lemma same_seen_load: "same_seen p fs gs \<Longrightarrow> same_seen p (load_filter_file d pre fs) (load_filter_file d pre gs)"
  using load_filter_file_append [of d pre] same_seen_append by fastforce

definition entries_named :: "(string \<times> fsnode) list \<Rightarrow> bool" where
  "entries_named es \<longleftrightarrow> (\<forall>(n, c) \<in> set es. n \<noteq> [] \<and> CHR ''/'' \<notin> set n \<and> names_ok c)"

definition below :: "string list \<Rightarrow> filter_set \<Rightarrow> bool" where
  "below ps xs \<longleftrightarrow> (\<forall>x \<in> set xs. \<exists>rs. ok_names rs \<and> fst x = join_path (ps @ rs))"

lemma below_simps [simp]: "below ps []" "below ps (xs @ ys) \<longleftrightarrow> below ps xs \<and> below ps ys"
  by (auto simp: below_def)

lemma below_snoc: "ok_names [n] \<Longrightarrow> below (ps @ [n]) xs \<Longrightarrow> below ps xs"
  unfolding below_def by (metis append.assoc append_Cons append_Nil ok_names_simps(2))

lemma load_below: "ok_names ps \<Longrightarrow> \<exists>xs. load_filter_file d (join_path ps) out = out @ xs \<and> below ps xs"
  using load_filter_file_append [of d "join_path ps"] by (fastforce simp: below_def intro: exI [of _ "[]"])

text \<open>What a walk adds lies below the directory it walks, and for each child below the child.\<close>

lemma collect_below:
  "names_ok n \<Longrightarrow> pre = join_path ps \<Longrightarrow> ok_names ps \<Longrightarrow> \<exists>xs. collect_filter_files n pre out = out @ xs \<and> below ps xs"
  "entries_named es \<Longrightarrow> pre = join_path ps \<Longrightarrow> ok_names ps \<Longrightarrow> \<exists>xs. collect_entries es pre out = out @ xs \<and> below ps xs"
proof (induction n pre out and es pre out arbitrary: ps and ps rule: collect_filter_files_collect_entries.induct)
  case (1 es pre out)
  from load_below [OF 1(4), of "Some (FsDir es)" out] 1(3) obtain xs where
    xs: "load_filter_file (Some (FsDir es)) pre out = out @ xs" "below ps xs" by blast
  have "entries_named es" using 1(2) by (auto simp: entries_named_def)
  from 1(1) [OF this 1(3,4)] xs show ?case by auto
next
  case (5 name n es pre out)
  have nm: "ok_names [name]" "names_ok n" "entries_named es" using 5(3) by (auto simp: entries_named_def)
  let ?o = "case n of FsDir _ \<Rightarrow>
      if skipped_name name then out else if is_ignored_by_loaded out (child_prefix pre name) then out
      else collect_filter_files n (child_prefix pre name) out | _ \<Rightarrow> out"
  have "\<exists>xs. ?o = out @ xs \<and> below ps xs"
  proof (cases "(\<exists>es'. n = FsDir es') \<and> \<not> skipped_name name \<and> \<not> is_ignored_by_loaded out (child_prefix pre name)")
    case True
    then obtain es' where n: "n = FsDir es'" by blast
    have "child_prefix pre name = join_path (ps @ [name])" using 5(4,5) child_prefix_join by simp
    from 5(1) [OF n _ _ nm(2) this] True 5(5) nm(1) obtain xs where
      "collect_filter_files n (child_prefix pre name) out = out @ xs" "below (ps @ [name]) xs" by auto
    with True n below_snoc [OF nm(1)] show ?thesis by auto
  next
    case False
    then show ?thesis by (auto split: fsnode.split)
  qed
  then obtain xs where xs: "?o = out @ xs" "below ps xs" by blast
  from 5(2) [OF nm(3) 5(4,5)] obtain ys where "collect_entries es pre ?o = ?o @ ys" "below ps ys" by blast
  with xs show ?case by auto
qed (use load_below in auto)

lemma unseen:
  assumes "below (ps @ [n]) xs" "ok_names (ps @ n # c # cs)" "n \<noteq> c \<or> cs = []"
  shows "same_seen (join_path (ps @ c # cs)) (out @ xs) out"
proof -
  have "path_in_scope (fst x) (join_path (ps @ c # cs)) = None" if "x \<in> set xs" for x
  proof -
    from assms(1) that obtain rs where rs: "ok_names rs" "fst x = join_path (ps @ n # rs)" by (auto simp: below_def)
    have "\<not> strict_prefix (ps @ n # rs) (ps @ c # cs)" using assms(3) by (auto simp: strict_prefix_def prefix_def)
    with path_in_scope_iff [of "ps @ n # rs" "ps @ c # cs"] rs assms(2) show ?thesis by simp
  qed
  then show ?thesis by (auto simp: same_seen_def seen_by_def)
qed

definition collect_step :: "string \<Rightarrow> fsnode \<Rightarrow> string \<Rightarrow> filter_set \<Rightarrow> filter_set" where
  "collect_step name n pre out =
     (case n of
        FsDir _ \<Rightarrow>
          if skipped_name name then out
          else if is_ignored_by_loaded out (child_prefix pre name) then out
          else collect_filter_files n (child_prefix pre name) out
      | _ \<Rightarrow> out)"

lemma collect_entries_step: "collect_entries ((name, n) # es) pre out = collect_entries es pre (collect_step name n pre out)"
  by (simp add: collect_step_def)

lemma collect_entries_append: "collect_entries (es @ es') pre out = collect_entries es' pre (collect_entries es pre out)"
  by (induction es arbitrary: out) (auto simp del: collect_filter_files.simps simp: collect_entries_step simp del: collect_entries.simps(2))

lemma collect_step_unseen:
  assumes "names_ok n" "ok_names (ps @ name # c # cs)" "name \<noteq> c \<or> cs = [] \<or> skipped_name name \<or> (\<forall>es. n \<noteq> FsDir es)"
  shows "same_seen (join_path (ps @ c # cs)) (collect_step name n (join_path ps) out) out"
proof (cases "skipped_name name \<or> (\<forall>es. n \<noteq> FsDir es) \<or> is_ignored_by_loaded out (child_prefix (join_path ps) name)")
  case True
  then show ?thesis by (auto simp: collect_step_def split: fsnode.split)
next
  case False
  then obtain es where n: "n = FsDir es" by blast
  have "child_prefix (join_path ps) name = join_path (ps @ [name])" using assms(2) child_prefix_join by simp
  from collect_below(1) [OF assms(1) this] assms(2) obtain xs where
    xs: "collect_filter_files n (child_prefix (join_path ps) name) out = out @ xs" "below (ps @ [name]) xs" by auto
  from unseen [OF xs(2) assms(2)] assms(3) False xs(1) n show ?thesis by (auto simp: collect_step_def)
qed

lemma collect_entries_unseen:
  assumes "entries_named es" "ok_names (ps @ c # cs)"
    "\<forall>(n, m) \<in> set es. n \<noteq> c \<or> cs = [] \<or> skipped_name n \<or> (\<forall>es. m \<noteq> FsDir es)"
  shows "same_seen (join_path (ps @ c # cs)) (collect_entries es (join_path ps) out) out"
  using assms(1,3)
proof (induction es arbitrary: out)
  case (Cons e es)
  obtain n m where e: "e = (n, m)" by (cases e)
  with Cons.prems assms(2) have h: "names_ok m" "ok_names (ps @ n # c # cs)" "n \<noteq> c \<or> cs = [] \<or> skipped_name n \<or> (\<forall>es. m \<noteq> FsDir es)"
    "entries_named es" by (auto simp: entries_named_def)
  show ?case unfolding e collect_entries_step
    by (rule same_seen_trans [OF Cons.IH collect_step_unseen [OF h(1-3)]]) (use h Cons.prems in auto)
qed simp

text \<open>The filter files on the way from a directory to a path below it.\<close>

fun along :: "fsnode \<Rightarrow> string list \<Rightarrow> string list \<Rightarrow> filter_set \<Rightarrow> filter_set" where
  "along n ps [] out = out"
| "along n ps (c # cs) out =
     (let out1 = load_filter_file (Some n) (join_path ps) out in
      if cs = [] \<or> skipped_name c then out1
      else case n of
             FsDir es \<Rightarrow>
               (case map_of es c of
                  Some (FsDir es') \<Rightarrow>
                    if is_ignored_by_loaded out1 (join_path (ps @ [c])) then out1 else along (FsDir es') (ps @ [c]) cs out1
                | _ \<Rightarrow> out1)
           | _ \<Rightarrow> out1)"

lemma collect_along:
  assumes "names_ok (FsDir es)" "ok_names (ps @ c # cs)"
    "same_seen (join_path (ps @ c # cs)) fs (load_filter_file (Some (FsDir es)) (join_path ps) out)"
  shows "same_seen (join_path (ps @ c # cs)) (collect_entries es (join_path ps) fs) (along (FsDir es) ps (c # cs) out)"
  using assms
proof (induction cs arbitrary: es ps c fs out)
  case Nil
  have "entries_named es" using Nil.prems(1) by (auto simp: entries_named_def)
  from collect_entries_unseen [OF this Nil.prems(2)] Nil.prems(3) show ?case by (auto intro: same_seen_trans)
next
  case (Cons d ds)
  let ?p = "join_path (ps @ c # d # ds)" and ?L = "load_filter_file (Some (FsDir es)) (join_path ps) out"
  have nm: "entries_named es" "distinct (map fst es)" using Cons.prems(1) by (auto simp: entries_named_def)
  show ?case
  proof (cases "skipped_name c \<or> (\<nexists>es'. map_of es c = Some (FsDir es'))")
    case True
    then have "\<forall>(n, m) \<in> set es. n \<noteq> c \<or> d # ds = [] \<or> skipped_name n \<or> (\<forall>es. m \<noteq> FsDir es)"
      using nm(2) by (force simp: map_of_eq_Some_iff)
    from same_seen_trans [OF collect_entries_unseen [OF nm(1) Cons.prems(2) this] Cons.prems(3)] True show ?thesis
      by (auto simp: Let_def split: option.split fsnode.split)
  next
    case False
    then obtain es' where c: "\<not> skipped_name c" "map_of es c = Some (FsDir es')" by blast
    from split_list [OF map_of_SomeD [OF c(2)]] obtain e1 e2 where e: "es = e1 @ (c, FsDir es') # e2" by blast
    have "c \<notin> fst ` (set e1 \<union> set e2)" using nm(2) by (simp add: e image_Un)
    then have other: "\<forall>(n, m) \<in> set e1 \<union> set e2. n \<noteq> c" by (auto simp: image_Un intro: rev_image_eqI)
    have named: "entries_named e1" "entries_named e2" "names_ok (FsDir es')"
      using nm(1) e by (auto simp: entries_named_def simp del: names_ok.simps)
    let ?o1 = "collect_entries e1 (join_path ps) fs"
    have s1: "same_seen ?p ?o1 ?L"
      by (rule same_seen_trans [OF collect_entries_unseen [OF named(1) Cons.prems(2)] Cons.prems(3)]) (use other in auto)
    have cp: "child_prefix (join_path ps) c = join_path (ps @ [c])" using Cons.prems(2) child_prefix_join by simp
    have pp: "?p = join_path (ps @ [c]) @ ''/'' @ join_path (d # ds)" using join_path_append [of "ps @ [c]" "d # ds"] by simp
    have ig: "is_ignored_by_loaded ?o1 (join_path (ps @ [c])) \<longleftrightarrow> is_ignored_by_loaded ?L (join_path (ps @ [c]))"
      using same_seen_ignored s1 unfolding pp by blast
    have s2: "same_seen ?p (collect_step c (FsDir es') (join_path ps) ?o1) (along (FsDir es) ps (c # d # ds) out)"
    proof (cases "is_ignored_by_loaded ?o1 (join_path (ps @ [c]))")
      case True
      with s1 ig c show ?thesis by (simp add: collect_step_def cp Let_def)
    next
      case False
      have "same_seen (join_path ((ps @ [c]) @ d # ds)) (collect_entries es' (join_path (ps @ [c])) (load_filter_file (Some (FsDir es')) (join_path (ps @ [c])) ?o1))
          (along (FsDir es') (ps @ [c]) (d # ds) ?L)"
        by (rule Cons.IH [OF named(3)]) (use Cons.prems(2) same_seen_load [OF s1] in simp_all)
      with False ig c show ?thesis by (simp add: collect_step_def cp Let_def del: along.simps) (simp add: c)
    qed
    have "collect_entries es (join_path ps) fs = collect_entries e2 (join_path ps) (collect_step c (FsDir es') (join_path ps) ?o1)"
      by (simp only: e collect_entries_append collect_entries_step)
    with same_seen_trans [OF collect_entries_unseen [OF named(2) Cons.prems(2)] s2] other show ?thesis by auto
  qed
qed

section \<open>Loading for one subtree\<close>

text \<open>The components of a scope are names of entries that are not links and not skipped.\<close>

fun plain_scope :: "fsnode \<Rightarrow> string list \<Rightarrow> bool" where
  "plain_scope n [] \<longleftrightarrow> (\<forall>t. n \<noteq> FsLink t)"
| "plain_scope n (c # cs) \<longleftrightarrow> (\<forall>t. n \<noteq> FsLink t) \<and> \<not> skipped_name c \<and>
     (case n of FsDir es \<Rightarrow> (case map_of es c of Some m \<Rightarrow> plain_scope m cs | None \<Rightarrow> True) | _ \<Rightarrow> True)"

lemma plain_scope_link [simp]: "\<not> plain_scope (FsLink t) cs"
  by (cases cs) simp_all

definition finish_scope :: "filter_set \<times> (fsnode option \<times> string) option \<Rightarrow> filter_set" where
  "finish_scope r =
     (case r of
        (fs, None) \<Rightarrow> fs
      | (fs, Some (cur_dir, cur_prefix)) \<Rightarrow>
          (case cur_dir of
             None \<Rightarrow> fs
           | Some n \<Rightarrow> (case follow n of Some (FsDir es) \<Rightarrow> collect_entries es cur_prefix fs | _ \<Rightarrow> fs)))"

lemma filter_load_scoped_eq:
  "filter_load_scoped work_dir scope =
     (if trim_matches CHR ''/'' scope = [] then filter_load work_dir
      else finish_scope (load_ancestors (Some work_dir) [] (scope_components scope) (load_filter_file (Some work_dir) [] [])))"
  by (simp add: filter_load_scoped_def finish_scope_def)

definition no_dir :: "fsnode option \<Rightarrow> bool" where
  "no_dir d \<longleftrightarrow> d = None \<or> d = Some FsOther \<or> (\<exists>c. d = Some (FsFile c))"

lemma no_dir_load: "no_dir d \<Longrightarrow> fs_child d c = None \<and> load_filter_file d pre fs = fs"
  by (auto simp: no_dir_def fs_child_def load_filter_file_def split: fsnode.split)

lemma no_dir_finish: "no_dir d \<Longrightarrow> finish_scope (load_ancestors d pre cs fs) = fs"
proof (induction cs arbitrary: d pre)
  case Nil
  then show ?case by (auto simp: finish_scope_def no_dir_def split: option.split fsnode.split)
next
  case (Cons c cs)
  have "no_dir (fs_child d c)" using no_dir_load [OF Cons.prems] by (simp add: no_dir_def)
  with Cons.IH [OF this] no_dir_load [OF this] show ?case by (simp add: Let_def finish_scope_def)
qed

lemma finish_below:
  assumes "names_ok n" "ok_names (ps @ cs)" "plain_scope n cs"
  shows "\<exists>xs. finish_scope (load_ancestors (Some n) (join_path ps) cs fs) = fs @ xs \<and> below ps xs"
  using assms
proof (induction cs arbitrary: n ps fs)
  case Nil
  then show ?case using collect_below(2) [of _ "join_path ps" ps fs]
    by (cases n) (auto simp: finish_scope_def entries_named_def)
next
  case (Cons c cs)
  show ?case
  proof (cases "\<exists>es m. n = FsDir es \<and> map_of es c = Some m")
    case True
    then obtain es m where m: "n = FsDir es" "map_of es c = Some m" by blast
    have ch: "fs_child (Some n) c = Some m" using m by (simp add: fs_child_def)
    have "names_ok m" using Cons.prems(1) map_of_SomeD [OF m(2)] m(1) by auto
    moreover have "plain_scope m cs" using Cons.prems(3) m by simp
    moreover have cp: "child_prefix (join_path ps) c = join_path (ps @ [c])" "ok_names (ps @ [c])"
      using Cons.prems(2) child_prefix_join by simp_all
    moreover obtain xs where xs: "load_filter_file (Some m) (join_path (ps @ [c])) fs = fs @ xs" "below (ps @ [c]) xs"
      using load_below [OF cp(2)] by blast
    ultimately obtain ys where "finish_scope (load_ancestors (Some m) (join_path (ps @ [c])) cs (fs @ xs)) = (fs @ xs) @ ys" "below (ps @ [c]) ys"
      using Cons.IH [of m "ps @ [c]" "fs @ xs"] Cons.prems(2) by auto
    with ch cp xs below_snoc [of c ps] Cons.prems(2) show ?thesis
      by (auto simp: Let_def finish_scope_def [of "(fs, None)"])
  next
    case False
    then have "no_dir (fs_child (Some n) c)"
      using Cons.prems(3) by (cases n) (auto simp: fs_child_def no_dir_def split: option.split)
    with no_dir_finish [OF this] no_dir_load [OF this] show ?thesis by (auto simp: Let_def finish_scope_def [of "(fs, None)"] intro: exI [of _ "[]"])
  qed
qed

lemma finish_along:
  assumes "names_ok n" "ok_names (ps @ cs @ rest)" "plain_scope n cs" "cs @ rest \<noteq> []"
    "same_seen (join_path (ps @ cs @ rest)) fs (load_filter_file (Some n) (join_path ps) out)"
  shows "same_seen (join_path (ps @ cs @ rest)) (finish_scope (load_ancestors (Some n) (join_path ps) cs fs)) (along n ps (cs @ rest) out)"
  using assms
proof (induction cs arbitrary: n ps fs out)
  case Nil
  then obtain c r where r: "rest = c # r" by (cases rest) auto
  show ?case
  proof (cases n)
    case (FsDir es)
    with collect_along [of es ps c r fs out] Nil.prems show ?thesis by (simp add: finish_scope_def r del: along.simps names_ok.simps)
  qed (use Nil.prems r in \<open>simp_all add: finish_scope_def Let_def\<close>)
next
  case (Cons c cs)
  let ?p = "join_path (ps @ c # cs @ rest)"
  have cp: "child_prefix (join_path ps) c = join_path (ps @ [c])" "ok_names (ps @ [c])" "\<not> skipped_name c"
    using Cons.prems(2,3) child_prefix_join by simp_all
  have keep: ?case if "no_dir (fs_child (Some n) c)" "along n ps (c # cs @ rest) out = load_filter_file (Some n) (join_path ps) out"
    using no_dir_finish [OF that(1)] no_dir_load [OF that(1)] that(2) Cons.prems(5)
    by (simp add: Let_def finish_scope_def [of "(fs, None)"] del: along.simps)
  show ?case
  proof (cases "\<exists>es m. n = FsDir es \<and> map_of es c = Some m")
    case True
    then obtain es m where m: "n = FsDir es" "map_of es c = Some m" by blast
    then have ch: "fs_child (Some n) c = Some m" by (simp add: fs_child_def)
    have mok: "names_ok m" "plain_scope m cs" using Cons.prems(1,3) map_of_SomeD [OF m(2)] m by auto
    show ?thesis
    proof (cases "cs @ rest = []")
      case True
      from load_below [OF cp(2)] obtain xs where
        xs: "load_filter_file (Some m) (join_path (ps @ [c])) fs = fs @ xs" "below (ps @ [c]) xs" by blast
      from finish_below [OF mok(1), of "ps @ [c]" cs "fs @ xs"] mok(2) cp(2) True obtain ys where
        ys: "finish_scope (load_ancestors (Some m) (join_path (ps @ [c])) cs (fs @ xs)) = fs @ (xs @ ys)" "below (ps @ [c]) (xs @ ys)"
        using xs(2) by auto
      have "same_seen ?p (fs @ (xs @ ys)) fs" using unseen [OF ys(2), of c "[]" fs] cp(2) True by simp
      from same_seen_trans [OF this] Cons.prems(5) True ch cp(1) xs(1) ys(1) show ?thesis
        by (simp add: Let_def finish_scope_def [of "(fs, None)"])
    next
      case False
      show ?thesis
      proof (cases m)
        case (FsDir es')
        have pp: "?p = join_path (ps @ [c]) @ ''/'' @ join_path (cs @ rest)" using join_path_append [of "ps @ [c]" "cs @ rest"] False by simp
        have ig: "is_ignored_by_loaded fs (join_path (ps @ [c])) \<longleftrightarrow>
            is_ignored_by_loaded (load_filter_file (Some n) (join_path ps) out) (join_path (ps @ [c]))"
          using same_seen_ignored Cons.prems(5) unfolding append_Cons pp by blast
        have "same_seen ?p (finish_scope (load_ancestors (Some m) (join_path (ps @ [c])) cs (load_filter_file (Some m) (join_path (ps @ [c])) fs)))
            (along m (ps @ [c]) (cs @ rest) (load_filter_file (Some n) (join_path ps) out))"
          using Cons.IH [OF mok(1) _ mok(2) False, of "ps @ [c]"] Cons.prems(2,5) same_seen_load by simp
        with ig Cons.prems(5) False cp m ch FsDir show ?thesis
          by (auto simp: Let_def finish_scope_def [of "(fs, None)"])
      qed (use keep Cons.prems(3) m ch cp(3) mok(2) in \<open>auto simp: no_dir_def Let_def\<close>)
    qed
  next
    case False
    then have "no_dir (fs_child (Some n) c)"
      using Cons.prems(3) by (cases n) (auto simp: fs_child_def no_dir_def split: option.split)
    moreover have "along n ps (c # cs @ rest) out = load_filter_file (Some n) (join_path ps) out"
      using False by (cases n) (auto simp: Let_def split: option.split)
    ultimately show ?thesis by (rule keep)
  qed
qed

text \<open>C36: loading the filter files for one subtree only gives the same answers as loading all of
  them, for every path inside the subtree and every section, although siblings of the
  subtree and of its ancestors are never visited; the components of the subtree must not
  be links or skipped names, and may be missing.\<close>

theorem load_scoped_agrees:
  assumes "work_dir = FsDir es" and "names_ok work_dir" and "plain_scope work_dir (scope_components scope)"
    and "ok_names (scope_components scope @ rest)" and "scope_components scope @ rest \<noteq> []"
    and "path = join_path (scope_components scope @ rest)"
  shows "is_ignored (filter_load_scoped work_dir scope) path = is_ignored (filter_load work_dir) path \<and>
    is_aggregated (filter_load_scoped work_dir scope) path = is_aggregated (filter_load work_dir) path \<and>
    is_line_merge (filter_load_scoped work_dir scope) path = is_line_merge (filter_load work_dir) path"
proof -
  let ?L = "load_filter_file (Some work_dir) [] []" and ?qs = "scope_components scope @ rest"
  obtain c r where r: "?qs = c # r" using assms(5) by (cases ?qs) auto
  have full: "same_seen path (filter_load work_dir) (along work_dir [] ?qs [])"
    using collect_along [of es "[]" c r ?L "[]"] assms(1,2,4,6) r by (simp add: filter_load_def del: along.simps)
  have "same_seen path (filter_load_scoped work_dir scope) (filter_load work_dir)"
  proof (cases "trim_matches CHR ''/'' scope = []")
    case False
    have "same_seen path (finish_scope (load_ancestors (Some work_dir) [] (scope_components scope) ?L)) (along work_dir [] ?qs [])"
      using finish_along [OF assms(2), of "[]"] assms(3-6) by simp
    with same_seen_trans [OF _ same_seen_sym [OF full]] False show ?thesis by (simp add: filter_load_scoped_eq)
  qed (simp add: filter_load_scoped_eq)
  from same_seen_test [OF this] show ?thesis unfolding is_ignored_def is_aggregated_def is_line_merge_def by blast
qed

definition toy_work_tree :: fsnode where
  "toy_work_tree = FsDir
     [(FILTER_FILE, FsFile (Some (''*.o'' @ [CHR 0x0A]))),
      (''a'', FsDir [(FILTER_FILE, FsFile (Some (''*.log'' @ [CHR 0x0A] @ ''!keep.log''))), (''b'', FsDir [])]),
      (''z'', FsDir [(FILTER_FILE, FsFile (Some ''x''))])]"

theorem load_scoped_agrees_witness:
  "is_ignored (filter_load_scoped toy_work_tree ''a/b'') ''a/b/x.log'' \<and> is_ignored (filter_load toy_work_tree) ''a/b/x.log'' \<and>
   \<not> is_ignored (filter_load_scoped toy_work_tree ''a/b'') ''a/b/keep.log'' \<and> length (filter_load_scoped toy_work_tree ''a/b'') = 2 \<and>
   length (filter_load toy_work_tree) = 3"
proof -
  have sc: "scope_components ''a/b'' = [''a'', ''b'']" by code_simp
  have p: "plain_scope toy_work_tree (scope_components ''a/b'')" "names_ok toy_work_tree"
    unfolding sc by (simp_all add: toy_work_tree_def skipped_name_def FILTER_FILE_def)
  have "is_ignored (filter_load_scoped toy_work_tree ''a/b'') ''a/b/x.log'' = is_ignored (filter_load toy_work_tree) ''a/b/x.log''"
    using load_scoped_agrees [OF toy_work_tree_def p(2,1), of "[''x.log'']"] by (simp add: sc)
  moreover have "is_ignored (filter_load_scoped toy_work_tree ''a/b'') ''a/b/x.log''" by code_simp
  moreover have "\<not> is_ignored (filter_load_scoped toy_work_tree ''a/b'') ''a/b/keep.log''" by code_simp
  moreover have "length (filter_load_scoped toy_work_tree ''a/b'') = 2" "length (filter_load toy_work_tree) = 3" by code_simp+
  ultimately show ?thesis by blast
qed

text \<open>The file that a clone writes; every line ends with a line feed.\<close>

definition DEFAULT_FILTER_TEMPLATE :: string where
  "DEFAULT_FILTER_TEMPLATE = concat (map (\<lambda>line. line @ [CHR 0x0A])
     [''# omemfs filter configuration'',
      ''# Generated by `omemfs clone`. You may freely edit, remove, or add patterns.'',
      ''# This file is tracked in omemfs and synced alongside other files.'',
      [],
      ''[ignore]'',
      ''# Paths matching these patterns are excluded from push/scan.'',
      ''# Syntax is the same as .gitignore (including ! for negation).'',
      [],
      ''# Microsoft Office lock files'',
      ''~$*'',
      [],
      ''# LibreOffice lock files'',
      ''.~lock.*#'',
      [],
      ''# macOS metadata'',
      ''.DS_Store'',
      [],
      ''# Windows metadata'',
      ''Thumbs.db'',
      ''desktop.ini'',
      [],
      ''# Build artifacts'',
      ''target/'',
      ''node_modules/'',
      ''__pycache__/'',
      [],
      ''[aggregate]'',
      ''# Directories matching these patterns are shown as a single entry in `omemfs ls`.'',
      ''# They are still synced to the remote normally.'',
      [],
      ''# Version control metadata'',
      ''.git'',
      [],
      ''# Build artifacts (large trees; shown collapsed even though not ignored)'',
      ''target/'',
      ''node_modules/'',
      ''__pycache__/'',
      [],
      ''[line_merge]'',
      ''# Files matching these patterns are merged line by line when both sides'',
      ''# changed them, instead of producing conflict helper files.'',
      [],
      ''# Shell / REPL history files (append-only, one entry per line)'',
      ''.zsh_history'',
      ''.bash_history'',
      ''.python_history''])"

lemma lines_loop_line: "CHR 0x0A \<notin> set l \<Longrightarrow> lines_loop acc (l @ CHR 0x0A # rest) = strip_cr (acc @ l) # lines_loop [] rest"
  by (induction l arbitrary: acc) auto

lemma lines_loop_lines:
  "\<forall>l \<in> set ls. CHR 0x0A \<notin> set l \<Longrightarrow> lines_loop [] (concat (map (\<lambda>l. l @ [CHR 0x0A]) ls)) = map strip_cr ls"
  by (induction ls) (simp_all add: lines_loop_line)

lemma default_template_patterns:
  "(let f = filter_parse DEFAULT_FILTER_TEMPLATE
    in (map p_text (ff_ignore f), map p_text (ff_aggregate f), map p_text (ff_line_merge f))) =
     ([''~$*'', ''.~lock.*#'', ''.DS_Store'', ''Thumbs.db'', ''desktop.ini'', ''target'', ''node_modules'', ''__pycache__''],
      [''.git'', ''target'', ''node_modules'', ''__pycache__''], [''.zsh_history'', ''.bash_history'', ''.python_history''])"
  unfolding filter_parse_def DEFAULT_FILTER_TEMPLATE_def
  by (subst lines_loop_lines, code_simp, code_simp)

end
