(* ===== verification/StatCache.thy ===== *)
theory StatCache
  imports Chunking "HOL-Library.AList" "HOL-Library.Multiset"
begin

text \<open>
  The stat cache (\<open>src/src/stat_cache.rs\<close>): the map from paths to hashes keyed by time and
  size, its file format with the binary search for one subtree, the rule for racily clean
  files, the seals with their epoch and their verification by sampling, and the three ways
  of writing the cache back.

  A path is a \<open>string\<close> whose characters are its bytes. A \<open>SystemTime\<close> is a number of
  nanoseconds since the epoch. Signed 64-bit integers are words read with \<open>sint\<close>. The
  content of the file \<open>STAT_CACHE\<close> is an argument (\<open>None\<close> if it cannot be read), as are
  the marker file, the random epoch and the value of \<open>OMEMFS_SEAL_SAMPLE\<close>.
\<close>

section \<open>Entries\<close>

record stat_entry =
  mtime_secs :: u64
  mtime_nanos :: u32
  fs_size :: u64
  se_hash :: hash
  is_unsafe :: bool
  sealed :: bool

record stat_cache =
  sc_entries :: "(string \<times> stat_entry) list"
  dirty :: bool
  seal_epoch :: bytes
  seals_trusted :: bool
  needs_new_epoch :: bool
  seals_invalidated :: bool
  sc_changed :: "string set"

definition SEAL_EPOCH_LEN :: nat where "SEAL_EPOCH_LEN = 16"

definition NO_SEAL_EPOCH :: bytes where "NO_SEAL_EPOCH = replicate SEAL_EPOCH_LEN 0"

definition stat_cache_default :: stat_cache where
  "stat_cache_default = \<lparr>sc_entries = [], dirty = False, seal_epoch = NO_SEAL_EPOCH, seals_trusted = False,
     needs_new_epoch = False, seals_invalidated = False, sc_changed = {}\<rparr>"

section \<open>Time\<close>

definition systemtime_to_parts :: "int \<Rightarrow> u64 \<times> u32" where
  "systemtime_to_parts t =
     (if 0 \<le> t then (word_of_int (t div 1000000000), word_of_int (t mod 1000000000))
      else let d = - t; secs = d div 1000000000; n = d mod 1000000000
           in if n = 0 then (- word_of_int secs, 0) else (- word_of_int secs - 1, 1000000000 - word_of_int n))"

definition RACY_THRESHOLD_SECS :: nat where "RACY_THRESHOLD_SECS = 3"

text \<open>The difference is one of 64-bit integers.\<close>

definition is_racily_clean :: "u64 \<Rightarrow> int \<Rightarrow> bool" where
  "is_racily_clean secs now =
     (if now < 0 then True
      else sint (word_of_int (now div 1000000000) - secs) < int RACY_THRESHOLD_SECS)"

section \<open>The file format\<close>

definition STAT_MAGIC :: bytes where "STAT_MAGIC = [0x4F, 0x53, 0x54, 0x43]"

definition STAT_VERSION :: u32 where "STAT_VERSION = 1"

definition HEADER_LEN :: nat where "HEADER_LEN = 32"

definition INDEX_ENTRY_LEN :: nat where "INDEX_ENTRY_LEN = 8"

definition DATA_ENTRY_LEN :: nat where "DATA_ENTRY_LEN = 56"

definition DIGEST_LEN :: nat where "DIGEST_LEN = 32"

definition PATHS_ALIGN :: nat where "PATHS_ALIGN = 8"

definition UNSAFE_FLAG :: u32 where "UNSAFE_FLAG = 1"

definition SEALED_FLAG :: u32 where "SEALED_FLAG = 2"

definition path_bytes :: "string \<Rightarrow> bytes" where
  "path_bytes p = map of_char p"

fun index_section :: "u32 \<Rightarrow> string list \<Rightarrow> bytes result" where
  "index_section path_cursor [] = Inr []"
| "index_section path_cursor (p # ps) =
     (let len = word_of_nat (length p) :: u32
      in if 2 ^ 32 \<le> unat path_cursor + unat len then Inl (Other ''STAT_CACHE: path section overflow'')
         else rbind (index_section (path_cursor + len) ps) (\<lambda>rest. Inr (u32_to_be path_cursor @ u32_to_be len @ rest)))"

definition flags_of :: "stat_entry \<Rightarrow> u32" where
  "flags_of e = (if is_unsafe e then UNSAFE_FLAG else 0) OR (if sealed e then SEALED_FLAG else 0)"

definition data_bytes :: "stat_entry \<Rightarrow> bytes" where
  "data_bytes e = u64_to_be (mtime_secs e) @ u32_to_be (mtime_nanos e) @ u64_to_be (fs_size e) @ raw (se_hash e) @ u32_to_be (flags_of e)"

definition encode_v1 :: "(string \<times> stat_entry) list \<Rightarrow> bytes \<Rightarrow> bytes result" where
  "encode_v1 es epoch =
     (let srt = sort_key (path_bytes \<circ> fst) es;
          entry_count = length srt;
          index_offset = HEADER_LEN;
          paths_offset = index_offset + entry_count * INDEX_ENTRY_LEN;
          total_path_len = sum_list (map (length \<circ> fst) srt);
          paths_padded = (total_path_len + PATHS_ALIGN - 1) div PATHS_ALIGN * PATHS_ALIGN;
          data_offset = paths_offset + paths_padded
      in rbind (index_section 0 (map fst srt)) (\<lambda>index.
           Inr (STAT_MAGIC @ u32_to_be STAT_VERSION @ u32_to_be (word_of_nat entry_count) @ u32_to_be 0 @
                u32_to_be (word_of_nat index_offset) @ u32_to_be (word_of_nat paths_offset) @
                u32_to_be (word_of_nat data_offset) @ u32_to_be 0 @
                index @ concat (map (path_bytes \<circ> fst) srt) @ replicate (paths_padded - total_path_len) 0 @
                concat (map (data_bytes \<circ> snd) srt) @ epoch @ replicate (DIGEST_LEN - SEAL_EPOCH_LEN) 0)))"

text \<open>\<open>std::str::from_utf8\<close>: the well-formed sequences of one to four bytes.\<close>

definition cont :: "u8 \<Rightarrow> bool" where "cont b \<longleftrightarrow> 0x80 \<le> b \<and> b \<le> 0xBF"

fun utf8_ok :: "bytes \<Rightarrow> bool" where
  "utf8_ok [] = True"
| "utf8_ok (a # bs) =
     (if a \<le> 0x7F then utf8_ok bs
      else case bs of
             [] \<Rightarrow> False
           | b # cs \<Rightarrow>
               if 0xC2 \<le> a \<and> a \<le> 0xDF then cont b \<and> utf8_ok cs
               else (case cs of
                       [] \<Rightarrow> False
                     | c # ds \<Rightarrow>
                         if 0xE0 \<le> a \<and> a \<le> 0xEF
                         then cont b \<and> (a = 0xE0 \<longrightarrow> 0xA0 \<le> b) \<and> (a = 0xED \<longrightarrow> b \<le> 0x9F) \<and> cont c \<and> utf8_ok ds
                         else (case ds of
                                 [] \<Rightarrow> False
                               | d # es \<Rightarrow>
                                   0xF0 \<le> a \<and> a \<le> 0xF4 \<and> cont b \<and> (a = 0xF0 \<longrightarrow> 0x90 \<le> b) \<and> (a = 0xF4 \<longrightarrow> b \<le> 0x8F) \<and>
                                   cont c \<and> cont d \<and> utf8_ok es)))"

definition from_utf8 :: "bytes \<Rightarrow> string option" where
  "from_utf8 bs = (if utf8_ok bs then Some (map (char_of \<circ> unat) bs) else None)"

definition u32_at :: "bytes \<Rightarrow> nat \<Rightarrow> nat" where
  "u32_at bs i = unat (u32_from_be (subslice i (i + 4) bs))"

record stat_header =
  entry_count :: nat
  paths_offset :: nat
  data_offset :: nat
  paths_size :: nat
  body_end :: nat

definition parse_header :: "bytes \<Rightarrow> stat_header option" where
  "parse_header bs =
     (if length bs < HEADER_LEN + DIGEST_LEN then None
      else if take 4 bs \<noteq> STAT_MAGIC then None
      else if u32_from_be (subslice 4 8 bs) \<noteq> STAT_VERSION then None
      else let entry_count = u32_at bs 8; index_offset = u32_at bs 16; paths_offset = u32_at bs 20; data_offset = u32_at bs 24
           in if index_offset \<noteq> HEADER_LEN then None
              else let index_end = index_offset + entry_count * INDEX_ENTRY_LEN
                   in if paths_offset < index_end \<or> data_offset < paths_offset then None
                      else let body_end = data_offset + entry_count * DATA_ENTRY_LEN
                           in if length bs < body_end + DIGEST_LEN then None
                              else Some \<lparr>entry_count = entry_count, paths_offset = paths_offset, data_offset = data_offset,
                                     paths_size = data_offset - paths_offset, body_end = body_end\<rparr>)"

definition path_bytes_at :: "bytes \<Rightarrow> stat_header \<Rightarrow> nat \<Rightarrow> bytes option" where
  "path_bytes_at bs hr i =
     (let idx = HEADER_LEN + i * INDEX_ENTRY_LEN; path_offset = u32_at bs idx; path_len = u32_at bs (idx + 4)
      in if paths_size hr < path_offset + path_len then None
         else Some (subslice (paths_offset hr + path_offset) (paths_offset hr + path_offset + path_len) bs))"

definition entry_at :: "bytes \<Rightarrow> stat_header \<Rightarrow> nat \<Rightarrow> stat_entry" where
  "entry_at bs hr i =
     (let b = drop (data_offset hr + i * DATA_ENTRY_LEN) bs; flags = u32_from_be (subslice 52 56 b)
      in \<lparr>mtime_secs = u64_from_be (subslice 0 8 b), mtime_nanos = u32_from_be (subslice 8 12 b),
          fs_size = u64_from_be (subslice 12 20 b), se_hash = from_bytes (subslice 20 52 b),
          is_unsafe = (flags AND UNSAFE_FLAG \<noteq> 0), sealed = (flags AND SEALED_FLAG \<noteq> 0)\<rparr>)"

fun parse_entries_from :: "bytes \<Rightarrow> stat_header \<Rightarrow> nat list \<Rightarrow> (string \<times> stat_entry) list \<Rightarrow> (string \<times> stat_entry) list option" where
  "parse_entries_from bs hr [] m = Some m"
| "parse_entries_from bs hr (i # js) m =
     (case path_bytes_at bs hr i of
        None \<Rightarrow> parse_entries_from bs hr js m
      | Some pb \<Rightarrow>
          (case from_utf8 pb of
             None \<Rightarrow> None
           | Some path \<Rightarrow> parse_entries_from bs hr js (AList.update path (entry_at bs hr i) m)))"

definition loaded_cache :: "bytes \<Rightarrow> stat_header \<Rightarrow> (string \<times> stat_entry) list \<Rightarrow> stat_cache" where
  "loaded_cache bs hr m =
     stat_cache_default\<lparr>sc_entries := m, seal_epoch := subslice (body_end hr) (body_end hr + SEAL_EPOCH_LEN) bs\<rparr>"

definition parse_v1 :: "bytes \<Rightarrow> stat_cache option" where
  "parse_v1 bs =
     Option.bind (parse_header bs) (\<lambda>hr.
     Option.bind (parse_entries_from bs hr [0..<entry_count hr] []) (\<lambda>m.
       Some (loaded_cache bs hr m)))"

section \<open>Loading one subtree\<close>

function lower_bound_loop :: "(nat \<Rightarrow> bytes option) \<Rightarrow> bytes \<Rightarrow> nat \<Rightarrow> nat \<Rightarrow> nat" where
  "lower_bound_loop pa key lo hi =
     (if lo < hi
      then let mid = lo + (hi - lo) div 2;
               cmp_less = (case pa mid of Some p \<Rightarrow> p < key | None \<Rightarrow> False)
           in if cmp_less then lower_bound_loop pa key (mid + 1) hi else lower_bound_loop pa key lo mid
      else lo)"
  by pat_completeness auto
termination by (relation "measure (\<lambda>(pa, key, lo, hi). hi - lo)") auto

declare lower_bound_loop.simps [simp del]

definition in_scope :: "string \<Rightarrow> string \<Rightarrow> bool" where
  "in_scope path scope \<longleftrightarrow> path = scope \<or> (length scope < length path \<and> path ! length scope = CHR ''/'' \<and> prefix scope path)"

fun parse_scoped_from ::
    "bytes \<Rightarrow> stat_header \<Rightarrow> string \<Rightarrow> nat list \<Rightarrow> (string \<times> stat_entry) list \<Rightarrow> (string \<times> stat_entry) list" where
  "parse_scoped_from bs hr scope [] m = m"
| "parse_scoped_from bs hr scope (i # js) m =
     parse_scoped_from bs hr scope js
       (case path_bytes_at bs hr i of
          None \<Rightarrow> m
        | Some pb \<Rightarrow>
            (case from_utf8 pb of
               None \<Rightarrow> m
             | Some path \<Rightarrow> if \<not> in_scope path scope then m else AList.update path (entry_at bs hr i) m))"

definition scope_end :: "bytes \<Rightarrow> stat_header \<Rightarrow> string \<Rightarrow> nat" where
  "scope_end bs hr scope =
     (let p = path_bytes scope
      in if p \<noteq> [] \<and> last p < 0xFF
         then lower_bound_loop (path_bytes_at bs hr) (butlast p @ [last p + 1]) 0 (entry_count hr)
         else entry_count hr)"

definition parse_v1_scoped :: "bytes \<Rightarrow> string \<Rightarrow> stat_cache option" where
  "parse_v1_scoped bs scope =
     Option.bind (parse_header bs) (\<lambda>hr.
       let start = lower_bound_loop (path_bytes_at bs hr) (path_bytes scope) 0 (entry_count hr)
       in Some (loaded_cache bs hr (parse_scoped_from bs hr scope [start..<scope_end bs hr scope] [])))"

definition stat_read :: "bytes option \<Rightarrow> stat_cache" where
  "stat_read file =
     (case file of None \<Rightarrow> stat_cache_default
      | Some bs \<Rightarrow> (case parse_v1 bs of None \<Rightarrow> stat_cache_default | Some c \<Rightarrow> c))"

definition stat_read_scoped :: "bytes option \<Rightarrow> string \<Rightarrow> stat_cache" where
  "stat_read_scoped file scope =
     (if scope = [] then stat_read file
      else case file of None \<Rightarrow> stat_cache_default
           | Some bs \<Rightarrow> (case parse_v1_scoped bs scope of None \<Rightarrow> stat_cache_default | Some c \<Rightarrow> c))"

section \<open>Lookup and update\<close>

definition lookup_current_entry :: "stat_cache \<Rightarrow> string \<Rightarrow> int \<Rightarrow> u64 \<Rightarrow> stat_entry option" where
  "lookup_current_entry c path mtime sz =
     (case map_of (sc_entries c) path of
        None \<Rightarrow> None
      | Some e \<Rightarrow>
          if is_unsafe e then None
          else if fs_size e \<noteq> sz then None
          else let (secs, nanos) = systemtime_to_parts mtime
               in if mtime_secs e \<noteq> secs \<or> mtime_nanos e \<noteq> nanos then None else Some e)"

definition lookup_current :: "stat_cache \<Rightarrow> string \<Rightarrow> int \<Rightarrow> u64 \<Rightarrow> hash option" where
  "lookup_current c path mtime sz = map_option se_hash (lookup_current_entry c path mtime sz)"

definition entry_eq :: "stat_entry \<Rightarrow> stat_entry \<Rightarrow> bool" where
  "entry_eq a b \<longleftrightarrow> mtime_secs a = mtime_secs b \<and> mtime_nanos a = mtime_nanos b \<and> fs_size a = fs_size b \<and>
     se_hash a = se_hash b \<and> is_unsafe a = is_unsafe b \<and> sealed a = sealed b"

definition stat_update :: "stat_cache \<Rightarrow> string \<Rightarrow> int \<Rightarrow> u64 \<Rightarrow> hash \<Rightarrow> bool \<Rightarrow> int \<Rightarrow> stat_cache" where
  "stat_update c path mtime sz h seal observed_at =
     (let (secs, nanos) = systemtime_to_parts mtime;
          e = \<lparr>mtime_secs = secs, mtime_nanos = nanos, fs_size = sz, se_hash = h,
               is_unsafe = is_racily_clean secs observed_at, sealed = seal\<rparr>;
          changed = (case map_of (sc_entries c) path of Some old \<Rightarrow> \<not> entry_eq old e | None \<Rightarrow> True);
          c' = (if changed then c\<lparr>dirty := True, sc_changed := insert path (sc_changed c)\<rparr> else c)
      in c'\<lparr>sc_entries := AList.update path e (sc_entries c)\<rparr>)"

definition mark_sealed :: "stat_cache \<Rightarrow> string \<Rightarrow> bool \<times> stat_cache" where
  "mark_sealed c path =
     (case map_of (sc_entries c) path of
        Some e \<Rightarrow>
          if \<not> sealed e
          then (True, c\<lparr>sc_entries := AList.update path (e\<lparr>sealed := True\<rparr>) (sc_entries c), dirty := True,
                        sc_changed := insert path (sc_changed c)\<rparr>)
          else (False, c)
      | None \<Rightarrow> (False, c))"

definition clear_all_sealed :: "stat_cache \<Rightarrow> bool \<times> stat_cache" where
  "clear_all_sealed c =
     (let changed = list_ex (sealed \<circ> snd) (sc_entries c);
          c' = c\<lparr>sc_entries := map (\<lambda>(p, e). (p, e\<lparr>sealed := False\<rparr>)) (sc_entries c)\<rparr>
      in (changed, if changed then c'\<lparr>dirty := True\<rparr> else c'))"

definition stat_remove :: "stat_cache \<Rightarrow> string \<Rightarrow> stat_cache" where
  "stat_remove c path =
     (if map_of (sc_entries c) path \<noteq> None
      then c\<lparr>sc_entries := AList.delete path (sc_entries c), dirty := True\<rparr> else c)"

section \<open>Writing back\<close>

text \<open>A write gives the new content of the file and the cache, no longer dirty.\<close>

definition stat_write :: "stat_cache \<Rightarrow> (bytes \<times> stat_cache) result" where
  "stat_write c = rbind (encode_v1 (sc_entries c) (seal_epoch c)) (\<lambda>bs. Inr (bs, c\<lparr>dirty := False\<rparr>))"

definition write_if_dirty :: "stat_cache \<Rightarrow> bytes option \<Rightarrow> (bool \<times> bytes option \<times> stat_cache) result" where
  "write_if_dirty c file =
     (if \<not> dirty c then Inr (False, file, c) else rbind (stat_write c) (\<lambda>(bs, c'). Inr (True, Some bs, c')))"

definition overlay :: "(string \<times> stat_entry) list \<Rightarrow> (string \<times> stat_entry) list \<Rightarrow> (string \<times> stat_entry) list" where
  "overlay xs m = foldl (\<lambda>m (p, e). AList.update p e m) m xs"

definition write_readonly_merge :: "stat_cache \<Rightarrow> bytes option \<Rightarrow> (bool \<times> bytes option \<times> stat_cache) result" where
  "write_readonly_merge c file =
     (if sc_changed c = {} then Inr (False, file, c)
      else let fresh = stat_read file;
               fresh' = fresh\<lparr>sc_entries := overlay (filter (\<lambda>(p, _). p \<in> sc_changed c) (sc_entries c)) (sc_entries fresh), dirty := True\<rparr>
           in rbind (stat_write fresh') (\<lambda>(bs, _). Inr (True, Some bs, c\<lparr>sc_changed := {}, dirty := False\<rparr>)))"

definition write_scoped_merge :: "stat_cache \<Rightarrow> bytes option \<Rightarrow> string \<Rightarrow> (bool \<times> bytes option \<times> stat_cache) result" where
  "write_scoped_merge c file scope =
     (if scope = [] then write_if_dirty c file
      else if \<not> dirty c then Inr (False, file, c)
      else let full = stat_read file;
               full1 = (if seals_invalidated c then (snd (clear_all_sealed full))\<lparr>seal_epoch := seal_epoch c\<rparr> else full);
               full2 = full1\<lparr>sc_entries := overlay (sc_entries c) (sc_entries full1), dirty := True\<rparr>
           in rbind (stat_write full2) (\<lambda>(bs, _). Inr (True, Some bs, c\<lparr>dirty := False\<rparr>)))"

section \<open>Seals\<close>

definition DEFAULT_SEAL_SAMPLE :: nat where "DEFAULT_SEAL_SAMPLE = 256"

text \<open>\<open>blob_fully_cached\<close> through the counting wrapper: the number of existence probes.\<close>

fun probes_of_chunks :: "'s object_store \<Rightarrow> 's \<Rightarrow> hash list \<Rightarrow> nat" where
  "probes_of_chunks S s [] = 0"
| "probes_of_chunks S s (h # hs) = Suc (if os_exists S s h = Inr True then probes_of_chunks S s hs else 0)"

definition probes :: "env \<Rightarrow> 's object_store \<Rightarrow> 's \<Rightarrow> hash \<Rightarrow> nat" where
  "probes E S s h =
     Suc (if os_exists S s h = Inr True \<and> peek_rules_out_manifest S s h = Inr False
          then case store_read E S s h None of
                 Inl _ \<Rightarrow> 0
               | Inr raw_bytes \<Rightarrow> (case deserialise_manifest raw_bytes of None \<Rightarrow> 0 | Some cs \<Rightarrow> probes_of_chunks S s cs)
          else 0)"

fun sample_loop :: "env \<Rightarrow> 's object_store \<Rightarrow> 's \<Rightarrow> nat \<Rightarrow> nat \<Rightarrow> hash list \<Rightarrow> nat list \<Rightarrow> nat \<Rightarrow> bool" where
  "sample_loop E S s budget sample_n hashes [] spent = True"
| "sample_loop E S s budget sample_n hashes (k # ks) spent =
     (let n = length hashes; idx = (if sample_n = 1 then 0 else k * (n - 1) div (sample_n - 1)) in
      if 0 < k \<and> budget \<le> spent then sample_loop E S s budget sample_n hashes ks spent
      else if blob_fully_cached E S s (hashes ! idx) = Inr True
           then sample_loop E S s budget sample_n hashes ks (spent + probes E S s (hashes ! idx))
           else False)"

definition sample_verify :: "env \<Rightarrow> 's object_store \<Rightarrow> 's \<Rightarrow> nat \<Rightarrow> stat_cache \<Rightarrow> bool" where
  "sample_verify E S s sample_max c =
     (if sample_max = 0 then True
      else let hashes = map (se_hash \<circ> snd) (sort_key (path_bytes \<circ> fst) (filter (sealed \<circ> snd) (sc_entries c)))
           in if hashes = [] then True
              else let sample_n = min sample_max (length hashes)
                   in sample_loop E S s (8 * sample_max) sample_n hashes [0..<sample_n] 0)"

definition compute_seals_trusted :: "env \<Rightarrow> 's object_store \<Rightarrow> 's \<Rightarrow> nat \<Rightarrow> bytes option \<Rightarrow> stat_cache \<Rightarrow> stat_cache" where
  "compute_seals_trusted E S s sample_max marker c =
     (if seal_epoch c = NO_SEAL_EPOCH \<or> marker \<noteq> Some (seal_epoch c)
      then snd (clear_all_sealed (c\<lparr>seals_trusted := False, needs_new_epoch := True, seals_invalidated := True\<rparr>))
      else let c1 = c\<lparr>needs_new_epoch := False\<rparr>; trusted = sample_verify E S s sample_max c1; c2 = c1\<lparr>seals_trusted := trusted\<rparr>
           in if trusted then c2 else snd (clear_all_sealed (c2\<lparr>seals_invalidated := True\<rparr>)))"

text \<open>The marker file keeps its content if it cannot be written.\<close>

definition finalize_seal_epoch :: "bytes \<Rightarrow> bool \<Rightarrow> bytes option \<Rightarrow> stat_cache \<Rightarrow> bytes option \<times> stat_cache" where
  "finalize_seal_epoch new_epoch writable marker c =
     (if \<not> needs_new_epoch c then (marker, c)
      else (if writable then Some new_epoch else marker, c\<lparr>seal_epoch := new_epoch, dirty := True, needs_new_epoch := False\<rparr>))"

definition read_seal_epoch_marker :: "bytes option \<Rightarrow> bytes option" where
  "read_seal_epoch_marker file = Option.bind file (\<lambda>bs. if length bs = SEAL_EPOCH_LEN then Some bs else None)"

section \<open>What an encoded file holds\<close>

definition paths_len :: "(string \<times> stat_entry) list \<Rightarrow> nat" where
  "paths_len es = sum_list (map (length \<circ> fst) es)"

definition paths_padded :: "(string \<times> stat_entry) list \<Rightarrow> nat" where
  "paths_padded es = (paths_len es + 7) div 8 * 8"

text \<open>Distinct text paths, real hashes, and a file below 4 GiB.\<close>

definition entries_wf :: "(string \<times> stat_entry) list \<Rightarrow> bool" where
  "entries_wf es \<longleftrightarrow> distinct (map fst es) \<and> (\<forall>(p, e) \<in> set es. utf8_ok (path_bytes p) \<and> hash_ok (se_hash e)) \<and>
     96 + 64 * length es + paths_len es < 2 ^ 32"

lemma paths_padded_bounds: "paths_len es \<le> paths_padded es" "paths_padded es \<le> paths_len es + 7"
  by (simp_all add: paths_padded_def)

fun index_blocks :: "nat \<Rightarrow> string list \<Rightarrow> bytes list" where
  "index_blocks n [] = []"
| "index_blocks n (p # ps) = (u32_to_be (word_of_nat n) @ u32_to_be (word_of_nat (length p))) # index_blocks (n + length p) ps"

lemma index_blocks_nth:
  "i < length ps \<Longrightarrow> index_blocks n ps ! i =
     u32_to_be (word_of_nat (n + sum_list (map length (take i ps)))) @ u32_to_be (word_of_nat (length (ps ! i)))"
proof (induction ps arbitrary: n i)
  case (Cons p ps)
  then show ?case by (cases i) (simp_all add: add.assoc)
qed simp

lemma index_blocks_lengths: "length (index_blocks n ps) = length ps" "\<forall>b \<in> set (index_blocks n ps). length b = 8"
  by (induction ps arbitrary: n) simp_all

lemma index_section_blocks:
  "n + sum_list (map length ps) < 2 ^ 32 \<Longrightarrow> index_section (word_of_nat n) ps = Inr (concat (index_blocks n ps))"
proof (induction ps arbitrary: n)
  case (Cons p ps)
  have u: "unat (word_of_nat n :: u32) = n" "unat (word_of_nat (length p) :: u32) = length p"
    using Cons.prems by (simp_all add: unat_of_nat)
  have "index_section (word_of_nat (n + length p)) ps = Inr (concat (index_blocks (n + length p) ps))"
    using Cons.prems by (intro Cons.IH) simp
  with u Cons.prems show ?case by (simp add: Let_def)
qed simp

lemma subslice_block:
  assumes "\<forall>b \<in> set bs. length b = k" "i < length bs"
  shows "subslice (i * k) (i * k + k) (concat bs @ rest) = bs ! i" "drop (i * k) (concat bs @ rest) = bs ! i @ concat (drop (Suc i) bs) @ rest"
proof -
  have e: "bs = take i bs @ bs ! i # drop (Suc i) bs" using assms(2) by (rule id_take_nth_drop)
  have l: "length (concat (take i bs)) = i * k" "length (bs ! i) = k"
    using assms length_concat_const [of "take i bs" k] by (auto dest: in_set_takeD simp: mult.commute min_def)
  have c: "concat bs = concat (take i bs) @ bs ! i @ concat (drop (Suc i) bs)"
    using arg_cong [OF e, of concat] by simp
  show "drop (i * k) (concat bs @ rest) = bs ! i @ concat (drop (Suc i) bs) @ rest" by (simp add: c l)
  show "subslice (i * k) (i * k + k) (concat bs @ rest) = bs ! i" by (simp add: subslice_def c l)
qed

lemma subslice_piece:
  assumes "i < length ps"
  shows "subslice (sum_list (map length (take i ps))) (sum_list (map length (take i ps)) + length (ps ! i)) (concat ps @ rest) = ps ! i"
    "sum_list (map length (take i ps)) + length (ps ! i) \<le> sum_list (map length ps)"
proof -
  have e: "ps = take i ps @ ps ! i # drop (Suc i) ps" using assms by (rule id_take_nth_drop)
  have c: "concat ps = concat (take i ps) @ ps ! i @ concat (drop (Suc i) ps)"
    using arg_cong [OF e, of concat] by simp
  have l: "length (concat (take i ps)) = sum_list (map length (take i ps))" by (simp add: length_concat)
  show "subslice (sum_list (map length (take i ps))) (sum_list (map length (take i ps)) + length (ps ! i)) (concat ps @ rest) = ps ! i"
    unfolding l [symmetric] by (simp add: subslice_def c)
  have "sum_list (map length ps) = sum_list (map length (take i ps @ ps ! i # drop (Suc i) ps))" using e by simp
  then show "sum_list (map length (take i ps)) + length (ps ! i) \<le> sum_list (map length ps)" by simp
qed

lemma path_bytes_simps [simp]:
  "length (path_bytes p) = length p" "from_utf8 (path_bytes p) = (if utf8_ok (path_bytes p) then Some p else None)"
proof -
  have "char_of (unat (of_char c :: u8)) = c" for c
  proof -
    have "unat (word_of_nat (of_char c) :: u8) = of_char c" by (simp add: unat_of_nat del: of_nat_of_char)
    then have "unat (of_char c :: u8) = of_char c" by (simp only: of_nat_of_char)
    then show ?thesis by simp
  qed
  then show "from_utf8 (path_bytes p) = (if utf8_ok (path_bytes p) then Some p else None)"
    by (simp add: from_utf8_def path_bytes_def comp_def)
qed (simp add: path_bytes_def)

lemma flags_bits: "(flags_of e AND UNSAFE_FLAG \<noteq> 0) = is_unsafe e" "(flags_of e AND SEALED_FLAG \<noteq> 0) = sealed e"
  by (auto simp: flags_of_def UNSAFE_FLAG_def SEALED_FLAG_def)

lemma u32_at_drop: "drop i bs = u32_to_be w @ r \<Longrightarrow> u32_at bs i = unat w"
  by (simp add: u32_at_def subslice_def)

definition by_path :: "(string \<times> stat_entry) list \<Rightarrow> (string \<times> stat_entry) list" where
  "by_path es = sort_key (path_bytes \<circ> fst) es"

lemma by_path_facts:
  "length (by_path es) = length es" "set (by_path es) = set es" "distinct (map fst (by_path es)) = distinct (map fst es)"
  "paths_len (by_path es) = paths_len es" "sorted (map (path_bytes \<circ> fst) (by_path es))"
proof -
  have m: "mset (by_path es) = mset es" by (simp add: by_path_def)
  show "length (by_path es) = length es" "set (by_path es) = set es" "sorted (map (path_bytes \<circ> fst) (by_path es))"
    by (simp_all add: by_path_def)
  show "distinct (map fst (by_path es)) = distinct (map fst es)" using m by (metis mset_eq_imp_distinct_iff mset_map)
  show "paths_len (by_path es) = paths_len es" unfolding paths_len_def using m by (metis mset_map sum_mset_sum_list)
qed

definition file_header :: "(string \<times> stat_entry) list \<Rightarrow> bytes" where
  "file_header es =
     STAT_MAGIC @ u32_to_be STAT_VERSION @ u32_to_be (word_of_nat (length es)) @ u32_to_be 0 @
     u32_to_be (word_of_nat 32) @ u32_to_be (word_of_nat (32 + length es * 8)) @
     u32_to_be (word_of_nat (32 + length es * 8 + paths_padded es)) @ u32_to_be 0"

definition file_bytes :: "(string \<times> stat_entry) list \<Rightarrow> bytes \<Rightarrow> bytes" where
  "file_bytes es epoch =
     file_header es @ concat (index_blocks 0 (map fst (by_path es))) @
     (concat (map (path_bytes \<circ> fst) (by_path es)) @ replicate (paths_padded es - paths_len es) 0) @
     concat (map (data_bytes \<circ> snd) (by_path es)) @ epoch @ replicate 16 0"

lemmas stat_lengths = HEADER_LEN_def INDEX_ENTRY_LEN_def DATA_ENTRY_LEN_def DIGEST_LEN_def PATHS_ALIGN_def SEAL_EPOCH_LEN_def

lemma encode_v1_bytes:
  assumes "entries_wf es"
  shows "encode_v1 es epoch = Inr (file_bytes es epoch)"
proof -
  have pl: "sum_list (map (length \<circ> fst) (by_path es)) = paths_len es" using by_path_facts(4) [of es] by (simp add: paths_len_def)
  have "sum_list (map length (map fst (by_path es))) < 2 ^ 32" using assms pl by (simp add: entries_wf_def)
  with index_section_blocks [of 0 "map fst (by_path es)"] have
    "index_section 0 (map fst (by_path es)) = Inr (concat (index_blocks 0 (map fst (by_path es))))" by simp
  with pl show ?thesis
    by (simp add: encode_v1_def by_path_def [symmetric] Let_def stat_lengths file_bytes_def file_header_def paths_padded_def by_path_facts(1) add.commute [of 7])
qed

lemma file_header_length: "length (file_header es) = 32"
  by (simp add: file_header_def STAT_MAGIC_def)

lemma file_sections:
  assumes "entries_wf es"
  shows "length (concat (index_blocks 0 (map fst (by_path es)))) = 8 * length es"
    "length (concat (map (path_bytes \<circ> fst) (by_path es)) @ replicate (paths_padded es - paths_len es) 0) = paths_padded es"
    "\<forall>b \<in> set (map (data_bytes \<circ> snd) (by_path es)). length b = 56"
    "length (concat (map (data_bytes \<circ> snd) (by_path es))) = 56 * length es"
proof -
  show "length (concat (index_blocks 0 (map fst (by_path es)))) = 8 * length es"
    using length_concat_const [OF index_blocks_lengths(2)] by (simp add: index_blocks_lengths(1) by_path_facts(1))
  have "length (concat (map (path_bytes \<circ> fst) (by_path es))) = paths_len es"
    using by_path_facts(4) [of es] by (simp add: length_concat paths_len_def comp_def)
  then show "length (concat (map (path_bytes \<circ> fst) (by_path es)) @ replicate (paths_padded es - paths_len es) 0) = paths_padded es"
    using paths_padded_bounds(1) [of es] by simp
  have "length (data_bytes e) = 56" if "(p, e) \<in> set es" for p e
    using assms that hash_ok_length by (auto simp: entries_wf_def data_bytes_def)
  then show d: "\<forall>b \<in> set (map (data_bytes \<circ> snd) (by_path es)). length b = 56" by (auto simp: by_path_facts(2))
  show "length (concat (map (data_bytes \<circ> snd) (by_path es))) = 56 * length es"
    using length_concat_const [OF d] by (simp add: by_path_facts(1))
qed

definition header_of :: "(string \<times> stat_entry) list \<Rightarrow> stat_header" where
  "header_of es = \<lparr>entry_count = length es, paths_offset = 32 + length es * 8, data_offset = 32 + length es * 8 + paths_padded es,
     paths_size = paths_padded es, body_end = 32 + length es * 8 + paths_padded es + length es * 56\<rparr>"

lemma file_header_fields:
  assumes "entries_wf es"
  shows "take 4 (file_header es @ r) = STAT_MAGIC" "u32_from_be (subslice 4 8 (file_header es @ r)) = STAT_VERSION"
    "u32_at (file_header es @ r) 8 = length es" "u32_at (file_header es @ r) 16 = 32"
    "u32_at (file_header es @ r) 20 = 32 + length es * 8" "u32_at (file_header es @ r) 24 = 32 + length es * 8 + paths_padded es"
proof -
  have b: "length es < 2 ^ 32" "32 + length es * 8 < 2 ^ 32" "32 + length es * 8 + paths_padded es < 2 ^ 32"
    using assms paths_padded_bounds(2) [of es] by (auto simp: entries_wf_def)
  have w: "unat (word_of_nat n :: u32) = n" if "n < 2 ^ 32" for n using that by (simp add: unat_of_nat)
  show "take 4 (file_header es @ r) = STAT_MAGIC" by (simp add: file_header_def STAT_MAGIC_def)
  show "u32_from_be (subslice 4 8 (file_header es @ r)) = STAT_VERSION" by (simp add: file_header_def STAT_MAGIC_def subslice_def)
  have d: "drop 8 (file_header es @ r) = u32_to_be (word_of_nat (length es)) @ u32_to_be 0 @
     u32_to_be (word_of_nat 32) @ u32_to_be (word_of_nat (32 + length es * 8)) @
     u32_to_be (word_of_nat (32 + length es * 8 + paths_padded es)) @ u32_to_be 0 @ r" (is "_ = ?x8")
    by (simp add: file_header_def STAT_MAGIC_def)
  have dd: "drop (k + 8) (file_header es @ r) = drop k ?x8" for k using d by (metis drop_drop)
  show "u32_at (file_header es @ r) 8 = length es" using u32_at_drop [OF d] w [OF b(1)] by simp
  show "u32_at (file_header es @ r) 16 = 32" using u32_at_drop [of 16 "file_header es @ r" "word_of_nat 32"] dd [of 8] w [of 32] by simp
  show "u32_at (file_header es @ r) 20 = 32 + length es * 8"
    using u32_at_drop [of 20 "file_header es @ r" "word_of_nat (32 + length es * 8)"] dd [of 12] w [OF b(2)] by simp
  show "u32_at (file_header es @ r) 24 = 32 + length es * 8 + paths_padded es"
    using u32_at_drop [of 24 "file_header es @ r" "word_of_nat (32 + length es * 8 + paths_padded es)"] dd [of 16] w [OF b(3)] by simp
qed

lemma parse_header_file:
  assumes "entries_wf es" "length epoch = 16"
  shows "parse_header (file_bytes es epoch) = Some (header_of es)"
    "subslice (body_end (header_of es)) (body_end (header_of es) + SEAL_EPOCH_LEN) (file_bytes es epoch) = epoch"
proof -
  have l: "length (file_bytes es epoch) = 32 + 8 * length es + paths_padded es + 56 * length es + 32"
    using file_sections [OF assms(1)] file_header_length assms(2) by (simp add: file_bytes_def)
  obtain r where r: "file_bytes es epoch = file_header es @ r" unfolding file_bytes_def by blast
  show "parse_header (file_bytes es epoch) = Some (header_of es)"
    unfolding parse_header_def l stat_lengths
    unfolding r file_header_fields [OF assms(1)] by (simp add: header_of_def Let_def)
  show "subslice (body_end (header_of es)) (body_end (header_of es) + SEAL_EPOCH_LEN) (file_bytes es epoch) = epoch"
    using file_sections [OF assms(1)] file_header_length [of es] assms(2)
    by (simp add: file_bytes_def header_of_def subslice_def stat_lengths)
qed

lemma subslice_shift: "length xs = n \<Longrightarrow> subslice (n + i) (n + i + k) (xs @ ys) = subslice i (i + k) ys"
  by (auto simp: subslice_def)

lemma drop_shift: "length xs = n \<Longrightarrow> drop (n + i) (xs @ ys) = drop i ys"
  by auto

lemma by_path_wf:
  assumes "entries_wf es" "i < length es"
  shows "utf8_ok (path_bytes (fst (by_path es ! i)))" "hash_ok (se_hash (snd (by_path es ! i)))"
proof -
  have "by_path es ! i \<in> set es" using nth_mem [of i "by_path es"] assms(2) by (simp add: by_path_facts)
  then show "utf8_ok (path_bytes (fst (by_path es ! i)))" "hash_ok (se_hash (snd (by_path es ! i)))"
    using assms(1) by (auto simp: entries_wf_def split_beta)
qed

lemma file_entries:
  assumes wf: "entries_wf es" and i: "i < length es"
  shows "path_bytes_at (file_bytes es epoch) (header_of es) i = Some (path_bytes (fst (by_path es ! i)))"
    "entry_at (file_bytes es epoch) (header_of es) i = snd (by_path es ! i)"
proof -
  let ?bs = "file_bytes es epoch" and ?ps = "map fst (by_path es)"
  let ?off = "sum_list (map length (take i ?ps))"
  have ib: "i < length (by_path es)" using i by (simp add: by_path_facts(1))
  note sec = file_sections [OF wf] and hl = file_header_length [of es]
  obtain r1 where b1: "?bs = file_header es @ concat (index_blocks 0 ?ps) @ r1" unfolding file_bytes_def by blast
  obtain r2 where b2: "?bs = (file_header es @ concat (index_blocks 0 ?ps)) @ concat (map (path_bytes \<circ> fst) (by_path es)) @ r2"
    unfolding file_bytes_def by auto
  have ix: "drop (32 + i * 8) ?bs = index_blocks 0 ?ps ! i @ concat (drop (Suc i) (index_blocks 0 ?ps)) @ r1"
    using subslice_block(2) [OF index_blocks_lengths(2), of i 0 ?ps r1] ib hl by (simp add: b1 index_blocks_lengths(1))
  have len: "map length (map (path_bytes \<circ> fst) (by_path es)) = map length ?ps" by (simp add: path_bytes_def)
  have off: "?off + length (?ps ! i) \<le> paths_len es"
    using subslice_piece(2) [of i "map (path_bytes \<circ> fst) (by_path es)"] ib by_path_facts(4) [of es]
    by (simp add: len [symmetric] take_map paths_len_def comp_def)
  have small: "paths_len es < 2 ^ 32" using wf by (simp add: entries_wf_def)
  have w: "unat (word_of_nat n :: u32) = n" if "n \<le> paths_len es" for n using that small by (simp add: unat_of_nat)
  have at: "u32_at ?bs (32 + i * 8) = ?off" "u32_at ?bs (32 + i * 8 + 4) = length (?ps ! i)"
  proof -
    have nth: "index_blocks 0 ?ps ! i = u32_to_be (word_of_nat ?off) @ u32_to_be (word_of_nat (length (?ps ! i)))"
      using index_blocks_nth [of i ?ps 0] ib by simp
    show "u32_at ?bs (32 + i * 8) = ?off" using u32_at_drop [of "32 + i * 8" ?bs "word_of_nat ?off"] ix nth w off by simp
    have "drop (32 + i * 8 + 4) ?bs = drop 4 (drop (32 + i * 8) ?bs)" by (simp add: add.commute)
    then show "u32_at ?bs (32 + i * 8 + 4) = length (?ps ! i)"
      using u32_at_drop [of "32 + i * 8 + 4" ?bs "word_of_nat (length (?ps ! i))"] ix nth w off by simp
  qed
  have "length (file_header es @ concat (index_blocks 0 ?ps)) = 32 + length es * 8" using sec(1) hl by simp
  then have "subslice (32 + length es * 8 + ?off) (32 + length es * 8 + ?off + length (?ps ! i)) ?bs =
      subslice ?off (?off + length (?ps ! i)) (concat (map (path_bytes \<circ> fst) (by_path es)) @ r2)"
    unfolding b2 by (rule subslice_shift)
  also have "\<dots> = path_bytes (fst (by_path es ! i))"
    using subslice_piece(1) [of i "map (path_bytes \<circ> fst) (by_path es)" r2] ib by (simp add: take_map comp_def)
  finally show "path_bytes_at ?bs (header_of es) i = Some (path_bytes (fst (by_path es ! i)))"
    using at off paths_padded_bounds(1) [of es] by (simp add: path_bytes_at_def header_of_def stat_lengths Let_def)
  let ?pre = "file_header es @ concat (index_blocks 0 ?ps) @ concat (map (path_bytes \<circ> fst) (by_path es)) @ replicate (paths_padded es - paths_len es) 0"
  obtain r3 where b3: "?bs = ?pre @ concat (map (data_bytes \<circ> snd) (by_path es)) @ r3" unfolding file_bytes_def by auto
  have "length ?pre = data_offset (header_of es)" using sec(1,2) hl by (simp add: header_of_def)
  then have "drop (data_offset (header_of es) + i * 56) ?bs = drop (i * 56) (concat (map (data_bytes \<circ> snd) (by_path es)) @ r3)"
    unfolding b3 by (rule drop_shift)
  also have "\<dots> = data_bytes (snd (by_path es ! i)) @ concat (drop (Suc i) (map (data_bytes \<circ> snd) (by_path es))) @ r3" (is "_ = ?d @ ?r")
    using subslice_block(2) [OF sec(3), of i r3] ib by simp
  finally have d: "drop (data_offset (header_of es) + i * 56) ?bs = ?d @ ?r" .
  have "hash_ok (se_hash (snd (by_path es ! i)))" "length (raw (se_hash (snd (by_path es ! i)))) = 32"
    using by_path_wf(2) [OF wf i] hash_ok_length by blast+
  then show "entry_at ?bs (header_of es) i = snd (by_path es ! i)"
    unfolding entry_at_def DATA_ENTRY_LEN_def d
    by (simp add: Let_def data_bytes_def subslice_def flags_bits)
qed

lemma map_of_overlay: "map_of (overlay xs m) p = (case map_of (rev xs) p of Some e \<Rightarrow> Some e | None \<Rightarrow> map_of m p)"
proof (induction xs rule: rev_induct)
  case (snoc x xs)
  then show ?case by (cases x) (simp add: overlay_def update_conv')
qed (simp add: overlay_def)

lemma distinct_overlay: "distinct (map fst m) \<Longrightarrow> distinct (map fst (overlay xs m))"
proof (induction xs rule: rev_induct)
  case (snoc x xs)
  then show ?case by (cases x) (simp add: overlay_def distinct_update)
qed (simp add: overlay_def)

lemma map_of_same_set: "distinct (map fst xs) \<Longrightarrow> distinct (map fst ys) \<Longrightarrow> set xs = set ys \<Longrightarrow> map_of xs = map_of ys"
  by (intro ext option_eqI) (simp add: map_of_eq_Some_iff)

lemma map_of_overlay_distinct:
  "distinct (map fst xs) \<Longrightarrow> map_of (overlay xs m) p = (case map_of xs p of Some e \<Rightarrow> Some e | None \<Rightarrow> map_of m p)"
  using map_of_same_set [of "rev xs" xs] by (simp add: map_of_overlay rev_map [symmetric])

lemma map_of_filter: "map_of (filter (\<lambda>(p, e). P p) xs) q = (if P q then map_of xs q else None)"
  by (induction xs) auto

lemma parse_entries_file:
  assumes "entries_wf es" "set js \<subseteq> {..<length es}"
  shows "parse_entries_from (file_bytes es epoch) (header_of es) js m = Some (overlay (map ((!) (by_path es)) js) m)"
    "parse_scoped_from (file_bytes es epoch) (header_of es) scope js m =
       overlay (filter (\<lambda>(p, e). in_scope p scope) (map ((!) (by_path es)) js)) m"
proof -
  note u = by_path_wf(1) [OF assms(1)]
  show "parse_entries_from (file_bytes es epoch) (header_of es) js m = Some (overlay (map ((!) (by_path es)) js) m)"
    using assms(2) by (induction js arbitrary: m) (simp_all add: overlay_def file_entries [OF assms(1)] u split_beta)
  show "parse_scoped_from (file_bytes es epoch) (header_of es) scope js m =
       overlay (filter (\<lambda>(p, e). in_scope p scope) (map ((!) (by_path es)) js)) m"
    using assms(2) by (induction js arbitrary: m) (simp_all add: overlay_def file_entries [OF assms(1)] u split_beta)
qed

text \<open>The file format: what was encoded is parsed again.\<close>

definition same_entries :: "(string \<times> stat_entry) list \<Rightarrow> (string \<times> stat_entry) list \<Rightarrow> bool" where
  "same_entries xs ys \<longleftrightarrow> distinct (map fst xs) \<and> distinct (map fst ys) \<and> map_of xs = map_of ys"

lemma by_path_all: "map ((!) (by_path es)) [0..<length es] = by_path es"
  using map_nth [of "by_path es"] by (simp add: by_path_facts(1))

lemma parse_v1_file:
  assumes "entries_wf es" "length epoch = 16"
  shows "\<exists>m. parse_v1 (file_bytes es epoch) = Some (stat_cache_default\<lparr>sc_entries := m, seal_epoch := epoch\<rparr>) \<and> same_entries m es"
proof -
  have d: "distinct (map fst (by_path es))" "distinct (map fst es)" using assms(1) by (auto simp: entries_wf_def by_path_facts(3))
  have "map_of (by_path es) = map_of es" by (rule map_of_same_set [OF d by_path_facts(2)])
  then have "same_entries (overlay (by_path es) []) es"
    using d distinct_overlay [of "[]"] by (auto simp: same_entries_def map_of_overlay_distinct split: option.split)
  moreover have "parse_entries_from (file_bytes es epoch) (header_of es) [0..<length es] [] = Some (overlay (by_path es) [])"
    using parse_entries_file(1) [OF assms(1), of "[0..<length es]"] by (simp add: by_path_all lessThan_atLeast0)
  moreover have "entry_count (header_of es) = length es" by (simp add: header_of_def)
  ultimately show ?thesis using parse_header_file [OF assms] by (auto simp: parse_v1_def loaded_cache_def)
qed

section \<open>The binary search\<close>

lemma lower_bound_loop_ok:
  assumes "\<And>i. i < n \<Longrightarrow> pa i = Some (ks ! i)" "sorted ks" "length ks = n" and "lo \<le> hi" "hi \<le> n"
    "\<forall>i < lo. ks ! i < key" "\<forall>i. hi \<le> i \<longrightarrow> i < n \<longrightarrow> \<not> ks ! i < key"
  shows "lower_bound_loop pa key lo hi \<le> n \<and> (\<forall>i < lower_bound_loop pa key lo hi. ks ! i < key) \<and>
    (\<forall>i. lower_bound_loop pa key lo hi \<le> i \<longrightarrow> i < n \<longrightarrow> \<not> ks ! i < key)"
  using assms(1,4-7)
proof (induction pa key lo hi rule: lower_bound_loop.induct)
  case (1 pa key lo hi)
  show ?case
  proof (cases "lo < hi")
    case True
    define mid where "mid = lo + (hi - lo) div 2"
    have m: "lo \<le> mid" "mid < hi" "mid < n" using True 1(5) by (auto simp: mid_def)
    have pm: "pa mid = Some (ks ! mid)" by (rule 1(3) [OF m(3)])
    have mono: "ks ! i \<le> ks ! j" if "i \<le> j" "j < n" for i j using assms(2,3) that by (simp add: sorted_nth_mono)
    show ?thesis
    proof (cases "ks ! mid < key")
      case True
      then have a: "\<forall>i < mid + 1. ks ! i < key" using mono m(3) by (metis Suc_eq_plus1 less_Suc_eq_le order_le_less_trans)
      have eq: "lower_bound_loop pa key lo hi = lower_bound_loop pa key (mid + 1) hi"
        using \<open>lo < hi\<close> True pm by (subst lower_bound_loop.simps) (simp add: mid_def [symmetric] Let_def)
      from True pm have c: "case pa mid of None \<Rightarrow> False | Some p \<Rightarrow> p < key" by simp
      show ?thesis unfolding eq by (rule 1(1) [OF \<open>lo < hi\<close> mid_def refl c 1(3) _ 1(5) a 1(7)]) (use m in simp_all)
    next
      case False
      then have a: "\<forall>i. mid \<le> i \<longrightarrow> i < n \<longrightarrow> \<not> ks ! i < key" using mono by (meson leD leI order_trans)
      have eq: "lower_bound_loop pa key lo hi = lower_bound_loop pa key lo mid"
        using \<open>lo < hi\<close> False pm by (subst lower_bound_loop.simps) (simp add: mid_def [symmetric] Let_def)
      from False pm have c: "\<not> (case pa mid of None \<Rightarrow> False | Some p \<Rightarrow> p < key)" by simp
      show ?thesis unfolding eq by (rule 1(2) [OF \<open>lo < hi\<close> mid_def refl c 1(3) m(1) _ 1(6) a]) (use m in simp_all)
    qed
  next
    case False
    then have "lower_bound_loop pa key lo hi = hi" using 1(4) by (subst lower_bound_loop.simps) simp
    moreover have "lo = hi" using False 1(4) by simp
    ultimately show ?thesis using 1(5-7) by simp
  qed
qed

lemma prefix_le: "prefix xs ys \<Longrightarrow> xs \<le> (ys :: bytes)"
proof (induction xs arbitrary: ys)
  case (Cons x xs)
  then show ?case by (cases ys) auto
qed simp

lemma append_less: "xs @ ys < xs @ zs \<longleftrightarrow> ys < (zs :: bytes)"
  by (induction xs) simp_all

lemma in_scope_bounds:
  assumes "in_scope p scope" "scope \<noteq> []"
  shows "path_bytes scope \<le> path_bytes p"
    "last (path_bytes scope) < 0xFF \<Longrightarrow> path_bytes p < butlast (path_bytes scope) @ [last (path_bytes scope) + 1]"
proof -
  from assms(1) obtain t where t: "p = scope @ t" by (auto simp: in_scope_def prefix_def)
  then show "path_bytes scope \<le> path_bytes p" by (intro prefix_le) (simp add: path_bytes_def)
  assume l: "last (path_bytes scope) < 0xFF"
  have ne: "path_bytes scope \<noteq> []" using assms(2) by (simp add: path_bytes_def)
  have "last (path_bytes scope) < last (path_bytes scope) + 1"
    using l by (simp add: word_less_nat_alt unat_word_ariths)
  then have "last (path_bytes scope) # path_bytes t < [last (path_bytes scope) + 1]" by simp
  then have "butlast (path_bytes scope) @ last (path_bytes scope) # path_bytes t < butlast (path_bytes scope) @ [last (path_bytes scope) + 1]"
    unfolding append_less .
  moreover have "path_bytes p = butlast (path_bytes scope) @ last (path_bytes scope) # path_bytes t"
    using append_butlast_last_id [OF ne] by (simp add: t path_bytes_def)
  ultimately show "path_bytes p < butlast (path_bytes scope) @ [last (path_bytes scope) + 1]" by simp
qed

lemma lower_bound_file:
  fixes es epoch key
  assumes "entries_wf es"
  defines "r \<equiv> lower_bound_loop (path_bytes_at (file_bytes es epoch) (header_of es)) key 0 (length es)"
  shows "r \<le> length es" "i < r \<Longrightarrow> path_bytes (fst (by_path es ! i)) < key"
    "r \<le> i \<Longrightarrow> i < length es \<Longrightarrow> \<not> path_bytes (fst (by_path es ! i)) < key"
proof -
  let ?ks = "map (path_bytes \<circ> fst) (by_path es)"
  have nth: "?ks ! i = path_bytes (fst (by_path es ! i))" if "i < length es" for i using that by (simp add: by_path_facts(1))
  have pa: "path_bytes_at (file_bytes es epoch) (header_of es) i = Some (?ks ! i)" if "i < length es" for i
    using file_entries(1) [OF assms(1) that] nth [OF that] by simp
  have l: "length ?ks = length es" by (simp add: by_path_facts(1))
  note b = lower_bound_loop_ok [OF pa by_path_facts(5) l, of 0 "length es" key, folded r_def]
  show r: "r \<le> length es" using b by simp
  show "i < r \<Longrightarrow> path_bytes (fst (by_path es ! i)) < key" using b nth [of i] r by auto
  show "r \<le> i \<Longrightarrow> i < length es \<Longrightarrow> \<not> path_bytes (fst (by_path es ! i)) < key" using b nth [of i] by auto
qed

lemma scope_run:
  assumes "entries_wf es" "scope \<noteq> []"
  shows "scope_end (file_bytes es epoch) (header_of es) scope \<le> length es"
    "i < length es \<Longrightarrow> in_scope (fst (by_path es ! i)) scope \<Longrightarrow>
       lower_bound_loop (path_bytes_at (file_bytes es epoch) (header_of es)) (path_bytes scope) 0 (length es) \<le> i \<and>
       i < scope_end (file_bytes es epoch) (header_of es) scope"
proof -
  have n: "entry_count (header_of es) = length es" by (simp add: header_of_def)
  show "scope_end (file_bytes es epoch) (header_of es) scope \<le> length es"
    using lower_bound_file(1) [OF assms(1)] by (simp add: scope_end_def Let_def n)
  assume i: "i < length es" "in_scope (fst (by_path es ! i)) scope"
  note b = in_scope_bounds [OF i(2) assms(2)]
  show "lower_bound_loop (path_bytes_at (file_bytes es epoch) (header_of es)) (path_bytes scope) 0 (length es) \<le> i \<and>
       i < scope_end (file_bytes es epoch) (header_of es) scope"
  proof
    show "lower_bound_loop (path_bytes_at (file_bytes es epoch) (header_of es)) (path_bytes scope) 0 (length es) \<le> i"
      using lower_bound_file(2) [OF assms(1), of i epoch "path_bytes scope"] b(1) by (meson leI not_le)
    show "i < scope_end (file_bytes es epoch) (header_of es) scope"
      using lower_bound_file(3) [OF assms(1), of epoch _ i] b(2) i(1) by (auto simp: scope_end_def Let_def n not_le [symmetric])
  qed
qed

lemma scoped_entries:
  assumes wf: "entries_wf es" and "length epoch = 16" "scope \<noteq> []"
  shows "\<exists>m. parse_v1_scoped (file_bytes es epoch) scope = Some (stat_cache_default\<lparr>sc_entries := m, seal_epoch := epoch\<rparr>) \<and>
    distinct (map fst m) \<and> (\<forall>p. map_of m p = (if in_scope p scope then map_of es p else None))"
proof -
  let ?bs = "file_bytes es epoch" and ?hr = "header_of es"
  let ?lo = "lower_bound_loop (path_bytes_at ?bs ?hr) (path_bytes scope) 0 (length es)" and ?hi = "scope_end ?bs ?hr scope"
  let ?xs = "filter (\<lambda>(p, e). in_scope p scope) (map ((!) (by_path es)) [?lo..<?hi])"
  have d: "distinct (map fst (by_path es))" "distinct (map fst es)" using wf by (auto simp: entries_wf_def by_path_facts(3))
  have js: "set [?lo..<?hi] \<subseteq> {..<length es}" using scope_run(1) [OF wf assms(3), of epoch] by auto
  have ps: "parse_scoped_from ?bs ?hr scope [?lo..<?hi] [] = overlay ?xs []" by (rule parse_entries_file(2) [OF wf js])
  have "set ?xs = {(p, e) \<in> set es. in_scope p scope}"
  proof -
    have "by_path es ! i \<in> set es" if "i \<in> set [?lo..<?hi]" for i
      using subsetD [OF js that] nth_mem [of i "by_path es"] by (simp add: by_path_facts(1,2))
    then have "set (map ((!) (by_path es)) [?lo..<?hi]) \<subseteq> set es" by auto
    moreover have "(p, e) \<in> set (map ((!) (by_path es)) [?lo..<?hi])" if "(p, e) \<in> set es" "in_scope p scope" for p e
    proof -
      from that(1) obtain i where "i < length es" "by_path es ! i = (p, e)" by (metis by_path_facts(1,2) in_set_conv_nth)
      with scope_run(2) [OF wf assms(3), of i epoch] that(2) show ?thesis by (force simp: image_iff)
    qed
    ultimately show ?thesis by auto
  qed
  moreover have "set (filter (\<lambda>(p, e). in_scope p scope) es) = {(p, e) \<in> set es. in_scope p scope}" by auto
  moreover have dx: "distinct (map fst ?xs)"
  proof -
    have "distinct (map fst (map ((!) (by_path es)) [?lo..<?hi]))"
      using d(1) js by (auto simp: distinct_map distinct_conv_nth inj_on_def by_path_facts(1) subset_iff)
    then show ?thesis by (rule distinct_map_filter)
  qed
  moreover have "distinct (map fst (filter (\<lambda>(p, e). in_scope p scope) es))" using d(2) by (rule distinct_map_filter)
  ultimately have "map_of ?xs = map_of (filter (\<lambda>(p, e). in_scope p scope) es)" by (intro map_of_same_set) simp_all
  then have "map_of (overlay ?xs []) p = (if in_scope p scope then map_of es p else None)" for p
    using map_of_overlay_distinct [OF dx] by (simp add: map_of_filter split: option.split)
  moreover have "entry_count ?hr = length es" by (simp add: header_of_def)
  ultimately show ?thesis using parse_header_file [OF wf assms(2)] ps distinct_overlay [of "[]"]
    by (auto simp: parse_v1_scoped_def loaded_cache_def Let_def)
qed

section \<open>Reading back\<close>

text \<open>C32: the stat cache file: what is written is read back, entry by entry and with its epoch,
  and reading one subtree by binary search returns exactly the entries of the subtree: the
  path itself and what lies below it, no sibling that merely shares the prefix.\<close>

theorem stat_file_exact:
  assumes "entries_wf es" and "length epoch = 16" and "encode_v1 es epoch = Inr bs" and "scope \<noteq> []"
  shows "map_of (sc_entries (stat_read (Some bs))) = map_of es \<and> seal_epoch (stat_read (Some bs)) = epoch \<and>
    map_of (sc_entries (stat_read_scoped (Some bs) scope)) = (\<lambda>p. if in_scope p scope then map_of es p else None) \<and>
    seal_epoch (stat_read_scoped (Some bs) scope) = epoch"
proof -
  have bs: "bs = file_bytes es epoch" using assms(1,3) encode_v1_bytes by simp
  from parse_v1_file [OF assms(1,2)] scoped_entries [OF assms(1,2,4)] assms(4) show ?thesis
    by (auto simp: bs stat_read_def stat_read_scoped_def same_entries_def)
qed

definition toy_stat_entry :: stat_entry where
  "toy_stat_entry = \<lparr>mtime_secs = 5, mtime_nanos = 7, fs_size = 9, se_hash = toy_hash, is_unsafe = False, sealed = True\<rparr>"

definition toy_stat_entries :: "(string \<times> stat_entry) list" where
  "toy_stat_entries = [(''foo.txt'', toy_stat_entry), (''foo/a'', toy_stat_entry), (''foo'', toy_stat_entry\<lparr>is_unsafe := True\<rparr>), (''bar'', toy_stat_entry)]"

lemma toy_stat_wf: "entries_wf toy_stat_entries"
  by (simp add: entries_wf_def toy_stat_entries_def toy_stat_entry_def path_bytes_def paths_len_def)

theorem stat_file_exact_witness:
  "\<exists>bs. encode_v1 toy_stat_entries (replicate 16 1) = Inr bs \<and>
     map_of (sc_entries (stat_read_scoped (Some bs) ''foo'')) ''foo/a'' = Some toy_stat_entry \<and>
     map_of (sc_entries (stat_read_scoped (Some bs) ''foo'')) ''foo.txt'' = None \<and>
     map_of (sc_entries (stat_read (Some bs))) ''foo.txt'' = Some toy_stat_entry"
proof -
  have e: "encode_v1 toy_stat_entries (replicate 16 1) = Inr (file_bytes toy_stat_entries (replicate 16 1))"
    by (rule encode_v1_bytes [OF toy_stat_wf])
  from stat_file_exact [OF toy_stat_wf _ e, of "''foo''"] e show ?thesis
    by (auto simp: toy_stat_entries_def in_scope_def prefix_def)
qed

section \<open>Racily clean files\<close>

definition time_ok :: "int \<Rightarrow> bool" where
  "time_ok t \<longleftrightarrow> - (2 ^ 62) \<le> t div 1000000000 \<and> t div 1000000000 < 2 ^ 62"

lemma sint_word_of_int_u64: "- (2 ^ 63) \<le> k \<Longrightarrow> k < 2 ^ 63 \<Longrightarrow> sint (word_of_int k :: u64) = k"
  by (simp add: signed_of_int signed_take_bit_int_eq_self)

lemma systemtime_parts_floor:
  "systemtime_to_parts t = (word_of_int (t div 1000000000), word_of_int (t mod 1000000000))"
proof (cases "0 \<le> t")
  case False
  define d where "d = - t"
  have t: "t = - d" by (simp add: d_def)
  show ?thesis
  proof (cases "d mod 1000000000 = 0")
    case True
    then have "t mod 1000000000 = 0" "t div 1000000000 = - (d div 1000000000)"
      by (simp_all add: t zmod_zminus1_eq_if zdiv_zminus1_eq_if)
    with True False show ?thesis by (simp add: systemtime_to_parts_def Let_def d_def [symmetric])
  next
    case f: False
    have m: "t mod 1000000000 = 1000000000 - d mod 1000000000" "t div 1000000000 = - (d div 1000000000) - 1"
      using f by (simp_all add: t zmod_zminus1_eq_if zdiv_zminus1_eq_if)
    show ?thesis unfolding m using f False by (simp add: systemtime_to_parts_def Let_def d_def [symmetric])
  qed
qed (simp add: systemtime_to_parts_def)

lemma secs_inject:
  assumes "time_ok t" "time_ok t'" "systemtime_to_parts t = systemtime_to_parts t'"
  shows "t = t'"
proof -
  have s: "(word_of_int (t div 1000000000) :: u64) = word_of_int (t' div 1000000000)"
    and n: "(word_of_int (t mod 1000000000) :: u32) = word_of_int (t' mod 1000000000)"
    using assms(3) unfolding systemtime_parts_floor prod.inject by blast+
  have "sint (word_of_int (k div 1000000000) :: u64) = k div 1000000000" if "time_ok k" for k
    by (rule sint_word_of_int_u64) (use that in \<open>simp_all add: time_ok_def\<close>)
  then have "t div 1000000000 = t' div 1000000000" using arg_cong [OF s, of sint] assms(1,2) by metis
  moreover have "uint (word_of_int (k mod 1000000000) :: u32) = k mod 1000000000" for k :: int
  proof -
    have "k mod 1000000000 < 1000000000" by simp
    also have "\<dots> < 2 ^ 32" by simp
    finally show ?thesis by (simp add: unsigned_of_int take_bit_int_eq_self)
  qed
  then have "t mod 1000000000 = t' mod 1000000000" using arg_cong [OF n, of uint] by metis
  ultimately show ?thesis by (metis div_mult_mod_eq)
qed

lemma racy_iff:
  assumes "time_ok m" "time_ok ob"
  shows "is_racily_clean (fst (systemtime_to_parts m)) ob \<longleftrightarrow> ob < 0 \<or> ob div 1000000000 - m div 1000000000 < 3"
proof -
  have "sint (word_of_int (ob div 1000000000) - word_of_int (m div 1000000000) :: u64) = ob div 1000000000 - m div 1000000000"
    unfolding wi_hom_sub by (rule sint_word_of_int_u64) (use assms in \<open>simp_all add: time_ok_def\<close>)
  then show ?thesis by (simp add: is_racily_clean_def systemtime_parts_floor RACY_THRESHOLD_SECS_def)
qed

lemma lookup_after_update:
  assumes "time_ok m" "time_ok m'" "time_ok ob"
  shows "lookup_current (stat_update c path m sz h seal ob) path m' sz' =
    (if m' = m \<and> sz' = sz \<and> 0 \<le> ob \<and> 3 \<le> ob div 1000000000 - m div 1000000000 then Some h else None)"
proof -
  obtain s n where sn: "systemtime_to_parts m = (s, n)" by fastforce
  have same: "systemtime_to_parts m' = (s, n) \<longleftrightarrow> m' = m" using secs_inject [OF assms(2,1)] sn by auto
  then have ne: "s = fst (systemtime_to_parts m') \<and> n = snd (systemtime_to_parts m') \<longleftrightarrow> m' = m" by (auto simp: prod_eq_iff)
  obtain s' n' where sn': "systemtime_to_parts m' = (s', n')" by fastforce
  have racy: "is_racily_clean s ob \<longleftrightarrow> ob < 0 \<or> ob div 1000000000 - m div 1000000000 < 3"
    using racy_iff [OF assms(1,3)] sn by simp
  show ?thesis using ne unfolding lookup_current_def lookup_current_entry_def stat_update_def sn sn'
    by (auto simp: Let_def racy update_conv' split: option.split)
qed

text \<open>C31: the cache and racily clean files: a lookup after an update hits exactly if time and
  size are unchanged and the entry was observed at least three seconds after the time of the
  file, so a file written once more after it was observed, at \<open>w\<close>, with a time that is at
  most two seconds older than \<open>w\<close> (the granularity of the coarsest file systems), is never
  answered with the old hash.\<close>

theorem hit_not_racy:
  assumes "time_ok m" and "time_ok m'" and "time_ok ob"
  shows "lookup_current (stat_update c path m sz h seal ob) path m' sz' =
      (if m' = m \<and> sz' = sz \<and> 0 \<le> ob \<and> 3 \<le> ob div 1000000000 - m div 1000000000 then Some h else None) \<and>
    (ob \<le> w \<and> w - 2000000000 \<le> m' \<longrightarrow> lookup_current (stat_update c path m sz h seal ob) path m' sz' = None)"
proof -
  have "ob div 1000000000 - m' div 1000000000 < 3" if "ob \<le> w" "w - 2000000000 \<le> m'"
  proof -
    have "ob div 1000000000 \<le> (m' + 2 * 1000000000) div 1000000000" by (rule zdiv_mono1) (use that in simp_all)
    then show ?thesis by simp
  qed
  then show ?thesis unfolding lookup_after_update [OF assms] by auto
qed

theorem hit_not_racy_witness:
  "lookup_current (stat_update stat_cache_default ''f'' 7000000000 1 toy_hash False 10000000000) ''f'' 7000000000 1 = Some toy_hash \<and>
   lookup_current (stat_update stat_cache_default ''f'' 7000000000 1 toy_hash False 9999999999) ''f'' 9000000000 1 = None"
  using hit_not_racy [of 7000000000 7000000000 10000000000 stat_cache_default "''f''" 1 toy_hash False 1 0]
    hit_not_racy [of 7000000000 9000000000 9999999999 stat_cache_default "''f''" 1 toy_hash False 1 11000000000]
  by (simp add: time_ok_def)

section \<open>Writing back\<close>

lemma update_sizes: "length (AList.update p e m) \<le> Suc (length m)" "paths_len (AList.update p e m) \<le> length p + paths_len m"
  by (induction m) (auto simp: paths_len_def)

lemma overlay_sizes: "length (overlay xs m) \<le> length xs + length m" "paths_len (overlay xs m) \<le> paths_len xs + paths_len m"
proof -
  have "length (overlay xs m) \<le> length xs + length m \<and> paths_len (overlay xs m) \<le> paths_len xs + paths_len m"
  proof (induction xs arbitrary: m)
    case (Cons x xs)
    obtain p e where x: "x = (p, e)" by fastforce
    from Cons [of "AList.update p e m"] update_sizes [of p e m] show ?case by (simp add: x overlay_def) (simp add: paths_len_def)
  qed (simp add: overlay_def paths_len_def)
  then show "length (overlay xs m) \<le> length xs + length m" "paths_len (overlay xs m) \<le> paths_len xs + paths_len m" by simp_all
qed

text \<open>The two sets of entries fit into one file.\<close>

definition fits :: "(string \<times> stat_entry) list \<Rightarrow> (string \<times> stat_entry) list \<Rightarrow> bool" where
  "fits xs ys \<longleftrightarrow> 96 + 64 * (length xs + length ys) + (paths_len xs + paths_len ys) < 2 ^ 32"

lemma fits_mono:
  "fits xs ys \<Longrightarrow> length xs' \<le> length xs \<Longrightarrow> paths_len xs' \<le> paths_len xs \<Longrightarrow> length ys' = length ys \<Longrightarrow>
     paths_len ys' = paths_len ys \<Longrightarrow> fits xs' ys'"
  by (simp add: fits_def)

lemma overlay_wf:
  assumes "entries_wf xs" "entries_wf m" "fits xs m"
  shows "entries_wf (overlay xs m)"
proof -
  have dm: "distinct (map fst xs)" "distinct (map fst m)" using assms(1,2) by (simp_all add: entries_wf_def)
  have "(p, e) \<in> set xs \<union> set m" if "(p, e) \<in> set (overlay xs m)" for p e
  proof -
    have "map_of (overlay xs m) p = Some e" by (rule map_of_is_SomeI [OF distinct_overlay [OF dm(2)] that])
    then show ?thesis unfolding map_of_overlay_distinct [OF dm(1)] by (auto dest: map_of_SomeD split: option.splits)
  qed
  with assms distinct_overlay [OF dm(2), of xs] overlay_sizes [of xs m] show ?thesis
    unfolding entries_wf_def fits_def by (fastforce simp: split_beta)
qed

lemma filter_sizes: "length (filter P xs) \<le> length xs" "paths_len (filter P xs) \<le> paths_len xs"
  unfolding paths_len_def by (induction xs) (auto simp: le_SucI)

lemma filter_wf: "entries_wf xs \<Longrightarrow> entries_wf (filter P xs)"
  using filter_sizes(2) [of P xs] mult_le_mono2 [OF filter_sizes(1) [of P xs], of 64] unfolding entries_wf_def
  by (auto simp: distinct_map_filter simp del: length_filter_le mult_le_cancel1)

lemma same_entries_wf:
  assumes "same_entries m es" "entries_wf es"
  shows "entries_wf m" "length m = length es" "paths_len m = paths_len es"
proof -
  have "x \<in> set m \<longleftrightarrow> x \<in> set es" for x
    using assms(1) map_of_eq_Some_iff [of m "fst x" "snd x"] map_of_eq_Some_iff [of es "fst x" "snd x"] by (simp add: same_entries_def)
  then have "set m = set es" by blast
  moreover have "distinct m" "distinct es" using assms(1) by (auto simp: same_entries_def distinct_map)
  ultimately have ms: "mset m = mset es" by (simp add: set_eq_iff_mset_eq_distinct)
  show l: "length m = length es" using ms by (metis size_mset)
  show p: "paths_len m = paths_len es" unfolding paths_len_def using ms by (metis mset_map sum_mset_sum_list)
  show "entries_wf m" using assms l p \<open>set m = set es\<close> by (simp add: entries_wf_def same_entries_def)
qed

lemma clear_sealed_entries:
  "sc_entries (snd (clear_all_sealed c)) = map (\<lambda>(p, e). (p, e\<lparr>sealed := False\<rparr>)) (sc_entries c)"
  "seal_epoch (snd (clear_all_sealed c)) = seal_epoch c"
  by (simp_all add: clear_all_sealed_def Let_def)

lemma map_entries_wf:
  assumes "\<And>e. se_hash (f e) = se_hash e"
  shows "entries_wf (map (\<lambda>(p, e). (p, f e)) xs) = entries_wf xs"
    "length (map (\<lambda>(p, e). (p, f e)) xs) = length xs" "paths_len (map (\<lambda>(p, e). (p, f e)) xs) = paths_len xs"
proof -
  have m: "map fst (map (\<lambda>(p, e). (p, f e)) xs) = map fst xs" by (induction xs) auto
  then show p: "paths_len (map (\<lambda>(p, e). (p, f e)) xs) = paths_len xs" by (metis paths_len_def map_map)
  show "entries_wf (map (\<lambda>(p, e). (p, f e)) xs) = entries_wf xs"
    unfolding entries_wf_def m p using assms by (auto simp: split_beta)
qed simp

text \<open>Reading a file that was written, and writing a set of entries over it.\<close>

lemma stat_read_file:
  assumes "entries_wf es" "length epoch = 16"
  shows "\<exists>m. stat_read (Some (file_bytes es epoch)) = stat_cache_default\<lparr>sc_entries := m, seal_epoch := epoch\<rparr> \<and> same_entries m es"
  using parse_v1_file [OF assms] by (auto simp: stat_read_def)

lemma stat_write_reads_back:
  assumes "entries_wf (sc_entries c)" "length (seal_epoch c) = 16"
  shows "\<exists>bs. stat_write c = Inr (bs, c\<lparr>dirty := False\<rparr>) \<and> map_of (sc_entries (stat_read (Some bs))) = map_of (sc_entries c) \<and>
    seal_epoch (stat_read (Some bs)) = seal_epoch c"
  using stat_read_file [OF assms] encode_v1_bytes [OF assms(1)] by (auto simp: stat_write_def same_entries_def)

lemma scoped_merge_exact:
  assumes es: "entries_wf es" "length epoch = 16" and c: "entries_wf (sc_entries c)" "length (seal_epoch c) = 16"
    and "fits (sc_entries c) es" "scope \<noteq> []" "dirty c"
  shows "\<exists>bs'. write_scoped_merge c (Some (file_bytes es epoch)) scope = Inr (True, Some bs', c\<lparr>dirty := False\<rparr>) \<and>
    map_of (sc_entries (stat_read (Some bs'))) =
      map_of (map (\<lambda>(p, e). (p, if seals_invalidated c then e\<lparr>sealed := False\<rparr> else e)) es) ++ map_of (sc_entries c) \<and>
    seal_epoch (stat_read (Some bs')) = (if seals_invalidated c then seal_epoch c else epoch)"
proof -
  let ?f = "\<lambda>e. if seals_invalidated c then e\<lparr>sealed := False\<rparr> else e"
  let ?ep = "if seals_invalidated c then seal_epoch c else epoch"
  from stat_read_file [OF es] obtain m where
    m: "stat_read (Some (file_bytes es epoch)) = stat_cache_default\<lparr>sc_entries := m, seal_epoch := epoch\<rparr>" "same_entries m es" by blast
  define full where "full = (if seals_invalidated c
    then (snd (clear_all_sealed (stat_read (Some (file_bytes es epoch)))))\<lparr>seal_epoch := seal_epoch c\<rparr> else stat_read (Some (file_bytes es epoch)))"
  have id: "map (\<lambda>(p, e). (p, e)) m = m" by (induction m) auto
  have f: "sc_entries full = map (\<lambda>(p, e). (p, ?f e)) m" "seal_epoch full = ?ep"
    using id by (simp_all add: full_def m(1) clear_sealed_entries)
  note sw = same_entries_wf [OF m(2) es(1)]
  have fm: "entries_wf (map (\<lambda>(p, e). (p, ?f e)) m)" "fits (sc_entries c) (map (\<lambda>(p, e). (p, ?f e)) m)"
    using map_entries_wf [of ?f m] sw assms(5) by (simp_all add: fits_def)
  let ?new = "full\<lparr>sc_entries := overlay (sc_entries c) (sc_entries full), dirty := True\<rparr>"
  have "entries_wf (sc_entries ?new)" "length (seal_epoch ?new) = 16" using overlay_wf [OF c(1) fm] f es(2) c(2) by simp_all
  from stat_write_reads_back [OF this] obtain bs' where w: "stat_write ?new = Inr (bs', ?new\<lparr>dirty := False\<rparr>)"
    "map_of (sc_entries (stat_read (Some bs'))) = map_of (overlay (sc_entries c) (sc_entries full))"
    "seal_epoch (stat_read (Some bs')) = ?ep" using f(2) by auto
  have "map_of (map (\<lambda>(p, e). (p, ?f e)) m) = map_of (map (\<lambda>(p, e). (p, ?f e)) es)"
    using m(2) by (simp add: map_of_map same_entries_def)
  then have "map_of (overlay (sc_entries c) (sc_entries full)) = map_of (map (\<lambda>(p, e). (p, ?f e)) es) ++ map_of (sc_entries c)"
    using c(1) unfolding f(1) by (intro ext) (simp only: map_of_overlay_distinct entries_wf_def map_add_def split: option.split)
  moreover have "write_scoped_merge c (Some (file_bytes es epoch)) scope = Inr (True, Some bs', c\<lparr>dirty := False\<rparr>)"
    using w(1) assms(6,7) unfolding write_scoped_merge_def Let_def full_def by simp
  ultimately show ?thesis using w(2,3) by auto
qed

lemma readonly_merge_exact:
  assumes es: "entries_wf es" "length epoch = 16" and c: "entries_wf (sc_entries c)"
    and "fits (sc_entries c) es" "sc_changed c \<noteq> {}"
  shows "\<exists>bs'. write_readonly_merge c (Some (file_bytes es epoch)) = Inr (True, Some bs', c\<lparr>sc_changed := {}, dirty := False\<rparr>) \<and>
    map_of (sc_entries (stat_read (Some bs'))) = map_of es ++ (map_of (sc_entries c) |` sc_changed c) \<and>
    seal_epoch (stat_read (Some bs')) = epoch"
proof -
  from stat_read_file [OF es] obtain m where
    m: "stat_read (Some (file_bytes es epoch)) = stat_cache_default\<lparr>sc_entries := m, seal_epoch := epoch\<rparr>" "same_entries m es" by blast
  let ?own = "filter (\<lambda>(p, e). p \<in> sc_changed c) (sc_entries c)"
  let ?new = "stat_cache_default\<lparr>seal_epoch := epoch, sc_entries := overlay ?own m, dirty := True\<rparr>"
  note sw = same_entries_wf [OF m(2) es(1)] and fw = filter_wf [OF c, of "\<lambda>(p, e). p \<in> sc_changed c"]
  have "fits ?own m" using assms(4) sw filter_sizes [of "\<lambda>(p, e). p \<in> sc_changed c" "sc_entries c"]
    fits_mono by metis
  then have "entries_wf (sc_entries ?new)" "length (seal_epoch ?new) = 16" using overlay_wf [OF fw sw(1)] es(2) by simp_all
  from stat_write_reads_back [OF this] obtain bs' where w: "stat_write ?new = Inr (bs', ?new\<lparr>dirty := False\<rparr>)"
    "map_of (sc_entries (stat_read (Some bs'))) = map_of (overlay ?own m)" "seal_epoch (stat_read (Some bs')) = epoch" by auto
  have d: "distinct (map fst ?own)" using fw by (simp add: entries_wf_def)
  have "map_of (overlay ?own m) = map_of es ++ (map_of (sc_entries c) |` sc_changed c)"
    using m(2) by (intro ext)
      (simp add: map_of_overlay_distinct [OF d] map_of_filter map_add_def restrict_map_def same_entries_def split: option.split)
  moreover have "write_readonly_merge c (Some (file_bytes es epoch)) = Inr (True, Some bs', c\<lparr>sc_changed := {}, dirty := False\<rparr>)"
    using w(1) assms(5) by (simp add: write_readonly_merge_def m(1))
  ultimately show ?thesis using w(2,3) by auto
qed

text \<open>Writing the cache back: after the write of a scoped scan the file holds the entries of
  the scan and, elsewhere, exactly what it held before, with no seal left and the new epoch if the
  scan had found the seals broken; the write of a read-only command replaces only the
  entries the command itself changed and never the epoch.\<close>

theorem writeback_exact:
  assumes "entries_wf es" and "length epoch = 16" and "encode_v1 es epoch = Inr bs"
    and "entries_wf (sc_entries c)" and "length (seal_epoch c) = 16" and "fits (sc_entries c) es"
    and "scope \<noteq> []" and "dirty c" and "sc_changed c \<noteq> {}"
  shows "(\<exists>bs'. write_scoped_merge c (Some bs) scope = Inr (True, Some bs', c\<lparr>dirty := False\<rparr>) \<and>
      map_of (sc_entries (stat_read (Some bs'))) =
        map_of (map (\<lambda>(p, e). (p, if seals_invalidated c then e\<lparr>sealed := False\<rparr> else e)) es) ++ map_of (sc_entries c) \<and>
      seal_epoch (stat_read (Some bs')) = (if seals_invalidated c then seal_epoch c else epoch)) \<and>
    (\<exists>bs'. write_readonly_merge c (Some bs) = Inr (True, Some bs', c\<lparr>sc_changed := {}, dirty := False\<rparr>) \<and>
      map_of (sc_entries (stat_read (Some bs'))) = map_of es ++ (map_of (sc_entries c) |` sc_changed c) \<and>
      seal_epoch (stat_read (Some bs')) = epoch)"
proof -
  have "bs = file_bytes es epoch" using assms(1,3) encode_v1_bytes by simp
  then show ?thesis
    using scoped_merge_exact [OF assms(1,2,4-8)] readonly_merge_exact [OF assms(1,2,4,6,9)] by simp
qed

text \<open>A scan of \<open>foo\<close> that found the seals broken, written over the file of the example.\<close>

definition toy_scan :: stat_cache where
  "toy_scan = stat_cache_default\<lparr>sc_entries := [(''foo/a'', toy_stat_entry\<lparr>fs_size := 10\<rparr>)], dirty := True,
     seal_epoch := replicate 16 2, seals_invalidated := True, sc_changed := {''foo/a''}\<rparr>"

theorem writeback_exact_witness:
  "\<exists>bs bs'. encode_v1 toy_stat_entries (replicate 16 1) = Inr bs \<and>
     write_scoped_merge toy_scan (Some bs) ''foo'' = Inr (True, Some bs', toy_scan\<lparr>dirty := False\<rparr>) \<and>
     map_of (sc_entries (stat_read (Some bs'))) ''foo/a'' = Some (toy_stat_entry\<lparr>fs_size := 10\<rparr>) \<and>
     map_of (sc_entries (stat_read (Some bs'))) ''bar'' = Some (toy_stat_entry\<lparr>sealed := False\<rparr>) \<and>
     seal_epoch (stat_read (Some bs')) = replicate 16 2"
proof -
  let ?bs = "file_bytes toy_stat_entries (replicate 16 1)"
  have e: "encode_v1 toy_stat_entries (replicate 16 1) = Inr ?bs" by (rule encode_v1_bytes [OF toy_stat_wf])
  have c: "entries_wf (sc_entries toy_scan)" "fits (sc_entries toy_scan) toy_stat_entries"
    by (simp_all add: toy_scan_def fits_def entries_wf_def toy_stat_entries_def toy_stat_entry_def path_bytes_def paths_len_def)
  have r: "length (seal_epoch toy_scan) = 16" "dirty toy_scan" "sc_changed toy_scan \<noteq> {}" by (simp_all add: toy_scan_def)
  obtain bs' where "write_scoped_merge toy_scan (Some ?bs) ''foo'' = Inr (True, Some bs', toy_scan\<lparr>dirty := False\<rparr>)"
    "map_of (sc_entries (stat_read (Some bs'))) =
        map_of (map (\<lambda>(p, e). (p, if seals_invalidated toy_scan then e\<lparr>sealed := False\<rparr> else e)) toy_stat_entries) ++ map_of (sc_entries toy_scan)"
    "seal_epoch (stat_read (Some bs')) = (if seals_invalidated toy_scan then seal_epoch toy_scan else replicate 16 1)"
    using writeback_exact [OF toy_stat_wf _ e c(1) r(1) c(2) _ r(2,3), of "''foo''"] by auto
  with e show ?thesis by (auto simp: toy_scan_def toy_stat_entries_def)
qed

section \<open>Trusting the seals\<close>

definition sealed_hashes :: "stat_cache \<Rightarrow> hash list" where
  "sealed_hashes c = map (se_hash \<circ> snd) (sort_key (path_bytes \<circ> fst) (filter (sealed \<circ> snd) (sc_entries c)))"

lemma sample_loop_cached: "\<forall>h \<in> set hs. blob_fully_cached E S s h = Inr True \<Longrightarrow> 0 < length hs \<Longrightarrow>
    \<forall>k \<in> set ks. k < n \<Longrightarrow> sample_loop E S s b n hs ks spent"
proof (induction ks arbitrary: spent)
  case (Cons k ks)
  have "(if n = 1 then 0 else k * (length hs - 1) div (n - 1)) < length hs"
  proof (cases "n = 1")
    case False
    have "k \<le> n - 1" using Cons.prems(3) by auto
    then have "k * (length hs - 1) div (n - 1) \<le> (n - 1) * (length hs - 1) div (n - 1)" by (intro div_le_mono mult_le_mono1)
    also have "\<dots> \<le> length hs - 1" by (simp add: mult.commute)
    also have "\<dots> < length hs" using Cons.prems(2) by simp
    finally show ?thesis using False by simp
  qed (use Cons.prems(2) in simp)
  with Cons show ?case by (auto simp: Let_def)
qed simp

lemma sample_loop_all:
  assumes "\<forall>h \<in> set hs. probes E S s h \<le> 8" "length hs \<le> mx"
  shows "sample_loop E S s (8 * mx) (length hs) hs [k..<length hs] spent \<Longrightarrow> spent \<le> 8 * k \<Longrightarrow> k \<le> j \<Longrightarrow> j < length hs \<Longrightarrow>
    blob_fully_cached E S s (hs ! j) = Inr True"
proof (induction "length hs - k" arbitrary: k spent)
  case (Suc d)
  have k: "k < length hs" "[k..<length hs] = k # [Suc k..<length hs]" using Suc(2) by (auto simp: upt_conv_Cons)
  have idx: "(if length hs = 1 then 0 else k * (length hs - 1) div (length hs - 1)) = k" using k(1) by auto
  have run: "\<not> (0 < k \<and> 8 * mx \<le> spent)" using Suc.prems(2) k(1) assms(2) by auto
  have now: "blob_fully_cached E S s (hs ! k) = Inr True"
    and rest: "sample_loop E S s (8 * mx) (length hs) hs [Suc k..<length hs] (spent + probes E S s (hs ! k))"
    using Suc.prems(1) run unfolding k(2) sample_loop.simps Let_def idx by (auto split: if_splits)
  have "probes E S s (hs ! k) \<le> 8" using assms(1) k(1) by simp
  then have "spent + probes E S s (hs ! k) \<le> 8 * Suc k" using Suc.prems(2) by simp
  with Suc(1) [OF _ rest] Suc(2) Suc.prems(3,4) now show ?case by (cases "j = k") auto
qed simp

lemma sample_verify_all:
  assumes "sample_verify E S s mx c" "0 < mx" "length (sealed_hashes c) \<le> mx" "\<forall>h \<in> set (sealed_hashes c). probes E S s h \<le> 8"
    and "h \<in> set (sealed_hashes c)"
  shows "blob_fully_cached E S s h = Inr True"
proof -
  from assms(5) obtain j where j: "j < length (sealed_hashes c)" "sealed_hashes c ! j = h" by (auto simp: in_set_conv_nth)
  have "sample_loop E S s (8 * mx) (length (sealed_hashes c)) (sealed_hashes c) [0..<length (sealed_hashes c)] 0"
    using assms(1-3) j(1) by (auto simp: sample_verify_def sealed_hashes_def [symmetric] Let_def min_def split: if_splits)
  from sample_loop_all [OF assms(4,3) this _ _ j(1)] j(2) show ?thesis by simp
qed

lemma sample_verify_cached:
  assumes "\<forall>h \<in> set (sealed_hashes c). blob_fully_cached E S s h = Inr True"
  shows "sample_verify E S s mx c"
  using sample_loop_cached [OF assms, of "[0..<min mx (length (sealed_hashes c))]"]
  by (auto simp: sample_verify_def sealed_hashes_def [symmetric] Let_def)

lemma clear_sealed_none: "sealed_hashes (snd (clear_all_sealed c)) = []"
  by (simp add: sealed_hashes_def clear_sealed_entries filter_map comp_def split_beta)

lemma sealed_hashes_flag [simp]:
  "sealed_hashes (c\<lparr>needs_new_epoch := b\<rparr>) = sealed_hashes c" "sealed_hashes (c\<lparr>seals_trusted := b\<rparr>) = sealed_hashes c"
  by (simp_all add: sealed_hashes_def)

text \<open>C37: the trust in the seals: they are trusted only if the epoch of the cache is the one of the
  object cache, and then the entries are unchanged and, within the sample and the probe budget,
  every sealed blob is completely cached; if they are not trusted no entry stays sealed and
  the break is recorded. With a matching epoch and complete blobs they are always trusted.\<close>

theorem seals_trust:
  assumes c'_def: "c' = compute_seals_trusted E S s mx marker c"
  shows "(seals_trusted c' \<longrightarrow> seal_epoch c \<noteq> NO_SEAL_EPOCH \<and> marker = Some (seal_epoch c) \<and> sc_entries c' = sc_entries c \<and>
      (0 < mx \<and> length (sealed_hashes c) \<le> mx \<and> (\<forall>h \<in> set (sealed_hashes c). probes E S s h \<le> 8) \<longrightarrow>
        (\<forall>h \<in> set (sealed_hashes c). blob_fully_cached E S s h = Inr True))) \<and>
    (\<not> seals_trusted c' \<longrightarrow> seals_invalidated c' \<and> sealed_hashes c' = []) \<and>
    (seal_epoch c \<noteq> NO_SEAL_EPOCH \<and> marker = Some (seal_epoch c) \<and>
      (\<forall>h \<in> set (sealed_hashes c). blob_fully_cached E S s h = Inr True) \<longrightarrow> seals_trusted c')"
proof (cases "seal_epoch c = NO_SEAL_EPOCH \<or> marker \<noteq> Some (seal_epoch c)")
  case True
  then have c': "c' = snd (clear_all_sealed (c\<lparr>seals_trusted := False, needs_new_epoch := True, seals_invalidated := True\<rparr>))"
    by (auto simp: c'_def compute_seals_trusted_def)
  have "\<not> seals_trusted c'" "seals_invalidated c'" unfolding c' by (simp_all add: clear_all_sealed_def Let_def)
  with True clear_sealed_none show ?thesis unfolding c' by blast
next
  case False
  let ?c1 = "c\<lparr>needs_new_epoch := False\<rparr>"
  show ?thesis
  proof (cases "sample_verify E S s mx ?c1")
    case True
    then have "c' = ?c1\<lparr>seals_trusted := True\<rparr>" using False by (simp add: c'_def compute_seals_trusted_def Let_def)
    with False sample_verify_all [OF True] show ?thesis by auto
  next
    case f: False
    then have c': "c' = snd (clear_all_sealed (?c1\<lparr>seals_trusted := False, seals_invalidated := True\<rparr>))"
      using False by (simp add: c'_def compute_seals_trusted_def Let_def)
    have "\<not> (\<forall>h \<in> set (sealed_hashes c). blob_fully_cached E S s h = Inr True)" using sample_verify_cached [of ?c1 E S s mx] f by auto
    moreover have "\<not> seals_trusted c'" "seals_invalidated c'" unfolding c' by (simp_all add: clear_all_sealed_def Let_def)
    moreover have "sealed_hashes c' = []" unfolding c' by (rule clear_sealed_none)
    ultimately show ?thesis by blast
  qed
qed

theorem seals_trust_witness:
  "\<not> seals_trusted (compute_seals_trusted toy_env (local_store toy_hmac None) (RemoteB []) 256 (Some (replicate 16 2))
       (toy_scan\<lparr>seals_invalidated := False\<rparr>)) \<and>
   sealed_hashes (compute_seals_trusted toy_env (local_store toy_hmac None) (RemoteB []) 256 (Some (replicate 16 2))
       (toy_scan\<lparr>seals_invalidated := False\<rparr>)) = []"
proof -
  let ?c = "toy_scan\<lparr>seals_invalidated := False\<rparr>"
  have h: "sealed_hashes ?c = [toy_hash]" by (simp add: sealed_hashes_def toy_scan_def toy_stat_entry_def)
  have "os_exists (local_store toy_hmac None) (RemoteB []) toy_hash = Inr False" by code_simp
  then have "blob_fully_cached toy_env (local_store toy_hmac None) (RemoteB []) toy_hash = Inr False"
    "probes toy_env (local_store toy_hmac None) (RemoteB []) toy_hash = 1"
    by (simp_all add: blob_fully_cached_def probes_def)
  with h seals_trust [OF refl, of toy_env "local_store toy_hmac None" "RemoteB []" 256 "Some (replicate 16 2)" ?c]
  show ?thesis by simp
qed

end
