(* ===== verification/Stubs.thy ===== *)
theory Stubs
  imports Filters StatCache
begin

text \<open>
  Stub records (\<open>src/src/stub.rs\<close>): the names of the markers, the search for the stub that
  covers a path, the enumeration of the stubs of a working tree, and the decision how a stub
  follows the synchronised snapshot.

  The JSON parser of a record is a parameter. The working tree that the enumeration walks is a
  finite tree of nodes whose links are not followed; the answers of the operating system
  to a read of a marker are an argument of the searches.
\<close>

section \<open>Records and names\<close>

datatype stub_target = TargetBlob | TargetTree

record stub_record =
  sr_type :: stub_target
  sr_hash :: hash
  sr_size :: u64
  sr_mtime :: "datetime option"
  sr_mode :: "string option"
  sr_blob_count :: u64

definition STUB_SUFFIX :: string where "STUB_SUFFIX = ''.omemfs-stub''"

definition DIR_STUB_NAME :: string where "DIR_STUB_NAME = ''.omemfs-stub''"

definition is_stub_filename :: "string \<Rightarrow> bool" where
  "is_stub_filename name \<longleftrightarrow> suffix STUB_SUFFIX name"

definition logical_name :: "string \<Rightarrow> string option" where
  "logical_name stub_name = strip_suffix STUB_SUFFIX stub_name"

section \<open>The stub that covers a path\<close>

text \<open>\<open>read_dir_stub\<close> and \<open>read\<close>: the record at a path, if there is a marker.\<close>

type_synonym stub_reader = "string \<Rightarrow> stub_record option result"

definition read_from_path :: "(string \<Rightarrow> stub_record option) \<Rightarrow> string result \<Rightarrow> stub_record option result" where
  "read_from_path parse r =
     (case r of
        Inr s \<Rightarrow> rbind (ok_or (parse s) (Json ''stub'')) (\<lambda>x. Inr (Some x))
      | Inl (Io k) \<Rightarrow> if k = ''NotFound'' \<or> k = ''NotADirectory'' then Inr None else Inl (Io k)
      | Inl e \<Rightarrow> Inl e)"

fun join_slash :: "string list \<Rightarrow> string" where
  "join_slash [] = []"
| "join_slash [c] = c"
| "join_slash (c # cs) = c @ ''/'' @ join_slash cs"

definition path_components :: "string \<Rightarrow> string list" where
  "path_components p = filter (\<lambda>c. c \<noteq> []) (split_slash p)"

fun first_stub :: "stub_reader \<Rightarrow> string list \<Rightarrow> (string \<times> stub_record) option result" where
  "first_stub rd [] = Inr None"
| "first_stub rd (a # as) =
     rbind (rd a) (\<lambda>r. case r of Some record \<Rightarrow> Inr (Some (a, record)) | None \<Rightarrow> first_stub rd as)"

definition proper_ancestors :: "string \<Rightarrow> string list" where
  "proper_ancestors p = map (\<lambda>n. join_slash (take n (path_components p))) (rev [1..<length (path_components p)])"

definition deepest_ancestor_stub :: "stub_reader \<Rightarrow> string \<Rightarrow> (string \<times> stub_record) option result" where
  "deepest_ancestor_stub read_dir_stub p = first_stub read_dir_stub (proper_ancestors p)"

definition file_stub_at_or_above :: "stub_reader \<Rightarrow> string \<Rightarrow> (string \<times> stub_record) option result" where
  "file_stub_at_or_above rd p =
     rbind (rd p) (\<lambda>r. case r of
        Some record \<Rightarrow> Inr (Some (p, record))
      | None \<Rightarrow> first_stub rd (proper_ancestors p))"

section \<open>Following the snapshot\<close>

datatype reconcile =
    UpToDate
  | UpdateFields stub_record
  | SwitchToFileStub stub_record
  | SwitchToDirStub stub_record
  | MaterialiseSymlink string "datetime option"
  | Remove

definition blob_record :: "hash \<Rightarrow> u64 \<Rightarrow> datetime option \<Rightarrow> string option \<Rightarrow> stub_record" where
  "blob_record h sz m md = \<lparr>sr_type = TargetBlob, sr_hash = h, sr_size = sz, sr_mtime = m, sr_mode = md, sr_blob_count = 0\<rparr>"

definition tree_record :: "hash \<Rightarrow> u64 \<Rightarrow> datetime option \<Rightarrow> u64 \<Rightarrow> stub_record" where
  "tree_record h sz m c = \<lparr>sr_type = TargetTree, sr_hash = h, sr_size = sz, sr_mtime = m, sr_mode = None, sr_blob_count = c\<rparr>"

fun reconcile_action :: "stub_record \<Rightarrow> tree_entry option \<Rightarrow> bool \<Rightarrow> reconcile" where
  "reconcile_action cur None is_dir_stub = Remove"
| "reconcile_action cur (Some (Symlink n t m)) is_dir_stub = MaterialiseSymlink t m"
| "reconcile_action cur (Some (Blob n h m sz md)) is_dir_stub =
     (if is_dir_stub then SwitchToFileStub (blob_record h sz m md)
      else if sr_hash cur \<noteq> h \<or> sr_size cur \<noteq> sz \<or> sr_mtime cur \<noteq> m \<or> sr_mode cur \<noteq> md
           then UpdateFields (blob_record h sz m md) else UpToDate)"
| "reconcile_action cur (Some (TreeE n h m sz c)) is_dir_stub =
     (if is_dir_stub
      then (if sr_hash cur \<noteq> h \<or> sr_size cur \<noteq> sz \<or> sr_mtime cur \<noteq> m \<or> sr_blob_count cur \<noteq> c
            then UpdateFields (tree_record h sz m c) else UpToDate)
      else SwitchToDirStub (tree_record h sz m c))"

section \<open>Git working trees\<close>

text \<open>A path is the list of its components. \<open>is_directory\<close> and \<open>has_git\<close> are what the file
  system answers for a path and for the name \<open>.git\<close> below it; \<open>check_ignore\<close> is the exit code
  of \<open>git check-ignore\<close>, if the command could be run and was not killed.\<close>

function walk_up :: "(string list \<Rightarrow> bool) \<Rightarrow> string list \<Rightarrow> string list \<Rightarrow> string list option" where
  "walk_up has_git work_dir current_dir =
     (if current_dir = work_dir \<or> \<not> prefix work_dir current_dir then None
      else if has_git current_dir then Some current_dir
      else if current_dir = [] then None
      else walk_up has_git work_dir (butlast current_dir))"
  by pat_completeness auto
termination by (relation "measure (\<lambda>(_, _, c). length c)") auto
declare walk_up.simps [simp del]

definition enclosing_git_worktree ::
    "(string list \<Rightarrow> bool) \<Rightarrow> (string list \<Rightarrow> bool) \<Rightarrow> string list \<Rightarrow> string list \<Rightarrow> string list option" where
  "enclosing_git_worktree is_directory has_git path work_dir =
     walk_up has_git work_dir (if is_directory path then path else butlast path)"

definition stub_would_be_visible_to_git ::
    "(string list \<Rightarrow> bool) \<Rightarrow> (string list \<Rightarrow> bool) \<Rightarrow> (string list \<Rightarrow> string list \<Rightarrow> int option) \<Rightarrow>
       string list \<Rightarrow> string list \<Rightarrow> bool" where
  "stub_would_be_visible_to_git is_directory has_git check_ignore stub_abs work_dir =
     (case enclosing_git_worktree is_directory has_git stub_abs work_dir of
        None \<Rightarrow> False
      | Some git_root \<Rightarrow> check_ignore git_root stub_abs \<noteq> Some 0)"

section \<open>Enumeration\<close>

text \<open>A node of a working tree, as a listing classifies it; a file that cannot be read as text
  is \<open>TFile None\<close>, a directory that cannot be listed carries the error.\<close>

datatype tnode =
    TFile "string option"
  | TDir "(string \<times> tnode) list"
  | TClosed error
  | TOther

text \<open>The loop over the entries of one directory, without the directories below it.\<close>

fun collect_level ::
    "(string \<Rightarrow> stub_record option) \<Rightarrow> string \<Rightarrow> (string \<times> tnode) list \<Rightarrow> (string \<times> stub_record) list" where
  "collect_level parse rel [] = []"
| "collect_level parse rel ((name, node) # es) =
     (if name = ''.omemfs'' then []
      else case node of
             TFile t \<Rightarrow>
               (case Option.bind t parse of
                  None \<Rightarrow> []
                | Some record \<Rightarrow>
                    if name = DIR_STUB_NAME then (if rel = [] then [] else [(rel, record)])
                    else (case logical_name name of None \<Rightarrow> [] | Some l \<Rightarrow> [(rel_path rel l, record)]))
           | _ \<Rightarrow> []) @ collect_level parse rel es"

definition is_marker :: "string \<times> tnode \<Rightarrow> bool" where
  "is_marker e = (case e of (name, node) \<Rightarrow> name = DIR_STUB_NAME \<and> (case node of TFile _ \<Rightarrow> True | _ \<Rightarrow> False))"

definition has_dir_stub :: "(string \<times> tnode) list \<Rightarrow> bool" where
  "has_dir_stub es = list_ex is_marker es"

fun collect_stubs :: "(string \<Rightarrow> stub_record option) \<Rightarrow> string \<Rightarrow> tnode \<Rightarrow> (string \<times> stub_record) list result"
and collect_subdirs :: "(string \<Rightarrow> stub_record option) \<Rightarrow> string \<Rightarrow> (string \<times> tnode) list \<Rightarrow> (string \<times> stub_record) list result" where
  "collect_stubs parse rel (TDir es) =
     rbind (if has_dir_stub es then Inr [] else collect_subdirs parse rel es)
       (\<lambda>below. Inr (collect_level parse rel es @ below))"
| "collect_stubs parse rel (TClosed e) = (if e = Io ''NotFound'' then Inr [] else Inl e)"
| "collect_stubs parse rel (TFile t) = Inr []"
| "collect_stubs parse rel TOther = Inr []"
| "collect_subdirs parse rel [] = Inr []"
| "collect_subdirs parse rel ((name, node) # es) =
     rbind (if name = ''.omemfs'' then Inr [] else collect_stubs parse (rel_path rel name) node) (\<lambda>out.
     rbind (collect_subdirs parse rel es) (\<lambda>rest. Inr (out @ rest)))"

end
