(* ===== verification/Scan.thy ===== *)
theory Scan
  imports Stubs
begin

text \<open>
  The scan of the working tree (\<open>src/src/scan.rs\<close>): one directory level after the other is
  listed, classified and turned into a tree object, with the stat cache and the last
  synchronised snapshot as hints, file stubs and directory stubs as placeholders, and the
  previous entry kept for whatever changes while it is looked at.

  The working tree is live: a directory handle is the collection of all answers the operating
  system gives through it, one for each place where the code asks, so that two questions about
  the same name may be answered differently. Jobs run in the order of the serial mode; the
  permits for file descriptors and the worker pool decide only which thread runs a job.
\<close>

section \<open>Answers of the file system\<close>

datatype entry_kind = KDir | KFile | KSymlink | KOther | KUnknown

record entry_stat =
  es_mode :: u32
  es_size :: u64
  es_dev :: u64
  es_ino :: u64
  es_mtime_sec :: u64
  es_mtime_nsec :: u64

definition file_type :: "entry_stat \<Rightarrow> u32" where
  "file_type st = es_mode st AND 0xF000"

definition is_dir :: "entry_stat \<Rightarrow> bool" where "is_dir st \<longleftrightarrow> file_type st = 0x4000"

definition is_file :: "entry_stat \<Rightarrow> bool" where "is_file st \<longleftrightarrow> file_type st = 0x8000"

definition is_symlink :: "entry_stat \<Rightarrow> bool" where "is_symlink st \<longleftrightarrow> file_type st = 0xA000"

definition same_object :: "entry_stat \<Rightarrow> entry_stat \<Rightarrow> bool" where
  "same_object a b \<longleftrightarrow> es_dev a = es_dev b \<and> es_ino a = es_ino b"

text \<open>Seconds are signed; a time whose seconds do not fit into 64 bits is none.\<close>

definition modified :: "entry_stat \<Rightarrow> int option" where
  "modified st =
     (let t = sint (es_mtime_sec st) * 1000000000 + uint (es_mtime_nsec st)
      in if t div 1000000000 < 2 ^ 63 then Some t else None)"

definition mode_from_bits :: "u32 \<Rightarrow> string option" where
  "mode_from_bits bits = (if bits AND 0x40 \<noteq> 0 then Some ''755'' else None)"

text \<open>The places where the scan asks for the status of a name.\<close>

datatype lstat_site = AtIgnored | AtKind | AtEntry | AtEnd | AtRecheck | AtMarker

datatype gdir = GDir
  (g_entries: "(string \<times> entry_kind) list result")
  (g_entries_again: "(string \<times> entry_kind) list result")
  (g_lstat: "lstat_site \<Rightarrow> string \<Rightarrow> entry_stat result")
  (g_read_link: "string \<Rightarrow> string result")
  (g_text: "string \<Rightarrow> string result")
  (g_opens: "string \<Rightarrow> nat \<Rightarrow> attempt result")
  (g_bufs: "string \<Rightarrow> bytes list result")
  (g_fstat: "entry_stat result")
  (g_subdirs: "(string \<times> gdir result) list")

definition open_subdir :: "gdir \<Rightarrow> string \<Rightarrow> gdir result" where
  "open_subdir d name = (case map_of (g_subdirs d) name of None \<Rightarrow> Inl (Io ''NotFound'') | Some r \<Rightarrow> r)"

definition not_found :: "error \<Rightarrow> bool" where "not_found e \<longleftrightarrow> e = Io ''NotFound''"

definition map_fd_exhaustion :: "error \<Rightarrow> string \<Rightarrow> error" where
  "map_fd_exhaustion e path =
     (if e = Io ''EMFILE'' \<or> e = Io ''ENFILE'' then TooManyOpenFiles (if path = [] then ''.'' else path) else e)"

definition with_fd :: "'a result \<Rightarrow> string \<Rightarrow> 'a result" where
  "with_fd r path = map_sum (\<lambda>e. map_fd_exhaustion e path) id r"

section \<open>Results and configuration\<close>

record scanned_file =
  scf_mtime :: int
  scf_size :: u64
  scf_hash :: hash
  cache_hit :: bool
  fallback_hit :: bool
  blob_sealed :: bool
  observed_at :: int

record side_data =
  conflict_paths :: "string set"
  side_stubs :: "(string \<times> stub_record) list"
  ignored :: "(string \<times> bool) list"
  unknown_reserved :: "string list"
  unstable_paths :: "string set"
  seen_other :: "string set"
  seen_stub :: "string set"
  unresolved_stubs :: "string set"

definition side_default :: side_data where
  "side_default = \<lparr>conflict_paths = {}, side_stubs = [], ignored = [], unknown_reserved = [], unstable_paths = {},
     seen_other = {}, seen_stub = {}, unresolved_stubs = {}\<rparr>"

type_synonym scanned_map = "(string \<times> scanned_file) list"

record dir_scan =
  ds_hash :: hash
  ds_mtime :: "datetime option"
  ds_size :: u64
  ds_blob_count :: u64
  ds_files :: scanned_map
  ds_side :: side_data
  ds_vanished :: bool

record file_job =
  fj_name :: string
  fj_path :: string
  fj_size :: u64
  fj_mtime :: "int option"
  fj_mode :: "string option"

text \<open>What one level has collected: the entries, the records of files, the side data, the
  deferred directories and files.\<close>

record level =
  lv_entries :: "tree_entry list"
  lv_files :: scanned_map
  lv_side :: side_data
  lv_subdirs :: "(string \<times> string) list"
  lv_jobs :: "file_job list"

text \<open>\<open>sg_utc\<close> tells which instants a \<open>DateTime\<close> can represent; \<open>sg_parse\<close> is the parser of
  stub records.\<close>

record 's scan_cfg =
  sg_cx :: "'s tree_ctx"
  sg_stub_ops :: "'s object_store"
  sg_cdc :: cdc
  sg_scdc :: cdc
  sg_clone :: "(string \<times> tree_entry) list option"
  sg_cache :: "stat_cache option"
  sg_now :: int
  sg_write :: bool
  sg_tolerate :: bool
  sg_parse :: "string \<Rightarrow> stub_record option"
  sg_utc :: "int \<Rightarrow> bool"

section \<open>Names\<close>

definition join_rel :: "string \<Rightarrow> string \<Rightarrow> string" where
  "join_rel rel_prefix name = (if rel_prefix = [] then name else rel_prefix @ ''/'' @ name)"

definition parent_rel :: "string \<Rightarrow> string" where
  "parent_rel path =
     (if CHR ''/'' \<in> set path then rev (tl (dropWhile (\<lambda>c. c \<noteq> CHR ''/'') (rev path))) else [])"

definition conflict_base_name :: "string \<Rightarrow> string option" where
  "conflict_base_name name =
     (case List.map_filter (\<lambda>s. strip_suffix s name) CONFLICT_SUFFIXES of [] \<Rightarrow> None | b # _ \<Rightarrow> Some b)"

definition is_conflict_helper :: "string \<Rightarrow> bool" where
  "is_conflict_helper name \<longleftrightarrow> conflict_base_name name \<noteq> None"

definition is_known_reserved_name :: "string \<Rightarrow> bool" where
  "is_known_reserved_name name \<longleftrightarrow>
     is_stub_filename name \<or> is_conflict_artifact name \<or> is_working_tree_tmp name \<or> name = ''.omemfs-filter''"

definition is_unknown_reserved_name :: "string \<Rightarrow> bool" where
  "is_unknown_reserved_name name \<longleftrightarrow> is_reserved_name name \<and> \<not> is_known_reserved_name name"

type_synonym child_index = "(string \<times> (string \<times> tree_entry) list) list"

definition child_index_new :: "(string \<times> tree_entry) list \<Rightarrow> child_index" where
  "child_index_new flat =
     foldl (\<lambda>m (path, e). AList.update (parent_rel path)
       ((case map_of m (parent_rel path) of None \<Rightarrow> [] | Some v \<Rightarrow> v) @ [(path, e)]) m) [] flat"

definition children_of :: "child_index \<Rightarrow> string \<Rightarrow> (string \<times> tree_entry) list" where
  "children_of idx dir = (case map_of idx dir of None \<Rightarrow> [] | Some v \<Rightarrow> v)"

section \<open>Times and hints\<close>

definition system_time_to_datetime :: "'s scan_cfg \<Rightarrow> int option \<Rightarrow> datetime option" where
  "system_time_to_datetime cfg t =
     Option.bind t (\<lambda>t. if t < 0 then None else if sg_utc cfg t then Some t else None)"

definition mtime_for_entry :: "(string \<times> tree_entry) list option \<Rightarrow> string \<Rightarrow> hash \<Rightarrow> datetime option" where
  "mtime_for_entry clone path computed_hash =
     Option.bind clone (\<lambda>m. Option.bind (map_of m path) (\<lambda>e.
       case e of Blob _ h mtime _ _ \<Rightarrow> if h = computed_hash then mtime else None | _ \<Rightarrow> None))"

definition mtime_stable :: "datetime option \<Rightarrow> datetime option \<Rightarrow> datetime option" where
  "mtime_stable clone_mtime fs_mtime = (case clone_mtime of None \<Rightarrow> fs_mtime | Some t \<Rightarrow> Some t)"

definition can_skip_hash :: "'s scan_cfg \<Rightarrow> tree_entry \<Rightarrow> u64 \<Rightarrow> int option \<Rightarrow> int \<Rightarrow> bool" where
  "can_skip_hash cfg cached sz fs_mtime now =
     (case cached of
        Blob _ _ cr_mtime cr_size _ \<Rightarrow>
          if sz \<noteq> cr_size then False
          else (case fs_mtime of
                  None \<Rightarrow> False
                | Some fs_st \<Rightarrow>
                    if system_time_to_datetime cfg (Some fs_st) \<noteq> cr_mtime then False
                    else (let age = (if fs_st \<le> now then now - fs_st else 0)
                          in int RACY_THRESHOLD_SECS \<le> age div 1000000000))
      | _ \<Rightarrow> False)"

definition previous_entry :: "'s scan_cfg \<Rightarrow> string \<Rightarrow> tree_entry option" where
  "previous_entry cfg path = Option.bind (sg_clone cfg) (\<lambda>m. map_of m path)"

definition preserve_unstable_entry :: "'s scan_cfg \<Rightarrow> string \<Rightarrow> level \<Rightarrow> level" where
  "preserve_unstable_entry cfg path lv =
     lv\<lparr>lv_side := (lv_side lv)\<lparr>unstable_paths := insert path (unstable_paths (lv_side lv))\<rparr>,
        lv_entries := lv_entries lv @ (case previous_entry cfg path of None \<Rightarrow> [] | Some e \<Rightarrow> [e])\<rparr>"

section \<open>One file\<close>

definition hash_file_at :: "'s scan_cfg \<Rightarrow> gdir \<Rightarrow> string \<Rightarrow> hash result" where
  "hash_file_at cfg d name = rbind (g_bufs d name) (\<lambda>bufs. Inr (fst (pass1_hash_and_prefix (tc_env (sg_cx cfg)) bufs)))"

definition store_file_snapshot_at :: "'s scan_cfg \<Rightarrow> gdir \<Rightarrow> string \<Rightarrow> 's \<Rightarrow> (stored_file \<times> 's) result" where
  "store_file_snapshot_at cfg d name s =
     store_snapshot_with (tc_env (sg_cx cfg)) (sg_cdc cfg) (sg_scdc cfg) (tc_ops (sg_cx cfg)) s None name (g_opens d name)"

definition fully_cached :: "'s scan_cfg \<Rightarrow> 's tree_state \<Rightarrow> hash \<Rightarrow> bool result" where
  "fully_cached cfg st h = blob_fully_cached (tc_env (sg_cx cfg)) (tc_ops (sg_cx cfg)) (ts_store st) h"

definition scanned_record :: "'s scan_cfg \<Rightarrow> int \<Rightarrow> u64 \<Rightarrow> hash \<Rightarrow> bool \<Rightarrow> bool \<Rightarrow> scanned_file" where
  "scanned_record cfg t sz h hit fallback =
     \<lparr>scf_mtime = t, scf_size = sz, scf_hash = h, cache_hit = hit, fallback_hit = fallback,
      blob_sealed = sg_write cfg, observed_at = sg_now cfg\<rparr>"

type_synonym file_job_result = "tree_entry option \<times> (string \<times> scanned_file) option \<times> string option"

text \<open>The first guard: an entry of the stat cache whose blob needs no check or passed it.\<close>

definition cache_hit_of :: "'s scan_cfg \<Rightarrow> 's tree_state \<Rightarrow> file_job \<Rightarrow> (int \<times> stat_entry) option result" where
  "cache_hit_of cfg st job =
     (case sg_cache cfg of
        None \<Rightarrow> Inr None
      | Some c \<Rightarrow>
          (case fj_mtime job of
             None \<Rightarrow> Inr None
           | Some t \<Rightarrow>
               (case lookup_current_entry c (fj_path job) t (fj_size job) of
                  None \<Rightarrow> Inr None
                | Some e \<Rightarrow>
                    if \<not> sg_write cfg \<or> (sealed e \<and> seals_trusted c) then Inr (Some (t, e))
                    else rbind (fully_cached cfg st (se_hash e)) (\<lambda>ok. Inr (if ok then Some (t, e) else None)))))"

text \<open>The second guard: the entry of the last synchronised snapshot.\<close>

definition fallback_of :: "'s scan_cfg \<Rightarrow> 's tree_state \<Rightarrow> file_job \<Rightarrow> (hash \<times> datetime option) option result" where
  "fallback_of cfg st job =
     (case previous_entry cfg (fj_path job) of
        None \<Rightarrow> Inr None
      | Some e \<Rightarrow>
          if \<not> can_skip_hash cfg e (fj_size job) (fj_mtime job) (sg_now cfg) then Inr None
          else (case entry_hash e of
                  None \<Rightarrow> Inr None
                | Some h \<Rightarrow>
                    if \<not> sg_write cfg then Inr (Some (h, emtime e))
                    else rbind (fully_cached cfg st h) (\<lambda>ok. Inr (if ok then Some (h, emtime e) else None))))"

text \<open>The last resort: the file is read, and stored if the scan writes blobs.\<close>

definition full_read :: "'s scan_cfg \<Rightarrow> gdir \<Rightarrow> file_job \<Rightarrow> 's tree_state \<Rightarrow> (file_job_result \<times> 's tree_state) result" where
  "full_read cfg d job st =
     (let path = fj_path job;
          unstable = (previous_entry cfg path, None, Some path);
          done = (\<lambda>h mt sz md st'.
            Inr ((Some (Blob (fj_name job) h
                    (mtime_stable (mtime_for_entry (sg_clone cfg) path h) (system_time_to_datetime cfg mt)) sz md),
                  map_option (\<lambda>t. (path, scanned_record cfg t sz h False False)) mt, None), st'))
      in if sg_write cfg
         then (case store_file_snapshot_at cfg d (fj_name job) (ts_store st) of
                 Inr (stored, s') \<Rightarrow>
                   done (sf_hash stored) (case sf_mtime stored of None \<Rightarrow> fj_mtime job | Some t \<Rightarrow> Some t)
                     (word_of_nat (sf_size stored)) (sf_mode stored) (st\<lparr>ts_store := s'\<rparr>)
               | Inl e \<Rightarrow>
                   (case e of
                      SourceChanged _ \<Rightarrow> Inr (unstable, st)
                    | _ \<Rightarrow> if not_found e then Inr (unstable, st) else Inl (map_fd_exhaustion e path)))
         else (case hash_file_at cfg d (fj_name job) of
                 Inr h \<Rightarrow> done h (fj_mtime job) (fj_size job) (fj_mode job) st
               | Inl e \<Rightarrow>
                   (case e of
                      SourceChanged _ \<Rightarrow> Inr (unstable, st)
                    | _ \<Rightarrow> Inl (map_fd_exhaustion e path))))"

definition process_file_job :: "'s scan_cfg \<Rightarrow> gdir \<Rightarrow> file_job \<Rightarrow> 's tree_state \<Rightarrow> (file_job_result \<times> 's tree_state) result" where
  "process_file_job cfg d job st =
     rbind (cache_hit_of cfg st job) (\<lambda>hit.
       case hit of
         Some (t, e) \<Rightarrow>
           Inr ((Some (Blob (fj_name job) (se_hash e)
                   (mtime_stable (mtime_for_entry (sg_clone cfg) (fj_path job) (se_hash e))
                      (system_time_to_datetime cfg (fj_mtime job))) (fj_size job) (fj_mode job)),
                 Some (fj_path job, scanned_record cfg t (fj_size job) (se_hash e) True False), None), st)
       | None \<Rightarrow>
           rbind (fallback_of cfg st job) (\<lambda>fb.
             case fb of
               Some (h, m) \<Rightarrow>
                 Inr ((Some (Blob (fj_name job) h m (fj_size job) (fj_mode job)),
                       map_option (\<lambda>t. (fj_path job, scanned_record cfg t (fj_size job) h False True)) (fj_mtime job), None), st)
             | None \<Rightarrow> full_read cfg d job st))"

section \<open>Directory stubs\<close>

datatype dir_stub_kind = NoStub | FullStub stub_record | PartialStub stub_record

definition dir_has_real_children :: "gdir \<Rightarrow> string \<Rightarrow> bool result" where
  "dir_has_real_children d path =
     (case g_entries_again d of
        Inr es \<Rightarrow> Inr (list_ex (\<lambda>(n, _). n \<noteq> DIR_STUB_NAME) es)
      | Inl e \<Rightarrow> (case map_fd_exhaustion e path of TooManyOpenFiles p \<Rightarrow> Inl (TooManyOpenFiles p) | _ \<Rightarrow> Inr False))"

definition classify_dir_stub :: "'s scan_cfg \<Rightarrow> gdir \<Rightarrow> string \<Rightarrow> side_data \<Rightarrow> (dir_stub_kind \<times> side_data) result" where
  "classify_dir_stub cfg d path side =
     (case g_lstat d AtMarker DIR_STUB_NAME of
        Inl e \<Rightarrow> if not_found e then Inr (NoStub, side) else Inl (map_fd_exhaustion e path)
      | Inr st \<Rightarrow>
          if \<not> is_file st then Inr (NoStub, side)
          else rbind (with_fd (g_text d DIR_STUB_NAME) path) (\<lambda>text.
               rbind (ok_or (sg_parse cfg text) (Json ''stub'')) (\<lambda>record.
               let side' = side\<lparr>side_stubs := side_stubs side @ [(path, record)]\<rparr>
               in if sr_type record \<noteq> TargetTree then Inr (NoStub, side')
                  else rbind (dir_has_real_children d path) (\<lambda>real.
                         Inr (if real then PartialStub record else FullStub record, side')))))"

definition merge_entries :: "tree_entry list \<Rightarrow> tree_entry list \<Rightarrow> tree_entry list" where
  "merge_entries disk stub = disk @ filter (\<lambda>e. ename e \<notin> ename ` set disk) stub"

definition merge_partial_expansion ::
    "'s scan_cfg \<Rightarrow> hash \<Rightarrow> hash \<Rightarrow> 's tree_state \<Rightarrow> ((hash \<times> datetime option \<times> u64 \<times> u64) \<times> 's tree_state) result" where
  "merge_partial_expansion cfg stub_hash disk_hash st =
     rbind (load_all_entries ((sg_cx cfg)\<lparr>tc_ops := sg_stub_ops cfg\<rparr>) st stub_hash) (\<lambda>(stub_entries, st).
     rbind (load_all_entries (sg_cx cfg) st disk_hash) (\<lambda>(disk_entries, st).
     let merged = merge_entries disk_entries stub_entries
     in rbind (build_and_store (sg_cx cfg) st merged) (\<lambda>(h, st).
          Inr ((h, aggregate_mtime merged, aggregate_size merged, aggregate_blob_count merged), st))))"

text \<open>The recorded tree as it stands, for a stub that is not merged.\<close>

definition stub_tree_entry :: "string \<Rightarrow> stub_record \<Rightarrow> tree_entry" where
  "stub_tree_entry name r = TreeE name (sr_hash r) (sr_mtime r) (sr_size r) (sr_blob_count r)"

definition unscanned_dir :: "'s scan_cfg \<Rightarrow> side_data \<Rightarrow> dir_scan" where
  "unscanned_dir cfg side =
     \<lparr>ds_hash = compute (sha (tc_env (sg_cx cfg))) (path_bytes ''unscanned-directory''), ds_mtime = None, ds_size = 0,
      ds_blob_count = 0, ds_files = [], ds_side = side, ds_vanished = False\<rparr>"

definition vanished_dir :: "'s scan_cfg \<Rightarrow> string \<Rightarrow> side_data \<Rightarrow> dir_scan" where
  "vanished_dir cfg text side =
     \<lparr>ds_hash = compute (sha (tc_env (sg_cx cfg))) (path_bytes text), ds_mtime = None, ds_size = 0,
      ds_blob_count = 0, ds_files = [], ds_side = side, ds_vanished = True\<rparr>"

definition merge_child :: "dir_scan \<Rightarrow> level \<Rightarrow> level" where
  "merge_child child lv =
     (let a = lv_side lv; b = ds_side child
      in lv\<lparr>lv_files := lv_files lv @ ds_files child,
            lv_side := \<lparr>conflict_paths = conflict_paths a \<union> conflict_paths b, side_stubs = side_stubs a @ side_stubs b,
              ignored = ignored a @ ignored b, unknown_reserved = unknown_reserved a @ unknown_reserved b,
              unstable_paths = unstable_paths a \<union> unstable_paths b, seen_other = seen_other a \<union> seen_other b,
              seen_stub = seen_stub a \<union> seen_stub b, unresolved_stubs = unresolved_stubs a \<union> unresolved_stubs b\<rparr>\<rparr>)"

section \<open>One level\<close>

definition listing_step :: "string \<Rightarrow> string \<times> entry_kind \<Rightarrow> (string \<times> entry_kind) list \<times> side_data \<Rightarrow>
    (string \<times> entry_kind) list \<times> side_data" where
  "listing_step pre nk acc =
     (case nk of (n, k) \<Rightarrow> (case acc of (kept, side) \<Rightarrow>
       if n = ''.omemfs'' then (kept, side)
       else if is_conflict_artifact n
         then (kept, case conflict_base_name n of
                       Some b \<Rightarrow> side\<lparr>conflict_paths := insert (join_rel pre b) (conflict_paths side)\<rparr> | None \<Rightarrow> side)
       else if is_working_tree_tmp n then (kept, side)
       else if is_unknown_reserved_name n
         then (kept, side\<lparr>unknown_reserved := unknown_reserved side @ [join_rel pre n]\<rparr>)
       else (kept @ [(n, k)], side)))"

definition list_names :: "string \<Rightarrow> (string \<times> entry_kind) list \<Rightarrow> (string \<times> entry_kind) list \<times> side_data" where
  "list_names pre es = fold (listing_step pre) es ([], side_default)"

text \<open>The logical names: a stub stands for its name unless the file itself is listed.\<close>

fun logical_names :: "string list \<Rightarrow> (string \<times> entry_kind) list \<Rightarrow> string list \<Rightarrow> (string \<times> entry_kind option) list" where
  "logical_names raws [] seen = []"
| "logical_names raws ((raw_name, k) # es) seen =
     (if raw_name = DIR_STUB_NAME then logical_names raws es seen
      else case logical_name raw_name of
             Some l \<Rightarrow>
               if l \<notin> set raws \<and> l \<notin> set seen then (l, None) # logical_names raws es (l # seen)
               else logical_names raws es seen
           | None \<Rightarrow>
               if raw_name \<notin> set seen then (raw_name, Some k) # logical_names raws es (raw_name # seen)
               else logical_names raws es seen)"

definition read_file_stub :: "'s scan_cfg \<Rightarrow> gdir \<Rightarrow> string \<Rightarrow> stub_record result" where
  "read_file_stub cfg d stub_name =
     rbind (g_text d stub_name) (\<lambda>s. ok_or (sg_parse cfg s) (Json ''stub''))"

definition blob_of_stub :: "string \<Rightarrow> stub_record \<Rightarrow> tree_entry" where
  "blob_of_stub name r = Blob name (sr_hash r) (sr_mtime r) (sr_size r) (sr_mode r)"

text \<open>The marker next to a name. \<open>None\<close> goes on with the name itself.\<close>

definition scan_marker :: "'s scan_cfg \<Rightarrow> gdir \<Rightarrow> string list \<Rightarrow> string \<Rightarrow> string \<Rightarrow> entry_kind option \<Rightarrow> level \<Rightarrow> (bool \<times> level) result" where
  "scan_marker cfg d raws name path real lv =
     (if name @ STUB_SUFFIX \<notin> set raws then Inr (False, lv)
      else case with_fd (read_file_stub cfg d (name @ STUB_SUFFIX)) path of
             Inr record \<Rightarrow>
               let side = (lv_side lv)\<lparr>side_stubs := side_stubs (lv_side lv) @ [(path, record)]\<rparr>
               in if real = None
                  then Inr (True, lv\<lparr>lv_side := side\<lparr>seen_stub := insert path (seen_stub side)\<rparr>,
                                     lv_entries := lv_entries lv @ [blob_of_stub name record]\<rparr>)
                  else Inr (False, lv\<lparr>lv_side := side\<rparr>)
           | Inl e \<Rightarrow>
               if real = None then Inl e
               else (case e of TooManyOpenFiles p \<Rightarrow> Inl e | _ \<Rightarrow> Inr (False, lv)))"

text \<open>The kind of a listed name; \<open>None\<close> is a name that has gone.\<close>

definition resolve_kind :: "gdir \<Rightarrow> string \<Rightarrow> entry_kind \<Rightarrow> entry_kind option result" where
  "resolve_kind d name k =
     (if k \<noteq> KUnknown then Inr (Some k)
      else case g_lstat d AtKind name of
             Inr st \<Rightarrow> Inr (Some (if is_dir st then KDir else if is_symlink st then KSymlink else if is_file st then KFile else KOther))
           | Inl e \<Rightarrow> if not_found e then Inr None else Inl e)"

definition see_other :: "string \<Rightarrow> level \<Rightarrow> level" where
  "see_other path lv = lv\<lparr>lv_side := (lv_side lv)\<lparr>seen_other := insert path (seen_other (lv_side lv))\<rparr>\<rparr>"

definition scan_entry :: "'s scan_cfg \<Rightarrow> gdir \<Rightarrow> string \<Rightarrow> string \<Rightarrow> entry_kind \<Rightarrow> level \<Rightarrow> level result" where
  "scan_entry cfg d name path k lv =
     (case k of
        KSymlink \<Rightarrow>
          (case g_lstat d AtEntry name of
             Inl e \<Rightarrow> if not_found e then Inr (preserve_unstable_entry cfg path lv) else Inl e
           | Inr st \<Rightarrow>
               (case g_read_link d name of
                  Inl e \<Rightarrow> if not_found e \<or> e = Io ''EINVAL'' then Inr (preserve_unstable_entry cfg path lv) else Inl e
                | Inr target \<Rightarrow>
                    let lv' = see_other path lv
                    in Inr (lv'\<lparr>lv_entries := lv_entries lv' @ [Symlink name target (system_time_to_datetime cfg (modified st))]\<rparr>)))
      | KDir \<Rightarrow> (let lv' = see_other path lv in Inr (lv'\<lparr>lv_subdirs := lv_subdirs lv' @ [(name, path)]\<rparr>))
      | KFile \<Rightarrow>
          (case g_lstat d AtEntry name of
             Inl e \<Rightarrow> if not_found e then Inr (preserve_unstable_entry cfg path lv) else Inl e
           | Inr st \<Rightarrow>
               if \<not> is_file st then Inr (preserve_unstable_entry cfg path lv)
               else Inr (lv\<lparr>lv_jobs := lv_jobs lv @ [\<lparr>fj_name = name, fj_path = path, fj_size = es_size st,
                              fj_mtime = modified st, fj_mode = mode_from_bits (es_mode st)\<rparr>]\<rparr>))
      | KOther \<Rightarrow> Inr lv
      | KUnknown \<Rightarrow> Inr lv)"

definition ignored_is_dir :: "gdir \<Rightarrow> string \<Rightarrow> entry_kind option \<Rightarrow> bool" where
  "ignored_is_dir d name real =
     (if real = Some KDir then True
      else if real = Some KUnknown \<or> real = None
        then (case g_lstat d AtIgnored name of Inr st \<Rightarrow> is_dir st | Inl _ \<Rightarrow> False)
      else False)"

definition scan_name :: "'s scan_cfg \<Rightarrow> filter_set \<Rightarrow> gdir \<Rightarrow> string \<Rightarrow> string list \<Rightarrow> string \<times> entry_kind option \<Rightarrow> level \<Rightarrow> level result" where
  "scan_name cfg fs d pre raws nk lv =
     (case nk of (name, real) \<Rightarrow>
        let path = join_rel pre name
        in if is_ignored fs path
           then Inr (lv\<lparr>lv_side := (lv_side lv)\<lparr>ignored := ignored (lv_side lv) @ [(path, ignored_is_dir d name real)]\<rparr>\<rparr>)
           else rbind (scan_marker cfg d raws name path real lv) (\<lambda>(stub_only, lv).
                  if stub_only then Inr lv
                  else case real of
                         None \<Rightarrow> Inr lv
                       | Some k \<Rightarrow>
                           rbind (resolve_kind d name k) (\<lambda>kind.
                             case kind of
                               None \<Rightarrow> Inr (preserve_unstable_entry cfg path lv)
                             | Some k \<Rightarrow> scan_entry cfg d name path k lv)))"

definition empty_level :: "side_data \<Rightarrow> level" where
  "empty_level side = \<lparr>lv_entries = [], lv_files = [], lv_side = side, lv_subdirs = [], lv_jobs = []\<rparr>"

text \<open>The listing and the classification of all names; the raw names come along.\<close>

definition scan_names :: "'s scan_cfg \<Rightarrow> filter_set \<Rightarrow> gdir \<Rightarrow> string \<Rightarrow> (string list \<times> level) result" where
  "scan_names cfg fs d pre =
     rbind (with_fd (g_entries d) pre) (\<lambda>es.
       let (kept, side) = list_names pre es; raws = map fst kept;
           logical = sort_key fst (logical_names raws kept [])
       in rbind (rfold (scan_name cfg fs d pre raws) logical (empty_level side)) (\<lambda>lv. Inr (raws, lv)))"

definition file_job_step :: "'s scan_cfg \<Rightarrow> gdir \<Rightarrow> file_job \<Rightarrow> level \<times> 's tree_state \<Rightarrow> (level \<times> 's tree_state) result" where
  "file_job_step cfg d job acc =
     (case acc of (lv, st) \<Rightarrow>
        rbind (process_file_job cfg d job st) (\<lambda>((entry, scanned, unstable), st).
          Inr (lv\<lparr>lv_files := lv_files lv @ (case scanned of None \<Rightarrow> [] | Some f \<Rightarrow> [f]),
                  lv_side := (lv_side lv)\<lparr>unstable_paths := unstable_paths (lv_side lv) \<union> set_option unstable\<rparr>,
                  lv_entries := lv_entries lv @ (case entry of None \<Rightarrow> [] | Some e \<Rightarrow> [e])\<rparr>, st)))"

text \<open>Recorded names that were not listed but are there at the end.\<close>

definition reappeared_step :: "gdir \<Rightarrow> string list \<Rightarrow> string list \<Rightarrow> string \<times> tree_entry \<Rightarrow> level \<Rightarrow> level result" where
  "reappeared_step d raws present pe lv =
     (case pe of (path, old) \<Rightarrow>
        if ename old \<in> set raws \<or> ename old \<in> set present then Inr lv
        else case g_lstat d AtEnd (ename old) of
               Inr _ \<Rightarrow> Inr (lv\<lparr>lv_side := (lv_side lv)\<lparr>unstable_paths := insert path (unstable_paths (lv_side lv))\<rparr>,
                              lv_entries := lv_entries lv @ [old]\<rparr>)
             | Inl e \<Rightarrow> if not_found e then Inr lv else Inl e)"

definition reappeared :: "'s scan_cfg \<Rightarrow> gdir \<Rightarrow> string \<Rightarrow> string list \<Rightarrow> level \<Rightarrow> level result" where
  "reappeared cfg d pre raws lv =
     (case sg_clone cfg of
        None \<Rightarrow> Inr lv
      | Some flat \<Rightarrow>
          if \<not> sg_write cfg then Inr lv
          else rfold (reappeared_step d raws (map ename (lv_entries lv))) (children_of (child_index_new flat) pre) lv)"

text \<open>The question whether the name of the directory still leads to it.\<close>

type_synonym recheck = "entry_stat option result option"

definition level_tree :: "'s scan_cfg \<Rightarrow> level \<Rightarrow> 's tree_state \<Rightarrow> (dir_scan \<times> 's tree_state) result" where
  "level_tree cfg lv st =
     rbind (build_and_store (sg_cx cfg) st (lv_entries lv)) (\<lambda>(h, st).
       Inr (\<lparr>ds_hash = h, ds_mtime = aggregate_mtime (lv_entries lv), ds_size = aggregate_size (lv_entries lv),
             ds_blob_count = aggregate_blob_count (lv_entries lv), ds_files = lv_files lv, ds_side = lv_side lv,
             ds_vanished = False\<rparr>, st))"

definition finish_level :: "'s scan_cfg \<Rightarrow> gdir \<Rightarrow> string \<Rightarrow> recheck \<Rightarrow> string list \<Rightarrow> level \<times> 's tree_state \<Rightarrow> (dir_scan \<times> 's tree_state) result" where
  "finish_level cfg d pre rc raws acc =
     (case acc of (lv, st) \<Rightarrow>
        rbind (reappeared cfg d pre raws lv) (\<lambda>lv.
          let gone = (lv_side lv)\<lparr>unstable_paths := insert pre (unstable_paths (lv_side lv))\<rparr>
          in case rc of
               None \<Rightarrow> level_tree cfg lv st
             | Some r \<Rightarrow>
                 rbind r (\<lambda>now.
                   case now of
                     None \<Rightarrow> Inr (vanished_dir cfg ''vanished-directory'' gone, st)
                   | Some s \<Rightarrow>
                       if \<not> is_dir s then Inr (vanished_dir cfg ''replaced-directory'' gone, st)
                       else rbind (g_fstat d) (\<lambda>own.
                              if same_object s own then level_tree cfg lv st
                              else Inr (vanished_dir cfg ''replaced-directory'' gone, st)))))"

section \<open>The walk\<close>

definition recheck_of :: "gdir \<Rightarrow> string \<Rightarrow> recheck" where
  "recheck_of parent name =
     Some (case g_lstat parent AtRecheck name of
             Inr st \<Rightarrow> Inr (Some st)
           | Inl e \<Rightarrow> if not_found e then Inr None else Inl e)"

definition unstable_subdir :: "'s scan_cfg \<Rightarrow> string \<Rightarrow> side_data \<Rightarrow> tree_entry option \<times> dir_scan" where
  "unstable_subdir cfg path side =
     (previous_entry cfg path, unscanned_dir cfg (side\<lparr>unstable_paths := insert path (unstable_paths side)\<rparr>))"

text \<open>What a parent makes of a child that was scanned.\<close>

definition subdir_entry ::
    "'s scan_cfg \<Rightarrow> string \<Rightarrow> string \<Rightarrow> stub_record option \<Rightarrow> side_data \<Rightarrow> dir_scan \<times> 's tree_state \<Rightarrow>
       (tree_entry option \<times> dir_scan \<times> 's tree_state) result" where
  "subdir_entry cfg name path partial side acc =
     (case acc of (child, st) \<Rightarrow>
        let cs = (ds_side child)\<lparr>side_stubs := side_stubs (ds_side child) @ side_stubs side\<rparr>
        in if ds_vanished child
           then Inr (previous_entry cfg path, child\<lparr>ds_side := cs\<lparr>unstable_paths := insert path (unstable_paths cs)\<rparr>\<rparr>, st)
           else case partial of
                  None \<Rightarrow> Inr (Some (TreeE name (ds_hash child) (ds_mtime child) (ds_size child) (ds_blob_count child)),
                              child\<lparr>ds_side := cs\<rparr>, st)
                | Some record \<Rightarrow>
                    (case merge_partial_expansion cfg (sr_hash record) (ds_hash child) st of
                       Inr ((h, m, sz, c), st) \<Rightarrow> Inr (Some (TreeE name h m sz c), child\<lparr>ds_side := cs\<rparr>, st)
                     | Inl e \<Rightarrow>
                         (case e of
                            ObjectNotFound _ \<Rightarrow>
                              if sg_tolerate cfg
                              then Inr (Some (stub_tree_entry name record),
                                        child\<lparr>ds_side := cs\<lparr>unresolved_stubs := insert path (unresolved_stubs cs)\<rparr>\<rparr>, st)
                              else Inl e
                          | _ \<Rightarrow> Inl e)))"

lemma open_subdir_smaller: "open_subdir d name = Inr c \<Longrightarrow> size c < size d"
proof -
  assume "open_subdir d name = Inr c"
  then have "(name, Inr c) \<in> set (g_subdirs d)" by (auto simp: open_subdir_def dest: map_of_SomeD split: option.splits)
  moreover have "size c \<le> size_prod (\<lambda>_. 0) (size_sum (\<lambda>_. 0) size) (name, Inr c :: gdir result)"
    by (simp add: prod.size_gen sum.size_gen)
  ultimately have "size c \<le> size_list (size_prod (\<lambda>_. 0) (size_sum (\<lambda>_. 0) size)) (g_subdirs d)"
    by (rule size_list_estimation')
  then show "size c < size d" by (cases d) simp
qed

function (sequential)
  scan_dir :: "'s scan_cfg \<Rightarrow> filter_set \<Rightarrow> gdir \<Rightarrow> string \<Rightarrow> recheck \<Rightarrow> 's tree_state \<Rightarrow> (dir_scan \<times> 's tree_state) result"
and scan_subdir ::
    "'s scan_cfg \<Rightarrow> filter_set \<Rightarrow> gdir \<Rightarrow> string \<Rightarrow> string \<Rightarrow> 's tree_state \<Rightarrow> (tree_entry option \<times> dir_scan \<times> 's tree_state) result"
and scan_subdirs ::
    "'s scan_cfg \<Rightarrow> filter_set \<Rightarrow> gdir \<Rightarrow> (string \<times> string) list \<Rightarrow> level \<Rightarrow> 's tree_state \<Rightarrow> (level \<times> 's tree_state) result"
where
  "scan_dir cfg fs d pre rc st =
     rbind (scan_names cfg fs d pre) (\<lambda>(raws, lv).
     rbind (scan_subdirs cfg fs d (lv_subdirs lv) lv st) (\<lambda>(lv, st).
     rbind (rfold (file_job_step cfg d) (lv_jobs lv) (lv, st)) (\<lambda>acc.
       finish_level cfg d pre rc raws acc)))"
| "scan_subdir cfg fs parent name path st =
     (case open_subdir parent name of
        Inl e \<Rightarrow>
          (case e of
             SymlinkEscape _ \<Rightarrow> (case unstable_subdir cfg path side_default of (entry, child) \<Rightarrow> Inr (entry, child, st))
           | _ \<Rightarrow> if not_found e
                  then (case unstable_subdir cfg path side_default of (entry, child) \<Rightarrow> Inr (entry, child, st))
                  else Inl (map_fd_exhaustion e path))
      | Inr child \<Rightarrow>
          rbind (classify_dir_stub cfg child path side_default) (\<lambda>(kind, side).
            case kind of
              FullStub record \<Rightarrow> Inr (Some (stub_tree_entry name record), unscanned_dir cfg side, st)
            | NoStub \<Rightarrow> rbind (scan_dir cfg fs child path (recheck_of parent name) st) (subdir_entry cfg name path None side)
            | PartialStub record \<Rightarrow>
                rbind (scan_dir cfg fs child path (recheck_of parent name) st) (subdir_entry cfg name path (Some record) side)))"
| "scan_subdirs cfg fs d [] lv st = Inr (lv, st)"
| "scan_subdirs cfg fs d ((name, path) # jobs) lv st =
     rbind (scan_subdir cfg fs d name path st) (\<lambda>(entry, child, st).
       let lv' = merge_child child lv
       in scan_subdirs cfg fs d jobs (lv'\<lparr>lv_entries := lv_entries lv' @ (case entry of None \<Rightarrow> [] | Some e \<Rightarrow> [e])\<rparr>) st)"
  by pat_completeness auto
termination
  by (relation "measures [\<lambda>x. case x of
          Inl (cfg, fs, d, pre, rc, st) \<Rightarrow> 3 * size d + 2
        | Inr (Inl (cfg, fs, d, name, path, st)) \<Rightarrow> 3 * size d
        | Inr (Inr (cfg, fs, d, jobs, lv, st)) \<Rightarrow> 3 * size d + 1,
      \<lambda>x. case x of Inr (Inr (cfg, fs, d, jobs, lv, st)) \<Rightarrow> length jobs | _ \<Rightarrow> 0]")
    (auto dest: open_subdir_smaller)

declare scan_dir.simps [simp del] scan_subdir.simps [simp del]

record scan_result =
  root_hash :: hash
  scan_files :: scanned_map
  scan_filters :: filter_set
  scan_side :: side_data

text \<open>\<open>rel\<close> is the path of the scanned directory below the working tree, \<open>None\<close> if it is not
  inside; \<open>root\<close> and \<open>rc\<close> are what opening it and looking at its name again give; the
  filter files are read from \<open>work_dir\<close>.\<close>

definition scan_impl ::
    "'s scan_cfg \<Rightarrow> fsnode \<Rightarrow> string option \<Rightarrow> gdir result \<Rightarrow> entry_stat option result \<Rightarrow> 's tree_state \<Rightarrow>
       (scan_result \<times> 's tree_state) result" where
  "scan_impl cfg work_dir rel root rc st =
     rbind (ok_or rel (Other ''not inside the working tree'')) (\<lambda>rel.
     let pre = trim_matches CHR ''/'' rel
     in case root of
          Inl e \<Rightarrow>
            (case e of
               SymlinkEscape _ \<Rightarrow> Inl (SourceChanged rel)
             | _ \<Rightarrow> if not_found e then Inl (SourceChanged rel) else Inl (map_fd_exhaustion e pre))
        | Inr d \<Rightarrow>
            let filters = filter_load_scoped work_dir pre
            in rbind (scan_dir cfg filters d pre (if pre = [] then None else Some rc) st) (\<lambda>(ds, st).
               if ds_vanished ds then Inl (SourceChanged rel)
               else rbind (classify_dir_stub cfg d pre (ds_side ds)) (\<lambda>(kind, side).
                 let finish = (\<lambda>h side st. Inr (\<lparr>root_hash = h, scan_files = ds_files ds, scan_filters = filters, scan_side = side\<rparr>, st))
                 in case kind of
                      FullStub record \<Rightarrow> finish (sr_hash record) side st
                    | NoStub \<Rightarrow> finish (ds_hash ds) side st
                    | PartialStub record \<Rightarrow>
                        (case merge_partial_expansion cfg (sr_hash record) (ds_hash ds) st of
                           Inr ((h, _), st) \<Rightarrow> finish h side st
                         | Inl e \<Rightarrow>
                             (case e of
                                ObjectNotFound _ \<Rightarrow>
                                  if sg_tolerate cfg
                                  then finish (sr_hash record) (side\<lparr>unresolved_stubs := insert pre (unresolved_stubs side)\<rparr>) st
                                  else Inl e
                              | _ \<Rightarrow> Inl e)))))"

text \<open>The entry points. A scan that uses one store for everything, a scan that reads the tree of
  a stub through another store, and the read-only scan that tolerates unreadable stubs.\<close>

definition scan_and_store_with_cache where
  "scan_and_store_with_cache cfg work_dir rel root rc st =
     scan_impl (cfg\<lparr>sg_stub_ops := tc_ops (sg_cx cfg), sg_tolerate := False\<rparr>) work_dir rel root rc st"

definition scan_and_store_with_stub_store where
  "scan_and_store_with_stub_store cfg work_dir rel root rc st =
     scan_impl (cfg\<lparr>sg_tolerate := False\<rparr>) work_dir rel root rc st"

definition scan_and_store_tolerating_unresolved_stubs where
  "scan_and_store_tolerating_unresolved_stubs cfg work_dir rel root rc st =
     scan_impl (cfg\<lparr>sg_write := False, sg_tolerate := True\<rparr>) work_dir rel root rc st"

text \<open>The number of workers: \<open>var\<close> is the number that the environment sets, if it sets one.\<close>

definition scan_thread_count :: "nat option \<Rightarrow> nat option \<Rightarrow> nat" where
  "scan_thread_count var nproc =
     (case var of
        Some n \<Rightarrow> if 1 \<le> n then n else max 1 (min 4 (case nproc of None \<Rightarrow> 1 | Some k \<Rightarrow> k))
      | None \<Rightarrow> max 1 (min 4 (case nproc of None \<Rightarrow> 1 | Some k \<Rightarrow> k)))"

definition symlink_leaf_entry :: "'s scan_cfg \<Rightarrow> gdir \<Rightarrow> string \<Rightarrow> tree_entry result" where
  "symlink_leaf_entry cfg parent name =
     rbind (g_lstat parent AtEntry name) (\<lambda>st.
       case g_read_link parent name of
         Inr target \<Rightarrow> Inr (Symlink name target (system_time_to_datetime cfg (modified st)))
       | Inl e \<Rightarrow> if e = Io ''EINVAL'' then Inl (SourceChanged name) else Inl e)"

section \<open>Writing the stat cache\<close>

definition apply_scanned_one :: "string \<times> scanned_file \<Rightarrow> stat_cache \<Rightarrow> stat_cache" where
  "apply_scanned_one pf c =
     (case pf of (path, f) \<Rightarrow>
        if \<not> cache_hit f then stat_update c path (scf_mtime f) (scf_size f) (scf_hash f) (blob_sealed f) (observed_at f)
        else if blob_sealed f then snd (mark_sealed c path)
        else c)"

definition apply_scanned :: "scanned_map \<Rightarrow> stat_cache \<Rightarrow> stat_cache" where
  "apply_scanned fls c = fold apply_scanned_one fls c"

text \<open>The new content of the cache file and of the epoch marker; a failed write is a warning.\<close>

definition refresh_stat_cache ::
    "stat_cache \<Rightarrow> scanned_map \<Rightarrow> bytes \<Rightarrow> bool \<Rightarrow> bool \<Rightarrow> bytes option \<Rightarrow> bytes option \<Rightarrow> bytes option \<times> bytes option" where
  "refresh_stat_cache c fls new_epoch writable write_blobs file marker =
     (let c1 = apply_scanned fls c;
          (marker', c2) = (if write_blobs then finalize_seal_epoch new_epoch writable marker c1 else (marker, c1));
          written = (if write_blobs then write_if_dirty c2 file else write_readonly_merge c2 file)
      in case written of Inr (_, file', _) \<Rightarrow> (file', marker') | Inl _ \<Rightarrow> (file, marker'))"

section \<open>What a level does with a name\<close>

lemma rfold_Cons_Inr: "rfold f (x # xs) s = Inr s' \<longleftrightarrow> (\<exists>t. f x s = Inr t \<and> rfold f xs t = Inr s')"
  by (simp add: rbind_Inr_iff)

lemma rfold_invariant:
  assumes "\<And>x s t. x \<in> set xs \<Longrightarrow> P s \<Longrightarrow> f x s = Inr t \<Longrightarrow> P t" "rfold f xs s = Inr s'" "P s"
  shows "P s'"
  using assms
proof (induction xs arbitrary: s)
  case (Cons x xs)
  from Cons.prems(2) obtain t where t: "f x s = Inr t" "rfold f xs t = Inr s'" unfolding rfold_Cons_Inr by blast
  have "P t" by (rule Cons.prems(1) [OF _ Cons.prems(3) t(1)]) simp
  show ?case
  proof (rule Cons.IH [OF _ t(2) \<open>P t\<close>])
    fix y s t assume "y \<in> set xs" "P s" "f y s = Inr t"
    then show "P t" by (intro Cons.prems(1) [of y s t]) simp_all
  qed
qed simp

text \<open>A fact that one element establishes and the others keep.\<close>

lemma rfold_establish:
  assumes "rfold f xs s = Inr s'" "x \<in> set xs" "I s"
    and "\<And>y s t. y \<in> set xs \<Longrightarrow> I s \<Longrightarrow> f y s = Inr t \<Longrightarrow> I t"
    and "\<And>s t. I s \<Longrightarrow> f x s = Inr t \<Longrightarrow> Q t"
    and "\<And>y s t. y \<in> set xs \<Longrightarrow> I s \<Longrightarrow> Q s \<Longrightarrow> f y s = Inr t \<Longrightarrow> Q t"
  shows "Q s'"
proof -
  from assms(2) obtain ys zs where xs: "xs = ys @ x # zs" by (meson split_list)
  with assms(1) obtain s1 s2 where r: "rfold f ys s = Inr s1" "f x s1 = Inr s2" "rfold f zs s2 = Inr s'"
    by (auto simp: rfold_append rbind_Inr_iff)
  have "I s1"
  proof (rule rfold_invariant [where P = I, OF _ r(1) assms(3)])
    fix y s t assume "y \<in> set ys" "I s" "f y s = Inr t"
    then show "I t" by (intro assms(4) [of y s t]) (simp_all add: xs)
  qed
  then have "I s2" "Q s2" using assms(4) [of x s1 s2] assms(5) [of s1 s2] r(2) xs by simp_all
  then have iq: "I s2 \<and> Q s2" ..
  have "I s' \<and> Q s'"
  proof (rule rfold_invariant [where P = "\<lambda>s. I s \<and> Q s", OF _ r(3) iq])
    fix y s t assume "y \<in> set zs" "I s \<and> Q s" "f y s = Inr t"
    then show "I t \<and> Q t" using assms(4) [of y s t] assms(6) [of y s t] by (simp add: xs)
  qed
  then show "Q s'" ..
qed

definition entry_names :: "level \<Rightarrow> string set" where
  "entry_names lv = ename ` set (lv_entries lv)"

text \<open>The names a level has collected so far, deferred ones included.\<close>

definition level_names :: "level \<Rightarrow> string set" where
  "level_names lv = entry_names lv \<union> fst ` set (lv_subdirs lv) \<union> fj_name ` set (lv_jobs lv)"

definition level_paths_ok :: "string \<Rightarrow> level \<Rightarrow> bool" where
  "level_paths_ok pre lv \<longleftrightarrow>
     (\<forall>np \<in> set (lv_subdirs lv). snd np = join_rel pre (fst np)) \<and> (\<forall>j \<in> set (lv_jobs lv). fj_path j = join_rel pre (fj_name j))"

lemma preserve_names:
  "level_names (preserve_unstable_entry cfg path lv) = level_names lv \<union> ename ` set_option (previous_entry cfg path)"
  "level_paths_ok pre (preserve_unstable_entry cfg path lv) = level_paths_ok pre lv"
  by (auto simp: preserve_unstable_entry_def level_names_def entry_names_def level_paths_ok_def split: option.split)

lemma scan_entry_cases:
  assumes "scan_entry cfg d name path k lv = Inr lv'"
  shows "lv' = preserve_unstable_entry cfg path lv \<or>
    (\<exists>t m. lv' = see_other path lv\<lparr>lv_entries := lv_entries lv @ [Symlink name t m]\<rparr>) \<or>
    lv' = see_other path lv\<lparr>lv_subdirs := lv_subdirs lv @ [(name, path)]\<rparr> \<or>
    (\<exists>j. lv' = lv\<lparr>lv_jobs := lv_jobs lv @ [j]\<rparr> \<and> fj_name j = name \<and> fj_path j = path) \<or>
    (lv' = lv \<and> k \<in> {KOther, KUnknown})"
  using assms unfolding scan_entry_def
  by (cases k) (auto simp: Let_def see_other_def split: sum.splits if_splits)

lemma level_names_simps [simp]:
  "level_names (lv\<lparr>lv_side := sd\<rparr>) = level_names lv"
  "level_names (see_other path lv) = level_names lv"
  "level_names (lv\<lparr>lv_entries := lv_entries lv @ es\<rparr>) = level_names lv \<union> ename ` set es"
  "level_names (lv\<lparr>lv_side := sd, lv_entries := lv_entries lv @ es\<rparr>) = level_names lv \<union> ename ` set es"
  "level_names (see_other path lv\<lparr>lv_entries := lv_entries lv @ es\<rparr>) = level_names lv \<union> ename ` set es"
  "level_names (see_other path lv\<lparr>lv_subdirs := lv_subdirs lv @ js\<rparr>) = level_names lv \<union> fst ` set js"
  "level_names (lv\<lparr>lv_jobs := lv_jobs lv @ fjs\<rparr>) = level_names lv \<union> fj_name ` set fjs"
  by (auto simp: level_names_def entry_names_def see_other_def)

lemma level_paths_simps [simp]:
  "level_paths_ok pre (lv\<lparr>lv_side := sd\<rparr>) = level_paths_ok pre lv"
  "level_paths_ok pre (see_other path lv) = level_paths_ok pre lv"
  "level_paths_ok pre (lv\<lparr>lv_entries := es\<rparr>) = level_paths_ok pre lv"
  "level_paths_ok pre (see_other path lv\<lparr>lv_subdirs := lv_subdirs lv @ [(name, join_rel pre name)]\<rparr>) = level_paths_ok pre lv"
  "fj_path j = join_rel pre (fj_name j) \<Longrightarrow> level_paths_ok pre (lv\<lparr>lv_jobs := lv_jobs lv @ [j]\<rparr>) = level_paths_ok pre lv"
  by (auto simp: level_paths_ok_def see_other_def)

lemma scan_entry_names:
  assumes "scan_entry cfg d name path k lv = Inr lv'"
  shows "level_names lv' \<subseteq> level_names lv \<union> {name} \<union> ename ` set_option (previous_entry cfg path)"
    "k \<notin> {KOther, KUnknown} \<Longrightarrow> name \<in> level_names lv' \<or> ename ` set_option (previous_entry cfg path) \<subseteq> level_names lv'"
    "level_names lv \<subseteq> level_names lv'"
  using scan_entry_cases [OF assms] by (elim disjE exE conjE; force simp: preserve_names(1))+

lemma scan_entry_paths:
  assumes "scan_entry cfg d name (join_rel pre name) k lv = Inr lv'" "level_paths_ok pre lv"
  shows "level_paths_ok pre lv'"
  using scan_entry_cases [OF assms(1)] assms(2) by (elim disjE exE conjE) (simp_all add: preserve_names(2))

lemma scan_marker_cases:
  assumes "scan_marker cfg d raws name path real lv = Inr (b, lv')"
  shows "(lv' = lv \<or> (\<exists>sd. lv' = lv\<lparr>lv_side := sd\<rparr>)) \<and> \<not> b \<or>
    (\<exists>sd r. lv' = lv\<lparr>lv_side := sd, lv_entries := lv_entries lv @ [blob_of_stub name r]\<rparr>) \<and> b \<and> real = None"
  using assms unfolding scan_marker_def
  by (auto simp: Let_def split: sum.splits if_splits error.splits)

lemma scan_marker_none: "scan_marker cfg d raws name path None lv = Inr (b, lv') \<Longrightarrow> \<not> b \<Longrightarrow> name @ STUB_SUFFIX \<notin> set raws"
  unfolding scan_marker_def by (auto simp: Let_def split: sum.splits if_splits)

lemma scan_marker_names:
  assumes "scan_marker cfg d raws name path real lv = Inr (b, lv')"
  shows "level_names lv' \<subseteq> level_names lv \<union> {name}"
    "b \<Longrightarrow> name \<in> level_names lv' \<and> real = None" "level_names lv \<subseteq> level_names lv'"
    "level_paths_ok pre lv \<Longrightarrow> level_paths_ok pre lv'"
  using scan_marker_cases [OF assms] by (auto simp: blob_of_stub_def)

text \<open>A name that is neither a file, a directory nor a link.\<close>

definition special :: "gdir \<Rightarrow> string \<Rightarrow> entry_kind \<Rightarrow> bool" where
  "special d name k \<longleftrightarrow> resolve_kind d name k \<in> {Inr (Some KOther), Inr (Some KUnknown)}"

lemma scan_name_result:
  assumes "scan_name cfg fs d pre raws (name, real) lv = Inr lv'"
  shows "level_names lv \<subseteq> level_names lv'"
    "level_names lv' \<subseteq> level_names lv \<union> {name} \<union> ename ` set_option (previous_entry cfg (join_rel pre name))"
    "level_paths_ok pre lv \<Longrightarrow> level_paths_ok pre lv'"
    "is_ignored fs (join_rel pre name) \<or> (real = None \<and> name @ STUB_SUFFIX \<notin> set raws) \<or>
     (\<exists>k. real = Some k \<and> special d name k) \<or> name \<in> level_names lv' \<or>
     (\<exists>k. real = Some k) \<and> ename ` set_option (previous_entry cfg (join_rel pre name)) \<subseteq> level_names lv'"
proof -
  let ?path = "join_rel pre name"
  consider
      (ign) sd where "is_ignored fs ?path" "lv' = lv\<lparr>lv_side := sd\<rparr>"
    | (stub) "scan_marker cfg d raws name ?path real lv = Inr (True, lv')"
    | (none) "scan_marker cfg d raws name ?path real lv = Inr (False, lv')" "real = None" "name @ STUB_SUFFIX \<notin> set raws"
    | (gone) lv1 k where "scan_marker cfg d raws name ?path real lv = Inr (False, lv1)" "real = Some k" "lv' = preserve_unstable_entry cfg ?path lv1"
    | (entry) lv1 k k' where "scan_marker cfg d raws name ?path real lv = Inr (False, lv1)" "real = Some k"
        "resolve_kind d name k = Inr (Some k')" "scan_entry cfg d name ?path k' lv1 = Inr lv'"
  proof (cases "is_ignored fs ?path")
    case True
    then show ?thesis using assms ign by (auto simp: scan_name_def Let_def)
  next
    case False
    then obtain b lv1 where m: "scan_marker cfg d raws name ?path real lv = Inr (b, lv1)"
      and r: "(if b then Inr lv1 else case real of None \<Rightarrow> Inr lv1
        | Some k \<Rightarrow> rbind (resolve_kind d name k) (\<lambda>kind. case kind of None \<Rightarrow> Inr (preserve_unstable_entry cfg ?path lv1)
            | Some k \<Rightarrow> scan_entry cfg d name ?path k lv1)) = Inr lv'"
      using assms by (auto simp: scan_name_def Let_def rbind_Inr_iff)
    show ?thesis
    proof (cases b)
      case True
      with m r show ?thesis using stub by simp
    next
      case nb: False
      show ?thesis
      proof (cases real)
        case None
        with m nb r scan_marker_none [OF m [unfolded None]] show ?thesis using none by simp
      next
        case (Some k)
        with r nb obtain kk where kk: "resolve_kind d name k = Inr kk"
          "(case kk of None \<Rightarrow> Inr (preserve_unstable_entry cfg ?path lv1) | Some k \<Rightarrow> scan_entry cfg d name ?path k lv1) = Inr lv'"
          by (auto simp: rbind_Inr_iff)
        show ?thesis using m nb Some kk gone entry by (cases kk) auto
      qed
    qed
  qed
  then have "level_names lv \<subseteq> level_names lv' \<and>
    level_names lv' \<subseteq> level_names lv \<union> {name} \<union> ename ` set_option (previous_entry cfg ?path) \<and>
    (level_paths_ok pre lv \<longrightarrow> level_paths_ok pre lv') \<and>
    (is_ignored fs ?path \<or> (real = None \<and> name @ STUB_SUFFIX \<notin> set raws) \<or>
     (\<exists>k. real = Some k \<and> special d name k) \<or> name \<in> level_names lv' \<or>
     (\<exists>k. real = Some k) \<and> ename ` set_option (previous_entry cfg ?path) \<subseteq> level_names lv')"
  proof cases
    case ign
    then show ?thesis by auto
  next
    case stub
    from scan_marker_names [OF stub] show ?thesis by auto
  next
    case none
    from scan_marker_names [OF none(1)] none show ?thesis by auto
  next
    case gone
    from scan_marker_names [OF gone(1)] gone(2,3) show ?thesis by (auto simp: preserve_names)
  next
    case entry
    from scan_marker_names [OF entry(1)] scan_entry_names [OF entry(4)] scan_entry_paths [OF entry(4)] entry(2,3)
    show ?thesis by (cases "k' \<in> {KOther, KUnknown}") (auto simp: special_def)
  qed
  then show "level_names lv \<subseteq> level_names lv'"
    "level_names lv' \<subseteq> level_names lv \<union> {name} \<union> ename ` set_option (previous_entry cfg (join_rel pre name))"
    "level_paths_ok pre lv \<Longrightarrow> level_paths_ok pre lv'"
    "is_ignored fs (join_rel pre name) \<or> (real = None \<and> name @ STUB_SUFFIX \<notin> set raws) \<or>
     (\<exists>k. real = Some k \<and> special d name k) \<or> name \<in> level_names lv' \<or>
     (\<exists>k. real = Some k) \<and> ename ` set_option (previous_entry cfg (join_rel pre name)) \<subseteq> level_names lv'" by blast+
qed

section \<open>Which names reach the tree\<close>

definition kept :: "string \<Rightarrow> bool" where
  "kept n \<longleftrightarrow> n \<noteq> ''.omemfs'' \<and> \<not> is_conflict_artifact n \<and> \<not> is_working_tree_tmp n \<and> \<not> is_unknown_reserved_name n"

lemma list_names_kept: "fst (list_names pre es) = filter (kept \<circ> fst) es"
proof -
  have step: "fst (listing_step pre nk acc) = fst acc @ (if kept (fst nk) then [nk] else [])" for nk acc
    by (cases nk; cases acc) (simp add: listing_step_def kept_def)
  have "fst (fold (listing_step pre) es acc) = fst acc @ filter (kept \<circ> fst) es" for acc
    by (induction es arbitrary: acc) (simp_all add: step)
  then show ?thesis by (simp add: list_names_def)
qed

lemma valid_name_facts:
  assumes "validate_entry_name n = Inr ()"
  shows "kept n" "n \<noteq> []" "CHR ''/'' \<notin> set n" "n \<noteq> DIR_STUB_NAME" "logical_name n = None"
proof -
  have v: "n \<noteq> []" "CHR ''/'' \<notin> set n" "n \<noteq> ''.omemfs''" "n = ''.omemfs-filter'' \<or> \<not> sublist ''.omemfs-'' n"
    using assms by (auto simp: validate_entry_name_def is_metadata_dir_name_def is_reserved_name_def split: if_splits)
  show "n \<noteq> []" "CHR ''/'' \<notin> set n" using v by blast+
  have res: "sublist ''.omemfs-'' n" if "suffix (''.omemfs-'' @ x) n" for x
    using that by (auto simp: suffix_def sublist_def)
  have suf: "n \<noteq> ''.omemfs-filter'' \<Longrightarrow> \<not> suffix (''.omemfs-'' @ x) n" for x using v(4) res by blast
  have filt: "\<not> is_conflict_artifact ''.omemfs-filter''" "\<not> is_working_tree_tmp ''.omemfs-filter''" "\<not> suffix STUB_SUFFIX ''.omemfs-filter''"
    by code_simp+
  have art: "\<not> is_conflict_artifact n"
    using filt(1) suf [of "''conflict-base''"] suf [of "''conflict-local''"] suf [of "''conflict-remote''"] suf [of "''conflict-meta''"]
    by (cases "n = ''.omemfs-filter''") (auto simp: is_conflict_artifact_def CONFLICT_ARTIFACT_SUFFIXES_def CONFLICT_SUFFIXES_def CONFLICT_META_SUFFIX_def)
  have tmp: "\<not> is_working_tree_tmp n"
  proof (cases "n = ''.omemfs-filter''")
    case False
    then have "\<not> sublist ''.omemfs-'' n" using v(4) by blast
    then show ?thesis by (auto simp: is_working_tree_tmp_def WORKING_TREE_TMP_PREFIX_def prefix_def sublist_def)
  qed (use filt in simp)
  show st: "logical_name n = None"
    using filt(3) suf [of "''stub''"] by (cases "n = ''.omemfs-filter''") (auto simp: logical_name_def strip_suffix_def STUB_SUFFIX_def)
  show "kept n" using v(3,4) art tmp by (auto simp: kept_def is_unknown_reserved_name_def is_reserved_name_def is_known_reserved_name_def)
  show "n \<noteq> DIR_STUB_NAME" using st by (auto simp: DIR_STUB_NAME_def STUB_SUFFIX_def logical_name_def strip_suffix_def)
qed

lemma logical_names_real:
  assumes "(n, k) \<in> set es" "n \<noteq> DIR_STUB_NAME" "logical_name n = None" "n \<in> set raws" "n \<notin> set sn"
  shows "\<exists>k'. (n, k') \<in> set es \<and> (n, Some k') \<in> set (logical_names raws es sn)"
  using assms
proof (induction es arbitrary: sn)
  case (Cons e es)
  obtain m j where e: "e = (m, j)" by fastforce
  show ?case
  proof (cases "m = n")
    case True
    then show ?thesis using Cons.prems(2,3,5) by (auto simp: e)
  next
    case False
    then have m: "(n, k) \<in> set es" using Cons.prems(1) e by simp
    have ih: "\<exists>k'. (n, k') \<in> set es \<and> (n, Some k') \<in> set (logical_names raws es sn')" if "n \<notin> set sn'" for sn'
      by (rule Cons.IH [OF m Cons.prems(2-4) that])
    show ?thesis
    proof (cases "logical_name m")
      case None
      then show ?thesis using ih [of sn] ih [of "m # sn"] False Cons.prems(5) by (auto simp: e)
    next
      case (Some l)
      then show ?thesis using ih [of sn] ih [of "l # sn"] False Cons.prems(4,5) by (auto simp: e)
    qed
  qed
qed simp

lemma logical_names_stub:
  assumes "(n @ STUB_SUFFIX, k) \<in> set es" "n \<noteq> []" "fst ` set es \<subseteq> set raws" "n \<notin> set raws" "n \<notin> set sn"
  shows "(n, None) \<in> set (logical_names raws es sn)"
  using assms
proof (induction es arbitrary: sn)
  case (Cons e es)
  obtain m j where e: "e = (m, j)" by fastforce
  have ln: "logical_name (n @ STUB_SUFFIX) = Some n" "n @ STUB_SUFFIX \<noteq> DIR_STUB_NAME"
    using Cons.prems(2) by (auto simp: logical_name_def DIR_STUB_NAME_def STUB_SUFFIX_def)
  show ?case
  proof (cases "m = n @ STUB_SUFFIX")
    case True
    then show ?thesis using ln Cons.prems(4,5) by (simp add: e)
  next
    case False
    then have m: "(n @ STUB_SUFFIX, k) \<in> set es" using Cons.prems(1) e by simp
    have sub: "fst ` set es \<subseteq> set raws" "m \<noteq> n" using Cons.prems(3,4) by (auto simp: e)
    have ih: "(n, None) \<in> set (logical_names raws es sn')" if "n \<notin> set sn'" for sn'
      by (rule Cons.IH [OF m Cons.prems(2) sub(1) Cons.prems(4) that])
    show ?thesis
    proof (cases "logical_name m")
      case None
      then show ?thesis using ih [of sn] ih [of "m # sn"] sub(2) Cons.prems(5) by (auto simp: e)
    next
      case (Some l)
      then have "m = l @ STUB_SUFFIX" by (simp add: logical_name_def)
      with False have "l \<noteq> n" by auto
      then show ?thesis using Some ih [of sn] ih [of "l # sn"] Cons.prems(5) by (auto simp: e)
    qed
  qed
qed simp

lemma logical_names_sound:
  "(n, r) \<in> set (logical_names raws es sn) \<Longrightarrow>
     (r = None \<and> n @ STUB_SUFFIX \<in> fst ` set es \<and> n \<notin> set raws \<or> (\<exists>k. r = Some k \<and> (n, k) \<in> set es \<and> logical_name n = None \<and> n \<noteq> DIR_STUB_NAME))"
proof (induction es arbitrary: sn)
  case (Cons e es)
  obtain m j where e: "e = (m, j)" by fastforce
  let ?P = "r = None \<and> n @ STUB_SUFFIX \<in> fst ` set es \<and> n \<notin> set raws \<or>
    (\<exists>k. r = Some k \<and> (n, k) \<in> set es \<and> logical_name n = None \<and> n \<noteq> DIR_STUB_NAME)"
  have ih: "(n, r) \<in> set (logical_names raws es sn') \<Longrightarrow> ?P" for sn' by (rule Cons.IH)
  show ?case
  proof (cases "m = DIR_STUB_NAME")
    case True
    then show ?thesis using ih [of sn] Cons.prems by (auto simp: e)
  next
    case False
    show ?thesis
    proof (cases "logical_name m")
      case None
      then show ?thesis using ih [of sn] ih [of "m # sn"] Cons.prems False by (auto simp: e split: if_splits)
    next
      case (Some l)
      then have "m = l @ STUB_SUFFIX" by (simp add: logical_name_def)
      then show ?thesis using ih [of sn] ih [of "l # sn"] Cons.prems False Some by (auto simp: e split: if_splits)
    qed
  qed
qed simp

lemma scan_namesD:
  assumes "scan_names cfg fs d pre = Inr (raws, lv)"
  shows "\<exists>es side. g_entries d = Inr es \<and> raws = map fst (filter (kept \<circ> fst) es) \<and>
    rfold (scan_name cfg fs d pre raws) (sort_key fst (logical_names raws (filter (kept \<circ> fst) es) [])) (empty_level side) = Inr lv"
proof -
  from assms obtain es where es: "with_fd (g_entries d) pre = Inr es"
    and r: "(case list_names pre es of (ks, side) \<Rightarrow>
       rbind (rfold (scan_name cfg fs d pre (map fst ks)) (sort_key fst (logical_names (map fst ks) ks [])) (empty_level side))
         (\<lambda>lv. Inr (map fst ks, lv))) = Inr (raws, lv)"
    unfolding scan_names_def by (auto simp: rbind_Inr_iff Let_def split_beta)
  from es have "g_entries d = Inr es" by (cases "g_entries d") (auto simp: with_fd_def)
  with r list_names_kept [of pre es] show ?thesis by (auto simp: rbind_Inr_iff split: prod.splits)
qed

section \<open>Deferred directories and files\<close>

lemma subdir_entry_names:
  assumes "subdir_entry cfg name path partial side acc = Inr (entry, child, st')"
  shows "(\<exists>e. entry = Some e \<and> ename e = name) \<or> entry = previous_entry cfg path"
  using assms unfolding subdir_entry_def
  by (auto simp: Let_def stub_tree_entry_def split: prod.splits if_splits option.splits sum.splits error.splits)

lemma scan_subdir_names:
  assumes "scan_subdir cfg fs d name path st = Inr (entry, child, st')"
  shows "(\<exists>e. entry = Some e \<and> ename e = name) \<or> entry = previous_entry cfg path"
proof (cases "open_subdir d name")
  case (Inl e)
  then show ?thesis using assms
    by (auto simp: scan_subdir.simps unstable_subdir_def split: error.splits if_splits)
next
  case (Inr sub)
  with assms obtain kind side where k: "classify_dir_stub cfg sub path side_default = Inr (kind, side)"
    and r: "(case kind of
              FullStub record \<Rightarrow> Inr (Some (stub_tree_entry name record), unscanned_dir cfg side, st)
            | NoStub \<Rightarrow> rbind (scan_dir cfg fs sub path (recheck_of d name) st) (subdir_entry cfg name path None side)
            | PartialStub record \<Rightarrow>
                rbind (scan_dir cfg fs sub path (recheck_of d name) st) (subdir_entry cfg name path (Some record) side)) = Inr (entry, child, st')"
    by (auto simp: scan_subdir.simps rbind_Inr_iff)
  from r show ?thesis
    by (cases kind) (auto simp: rbind_Inr_iff stub_tree_entry_def dest: subdir_entry_names)
qed

lemma merge_child_simps [simp]:
  "lv_entries (merge_child c lv) = lv_entries lv" "lv_jobs (merge_child c lv) = lv_jobs lv" "lv_subdirs (merge_child c lv) = lv_subdirs lv"
  by (simp_all add: merge_child_def Let_def)

lemma scan_subdirs_names:
  assumes "scan_subdirs cfg fs d jobs lv st = Inr (lv', st')"
  shows "lv_jobs lv' = lv_jobs lv \<and> entry_names lv \<subseteq> entry_names lv' \<and>
    (\<forall>(n, p) \<in> set jobs. n \<in> entry_names lv' \<or> ename ` set_option (previous_entry cfg p) \<subseteq> entry_names lv') \<and>
    entry_names lv' \<subseteq> entry_names lv \<union> fst ` set jobs \<union> (\<Union>(n, p) \<in> set jobs. ename ` set_option (previous_entry cfg p))"
  using assms
proof (induction jobs arbitrary: lv st)
  case (Cons j jobs)
  obtain n p where j: "j = (n, p)" by fastforce
  from Cons.prems obtain entry child st1 where s: "scan_subdir cfg fs d n p st = Inr (entry, child, st1)"
    and r: "scan_subdirs cfg fs d jobs ((merge_child child lv)\<lparr>lv_entries := lv_entries lv @ (case entry of None \<Rightarrow> [] | Some e \<Rightarrow> [e])\<rparr>) st1 = Inr (lv', st')"
    by (auto simp: j rbind_Inr_iff Let_def)
  note ih = Cons.IH [OF r]
  from scan_subdir_names [OF s] show ?case
  proof
    assume "\<exists>e. entry = Some e \<and> ename e = n"
    then show ?thesis using ih by (auto simp: j entry_names_def)
  next
    assume "entry = previous_entry cfg p"
    then show ?thesis using ih by (cases "previous_entry cfg p") (auto simp: j entry_names_def)
  qed
qed simp

lemma process_file_job_names:
  assumes "process_file_job cfg d job st = Inr ((entry, scanned, unstable), st')"
  shows "(\<exists>e. entry = Some e \<and> ename e = fj_name job) \<or> entry = previous_entry cfg (fj_path job)"
proof -
  have f: "full_read cfg d job st = Inr ((entry, scanned, unstable), st') \<Longrightarrow>
      (\<exists>e. entry = Some e \<and> ename e = fj_name job) \<or> entry = previous_entry cfg (fj_path job)"
    unfolding full_read_def Let_def by (auto split: if_splits sum.splits error.splits prod.splits)
  from assms obtain hit where h: "cache_hit_of cfg st job = Inr hit"
    by (auto simp: process_file_job_def rbind_Inr_iff)
  show ?thesis
  proof (cases hit)
    case None
    with assms h obtain fb where b: "fallback_of cfg st job = Inr fb"
      "(case fb of Some (h, m) \<Rightarrow>
           Inr ((Some (Blob (fj_name job) h m (fj_size job) (fj_mode job)),
             map_option (\<lambda>t. (fj_path job, scanned_record cfg t (fj_size job) h False True)) (fj_mtime job), None), st)
         | None \<Rightarrow> full_read cfg d job st) = Inr ((entry, scanned, unstable), st')"
      by (auto simp: process_file_job_def rbind_Inr_iff)
    then show ?thesis using f by (cases fb) auto
  next
    case (Some te)
    with assms h show ?thesis by (cases te) (auto simp: process_file_job_def)
  qed
qed

lemma file_jobs_names:
  assumes "rfold (file_job_step cfg d) jobs (lv, st) = Inr (lv', st')"
  shows "entry_names lv \<subseteq> entry_names lv' \<and>
    (\<forall>j \<in> set jobs. fj_name j \<in> entry_names lv' \<or> ename ` set_option (previous_entry cfg (fj_path j)) \<subseteq> entry_names lv') \<and>
    entry_names lv' \<subseteq> entry_names lv \<union> fj_name ` set jobs \<union> (\<Union>j \<in> set jobs. ename ` set_option (previous_entry cfg (fj_path j)))"
  using assms
proof (induction jobs arbitrary: lv st)
  case (Cons j jobs)
  from Cons.prems obtain lv1 st1 where s: "file_job_step cfg d j (lv, st) = Inr (lv1, st1)"
    and r: "rfold (file_job_step cfg d) jobs (lv1, st1) = Inr (lv', st')" unfolding rfold_Cons_Inr by auto
  from s obtain entry scanned unstable where p: "process_file_job cfg d j st = Inr ((entry, scanned, unstable), st1)"
    and e: "lv_entries lv1 = lv_entries lv @ (case entry of None \<Rightarrow> [] | Some e \<Rightarrow> [e])"
    by (auto simp: file_job_step_def rbind_Inr_iff)
  note ih = Cons.IH [OF r]
  from process_file_job_names [OF p] show ?case
  proof
    assume "\<exists>x. entry = Some x \<and> ename x = fj_name j"
    then show ?thesis using ih by (auto simp: e entry_names_def)
  next
    assume "entry = previous_entry cfg (fj_path j)"
    then show ?thesis using ih by (cases "previous_entry cfg (fj_path j)") (auto simp: e entry_names_def)
  qed
qed simp

lemma child_index_children: "children_of (child_index_new flat) dir = filter (\<lambda>(p, e). parent_rel p = dir) flat"
proof -
  have "children_of (foldl (\<lambda>m (path, e). AList.update (parent_rel path)
       ((case map_of m (parent_rel path) of None \<Rightarrow> [] | Some v \<Rightarrow> v) @ [(path, e)]) m) m flat) dir =
     children_of m dir @ filter (\<lambda>(p, e). parent_rel p = dir) flat" for m
    by (induction flat arbitrary: m) (auto simp: children_of_def update_conv' split: option.split)
  from this [of "[]"] show ?thesis by (simp add: child_index_new_def children_of_def)
qed

lemma reappeared_names:
  assumes "reappeared cfg d pre raws lv = Inr lv'"
  shows "entry_names lv \<subseteq> entry_names lv' \<and>
    entry_names lv' \<subseteq> entry_names lv \<union> (case sg_clone cfg of None \<Rightarrow> {} | Some flat \<Rightarrow> ename ` snd ` {pe \<in> set flat. parent_rel (fst pe) = pre})"
    "sg_write cfg \<Longrightarrow> sg_clone cfg = Some flat \<Longrightarrow> (p, old) \<in> set flat \<Longrightarrow> parent_rel p = pre \<Longrightarrow>
      ename old \<in> set raws \<or> ename old \<in> entry_names lv' \<or> g_lstat d AtEnd (ename old) = Inl (Io ''NotFound'')"
proof -
  have step: "entry_names lv \<subseteq> entry_names t" "entry_names t \<subseteq> entry_names lv \<union> {ename (snd pe)}"
    "ename (snd pe) \<in> set raws \<or> ename (snd pe) \<in> set present \<or> ename (snd pe) \<in> entry_names t \<or> g_lstat d AtEnd (ename (snd pe)) = Inl (Io ''NotFound'')"
    if "reappeared_step d raws present pe lv = Inr t" for present pe lv t
    using that by (auto simp: reappeared_step_def entry_names_def not_found_def split: prod.splits if_splits sum.splits)
  let ?kids = "\<lambda>flat. filter (\<lambda>(p, e). parent_rel p = pre) flat"
  show "entry_names lv \<subseteq> entry_names lv' \<and>
    entry_names lv' \<subseteq> entry_names lv \<union> (case sg_clone cfg of None \<Rightarrow> {} | Some flat \<Rightarrow> ename ` snd ` {pe \<in> set flat. parent_rel (fst pe) = pre})"
  proof (cases "sg_clone cfg = None \<or> \<not> sg_write cfg")
    case True
    then show ?thesis using assms by (auto simp: reappeared_def split: option.splits)
  next
    case False
    then obtain flat where f: "sg_clone cfg = Some flat" "sg_write cfg" by auto
    let ?names = "ename ` snd ` {pe \<in> set flat. parent_rel (fst pe) = pre}"
    let ?P = "\<lambda>t. entry_names lv \<subseteq> entry_names t \<and> entry_names t \<subseteq> entry_names lv \<union> ?names"
    from assms f have r: "rfold (reappeared_step d raws (map ename (lv_entries lv))) (?kids flat) lv = Inr lv'"
      by (simp add: reappeared_def child_index_children)
    have "?P lv'"
    proof (rule rfold_invariant [where P = ?P, OF _ r])
      fix pe s t assume a: "pe \<in> set (?kids flat)" "?P s" "reappeared_step d raws (map ename (lv_entries lv)) pe s = Inr t"
      then have "ename (snd pe) \<in> ?names" by (auto intro!: imageI)
      with step(1,2) [OF a(3)] a(2) show "?P t" by blast
    qed simp
    with f show ?thesis by simp
  qed
  assume f: "sg_write cfg" "sg_clone cfg = Some flat" "(p, old) \<in> set flat" "parent_rel p = pre"
  from assms f have r: "rfold (reappeared_step d raws (map ename (lv_entries lv))) (?kids flat) lv = Inr lv'"
    by (simp add: reappeared_def child_index_children)
  let ?Q = "\<lambda>t. ename old \<in> set raws \<or> ename old \<in> entry_names t \<or> g_lstat d AtEnd (ename old) = Inl (Io ''NotFound'')"
  show "?Q lv'"
  proof (rule rfold_establish [where I = "\<lambda>t. entry_names lv \<subseteq> entry_names t" and Q = ?Q, OF r])
    show "(p, old) \<in> set (?kids flat)" using f by simp
    show "?Q t" if "entry_names lv \<subseteq> entry_names s" "reappeared_step d raws (map ename (lv_entries lv)) (p, old) s = Inr t" for s t
    proof -
      have "set (map ename (lv_entries lv)) = entry_names lv" by (simp add: entry_names_def)
      then show ?thesis using step(1,3) [OF that(2)] that(1) by auto
    qed
  next
    fix y s t assume "reappeared_step d raws (map ename (lv_entries lv)) y s = Inr t" "?Q s"
    then show "?Q t" using step(1) by blast
  next
    fix y s t assume "reappeared_step d raws (map ename (lv_entries lv)) y s = Inr t" "entry_names lv \<subseteq> entry_names s"
    then show "entry_names lv \<subseteq> entry_names t" using step(1) by blast
  qed simp
qed

section \<open>The tree of a level\<close>

definition tree_hash :: "'s tree_ctx \<Rightarrow> tree_entry list \<Rightarrow> hash" where
  "tree_hash cx es = compute (sha (tc_env cx)) (tree_serialise (tc_to_json cx) (Normal (sorted_entries es)))"

lemma level_treeD: "level_tree cfg lv st = Inr (ds, st') \<Longrightarrow> ds_hash ds = tree_hash (sg_cx cfg) (lv_entries lv)"
  by (auto simp: level_tree_def build_and_store_def Let_def rbind_Inr_iff tree_hash_def)

lemma finish_levelD:
  assumes "finish_level cfg d pre rc raws (lv, st) = Inr (ds, st')" "\<not> ds_vanished ds"
  shows "\<exists>lv'. reappeared cfg d pre raws lv = Inr lv' \<and> level_tree cfg lv' st = Inr (ds, st')"
proof -
  from assms(1) obtain lv' where lv: "reappeared cfg d pre raws lv = Inr lv'"
    and r: "(case rc of None \<Rightarrow> level_tree cfg lv' st
             | Some r \<Rightarrow> rbind r (\<lambda>now.
                   case now of
                     None \<Rightarrow> Inr (vanished_dir cfg ''vanished-directory'' ((lv_side lv')\<lparr>unstable_paths := insert pre (unstable_paths (lv_side lv'))\<rparr>), st)
                   | Some s \<Rightarrow>
                       if \<not> is_dir s then Inr (vanished_dir cfg ''replaced-directory'' ((lv_side lv')\<lparr>unstable_paths := insert pre (unstable_paths (lv_side lv'))\<rparr>), st)
                       else rbind (g_fstat d) (\<lambda>own.
                              if same_object s own then level_tree cfg lv' st
                              else Inr (vanished_dir cfg ''replaced-directory'' ((lv_side lv')\<lparr>unstable_paths := insert pre (unstable_paths (lv_side lv'))\<rparr>), st)))) = Inr (ds, st')"
    by (auto simp: finish_level_def rbind_Inr_iff Let_def)
  have "ds_vanished (vanished_dir cfg t s)" for t s by (simp add: vanished_dir_def)
  then have "level_tree cfg lv' st = Inr (ds, st')" using r assms(2)
    by (auto simp: rbind_Inr_iff split: option.splits if_splits)
  with lv show ?thesis by blast
qed

lemma scan_dirD:
  assumes "scan_dir cfg fs d pre rc st = Inr (ds, st')" "\<not> ds_vanished ds"
  obtains raws lv0 lv1 st1 lv2 st2 lv3 where "scan_names cfg fs d pre = Inr (raws, lv0)"
    "scan_subdirs cfg fs d (lv_subdirs lv0) lv0 st = Inr (lv1, st1)"
    "rfold (file_job_step cfg d) (lv_jobs lv1) (lv1, st1) = Inr (lv2, st2)"
    "reappeared cfg d pre raws lv2 = Inr lv3" "level_tree cfg lv3 st2 = Inr (ds, st')"
proof -
  from assms(1) obtain raws lv0 lv1 st1 lv2 st2 where r: "scan_names cfg fs d pre = Inr (raws, lv0)"
    "scan_subdirs cfg fs d (lv_subdirs lv0) lv0 st = Inr (lv1, st1)"
    "rfold (file_job_step cfg d) (lv_jobs lv1) (lv1, st1) = Inr (lv2, st2)"
    "finish_level cfg d pre rc raws (lv2, st2) = Inr (ds, st')"
    by (auto simp: scan_dir.simps rbind_Inr_iff)
  from finish_levelD [OF r(4) assms(2)] r(1-3) that show ?thesis by blast
qed

lemma scan_names_level:
  assumes "scan_names cfg fs d pre = Inr (raws, lv)"
  shows "level_paths_ok pre lv"
    "level_names lv \<subseteq> fst ` set (logical_names raws (filter (kept \<circ> fst) (projr (g_entries d))) []) \<union>
       (\<Union>n \<in> fst ` set (logical_names raws (filter (kept \<circ> fst) (projr (g_entries d))) []). ename ` set_option (previous_entry cfg (join_rel pre n)))"
proof -
  from scan_namesD [OF assms] obtain es side where es: "g_entries d = Inr es" "raws = map fst (filter (kept \<circ> fst) es)"
    and r: "rfold (scan_name cfg fs d pre raws) (sort_key fst (logical_names raws (filter (kept \<circ> fst) es) [])) (empty_level side) = Inr lv"
    by blast
  let ?L = "logical_names raws (filter (kept \<circ> fst) es) []"
  let ?N = "fst ` set ?L \<union> (\<Union>n \<in> fst ` set ?L. ename ` set_option (previous_entry cfg (join_rel pre n)))"
  have "level_paths_ok pre lv \<and> level_names lv \<subseteq> ?N"
  proof (rule rfold_invariant [where P = "\<lambda>lv. level_paths_ok pre lv \<and> level_names lv \<subseteq> ?N", OF _ r])
    fix x s t assume a: "x \<in> set (sort_key fst ?L)" "level_paths_ok pre s \<and> level_names s \<subseteq> ?N" "scan_name cfg fs d pre raws x s = Inr t"
    obtain n k where x: "x = (n, k)" by fastforce
    have n: "n \<in> fst ` set ?L" using a(1) by (force simp: x)
    have "ename ` set_option (previous_entry cfg (join_rel pre n)) \<subseteq> ?N"
      by (rule le_supI2, rule UN_upper [OF n])
    moreover have "{n} \<subseteq> ?N" using n by simp
    ultimately have "level_names s \<union> {n} \<union> ename ` set_option (previous_entry cfg (join_rel pre n)) \<subseteq> ?N" using a(2) by simp
    with scan_name_result(2) [OF a(3) [unfolded x]] have "level_names t \<subseteq> ?N" by (rule order_trans)
    with scan_name_result(3) [OF a(3) [unfolded x]] a(2) show "level_paths_ok pre t \<and> level_names t \<subseteq> ?N" by simp
  qed (simp add: empty_level_def level_paths_ok_def level_names_def entry_names_def)
  then show "level_paths_ok pre lv" "level_names lv \<subseteq> fst ` set (logical_names raws (filter (kept \<circ> fst) (projr (g_entries d))) []) \<union>
       (\<Union>n \<in> fst ` set (logical_names raws (filter (kept \<circ> fst) (projr (g_entries d))) []). ename ` set_option (previous_entry cfg (join_rel pre n)))"
    by (simp_all add: es(1))
qed

lemma valid_stub_kept:
  assumes "validate_entry_name n = Inr ()"
  shows "kept (n @ STUB_SUFFIX)"
proof -
  have v: "n \<noteq> []" "\<not> is_working_tree_tmp n" using valid_name_facts [OF assms] by (simp_all add: kept_def)
  have ns: "\<not> suffix STUB_SUFFIX s" if "s \<in> set CONFLICT_ARTIFACT_SUFFIXES" for s
    using that by (auto simp: CONFLICT_ARTIFACT_SUFFIXES_def CONFLICT_SUFFIXES_def CONFLICT_META_SUFFIX_def STUB_SUFFIX_def suffix_def) code_simp?
  have len: "length STUB_SUFFIX \<le> length s" if "s \<in> set CONFLICT_ARTIFACT_SUFFIXES" for s
    using that by (auto simp: CONFLICT_ARTIFACT_SUFFIXES_def CONFLICT_SUFFIXES_def CONFLICT_META_SUFFIX_def STUB_SUFFIX_def)
  have art: "\<not> is_conflict_artifact (n @ STUB_SUFFIX)"
  proof
    assume "is_conflict_artifact (n @ STUB_SUFFIX)"
    then obtain s where s: "s \<in> set CONFLICT_ARTIFACT_SUFFIXES" "suffix s (n @ STUB_SUFFIX)"
      by (auto simp: is_conflict_artifact_def list_ex_iff)
    have "suffix STUB_SUFFIX (n @ STUB_SUFFIX)" by (simp add: suffix_def)
    from suffix_length_suffix [OF this s(2) len [OF s(1)]] ns [OF s(1)] show False by blast
  qed
  have "\<not> prefix WORKING_TREE_TMP_PREFIX (n @ STUB_SUFFIX)"
  proof
    assume "prefix WORKING_TREE_TMP_PREFIX (n @ STUB_SUFFIX)"
    with v(2) obtain us where us: "WORKING_TREE_TMP_PREFIX = n @ us" "prefix us STUB_SUFFIX"
      by (auto simp: prefix_append is_working_tree_tmp_def)
    with v(2) have "us \<noteq> []" by (auto simp: is_working_tree_tmp_def)
    with us(2) obtain vs where "us = CHR ''.'' # vs" by (cases us) (auto simp: STUB_SUFFIX_def)
    with us(1) v(1) show False by (cases n) (auto simp: WORKING_TREE_TMP_PREFIX_def dest: arg_cong [of _ _ "\<lambda>xs. CHR ''.'' \<in> set xs"])
  qed
  then show ?thesis using v(1) art
    by (auto simp: kept_def is_working_tree_tmp_def is_unknown_reserved_name_def is_known_reserved_name_def is_stub_filename_def STUB_SUFFIX_def suffix_def)
qed

lemma parent_join: "CHR ''/'' \<notin> set n \<Longrightarrow> parent_rel (join_rel pre n) = pre"
proof (cases "pre = []")
  case False
  assume n: "CHR ''/'' \<notin> set n"
  have "dropWhile (\<lambda>c. c \<noteq> CHR ''/'') (rev n @ CHR ''/'' # rev pre) = CHR ''/'' # rev pre"
    using n by (subst dropWhile_append2) auto
  with False show ?thesis by (simp add: parent_rel_def join_rel_def)
qed (auto simp: parent_rel_def join_rel_def)

text \<open>A listed or stubbed name that is recorded reaches the level.\<close>

lemma scan_names_covers:
  assumes "scan_names cfg fs d pre = Inr (raws, lv)" "g_entries d = Inr es"
    and "validate_entry_name n = Inr ()" "previous_entry cfg (join_rel pre n) = Some old" "ename old = n"
  shows "n \<in> level_names lv \<or> is_ignored fs (join_rel pre n) \<or> (\<exists>k. (n, k) \<in> set es \<and> special d n k) \<or>
    (n \<notin> fst ` set es \<and> n @ STUB_SUFFIX \<notin> fst ` set es \<and> n \<notin> set raws)"
proof -
  note v = valid_name_facts [OF assms(3)] and sk = valid_stub_kept [OF assms(3)]
  let ?es = "filter (kept \<circ> fst) es"
  from scan_namesD [OF assms(1)] assms(2) obtain side where raws: "raws = map fst ?es"
    and r: "rfold (scan_name cfg fs d pre raws) (sort_key fst (logical_names raws ?es [])) (empty_level side) = Inr lv" by auto
  let ?Q = "\<lambda>lv. n \<in> level_names lv \<or> is_ignored fs (join_rel pre n) \<or> (\<exists>k. (n, k) \<in> set es \<and> special d n k)"
  have "?Q lv" if "n \<in> fst ` set es"
  proof -
    from that v(1) obtain k where k: "(n, k) \<in> set ?es" by force
    moreover have "n \<in> set raws" using k by (force simp: raws)
    ultimately obtain k' where k': "(n, k') \<in> set ?es" "(n, Some k') \<in> set (logical_names raws ?es [])"
      using logical_names_real [OF k v(4,5), of raws "[]"] by auto
    show "?Q lv"
    proof (rule rfold_establish [where I = "\<lambda>_. True" and Q = ?Q, OF r])
      show "(n, Some k') \<in> set (sort_key fst (logical_names raws ?es []))" using k'(2) by simp
      show "?Q t" if "scan_name cfg fs d pre raws (n, Some k') s = Inr t" for s t
        using scan_name_result(4) [OF that] k'(1) assms(4,5) by auto
      show "?Q t" if "scan_name cfg fs d pre raws y s = Inr t" "?Q s" for y s t
        using scan_name_result(1) [of cfg fs d pre raws "fst y" "snd y" s t] that by auto
    qed simp_all
  qed
  moreover have "?Q lv" if "n \<notin> fst ` set es" "n @ STUB_SUFFIX \<in> fst ` set es"
  proof -
    from that(2) sk obtain k where k: "(n @ STUB_SUFFIX, k) \<in> set ?es" by force
    have nr: "n \<notin> set raws" using that(1) by (force simp: raws)
    have l: "(n, None) \<in> set (logical_names raws ?es [])"
      using logical_names_stub [OF k v(2) _ nr, of "[]"] by (simp add: raws)
    have sr: "n @ STUB_SUFFIX \<in> set raws" using k by (force simp: raws)
    show "?Q lv"
    proof (rule rfold_establish [where I = "\<lambda>_. True" and Q = ?Q, OF r])
      show "(n, None) \<in> set (sort_key fst (logical_names raws ?es []))" using l by simp
      show "?Q t" if "scan_name cfg fs d pre raws (n, None) s = Inr t" for s t
        using scan_name_result(4) [OF that] sr by auto
      show "?Q t" if "scan_name cfg fs d pre raws y s = Inr t" "?Q s" for y s t
        using scan_name_result(1) [of cfg fs d pre raws "fst y" "snd y" s t] that by auto
    qed simp_all
  qed
  ultimately show ?thesis by (auto simp: raws)
qed

text \<open>C6: the scan never turns a race into a deletion. In a scan that writes, an entry of the last
  synchronised snapshot is missing from the new tree of its directory only if its path is
  ignored now, if the name is a special file now, or if neither the name nor its stub was
  listed and the name was still absent when the directory was finished. Everything else
  (a file that vanishes or changes while it is read, a replaced directory, a name that
  comes back) keeps an entry of that name.\<close>

theorem scan_keeps_recorded:
  assumes "scan_dir cfg fs d pre rc st = Inr (ds, st')" and "\<not> ds_vanished ds" and "sg_write cfg"
    and "sg_clone cfg = Some flat" and "map_of flat (join_rel pre (ename old)) = Some old"
    and "validate_entry_name (ename old) = Inr ()"
  shows "\<exists>es listing. ds_hash ds = tree_hash (sg_cx cfg) es \<and> g_entries d = Inr listing \<and>
    (ename old \<in> ename ` set es \<or> is_ignored fs (join_rel pre (ename old)) \<or>
     (\<exists>k. (ename old, k) \<in> set listing \<and> special d (ename old) k) \<or>
     ename old \<notin> fst ` set listing \<and> ename old @ STUB_SUFFIX \<notin> fst ` set listing \<and>
       g_lstat d AtEnd (ename old) = Inl (Io ''NotFound''))"
proof -
  let ?n = "ename old" and ?p = "join_rel pre (ename old)"
  from scan_dirD [OF assms(1,2)] obtain raws lv0 lv1 st1 lv2 st2 lv3 where
    s: "scan_names cfg fs d pre = Inr (raws, lv0)" "scan_subdirs cfg fs d (lv_subdirs lv0) lv0 st = Inr (lv1, st1)"
      "rfold (file_job_step cfg d) (lv_jobs lv1) (lv1, st1) = Inr (lv2, st2)"
      "reappeared cfg d pre raws lv2 = Inr lv3" "level_tree cfg lv3 st2 = Inr (ds, st')" .
  from scan_namesD [OF s(1)] obtain es where es: "g_entries d = Inr es" by blast
  have prev: "previous_entry cfg ?p = Some old" using assms(4,5) by (simp add: previous_entry_def)
  have par: "parent_rel ?p = pre" using parent_join [of ?n] valid_name_facts(3) [OF assms(6)] by simp
  note b = scan_subdirs_names [OF s(2)] and c = file_jobs_names [OF s(3)] and r = reappeared_names(1) [OF s(4)]
  from b have jobs: "lv_jobs lv1 = lv_jobs lv0" by (rule conjunct1)
  from b have sub1: "entry_names lv0 \<subseteq> entry_names lv1" by (elim conjE)
  from c have "entry_names lv1 \<subseteq> entry_names lv2" by (elim conjE)
  note sub = sub1 this
  have up: "?n \<in> entry_names lv3" if "?n \<in> level_names lv0"
  proof -
    have "?n \<in> entry_names lv2"
    proof -
      from that consider "?n \<in> entry_names lv0" | p where "(?n, p) \<in> set (lv_subdirs lv0)" | j where "j \<in> set (lv_jobs lv0)" "fj_name j = ?n"
        by (force simp: level_names_def)
      then show ?thesis
      proof cases
        case 1
        then show ?thesis using sub by (meson subsetD)
      next
        case 2
        then have "p = ?p" using scan_names_level(1) [OF s(1)] by (force simp: level_paths_ok_def)
        moreover from b have "\<forall>(n, p) \<in> set (lv_subdirs lv0). n \<in> entry_names lv1 \<or> ename ` set_option (previous_entry cfg p) \<subseteq> entry_names lv1"
          by (elim conjE)
        ultimately have "?n \<in> entry_names lv1" using 2 prev by force
        then show ?thesis using sub(2) by (rule subsetD [rotated])
      next
        case 3
        then have "fj_path j = ?p" using scan_names_level(1) [OF s(1)] by (force simp: level_paths_ok_def)
        moreover from c have "\<forall>j \<in> set (lv_jobs lv0). fj_name j \<in> entry_names lv2 \<or> ename ` set_option (previous_entry cfg (fj_path j)) \<subseteq> entry_names lv2"
          unfolding jobs by (elim conjE)
        ultimately show ?thesis using 3 prev by force
      qed
    qed
    then show ?thesis using r by (elim conjE) (rule subsetD)
  qed
  have "?n \<in> entry_names lv3 \<or> is_ignored fs ?p \<or> (\<exists>k. (?n, k) \<in> set es \<and> special d ?n k) \<or>
     ?n \<notin> fst ` set es \<and> ?n @ STUB_SUFFIX \<notin> fst ` set es \<and> g_lstat d AtEnd ?n = Inl (Io ''NotFound'')"
    using scan_names_covers [OF s(1) es assms(6) prev refl] up
      reappeared_names(2) [OF s(4) assms(3,4) map_of_SomeD [OF assms(5)] par] by blast
  with level_treeD [OF s(5)] es show ?thesis by (intro exI [of _ "lv_entries lv3"] exI [of _ es]) (simp add: entry_names_def)
qed

section \<open>Markers that cannot be read\<close>

text \<open>The marker of the directory itself is there and holds no record.\<close>

definition own_marker_damaged :: "'s scan_cfg \<Rightarrow> gdir \<Rightarrow> bool" where
  "own_marker_damaged cfg d \<longleftrightarrow>
     (case g_lstat d AtMarker DIR_STUB_NAME of Inl _ \<Rightarrow> False
      | Inr st \<Rightarrow> is_file st \<and> (case g_text d DIR_STUB_NAME of Inl _ \<Rightarrow> True | Inr s \<Rightarrow> sg_parse cfg s = None))"

definition fully_stubbed :: "'s scan_cfg \<Rightarrow> gdir \<Rightarrow> string \<Rightarrow> bool" where
  "fully_stubbed cfg d path \<longleftrightarrow> (\<exists>r side. classify_dir_stub cfg d path side_default = Inr (FullStub r, side))"

text \<open>Somewhere below a directory the scan meets a damaged marker: that of a file that is not
  there itself, or that of a directory.\<close>

inductive damaged :: "'s scan_cfg \<Rightarrow> filter_set \<Rightarrow> gdir \<Rightarrow> string \<Rightarrow> bool" for cfg fs where
  damaged_file: "damaged cfg fs d pre"
    if "g_entries d = Inr listing" "n @ STUB_SUFFIX \<in> fst ` set listing" "n \<notin> fst ` set listing"
      "validate_entry_name n = Inr ()" "\<not> is_ignored fs (join_rel pre n)" "read_file_stub cfg d (n @ STUB_SUFFIX) = Inl e"
| damaged_dir: "damaged cfg fs d pre"
    if "g_entries d = Inr listing" "distinct (map fst listing)" "(n, KDir) \<in> set listing" "validate_entry_name n = Inr ()"
      "\<not> is_ignored fs (join_rel pre n)" "open_subdir d n = Inr child" "own_marker_damaged cfg child"
| damaged_below: "damaged cfg fs d pre"
    if "g_entries d = Inr listing" "distinct (map fst listing)" "(n, KDir) \<in> set listing" "validate_entry_name n = Inr ()"
      "\<not> is_ignored fs (join_rel pre n)" "open_subdir d n = Inr child" "\<not> fully_stubbed cfg child (join_rel pre n)"
      "damaged cfg fs child (join_rel pre n)"

lemma rfold_error:
  assumes "x \<in> set xs" "\<And>s. \<exists>e. f x s = Inl e"
  shows "\<exists>e. rfold f xs s = Inl e"
  using assms(1)
proof (induction xs arbitrary: s)
  case (Cons y ys)
  show ?case
  proof (cases "f y s")
    case (Inr t)
    with Cons assms(2) [of s] show ?thesis by auto
  qed simp
qed simp

lemma scan_subdirs_error:
  assumes "(n, p) \<in> set jobs" "\<And>st. \<exists>e. scan_subdir cfg fs d n p st = Inl e"
  shows "\<exists>e. scan_subdirs cfg fs d jobs lv st = Inl e"
  using assms(1)
proof (induction jobs arbitrary: lv st)
  case (Cons j jobs)
  obtain m q where j: "j = (m, q)" by fastforce
  show ?case
  proof (cases "scan_subdir cfg fs d m q st")
    case (Inr r)
    with Cons assms(2) [of st] show ?thesis by (cases r) (auto simp: j Let_def)
  qed (simp add: j)
qed simp

lemma scan_name_subdirs:
  assumes "scan_name cfg fs d pre raws (name, real) lv = Inr lv'"
  shows "set (lv_subdirs lv) \<subseteq> set (lv_subdirs lv')"
    "real = Some KDir \<Longrightarrow> \<not> is_ignored fs (join_rel pre name) \<Longrightarrow> (name, join_rel pre name) \<in> set (lv_subdirs lv')"
proof -
  have m: "lv_subdirs lv1 = lv_subdirs lv" if "scan_marker cfg d raws name (join_rel pre name) real lv = Inr (b, lv1)" for b lv1
    using scan_marker_cases [OF that] by auto
  have e: "set (lv_subdirs lv1) \<subseteq> set (lv_subdirs lv')" if "scan_entry cfg d name (join_rel pre name) k lv1 = Inr lv'" for k lv1
    using scan_entry_cases [OF that] by (auto simp: see_other_def preserve_unstable_entry_def)
  have p: "lv_subdirs (preserve_unstable_entry cfg q lv1) = lv_subdirs lv1" for q lv1 by (simp add: preserve_unstable_entry_def)
  show "set (lv_subdirs lv) \<subseteq> set (lv_subdirs lv')"
  proof (cases "is_ignored fs (join_rel pre name)")
    case True
    then show ?thesis using assms by (auto simp: scan_name_def Let_def)
  next
    case False
    then obtain b lv1 where mk: "scan_marker cfg d raws name (join_rel pre name) real lv = Inr (b, lv1)"
      and r: "(if b then Inr lv1 else case real of None \<Rightarrow> Inr lv1
        | Some k \<Rightarrow> rbind (resolve_kind d name k) (\<lambda>kind. case kind of None \<Rightarrow> Inr (preserve_unstable_entry cfg (join_rel pre name) lv1)
            | Some k \<Rightarrow> scan_entry cfg d name (join_rel pre name) k lv1)) = Inr lv'"
      using assms by (auto simp: scan_name_def Let_def rbind_Inr_iff)
    from r have "lv' = lv1 \<or> lv' = preserve_unstable_entry cfg (join_rel pre name) lv1 \<or> (\<exists>k. scan_entry cfg d name (join_rel pre name) k lv1 = Inr lv')"
      by (auto simp: rbind_Inr_iff split: if_splits option.splits)
    then show ?thesis using m [OF mk] p e by (elim disjE exE) (simp, simp, metis)
  qed
  assume a: "real = Some KDir" "\<not> is_ignored fs (join_rel pre name)"
  then obtain b lv1 where mk: "scan_marker cfg d raws name (join_rel pre name) (Some KDir) lv = Inr (b, lv1)"
    and r: "(if b then Inr lv1 else case Some KDir of None \<Rightarrow> Inr lv1
        | Some k \<Rightarrow> rbind (resolve_kind d name k) (\<lambda>kind. case kind of None \<Rightarrow> Inr (preserve_unstable_entry cfg (join_rel pre name) lv1)
            | Some k \<Rightarrow> scan_entry cfg d name (join_rel pre name) k lv1)) = Inr lv'"
    using assms by (auto simp: scan_name_def Let_def rbind_Inr_iff)
  from scan_marker_names(2) [OF mk] have "\<not> b" by auto
  with r show "(name, join_rel pre name) \<in> set (lv_subdirs lv')"
    by (auto simp: resolve_kind_def scan_entry_def Let_def)
qed

lemma scan_names_subdir:
  assumes "scan_names cfg fs d pre = Inr (raws, lv)" "g_entries d = Inr listing" "distinct (map fst listing)"
    "(n, KDir) \<in> set listing" "validate_entry_name n = Inr ()" "\<not> is_ignored fs (join_rel pre n)"
  shows "(n, join_rel pre n) \<in> set (lv_subdirs lv)"
proof -
  note v = valid_name_facts [OF assms(5)]
  let ?es = "filter (kept \<circ> fst) listing"
  from scan_namesD [OF assms(1)] assms(2) obtain side where raws: "raws = map fst ?es"
    and r: "rfold (scan_name cfg fs d pre raws) (sort_key fst (logical_names raws ?es [])) (empty_level side) = Inr lv" by auto
  have k: "(n, KDir) \<in> set ?es" using assms(4) v(1) by simp
  then have "n \<in> set raws" by (force simp: raws)
  then obtain k' where k': "(n, k') \<in> set ?es" "(n, Some k') \<in> set (logical_names raws ?es [])"
    using logical_names_real [OF k v(4,5), of raws "[]"] by auto
  have "k' = KDir" using k'(1) assms(3,4) by (auto dest: eq_key_imp_eq_value)
  show ?thesis
  proof (rule rfold_establish [where I = "\<lambda>_. True" and Q = "\<lambda>lv. (n, join_rel pre n) \<in> set (lv_subdirs lv)", OF r])
    show "(n, Some KDir) \<in> set (sort_key fst (logical_names raws ?es []))" using k'(2) \<open>k' = KDir\<close> by simp
    show "(n, join_rel pre n) \<in> set (lv_subdirs t)" if "scan_name cfg fs d pre raws (n, Some KDir) s = Inr t" for s t
      by (rule scan_name_subdirs(2) [OF that refl assms(6)])
    show "(n, join_rel pre n) \<in> set (lv_subdirs t)" if "scan_name cfg fs d pre raws y s = Inr t" "(n, join_rel pre n) \<in> set (lv_subdirs s)" for y s t
      using scan_name_subdirs(1) [of cfg fs d pre raws "fst y" "snd y" s t] that by auto
  qed simp_all
qed

lemma subdir_fails:
  assumes "g_entries d = Inr listing" "distinct (map fst listing)" "(n, KDir) \<in> set listing" "validate_entry_name n = Inr ()"
    "\<not> is_ignored fs (join_rel pre n)" "\<And>st. \<exists>e. scan_subdir cfg fs d n (join_rel pre n) st = Inl e"
  shows "\<exists>e. scan_dir cfg fs d pre rc st = Inl e"
proof (cases "scan_names cfg fs d pre")
  case (Inr rl)
  obtain raws lv where rl: "rl = (raws, lv)" by fastforce
  from scan_names_subdir [OF Inr [unfolded rl] assms(1-5)] have "\<exists>e. scan_subdirs cfg fs d (lv_subdirs lv) lv st = Inl e"
    by (rule scan_subdirs_error [OF _ assms(6)])
  with Inr rl show ?thesis by (auto simp: scan_dir.simps)
qed (simp add: scan_dir.simps)

text \<open>C16: a damaged marker stops the scan instead of hiding what it stands for: if anywhere in the
  part of the tree that is scanned the marker of a missing file or of a directory cannot be
  read or parsed, the scan fails, whatever else happens, so that the path is never
  recorded as deleted.\<close>

theorem damaged_marker_aborts:
  assumes "damaged cfg fs d pre"
  shows "\<exists>e. scan_dir cfg fs d pre rc st = Inl e"
  using assms
proof (induction arbitrary: rc st rule: damaged.induct)
  case (damaged_file d listing n pre e)
  let ?es = "filter (kept \<circ> fst) listing" and ?raws = "map fst (filter (kept \<circ> fst) listing)"
  have sk: "n @ STUB_SUFFIX \<in> set ?raws" using damaged_file(2) valid_stub_kept [OF damaged_file(4)] by force
  then obtain k where k: "(n @ STUB_SUFFIX, k) \<in> set ?es" by auto
  have nr: "n \<notin> set ?raws" using damaged_file(3) by force
  have "(n, None) \<in> set (logical_names ?raws ?es [])"
    using logical_names_stub [OF k valid_name_facts(2) [OF damaged_file(4)] _ nr, of "[]"] by simp
  moreover have "\<exists>e. scan_name cfg fs d pre ?raws (n, None) lv = Inl e" for lv
    using damaged_file(5,6) sk by (auto simp: scan_name_def Let_def scan_marker_def with_fd_def)
  ultimately have f: "\<exists>e. rfold (scan_name cfg fs d pre ?raws) (sort_key fst (logical_names ?raws ?es [])) lv = Inl e" for lv
    by (intro rfold_error [of "(n, None)"]) simp_all
  show ?case
  proof (cases "scan_names cfg fs d pre")
    case (Inr rl)
    then obtain raws lv where "scan_names cfg fs d pre = Inr (raws, lv)" by (cases rl) auto
    from scan_namesD [OF this] damaged_file(1) obtain side where
      "rfold (scan_name cfg fs d pre ?raws) (sort_key fst (logical_names ?raws ?es [])) (empty_level side) = Inr lv" by auto
    with f [of "empty_level side"] show ?thesis by auto
  qed (simp add: scan_dir.simps)
next
  case (damaged_dir d listing n pre child)
  have "\<exists>e. classify_dir_stub cfg child path side = Inl e" for path side
    using damaged_dir(7) by (auto simp: own_marker_damaged_def classify_dir_stub_def with_fd_def split: sum.splits)
  then obtain e where "classify_dir_stub cfg child (join_rel pre n) side_default = Inl e" by blast
  then have "\<exists>e. scan_subdir cfg fs d n (join_rel pre n) st = Inl e" for st
    using damaged_dir(6) by (simp add: scan_subdir.simps)
  then show ?case by (rule subdir_fails [OF damaged_dir(1-5)])
next
  case (damaged_below d listing n pre child)
  have "\<exists>e. scan_subdir cfg fs d n (join_rel pre n) st = Inl e" for st
  proof (cases "classify_dir_stub cfg child (join_rel pre n) side_default")
    case (Inr ks)
    obtain kind side where ks: "ks = (kind, side)" by fastforce
    obtain e where e: "scan_dir cfg fs child (join_rel pre n) (recheck_of d n) st = Inl e" using damaged_below.IH by blast
    from Inr ks damaged_below(7) have "\<And>r. kind \<noteq> FullStub r" by (auto simp: fully_stubbed_def)
    with Inr ks e damaged_below(6) show ?thesis by (cases kind) (auto simp: scan_subdir.simps)
  qed (use damaged_below(6) in \<open>simp add: scan_subdir.simps\<close>)
  then show ?case by (rule subdir_fails [OF damaged_below(1-5)])
qed

section \<open>A store that never fails\<close>

context store_laws
begin

lemma build_total:
  assumes "inv (ts_store st)" "tc_ops cx = S" "digest32 (sha (tc_env cx))"
  shows "\<exists>st'. build_and_store cx st es = Inr (tree_hash cx es, st') \<and> inv (ts_store st')"
proof -
  let ?b = "tree_serialise (tc_to_json cx) (Normal (sorted_entries es))"
  have h: "hash_ok (tree_hash cx es)" using assms(3) by (simp add: tree_hash_def compute_def digest32_def)
  from store_write_ok [OF assms(1) h, of "tc_env cx" ?b None] obtain s' where
    w: "store_write (tc_env cx) S (ts_store st) (tree_hash cx es) ?b None = Inr s'" "inv s'" by blast
  have put: "ts_store (tree_cache_put (st\<lparr>ts_store := x\<rparr>) k l) = x" "ts_store (tree_cache_put st k l) = ts_store st" for x k l
    by (simp_all add: tree_cache_put_def split: option.split)
  show ?thesis using w exists_view [OF assms(1) h] assms(1,2) put
    by (simp add: build_and_store_def Let_def tree_hash_def [symmetric])
qed

lemma level_tree_total:
  assumes "inv (ts_store st)" "tc_ops (sg_cx cfg) = S" "digest32 (sha (tc_env (sg_cx cfg)))"
  shows "\<exists>st'. level_tree cfg lv st = Inr (\<lparr>ds_hash = tree_hash (sg_cx cfg) (lv_entries lv), ds_mtime = aggregate_mtime (lv_entries lv),
      ds_size = aggregate_size (lv_entries lv), ds_blob_count = aggregate_blob_count (lv_entries lv), ds_files = lv_files lv,
      ds_side = lv_side lv, ds_vanished = False\<rparr>, st') \<and> inv (ts_store st')"
  using build_total [OF assms, of "lv_entries lv"] by (auto simp: level_tree_def)

end

section \<open>Examples\<close>

definition toy_cfg :: "objects_backend scan_cfg" where
  "toy_cfg = \<lparr>sg_cx = toy_trees, sg_stub_ops = tc_ops toy_trees, sg_cdc = toy_cdc, sg_scdc = toy_cdc,
     sg_clone = Some [(''b'', toy_blob)], sg_cache = None, sg_now = 0, sg_write = True, sg_tolerate = False,
     sg_parse = (\<lambda>s. None), sg_utc = (\<lambda>_. True)\<rparr>"

text \<open>A directory whose listing misses a file that an editor is replacing.\<close>

definition toy_stat :: entry_stat where
  "toy_stat = \<lparr>es_mode = 0x8000, es_size = 0, es_dev = 1, es_ino = 1, es_mtime_sec = 0, es_mtime_nsec = 0\<rparr>"

definition toy_gdir :: "(string \<times> entry_kind) list \<Rightarrow> gdir" where
  "toy_gdir listing = GDir (Inr listing) (Inr listing) (\<lambda>site n. if site = AtEnd then Inr toy_stat else Inl (Io ''NotFound''))
     (\<lambda>_. Inl (Io ''NotFound'')) (\<lambda>_. Inr ''{'') (\<lambda>_ _. Inl (Io ''NotFound'')) (\<lambda>_. Inl (Io ''NotFound'')) (Inr toy_stat) []"

lemma toy_local: "local_store toy_hmac None = tc_ops toy_trees"
  by (simp add: toy_trees_def local_trees_def)

theorem scan_keeps_recorded_witness:
  "\<exists>ds st' es. scan_dir toy_cfg [] (toy_gdir []) [] None toy_tree_state = Inr (ds, st') \<and>
     ds_hash ds = tree_hash toy_trees es \<and> ''b'' \<in> ename ` set es"
proof -
  let ?d = "toy_gdir []" and ?lv = "empty_level side_default"
  let ?lv' = "?lv\<lparr>lv_side := side_default\<lparr>unstable_paths := {''b''}\<rparr>, lv_entries := [toy_blob]\<rparr>"
  have c: "tc_ops (sg_cx toy_cfg) = local_store toy_hmac None" "digest32 (sha (tc_env (sg_cx toy_cfg)))"
    using toy_env_ok toy_local by (simp_all add: toy_cfg_def toy_trees_def local_trees_def)
  have i: "backend_ok (ts_store toy_tree_state)" by (simp add: toy_tree_state_def)
  have n: "scan_names toy_cfg [] ?d [] = Inr ([], ?lv)"
    by (simp add: scan_names_def toy_gdir_def with_fd_def list_names_def)
  have r: "reappeared toy_cfg ?d [] [] ?lv = Inr ?lv'"
    by (simp add: reappeared_def toy_cfg_def child_index_children parent_rel_def reappeared_step_def toy_gdir_def toy_blob_def empty_level_def side_default_def)
  from store_laws.level_tree_total [OF local_trees_laws i c, of ?lv'] obtain ds st' where
    t: "level_tree toy_cfg ?lv' toy_tree_state = Inr (ds, st')" "\<not> ds_vanished ds" by auto
  have s: "scan_dir toy_cfg [] ?d [] None toy_tree_state = Inr (ds, st')"
    using n r t(1) by (simp add: scan_dir.simps empty_level_def finish_level_def Let_def)
  have v: "validate_entry_name (ename toy_blob) = Inr ()" using toy_blob_valid by (simp add: toy_blob_def)
  have m: "map_of [(''b'', toy_blob)] (join_rel [] (ename toy_blob)) = Some toy_blob" by (simp add: toy_blob_def join_rel_def)
  have w: "sg_write toy_cfg" "sg_clone toy_cfg = Some [(''b'', toy_blob)]" by (simp_all add: toy_cfg_def)
  have "\<exists>es. ds_hash ds = tree_hash toy_trees es \<and> ''b'' \<in> ename ` set es"
    using scan_keeps_recorded [OF s t(2) w m v]
    by (auto simp: toy_gdir_def toy_blob_def toy_cfg_def is_ignored_def filter_test_def)
  with s show ?thesis by blast
qed

theorem damaged_marker_aborts_witness:
  "\<exists>e. scan_dir toy_cfg [] (toy_gdir [(''b.omemfs-stub'', KFile)]) [] None toy_tree_state = Inl e"
proof -
  have "damaged toy_cfg [] (toy_gdir [(''b.omemfs-stub'', KFile)]) []"
  proof (rule damaged_file [where n = "''b''" and listing = "[(''b.omemfs-stub'', KFile)]"])
    show "validate_entry_name ''b'' = Inr ()" using toy_blob_valid by simp
    show "read_file_stub toy_cfg (toy_gdir [(''b.omemfs-stub'', KFile)]) (''b'' @ STUB_SUFFIX) = Inl (Json ''stub'')"
      by (simp add: read_file_stub_def toy_gdir_def toy_cfg_def)
  qed (simp_all add: toy_gdir_def STUB_SUFFIX_def is_ignored_def filter_test_def)
  then show ?thesis by (rule damaged_marker_aborts)
qed

end
