(* ===== verification/ScanRest.thy ===== *)
theory ScanRest
  imports Scan
begin

text \<open>
  The scan of a working tree that does not change while it is scanned, and the entry points
  over it: the tree of the snapshot is a function of the files, whatever the hints and
  whether or not blobs are written.
\<close>

section \<open>A working tree at rest\<close>

datatype wnode =
    WFile bytes entry_stat
  | WDir "(string \<times> wnode) list" entry_stat
  | WLink string entry_stat
  | WOther entry_stat

fun wstat :: "wnode \<Rightarrow> entry_stat" where
  "wstat (WFile _ st) = st"
| "wstat (WDir _ st) = st"
| "wstat (WLink _ st) = st"
| "wstat (WOther st) = st"

fun wkind :: "wnode \<Rightarrow> entry_kind" where
  "wkind (WFile _ _) = KFile"
| "wkind (WDir _ _) = KDir"
| "wkind (WLink _ _) = KSymlink"
| "wkind (WOther _) = KOther"

definition w_at :: "(string \<times> wnode) list \<Rightarrow> (wnode \<Rightarrow> 'a result) \<Rightarrow> string \<Rightarrow> 'a result" where
  "w_at es f n = (case map_of es n of None \<Rightarrow> Inl (Io ''NotFound'') | Some w \<Rightarrow> f w)"

definition w_text :: "wnode \<Rightarrow> string result" where
  "w_text w = (case w of WFile c _ \<Rightarrow> ok_or (from_utf8 c) (Io ''InvalidData'') | _ \<Rightarrow> Inl (SourceChanged []))"

definition w_attempt :: "wnode \<Rightarrow> attempt result" where
  "w_attempt w =
     (case w of
        WFile c st \<Rightarrow>
          (let fs = \<lparr>st_mtime = modified st, st_size = length c\<rparr>
           in Inr \<lparr>at_before = fs, at_mode = mode_from_bits (es_mode st), at_probe = take 2 c, at_content = c, at_after = fs\<rparr>)
      | _ \<Rightarrow> Inl (SourceChanged []))"

definition STREAM_READ_BUF :: nat where "STREAM_READ_BUF = 1024 * 1024"

fun w_reads :: "bytes \<Rightarrow> bytes list" where
  "w_reads [] = []"
| "w_reads (b # c) = (b # take (STREAM_READ_BUF - 1) c) # w_reads (drop (STREAM_READ_BUF - 1) c)"

definition w_bufs :: "wnode \<Rightarrow> bytes list result" where
  "w_bufs w = (case w of WFile c _ \<Rightarrow> Inr (w_reads c) | _ \<Rightarrow> Inl (SourceChanged []))"

definition w_link :: "wnode \<Rightarrow> string result" where
  "w_link w = (case w of WLink t _ \<Rightarrow> Inr t | _ \<Rightarrow> Inl (Io ''EINVAL''))"

definition w_listing :: "(string \<times> wnode) list \<Rightarrow> (string \<times> entry_kind) list" where
  "w_listing es = map (\<lambda>(n, w). (n, wkind w)) es"

fun gdir_of :: "wnode \<Rightarrow> gdir" where
  "gdir_of (WDir es st) =
     GDir (Inr (w_listing es)) (Inr (w_listing es)) (\<lambda>_. w_at es (\<lambda>w. Inr (wstat w))) (w_at es w_link) (w_at es w_text)
       (\<lambda>n _. w_at es w_attempt n) (w_at es w_bufs) (Inr st)
       (map (\<lambda>(n, w). (n, case w of WDir _ _ \<Rightarrow> Inr (gdir_of w) | _ \<Rightarrow> Inl (SymlinkEscape n))) es)"
| "gdir_of w =
     GDir (Inl (Io ''NotADirectory'')) (Inl (Io ''NotADirectory'')) (\<lambda>_ _. Inl (Io ''NotADirectory'')) (\<lambda>_. Inl (Io ''NotADirectory''))
       (\<lambda>_. Inl (Io ''NotADirectory'')) (\<lambda>_ _. Inl (Io ''NotADirectory'')) (\<lambda>_. Inl (Io ''NotADirectory'')) (Inr (wstat w)) []"

section \<open>The snapshot of a tree at rest\<close>

text \<open>The name a listed name stands for, and whether the entry itself or a marker is meant.\<close>

definition stands_for :: "string set \<Rightarrow> string \<Rightarrow> (string \<times> bool) option" where
  "stands_for names n =
     (if \<not> kept n \<or> n = DIR_STUB_NAME then None
      else case logical_name n of
             None \<Rightarrow> Some (n, True)
           | Some l \<Rightarrow> if l \<in> names \<and> kept l then None else Some (l, False))"

definition marker_record :: "'s scan_cfg \<Rightarrow> wnode \<Rightarrow> stub_record option" where
  "marker_record cfg w = (case w_text w of Inr s \<Rightarrow> sg_parse cfg s | Inl _ \<Rightarrow> None)"

definition file_entry :: "'s scan_cfg \<Rightarrow> string \<Rightarrow> string \<Rightarrow> bytes \<Rightarrow> entry_stat \<Rightarrow> tree_entry" where
  "file_entry cfg name path c st =
     (let h = blob_hash (sha (tc_env (sg_cx cfg))) c
      in Blob name h (mtime_stable (mtime_for_entry (sg_clone cfg) path h) (system_time_to_datetime cfg (modified st)))
           (es_size st) (mode_from_bits (es_mode st)))"

definition dir_entry :: "'s tree_ctx \<Rightarrow> string \<Rightarrow> tree_entry list \<Rightarrow> tree_entry" where
  "dir_entry cx name es = TreeE name (tree_hash cx es) (aggregate_mtime es) (aggregate_size es) (aggregate_blob_count es)"

text \<open>The record of a directory that is only a placeholder.\<close>

definition own_stub :: "'s scan_cfg \<Rightarrow> (string \<times> wnode) list \<Rightarrow> stub_record option" where
  "own_stub cfg es =
     (case map_of es DIR_STUB_NAME of
        Some (WFile c st) \<Rightarrow>
          Option.bind (marker_record cfg (WFile c st)) (\<lambda>r. if sr_type r = TargetTree then Some r else None)
      | _ \<Rightarrow> None)"

text \<open>The entries of a directory, in the order of its listing.\<close>

fun snapshot_of :: "'s scan_cfg \<Rightarrow> filter_set \<Rightarrow> string \<Rightarrow> wnode \<Rightarrow> tree_entry list" where
  "snapshot_of cfg fs pre (WDir es st) =
     concat (map (\<lambda>(n, w).
       case stands_for (fst ` set es) n of
         None \<Rightarrow> []
       | Some (l, real) \<Rightarrow>
           if is_ignored fs (join_rel pre l) then []
           else if \<not> real then (case marker_record cfg w of None \<Rightarrow> [] | Some r \<Rightarrow> [blob_of_stub l r])
           else (case w of
                   WFile c cst \<Rightarrow> [file_entry cfg l (join_rel pre l) c cst]
                 | WLink t lst \<Rightarrow> [Symlink l t (system_time_to_datetime cfg (modified lst))]
                 | WOther _ \<Rightarrow> []
                 | WDir des _ \<Rightarrow>
                     (case own_stub cfg des of
                        Some r \<Rightarrow> [stub_tree_entry l r]
                      | None \<Rightarrow> [dir_entry (sg_cx cfg) l (snapshot_of cfg fs (join_rel pre l) w)]))) es)"
| "snapshot_of cfg fs pre w = []"

declare snapshot_of.simps [simp del]

text \<open>What a tree at rest has to satisfy: unique names, a status that fits the kind, readable
  markers, no directory that is expanded in part, and hints that tell the truth.\<close>

definition hints_ok :: "'s scan_cfg \<Rightarrow> string \<Rightarrow> bytes \<Rightarrow> entry_stat \<Rightarrow> bool" where
  "hints_ok cfg path c st \<longleftrightarrow>
     (case (sg_cache cfg, modified st) of
        (Some sc, Some t) \<Rightarrow>
          (case lookup_current_entry sc path t (es_size st) of
             Some e \<Rightarrow> se_hash e = blob_hash (sha (tc_env (sg_cx cfg))) c | None \<Rightarrow> True)
      | _ \<Rightarrow> True) \<and>
     (case previous_entry cfg path of
        Some e \<Rightarrow> can_skip_hash cfg e (es_size st) (modified st) (sg_now cfg) \<longrightarrow>
          entry_hash e = Some (blob_hash (sha (tc_env (sg_cx cfg))) c)
      | None \<Rightarrow> True)"

definition marker_ok :: "'s scan_cfg \<Rightarrow> (string \<times> wnode) list \<Rightarrow> bool" where
  "marker_ok cfg es \<longleftrightarrow>
     (case map_of es DIR_STUB_NAME of
        Some (WFile c ms) \<Rightarrow>
          is_file ms \<and>
          (case marker_record cfg (WFile c ms) of
             None \<Rightarrow> False
           | Some r \<Rightarrow> sr_type r = TargetTree \<longrightarrow> list_all (\<lambda>(n, w). n = DIR_STUB_NAME) es)
      | Some w \<Rightarrow> \<not> is_file (wstat w)
      | None \<Rightarrow> True)"

text \<open>The names in the last synchronised snapshot passed the validation of trees.\<close>

definition recorded_names_ok :: "'s scan_cfg \<Rightarrow> bool" where
  "recorded_names_ok cfg \<longleftrightarrow>
     (case sg_clone cfg of None \<Rightarrow> True | Some flat \<Rightarrow> list_all (\<lambda>(p, e). validate_entry_name (ename e) = Inr ()) flat)"

fun at_rest :: "'s scan_cfg \<Rightarrow> filter_set \<Rightarrow> string \<Rightarrow> wnode \<Rightarrow> bool" where
  "at_rest cfg fs pre (WDir es st) \<longleftrightarrow>
     is_dir st \<and> distinct (map fst es) \<and> marker_ok cfg es \<and>
     (\<forall>(n, w) \<in> set es.
        case stands_for (fst ` set es) n of
          None \<Rightarrow> True
        | Some (l, real) \<Rightarrow>
            is_ignored fs (join_rel pre l) \<or> (if real then at_rest cfg fs (join_rel pre l) w else marker_record cfg w \<noteq> None))"
| "at_rest cfg fs path (WFile c st) \<longleftrightarrow> is_file st \<and> unat (es_size st) = length c \<and> hints_ok cfg path c st"
| "at_rest cfg fs path (WLink t st) \<longleftrightarrow> is_symlink st"
| "at_rest cfg fs path (WOther st) \<longleftrightarrow> \<not> is_dir st \<and> \<not> is_file st \<and> \<not> is_symlink st"

lemma gdir_of_sel [simp]:
  "g_entries (gdir_of (WDir es st)) = Inr (w_listing es)" "g_entries_again (gdir_of (WDir es st)) = Inr (w_listing es)"
  "g_lstat (gdir_of (WDir es st)) site = w_at es (\<lambda>w. Inr (wstat w))" "g_read_link (gdir_of (WDir es st)) = w_at es w_link"
  "g_text (gdir_of (WDir es st)) = w_at es w_text" "g_opens (gdir_of (WDir es st)) n = (\<lambda>_. w_at es w_attempt n)"
  "g_bufs (gdir_of (WDir es st)) = w_at es w_bufs" "g_fstat (gdir_of (WDir es st)) = Inr st"
  by simp_all

lemma open_subdir_gdir_of: "map_of es n = Some (WDir des dst) \<Longrightarrow> open_subdir (gdir_of (WDir es st)) n = Inr (gdir_of (WDir des dst))"
  by (induction es) (auto simp: open_subdir_def split: if_splits)
declare gdir_of.simps [simp del]

section \<open>Stored files\<close>

lemma w_reads_ok: "concat (w_reads c) = c" "[] \<notin> set (w_reads c)"
  by (induction c rule: w_reads.induct) simp_all

context store_laws
begin

lemma store_chunk_total:
  assumes "inv s" "digest32 (sha E)"
  shows "\<exists>s'. store_chunk E S key c s = Inr (chunk_hash (sha E) c, s') \<and> inv s'"
proof -
  note h = chunk_hash_ok [OF assms(2), of c]
  from store_write_ok [OF assms(1) h, of E "serialise_chunk c" key] obtain s' where
    "store_write E S s (chunk_hash (sha E) c) (serialise_chunk c) key = Inr s'" "inv s'" by blast
  with assms(1) exists_view [OF assms(1) h] show ?thesis by (simp add: store_chunk_def Let_def)
qed

lemma store_chunks_total:
  assumes "digest32 (sha E)"
  shows "inv s \<Longrightarrow> \<exists>hs s'. store_chunks E S key cs s = Inr (hs, s') \<and> inv s'"
proof (induction cs arbitrary: s)
  case (Cons c cs)
  from store_chunk_total [OF Cons.prems assms] obtain s1 where "store_chunk E S key c s = Inr (chunk_hash (sha E) c, s1)" "inv s1" by blast
  with Cons.IH [OF this(2)] show ?case by auto
qed simp

lemma store_chunked_total:
  assumes "inv s" "digest32 (sha E)" "hash_ok h"
  shows "\<exists>s'. store_chunked E cdc S s h b key = Inr s' \<and> inv s'"
proof -
  from store_chunks_total [OF assms(2,1)] obtain hs s1 where c: "store_chunks E S key (cdc b) s = Inr (hs, s1)" "inv s1" by blast
  have "\<exists>s'. store_write E S t h x key = Inr s' \<and> inv s'" if "inv t" for t x
    using store_write_ok [OF that assms(3), of E x key] by blast
  with assms(1) c show ?thesis by (simp add: store_chunked_def Let_def)
qed

lemma snapshot_total:
  assumes "inv s" "digest32 (sha E)" "cdc_ok scdc" "stable a" "at_probe a = take 2 (at_content a)"
  shows "\<exists>s'. store_snapshot_with E cdc scdc S s key label (\<lambda>_. Inr a) =
      Inr (\<lparr>sf_hash = blob_hash (sha E) (at_content a), sf_mtime = st_mtime (at_before a), sf_size = length (at_content a), sf_mode = at_mode a\<rparr>, s') \<and> inv s'"
proof -
  let ?h = "blob_hash (sha E) (at_content a)" and ?b = "serialise_blob (at_content a)"
  have sz: "st_size (at_before a) = length (at_content a)" using assms(4) by (simp add: stable_def stat_unchanged_def)
  have "\<exists>s'. snapshot_attempt E cdc scdc S s key a = Inr (Some ?h, s') \<and> inv s'"
  proof (cases "st_size (at_before a) < STREAMING_THRESHOLD")
    case True
    with store_chunked_total [OF assms(1,2) blob_hash_ok [OF assms(2)], of cdc "at_content a" ?b key] assms(4) show ?thesis
      by (auto simp: snapshot_attempt_eq [OF assms(3,5)])
  next
    case False
    then have "at_content a \<noteq> []" using sz by (auto simp: STREAMING_THRESHOLD_def)
    from stream_equals_store_chunked [OF assms(3) this, of E S s key]
      store_chunked_total [OF assms(1,2) blob_hash_ok [OF assms(2)], of scdc "at_content a" ?b key]
    obtain s' h chunks n s1 where "inv s'" "stream_file_once E scdc S s (at_probe a) (at_content a) key = Inr (h, chunks, n, s1)"
      "finish_streamed_file E S s1 h chunks key = Inr s'"
      by (auto simp: rbind_Inr_iff assms(5))
    with False assms(4) show ?thesis by (simp add: snapshot_attempt_eq [OF assms(3,5)])
  qed
  then show ?thesis by (auto simp: store_snapshot_with_def SNAPSHOT_ATTEMPTS_def numeral_2_eq_2 upt_rec sz)
qed

lemma blob_fully_cached_total:
  assumes "inv s" "hash_ok h"
  shows "\<exists>b. blob_fully_cached E S s h = Inr b"
proof -
  have "\<exists>b. all_exist S s hs = Inr b" if "deserialise_manifest x = Some hs" for x hs
    using all_exist_iff [OF assms(1)] deserialise_manifest_ok [OF that] by blast
  then show ?thesis
    by (auto simp: blob_fully_cached_def exists_view [OF assms] split: sum.split bool.split option.split)
qed

end

section \<open>File jobs\<close>

definition job_of :: "string \<Rightarrow> string \<Rightarrow> entry_stat \<Rightarrow> file_job" where
  "job_of name path st = \<lparr>fj_name = name, fj_path = path, fj_size = es_size st, fj_mtime = modified st, fj_mode = mode_from_bits (es_mode st)\<rparr>"

lemma fallback_mtime:
  assumes "can_skip_hash cfg e sz (modified st) now" "previous_entry cfg path = Some e" "entry_hash e = Some h"
  shows "emtime e = mtime_stable (mtime_for_entry (sg_clone cfg) path h) (system_time_to_datetime cfg (modified st))"
proof -
  from assms(1) obtain n g m s md t where e: "e = Blob n g m s md" "modified st = Some t" "system_time_to_datetime cfg (Some t) = m"
    by (auto simp: can_skip_hash_def split: tree_entry.splits option.splits if_splits)
  from assms(2) have "mtime_for_entry (sg_clone cfg) path h = (if g = h then m else None)"
    by (cases "sg_clone cfg") (auto simp: previous_entry_def mtime_for_entry_def e(1))
  with assms(3) show ?thesis by (simp add: e mtime_stable_def split: option.split)
qed

context store_laws
begin

lemma job_at_rest:
  assumes i: "inv (ts_store st)" and ops: "tc_ops (sg_cx cfg) = S" and sha: "digest32 (sha (tc_env (sg_cx cfg)))"
    and cdc: "cdc_ok (sg_scdc cfg)" and w: "map_of es name = Some (WFile c cst)" and r: "at_rest cfg fs path (WFile c cst)"
  shows "\<exists>scanned st'. process_file_job cfg (gdir_of (WDir es dst)) (job_of name path cst) st =
     Inr ((Some (file_entry cfg name path c cst), scanned, None), st') \<and> inv (ts_store st')"
proof -
  let ?E = "tc_env (sg_cx cfg)" and ?j = "job_of name path cst" and ?d = "gdir_of (WDir es dst)"
  let ?h = "blob_hash (sha ?E) c"
  let ?m = "mtime_stable (mtime_for_entry (sg_clone cfg) path ?h) (system_time_to_datetime cfg (modified cst))"
  have hok: "hash_ok ?h" by (rule blob_hash_ok [OF sha])
  from r have sz: "unat (es_size cst) = length c" and hints: "hints_ok cfg path c cst" by auto
  from blob_fully_cached_total [OF i hok, of ?E] obtain b where b: "fully_cached cfg st ?h = Inr b"
    by (auto simp: fully_cached_def ops)
  have hit: "\<exists>hit. cache_hit_of cfg st ?j = Inr hit \<and> (\<forall>t e. hit = Some (t, e) \<longrightarrow> se_hash e = ?h)"
    using hints b by (auto simp: cache_hit_of_def hints_ok_def job_of_def split: option.split)
  have fb: "\<exists>fb. fallback_of cfg st ?j = Inr fb \<and> (\<forall>h m. fb = Some (h, m) \<longrightarrow> h = ?h \<and> m = ?m)"
    using hints b fallback_mtime [of cfg _ "es_size cst" cst "sg_now cfg" path ?h]
    by (auto simp: fallback_of_def hints_ok_def job_of_def split: option.split)
  have full: "\<exists>scanned st'. full_read cfg ?d ?j st = Inr ((Some (file_entry cfg name path c cst), scanned, None), st') \<and> inv (ts_store st')"
  proof (cases "sg_write cfg")
    case True
    let ?fs = "\<lparr>st_mtime = modified cst, st_size = length c\<rparr>"
    let ?a = "\<lparr>at_before = ?fs, at_mode = mode_from_bits (es_mode cst), at_probe = take 2 c, at_content = c, at_after = ?fs\<rparr>"
    have o: "g_opens ?d name = (\<lambda>_. Inr ?a)" using w by (simp add: w_at_def w_attempt_def Let_def)
    from snapshot_total [OF i sha cdc, of ?a "sg_cdc cfg" None name] obtain s' where
      s: "store_file_snapshot_at cfg ?d name (ts_store st) = Inr (\<lparr>sf_hash = ?h, sf_mtime = modified cst, sf_size = length c, sf_mode = mode_from_bits (es_mode cst)\<rparr>, s')" "inv s'"
      unfolding store_file_snapshot_at_def o ops by (auto simp: stable_def stat_unchanged_def)
    have "word_of_nat (length c) = es_size cst" using sz [symmetric] by simp
    with True s show ?thesis
      by (auto simp: full_read_def Let_def job_of_def file_entry_def split: option.split)
  next
    case False
    have "g_bufs ?d name = Inr (w_reads c)" using w by (simp add: w_at_def w_bufs_def)
    then have "hash_file_at cfg ?d name = Inr ?h"
      using hash_only_pass [OF w_reads_ok(2), of ?E c] by (simp add: hash_file_at_def w_reads_ok(1))
    with False i show ?thesis by (auto simp: full_read_def Let_def job_of_def file_entry_def)
  qed
  from hit obtain hit where h: "cache_hit_of cfg st ?j = Inr hit" "\<And>t e. hit = Some (t, e) \<Longrightarrow> se_hash e = ?h" by blast
  from fb obtain fb where f: "fallback_of cfg st ?j = Inr fb" "\<And>g m. fb = Some (g, m) \<Longrightarrow> g = ?h \<and> m = ?m" by blast
  show ?thesis
  proof (cases hit)
    case (Some te)
    with h i show ?thesis by (cases te) (auto simp: process_file_job_def job_of_def file_entry_def Let_def)
  next
    case None
    show ?thesis
    proof (cases fb)
      case (Some gm)
      with None h(1) f i show ?thesis by (cases gm) (auto simp: process_file_job_def job_of_def file_entry_def Let_def)
    next
      case None2: None
      with None h(1) f(1) full show ?thesis by (simp add: process_file_job_def)
    qed
  qed
qed

end

section \<open>The order of the entries does not matter\<close>

lemma set_map_filter: "set (List.map_filter f xs) = {y. \<exists>x \<in> set xs. f x = Some y}"
  by (induction xs) (auto split: option.splits)

lemma aggregate_mtime_Max:
  "aggregate_mtime es =
     (if {t. \<exists>x \<in> set es. emtime x = Some t} = {} then None else Some (Max {t. \<exists>x \<in> set es. emtime x = Some t}))"
  unfolding set_map_filter [symmetric]
  by (cases "List.map_filter emtime es") (simp_all add: aggregate_mtime_def Max.set_eq_fold [symmetric])

lemma entries_perm:
  assumes "mset xs = mset ys" "distinct (map ename xs)"
  shows "tree_hash cx xs = tree_hash cx ys" "aggregate_mtime xs = aggregate_mtime ys"
    "aggregate_size xs = aggregate_size ys" "aggregate_blob_count xs = aggregate_blob_count ys"
proof -
  have st: "set xs = set ys" by (rule mset_eq_setD [OF assms(1)])
  have "mset xs = mset (sort_key ename ys)" "inj_on ename (set xs)" "sorted (map ename (sort_key ename ys))"
    using assms by (simp_all add: distinct_map)
  then have "sorted_entries xs = sorted_entries ys" unfolding sorted_entries_def by (rule sort_key_inj_key_eq)
  then show "tree_hash cx xs = tree_hash cx ys" by (simp add: tree_hash_def)
  show "aggregate_mtime xs = aggregate_mtime ys" by (simp add: aggregate_mtime_Max st)
  have sum: "sum_list (map f xs) = sum_list (map f ys)" for f :: "tree_entry \<Rightarrow> u64"
    using assms(1) by (metis mset_map sum_mset_sum_list)
  show "aggregate_size xs = aggregate_size ys" "aggregate_blob_count xs = aggregate_blob_count ys"
    by (simp_all add: aggregate_size_def aggregate_blob_count_def sum)
qed

lemma mset_concat_perm: "mset xs = mset ys \<Longrightarrow> mset (concat (map f xs)) = mset (concat (map f ys))"
  unfolding mset_concat map_map by (metis mset_map sum_mset_sum_list)

lemma mset_three_parts:
  "mset (concat (map a xs) @ map e (concat (map b xs)) @ map g (concat (map c xs))) =
   mset (concat (map (\<lambda>x. a x @ map e (b x) @ map g (c x)) xs))"
  by (induction xs) simp_all

section \<open>The logical names of a tree at rest\<close>

definition logical_item :: "string set \<Rightarrow> string \<times> entry_kind \<Rightarrow> (string \<times> entry_kind option) option" where
  "logical_item raws nk =
     (case nk of (n, k) \<Rightarrow>
        if n = DIR_STUB_NAME then None
        else case logical_name n of None \<Rightarrow> Some (n, Some k) | Some l \<Rightarrow> if l \<in> raws then None else Some (l, None))"

lemma logical_item_name:
  assumes "logical_item raws (n, k) = Some (l, r)"
  shows "(r = Some k \<and> l = n \<and> logical_name n = None) \<or> (r = None \<and> n = l @ STUB_SUFFIX \<and> l \<notin> raws)"
  using assms by (auto simp: logical_item_def logical_name_def split: if_splits option.splits)

lemma logical_names_exact:
  assumes "distinct (map fst ks)" "fst ` set ks \<subseteq> set raws" "\<forall>x \<in> set (List.map_filter (logical_item (set raws)) ks). fst x \<notin> set sn"
  shows "logical_names raws ks sn = List.map_filter (logical_item (set raws)) ks \<and> distinct (map fst (List.map_filter (logical_item (set raws)) ks))"
  using assms
proof (induction ks arbitrary: sn)
  case (Cons nk ks)
  obtain n k where nk: "nk = (n, k)" by fastforce
  let ?L = "List.map_filter (logical_item (set raws)) ks"
  show ?case
  proof (cases "logical_item (set raws) nk")
    case None
    then have "logical_names raws (nk # ks) sn = logical_names raws ks sn"
      by (auto simp: nk logical_item_def split: if_splits option.splits)
    with None Cons show ?thesis by (simp add: map_filter_simps)
  next
    case (Some lr)
    obtain l r where lr: "lr = (l, r)" by fastforce
    note it = logical_item_name [OF Some [unfolded nk lr]]
    have l: "l \<notin> set sn" using Cons.prems(3) Some lr by (simp add: map_filter_simps)
    have new: "fst x \<noteq> l" if "x \<in> set ?L" for x
    proof -
      from that obtain m j where m: "(m, j) \<in> set ks" "logical_item (set raws) (m, j) = Some x" by (auto simp: map_filter_def)
      obtain l' r' where x: "x = (l', r')" by fastforce
      from m(1) Cons.prems(1,2) have "m \<noteq> n" "m \<in> set raws" "n \<in> set raws" by (force simp: nk)+
      with it logical_item_name [OF m(2) [unfolded x]] show ?thesis by (auto simp: x)
    qed
    have "logical_names raws (nk # ks) sn = (l, r) # logical_names raws ks (l # sn)"
      using Some l by (auto simp: nk lr logical_item_def split: if_splits option.splits)
    with Some lr new Cons.IH [of "l # sn"] Cons.prems show ?thesis by (auto simp: map_filter_simps)
  qed
qed (simp add: map_filter_simps)

definition items :: "(string \<times> wnode) list \<Rightarrow> (string \<times> entry_kind option) list" where
  "items es = List.map_filter (\<lambda>(n, w). map_option (\<lambda>(l, real). (l, if real then Some (wkind w) else None)) (stands_for (fst ` set es) n)) es"

lemma map_filter_listing:
  assumes "\<And>n w. kept n \<Longrightarrow> f (n, wkind w) = g (n, w)" "\<And>n w. \<not> kept n \<Longrightarrow> g (n, w) = None"
  shows "List.map_filter f (filter (kept \<circ> fst) (w_listing es)) = List.map_filter g es"
proof (induction es)
  case (Cons e es)
  obtain n w where "e = (n, w)" by fastforce
  with Cons assms show ?case by (cases "kept n"; cases "g (n, w)") (simp_all add: w_listing_def)
qed (simp add: w_listing_def)

lemma logical_names_items:
  assumes "distinct (map fst es)"
  shows "logical_names (map fst (filter (kept \<circ> fst) (w_listing es))) (filter (kept \<circ> fst) (w_listing es)) [] = items es"
    "distinct (map fst (items es))"
proof -
  let ?K = "filter (kept \<circ> fst) (w_listing es)"
  have raws: "set (map fst ?K) = {n \<in> fst ` set es. kept n}" by (force simp: w_listing_def)
  have d: "distinct (map fst ?K)"
    using assms by (simp add: w_listing_def filter_map comp_def split_def distinct_map_filter)
  have step: "logical_item R (n, wkind w) =
      map_option (\<lambda>(l, real). (l, if real then Some (wkind w) else None)) (stands_for (fst ` set es) n)"
    if "kept n" "R = {n \<in> fst ` set es. kept n}" for n w R
    using that(1) unfolding that(2) by (auto simp: logical_item_def stands_for_def split: option.split)
  have "List.map_filter (logical_item (set (map fst ?K))) ?K = items es"
    unfolding items_def by (rule map_filter_listing) (simp only: step [OF _ raws] prod.case, simp add: stands_for_def)
  with logical_names_exact [OF d, of "map fst ?K" "[]"] show
    "logical_names (map fst ?K) ?K [] = items es" "distinct (map fst (items es))" by auto
qed

section \<open>One level of a tree at rest\<close>

text \<open>What a logical name adds to the level: an entry, a directory or a file job.\<close>

definition direct :: "'s scan_cfg \<Rightarrow> filter_set \<Rightarrow> string \<Rightarrow> (string \<times> wnode) list \<Rightarrow> string \<times> entry_kind option \<Rightarrow> tree_entry list" where
  "direct cfg fs pre es x =
     (case x of (l, real) \<Rightarrow>
        if is_ignored fs (join_rel pre l) then []
        else if real = None
          then (case Option.bind (map_of es (l @ STUB_SUFFIX)) (marker_record cfg) of None \<Rightarrow> [] | Some r \<Rightarrow> [blob_of_stub l r])
        else (case map_of es l of
                Some (WLink t st) \<Rightarrow> [Symlink l t (system_time_to_datetime cfg (modified st))] | _ \<Rightarrow> []))"

definition dirs :: "filter_set \<Rightarrow> string \<Rightarrow> (string \<times> wnode) list \<Rightarrow> string \<times> entry_kind option \<Rightarrow> (string \<times> string) list" where
  "dirs fs pre es x =
     (case x of (l, real) \<Rightarrow>
        if is_ignored fs (join_rel pre l) \<or> real = None then []
        else (case map_of es l of Some (WDir _ _) \<Rightarrow> [(l, join_rel pre l)] | _ \<Rightarrow> []))"

definition jobs :: "filter_set \<Rightarrow> string \<Rightarrow> (string \<times> wnode) list \<Rightarrow> string \<times> entry_kind option \<Rightarrow> file_job list" where
  "jobs fs pre es x =
     (case x of (l, real) \<Rightarrow>
        if is_ignored fs (join_rel pre l) \<or> real = None then []
        else (case map_of es l of Some (WFile c st) \<Rightarrow> [job_of l (join_rel pre l) st] | _ \<Rightarrow> []))"

text \<open>A logical name of a directory, with the node or marker it comes from.\<close>

definition item_ok :: "'s scan_cfg \<Rightarrow> filter_set \<Rightarrow> string \<Rightarrow> (string \<times> wnode) list \<Rightarrow> string \<times> entry_kind option \<Rightarrow> bool" where
  "item_ok cfg fs pre es x \<longleftrightarrow>
     (case x of
        (l, None) \<Rightarrow> kept (l @ STUB_SUFFIX) \<and> (\<exists>w. map_of es (l @ STUB_SUFFIX) = Some w \<and> (is_ignored fs (join_rel pre l) \<or> marker_record cfg w \<noteq> None))
      | (l, Some k) \<Rightarrow> (\<exists>w. map_of es l = Some w \<and> k = wkind w \<and> (is_ignored fs (join_rel pre l) \<or> at_rest cfg fs (join_rel pre l) w)))"

lemma items_ok:
  assumes "at_rest cfg fs pre (WDir es dst)" "x \<in> set (items es)"
  shows "item_ok cfg fs pre es x"
proof -
  from assms(2) obtain n w l real where e: "(n, w) \<in> set es" "stands_for (fst ` set es) n = Some (l, real)"
    and x: "x = (l, if real then Some (wkind w) else None)" by (auto simp: items_def set_map_filter)
  have d: "distinct (map fst es)" using assms(1) by simp
  then have m: "map_of es n = Some w" using e(1) by simp
  have r: "is_ignored fs (join_rel pre l) \<or> (if real then at_rest cfg fs (join_rel pre l) w else marker_record cfg w \<noteq> None)"
    using assms(1) e by fastforce
  from e(2) have "kept n" "real \<and> l = n \<or> \<not> real \<and> n = l @ STUB_SUFFIX"
    by (auto simp: stands_for_def logical_name_def split: if_splits option.splits)
  with m r show ?thesis by (auto simp: item_ok_def x)
qed

lemma w_at_Some: "map_of es n = Some w \<Longrightarrow> w_at es f n = f w"
  by (simp add: w_at_def)

lemma read_stub_at_rest:
  assumes "map_of es n = Some w"
  shows "read_file_stub cfg (gdir_of (WDir es dst)) n =
    (case marker_record cfg w of Some r \<Rightarrow> Inr r | None \<Rightarrow> (case w_text w of Inr _ \<Rightarrow> Inl (Json ''stub'') | Inl e \<Rightarrow> Inl e))"
  using assms by (simp add: read_file_stub_def w_at_Some marker_record_def ok_or_def split: sum.split option.split)

lemma marker_at_rest:
  assumes "raws = map fst (filter (kept \<circ> fst) (w_listing es))"
  shows "\<exists>side. scan_marker cfg (gdir_of (WDir es dst)) raws l path (Some k) lv = Inr (False, lv\<lparr>lv_side := side\<rparr>)"
proof (cases "l @ STUB_SUFFIX \<in> set raws")
  case True
  then obtain w where "(l @ STUB_SUFFIX, w) \<in> set es" by (auto simp: assms w_listing_def)
  then obtain w where w: "map_of es (l @ STUB_SUFFIX) = Some w" by (meson weak_map_of_SomeI)
  have e: "w_text w = Inl e \<Longrightarrow> e = Io ''InvalidData'' \<or> e = SourceChanged []" for e
    by (auto simp: w_text_def ok_or_def split: wnode.splits option.splits)
  show ?thesis
  proof (cases "marker_record cfg w")
    case None
    have "\<exists>e. with_fd (read_file_stub cfg (gdir_of (WDir es dst)) (l @ STUB_SUFFIX)) path = Inl e \<and> (\<forall>p. e \<noteq> TooManyOpenFiles p)"
      using None e unfolding read_stub_at_rest [OF w] by (auto simp: with_fd_def map_fd_exhaustion_def split: sum.split)
    then have "scan_marker cfg (gdir_of (WDir es dst)) raws l path (Some k) lv = Inr (False, lv\<lparr>lv_side := lv_side lv\<rparr>)"
      using True by (auto simp: scan_marker_def split: error.split)
    then show ?thesis by blast
  next
    case (Some r)
    with True show ?thesis unfolding scan_marker_def read_stub_at_rest [OF w]
      by (simp add: with_fd_def Let_def) (rule exI, rule refl)
  qed
next
  case False
  then have "scan_marker cfg (gdir_of (WDir es dst)) raws l path (Some k) lv = Inr (False, lv\<lparr>lv_side := lv_side lv\<rparr>)"
    by (simp add: scan_marker_def)
  then show ?thesis by blast
qed

lemma name_at_rest:
  assumes raws: "raws = map fst (filter (kept \<circ> fst) (w_listing es))" and ok: "item_ok cfg fs pre es x"
  shows "\<exists>side. scan_name cfg fs (gdir_of (WDir es dst)) pre raws x lv = Inr (lv\<lparr>lv_side := side,
     lv_entries := lv_entries lv @ direct cfg fs pre es x, lv_subdirs := lv_subdirs lv @ dirs fs pre es x, lv_jobs := lv_jobs lv @ jobs fs pre es x\<rparr>)"
proof -
  obtain l real where x: "x = (l, real)" by fastforce
  let ?p = "join_rel pre l" and ?d = "gdir_of (WDir es dst)"
  show ?thesis
  proof (cases "is_ignored fs ?p")
    case True
    have "lv\<lparr>lv_side := s, lv_entries := lv_entries lv, lv_subdirs := lv_subdirs lv, lv_jobs := lv_jobs lv\<rparr> = lv\<lparr>lv_side := s\<rparr>" for s by simp
    with True show ?thesis by (auto simp: x scan_name_def Let_def direct_def dirs_def jobs_def)
  next
    case ni: False
    show ?thesis
    proof (cases real)
      case None
      with ok ni obtain w r where w: "map_of es (l @ STUB_SUFFIX) = Some w" "marker_record cfg w = Some r" "kept (l @ STUB_SUFFIX)"
        by (auto simp: item_ok_def x)
      have "l @ STUB_SUFFIX \<in> set raws" using map_of_SomeD [OF w(1)] w(3) by (force simp: raws w_listing_def)
      with None ni w show ?thesis
        by (auto simp: x scan_name_def Let_def scan_marker_def read_stub_at_rest [OF w(1)] with_fd_def direct_def dirs_def jobs_def)
    next
      case (Some k)
      with ok ni obtain w where w: "map_of es l = Some w" "k = wkind w" "at_rest cfg fs ?p w" by (auto simp: item_ok_def x)
      from marker_at_rest [OF raws] obtain side where m: "scan_marker cfg ?d raws l ?p (Some k) lv = Inr (False, lv\<lparr>lv_side := side\<rparr>)" by blast
      have kd: "resolve_kind ?d l k = Inr (Some k)" using w(2) by (cases w) (simp_all add: resolve_kind_def)
      have "\<exists>side'. scan_entry cfg ?d l ?p k (lv\<lparr>lv_side := side\<rparr>) = Inr (lv\<lparr>lv_side := side',
         lv_entries := lv_entries lv @ direct cfg fs pre es x, lv_subdirs := lv_subdirs lv @ dirs fs pre es x, lv_jobs := lv_jobs lv @ jobs fs pre es x\<rparr>)"
        using w ni by (cases w) (auto simp: x Some scan_entry_def w_at_Some w_link_def direct_def dirs_def jobs_def see_other_def job_of_def)
      with m kd ni show ?thesis by (simp add: x Some scan_name_def Let_def)
    qed
  qed
qed

lemma scan_names_collect:
  assumes "\<And>x lv. x \<in> set xs \<Longrightarrow> \<exists>side. f x lv = Inr (lv\<lparr>lv_side := side, lv_entries := lv_entries lv @ a x,
      lv_subdirs := lv_subdirs lv @ b x, lv_jobs := lv_jobs lv @ c x\<rparr>)"
  shows "\<exists>side. rfold f xs lv = Inr (lv\<lparr>lv_side := side, lv_entries := lv_entries lv @ concat (map a xs),
      lv_subdirs := lv_subdirs lv @ concat (map b xs), lv_jobs := lv_jobs lv @ concat (map c xs)\<rparr>)"
  using assms
proof (induction xs arbitrary: lv)
  case Nil
  have "lv = lv\<lparr>lv_side := lv_side lv, lv_entries := lv_entries lv, lv_subdirs := lv_subdirs lv, lv_jobs := lv_jobs lv\<rparr>" by simp
  then show ?case by (auto intro: exI [of _ "lv_side lv"])
next
  case (Cons x xs)
  from Cons.prems [of x lv] obtain side where s: "f x lv = Inr (lv\<lparr>lv_side := side, lv_entries := lv_entries lv @ a x,
      lv_subdirs := lv_subdirs lv @ b x, lv_jobs := lv_jobs lv @ c x\<rparr>)" by auto
  from Cons.IH [OF Cons.prems, of "lv\<lparr>lv_side := side, lv_entries := lv_entries lv @ a x, lv_subdirs := lv_subdirs lv @ b x, lv_jobs := lv_jobs lv @ c x\<rparr>"] s
  show ?case by simp
qed

lemma names_at_rest:
  assumes "at_rest cfg fs pre (WDir es dst)"
  shows "\<exists>raws lv. scan_names cfg fs (gdir_of (WDir es dst)) pre = Inr (raws, lv) \<and> set raws = {n \<in> fst ` set es. kept n} \<and>
     lv_entries lv = concat (map (direct cfg fs pre es) (sort_key fst (items es))) \<and>
     lv_subdirs lv = concat (map (dirs fs pre es) (sort_key fst (items es))) \<and>
     lv_jobs lv = concat (map (jobs fs pre es) (sort_key fst (items es)))"
proof -
  let ?K = "filter (kept \<circ> fst) (w_listing es)"
  have d: "distinct (map fst es)" using assms by simp
  let ?f = "scan_name cfg fs (gdir_of (WDir es dst)) pre (map fst ?K)" and ?L = "sort_key fst (items es)"
  have "\<exists>side. rfold ?f ?L (empty_level s) = Inr ((empty_level s)\<lparr>lv_side := side,
       lv_entries := lv_entries (empty_level s) @ concat (map (direct cfg fs pre es) ?L),
       lv_subdirs := lv_subdirs (empty_level s) @ concat (map (dirs fs pre es) ?L),
       lv_jobs := lv_jobs (empty_level s) @ concat (map (jobs fs pre es) ?L)\<rparr>)" for s
    by (rule scan_names_collect) (rule name_at_rest [OF refl items_ok [OF assms]], simp)
  then obtain side where
    "rfold ?f ?L (empty_level (snd (list_names pre (w_listing es)))) =
     Inr \<lparr>lv_entries = concat (map (direct cfg fs pre es) ?L), lv_files = [], lv_side = side,
       lv_subdirs = concat (map (dirs fs pre es) ?L), lv_jobs = concat (map (jobs fs pre es) ?L)\<rparr>"
    by (auto simp: empty_level_def)
  moreover have "list_names pre (w_listing es) = (?K, snd (list_names pre (w_listing es)))" by (metis list_names_kept prod.collapse)
  moreover have "set (map fst ?K) = {n \<in> fst ` set es. kept n}" by (force simp: w_listing_def)
  ultimately show ?thesis
    by (intro exI [of _ "map fst ?K"]) (auto simp: scan_names_def with_fd_def Let_def logical_names_items(1) [OF d] split: prod.split)
qed

section \<open>Deferred work of a tree at rest\<close>

definition dir_image :: "'s scan_cfg \<Rightarrow> filter_set \<Rightarrow> (string \<times> wnode) list \<Rightarrow> string \<times> string \<Rightarrow> tree_entry" where
  "dir_image cfg fs es np =
     (case map_of es (fst np) of
        Some (WDir des dst) \<Rightarrow>
          (case own_stub cfg des of
             Some r \<Rightarrow> stub_tree_entry (fst np) r
           | None \<Rightarrow> dir_entry (sg_cx cfg) (fst np) (snapshot_of cfg fs (snd np) (WDir des dst)))
      | _ \<Rightarrow> dir_entry (sg_cx cfg) (fst np) [])"

definition file_image :: "'s scan_cfg \<Rightarrow> (string \<times> wnode) list \<Rightarrow> file_job \<Rightarrow> tree_entry" where
  "file_image cfg es j =
     (case map_of es (fj_name j) of
        Some (WFile c st) \<Rightarrow> file_entry cfg (fj_name j) (fj_path j) c st
      | _ \<Rightarrow> dir_entry (sg_cx cfg) (fj_name j) [])"

text \<open>What a logical name contributes in the end.\<close>

definition contribution :: "'s scan_cfg \<Rightarrow> filter_set \<Rightarrow> string \<Rightarrow> (string \<times> wnode) list \<Rightarrow> string \<times> entry_kind option \<Rightarrow> tree_entry list" where
  "contribution cfg fs pre es x =
     direct cfg fs pre es x @ map (dir_image cfg fs es) (dirs fs pre es x) @ map (file_image cfg es) (jobs fs pre es x)"

lemma contribution_name: "\<exists>es'. contribution cfg fs pre es x = es' \<and> (es' = [] \<or> (\<exists>e. es' = [e] \<and> ename e = fst x))"
proof -
  obtain l real where x: "x = (l, real)" by fastforce
  show ?thesis
    by (auto simp: x contribution_def direct_def dirs_def jobs_def dir_image_def file_image_def dir_entry_def file_entry_def
        stub_tree_entry_def blob_of_stub_def job_of_def Let_def split: option.split wnode.split)
qed

lemma distinct_contributions:
  assumes "distinct (map fst xs)"
  shows "distinct (map ename (concat (map (contribution cfg fs pre es) xs))) \<and>
    set (map ename (concat (map (contribution cfg fs pre es) xs))) \<subseteq> fst ` set xs"
  using assms
proof (induction xs)
  case (Cons x xs)
  then have ih: "distinct (map ename (concat (map (contribution cfg fs pre es) xs)))"
    "set (map ename (concat (map (contribution cfg fs pre es) xs))) \<subseteq> fst ` set xs" "fst x \<notin> fst ` set xs" by auto
  from contribution_name [of cfg fs pre es x] have "contribution cfg fs pre es x = [] \<or> (\<exists>e. contribution cfg fs pre es x = [e] \<and> ename e = fst x)" by blast
  then show ?case
  proof
    assume "contribution cfg fs pre es x = []"
    with ih show ?thesis by auto
  next
    assume "\<exists>e. contribution cfg fs pre es x = [e] \<and> ename e = fst x"
    then obtain e where "contribution cfg fs pre es x = [e]" "ename e = fst x" by blast
    with ih show ?thesis by auto
  qed
qed simp

lemma image_contributions:
  assumes "distinct (map fst es)"
  shows "snapshot_of cfg fs pre (WDir es dst) = concat (map (contribution cfg fs pre es) (items es))"
proof -
  let ?g = "\<lambda>(n, w). map_option (\<lambda>(l, real). (l, if real then Some (wkind w) else None)) (stands_for (fst ` set es) n)"
  have mf: "concat (map h (List.map_filter g xs)) = concat (map (\<lambda>x. case g x of None \<Rightarrow> [] | Some y \<Rightarrow> h y) xs)"
    for g :: "string \<times> wnode \<Rightarrow> (string \<times> entry_kind option) option" and h :: "_ \<Rightarrow> tree_entry list" and xs
    by (induction xs) (simp_all split: option.split)
  show ?thesis unfolding items_def mf snapshot_of.simps
  proof (intro arg_cong [where f = concat] map_cong refl)
    fix e assume e: "e \<in> set es"
    obtain n w where nw: "e = (n, w)" by fastforce
    have m: "map_of es n = Some w" using assms e by (simp add: nw)
    show "(case e of (n, w) \<Rightarrow> case stands_for (fst ` set es) n of
         None \<Rightarrow> []
       | Some (l, real) \<Rightarrow>
           if is_ignored fs (join_rel pre l) then []
           else if \<not> real then (case marker_record cfg w of None \<Rightarrow> [] | Some r \<Rightarrow> [blob_of_stub l r])
           else (case w of
                   WFile c cst \<Rightarrow> [file_entry cfg l (join_rel pre l) c cst]
                 | WDir des _ \<Rightarrow>
                     (case own_stub cfg des of
                        None \<Rightarrow> [dir_entry (sg_cx cfg) l (snapshot_of cfg fs (join_rel pre l) w)]
                      | Some r \<Rightarrow> [stub_tree_entry l r])
                 | WLink t lst \<Rightarrow> [Symlink l t (system_time_to_datetime cfg (modified lst))]
                 | WOther _ \<Rightarrow> [])) = (case ?g e of None \<Rightarrow> [] | Some x \<Rightarrow> contribution cfg fs pre es x)"
    proof (cases "stands_for (fst ` set es) n")
      case (Some lr)
      obtain l real where lr: "lr = (l, real)" by fastforce
      from Some have "real \<and> l = n \<or> \<not> real \<and> n = l @ STUB_SUFFIX"
        by (auto simp: lr stands_for_def logical_name_def split: if_splits option.splits)
      then show ?thesis
      proof
        assume "real \<and> l = n"
        with m Some lr show ?thesis
          by (cases w) (auto simp: nw contribution_def direct_def dirs_def jobs_def dir_image_def file_image_def job_of_def split: option.split)
      next
        assume "\<not> real \<and> n = l @ STUB_SUFFIX"
        with m Some lr show ?thesis
          by (auto simp: nw contribution_def direct_def dirs_def jobs_def split: option.split)
      qed
    qed (simp add: nw)
  qed
qed

lemma classify_at_rest:
  assumes "marker_ok cfg es"
  shows "\<exists>side'. classify_dir_stub cfg (gdir_of (WDir es dst)) path side =
    Inr (case own_stub cfg es of Some r \<Rightarrow> FullStub r | None \<Rightarrow> NoStub, side')"
proof (cases "map_of es DIR_STUB_NAME")
  case None
  then show ?thesis by (simp add: classify_dir_stub_def w_at_def not_found_def own_stub_def)
next
  case (Some w)
  show ?thesis
  proof (cases w)
    case (WFile c ms)
    with assms Some obtain r where f: "is_file ms" and r: "marker_record cfg w = Some r"
      and all: "sr_type r = TargetTree \<Longrightarrow> list_all (\<lambda>(n, w). n = DIR_STUB_NAME) es" by (auto simp: marker_ok_def split: option.splits)
    from r obtain t where t: "w_text w = Inr t" "sg_parse cfg t = Some r" by (auto simp: marker_record_def split: sum.splits)
    have o: "own_stub cfg es = (if sr_type r = TargetTree then Some r else None)" using Some r by (simp add: own_stub_def WFile)
    have "\<not> list_ex (\<lambda>(n, _). n \<noteq> DIR_STUB_NAME) (w_listing es)" if "sr_type r = TargetTree"
      using all [OF that] by (auto simp: w_listing_def list_ex_iff list_all_iff)
    then have real: "dir_has_real_children (gdir_of (WDir es dst)) path = Inr False" if "sr_type r = TargetTree"
      using that by (simp add: dir_has_real_children_def)
    show ?thesis using f t Some real
      by (simp add: classify_dir_stub_def w_at_Some WFile with_fd_def Let_def o)
  qed (use assms Some in \<open>simp_all add: classify_dir_stub_def w_at_Some marker_ok_def own_stub_def\<close>)
qed

section \<open>The walk over a tree at rest\<close>

lemma reappeared_at_rest:
  assumes raws: "set raws = {n \<in> fst ` set es. kept n}"
    and valid: "recorded_names_ok cfg"
  shows "reappeared cfg (gdir_of (WDir es dst)) pre raws lv = Inr lv"
proof -
  have fold: "rfold (reappeared_step (gdir_of (WDir es dst)) raws present) cs lv = Inr lv"
    if "\<And>p e. (p, e) \<in> set cs \<Longrightarrow> validate_entry_name (ename e) = Inr ()" for cs present
    using that
  proof (induction cs)
    case (Cons c cs)
    obtain p e where c: "c = (p, e)" by fastforce
    have "kept (ename e)" using Cons.prems [of p e] valid_name_facts(1) by (simp add: c)
    then have "ename e \<notin> set raws \<Longrightarrow> map_of es (ename e) = None" by (auto simp: raws map_of_eq_None_iff)
    with Cons show ?case by (auto simp: c reappeared_step_def w_at_def not_found_def)
  qed simp
  show ?thesis
  proof (cases "sg_clone cfg")
    case (Some flat)
    have "rfold (reappeared_step (gdir_of (WDir es dst)) raws (map ename (lv_entries lv))) (filter (\<lambda>(p, e). parent_rel p = pre) flat) lv = Inr lv"
      by (rule fold) (use valid Some in \<open>auto simp: recorded_names_ok_def list_all_iff\<close>)
    with Some show ?thesis by (simp add: reappeared_def child_index_children)
  qed (simp add: reappeared_def)
qed

context store_laws
begin

lemma subdirs_at_rest:
  assumes "\<And>np st. np \<in> set js \<Longrightarrow> inv (ts_store st) \<Longrightarrow>
     \<exists>child st'. scan_subdir cfg fs d (fst np) (snd np) st = Inr (Some (e np), child, st') \<and> inv (ts_store st')"
  shows "inv (ts_store st) \<Longrightarrow> \<exists>lv' st'. scan_subdirs cfg fs d js lv st = Inr (lv', st') \<and> inv (ts_store st') \<and>
     lv_entries lv' = lv_entries lv @ map e js \<and> lv_jobs lv' = lv_jobs lv"
  using assms
proof (induction js arbitrary: lv st)
  case (Cons np js)
  from Cons.prems(2) [OF _ Cons.prems(1), of np] obtain child st1 where
    s: "scan_subdir cfg fs d (fst np) (snd np) st = Inr (Some (e np), child, st1)" "inv (ts_store st1)" by auto
  from Cons.IH [OF s(2), of "(merge_child child lv)\<lparr>lv_entries := lv_entries lv @ [e np]\<rparr>"] Cons.prems(2)
  obtain lv' st' where "scan_subdirs cfg fs d js ((merge_child child lv)\<lparr>lv_entries := lv_entries lv @ [e np]\<rparr>) st1 = Inr (lv', st')"
    "inv (ts_store st')" "lv_entries lv' = (lv_entries lv @ [e np]) @ map e js" "lv_jobs lv' = lv_jobs lv" by auto
  with s(1) show ?case by (cases np) (simp add: Let_def)
qed simp

lemma jobs_at_rest:
  assumes "\<And>j st. j \<in> set js \<Longrightarrow> inv (ts_store st) \<Longrightarrow>
     \<exists>scanned st'. process_file_job cfg d j st = Inr ((Some (e j), scanned, None), st') \<and> inv (ts_store st')"
  shows "inv (ts_store st) \<Longrightarrow> \<exists>lv' st'. rfold (file_job_step cfg d) js (lv, st) = Inr (lv', st') \<and> inv (ts_store st') \<and>
     lv_entries lv' = lv_entries lv @ map e js"
  using assms
proof (induction js arbitrary: lv st)
  case (Cons j js)
  from Cons.prems(2) [OF _ Cons.prems(1), of j] obtain scanned st1 where
    "process_file_job cfg d j st = Inr ((Some (e j), scanned, None), st1)" and i: "inv (ts_store st1)" by auto
  then obtain lv1 where s: "file_job_step cfg d j (lv, st) = Inr (lv1, st1)" "lv_entries lv1 = lv_entries lv @ [e j]"
    by (simp add: file_job_step_def)
  from Cons.IH [OF i, of lv1] Cons.prems(2) s show ?case by auto
qed simp

lemma dir_at_rest:
  assumes ops: "tc_ops (sg_cx cfg) = S" and sha: "digest32 (sha (tc_env (sg_cx cfg)))" and cdc: "cdc_ok (sg_scdc cfg)"
    and valid: "recorded_names_ok cfg"
  shows "at_rest cfg fs pre w \<Longrightarrow> w = WDir es dst \<Longrightarrow> inv (ts_store st) \<Longrightarrow> rc = None \<or> rc = Some (Inr (Some dst)) \<Longrightarrow>
    \<exists>ds st'. scan_dir cfg fs (gdir_of w) pre rc st = Inr (ds, st') \<and> inv (ts_store st') \<and> \<not> ds_vanished ds \<and>
      TreeE name (ds_hash ds) (ds_mtime ds) (ds_size ds) (ds_blob_count ds) = dir_entry (sg_cx cfg) name (snapshot_of cfg fs pre w)"
proof (induction w arbitrary: pre rc st es dst name)
  case (WDir es0 dst0)
  then have w [simp]: "es0 = es" "dst0 = dst" by simp_all
  let ?d = "gdir_of (WDir es dst)" and ?L = "sort_key fst (items es)"
  note r = WDir.prems(1) [unfolded w]
  have dist: "distinct (map fst es)" and dd: "is_dir dst" using r by auto
  from names_at_rest [OF r] obtain raws lv0 where
    n: "scan_names cfg fs ?d pre = Inr (raws, lv0)" "set raws = {n \<in> fst ` set es. kept n}"
      "lv_entries lv0 = concat (map (direct cfg fs pre es) ?L)" "lv_subdirs lv0 = concat (map (dirs fs pre es) ?L)"
      "lv_jobs lv0 = concat (map (jobs fs pre es) ?L)" by blast
  have sub: "\<exists>child st'. scan_subdir cfg fs ?d (fst np) (snd np) st = Inr (Some (dir_image cfg fs es np), child, st') \<and> inv (ts_store st')"
    if np: "np \<in> set (lv_subdirs lv0)" and i: "inv (ts_store st)" for np st
  proof -
    from np obtain x where x: "x \<in> set (items es)" "np \<in> set (dirs fs pre es x)" by (auto simp: n(4))
    obtain l real where lr: "x = (l, real)" by fastforce
    from x(2) obtain des ddst where m: "map_of es l = Some (WDir des ddst)" "np = (l, join_rel pre l)" "real \<noteq> None" "\<not> is_ignored fs (join_rel pre l)"
      by (auto simp: lr dirs_def split: if_splits option.splits wnode.splits dest: sym)
    have ar: "at_rest cfg fs (join_rel pre l) (WDir des ddst)"
      using items_ok [OF r x(1)] m by (auto simp: item_ok_def lr simp del: at_rest.simps split: option.splits)
    have "(l, WDir des ddst) \<in> set es" using m(1) by (rule map_of_SomeD)
    from WDir.IH [of "(l, WDir des ddst)" "WDir des ddst", unfolded w, OF this _ ar refl i, of "Some (Inr (Some ddst))" l]
    obtain ds st' where s: "scan_dir cfg fs (gdir_of (WDir des ddst)) (join_rel pre l) (Some (Inr (Some ddst))) st = Inr (ds, st')"
      "inv (ts_store st')" "\<not> ds_vanished ds"
      "TreeE l (ds_hash ds) (ds_mtime ds) (ds_size ds) (ds_blob_count ds) = dir_entry (sg_cx cfg) l (snapshot_of cfg fs (join_rel pre l) (WDir des ddst))" by auto
    have rc: "recheck_of ?d l = Some (Inr (Some ddst))" using m(1) by (simp add: recheck_of_def w_at_Some)
    have "marker_ok cfg des" using ar by simp
    from classify_at_rest [OF this] obtain side where
      c: "classify_dir_stub cfg (gdir_of (WDir des ddst)) (join_rel pre l) side_default = Inr (case own_stub cfg des of Some r \<Rightarrow> FullStub r | None \<Rightarrow> NoStub, side)" by blast
    show ?thesis using s c rc i m(1)
      by (cases "own_stub cfg des")
        (simp_all add: m(2) scan_subdir.simps open_subdir_gdir_of dir_image_def subdir_entry_def Let_def)
  qed
  have fj: "\<exists>scanned st'. process_file_job cfg ?d j st = Inr ((Some (file_image cfg es j), scanned, None), st') \<and> inv (ts_store st')"
    if j: "j \<in> set (lv_jobs lv0)" and i: "inv (ts_store st)" for j st
  proof -
    from j obtain x where x: "x \<in> set (items es)" "j \<in> set (jobs fs pre es x)" by (auto simp: n(5))
    obtain l real where lr: "x = (l, real)" by fastforce
    from x(2) obtain c cst where m: "map_of es l = Some (WFile c cst)" "j = job_of l (join_rel pre l) cst" "real \<noteq> None" "\<not> is_ignored fs (join_rel pre l)"
      by (auto simp: lr jobs_def split: if_splits option.splits wnode.splits dest: sym)
    have "at_rest cfg fs (join_rel pre l) (WFile c cst)"
      using items_ok [OF r x(1)] m by (auto simp: item_ok_def lr simp del: at_rest.simps split: option.splits)
    from job_at_rest [OF i ops sha cdc m(1) this] show ?thesis using m(1) by (simp add: m(2) file_image_def job_of_def)
  qed
  from subdirs_at_rest [where e = "dir_image cfg fs es", OF sub WDir.prems(3), of "lv_subdirs lv0" lv0] obtain lv1 st1 where
    b: "scan_subdirs cfg fs ?d (lv_subdirs lv0) lv0 st = Inr (lv1, st1)" "inv (ts_store st1)"
      "lv_entries lv1 = lv_entries lv0 @ map (dir_image cfg fs es) (lv_subdirs lv0)" "lv_jobs lv1 = lv_jobs lv0" by auto
  from jobs_at_rest [where e = "file_image cfg es", OF fj b(2), of "lv_jobs lv0" lv1] obtain lv2 st2 where
    c: "rfold (file_job_step cfg ?d) (lv_jobs lv1) (lv1, st1) = Inr (lv2, st2)" "inv (ts_store st2)"
      "lv_entries lv2 = lv_entries lv1 @ map (file_image cfg es) (lv_jobs lv0)" by (auto simp: b(4))
  have ms: "mset (lv_entries lv2) = mset (snapshot_of cfg fs pre (WDir es dst))"
    unfolding c(3) b(3) n(3-5) append_assoc mset_three_parts contribution_def [symmetric] image_contributions [OF dist]
    by (rule mset_concat_perm) simp
  have "distinct (map ename (snapshot_of cfg fs pre (WDir es dst)))"
    unfolding image_contributions [OF dist] using distinct_contributions [OF logical_names_items(2) [OF dist]] by blast
  note p = entries_perm(1) [OF ms [symmetric] this, of "sg_cx cfg"] entries_perm(2-4) [OF ms [symmetric] this]
  from level_tree_total [OF c(2) ops sha, of lv2] obtain st3 where
    t: "level_tree cfg lv2 st2 = Inr (\<lparr>ds_hash = tree_hash (sg_cx cfg) (lv_entries lv2), ds_mtime = aggregate_mtime (lv_entries lv2),
      ds_size = aggregate_size (lv_entries lv2), ds_blob_count = aggregate_blob_count (lv_entries lv2), ds_files = lv_files lv2,
      ds_side = lv_side lv2, ds_vanished = False\<rparr>, st3)" "inv (ts_store st3)" by blast
  have "finish_level cfg ?d pre rc raws (lv2, st2) = level_tree cfg lv2 st2"
    using WDir.prems(4) dd by (auto simp: finish_level_def reappeared_at_rest [OF n(2) valid] Let_def same_object_def)
  with n(1) b(1) c(1) t have "scan_dir cfg fs ?d pre rc st = Inr (\<lparr>ds_hash = tree_hash (sg_cx cfg) (lv_entries lv2), ds_mtime = aggregate_mtime (lv_entries lv2),
      ds_size = aggregate_size (lv_entries lv2), ds_blob_count = aggregate_blob_count (lv_entries lv2), ds_files = lv_files lv2,
      ds_side = lv_side lv2, ds_vanished = False\<rparr>, st3)" by (simp add: scan_dir.simps)
  with t(2) p show ?case by (simp add: dir_entry_def)
qed simp_all

end

section \<open>The snapshot of a working tree\<close>

lemma write_irrelevant [simp]:
  "previous_entry (cfg\<lparr>sg_write := b\<rparr>) = previous_entry cfg"
  "system_time_to_datetime (cfg\<lparr>sg_write := b\<rparr>) = system_time_to_datetime cfg"
  "marker_record (cfg\<lparr>sg_write := b\<rparr>) = marker_record cfg"
  by (cases cfg; intro ext; simp only: previous_entry_def system_time_to_datetime_def marker_record_def scan_cfg.update_convs scan_cfg.select_convs)+

lemma write_irrelevant_hints [simp]:
  "can_skip_hash (cfg\<lparr>sg_write := b\<rparr>) = can_skip_hash cfg" "own_stub (cfg\<lparr>sg_write := b\<rparr>) = own_stub cfg"
  "marker_ok (cfg\<lparr>sg_write := b\<rparr>) = marker_ok cfg" "file_entry (cfg\<lparr>sg_write := b\<rparr>) = file_entry cfg"
  by (intro ext; simp only: can_skip_hash_def own_stub_def marker_ok_def file_entry_def write_irrelevant; simp)+

lemma write_irrelevant_hints_ok [simp]: "hints_ok (cfg\<lparr>sg_write := b\<rparr>) = hints_ok cfg"
proof -
  have "sg_cx (cfg\<lparr>sg_write := b\<rparr>) = sg_cx cfg" "sg_cache (cfg\<lparr>sg_write := b\<rparr>) = sg_cache cfg" "sg_now (cfg\<lparr>sg_write := b\<rparr>) = sg_now cfg"
    by simp_all
  then show ?thesis by (intro ext) (simp only: hints_ok_def write_irrelevant write_irrelevant_hints)
qed

lemma at_rest_write: "at_rest (cfg\<lparr>sg_write := b\<rparr>) fs pre w = at_rest cfg fs pre w"
proof (induction cfg fs pre w rule: at_rest.induct)
  case (1 cfg fs pre es st)
  note ih = 1
  show ?case unfolding at_rest.simps write_irrelevant write_irrelevant_hints
  proof (intro conj_cong ball_cong refl)
    fix e assume e: "e \<in> set es"
    obtain n w where nw: "e = (n, w)" by fastforce
    have at: "at_rest (cfg\<lparr>sg_write := b\<rparr>) fs (join_rel pre l) w = at_rest cfg fs (join_rel pre l) w"
      if "stands_for (fst ` set es) n = Some (l, True)" "\<not> is_ignored fs (join_rel pre l)" for l
      using ih [OF e, of n w] that nw by simp
    show "(case e of (n, w) \<Rightarrow> case stands_for (fst ` set es) n of None \<Rightarrow> True
        | Some (l, real) \<Rightarrow> is_ignored fs (join_rel pre l) \<or>
            (if real then at_rest (cfg\<lparr>sg_write := b\<rparr>) fs (join_rel pre l) w else marker_record cfg w \<noteq> None)) =
      (case e of (n, w) \<Rightarrow> case stands_for (fst ` set es) n of None \<Rightarrow> True
        | Some (l, real) \<Rightarrow> is_ignored fs (join_rel pre l) \<or>
            (if real then at_rest cfg fs (join_rel pre l) w else marker_record cfg w \<noteq> None))"
    proof (cases "stands_for (fst ` set es) n")
      case (Some lr)
      obtain l real where lr: "lr = (l, real)" by fastforce
      from Some lr at [of l] show ?thesis by (cases real; cases "is_ignored fs (join_rel pre l)") (simp_all add: nw)
    qed (simp add: nw)
  qed
qed simp_all

lemma snapshot_of_write: "snapshot_of (cfg\<lparr>sg_write := b\<rparr>) fs pre w = snapshot_of cfg fs pre w"
proof (induction cfg fs pre w rule: snapshot_of.induct)
  case (1 cfg fs pre es st)
  then show ?case
    unfolding snapshot_of.simps
    by (intro arg_cong [where f = concat] map_cong refl) (auto split: option.splits wnode.splits)
qed (simp_all add: snapshot_of.simps)

text \<open>The stat cache decides which files are read, never what the snapshot says of them.\<close>

lemma cache_irrelevant [simp]:
  "system_time_to_datetime (cfg\<lparr>sg_cache := c\<rparr>) = system_time_to_datetime cfg"
  "marker_record (cfg\<lparr>sg_cache := c\<rparr>) = marker_record cfg"
  by (cases cfg; intro ext; simp only: system_time_to_datetime_def marker_record_def scan_cfg.update_convs scan_cfg.select_convs)+

lemma cache_irrelevant_entries [simp]:
  "own_stub (cfg\<lparr>sg_cache := c\<rparr>) = own_stub cfg" "file_entry (cfg\<lparr>sg_cache := c\<rparr>) = file_entry cfg"
  by (intro ext; simp only: own_stub_def file_entry_def cache_irrelevant; simp)+


text \<open>The result of a scan of a tree at rest.\<close>

lemma scan_impl_at_rest:
  assumes "tc_ops (sg_cx cfg) = local_store hmac None" and "digest32 (sha (tc_env (sg_cx cfg)))" and "cdc_ok (sg_scdc cfg)"
    and "backend_ok (ts_store st)"
    and "recorded_names_ok cfg"
    and "pre = trim_matches CHR ''/'' rel" and "fs = filter_load_scoped work_dir pre"
    and "at_rest cfg fs pre (WDir es dst)"
  shows "\<exists>res st'. scan_impl (cfg\<lparr>sg_write := wr\<rparr>) work_dir (Some rel) (Inr (gdir_of (WDir es dst))) (Inr (Some dst)) st = Inr (res, st') \<and>
    backend_ok (ts_store st') \<and>
    root_hash res = (case own_stub cfg es of Some r \<Rightarrow> sr_hash r | None \<Rightarrow> tree_hash (sg_cx cfg) (snapshot_of cfg fs pre (WDir es dst)))"
proof -
  let ?cfg = "cfg\<lparr>sg_write := wr\<rparr>" and ?d = "gdir_of (WDir es dst)"
  have ar: "at_rest ?cfg fs pre (WDir es dst)" using assms(8) by (simp only: at_rest_write)
  have c: "tc_ops (sg_cx ?cfg) = local_store hmac None" "digest32 (sha (tc_env (sg_cx ?cfg)))" "cdc_ok (sg_scdc ?cfg)" using assms(1-3) by simp_all
  have v: "recorded_names_ok ?cfg" using assms(5) by (simp add: recorded_names_ok_def)
  have "(if pre = [] then None else Some (Inr (Some dst))) = None \<or>
    (if pre = [] then None else Some (Inr (Some dst) :: entry_stat option result)) = Some (Inr (Some dst))" by simp
  from store_laws.dir_at_rest [OF local_trees_laws c v ar refl assms(4) this, where name = "[]"] obtain ds st' where
    s: "scan_dir ?cfg fs ?d pre (if pre = [] then None else Some (Inr (Some dst))) st = Inr (ds, st')" "backend_ok (ts_store st')" "\<not> ds_vanished ds"
      "ds_hash ds = tree_hash (sg_cx cfg) (snapshot_of cfg fs pre (WDir es dst))" by (auto simp: dir_entry_def snapshot_of_write)
  have "marker_ok ?cfg es" using ar by simp
  from classify_at_rest [OF this, of dst pre "ds_side ds"] obtain side where
    k: "classify_dir_stub ?cfg ?d pre (ds_side ds) = Inr (case own_stub cfg es of Some r \<Rightarrow> FullStub r | None \<Rightarrow> NoStub, side)" by auto
  show ?thesis using s k assms(6,7) by (cases "own_stub cfg es") (simp_all add: scan_impl_def Let_def)
qed


definition toy_dir_stat :: entry_stat where
  "toy_dir_stat = \<lparr>es_mode = 0x4000, es_size = 0, es_dev = 1, es_ino = 2, es_mtime_sec = 0, es_mtime_nsec = 0\<rparr>"


section \<open>Names of the snapshot\<close>

text \<open>A name as the operating system allows it.\<close>

definition os_name :: "string \<Rightarrow> bool" where
  "os_name n \<longleftrightarrow> n \<noteq> [] \<and> n \<noteq> ''.'' \<and> n \<noteq> ''..'' \<and> CHR ''/'' \<notin> set n \<and> CHR 0x00 \<notin> set n"

text \<open>The markers that stand for a file that is not there itself have names that a tree may hold.\<close>

definition stub_names_valid :: "filter_set \<Rightarrow> string \<Rightarrow> (string \<times> wnode) list \<Rightarrow> bool" where
  "stub_names_valid fs pre es \<longleftrightarrow>
     list_all (\<lambda>(n, w). case stands_for (fst ` set es) n of
        Some (l, False) \<Rightarrow> is_ignored fs (join_rel pre l) \<or> validate_entry_name l = Inr () | _ \<Rightarrow> True) es"

lemma real_name_valid:
  assumes "stands_for names n = Some (n, True)" "os_name n"
  shows "validate_entry_name n = Inr ()"
proof -
  from assms(1) have k: "kept n" "logical_name n = None" by (auto simp: stands_for_def split: if_splits option.splits)
  then have "\<not> is_stub_filename n" by (simp add: logical_name_def is_stub_filename_def strip_suffix_def split: if_splits)
  with k(1) have "n = ''.omemfs-filter'' \<or> \<not> is_reserved_name n"
    by (auto simp: kept_def is_unknown_reserved_name_def is_known_reserved_name_def)
  with k(1) assms(2) show ?thesis by (auto simp: validate_entry_name_def os_name_def is_metadata_dir_name_def kept_def)
qed

lemma snapshot_of_names:
  assumes "at_rest cfg fs pre (WDir es dst)"
  shows "l \<in> ename ` set (snapshot_of cfg fs pre (WDir es dst)) \<longleftrightarrow>
    (\<exists>n w real. (n, w) \<in> set es \<and> stands_for (fst ` set es) n = Some (l, real) \<and> \<not> is_ignored fs (join_rel pre l) \<and>
      (real \<longrightarrow> wkind w \<noteq> KOther))"
proof -
  let ?f = "\<lambda>(n, w). case stands_for (fst ` set es) n of
         None \<Rightarrow> []
       | Some (l, real) \<Rightarrow>
           if is_ignored fs (join_rel pre l) then []
           else if \<not> real then (case marker_record cfg w of None \<Rightarrow> [] | Some r \<Rightarrow> [blob_of_stub l r])
           else (case w of
                   WFile c cst \<Rightarrow> [file_entry cfg l (join_rel pre l) c cst]
                 | WDir des _ \<Rightarrow>
                     (case own_stub cfg des of
                        None \<Rightarrow> [dir_entry (sg_cx cfg) l (snapshot_of cfg fs (join_rel pre l) w)]
                      | Some r \<Rightarrow> [stub_tree_entry l r])
                 | WLink t lst \<Rightarrow> [Symlink l t (system_time_to_datetime cfg (modified lst))]
                 | WOther _ \<Rightarrow> [])"
  have step: "l \<in> ename ` set (?f (n, w)) \<longleftrightarrow>
      (\<exists>real. stands_for (fst ` set es) n = Some (l, real) \<and> \<not> is_ignored fs (join_rel pre l) \<and> (real \<longrightarrow> wkind w \<noteq> KOther))"
    if "(n, w) \<in> set es" for n w
  proof (cases "stands_for (fst ` set es) n")
    case (Some lr)
    obtain l' real where lr: "lr = (l', real)" by fastforce
    have ok: "is_ignored fs (join_rel pre l') \<or> real \<or> marker_record cfg w \<noteq> None" using assms that Some lr by fastforce
    have names: "ename ` set (?f (n, w)) = (if is_ignored fs (join_rel pre l') \<or> \<not> real \<and> marker_record cfg w = None \<or> real \<and> wkind w = KOther then {} else {l'})"
      unfolding prod.case Some lr option.case
      by (cases "marker_record cfg w"; cases w) (simp_all add: file_entry_def dir_entry_def stub_tree_entry_def blob_of_stub_def Let_def split: option.split)
    show ?thesis unfolding names using ok Some lr by auto
  qed simp
  have "l \<in> ename ` set (snapshot_of cfg fs pre (WDir es dst)) \<longleftrightarrow> (\<exists>n w. (n, w) \<in> set es \<and> l \<in> ename ` set (?f (n, w)))"
    unfolding snapshot_of.simps by (simp add: Bex_def image_UN)
  also have "\<dots> \<longleftrightarrow> (\<exists>n w. (n, w) \<in> set es \<and> (\<exists>real. stands_for (fst ` set es) n = Some (l, real) \<and> \<not> is_ignored fs (join_rel pre l) \<and>
      (real \<longrightarrow> wkind w \<noteq> KOther)))"
    using step by (intro ex_cong1 conj_cong refl)
  finally show ?thesis by blast
qed

lemma snapshot_names_valid:
  assumes "at_rest cfg fs pre (WDir es dst)" "\<forall>n \<in> fst ` set es. os_name n"
  shows "(\<forall>e \<in> set (snapshot_of cfg fs pre (WDir es dst)). validate_entry_name (ename e) = Inr ()) \<longleftrightarrow> stub_names_valid fs pre es"
proof -
  let ?V = "\<lambda>l. validate_entry_name l = Inr ()"
  have "(\<forall>e \<in> set (snapshot_of cfg fs pre (WDir es dst)). ?V (ename e)) \<longleftrightarrow> (\<forall>l \<in> ename ` set (snapshot_of cfg fs pre (WDir es dst)). ?V l)" by simp
  also have "\<dots> \<longleftrightarrow> (\<forall>n w l real. (n, w) \<in> set es \<longrightarrow> stands_for (fst ` set es) n = Some (l, real) \<longrightarrow> \<not> is_ignored fs (join_rel pre l) \<longrightarrow>
      (real \<longrightarrow> wkind w \<noteq> KOther) \<longrightarrow> ?V l)"
    unfolding Ball_def snapshot_of_names [OF assms(1)] by blast
  also have "\<dots> \<longleftrightarrow> (\<forall>n w l. (n, w) \<in> set es \<longrightarrow> stands_for (fst ` set es) n = Some (l, False) \<longrightarrow> \<not> is_ignored fs (join_rel pre l) \<longrightarrow> ?V l)"
  proof -
    have "?V l" if "(n, w) \<in> set es" "stands_for (fst ` set es) n = Some (l, True)" for n w l
    proof -
      from that(2) have "l = n" by (auto simp: stands_for_def split: if_splits option.splits)
      with that assms(2) show ?thesis using real_name_valid [of "fst ` set es" n] by force
    qed
    then show ?thesis by (metis (full_types))
  qed
  also have "\<dots> \<longleftrightarrow> stub_names_valid fs pre es"
    by (auto simp: stub_names_valid_def list_all_iff split: option.split bool.split) blast
  finally show ?thesis .
qed

text \<open>C25: the trees a scan of a tree at rest writes are accepted by every reader exactly if the
  markers of absent files have names that a tree may hold. Names of files, directories and
  links need no such condition: the scan leaves out the metadata directory and the reserved
  names. The name of a marker without its suffix is not tested, so that a marker such as
  \<open>.omemfs.omemfs-stub\<close> puts an entry into the tree that \<open>validate_entry_name\<close> rejects.\<close>

theorem scan_names_accepted:
  assumes "tc_ops (sg_cx cfg) = local_store hmac None" and "digest32 (sha (tc_env (sg_cx cfg)))" and "cdc_ok (sg_scdc cfg)"
    and "backend_ok (ts_store st)" and "recorded_names_ok cfg"
    and "pre = trim_matches CHR ''/'' rel" and "fs = filter_load_scoped work_dir pre"
    and "at_rest cfg fs pre (WDir es dst)" and "\<forall>n \<in> fst ` set es. os_name n" and "own_stub cfg es = None"
  shows "\<exists>res st' entries. scan_impl (cfg\<lparr>sg_write := wr\<rparr>) work_dir (Some rel) (Inr (gdir_of (WDir es dst))) (Inr (Some dst)) st = Inr (res, st') \<and>
    root_hash res = tree_hash (sg_cx cfg) entries \<and>
    ((\<forall>e \<in> set entries. validate_entry_name (ename e) = Inr ()) \<longleftrightarrow> stub_names_valid fs pre es)"
proof -
  note v = snapshot_names_valid [OF assms(8) assms(9)]
  show ?thesis using scan_impl_at_rest [OF assms(1-8), of wr] v assms(10) by auto
qed

definition toy_marker_cfg :: "objects_backend scan_cfg" where
  "toy_marker_cfg = toy_cfg\<lparr>sg_clone := None, sg_parse := (\<lambda>_. Some (blob_record toy_tree_hash 0 None None))\<rparr>"

theorem scan_names_accepted_witness:
  "\<exists>res st' entries e. scan_impl (toy_marker_cfg\<lparr>sg_write := True\<rparr>) (FsDir []) (Some [])
      (Inr (gdir_of (WDir [(''.omemfs.omemfs-stub'', WFile [] toy_stat)] toy_dir_stat))) (Inr (Some toy_dir_stat)) toy_tree_state = Inr (res, st') \<and>
    root_hash res = tree_hash toy_trees entries \<and> e \<in> set entries \<and> validate_entry_name (ename e) \<noteq> Inr ()"
proof -
  let ?es = "[(''.omemfs.omemfs-stub'', WFile [] toy_stat)]"
  have k: "stands_for {''.omemfs.omemfs-stub''} ''.omemfs.omemfs-stub'' = Some (''.omemfs'', False)" by code_simp
  have c: "tc_ops (sg_cx toy_marker_cfg) = local_store toy_hmac None" "digest32 (sha (tc_env (sg_cx toy_marker_cfg)))" "cdc_ok (sg_scdc toy_marker_cfg)"
    using toy_env_ok toy_local toy_cdc_ok by (simp_all add: toy_marker_cfg_def toy_cfg_def toy_trees_def local_trees_def)
  have i: "backend_ok (ts_store toy_tree_state)" by (simp add: toy_tree_state_def)
  have r: "recorded_names_ok toy_marker_cfg" by (simp add: recorded_names_ok_def toy_marker_cfg_def)
  have t: "[] = trim_matches CHR ''/'' []" by code_simp
  have f: "[] = filter_load_scoped (FsDir []) []" by code_simp
  have "from_utf8 [] \<noteq> None" by code_simp
  then have m: "marker_record toy_marker_cfg (WFile [] toy_stat) \<noteq> None"
    by (auto simp: marker_record_def w_text_def toy_marker_cfg_def ok_or_def)
  have d: "map_of ?es DIR_STUB_NAME = None" by (simp add: DIR_STUB_NAME_def)
  then have ar: "at_rest toy_marker_cfg [] [] (WDir ?es toy_dir_stat)"
    using k m by (simp add: toy_dir_stat_def is_dir_def file_type_def marker_ok_def)
  have o: "own_stub toy_marker_cfg ?es = None" using d by (simp add: own_stub_def)
  have n: "\<forall>n \<in> fst ` set ?es. os_name n" by (simp add: os_name_def)
  have "\<not> is_ignored [] (join_rel [] ''.omemfs'')" by (simp add: is_ignored_def filter_test_def)
  moreover have "validate_entry_name ''.omemfs'' \<noteq> Inr ()" by code_simp
  ultimately have "\<not> stub_names_valid [] [] ?es" using k by (simp add: stub_names_valid_def)
  moreover have "sg_cx toy_marker_cfg = toy_trees" by (simp add: toy_marker_cfg_def toy_cfg_def)
  ultimately show ?thesis using scan_names_accepted [OF c i r t f ar n o, of True] by auto
qed

end
