(* ===== verification/ParallelBfs.thy ===== *)
theory ParallelBfs
  imports Prelude
begin

text \<open>
  The parallel graph walk of \<open>src/src/commands/transfer.rs\<close>: the state shared by the
  workers, the loops \<open>worker_loop\<close> and \<open>child_worker_loop\<close> cut at every access to
  shared state, and their interleavings. A worker is blocked while another holds the mutex
  of the queue and while it waits on the condition variable; a notification wakes every
  worker that waits at that moment. The walk calls a node function on a shared state, which
  is one step here.
\<close>

section \<open>Workers\<close>

text \<open>The places at which a worker can be, named after what it does next. From
  \<open>CheckFailed\<close> to \<open>WaitReady\<close> it holds the mutex of the queue.\<close>

datatype 'h pc =
    Acquire | CheckFailed | Pop | CheckOutstanding | WaitReady | Waiting | Woken
  | Claim 'h | Process 'h | AddOutstanding "'h list" | Publish "'h list" | NotifyWork
  | Decrement | NotifyZero
  | RecordError error | SetFailed | FailNotify | FailDecrement | FailNotifyZero
  | Returned

record ('h, 's) shared =
  queue :: "'h list"
  visited :: "'h list"
  outstanding :: nat
  failed :: bool
  err :: "error option"
  lock :: "nat option"
  pcs :: "'h pc list"
  store :: 's

type_synonym ('h, 's) node_fn = "'h \<Rightarrow> 's \<Rightarrow> 'h list result \<times> 's"

definition bfs_init :: "'h list \<Rightarrow> nat \<Rightarrow> 's \<Rightarrow> ('h, 's) shared" where
  "bfs_init roots workers s =
     \<lparr>queue = roots, visited = [], outstanding = length roots, failed = False, err = None,
      lock = None, pcs = replicate workers Acquire, store = s\<rparr>"

definition set_pc :: "nat \<Rightarrow> 'h pc \<Rightarrow> ('h, 's) shared \<Rightarrow> ('h, 's) shared" where
  "set_pc i p w = w\<lparr>pcs := (pcs w)[i := p]\<rparr>"

definition wake :: "'h pc \<Rightarrow> 'h pc" where
  "wake p = (if p = Waiting then Woken else p)"

definition notify_all :: "('h, 's) shared \<Rightarrow> ('h, 's) shared" where
  "notify_all w = w\<lparr>pcs := map wake (pcs w)\<rparr>"

text \<open>One step of worker \<open>i\<close>, \<open>None\<close> if it is blocked or has returned. With \<open>child\<close>
  it is the loop of \<open>parallel_walk\<close>, which returns without a notification and does not
  count a failed item.\<close>

definition worker_step ::
    "bool \<Rightarrow> ('h, 's) node_fn \<Rightarrow> nat \<Rightarrow> ('h, 's) shared \<Rightarrow> ('h, 's) shared option" where
  "worker_step child node i w =
     (if length (pcs w) \<le> i then None
      else case pcs w ! i of
        Acquire \<Rightarrow> if lock w = None then Some (set_pc i CheckFailed (w\<lparr>lock := Some i\<rparr>)) else None
      | CheckFailed \<Rightarrow> Some (if failed w then set_pc i Returned (w\<lparr>lock := None\<rparr>) else set_pc i Pop w)
      | Pop \<Rightarrow> Some (case queue w of
                       h # q \<Rightarrow> set_pc i (Claim h) (w\<lparr>queue := q, lock := None\<rparr>)
                     | [] \<Rightarrow> set_pc i CheckOutstanding w)
      | CheckOutstanding \<Rightarrow>
          Some (if outstanding w = 0
                then set_pc i Returned ((if child then w else notify_all w)\<lparr>lock := None\<rparr>)
                else set_pc i WaitReady w)
      | WaitReady \<Rightarrow> Some (set_pc i Waiting (w\<lparr>lock := None\<rparr>))
      | Waiting \<Rightarrow> None
      | Woken \<Rightarrow> if lock w = None then Some (set_pc i CheckFailed (w\<lparr>lock := Some i\<rparr>)) else None
      | Claim h \<Rightarrow>
          Some (if h \<in> set (visited w) then set_pc i Decrement w
                else set_pc i (Process h) (w\<lparr>visited := h # visited w\<rparr>))
      | Process h \<Rightarrow>
          Some (case node h (store w) of
                  (Inr cs, s) \<Rightarrow> set_pc i (if cs = [] then Decrement else AddOutstanding cs) (w\<lparr>store := s\<rparr>)
                | (Inl e, s) \<Rightarrow> set_pc i (RecordError e) (w\<lparr>store := s\<rparr>))
      | AddOutstanding cs \<Rightarrow> Some (set_pc i (Publish cs) (w\<lparr>outstanding := outstanding w + length cs\<rparr>))
      | Publish cs \<Rightarrow> if lock w = None then Some (set_pc i NotifyWork (w\<lparr>queue := queue w @ cs\<rparr>)) else None
      | NotifyWork \<Rightarrow> Some (set_pc i Decrement (notify_all w))
      | Decrement \<Rightarrow>
          Some (set_pc i (if outstanding w = 1 then NotifyZero else Acquire) (w\<lparr>outstanding := outstanding w - 1\<rparr>))
      | NotifyZero \<Rightarrow> Some (set_pc i Acquire (notify_all w))
      | RecordError e \<Rightarrow> Some (set_pc i SetFailed (w\<lparr>err := (if err w = None then Some e else err w)\<rparr>))
      | SetFailed \<Rightarrow> Some (set_pc i FailNotify (w\<lparr>failed := True\<rparr>))
      | FailNotify \<Rightarrow> Some (set_pc i (if child then Returned else FailDecrement) (notify_all w))
      | FailDecrement \<Rightarrow>
          Some (set_pc i (if outstanding w = 1 then FailNotifyZero else Returned) (w\<lparr>outstanding := outstanding w - 1\<rparr>))
      | FailNotifyZero \<Rightarrow> Some (set_pc i Returned (notify_all w))
      | Returned \<Rightarrow> None)"

text \<open>The runs of a walk: any worker may do its next step, and a waiting worker may wake up
  without a notification.\<close>

inductive bfs_run :: "bool \<Rightarrow> ('h, 's) node_fn \<Rightarrow> 'h list \<Rightarrow> nat \<Rightarrow> 's \<Rightarrow> ('h, 's) shared \<Rightarrow> bool"
  for child node roots workers s0 where
    start: "bfs_run child node roots workers s0 (bfs_init roots workers s0)"
  | step: "bfs_run child node roots workers s0 w \<Longrightarrow> worker_step child node i w = Some w' \<Longrightarrow>
      bfs_run child node roots workers s0 w'"
  | spurious: "bfs_run child node roots workers s0 w \<Longrightarrow> i < length (pcs w) \<Longrightarrow> pcs w ! i = Waiting \<Longrightarrow>
      bfs_run child node roots workers s0 (set_pc i Woken w)"

text \<open>\<open>n\<close> program steps in a row.\<close>

inductive bfs_steps :: "bool \<Rightarrow> ('h, 's) node_fn \<Rightarrow> nat \<Rightarrow> ('h, 's) shared \<Rightarrow> ('h, 's) shared \<Rightarrow> bool"
  for child node where
    none: "bfs_steps child node 0 w w"
  | more: "worker_step child node i w = Some w' \<Longrightarrow> bfs_steps child node n w' w'' \<Longrightarrow> bfs_steps child node (Suc n) w w''"

definition blocked :: "bool \<Rightarrow> ('h, 's) node_fn \<Rightarrow> ('h, 's) shared \<Rightarrow> bool" where
  "blocked child node w \<longleftrightarrow> (\<forall>i < length (pcs w). worker_step child node i w = None)"

definition all_returned :: "('h, 's) shared \<Rightarrow> bool" where
  "all_returned w \<longleftrightarrow> list_all (\<lambda>p. p = Returned) (pcs w)"

section \<open>Lost wake-ups\<close>

fun run_schedule :: "bool \<Rightarrow> ('h, 's) node_fn \<Rightarrow> nat list \<Rightarrow> ('h, 's) shared \<Rightarrow> ('h, 's) shared option" where
  "run_schedule child node [] w = Some w"
| "run_schedule child node (i # is) w = Option.bind (worker_step child node i w) (run_schedule child node is)"

lemma run_schedule_run:
  "bfs_run child node roots workers s0 w \<Longrightarrow> run_schedule child node is w = Some w' \<Longrightarrow> bfs_run child node roots workers s0 w'"
  by (induction "is" arbitrary: w) (auto simp: bind_eq_Some_conv intro: bfs_run.step)

text \<open>C40: the condition variable is notified without the mutex of the queue, so a notification
  can fall between the test of a worker and its wait. Two workers on one root: when the
  item fails, the walk of \<open>parallel_bfs\<close> can reach a state in which one worker has
  returned and the other waits for ever; in \<open>parallel_walk\<close>, whose workers return without
  a notification, the same can happen although every item succeeds.\<close>

theorem lost_wakeup:
  "(\<exists>w. bfs_run False (\<lambda>h s. (Inl (Io ''read''), s)) [0::nat] 2 () w \<and>
      blocked False (\<lambda>h s. (Inl (Io ''read''), s)) w \<and> pcs w = [Returned, Waiting]) \<and>
   (\<exists>w. bfs_run True (\<lambda>h s. (Inr [], s)) [0::nat] 2 () w \<and>
      blocked True (\<lambda>h s. (Inr [], s)) w \<and> pcs w = [Returned, Waiting] \<and> err w = None)"
proof -
  let ?f = "\<lambda>(h :: nat) s. (Inl (Io ''read'') :: nat list result, s)" and ?g = "\<lambda>(h :: nat) s. (Inr [] :: nat list result, s)"
  let ?a = "[0, 0, 0, 1, 1, 1, 1, 0, 0, 0, 0, 0, 0, 0, 1] :: nat list"
  let ?b = "[0, 0, 0, 1, 1, 1, 1, 0, 0, 0, 0, 1, 0, 0, 0, 0] :: nat list"
  obtain w1 where 1: "run_schedule False ?f ?a (bfs_init [0] 2 ()) = Some w1" "pcs w1 = [Returned, Waiting]"
    by (simp add: worker_step_def bfs_init_def set_pc_def notify_all_def wake_def numeral_2_eq_2)
  obtain w2 where 2: "run_schedule True ?g ?b (bfs_init [0] 2 ()) = Some w2" "pcs w2 = [Returned, Waiting]" "err w2 = None"
    by (simp add: worker_step_def bfs_init_def set_pc_def notify_all_def wake_def numeral_2_eq_2)
  have "blocked c n w" if "pcs w = [Returned, Waiting]" for c n and w :: "(nat, unit) shared"
    using that by (auto simp: blocked_def worker_step_def less_Suc_eq)
  with 1 2 run_schedule_run [OF bfs_run.start 1(1)] run_schedule_run [OF bfs_run.start 2(1)] show ?thesis by blast
qed

section \<open>The state of a walk that does not fail\<close>

fun load :: "'h pc \<Rightarrow> nat" where
  "load (Claim h) = 1"
| "load (Process h) = 1"
| "load (AddOutstanding cs) = 1"
| "load (Publish cs) = 1 + length cs"
| "load NotifyWork = 1"
| "load Decrement = 1"
| "load _ = 0"

fun holding :: "'h pc \<Rightarrow> bool" where
  "holding CheckFailed = True"
| "holding Pop = True"
| "holding CheckOutstanding = True"
| "holding WaitReady = True"
| "holding _ = False"

fun failing :: "'h pc \<Rightarrow> bool" where
  "failing (RecordError e) = True"
| "failing SetFailed = True"
| "failing FailNotify = True"
| "failing FailDecrement = True"
| "failing FailNotifyZero = True"
| "failing _ = False"

definition active :: "'h pc \<Rightarrow> bool" where
  "active p \<longleftrightarrow> p \<noteq> Waiting \<and> p \<noteq> Returned"

text \<open>The hashes a worker still has to hand over.\<close>

fun in_hand :: "'h pc \<Rightarrow> 'h list" where
  "in_hand (Claim h) = [h]"
| "in_hand (AddOutstanding cs) = cs"
| "in_hand (Publish cs) = cs"
| "in_hand _ = []"

definition seen :: "('h, 's) shared \<Rightarrow> 'h set" where
  "seen w = set (visited w) \<union> set (queue w) \<union> (\<Union>p \<in> set (pcs w). set (in_hand p))"

text \<open>The mutex and the counter.\<close>

definition sync_ok :: "('h, 's) shared \<Rightarrow> bool" where
  "sync_ok w \<longleftrightarrow> \<not> failed w \<and> err w = None \<and> (\<forall>p \<in> set (pcs w). \<not> failing p) \<and>
     outstanding w = length (queue w) + sum_list (map load (pcs w)) \<and>
     (\<forall>i < length (pcs w). holding (pcs w ! i) \<longleftrightarrow> lock w = Some i) \<and>
     (\<forall>i. lock w = Some i \<longrightarrow> i < length (pcs w)) \<and>
     (CheckOutstanding \<in> set (pcs w) \<or> WaitReady \<in> set (pcs w) \<longrightarrow> queue w = []) \<and>
     (Returned \<in> set (pcs w) \<longrightarrow> outstanding w = 0)"

text \<open>Somebody is left to wake those who wait.\<close>

definition watched :: "('h, 's) shared \<Rightarrow> bool" where
  "watched w \<longleftrightarrow> (Waiting \<in> set (pcs w) \<longrightarrow> (\<exists>p \<in> set (pcs w). active p)) \<and>
     (\<forall>i < length (pcs w). pcs w ! i = WaitReady \<longrightarrow> (\<exists>j < length (pcs w). j \<noteq> i \<and> active (pcs w ! j)))"

lemma wake_simps [simp]:
  "load (wake p) = load p" "holding (wake p) = holding p" "failing (wake p) = failing p" "in_hand (wake p) = in_hand p"
  "wake p = Returned \<longleftrightarrow> p = Returned" "wake p = CheckOutstanding \<longleftrightarrow> p = CheckOutstanding"
  "wake p = WaitReady \<longleftrightarrow> p = WaitReady" "wake p \<noteq> Waiting" "active p \<Longrightarrow> active (wake p)" "wake p = Process h \<longleftrightarrow> p = Process h"
  "Returned = wake p \<longleftrightarrow> p = Returned" "CheckOutstanding = wake p \<longleftrightarrow> p = CheckOutstanding" "WaitReady = wake p \<longleftrightarrow> p = WaitReady"
  by (auto simp: wake_def active_def)

lemma notify_simps [simp]:
  "queue (notify_all w) = queue w" "visited (notify_all w) = visited w" "outstanding (notify_all w) = outstanding w"
  "failed (notify_all w) = failed w" "err (notify_all w) = err w" "lock (notify_all w) = lock w" "store (notify_all w) = store w"
  "pcs (notify_all w) = map wake (pcs w)"
  by (simp_all add: notify_all_def)

lemma set_pc_simps [simp]:
  "queue (set_pc i p w) = queue w" "visited (set_pc i p w) = visited w" "outstanding (set_pc i p w) = outstanding w"
  "failed (set_pc i p w) = failed w" "err (set_pc i p w) = err w" "lock (set_pc i p w) = lock w" "store (set_pc i p w) = store w"
  "pcs (set_pc i p w) = (pcs w)[i := p]"
  by (simp_all add: set_pc_def)

lemma load_update:
  "i < length ps \<Longrightarrow> sum_list (map load (ps[i := p])) + load (ps ! i) = sum_list (map load ps) + load p"
  by (induction ps arbitrary: i) (auto split: nat.splits)

lemma load_le: "i < length ps \<Longrightarrow> load (ps ! i) \<le> sum_list (map load ps)"
  by (induction ps arbitrary: i) (auto simp: nth_Cons trans_le_add2 split: nat.splits)

lemma load_wake [simp]: "map (load \<circ> wake) ps = map load ps"
  by (induction ps) simp_all

lemma set_update_cases: "x \<in> set (ps[i := p]) \<Longrightarrow> x = p \<or> x \<in> set ps"
  using set_update_subset_insert [of ps i p] by auto

lemma load_zero: "sum_list (map load ps) = 0 \<Longrightarrow> p \<in> set ps \<Longrightarrow> load p = 0"
  by simp

text \<open>The cases of a step.\<close>

lemma worker_step_inv:
  assumes "worker_step child node i w = Some w'"
  shows "i < length (pcs w)"
  using assms by (auto simp: worker_step_def split: if_splits)

lemma init_ok: "sync_ok (bfs_init roots n s) \<and> watched (bfs_init roots n s)"
  by (auto simp: sync_ok_def watched_def bfs_init_def sum_list_replicate)

text \<open>One worker moves to \<open>p\<close>, others at most wake up.\<close>

definition moves :: "nat \<Rightarrow> 'h pc \<Rightarrow> bool \<Rightarrow> ('h, 's) shared \<Rightarrow> ('h, 's) shared \<Rightarrow> bool" where
  "moves i p notified w w' \<longleftrightarrow> i < length (pcs w) \<and>
     pcs w' = (if notified then map wake (pcs w) else pcs w)[i := p]"

lemma moves_other:
  assumes "moves i p notified w w'" "j < length (pcs w)" "j \<noteq> i"
  shows "pcs w' ! j = (if notified then wake (pcs w ! j) else pcs w ! j)"
  using assms by (auto simp: moves_def)

lemma moves_self: "moves i p notified w w' \<Longrightarrow> pcs w' ! i = p"
  by (auto simp: moves_def)

lemma moves_length: "moves i p notified w w' \<Longrightarrow> length (pcs w') = length (pcs w)"
  by (auto simp: moves_def)

lemma moves_load:
  assumes "moves i p notified w w'"
  shows "sum_list (map load (pcs w')) + load (pcs w ! i) = sum_list (map load (pcs w)) + load p"
  using assms load_update [of i "pcs w" p] load_update [of i "map wake (pcs w)" p] by (auto simp: moves_def)

lemma moves_mem:
  assumes "moves i p notified w w'" "q \<in> set (pcs w')" "q \<noteq> p"
  shows "\<exists>j < length (pcs w). j \<noteq> i \<and> q = (if notified then wake (pcs w ! j) else pcs w ! j)"
proof -
  from assms(2) obtain j where j: "j < length (pcs w')" "q = pcs w' ! j" by (auto simp: in_set_conv_nth)
  with assms moves_self [OF assms(1)] moves_length [OF assms(1)] moves_other [OF assms(1)] show ?thesis by metis
qed

lemma sync_move:
  assumes m: "moves i p notified w w'" and ok: "sync_ok w"
    and f: "failed w' = failed w" "err w' = err w" "\<not> failing p"
    and out: "outstanding w' + length (queue w) + load (pcs w ! i) = outstanding w + length (queue w') + load p"
    and l: "lock w' = (if holding p then Some i else if holding (pcs w ! i) then None else lock w)"
      "holding p \<Longrightarrow> holding (pcs w ! i) \<or> lock w = None"
    and q: "p = CheckOutstanding \<or> p = WaitReady \<Longrightarrow> queue w' = []" "queue w' = queue w \<or> lock w = None \<or> lock w = Some i"
    and r: "p = Returned \<Longrightarrow> outstanding w' = 0" "outstanding w = 0 \<Longrightarrow> outstanding w' = 0"
  shows "sync_ok w'"
proof -
  note o = moves_other [OF m] and s = moves_self [OF m] and n = moves_length [OF m]
  have i: "i < length (pcs w)" using m by (simp add: moves_def)
  have hold: "holding (pcs w ! j) \<longleftrightarrow> lock w = Some j" if "j < length (pcs w)" for j using ok that by (simp add: sync_ok_def)
  have mem: "q \<noteq> p \<Longrightarrow> q \<in> set (pcs w') \<Longrightarrow> \<exists>j < length (pcs w). j \<noteq> i \<and> q = (if notified then wake (pcs w ! j) else pcs w ! j)" for q
    using moves_mem [OF m] by blast
  have "\<not> failing q" if "q \<in> set (pcs w')" for q
    using mem [OF _ that] f(3) ok by (cases "q = p") (auto simp: sync_ok_def split: if_splits)
  moreover have "outstanding w' = length (queue w') + sum_list (map load (pcs w'))"
    using moves_load [OF m] out ok by (simp add: sync_ok_def)
  moreover have "holding (pcs w' ! j) \<longleftrightarrow> lock w' = Some j" if j: "j < length (pcs w')" for j
    using s o [of j] hold [of j] hold [OF i] l j n by (cases "j = i") auto
  moreover have "lock w' = Some j \<longrightarrow> j < length (pcs w')" for j using l(1) ok n i by (auto simp: sync_ok_def split: if_splits)
  moreover have "queue w' = []" if c: "CheckOutstanding \<in> set (pcs w') \<or> WaitReady \<in> set (pcs w')"
  proof (cases "p = CheckOutstanding \<or> p = WaitReady")
    case False
    with c mem obtain j where j: "j < length (pcs w)" "j \<noteq> i" "pcs w ! j = CheckOutstanding \<or> pcs w ! j = WaitReady"
      by (metis (full_types) wake_simps(12,13))
    then have "lock w = Some j" using hold by (metis holding.simps(3,4))
    moreover have "queue w = []" using ok j by (auto simp: sync_ok_def in_set_conv_nth)
    ultimately show ?thesis using q(2) j(2) by auto
  qed (rule q(1))
  moreover have "outstanding w' = 0" if c: "Returned \<in> set (pcs w')"
  proof (cases "p = Returned")
    case False
    with mem [OF _ c] obtain j where "j < length (pcs w)" "pcs w ! j = Returned" by (metis (full_types) wake_simps(11))
    then have "Returned \<in> set (pcs w)" by (metis nth_mem)
    with ok have "outstanding w = 0" unfolding sync_ok_def by blast
    then show ?thesis by (rule r(2))
  qed (rule r(1))
  ultimately show ?thesis using f ok unfolding sync_ok_def by auto
qed

lemma watch_move:
  assumes m: "moves i p notified w w'" and ok: "watched w" and s: "sync_ok w"
    and a: "active p \<or> notified \<and> p = Returned \<and> lock w = Some i \<or> p = Waiting \<and> pcs w ! i = WaitReady"
    and wr: "p = WaitReady \<Longrightarrow> \<exists>j < length (pcs w). j \<noteq> i \<and> active (pcs w ! j)"
  shows "watched w'"
proof -
  note o = moves_other [OF m] and self = moves_self [OF m] and n = moves_length [OF m]
  have i: "i < length (pcs w)" using m by (simp add: moves_def)
  have act: "active (pcs w' ! j)" if "active (pcs w ! j)" "j < length (pcs w)" "j \<noteq> i" for j using o that by simp
  have hold: "holding (pcs w ! j) \<longleftrightarrow> lock w = Some j" if "j < length (pcs w)" for j using s that by (simp add: sync_ok_def)
  have 1: "\<exists>q \<in> set (pcs w'). active q" if w: "Waiting \<in> set (pcs w')"
    using a
  proof (elim disjE conjE)
    assume "active p"
    then show ?thesis using self i n by (metis nth_mem)
  next
    assume r: "notified" "p = Returned"
    from w obtain j where j: "j < length (pcs w')" "pcs w' ! j = Waiting" by (auto simp: in_set_conv_nth)
    with r self have "j \<noteq> i" by auto
    with j o [of j] n r(1) show ?thesis by simp
  next
    assume "p = Waiting" "pcs w ! i = WaitReady"
    then obtain j where "j < length (pcs w)" "j \<noteq> i" "active (pcs w ! j)" using ok i by (auto simp: watched_def)
    then show ?thesis using act n by (metis nth_mem)
  qed
  have 2: "\<exists>j < length (pcs w'). j \<noteq> k \<and> active (pcs w' ! j)" if k: "k < length (pcs w')" "pcs w' ! k = WaitReady" for k
  proof (cases "k = i")
    case True
    with k self wr act n show ?thesis by metis
  next
    case False
    then have wk: "pcs w ! k = WaitReady" using o [of k] k n by (auto split: if_splits)
    then have "lock w = Some k" using hold [of k] k(1) n by simp
    with a False hold [OF i] have "active p" by auto
    then show ?thesis using self i n False by metis
  qed
  from 1 2 show ?thesis unfolding watched_def by blast
qed

text \<open>Every step of a walk that does not fail keeps both.\<close>

lemma step_ok:
  assumes st: "worker_step False node i w = Some w'" and ok: "sync_ok w" "watched w"
    and nf: "\<And>h e s. pcs w ! i = Process h \<Longrightarrow> node h (store w) \<noteq> (Inl e, s)"
  shows "sync_ok w' \<and> watched w'"
proof -
  let ?p = "pcs w ! i"
  have i: "i < length (pcs w)" by (rule worker_step_inv [OF st])
  have f: "\<not> failing ?p" "\<not> failed w" using ok(1) i by (auto simp: sync_ok_def)
  have hold: "holding ?p \<longleftrightarrow> lock w = Some i" using ok(1) i by (simp add: sync_ok_def)
  have le: "length (queue w) + load ?p \<le> outstanding w" using ok(1) load_le [OF i] by (simp add: sync_ok_def)
  have ce: "?p = CheckOutstanding \<or> ?p = WaitReady \<Longrightarrow> queue w = []" using ok(1) i by (metis sync_ok_def nth_mem)
  have busy: "\<exists>j < length (pcs w). j \<noteq> i \<and> active (pcs w ! j)" if "?p = CheckOutstanding" "outstanding w \<noteq> 0"
  proof -
    have "sum_list (map load (pcs w)) \<noteq> 0" using ok(1) ce that by (auto simp: sync_ok_def)
    then obtain j where j: "j < length (pcs w)" "load (pcs w ! j) \<noteq> 0" by (auto simp: in_set_conv_nth)
    then have "j \<noteq> i" "active (pcs w ! j)" using that(1) by (cases "pcs w ! j"; auto simp: active_def)+
    with j(1) show ?thesis by blast
  qed
  have go: "sync_ok w' \<and> watched w'" if m: "moves i p notified w w'"
    and "failed w' = failed w" "err w' = err w" "\<not> failing p"
      "outstanding w' + length (queue w) + load (pcs w ! i) = outstanding w + length (queue w') + load p"
      "lock w' = (if holding p then Some i else if holding (pcs w ! i) then None else lock w)"
      "holding p \<Longrightarrow> holding (pcs w ! i) \<or> lock w = None"
      "p = CheckOutstanding \<or> p = WaitReady \<Longrightarrow> queue w' = []" "queue w' = queue w \<or> lock w = None \<or> lock w = Some i"
      "p = Returned \<Longrightarrow> outstanding w' = 0" "outstanding w = 0 \<Longrightarrow> outstanding w' = 0"
      "active p \<or> notified \<and> p = Returned \<and> lock w = Some i \<or> p = Waiting \<and> pcs w ! i = WaitReady"
      "p = WaitReady \<Longrightarrow> \<exists>j < length (pcs w). j \<noteq> i \<and> active (pcs w ! j)" for p notified
    using sync_move [OF m ok(1)] watch_move [OF m ok(2,1)] that by blast
  show ?thesis
  proof (cases ?p)
    case Acquire
    then show ?thesis using st i
      by (intro go [of CheckFailed False]) (auto simp: worker_step_def moves_def active_def split: if_splits)
  next
    case CheckFailed
    then show ?thesis using st i f(2) hold
      by (intro go [of Pop False]) (auto simp: worker_step_def moves_def active_def)
  next
    case Pop
    show ?thesis
    proof (cases "queue w")
      case Nil
      then show ?thesis using Pop st i hold
        by (intro go [of CheckOutstanding False]) (auto simp: worker_step_def moves_def active_def)
    next
      case (Cons h q)
      then show ?thesis using Pop st i hold le
        by (intro go [of "Claim h" False]) (auto simp: worker_step_def moves_def active_def)
    qed
  next
    case CheckOutstanding
    show ?thesis
    proof (cases "outstanding w = 0")
      case True
      then show ?thesis using CheckOutstanding st i hold
        by (intro go [of Returned True]) (auto simp: worker_step_def moves_def active_def)
    next
      case False
      then show ?thesis using CheckOutstanding st i hold ce busy
        by (intro go [of WaitReady False]) (auto simp: worker_step_def moves_def active_def)
    qed
  next
    case WaitReady
    then show ?thesis using st i hold
      by (intro go [of Waiting False]) (auto simp: worker_step_def moves_def active_def)
  next
    case Woken
    then show ?thesis using st i
      by (intro go [of CheckFailed False]) (auto simp: worker_step_def moves_def active_def split: if_splits)
  next
    case (Claim h)
    then show ?thesis using st i hold
      by (intro go [of "if h \<in> set (visited w) then Decrement else Process h" False])
         (auto simp: worker_step_def moves_def active_def split: if_splits)
  next
    case (Process h)
    obtain cs s where "node h (store w) = (Inr cs, s)" using nf [OF Process] by (metis prod.exhaust sum.exhaust)
    then show ?thesis using Process st i hold
      by (intro go [of "if cs = [] then Decrement else AddOutstanding cs" False])
         (auto simp: worker_step_def moves_def active_def split: if_splits)
  next
    case (AddOutstanding cs)
    then show ?thesis using st i hold le
      by (intro go [of "Publish cs" False]) (auto simp: worker_step_def moves_def active_def)
  next
    case (Publish cs)
    then show ?thesis using st i hold le
      by (intro go [of NotifyWork False]) (auto simp: worker_step_def moves_def active_def split: if_splits)
  next
    case NotifyWork
    then show ?thesis using st i hold
      by (intro go [of Decrement True]) (auto simp: worker_step_def moves_def active_def)
  next
    case Decrement
    then show ?thesis using st i hold le
      by (intro go [of "if outstanding w = 1 then NotifyZero else Acquire" False])
         (auto simp: worker_step_def moves_def active_def split: if_splits)
  next
    case NotifyZero
    then show ?thesis using st i hold
      by (intro go [of Acquire True]) (auto simp: worker_step_def moves_def active_def)
  qed (use st i f in \<open>auto simp: worker_step_def\<close>)
qed

lemma spurious_ok:
  assumes "i < length (pcs w)" "pcs w ! i = Waiting" "sync_ok w" "watched w"
  shows "sync_ok (set_pc i Woken w) \<and> watched (set_pc i Woken w)"
proof -
  have m: "moves i Woken False w (set_pc i Woken w)" using assms(1) by (simp add: moves_def)
  have "holding (pcs w ! i) \<longleftrightarrow> lock w = Some i" using assms(1,3) by (simp add: sync_ok_def)
  then have l: "lock w \<noteq> Some i" using assms(2) by simp
  show ?thesis
    by (intro conjI sync_move [OF m assms(3)] watch_move [OF m assms(4,3)]) (use assms(2) l in \<open>auto simp: active_def\<close>)
qed

lemma worker_step_length: "worker_step child node i w = Some w' \<Longrightarrow> length (pcs w') = length (pcs w)"
  by (auto simp: worker_step_def split: if_splits pc.splits list.splits sum.splits prod.splits)

section \<open>Progress\<close>

text \<open>Without failures a state in which nobody can do a step is one in which all have returned.\<close>

lemma blocked_returned:
  assumes ok: "sync_ok w" "watched w" and b: "blocked False node w"
  shows "all_returned w"
proof -
  have none: "worker_step False node i w = None" if "i < length (pcs w)" for i using b that by (simp add: blocked_def)
  have hold: "holding (pcs w ! i) \<longleftrightarrow> lock w = Some i" if "i < length (pcs w)" for i using ok(1) that by (simp add: sync_ok_def)
  have "lock w = None"
  proof (rule ccontr)
    assume "lock w \<noteq> None"
    then obtain i where i: "lock w = Some i" "i < length (pcs w)" using ok(1) by (auto simp: sync_ok_def)
    with hold [OF i(2)] none [of i] show False by (cases "pcs w ! i") (auto simp: worker_step_def)
  qed
  then have wr: "pcs w ! i = Waiting \<or> pcs w ! i = Returned" if "i < length (pcs w)" for i
    using none [OF that] that by (cases "pcs w ! i") (auto simp: worker_step_def)
  then have "Waiting \<notin> set (pcs w)" using ok(2) by (metis active_def in_set_conv_nth watched_def)
  with wr show ?thesis unfolding all_returned_def list_all_iff by (metis in_set_conv_nth)
qed

section \<open>Walks over a graph\<close>

text \<open>What the walk relies on: on a hash reachable from the roots that is still fresh the node
  function succeeds and returns the children of the graph, keeps an invariant of the shared
  state, keeps every other hash fresh, and establishes a property of the hash that later
  calls keep. At the start every reachable hash is fresh.\<close>

inductive_set reach :: "('h \<Rightarrow> 'h list) \<Rightarrow> 'h list \<Rightarrow> 'h set" for kids roots where
    root: "h \<in> set roots \<Longrightarrow> h \<in> reach kids roots"
  | child: "h \<in> reach kids roots \<Longrightarrow> c \<in> set (kids h) \<Longrightarrow> c \<in> reach kids roots"

locale graph_walk =
  fixes node :: "('h, 's) node_fn" and kids :: "'h \<Rightarrow> 'h list" and roots :: "'h list"
    and good :: "'s \<Rightarrow> bool" and fresh got :: "'h \<Rightarrow> 's \<Rightarrow> bool"
  assumes node_ok: "good s \<Longrightarrow> h \<in> reach kids roots \<Longrightarrow> fresh h s \<Longrightarrow>
      \<exists>s'. node h s = (Inr (kids h), s') \<and> good s' \<and> got h s' \<and> (\<forall>h'. got h' s \<longrightarrow> got h' s') \<and>
        (\<forall>h'. h' \<noteq> h \<longrightarrow> fresh h' s \<longrightarrow> fresh h' s')"
    and finite_reach: "good s \<Longrightarrow> finite (reach kids roots)"
begin

definition cover_ok :: "('h, 's) shared \<Rightarrow> bool" where
  "cover_ok w \<longleftrightarrow> good (store w) \<and> seen w \<subseteq> reach kids roots \<and> set roots \<subseteq> seen w \<and> distinct (visited w) \<and>
     (\<forall>h \<in> set (visited w). Process h \<in> set (pcs w) \<or> set (kids h) \<subseteq> seen w \<and> got h (store w)) \<and>
     (\<forall>h. Process h \<in> set (pcs w) \<longrightarrow> h \<in> set (visited w)) \<and>
     (\<forall>h \<in> reach kids roots. h \<notin> set (visited w) \<or> Process h \<in> set (pcs w) \<longrightarrow> fresh h (store w)) \<and>
     (\<forall>i j h. i < length (pcs w) \<longrightarrow> j < length (pcs w) \<longrightarrow> pcs w ! i = Process h \<longrightarrow> pcs w ! j = Process h \<longrightarrow> i = j)"

definition can_start :: "'s \<Rightarrow> bool" where
  "can_start s \<longleftrightarrow> good s \<and> (\<forall>h \<in> reach kids roots. fresh h s)"

lemma can_startI: "good s \<Longrightarrow> (\<And>h. h \<in> reach kids roots \<Longrightarrow> fresh h s) \<Longrightarrow> can_start s"
  by (simp add: can_start_def)

lemma cover_init: "can_start s \<Longrightarrow> cover_ok (bfs_init roots n s)"
  by (auto simp: cover_ok_def can_start_def bfs_init_def seen_def nth_append intro: reach.root)

text \<open>A worker moves and hands over what it had in hand.\<close>

lemma cover_move:
  assumes m: "moves i p notified w w'" and ok: "cover_ok w"
    and s: "store w' = store w" and v: "visited w' = visited w" and np: "\<And>h. p \<noteq> Process h" "\<And>h. pcs w ! i \<noteq> Process h"
    and up: "set (in_hand (pcs w ! i)) \<union> set (queue w) \<subseteq> set (in_hand p) \<union> set (queue w') \<union> set (visited w')"
    and down: "set (in_hand p) \<union> set (queue w') \<subseteq> seen w"
  shows "cover_ok w'"
proof -
  note o = moves_other [OF m] and self = moves_self [OF m] and n = moves_length [OF m]
  have i: "i < length (pcs w)" using m by (simp add: moves_def)
  have hands: "(\<Union>q \<in> set (pcs w). set (in_hand q)) \<subseteq> (\<Union>q \<in> set (pcs w'). set (in_hand q)) \<union> set (in_hand (pcs w ! i))"
  proof
    fix h assume "h \<in> (\<Union>q \<in> set (pcs w). set (in_hand q))"
    then obtain j where j: "j < length (pcs w)" "h \<in> set (in_hand (pcs w ! j))" by (metis UN_E in_set_conv_nth)
    show "h \<in> (\<Union>q \<in> set (pcs w'). set (in_hand q)) \<union> set (in_hand (pcs w ! i))"
    proof (cases "j = i")
      case False
      then have "in_hand (pcs w' ! j) = in_hand (pcs w ! j)" using o [OF j(1)] by simp
      with j n show ?thesis by (metis UN_I UnI1 nth_mem)
    qed (use j in simp)
  qed
  have "set (in_hand p) \<subseteq> (\<Union>q \<in> set (pcs w'). set (in_hand q))" using self i n by (metis UN_upper nth_mem)
  with hands up v have mono: "seen w \<subseteq> seen w'" by (auto simp: seen_def)
  have "set (in_hand q) \<subseteq> seen w" if q: "q \<in> set (pcs w')" for q
  proof (cases "q = p")
    case False
    with moves_mem [OF m q] obtain j where "j < length (pcs w)" "q = (if notified then wake (pcs w ! j) else pcs w ! j)" by blast
    then have "in_hand q = in_hand (pcs w ! j)" "pcs w ! j \<in> set (pcs w)" by simp_all
    then show ?thesis by (auto simp: seen_def)
  qed (use down in simp)
  with down v have "seen w' \<subseteq> seen w" by (auto simp: seen_def)
  with mono have eq: "seen w' = seen w" by simp
  have pr: "Process h \<in> set (pcs w') \<longleftrightarrow> Process h \<in> set (pcs w)" for h
  proof
    assume "Process h \<in> set (pcs w')"
    from moves_mem [OF m this] np(1) obtain j where "j < length (pcs w)" "Process h = (if notified then wake (pcs w ! j) else pcs w ! j)" by metis
    then have "pcs w ! j = Process h" "pcs w ! j \<in> set (pcs w)" by (auto split: if_splits) (metis wake_simps(10))
    then show "Process h \<in> set (pcs w)" by simp
  next
    assume "Process h \<in> set (pcs w)"
    then obtain j where j: "j < length (pcs w)" "pcs w ! j = Process h" by (auto simp: in_set_conv_nth)
    with np(2) have "j \<noteq> i" by auto
    then have "pcs w' ! j = Process h" using o [OF j(1)] j(2) by (auto simp: wake_def)
    then show "Process h \<in> set (pcs w')" using j(1) n by (metis nth_mem)
  qed
  have same: "pcs w ! j = Process h" if "j < length (pcs w')" "pcs w' ! j = Process h" for j h
  proof -
    from that self np(1) have "j \<noteq> i" by metis
    with that n o [of j] show ?thesis by (auto simp: wake_def split: if_splits)
  qed
  have "a = b" if "a < length (pcs w')" "b < length (pcs w')" "pcs w' ! a = Process h" "pcs w' ! b = Process h" for a b h
    using ok that same [OF that(1,3)] same [OF that(2,4)] unfolding cover_ok_def n by blast
  then show ?thesis using ok eq pr s v by (simp add: cover_ok_def)
qed

lemma update_mem: "i < length ps \<Longrightarrow> q \<in> set (ps[i := p]) \<longleftrightarrow> q = p \<or> (\<exists>j < length ps. j \<noteq> i \<and> ps ! j = q)"
  by (auto simp: in_set_conv_nth nth_list_update)

text \<open>Claiming a hash that nobody has claimed.\<close>

lemma cover_claim:
  assumes i: "i < length (pcs w)" "pcs w ! i = Claim h" "h \<notin> set (visited w)" and ok: "cover_ok w"
  shows "cover_ok (set_pc i (Process h) (w\<lparr>visited := h # visited w\<rparr>))" (is "cover_ok ?w")
proof -
  have mem: "q \<in> set (pcs ?w) \<longleftrightarrow> q = Process h \<or> (\<exists>j < length (pcs w). j \<noteq> i \<and> pcs w ! j = q)" for q
    using update_mem [OF i(1)] by simp
  have "Claim h \<in> set (pcs w)" using i(1,2) by (metis nth_mem)
  then have h: "h \<in> seen w" by (force simp: seen_def)
  have eq: "seen ?w = seen w"
  proof (rule set_eqI)
    fix x
    have "x \<in> (\<Union>q \<in> set (pcs ?w). set (in_hand q)) \<or> x = h \<longleftrightarrow> x \<in> (\<Union>q \<in> set (pcs w). set (in_hand q)) \<or> x = h"
    proof
      assume "x \<in> (\<Union>q \<in> set (pcs ?w). set (in_hand q)) \<or> x = h"
      then show "x \<in> (\<Union>q \<in> set (pcs w). set (in_hand q)) \<or> x = h"
      proof
        assume "x \<in> (\<Union>q \<in> set (pcs ?w). set (in_hand q))"
        then obtain q where q: "q \<in> set (pcs ?w)" "x \<in> set (in_hand q)" by blast
        with mem have "q \<in> set (pcs w)" by auto
        with q(2) show ?thesis by blast
      qed simp
    next
      assume "x \<in> (\<Union>q \<in> set (pcs w). set (in_hand q)) \<or> x = h"
      then show "x \<in> (\<Union>q \<in> set (pcs ?w). set (in_hand q)) \<or> x = h"
      proof
        assume "x \<in> (\<Union>q \<in> set (pcs w). set (in_hand q))"
        then obtain j where j: "j < length (pcs w)" "x \<in> set (in_hand (pcs w ! j))" by (metis UN_E in_set_conv_nth)
        then show ?thesis using mem i(2) by (cases "j = i") auto
      qed simp
    qed
    with h show "x \<in> seen ?w \<longleftrightarrow> x \<in> seen w" by (auto simp: seen_def)
  qed
  have pr: "Process g \<in> set (pcs ?w) \<longleftrightarrow> g = h \<or> Process g \<in> set (pcs w)" for g
    using mem [of "Process g"] i(2) by (auto simp: in_set_conv_nth)
  have new: "j = i" if "j < length (pcs ?w)" "pcs ?w ! j = Process h" for j
  proof (rule ccontr)
    assume "j \<noteq> i"
    with that have "pcs w ! j = Process h" "j < length (pcs w)" by simp_all
    then have "Process h \<in> set (pcs w)" by (metis nth_mem)
    with ok i(3) show False unfolding cover_ok_def by blast
  qed
  have "a = b" if "a < length (pcs ?w)" "b < length (pcs ?w)" "pcs ?w ! a = Process g" "pcs ?w ! b = Process g" for a b g
  proof (cases "g = h")
    case True
    with new [OF that(1)] new [OF that(2)] that(3,4) show ?thesis by blast
  next
    case False
    with that have "a \<noteq> i" "b \<noteq> i" using i(1) by auto
    with that ok show ?thesis unfolding cover_ok_def by simp
  qed
  moreover have "fresh g (store w)" if "g \<in> reach kids roots" "g \<notin> set (visited w) \<or> g = h \<or> Process g \<in> set (pcs w)" for g
    using ok that i(3) unfolding cover_ok_def by blast
  ultimately show ?thesis using ok eq pr i(3) unfolding cover_ok_def by auto
qed

text \<open>Processing a claimed hash.\<close>

lemma cover_process:
  assumes i: "i < length (pcs w)" "pcs w ! i = Process h" and ok: "cover_ok w"
  obtains s where "node h (store w) = (Inr (kids h), s)"
    "cover_ok (set_pc i (if kids h = [] then Decrement else AddOutstanding (kids h)) (w\<lparr>store := s\<rparr>))"
proof -
  have hv: "h \<in> set (visited w)" using ok i unfolding cover_ok_def by (metis nth_mem)
  then have hr: "h \<in> reach kids roots" using ok by (auto simp: cover_ok_def seen_def)
  have hp: "Process h \<in> set (pcs w)" using i by (metis nth_mem)
  with ok hr have "good (store w)" "fresh h (store w)" unfolding cover_ok_def by blast+
  from node_ok [OF this(1) hr this(2)] obtain s where
    s: "node h (store w) = (Inr (kids h), s)" "good s" "got h s" "\<And>g. got g (store w) \<Longrightarrow> got g s"
      "\<And>g. g \<noteq> h \<Longrightarrow> fresh g (store w) \<Longrightarrow> fresh g s" by blast
  let ?p = "if kids h = [] then Decrement else AddOutstanding (kids h)"
  let ?w = "set_pc i ?p (w\<lparr>store := s\<rparr>)"
  have mem: "q \<in> set (pcs ?w) \<longleftrightarrow> q = ?p \<or> (\<exists>j < length (pcs w). j \<noteq> i \<and> pcs w ! j = q)" for q
    using update_mem [OF i(1)] by simp
  have ip: "set (in_hand ?p) = set (kids h)" by simp
  have hands: "(\<Union>q \<in> set (pcs ?w). set (in_hand q)) = (\<Union>q \<in> set (pcs w). set (in_hand q)) \<union> set (kids h)"
  proof (rule set_eqI)
    fix x
    show "x \<in> (\<Union>q \<in> set (pcs ?w). set (in_hand q)) \<longleftrightarrow> x \<in> (\<Union>q \<in> set (pcs w). set (in_hand q)) \<union> set (kids h)"
    proof
      assume "x \<in> (\<Union>q \<in> set (pcs ?w). set (in_hand q))"
      then obtain q where q: "q \<in> set (pcs ?w)" "x \<in> set (in_hand q)" by blast
      then have "q = ?p \<or> q \<in> set (pcs w)" using mem by auto
      with q(2) ip show "x \<in> (\<Union>q \<in> set (pcs w). set (in_hand q)) \<union> set (kids h)" by blast
    next
      assume "x \<in> (\<Union>q \<in> set (pcs w). set (in_hand q)) \<union> set (kids h)"
      then consider "x \<in> set (kids h)" | j where "j < length (pcs w)" "x \<in> set (in_hand (pcs w ! j))" by (metis UN_E UnE in_set_conv_nth)
      then show "x \<in> (\<Union>q \<in> set (pcs ?w). set (in_hand q))"
      proof cases
        case 1
        have "?p \<in> set (pcs ?w)" using mem [of ?p] by blast
        with 1 ip show ?thesis by blast
      next
        case 2
        then have "j \<noteq> i" using i(2) by auto
        with 2 have "pcs w ! j \<in> set (pcs ?w)" using mem by blast
        with 2 show ?thesis by blast
      qed
    qed
  qed
  then have sn: "seen ?w = seen w \<union> set (kids h)" by (auto simp: seen_def)
  have kr: "set (kids h) \<subseteq> reach kids roots" using reach.child [OF hr] by (rule subsetI)
  have pr1: "Process g \<in> set (pcs w)" if "Process g \<in> set (pcs ?w)" for g
  proof -
    have "Process g \<noteq> ?p" by simp
    with mem [of "Process g"] that obtain j where "j < length (pcs w)" "pcs w ! j = Process g" by blast
    then show ?thesis by (metis nth_mem)
  qed
  have pr2: "Process g \<in> set (pcs ?w)" if "Process g \<in> set (pcs w)" "g \<noteq> h" for g
  proof -
    obtain j where "j < length (pcs w)" "pcs w ! j = Process g" using \<open>Process g \<in> set (pcs w)\<close> by (auto simp: in_set_conv_nth)
    moreover from this \<open>g \<noteq> h\<close> i(2) have "j \<noteq> i" by auto
    ultimately show ?thesis using mem by blast
  qed
  have same: "pcs w ! j = Process g \<and> j \<noteq> i \<and> j < length (pcs w)" if "j < length (pcs ?w)" "pcs ?w ! j = Process g" for j g
    using that i(1) by (cases "j = i") (auto split: if_splits)
  have gone: "Process h \<notin> set (pcs ?w)"
  proof
    assume "Process h \<in> set (pcs ?w)"
    then obtain j where "j < length (pcs ?w)" "pcs ?w ! j = Process h" by (metis in_set_conv_nth)
    from same [OF this] ok i show False unfolding cover_ok_def by blast
  qed
  have v: "visited ?w = visited w" "store ?w = s" by simp_all
  have "cover_ok ?w" unfolding cover_ok_def v
  proof (intro conjI ballI allI impI)
    show "fresh g s" if "g \<in> reach kids roots" "g \<notin> set (visited w) \<or> Process g \<in> set (pcs ?w)" for g
    proof -
      have "g \<noteq> h" using that(2) hv gone by auto
      moreover have "fresh g (store w)" using ok that pr1 [of g] unfolding cover_ok_def by blast
      ultimately show ?thesis by (rule s(5))
    qed
    show "a = b" if "a < length (pcs ?w)" "b < length (pcs ?w)" "pcs ?w ! a = Process g" "pcs ?w ! b = Process g" for a b g
      using ok same [OF that(1,3)] same [OF that(2,4)] unfolding cover_ok_def by blast
    show "Process g \<in> set (pcs ?w) \<or> set (kids g) \<subseteq> seen ?w \<and> got g s" if "g \<in> set (visited w)" for g
    proof (cases "g = h")
      case False
      with ok that pr2 [of g] have "Process g \<in> set (pcs ?w) \<or> set (kids g) \<subseteq> seen w \<and> got g (store w)"
        unfolding cover_ok_def by blast
      with sn s(4) show ?thesis by blast
    qed (use sn s(3) in blast)
    show "g \<in> set (visited w)" if "Process g \<in> set (pcs ?w)" for g using ok pr1 [OF that] unfolding cover_ok_def by blast
  qed (use ok sn kr s(2) in \<open>unfold cover_ok_def, blast+\<close>)
  with s(1) that show thesis by blast
qed

end

context graph_walk
begin

lemma hand_seen: "i < length (pcs w) \<Longrightarrow> set (in_hand (pcs w ! i)) \<subseteq> seen w"
  using nth_mem unfolding seen_def by blast

lemma queue_seen: "set (queue w) \<subseteq> seen w" "set (visited w) \<subseteq> seen w"
  by (auto simp: seen_def)

lemma cover_step:
  assumes st: "worker_step False node i w = Some w'" and ok: "cover_ok w" "sync_ok w"
  shows "cover_ok w'"
proof -
  have i: "i < length (pcs w)" by (rule worker_step_inv [OF st])
  have f: "\<not> failing (pcs w ! i)" "\<not> failed w" using ok(2) i by (auto simp: sync_ok_def)
  note hand = hand_seen [OF i] queue_seen [of w]
  have go: "cover_ok w'" if "moves i p notified w w'" "store w' = store w" "visited w' = visited w"
    "\<And>h. p \<noteq> Process h" "\<And>h. pcs w ! i \<noteq> Process h"
    "set (in_hand (pcs w ! i)) \<union> set (queue w) \<subseteq> set (in_hand p) \<union> set (queue w') \<union> set (visited w')"
    "set (in_hand p) \<union> set (queue w') \<subseteq> seen w" for p notified
    using cover_move [OF that(1) ok(1) that(2-7)] .
  show ?thesis
  proof (cases "pcs w ! i")
    case Acquire
    then show ?thesis using st i hand
      by (intro go [of CheckFailed False]) (auto simp: worker_step_def moves_def split: if_splits)
  next
    case CheckFailed
    then show ?thesis using st i f hand by (intro go [of Pop False]) (auto simp: worker_step_def moves_def)
  next
    case Pop
    show ?thesis
    proof (cases "queue w")
      case Nil
      then show ?thesis using Pop st i hand by (intro go [of CheckOutstanding False]) (auto simp: worker_step_def moves_def)
    next
      case (Cons h q)
      then show ?thesis using Pop st i hand by (intro go [of "Claim h" False]) (auto simp: worker_step_def moves_def)
    qed
  next
    case CheckOutstanding
    show ?thesis
    proof (cases "outstanding w = 0")
      case True
      then show ?thesis using CheckOutstanding st i hand by (intro go [of Returned True]) (auto simp: worker_step_def moves_def)
    next
      case False
      then show ?thesis using CheckOutstanding st i hand by (intro go [of WaitReady False]) (auto simp: worker_step_def moves_def)
    qed
  next
    case WaitReady
    then show ?thesis using st i hand by (intro go [of Waiting False]) (auto simp: worker_step_def moves_def)
  next
    case Woken
    then show ?thesis using st i hand
      by (intro go [of CheckFailed False]) (auto simp: worker_step_def moves_def split: if_splits)
  next
    case (Claim h)
    show ?thesis
    proof (cases "h \<in> set (visited w)")
      case True
      then show ?thesis using Claim st i hand by (intro go [of Decrement False]) (auto simp: worker_step_def moves_def)
    next
      case False
      with Claim st i cover_claim [OF i Claim False ok(1)] show ?thesis by (simp add: worker_step_def)
    qed
  next
    case (Process h)
    obtain s where "node h (store w) = (Inr (kids h), s)"
      "cover_ok (set_pc i (if kids h = [] then Decrement else AddOutstanding (kids h)) (w\<lparr>store := s\<rparr>))"
      by (rule cover_process [OF i Process ok(1)])
    with Process st i show ?thesis by (simp add: worker_step_def)
  next
    case (AddOutstanding cs)
    then show ?thesis using st i hand by (intro go [of "Publish cs" False]) (auto simp: worker_step_def moves_def)
  next
    case (Publish cs)
    then show ?thesis using st i hand
      by (intro go [of NotifyWork False]) (auto simp: worker_step_def moves_def split: if_splits)
  next
    case NotifyWork
    then show ?thesis using st i hand by (intro go [of Decrement True]) (auto simp: worker_step_def moves_def)
  next
    case Decrement
    then show ?thesis using st i hand
      by (intro go [of "if outstanding w = 1 then NotifyZero else Acquire" False]) (auto simp: worker_step_def moves_def)
  next
    case NotifyZero
    then show ?thesis using st i hand by (intro go [of Acquire True]) (auto simp: worker_step_def moves_def)
  qed (use st i f in \<open>auto simp: worker_step_def\<close>)
qed

definition walk_ok :: "nat \<Rightarrow> ('h, 's) shared \<Rightarrow> bool" where
  "walk_ok n w \<longleftrightarrow> length (pcs w) = n \<and> sync_ok w \<and> watched w \<and> cover_ok w"

lemma walk_step:
  assumes st: "worker_step False node i w = Some w'" and ok: "walk_ok n w"
  shows "walk_ok n w'"
proof -
  have o: "sync_ok w" "watched w" "cover_ok w" using ok by (simp_all add: walk_ok_def)
  have i: "i < length (pcs w)" by (rule worker_step_inv [OF st])
  have "node h (store w) \<noteq> (Inl e, s)" if "pcs w ! i = Process h" for h e s
    using cover_process [OF i that o(3)] by (metis Inl_Inr_False prod.inject)
  from step_ok [OF st o(1,2) this] cover_step [OF st o(3,1)] worker_step_length [OF st] ok show ?thesis
    by (simp add: walk_ok_def)
qed

lemma walk_run: "bfs_run False node roots n s0 w \<Longrightarrow> can_start s0 \<Longrightarrow> walk_ok n w"
proof (induction rule: bfs_run.induct)
  case start
  then show ?case using init_ok [of roots n s0] cover_init [of s0 n] by (simp add: walk_ok_def bfs_init_def)
next
  case (step w i w')
  then show ?case using walk_step by blast
next
  case (spurious w i)
  then have o: "sync_ok w" "watched w" "cover_ok w" "length (pcs w) = n" by (simp_all add: walk_ok_def)
  have m: "moves i Woken False w (set_pc i Woken w)" using spurious(2) by (simp add: moves_def)
  have "cover_ok (set_pc i Woken w)"
    by (rule cover_move [OF m o(3)]) (use spurious(3) queue_seen [of w] in auto)
  with spurious_ok [OF spurious(2,3) o(1,2)] o(4) show ?case by (simp add: walk_ok_def)
qed

text \<open>When all have returned, everything reachable has been processed.\<close>

lemma walk_complete:
  assumes ok: "walk_ok n w" and ret: "all_returned w" and n: "0 < n"
  shows "set (visited w) = reach kids roots \<and> distinct (visited w) \<and> (\<forall>h \<in> reach kids roots. got h (store w)) \<and>
    good (store w) \<and> err w = None"
proof -
  have o: "sync_ok w" "cover_ok w" "length (pcs w) = n" using ok by (simp_all add: walk_ok_def)
  have all: "p = Returned" if "p \<in> set (pcs w)" for p using ret that by (simp add: all_returned_def list_all_iff)
  then have "Returned \<in> set (pcs w)" using n o(3) by (metis nth_mem)
  with o(1) have q: "queue w = []" by (auto simp: sync_ok_def)
  have s: "seen w = set (visited w)" using q all by (fastforce simp: seen_def)
  have np: "Process h \<notin> set (pcs w)" for h using all by blast
  have cl: "set (kids h) \<subseteq> set (visited w) \<and> got h (store w)" if "h \<in> set (visited w)" for h
    using o(2) that np s unfolding cover_ok_def by blast
  have "h \<in> set (visited w)" if "h \<in> reach kids roots" for h using that
    by induction (use o(2) s cl in \<open>auto simp: cover_ok_def\<close>)
  moreover have "set (visited w) \<subseteq> reach kids roots" using o(2) s by (simp add: cover_ok_def)
  ultimately show ?thesis using cl o(1,2) by (auto simp: cover_ok_def sync_ok_def)
qed

end

section \<open>Bounded runs\<close>

text \<open>The steps a worker can still do before it needs more work, with \<open>n\<close> workers and
  \<open>c\<close> giving the number of children; every worker that has not returned can wake all
  others once more.\<close>

fun weight :: "nat \<Rightarrow> ('h \<Rightarrow> nat) \<Rightarrow> 'h pc \<Rightarrow> nat" where
  "weight n c WaitReady = 1"
| "weight n c CheckOutstanding = 2"
| "weight n c Pop = 3"
| "weight n c CheckFailed = 4"
| "weight n c Acquire = 5"
| "weight n c Woken = 5"
| "weight n c NotifyZero = 5 * n + 6"
| "weight n c Decrement = 5 * n + 7"
| "weight n c (Claim h) = 5 * n + 8"
| "weight n c NotifyWork = 10 * n + 8"
| "weight n c (Publish cs) = 10 * n + 9 + (5 * n + 8) * length cs"
| "weight n c (AddOutstanding cs) = 10 * n + 10 + (5 * n + 8) * length cs"
| "weight n c (Process h) = 10 * n + 11 + (5 * n + 8) * c h"
| "weight n c _ = 0"

definition cost :: "nat \<Rightarrow> ('h \<Rightarrow> nat) \<Rightarrow> 'h pc \<Rightarrow> nat" where
  "cost n c p = (if p = Returned then 0 else 5 * n + 1 + weight n c p)"

lemma sum_update:
  "i < length ps \<Longrightarrow> sum_list (map f (ps[i := p])) + f (ps ! i) = sum_list (map f ps) + (f p :: nat)"
  by (induction ps arbitrary: i) (auto split: nat.splits)

lemma cost_wake: "cost n c p \<le> cost n c (wake p)" "cost n c (wake p) \<le> cost n c p + 5"
  by (auto simp: cost_def wake_def)

lemma costs_wake: "sum_list (map (cost n c) (map wake ps)) \<le> sum_list (map (cost n c) ps) + 5 * length ps"
  by (induction ps) (use cost_wake(2) [of n c] in \<open>auto simp: add_mono intro: order_trans [OF add_mono]\<close>)

context graph_walk
begin

definition unclaimed :: "nat \<Rightarrow> ('h, 's) shared \<Rightarrow> nat" where
  "unclaimed n w = (\<Sum>h \<in> reach kids roots - set (visited w). 10 * n + 11 + (5 * n + 8) * length (kids h))"

definition potential :: "nat \<Rightarrow> ('h, 's) shared \<Rightarrow> nat" where
  "potential n w = (5 * n + 8) * length (queue w) + sum_list (map (cost n (length \<circ> kids)) (pcs w)) + unclaimed n w"

lemma potential_move:
  assumes m: "moves i p notified w w'" and n: "length (pcs w) = n"
    and less: "(5 * n + 8) * length (queue w') + cost n (length \<circ> kids) p + (if notified then 5 * n else 0) + unclaimed n w'
      < (5 * n + 8) * length (queue w) + cost n (length \<circ> kids) (pcs w ! i) + unclaimed n w"
  shows "potential n w' < potential n w"
proof -
  let ?c = "cost n (length \<circ> kids)" and ?ps = "if notified then map wake (pcs w) else pcs w"
  have i: "i < length ?ps" "i < length (pcs w)" and ps: "pcs w' = ?ps[i := p]" using m by (auto simp: moves_def)
  have "sum_list (map ?c ?ps) \<le> sum_list (map ?c (pcs w)) + (if notified then 5 * n else 0)"
    using costs_wake [of n "length \<circ> kids" "pcs w"] n by simp
  moreover have "?c (pcs w ! i) \<le> ?c (?ps ! i)" using cost_wake(1) i(2) by auto
  moreover have "sum_list (map ?c (pcs w')) + ?c (?ps ! i) = sum_list (map ?c ?ps) + ?c p"
    unfolding ps by (rule sum_update [OF i(1)])
  ultimately show ?thesis using less by (simp add: potential_def)
qed

lemma unclaimed_claim:
  assumes "h \<in> reach kids roots" "h \<notin> set (visited w)" "cover_ok w"
  shows "unclaimed n w = unclaimed n (set_pc i p (w\<lparr>visited := h # visited w\<rparr>)) + weight n (length \<circ> kids) (Process h)"
proof -
  have fin: "finite (reach kids roots)" using assms(3) finite_reach by (auto simp: cover_ok_def)
  let ?A = "reach kids roots - set (h # visited w)" and ?f = "\<lambda>h. 10 * n + 11 + (5 * n + 8) * length (kids h)"
  have "insert h ?A = reach kids roots - set (visited w)" using assms by auto
  moreover have "sum ?f (insert h ?A) = ?f h + sum ?f ?A" by (rule sum.insert) (use fin in auto)
  ultimately show ?thesis unfolding unclaimed_def by simp
qed

lemma unclaimed_cong: "visited w' = visited w \<Longrightarrow> unclaimed n w' = unclaimed n w"
  by (simp add: unclaimed_def)

lemma potential_step:
  assumes st: "worker_step False node i w = Some w'" and ok: "walk_ok n w"
  shows "potential n w' < potential n w"
proof -
  have o: "sync_ok w" "cover_ok w" and n: "length (pcs w) = n" using ok by (simp_all add: walk_ok_def)
  have i: "i < length (pcs w)" by (rule worker_step_inv [OF st])
  have f: "\<not> failing (pcs w ! i)" "\<not> failed w" using o(1) i by (auto simp: sync_ok_def)
  let ?c = "cost n (length \<circ> kids)"
  have go: "potential n w' < potential n w" if "moves i p notified w w'" "visited w' = visited w"
    "(5 * n + 8) * length (queue w') + ?c p + (if notified then 5 * n else 0) < (5 * n + 8) * length (queue w) + ?c (pcs w ! i)"
    for p notified
    using potential_move [OF that(1) n] that(3) unclaimed_cong [OF that(2)] by simp
  show ?thesis
  proof (cases "pcs w ! i")
    case Acquire
    then show ?thesis using st i by (intro go [of CheckFailed False]) (auto simp: worker_step_def moves_def cost_def split: if_splits)
  next
    case CheckFailed
    then show ?thesis using st i f by (intro go [of Pop False]) (auto simp: worker_step_def moves_def cost_def)
  next
    case Pop
    show ?thesis
    proof (cases "queue w")
      case Nil
      then show ?thesis using Pop st i by (intro go [of CheckOutstanding False]) (auto simp: worker_step_def moves_def cost_def)
    next
      case (Cons h q)
      then show ?thesis using Pop st i by (intro go [of "Claim h" False]) (auto simp: worker_step_def moves_def cost_def)
    qed
  next
    case CheckOutstanding
    show ?thesis
    proof (cases "outstanding w = 0")
      case True
      then show ?thesis using CheckOutstanding st i by (intro go [of Returned True]) (auto simp: worker_step_def moves_def cost_def)
    next
      case False
      then show ?thesis using CheckOutstanding st i by (intro go [of WaitReady False]) (auto simp: worker_step_def moves_def cost_def)
    qed
  next
    case WaitReady
    then show ?thesis using st i by (intro go [of Waiting False]) (auto simp: worker_step_def moves_def cost_def)
  next
    case Woken
    then show ?thesis using st i by (intro go [of CheckFailed False]) (auto simp: worker_step_def moves_def cost_def split: if_splits)
  next
    case (Claim h)
    show ?thesis
    proof (cases "h \<in> set (visited w)")
      case True
      then show ?thesis using Claim st i by (intro go [of Decrement False]) (auto simp: worker_step_def moves_def cost_def)
    next
      case False
      have "h \<in> seen w" using hand_seen [OF i] Claim by simp
      then have "h \<in> reach kids roots" using o(2) by (auto simp: cover_ok_def)
      moreover have w': "w' = set_pc i (Process h) (w\<lparr>visited := h # visited w\<rparr>)" using st i Claim False by (simp add: worker_step_def)
      ultimately have "unclaimed n w = unclaimed n w' + weight n (length \<circ> kids) (Process h)" using unclaimed_claim [OF _ False o(2)] by blast
      then show ?thesis using Claim w' i by (intro potential_move [of i "Process h" False, OF _ n]) (auto simp: moves_def cost_def)
    qed
  next
    case (Process h)
    obtain s where "node h (store w) = (Inr (kids h), s)" by (rule cover_process [OF i Process o(2)])
    with Process st i show ?thesis
      by (intro go [of "if kids h = [] then Decrement else AddOutstanding (kids h)" False])
         (auto simp: worker_step_def moves_def cost_def)
  next
    case (AddOutstanding cs)
    then show ?thesis using st i by (intro go [of "Publish cs" False]) (auto simp: worker_step_def moves_def cost_def)
  next
    case (Publish cs)
    then show ?thesis using st i
      by (intro go [of NotifyWork False]) (auto simp: worker_step_def moves_def cost_def add_mult_distrib2 split: if_splits)
  next
    case NotifyWork
    then show ?thesis using st i by (intro go [of Decrement True]) (auto simp: worker_step_def moves_def cost_def)
  next
    case Decrement
    then show ?thesis using st i
      by (intro go [of "if outstanding w = 1 then NotifyZero else Acquire" False]) (auto simp: worker_step_def moves_def cost_def)
  next
    case NotifyZero
    then show ?thesis using st i by (intro go [of Acquire True]) (auto simp: worker_step_def moves_def cost_def)
  qed (use st i f in \<open>auto simp: worker_step_def\<close>)
qed

lemma steps_bounded: "bfs_steps False node k w w' \<Longrightarrow> walk_ok n w \<Longrightarrow> k + potential n w' \<le> potential n w \<and> walk_ok n w'"
proof (induction rule: bfs_steps.induct)
  case (more i w w' k w'')
  have "potential n w' < potential n w" by (rule potential_step [OF more(1,4)])
  moreover have "k + potential n w'' \<le> potential n w' \<and> walk_ok n w''" by (rule more.IH [OF walk_step [OF more(1,4)]])
  ultimately show ?case by simp
qed simp

text \<open>From every state of a walk, whatever the workers do: the run cannot go on for ever, it can
  only end with all workers returned, and then everything reachable is processed, once.\<close>

lemma walk_terminates:
  assumes "bfs_run False node roots n s0 w" "can_start s0" "0 < n" "bfs_steps False node k w w'"
  shows "k \<le> potential n w \<and> (blocked False node w' \<longleftrightarrow> all_returned w') \<and>
    (all_returned w' \<longrightarrow> set (visited w') = reach kids roots \<and> distinct (visited w') \<and>
       (\<forall>h \<in> reach kids roots. got h (store w')) \<and> good (store w') \<and> err w' = None)"
proof -
  have "walk_ok n w" by (rule walk_run [OF assms(1,2)])
  then have s: "k + potential n w' \<le> potential n w" "walk_ok n w'" using steps_bounded [OF assms(4)] by auto
  have "all_returned w'" if "blocked False node w'" using blocked_returned [OF _ _ that] s(2) by (simp add: walk_ok_def)
  moreover have "blocked False node w'" if "all_returned w'"
    using that by (auto simp: blocked_def all_returned_def worker_step_def list_all_length)
  ultimately show ?thesis using s walk_complete [OF s(2) _ assms(3)] by auto
qed

end

end
