(* ===== verification/TransferObjects.thy ===== *)
theory TransferObjects
  imports ParallelBfs LocalStore
begin

text \<open>
  The users of the graph walk in \<open>src/src/commands/transfer.rs\<close>: the children of an
  object, the copy of everything reachable from a batch of roots into a local store, serial
  or by a pool of workers, the byte budget that bounds the buffers, the map over a fixed list
  of items, and the helpers on paths and on the state of a clone.

  The outcome of a walk by several workers depends on their interleaving, so a transfer is a
  predicate on its result and on the state of the target afterwards.
\<close>

section \<open>Knobs\<close>

text \<open>\<open>var\<close> is the environment variable after trimming and parsing: \<open>None\<close> if it is unset
  or not a number.\<close>

definition resolve_concurrency :: "nat option \<Rightarrow> nat \<Rightarrow> nat" where
  "resolve_concurrency var store_default =
     (case var of Some n \<Rightarrow> if 1 \<le> n then n else max store_default 1 | None \<Rightarrow> max store_default 1)"

definition DEFAULT_TRANSFER_MEMORY_BUDGET :: u64 where
  "DEFAULT_TRANSFER_MEMORY_BUDGET = 64 * 1024 * 1024"

definition resolve_memory_budget :: "u64 option \<Rightarrow> u64" where
  "resolve_memory_budget var =
     (case var of Some n \<Rightarrow> if 1 \<le> n then n else DEFAULT_TRANSFER_MEMORY_BUDGET
      | None \<Rightarrow> DEFAULT_TRANSFER_MEMORY_BUDGET)"

section \<open>The byte budget\<close>

record byte_budget =
  capacity :: u64
  available :: u64

definition budget_new :: "u64 \<Rightarrow> byte_budget" where
  "budget_new c = \<lparr>capacity = max c 1, available = max c 1\<rparr>"

text \<open>\<open>None\<close> while the caller has to wait; the amount is what the guard gives back.\<close>

definition budget_acquire :: "byte_budget \<Rightarrow> u64 \<Rightarrow> (u64 \<times> byte_budget) option" where
  "budget_acquire b amount =
     (let want = min amount (capacity b) in
      if available b < want then None else Some (want, b\<lparr>available := available b - want\<rparr>))"

definition budget_release :: "byte_budget \<Rightarrow> u64 \<Rightarrow> byte_budget" where
  "budget_release b amount = b\<lparr>available := available b + amount\<rparr>"

text \<open>The budget together with the guards that are alive.\<close>

inductive budget_run :: "u64 \<Rightarrow> byte_budget \<Rightarrow> u64 list \<Rightarrow> bool" for c where
    new: "budget_run c (budget_new c) []"
  | acquire: "budget_run c b gs \<Longrightarrow> budget_acquire b amount = Some (g, b') \<Longrightarrow> budget_run c b' (g # gs)"
  | release: "budget_run c b gs \<Longrightarrow> g \<in> set gs \<Longrightarrow> budget_run c (budget_release b g) (remove1 g gs)"

section \<open>The children of an object\<close>

definition child_hashes :: "(bytes \<Rightarrow> tree option) \<Rightarrow> bytes \<Rightarrow> hash list" where
  "child_hashes from_json data =
     (case deserialise_manifest data of Some hs \<Rightarrow> hs
      | None \<Rightarrow>
          if is_tree_bytes data
          then (case tree_deserialise from_json data of
                  Inr (Normal es) \<Rightarrow> List.map_filter entry_hash es
                | Inl _ \<Rightarrow> [])
          else [])"

section \<open>The serial walk\<close>

partial_function (option) serial_walk ::
    "('h, 's) node_fn \<Rightarrow> 'h list \<Rightarrow> 'h list \<Rightarrow> 's \<Rightarrow> (unit result \<times> 's) option" where
  "serial_walk node q v s =
     (case q of [] \<Rightarrow> Some (Inr (), s)
      | h # q' \<Rightarrow>
          if h \<in> set v then serial_walk node q' v s
          else (case node h s of
                  (Inl e, s') \<Rightarrow> Some (Inl e, s')
                | (Inr cs, s') \<Rightarrow> serial_walk node (q' @ cs) (h # v) s'))"

section \<open>Walks and transfers\<close>

definition join_workers :: "('h, 's) shared \<Rightarrow> unit result" where
  "join_workers w = (case err w of Some e \<Rightarrow> Inl e | None \<Rightarrow> Inr ())"

definition parallel_bfs ::
    "('h, 's) node_fn \<Rightarrow> 'h list \<Rightarrow> nat \<Rightarrow> 's \<Rightarrow> unit result \<Rightarrow> 's \<Rightarrow> bool" where
  "parallel_bfs node roots workers s0 res s \<longleftrightarrow>
     (\<exists>w. bfs_run False node roots workers s0 w \<and> all_returned w \<and> res = join_workers w \<and> s = store w)"

definition parallel_walk ::
    "('h, 's) node_fn \<Rightarrow> 'h list \<Rightarrow> nat \<Rightarrow> 's \<Rightarrow> unit result \<Rightarrow> 's \<Rightarrow> bool" where
  "parallel_walk node roots workers s0 res s \<longleftrightarrow>
     (if roots = [] then res = Inr () \<and> s = s0
      else if workers < 2 then serial_walk node roots [] s0 = Some (res, s)
      else \<exists>w. bfs_run True node roots workers s0 w \<and> all_returned w \<and> res = join_workers w \<and> s = store w)"

text \<open>A transfer reads with the operations of a source in a fixed state.\<close>

record ('s, 'd) transfer_ctx =
  tr_env :: env
  tr_from_json :: "bytes \<Rightarrow> tree option"
  tr_src :: "'s object_store"
  tr_src_state :: 's
  tr_src_key :: "encrypt_key option"
  tr_dst :: "'d object_store"

definition transfer_process ::
    "('s, 'd) transfer_ctx \<Rightarrow> bool \<Rightarrow> hash \<Rightarrow> 'd \<Rightarrow> bytes option result \<times> 'd" where
  "transfer_process X traverse_existing h d =
     (case os_exists (tr_dst X) d h of
        Inl e \<Rightarrow> (Inl e, d)
      | Inr True \<Rightarrow>
          if \<not> traverse_existing then (Inr None, d)
          else (Inr (ok (store_read (tr_env X) (tr_dst X) d h None)), d)
      | Inr False \<Rightarrow>
          (case store_read (tr_env X) (tr_src X) (tr_src_state X) h (tr_src_key X) of
             Inl e \<Rightarrow> (Inl e, d)
           | Inr serialised \<Rightarrow>
               (case store_write (tr_env X) (tr_dst X) d h serialised None of
                  Inl e \<Rightarrow> (Inl e, d)
                | Inr d' \<Rightarrow> (Inr (Some serialised), d'))))"

text \<open>The engine parses the children out of the bytes that the closure returns.\<close>

definition transfer_node :: "('s, 'd) transfer_ctx \<Rightarrow> bool \<Rightarrow> (hash, 'd) node_fn" where
  "transfer_node X traverse_existing h d =
     (case transfer_process X traverse_existing h d of
        (Inl e, d') \<Rightarrow> (Inl e, d')
      | (Inr None, d') \<Rightarrow> (Inr [], d')
      | (Inr (Some data), d') \<Rightarrow> (Inr (child_hashes (tr_from_json X) data), d'))"

definition transfer_objects_many ::
    "('s, 'd) transfer_ctx \<Rightarrow> nat \<Rightarrow> nat \<Rightarrow> hash list \<Rightarrow> bool \<Rightarrow> 'd \<Rightarrow> unit result \<Rightarrow> 'd \<Rightarrow> bool" where
  "transfer_objects_many X src_conc dst_conc roots traverse_existing d res d' \<longleftrightarrow>
     (if roots = [] then res = Inr () \<and> d' = d
      else if 2 \<le> max src_conc dst_conc
      then parallel_bfs (transfer_node X traverse_existing) roots (max src_conc dst_conc) d res d'
      else serial_walk (transfer_node X traverse_existing) roots [] d = Some (res, d'))"

definition transfer_objects ::
    "('s, 'd) transfer_ctx \<Rightarrow> nat \<Rightarrow> nat \<Rightarrow> hash \<Rightarrow> bool \<Rightarrow> 'd \<Rightarrow> unit result \<Rightarrow> 'd \<Rightarrow> bool" where
  "transfer_objects X src_conc dst_conc root traverse_existing =
     transfer_objects_many X src_conc dst_conc [root] traverse_existing"

section \<open>The map over a fixed list\<close>

text \<open>The cursor, the results so far and what each worker has claimed.\<close>

record 'r map_state =
  cursor :: nat
  results :: "'r option list"
  claims :: "nat option list"
  done_with :: "bool list"

definition map_init :: "nat \<Rightarrow> nat \<Rightarrow> 'r map_state" where
  "map_init n workers = \<lparr>cursor = 0, results = replicate n None, claims = replicate workers None,
     done_with = replicate workers False\<rparr>"

inductive map_step :: "('a \<Rightarrow> 'r) \<Rightarrow> 'a list \<Rightarrow> 'r map_state \<Rightarrow> 'r map_state \<Rightarrow> bool" for f items where
    claim: "j < length (claims m) \<Longrightarrow> claims m ! j = None \<Longrightarrow> \<not> done_with m ! j \<Longrightarrow> cursor m < length items \<Longrightarrow>
      map_step f items m (m\<lparr>claims := (claims m)[j := Some (cursor m)], cursor := cursor m + 1\<rparr>)"
  | exit: "j < length (claims m) \<Longrightarrow> claims m ! j = None \<Longrightarrow> \<not> done_with m ! j \<Longrightarrow> length items \<le> cursor m \<Longrightarrow>
      map_step f items m (m\<lparr>done_with := (done_with m)[j := True], cursor := cursor m + 1\<rparr>)"
  | finish: "j < length (claims m) \<Longrightarrow> claims m ! j = Some i \<Longrightarrow>
      map_step f items m (m\<lparr>results := (results m)[i := Some (f (items ! i))], claims := (claims m)[j := None]\<rparr>)"

definition parallel_map :: "('a \<Rightarrow> 'r) \<Rightarrow> 'a list \<Rightarrow> nat \<Rightarrow> 'r option list \<Rightarrow> bool" where
  "parallel_map f items workers out \<longleftrightarrow>
     (if items = [] then out = []
      else if workers < 2 then out = map (Some \<circ> f) items
      else \<exists>m. (map_step f items)\<^sup>*\<^sup>* (map_init (length items) workers) m \<and>
        list_all (\<lambda>b. b) (done_with m) \<and> out = results m)"

section \<open>Paths and clone state\<close>

definition deduplicate_paths :: "string list \<Rightarrow> string list" where
  "deduplicate_paths paths =
     (let ps = remdups_adj (sort paths) in
      map fst (filter (\<lambda>(p, i). \<not> list_ex (\<lambda>(q, j). i \<noteq> j \<and> prefix (q @ ''/'') p) (zip ps [0..<length ps]))
        (zip ps [0..<length ps])))"

definition post_clone_sync_guard ::
    "(bytes \<Rightarrow> bytes) \<Rightarrow> (tree \<Rightarrow> bytes) \<Rightarrow> hash option \<Rightarrow> bool \<Rightarrow> unit result" where
  "post_clone_sync_guard hashf to_json clone_root index_root_present =
     (if index_root_present then Inr ()
      else if (case clone_root of None \<Rightarrow> True | Some h \<Rightarrow> h = empty_tree_hash hashf to_json) then Inr ()
      else Inl (Other ''index root not found on remote''))"

lemma steps_run: "bfs_steps child node k w w' \<Longrightarrow> bfs_run child node roots n s w \<Longrightarrow> bfs_run child node roots n s w'"
  by (induction rule: bfs_steps.induct) (auto intro: bfs_run.step)

section \<open>The budget never runs over and never blocks for good\<close>

lemma budget_ok: "budget_run c b gs \<Longrightarrow> capacity b = max c 1 \<and>
    unat (available b) + sum_list (map unat gs) = unat (capacity b)"
proof (induction rule: budget_run.induct)
  case (acquire b gs amount g b')
  then have "g = min amount (capacity b)" "\<not> available b < g" "b' = b\<lparr>available := available b - g\<rparr>"
    by (simp_all add: budget_acquire_def Let_def del: min_less_iff_disj split: if_splits) auto
  then have "g \<le> available b" "b' = b\<lparr>available := available b - g\<rparr>" by (simp_all only: not_less)
  with acquire.IH show ?case by (simp add: unat_sub word_le_nat_alt)
next
  case (release b gs g)
  have s: "sum_list (map unat gs) = unat g + sum_list (map unat (remove1 g gs))"
    using release(2) by (induction gs) auto
  have "unat (capacity b) < 2 ^ LENGTH(64)" by (rule unsigned_less)
  with release.IH s have "unat (available b) + unat g < 2 ^ LENGTH(64)" by linarith
  then have "unat (available b + g) = unat (available b) + unat g" by (simp only: unat_add_lem)
  with release.IH s show ?case by (auto simp: budget_release_def)
qed (simp add: budget_new_def)

section \<open>Serial walks end\<close>

declare serial_walk.simps [code]

context graph_walk
begin

definition serial_ok :: "'h list \<Rightarrow> 'h list \<Rightarrow> 's \<Rightarrow> bool" where
  "serial_ok q v s \<longleftrightarrow> good s \<and> set q \<union> set v \<subseteq> reach kids roots \<and> set roots \<subseteq> set q \<union> set v \<and>
     (\<forall>h \<in> set v. set (kids h) \<subseteq> set q \<union> set v \<and> got h s) \<and> (\<forall>h \<in> reach kids roots - set v. fresh h s)"

lemma serial_done:
  assumes "serial_ok [] v s"
  shows "set v = reach kids roots" "\<And>h. h \<in> reach kids roots \<Longrightarrow> got h s"
proof -
  have "h \<in> set v" if "h \<in> reach kids roots" for h using that
    by induction (use assms in \<open>auto simp: serial_ok_def\<close>)
  with assms show "set v = reach kids roots" "\<And>h. h \<in> reach kids roots \<Longrightarrow> got h s" by (auto simp: serial_ok_def)
qed

lemma serial_node:
  assumes "serial_ok (h # q) v s" "h \<notin> set v"
  obtains s' where "node h s = (Inr (kids h), s')" "serial_ok (q @ kids h) (h # v) s'"
proof -
  from assms have h: "good s" "h \<in> reach kids roots" "fresh h s" by (auto simp: serial_ok_def)
  from node_ok [OF h] obtain s' where s: "node h s = (Inr (kids h), s')" "good s'" "got h s'" "\<And>g. got g s \<Longrightarrow> got g s'"
    "\<And>g. g \<noteq> h \<Longrightarrow> fresh g s \<Longrightarrow> fresh g s'" by blast
  have "set (kids h) \<subseteq> reach kids roots" using reach.child [OF h(2)] by (rule subsetI)
  with assms(1) s have "serial_ok (q @ kids h) (h # v) s'" unfolding serial_ok_def by auto
  with s(1) that show thesis by blast
qed

lemma serial_walk_ends:
  "serial_ok q v s \<Longrightarrow> \<exists>s'. serial_walk node q v s = Some (Inr (), s') \<and> good s' \<and> (\<forall>h \<in> reach kids roots. got h s')"
proof (induction "(\<Sum>h \<in> reach kids roots - set v. Suc (length (kids h))) + length q" arbitrary: q v s rule: less_induct)
  case less
  show ?case
  proof (cases q)
    case Nil
    with less.prems have "serial_walk node q v s = Some (Inr (), s)" "serial_ok [] v s" by (simp_all add: serial_walk.simps [of node "[]"])
    with serial_done(2) show ?thesis unfolding serial_ok_def by blast
  next
    case (Cons h q')
    show ?thesis
    proof (cases "h \<in> set v")
      case True
      with less.prems Cons have "serial_ok q' v s" by (auto simp: serial_ok_def)
      from less.hyps [OF _ this] Cons True show ?thesis by (subst serial_walk.simps) simp
    next
      case False
      from less.prems Cons obtain s' where s: "node h s = (Inr (kids h), s')" "serial_ok (q' @ kids h) (h # v) s'"
        using serial_node [OF _ False] by blast
      have fin: "finite (reach kids roots)" using less.prems finite_reach unfolding serial_ok_def by blast
      let ?A = "reach kids roots - set (h # v)" and ?f = "\<lambda>h. Suc (length (kids h))"
      have "h \<in> reach kids roots" using less.prems Cons by (simp add: serial_ok_def)
      then have "insert h ?A = reach kids roots - set v" using False by auto
      moreover have "sum ?f (insert h ?A) = ?f h + sum ?f ?A" by (rule sum.insert) (use fin in auto)
      ultimately have "sum ?f ?A + length (q' @ kids h) < sum ?f (reach kids roots - set v) + length q" using Cons by simp
      from less.hyps [OF this s(2)] Cons False s(1) show ?thesis by (subst serial_walk.simps) simp
    qed
  qed
qed

lemma serial_walk_complete:
  "can_start s \<Longrightarrow> \<exists>s'. serial_walk node roots [] s = Some (Inr (), s') \<and> good s' \<and> (\<forall>h \<in> reach kids roots. got h s')"
  by (rule serial_walk_ends) (auto simp: serial_ok_def can_start_def intro: reach.root)

lemma walk_can_end: "walk_ok n w \<Longrightarrow> \<exists>k w'. bfs_steps False node k w w' \<and> all_returned w'"
proof (induction "potential n w" arbitrary: w rule: less_induct)
  case less
  show ?case
  proof (cases "all_returned w")
    case False
    then have "\<exists>i < length (pcs w). worker_step False node i w \<noteq> None" using blocked_returned [of w node] less.prems unfolding walk_ok_def blocked_def by blast
    then obtain i w' where st: "worker_step False node i w = Some w'" by auto
    from less.hyps [OF potential_step [OF st less.prems] walk_step [OF st less.prems]] st show ?thesis
      by (metis bfs_steps.more)
  qed (use bfs_steps.none in blast)
qed

lemma walk_bounded:
  assumes "bfs_run False node roots n s0 w" "can_start s0" "0 < n"
  shows "\<exists>bound. \<forall>k w'. bfs_steps False node k w w' \<longrightarrow> k \<le> bound \<and> (blocked False node w' \<longleftrightarrow> all_returned w') \<and>
    (all_returned w' \<longrightarrow> set (visited w') = reach kids roots \<and> distinct (visited w') \<and> join_workers w' = Inr ())"
proof (intro exI allI impI)
  fix k w' assume "bfs_steps False node k w w'"
  from walk_terminates [OF assms this] show "k \<le> potential n w \<and> (blocked False node w' \<longleftrightarrow> all_returned w') \<and>
    (all_returned w' \<longrightarrow> set (visited w') = reach kids roots \<and> distinct (visited w') \<and> join_workers w' = Inr ())"
    by (auto simp: join_workers_def)
qed

lemma parallel_bfs_complete:
  assumes "can_start s" "0 < n"
  shows "(\<exists>res s'. parallel_bfs node roots n s res s') \<and>
    (\<forall>res s'. parallel_bfs node roots n s res s' \<longrightarrow> res = Inr () \<and> good s' \<and> (\<forall>h \<in> reach kids roots. got h s'))"
proof -
  have st: "walk_ok n (bfs_init roots n s)" by (rule walk_run [OF bfs_run.start assms(1)])
  from walk_can_end [OF this] obtain k w where w: "bfs_steps False node k (bfs_init roots n s) w" "all_returned w" by blast
  have "bfs_run False node roots n s w" by (rule steps_run [OF w(1) bfs_run.start])
  with w(2) have "parallel_bfs node roots n s (join_workers w) (store w)" by (auto simp: parallel_bfs_def)
  moreover have "res = Inr () \<and> good s' \<and> (\<forall>h \<in> reach kids roots. got h s')" if "parallel_bfs node roots n s res s'" for res s'
    using that walk_complete [OF walk_run [OF _ assms(1)] _ assms(2)] by (auto simp: parallel_bfs_def join_workers_def)
  ultimately show ?thesis by blast
qed

end

lemma reach_empty: "reach kids [] = {}"
proof -
  have "h \<notin> reach kids []" for h
  proof
    assume "h \<in> reach kids []"
    then show False by induction simp_all
  qed
  then show ?thesis by blast
qed

section \<open>A transfer copies everything\<close>

definition source_content :: "('s, 'd) transfer_ctx \<Rightarrow> hash \<Rightarrow> bytes result" where
  "source_content X h = store_read (tr_env X) (tr_src X) (tr_src_state X) h (tr_src_key X)"

definition source_kids :: "('s, 'd) transfer_ctx \<Rightarrow> hash \<Rightarrow> hash list" where
  "source_kids X h = (case source_content X h of Inr x \<Rightarrow> child_hashes (tr_from_json X) x | Inl _ \<Rightarrow> [])"

text \<open>The source can serve everything that is reachable from the roots.\<close>

definition transferable :: "('s, 'd) transfer_ctx \<Rightarrow> hash list \<Rightarrow> bool" where
  "transferable X roots \<longleftrightarrow> zstd_lossless (tr_env X) \<and> gcm_opens (tr_env X) \<and> finite (reach (source_kids X) roots) \<and>
     (\<forall>h \<in> reach (source_kids X) roots. hash_ok h \<and> (\<exists>x. source_content X h = Inr x \<and> length x \<le> DECOMPRESS_MAX))"

definition into_local :: "(bytes \<Rightarrow> bytes \<Rightarrow> bytes) \<Rightarrow> ('s, objects_backend) transfer_ctx \<Rightarrow> ('s, objects_backend) transfer_ctx" where
  "into_local hmac X = X\<lparr>tr_dst := local_store hmac None\<rparr>"

definition local_read :: "(bytes \<Rightarrow> bytes \<Rightarrow> bytes) \<Rightarrow> ('s, 'd) transfer_ctx \<Rightarrow> objects_backend \<Rightarrow> hash \<Rightarrow> bytes result" where
  "local_read hmac X d h = store_read (tr_env X) (local_store hmac None) d h None"

definition transfer_got :: "(bytes \<Rightarrow> bytes \<Rightarrow> bytes) \<Rightarrow> ('s, 'd) transfer_ctx \<Rightarrow> hash \<Rightarrow> objects_backend \<Rightarrow> bool" where
  "transfer_got hmac X h d \<longleftrightarrow> hash_ok h \<and> local_read hmac X d h = source_content X h"

definition transfer_good ::
    "(bytes \<Rightarrow> bytes \<Rightarrow> bytes) \<Rightarrow> ('s, 'd) transfer_ctx \<Rightarrow> hash list \<Rightarrow> objects_backend \<Rightarrow> objects_backend \<Rightarrow> bool" where
  "transfer_good hmac X roots d0 d \<longleftrightarrow> transferable X roots \<and> backend_ok d \<and>
     (\<forall>h \<in> reach (source_kids X) roots. os_exists (local_store hmac None) d h = Inr True \<longrightarrow> transfer_got hmac X h d) \<and>
     (\<forall>g. transfer_got hmac X g d0 \<longrightarrow> transfer_got hmac X g d) \<and>
     (\<forall>g. hash_ok g \<longrightarrow> g \<notin> reach (source_kids X) roots \<longrightarrow> local_read hmac X d g = local_read hmac X d0 g)"

text \<open>Without \<open>traverse_existing\<close> the walk does not descend below an object that the target
  already has.\<close>

definition walk_kids ::
    "bool \<Rightarrow> (bytes \<Rightarrow> bytes \<Rightarrow> bytes) \<Rightarrow> ('s, 'd) transfer_ctx \<Rightarrow> objects_backend \<Rightarrow> hash \<Rightarrow> hash list" where
  "walk_kids traverse_existing hmac X d0 h =
     (if traverse_existing \<or> os_exists (local_store hmac None) d0 h \<noteq> Inr True then source_kids X h else [])"

definition as_before :: "bool \<Rightarrow> (bytes \<Rightarrow> bytes \<Rightarrow> bytes) \<Rightarrow> objects_backend \<Rightarrow> hash \<Rightarrow> objects_backend \<Rightarrow> bool" where
  "as_before traverse_existing hmac d0 h d \<longleftrightarrow> traverse_existing \<or>
     (hash_ok h \<longrightarrow> os_exists (local_store hmac None) d h = os_exists (local_store hmac None) d0 h)"

lemma walk_kids_True [simp]: "walk_kids True hmac X d0 = source_kids X"
  by (rule ext) (simp add: walk_kids_def)

lemma walk_kids_reach: "h \<in> reach (walk_kids t hmac X d0) roots \<Longrightarrow> h \<in> reach (source_kids X) roots"
  by (induction rule: reach.induct) (auto simp: walk_kids_def intro: reach.intros split: if_splits)

text \<open>What the walk does not reach lies below an object that was there.\<close>

lemma walk_kids_rest:
  assumes "h \<in> reach (source_kids X) roots"
    and "t \<or> (\<forall>h \<in> reach (source_kids X) roots. os_exists (local_store hmac None) d0 h = Inr True \<longrightarrow>
      (\<forall>c \<in> set (source_kids X h). os_exists (local_store hmac None) d0 c = Inr True))"
  shows "h \<in> reach (walk_kids t hmac X d0) roots \<or> os_exists (local_store hmac None) d0 h = Inr True"
proof (cases t)
  case True
  with assms(1) show ?thesis by simp
next
  case False
  show ?thesis using assms(1)
  proof induction
    case (child h c)
    have k: "c \<in> set (walk_kids t hmac X d0 h)" if "os_exists (local_store hmac None) d0 h \<noteq> Inr True"
      using that child.hyps(2) by (simp add: walk_kids_def)
    have "c \<in> reach (walk_kids t hmac X d0) roots" if "h \<in> reach (walk_kids t hmac X d0) roots"
        "os_exists (local_store hmac None) d0 h \<noteq> Inr True"
      using that(1) k [OF that(2)] by (rule reach.child)
    moreover have "os_exists (local_store hmac None) d0 c = Inr True" if "os_exists (local_store hmac None) d0 h = Inr True"
      using that child.hyps assms(2) False by blast
    ultimately show ?case using child.IH by blast
  qed (simp add: reach.root)
qed

lemma into_local_simps [simp]:
  "tr_env (into_local hmac X) = tr_env X" "tr_from_json (into_local hmac X) = tr_from_json X"
  "tr_dst (into_local hmac X) = local_store hmac None" "source_content (into_local hmac X) = source_content X"
  "source_kids (into_local hmac X) = source_kids X"
  by (auto simp: into_local_def source_content_def source_kids_def fun_eq_iff split: sum.split)

lemma local_laws: "store_laws (local_store hmac None) backend_ok (\<lambda>b h. backend_view b (hex (storage_key hmac None h)))"
  by (rule keys_apart_laws) (simp add: keys_apart_def)

lemma local_read_cong:
  assumes "backend_ok d" "backend_ok d'" "hash_ok g"
    "backend_view d' (hex (storage_key hmac None g)) = backend_view d (hex (storage_key hmac None g))"
  shows "local_read hmac X d' g = local_read hmac X d g \<and> os_exists (local_store hmac None) d' g = os_exists (local_store hmac None) d g"
  using store_laws.read_view [OF local_laws assms(1,3)] store_laws.read_view [OF local_laws assms(2,3)]
    store_laws.exists_view [OF local_laws assms(1,3)] store_laws.exists_view [OF local_laws assms(2,3)] assms(4)
  by (simp add: local_read_def store_read_def)

lemma transfer_node_ok:
  assumes good: "transfer_good hmac X roots d0 d" and h: "h \<in> reach (source_kids X) roots" and fr: "as_before t hmac d0 h d"
  shows "\<exists>d'. transfer_node (into_local hmac X) t h d = (Inr (walk_kids t hmac X d0 h), d') \<and>
    transfer_good hmac X roots d0 d' \<and> transfer_got hmac X h d' \<and> (\<forall>g. transfer_got hmac X g d \<longrightarrow> transfer_got hmac X g d') \<and>
    (\<forall>h'. h' \<noteq> h \<longrightarrow> as_before t hmac d0 h' d \<longrightarrow> as_before t hmac d0 h' d')"
proof -
  from good have bd: "backend_ok d" and T: "transferable X roots" by (simp_all add: transfer_good_def)
  from T h obtain x where hk: "hash_ok h" and x: "source_content X h = Inr x" "length x \<le> DECOMPRESS_MAX"
    and E: "zstd_lossless (tr_env X)" "gcm_opens (tr_env X)" by (auto simp: transferable_def)
  have kids: "source_kids X h = child_hashes (tr_from_json X) x" using x(1) by (simp add: source_kids_def)
  show ?thesis
  proof (cases "backend_view d (hex (storage_key hmac None h)) = None")
    case False
    then have ex: "os_exists (local_store hmac None) d h = Inr True" using store_laws.exists_view [OF local_laws bd hk] by simp
    with good h have got: "transfer_got hmac X h d" by (simp add: transfer_good_def)
    then have "store_read (tr_env X) (local_store hmac None) d h None = Inr x" using x(1) by (simp add: transfer_got_def local_read_def)
    with ex kids fr hk have "transfer_node (into_local hmac X) t h d = (Inr (walk_kids t hmac X d0 h), d)"
      by (auto simp: transfer_node_def transfer_process_def walk_kids_def as_before_def)
    with good got show ?thesis by blast
  next
    case True
    then have ex: "os_exists (local_store hmac None) d h = Inr False" using store_laws.exists_view [OF local_laws bd hk] by simp
    from store_laws.store_write_holds [OF local_laws bd hk E x(2), of hmac None] True obtain d' where
      w: "store_write (tr_env X) (local_store hmac None) d h x None = Inr d'" "backend_ok d'"
        "store_laws.holds (\<lambda>b h. backend_view b (hex (storage_key hmac None h))) (tr_env X) d' None h x"
      and other: "\<And>g. hash_ok g \<Longrightarrow> g \<noteq> h \<Longrightarrow> backend_view d' (hex (storage_key hmac None g)) = backend_view d (hex (storage_key hmac None g))"
      by auto
    have got: "transfer_got hmac X h d'"
      using store_laws.store_read_holds [OF local_laws w(2) hk w(3)] x(1) hk by (simp add: transfer_got_def local_read_def)
    have same: "local_read hmac X d' g = local_read hmac X d g" "os_exists (local_store hmac None) d' g = os_exists (local_store hmac None) d g"
      if "hash_ok g" "g \<noteq> h" for g using local_read_cong [OF bd w(2) that(1) other [OF that], of X] by simp_all
    have keep: "transfer_got hmac X g d'" if "transfer_got hmac X g d" for g
      using that got same(1) [of g] by (cases "g = h") (auto simp: transfer_got_def)
    have "transfer_good hmac X roots d0 d'" unfolding transfer_good_def
    proof (intro conjI ballI allI impI)
      fix g assume g: "g \<in> reach (source_kids X) roots" and e: "os_exists (local_store hmac None) d' g = Inr True"
      then have "hash_ok g" using T by (simp add: transferable_def)
      with g e good got same(2) [of g] keep show "transfer_got hmac X g d'" by (cases "g = h") (auto simp: transfer_good_def)
    next
      fix g assume "transfer_got hmac X g d0"
      with good keep show "transfer_got hmac X g d'" by (simp add: transfer_good_def)
    next
      fix g assume g: "hash_ok g" "g \<notin> reach (source_kids X) roots"
      with h have "g \<noteq> h" by blast
      with g good same(1) [of g] show "local_read hmac X d' g = local_read hmac X d0 g" by (simp add: transfer_good_def)
    qed (fact T w(2))+
    moreover have "transfer_node (into_local hmac X) t h d = (Inr (source_kids X h), d')"
      using ex w(1) x(1) kids by (simp add: transfer_node_def transfer_process_def source_content_def into_local_def)
    moreover have "walk_kids t hmac X d0 h = source_kids X h" using fr ex hk by (auto simp: walk_kids_def as_before_def)
    moreover have "as_before t hmac d0 h' d'" if "h' \<noteq> h" "as_before t hmac d0 h' d" for h'
      using that same(2) [of h'] by (auto simp: as_before_def)
    ultimately show ?thesis using got keep by metis
  qed
qed

interpretation copy: graph_walk "transfer_node (into_local hmac X) traverse_existing" "walk_kids traverse_existing hmac X d0" roots
  "transfer_good hmac X roots d0" "as_before traverse_existing hmac d0" "transfer_got hmac X" for hmac X roots d0 traverse_existing
proof unfold_locales
  fix d h assume "transfer_good hmac X roots d0 d" "h \<in> reach (walk_kids traverse_existing hmac X d0) roots"
    "as_before traverse_existing hmac d0 h d"
  from transfer_node_ok [OF this(1) walk_kids_reach [OF this(2)] this(3)]
  show "\<exists>d'. transfer_node (into_local hmac X) traverse_existing h d = (Inr (walk_kids traverse_existing hmac X d0 h), d') \<and>
    transfer_good hmac X roots d0 d' \<and> transfer_got hmac X h d' \<and> (\<forall>g. transfer_got hmac X g d \<longrightarrow> transfer_got hmac X g d') \<and>
    (\<forall>h'. h' \<noteq> h \<longrightarrow> as_before traverse_existing hmac d0 h' d \<longrightarrow> as_before traverse_existing hmac d0 h' d')" .
next
  fix d assume "transfer_good hmac X roots d0 d"
  then have "finite (reach (source_kids X) roots)" by (simp add: transfer_good_def transferable_def)
  with walk_kids_reach show "finite (reach (walk_kids traverse_existing hmac X d0) roots)" by (rule finite_subset [OF subsetI])
qed

text \<open>C9: a transfer from any source into a local store, serial or by any number of workers in
  any interleaving, has an outcome, and every outcome is success: everything reachable from
  the roots can then be read from the local store with the content of the source, what could
  be read before still can, and no object that is not reachable from the roots changes. It is
  supposed that the objects that are already there have the content of the source and, when
  the transfer does not descend below them, that with an object its children are there too.\<close>

theorem transfer_copies_all:
  assumes "transferable X roots" and "backend_ok d"
    and "\<forall>h \<in> reach (source_kids X) roots. os_exists (local_store hmac None) d h = Inr True \<longrightarrow>
      local_read hmac X d h = source_content X h"
    and "traverse_existing \<or> (\<forall>h \<in> reach (source_kids X) roots. os_exists (local_store hmac None) d h = Inr True \<longrightarrow>
      (\<forall>c \<in> set (source_kids X h). os_exists (local_store hmac None) d c = Inr True))"
  shows "(\<exists>res d'. transfer_objects_many (into_local hmac X) c1 c2 roots traverse_existing d res d') \<and>
    (\<forall>res d'. transfer_objects_many (into_local hmac X) c1 c2 roots traverse_existing d res d' \<longrightarrow>
       res = Inr () \<and> backend_ok d' \<and>
       (\<forall>h \<in> reach (source_kids X) roots. local_read hmac X d' h = source_content X h) \<and>
       (\<forall>g. hash_ok g \<longrightarrow> g \<notin> reach (source_kids X) roots \<longrightarrow> local_read hmac X d' g = local_read hmac X d g))"
proof -
  let ?R = "reach (source_kids X) roots" and ?W = "reach (walk_kids traverse_existing hmac X d) roots" and ?n = "max c1 c2"
  let ?node = "transfer_node (into_local hmac X) traverse_existing"
  have hk: "hash_ok h" if "h \<in> ?R" for h using assms(1) that by (simp add: transferable_def)
  with assms have good: "transfer_good hmac X roots d d" by (auto simp: transfer_good_def transfer_got_def)
  have same: "as_before traverse_existing hmac d h d" if "h \<in> ?W" for h by (simp add: as_before_def)
  note start = copy.can_startI [OF good same]
  define fine where "fine d' \<longleftrightarrow> transfer_good hmac X roots d d' \<and> (\<forall>h \<in> ?W. transfer_got hmac X h d')" for d'
  have "(\<exists>res d'. transfer_objects_many (into_local hmac X) c1 c2 roots traverse_existing d res d') \<and>
    (\<forall>res d'. transfer_objects_many (into_local hmac X) c1 c2 roots traverse_existing d res d' \<longrightarrow> res = Inr () \<and> fine d')"
  proof (cases "roots = []")
    case True
    then have "?W = {}" using reach_empty by simp
    with True good show ?thesis by (simp add: transfer_objects_many_def fine_def)
  next
    case False
    show ?thesis
    proof (cases "2 \<le> ?n")
      case True
      with copy.parallel_bfs_complete [OF start, of ?n] False show ?thesis
        unfolding transfer_objects_many_def fine_def by simp
    next
      case serial: False
      from copy.serial_walk_complete [OF start] obtain d' where
        "serial_walk ?node roots [] d = Some (Inr (), d')" "fine d'" unfolding fine_def by blast
      with False serial show ?thesis unfolding transfer_objects_many_def by simp
    qed
  qed
  moreover have "backend_ok d' \<and> (\<forall>h \<in> ?R. local_read hmac X d' h = source_content X h) \<and>
    (\<forall>g. hash_ok g \<longrightarrow> g \<notin> ?R \<longrightarrow> local_read hmac X d' g = local_read hmac X d g)" if f: "fine d'" for d'
  proof -
    have "transfer_got hmac X h d'" if h: "h \<in> ?R" for h
      using walk_kids_rest [OF h assms(4)]
    proof
      assume "os_exists (local_store hmac None) d h = Inr True"
      with assms(3) h hk have "transfer_got hmac X h d" by (simp add: transfer_got_def)
      with f show ?thesis by (simp add: fine_def transfer_good_def)
    qed (use f in \<open>simp add: fine_def\<close>)
    with f show ?thesis by (simp add: fine_def transfer_good_def transfer_got_def)
  qed
  ultimately show ?thesis by blast
qed

definition toy_transfer :: "(objects_backend, objects_backend) transfer_ctx" where
  "toy_transfer = \<lparr>tr_env = toy_env, tr_from_json = \<lambda>_. None, tr_src = local_store toy_hmac None,
     tr_src_state = RemoteB [(the (expected_path (hex toy_hash)), [4, 5])], tr_src_key = None,
     tr_dst = local_store toy_hmac None\<rparr>"

lemma toy_transfer_content: "source_content toy_transfer toy_hash = Inr [4, 5]"
  by code_simp

lemma toy_transfer_reach: "reach (source_kids toy_transfer) [toy_hash] = {toy_hash}"
proof -
  have "child_hashes (\<lambda>_. None) [4, 5] = []" by code_simp
  then have k: "source_kids toy_transfer toy_hash = []"
    using toy_transfer_content by (simp add: source_kids_def toy_transfer_def)
  have "h = toy_hash" if "h \<in> reach (source_kids toy_transfer) [toy_hash]" for h using that
    by induction (simp_all add: k)
  then show ?thesis using reach.root [of toy_hash "[toy_hash]"] by auto
qed

lemma toy_transferable: "transferable toy_transfer [toy_hash]"
  unfolding transferable_def toy_transfer_reach
  using toy_env_ok(1,2) toy_transfer_content by (simp add: toy_transfer_def DECOMPRESS_MAX_def)

lemma toy_target: "backend_ok (LocalB empty_dir)" "os_exists (local_store toy_hmac None) (LocalB empty_dir) toy_hash = Inr False"
  using shard_ok_cases [of 64 empty_dir] by (simp, code_simp)

theorem transfer_copies_all_witness:
  "\<exists>d'. transfer_objects_many (into_local toy_hmac toy_transfer) 1 3 [toy_hash] False (LocalB empty_dir) (Inr ()) d' \<and>
     local_read toy_hmac toy_transfer d' toy_hash = Inr [4, 5]"
proof -
  have a: "\<forall>h \<in> reach (source_kids toy_transfer) [toy_hash].
      os_exists (local_store toy_hmac None) (LocalB empty_dir) h = Inr True \<longrightarrow>
      local_read toy_hmac toy_transfer (LocalB empty_dir) h = source_content toy_transfer h"
    using toy_target(2) by (simp add: toy_transfer_reach)
  have "False \<or> (\<forall>h \<in> reach (source_kids toy_transfer) [toy_hash].
      os_exists (local_store toy_hmac None) (LocalB empty_dir) h = Inr True \<longrightarrow>
      (\<forall>c \<in> set (source_kids toy_transfer h). os_exists (local_store toy_hmac None) (LocalB empty_dir) c = Inr True))"
    using toy_target(2) by (simp add: toy_transfer_reach)
  note T = transfer_copies_all [OF toy_transferable toy_target(1) a this, of 1 3]
  then obtain res d' where t: "transfer_objects_many (into_local toy_hmac toy_transfer) 1 3 [toy_hash] False (LocalB empty_dir) res d'" by blast
  with T have "res = Inr ()" "\<forall>h \<in> reach (source_kids toy_transfer) [toy_hash]. local_read toy_hmac toy_transfer d' h = source_content toy_transfer h"
    by blast+
  with t show ?thesis by (auto simp: toy_transfer_reach toy_transfer_content)
qed



text \<open>The buffers that are alive never exceed the budget, and the budget never blocks for
  good: what the guards hold and what is available add up to the capacity, without
  wrap-around, and once every guard is gone a request of any size is admitted.\<close>

theorem budget_bounds_buffers:
  assumes "budget_run c b gs"
  shows "sum_list (map unat gs) \<le> unat (max c 1) \<and> unat (available b) + sum_list (map unat gs) = unat (max c 1) \<and>
    (gs = [] \<longrightarrow> budget_acquire b amount \<noteq> None)"
proof -
  from budget_ok [OF assms] have b: "capacity b = max c 1" "unat (available b) + sum_list (map unat gs) = unat (max c 1)" by auto
  moreover have "budget_acquire b amount \<noteq> None" if "gs = []"
  proof -
    from that b have "unat (available b) = unat (capacity b)" by simp
    then have "available b = capacity b" by (simp add: word_unat_eq_iff)
    then show ?thesis by (simp add: budget_acquire_def Let_def)
  qed
  ultimately show ?thesis by auto
qed

theorem budget_bounds_buffers_witness:
  "\<exists>b. budget_run 16 b [16] \<and> available b = 0 \<and> budget_acquire b 1 = None \<and> budget_acquire (budget_release b 16) 1000 \<noteq> None"
proof -
  have a: "budget_acquire (budget_new 16) 1000 = Some (16, \<lparr>capacity = 16, available = 0\<rparr>)" by code_simp
  from budget_run.acquire [OF budget_run.new this] have r: "budget_run 16 \<lparr>capacity = 16, available = 0\<rparr> [16]" .
  have "budget_run 16 (budget_release \<lparr>capacity = 16, available = 0\<rparr> 16) []" using budget_run.release [OF r, of 16] by simp
  from budget_bounds_buffers [OF this, of 1000] r show ?thesis by (auto intro!: exI [of _ "\<lparr>capacity = 16, available = 0\<rparr>"] simp: budget_acquire_def)
qed

section \<open>The map over a fixed list is a map\<close>

definition map_ok :: "('a \<Rightarrow> 'r) \<Rightarrow> 'a list \<Rightarrow> 'r map_state \<Rightarrow> bool" where
  "map_ok f items m \<longleftrightarrow> length (results m) = length items \<and> length (done_with m) = length (claims m) \<and>
     (\<forall>j < length (claims m). done_with m ! j \<longrightarrow> claims m ! j = None \<and> length items \<le> cursor m) \<and>
     (\<forall>i < length items. results m ! i = Some (f (items ! i)) \<or> Some i \<in> set (claims m) \<or> cursor m \<le> i) \<and>
     (\<forall>i. Some i \<in> set (claims m) \<longrightarrow> i < length items)"

lemma map_init_ok: "map_ok f items (map_init (length items) workers)"
  by (auto simp: map_ok_def map_init_def)

lemma keep_claim: "Some i \<in> set cs \<Longrightarrow> i \<noteq> k \<Longrightarrow> j < length cs \<Longrightarrow> cs ! j = Some k \<or> cs ! j = None \<Longrightarrow> Some i \<in> set (cs[j := x])"
proof -
  assume "Some i \<in> set cs" "i \<noteq> k" "j < length cs" "cs ! j = Some k \<or> cs ! j = None"
  then obtain l where "l < length cs" "cs ! l = Some i" "l \<noteq> j" unfolding in_set_conv_nth by (metis option.distinct(1) option.inject)
  then show ?thesis by (metis length_list_update nth_list_update_neq nth_mem)
qed

lemma map_step_ok: "map_step f items m m' \<Longrightarrow> map_ok f items m \<Longrightarrow> map_ok f items m'"
proof (induction rule: map_step.induct)
  case (claim j m)
  let ?cs = "(claims m)[j := Some (cursor m)]"
  have new: "Some (cursor m) \<in> set ?cs" using claim(1) by (simp add: set_update_memI)
  have old: "Some i \<in> set ?cs" if "Some i \<in> set (claims m)" for i
    using keep_claim [OF that, of "cursor m" j] new claim(1,2) by (cases "i = cursor m") auto
  show ?case unfolding map_ok_def
  proof (intro conjI allI impI)
    fix i assume i: "i < length items"
    with claim(5) have "results m ! i = Some (f (items ! i)) \<or> Some i \<in> set (claims m) \<or> cursor m \<le> i" by (simp add: map_ok_def)
    with old new show "results (m\<lparr>claims := ?cs, cursor := cursor m + 1\<rparr>) ! i = Some (f (items ! i)) \<or>
        Some i \<in> set (claims (m\<lparr>claims := ?cs, cursor := cursor m + 1\<rparr>)) \<or> cursor (m\<lparr>claims := ?cs, cursor := cursor m + 1\<rparr>) \<le> i"
      by (cases "i = cursor m") auto
  qed (use claim in \<open>auto simp: map_ok_def nth_list_update dest!: set_update_cases\<close>)
next
  case (exit j m)
  then show ?case by (auto simp: map_ok_def nth_list_update)
next
  case (finish j m i)
  have i: "Some i \<in> set (claims m)" using finish(1,2) by (metis nth_mem)
  let ?m = "m\<lparr>results := (results m)[i := Some (f (items ! i))], claims := (claims m)[j := None]\<rparr>"
  show ?case unfolding map_ok_def
  proof (intro conjI allI impI)
    fix k assume k: "k < length items"
    with finish(3) have "results m ! k = Some (f (items ! k)) \<or> Some k \<in> set (claims m) \<or> cursor m \<le> k" by (simp add: map_ok_def)
    with keep_claim [of k "claims m" i j None] finish k
    show "results ?m ! k = Some (f (items ! k)) \<or> Some k \<in> set (claims ?m) \<or> cursor ?m \<le> k"
      by (cases "k = i") (auto simp: map_ok_def)
  qed (use finish i in \<open>auto simp: map_ok_def nth_list_update dest!: set_update_cases\<close>)
qed

text \<open>Whatever the interleaving of the workers, a parallel map returns the results of all
  items in the order of the items.\<close>

theorem parallel_map_exact:
  assumes "parallel_map f items workers out"
  shows "out = map (Some \<circ> f) items"
proof (cases "items = [] \<or> workers < 2")
  case True
  with assms show ?thesis by (auto simp: parallel_map_def split: if_splits)
next
  case False
  with assms obtain m where r: "(map_step f items)\<^sup>*\<^sup>* (map_init (length items) workers) m"
    and d: "list_all (\<lambda>b. b) (done_with m)" and out: "out = results m" by (auto simp: parallel_map_def)
  from r have ok: "map_ok f items m \<and> length (claims m) = workers"
    by induction (auto simp: map_init_ok elim: map_step.cases dest: map_step_ok, simp add: map_init_def)
  then have dn: "done_with m ! j" if "j < workers" for j using d that by (auto simp: map_ok_def list_all_length)
  have none: "Some i \<notin> set (claims m)" for i
  proof
    assume "Some i \<in> set (claims m)"
    then obtain j where "j < workers" "claims m ! j = Some i" using ok by (auto simp: in_set_conv_nth)
    with dn ok show False by (auto simp: map_ok_def)
  qed
  have "0 < workers" using False by simp
  with dn [OF this] ok have "length items \<le> cursor m" unfolding map_ok_def by blast
  with none ok have "results m ! i = Some (f (items ! i))" if "i < length items" for i using that by (auto simp: map_ok_def)
  with ok out show ?thesis by (auto simp: map_ok_def intro: nth_equalityI)
qed

theorem parallel_map_exact_witness: "\<exists>out. parallel_map Suc [4] 2 out \<and> out = [Some 5]"
proof -
  let ?m0 = "map_init 1 2 :: nat map_state"
  let ?m1 = "?m0\<lparr>claims := (claims ?m0)[1 := Some (cursor ?m0)], cursor := cursor ?m0 + 1\<rparr>"
  let ?m2 = "?m1\<lparr>results := (results ?m1)[0 := Some (Suc ([4] ! 0))], claims := (claims ?m1)[1 := None]\<rparr>"
  let ?m3 = "?m2\<lparr>done_with := (done_with ?m2)[0 := True], cursor := cursor ?m2 + 1\<rparr>"
  let ?m4 = "?m3\<lparr>done_with := (done_with ?m3)[1 := True], cursor := cursor ?m3 + 1\<rparr>"
  have "map_step Suc [4] ?m0 ?m1" by (rule map_step.claim) (simp_all add: map_init_def numeral_2_eq_2)
  moreover have "map_step Suc [4] ?m1 ?m2" by (rule map_step.finish) (simp_all add: map_init_def numeral_2_eq_2)
  moreover have "map_step Suc [4] ?m2 ?m3" by (rule map_step.exit) (simp_all add: map_init_def numeral_2_eq_2)
  moreover have "map_step Suc [4] ?m3 ?m4" by (rule map_step.exit) (simp_all add: map_init_def numeral_2_eq_2)
  ultimately have "(map_step Suc [4])\<^sup>*\<^sup>* ?m0 ?m4" by (meson converse_rtranclp_into_rtranclp rtranclp.rtrancl_refl)
  then have "parallel_map Suc [4] 2 (results ?m4)"
    unfolding parallel_map_def by (auto intro!: exI [of _ ?m4]) (simp add: map_init_def numeral_2_eq_2)
  from this parallel_map_exact [OF this] show ?thesis by auto
qed

section \<open>Deduplicated paths\<close>

definition below :: "string \<Rightarrow> string \<Rightarrow> bool" where
  "below q p \<longleftrightarrow> prefix (q @ ''/'') p"

lemma remdups_adj_sorted: "sorted ps \<Longrightarrow> distinct (remdups_adj ps)"
  by (induction ps rule: remdups_adj.induct) (auto simp: order_antisym_conv)

lemma zip_index: "(p, i) \<in> set (zip ps [0..<length ps]) \<longleftrightarrow> i < length ps \<and> p = ps ! i"
  by (auto simp: in_set_zip)

lemma filter_zip_fst: "length ps = length is \<Longrightarrow> map fst (filter (\<lambda>(p, i). P p) (zip ps is)) = filter P ps"
  by (induction ps "is" rule: list_induct2) auto

lemma deduplicate_filter:
  "deduplicate_paths paths = filter (\<lambda>p. \<forall>q \<in> set paths. \<not> below q p) (remdups_adj (sort paths))"
proof -
  let ?ps = "remdups_adj (sort paths)" let ?z = "zip ?ps [0..<length ?ps]"
  have self: "\<not> below p p" for p by (auto simp: below_def prefix_def)
  have "list_ex (\<lambda>(q, j). i \<noteq> j \<and> prefix (q @ ''/'') p) ?z \<longleftrightarrow> (\<exists>q \<in> set paths. below q p)" if "(p, i) \<in> set ?z" for p i
  proof
    assume "list_ex (\<lambda>(q, j). i \<noteq> j \<and> prefix (q @ ''/'') p) ?z"
    then obtain q j where "(q, j) \<in> set ?z" "below q p" by (auto simp: list_ex_iff below_def)
    moreover from this(1) have "q \<in> set ?ps" by (rule set_zip_leftD)
    ultimately show "\<exists>q \<in> set paths. below q p" by auto
  next
    assume "\<exists>q \<in> set paths. below q p"
    then obtain q where q: "q \<in> set ?ps" "below q p" by auto
    then obtain j where j: "j < length ?ps" "q = ?ps ! j" by (auto simp only: in_set_conv_nth)
    with q(2) self that have "i \<noteq> j" by (auto simp: zip_index)
    moreover have "(q, j) \<in> set ?z" using j by (simp add: zip_index)
    ultimately show "list_ex (\<lambda>(q, j). i \<noteq> j \<and> prefix (q @ ''/'') p) ?z" using q(2) by (auto simp: list_ex_iff below_def)
  qed
  then have "filter (\<lambda>(p, i). \<not> list_ex (\<lambda>(q, j). i \<noteq> j \<and> prefix (q @ ''/'') p) ?z) ?z =
      filter (\<lambda>(p, i). \<forall>q \<in> set paths. \<not> below q p) ?z" by (intro filter_cong) auto
  then show ?thesis unfolding deduplicate_paths_def Let_def by (simp add: filter_zip_fst)
qed

lemma deduplicate_mem: "p \<in> set (deduplicate_paths paths) \<longleftrightarrow> p \<in> set paths \<and> (\<forall>q \<in> set paths. \<not> below q p)"
  by (simp add: deduplicate_filter)

text \<open>Deduplication keeps the topmost paths, once and in order: a path is kept exactly if no
  given path is a directory above it, and every given path is kept or below a kept one.\<close>

theorem deduplicate_paths_topmost:
  "set (deduplicate_paths paths) = {p \<in> set paths. \<not> list_ex (\<lambda>q. below q p) paths} \<and>
   distinct (deduplicate_paths paths) \<and> sorted (deduplicate_paths paths) \<and>
   list_all (\<lambda>p. list_ex (\<lambda>q. q = p \<or> below q p) (deduplicate_paths paths)) paths"
proof (intro conjI)
  show "set (deduplicate_paths paths) = {p \<in> set paths. \<not> list_ex (\<lambda>q. below q p) paths}"
    by (auto simp: deduplicate_mem list_ex_iff)
  show "distinct (deduplicate_paths paths)" "sorted (deduplicate_paths paths)"
    using remdups_adj_sorted [of "sort paths"] by (simp_all add: deduplicate_filter sorted_filter [of id, simplified] sorted_remdups_adj)
  have "\<exists>q \<in> set (deduplicate_paths paths). q = p \<or> below q p" if "p \<in> set paths" for p using that
  proof (induction "length p" arbitrary: p rule: less_induct)
    case less
    show ?case
    proof (cases "\<exists>q \<in> set paths. below q p")
      case True
      then obtain q where q: "q \<in> set paths" "below q p" by blast
      then have "length q < length p" by (auto simp: below_def prefix_def)
      from less.hyps [OF this q(1)] obtain r where r: "r \<in> set (deduplicate_paths paths)" "r = q \<or> below r q" by blast
      with q(2) have "below r p" by (auto simp: below_def prefix_def)
      with r(1) show ?thesis by blast
    qed (use less.prems deduplicate_mem in blast)
  qed
  then show "list_all (\<lambda>p. list_ex (\<lambda>q. q = p \<or> below q p) (deduplicate_paths paths)) paths" by (simp add: list_all_iff list_ex_iff)
qed

end
