(* ===== verification/Push.thy ===== *)
theory Push
  imports LazyTrees ScanRest TransferObjects
begin

text \<open>
  The push of a whole working tree (\<open>src/src/commands/push.rs\<close>) as the composition of the
  components: the scan with its hints, the guards against overwriting a remote that has moved
  on, the upload of what the remote lacks through the pack writer, the publication of the new
  root and the record of the synchronised root.

  The store that reads the tree of a stub from the remote on demand is an argument of the
  scan. What the command prints, the reconciliation of stubs afterwards and the
  push to a backup remote, which can only warn, are left out.
\<close>

section \<open>Guards\<close>

text \<open>\<open>empty_h\<close> is the hash of the empty tree.\<close>

definition is_empty_root :: "hash \<Rightarrow> hash option \<Rightarrow> bool" where
  "is_empty_root empty_h h = (case h of None \<Rightarrow> True | Some g \<Rightarrow> g = empty_h)"

definition require_remote_not_advanced :: "hash \<Rightarrow> hash option \<Rightarrow> hash option \<Rightarrow> hash \<Rightarrow> unit result" where
  "require_remote_not_advanced empty_h clone_root origin_root new_root_hash =
     (if origin_root = Some new_root_hash then Inr ()
      else if is_empty_root empty_h clone_root \<and> is_empty_root empty_h origin_root then Inr ()
      else if clone_root = origin_root then Inr ()
      else Inl CasFailed)"

section \<open>Paths and entries of a scoped push\<close>

definition navigate_entry_opt :: "'s tree_ctx \<Rightarrow> 's \<Rightarrow> hash option \<Rightarrow> string list \<Rightarrow> tree_entry option result" where
  "navigate_entry_opt cx s root comps = (case root of None \<Rightarrow> Inr None | Some h \<Rightarrow> navigate_entry cx s h comps)"

fun tree_entries_equal :: "tree_entry \<Rightarrow> tree_entry \<Rightarrow> bool" where
  "tree_entries_equal (Blob _ h1 _ _ m1) (Blob _ h2 _ _ m2) \<longleftrightarrow> h1 = h2 \<and> m1 = m2"
| "tree_entries_equal (TreeE _ h1 _ _ _) (TreeE _ h2 _ _ _) \<longleftrightarrow> h1 = h2"
| "tree_entries_equal (Symlink _ t1 _) (Symlink _ t2 _) \<longleftrightarrow> t1 = t2"
| "tree_entries_equal _ _ \<longleftrightarrow> False"

definition is_scoped_path_ignored :: "filter_set \<Rightarrow> string \<Rightarrow> bool" where
  "is_scoped_path_ignored fs rel =
     list_ex (\<lambda>n. is_ignored fs (join_slash (take n (path_components rel)))) [1..<Suc (length (path_components rel))]"

section \<open>Upload\<close>

text \<open>A push reads with the operations of the local store in a fixed state and writes
  through the pack writer. A call that fails leaves the writer as it was; what it may have
  added to the remote is not named by any index.\<close>

record ('l, 's) push_ctx =
  pu_local :: "'l object_store"
  pu_from_json :: "bytes \<Rightarrow> tree option"
  pu_cx :: "'s pack_ctx"

definition local_missing :: "error \<Rightarrow> error" where
  "local_missing e = (case e of ObjectNotFound h \<Rightarrow> LocalObjectMissing h | _ \<Rightarrow> e)"

text \<open>\<open>store_write\<close> with the pack writer as the store.\<close>

definition writer_store_write ::
    "'s pack_ctx \<Rightarrow> pack_writer \<Rightarrow> 's \<Rightarrow> hash \<Rightarrow> bytes \<Rightarrow> (pack_writer \<times> 's) result" where
  "writer_store_write cx w s h data =
     rbind (writer_exists cx w s h) (\<lambda>(ex, w').
       if ex then Inr (w', s)
       else route cx w' s h (encode_obj (cx_env cx) data (cx_key cx) (raw h)))"

definition upload_process ::
    "('l, 's) push_ctx \<Rightarrow> 'l \<Rightarrow> hash \<Rightarrow> pack_writer \<times> 's \<Rightarrow> bytes option result \<times> (pack_writer \<times> 's)" where
  "upload_process X l h ws =
     (case ws of (w, s) \<Rightarrow>
        case writer_exists (pu_cx X) w s h of
          Inl e \<Rightarrow> (Inl e, (w, s))
        | Inr (True, w1) \<Rightarrow> (Inr None, (w1, s))
        | Inr (False, w1) \<Rightarrow>
            (case store_read (cx_env (pu_cx X)) (pu_local X) l h None of
               Inl e \<Rightarrow> (Inl (local_missing e), (w1, s))
             | Inr serialised \<Rightarrow>
                 (case writer_store_write (pu_cx X) w1 s h serialised of
                    Inl e \<Rightarrow> (Inl e, (w1, s))
                  | Inr ws' \<Rightarrow> (Inr (Some serialised), ws'))))"

definition upload_node :: "('l, 's) push_ctx \<Rightarrow> 'l \<Rightarrow> (hash, pack_writer \<times> 's) node_fn" where
  "upload_node X l h ws =
     (case upload_process X l h ws of
        (Inl e, ws') \<Rightarrow> (Inl e, ws')
      | (Inr None, ws') \<Rightarrow> (Inr [], ws')
      | (Inr (Some data), ws') \<Rightarrow> (Inr (child_hashes (pu_from_json X) data), ws'))"

text \<open>\<open>workers\<close> is the larger of the two concurrencies of the stores.\<close>

definition upload_missing ::
    "('l, 's) push_ctx \<Rightarrow> 'l \<Rightarrow> nat \<Rightarrow> hash \<Rightarrow> pack_writer \<times> 's \<Rightarrow> unit result \<Rightarrow> pack_writer \<times> 's \<Rightarrow> bool" where
  "upload_missing X l workers root ws res ws' \<longleftrightarrow>
     (if 2 \<le> workers then parallel_bfs (upload_node X l) [root] workers ws res ws'
      else serial_walk (upload_node X l) [root] [] ws = Some (res, ws'))"

text \<open>A publication that fails may have added objects to the remote.\<close>

definition upload_and_finalize ::
    "('l, 's) push_ctx \<Rightarrow> 'l \<Rightarrow> nat \<Rightarrow> hash \<Rightarrow> bytes \<Rightarrow> pack_writer \<times> 's \<Rightarrow> bytes option \<Rightarrow>
       unit result \<Rightarrow> 's \<Rightarrow> bytes option \<Rightarrow> bool" where
  "upload_and_finalize X l workers root nonce ws pointer res s' pointer' \<longleftrightarrow>
     (\<exists>r w s. upload_missing X l workers root ws r (w, s) \<and>
        (case r of
           Inl e \<Rightarrow> res = Inl e \<and> s' = s \<and> pointer' = pointer
         | Inr _ \<Rightarrow>
             (case finish (pu_cx X) w s pointer root nonce of
                Inl e \<Rightarrow> res = Inl e \<and> grows (pu_cx X) s s' \<and> pointer' = pointer
              | Inr (n, w', s2, p2) \<Rightarrow> res = Inr () \<and> s' = s2 \<and> pointer' = p2)))"

section \<open>The whole push\<close>

text \<open>What a push works on: the local store with its tree cache, the files of the stat
  cache, the recorded root, the remote with its root pointer, and the cache of index files.\<close>

record repo =
  re_local :: "objects_backend tree_state"
  re_stat_file :: "bytes option"
  re_epoch :: "bytes option"
  re_clone_root :: "hash option"
  re_remote :: objects_backend
  re_pointer :: "bytes option"
  re_objcache :: objects_backend

text \<open>What the environment contributes: the scan configuration without its hints, the working
  tree, the sample size and new epoch of the seals, the nonce of the index root, the number
  of workers, and the bound for the depth of the recorded tree.\<close>

record push_env =
  pe_cfg :: "objects_backend scan_cfg"
  pe_work_dir :: fsnode
  pe_root :: "gdir result"
  pe_sample :: nat
  pe_new_epoch :: bytes
  pe_epoch_writable :: bool
  pe_nonce :: bytes
  pe_workers :: nat
  pe_depth :: nat
  pe_pack :: "objects_backend pack_ctx"

datatype push_outcome = NothingToPush | WouldPush hash | PushedRoot hash

definition recorded_entries ::
    "push_env \<Rightarrow> repo \<Rightarrow> ((string \<times> tree_entry) list option \<times> objects_backend tree_state) result" where
  "recorded_entries P r =
     (case re_clone_root r of
        None \<Rightarrow> Inr (None, re_local r)
      | Some h \<Rightarrow>
          rbind (flatten_tree_entries_for_push (pe_depth P) (sg_cx (pe_cfg P)) (re_local r) h) (\<lambda>(flat, st). Inr (Some flat, st)))"

text \<open>The scan of the push: the root it finds, the conflicts, and the repository with the new
  objects and the refreshed stat cache.\<close>

definition push_scan :: "push_env \<Rightarrow> repo \<Rightarrow> (hash \<times> string set \<times> repo) result" where
  "push_scan P r =
     rbind (recorded_entries P r) (\<lambda>(flat, st).
       let cfg = pe_cfg P;
           cache = compute_seals_trusted (tc_env (sg_cx cfg)) (tc_ops (sg_cx cfg)) (ts_store st) (pe_sample P) (re_epoch r)
             (stat_read (re_stat_file r))
       in rbind (scan_and_store_with_stub_store (cfg\<lparr>sg_clone := flat, sg_cache := Some cache, sg_write := True\<rparr>)
             (pe_work_dir P) (Some []) (pe_root P) (Inr None) st) (\<lambda>(scanned, st).
            case refresh_stat_cache cache (scan_files scanned) (pe_new_epoch P) (pe_epoch_writable P) True (re_stat_file r) (re_epoch r) of
              (file, marker) \<Rightarrow>
                Inr (root_hash scanned, conflict_paths (scan_side scanned),
                     r\<lparr>re_local := st, re_stat_file := file, re_epoch := marker\<rparr>)))"

definition recover_from_missing_object :: "error \<Rightarrow> repo \<Rightarrow> error \<times> repo" where
  "recover_from_missing_object e r =
     (case e of
        LocalObjectMissing h \<Rightarrow>
          (Other ''upload failed: a referenced local object is missing'',
           case write_if_dirty (snd (clear_all_sealed (stat_read (re_stat_file r)))) (re_stat_file r) of
             Inr (_, file, _) \<Rightarrow> r\<lparr>re_stat_file := file\<rparr> | Inl _ \<Rightarrow> r)
      | _ \<Rightarrow> (e, r))"

definition push_empty :: "push_env \<Rightarrow> hash" where
  "push_empty P = empty_tree_hash (sha (tc_env (sg_cx (pe_cfg P)))) (tc_to_json (sg_cx (pe_cfg P)))"

text \<open>From the writer to the guards; the result is the writer at the start of the upload.\<close>

definition push_open :: "push_env \<Rightarrow> repo \<Rightarrow> hash \<Rightarrow> pack_writer result" where
  "push_open P r new_root =
     rbind (pack_writer_new (pe_pack P) (re_remote r) (re_pointer r) (re_objcache r)) (\<lambda>w.
     rbind (remote_root_snapshot (pe_pack P) w) (\<lambda>origin_root.
     rbind (post_clone_sync_guard (sha (tc_env (sg_cx (pe_cfg P)))) (tc_to_json (sg_cx (pe_cfg P))) (re_clone_root r) (index_root_present w)) (\<lambda>_.
     rbind (require_remote_not_advanced (push_empty P) (re_clone_root r) origin_root new_root) (\<lambda>_. Inr w))))"

definition push_ctx_of :: "push_env \<Rightarrow> (objects_backend, objects_backend) push_ctx" where
  "push_ctx_of P = \<lparr>pu_local = tc_ops (sg_cx (pe_cfg P)), pu_from_json = tc_from_json (sg_cx (pe_cfg P)), pu_cx = pe_pack P\<rparr>"

text \<open>\<open>seen_pointer\<close> is the root pointer that the publication meets, which another client may
  have replaced since the start.\<close>

definition push_upload ::
    "push_env \<Rightarrow> repo \<Rightarrow> hash \<Rightarrow> pack_writer \<Rightarrow> bytes option \<Rightarrow> push_outcome result \<Rightarrow> repo \<Rightarrow> bool" where
  "push_upload P r new_root w seen_pointer res r' \<longleftrightarrow>
     (\<exists>u s p. upload_and_finalize (push_ctx_of P) (ts_store (re_local r)) (pe_workers P) new_root (pe_nonce P)
          (w, re_remote r) seen_pointer u s p \<and>
        (case u of
           Inr _ \<Rightarrow> res = Inr (PushedRoot new_root) \<and> r' = r\<lparr>re_remote := s, re_pointer := p, re_clone_root := Some new_root\<rparr>
         | Inl e \<Rightarrow>
             (case recover_from_missing_object e (r\<lparr>re_remote := s, re_pointer := p\<rparr>) of (e', r2) \<Rightarrow> res = Inl e' \<and> r' = r2)))"

definition push_full :: "push_env \<Rightarrow> bool \<Rightarrow> repo \<Rightarrow> bytes option \<Rightarrow> push_outcome result \<Rightarrow> repo \<Rightarrow> bool" where
  "push_full P dry_run r seen_pointer res r' \<longleftrightarrow>
     (case push_scan P r of
        Inl e \<Rightarrow> res = Inl e \<and> re_remote r' = re_remote r \<and> re_pointer r' = re_pointer r \<and> re_clone_root r' = re_clone_root r
      | Inr (new_root, conflicts, r1) \<Rightarrow>
          if conflicts \<noteq> {} then res = Inl (Other ''unresolved conflicts'') \<and> r' = r1
          else if re_clone_root r1 = Some new_root then res = Inr NothingToPush \<and> r' = r1
          else if dry_run then res = Inr (WouldPush new_root) \<and> r' = r1
          else (case push_open P r1 new_root of
                  Inl e \<Rightarrow> res = Inl e \<and> r' = r1
                | Inr w \<Rightarrow> push_upload P r1 new_root w seen_pointer res r'))"


section \<open>What a walk keeps\<close>

definition node_keeps :: "('h, 's) node_fn \<Rightarrow> ('s \<Rightarrow> bool) \<Rightarrow> bool" where
  "node_keeps node I \<longleftrightarrow> (\<forall>h s. I s \<longrightarrow> I (snd (node h s)))"

lemma node_keepsD: "node_keeps node I \<Longrightarrow> I s \<Longrightarrow> node h s = (r, t) \<Longrightarrow> I t"
  unfolding node_keeps_def by (metis snd_conv)

lemma serial_walk_inv:
  fixes node :: "('h, 's) node_fn"
  assumes "serial_walk node q v s = Some x"
  shows "node_keeps node I \<longrightarrow> I s \<longrightarrow> I (snd x)"
  using assms
proof (rule serial_walk.raw_induct [rotated])
  fix walk :: "('h, 's) node_fn \<Rightarrow> 'h list \<Rightarrow> 'h list \<Rightarrow> 's \<Rightarrow> (unit result \<times> 's) option" and node q v s x
  assume IH: "\<And>node q v s x. walk node q v s = Some x \<Longrightarrow> node_keeps node I \<longrightarrow> I s \<longrightarrow> I (snd x)"
    and e: "(case q of [] \<Rightarrow> Some (Inr (), s)
      | h # q' \<Rightarrow> if h \<in> set v then walk node q' v s
          else (case node h s of (Inl e, s') \<Rightarrow> Some (Inl e, s') | (Inr cs, s') \<Rightarrow> walk node (q' @ cs) (h # v) s')) = Some x"
  show "node_keeps node I \<longrightarrow> I s \<longrightarrow> I (snd x)"
  proof (intro impI)
    assume k: "node_keeps node I" and i: "I s"
    show "I (snd x)"
    proof (cases q)
      case (Cons h q')
      obtain r t where n: "node h s = (r, t)" by (cases "node h s")
      then have t: "I t" by (rule node_keepsD [OF k i])
      show ?thesis using e IH k i t Cons n by (cases r) (auto split: if_splits)
    qed (use e i in auto)
  qed
qed

lemma worker_step_store:
  assumes "worker_step child node i w = Some w'" "node_keeps node I" "I (store w)"
  shows "I (store w')"
proof (cases "pcs w ! i")
  case (Process h)
  obtain r t where n: "node h (store w) = (r, t)" by (cases "node h (store w)")
  then have "I t" by (rule node_keepsD [OF assms(2,3)])
  with n assms(1) Process show ?thesis by (auto simp: worker_step_def split: if_splits sum.splits)
qed (use assms(1,3) in \<open>auto simp: worker_step_def split: if_splits list.splits\<close>)

lemma bfs_run_inv:
  assumes "bfs_run child node roots n s w" "node_keeps node I" "I s"
  shows "I (store w)"
  using assms(1)
proof induction
  case (step w i w')
  then show ?case using worker_step_store [OF step(2) assms(2)] by blast
qed (use assms(3) in \<open>simp_all add: bfs_init_def\<close>)

lemma upload_missing_inv:
  assumes "upload_missing X l workers root ws res ws'" "node_keeps (upload_node X l) I" "I ws"
  shows "I ws'"
proof (cases "2 \<le> workers")
  case True
  with assms(1) obtain w where "bfs_run False (upload_node X l) [root] workers ws w" "ws' = store w"
    by (auto simp: upload_missing_def parallel_bfs_def)
  with bfs_run_inv [OF this(1) assms(2,3)] show ?thesis by simp
next
  case False
  with assms(1) have "serial_walk (upload_node X l) [root] [] ws = Some (res, ws')" by (simp add: upload_missing_def)
  from serial_walk_inv [OF this, of I] assms(2,3) show ?thesis by simp
qed

section \<open>The guards of a push\<close>

text \<open>Nothing a push does before the publication moves the root pointer it started from.\<close>

lemma flush_pack_start:
  "flush_pack cx w s = Inr (w', s') \<Longrightarrow> w_start_snapshot w' = w_start_snapshot w \<and> w_start_token w' = w_start_token w"
  by (auto simp: flush_pack_def Let_def rbind_Inr_iff split: if_splits)

lemma route_start:
  "route cx w s h b = Inr (w', s') \<Longrightarrow> w_start_snapshot w' = w_start_snapshot w \<and> w_start_token w' = w_start_token w"
  by (auto simp: route_def Let_def rbind_Inr_iff append_pack_def dest!: flush_pack_start split: if_splits)

lemma writer_exists_start:
  "writer_exists cx w s h = Inr (r, w') \<Longrightarrow> w_start_snapshot w' = w_start_snapshot w \<and> w_start_token w' = w_start_token w"
  by (drule writer_exists_state) auto

lemma upload_node_start:
  fixes X :: "('l, 's) push_ctx"
  shows "node_keeps (upload_node X l) (\<lambda>ws. w_start_token (fst ws) = t)"
  unfolding node_keeps_def
proof (intro allI impI)
  fix h and ws :: "pack_writer \<times> 's" assume t: "w_start_token (fst ws) = t"
  obtain w s where ws: "ws = (w, s)" by (cases ws)
  show "w_start_token (fst (snd (upload_node X l h ws))) = t"
    using t by (auto simp: ws upload_node_def upload_process_def writer_store_write_def rbind_Inr_iff
        dest!: writer_exists_start route_start split: sum.splits option.splits bool.splits prod.splits if_splits)
qed


section \<open>What an upload relies on\<close>

definition local_content :: "('l, 's) push_ctx \<Rightarrow> 'l \<Rightarrow> hash \<Rightarrow> bytes result" where
  "local_content X l h = store_read (cx_env (pu_cx X)) (pu_local X) l h None"

definition local_kids :: "('l, 's) push_ctx \<Rightarrow> 'l \<Rightarrow> hash \<Rightarrow> hash list" where
  "local_kids X l h = (case local_content X l h of Inr x \<Rightarrow> child_hashes (pu_from_json X) x | Inl _ \<Rightarrow> [])"

text \<open>The byte string under which an object of the local store is put on the remote.\<close>

definition upload_form :: "('l, 's) push_ctx \<Rightarrow> 'l \<Rightarrow> hash \<Rightarrow> bytes" where
  "upload_form X l h =
     encode_obj (cx_env (pu_cx X)) (case local_content X l h of Inr x \<Rightarrow> x | Inl _ \<Rightarrow> []) (cx_key (pu_cx X)) (raw h)"

text \<open>What the index of the remote lists at the start of the push.\<close>

definition listed_as :: "'s pack_ctx \<Rightarrow> pack_writer \<times> 's \<Rightarrow> hash \<Rightarrow> index_entry option" where
  "listed_as cx ws0 h =
     (case w_snapshot_root (fst ws0) of None \<Rightarrow> None | Some ir \<Rightarrow> first_hit cx (snd ws0) h (indexes_for h ir))"

definition listed :: "'s pack_ctx \<Rightarrow> pack_writer \<times> 's \<Rightarrow> hash \<Rightarrow> bool" where
  "listed cx ws0 h \<longleftrightarrow> listed_as cx ws0 h \<noteq> None"

definition upload_kids :: "('l, 's) push_ctx \<Rightarrow> 'l \<Rightarrow> pack_writer \<times> 's \<Rightarrow> hash \<Rightarrow> hash list" where
  "upload_kids X l ws0 h = (if listed (pu_cx X) ws0 h then [] else local_kids X l h)"

definition staged :: "pack_writer \<Rightarrow> hash set" where
  "staged w = ihash ` set (w_delta w) \<union> fst ` set (w_pending w)"

definition index_keys_ok :: "index_cache \<Rightarrow> bool" where
  "index_keys_ok c \<longleftrightarrow> (\<forall>n. ic_indexes c n \<noteq> None \<longrightarrow> hash_ok n)"

text \<open>The name under which the next object is stored is not taken by something else.\<close>

definition next_free :: "'s pack_ctx \<Rightarrow> pack_writer \<Rightarrow> 's \<Rightarrow> hash \<Rightarrow> bytes \<Rightarrow> bool" where
  "next_free cx w s h b \<longleftrightarrow>
     (if PACK_THRESHOLD \<le> length b then free_for cx s h (escape_standalone b)
      else free_for cx s (compute (sha (cx_env cx)) (pack_file (w_pack_buf w @ b))) (pack_file (w_pack_buf w @ b)))"

text \<open>An object to be visited: the index files that may list it can be loaded, the filter
  lists what the index lists, and an object that is not listed is in the local store.\<close>

definition object_ready :: "('l, 's) push_ctx \<Rightarrow> 'l \<Rightarrow> pack_writer \<times> 's \<Rightarrow> hash \<Rightarrow> bool" where
  "object_ready X l ws0 h \<longleftrightarrow> hash_ok h \<and>
     (listed (pu_cx X) ws0 h \<longrightarrow> may_contain (w_bloom (fst ws0)) h) \<and>
     (\<not> listed (pu_cx X) ws0 h \<longrightarrow> (case local_content X l h of Inr x \<Rightarrow> length x \<le> DECOMPRESS_MAX | Inl _ \<Rightarrow> False)) \<and>
     (case w_snapshot_root (fst ws0) of None \<Rightarrow> True
      | Some ir \<Rightarrow> loadable (pu_cx X) (snd ws0) (indexes_for h ir) \<and> filter_lists (pu_cx X) (snd ws0) ir h)"

definition uploads_of :: "('l, 's) push_ctx \<Rightarrow> 'l \<Rightarrow> pack_writer \<times> 's \<Rightarrow> hash \<Rightarrow> (hash \<times> bytes) set" where
  "uploads_of X l ws0 root =
     (\<lambda>h. (h, upload_form X l h)) ` {h \<in> reach (upload_kids X l ws0) [root]. \<not> listed (pu_cx X) ws0 h}"

definition push_ready :: "('l, 's) push_ctx \<Rightarrow> 'l \<Rightarrow> pack_writer \<times> 's \<Rightarrow> hash \<Rightarrow> bool" where
  "push_ready X l ws0 root \<longleftrightarrow>
     finite (reach (local_kids X l) [root]) \<and> card (reach (local_kids X l) [root]) < 2 ^ 32 \<and>
     (\<forall>h \<in> reach (local_kids X l) [root]. object_ready X l ws0 h) \<and>
     (\<forall>objs w s. push_run (pu_cx X) ws0 objs (w, s) \<longrightarrow> set objs \<subseteq> uploads_of X l ws0 root \<longrightarrow>
        finish_free (pu_cx X) w s \<and> (\<forall>(h, b) \<in> uploads_of X l ws0 root. next_free (pu_cx X) w s h b))"

text \<open>With an object the remote lists everything the object refers to.\<close>

definition remote_complete :: "('l, 's) push_ctx \<Rightarrow> 'l \<Rightarrow> pack_writer \<times> 's \<Rightarrow> hash \<Rightarrow> bool" where
  "remote_complete X l ws0 root \<longleftrightarrow>
     (\<forall>h \<in> reach (local_kids X l) [root]. listed (pu_cx X) ws0 h \<longrightarrow> list_all (listed (pu_cx X) ws0) (local_kids X l h))"

lemma reach_upload_local: "h \<in> reach (upload_kids X l ws0) [root] \<Longrightarrow> h \<in> reach (local_kids X l) [root]"
  by (induction rule: reach.induct) (auto simp: upload_kids_def intro: reach.root reach.child split: if_splits)

lemma reach_local_upload:
  assumes "remote_complete X l ws0 root" "h \<in> reach (local_kids X l) [root]"
  shows "h \<in> reach (upload_kids X l ws0) [root] \<or> listed (pu_cx X) ws0 h"
  using assms(2)
proof induction
  case (child h c)
  show ?case
  proof (cases "listed (pu_cx X) ws0 h")
    case True
    with child assms(1) show ?thesis by (auto simp: remote_complete_def list_all_iff)
  next
    case False
    with child have "c \<in> set (upload_kids X l ws0 h)" by (simp add: upload_kids_def)
    moreover have "h \<in> reach (upload_kids X l ws0) [root]" using False child.IH by simp
    ultimately show ?thesis by (auto intro: reach.child)
  qed
qed (auto intro: reach.root)

section \<open>Uploading one object\<close>

lemma index_keys_search:
  assumes "search_indexes cx s h ns c = Inr (r, c')" "\<forall>n \<in> set ns. hash_ok n" "index_keys_ok c"
  shows "index_keys_ok c'"
  using assms
proof (induction ns arbitrary: c)
  case (Cons n ns)
  then obtain idx c1 where l: "load_resident_index cx s n c = Inr (idx, c1)" by (auto simp: rbind_Inr_iff)
  then have "index_keys_ok c1"
    using Cons.prems(2,3) by (auto simp: load_resident_index_def index_keys_ok_def rbind_Inr_iff split: option.splits if_splits)
  with Cons l show ?case by (auto split: option.splits)
qed simp

lemma index_keys_exists:
  assumes "writer_exists cx w s h = Inr (r, w')" "index_keys_ok (w_cache w)"
    "\<And>ir. w_snapshot_root w = Some ir \<Longrightarrow> loadable cx s (indexes_for h ir)"
  shows "index_keys_ok (w_cache w')"
  using assms index_keys_search [of cx s h _ "w_cache w"]
  by (fastforce simp: writer_exists_def index_contains_def rbind_Inr_iff loadable_def split: if_splits option.splits)

lemma cache_grows:
  assumes "cache_ok cx s c" "index_keys_ok c" "grows cx s s'"
  shows "cache_ok cx s' c"
  using assms stored_plain_grows [OF assms(3)] index_at_grows [OF assms(3)]
  unfolding cache_ok_def index_keys_ok_def by (metis option.distinct(1))

lemma staged_objs:
  assumes "run_ok cx objs w s"
  shows "staged w = fst ` set objs"
proof
  note k = run_okD [OF assms]
  show "staged w \<subseteq> fst ` set objs" using k(1,3) by (force simp: staged_def entries_for_def pending_for_def)
  show "fst ` set objs \<subseteq> staged w" using k(4) by (auto simp: staged_def routed_def)
qed

context store_laws
begin

lemma route_total:
  assumes i: "inv s" "cx_ops cx = S" and run: "run_ok cx objs w s" "same_content objs h b"
    and buf: "length (w_pack_buf w) < PACK_TARGET" and f: "next_free cx w s h b"
  shows "\<exists>w' s'. route cx w s h b = Inr (w', s') \<and> grows cx s s' \<and> w_cache w' = w_cache w"
proof -
  consider (inline) "length b < INLINE_THRESHOLD"
    | (pack) "INLINE_THRESHOLD \<le> length b" "length b < PACK_THRESHOLD"
    | (alone) "PACK_THRESHOLD \<le> length b" by linarith
  then show ?thesis
  proof cases
    case inline
    then show ?thesis by (simp add: route_def)
  next
    case pack
    let ?w = "append_pack w h b"
    have "length (w_pack_buf w) + length b < 2 ^ 32" using buf pack by (simp add: pack_sizes)
    note a = append_ok [OF run this]
    have "free_for cx s (compute (sha (cx_env cx)) (pack_file (w_pack_buf ?w))) (pack_file (w_pack_buf ?w))"
      using f pack by (simp add: next_free_def append_pack_def)
    from flush_ok [OF i a this] obtain w1 s1 where fl: "flush_pack cx ?w s = Inr (w1, s1)" "grows cx s s1" by blast
    then have "w_cache w1 = w_cache w" by (auto simp: flush_pack_def Let_def rbind_Inr_iff append_pack_def split: if_splits)
    with fl pack show ?thesis by (auto simp: route_def Let_def append_pack_def)
  next
    case alone
    then have "free_for cx s h (escape_standalone b)" using f by (simp add: next_free_def)
    from write_free [OF i this] obtain s' where "os_write_from S s h (escape_standalone b) = Inr s'" "grows cx s s'" by blast
    moreover have "\<not> length b < INLINE_THRESHOLD" "\<not> length b < PACK_THRESHOLD" using alone by (simp_all add: pack_sizes)
    ultimately show ?thesis using i(2) by (simp add: route_def)
  qed
qed

end


section \<open>The upload as a walk\<close>

text \<open>The writer as the push has opened it, over a local or a directory remote.\<close>

definition push_start ::
    "(bytes \<Rightarrow> bytes \<Rightarrow> bytes) \<Rightarrow> ('l, objects_backend) push_ctx \<Rightarrow> bytes option \<Rightarrow> objects_backend \<Rightarrow>
       pack_writer \<times> objects_backend \<Rightarrow> bool" where
  "push_start hmac X pointer oc ws0 \<longleftrightarrow>
     keys_apart hmac (cx_key (pu_cx X)) \<and> cx_ops (pu_cx X) = local_store hmac (cx_key (pu_cx X)) \<and>
     gcm_opens (cx_env (pu_cx X)) \<and> zstd_lossless (cx_env (pu_cx X)) \<and> backend_ok (snd ws0) \<and>
     pack_writer_new (pu_cx X) (snd ws0) pointer oc = Inr (fst ws0) \<and> cache_ok (pu_cx X) (snd ws0) (w_cache (fst ws0))"

definition upload_run ::
    "('l, 's) push_ctx \<Rightarrow> 'l \<Rightarrow> pack_writer \<times> 's \<Rightarrow> hash \<Rightarrow> (hash \<times> bytes) list \<Rightarrow> pack_writer \<times> 's \<Rightarrow> bool" where
  "upload_run X l ws0 root objs ws \<longleftrightarrow> push_run (pu_cx X) ws0 objs ws \<and> set objs \<subseteq> uploads_of X l ws0 root \<and>
     distinct (map fst objs) \<and> length (w_pack_buf (fst ws)) < PACK_TARGET \<and>
     cache_ok (pu_cx X) (snd ws) (w_cache (fst ws)) \<and> index_keys_ok (w_cache (fst ws))"

definition upload_inv where
  "upload_inv hmac X l pointer oc ws0 root ws \<longleftrightarrow> push_start hmac X pointer oc ws0 \<and> push_ready X l ws0 root \<and>
     (\<exists>objs. upload_run X l ws0 root objs ws)"

definition upload_got where
  "upload_got X ws0 h ws \<longleftrightarrow> listed (pu_cx X) ws0 h \<or> h \<in> staged (fst ws)"

definition upload_fresh :: "hash \<Rightarrow> pack_writer \<times> 's \<Rightarrow> bool" where
  "upload_fresh h ws \<longleftrightarrow> h \<notin> staged (fst ws)"

lemma push_startD:
  assumes "push_start hmac X pointer oc ws0"
  shows "store_laws (cx_ops (pu_cx X)) backend_ok (\<lambda>b h. backend_view b (hex (storage_key hmac (cx_key (pu_cx X)) h)))"
    "pu_cx X = remote_ctx (cx_env (pu_cx X)) hmac (cx_key (pu_cx X)) (cx_opt_bits (pu_cx X))"
    "keys_apart hmac (cx_key (pu_cx X))" "backend_ok (snd ws0)" "pack_writer_new (pu_cx X) (snd ws0) pointer oc = Inr (fst ws0)"
  using assms keys_apart_laws [of hmac "cx_key (pu_cx X)"]
  by (auto simp: push_start_def remote_ctx_def)

lemma upload_runD:
  assumes "push_start hmac X pointer oc ws0" "upload_run X l ws0 root objs (w, s)"
  shows "backend_ok s" "grows (pu_cx X) (snd ws0) s" "run_ok (pu_cx X) objs w s" "same_start (fst ws0) w" "staged w = fst ` set objs"
proof -
  note d = push_startD [OF assms(1)]
  have "push_run (pu_cx X) (fst ws0, snd ws0) objs (w, s)" using assms(2) by (simp add: upload_run_def)
  from store_laws.push_run_ok [OF d(1) this d(4) refl pack_writer_new_ok(1) [OF d(5)]]
  show "backend_ok s" "grows (pu_cx X) (snd ws0) s" "same_start (fst ws0) w" and r: "run_ok (pu_cx X) objs w s" by simp_all
  show "staged w = fst ` set objs" by (rule staged_objs [OF r])
qed

lemma new_writer_empty:
  assumes "pack_writer_new cx s pointer oc = Inr w"
  shows "w_pack_buf w = []" "index_keys_ok (w_cache w)" "staged w = {}"
  using assms by (auto simp: pack_writer_new_def root_read_def rbind_Inr_iff index_keys_ok_def staged_def)

lemma upload_start:
  assumes "push_start hmac X pointer oc ws0" "push_ready X l ws0 root"
  shows "upload_run X l ws0 root [] ws0" "staged (fst ws0) = {}"
proof -
  note n = new_writer_empty [OF push_startD(5) [OF assms(1)]]
  show "staged (fst ws0) = {}" by (rule n(3))
  show "upload_run X l ws0 root [] ws0" using assms(1) n by (simp add: upload_run_def push_start_def pack_sizes push_run.start)
qed

text \<open>The membership test during an upload.\<close>

lemma upload_lookup:
  assumes st: "push_start hmac X pointer oc ws0" and r: "object_ready X l ws0 h" and run: "upload_run X l ws0 root objs (w, s)"
  shows "\<exists>w'. writer_exists (pu_cx X) w s h = Inr (h \<in> staged w \<or> listed (pu_cx X) ws0 h, w') \<and>
    upload_run X l ws0 root objs (w', s) \<and> staged w' = staged w"
proof -
  let ?cx = "pu_cx X"
  note d = push_startD [OF st] and u = upload_runD [OF st run]
  have pr: "push_run ?cx (fst ws0, snd ws0) objs (w, s)" and c: "cache_ok ?cx s (w_cache w)" "index_keys_ok (w_cache w)"
    using run by (simp_all add: upload_run_def)
  have idx: "loadable ?cx s (indexes_for h ir) \<and> first_hit ?cx s h (indexes_for h ir) = first_hit ?cx (snd ws0) h (indexes_for h ir)"
    if "w_snapshot_root (fst ws0) = Some ir" for ir
    using r that first_hit_grows [OF u(2), of "indexes_for h ir" h] by (simp add: object_ready_def)
  then have "\<forall>ir. w_snapshot_root (fst ws0) = Some ir \<longrightarrow> loadable ?cx s (indexes_for h ir) \<and>
      (first_hit ?cx s h (indexes_for h ir) \<noteq> None \<longrightarrow> may_contain (w_bloom (fst ws0)) h)"
    using r by (simp add: object_ready_def listed_def listed_as_def)
  from writer_exists_exact [OF d(3,4,2,5) pr c(1) _ this] obtain w' where
    w: "writer_exists ?cx w s h = Inr (h \<in> fst ` set objs \<or>
         (\<exists>ir. w_snapshot_root (fst ws0) = Some ir \<and> first_hit ?cx s h (indexes_for h ir) \<noteq> None), w')" "cache_ok ?cx s (w_cache w')"
    using r unfolding object_ready_def by blast
  have l: "(\<exists>ir. w_snapshot_root (fst ws0) = Some ir \<and> first_hit ?cx s h (indexes_for h ir) \<noteq> None) \<longleftrightarrow> listed ?cx ws0 h"
    using idx by (auto simp: listed_def listed_as_def split: option.splits)
  have "w_snapshot_root w = w_snapshot_root (fst ws0)" using u(4) by (simp add: same_start_def)
  with index_keys_exists [OF w(1) c(2)] idx have k: "index_keys_ok (w_cache w')" by simp
  from writer_exists_state [OF w(1)] obtain c' where "w' = w\<lparr>w_cache := c'\<rparr>" ..
  then have same: "staged w' = staged w" "w_pack_buf w' = w_pack_buf w" by (simp_all add: staged_def)
  have "push_run ?cx ws0 objs (w', s)" using push_run.lookup [OF _ w(1)] pr by simp
  with run w(2) k same have "upload_run X l ws0 root objs (w', s)" by (simp add: upload_run_def)
  with w(1) same u(5) show ?thesis unfolding l by auto
qed

text \<open>An object that the remote does not list is routed.\<close>

lemma upload_route:
  assumes st: "push_start hmac X pointer oc ws0" "push_ready X l ws0 root" and run: "upload_run X l ws0 root objs (w, s)"
    and h: "h \<in> reach (upload_kids X l ws0) [root]" "h \<notin> staged w" "\<not> listed (pu_cx X) ws0 h"
  shows "\<exists>w' s'. route (pu_cx X) w s h (upload_form X l h) = Inr (w', s') \<and>
    upload_run X l ws0 root ((h, upload_form X l h) # objs) (w', s') \<and> staged w' = insert h (staged w)"
proof -
  let ?cx = "pu_cx X" and ?b = "upload_form X l h"
  note d = push_startD [OF st(1)] and u = upload_runD [OF st(1) run]
  have mem: "(h, ?b) \<in> uploads_of X l ws0 root" using h by (auto simp: uploads_of_def)
  have pr: "push_run ?cx ws0 objs (w, s)" "set objs \<subseteq> uploads_of X l ws0 root" "distinct (map fst objs)"
    "length (w_pack_buf w) < PACK_TARGET" "cache_ok ?cx s (w_cache w)" "index_keys_ok (w_cache w)" using run by (simp_all add: upload_run_def)
  have new: "h \<notin> fst ` set objs" using h(2) u(5) by simp
  have ok: "hash_ok h" using st(2) reach_upload_local [OF h(1)] by (simp add: push_ready_def object_ready_def)
  then have sc: "same_content objs h ?b" using new by (force simp: same_content_def list_all_iff)
  have f: "next_free ?cx w s h ?b" using st(2) pr(1,2) mem by (fastforce simp: push_ready_def)
  from store_laws.route_total [OF d(1) u(1) refl u(3) sc pr(4) f] obtain w' s' where
    r: "route ?cx w s h ?b = Inr (w', s')" "grows ?cx s s'" "w_cache w' = w_cache w" by blast
  from route_run [OF pr(1) sc pr(4) r(1)] f have
    pr': "push_run ?cx ws0 ((h, ?b) # objs) (w', s')" "length (w_pack_buf w') < PACK_TARGET" by (auto simp: next_free_def)
  have run': "upload_run X l ws0 root ((h, ?b) # objs) (w', s')"
    using pr pr' mem new r(3) cache_grows [OF pr(5,6) r(2)] by (simp add: upload_run_def)
  with r(1) upload_runD(5) [OF st(1) run'] u(5) show ?thesis by auto
qed

lemma upload_node_ok:
  assumes "upload_inv hmac X l pointer oc ws0 root ws" "h \<in> reach (upload_kids X l ws0) [root]" "upload_fresh h ws"
  shows "\<exists>ws'. upload_node X l h ws = (Inr (upload_kids X l ws0 h), ws') \<and> upload_inv hmac X l pointer oc ws0 root ws' \<and>
    upload_got X ws0 h ws' \<and> staged (fst ws) \<subseteq> staged (fst ws') \<and> staged (fst ws') \<subseteq> insert h (staged (fst ws))"
proof -
  obtain w s where ws: "ws = (w, s)" by (cases ws)
  from assms(1) ws obtain objs where st: "push_start hmac X pointer oc ws0" "push_ready X l ws0 root" and run: "upload_run X l ws0 root objs (w, s)"
    by (auto simp: upload_inv_def)
  have rdy: "object_ready X l ws0 h" using st(2) reach_upload_local [OF assms(2)] by (simp add: push_ready_def)
  have fresh: "h \<notin> staged w" using assms(3) ws by (simp add: upload_fresh_def)
  from upload_lookup [OF st(1) rdy run] fresh obtain w1 where
    w1: "writer_exists (pu_cx X) w s h = Inr (listed (pu_cx X) ws0 h, w1)" "upload_run X l ws0 root objs (w1, s)" "staged w1 = staged w" by auto
  show ?thesis
  proof (cases "listed (pu_cx X) ws0 h")
    case True
    with w1(1) have "upload_node X l h ws = (Inr (upload_kids X l ws0 h), (w1, s))"
      by (simp add: ws upload_node_def upload_process_def upload_kids_def)
    with True st w1 ws show ?thesis by (auto simp: upload_inv_def upload_got_def)
  next
    case False
    with rdy obtain x where x: "local_content X l h = Inr x" by (auto simp: object_ready_def split: sum.splits)
    from upload_lookup [OF st(1) rdy w1(2)] fresh False w1(3) obtain w2 where
      w2: "writer_exists (pu_cx X) w1 s h = Inr (False, w2)" "upload_run X l ws0 root objs (w2, s)" "staged w2 = staged w" by auto
    from upload_route [OF st w2(2) assms(2)] fresh False w2(3) obtain w3 s3 where
      r: "route (pu_cx X) w2 s h (upload_form X l h) = Inr (w3, s3)"
        "upload_run X l ws0 root ((h, upload_form X l h) # objs) (w3, s3)" "staged w3 = insert h (staged w)" by auto
    have "writer_store_write (pu_cx X) w1 s h x = Inr (w3, s3)"
      using w2(1) r(1) x by (simp add: writer_store_write_def upload_form_def)
    then have "upload_node X l h ws = (Inr (upload_kids X l ws0 h), (w3, s3))"
      using w1(1) x False by (simp add: ws upload_node_def upload_process_def upload_kids_def local_kids_def local_content_def)
    moreover have "upload_inv hmac X l pointer oc ws0 root (w3, s3)" using st r(2) unfolding upload_inv_def by blast
    ultimately show ?thesis using r(3) ws by (auto simp: upload_got_def)
  qed
qed

interpretation uploads: graph_walk "upload_node X l" "upload_kids X l ws0" "[root]"
  "upload_inv hmac X l pointer oc ws0 root" upload_fresh "upload_got X ws0" for hmac X l pointer oc ws0 root
proof unfold_locales
  fix ws h assume "upload_inv hmac X l pointer oc ws0 root ws" "h \<in> reach (upload_kids X l ws0) [root]" "upload_fresh h ws"
  from upload_node_ok [OF this] obtain ws' where
    w: "upload_node X l h ws = (Inr (upload_kids X l ws0 h), ws')" "upload_inv hmac X l pointer oc ws0 root ws'" "upload_got X ws0 h ws'"
      "staged (fst ws) \<subseteq> staged (fst ws')" "staged (fst ws') \<subseteq> insert h (staged (fst ws))" by blast
  then have "\<forall>h'. upload_got X ws0 h' ws \<longrightarrow> upload_got X ws0 h' ws'" "\<forall>h'. h' \<noteq> h \<longrightarrow> upload_fresh h' ws \<longrightarrow> upload_fresh h' ws'"
    by (auto simp: upload_got_def upload_fresh_def)
  with w show "\<exists>ws'. upload_node X l h ws = (Inr (upload_kids X l ws0 h), ws') \<and> upload_inv hmac X l pointer oc ws0 root ws' \<and>
      upload_got X ws0 h ws' \<and> (\<forall>h'. upload_got X ws0 h' ws \<longrightarrow> upload_got X ws0 h' ws') \<and>
      (\<forall>h'. h' \<noteq> h \<longrightarrow> upload_fresh h' ws \<longrightarrow> upload_fresh h' ws')" by blast
next
  fix ws assume "upload_inv hmac X l pointer oc ws0 root ws"
  then have "finite (reach (local_kids X l) [root])" by (simp add: upload_inv_def push_ready_def)
  then show "finite (reach (upload_kids X l ws0) [root])" by (rule rev_finite_subset) (auto intro: reach_upload_local)
qed


section \<open>A push completes the remote\<close>

lemma upload_completes:
  assumes "push_start hmac X pointer oc ws0" "push_ready X l ws0 root"
  shows "(\<exists>res ws. upload_missing X l workers root ws0 res ws) \<and>
    (\<forall>res ws. upload_missing X l workers root ws0 res ws \<longrightarrow> res = Inr () \<and> upload_inv hmac X l pointer oc ws0 root ws \<and>
       (\<forall>h \<in> reach (upload_kids X l ws0) [root]. upload_got X ws0 h ws))"
proof -
  note st = upload_start [OF assms]
  have "upload_inv hmac X l pointer oc ws0 root ws0" using assms st(1) unfolding upload_inv_def by blast
  moreover have "upload_fresh h ws0" for h using st(2) by (simp add: upload_fresh_def)
  ultimately have good: "upload_inv hmac X l pointer oc ws0 root ws0" "\<And>h. h \<in> reach (upload_kids X l ws0) [root] \<Longrightarrow> upload_fresh h ws0" by blast+
  note cs = uploads.can_startI [OF good]
  show ?thesis
  proof (cases "2 \<le> workers")
    case True
    with uploads.parallel_bfs_complete [OF cs, of workers] show ?thesis by (simp add: upload_missing_def)
  next
    case False
    from uploads.serial_walk_complete [OF cs] obtain ws where
      "serial_walk (upload_node X l) [root] [] ws0 = Some (Inr (), ws)" "upload_inv hmac X l pointer oc ws0 root ws"
      "\<forall>h \<in> reach (upload_kids X l ws0) [root]. upload_got X ws0 h ws" by blast
    with False show ?thesis unfolding upload_missing_def by auto
  qed
qed

definition readable_as where
  "readable_as X l ws0 s p rd h \<longleftrightarrow>
     (case listed_as (pu_cx X) ws0 h of
        Some e \<Rightarrow> \<exists>rd'. locate (pu_cx X) s p h rd = Inr (Entry e, rd')
      | None \<Rightarrow> \<exists>b rd'. reader_open_read (pu_cx X) s p h rd = Inr (b, rd') \<and>
          decode_obj (cx_env (pu_cx X)) b (cx_key (pu_cx X)) (raw h) = local_content X l h)"

lemma finalize_ok:
  assumes st: "push_start hmac X pointer oc ws0" and rdy: "push_ready X l ws0 root" and cl: "remote_complete X l ws0 root"
    and sizes: "length (delta_hashes (start_root (fst ws0))) < 65535" "length nonce = 12"
    and up: "upload_inv hmac X l pointer oc ws0 root (w, s)" "\<forall>h \<in> reach (upload_kids X l ws0) [root]. upload_got X ws0 h (w, s)"
  shows "\<exists>n w' s' p. finish (pu_cx X) w s pointer root nonce = Inr (n, w', s', p) \<and> backend_ok s' \<and>
    (\<forall>rd. reader_ok (pu_cx X) s' p rd \<longrightarrow> (\<exists>rd'. read_root (pu_cx X) p rd = Inr (hash_opt (raw root), rd')) \<and>
       (\<forall>h \<in> reach (local_kids X l) [root]. backend_view (rd_local_cache rd) (hex h) = None \<longrightarrow> readable_as X l ws0 s' p rd h))"
proof -
  let ?cx = "pu_cx X"
  from up(1) obtain objs where run: "upload_run X l ws0 root objs (w, s)" by (auto simp: upload_inv_def)
  note d = push_startD [OF st] and u = upload_runD [OF st run] and new = pack_writer_new_ok [OF push_startD(5) [OF st]]
  have objs: "set objs \<subseteq> uploads_of X l ws0 root" "distinct (map fst objs)" "push_run ?cx ws0 objs (w, s)"
    using run by (simp_all add: upload_run_def)
  have fin: "finite (reach (local_kids X l) [root])" "card (reach (local_kids X l) [root]) < 2 ^ 32" and ff: "finish_free ?cx w s"
    using rdy objs(1,3) by (auto simp: push_ready_def)
  have "fst ` set objs \<subseteq> reach (local_kids X l) [root]" using objs(1) reach_upload_local by (fastforce simp: uploads_of_def)
  from card_mono [OF fin(1) this] distinct_card [OF objs(2)] fin(2) have len: "length objs < 2 ^ 32" by simp
  have "root \<in> reach (local_kids X l) [root]" by (simp add: reach.root)
  then have root: "hash_ok root" using rdy by (simp add: push_ready_def object_ready_def)
  have E: "gcm_opens (cx_env ?cx)" "zstd_lossless (cx_env ?cx)" using st by (simp_all add: push_start_def)
  have tok: "token_for pointer = w_start_token w" using u(4) new(3) by (simp add: same_start_def)
  from store_laws.finish_ok [OF d(1) u(1) refl E(1) u(3) len sizes root base_root_start [OF d(5) u(4)] ff tok]
  obtain n w' s' rawb ir where f: "finish ?cx w s pointer root nonce = Inr (n, w', s', Some rawb)" "backend_ok s'" "grows ?cx s s'"
    "run_ok ?cx objs w' s'" "w_pending w' = []" "w_bloom w' = w_bloom w" "decode_root ?cx rawb = Inr ir"
    "published ?cx s' (start_root (fst ws0)) w' root ir" by blast
  have snap: "decode_snapshot ?cx (Some rawb) = Inr (Some ir)" using f(7) by (simp add: decode_snapshot_def)
  have "readable_as X l ws0 s' (Some rawb) rd h" if rd: "reader_ok ?cx s' (Some rawb) rd" and h: "h \<in> reach (local_kids X l) [root]"
      and miss: "backend_view (rd_local_cache rd) (hex h) = None" for rd h
  proof (cases "listed_as ?cx ws0 h")
    case None
    have or: "object_ready X l ws0 h" using rdy h by (simp add: push_ready_def)
    with None obtain x where x: "local_content X l h = Inr x" "length x \<le> DECOMPRESS_MAX"
      by (auto simp: object_ready_def listed_def split: sum.splits)
    have "h \<in> staged w" using up(2) reach_local_upload [OF cl h] None by (auto simp: listed_def upload_got_def)
    then have "h \<in> fst ` set objs" by (simp add: u(5))
    then have "(h, upload_form X l h) \<in> set objs" using objs(1) by (fastforce simp: uploads_of_def)
    from store_laws.read_published [OF d(1) f(2) refl rd snap f(8,4,5) this miss] obtain rd' where
      "reader_open_read ?cx s' (Some rawb) h rd = Inr (upload_form X l h, rd')" by blast
    moreover have "decode_obj (cx_env ?cx) (upload_form X l h) (cx_key ?cx) (raw h) = Inr x"
      using decode_encode_obj [OF E(2,1) x(2)] x(1) by (simp add: upload_form_def)
    ultimately show ?thesis using None x(1) by (simp add: readable_as_def)
  next
    case (Some e)
    then obtain ir0 where ir0: "w_snapshot_root (fst ws0) = Some ir0" "first_hit ?cx (snd ws0) h (indexes_for h ir0) = Some e"
      by (auto simp: listed_as_def split: option.splits)
    have or: "hash_ok h" "loadable ?cx (snd ws0) (indexes_for h ir0)" "filter_lists ?cx (snd ws0) ir0 h"
      using rdy h ir0(1) by (auto simp: push_ready_def object_ready_def)
    have "h \<notin> fst ` set objs" using objs(1) Some by (auto simp: uploads_of_def listed_def)
    moreover have "may_contain (w_bloom (fst ws0)) h \<Longrightarrow> may_contain (w_bloom w') h" using u(4) f(6) by (simp add: same_start_def)
    moreover have "start_root (fst ws0) = ir0" "decode_snapshot ?cx pointer = Inr (Some ir0)" using ir0(1) new(4) by (simp_all add: start_root_def)
    ultimately have "\<exists>rd'. locate ?cx s' (Some rawb) h rd = Inr (Entry e, rd')"
      using store_laws.kept_located(2) [OF d(1) d(4) f(2) refl d(5) _ or(2,3,1) _ f(4) grows_trans [OF u(2) f(3)] _ _ snap _ rd]
        f(8) ir0(2) by force
    with Some show ?thesis by (simp add: readable_as_def)
  qed
  moreover have "\<exists>rd'. read_root ?cx (Some rawb) rd = Inr (hash_opt (raw root), rd')" if "reader_ok ?cx s' (Some rawb) rd" for rd
    using read_index_root_ok [OF that snap] f(8) by (auto simp: read_root_def remote_root_hash_def published_def)
  ultimately show ?thesis using f(1,2) by blast
qed

lemma push_completes:
  assumes "push_start hmac X pointer oc ws0" and "push_ready X l ws0 root" and "remote_complete X l ws0 root"
    and "length (delta_hashes (start_root (fst ws0))) < 65535" and "length nonce = 12"
  shows "(\<exists>res s p. upload_and_finalize X l workers root nonce ws0 pointer res s p) \<and>
    (\<forall>res s p. upload_and_finalize X l workers root nonce ws0 pointer res s p \<longrightarrow> res = Inr () \<and> backend_ok s \<and>
      (\<forall>rd. reader_ok (pu_cx X) s p rd \<longrightarrow> (\<exists>rd'. read_root (pu_cx X) p rd = Inr (hash_opt (raw root), rd')) \<and>
         (\<forall>h \<in> reach (local_kids X l) [root]. backend_view (rd_local_cache rd) (hex h) = None \<longrightarrow>
            readable_as X l ws0 s p rd h)))"
proof -
  define Q where "Q s p \<longleftrightarrow> backend_ok s \<and>
      (\<forall>rd. reader_ok (pu_cx X) s p rd \<longrightarrow> (\<exists>rd'. read_root (pu_cx X) p rd = Inr (hash_opt (raw root), rd')) \<and>
         (\<forall>h \<in> reach (local_kids X l) [root]. backend_view (rd_local_cache rd) (hex h) = None \<longrightarrow>
            readable_as X l ws0 s p rd h))" for s p
  note up = upload_completes [OF assms(1,2), of workers]
  have fin: "\<exists>n w' s' p. finish (pu_cx X) w s pointer root nonce = Inr (n, w', s', p) \<and> Q s' p"
    if "upload_missing X l workers root ws0 r (w, s)" for r w s
  proof -
    from up that have "upload_inv hmac X l pointer oc ws0 root (w, s)"
      "\<forall>h \<in> reach (upload_kids X l ws0) [root]. upload_got X ws0 h (w, s)" by blast+
    from finalize_ok [OF assms this] show ?thesis unfolding Q_def .
  qed
  from up obtain w s where ex: "upload_missing X l workers root ws0 (Inr ()) (w, s)" by (metis surj_pair)
  with fin obtain n w' s' p where "finish (pu_cx X) w s pointer root nonce = Inr (n, w', s', p)" by blast
  with ex have "\<exists>res s p. upload_and_finalize X l workers root nonce ws0 pointer res s p"
    unfolding upload_and_finalize_def by force
  moreover have "res = Inr () \<and> Q s' p" if "upload_and_finalize X l workers root nonce ws0 pointer res s' p" for res s' p
  proof -
    from that obtain r w s where r: "upload_missing X l workers root ws0 r (w, s)" and c: "(case r of
           Inl e \<Rightarrow> res = Inl e \<and> s' = s \<and> p = pointer
         | Inr _ \<Rightarrow> (case finish (pu_cx X) w s pointer root nonce of
                Inl e \<Rightarrow> res = Inl e \<and> grows (pu_cx X) s s' \<and> p = pointer
              | Inr (n, w', s2, p2) \<Rightarrow> res = Inr () \<and> s' = s2 \<and> p = p2))" unfolding upload_and_finalize_def by blast
    from r up have "r = Inr ()" by blast
    moreover from fin [OF r] obtain n w' s2 p2 where "finish (pu_cx X) w s pointer root nonce = Inr (n, w', s2, p2)" "Q s2 p2" by blast
    ultimately show ?thesis using c by simp
  qed
  ultimately show ?thesis unfolding Q_def by blast
qed

text \<open>C1: a push leaves the remote complete. Over a remote that lists with an object all that
  the object refers to, the upload, serial or by any number of workers in any interleaving,
  and the publication succeed; afterwards every reader whose caches agree with the remote
  finds the new root, and for everything reachable from it in the local store either the
  entry the remote had before or bytes that decode to the local content.\<close>

theorem push_completes_remote:
  assumes "push_start hmac X pointer oc ws0" and "push_ready X l ws0 root" and "remote_complete X l ws0 root"
    and "length (delta_hashes (start_root (fst ws0))) < 65535" and "length nonce = 12"
  shows "(\<exists>res s p. upload_and_finalize X l workers root nonce ws0 pointer res s p) \<and>
    (\<forall>res s p. upload_and_finalize X l workers root nonce ws0 pointer res s p \<longrightarrow> res = Inr () \<and> backend_ok s \<and>
      (\<forall>rd. reader_ok (pu_cx X) s p rd \<longrightarrow> (\<exists>rd'. read_root (pu_cx X) p rd = Inr (hash_opt (raw root), rd')) \<and>
         (\<forall>h \<in> reach (local_kids X l) [root]. backend_view (rd_local_cache rd) (hex h) = None \<longrightarrow>
            readable_as X l ws0 s p rd h)))"
  by (rule push_completes [OF assms])


definition toy_push :: "(objects_backend, objects_backend) push_ctx" where
  "toy_push = \<lparr>pu_local = local_store toy_hmac None, pu_from_json = (\<lambda>_. None), pu_cx = toy_ctx\<rparr>"

definition toy_local_objects :: objects_backend where
  "toy_local_objects = RemoteB [(the (expected_path (hex toy_hash)), [4, 5])]"

lemma toy_push_content:
  "local_content toy_push toy_local_objects toy_hash = Inr [4, 5]" "upload_form toy_push toy_local_objects toy_hash = [4, 5]"
  "local_kids toy_push toy_local_objects toy_hash = []"
proof -
  show c: "local_content toy_push toy_local_objects toy_hash = Inr [4, 5]" by code_simp
  have "encode_obj toy_env [4, 5] None (raw toy_hash) = [4, 5]" by code_simp
  with c show "upload_form toy_push toy_local_objects toy_hash = [4, 5]" by (simp add: upload_form_def toy_push_def)
  have "child_hashes (\<lambda>_. None) [4, 5] = []" by code_simp
  with c show "local_kids toy_push toy_local_objects toy_hash = []" by (simp add: local_kids_def toy_push_def)
qed

text \<open>One object without children and of two bytes, pushed to an empty remote.\<close>

definition one_object :: "('l, objects_backend) push_ctx \<Rightarrow> 'l \<Rightarrow> hash \<Rightarrow> bytes \<Rightarrow> bool" where
  "one_object X l h b \<longleftrightarrow> pu_cx X = toy_ctx \<and> hash_ok h \<and> length b = 2 \<and> local_content X l h = Inr b \<and>
     upload_form X l h = b \<and> local_kids X l h = []"

lemma one_object_reach:
  assumes "one_object X l h b"
  shows "reach (local_kids X l) [h] = {h}"
proof -
  have "g = h" if "g \<in> reach (local_kids X l) [h]" for g using that
    by induction (use assms in \<open>simp_all add: one_object_def\<close>)
  then show ?thesis using reach.root [of h "[h]"] by auto
qed

lemma toy_push_runs:
  assumes "push_run toy_ctx (toy_writer, RemoteB []) objs ws" "set objs \<subseteq> {(h0, b0)}" "length b0 = 2"
  shows "snd ws = RemoteB [] \<and> w_pack_buf (fst ws) = [] \<and> w_pending (fst ws) = [] \<and>
    w_delta (fst ws) \<in> {[], [Inline h0 b0]} \<and> length (bloom_serialise (w_bloom (fst ws))) = 21"
  using assms
proof induction
  case start
  then show ?case by (simp add: toy_writer_def bloom_serialise_def BLOOM_MAGIC_def sized_for_def bloom_new_def bytes_for_def Let_def)
next
  case (inline objs w s h b w' s')
  then show ?case
    by (auto simp: route_def index_push_def partition_point_def bloom_serialise_def bloom_insert_def Let_def)
next
  case (lookup objs w s h r w')
  from writer_exists_state [OF lookup(2)] lookup show ?case by auto
qed (auto simp: pack_sizes flush_pack_def)

lemma toy_delta_length: "index_serialise [Inline h b] = Inr d \<Longrightarrow> hash_ok h \<Longrightarrow> length b = 2 \<Longrightarrow> length d = 44"
  by (auto simp: index_serialise_def INDEX_MAGIC_def hash_ok_def)

lemma toy_push_free:
  assumes "w_pack_buf w = []" "w_pending w = []" "w_delta w \<in> {[], [Inline h b]}" "length (bloom_serialise (w_bloom w)) = 21"
    and "hash_ok h" "length b = 2"
  shows "finish_free toy_ctx w (RemoteB [])"
proof -
  have fl: "flush_pack toy_ctx w (RemoteB []) = Inr (w, RemoteB [])" using assms(2) by (simp add: flush_pack_def)
  have "stored_free toy_ctx s2 (bloom_serialise (w_bloom w))" if w: "write_delta toy_ctx w (RemoteB []) new_empty = Inr (r, s2)" for r s2
  proof (cases "w_delta w = []")
    case True
    with w have "s2 = RemoteB []" by (simp add: write_delta_def)
    then show ?thesis by (simp add: stored_free_def Let_def empty_remote_free)
  next
    case False
    with assms(3) have "w_delta w = [Inline h b]" by simp
    with w obtain d where d: "length d = 44" and "os_write_from (local_store toy_hmac None) (RemoteB []) (compute (sha toy_env) d)
        (encrypt toy_env d None (raw (compute (sha toy_env) d))) = Inr s2"
      using toy_delta_length [OF _ assms(5,6)] by (auto simp: write_delta_def Let_def rbind_Inr_iff)
    from store_laws.write_other_free [OF keys_apart_laws [OF toy_keys_apart] _ _ _ this(2)] empty_remote_free
      toy_compute_neq [of "bloom_serialise (w_bloom w)" d] d assms(4)
    show ?thesis by (simp add: stored_free_def Let_def)
  qed
  with fl show ?thesis by (auto simp: finish_free_def stored_free_def Let_def empty_remote_free split: sum.splits)
qed

lemma toy_not_listed: "\<not> listed toy_ctx (toy_writer, RemoteB []) h" "listed_as toy_ctx (toy_writer, RemoteB []) h = None"
  by (simp_all add: listed_def listed_as_def toy_writer_def)

lemma one_object_ready:
  assumes "one_object X l h b"
  shows "push_start toy_hmac X None (LocalB empty_dir) (toy_writer, RemoteB [])" "push_ready X l (toy_writer, RemoteB []) h"
    "remote_complete X l (toy_writer, RemoteB []) h" "length (delta_hashes (start_root (fst (toy_writer, RemoteB [])))) < 65535"
proof -
  have X: "pu_cx X = toy_ctx" "hash_ok h" "length b = 2" "local_content X l h = Inr b" "upload_form X l h = b" "local_kids X l h = []"
    using assms by (simp_all add: one_object_def)
  show "push_start toy_hmac X None (LocalB empty_dir) (toy_writer, RemoteB [])"
    using X(1) toy_keys_apart toy_env_ok toy_writer_new reader_okD(1) [OF reader_new_ok] empty_dir_view shard_ok_cases [of 64 empty_dir]
    by (auto simp: push_start_def cache_ok_def toy_writer_def)
  have k: "upload_kids X l (toy_writer, RemoteB []) = local_kids X l"
    by (rule ext) (simp add: upload_kids_def toy_not_listed X)
  have u: "uploads_of X l (toy_writer, RemoteB []) h = {(h, b)}"
    unfolding uploads_of_def k one_object_reach [OF assms] using toy_not_listed X by auto
  have "object_ready X l (toy_writer, RemoteB []) h"
    using toy_not_listed X by (simp add: object_ready_def toy_writer_def DECOMPRESS_MAX_def)
  moreover have "finish_free toy_ctx w s \<and> next_free toy_ctx w s h b"
    if "push_run toy_ctx (toy_writer, RemoteB []) objs (w, s)" "set objs \<subseteq> {(h, b)}" for objs w s
    using toy_push_runs [OF that X(3)] toy_push_free [of w h b] X(2,3) by (simp add: next_free_def empty_remote_free pack_sizes)
  ultimately show "push_ready X l (toy_writer, RemoteB []) h"
    unfolding push_ready_def u one_object_reach [OF assms] by (simp add: X(1))
  show "remote_complete X l (toy_writer, RemoteB []) h" by (simp add: remote_complete_def X(1) toy_not_listed)
  show "length (delta_hashes (start_root (fst (toy_writer, RemoteB [])))) < 65535"
    by (simp add: start_root_def toy_writer_def new_empty_def)
qed

lemma toy_one_object: "one_object toy_push toy_local_objects toy_hash [4, 5]"
  using toy_push_content by (simp add: one_object_def toy_push_def)

theorem push_completes_remote_witness:
  "\<exists>s p b rd'. upload_and_finalize toy_push toy_local_objects 2 toy_hash (replicate 12 0) (toy_writer, RemoteB []) None (Inr ()) s p \<and>
    reader_open_read toy_ctx s p toy_hash (pack_reader_new (LocalB empty_dir) (LocalB empty_dir) (LocalB empty_dir)) = Inr (b, rd') \<and>
    decode_obj toy_env b None (raw toy_hash) = Inr [4, 5]"
proof -
  let ?rd = "pack_reader_new (LocalB empty_dir) (LocalB empty_dir) (LocalB empty_dir)" and ?ws = "(toy_writer, RemoteB [])"
  have ok: "backend_ok (LocalB empty_dir)" using shard_ok_cases [of 64 empty_dir] by simp
  have rd: "reader_ok (pu_cx toy_push) s p ?rd" for s p by (rule reader_new_ok [OF ok ok ok empty_dir_view empty_dir_view])
  have miss: "backend_view (rd_local_cache ?rd) (hex toy_hash) = None" by (simp add: pack_reader_new_def empty_dir_view)
  note push = push_completes_remote [OF one_object_ready [OF toy_one_object], of "replicate 12 0" 2]
  then obtain s p where u: "upload_and_finalize toy_push toy_local_objects 2 toy_hash (replicate 12 0) ?ws None (Inr ()) s p"
    by (metis length_replicate)
  with push rd [of s p] miss have "readable_as toy_push toy_local_objects ?ws s p ?rd toy_hash"
    unfolding one_object_reach [OF toy_one_object] by fastforce
  with u toy_push_content(1) show ?thesis by (auto simp: readable_as_def toy_push_def toy_not_listed)
qed


section \<open>A push overwrites nobody's update\<close>

text \<open>The root that a pointer names.\<close>

definition named_root :: "'s pack_ctx \<Rightarrow> bytes option \<Rightarrow> hash option result" where
  "named_root cx pointer = rbind (decode_snapshot cx pointer) (\<lambda>r. Inr (Option.bind r remote_root_hash))"

lemma snapshot_named:
  assumes "pack_writer_new cx s pointer oc = Inr w"
  shows "remote_root_snapshot cx w = named_root cx pointer"
  using pack_writer_new_ok [OF assms]
  by (cases pointer; cases "w_snapshot_root w") (auto simp: remote_root_snapshot_def named_root_def decode_snapshot_def rbind_Inr_iff)

lemma finish_replaces:
  assumes "finish cx w s pointer root nonce = Inr (n, w', s', p)"
  shows "token_for pointer = w_start_token w"
    "\<exists>ir rawb. p = Some rawb \<and> remote_root ir = raw root \<and> encrypt_index_root_bytes (cx_env cx) ir (cx_key cx) nonce = Inr rawb"
proof -
  from assms obtain w1 s1 ir0 and bh :: hash and rawb where f: "flush_pack cx w s = Inr (w1, s1)"
    "encrypt_index_root_bytes (cx_env cx) (ir0\<lparr>remote_root := raw root, bloom_hash := raw bh\<rparr>) (cx_key cx) nonce = Inr rawb"
    "cas_write pointer (w_start_token w1) rawb = Inr p"
    by (auto simp: finish_def rbind_Inr_iff Let_def)
  from flush_pack_start [OF f(1)] f(3) have "token_for pointer = w_start_token w" "p = Some rawb"
    by (auto simp: cas_write_def split: if_splits)
  then show "token_for pointer = w_start_token w"
    "\<exists>ir rawb. p = Some rawb \<and> remote_root ir = raw root \<and> encrypt_index_root_bytes (cx_env cx) ir (cx_key cx) nonce = Inr rawb"
    using f(2) by (simp, intro exI [of _ "ir0\<lparr>remote_root := raw root, bloom_hash := raw bh\<rparr>"] exI [of _ rawb]) simp
qed

lemma finalize_pointer:
  assumes "upload_and_finalize X l workers root nonce (w, s) seen_pointer res s' p" "w_start_token w = token_for start"
  shows "case res of
     Inl _ \<Rightarrow> p = seen_pointer
   | Inr _ \<Rightarrow> seen_pointer = start \<and> (\<exists>ir rawb. p = Some rawb \<and> remote_root ir = raw root \<and>
        encrypt_index_root_bytes (cx_env (pu_cx X)) ir (cx_key (pu_cx X)) nonce = Inr rawb)"
proof -
  from assms(1) obtain r w1 s1 where r: "upload_missing X l workers root (w, s) r (w1, s1)" and c: "(case r of
           Inl e \<Rightarrow> res = Inl e \<and> s' = s1 \<and> p = seen_pointer
         | Inr _ \<Rightarrow> (case finish (pu_cx X) w1 s1 seen_pointer root nonce of
                Inl e \<Rightarrow> res = Inl e \<and> grows (pu_cx X) s1 s' \<and> p = seen_pointer
              | Inr (n, w', s2, p2) \<Rightarrow> res = Inr () \<and> s' = s2 \<and> p = p2))" unfolding upload_and_finalize_def by blast
  have t: "w_start_token w1 = token_for start" using upload_missing_inv [OF r upload_node_start] assms(2) by simp
  show ?thesis
  proof (cases "res")
    case (Inr u)
    with c obtain n w' s2 where f: "finish (pu_cx X) w1 s1 seen_pointer root nonce = Inr (n, w', s2, p)" by (auto split: sum.splits)
    from finish_replaces [OF f] t token_for_inject Inr show ?thesis by simp
  qed (use c in \<open>auto split: sum.splits\<close>)
qed

lemma push_scan_fields:
  "push_scan P r = Inr (h, cs, r1) \<Longrightarrow> re_clone_root r1 = re_clone_root r \<and> re_pointer r1 = re_pointer r \<and> re_remote r1 = re_remote r"
  by (auto simp: push_scan_def rbind_Inr_iff Let_def split_beta)

lemma recover_fields:
  "recover_from_missing_object e r = (e', r') \<Longrightarrow> re_clone_root r' = re_clone_root r \<and> re_pointer r' = re_pointer r"
  by (auto simp: recover_from_missing_object_def split: error.splits sum.splits)

text \<open>C2: a push overwrites nobody's update. It reports success with a new root only if the
  pointer it replaced is, at the moment of the replacement, the very one it read at the
  start, and if the root named there was the one of the last synchronisation, or is the new
  root itself, or both sides were empty; the new pointer and the recorded root then name the
  new root. In every other outcome the recorded root is the old one and the pointer is what
  the push found.\<close>

theorem push_no_lost_update:
  assumes "push_full P dry_run r seen_pointer res r'"
  shows "case res of
    Inr (PushedRoot h) \<Rightarrow> re_clone_root r' = Some h \<and> seen_pointer = re_pointer r \<and>
      (\<exists>old. named_root (pe_pack P) (re_pointer r) = Inr old \<and>
         (old = Some h \<or> old = re_clone_root r \<or> is_empty_root (push_empty P) old \<and> is_empty_root (push_empty P) (re_clone_root r))) \<and>
      (\<exists>ir rawb. re_pointer r' = Some rawb \<and> remote_root ir = raw h \<and>
         encrypt_index_root_bytes (cx_env (pe_pack P)) ir (cx_key (pe_pack P)) (pe_nonce P) = Inr rawb)
  | _ \<Rightarrow> re_clone_root r' = re_clone_root r \<and> re_pointer r' \<in> {re_pointer r, seen_pointer}"
proof (cases "push_scan P r")
  case (Inl e)
  with assms show ?thesis by (simp add: push_full_def)
next
  case (Inr x)
  obtain h cs r1 where x: "x = (h, cs, r1)" by (cases x)
  note f = push_scan_fields [OF Inr [unfolded x]]
  show ?thesis
  proof (cases "cs \<noteq> {} \<or> re_clone_root r1 = Some h \<or> dry_run")
    case True
    with assms Inr x f show ?thesis by (auto simp: push_full_def split: if_splits)
  next
    case False
    show ?thesis
    proof (cases "push_open P r1 h")
      case (Inl e)
      with assms Inr x f False show ?thesis by (simp add: push_full_def)
    next
      case w: (Inr w)
      with assms Inr x False have up: "push_upload P r1 h w seen_pointer res r'" by (simp add: push_full_def)
      from w obtain old where o: "pack_writer_new (pe_pack P) (re_remote r1) (re_pointer r1) (re_objcache r1) = Inr w"
        "remote_root_snapshot (pe_pack P) w = Inr old" "require_remote_not_advanced (push_empty P) (re_clone_root r1) old h = Inr ()"
        by (auto simp: push_open_def rbind_Inr_iff)
      from snapshot_named [OF o(1)] o(2) f have nm: "named_root (pe_pack P) (re_pointer r) = Inr old" by simp
      have g: "old = Some h \<or> old = re_clone_root r \<or> is_empty_root (push_empty P) old \<and> is_empty_root (push_empty P) (re_clone_root r)"
        using o(3) f by (auto simp: require_remote_not_advanced_def split: if_splits)
      from up obtain u s p where u: "upload_and_finalize (push_ctx_of P) (ts_store (re_local r1)) (pe_workers P) h (pe_nonce P)
          (w, re_remote r1) seen_pointer u s p" and c: "(case u of
           Inr _ \<Rightarrow> res = Inr (PushedRoot h) \<and> r' = r1\<lparr>re_remote := s, re_pointer := p, re_clone_root := Some h\<rparr>
         | Inl e \<Rightarrow> (case recover_from_missing_object e (r1\<lparr>re_remote := s, re_pointer := p\<rparr>) of (e', r2) \<Rightarrow> res = Inl e' \<and> r' = r2))"
        unfolding push_upload_def by blast
      have "w_start_token w = token_for (re_pointer r)" using pack_writer_new_ok(3) [OF o(1)] f by simp
      note p = finalize_pointer [OF u this]
      show ?thesis
      proof (cases u)
        case (Inl e)
        with c obtain e' where "recover_from_missing_object e (r1\<lparr>re_remote := s, re_pointer := p\<rparr>) = (e', r')" "res = Inl e'"
          by (auto split: prod.splits)
        with recover_fields [OF this(1)] p Inl f show ?thesis by simp
      next
        case (Inr y)
        with c p f nm g show ?thesis by (auto simp: push_ctx_of_def)
      qed
    qed
  qed
qed

text \<open>The first push of an empty working tree to an empty remote.\<close>

definition toy_push_env :: push_env where
  "toy_push_env = \<lparr>pe_cfg = toy_cfg\<lparr>sg_clone := None\<rparr>, pe_work_dir = FsDir [], pe_root = Inr (gdir_of (WDir [] toy_dir_stat)), pe_sample = 0,
     pe_new_epoch = [1], pe_epoch_writable = True, pe_nonce = replicate 12 0, pe_workers = 1, pe_depth = 1, pe_pack = toy_ctx\<rparr>"

definition toy_repo :: repo where
  "toy_repo = \<lparr>re_local = toy_tree_state, re_stat_file = None, re_epoch = None, re_clone_root = None, re_remote = RemoteB [],
     re_pointer = None, re_objcache = LocalB empty_dir\<rparr>"

definition toy_root_hash :: hash where
  "toy_root_hash = compute toy_digest [237, 241]"

definition toy_pushed :: objects_backend where
  "toy_pushed = RemoteB [(the (expected_path (hex toy_root_hash)), [237, 241])]"

lemma toy_push_scan:
  "case push_scan toy_push_env toy_repo of Inl e \<Rightarrow> False
   | Inr (h, cs, r) \<Rightarrow> h = toy_root_hash \<and> cs = {} \<and> ts_store (re_local r) = toy_pushed \<and> re_objcache r = LocalB empty_dir"
  by code_simp

lemma toy_root_object:
  "one_object (push_ctx_of toy_push_env) toy_pushed toy_root_hash [237, 241]"
proof -
  have X: "push_ctx_of toy_push_env = \<lparr>pu_local = local_store toy_hmac None, pu_from_json = tc_from_json toy_trees, pu_cx = toy_ctx\<rparr>"
    by (simp add: push_ctx_of_def toy_push_env_def toy_cfg_def toy_trees_def local_trees_def)
  have r: "store_read toy_env (local_store toy_hmac None) toy_pushed toy_root_hash None = Inr [237, 241]" by code_simp
  then have c: "local_content (push_ctx_of toy_push_env) toy_pushed toy_root_hash = Inr [237, 241]"
    by (simp add: local_content_def X)
  have "encode_obj toy_env [237, 241] None (raw toy_root_hash) = [237, 241]" by code_simp
  then have "upload_form (push_ctx_of toy_push_env) toy_pushed toy_root_hash = [237, 241]" by (simp add: upload_form_def c) (simp add: X)
  moreover have "child_hashes (tc_from_json toy_trees) [237, 241] = []" by code_simp
  then have "local_kids (push_ctx_of toy_push_env) toy_pushed toy_root_hash = []" by (simp add: local_kids_def c) (simp add: X)
  moreover have "hash_ok toy_root_hash" using toy_compute(1) [of "[237, 241]"] by (simp add: toy_root_hash_def toy_env_def)
  ultimately show ?thesis using c by (simp add: one_object_def X)
qed

theorem push_no_lost_update_witness:
  "\<exists>r' rawb. push_full toy_push_env False toy_repo None (Inr (PushedRoot toy_root_hash)) r' \<and>
     re_clone_root r' = Some toy_root_hash \<and> re_pointer r' = Some rawb"
proof -
  from toy_push_scan obtain r1 where sc: "push_scan toy_push_env toy_repo = Inr (toy_root_hash, {}, r1)"
    "ts_store (re_local r1) = toy_pushed" "re_objcache r1 = LocalB empty_dir" by (auto split: sum.splits)
  note f = push_scan_fields [OF sc(1)]
  have f': "re_clone_root r1 = None" "re_pointer r1 = None" "re_remote r1 = RemoteB []" using f by (simp_all add: toy_repo_def)
  have P: "pe_pack toy_push_env = toy_ctx" "pe_workers toy_push_env = 1" "pe_nonce toy_push_env = replicate 12 0" by (simp_all add: toy_push_env_def)
  have w: "index_root_present toy_writer = False" "remote_root_snapshot toy_ctx toy_writer = Inr None"
    by (simp_all add: index_root_present_def remote_root_snapshot_def toy_writer_def)
  have o: "push_open toy_push_env r1 toy_root_hash = Inr toy_writer"
    by (simp add: push_open_def f' sc(3) P toy_writer_new w post_clone_sync_guard_def require_remote_not_advanced_def is_empty_root_def)
  note fin = push_completes [OF one_object_ready [OF toy_root_object], of "replicate 12 0" 1]
  then obtain s p where u: "upload_and_finalize (push_ctx_of toy_push_env) toy_pushed 1 toy_root_hash (replicate 12 0)
      (toy_writer, RemoteB []) None (Inr ()) s p" by (metis length_replicate)
  then have "push_upload toy_push_env r1 toy_root_hash toy_writer None (Inr (PushedRoot toy_root_hash))
      (r1\<lparr>re_remote := s, re_pointer := p, re_clone_root := Some toy_root_hash\<rparr>)"
    unfolding push_upload_def P sc(2) f' by force
  with sc(1) o f' have "push_full toy_push_env False toy_repo None (Inr (PushedRoot toy_root_hash))
      (r1\<lparr>re_remote := s, re_pointer := p, re_clone_root := Some toy_root_hash\<rparr>)" by (simp add: push_full_def)
  with push_no_lost_update [OF this] show ?thesis by auto
qed

end
