(* ===== verification/PushScoped.thy ===== *)
theory PushScoped
  imports Push
begin

text \<open>
  The push of single paths (\<open>src/src/commands/push.rs\<close>): the check that none of the pushed paths
  has moved on at the remote, and the splices and removals that turn the remote's tree and the
  recorded tree into the ones to be published. What the scan of each path found is the input:
  at most one result for each of the paths that \<open>deduplicate_paths\<close> leaves. Upload and
  publication are those of a whole push (\<open>upload_and_finalize\<close>).

  The remote's tree is read and spliced through the read-through store, the recorded tree
  through the local one; both write to the same local cache. The cache of trees, which
  only the listing command enables, is off.
\<close>

section \<open>What the scan of a path found\<close>

record scoped_result =
  sc_rel :: string
  sc_components :: "string list"
  sc_hash :: hash
  sc_is_dir :: bool
  sc_delete :: bool

text \<open>The entries of paths that are stubs, and of files and links captured from an open handle.\<close>

record scoped_found =
  sf_stubs :: "string \<Rightarrow> tree_entry option"
  sf_captured :: "string \<Rightarrow> tree_entry option"

record 's scoped_ctx =
  sp_local :: "'s tree_ctx"
  sp_lazy :: "'s tree_ctx"

text \<open>The components of a path that is not empty.\<close>

definition scoped_components :: "string \<Rightarrow> string list" where
  "scoped_components rel = filter (\<lambda>c. c \<noteq> []) (split_slash rel)"

text \<open>A stub found at the path itself: pushed unless it is what was recorded.\<close>

definition scoped_stub :: "'s scoped_ctx \<Rightarrow> 's \<Rightarrow> hash option \<Rightarrow> string \<Rightarrow> tree_entry \<Rightarrow> scoped_result option result" where
  "scoped_stub sc s clone_root rel stub_entry =
     rbind (ok_or (entry_hash stub_entry) (Other ''stub entry has no hash'')) (\<lambda>scoped_hash.
     rbind (navigate_entry_opt (sp_lazy sc) s clone_root (scoped_components rel)) (\<lambda>existing.
       if (case existing of Some e \<Rightarrow> tree_entries_equal e stub_entry | None \<Rightarrow> False) then Inr None
       else Inr (Some \<lparr>sc_rel = rel, sc_components = scoped_components rel, sc_hash = scoped_hash,
              sc_is_dir = (case stub_entry of TreeE _ _ _ _ _ \<Rightarrow> True | _ \<Rightarrow> False), sc_delete = False\<rparr>)))"

text \<open>A path at which nothing is.\<close>

definition scoped_absent :: "(bytes \<Rightarrow> bytes) \<Rightarrow> string \<Rightarrow> scoped_result" where
  "scoped_absent hashf rel =
     \<lparr>sc_rel = rel, sc_components = scoped_components rel, sc_hash = compute hashf [], sc_is_dir = False, sc_delete = True\<rparr>"

text \<open>What has been captured, or the hash that was scanned, is what the entry says.\<close>

definition already_matches :: "tree_entry option \<Rightarrow> hash \<Rightarrow> tree_entry option \<Rightarrow> bool" where
  "already_matches captured scoped_hash entry =
     (case captured of
        Some fresh \<Rightarrow> (case entry of Some e \<Rightarrow> tree_entries_equal e fresh | None \<Rightarrow> False)
      | None \<Rightarrow> Option.bind entry entry_hash = Some scoped_hash)"

text \<open>A path that was scanned: pushed unless it is what was recorded.\<close>

definition scoped_scanned ::
    "'s scoped_ctx \<Rightarrow> 's \<Rightarrow> hash option \<Rightarrow> string \<Rightarrow> tree_entry option \<Rightarrow> hash \<Rightarrow> bool \<Rightarrow> scoped_result option result" where
  "scoped_scanned sc s clone_root rel captured scoped_hash dir =
     rbind (navigate_entry_opt (sp_lazy sc) s clone_root (scoped_components rel)) (\<lambda>existing.
       if already_matches captured scoped_hash existing then Inr None
       else Inr (Some \<lparr>sc_rel = rel, sc_components = scoped_components rel, sc_hash = scoped_hash, sc_is_dir = dir,
              sc_delete = False\<rparr>))"

section \<open>The check for divergence\<close>

definition entries_match :: "tree_entry option \<Rightarrow> tree_entry option \<Rightarrow> bool" where
  "entries_match origin clone =
     (case (origin, clone) of (None, None) \<Rightarrow> True | (Some r, Some c) \<Rightarrow> tree_entries_equal r c | _ \<Rightarrow> False)"

definition check_path ::
    "'s scoped_ctx \<Rightarrow> scoped_found \<Rightarrow> 's \<Rightarrow> hash option \<Rightarrow> hash option \<Rightarrow> scoped_result \<Rightarrow> unit result" where
  "check_path sc f s origin clone sr =
     rbind (navigate_entry_opt (sp_lazy sc) s origin (sc_components sr)) (\<lambda>origin_entry.
       if (if sc_delete sr then origin_entry = None else already_matches (sf_captured f (sc_rel sr)) (sc_hash sr) origin_entry)
       then Inr ()
       else rbind (navigate_entry_opt (sp_local sc) s clone (sc_components sr)) (\<lambda>clone_entry.
              if entries_match origin_entry clone_entry then Inr () else Inl CasFailed))"

primrec check_paths ::
    "'s scoped_ctx \<Rightarrow> scoped_found \<Rightarrow> 's \<Rightarrow> hash option \<Rightarrow> hash option \<Rightarrow> scoped_result list \<Rightarrow> unit result" where
  "check_paths sc f s origin clone [] = Inr ()"
| "check_paths sc f s origin clone (sr # srs) =
     rbind (check_path sc f s origin clone sr) (\<lambda>_. check_paths sc f s origin clone srs)"

section \<open>Splices and removals\<close>

text \<open>The two roots, whether anything has changed, and the store.\<close>

type_synonym 's scoped_state = "hash option \<times> hash option \<times> bool \<times> 's tree_state"

definition remove_path ::
    "'s scoped_ctx \<Rightarrow> string list \<Rightarrow> 's scoped_state \<Rightarrow> 's scoped_state result" where
  "remove_path sc comps x =
     (case x of (origin, clone, change, st) \<Rightarrow>
        rbind (case origin of None \<Rightarrow> Inr (None, st) | Some rr \<Rightarrow> remove_entry (sp_lazy sc) st rr comps) (\<lambda>(removed, st).
          case removed of None \<Rightarrow> Inr (origin, clone, change, st)
          | Some new_origin \<Rightarrow>
              rbind (case clone of None \<Rightarrow> Inr (None, st) | Some cr \<Rightarrow> remove_entry (sp_local sc) st cr comps) (\<lambda>(removed, st).
                Inr (Some new_origin, (case removed of None \<Rightarrow> clone | Some h \<Rightarrow> Some h), True, st))))"

definition splice_path ::
    "'s scoped_ctx \<Rightarrow> string list \<Rightarrow> tree_entry \<Rightarrow> 's scoped_state \<Rightarrow> 's scoped_state result" where
  "splice_path sc comps new x =
     (case x of (origin, clone, change, st) \<Rightarrow>
        rbind (splice_entry (sp_lazy sc) st origin comps new) (\<lambda>(new_origin, st).
        rbind (splice_entry (sp_local sc) st clone comps new) (\<lambda>(new_clone, st).
          Inr (Some new_origin, Some new_clone, True, st))))"

definition new_entry :: "'s scoped_ctx \<Rightarrow> scoped_found \<Rightarrow> scoped_result \<Rightarrow> 's tree_state \<Rightarrow> (tree_entry \<times> 's tree_state) result" where
  "new_entry sc f sr st =
     (case sf_stubs f (sc_rel sr) of
        Some stub_entry \<Rightarrow> Inr (stub_entry, st)
      | None \<Rightarrow>
          (case sf_captured f (sc_rel sr) of
             Some e \<Rightarrow> Inr (e, st)
           | None \<Rightarrow>
               if sc_is_dir sr
               then rbind (tree_meta (sp_local sc) st (sc_hash sr)) (\<lambda>(m, st).
                      Inr (rebuilt_entry (last (sc_components sr)) (sc_hash sr) m, st))
               else Inl (Other ''captured metadata missing for scoped file'')))"

definition apply_path ::
    "'s scoped_ctx \<Rightarrow> scoped_found \<Rightarrow> scoped_result \<Rightarrow> 's scoped_state \<Rightarrow> 's scoped_state result" where
  "apply_path sc f sr x =
     (if sc_delete sr then remove_path sc (sc_components sr) x
      else case x of (origin, clone, change, st) \<Rightarrow>
        rbind (new_entry sc f sr st) (\<lambda>(new, st). splice_path sc (sc_components sr) new (origin, clone, change, st)))"

primrec apply_paths ::
    "'s scoped_ctx \<Rightarrow> scoped_found \<Rightarrow> scoped_result list \<Rightarrow> 's scoped_state \<Rightarrow> 's scoped_state result" where
  "apply_paths sc f [] x = Inr x"
| "apply_paths sc f (sr # srs) x = rbind (apply_path sc f sr x) (\<lambda>x. apply_paths sc f srs x)"

text \<open>The roots to publish and to record; \<open>None\<close> if nothing is left to do.\<close>

definition scoped_roots ::
    "'s scoped_ctx \<Rightarrow> scoped_found \<Rightarrow> hash option \<Rightarrow> hash option \<Rightarrow> scoped_result list \<Rightarrow> 's tree_state \<Rightarrow>
       ((hash \<times> hash) option \<times> 's tree_state) result" where
  "scoped_roots sc f origin clone srs st =
     rbind (check_paths sc f (ts_store st) origin clone srs) (\<lambda>_.
     rbind (apply_paths sc f srs (origin, clone, False, st)) (\<lambda>(new_origin, new_clone, change, st).
       if \<not> change then Inr (None, st)
       else rbind (ok_or new_origin (Other ''push resulted in empty remote tree'')) (\<lambda>h.
            rbind (ok_or new_clone (Other ''push resulted in empty clone root'')) (\<lambda>c. Inr (Some (h, c), st)))))"


section \<open>Writes that disturb neither view\<close>

text \<open>The two contexts work on one local cache, which is sound, and the remote serves what it lists.\<close>

definition scoped_ok where
  "scoped_ok hmac R r key sc st \<longleftrightarrow>
     sp_local sc = local_trees (tc_env (sp_local sc)) hmac (tc_to_json (sp_local sc)) (tc_from_json (sp_local sc)) \<and>
     sp_lazy sc = (sp_local sc)\<lparr>tc_ops := lazy_store (tc_env (sp_local sc)) (local_store hmac None) R r key\<rparr> \<and>
     digest32 (sha (tc_env (sp_local sc))) \<and> serves (tc_env (sp_local sc)) R r key \<and>
     backend_ok (ts_store st) \<and> ts_cache st = None"

definition scoped_step where
  "scoped_step hmac R r key sc st st' \<longleftrightarrow> scoped_ok hmac R r key sc st' \<and>
     keeps (sp_local sc) (ts_store st) (ts_store st') \<and> keeps (sp_lazy sc) (ts_store st) (ts_store st')"

definition free_both :: "'s scoped_ctx \<Rightarrow> 's \<Rightarrow> tree_entry list \<Rightarrow> bool" where
  "free_both sc s es \<longleftrightarrow> tree_free (sp_local sc) s es \<and> tree_free (sp_lazy sc) s es"

lemma scoped_step_refl: "scoped_ok hmac R r key sc st \<Longrightarrow> scoped_step hmac R r key sc st st"
  by (simp add: scoped_step_def)

lemma scoped_step_trans:
  "scoped_step hmac R r key sc st st1 \<Longrightarrow> scoped_step hmac R r key sc st1 st2 \<Longrightarrow> scoped_step hmac R r key sc st st2"
  using keeps_trans by (auto simp: scoped_step_def)

lemma scoped_okD:
  assumes "scoped_ok hmac R r key sc st"
  shows "tc_ops (sp_local sc) = local_store hmac None" "tc_ops (sp_lazy sc) = lazy_store (tc_env (sp_local sc)) (local_store hmac None) R r key"
    "tc_env (sp_lazy sc) = tc_env (sp_local sc)" "tc_to_json (sp_lazy sc) = tc_to_json (sp_local sc)"
    "tc_from_json (sp_lazy sc) = tc_from_json (sp_local sc)" "digest32 (sha (tc_env (sp_local sc)))"
    "serves (tc_env (sp_local sc)) R r key" "backend_ok (ts_store st)" "ts_cache st = None"
    "tree_world (sp_local sc)" "tree_world (sp_lazy sc)" "tstate_ok c st"
proof -
  from assms have eq: "sp_local sc = local_trees (tc_env (sp_local sc)) hmac (tc_to_json (sp_local sc)) (tc_from_json (sp_local sc))"
    "sp_lazy sc = (sp_local sc)\<lparr>tc_ops := lazy_store (tc_env (sp_local sc)) (local_store hmac None) R r key\<rparr>"
    by (simp_all add: scoped_ok_def)
  from arg_cong [OF eq(1), of tc_ops] show "tc_ops (sp_local sc) = local_store hmac None" by (simp add: local_trees_def)
  from arg_cong [OF eq(2), of tc_ops] arg_cong [OF eq(2), of tc_env] arg_cong [OF eq(2), of tc_to_json] arg_cong [OF eq(2), of tc_from_json]
  show l: "tc_ops (sp_lazy sc) = lazy_store (tc_env (sp_local sc)) (local_store hmac None) R r key"
    "tc_env (sp_lazy sc) = tc_env (sp_local sc)" "tc_to_json (sp_lazy sc) = tc_to_json (sp_local sc)"
    "tc_from_json (sp_lazy sc) = tc_from_json (sp_local sc)" by simp_all
  show d: "digest32 (sha (tc_env (sp_local sc)))" "serves (tc_env (sp_local sc)) R r key" "backend_ok (ts_store st)" "ts_cache st = None"
    using assms by (simp_all add: scoped_ok_def)
  then show "tree_world (sp_local sc)" "tree_world (sp_lazy sc)" "tstate_ok c st"
    by (auto simp: tree_world_def serves_def l(2) tstate_ok_def)
qed

lemma scoped_ok_store: "scoped_ok hmac R r key sc st \<Longrightarrow> backend_ok s' \<Longrightarrow> scoped_ok hmac R r key sc (st\<lparr>ts_store := s'\<rparr>)"
  by (simp add: scoped_ok_def)

lemma cache_off: "ts_cache st = None \<Longrightarrow> tree_cache_put st h es = st"
  by (simp add: tree_cache_put_def)

lemma load_cache_off: "load_all_entries c st h = Inr (es, st') \<Longrightarrow> ts_cache st = None \<Longrightarrow> st' = st"
  by (auto simp: load_all_entries_def cache_off tree_cache_get_def rbind_Inr_iff)

lemma meta_cache_off: "tree_meta c st h = Inr (m, st') \<Longrightarrow> ts_cache st = None \<Longrightarrow> st' = st"
  by (auto simp: tree_meta_def rbind_Inr_iff dest: load_cache_off)

text \<open>A view that already has the very bytes, or nothing, under the name keeps every tree.\<close>

context store_laws
begin

lemma same_bytes_keeps:
  assumes "inv s" "tc_ops cx = S" "digest32 (sha (tc_env cx))" "hash_ok h" "view s h = None \<or> view s h = Some b"
    and "os_write_from S s h b = Inr s'"
  shows "inv s' \<and> keeps cx s s'"
proof -
  from write_view [OF assms(1,4,5)] assms(6) have w: "inv s'" "\<And>g. hash_ok g \<Longrightarrow> view s' g = (if g = h then Some b else view s g)" by auto
  have "holds (tc_env cx) s' k g y" if "hash_ok g" "holds (tc_env cx) s k g y" for g k y
    using that w(2) assms(5) by (auto simp: holds_def)
  from keeps_write [OF assms(1,2) w(1) this assms(3)] w(1) show ?thesis by blast
qed

end

lemma build_both:
  assumes ok: "scoped_ok hmac R r key sc st" and c: "c \<in> {sp_local sc, sp_lazy sc}" and f: "free_both sc (ts_store st) es"
    and b: "build_and_store c st es = Inr (h, st')"
  shows "scoped_step hmac R r key sc st st'"
proof -
  note d = scoped_okD [OF ok]
  let ?E = "tc_env (sp_local sc)" and ?s = "ts_store st" and ?L = "local_store hmac None"
  let ?b = "tree_serialise (tc_to_json (sp_local sc)) (Normal (sorted_entries es))"
  let ?h = "compute (sha ?E) ?b" and ?e = "encode_obj ?E (tree_serialise (tc_to_json (sp_local sc)) (Normal (sorted_entries es))) None
    (raw (compute (sha ?E) (tree_serialise (tc_to_json (sp_local sc)) (Normal (sorted_entries es)))))"
  have ce: "tc_env c = ?E" "tc_to_json c = tc_to_json (sp_local sc)" "os_write_from (tc_ops c) = os_write_from ?L"
    using c d(1-5) by (auto simp: lazy_store_def)
  have h: "hash_ok ?h" using d(6) by (simp add: compute_def digest32_def)
  note b' = b [unfolded build_and_store_def Let_def ce(1,2)]
  obtain ex where ex: "os_exists (tc_ops c) ?s ?h = Inr ex" using b' by (cases "os_exists (tc_ops c) ?s ?h") simp_all
  note lz = lazy_cache.store_laws_axioms [of ?E hmac R r key]
  have iz: "backend_ok ?s \<and> serves ?E R r key" using d by simp
  show ?thesis
  proof (cases ex)
    case True
    with b' ex have "st' = st" by (simp add: cache_off d(9))
    with scoped_step_refl [OF ok] show ?thesis by simp
  next
    case False
    obtain s' where w: "os_write_from ?L ?s ?h ?e = Inr s'" and st': "st' = st\<lparr>ts_store := s'\<rparr>"
      using b' ex False by (cases "os_write_from ?L ?s ?h ?e") (simp_all add: store_write_def ce(3) cache_off d(9))
    have l0: "backend_view ?s (hex (storage_key hmac None ?h)) = None"
      using c ex False d(1,2) store_laws.exists_view [OF local_trees_laws d(8) h] store_laws.exists_view [OF lz iz h]
      by (auto split: option.splits)
    have z: "fetched ?E R r key ?h = None \<or> fetched ?E R r key ?h = Some ?e"
    proof (cases "store_read ?E R r ?h key")
      case (Inr x)
      then have "fetched ?E R r key ?h = Some (encode_obj ?E x None (raw ?h))" by (simp add: fetched_def)
      moreover have "length x \<le> DECOMPRESS_MAX" "zstd_lossless ?E" "gcm_opens ?E" using Inr d(7) h by (auto simp: serves_def split: sum.splits dest: spec [of _ ?h])
      then have "store_read ?E (lazy_store ?E ?L R r key) ?s ?h None = Inr x"
        using store_laws.read_view [OF lz iz h] l0 calculation by (simp add: store_read_def decode_encode_obj)
      with f have "x = ?b" by (simp add: free_both_def tree_free_def Let_def d(2-5))
      ultimately show ?thesis by simp
    qed (simp add: fetched_def)
    have "backend_ok s' \<and> keeps (sp_local sc) ?s s'"
      by (rule store_laws.same_bytes_keeps [OF local_trees_laws d(8,1,6) h _ w]) (simp add: l0)
    moreover have "(backend_ok s' \<and> serves ?E R r key) \<and> keeps (sp_lazy sc) ?s s'"
      by (rule store_laws.same_bytes_keeps [OF lz iz d(2) _ h, of ?e]) (use d l0 z w in \<open>simp_all add: lazy_store_def\<close>)
    ultimately show ?thesis using st' scoped_ok_store [OF ok, of s'] by (simp add: scoped_step_def)
  qed
qed


section \<open>Splices and removals keep both views\<close>

text \<open>As \<open>splice_free\<close> and \<open>remove_free\<close>, with any condition on the trees that are built.\<close>

fun splice_with ::
    "('s \<Rightarrow> tree_entry list \<Rightarrow> bool) \<Rightarrow> 's tree_ctx \<Rightarrow> 's tree_state \<Rightarrow> hash option \<Rightarrow> string list \<Rightarrow> tree_entry \<Rightarrow> bool" where
  "splice_with P cx st base [] new \<longleftrightarrow> False"
| "splice_with P cx st base (name # path) new \<longleftrightarrow>
     (case (case base of Some h \<Rightarrow> load_all_entries cx st h | None \<Rightarrow> Inr ([], st)) of
        Inl _ \<Rightarrow> False
      | Inr (es, st) \<Rightarrow>
          if path = [] then P (ts_store st) (replace_entry es name new)
          else splice_with P cx st (child_hash_of es name) path new \<and>
            (case splice_entry cx st (child_hash_of es name) path new of Inl _ \<Rightarrow> True
             | Inr (h', st) \<Rightarrow>
                 (case tree_meta cx st h' of Inl _ \<Rightarrow> True
                  | Inr (m, st) \<Rightarrow> P (ts_store st) (replace_entry es name (rebuilt_entry name h' m)))))"

fun remove_with ::
    "('s \<Rightarrow> tree_entry list \<Rightarrow> bool) \<Rightarrow> 's tree_ctx \<Rightarrow> 's tree_state \<Rightarrow> hash \<Rightarrow> string list \<Rightarrow> bool" where
  "remove_with P cx st base [] \<longleftrightarrow> False"
| "remove_with P cx st base (name # path) \<longleftrightarrow>
     (case load_all_entries cx st base of
        Inl _ \<Rightarrow> False
      | Inr (es, st) \<Rightarrow>
          if path = [] then P (ts_store st) (filter (\<lambda>e. ename e \<noteq> name) es)
          else case child_hash_of es name of None \<Rightarrow> True
               | Some child \<Rightarrow> remove_with P cx st child path \<and>
                   (case remove_entry cx st child path of
                      Inr (Some h', st) \<Rightarrow>
                        (case tree_meta cx st h' of Inl _ \<Rightarrow> True
                         | Inr (m, st) \<Rightarrow> P (ts_store st) (replace_entry es name (rebuilt_entry name h' m)))
                    | _ \<Rightarrow> True))"

lemma splice_with_free:
  assumes "\<And>s es. P s es \<Longrightarrow> tree_free cx s es"
  shows "splice_with P cx st base path new \<Longrightarrow> splice_free cx st base path new"
  by (induction path arbitrary: st base) (auto intro: assms split: sum.splits prod.splits if_splits)

lemma remove_with_free:
  assumes "\<And>s es. P s es \<Longrightarrow> tree_free cx s es"
  shows "remove_with P cx st base path \<Longrightarrow> remove_free cx st base path"
  by (induction path arbitrary: st base) (auto intro: assms split: sum.splits prod.splits if_splits option.splits)

lemma splice_both:
  assumes c: "c \<in> {sp_local sc, sp_lazy sc}"
  shows "scoped_ok hmac R r key sc st \<Longrightarrow> splice_with (free_both sc) c st base path new \<Longrightarrow>
    splice_entry c st base path new = Inr (h, st') \<Longrightarrow> scoped_step hmac R r key sc st st'"
proof (induction path arbitrary: st base h st')
  case (Cons name path)
  from Cons.prems(3) obtain es st1 where ld: "(case base of Some h \<Rightarrow> load_all_entries c st h | None \<Rightarrow> Inr ([], st)) = Inr (es, st1)"
    by (cases "case base of Some h \<Rightarrow> load_all_entries c st h | None \<Rightarrow> Inr ([], st)") auto
  have off: "ts_cache st = None" using scoped_okD(9) [OF Cons.prems(1)] .
  have st1: "st1 = st" using ld off by (auto split: option.splits dest: load_cache_off)
  show ?case
  proof (cases "path = []")
    case True
    have "build_and_store c st (replace_entry es name new) = Inr (h, st')" using Cons.prems(3) ld True st1 by simp
    moreover have "free_both sc (ts_store st) (replace_entry es name new)" using Cons.prems(2) ld True st1 by simp
    ultimately show ?thesis using build_both [OF Cons.prems(1) c] by blast
  next
    case False
    let ?c = "child_hash_of es name"
    from Cons.prems(3) ld False st1 obtain h1 st2 m st3 where
      s: "splice_entry c st ?c path new = Inr (h1, st2)" "tree_meta c st2 h1 = Inr (m, st3)"
        "build_and_store c st3 (replace_entry es name (rebuilt_entry name h1 m)) = Inr (h, st')" by (auto simp: rbind_Inr_iff)
    have w: "splice_with (free_both sc) c st ?c path new" using Cons.prems(2) ld False st1 by simp
    note i = Cons.IH [OF Cons.prems(1) w s(1)]
    then have ok2: "scoped_ok hmac R r key sc st2" by (simp add: scoped_step_def)
    have st3: "st3 = st2" using meta_cache_off [OF s(2)] scoped_okD(9) [OF ok2] by simp
    have "free_both sc (ts_store st2) (replace_entry es name (rebuilt_entry name h1 m))"
      using Cons.prems(2) ld False st1 s(1,2) st3 by simp
    from build_both [OF ok2 c this] s(3) st3 have "scoped_step hmac R r key sc st2 st'" by simp
    with i show ?thesis by (rule scoped_step_trans)
  qed
qed simp

lemma remove_both:
  assumes c: "c \<in> {sp_local sc, sp_lazy sc}"
  shows "scoped_ok hmac R r key sc st \<Longrightarrow> remove_with (free_both sc) c st base path \<Longrightarrow>
    remove_entry c st base path = Inr (x, st') \<Longrightarrow> scoped_step hmac R r key sc st st'"
proof (induction path arbitrary: st base x st')
  case (Cons name path)
  from Cons.prems(3) obtain es st1 where ld: "load_all_entries c st base = Inr (es, st1)"
    by (cases "load_all_entries c st base") auto
  have st1: "st1 = st" using load_cache_off [OF ld] scoped_okD(9) [OF Cons.prems(1)] by simp
  show ?case
  proof (cases "path = []")
    case True
    let ?es = "filter (\<lambda>e. ename e \<noteq> name) es"
    show ?thesis
    proof (cases "length ?es = length es")
      case True
      with Cons.prems(3) ld \<open>path = []\<close> st1 have "st' = st" by simp
      with scoped_step_refl [OF Cons.prems(1)] show ?thesis by simp
    next
      case False
      with Cons.prems(3) ld \<open>path = []\<close> st1 obtain h where "build_and_store c st ?es = Inr (h, st')" by (auto simp: rbind_Inr_iff Let_def)
      moreover have "free_both sc (ts_store st) ?es" using Cons.prems(2) ld \<open>path = []\<close> st1 by simp
      ultimately show ?thesis using build_both [OF Cons.prems(1) c] by blast
    qed
  next
    case False
    show ?thesis
    proof (cases "child_hash_of es name")
      case None
      with Cons.prems(3) ld False st1 have "st' = st" by simp
      with scoped_step_refl [OF Cons.prems(1)] show ?thesis by simp
    next
      case (Some child)
      from Cons.prems(3) ld False st1 Some obtain r1 st2 where rm: "remove_entry c st child path = Inr (r1, st2)"
        by (cases "remove_entry c st child path") auto
      have w: "remove_with (free_both sc) c st child path" using Cons.prems(2) ld False st1 Some by simp
      note i = Cons.IH [OF Cons.prems(1) w rm]
      then have ok2: "scoped_ok hmac R r key sc st2" by (simp add: scoped_step_def)
      show ?thesis
      proof (cases r1)
        case None
        with Cons.prems(3) ld False st1 Some rm have "st' = st2" by simp
        with i show ?thesis by simp
      next
        case (Some h1)
        let ?p = "case position (\<lambda>e. ename e = name) es of Some pos \<Rightarrow> \<lambda>e. es[pos := e] | None \<Rightarrow> \<lambda>e. es"
        from Cons.prems(3) ld False st1 \<open>child_hash_of es name = Some child\<close> rm Some obtain m st3 h where
          s: "tree_meta c st2 h1 = Inr (m, st3)"
            "build_and_store c st3 (case position (\<lambda>e. ename e = name) es of
               Some pos \<Rightarrow> es[pos := rebuilt_entry name h1 m] | None \<Rightarrow> es) = Inr (h, st')" by (auto simp: rbind_Inr_iff)
        have st3: "st3 = st2" using meta_cache_off [OF s(1)] scoped_okD(9) [OF ok2] by simp
        have "free_both sc (ts_store st2) (replace_entry es name (rebuilt_entry name h1 m))"
          using Cons.prems(2) ld False st1 \<open>child_hash_of es name = Some child\<close> rm Some s(1) st3 by simp
        with s(2) st3 child_replace [OF \<open>child_hash_of es name = Some child\<close>]
        have "scoped_step hmac R r key sc st2 st'" using build_both [OF ok2 c] by simp
        with i show ?thesis by (rule scoped_step_trans)
      qed
    qed
  qed
qed simp

text \<open>One splice and one removal, through either context.\<close>

lemma laws_of:
  fixes st :: "objects_backend tree_state"
  assumes ok: "scoped_ok hmac R r key sc st" and c: "c \<in> {sp_local sc, sp_lazy sc}"
  obtains inv view where "store_laws (tc_ops c) inv view" "inv (ts_store st)" "tree_world c"
proof (cases "c = sp_local sc")
  case True
  with local_trees_laws [of hmac] scoped_okD(1) [OF ok]
  have "store_laws (tc_ops c) backend_ok (\<lambda>b h. backend_view b (hex (storage_key hmac None h)))" by simp
  with that scoped_okD(8,10) [OF ok] True show thesis by blast
next
  case False
  with c have c: "c = sp_lazy sc" by simp
  note l = lazy_cache.store_laws_axioms [of "tc_env (sp_local sc)" hmac R r key, folded scoped_okD(2) [OF ok]]
  have "backend_ok (ts_store st) \<and> serves (tc_env (sp_local sc)) R r key" using scoped_okD(7,8) [OF ok] by simp
  with that [OF l [folded c]] scoped_okD(11) [OF ok] c show thesis by blast
qed

lemma scoped_splice:
  assumes ok: "scoped_ok hmac R r key sc st" and c: "c \<in> {sp_local sc, sp_lazy sc}"
    and f: "splice_with (free_both sc) c st base path new" and n: "ename new = last path" "\<forall>n \<in> set path. validate_entry_name n = Inr ()"
  obtains h st' where "splice_entry c st base path new = Inr (h, st')" "scoped_step hmac R r key sc st st'"
    "navigate_from c (ts_store st') (Some h) path = Inr (Some new)"
    "\<And>q x. apart q path \<Longrightarrow> navigate_from c (ts_store st) base q = Inr x \<Longrightarrow> navigate_from c (ts_store st') (Some h) q = Inr x"
proof -
  obtain inv view where L: "store_laws (tc_ops c) inv view" "inv (ts_store st)" "tree_world c" by (rule laws_of [OF ok c])
  have "splice_free c st base path new" by (rule splice_with_free [OF _ f]) (use c in \<open>auto simp: free_both_def\<close>)
  from store_laws.splice_ok [OF L(1,2) refl L(3) scoped_okD(12) [OF ok] this n] obtain h st' where
    s: "splice_entry c st base path new = Inr (h, st')" "navigate_from c (ts_store st') (Some h) path = Inr (Some new)"
      "\<forall>q r. apart q path \<longrightarrow> navigate_from c (ts_store st) base q = Inr r \<longrightarrow> navigate_from c (ts_store st') (Some h) q = Inr r" by blast
  with splice_both [OF c ok f s(1)] that show thesis by blast
qed

lemma scoped_remove:
  assumes ok: "scoped_ok hmac R r key sc st" and c: "c \<in> {sp_local sc, sp_lazy sc}"
    and f: "remove_with (free_both sc) c st base path" and n: "\<forall>n \<in> set path. validate_entry_name n = Inr ()"
  obtains x st' where "remove_entry c st base path = Inr (x, st')" "scoped_step hmac R r key sc st st'" "store_laws.removed c st st' base path x"
proof -
  obtain inv view where L: "store_laws (tc_ops c) inv view" "inv (ts_store st)" "tree_world c" by (rule laws_of [OF ok c])
  have "remove_free c st base path" by (rule remove_with_free [OF _ f]) (use c in \<open>auto simp: free_both_def\<close>)
  from store_laws.remove_ok [OF L(1,2) refl L(3) scoped_okD(12) [OF ok] this n] obtain x st' where
    "remove_entry c st base path = Inr (x, st')" "store_laws.removed c st st' base path x" by blast
  with remove_both [OF c ok f] that show thesis by blast
qed

section \<open>What a scoped push promises\<close>

text \<open>Where a path leads in the remote's and in the recorded tree.\<close>

definition remote_at :: "'s scoped_ctx \<Rightarrow> 's scoped_state \<Rightarrow> string list \<Rightarrow> tree_entry option result" where
  "remote_at sc x q = (case x of (origin, clone, change, st) \<Rightarrow> navigate_entry_opt (sp_lazy sc) (ts_store st) origin q)"

definition clone_at :: "'s scoped_ctx \<Rightarrow> 's scoped_state \<Rightarrow> string list \<Rightarrow> tree_entry option result" where
  "clone_at sc x q = (case x of (origin, clone, change, st) \<Rightarrow> navigate_entry_opt (sp_local sc) (ts_store st) clone q)"

text \<open>What the push of a path is to leave there.\<close>

definition wanted :: "'s scoped_ctx \<Rightarrow> scoped_found \<Rightarrow> 's tree_state \<Rightarrow> scoped_result \<Rightarrow> tree_entry option" where
  "wanted sc f st sr =
     (if sc_delete sr then None else case new_entry sc f sr st of Inl _ \<Rightarrow> None | Inr (e, _) \<Rightarrow> Some e)"

text \<open>A path whose push is not the deletion of what the remote does not have.\<close>

definition changes :: "'s scoped_ctx \<Rightarrow> 's scoped_state \<Rightarrow> scoped_result \<Rightarrow> bool" where
  "changes sc x sr \<longleftrightarrow> \<not> (sc_delete sr \<and> remote_at sc x (sc_components sr) = Inr None)"

text \<open>A path whose entry at the remote is neither the recorded one nor the one that is pushed.\<close>

definition diverged :: "'s scoped_ctx \<Rightarrow> scoped_found \<Rightarrow> 's scoped_state \<Rightarrow> scoped_result \<Rightarrow> bool" where
  "diverged sc f x sr \<longleftrightarrow>
     (case (remote_at sc x (sc_components sr), clone_at sc x (sc_components sr)) of
        (Inr origin, Inr clone) \<Rightarrow>
          \<not> entries_match origin clone \<and>
          \<not> (if sc_delete sr then origin = None else already_matches (sf_captured f (sc_rel sr)) (sc_hash sr) origin)
      | _ \<Rightarrow> False)"

definition paths_readable :: "'s scoped_ctx \<Rightarrow> 's scoped_state \<Rightarrow> scoped_result list \<Rightarrow> bool" where
  "paths_readable sc x srs \<longleftrightarrow>
     (\<forall>sr \<in> set srs. \<exists>a b. remote_at sc x (sc_components sr) = Inr a \<and> clone_at sc x (sc_components sr) = Inr b)"

text \<open>The paths are valid and none is a part of another; every entry to be pushed is there.\<close>

definition path_ok :: "'s scoped_ctx \<Rightarrow> scoped_found \<Rightarrow> 's tree_state \<Rightarrow> scoped_result \<Rightarrow> bool" where
  "path_ok sc f st sr \<longleftrightarrow> sc_components sr \<noteq> [] \<and> (\<forall>n \<in> set (sc_components sr). validate_entry_name n = Inr ()) \<and>
     (sc_delete sr \<or> (\<exists>e. new_entry sc f sr st = Inr (e, st) \<and> ename e = last (sc_components sr)))"

primrec paths_apart :: "scoped_result list \<Rightarrow> bool" where
  "paths_apart [] \<longleftrightarrow> True"
| "paths_apart (sr # srs) \<longleftrightarrow> (\<forall>t \<in> set srs. apart (sc_components t) (sc_components sr)) \<and> paths_apart srs"

text \<open>The trees along every path can be read, and no tree that is built shares its name with another object.\<close>

definition path_free :: "'s scoped_ctx \<Rightarrow> scoped_found \<Rightarrow> scoped_result \<Rightarrow> 's scoped_state \<Rightarrow> bool" where
  "path_free sc f sr x \<longleftrightarrow>
     (case x of (origin, clone, change, st) \<Rightarrow>
       let p = sc_components sr in
       if sc_delete sr then
         (case origin of None \<Rightarrow> True
          | Some rr \<Rightarrow> remove_with (free_both sc) (sp_lazy sc) st rr p \<and>
              (case remove_entry (sp_lazy sc) st rr p of
                 Inr (Some _, st) \<Rightarrow> (case clone of None \<Rightarrow> True | Some cr \<Rightarrow> remove_with (free_both sc) (sp_local sc) st cr p)
               | _ \<Rightarrow> True))
       else
         (case new_entry sc f sr st of
            Inl _ \<Rightarrow> True
          | Inr (new, st) \<Rightarrow> splice_with (free_both sc) (sp_lazy sc) st origin p new \<and>
              (case splice_entry (sp_lazy sc) st origin p new of
                 Inl _ \<Rightarrow> True
               | Inr (h, st) \<Rightarrow> splice_with (free_both sc) (sp_local sc) st clone p new)))"

primrec paths_free :: "'s scoped_ctx \<Rightarrow> scoped_found \<Rightarrow> scoped_result list \<Rightarrow> 's scoped_state \<Rightarrow> bool" where
  "paths_free sc f [] x \<longleftrightarrow> True"
| "paths_free sc f (sr # srs) x \<longleftrightarrow>
     path_free sc f sr x \<and> (case apply_path sc f sr x of Inl _ \<Rightarrow> True | Inr x \<Rightarrow> paths_free sc f srs x)"

text \<open>Paths apart from the pushed ones lead where they led, in both trees.\<close>

definition frame :: "'s scoped_ctx \<Rightarrow> 's scoped_state \<Rightarrow> 's scoped_state \<Rightarrow> string list \<Rightarrow> bool" where
  "frame sc x x' q \<longleftrightarrow> (\<forall>r. remote_at sc x q = Inr r \<longrightarrow> remote_at sc x' q = Inr r) \<and>
     (\<forall>r. clone_at sc x q = Inr r \<longrightarrow> clone_at sc x' q = Inr r)"

text \<open>The outcome of the push of one path.\<close>

definition path_pushed :: "'s scoped_ctx \<Rightarrow> tree_entry option \<Rightarrow> scoped_result \<Rightarrow> 's scoped_state \<Rightarrow> 's scoped_state \<Rightarrow> bool" where
  "path_pushed sc n sr x x' \<longleftrightarrow>
     (if changes sc x sr
      then remote_at sc x' (sc_components sr) = Inr n \<and> clone_at sc x' (sc_components sr) = Inr n
      else remote_at sc x' (sc_components sr) = Inr None)"

abbreviation scoped_origin :: "'s scoped_state \<Rightarrow> hash option" where "scoped_origin x \<equiv> fst x"
abbreviation scoped_clone :: "'s scoped_state \<Rightarrow> hash option" where "scoped_clone x \<equiv> fst (snd x)"
abbreviation scoped_change :: "'s scoped_state \<Rightarrow> bool" where "scoped_change x \<equiv> fst (snd (snd x))"
abbreviation scoped_store :: "'s scoped_state \<Rightarrow> 's tree_state" where "scoped_store x \<equiv> snd (snd (snd x))"

lemma at_simps:
  "remote_at sc (a, b, ch, st) q = navigate_from (sp_lazy sc) (ts_store st) a q"
  "clone_at sc (a, b, ch, st) q = navigate_from (sp_local sc) (ts_store st) b q"
  by (simp_all add: remote_at_def clone_at_def navigate_entry_opt_def navigate_from_def)

lemma navigate_step:
  assumes "scoped_step hmac R r key sc st st'"
  shows "navigate_from (sp_lazy sc) (ts_store st) a q = Inr n \<Longrightarrow> navigate_from (sp_lazy sc) (ts_store st') a q = Inr n"
    "navigate_from (sp_local sc) (ts_store st) a q = Inr n \<Longrightarrow> navigate_from (sp_local sc) (ts_store st') a q = Inr n"
  using assms navigate_from_keeps by (auto simp: scoped_step_def)

lemma tree_meta_step:
  assumes "scoped_step hmac R r key sc st st'" "scoped_ok hmac R r key sc st" "tree_meta (sp_local sc) st h = Inr (m, st)"
  shows "tree_meta (sp_local sc) st' h = Inr (m, st')"
proof -
  have c: "ts_cache st = None" "ts_cache st' = None" using assms(1) scoped_okD(9) [OF assms(2)] scoped_okD(9) by (auto simp: scoped_step_def)
  from assms(3) obtain t where "read_tree (sp_local sc) (ts_store st) h = Inr t" "m = (aggregate_mtime (entries t), aggregate_size (entries t), aggregate_blob_count (entries t))"
    by (auto simp: tree_meta_def load_all_entries_def tree_cache_get_def c rbind_Inr_iff)
  moreover from this assms(1) have "read_tree (sp_local sc) (ts_store st') h = Inr t" by (auto simp: scoped_step_def keeps_def)
  ultimately show ?thesis by (simp add: tree_meta_def load_all_entries_def tree_cache_get_def c cache_off)
qed

lemma new_entry_step:
  assumes "scoped_step hmac R r key sc st st'" "scoped_ok hmac R r key sc st" "new_entry sc f sr st = Inr (e, st)"
  shows "new_entry sc f sr st' = Inr (e, st')"
proof (cases "sf_stubs f (sc_rel sr)")
  case None
  with assms(3) show ?thesis
    by (auto simp: new_entry_def rbind_Inr_iff split: option.splits if_splits dest: tree_meta_step [OF assms(1,2)])
qed (use assms(3) in \<open>simp add: new_entry_def\<close>)

lemma path_ok_step:
  assumes "scoped_step hmac R r key sc st st'" "scoped_ok hmac R r key sc st" "path_ok sc f st sr"
  shows "path_ok sc f st' sr" "wanted sc f st' sr = wanted sc f st sr"
  using assms(3) new_entry_step [OF assms(1,2)] by (fastforce simp: path_ok_def wanted_def)+

section \<open>One path, and all of them\<close>

text \<open>The outcome of one path: both trees as they should be, and neither is lost.\<close>

definition path_done where
  "path_done hmac R r key sc n sr x x' \<longleftrightarrow> scoped_step hmac R r key sc (scoped_store x) (scoped_store x') \<and>
     path_pushed sc n sr x x' \<and> (\<forall>q. apart q (sc_components sr) \<longrightarrow> frame sc x x' q) \<and>
     (scoped_change x' \<longleftrightarrow> scoped_change x \<or> changes sc x sr) \<and>
     (scoped_origin x \<noteq> None \<or> changes sc x sr \<longrightarrow> scoped_origin x' \<noteq> None) \<and>
     (scoped_clone x \<noteq> None \<or> \<not> sc_delete sr \<longrightarrow> scoped_clone x' \<noteq> None)"

lemma removedD:
  assumes "scoped_ok hmac R r key sc st" "c \<in> {sp_local sc, sp_lazy sc}" "store_laws.removed c st st' base path x"
  shows "(case x of None \<Rightarrow> navigate_from c (ts_store st) (Some base) path = Inr None
      | Some h \<Rightarrow> navigate_from c (ts_store st) (Some base) path \<noteq> Inr None \<and> navigate_from c (ts_store st') (Some h) path = Inr None \<and>
          (\<forall>q r. apart q path \<longrightarrow> navigate_from c (ts_store st) (Some base) q = Inr r \<longrightarrow> navigate_from c (ts_store st') (Some h) q = Inr r))"
proof -
  obtain inv view where L: "store_laws (tc_ops c) inv view" by (rule laws_of [OF assms(1,2)])
  from assms(3) show ?thesis by (auto simp: store_laws.removed_def [OF L] split: option.splits)
qed

lemma remove_path_ok:
  assumes ok: "scoped_ok hmac R r key sc st" and p: "path_ok sc f st sr" and d: "sc_delete sr"
    and f: "path_free sc f sr (a, b, ch, st)"
  obtains x' where "remove_path sc (sc_components sr) (a, b, ch, st) = Inr x'" "path_done hmac R r key sc None sr (a, b, ch, st) x'"
proof -
  let ?p = "sc_components sr"
  have v: "\<forall>n \<in> set ?p. validate_entry_name n = Inr ()" using p by (simp add: path_ok_def)
  have noop: thesis if "remove_path sc ?p (a, b, ch, st) = Inr (a, b, ch, st')" "scoped_step hmac R r key sc st st'"
    "navigate_from (sp_lazy sc) (ts_store st) a ?p = Inr None" for st'
    using that(1) by (rule \<open>\<And>x'. _ \<Longrightarrow> _ \<Longrightarrow> thesis\<close>)
      (use that(2,3) d navigate_step [OF that(2)] in \<open>auto simp: path_done_def path_pushed_def changes_def frame_def at_simps\<close>)
  show thesis
  proof (cases a)
    case None
    then show thesis using noop [of st] scoped_step_refl [OF ok] by (simp add: remove_path_def navigate_from_def)
  next
    case (Some rr)
    have "remove_with (free_both sc) (sp_lazy sc) st rr ?p" using f d Some by (simp add: path_free_def Let_def)
    from scoped_remove [OF ok _ this v] obtain y st1 where
      y: "remove_entry (sp_lazy sc) st rr ?p = Inr (y, st1)" "scoped_step hmac R r key sc st st1" "store_laws.removed (sp_lazy sc) st st1 rr ?p y" by auto
    note rd = removedD [OF ok _ y(3), simplified]
    show thesis
    proof (cases y)
      case None
      with rd y(1,2) \<open>a = Some rr\<close> show thesis by (intro noop [of st1]) (simp_all add: remove_path_def)
    next
      case (Some h)
      have ok1: "scoped_ok hmac R r key sc st1" using y(2) by (simp add: scoped_step_def)
      note yf = f [unfolded path_free_def] y(1) Some \<open>a = Some rr\<close> d
      obtain b' st2 where z: "(case b of None \<Rightarrow> Inr (None, st1) | Some cr \<Rightarrow> remove_entry (sp_local sc) st1 cr ?p) = Inr (b', st2)"
        "scoped_step hmac R r key sc st1 st2"
        "navigate_from (sp_local sc) (ts_store st2) (case b' of None \<Rightarrow> b | Some h \<Rightarrow> Some h) ?p = Inr None"
        "\<forall>q r. apart q ?p \<longrightarrow> navigate_from (sp_local sc) (ts_store st1) b q = Inr r \<longrightarrow>
           navigate_from (sp_local sc) (ts_store st2) (case b' of None \<Rightarrow> b | Some h \<Rightarrow> Some h) q = Inr r"
      proof (cases b)
        case None
        then show thesis using that [of None st1] scoped_step_refl [OF ok1] by (simp add: navigate_from_def)
      next
        case (Some cr)
        have "remove_with (free_both sc) (sp_local sc) st1 cr ?p" using yf Some by (simp add: Let_def)
        from scoped_remove [OF ok1 _ this v] obtain w st2 where
          w: "remove_entry (sp_local sc) st1 cr ?p = Inr (w, st2)" "scoped_step hmac R r key sc st1 st2" "store_laws.removed (sp_local sc) st1 st2 cr ?p w" by auto
        note rw = removedD [OF ok1 _ w(3), simplified]
        show thesis
          by (rule that [of w st2]) (use w(1,2) rw Some navigate_step(2) [OF w(2)] in \<open>auto split: option.splits\<close>)
      qed
      have step: "scoped_step hmac R r key sc st st2" using y(2) z(2) by (rule scoped_step_trans)
      let ?x = "(Some h, case b' of None \<Rightarrow> b | Some h \<Rightarrow> Some h, True, st2)"
      have "remove_path sc ?p (a, b, ch, st) = Inr ?x" using yf y(1) z(1) by (simp add: remove_path_def)
      moreover have "path_done hmac R r key sc None sr (a, b, ch, st) ?x"
        using d step rd z(3,4) Some \<open>a = Some rr\<close> navigate_step [OF z(2)] navigate_step(2) [OF y(2)]
        by (auto simp: path_done_def path_pushed_def changes_def frame_def at_simps split: option.splits)
      ultimately show thesis by (rule that)
    qed
  qed
qed

lemma splice_path_ok:
  assumes ok: "scoped_ok hmac R r key sc st" and p: "path_ok sc f st sr" and d: "\<not> sc_delete sr"
    and f: "path_free sc f sr (a, b, ch, st)" and e: "new_entry sc f sr st = Inr (e, st)"
  obtains x' where "splice_path sc (sc_components sr) e (a, b, ch, st) = Inr x'" "path_done hmac R r key sc (Some e) sr (a, b, ch, st) x'"
proof -
  let ?p = "sc_components sr"
  have v: "\<forall>n \<in> set ?p. validate_entry_name n = Inr ()" "ename e = last ?p" using p d e by (auto simp: path_ok_def)
  have s: "splice_with (free_both sc) (sp_lazy sc) st a ?p e" using f d e by (simp add: path_free_def Let_def)
  from scoped_splice [OF ok _ s v(2,1)] obtain h st1 where
    y: "splice_entry (sp_lazy sc) st a ?p e = Inr (h, st1)" "scoped_step hmac R r key sc st st1"
      "navigate_from (sp_lazy sc) (ts_store st1) (Some h) ?p = Inr (Some e)"
      "\<And>q x. apart q ?p \<Longrightarrow> navigate_from (sp_lazy sc) (ts_store st) a q = Inr x \<Longrightarrow> navigate_from (sp_lazy sc) (ts_store st1) (Some h) q = Inr x"
    by blast
  have ok1: "scoped_ok hmac R r key sc st1" using y(2) by (simp add: scoped_step_def)
  have "splice_with (free_both sc) (sp_local sc) st1 b ?p e" using f d e y(1) by (simp add: path_free_def Let_def)
  from scoped_splice [OF ok1 _ this v(2,1)] obtain g st2 where
    z: "splice_entry (sp_local sc) st1 b ?p e = Inr (g, st2)" "scoped_step hmac R r key sc st1 st2"
      "navigate_from (sp_local sc) (ts_store st2) (Some g) ?p = Inr (Some e)"
      "\<And>q x. apart q ?p \<Longrightarrow> navigate_from (sp_local sc) (ts_store st1) b q = Inr x \<Longrightarrow> navigate_from (sp_local sc) (ts_store st2) (Some g) q = Inr x"
    by blast
  show thesis
  proof (rule that [of "(Some h, Some g, True, st2)"])
    show "splice_path sc ?p e (a, b, ch, st) = Inr (Some h, Some g, True, st2)" using y(1) z(1) by (simp add: splice_path_def)
    show "path_done hmac R r key sc (Some e) sr (a, b, ch, st) (Some h, Some g, True, st2)"
      using scoped_step_trans [OF y(2) z(2)] y(3,4) z(3,4) d navigate_step [OF z(2)] navigate_step(2) [OF y(2)]
      by (auto simp: path_done_def path_pushed_def changes_def frame_def at_simps)
  qed
qed

lemma apply_path_ok:
  assumes "scoped_ok hmac R r key sc (scoped_store x)" "path_ok sc f (scoped_store x) sr" "path_free sc f sr x"
  obtains x' where "apply_path sc f sr x = Inr x'" "path_done hmac R r key sc (wanted sc f (scoped_store x) sr) sr x x'"
proof -
  obtain a b ch st where x: "x = (a, b, ch, st)" by (cases x) auto
  show thesis
  proof (cases "sc_delete sr")
    case True
    from assms x have "scoped_ok hmac R r key sc st" "path_ok sc f st sr" "path_free sc f sr (a, b, ch, st)" by simp_all
    from remove_path_ok [OF this(1,2) True this(3)] that True x show thesis by (simp add: apply_path_def wanted_def) blast
  next
    case False
    then obtain e where "new_entry sc f sr st = Inr (e, st)" using assms(2) x by (auto simp: path_ok_def)
    moreover from assms x have "scoped_ok hmac R r key sc st" "path_ok sc f st sr" "path_free sc f sr (a, b, ch, st)" by simp_all
    ultimately show thesis using splice_path_ok [of hmac R r key sc st f sr a b ch e] that False x by (simp add: apply_path_def wanted_def) blast
  qed
qed

definition paths_done where
  "paths_done hmac R r key sc f srs x x' \<longleftrightarrow> scoped_step hmac R r key sc (scoped_store x) (scoped_store x') \<and>
     (\<forall>sr \<in> set srs. path_pushed sc (wanted sc f (scoped_store x) sr) sr x x') \<and>
     (\<forall>q. (\<forall>sr \<in> set srs. apart q (sc_components sr)) \<longrightarrow> frame sc x x' q) \<and>
     (scoped_change x' \<longleftrightarrow> scoped_change x \<or> (\<exists>sr \<in> set srs. changes sc x sr)) \<and>
     (scoped_origin x \<noteq> None \<or> (\<exists>sr \<in> set srs. changes sc x sr) \<longrightarrow> scoped_origin x' \<noteq> None) \<and>
     (scoped_clone x \<noteq> None \<or> (\<exists>sr \<in> set srs. \<not> sc_delete sr) \<longrightarrow> scoped_clone x' \<noteq> None)"

lemma apart_sym: "apart q p \<Longrightarrow> apart p q"
  by (simp add: apart_def)

lemma frame_trans: "frame sc x y q \<Longrightarrow> frame sc y z q \<Longrightarrow> frame sc x z q"
  by (simp add: frame_def)

lemma changes_frame: "frame sc x y (sc_components sr) \<Longrightarrow> remote_at sc x (sc_components sr) = Inr a \<Longrightarrow> changes sc y sr = changes sc x sr"
  by (auto simp: frame_def changes_def)

lemma path_pushed_later: "path_pushed sc n sr x y \<Longrightarrow> frame sc y z (sc_components sr) \<Longrightarrow> path_pushed sc n sr x z"
  by (auto simp: path_pushed_def frame_def split: if_splits)

lemma paths_done_Cons:
  assumes y: "path_done hmac R r key sc (wanted sc f (scoped_store x) sr) sr x y" and z: "paths_done hmac R r key sc f srs y z"
    and ok: "scoped_ok hmac R r key sc (scoped_store x)" and a: "paths_apart (sr # srs)" and rd: "paths_readable sc x (sr # srs)"
    and p: "\<forall>t \<in> set srs. path_ok sc f (scoped_store x) t"
  shows "paths_done hmac R r key sc f (sr # srs) x z"
proof -
  have st: "scoped_step hmac R r key sc (scoped_store x) (scoped_store y)" using y by (simp add: path_done_def)
  have fr: "frame sc x y (sc_components t)" if "t \<in> set srs" for t using y a that by (simp add: path_done_def)
  have ch: "changes sc y t = changes sc x t" if "t \<in> set srs" for t
    using changes_frame [OF fr [OF that]] rd that by (auto simp: paths_readable_def)
  have w: "wanted sc f (scoped_store y) t = wanted sc f (scoped_store x) t" if "t \<in> set srs" for t
    using path_ok_step(2) [OF st ok] p that by blast
  have "path_pushed sc (wanted sc f (scoped_store x) t) t x z" if "t \<in> set srs" for t
  proof -
    have "path_pushed sc (wanted sc f (scoped_store y) t) t y z" using z that by (simp add: paths_done_def)
    then show ?thesis using ch [OF that] w [OF that] by (simp add: path_pushed_def)
  qed
  moreover have "path_pushed sc (wanted sc f (scoped_store x) sr) sr x z"
  proof (rule path_pushed_later)
    show "path_pushed sc (wanted sc f (scoped_store x) sr) sr x y" using y by (simp add: path_done_def)
    show "frame sc y z (sc_components sr)" using z a apart_sym by (simp add: paths_done_def) blast
  qed
  moreover have "frame sc x z q" if "\<forall>t \<in> set (sr # srs). apart q (sc_components t)" for q
  proof (rule frame_trans)
    show "frame sc x y q" using y that by (simp add: path_done_def)
    show "frame sc y z q" using z that by (simp add: paths_done_def)
  qed
  moreover have "scoped_step hmac R r key sc (scoped_store x) (scoped_store z)"
    by (rule scoped_step_trans [OF st]) (use z in \<open>simp add: paths_done_def\<close>)
  moreover have "scoped_change z \<longleftrightarrow> scoped_change x \<or> (\<exists>t \<in> set (sr # srs). changes sc x t)"
    using y z ch by (simp add: path_done_def paths_done_def)
  moreover have "scoped_origin x \<noteq> None \<or> (\<exists>t \<in> set (sr # srs). changes sc x t) \<longrightarrow> scoped_origin z \<noteq> None"
    using y z ch unfolding path_done_def paths_done_def by (metis set_ConsD)
  moreover have "scoped_clone x \<noteq> None \<or> (\<exists>t \<in> set (sr # srs). \<not> sc_delete t) \<longrightarrow> scoped_clone z \<noteq> None"
    using y z unfolding path_done_def paths_done_def by (metis set_ConsD)
  ultimately show ?thesis unfolding paths_done_def by simp
qed

lemma apply_paths_ok:
  assumes "scoped_ok hmac R r key sc (scoped_store x)" "\<forall>sr \<in> set srs. path_ok sc f (scoped_store x) sr"
    and "paths_apart srs" "paths_readable sc x srs" "paths_free sc f srs x"
  shows "\<exists>x'. apply_paths sc f srs x = Inr x' \<and> paths_done hmac R r key sc f srs x x'"
  using assms
proof (induction srs arbitrary: x)
  case Nil
  then show ?case using scoped_step_refl by (auto simp: paths_done_def frame_def)
next
  case (Cons sr srs)
  note prems = Cons.prems
  from prems have p: "path_ok sc f (scoped_store x) sr" "path_free sc f sr x" by simp_all
  obtain y where y: "apply_path sc f sr x = Inr y" "path_done hmac R r key sc (wanted sc f (scoped_store x) sr) sr x y"
    by (rule apply_path_ok [OF prems(1) p])
  then have st: "scoped_step hmac R r key sc (scoped_store x) (scoped_store y)" by (simp add: path_done_def)
  have "\<exists>z. apply_paths sc f srs y = Inr z \<and> paths_done hmac R r key sc f srs y z"
  proof (rule Cons.IH)
    show "scoped_ok hmac R r key sc (scoped_store y)" using st by (simp add: scoped_step_def)
    show "\<forall>t \<in> set srs. path_ok sc f (scoped_store y) t" using path_ok_step(1) [OF st prems(1)] prems(2) by simp
    show "paths_apart srs" "paths_free sc f srs y" using prems(3,5) y(1) by simp_all
    show "paths_readable sc y srs" using prems(3,4) y(2) by (fastforce simp: paths_readable_def path_done_def frame_def)
  qed
  then obtain z where z: "apply_paths sc f srs y = Inr z" "paths_done hmac R r key sc f srs y z" by blast
  have "paths_done hmac R r key sc f (sr # srs) x z"
    by (rule paths_done_Cons [OF y(2) z(2) prems(1,3,4)]) (use prems(2) in simp)
  with y(1) z(1) show ?case by auto
qed

section \<open>The check\<close>

lemma check_path_iff:
  assumes "remote_at sc (a, b, ch, st) (sc_components sr) = Inr x" "clone_at sc (a, b, ch, st) (sc_components sr) = Inr y"
  shows "check_path sc f (ts_store st) a b sr = (if diverged sc f (a, b, ch, st) sr then Inl CasFailed else Inr ())"
  using assms by (auto simp: check_path_def diverged_def remote_at_def clone_at_def)

lemma check_paths_iff:
  assumes "paths_readable sc (a, b, ch, st) srs"
  shows "check_paths sc f (ts_store st) a b srs = (if \<exists>sr \<in> set srs. diverged sc f (a, b, ch, st) sr then Inl CasFailed else Inr ())"
  using assms
proof (induction srs)
  case (Cons sr srs)
  from Cons.prems obtain x y where "remote_at sc (a, b, ch, st) (sc_components sr) = Inr x" "clone_at sc (a, b, ch, st) (sc_components sr) = Inr y"
    by (auto simp: paths_readable_def)
  note c = check_path_iff [OF this, of f]
  have "paths_readable sc (a, b, ch, st) srs" using Cons.prems by (simp add: paths_readable_def)
  from Cons.IH [OF this] c show ?case by simp
qed simp

text \<open>A path that changes anything and has not diverged gives the recorded tree something: a
  deletion of what the remote has means that it was recorded.\<close>

lemma change_recorded:
  assumes "changes sc (a, b, ch, st) sr" "sc_delete sr" "\<not> diverged sc f (a, b, ch, st) sr" "paths_readable sc (a, b, ch, st) [sr]"
  shows "b \<noteq> None"
  using assms by (auto simp: changes_def diverged_def paths_readable_def at_simps navigate_from_def entries_match_def split: option.splits)

section \<open>The paths that are pushed\<close>

definition normal_path :: "string \<Rightarrow> bool" where
  "normal_path p \<longleftrightarrow> scoped_components p \<noteq> [] \<and> p = join_path (scoped_components p)"

lemma split_slash_slash: "n \<in> set (split_slash p) \<Longrightarrow> CHR ''/'' \<notin> set n"
  by (induction p arbitrary: n rule: split_slash.induct) (auto split: list.splits if_splits)

lemma scoped_components_ok: "ok_names (scoped_components p)"
  using split_slash_slash by (auto simp: scoped_components_def ok_names_def)

lemma scoped_components_nil: "scoped_components [] = []"
  by (simp add: scoped_components_def)

lemma inside_iff:
  assumes "normal_path p" "normal_path q"
  shows "prefix (q @ ''/'') p \<longleftrightarrow> strict_prefix (scoped_components q) (scoped_components p)"
proof -
  have "path_in_scope (join_path (scoped_components q)) (join_path (scoped_components p)) \<noteq> None \<longleftrightarrow> prefix (q @ ''/'') p"
    using assms scoped_components_ok join_path_nil by (auto simp: normal_path_def path_in_scope_def strip_prefix_None_iff prefix_def scoped_components_nil)
  with path_in_scope_iff [OF scoped_components_ok scoped_components_ok, of p q] assms show ?thesis by (simp add: normal_path_def)
qed

text \<open>Of normal paths, what is left is apart.\<close>

lemma dedup_apart:
  assumes "\<forall>p \<in> set paths. normal_path p" "p \<in> set (deduplicate_paths paths)" "q \<in> set (deduplicate_paths paths)" "p \<noteq> q"
  shows "apart (scoped_components p) (scoped_components q)"
proof -
  from assms have m: "normal_path p" "normal_path q" "\<not> prefix (q @ ''/'') p" "\<not> prefix (p @ ''/'') q" by (simp_all add: deduplicate_mem TransferObjects.below_def)
  then have "\<not> strict_prefix (scoped_components q) (scoped_components p)" "\<not> strict_prefix (scoped_components p) (scoped_components q)"
    using inside_iff by blast+
  moreover have "scoped_components p \<noteq> scoped_components q" using m(1,2) assms(4) by (auto simp: normal_path_def)
  ultimately show ?thesis by (auto simp: apart_def strict_prefix_def)
qed

text \<open>The scan leaves at most one result for each path, in order.\<close>

definition scoped_from :: "string list \<Rightarrow> scoped_result list \<Rightarrow> bool" where
  "scoped_from rels srs \<longleftrightarrow> (\<forall>p \<in> set rels. normal_path p) \<and> subseq (map sc_rel srs) (deduplicate_paths rels) \<and>
     (\<forall>sr \<in> set srs. sc_components sr = scoped_components (sc_rel sr))"

lemma scoped_from_apart: "scoped_from rels srs \<Longrightarrow> paths_apart srs"
proof -
  assume f: "scoped_from rels srs"
  then have sub: "subseq (map sc_rel srs) (deduplicate_paths rels)" by (simp add: scoped_from_def)
  then have d: "distinct (map sc_rel srs)"
    using subseqs_distinctD [of "map sc_rel srs" "deduplicate_paths rels"] deduplicate_paths_topmost [of rels] by simp
  have m: "sc_rel t \<in> set (deduplicate_paths rels)" if "t \<in> set srs" for t
    using list_emb_set [OF sub, of "sc_rel t"] that by auto
  have "apart (sc_components t) (sc_components sr)" if "sr \<in> set srs" "t \<in> set srs" "sc_rel t \<noteq> sc_rel sr" for sr t
    using dedup_apart [of rels "sc_rel t" "sc_rel sr"] f m that by (auto simp: scoped_from_def)
  with d show ?thesis by (induction srs) (auto simp: image_iff)
qed

section \<open>The push of single paths\<close>

text \<open>What the two roots lead to once the paths have been pushed, from the roots it began with.\<close>

definition scoped_outcome ::
    "'s scoped_ctx \<Rightarrow> scoped_found \<Rightarrow> scoped_result list \<Rightarrow> 's scoped_state \<Rightarrow> (hash \<times> hash) option \<Rightarrow> 's tree_state \<Rightarrow> bool" where
  "scoped_outcome sc f srs x m st' \<longleftrightarrow>
     (case m of
        None \<Rightarrow> \<forall>sr \<in> set srs. \<not> changes sc x sr
      | Some (h, c) \<Rightarrow>
          (\<exists>sr \<in> set srs. changes sc x sr) \<and>
          (\<forall>sr \<in> set srs. remote_at sc (Some h, Some c, True, st') (sc_components sr) = Inr (wanted sc f (scoped_store x) sr)) \<and>
          (\<forall>sr \<in> set srs. changes sc x sr \<longrightarrow>
             clone_at sc (Some h, Some c, True, st') (sc_components sr) = Inr (wanted sc f (scoped_store x) sr)) \<and>
          (\<forall>q. (\<forall>sr \<in> set srs. apart q (sc_components sr)) \<longrightarrow> frame sc x (Some h, Some c, True, st') q))"

lemma done_outcome:
  assumes d: "paths_done hmac R r key sc f srs (a, b, False, st) (a', b', ch', st')"
    and rd: "paths_readable sc (a, b, False, st) srs" and nd: "\<forall>sr \<in> set srs. \<not> diverged sc f (a, b, False, st) sr"
  shows "\<exists>m. (if \<not> ch' then Inr (None, st')
       else rbind (ok_or a' (Other ''push resulted in empty remote tree'')) (\<lambda>h.
            rbind (ok_or b' (Other ''push resulted in empty clone root'')) (\<lambda>c. Inr (Some (h, c), st')))) = Inr (m, st') \<and>
     scoped_outcome sc f srs (a, b, False, st) m st'"
proof (cases "\<exists>sr \<in> set srs. changes sc (a, b, False, st) sr")
  case False
  then show ?thesis using d by (auto simp: paths_done_def scoped_outcome_def)
next
  case True
  then obtain sr where sr: "sr \<in> set srs" "changes sc (a, b, False, st) sr" by blast
  have "b \<noteq> None \<or> \<not> sc_delete sr"
    using change_recorded [OF sr(2)] nd rd sr(1) by (fastforce simp: paths_readable_def)
  then have "b' \<noteq> None" "a' \<noteq> None" "ch'" using d sr unfolding paths_done_def by auto
  then obtain h c where e: "a' = Some h" "b' = Some c" "ch' = True" by auto
  have p: "\<forall>sr \<in> set srs. path_pushed sc (wanted sc f st sr) sr (a, b, False, st) (Some h, Some c, True, st')"
    and q: "\<forall>q. (\<forall>sr \<in> set srs. apart q (sc_components sr)) \<longrightarrow> frame sc (a, b, False, st) (Some h, Some c, True, st') q"
    using d e by (simp_all add: paths_done_def)
  have "remote_at sc (Some h, Some c, True, st') (sc_components t) = Inr (wanted sc f st t)" if "t \<in> set srs" for t
    using p that by (auto simp: path_pushed_def changes_def wanted_def split: if_splits)
  moreover have "clone_at sc (Some h, Some c, True, st') (sc_components t) = Inr (wanted sc f st t)"
    if "t \<in> set srs" "changes sc (a, b, False, st) t" for t
    using p that by (simp add: path_pushed_def)
  ultimately have "scoped_outcome sc f srs (a, b, False, st) (Some (h, c)) st'"
    using True q by (simp add: scoped_outcome_def)
  with e show ?thesis by simp
qed

lemma scoped_roots_ok:
  assumes "scoped_ok hmac R r key sc st" "\<forall>sr \<in> set srs. path_ok sc f st sr" "paths_apart srs"
    and rd: "paths_readable sc (a, b, False, st) srs" and nd: "\<forall>sr \<in> set srs. \<not> diverged sc f (a, b, False, st) sr"
    and "paths_free sc f srs (a, b, False, st)"
  shows "\<exists>m st'. scoped_roots sc f a b srs st = Inr (m, st') \<and> scoped_step hmac R r key sc st st' \<and>
    scoped_outcome sc f srs (a, b, False, st) m st'"
proof -
  from apply_paths_ok [of hmac R r key sc "(a, b, False, st)" srs f] assms obtain a' b' ch' st' where
    x: "apply_paths sc f srs (a, b, False, st) = Inr (a', b', ch', st')"
    and d: "paths_done hmac R r key sc f srs (a, b, False, st) (a', b', ch', st')" by auto
  have c: "check_paths sc f (ts_store st) a b srs = Inr ()" using check_paths_iff [OF rd] nd by simp
  have st: "scoped_step hmac R r key sc st st'" using d by (simp add: paths_done_def)
  from done_outcome [OF d rd nd] obtain m where "scoped_roots sc f a b srs st = Inr (m, st')"
    "scoped_outcome sc f srs (a, b, False, st) m st'" unfolding scoped_roots_def by (auto simp: c x)
  with st show ?thesis by blast
qed

text \<open>C3: The push of single paths is exact. If at the remote one of the pushed paths has
  moved on since it was recorded, to something that is not what is pushed, the push fails with a
  conflict and nothing is written. Otherwise it goes through: if every path is a deletion of
  something the remote does not have, there is nothing to publish, and else the root to be
  published leads, at every pushed path, to the scanned entry, or nowhere where the path was
  deleted; the root to be recorded says the same of every path that was changed; and every path
  apart from the pushed ones leads where it led, in both trees. It never ends with an empty
  tree to publish or to record, and every tree that could be read before can be read afterwards.\<close>

theorem scoped_push_exact:
  assumes "scoped_ok hmac R r key sc st" and "scoped_from rels srs" and "\<forall>sr \<in> set srs. path_ok sc f st sr"
    and "paths_readable sc (a, b, False, st) srs"
  shows "((\<exists>sr \<in> set srs. diverged sc f (a, b, False, st) sr) \<longrightarrow> scoped_roots sc f a b srs st = Inl CasFailed) \<and>
    ((\<forall>sr \<in> set srs. \<not> diverged sc f (a, b, False, st) sr) \<and> paths_free sc f srs (a, b, False, st) \<longrightarrow>
      (\<exists>m st'. scoped_roots sc f a b srs st = Inr (m, st') \<and> scoped_step hmac R r key sc st st' \<and>
         scoped_outcome sc f srs (a, b, False, st) m st'))"
  using scoped_roots_ok [OF assms(1,3) scoped_from_apart [OF assms(2)] assms(4)] check_paths_iff [OF assms(4), of f] by (auto simp: scoped_roots_def)

definition toy_scoped :: "objects_backend scoped_ctx" where
  "toy_scoped = \<lparr>sp_local = toy_trees,
     sp_lazy = toy_trees\<lparr>tc_ops := lazy_store toy_env (local_store toy_hmac None) (local_store toy_hmac None) (RemoteB []) None\<rparr>\<rparr>"

definition toy_scoped_result :: scoped_result where
  "toy_scoped_result = \<lparr>sc_rel = ''b'', sc_components = [''b''], sc_hash = toy_hash, sc_is_dir = False, sc_delete = False\<rparr>"

definition toy_scoped_found :: scoped_found where
  "toy_scoped_found = \<lparr>sf_stubs = Map.empty, sf_captured = [''b'' \<mapsto> toy_blob]\<rparr>"

definition toy_scoped_state :: "objects_backend tree_state" where
  "toy_scoped_state = \<lparr>ts_store = RemoteB [], ts_cache = None\<rparr>"

lemma toy_remote_empty:
  "store_read toy_env (local_store toy_hmac None) (RemoteB []) n None = Inl (ObjectNotFound (hex n))"
  "hash_ok n \<Longrightarrow> os_exists (local_store toy_hmac None) (RemoteB []) n = Inr False"
  by (simp_all add: store_read_def local_store_def store_with_keys_def backend_open_read_def backend_exists_def remote_find_def
      relabel_not_found_def hash_ok_def split: option.splits)

lemma toy_scoped_ok: "scoped_ok toy_hmac (local_store toy_hmac None) (RemoteB []) None toy_scoped toy_scoped_state"
  using toy_env_ok toy_remote_empty
  by (simp add: scoped_ok_def toy_scoped_def toy_trees_def local_trees_def serves_def toy_scoped_state_def)

lemma toy_lazy_read:
  assumes "hash_ok n" "os_exists (local_store toy_hmac None) s n = Inr True \<or> s = RemoteB []"
  shows "store_read toy_env (lazy_store toy_env (local_store toy_hmac None) (local_store toy_hmac None) (RemoteB []) None) s n None =
    store_read toy_env (local_store toy_hmac None) s n None"
  using assms toy_remote_empty by (auto simp: store_read_def lazy_store_def lazy_open_read_def lazy_ensure_local_def)

lemma toy_free_both:
  assumes "tree_free toy_trees s es" "hash_ok n" "n = compute (sha toy_env) (tree_serialise toy_json (Normal (sorted_entries es)))"
    and "os_exists (local_store toy_hmac None) s n = Inr True \<or> s = RemoteB []"
  shows "free_both toy_scoped s es"
  using assms toy_lazy_read [OF assms(2,4)] by (simp add: free_both_def toy_scoped_def tree_free_def Let_def toy_trees_def local_trees_def)

lemma toy_scoped_splice: "splice_entry (sp_lazy toy_scoped) toy_scoped_state None [''b''] toy_blob = Inr (toy_tree_hash, toy_tree_state1)"
proof -
  have "case splice_entry (sp_lazy toy_scoped) toy_scoped_state None [''b''] toy_blob of Inl _ \<Rightarrow> False
     | Inr (h, st) \<Rightarrow> h = toy_tree_hash \<and> ts_store st = ts_store toy_tree_state1 \<and> Option.is_none (ts_cache st)" by code_simp
  then show ?thesis by (auto simp: toy_tree_state1_def Option.is_none_def split: sum.splits)
qed

lemma toy_scoped_free: "paths_free toy_scoped toy_scoped_found [toy_scoped_result] (None, None, False, toy_scoped_state)"
proof -
  let ?es = "[toy_blob]"
  have h: "toy_tree_hash = compute (sha toy_env) (tree_serialise toy_json (Normal (sorted_entries ?es)))" "hash_ok toy_tree_hash"
    using toy_hash64(2) by (simp_all add: toy_tree_hash_def toy_tree_bytes_def toy_json_def sorted_entries_def tree_serialise_def toy_blob_def)
  have 0: "free_both toy_scoped (RemoteB []) ?es" by (rule toy_free_both [OF toy_tree_free h(2,1)]) simp_all
  have ex: "os_exists (local_store toy_hmac None) (ts_store toy_tree_state1) toy_tree_hash = Inr True" by code_simp
  have "store_read toy_env (local_store toy_hmac None) (ts_store toy_tree_state1) toy_tree_hash None = Inr toy_tree_bytes" by code_simp
  then have "tree_free toy_trees (ts_store toy_tree_state1) ?es" using toy_tree_free [of ?es] h
    by (simp add: tree_free_def Let_def toy_trees_def local_trees_def toy_tree_hash_def)
      (simp add: toy_tree_bytes_def toy_json_def sorted_entries_def tree_serialise_def toy_blob_def)
  then have "free_both toy_scoped (ts_store toy_tree_state1) ?es" by (rule toy_free_both [OF _ h(2,1)]) (simp add: ex)
  with 0 toy_scoped_splice show ?thesis
    by (simp add: path_free_def toy_scoped_result_def toy_scoped_found_def new_entry_def toy_scoped_state_def replace_entry_def split: sum.splits)
qed

theorem scoped_push_exact_witness:
  "\<exists>h c st'. scoped_roots toy_scoped toy_scoped_found None None [toy_scoped_result] toy_scoped_state = Inr (Some (h, c), st') \<and>
     remote_at toy_scoped (Some h, Some c, True, st') [''b''] = Inr (Some toy_blob)"
proof -
  let ?x = "(None, None, False, toy_scoped_state)"
  have at: "remote_at toy_scoped ?x q = Inr None" "clone_at toy_scoped ?x q = Inr None" for q
    by (simp_all add: at_simps navigate_from_def)
  have "deduplicate_paths [''b''] = [''b'']" "normal_path ''b''" by code_simp+
  then have fr: "scoped_from [''b''] [toy_scoped_result]" by (simp add: scoped_from_def toy_scoped_result_def scoped_components_def)
  have p: "path_ok toy_scoped toy_scoped_found toy_scoped_state toy_scoped_result"
    using toy_blob_valid by (simp add: path_ok_def toy_scoped_result_def new_entry_def toy_scoped_found_def toy_blob_def)
  have "\<not> diverged toy_scoped toy_scoped_found ?x toy_scoped_result" "changes toy_scoped ?x toy_scoped_result"
    by (simp_all add: diverged_def at entries_match_def changes_def toy_scoped_result_def)
  with scoped_push_exact [OF toy_scoped_ok fr, of toy_scoped_found None None] p toy_scoped_free
  have "\<exists>m st'. scoped_roots toy_scoped toy_scoped_found None None [toy_scoped_result] toy_scoped_state = Inr (m, st') \<and>
    scoped_outcome toy_scoped toy_scoped_found [toy_scoped_result] ?x m st'" by (auto simp: paths_readable_def at)
  moreover have "wanted toy_scoped toy_scoped_found toy_scoped_state toy_scoped_result = Some toy_blob"
    by (simp add: wanted_def toy_scoped_result_def new_entry_def toy_scoped_found_def)
  ultimately show ?thesis using \<open>changes toy_scoped ?x toy_scoped_result\<close>
    by (auto simp: scoped_outcome_def toy_scoped_result_def split: option.splits)
qed

end
