(* ===== verification/Spec2Isabelle.thy ===== *)
theory Spec2Isabelle
  imports Base32 PackCompact PullDiff PushScoped
begin

text \<open>
  A verification development for omemfs, a tool that synchronises a working tree with a remote
  through content-addressed objects.

  \<^bold>\<open>The program.\<close> A snapshot of a working tree is a tree object that names its children by
  SHA-256 hash (\<open>object.rs\<close>); large files are cut into chunks named by a manifest
  (\<open>codec/chunk.rs\<close>). Objects are compressed and, for a remote with a key, encrypted (\<open>codec/\<close>),
  and live in a local cache (\<open>store/objects_dir.rs\<close>, \<open>store/local.rs\<close>) and on a remote. On the
  remote a pack layer (\<open>codec/pack/\<close>) groups small objects into pack files and inlines the
  smallest into index files; an index root, replaced by compare-and-swap, names the index files,
  a Bloom filter and the root of the tree. \<open>push\<close> scans the working tree (\<open>scan.rs\<close>, with the
  hints of \<open>stat_cache.rs\<close>, the exclusions of \<open>filter.rs\<close> and the markers of \<open>stub.rs\<close>), uploads what the
  remote lacks (\<open>commands/transfer.rs\<close>) and replaces the root; \<open>pull\<close> compares three snapshots
  (\<open>commands/pull.rs\<close>) and merges (\<open>line_merge.rs\<close>); \<open>pack\<close> compacts the index files
  (\<open>commands/pack.rs\<close>). All file names are relative to \<open>src/src/\<close>.

  \<^bold>\<open>Conventions.\<close> Rust's fixed-width integers are words, so that arithmetic wraps where the code
  would; byte strings are lists of 8-bit words; \<open>Result\<close> is a sum with the error on the left and the
  \<open>?\<close> operator is \<open>rbind\<close>. State is passed explicitly. SHA-256, AES-GCM, zstd, HMAC, FastCDC, the
  JSON codec of trees, the Myers diff and the file system's answers are arguments of the
  definitions; where a theorem relies on one of them, a named hypothesis states the documented
  behaviour (\<open>zstd_lossless\<close>, \<open>gcm_opens\<close>, \<open>digest32\<close>, \<open>cdc_ok\<close> and others), and its witness uses a
  concrete function. Hash collisions are never excluded as such, since a function into 32 bytes
  cannot be injective: a theorem about writing objects supposes that the names it writes are free
  or already hold the same bytes (\<open>free_for\<close>, \<open>tree_free\<close>, \<open>next_free\<close>).

  \<^bold>\<open>Theories.\<close>
  \<^item> \<open>Prelude\<close>: words, byte strings, errors (\<open>error.rs\<close>), results and the generic lemmas.
    \<open>Interfaces\<close>: the locales \<open>wire_format\<close> (a serialiser and a parser that agree) and
    \<open>keyed_collection\<close>.
  \<^item> \<open>Objects\<close> (\<open>object.rs\<close>): hashes, entries, trees, blobs, chunks, manifests, validation of names.
    \<open>Base32\<close> (\<open>base32.rs\<close>): both bit-buffer loops. \<open>Codec\<close> (\<open>codec/compress.rs\<close>,
    \<open>codec/encrypt.rs\<close>, \<open>codec/mod.rs\<close>): the pipeline and its round trip.
  \<^item> \<open>Stores\<close> (\<open>store/mod.rs\<close>): the trait as a record of operations, its contract as the locale
    \<open>store_laws\<close>, the codec's store helpers as its clients. \<open>ObjectsDir\<close> (\<open>store/objects_dir.rs\<close>): the
    directory whose sharding depth adapts, its migration and the states a crash leaves.
    \<open>LocalStore\<close> (\<open>store/local.rs\<close>, \<open>store/remote_objects_dir.rs\<close>): both layouts under one interface.
  \<^item> \<open>Chunking\<close> (\<open>codec/chunk.rs\<close>): both writers, the snapshot loop, the readers, the completeness test.
  \<^item> \<open>Bloom\<close>, \<open>IndexFile\<close>, \<open>IndexRoot\<close> (\<open>codec/pack/bloom.rs\<close>, \<open>index.rs\<close>, \<open>index_root.rs\<close>,
    \<open>root_pointer.rs\<close>): the formats, and the root pointer with the interleavings of its clients.
    \<open>PackIndex\<close>: the index caches that writer and reader share. \<open>PackWriter\<close> (\<open>writer.rs\<close>): routing,
    flushing, publication, and a step relation for concurrent push workers. \<open>PackReader\<close>
    (\<open>reader.rs\<close>): the lookup with its caches. \<open>PackPublish\<close>: both together. \<open>PackCompact\<close>
    (\<open>commands/pack.rs\<close>): compaction.
  \<^item> \<open>TreeOps\<close> and \<open>Flatten\<close> (\<open>tree_ops.rs\<close>): navigation, splicing, removal, flattening.
    \<open>LazyTrees\<close>: the read-through store.
  \<^item> \<open>LineMerge\<close> (\<open>line_merge.rs\<close>): the merge of text files. \<open>PullDiff\<close> (\<open>commands/pull.rs\<close>): the diff
    of snapshots, the partition into clean changes and conflicts, the automatic resolution.
  \<^item> \<open>ParallelBfs\<close> and \<open>TransferObjects\<close> (\<open>commands/transfer.rs\<close>): the walk by several workers, cut at
    every access to shared state, and the transfers that use it.
  \<^item> \<open>Filters\<close> (\<open>filter.rs\<close>), \<open>StatCache\<close> (\<open>stat_cache.rs\<close>), \<open>Stubs\<close> (\<open>stub.rs\<close>), \<open>Scan\<close> and \<open>ScanRest\<close>
    (\<open>scan.rs\<close> with the read side of \<open>fsguard.rs\<close>): what a snapshot of the working tree is.
  \<^item> \<open>Push\<close> (\<open>commands/push.rs\<close>): the push of a whole working tree as the composition of the above.
    \<open>PushScoped\<close>: the push of single paths, from what was scanned there to the new roots.

  \<^bold>\<open>Interfaces.\<close> \<open>wire_format\<close> is interpreted by hashes in hexadecimal, manifests, Base32 text, Bloom
  filters, index files and the index root; \<open>keyed_collection\<close> by index files. \<open>store_laws\<close> is what the
  codec, the chunk writers, the tree operations and the whole pack layer are proved against; it holds
  of every local and directory store (\<open>storage_keys\<close>, of which it is a \<open>sublocale\<close>: encrypted
  remotes rename objects by HMAC), of the caches of the reader, and of the read-through store
  (\<open>lazy_cache\<close>). \<open>cache_over\<close> is a source behind a cache. \<open>graph_walk\<close> is what the parallel walk
  needs of its node function; \<open>copy\<close> (a transfer into a local store) and \<open>uploads\<close> (a push) are its
  interpretations.

  \<^bold>\<open>What the lemmas show.\<close> Formats: parsing inverts serialising, and hostile input is refused or
  yields a bounded, well-formed value. Stores: a write makes its object readable and changes no other,
  also after a crash during a migration. Pack layer: everything a push routes is read back byte for
  byte, nothing that was reachable is lost by a push or a compaction (with the stated exceptions), the
  lookup with caches equals a plain search, and the compare-and-swap loses no update. Trees: splicing
  and removal change exactly the paths they name, flattening equals navigation, and the diff has at
  every path exactly the entry that a pointwise specification (\<open>change\<close>) gives. Pull: a change that is
  taken over meets an unchanged or equal local file at its path (overlaps of a file with a directory
  are not looked for by the code), and a merge loses no
  record. Scan: a recorded name disappears from a push only for cause, a damaged marker aborts,
  and at rest the snapshot is a function of the files and of the recorded time stamps, not of the
  caches. Transfers: everything reachable is readable afterwards, also when the walk stops at objects
  that are already there, if these are complete. Walks: no worker set is stuck or runs forever
  while all items succeed, and each reachable object is processed once. Push: the remote is complete
  afterwards, and a push replaces only the root it has seen; a push of single paths changes exactly
  these, in the remote's and in the recorded tree, or reports that one has moved on. Some theorems record what goes
  wrong: a notification that can be lost, objects that a compaction makes unreachable, and objects of the
  cold tier that every push hides when it replaces a structurally defective filter.

  \<^bold>\<open>Bounds and fuel.\<close> Tree objects name each other by hash, so functions that descend through them
  (\<open>flatten_into\<close>, \<open>diff_recursive\<close>, \<open>collect_tree_hashes\<close>) take the nesting depth as fuel; the
  theorems about flattening and comparing show that fuel for the nesting depth of the stored
  tree (\<open>nested\<close>) is enough. The serial walk over an object graph is a partial function,
  because the graph is data; that it ends is proved for finite reachable sets. All other loops are
  total, with measures where the recursion is not structural. A snapshot of a changing file is attempted
  \<open>SNAPSHOT_ATTEMPTS\<close> times, as in the code. Pack offsets are 32 bits wide; the buffer stays
  below \<open>PACK_TARGET\<close>, so they do not wrap.

  \<^bold>\<open>Not modelled.\<close> The cloud stores are adapters to a library and reach the network. The write side of
  \<open>fsguard.rs\<close>, \<open>restore\<close>, \<open>clone\<close>, \<open>expand\<close>, \<open>stub\<close>, \<open>conflict\<close> and the application of a pull consist of
  system calls on the working tree, between which other processes may act. \<open>ls\<close>, \<open>cat\<close>, \<open>log\<close>, \<open>stats\<close>,
  progress, terminal and timers produce output that nothing reads back. \<open>repo.rs\<close>, \<open>lock.rs\<close> and \<open>main.rs\<close> read
  configuration, take a file lock and parse arguments. Of the modelled parts: the
  floating-point formulas of the filter are a parameter or left out, a node of the parallel walk is one
  step, the test of \<open>flush_pack\<close> for an empty buffer and the flush are one step (\<open>writer.rs\<close> tests before
  it takes the lock, so that two workers can also write a pack without entries, which no index names),
  the scan runs its jobs in the order of the serial mode, and file-system failures are modelled
  where the code distinguishes them (the scan and the snapshot of a file), not inside the object
  directories. Of the push of single paths, the capture of each path and the reconciliation of stubs
  are left out; so is the push to a backup remote.
\<close>

end
